(* ===== verification/Prelude.thy ===== *)
theory Prelude
  imports Main "HOL-Library.Word"
begin

text \<open>
  Shared vocabulary of the development: the machine integers of the 64-bit targets the
  application is built for, byte strings, the flat byte-addressed memory that structs and buffers
  live in, little-endian loads and stores, and the generic lemmas on lists and words that the
  component theories use.

  \<^item> \<open>mem_read\<close> / \<open>mem_write\<close> are the byte loops behind \<open>memcpy\<close> and every
    \<open>dest[i] = buf[i]\<close> loop;
  \<^item> \<open>le_word\<close> / \<open>le_bytes\<close> give the value of a little-endian object in memory;
  \<^item> the collections \<open>mem_simps\<close> and \<open>le_simps\<close> carry the facts about them.
\<close>

unbundle bit_operations_syntax

type_synonym u8 = "8 word"
type_synonym u16 = "16 word"
type_synonym u32 = "32 word"
type_synonym u64 = "64 word"
type_synonym bytes = "u8 list"
type_synonym mem = "u64 \<Rightarrow> u8"

named_theorems mem_simps "facts about the flat memory"
named_theorems le_simps "facts about little-endian values"

section \<open>Lists\<close>

lemma map_upt_nth_eq [simp]: "map (\<lambda>i. xs ! i) [0..<length xs] = xs"
  by (rule nth_equalityI) simp_all

lemma list_update_append_last: "xs \<noteq> [] \<Longrightarrow> (xs @ ys)[length xs - Suc 0 := x] = butlast xs @ x # ys"
  by (cases xs rule: rev_cases) (simp_all add: list_update_append)

section \<open>Words\<close>

lemma unat_drop_bit_div: "unat (drop_bit n (w :: 'a::len word)) = unat w div 2 ^ n"
  unfolding unat_drop_bit_eq by (simp add: drop_bit_eq_div)

lemma unat_of_nat_small [simp]: "n < 2 ^ LENGTH('a) \<Longrightarrow> unat (of_nat n :: 'a::len word) = n"
  by (simp add: unat_of_nat take_bit_nat_eq_self)

lemma sless_0_iff_bit: "(v :: 'a::len word) <s 0 \<longleftrightarrow> bit v (LENGTH('a) - 1)"
  by (simp add: word_sless_alt sint_uint signed_take_bit_negative_iff bit_simps)

lemma ucast_and_FF: "ucast (w AND 0xFF :: 'a::len word) = (ucast w :: u8)"
proof -
  have "ucast (take_bit 8 w) = (ucast w :: u8)"
    by (rule bit_word_eqI) (auto simp: bit_simps)
  then show ?thesis by (simp add: take_bit_eq_mask mask_eq_exp_minus_1)
qed

lemma unat_inc_below: "n < m \<Longrightarrow> unat (n + 1) = Suc (unat n)" for n m :: "'a::len word"
proof -
  assume "n < m"
  then have "unat n < unat m" by (simp add: word_less_nat_alt)
  also have "unat m < 2 ^ LENGTH('a)" by (rule unsigned_less)
  finally have "n + 1 \<noteq> 0"
    using \<open>n < m\<close> by (metis add.inverse_unique add.commute word_order.extremum_strict)
  then show ?thesis by (metis add_diff_cancel_right' unat_minus_one Suc_pred' unat_gt_0)
qed

text \<open>The overflow test \<open>a + b < a || a + b > limit\<close> catches every sum above the limit.\<close>

lemma add_limit_test:
  fixes a b m :: "'a::len word"
  assumes "\<not> unat a + unat b \<le> unat m"
  shows "a + b < a \<or> m < a + b"
proof (cases "unat a + unat b < 2 ^ LENGTH('a)")
  case True
  with assms show ?thesis by (simp add: word_less_nat_alt unat_plus_if')
next
  case False
  moreover have "unat b < 2 ^ LENGTH('a)" by (rule unsigned_less)
  ultimately have "unat a + unat b - 2 ^ LENGTH('a) < unat a" by linarith
  with False show ?thesis by (simp add: word_less_nat_alt unat_plus_if')
qed

lemma nat_mod128_or: "(n mod 128) OR 128 = n mod 128 + (128 :: nat)"
proof -
  have "take_bit k n AND push_bit k 1 = (0 :: nat)" for k
    by (rule bit_eqI) (auto simp: bit_simps)
  then have "take_bit 7 n + push_bit 7 1 = take_bit 7 n OR push_bit 7 1"
    by (rule disjunctive_add_eq_or)
  then show ?thesis by (simp add: take_bit_eq_mod push_bit_eq_mult)
qed

lemma unat_and_7F: "unat (v AND 0x7F :: 'a::len word) = unat v mod 128" if "8 \<le> LENGTH('a)"
proof -
  have "v AND 0x7F = take_bit 7 v"
    by (simp add: take_bit_eq_mask mask_eq_exp_minus_1)
  then show ?thesis
    unfolding \<open>v AND 0x7F = take_bit 7 v\<close> unsigned_take_bit_eq by (simp add: take_bit_eq_mod)
qed

lemma unat_or_80: "unat ((v AND 0x7F) OR 0x80 :: 'a::len word) = unat v mod 128 + 128"
  if "8 \<le> LENGTH('a)"
proof -
  have "(128 :: nat) < 2 ^ LENGTH('a)"
    using power_increasing [of 8 "LENGTH('a)" "2 :: nat"] that by simp
  then have "unat (0x80 :: 'a word) = 128"
    by (simp add: unat_numeral take_bit_nat_eq_self)
  with that show ?thesis by (simp add: unsigned_or_eq unat_and_7F nat_mod128_or)
qed

section \<open>Flat memory\<close>

definition mem_read :: "mem \<Rightarrow> u64 \<Rightarrow> nat \<Rightarrow> bytes" where
  "mem_read m p n = map (\<lambda>i. m (p + of_nat i)) [0..<n]"

fun mem_write :: "mem \<Rightarrow> u64 \<Rightarrow> bytes \<Rightarrow> mem" where
  "mem_write m p [] = m"
| "mem_write m p (b # bs) = mem_write (m(p := b)) (p + 1) bs"

text \<open>The distance from \<open>p\<close> forward to \<open>q\<close>, in bytes.\<close>

abbreviation mem_off :: "u64 \<Rightarrow> u64 \<Rightarrow> nat" where
  "mem_off p q \<equiv> unat (q - p)"

lemma length_mem_read [simp]: "length (mem_read m p n) = n"
  by (simp add: mem_read_def)

lemma nth_mem_read [simp]: "i < n \<Longrightarrow> mem_read m p n ! i = m (p + of_nat i)"
  by (simp add: mem_read_def)

lemma mem_read_0 [simp]: "mem_read m p 0 = []"
  by (simp add: mem_read_def)

lemma mem_read_Suc: "mem_read m p (Suc n) = m p # mem_read m (p + 1) n"
  by (rule nth_equalityI) (auto simp: nth_Cons add_ac split: nat.splits)

lemma take_mem_read [simp]: "take k (mem_read m p n) = mem_read m p (min k n)"
  by (rule nth_equalityI) auto

lemma drop_mem_read [simp]: "drop k (mem_read m p n) = mem_read m (p + of_nat k) (n - k)"
  by (rule nth_equalityI) (auto simp: add_ac)

lemma mem_read_append: "mem_read m p (n + k) = mem_read m p n @ mem_read m (p + of_nat n) k"
  by (rule nth_equalityI) (auto simp: nth_append add_ac algebra_simps)

lemma unat_minus_one_sub:
  fixes p q :: u64
  assumes "q \<noteq> p"
  shows "mem_off p q = Suc (mem_off (p + 1) q)"
proof -
  have "q - p \<noteq> 0" using assms by simp
  then have "unat (q - p) = Suc (unat (q - p - 1))"
    by (simp add: unat_minus_one unat_gt_0)
  moreover have "q - p - 1 = q - (p + 1)" by simp
  ultimately show ?thesis by simp
qed

lemma mem_write_apply:
  "length bs \<le> 2 ^ 64 \<Longrightarrow>
     mem_write m p bs q = (if mem_off p q < length bs then bs ! mem_off p q else m q)"
proof (induction bs arbitrary: m p)
  case Nil
  then show ?case by simp
next
  case (Cons b bs)
  then have IH: "mem_write (m(p := b)) (p + 1) bs q =
      (if mem_off (p + 1) q < length bs then bs ! mem_off (p + 1) q else (m(p := b)) q)"
    by simp
  show ?case
  proof (cases "q = p")
    case True
    have "unat (p - (p + 1)) = 2 ^ 64 - 1" by (simp add: unsigned_minus_1_eq_mask mask_eq_exp_minus_1)
    with True Cons.prems IH show ?thesis by simp
  next
    case False
    with unat_minus_one_sub [OF False] show ?thesis by (simp add: IH)
  qed
qed

lemma mem_read_write_same [mem_simps]:
  assumes "length bs \<le> 2 ^ 64"
  shows "mem_read (mem_write m p bs) p (length bs) = bs"
proof (rule nth_equalityI)
  fix i assume "i < length (mem_read (mem_write m p bs) p (length bs))"
  then have i: "i < length bs" by simp
  then have "unat (of_nat i :: u64) = i"
    using assms by (simp add: unat_of_nat)
  with i show "mem_read (mem_write m p bs) p (length bs) ! i = bs ! i"
    by (simp add: mem_write_apply [OF assms])
qed simp

lemma mem_write_append: "mem_write m p (xs @ ys) = mem_write (mem_write m p xs) (p + of_nat (length xs)) ys"
  by (induction xs arbitrary: m p) (simp_all add: algebra_simps)

lemma mem_off_add: "n + k < 2 ^ 64 \<Longrightarrow> mem_off p (p + (of_nat n + of_nat k)) = n + k"
  using unat_of_nat_small [of "n + k", where 'a = 64] by simp

lemma mem_write_outside:
  assumes "n + length bs \<le> mem_off p q" "n + length bs < 2 ^ 64"
  shows "mem_write m (p + of_nat n) bs q = m q"
proof -
  have n: "unat (of_nat n :: u64) = n"
    using assms(2) by (intro unat_of_nat_small) simp
  have "mem_off (p + of_nat n) q = unat ((q - p) - of_nat n)"
    by (simp add: diff_diff_eq)
  also have "\<dots> = mem_off p q - n"
    using assms(1) n by (subst unat_sub) (simp_all add: word_le_nat_alt)
  finally show ?thesis
    using assms by (subst mem_write_apply) auto
qed

lemma mem_write_before:
  assumes "n + length bs < 2 ^ 64" "i < n"
  shows "mem_write m (p + of_nat n) bs (p + of_nat i) = m (p + of_nat i)"
proof -
  have "unat (of_nat n :: u64) = n" "unat (of_nat i :: u64) = i"
    using assms by (auto intro!: unat_of_nat_small)
  then have "mem_off (p + of_nat n) (p + of_nat i) = i + 2 ^ 64 - n"
    using assms(2) by (simp add: unat_sub_if_size word_size)
  then show ?thesis using assms by (subst mem_write_apply) auto
qed

lemma mem_read_write_extend:
  assumes "n + length bs < 2 ^ 64"
  shows "mem_read (mem_write m (p + of_nat n) bs) p (n + length bs) = mem_read m p n @ bs"
proof -
  have "mem_read (mem_write m (p + of_nat n) bs) p n = mem_read m p n"
    by (rule nth_equalityI) (simp_all add: mem_write_before [OF assms])
  then show ?thesis
    using assms by (simp add: mem_read_append mem_read_write_same)
qed

section \<open>Little-endian objects\<close>

primrec le_word :: "bytes \<Rightarrow> 'a::len word" where
  "le_word [] = 0"
| "le_word (b # bs) = ucast b OR push_bit 8 (le_word bs)"

primrec le_bytes :: "nat \<Rightarrow> 'a::len word \<Rightarrow> bytes" where
  "le_bytes 0 w = []"
| "le_bytes (Suc n) w = ucast w # le_bytes n (drop_bit 8 w)"

lemma length_le_bytes [simp]: "length (le_bytes n w) = n"
  by (induction n arbitrary: w) simp_all

lemma le_word_le_bytes [le_simps]: "le_word (le_bytes n w) = take_bit (8 * n) w"
proof (induction n arbitrary: w)
  case 0
  then show ?case by simp
next
  case (Suc n)
  have "ucast (ucast w :: u8) OR push_bit 8 (take_bit (8 * n) (drop_bit 8 w)) = take_bit (8 + 8 * n) w"
    by (rule bit_word_eqI) (auto simp: bit_simps)
  with Suc show ?case by simp
qed

section \<open>Conversion to a signed 32-bit integer\<close>

definition to_int :: "int \<Rightarrow> int" where
  "to_int x = signed_take_bit 31 x"

lemma to_int_id: "- 2147483648 \<le> x \<Longrightarrow> x < 2147483648 \<Longrightarrow> to_int x = x"
  unfolding to_int_def by (subst signed_take_bit_int_eq_self_iff) simp

lemma to_int_diff: "to_int (a - to_int b) = to_int (a - b)"
  unfolding to_int_def by (metis signed_take_bit_diff signed_take_bit_signed_take_bit min.idem)

text \<open>The results of a sequence of calls, each acting on the state that the last one left.\<close>

fun run_calls :: "('c \<Rightarrow> 's \<Rightarrow> 'r \<times> 's) \<Rightarrow> 'c list \<Rightarrow> 's \<Rightarrow> 'r list \<times> 's" where
  "run_calls f [] s = ([], s)"
| "run_calls f (c # cs) s = (case f c s of (r, s1) \<Rightarrow> case run_calls f cs s1 of (rs, s2) \<Rightarrow> (r # rs, s2))"

end
