(* ===== verification/PbOstream.thy ===== *)
theory PbOstream
  imports Prelude
begin

text \<open>
  The output streams of nanopb and the scalar encoders on top of them (pb_encode.c, pb_encode.h):
  \<open>pb_write\<close> with its limit check, the memory-buffer callback \<open>buf_write\<close>, and the
  varint, zigzag, fixed-width, tag and string encoders.

  A stream is the C struct as a record. The callback is a function on the value behind the
  \<open>state\<close> pointer; the null callback of a sizing stream is \<open>None\<close>. The library is built with
  error messages, so every failing return records its message unless one is already set.

  The interface \<open>pb_sink\<close> states what an encoder relies on: what a callback appends to the
  output, how much it has room for, and what it leaves alone. \<open>emits\<close> is the contract of an
  encoding step over it, closed under sequencing; it is interpreted on \<open>buf_write\<close>.
\<close>

section \<open>Streams\<close>

record 's pb_ostream =
  os_callback :: "('s \<Rightarrow> bytes \<Rightarrow> bool \<times> 's) option"
  os_state :: 's
  os_max_size :: u64
  os_bytes_written :: u64
  os_errmsg :: "string option"

text \<open>\<open>PB_SET_ERROR\<close> keeps the first message; \<open>PB_RETURN_ERROR\<close> then returns false.\<close>

definition os_set_error :: "string \<Rightarrow> 's pb_ostream \<Rightarrow> 's pb_ostream" where
  "os_set_error msg s =
     s\<lparr>os_errmsg := (case os_errmsg s of None \<Rightarrow> Some msg | Some e \<Rightarrow> Some e)\<rparr>"

definition os_error :: "string \<Rightarrow> 's pb_ostream \<Rightarrow> bool \<times> 's pb_ostream" where
  "os_error msg s = (False, os_set_error msg s)"

text \<open>\<open>PB_OSTREAM_SIZING\<close>: all fields zero; the state of a sizing stream is never used.\<close>

definition pb_ostream_sizing :: "'s \<Rightarrow> 's pb_ostream" where
  "pb_ostream_sizing st =
     \<lparr>os_callback = None, os_state = st, os_max_size = 0, os_bytes_written = 0, os_errmsg = None\<rparr>"

text \<open>The state of a buffer stream: the memory and the write pointer into it.\<close>

record obuf =
  ob_mem :: mem
  ob_ptr :: u64

definition buf_write :: "obuf \<Rightarrow> bytes \<Rightarrow> bool \<times> obuf" where
  "buf_write st buf =
     (True, \<lparr>ob_mem = mem_write (ob_mem st) (ob_ptr st) buf,
             ob_ptr = ob_ptr st + of_nat (length buf)\<rparr>)"

definition pb_ostream_from_buffer :: "mem \<Rightarrow> u64 \<Rightarrow> u64 \<Rightarrow> obuf pb_ostream" where
  "pb_ostream_from_buffer m buf bufsize =
     \<lparr>os_callback = Some buf_write, os_state = \<lparr>ob_mem = m, ob_ptr = buf\<rparr>,
      os_max_size = bufsize, os_bytes_written = 0, os_errmsg = None\<rparr>"

text \<open>
  \<open>pb_write(stream, buf, count)\<close>: \<open>buf\<close> holds the bytes at the pointer; only the first
  \<open>count\<close> are read, and none when the stream only measures.
\<close>

definition pb_write :: "'s pb_ostream \<Rightarrow> bytes \<Rightarrow> u64 \<Rightarrow> bool \<times> 's pb_ostream" where
  "pb_write s buf count =
     (case os_callback s of
        Some cb \<Rightarrow>
          (if count > 0 then
             (if os_bytes_written s + count < os_bytes_written s
                 \<or> os_bytes_written s + count > os_max_size s
              then os_error ''stream full'' s
              else (case cb (os_state s) (take (unat count) buf) of
                      (ok, st) \<Rightarrow>
                        if \<not> ok then os_error ''io error'' (s\<lparr>os_state := st\<rparr>)
                        else (True, s\<lparr>os_state := st, os_bytes_written := os_bytes_written s + count\<rparr>)))
           else (True, s\<lparr>os_bytes_written := os_bytes_written s + count\<rparr>))
      | None \<Rightarrow> (True, s\<lparr>os_bytes_written := os_bytes_written s + count\<rparr>))"

text \<open>\<open>if (!f(stream)) return false; return g(stream);\<close>\<close>

definition os_then ::
  "('s pb_ostream \<Rightarrow> bool \<times> 's pb_ostream) \<Rightarrow> ('s pb_ostream \<Rightarrow> bool \<times> 's pb_ostream)
     \<Rightarrow> 's pb_ostream \<Rightarrow> bool \<times> 's pb_ostream" where
  "os_then f g s = (case f s of (ok, s') \<Rightarrow> if ok then g s' else (False, s'))"

section \<open>Scalar encoders\<close>

text \<open>The \<open>while (value)\<close> loop of \<open>pb_encode_varint\<close>: the bytes it puts into \<open>buffer\<close>.\<close>

function varint_loop :: "u64 \<Rightarrow> bytes" where
  "varint_loop v =
     (if v = 0 then [] else ucast ((v AND 0x7F) OR 0x80) # varint_loop (drop_bit 7 v))"
  by pat_completeness auto
termination
proof (relation "measure unat")
  fix v :: u64
  assume "v \<noteq> 0"
  then have "0 < unat v" by (simp add: unat_gt_0)
  then show "(drop_bit 7 v, v) \<in> measure unat"
    by (simp add: unat_drop_bit_div)
qed simp

declare varint_loop.simps [simp del]

definition varint_bytes :: "u64 \<Rightarrow> bytes" where
  "varint_bytes v =
     (if v \<le> 0x7F then [ucast v]
      else let b = varint_loop v; i = length b in b[i - 1 := b ! (i - 1) AND 0x7F])"

definition pb_encode_varint :: "u64 \<Rightarrow> 's pb_ostream \<Rightarrow> bool \<times> 's pb_ostream" where
  "pb_encode_varint v s = pb_write s (varint_bytes v) (of_nat (length (varint_bytes v)))"

definition zigzag :: "u64 \<Rightarrow> u64" where
  "zigzag v = (if v <s 0 then NOT (push_bit 1 v) else push_bit 1 v)"

definition pb_encode_svarint :: "u64 \<Rightarrow> 's pb_ostream \<Rightarrow> bool \<times> 's pb_ostream" where
  "pb_encode_svarint v s = pb_encode_varint (zigzag v) s"

definition fixed32_bytes :: "u32 \<Rightarrow> bytes" where
  "fixed32_bytes val =
     [ucast (val AND 0xFF), ucast (drop_bit 8 val AND 0xFF),
      ucast (drop_bit 16 val AND 0xFF), ucast (drop_bit 24 val AND 0xFF)]"

definition pb_encode_fixed32 :: "mem \<Rightarrow> u64 \<Rightarrow> 's pb_ostream \<Rightarrow> bool \<times> 's pb_ostream" where
  "pb_encode_fixed32 m value s = pb_write s (fixed32_bytes (le_word (mem_read m value 4))) 4"

definition fixed64_bytes :: "u64 \<Rightarrow> bytes" where
  "fixed64_bytes val =
     [ucast (val AND 0xFF), ucast (drop_bit 8 val AND 0xFF),
      ucast (drop_bit 16 val AND 0xFF), ucast (drop_bit 24 val AND 0xFF),
      ucast (drop_bit 32 val AND 0xFF), ucast (drop_bit 40 val AND 0xFF),
      ucast (drop_bit 48 val AND 0xFF), ucast (drop_bit 56 val AND 0xFF)]"

definition pb_encode_fixed64 :: "mem \<Rightarrow> u64 \<Rightarrow> 's pb_ostream \<Rightarrow> bool \<times> 's pb_ostream" where
  "pb_encode_fixed64 m value s = pb_write s (fixed64_bytes (le_word (mem_read m value 8))) 8"

text \<open>The wire types of pb.h (the enum \<open>pb_wire_type_t\<close>).\<close>

datatype pb_wire_type = PB_WT_VARINT | PB_WT_64BIT | PB_WT_STRING | PB_WT_32BIT

fun wire_code :: "pb_wire_type \<Rightarrow> u64" where
  "wire_code PB_WT_VARINT = 0"
| "wire_code PB_WT_64BIT = 1"
| "wire_code PB_WT_STRING = 2"
| "wire_code PB_WT_32BIT = 5"

definition tag_value :: "pb_wire_type \<Rightarrow> u32 \<Rightarrow> u64" where
  "tag_value wiretype field_number = push_bit 3 (ucast field_number) OR wire_code wiretype"

definition pb_encode_tag :: "pb_wire_type \<Rightarrow> u32 \<Rightarrow> 's pb_ostream \<Rightarrow> bool \<times> 's pb_ostream" where
  "pb_encode_tag wiretype field_number s = pb_encode_varint (tag_value wiretype field_number) s"

definition pb_encode_string :: "bytes \<Rightarrow> u64 \<Rightarrow> 's pb_ostream \<Rightarrow> bool \<times> 's pb_ostream" where
  "pb_encode_string buffer n =
     os_then (pb_encode_varint n) (\<lambda>s. pb_write s buffer n)"

section \<open>The varint bytes\<close>

lemma varint_loop_0 [simp]: "varint_loop 0 = []"
  by (simp add: varint_loop.simps)

lemma varint_loop_nonzero:
  "v \<noteq> 0 \<Longrightarrow> varint_loop v = ucast ((v AND 0x7F) OR 0x80) # varint_loop (drop_bit 7 v)"
  by (simp add: varint_loop.simps)

lemma drop_bit7_zero_iff: "drop_bit 7 v = (0 :: u64) \<longleftrightarrow> v \<le> 0x7F"
proof -
  have "drop_bit 7 v = 0 \<longleftrightarrow> unat v div 128 = 0"
    by (simp add: unat_drop_bit_div flip: unat_0_iff)
  also have "\<dots> \<longleftrightarrow> unat v \<le> 127" by auto
  also have "\<dots> \<longleftrightarrow> v \<le> 0x7F" by (simp add: word_le_nat_alt)
  finally show ?thesis .
qed

text \<open>The base-128 form of the protobuf wire format, as a specification over numbers.\<close>

fun leb128 :: "nat \<Rightarrow> bytes" where
  "leb128 n = (if n < 128 then [of_nat n] else of_nat (n mod 128 + 128) # leb128 (n div 128))"

declare leb128.simps [simp del]

lemma varint_byte: "ucast ((v AND 0x7F) OR 0x80 :: u64) = (of_nat (unat v mod 128 + 128) :: u8)"
proof (rule word_unat_eq_iff [THEN iffD2])
  have "unat v mod 128 + 128 < 2 ^ LENGTH(8)" by simp
  then have "unat (of_nat (unat v mod 128 + 128) :: u8) = unat v mod 128 + 128"
    by (rule unat_of_nat_small)
  then show "unat (ucast ((v AND 0x7F) OR 0x80) :: u8) = unat (of_nat (unat v mod 128 + 128) :: u8)"
    by (simp add: unsigned_ucast_eq unat_or_80 take_bit_nat_eq_self del: of_nat_add)
qed

lemma last_byte_clear: "(of_nat (n mod 128 + 128) :: u8) AND 0x7F = of_nat (n mod 128)"
proof (rule word_unat_eq_iff [THEN iffD2])
  have "n mod 128 + 128 < 2 ^ LENGTH(8)" "n mod 128 < 2 ^ LENGTH(8)" by simp_all
  then have "unat (of_nat (n mod 128 + 128) :: u8) = n mod 128 + 128"
    "unat (of_nat (n mod 128) :: u8) = n mod 128"
    by (auto simp only: unat_of_nat_small)
  then show "unat ((of_nat (n mod 128 + 128) :: u8) AND 0x7F) = unat (of_nat (n mod 128) :: u8)"
    by (simp add: unat_and_7F del: of_nat_add)
qed

lemma varint_loop_leb128:
  "v \<noteq> 0 \<Longrightarrow> butlast (varint_loop v) @ [last (varint_loop v) AND 0x7F] = leb128 (unat v)"
proof (induction v rule: varint_loop.induct)
  case (1 v)
  note loop = varint_loop_nonzero [OF "1.prems"]
  show ?case
  proof (cases "drop_bit 7 v = 0")
    case True
    then have "unat v < 128" by (simp add: drop_bit7_zero_iff word_le_nat_alt)
    with True show ?thesis
      using last_byte_clear [of "unat v"]
      by (simp add: loop leb128.simps [of "unat v"] varint_byte del: of_nat_add)
  next
    case False
    then have "\<not> unat v < 128" by (simp add: drop_bit7_zero_iff word_le_nat_alt)
    moreover have "varint_loop (drop_bit 7 v) \<noteq> []"
      using False by (simp add: varint_loop_nonzero)
    ultimately show ?thesis
      using "1.IH" [OF "1.prems" False]
      by (simp add: loop leb128.simps [of "unat v"] varint_byte unat_drop_bit_div del: of_nat_add)
  qed
qed

lemma varint_bytes_leb128: "varint_bytes v = leb128 (unat v)"
proof (cases "v \<le> 0x7F")
  case True
  then have "unat v < 128" by (simp add: word_le_nat_alt)
  with True show ?thesis by (simp add: varint_bytes_def leb128.simps [of "unat v"])
next
  case False
  then have "v \<noteq> 0" by auto
  then have "varint_loop v \<noteq> []" by (simp add: varint_loop_nonzero)
  then have "varint_bytes v = butlast (varint_loop v) @ [last (varint_loop v) AND 0x7F]"
    using False list_update_append_last [of "varint_loop v" "[]"]
    by (simp add: varint_bytes_def Let_def last_conv_nth)
  with \<open>v \<noteq> 0\<close> show ?thesis by (simp add: varint_loop_leb128)
qed

lemma length_leb128: "n < 128 ^ k \<Longrightarrow> length (leb128 n) \<le> max 1 k"
proof (induction n arbitrary: k rule: leb128.induct)
  case (1 n)
  show ?case
  proof (cases "n < 128")
    case True
    then show ?thesis by (simp add: leb128.simps [of n])
  next
    case False
    with "1.prems" obtain j where j: "k = Suc j" "j \<noteq> 0"
      by (cases k; cases "k - 1") (auto)
    with "1.prems" have "n div 128 < 128 ^ j"
      by (simp add: less_mult_imp_div_less mult.commute)
    from "1.IH" [OF False this] False j show ?thesis
      by (simp add: leb128.simps [of n])
  qed
qed

lemma length_varint_bytes: "length (varint_bytes v) \<le> 10"
proof -
  have "unat v < 128 ^ 10"
    using unsigned_less [of v, where 'a = nat] by simp
  from length_leb128 [OF this] show ?thesis by (simp add: varint_bytes_leb128)
qed

lemma varint_bytes_nonempty [simp]: "varint_bytes v \<noteq> []"
  by (simp add: varint_bytes_leb128 leb128.simps [of "unat v"])

section \<open>The contract of an encoding step\<close>

text \<open>
  \<open>wr\<close> is the callback, \<open>out\<close> the bytes it has put out, \<open>room\<close> the bytes its destination can
  still take, \<open>keep\<close> what it must leave alone. A sink stream is a writing stream whose limit
  stays within its destination, and on which nothing has failed yet; objects are smaller than
  half of the address space.
\<close>

definition sink_stream :: "('s \<Rightarrow> bytes \<Rightarrow> bool \<times> 's) \<Rightarrow> ('s \<Rightarrow> nat) \<Rightarrow> 's pb_ostream \<Rightarrow> bool" where
  "sink_stream wr room s \<longleftrightarrow>
     os_callback s = Some wr \<and> os_errmsg s = None \<and> os_bytes_written s \<le> os_max_size s
     \<and> unat (os_max_size s) < 2 ^ 63
     \<and> unat (os_max_size s) - unat (os_bytes_written s) \<le> room (os_state s)"

definition os_fits :: "'s pb_ostream \<Rightarrow> nat \<Rightarrow> bool" where
  "os_fits s n \<longleftrightarrow> unat (os_bytes_written s) + n \<le> unat (os_max_size s)"

definition os_advance :: "'s pb_ostream \<Rightarrow> nat \<Rightarrow> 's \<Rightarrow> 's pb_ostream" where
  "os_advance s n st = s\<lparr>os_state := st, os_bytes_written := os_bytes_written s + of_nat n\<rparr>"

text \<open>
  \<open>f\<close> is an encoding step that emits \<open>bs\<close>: a sizing stream counts them; a sink stream takes
  them when they fit below its limit; when they do not, the step fails with a message, and the
  output holds a prefix of them.
\<close>

definition emits ::
  "('s \<Rightarrow> bytes \<Rightarrow> bool \<times> 's) \<Rightarrow> ('s \<Rightarrow> bytes) \<Rightarrow> ('s \<Rightarrow> nat) \<Rightarrow> ('s \<Rightarrow> 'f)
     \<Rightarrow> ('s pb_ostream \<Rightarrow> bool \<times> 's pb_ostream) \<Rightarrow> bytes \<Rightarrow> bool" where
  "emits wr out room keep f bs \<longleftrightarrow>
     (\<forall>s. os_callback s = None \<and> os_errmsg s = None \<longrightarrow>
        f s = (True, os_advance s (length bs) (os_state s)))
   \<and> (\<forall>s. sink_stream wr room s \<and> os_fits s (length bs) \<longrightarrow>
        (\<exists>st. f s = (True, os_advance s (length bs) st) \<and> out st = out (os_state s) @ bs
            \<and> room st = room (os_state s) - length bs \<and> keep st = keep (os_state s)))
   \<and> (\<forall>s. sink_stream wr room s \<and> \<not> os_fits s (length bs) \<longrightarrow>
        (\<exists>s' k. f s = (False, s') \<and> os_errmsg s' \<noteq> None
            \<and> out (os_state s') = out (os_state s) @ take k bs \<and> keep (os_state s') = keep (os_state s)))"

lemma os_advance_simps [simp]:
  "os_callback (os_advance s n st) = os_callback s"
  "os_state (os_advance s n st) = st"
  "os_max_size (os_advance s n st) = os_max_size s"
  "os_bytes_written (os_advance s n st) = os_bytes_written s + of_nat n"
  "os_errmsg (os_advance s n st) = os_errmsg s"
  "os_advance (os_advance s n st) n' st' = os_advance s (n + n') st'"
  "os_advance s 0 (os_state s) = s"
  by (simp_all add: os_advance_def)

lemma os_error_simps [simp]:
  "fst (os_error msg s) = False"
  "os_state (os_set_error msg s) = os_state s"
  "os_errmsg (os_set_error msg s) \<noteq> None"
  by (simp_all add: os_error_def os_set_error_def split: option.split)

lemma os_fits_unat:
  "os_fits s n \<Longrightarrow> unat (os_bytes_written s + of_nat n) = unat (os_bytes_written s) + n"
proof -
  assume "os_fits s n"
  then have "unat (os_bytes_written s) + n \<le> unat (os_max_size s)" by (simp add: os_fits_def)
  also have "\<dots> < 2 ^ LENGTH(64)" by (rule unsigned_less)
  finally show ?thesis by (simp add: unat_word_ariths unat_of_nat)
qed

lemma os_fits_add: "os_fits s (n + k) \<longleftrightarrow> os_fits s n \<and> os_fits (os_advance s n st) k"
proof (cases "os_fits s n")
  case True
  from os_fits_unat [OF this] True show ?thesis by (simp add: os_fits_def add.assoc)
next
  case False
  then show ?thesis by (simp add: os_fits_def)
qed

lemma os_fits_mono: "os_fits s n \<Longrightarrow> k \<le> n \<Longrightarrow> os_fits s k"
  by (simp add: os_fits_def)

lemma sink_stream_advance:
  assumes "sink_stream wr room s" "os_fits s n" "room st = room (os_state s) - n"
  shows "sink_stream wr room (os_advance s n st)"
  using assms os_fits_unat [OF assms(2)]
  by (auto simp: sink_stream_def os_fits_def word_le_nat_alt)

lemma emitsE_sizing: "emits wr out room keep f bs \<Longrightarrow> os_callback s = None \<Longrightarrow> os_errmsg s = None \<Longrightarrow>
    f s = (True, os_advance s (length bs) (os_state s))"
  by (simp add: emits_def)

lemma emitsE_fits:
  assumes "emits wr out room keep f bs" "sink_stream wr room s" "os_fits s (length bs)"
  obtains st where "f s = (True, os_advance s (length bs) st)" "out st = out (os_state s) @ bs"
    "room st = room (os_state s) - length bs" "keep st = keep (os_state s)"
    "sink_stream wr room (os_advance s (length bs) st)"
  using assms sink_stream_advance unfolding emits_def by metis

lemma emitsE_full:
  assumes "emits wr out room keep f bs" "sink_stream wr room s" "\<not> os_fits s (length bs)"
  obtains s' k where "f s = (False, s')" "os_errmsg s' \<noteq> None"
    "out (os_state s') = out (os_state s) @ take k bs" "keep (os_state s') = keep (os_state s)"
  using assms unfolding emits_def by metis

text \<open>Sequencing, the pattern of every encoder.\<close>

lemma emits_then:
  assumes f: "emits wr out room keep f bs" and g: "emits wr out room keep g cs"
  shows "emits wr out room keep (os_then f g) (bs @ cs)"
  unfolding emits_def
proof (intro conjI allI impI; (elim conjE)?)
  fix s :: "'a pb_ostream"
  assume "os_callback s = None" "os_errmsg s = None"
  with emitsE_sizing [OF f] emitsE_sizing [OF g]
  show "os_then f g s = (True, os_advance s (length (bs @ cs)) (os_state s))"
    by (simp add: os_then_def)
next
  fix s
  assume s: "sink_stream wr room s" and fits: "os_fits s (length (bs @ cs))"
  from fits have fit1: "os_fits s (length bs)" by (rule os_fits_mono) simp
  from f s fit1 obtain st where st: "f s = (True, os_advance s (length bs) st)"
    "out st = out (os_state s) @ bs" "room st = room (os_state s) - length bs"
    "keep st = keep (os_state s)" "sink_stream wr room (os_advance s (length bs) st)"
    by (rule emitsE_fits)
  have fit2: "os_fits (os_advance s (length bs) st) (length cs)"
    using fits by (simp add: os_fits_add [where st = st])
  from g st(5) fit2 obtain st' where "g (os_advance s (length bs) st) =
      (True, os_advance (os_advance s (length bs) st) (length cs) st')"
    "out st' = out st @ cs" "room st' = room st - length cs" "keep st' = keep st"
    by (rule emitsE_fits) simp
  with st show "\<exists>st. os_then f g s = (True, os_advance s (length (bs @ cs)) st)
      \<and> out st = out (os_state s) @ bs @ cs \<and> room st = room (os_state s) - length (bs @ cs)
      \<and> keep st = keep (os_state s)"
    by (auto simp: os_then_def)
next
  fix s
  assume s: "sink_stream wr room s" and full: "\<not> os_fits s (length (bs @ cs))"
  show "\<exists>s' k. os_then f g s = (False, s') \<and> os_errmsg s' \<noteq> None
      \<and> out (os_state s') = out (os_state s) @ take k (bs @ cs)
      \<and> keep (os_state s') = keep (os_state s)"
  proof (cases "os_fits s (length bs)")
    case True
    from f s True obtain st where st: "f s = (True, os_advance s (length bs) st)"
      "out st = out (os_state s) @ bs" "keep st = keep (os_state s)"
      "sink_stream wr room (os_advance s (length bs) st)"
      by (rule emitsE_fits)
    have "\<not> os_fits (os_advance s (length bs) st) (length cs)"
      using full True by (simp add: os_fits_add [where st = st])
    from emitsE_full [OF g st(4) this] obtain s' k where
      "g (os_advance s (length bs) st) = (False, s')" "os_errmsg s' \<noteq> None"
      "out (os_state s') = out st @ take k cs" "keep (os_state s') = keep st"
      by (metis os_advance_simps(2))
    with st show ?thesis
      by (intro exI [of _ s'] exI [of _ "length bs + k"]) (simp add: os_then_def)
  next
    case False
    from f s False obtain s' k where "f s = (False, s')" "os_errmsg s' \<noteq> None"
      "out (os_state s') = out (os_state s) @ take k bs" "keep (os_state s') = keep (os_state s)"
      by (rule emitsE_full)
    then show ?thesis
      by (intro exI [of _ s'] exI [of _ "min k (length bs)"]) (simp add: os_then_def min_def)
  qed
qed

lemma emits_nothing: "emits wr out room keep (Pair True) []"
  by (auto simp: emits_def os_fits_def sink_stream_def word_le_nat_alt
      intro!: exI [of _ "os_state _"])

section \<open>The interface to output callbacks\<close>

locale pb_sink =
  fixes wr :: "'s \<Rightarrow> bytes \<Rightarrow> bool \<times> 's"
    and out :: "'s \<Rightarrow> bytes"
    and room :: "'s \<Rightarrow> nat"
    and keep :: "'s \<Rightarrow> 'f"
  assumes wr_ok: "length bs \<le> room st \<Longrightarrow>
    \<exists>st'. wr st bs = (True, st') \<and> out st' = out st @ bs \<and> room st' = room st - length bs
        \<and> keep st' = keep st"
begin

lemma write_emits:
  assumes n: "unat n \<le> length buf"
  shows "emits wr out room keep (\<lambda>s. pb_write s buf n) (take (unat n) buf)"
  unfolding emits_def
proof (intro conjI allI impI; (elim conjE)?)
  fix s :: "'s pb_ostream"
  assume "os_callback s = None" "os_errmsg s = None"
  with n show "pb_write s buf n = (True, os_advance s (length (take (unat n) buf)) (os_state s))"
    by (simp add: pb_write_def os_advance_def min_absorb2)
next
  fix s
  assume s: "sink_stream wr room s" and "os_fits s (length (take (unat n) buf))"
  with n have fits: "os_fits s (unat n)" by (simp add: min_absorb2)
  with s n have "length (take (unat n) buf) \<le> room (os_state s)"
    by (auto simp: sink_stream_def os_fits_def)
  from wr_ok [OF this] obtain st where st: "wr (os_state s) (take (unat n) buf) = (True, st)"
    "out st = out (os_state s) @ take (unat n) buf" "keep st = keep (os_state s)"
    "room st = room (os_state s) - length (take (unat n) buf)" by blast
  have fine: "\<not> os_bytes_written s + n < os_bytes_written s" "\<not> os_bytes_written s + n > os_max_size s"
    using os_fits_unat [OF fits] fits by (auto simp: word_less_nat_alt os_fits_def)
  show "\<exists>st. pb_write s buf n = (True, os_advance s (length (take (unat n) buf)) st)
      \<and> out st = out (os_state s) @ take (unat n) buf
      \<and> room st = room (os_state s) - length (take (unat n) buf) \<and> keep st = keep (os_state s)"
  proof (cases "n = 0")
    case True
    with s show ?thesis
      by (intro exI [of _ "os_state s"]) (auto simp: pb_write_def sink_stream_def os_advance_def)
  next
    case False
    then have "0 < n" by (simp add: word_neq_0_conv)
    with s st n fine show ?thesis
      by (intro exI [of _ st])
        (auto simp: pb_write_def sink_stream_def os_advance_def min_absorb2)
  qed
next
  fix s
  assume s: "sink_stream wr room s" and full: "\<not> os_fits s (length (take (unat n) buf))"
  with n have "\<not> os_fits s (unat n)" by (simp add: min_absorb2)
  then have "n \<noteq> 0" "os_bytes_written s + n < os_bytes_written s \<or> os_bytes_written s + n > os_max_size s"
    using s add_limit_test [of "os_bytes_written s" n "os_max_size s"]
    by (auto simp: os_fits_def sink_stream_def word_le_nat_alt)
  with s show "\<exists>s' k. pb_write s buf n = (False, s') \<and> os_errmsg s' \<noteq> None
      \<and> out (os_state s') = out (os_state s) @ take k (take (unat n) buf)
      \<and> keep (os_state s') = keep (os_state s)"
    by (intro exI [of _ "os_set_error ''stream full'' s"] exI [of _ 0])
      (auto simp: pb_write_def sink_stream_def os_error_def word_neq_0_conv)
qed

lemma write_all_emits:
  assumes "length bs < 2 ^ 64"
  shows "emits wr out room keep (\<lambda>s. pb_write s bs (of_nat (length bs))) bs"
proof -
  have "unat (of_nat (length bs) :: u64) = length bs"
    using assms by (intro unat_of_nat_small) simp
  then show ?thesis using write_emits [of "of_nat (length bs)" bs] by simp
qed

lemma varint_emits: "emits wr out room keep (pb_encode_varint v) (varint_bytes v)"
proof -
  have "length (varint_bytes v) < 2 ^ 64" using length_varint_bytes [of v] by simp
  from write_all_emits [OF this] show ?thesis
    unfolding pb_encode_varint_def [abs_def] .
qed

lemma svarint_emits: "emits wr out room keep (pb_encode_svarint v) (varint_bytes (zigzag v))"
  unfolding pb_encode_svarint_def [abs_def] by (rule varint_emits)

lemma tag_emits: "emits wr out room keep (pb_encode_tag wt t) (varint_bytes (tag_value wt t))"
  unfolding pb_encode_tag_def [abs_def] by (rule varint_emits)

lemma fixed32_emits:
  "emits wr out room keep (pb_encode_fixed32 m p) (fixed32_bytes (le_word (mem_read m p 4)))"
  unfolding pb_encode_fixed32_def [abs_def]
  using write_all_emits [of "fixed32_bytes (le_word (mem_read m p 4))"]
  by (simp add: fixed32_bytes_def)

lemma fixed64_emits:
  "emits wr out room keep (pb_encode_fixed64 m p) (fixed64_bytes (le_word (mem_read m p 8)))"
  unfolding pb_encode_fixed64_def [abs_def]
  using write_all_emits [of "fixed64_bytes (le_word (mem_read m p 8))"]
  by (simp add: fixed64_bytes_def)

lemma string_emits:
  assumes "unat n \<le> length buf"
  shows "emits wr out room keep (pb_encode_string buf n) (varint_bytes n @ take (unat n) buf)"
  unfolding pb_encode_string_def by (intro emits_then varint_emits write_emits assms)

end

section \<open>The memory buffer as a sink\<close>

text \<open>
  Relative to a buffer of \<open>sz\<close> bytes at \<open>p0\<close>: what lies between \<open>p0\<close> and the write pointer
  has been put out, the rest of the buffer is room, every byte outside of it is to be kept.
\<close>

definition obuf_out :: "u64 \<Rightarrow> obuf \<Rightarrow> bytes" where
  "obuf_out p0 st = mem_read (ob_mem st) p0 (mem_off p0 (ob_ptr st))"

definition obuf_room :: "u64 \<Rightarrow> u64 \<Rightarrow> obuf \<Rightarrow> nat" where
  "obuf_room p0 sz st = unat sz - mem_off p0 (ob_ptr st)"

definition obuf_keep :: "u64 \<Rightarrow> u64 \<Rightarrow> obuf \<Rightarrow> u64 \<Rightarrow> u8 option" where
  "obuf_keep p0 sz st q = (if mem_off p0 q < unat sz then None else Some (ob_mem st q))"

lemma buf_write_sink:
  assumes "length bs \<le> obuf_room p0 sz st"
  shows "\<exists>st'. buf_write st bs = (True, st') \<and> obuf_out p0 st' = obuf_out p0 st @ bs
      \<and> obuf_room p0 sz st' = obuf_room p0 sz st - length bs \<and> obuf_keep p0 sz st' = obuf_keep p0 sz st"
proof (cases "bs = []")
  case True
  then show ?thesis
    by (simp add: buf_write_def obuf_out_def obuf_room_def obuf_keep_def fun_eq_iff)
next
  case False
  define off where "off = mem_off p0 (ob_ptr st)"
  have ptr: "ob_ptr st = p0 + of_nat off" by (simp add: off_def)
  have len: "off + length bs \<le> unat sz"
    using assms False by (cases bs) (auto simp: obuf_room_def off_def)
  then have small: "off + length bs < 2 ^ 64"
    using unsigned_less [of sz, where 'a = nat] by simp
  have adv: "mem_off p0 (ob_ptr st + of_nat (length bs)) = off + length bs"
    using mem_off_add [OF small] by (simp add: ptr add.assoc)
  have "obuf_keep p0 sz \<lparr>ob_mem = mem_write (ob_mem st) (ob_ptr st) bs, ob_ptr = r\<rparr> q = obuf_keep p0 sz st q"
    for r q
    using len small mem_write_outside [where p = p0 and q = q and n = off and bs = bs and m = "ob_mem st"]
    by (auto simp: obuf_keep_def ptr)
  then show ?thesis
    using len adv mem_read_write_extend [OF small, of "ob_mem st" p0]
    by (auto simp: buf_write_def obuf_out_def obuf_room_def ptr [symmetric] off_def [symmetric])
qed

interpretation bufw: pb_sink buf_write "obuf_out p0" "obuf_room p0 sz" "obuf_keep p0 sz"
  for p0 sz :: u64
  by unfold_locales (rule buf_write_sink)

end
