(* ===== verification/PbIstream.thy ===== *)
theory PbIstream
  imports PbOstream
begin

text \<open>
  The input streams of nanopb and the scalar decoders on top of them (pb_decode.c, pb_decode.h):
  \<open>pb_read\<close> with its limit check, the memory callback \<open>buf_read\<close>, the varint, zigzag, fixed
  and tag decoders, field skipping, and the length-limited substreams.

  A decoder returns the decoded value or \<open>None\<close> for a false return, and the stream after it.
  The callback is a function from the state and the byte count to the success flag, the bytes
  stored through \<open>buf\<close>, and the new state; \<open>is_buf_read\<close> records whether the callback
  pointer is \<open>buf_read\<close>, which \<open>pb_read\<close> tests to skip without a buffer.

  The interface \<open>pb_source\<close> states what a decoder relies on: a callback delivers the next
  bytes of its source. The decoders are proved against it and \<open>buf_read\<close> interprets it.
\<close>

section \<open>Streams\<close>

record 's pb_istream =
  is_callback :: "'s \<Rightarrow> u64 \<Rightarrow> bool \<times> bytes \<times> 's"
  is_buf_read :: bool
  is_state :: 's
  is_bytes_left :: u64
  is_errmsg :: "string option"

definition is_error :: "string \<Rightarrow> 's pb_istream \<Rightarrow> 's pb_istream" where
  "is_error msg s =
     s\<lparr>is_errmsg := (case is_errmsg s of None \<Rightarrow> Some msg | Some e \<Rightarrow> Some e)\<rparr>"

text \<open>The state of a buffer stream: the memory and the read pointer into it.\<close>

record ibuf =
  ib_mem :: mem
  ib_ptr :: u64

definition buf_read :: "ibuf \<Rightarrow> u64 \<Rightarrow> bool \<times> bytes \<times> ibuf" where
  "buf_read st count =
     (True, mem_read (ib_mem st) (ib_ptr st) (unat count), st\<lparr>ib_ptr := ib_ptr st + count\<rparr>)"

definition pb_istream_from_buffer :: "mem \<Rightarrow> u64 \<Rightarrow> u64 \<Rightarrow> ibuf pb_istream" where
  "pb_istream_from_buffer m buf bufsize =
     \<lparr>is_callback = buf_read, is_buf_read = True, is_state = \<lparr>ib_mem = m, ib_ptr = buf\<rparr>,
      is_bytes_left = bufsize, is_errmsg = None\<rparr>"

text \<open>\<open>pb_read\<close> past its first two tests, the part every read goes through.\<close>

definition pb_read_checked :: "'s pb_istream \<Rightarrow> u64 \<Rightarrow> bytes option \<times> 's pb_istream" where
  "pb_read_checked s count =
     (if is_bytes_left s < count then (None, is_error ''end-of-stream'' s)
      else (case is_callback s (is_state s) count of
              (ok, bs, st) \<Rightarrow>
                if \<not> ok then (None, is_error ''io error'' (s\<lparr>is_state := st\<rparr>))
                else (Some bs, s\<lparr>is_state := st, is_bytes_left := is_bytes_left s - count\<rparr>)))"

text \<open>\<open>pb_read\<close> into a buffer.\<close>

definition pb_read :: "'s pb_istream \<Rightarrow> u64 \<Rightarrow> bytes option \<times> 's pb_istream" where
  "pb_read s count = (if count = 0 then (Some [], s) else pb_read_checked s count)"

text \<open>
  \<open>pb_read\<close> with \<open>buf == NULL\<close>: a stream other than a memory buffer is read in pieces
  of 16 bytes into a temporary.
\<close>

function pb_skip_loop :: "'s pb_istream \<Rightarrow> u64 \<Rightarrow> bytes option \<times> 's pb_istream" where
  "pb_skip_loop s count =
     (if count > 16 then
        (case pb_read s 16 of
           (None, s') \<Rightarrow> (None, s')
         | (Some _, s') \<Rightarrow> pb_skip_loop s' (count - 16))
      else pb_read s count)"
  by pat_completeness auto
termination
proof (relation "measure (\<lambda>(s, count). unat count)")
  fix s :: "'s pb_istream" and count :: u64 and x s' and y z
  assume "16 < count"
  then have "unat (count - 16) = unat count - 16" "16 < unat count"
    by (auto simp: word_less_nat_alt unat_sub_if_size)
  then show "((s', count - 16), (s, count)) \<in> measure (\<lambda>(s, count). unat count)" by simp
qed simp

declare pb_skip_loop.simps [simp del]

definition pb_read_null :: "'s pb_istream \<Rightarrow> u64 \<Rightarrow> bytes option \<times> 's pb_istream" where
  "pb_read_null s count =
     (if count = 0 then (Some [], s)
      else if \<not> is_buf_read s then pb_skip_loop s count
      else pb_read_checked s count)"

text \<open>The byte a one-byte read leaves in its variable.\<close>

definition first_byte :: "bytes \<Rightarrow> u8" where
  "first_byte bs = (case bs of [] \<Rightarrow> 0 | b # _ \<Rightarrow> b)"

definition pb_readbyte :: "'s pb_istream \<Rightarrow> u8 option \<times> 's pb_istream" where
  "pb_readbyte s =
     (if is_bytes_left s = 0 then (None, is_error ''end-of-stream'' s)
      else (case is_callback s (is_state s) 1 of
              (ok, bs, st) \<Rightarrow>
                if \<not> ok then (None, is_error ''io error'' (s\<lparr>is_state := st\<rparr>))
                else (Some (first_byte bs),
                      s\<lparr>is_state := st, is_bytes_left := is_bytes_left s - 1\<rparr>)))"

lemma pb_readbyte_decreases:
  "pb_readbyte s = (Some b, s') \<Longrightarrow> unat (is_bytes_left s') < unat (is_bytes_left s)"
  by (auto simp: pb_readbyte_def unat_minus_one unat_gt_0 Let_def
      split: if_splits prod.splits)

lemma pb_read_decreases:
  "pb_read s 1 = (Some b, s') \<Longrightarrow> unat (is_bytes_left s') < unat (is_bytes_left s)"
  by (auto simp: pb_read_def pb_read_checked_def unat_minus_one unat_gt_0 word_less_nat_alt
      split: if_splits prod.splits)

section \<open>Varints\<close>

text \<open>
  The \<open>do ... while\<close> loop of \<open>pb_decode_varint32_eof\<close>. \<open>bitpos\<close> is an 8-bit
  counter (\<open>uint_fast8_t\<close> on the targets) and wraps around; the loop ends because each
  iteration consumes a byte.
\<close>

function varint32_loop ::
  "'s pb_istream \<Rightarrow> u8 \<Rightarrow> u32 \<Rightarrow> u32 option \<times> 's pb_istream" where
  "varint32_loop s bitpos result =
     (case pb_readbyte s of
        (None, s') \<Rightarrow> (None, s')
      | (Some byte, s') \<Rightarrow>
          (let sign_extension = (if bitpos < 63 then 0xFF else 0x01 :: u8) in
           if bitpos \<ge> 32 \<and> byte AND 0x7F \<noteq> 0 \<and>
              (drop_bit 31 result = 0 \<or> byte \<noteq> sign_extension)
           then (None, is_error ''varint overflow'' s')
           else
             (let result' = (if bitpos \<ge> 32 then result
                             else result OR push_bit (unat bitpos) (ucast (byte AND 0x7F)));
                  bitpos' = bitpos + 7 in
              if byte AND 0x80 \<noteq> 0 then varint32_loop s' bitpos' result'
              else if bitpos' = 35 \<and> byte AND 0x70 \<noteq> 0 then (None, is_error ''varint overflow'' s')
              else (Some result', s'))))"
  by pat_completeness auto
termination
  by (relation "measure (\<lambda>(s, bitpos, result). unat (is_bytes_left s))")
    (auto dest: pb_readbyte_decreases [OF sym])

declare varint32_loop.simps [simp del]

text \<open>The result, the value of \<open>*eof\<close> if it was set, and the stream.\<close>

definition pb_decode_varint32_eof :: "'s pb_istream \<Rightarrow> (u32 option \<times> bool) \<times> 's pb_istream" where
  "pb_decode_varint32_eof s =
     (case pb_readbyte s of
        (None, s') \<Rightarrow> ((None, is_bytes_left s' = 0), s')
      | (Some byte, s') \<Rightarrow>
          if byte AND 0x80 = 0 then ((Some (ucast byte), False), s')
          else (case varint32_loop s' 7 (ucast (byte AND 0x7F)) of (r, s'') \<Rightarrow> ((r, False), s'')))"

definition pb_decode_varint32 :: "'s pb_istream \<Rightarrow> u32 option \<times> 's pb_istream" where
  "pb_decode_varint32 s = (case pb_decode_varint32_eof s of ((r, eof), s') \<Rightarrow> (r, s'))"

function varint_dec_loop :: "'s pb_istream \<Rightarrow> nat \<Rightarrow> u64 \<Rightarrow> u64 option \<times> 's pb_istream" where
  "varint_dec_loop s bitpos result =
     (if bitpos \<ge> 64 then (None, is_error ''varint overflow'' s)
      else (case pb_readbyte s of
              (None, s') \<Rightarrow> (None, s')
            | (Some byte, s') \<Rightarrow>
                (let result' = result OR push_bit bitpos (ucast (byte AND 0x7F)) in
                 if byte AND 0x80 \<noteq> 0 then varint_dec_loop s' (bitpos + 7) result'
                 else (Some result', s'))))"
  by pat_completeness auto
termination
  by (relation "measure (\<lambda>(s, bitpos, result). 64 - bitpos)") auto

declare varint_dec_loop.simps [simp del]

text \<open>
  \<open>bitpos\<close> stays below 71 here, since it is tested before each step, so its width does not matter.
\<close>

definition pb_decode_varint :: "'s pb_istream \<Rightarrow> u64 option \<times> 's pb_istream" where
  "pb_decode_varint s = varint_dec_loop s 0 0"

definition unzigzag :: "u64 \<Rightarrow> u64" where
  "unzigzag value = (if value AND 1 \<noteq> 0 then NOT (drop_bit 1 value) else drop_bit 1 value)"

definition pb_decode_svarint :: "'s pb_istream \<Rightarrow> u64 option \<times> 's pb_istream" where
  "pb_decode_svarint s =
     (case pb_decode_varint s of
        (None, s') \<Rightarrow> (None, s')
      | (Some value, s') \<Rightarrow> (Some (unzigzag value), s'))"

definition pb_decode_fixed32 :: "'s pb_istream \<Rightarrow> u32 option \<times> 's pb_istream" where
  "pb_decode_fixed32 s =
     (case pb_read s 4 of
        (None, s') \<Rightarrow> (None, s')
      | (Some b, s') \<Rightarrow>
          (Some (ucast (b ! 0) OR push_bit 8 (ucast (b ! 1)) OR push_bit 16 (ucast (b ! 2))
                 OR push_bit 24 (ucast (b ! 3))), s'))"

definition pb_decode_fixed64 :: "'s pb_istream \<Rightarrow> u64 option \<times> 's pb_istream" where
  "pb_decode_fixed64 s =
     (case pb_read s 8 of
        (None, s') \<Rightarrow> (None, s')
      | (Some b, s') \<Rightarrow>
          (Some (ucast (b ! 0) OR push_bit 8 (ucast (b ! 1)) OR push_bit 16 (ucast (b ! 2))
                 OR push_bit 24 (ucast (b ! 3)) OR push_bit 32 (ucast (b ! 4))
                 OR push_bit 40 (ucast (b ! 5)) OR push_bit 48 (ucast (b ! 6))
                 OR push_bit 56 (ucast (b ! 7))), s'))"

section \<open>Tags and skipping\<close>

function pb_skip_varint :: "'s pb_istream \<Rightarrow> bool \<times> 's pb_istream" where
  "pb_skip_varint s =
     (case pb_read s 1 of
        (None, s') \<Rightarrow> (False, s')
      | (Some b, s') \<Rightarrow> if first_byte b AND 0x80 \<noteq> 0 then pb_skip_varint s' else (True, s'))"
  by pat_completeness auto
termination
  by (relation "measure (\<lambda>s. unat (is_bytes_left s))") (auto dest: pb_read_decreases [OF sym])

declare pb_skip_varint.simps [simp del]

definition pb_skip_string :: "'s pb_istream \<Rightarrow> bool \<times> 's pb_istream" where
  "pb_skip_string s =
     (case pb_decode_varint32 s of
        (None, s') \<Rightarrow> (False, s')
      | (Some n, s') \<Rightarrow> (case pb_read_null s' (ucast n) of (r, s'') \<Rightarrow> (r \<noteq> None, s'')))"

text \<open>The wire type is the low three bits as the enum holds them, known code or not.\<close>

definition pb_decode_tag :: "'s pb_istream \<Rightarrow> ((u32 \<times> u32) option \<times> bool) \<times> 's pb_istream" where
  "pb_decode_tag s =
     (case pb_decode_varint32_eof s of
        ((None, eof), s') \<Rightarrow> ((None, eof), s')
      | ((Some temp, eof), s') \<Rightarrow>
          if temp = 0 then ((None, True), s')
          else ((Some (temp AND 7, drop_bit 3 temp), eof), s'))"

definition pb_skip_field :: "u32 \<Rightarrow> 's pb_istream \<Rightarrow> bool \<times> 's pb_istream" where
  "pb_skip_field wire_type s =
     (if wire_type = 0 then pb_skip_varint s
      else if wire_type = 1 then (case pb_read_null s 8 of (r, s') \<Rightarrow> (r \<noteq> None, s'))
      else if wire_type = 2 then pb_skip_string s
      else if wire_type = 5 then (case pb_read_null s 4 of (r, s') \<Rightarrow> (r \<noteq> None, s'))
      else (False, is_error ''invalid wire_type'' s))"

section \<open>Substreams\<close>

text \<open>The substream (if it could be made) and the parent stream.\<close>

definition pb_make_string_substream ::
  "'s pb_istream \<Rightarrow> 's pb_istream option \<times> 's pb_istream" where
  "pb_make_string_substream s =
     (case pb_decode_varint32 s of
        (None, s') \<Rightarrow> (None, s')
      | (Some n, s') \<Rightarrow>
          if is_bytes_left s' < ucast n then (None, is_error ''parent stream too short'' s')
          else (Some (s'\<lparr>is_bytes_left := ucast n\<rparr>),
                s'\<lparr>is_bytes_left := is_bytes_left s' - ucast n\<rparr>))"

definition pb_close_string_substream ::
  "'s pb_istream \<Rightarrow> 's pb_istream \<Rightarrow> bool \<times> 's pb_istream" where
  "pb_close_string_substream s sub =
     (if is_bytes_left sub \<noteq> 0 then
        (case pb_read_null sub (is_bytes_left sub) of
           (None, sub') \<Rightarrow> (False, s)
         | (Some _, sub') \<Rightarrow> (True, s\<lparr>is_state := is_state sub', is_errmsg := is_errmsg sub'\<rparr>))
      else (True, s\<lparr>is_state := is_state sub, is_errmsg := is_errmsg sub\<rparr>))"

section \<open>Streams as byte strings\<close>

text \<open>
  \<open>peek st n\<close> are the next \<open>n\<close> bytes of the source in state \<open>st\<close>. A stream over the source
  stands for the string of the \<open>bytes_left\<close> bytes that it may still deliver.
\<close>

definition src_stream ::
  "('s \<Rightarrow> u64 \<Rightarrow> bool \<times> bytes \<times> 's) \<Rightarrow> ('s \<Rightarrow> nat \<Rightarrow> bytes) \<Rightarrow> 's pb_istream \<Rightarrow> bytes \<Rightarrow> bool" where
  "src_stream cb peek s xs \<longleftrightarrow>
     is_callback s = cb \<and> xs = peek (is_state s) (unat (is_bytes_left s))"

text \<open>Decoder \<open>d\<close> turns the string \<open>xs\<close> into the value \<open>v\<close> and the rest \<open>ys\<close>.\<close>

definition parses ::
  "('s \<Rightarrow> u64 \<Rightarrow> bool \<times> bytes \<times> 's) \<Rightarrow> ('s \<Rightarrow> nat \<Rightarrow> bytes)
     \<Rightarrow> ('s pb_istream \<Rightarrow> 'v \<times> 's pb_istream) \<Rightarrow> bytes \<Rightarrow> 'v \<Rightarrow> bytes \<Rightarrow> bool" where
  "parses cb peek d xs v ys \<longleftrightarrow>
     (\<forall>s. src_stream cb peek s xs \<longrightarrow>
        (\<exists>s'. d s = (v, s') \<and> src_stream cb peek s' ys
            \<and> is_errmsg s' = is_errmsg s \<and> is_buf_read s' = is_buf_read s))"

lemma parsesI:
  assumes "\<And>s. src_stream cb peek s xs \<Longrightarrow>
    \<exists>s'. d s = (v, s') \<and> src_stream cb peek s' ys
       \<and> is_errmsg s' = is_errmsg s \<and> is_buf_read s' = is_buf_read s"
  shows "parses cb peek d xs v ys"
  using assms by (auto simp: parses_def)

lemma parsesE:
  assumes "parses cb peek d xs v ys" "src_stream cb peek s xs"
  obtains s' where "d s = (v, s')" "src_stream cb peek s' ys"
    "is_errmsg s' = is_errmsg s" "is_buf_read s' = is_buf_read s"
  using assms unfolding parses_def by blast

text \<open>Running one decoder after another.\<close>

lemma parses_bind:
  assumes "parses cb peek d xs v ys" "parses cb peek e ys w zs"
    and "\<And>s s'. d s = (v, s') \<Longrightarrow> f s = e s'"
  shows "parses cb peek f xs w zs"
proof (rule parsesI)
  fix s
  assume "src_stream cb peek s xs"
  from parsesE [OF assms(1) this] obtain s1 where s1: "d s = (v, s1)" "src_stream cb peek s1 ys"
    "is_errmsg s1 = is_errmsg s" "is_buf_read s1 = is_buf_read s" .
  from parsesE [OF assms(2) s1(2)] obtain s2 where "e s1 = (w, s2)" "src_stream cb peek s2 zs"
    "is_errmsg s2 = is_errmsg s1" "is_buf_read s2 = is_buf_read s1" .
  with s1 show "\<exists>s'. f s = (w, s') \<and> src_stream cb peek s' zs
      \<and> is_errmsg s' = is_errmsg s \<and> is_buf_read s' = is_buf_read s"
    by (simp add: assms(3))
qed

lemma parses_map:
  assumes "parses cb peek d xs v ys"
    and "\<And>s s'. d s = (v, s') \<Longrightarrow> f s = (w, s')"
  shows "parses cb peek f xs w ys"
proof (rule parsesI)
  fix s
  assume "src_stream cb peek s xs"
  from parsesE [OF assms(1) this] obtain s1 where "d s = (v, s1)" "src_stream cb peek s1 ys"
    "is_errmsg s1 = is_errmsg s" "is_buf_read s1 = is_buf_read s" .
  with assms(2) show "\<exists>s'. f s = (w, s') \<and> src_stream cb peek s' ys
      \<and> is_errmsg s' = is_errmsg s \<and> is_buf_read s' = is_buf_read s"
    by blast
qed

section \<open>Varint arithmetic\<close>

lemma byte_small_low: "n < 128 \<Longrightarrow> (of_nat n :: u8) AND 0x7F = of_nat n"
  by (simp add: word_unat_eq_iff unat_and_7F)

lemma and_80_zero_iff: "(v :: u8) AND 0x80 = 0 \<longleftrightarrow> unat v < 128"
proof -
  have "v AND 0x80 = 0 \<longleftrightarrow> \<not> bit (unat v) 7"
    using and_exp_eq_0_iff_not_bit [of v 7] by (simp add: bit_simps)
  also have "\<dots> \<longleftrightarrow> even (unat v div 128)" by (simp add: bit_iff_odd)
  also have "\<dots> \<longleftrightarrow> unat v < 128"
  proof -
    have "unat v < 256" using unsigned_less [of v, where 'a = nat] by simp
    then have "unat v div 128 \<le> 1" by simp
    then have "even (unat v div 128) \<longleftrightarrow> unat v div 128 = 0" by (auto simp: le_Suc_eq)
    then show ?thesis by auto
  qed
  finally show ?thesis .
qed

lemma byte_small_high: "n < 128 \<Longrightarrow> (of_nat n :: u8) AND 0x80 = 0"
  by (simp add: and_80_zero_iff)

lemma cont_byte_high: "(of_nat (n mod 128 + 128) :: u8) AND 0x80 \<noteq> 0"
proof -
  have "n mod 128 + 128 < 2 ^ LENGTH(8)" by simp
  then have "unat (of_nat (n mod 128 + 128) :: u8) = n mod 128 + 128"
    by (rule unat_of_nat_small)
  then show ?thesis by (simp only: and_80_zero_iff)
qed

lemma take_bit_and_push_bit: "take_bit k w AND push_bit k v = (0 :: 'a::len word)"
  by (rule bit_word_eqI) (auto simp: bit_simps)

lemma and_70_small: "n < 16 \<Longrightarrow> (of_nat n :: u8) AND 0x70 = 0"
proof -
  assume n: "n < 16"
  have "(of_nat n :: u8) = take_bit 4 (of_nat n)"
    using n by (simp add: word_unat_eq_iff unsigned_take_bit_eq take_bit_nat_eq_self)
  moreover from take_bit_and_push_bit [of 4 "of_nat n :: u8" 7] have "take_bit 4 (of_nat n :: u8) AND 0x70 = 0" by simp
  ultimately show ?thesis by simp
qed

lemma unzigzag_zigzag: "unzigzag (zigzag v) = v"
proof (cases "v <s 0")
  case True
  then have "bit v 63" by (simp add: sless_0_iff_bit)
  moreover have "NOT (push_bit 1 v) AND 1 = 1"
    by (simp add: and_one_eq mod_2_eq_odd)
  moreover have "NOT (drop_bit k (NOT (push_bit k v))) = v" if "bit v 63" "0 < k" "k < 2" for k
  proof (rule bit_word_eqI)
    fix n assume "n < LENGTH(64)"
    then show "bit (NOT (drop_bit k (NOT (push_bit k v)))) n = bit v n"
      using that by (cases "n = 63") (auto simp: bit_simps)
  qed
  moreover from this [of 1] have "bit v 63 \<Longrightarrow> NOT (drop_bit 1 (NOT (push_bit 1 v))) = v" by simp
  ultimately show ?thesis using True by (simp add: zigzag_def unzigzag_def)
next
  case False
  then have "\<not> bit v 63" by (simp add: sless_0_iff_bit)
  moreover have "push_bit 1 v AND 1 = 0"
    by (simp add: and_one_eq mod_2_eq_odd)
  moreover have "drop_bit k (push_bit k v) = v" if "\<not> bit v 63" "0 < k" "k < 2" for k
  proof (rule bit_word_eqI)
    fix n assume "n < LENGTH(64)"
    then show "bit (drop_bit k (push_bit k v)) n = bit v n"
      using that by (cases "n = 63") (auto simp: bit_simps)
  qed
  moreover from this [of 1] have "\<not> bit v 63 \<Longrightarrow> drop_bit 1 (push_bit 1 v) = v" by simp
  ultimately show ?thesis using False by (simp add: zigzag_def unzigzag_def)
qed

lemma fixed32_bytes_le: "fixed32_bytes v = le_bytes 4 v"
  by (simp add: fixed32_bytes_def ucast_and_FF eval_nat_numeral)

lemma fixed64_bytes_le: "fixed64_bytes v = le_bytes 8 v"
  by (simp add: fixed64_bytes_def ucast_and_FF eval_nat_numeral)

lemma le_word4:
  assumes "length b = 4"
  shows "ucast (b ! 0) OR push_bit 8 (ucast (b ! Suc 0)) OR push_bit 16 (ucast (b ! 2))
     OR push_bit 24 (ucast (b ! 3)) = le_word b"
proof -
  from assms obtain b0 b1 b2 b3 where "b = [b0, b1, b2, b3]"
    by (auto simp: length_Suc_conv eval_nat_numeral)
  then show ?thesis by (simp add: push_bit_or or.assoc)
qed

lemma le_word8:
  assumes "length b = 8"
  shows "ucast (b ! 0) OR push_bit 8 (ucast (b ! Suc 0)) OR push_bit 16 (ucast (b ! 2))
     OR push_bit 24 (ucast (b ! 3)) OR push_bit 32 (ucast (b ! 4)) OR push_bit 40 (ucast (b ! 5))
     OR push_bit 48 (ucast (b ! 6)) OR push_bit 56 (ucast (b ! 7)) = le_word b"
proof -
  from assms obtain b0 b1 b2 b3 b4 b5 b6 b7 where "b = [b0, b1, b2, b3, b4, b5, b6, b7]"
    by (auto simp: length_Suc_conv eval_nat_numeral)
  then show ?thesis by (simp add: push_bit_or or.assoc)
qed

lemma wire_code_less: "wire_code wt < 8"
  by (cases wt) simp_all

lemma tag_value_nat:
  assumes "t < 2 ^ 29"
  shows "unat (tag_value wt t) = 8 * unat t + unat (wire_code wt)"
proof -
  have "tag_value wt t = push_bit 3 (ucast t) + wire_code wt"
  proof -
    have "wire_code wt = take_bit 3 (wire_code wt)" by (cases wt) simp_all
    then have "push_bit 3 (ucast t) AND wire_code wt = 0"
      by (metis (no_types, lifting) and.commute take_bit_and_push_bit)
    then show ?thesis by (simp add: tag_value_def disjunctive_add_eq_or)
  qed
  moreover have "unat t < 2 ^ 29" using assms by (simp add: word_less_nat_alt)
  moreover have "unat (wire_code wt) < 8" using wire_code_less by (simp add: word_less_nat_alt)
  ultimately show ?thesis
    by (simp add: push_bit_eq_mult unat_word_ariths unsigned_ucast_eq take_bit_nat_eq_self take_bit_eq_mod)
qed

lemma unat_tag_value_bound: "t < 2 ^ 29 \<Longrightarrow> unat (tag_value wt t) < 2 ^ 32"
  using tag_value_nat [of t wt] wire_code_less [of wt] by (simp add: word_less_nat_alt)

lemma tag_value_split:
  assumes "0 < t" "t < 2 ^ 29"
  shows "(ucast (tag_value wt t) :: u32) \<noteq> 0"
    and "(ucast (tag_value wt t) :: u32) AND 7 = ucast (wire_code wt)"
    and "drop_bit 3 (ucast (tag_value wt t) :: u32) = t"
proof -
  let ?w = "ucast (tag_value wt t) :: u32"
  have u: "unat ?w = 8 * unat t + unat (wire_code wt)"
    using unat_tag_value_bound [OF assms(2), of wt]
    by (simp add: tag_value_nat [OF assms(2)] unsigned_ucast_eq take_bit_nat_eq_self)
  have c: "unat (wire_code wt) < 8" using wire_code_less by (simp add: word_less_nat_alt)
  have "0 < unat t" using assms(1) by (simp add: word_less_nat_alt)
  with u show "?w \<noteq> 0" by (metis add_is_0 mult_is_0 unat_0 less_numeral_extra(3) zero_neq_numeral)
  have "?w AND 7 = take_bit 3 ?w" by (simp add: take_bit_eq_mask mask_eq_exp_minus_1)
  moreover have "unat (take_bit 3 ?w) = unat ?w mod 8"
    unfolding unsigned_take_bit_eq by (simp add: take_bit_eq_mod)
  ultimately show "?w AND 7 = ucast (wire_code wt)"
    using u c by (simp add: word_unat_eq_iff unsigned_ucast_eq take_bit_nat_eq_self)
  show "drop_bit 3 ?w = t"
    using u c by (simp add: word_unat_eq_iff unat_drop_bit_div)
qed

lemma ucast_byte: "m < 256 \<Longrightarrow> ucast (of_nat m :: u8) = (of_nat m :: 'a::len word)"
  by (simp add: unsigned_of_nat take_bit_nat_eq_self)

lemma or_split7: "of_nat (n mod 128) OR push_bit 7 (of_nat (n div 128)) = (of_nat n :: 'a::len word)"
  by (rule bit_word_eqI)
    (auto simp: bit_simps bit_of_nat_iff_bit take_bit_eq_mod [of 7, symmetric, simplified]
      drop_bit_eq_div [of 7, symmetric, simplified])

lemma or_push_split7:
  "push_bit k (of_nat (n mod 128)) OR push_bit (7 + k) (of_nat (n div 128)) = push_bit k (of_nat n :: 'a::len word)"
  by (simp add: add.commute [of 7] flip: or_split7 [of n] push_bit_push_bit)

lemma take_bit_or_push7:
  "take_bit (k + 7) (take_bit k r OR push_bit k (of_nat (n mod 128))) =
     take_bit k r OR push_bit k (of_nat (n mod 128) :: 'a::len word)"
  by (rule bit_word_eqI)
    (auto simp: bit_simps bit_of_nat_iff_bit take_bit_eq_mod [of 7, symmetric, simplified])

section \<open>The interface to input callbacks\<close>

locale pb_source =
  fixes cb :: "'s \<Rightarrow> u64 \<Rightarrow> bool \<times> bytes \<times> 's"
    and peek :: "'s \<Rightarrow> nat \<Rightarrow> bytes"
  assumes cb_ok: "\<exists>st'. cb st n = (True, peek st (unat n), st')
      \<and> (\<forall>k. peek st' k = drop (unat n) (peek st (unat n + k)))"
    and length_peek: "length (peek st k) = k"
    and take_peek: "j \<le> k \<Longrightarrow> take j (peek st k) = peek st j"
begin

lemma length_src: "src_stream cb peek s xs \<Longrightarrow> length xs = unat (is_bytes_left s)"
  by (simp add: src_stream_def length_peek)

lemma callback_src:
  assumes s: "src_stream cb peek s (bs @ ys)" and n: "unat n = length bs"
  obtains st where "is_callback s (is_state s) n = (True, bs, st)" "\<not> is_bytes_left s < n"
    "src_stream cb peek (s\<lparr>is_state := st, is_bytes_left := is_bytes_left s - n\<rparr>) ys"
proof -
  have len: "unat (is_bytes_left s) = unat n + length ys"
    using length_src [OF s] n by simp
  from cb_ok [of "is_state s" n] obtain st where
    st: "cb (is_state s) n = (True, peek (is_state s) (unat n), st)"
      "\<And>k. peek st k = drop (unat n) (peek (is_state s) (unat n + k))" by blast
  have "peek (is_state s) (unat n) = take (unat n) (bs @ ys)"
    using s len take_peek [of "unat n" "unat (is_bytes_left s)"] by (simp add: src_stream_def)
  then have bs: "peek (is_state s) (unat n) = bs" using n by simp
  have le: "\<not> is_bytes_left s < n" using len by (simp add: word_less_nat_alt)
  moreover have "unat (is_bytes_left s - n) = length ys"
    using len by (simp add: unat_sub_if_size)
  moreover have "peek st (length ys) = ys"
    using s n len by (simp add: st(2) src_stream_def) (metis append_eq_conv_conj)
  ultimately show ?thesis
    using that [of st] st bs s by (simp add: src_stream_def)
qed

lemma read_checked_parses:
  "unat n = length bs \<Longrightarrow> parses cb peek (\<lambda>s. pb_read_checked s n) (bs @ ys) (Some bs) ys"
  by (rule parsesI, erule (1) callback_src) (simp add: pb_read_checked_def)

lemma read_parses:
  "unat n = length bs \<Longrightarrow> parses cb peek (\<lambda>s. pb_read s n) (bs @ ys) (Some bs) ys"
  using read_checked_parses [of n bs ys]
  by (cases "n = 0") (auto simp: pb_read_def parses_def)

lemma readbyte_parses: "parses cb peek pb_readbyte (b # ys) (Some b) ys"
proof (rule parsesI)
  fix s
  assume s: "src_stream cb peek s (b # ys)"
  then have "is_bytes_left s \<noteq> 0" using length_src [OF s] by auto
  from s callback_src [of s "[b]" ys 1] obtain st where
    "is_callback s (is_state s) 1 = (True, [b], st)"
    "src_stream cb peek (s\<lparr>is_state := st, is_bytes_left := is_bytes_left s - 1\<rparr>) ys"
    by auto
  with \<open>is_bytes_left s \<noteq> 0\<close> show "\<exists>s'. pb_readbyte s = (Some b, s') \<and> src_stream cb peek s' ys
      \<and> is_errmsg s' = is_errmsg s \<and> is_buf_read s' = is_buf_read s"
    by (simp add: pb_readbyte_def first_byte_def)
qed

lemma skip_loop_parses:
  "unat n = length bs \<Longrightarrow> \<exists>r. parses cb peek (\<lambda>s. pb_skip_loop s n) (bs @ ys) (Some r) ys"
proof (induction "length bs" arbitrary: n bs rule: less_induct)
  case less
  show ?case
  proof (cases "n > 16")
    case True
    then have n16: "unat (n - 16) = unat n - 16" "16 < unat n"
      by (auto simp: word_less_nat_alt unat_sub_if_size)
    with less.prems have "length (drop 16 bs) < length bs" "unat (n - 16) = length (drop 16 bs)"
      by auto
    from less.hyps [OF this] obtain r where
      r: "parses cb peek (\<lambda>s. pb_skip_loop s (n - 16)) (drop 16 bs @ ys) (Some r) ys" by blast
    have "parses cb peek (\<lambda>s. pb_read s 16) (take 16 bs @ drop 16 bs @ ys) (Some (take 16 bs)) (drop 16 bs @ ys)"
      using n16 less.prems by (intro read_parses) simp
    then have "parses cb peek (\<lambda>s. pb_read s 16) (bs @ ys) (Some (take 16 bs)) (drop 16 bs @ ys)"
      by (metis append.assoc append_take_drop_id)
    moreover note r
    ultimately have "parses cb peek (\<lambda>s. pb_skip_loop s n) (bs @ ys) (Some r) ys"
      by (rule parses_bind) (simp add: pb_skip_loop.simps [of _ n] True)
    then show ?thesis by blast
  next
    case False
    then show ?thesis
      using read_parses [OF less.prems, of ys]
      by (subst pb_skip_loop.simps) auto
  qed
qed

lemma read_null_parses:
  assumes n: "unat n = length bs"
  shows "parses cb peek (\<lambda>s. apfst (\<lambda>r. r \<noteq> None) (pb_read_null s n)) (bs @ ys) True ys"
proof (rule parsesI)
  fix s
  assume s: "src_stream cb peek s (bs @ ys)"
  from skip_loop_parses [OF n] obtain r where
    skip: "parses cb peek (\<lambda>s. pb_skip_loop s n) (bs @ ys) (Some r) ys" by blast
  show "\<exists>s'. apfst (\<lambda>r. r \<noteq> None) (pb_read_null s n) = (True, s') \<and> src_stream cb peek s' ys
      \<and> is_errmsg s' = is_errmsg s \<and> is_buf_read s' = is_buf_read s"
    using skip read_checked_parses [OF n, of ys] s n unfolding parses_def
    by (cases "n = 0"; cases "is_buf_read s") (fastforce simp: pb_read_null_def)+
qed

text \<open>Decoding the canonical varint bytes of a number gives the number back.\<close>

lemma varint_dec_loop_parses:
  assumes "n < 2 ^ (64 - 7 * j)" "j < 10" "result = take_bit (7 * j) result"
  shows "parses cb peek (\<lambda>s. varint_dec_loop s (7 * j) result) (leb128 n @ ys)
    (Some (result OR push_bit (7 * j) (of_nat n))) ys"
  using assms
proof (induction n arbitrary: j result rule: leb128.induct)
  case (1 n)
  have j: "\<not> 64 \<le> 7 * j" using "1.prems"(2) by simp
  show ?case
  proof (cases "n < 128")
    case True
    then have "parses cb peek pb_readbyte (leb128 n @ ys) (Some (of_nat n)) ys"
      using readbyte_parses [of "of_nat n" ys] by (simp add: leb128.simps [of n])
    then show ?thesis
      by (rule parses_map)
        (use True in \<open>simp add: varint_dec_loop.simps [of _ "7 * j"] j byte_small_low
           byte_small_high ucast_byte\<close>)
  next
    case False
    let ?b = "of_nat (n mod 128 + 128) :: u8"
    let ?r = "result OR push_bit (7 * j) (of_nat (n mod 128))"
    have j9: "Suc j < 10"
      using False "1.prems"(1,2) by (cases "j = 9") auto
    have "n div 128 < 2 ^ (64 - 7 * Suc j)"
    proof -
      have "(2 :: nat) ^ (64 - 7 * j) = 2 ^ (64 - 7 * Suc j) * 128"
        using j9 power_add [of "2 :: nat" "64 - 7 * Suc j" 7] by simp
      with "1.prems"(1) show ?thesis by (simp add: less_mult_imp_div_less)
    qed
    moreover have "?r = take_bit (7 * Suc j) ?r"
      using "1.prems"(3) take_bit_or_push7 [of "7 * j" result "n"] by (simp add: algebra_simps)
    ultimately have IH: "parses cb peek (\<lambda>s. varint_dec_loop s (7 * Suc j) ?r) (leb128 (n div 128) @ ys)
        (Some (?r OR push_bit (7 * Suc j) (of_nat (n div 128)))) ys"
      using "1.IH" [OF False] j9 by blast
    have read: "parses cb peek pb_readbyte (leb128 n @ ys) (Some ?b) (leb128 (n div 128) @ ys)"
      using readbyte_parses [of ?b "leb128 (n div 128) @ ys"] False
      by (simp add: leb128.simps [of n] del: of_nat_add)
    from read IH have "parses cb peek (\<lambda>s. varint_dec_loop s (7 * j) result) (leb128 n @ ys)
        (Some (?r OR push_bit (7 * Suc j) (of_nat (n div 128)))) ys"
      by (rule parses_bind)
        (simp add: varint_dec_loop.simps [of _ "7 * j"] j last_byte_clear cont_byte_high ucast_byte
           add.commute [of 7 "7 * j"] Let_def del: of_nat_add)
    then show ?thesis
      by (simp add: or_push_split7 or.assoc)
  qed
qed

lemma varint_parses: "parses cb peek pb_decode_varint (varint_bytes v @ ys) (Some v) ys"
  using varint_dec_loop_parses [of "unat v" 0 0 ys] unsigned_less [of v, where 'a = nat]
  by (simp add: pb_decode_varint_def [abs_def] varint_bytes_leb128)

lemma varint32_loop_parses:
  assumes "n < 2 ^ (32 - 7 * j)" "0 < j" "j < 5"
  shows "parses cb peek (\<lambda>s. varint32_loop s (of_nat (7 * j)) result) (leb128 n @ ys)
    (Some (result OR push_bit (7 * j) (of_nat n))) ys"
  using assms
proof (induction n arbitrary: j result rule: leb128.induct)
  case (1 n)
  have "7 * j < 2 ^ LENGTH(8)" using "1.prems" by simp
  then have pos [simp]: "unat (of_nat (7 * j) :: u8) = 7 * j" by (rule unat_of_nat_small)
  have j: "\<not> (32 :: u8) \<le> of_nat (7 * j)"
    using "1.prems" by (simp add: word_le_nat_alt del: of_nat_mult)
  have j': "(of_nat (7 * j) :: u8) + 7 = of_nat (7 * Suc j)" by simp
  show ?case
  proof (cases "n < 128")
    case True
    have "(of_nat (7 * Suc j) :: u8) = 35 \<longleftrightarrow> j = 4"
    proof -
      have "7 * Suc j < 2 ^ LENGTH(8)" using "1.prems" by simp
      then have "unat (of_nat (7 * Suc j) :: u8) = 7 * Suc j" by (rule unat_of_nat_small)
      then show ?thesis by (simp add: word_unat_eq_iff del: of_nat_mult of_nat_Suc of_nat_add)
    qed
    moreover have "j = 4 \<Longrightarrow> (of_nat n :: u8) AND 0x70 = 0"
      using "1.prems"(1) by (simp add: and_70_small)
    ultimately have last: "\<not> ((of_nat (7 * Suc j) :: u8) = 35 \<and> (of_nat n :: u8) AND 0x70 \<noteq> 0)"
      by blast
    from True have "parses cb peek pb_readbyte (leb128 n @ ys) (Some (of_nat n)) ys"
      using readbyte_parses [of "of_nat n" ys] by (simp add: leb128.simps [of n])
    then show ?thesis
      by (rule parses_map)
        (use True last j in \<open>simp add: varint32_loop.simps [of _ "of_nat (7 * j)"] j' byte_small_low
           byte_small_high ucast_byte Let_def del: of_nat_mult of_nat_Suc mult_Suc_right\<close>)
  next
    case False
    let ?b = "of_nat (n mod 128 + 128) :: u8"
    let ?r = "result OR push_bit (7 * j) (of_nat (n mod 128))"
    have j5: "Suc j < 5"
      using False "1.prems" by (cases "j = 4") auto
    have "n div 128 < 2 ^ (32 - 7 * Suc j)"
    proof -
      have "(2 :: nat) ^ (32 - 7 * j) = 2 ^ (32 - 7 * Suc j) * 128"
        using j5 power_add [of "2 :: nat" "32 - 7 * Suc j" 7] by simp
      with "1.prems"(1) show ?thesis by (simp add: less_mult_imp_div_less)
    qed
    then have IH: "parses cb peek (\<lambda>s. varint32_loop s (of_nat (7 * Suc j)) ?r) (leb128 (n div 128) @ ys)
        (Some (?r OR push_bit (7 * Suc j) (of_nat (n div 128)))) ys"
      using "1.IH" [OF False] j5 by blast
    have read: "parses cb peek pb_readbyte (leb128 n @ ys) (Some ?b) (leb128 (n div 128) @ ys)"
      using readbyte_parses [of ?b "leb128 (n div 128) @ ys"] False
      by (simp add: leb128.simps [of n] del: of_nat_add)
    from read IH have "parses cb peek (\<lambda>s. varint32_loop s (of_nat (7 * j)) result) (leb128 n @ ys)
        (Some (?r OR push_bit (7 * Suc j) (of_nat (n div 128)))) ys"
      by (rule parses_bind)
        (use j in \<open>simp add: varint32_loop.simps [of _ "of_nat (7 * j)"] j' last_byte_clear cont_byte_high
           ucast_byte Let_def del: of_nat_add of_nat_mult of_nat_Suc mult_Suc_right\<close>)
    then show ?thesis
      by (simp add: or_push_split7 or.assoc)
  qed
qed

lemma varint32_eof_parses:
  assumes "n < 2 ^ 32"
  shows "parses cb peek pb_decode_varint32_eof (leb128 n @ ys) (Some (of_nat n), False) ys"
proof (cases "n < 128")
  case True
  then have "parses cb peek pb_readbyte (leb128 n @ ys) (Some (of_nat n)) ys"
    using readbyte_parses [of "of_nat n" ys] by (simp add: leb128.simps [of n])
  then show ?thesis
    by (rule parses_map)
      (use True in \<open>simp add: pb_decode_varint32_eof_def byte_small_high ucast_byte\<close>)
next
  case False
  have "n div 128 < 2 ^ (32 - 7 * 1)" using assms by (simp add: less_mult_imp_div_less)
  then have loop: "parses cb peek (\<lambda>s. apfst (\<lambda>r. (r, False)) (varint32_loop s 7 (of_nat (n mod 128))))
      (leb128 (n div 128) @ ys) (Some (of_nat (n mod 128) OR push_bit 7 (of_nat (n div 128))), False) ys"
    using varint32_loop_parses [of "n div 128" 1 "of_nat (n mod 128)" ys]
    by (auto elim!: parses_map)
  have read: "parses cb peek pb_readbyte (leb128 n @ ys) (Some (of_nat (n mod 128 + 128)))
      (leb128 (n div 128) @ ys)"
    using readbyte_parses [of "of_nat (n mod 128 + 128)" "leb128 (n div 128) @ ys"] False
    by (simp add: leb128.simps [of n] del: of_nat_add)
  from read loop show ?thesis
    unfolding or_split7
    by (rule parses_bind)
      (simp add: pb_decode_varint32_eof_def last_byte_clear cont_byte_high ucast_byte
        split_def apfst_def map_prod_def del: of_nat_add)
qed

lemma varint32_parses:
  "n < 2 ^ 32 \<Longrightarrow> parses cb peek pb_decode_varint32 (leb128 n @ ys) (Some (of_nat n)) ys"
  by (rule parses_map [OF varint32_eof_parses]) (auto simp: pb_decode_varint32_def)

text \<open>Tags, fields to skip, substreams.\<close>

lemma tag_parses:
  assumes "0 < t" "t < 2 ^ 29"
  shows "parses cb peek pb_decode_tag (varint_bytes (tag_value wt t) @ ys)
    (Some (ucast (wire_code wt), t), False) ys"
  unfolding varint_bytes_leb128
  by (rule parses_map [OF varint32_eof_parses [OF unat_tag_value_bound [OF assms(2)]]])
    (auto simp: pb_decode_tag_def tag_value_split [OF assms])

lemma svarint_parses: "parses cb peek pb_decode_svarint (varint_bytes (zigzag v) @ ys) (Some v) ys"
  by (rule parses_map [OF varint_parses]) (simp add: pb_decode_svarint_def unzigzag_zigzag)

lemma fixed32_parses: "parses cb peek pb_decode_fixed32 (fixed32_bytes v @ ys) (Some v) ys"
  by (rule parses_map [OF read_parses [of 4]])
    (simp_all add: pb_decode_fixed32_def le_word4 le_word_le_bytes take_bit_word_eq_self fixed32_bytes_le)

lemma fixed64_parses: "parses cb peek pb_decode_fixed64 (fixed64_bytes v @ ys) (Some v) ys"
  by (rule parses_map [OF read_parses [of 8]])
    (simp_all add: pb_decode_fixed64_def le_word8 le_word_le_bytes take_bit_word_eq_self fixed64_bytes_le)

lemma skip_varint_parses: "parses cb peek pb_skip_varint (leb128 n @ ys) True ys"
proof (induction n rule: leb128.induct)
  case (1 n)
  show ?case
  proof (cases "n < 128")
    case True
    then have "parses cb peek (\<lambda>s. pb_read s 1) (leb128 n @ ys) (Some [of_nat n]) ys"
      using read_parses [of 1 "[of_nat n]" ys] by (simp add: leb128.simps [of n])
    then show ?thesis
      by (rule parses_map)
        (use True in \<open>simp add: pb_skip_varint.simps first_byte_def byte_small_high\<close>)
  next
    case False
    then have "parses cb peek (\<lambda>s. pb_read s 1) (leb128 n @ ys) (Some [of_nat (n mod 128 + 128)])
        (leb128 (n div 128) @ ys)"
      using read_parses [of 1 "[of_nat (n mod 128 + 128)]" "leb128 (n div 128) @ ys"]
      by (simp add: leb128.simps [of n] del: of_nat_add)
    from this "1" [OF False] show ?thesis
      by (rule parses_bind)
        (subst pb_skip_varint.simps, simp add: first_byte_def cont_byte_high del: of_nat_add)
  qed
qed

lemma skip_string_parses:
  assumes "length bs < 2 ^ 32"
  shows "parses cb peek pb_skip_string (leb128 (length bs) @ bs @ ys) True ys"
proof -
  have "unat (ucast (of_nat (length bs) :: u32) :: u64) = length bs"
    using assms by (simp add: unsigned_ucast_eq unsigned_of_nat take_bit_nat_eq_self)
  from parses_bind [OF varint32_parses [OF assms] read_null_parses [OF this]] show ?thesis
    by (simp add: pb_skip_string_def apfst_def map_prod_def split_def)
qed

lemma make_substream:
  assumes n: "length bs < 2 ^ 32" and s: "src_stream cb peek s (leb128 (length bs) @ bs @ ys)"
  obtains sub s' where "pb_make_string_substream s = (Some sub, s')" "src_stream cb peek sub bs"
    "is_errmsg sub = is_errmsg s" "is_errmsg s' = is_errmsg s" "is_buf_read s' = is_buf_read s"
    "is_callback s' = cb" "unat (is_bytes_left s') = length ys" "is_state s' = is_state sub"
    "\<And>st. peek (is_state sub) (length bs + length ys) = bs @ ys"
proof -
  from parsesE [OF varint32_parses [OF n] s] obtain s1 where
    s1: "pb_decode_varint32 s = (Some (of_nat (length bs)), s1)" "src_stream cb peek s1 (bs @ ys)"
      "is_errmsg s1 = is_errmsg s" "is_buf_read s1 = is_buf_read s" .
  define k where "k = (ucast (of_nat (length bs) :: u32) :: u64)"
  have k: "unat k = length bs"
    using n by (simp add: k_def unsigned_ucast_eq unsigned_of_nat take_bit_nat_eq_self)
  have len: "unat (is_bytes_left s1) = length bs + length ys"
    using length_src [OF s1(2)] by simp
  have "bs = peek (is_state s1) (length bs)"
    using s1(2) len take_peek [of "length bs" "length bs + length ys" "is_state s1"]
    by (simp add: src_stream_def) (metis append_eq_conv_conj)
  with s1 k len show ?thesis
    by (intro that [of "s1\<lparr>is_bytes_left := k\<rparr>" "s1\<lparr>is_bytes_left := is_bytes_left s1 - k\<rparr>"])
      (auto simp: pb_make_string_substream_def k_def [symmetric] word_less_nat_alt unat_sub_if_size
         src_stream_def)
qed

end

section \<open>The memory buffer as a source\<close>

definition ibuf_peek :: "ibuf \<Rightarrow> nat \<Rightarrow> bytes" where
  "ibuf_peek st n = mem_read (ib_mem st) (ib_ptr st) n"

interpretation bufr: pb_source buf_read ibuf_peek
  by unfold_locales (simp_all add: buf_read_def ibuf_peek_def)

section \<open>Round trips through a buffer\<close>

text \<open>What an encoding step puts into a buffer, a decoder of these bytes reads back.\<close>

lemma sink_from_buffer:
  assumes "unat n < 2 ^ 63"
  shows "sink_stream buf_write (obuf_room p n) (pb_ostream_from_buffer m p n)"
    and "os_fits (pb_ostream_from_buffer m p n) k \<longleftrightarrow> k \<le> unat n"
  using assms by (auto simp: sink_stream_def pb_ostream_from_buffer_def obuf_room_def os_fits_def)

lemma emits_buffer:
  assumes "emits buf_write (obuf_out p) (obuf_room p n) (obuf_keep p n) enc bs"
    and n: "length bs \<le> unat n" "unat n < 2 ^ 63"
  obtains s where "enc (pb_ostream_from_buffer m p n) = (True, s)"
    "mem_read (ob_mem (os_state s)) p (length bs) = bs" "unat (os_bytes_written s) = length bs"
    "\<forall>q. unat n \<le> mem_off p q \<longrightarrow> ob_mem (os_state s) q = m q"
proof -
  note sink = sink_from_buffer [OF n(2)]
  from sink n have fits: "os_fits (pb_ostream_from_buffer m p n) (length bs)" by simp
  from assms(1) sink(1) fits obtain st where st:
    "enc (pb_ostream_from_buffer m p n) = (True, os_advance (pb_ostream_from_buffer m p n) (length bs) st)"
    "obuf_out p st = bs" "obuf_keep p n st = obuf_keep p n \<lparr>ob_mem = m, ob_ptr = p\<rparr>"
    by (rule emitsE_fits) (simp add: pb_ostream_from_buffer_def obuf_out_def)
  have "length (obuf_out p st) = length bs" using st by simp
  then have "mem_read (ob_mem st) p (length bs) = bs"
    using st(2) by (simp add: obuf_out_def)
  moreover have "unat n \<le> mem_off p q \<Longrightarrow> ob_mem st q = m q" for q
    using st(3) by (auto simp: obuf_keep_def fun_eq_iff split: if_splits dest: spec [of _ q])
  moreover have "unat (of_nat (length bs) :: u64) = length bs"
    using n by (intro unat_of_nat_small) simp
  ultimately show ?thesis
    using st(1) that by (simp add: pb_ostream_from_buffer_def)
qed

lemma parses_buffer:
  assumes "parses buf_read ibuf_peek dec (mem_read m p (unat n)) v ys"
  obtains s where "dec (pb_istream_from_buffer m p n) = (v, s)" "is_errmsg s = None"
    "unat (is_bytes_left s) = length ys"
proof -
  have "src_stream buf_read ibuf_peek (pb_istream_from_buffer m p n) (mem_read m p (unat n))"
    by (simp add: src_stream_def pb_istream_from_buffer_def ibuf_peek_def)
  from parsesE [OF assms this] obtain s where "dec (pb_istream_from_buffer m p n) = (v, s)"
    "src_stream buf_read ibuf_peek s ys" "is_errmsg s = is_errmsg (pb_istream_from_buffer m p n)" .
  with bufr.length_src that show ?thesis by (simp add: pb_istream_from_buffer_def)
qed

lemma buffer_roundtrip:
  assumes "emits buf_write (obuf_out p) (obuf_room p n) (obuf_keep p n) enc bs"
    and "parses buf_read ibuf_peek dec bs v []"
    and "length bs \<le> unat n" "unat n < 2 ^ 63"
  shows "\<exists>s s'. enc (pb_ostream_from_buffer m p n) = (True, s)
    \<and> dec (pb_istream_from_buffer (ob_mem (os_state s)) p (os_bytes_written s)) = (v, s')
    \<and> is_bytes_left s' = 0 \<and> is_errmsg s' = None"
proof -
  from emits_buffer [OF assms(1,3,4)] obtain s where s: "enc (pb_ostream_from_buffer m p n) = (True, s)"
    "mem_read (ob_mem (os_state s)) p (length bs) = bs" "unat (os_bytes_written s) = length bs" .
  with assms(2) have "parses buf_read ibuf_peek dec
      (mem_read (ob_mem (os_state s)) p (unat (os_bytes_written s))) v []" by simp
  then obtain s' where "dec (pb_istream_from_buffer (ob_mem (os_state s)) p (os_bytes_written s)) = (v, s')"
    "is_errmsg s' = None" "unat (is_bytes_left s') = length ([] :: bytes)" by (rule parses_buffer)
  with s(1) show ?thesis by (auto simp: unat_eq_0)
qed

text \<open>
  C10. A 64-bit value that \<open>pb_encode_varint\<close> writes into a buffer of at least ten bytes is read
  back by \<open>pb_decode_varint\<close>, with nothing left over.
\<close>

theorem varint_roundtrip:
  assumes "10 \<le> n" "n < 2 ^ 63"
  shows "\<exists>s s'. pb_encode_varint v (pb_ostream_from_buffer m p n) = (True, s)
    \<and> pb_decode_varint (pb_istream_from_buffer (ob_mem (os_state s)) p (os_bytes_written s)) = (Some v, s')
    \<and> is_bytes_left s' = 0 \<and> is_errmsg s' = None"
  using length_varint_bytes [of v] assms bufr.varint_parses [of v "[]"]
  by (intro buffer_roundtrip [OF bufw.varint_emits]) (simp_all add: word_le_nat_alt word_less_nat_alt)

lemma varint_roundtrip_witness:
  "\<exists>s s'. pb_encode_varint 300 (pb_ostream_from_buffer (\<lambda>_. 0) 4096 16) = (True, s)
    \<and> pb_decode_varint (pb_istream_from_buffer (ob_mem (os_state s)) 4096 (os_bytes_written s)) = (Some 300, s')
    \<and> is_bytes_left s' = 0 \<and> is_errmsg s' = None"
  by (rule varint_roundtrip) simp_all

end
