(* ===== verification/PbVarint32.thy ===== *)
theory PbVarint32
  imports PbIstream
begin

text \<open>
  What \<open>pb_decode_varint32\<close> accepts. It is the decoder of tags, lengths and booleans, and
  must refuse varints that do not fit into 32 bits, apart from the ten-byte form of a negative
  32-bit integer. On canonical encodings of numbers below \<open>2 ^ 63\<close> it accepts exactly the
  numbers below \<open>2 ^ 32\<close>; it accepts every sign-extended negative number. Encodings of more
  than ten bytes are not refused, and the 8-bit position counter wraps around on them.
\<close>

definition rejects ::
  "('s \<Rightarrow> u64 \<Rightarrow> bool \<times> bytes \<times> 's) \<Rightarrow> ('s \<Rightarrow> nat \<Rightarrow> bytes)
     \<Rightarrow> ('s pb_istream \<Rightarrow> 'v option \<times> 's pb_istream) \<Rightarrow> bytes \<Rightarrow> bool" where
  "rejects cb peek d xs \<longleftrightarrow> (\<forall>s. src_stream cb peek s xs \<longrightarrow> fst (d s) = None)"

lemma rejects_after:
  assumes "parses cb peek d xs v ys" "rejects cb peek e ys"
    and "\<And>s s'. d s = (v, s') \<Longrightarrow> f s = e s'"
  shows "rejects cb peek f xs"
  using assms unfolding rejects_def parses_def by metis

lemma rejects_at:
  assumes "parses cb peek d xs v ys" "\<And>s s'. d s = (v, s') \<Longrightarrow> fst (f s) = None"
  shows "rejects cb peek f xs"
  using assms unfolding rejects_def parses_def by metis

lemma and_70_nonzero: "n < 128 \<Longrightarrow> \<not> n < 16 \<Longrightarrow> (of_nat n :: u8) AND 0x70 \<noteq> 0"
proof
  assume n: "n < 128" "\<not> n < 16" and z: "(of_nat n :: u8) AND 0x70 = 0"
  have "(of_nat n :: u8) = of_nat n AND 0x7F" using n by (simp add: byte_small_low)
  also have "\<dots> = of_nat n AND (0x70 OR 0x0F)" by simp
  also have "\<dots> = of_nat n AND 0x0F" using z by (simp only: bit.conj_disj_distrib) simp
  finally have "unat (of_nat n :: u8) = unat (of_nat n AND 0x0F :: u8)" by simp
  also have "(of_nat n AND 0x0F :: u8) = take_bit 4 (of_nat n)"
    by (simp add: take_bit_eq_mask mask_eq_exp_minus_1)
  also have "unat \<dots> < 16"
    unfolding unsigned_take_bit_eq by (simp add: take_bit_eq_mod)
  finally show False using n by simp
qed

lemma pos8 [simp]: "j < 36 \<Longrightarrow> unat (of_nat (7 * j) :: u8) = 7 * j"
  by (rule unat_of_nat_small) simp

lemma pos8_numeral:
  "j < 36 \<Longrightarrow> (32 :: u8) \<le> of_nat (7 * j) \<longleftrightarrow> 32 \<le> 7 * j"
  "j < 36 \<Longrightarrow> (of_nat (7 * j) :: u8) < 63 \<longleftrightarrow> 7 * j < 63"
  "j < 36 \<Longrightarrow> (of_nat (7 * j) :: u8) = 35 \<longleftrightarrow> 7 * j = 35"
  by (simp_all add: word_le_nat_alt word_less_nat_alt word_unat_eq_iff del: of_nat_mult)

lemma pos8_Suc: "(of_nat (7 * j) :: u8) + 7 = of_nat (7 * Suc j)"
  by simp

context pb_source
begin

lemma readbyte_leb128_last: "n < 128 \<Longrightarrow> parses cb peek pb_readbyte (leb128 n @ ys) (Some (of_nat n)) ys"
  using readbyte_parses [of "of_nat n" ys] by (simp add: leb128.simps [of n])

lemma readbyte_leb128_more: "\<not> n < 128 \<Longrightarrow>
    parses cb peek pb_readbyte (leb128 n @ ys) (Some (of_nat (n mod 128 + 128))) (leb128 (n div 128) @ ys)"
  using readbyte_parses [of "of_nat (n mod 128 + 128)" "leb128 (n div 128) @ ys"]
  by (simp add: leb128.simps [of n] del: of_nat_add)

text \<open>Past bit 35: a nonzero remainder below \<open>2 ^ 63\<close> is an overflow.\<close>

lemma varint32_loop_high_rejects:
  assumes "0 < n" "n < 2 ^ (63 - 7 * j)" "5 \<le> j" "j < 9"
  shows "rejects cb peek (\<lambda>s. varint32_loop s (of_nat (7 * j)) result) (leb128 n @ ys)"
  using assms
proof (induction n arbitrary: j rule: leb128.induct)
  case (1 n)
  have pos: "(32 :: u8) \<le> of_nat (7 * j)" "(of_nat (7 * j) :: u8) < 63"
    using "1.prems" by (simp_all add: pos8_numeral del: of_nat_mult)
  show ?case
  proof (cases "n < 128")
    case True
    then have "unat (of_nat n :: u8) = n" by simp
    with True "1.prems"(1) have "(of_nat n :: u8) \<noteq> 0" "(of_nat n :: u8) \<noteq> 0xFF"
      by (auto simp: word_unat_eq_iff)
    then show ?thesis
      by (intro rejects_at [OF readbyte_leb128_last [OF True]])
        (use True pos in \<open>simp add: varint32_loop.simps [of _ "of_nat (7 * j)"] byte_small_low
           Let_def del: of_nat_mult\<close>)
  next
    case False
    have j8: "Suc j < 9"
      using False "1.prems" by (cases "j = 8") auto
    have "n div 128 < 2 ^ (63 - 7 * Suc j)"
    proof -
      have "(2 :: nat) ^ (63 - 7 * j) = 2 ^ (63 - 7 * Suc j) * 128"
        using j8 power_add [of "2 :: nat" "63 - 7 * Suc j" 7] by simp
      with "1.prems"(2) show ?thesis by (simp add: less_mult_imp_div_less)
    qed
    moreover have "0 < n div 128" using False by simp
    ultimately have IH: "rejects cb peek (\<lambda>s. varint32_loop s (of_nat (7 * Suc j)) result)
        (leb128 (n div 128) @ ys)"
      using "1.prems"(3) j8 by (intro "1.IH" [OF False]) simp_all
    let ?b = "of_nat (n mod 128 + 128) :: u8"
    let ?over = "?b AND 0x7F \<noteq> 0 \<and> (drop_bit 31 result = 0 \<or> ?b \<noteq> 0xFF)"
    note unfold = varint32_loop.simps [of _ "of_nat (7 * j)"]
    show ?thesis
    proof (cases ?over)
      case True
      then show ?thesis
        by (intro rejects_at [OF readbyte_leb128_more [OF False]])
          (use pos in \<open>simp add: unfold Let_def del: of_nat_mult of_nat_add\<close>)
    next
      case no: False
      from readbyte_leb128_more [OF False] IH show ?thesis
        by (rule rejects_after)
          (use pos no in \<open>auto simp: unfold Let_def pos8_Suc cont_byte_high
             simp del: of_nat_mult of_nat_add of_nat_Suc mult_Suc_right\<close>)
    qed
  qed
qed

text \<open>Below bit 35: a number of 32 bits or more ends in an overflow.\<close>

lemma varint32_loop_rejects:
  assumes "2 ^ (32 - 7 * j) \<le> n" "n < 2 ^ (63 - 7 * j)" "0 < j" "j < 5"
  shows "rejects cb peek (\<lambda>s. varint32_loop s (of_nat (7 * j)) result) (leb128 n @ ys)"
  using assms
proof (induction n arbitrary: j result rule: leb128.induct)
  case (1 n)
  have pos: "\<not> (32 :: u8) \<le> of_nat (7 * j)" using "1.prems" by (simp add: pos8_numeral del: of_nat_mult)
  note unfold = varint32_loop.simps [of _ "of_nat (7 * j)"]
  show ?case
  proof (cases "n < 128")
    case True
    have j4: "j = 4"
    proof (rule ccontr)
      assume "j \<noteq> 4"
      with "1.prems"(4) have "11 \<le> 32 - 7 * j" by simp
      then have "(2 :: nat) ^ 11 \<le> 2 ^ (32 - 7 * j)" by (rule power_increasing) simp
      with True "1.prems"(1) show False by simp
    qed
    then have "(of_nat n :: u8) AND 0x70 \<noteq> 0" using True "1.prems"(1) by (intro and_70_nonzero) auto
    with True j4 show ?thesis
      by (intro rejects_at [OF readbyte_leb128_last [OF True]])
        (simp add: varint32_loop.simps [of _ 28] byte_small_low byte_small_high Let_def)
  next
    case False
    let ?r = "result OR push_bit (7 * j) (of_nat (n mod 128))"
    have up: "n div 128 < 2 ^ (63 - 7 * Suc j)"
    proof -
      have "(2 :: nat) ^ (63 - 7 * j) = 2 ^ (63 - 7 * Suc j) * 128"
        using "1.prems"(4) power_add [of "2 :: nat" "63 - 7 * Suc j" 7] by simp
      with "1.prems"(2) show ?thesis by (simp add: less_mult_imp_div_less)
    qed
    have "rejects cb peek (\<lambda>s. varint32_loop s (of_nat (7 * Suc j)) ?r) (leb128 (n div 128) @ ys)"
    proof (cases "j = 4")
      case True
      have "0 < n div 128" using False by simp
      from varint32_loop_high_rejects [OF this up] True show ?thesis by simp
    next
      case j: False
      have "(2 :: nat) ^ (32 - 7 * j) = 2 ^ (32 - 7 * Suc j) * 128"
        using j "1.prems"(4) power_add [of "2 :: nat" "32 - 7 * Suc j" 7] by simp
      with "1.prems"(1) have "2 ^ (32 - 7 * Suc j) \<le> n div 128"
        by (simp add: less_eq_div_iff_mult_less_eq)
      with "1.IH" [OF False _ up] j "1.prems"(4) show ?thesis by simp
    qed
    then show ?thesis
      by (rule rejects_after [OF readbyte_leb128_more [OF False]])
        (use pos "1.prems"(4) in \<open>simp add: unfold Let_def pos8_Suc cont_byte_high last_byte_clear ucast_byte
           del: of_nat_mult of_nat_add of_nat_Suc mult_Suc_right\<close>)
  qed
qed

lemma varint32_rejects:
  assumes "2 ^ 32 \<le> n" "n < 2 ^ 63"
  shows "rejects cb peek pb_decode_varint32 (leb128 n @ ys)"
proof -
  have more: "\<not> n < 128" using assms(1) by simp
  have "rejects cb peek (\<lambda>s. varint32_loop s (of_nat (7 * 1)) (of_nat (n mod 128))) (leb128 (n div 128) @ ys)"
    using assms by (intro varint32_loop_rejects) (simp_all add: less_mult_imp_div_less less_eq_div_iff_mult_less_eq)
  then have "rejects cb peek (\<lambda>s. varint32_loop s 7 (of_nat (n mod 128))) (leb128 (n div 128) @ ys)"
    by simp
  then show ?thesis
    by (rule rejects_after [OF readbyte_leb128_more [OF more]])
      (simp add: pb_decode_varint32_def pb_decode_varint32_eof_def last_byte_clear cont_byte_high
        ucast_byte split_def del: of_nat_add)
qed

text \<open>A run of \<open>0x80\<close> bytes only moves the position, however long it is.\<close>

lemma varint32_loop_zeros:
  "parses cb peek (\<lambda>s. varint32_loop s (pos + of_nat (7 * k)) result) xs v zs \<Longrightarrow>
   parses cb peek (\<lambda>s. varint32_loop s pos result) (replicate k 0x80 @ xs) v zs"
proof (induction k arbitrary: pos)
  case 0
  then show ?case by simp
next
  case (Suc k)
  then have "parses cb peek (\<lambda>s. varint32_loop s (pos + 7) result) (replicate k 0x80 @ xs) v zs"
    by (simp add: algebra_simps)
  with readbyte_parses
  have "parses cb peek (\<lambda>s. varint32_loop s pos result) (0x80 # replicate k 0x80 @ xs) v zs"
    by (rule parses_bind) (simp add: varint32_loop.simps [of _ pos] Let_def)
  then show ?case by simp
qed

lemma varint32_overlong:
  "parses cb peek pb_decode_varint32 (replicate 37 0x80 @ 1 # ys) (Some 8) ys"
proof -
  have "parses cb peek (\<lambda>s. varint32_loop s (7 + of_nat (7 * 36)) 0) (1 # ys) (Some 8) ys"
    by (rule parses_map [OF readbyte_parses]) (simp add: varint32_loop.simps Let_def)
  then have "parses cb peek (\<lambda>s. varint32_loop s 7 0) (replicate 36 0x80 @ 1 # ys) (Some 8) ys"
    by (rule varint32_loop_zeros)
  then have "parses cb peek pb_decode_varint32 (0x80 # replicate 36 0x80 @ 1 # ys) (Some 8) ys"
    by (rule parses_bind [OF readbyte_parses])
      (simp add: pb_decode_varint32_def pb_decode_varint32_eof_def split_def)
  moreover have "(37 :: nat) = Suc 36" by simp
  ultimately show ?thesis by (simp only: replicate_Suc append_Cons)
qed

end

end
