(* ===== verification/PbCommon.thy ===== *)
theory PbCommon
  imports Prelude
begin

text \<open>
  Message descriptors (pb.h) and the field iterator (pb_common.c, pb_common.h) that the encoder
  and the decoder share. A descriptor is the array of \<open>pb_field_t\<close> with its terminator; the
  iterator walks it and keeps the addresses of the current field and of its size field in the
  message struct. The build defines \<open>PB_FIELD_32BIT\<close>, so sizes and tags are 32-bit.

  \<open>field_addr\<close> and \<open>required_before\<close> give the address and the count of required fields
  as functions of the position alone; \<open>iter_inv\<close> says the iterator agrees with them, and every
  operation keeps it. \<open>iter_run\<close> lists the iterator states of a \<open>do ... while (next)\<close> loop.
\<close>

section \<open>Descriptors\<close>

record pb_field =
  tag :: u32
  ftype :: u8
  data_offset :: u32
  size_offset :: u32
  data_size :: u32
  array_size :: u32
  fptr :: u64

definition pb_last_field :: pb_field where
  "pb_last_field = \<lparr>tag = 0, ftype = 0, data_offset = 0, size_offset = 0, data_size = 0,
     array_size = 0, fptr = 0\<rparr>"

definition pb_atype :: "u8 \<Rightarrow> u8" where "pb_atype x = x AND 0xC0"
definition pb_htype :: "u8 \<Rightarrow> u8" where "pb_htype x = x AND 0x30"
definition pb_ltype :: "u8 \<Rightarrow> u8" where "pb_ltype x = x AND 0x0F"

abbreviation (input) "PB_LTYPE_BOOL \<equiv> 0x00 :: u8"
abbreviation (input) "PB_LTYPE_VARINT \<equiv> 0x01 :: u8"
abbreviation (input) "PB_LTYPE_UVARINT \<equiv> 0x02 :: u8"
abbreviation (input) "PB_LTYPE_SVARINT \<equiv> 0x03 :: u8"
abbreviation (input) "PB_LTYPE_FIXED32 \<equiv> 0x04 :: u8"
abbreviation (input) "PB_LTYPE_FIXED64 \<equiv> 0x05 :: u8"
abbreviation (input) "PB_LTYPE_LAST_PACKABLE \<equiv> 0x05 :: u8"
abbreviation (input) "PB_LTYPE_BYTES \<equiv> 0x06 :: u8"
abbreviation (input) "PB_LTYPE_STRING \<equiv> 0x07 :: u8"
abbreviation (input) "PB_LTYPE_SUBMESSAGE \<equiv> 0x08 :: u8"
abbreviation (input) "PB_LTYPE_EXTENSION \<equiv> 0x09 :: u8"
abbreviation (input) "PB_LTYPE_FIXED_LENGTH_BYTES \<equiv> 0x0A :: u8"
abbreviation (input) "PB_HTYPE_REQUIRED \<equiv> 0x00 :: u8"
abbreviation (input) "PB_HTYPE_OPTIONAL \<equiv> 0x10 :: u8"
abbreviation (input) "PB_HTYPE_REPEATED \<equiv> 0x20 :: u8"
abbreviation (input) "PB_HTYPE_ONEOF \<equiv> 0x30 :: u8"
abbreviation (input) "PB_ATYPE_STATIC \<equiv> 0x00 :: u8"
abbreviation (input) "PB_ATYPE_POINTER \<equiv> 0x80 :: u8"
abbreviation (input) "PB_ATYPE_CALLBACK \<equiv> 0x40 :: u8"
abbreviation (input) "PB_SIZE_MAX \<equiv> 0xFFFFFFFF :: u32"

text \<open>A descriptor array: fields with nonzero tags, then the terminator.\<close>

definition fields_wf :: "pb_field list \<Rightarrow> bool" where
  "fields_wf fs \<longleftrightarrow> fs \<noteq> [] \<and> tag (last fs) = 0 \<and> (\<forall>f \<in> set (butlast fs). tag f \<noteq> 0)"

definition field_at :: "pb_field list \<Rightarrow> nat \<Rightarrow> pb_field" where
  "field_at fs i = (if i < length fs then fs ! i else pb_last_field)"

text \<open>Loads from a message struct.\<close>

definition rd_u32 :: "mem \<Rightarrow> u64 \<Rightarrow> u32" where "rd_u32 m p = le_word (mem_read m p 4)"
definition rd_u64 :: "mem \<Rightarrow> u64 \<Rightarrow> u64" where "rd_u64 m p = le_word (mem_read m p 8)"

text \<open>
  A \<open>pb_extension_t\<close> holds its type at offset 0, \<open>dest\<close> at 8 and \<open>next\<close> at 16 and
  \<open>found\<close> at 24; a
  \<open>pb_extension_type_t\<close> holds \<open>decode\<close> at 0, \<open>encode\<close> at 8 and \<open>arg\<close> at 16.
\<close>

definition ext_type :: "mem \<Rightarrow> u64 \<Rightarrow> u64" where "ext_type m e = rd_u64 m e"
definition ext_dest :: "mem \<Rightarrow> u64 \<Rightarrow> u64" where "ext_dest m e = rd_u64 m (e + 8)"
definition ext_next :: "mem \<Rightarrow> u64 \<Rightarrow> u64" where "ext_next m e = rd_u64 m (e + 16)"

section \<open>The iterator\<close>

record pb_field_iter =
  it_start :: "pb_field list"
  it_pos :: nat
  it_required_field_index :: u32
  it_dest_struct :: u64
  it_pData :: u64
  it_pSize :: u64

abbreviation it_field :: "pb_field_iter \<Rightarrow> pb_field" where
  "it_field it \<equiv> field_at (it_start it) (it_pos it)"

definition pb_field_iter_begin :: "pb_field list \<Rightarrow> u64 \<Rightarrow> bool \<times> pb_field_iter" where
  "pb_field_iter_begin fds dest =
     (let f = field_at fds 0;
          pData = (if dest = 0 then 0 else dest + ucast (data_offset f));
          pSize = (if dest = 0 then 0 else pData + scast (size_offset f))
      in (tag f \<noteq> 0,
          \<lparr>it_start = fds, it_pos = 0, it_required_field_index = 0, it_dest_struct = dest,
           it_pData = pData, it_pSize = pSize\<rparr>))"

text \<open>The size that a field takes up in the message struct (\<open>prev_size\<close>).\<close>

definition field_extent :: "pb_field \<Rightarrow> u64" where
  "field_extent f =
     (if pb_atype (ftype f) = PB_ATYPE_STATIC \<and> pb_htype (ftype f) = PB_HTYPE_REPEATED
        then ucast (data_size f) * ucast (array_size f)
      else if pb_atype (ftype f) = PB_ATYPE_POINTER then 8
      else ucast (data_size f))"

definition pb_field_iter_next :: "pb_field_iter \<Rightarrow> bool \<times> pb_field_iter" where
  "pb_field_iter_next it =
     (let prev = it_field it in
      if tag prev = 0 then (False, it)
      else
        (let it1 = it\<lparr>it_pos := it_pos it + 1\<rparr>; cur = it_field it1 in
         if tag cur = 0 then
           (False, snd (pb_field_iter_begin (it_start it) (it_dest_struct it)))
         else if pb_htype (ftype prev) = PB_HTYPE_ONEOF \<and> pb_htype (ftype cur) = PB_HTYPE_ONEOF
                 \<and> data_offset cur = PB_SIZE_MAX
           then (True, it1)
         else
           (let pData = it_pData it + field_extent prev + ucast (data_offset cur) in
            (True, it1\<lparr>it_required_field_index :=
                         (if pb_htype (ftype prev) = PB_HTYPE_REQUIRED
                          then it_required_field_index it + 1 else it_required_field_index it),
                       it_pData := pData, it_pSize := pData + scast (size_offset cur)\<rparr>))))"

text \<open>
  The search of \<open>pb_field_iter_find\<close>, from the current field around to it again. The first
  argument bounds the iterations: \<open>None\<close> is a search that has not come around after them.
\<close>

fun iter_find_loop :: "nat \<Rightarrow> u32 \<Rightarrow> nat \<Rightarrow> pb_field_iter \<Rightarrow> (bool \<times> pb_field_iter) option" where
  "iter_find_loop 0 t start it = None"
| "iter_find_loop (Suc n) t start it =
     (if tag (it_field it) = t \<and> pb_ltype (ftype (it_field it)) \<noteq> PB_LTYPE_EXTENSION
      then Some (True, it)
      else (let it' = snd (pb_field_iter_next it) in
            if it_pos it' = start then Some (False, it') else iter_find_loop n t start it'))"

definition pb_field_iter_find :: "pb_field_iter \<Rightarrow> u32 \<Rightarrow> (bool \<times> pb_field_iter) option" where
  "pb_field_iter_find it t = iter_find_loop (length (it_start it)) t (it_pos it) it"

text \<open>The iterator states in which the body of \<open>do ... while (pb_field_iter_next)\<close> runs.\<close>

lemma iter_next_pos:
  assumes "pb_field_iter_next it = (True, it')"
  shows "it_start it' = it_start it" "it_pos it' = Suc (it_pos it)" "it_pos it' < length (it_start it)"
proof -
  have "tag (field_at fs i) \<noteq> 0 \<Longrightarrow> i < length fs" for fs i
    by (auto simp: field_at_def pb_last_field_def split: if_splits)
  with assms show "it_start it' = it_start it" "it_pos it' = Suc (it_pos it)"
    "it_pos it' < length (it_start it)"
    by (auto simp: pb_field_iter_next_def Let_def split: if_splits)
qed

function iter_run :: "pb_field_iter \<Rightarrow> pb_field_iter list" where
  "iter_run it = it # (case pb_field_iter_next it of (go, it') \<Rightarrow> if go then iter_run it' else [])"
  by pat_completeness auto
termination
proof (relation "measure (\<lambda>it. length (it_start it) - it_pos it)")
  fix it go it' and x
  assume "(go, it') = pb_field_iter_next it" go
  then show "(it', it) \<in> measure (\<lambda>it. length (it_start it) - it_pos it)"
    using iter_next_pos [of it it'] by auto
qed simp

declare iter_run.simps [simp del]

definition iter_fields :: "pb_field list \<Rightarrow> u64 \<Rightarrow> pb_field_iter list" where
  "iter_fields fds dest =
     (case pb_field_iter_begin fds dest of (go, it) \<Rightarrow> if go then iter_run it else [])"

section \<open>Where the iterator is\<close>

definition shares_union :: "pb_field \<Rightarrow> pb_field \<Rightarrow> bool" where
  "shares_union f g \<longleftrightarrow> pb_htype (ftype f) = PB_HTYPE_ONEOF \<and> pb_htype (ftype g) = PB_HTYPE_ONEOF
     \<and> data_offset g = PB_SIZE_MAX"

text \<open>Address of the size field of the field that opened the current union, or of the field.\<close>

fun field_addr :: "pb_field list \<Rightarrow> u64 \<Rightarrow> nat \<Rightarrow> u64" where
  "field_addr fs d 0 = d + ucast (data_offset (field_at fs 0))"
| "field_addr fs d (Suc i) =
     (if shares_union (field_at fs i) (field_at fs (Suc i)) then field_addr fs d i
      else field_addr fs d i + field_extent (field_at fs i) + ucast (data_offset (field_at fs (Suc i))))"

fun size_addr :: "pb_field list \<Rightarrow> u64 \<Rightarrow> nat \<Rightarrow> u64" where
  "size_addr fs d 0 = field_addr fs d 0 + scast (size_offset (field_at fs 0))"
| "size_addr fs d (Suc i) =
     (if shares_union (field_at fs i) (field_at fs (Suc i)) then size_addr fs d i
      else field_addr fs d (Suc i) + scast (size_offset (field_at fs (Suc i))))"

definition required_before :: "pb_field list \<Rightarrow> nat \<Rightarrow> nat" where
  "required_before fs i = length (filter (\<lambda>f. pb_htype (ftype f) = PB_HTYPE_REQUIRED) (take i fs))"

definition iter_inv :: "pb_field list \<Rightarrow> u64 \<Rightarrow> pb_field_iter \<Rightarrow> bool" where
  "iter_inv fs d it \<longleftrightarrow>
     it_start it = fs \<and> it_dest_struct it = d \<and> it_pos it < length fs
   \<and> (tag (it_field it) = 0 \<longrightarrow> it_pos it = 0)
   \<and> it_required_field_index it = of_nat (required_before fs (it_pos it))
   \<and> (d \<noteq> 0 \<longrightarrow> it_pData it = field_addr fs d (it_pos it) \<and> it_pSize it = size_addr fs d (it_pos it))"

lemma field_at_wf:
  assumes "fields_wf fs"
  shows "tag (field_at fs i) = 0 \<longleftrightarrow> length fs - 1 \<le> i"
proof (cases "i < length fs - 1")
  case True
  then have "field_at fs i \<in> set (butlast fs)"
    by (auto simp: field_at_def in_set_conv_nth nth_butlast intro!: exI [of _ i])
  with assms True show ?thesis by (auto simp: fields_wf_def)
next
  case False
  then show ?thesis
    using assms by (auto simp: fields_wf_def field_at_def pb_last_field_def last_conv_nth not_less
        intro: arg_cong [where f = "\<lambda>i. tag (fs ! i)"] dest: le_antisym)
qed

lemma iter_begin_inv: "fields_wf fs \<Longrightarrow> iter_inv fs d (snd (pb_field_iter_begin fs d))"
  by (auto simp: iter_inv_def pb_field_iter_begin_def Let_def required_before_def fields_wf_def)

lemma required_before_Suc:
  "i < length fs \<Longrightarrow> required_before fs (Suc i) = required_before fs i +
     (if pb_htype (ftype (field_at fs i)) = PB_HTYPE_REQUIRED then 1 else 0)"
  by (simp add: required_before_def take_Suc_conv_app_nth field_at_def)

lemma iter_next_inv:
  assumes "fields_wf fs" "iter_inv fs d it"
  shows "iter_inv fs d (snd (pb_field_iter_next it))"
proof -
  have "PB_HTYPE_ONEOF \<noteq> PB_HTYPE_REQUIRED" by simp
  with assms iter_begin_inv [OF assms(1), of d] show ?thesis
    using field_at_wf [OF assms(1), of "Suc (it_pos it)"]
    by (auto simp: iter_inv_def pb_field_iter_next_def Let_def shares_union_def required_before_Suc)
qed

lemma iter_next_wf:
  assumes wf: "fields_wf fs" and inv: "iter_inv fs d it" and n: "0 < length fs - 1"
  shows "it_pos (snd (pb_field_iter_next it)) = Suc (it_pos it) mod (length fs - 1)"
    and "fst (pb_field_iter_next it) \<longleftrightarrow> Suc (it_pos it) < length fs - 1"
proof -
  have start: "it_start it = fs" and "it_pos it < length fs"
    and z: "tag (it_field it) = 0 \<longrightarrow> it_pos it = 0" using inv by (auto simp: iter_inv_def)
  have cur: "tag (field_at fs (it_pos it)) \<noteq> 0"
    using z n start by (auto simp: field_at_wf [OF wf])
  then have pos: "it_pos it < length fs - 1" by (simp add: field_at_wf [OF wf])
  have nxt: "tag (field_at fs (Suc (it_pos it))) = 0 \<longleftrightarrow> length fs - 1 \<le> Suc (it_pos it)"
    by (rule field_at_wf [OF wf])
  show "it_pos (snd (pb_field_iter_next it)) = Suc (it_pos it) mod (length fs - 1)"
    using cur nxt pos start
    by (auto simp: pb_field_iter_next_def Let_def pb_field_iter_begin_def mod_less
        dest: le_antisym)
  show "fst (pb_field_iter_next it) \<longleftrightarrow> Suc (it_pos it) < length fs - 1"
    using cur nxt start by (auto simp: pb_field_iter_next_def Let_def)
qed

lemma iter_next_empty:
  "iter_inv fs d it \<Longrightarrow> fields_wf fs \<Longrightarrow> length fs - 1 = 0 \<Longrightarrow> pb_field_iter_next it = (False, it)"
  by (auto simp: iter_inv_def pb_field_iter_next_def field_at_wf)

lemma iter_run_inv: "fields_wf fs \<Longrightarrow> iter_inv fs d it \<Longrightarrow> \<forall>j \<in> set (iter_run it). iter_inv fs d j"
proof (induction it rule: iter_run.induct)
  case (1 it)
  obtain go it' where nx: "pb_field_iter_next it = (go, it')" by fastforce
  have "iter_inv fs d it'" using iter_next_inv [OF "1.prems"] nx by simp
  with "1.IH" [OF nx [symmetric]] "1.prems"
  have "go \<Longrightarrow> \<forall>j \<in> set (iter_run it'). iter_inv fs d j" by blast
  with "1.prems"(2) nx show ?case by (cases go) (simp_all add: iter_run.simps [of it])
qed

lemma iter_run_pos:
  assumes "fields_wf fs" "iter_inv fs d it" "0 < length fs - 1"
  shows "map it_pos (iter_run it) = [it_pos it..<length fs - 1]"
  using assms
proof (induction it rule: iter_run.induct)
  case (1 it)
  obtain go it' where nx: "pb_field_iter_next it = (go, it')" by fastforce
  note nxt = iter_next_wf [OF "1.prems", unfolded nx fst_conv snd_conv]
  have "tag (it_field it) \<noteq> 0"
    using "1.prems" field_at_wf [OF "1.prems"(1), of "it_pos it"] by (auto simp: iter_inv_def)
  then have pos: "it_pos it < length fs - 1"
    using "1.prems" field_at_wf [OF "1.prems"(1), of "it_pos it"] by (auto simp: iter_inv_def)
  show ?case
  proof (cases go)
    case True
    with "1.IH" [OF nx [symmetric] True] "1.prems" iter_next_inv [OF "1.prems"(1,2)] nx
    have "map it_pos (iter_run it') = [it_pos it'..<length fs - 1]" by simp
    with True nxt pos nx show ?thesis
      by (subst iter_run.simps) (simp add: upt_conv_Cons)
  next
    case False
    with False nxt pos nx show ?thesis
      by (subst iter_run.simps) (simp add: upt_conv_Cons)
  qed
qed

text \<open>The iteration visits every field of the descriptor once, in order.\<close>

lemma iter_fields_pos:
  assumes "fields_wf fs"
  shows "map it_pos (iter_fields fs d) = [0..<length fs - 1]"
    and "\<forall>it \<in> set (iter_fields fs d). iter_inv fs d it"
proof -
  obtain go it where b: "pb_field_iter_begin fs d = (go, it)" by fastforce
  with iter_begin_inv [OF assms, of d] have inv: "iter_inv fs d it" by simp
  have go: "go \<longleftrightarrow> 0 < length fs - 1" and pos: "it_pos it = 0"
    using b field_at_wf [OF assms, of 0] by (auto simp: pb_field_iter_begin_def Let_def)
  show "map it_pos (iter_fields fs d) = [0..<length fs - 1]"
    using b go pos iter_run_pos [OF assms inv] by (auto simp: iter_fields_def)
  show "\<forall>it \<in> set (iter_fields fs d). iter_inv fs d it"
    using b iter_run_inv [OF assms inv] by (auto simp: iter_fields_def)
qed

section \<open>The search\<close>

definition find_match :: "pb_field \<Rightarrow> u32 \<Rightarrow> bool" where
  "find_match f t \<longleftrightarrow> tag f = t \<and> pb_ltype (ftype f) \<noteq> PB_LTYPE_EXTENSION"

text \<open>
  From position \<open>start\<close>, after \<open>j\<close> fields that do not match, the search ends at the next
  field that does, or comes around to \<open>start\<close>.
\<close>

lemma iter_find_loop_correct:
  assumes wf: "fields_wf fs" and n: "n = length fs - 1" "0 < n"
    and start: "start < n" and j: "j < n" "n - j \<le> fuel"
    and inv: "iter_inv fs d it" "it_pos it = (start + j) mod n"
    and none: "\<forall>k<j. \<not> find_match (field_at fs ((start + k) mod n)) t"
  shows "\<exists>b it'. iter_find_loop fuel t start it = Some (b, it') \<and> iter_inv fs d it'
    \<and> (if b then \<exists>k<n. it_pos it' = (start + k) mod n \<and> find_match (field_at fs (it_pos it')) t
             \<and> (\<forall>i<k. \<not> find_match (field_at fs ((start + i) mod n)) t)
       else it_pos it' = start \<and> (\<forall>k<n. \<not> find_match (field_at fs ((start + k) mod n)) t))"
  using j inv none
proof (induction fuel arbitrary: j it)
  case 0
  then show ?case by simp
next
  case (Suc fuel)
  have st: "it_start it = fs" using Suc.prems(3) by (simp add: iter_inv_def)
  show ?case
  proof (cases "find_match (it_field it) t")
    case True
    with Suc.prems st show ?thesis by (auto simp: find_match_def)
  next
    case False
    let ?it = "snd (pb_field_iter_next it)"
    have inv': "iter_inv fs d ?it" using wf Suc.prems(3) by (rule iter_next_inv)
    have "it_pos ?it = Suc (it_pos it) mod n"
      using iter_next_wf(1) [OF wf Suc.prems(3)] n by simp
    then have pos': "it_pos ?it = (start + Suc j) mod n"
      using Suc.prems(4) by (simp add: mod_Suc_eq)
    have none': "\<forall>k<Suc j. \<not> find_match (field_at fs ((start + k) mod n)) t"
      using Suc.prems(4,5) False st by (auto simp: less_Suc_eq)
    show ?thesis
    proof (cases "Suc j = n")
      case True
      then have "it_pos ?it = start" using pos' start by simp
      with True False none' inv' show ?thesis by (auto simp: find_match_def Let_def)
    next
      case ne: False
      then have j': "Suc j < n" "n - Suc j \<le> fuel" using Suc.prems(1,2) by auto
      have "it_pos ?it \<noteq> start"
      proof
        assume "it_pos ?it = start"
        with pos' have "(start + Suc j) mod n = start" by simp
        with start j' show False
          by (cases "start + Suc j < n") (auto simp: le_mod_geq)
      qed
      with False Suc.IH [OF j' inv' pos' none'] show ?thesis
        by (auto simp: find_match_def Let_def)
    qed
  qed
qed

lemma mod_range: "0 < n \<Longrightarrow> start < n \<Longrightarrow> (\<forall>k<n. P ((start + k) mod n)) \<longleftrightarrow> (\<forall>i<(n::nat). P i)"
proof (intro iffI allI impI)
  fix i assume "0 < n" "start < n" "\<forall>k<n. P ((start + k) mod n)" "i < n"
  then have "P ((start + (n - start + i) mod n) mod n)" by simp
  also have "(start + (n - start + i) mod n) mod n = (start + (n - start + i)) mod n"
    by (simp add: mod_add_right_eq)
  also have "\<dots> = i" using \<open>start < n\<close> \<open>i < n\<close> by simp
  finally show "P i" .
qed simp

lemma pb_field_iter_find_correct:
  assumes wf: "fields_wf fs" and inv: "iter_inv fs d it" and t: "t \<noteq> 0"
  shows "\<exists>b it'. pb_field_iter_find it t = Some (b, it') \<and> iter_inv fs d it'
    \<and> (b \<longrightarrow> find_match (it_field it') t) \<and> (\<not> b \<longrightarrow> it_pos it' = it_pos it)
    \<and> (b \<longleftrightarrow> (\<exists>f \<in> set fs. find_match f t))"
proof -
  define n where "n = length fs - 1"
  have st: "it_start it = fs" "it_pos it < length fs" using inv by (auto simp: iter_inv_def)
  have ex: "(\<exists>f \<in> set fs. find_match f t) \<longleftrightarrow> (\<exists>i<n. find_match (field_at fs i) t)"
  proof
    assume "\<exists>f \<in> set fs. find_match f t"
    then obtain i where i: "i < length fs" "find_match (field_at fs i) t"
      by (auto simp: in_set_conv_nth field_at_def)
    then have "i < n"
      using t field_at_wf [OF wf, of i] by (auto simp: find_match_def n_def not_le)
    with i show "\<exists>i<n. find_match (field_at fs i) t" by blast
  qed (auto simp: field_at_def n_def intro!: bexI)
  show ?thesis
  proof (cases "0 < n")
    case True
    have "tag (it_field it) \<noteq> 0"
      using inv True field_at_wf [OF wf, of "it_pos it"] st by (auto simp: iter_inv_def n_def)
    then have start: "it_pos it < n"
      using st field_at_wf [OF wf, of "it_pos it"] by (simp add: n_def)
    from iter_find_loop_correct [OF wf n_def True start, of 0 "length fs" d it t] True start inv st
    obtain b it' where r: "pb_field_iter_find it t = Some (b, it')" "iter_inv fs d it'"
      and b: "if b then \<exists>k<n. it_pos it' = (it_pos it + k) mod n \<and> find_match (field_at fs (it_pos it')) t
             \<and> (\<forall>i<k. \<not> find_match (field_at fs ((it_pos it + i) mod n)) t)
       else it_pos it' = it_pos it \<and> (\<forall>k<n. \<not> find_match (field_at fs ((it_pos it + k) mod n)) t)"
      by (auto simp: pb_field_iter_find_def n_def)
    have "it_start it' = fs" using r(2) by (simp add: iter_inv_def)
    moreover have "b \<longrightarrow> it_pos it' < n" using b True by auto
    ultimately show ?thesis
      using r b ex mod_range [OF True start, of "\<lambda>i. \<not> find_match (field_at fs i) t"]
      by (cases b) auto
  next
    case False
    with inv st have "pb_field_iter_next it = (False, it)"
      by (intro iter_next_empty [OF inv wf]) (simp add: n_def)
    moreover have "tag (it_field it) = 0"
      using False st field_at_wf [OF wf, of "it_pos it"] by (simp add: n_def)
    moreover obtain k where "length fs = Suc k" using st by (cases "length fs") auto
    ultimately show ?thesis using inv t ex False st by (auto simp: pb_field_iter_find_def)
  qed
qed

end
