(* ===== verification/PbEncode.thy ===== *)
theory PbEncode
  imports PbOstream PbCommon
begin

text \<open>
  The message encoder of nanopb (pb_encode.c): the field encoders, arrays with packing, the
  proto3 default check, oneofs, callback fields, extensions and submessages.

  A message struct is read from the flat memory. Descriptor arrays and code are reached through
  pointers, so the environment \<open>pb_env\<close> maps addresses to descriptor arrays and to the user's
  encoding callbacks. Message types and pointer fields may be recursive, so the recursion has a
  depth bound; \<open>None\<close> means that it was not enough.
\<close>

section \<open>Environment and reads\<close>

record 's pb_env =
  env_fields :: "u64 \<Rightarrow> pb_field list"
  env_encode :: "u64 \<Rightarrow> pb_field \<Rightarrow> u64 \<Rightarrow> 's pb_ostream \<Rightarrow> bool \<times> 's pb_ostream"
  env_ext_encode :: "u64 \<Rightarrow> u64 \<Rightarrow> 's pb_ostream \<Rightarrow> bool \<times> 's pb_ostream"

type_synonym 's enc = "'s pb_ostream \<Rightarrow> (bool \<times> 's pb_ostream) option"

definition enc_lift :: "('s pb_ostream \<Rightarrow> bool \<times> 's pb_ostream) \<Rightarrow> 's enc" where
  "enc_lift f s = Some (f s)"

definition enc_then :: "'s enc \<Rightarrow> 's enc \<Rightarrow> 's enc" where
  "enc_then f g s =
     (case f s of None \<Rightarrow> None | Some (ok, s') \<Rightarrow> if ok then g s' else Some (False, s'))"

text \<open>\<open>sizeof(bool)\<close> is 1.\<close>

definition safe_read_bool :: "mem \<Rightarrow> u64 \<Rightarrow> bool" where
  "safe_read_bool m p = (m p \<noteq> 0)"

section \<open>Field encoders\<close>

definition pb_encode_tag_for_field :: "pb_field \<Rightarrow> 's pb_ostream \<Rightarrow> bool \<times> 's pb_ostream" where
  "pb_encode_tag_for_field f s =
     (let lt = pb_ltype (ftype f) in
      if lt = PB_LTYPE_BOOL \<or> lt = PB_LTYPE_VARINT \<or> lt = PB_LTYPE_UVARINT \<or> lt = PB_LTYPE_SVARINT
        then pb_encode_tag PB_WT_VARINT (tag f) s
      else if lt = PB_LTYPE_FIXED32 then pb_encode_tag PB_WT_32BIT (tag f) s
      else if lt = PB_LTYPE_FIXED64 then pb_encode_tag PB_WT_64BIT (tag f) s
      else if lt = PB_LTYPE_BYTES \<or> lt = PB_LTYPE_STRING \<or> lt = PB_LTYPE_SUBMESSAGE
              \<or> lt = PB_LTYPE_FIXED_LENGTH_BYTES
        then pb_encode_tag PB_WT_STRING (tag f) s
      else os_error ''invalid field type'' s)"

definition pb_enc_bool :: "mem \<Rightarrow> u64 \<Rightarrow> 's pb_ostream \<Rightarrow> bool \<times> 's pb_ostream" where
  "pb_enc_bool m src s = pb_encode_varint (if safe_read_bool m src then 1 else 0) s"

text \<open>A signed load of \<open>data_size\<close> bytes, sign-extended to 64 bits, or no such size.\<close>

definition load_signed :: "mem \<Rightarrow> u32 \<Rightarrow> u64 \<Rightarrow> u64 option" where
  "load_signed m sz src =
     (if sz = 1 then Some (scast (le_word (mem_read m src 1) :: u8))
      else if sz = 2 then Some (scast (le_word (mem_read m src 2) :: u16))
      else if sz = 4 then Some (scast (le_word (mem_read m src 4) :: u32))
      else if sz = 8 then Some (le_word (mem_read m src 8))
      else None)"

definition load_unsigned :: "mem \<Rightarrow> u32 \<Rightarrow> u64 \<Rightarrow> u64 option" where
  "load_unsigned m sz src =
     (if sz = 1 then Some (ucast (le_word (mem_read m src 1) :: u8))
      else if sz = 2 then Some (ucast (le_word (mem_read m src 2) :: u16))
      else if sz = 4 then Some (ucast (le_word (mem_read m src 4) :: u32))
      else if sz = 8 then Some (le_word (mem_read m src 8))
      else None)"

definition pb_enc_varint :: "mem \<Rightarrow> pb_field \<Rightarrow> u64 \<Rightarrow> 's pb_ostream \<Rightarrow> bool \<times> 's pb_ostream" where
  "pb_enc_varint m f src s =
     (case load_signed m (data_size f) src of
        None \<Rightarrow> os_error ''invalid data_size'' s
      | Some v \<Rightarrow> pb_encode_varint v s)"

definition pb_enc_uvarint :: "mem \<Rightarrow> pb_field \<Rightarrow> u64 \<Rightarrow> 's pb_ostream \<Rightarrow> bool \<times> 's pb_ostream" where
  "pb_enc_uvarint m f src s =
     (case load_unsigned m (data_size f) src of
        None \<Rightarrow> os_error ''invalid data_size'' s
      | Some v \<Rightarrow> pb_encode_varint v s)"

definition pb_enc_svarint :: "mem \<Rightarrow> pb_field \<Rightarrow> u64 \<Rightarrow> 's pb_ostream \<Rightarrow> bool \<times> 's pb_ostream" where
  "pb_enc_svarint m f src s =
     (case load_signed m (data_size f) src of
        None \<Rightarrow> os_error ''invalid data_size'' s
      | Some v \<Rightarrow> pb_encode_svarint v s)"

definition pb_enc_fixed32 :: "mem \<Rightarrow> u64 \<Rightarrow> 's pb_ostream \<Rightarrow> bool \<times> 's pb_ostream" where
  "pb_enc_fixed32 m src s = pb_encode_fixed32 m src s"

definition pb_enc_fixed64 :: "mem \<Rightarrow> u64 \<Rightarrow> 's pb_ostream \<Rightarrow> bool \<times> 's pb_ostream" where
  "pb_enc_fixed64 m src s = pb_encode_fixed64 m src s"

text \<open>A \<open>pb_bytes_array_t\<close> is its 32-bit size and, at offset 4, its bytes.\<close>

definition pb_enc_bytes :: "mem \<Rightarrow> pb_field \<Rightarrow> u64 \<Rightarrow> 's pb_ostream \<Rightarrow> bool \<times> 's pb_ostream" where
  "pb_enc_bytes m f src s =
     (if src = 0 then pb_encode_string [] 0 s
      else (let n = ucast (rd_u32 m src) :: u64 in
            if pb_atype (ftype f) = PB_ATYPE_STATIC \<and> n > ucast (data_size f) - 4
            then os_error ''bytes size exceeded'' s
            else pb_encode_string (mem_read m (src + 4) (unat n)) n s))"

function strn_len :: "mem \<Rightarrow> u64 \<Rightarrow> u64 \<Rightarrow> u64 \<Rightarrow> u64" where
  "strn_len m src max_size n =
     (if n < max_size \<and> m (src + n) \<noteq> 0 then strn_len m src max_size (n + 1) else n)"
  by pat_completeness auto
termination
proof (relation "measure (\<lambda>(m, src, max_size, n). unat max_size - unat n)")
  fix m :: mem and src max_size n :: u64
  assume "n < max_size \<and> m (src + n) \<noteq> 0"
  then have "unat (n + 1) = Suc (unat n)" "unat n < unat max_size"
    using unat_inc_below [of n max_size] by (auto simp: word_less_nat_alt)
  then show "((m, src, max_size, n + 1), (m, src, max_size, n))
      \<in> measure (\<lambda>(m, src, max_size, n). unat max_size - unat n)" by simp
qed simp

declare strn_len.simps [simp del]

definition pb_enc_string :: "mem \<Rightarrow> pb_field \<Rightarrow> u64 \<Rightarrow> 's pb_ostream \<Rightarrow> bool \<times> 's pb_ostream" where
  "pb_enc_string m f src s =
     (let max_size = (if pb_atype (ftype f) = PB_ATYPE_POINTER then - 1 else ucast (data_size f));
          n = (if src = 0 then 0 else strn_len m src max_size 0)
      in pb_encode_string (mem_read m src (unat n)) n s)"

definition pb_enc_fixed_length_bytes ::
  "mem \<Rightarrow> pb_field \<Rightarrow> u64 \<Rightarrow> 's pb_ostream \<Rightarrow> bool \<times> 's pb_ostream" where
  "pb_enc_fixed_length_bytes m f src s =
     pb_encode_string (mem_read m src (unat (data_size f))) (ucast (data_size f)) s"

section \<open>Submessages\<close>

text \<open>
  \<open>pb_encode_submessage\<close>; \<open>enc\<close> is \<open>pb_encode\<close> on the submessage. The first pass only
  measures, the second writes through a substream limited to the measured size.
\<close>

definition pb_encode_submessage :: "'s enc \<Rightarrow> 's enc" where
  "pb_encode_submessage enc s =
     (case enc (pb_ostream_sizing (os_state s)) of
        None \<Rightarrow> None
      | Some (ok, substream) \<Rightarrow>
          if \<not> ok then Some (False, s\<lparr>os_errmsg := os_errmsg substream\<rparr>)
          else
            (let sz = os_bytes_written substream;
                 (ok1, s1) = pb_encode_varint sz s
             in if \<not> ok1 then Some (False, s1)
                else if os_callback s1 = None then Some (pb_write s1 [] sz)
                else if os_bytes_written s1 + sz > os_max_size s1
                  then Some (os_error ''stream full'' s1)
                else
                  (case enc \<lparr>os_callback = os_callback s1, os_state = os_state s1, os_max_size = sz,
                             os_bytes_written = 0, os_errmsg = None\<rparr> of
                     None \<Rightarrow> None
                   | Some (status, sub) \<Rightarrow>
                       (let s2 = s1\<lparr>os_bytes_written := os_bytes_written s1 + os_bytes_written sub,
                                    os_state := os_state sub, os_errmsg := os_errmsg sub\<rparr>
                        in if os_bytes_written sub \<noteq> sz
                           then Some (os_error ''submsg size changed'' s2)
                           else Some (status, s2)))))"

definition pb_enc_submessage :: "(u64 \<Rightarrow> u64 \<Rightarrow> 's enc) \<Rightarrow> pb_field \<Rightarrow> u64 \<Rightarrow> 's enc" where
  "pb_enc_submessage enc f src s =
     (if fptr f = 0 then Some (os_error ''invalid field descriptor'' s)
      else pb_encode_submessage (enc (fptr f) src) s)"

text \<open>
  The table \<open>PB_ENCODERS\<close>. Its other entries are never called: the tag of the field is
  encoded first, and \<open>pb_encode_tag_for_field\<close> refuses the type.
\<close>

definition pb_encoder :: "(u64 \<Rightarrow> u64 \<Rightarrow> 's enc) \<Rightarrow> mem \<Rightarrow> pb_field \<Rightarrow> u64 \<Rightarrow> 's enc" where
  "pb_encoder enc m f src =
     (let lt = pb_ltype (ftype f) in
      if lt = PB_LTYPE_BOOL then enc_lift (pb_enc_bool m src)
      else if lt = PB_LTYPE_VARINT then enc_lift (pb_enc_varint m f src)
      else if lt = PB_LTYPE_UVARINT then enc_lift (pb_enc_uvarint m f src)
      else if lt = PB_LTYPE_SVARINT then enc_lift (pb_enc_svarint m f src)
      else if lt = PB_LTYPE_FIXED32 then enc_lift (pb_enc_fixed32 m src)
      else if lt = PB_LTYPE_FIXED64 then enc_lift (pb_enc_fixed64 m src)
      else if lt = PB_LTYPE_BYTES then enc_lift (pb_enc_bytes m f src)
      else if lt = PB_LTYPE_STRING then enc_lift (pb_enc_string m f src)
      else if lt = PB_LTYPE_SUBMESSAGE then pb_enc_submessage enc f src
      else if lt = PB_LTYPE_FIXED_LENGTH_BYTES then enc_lift (pb_enc_fixed_length_bytes m f src)
      else enc_lift (os_error ''invalid field type''))"

section \<open>Arrays\<close>

text \<open>\<open>for (i = 0; i < count; i++) { func(stream, field, p); p += data_size; }\<close>\<close>

fun enc_elems :: "(u64 \<Rightarrow> 's enc) \<Rightarrow> u64 \<Rightarrow> u64 \<Rightarrow> nat \<Rightarrow> 's enc" where
  "enc_elems func step p 0 = enc_lift (Pair True)"
| "enc_elems func step p (Suc n) = enc_then (func p) (enc_elems func step (p + step) n)"

definition encode_array :: "(u64 \<Rightarrow> 's enc) \<Rightarrow> mem \<Rightarrow> pb_field \<Rightarrow> u64 \<Rightarrow> u64 \<Rightarrow> 's enc" where
  "encode_array func m f pData count s =
     (let lt = pb_ltype (ftype f); step = ucast (data_size f) in
      if count = 0 then Some (True, s)
      else if pb_atype (ftype f) \<noteq> PB_ATYPE_POINTER \<and> count > ucast (array_size f)
        then Some (os_error ''array max size exceeded'' s)
      else if lt \<le> PB_LTYPE_LAST_PACKABLE then
        (let (ok, s1) = pb_encode_tag PB_WT_STRING (tag f) s in
         if \<not> ok then Some (False, s1)
         else
           (let measured =
                  (if lt = PB_LTYPE_FIXED32 then Some (Some (4 * count))
                   else if lt = PB_LTYPE_FIXED64 then Some (Some (8 * count))
                   else (case enc_elems func step pData (unat count) (pb_ostream_sizing (os_state s1)) of
                           None \<Rightarrow> None
                         | Some (ok, sizestream) \<Rightarrow>
                             Some (if ok then Some (os_bytes_written sizestream) else None)))
            in case measured of
                 None \<Rightarrow> None
               | Some None \<Rightarrow> Some (False, s1)
               | Some (Some sz) \<Rightarrow>
                   (let (ok2, s2) = pb_encode_varint sz s1 in
                    if \<not> ok2 then Some (False, s2)
                    else if os_callback s2 = None then Some (pb_write s2 [] sz)
                    else enc_elems func step pData (unat count) s2)))
      else
        enc_elems
          (\<lambda>p. enc_then (enc_lift (pb_encode_tag_for_field f))
             (if pb_atype (ftype f) = PB_ATYPE_POINTER \<and>
                 (lt = PB_LTYPE_STRING \<or> lt = PB_LTYPE_BYTES)
              then func (rd_u64 m p) else func p))
          step pData (unat count) s)"

section \<open>Fields\<close>

text \<open>The early exit of a loop that returns false at the first field that is set.\<close>

fun all_opt :: "('a \<Rightarrow> bool option) \<Rightarrow> 'a list \<Rightarrow> bool option" where
  "all_opt P [] = Some True"
| "all_opt P (x # xs) =
     (case P x of None \<Rightarrow> None | Some False \<Rightarrow> Some False | Some True \<Rightarrow> all_opt P xs)"

fun pb_check_proto3_default_value ::
  "'s pb_env \<Rightarrow> nat \<Rightarrow> mem \<Rightarrow> pb_field \<Rightarrow> u64 \<Rightarrow> bool option" where
  "pb_check_proto3_default_value env 0 m f p = None"
| "pb_check_proto3_default_value env (Suc n) m f p =
     (let at = pb_atype (ftype f); ht = pb_htype (ftype f); lt = pb_ltype (ftype f);
          pSize = p + scast (size_offset f)
      in
      if ht = PB_HTYPE_REQUIRED then Some False
      else if ht = PB_HTYPE_REPEATED \<and> size_offset f \<noteq> 0 then Some (rd_u32 m pSize = 0)
      else if ht = PB_HTYPE_REPEATED \<and> at = PB_ATYPE_STATIC then Some False
      else if ht = PB_HTYPE_ONEOF then Some (rd_u32 m pSize = 0)
      else if ht = PB_HTYPE_OPTIONAL \<and> size_offset f \<noteq> 0 then Some (\<not> safe_read_bool m pSize)
      else if at = PB_ATYPE_STATIC \<and> lt = PB_LTYPE_BYTES then Some (rd_u32 m p = 0)
      else if at = PB_ATYPE_STATIC \<and> lt = PB_LTYPE_STRING then Some (m p = 0)
      else if at = PB_ATYPE_STATIC \<and> lt = PB_LTYPE_FIXED_LENGTH_BYTES then Some (data_size f = 0)
      else if at = PB_ATYPE_STATIC \<and> lt = PB_LTYPE_SUBMESSAGE then
        all_opt (\<lambda>it. pb_check_proto3_default_value env n m (it_field it) (it_pData it))
          (iter_fields (env_fields env (fptr f)) p)
      else if at = PB_ATYPE_POINTER \<and> lt > PB_LTYPE_LAST_PACKABLE then Some (rd_u64 m p = 0)
      else Some (list_all (\<lambda>b. b = 0) (mem_read m p (unat (data_size f)))))"

text \<open>
  \<open>encode_basic_field\<close>. \<open>implicit_has\<close> is the local flag that \<open>pSize\<close> points to when the
  field has no size field in the struct (\<open>size_offset == 0\<close>).
\<close>

definition encode_basic_field ::
  "'s pb_env \<Rightarrow> nat \<Rightarrow> (u64 \<Rightarrow> u64 \<Rightarrow> 's enc) \<Rightarrow> mem \<Rightarrow> pb_field \<Rightarrow> u64 \<Rightarrow> 's enc" where
  "encode_basic_field env n enc m f p s =
     (let at = pb_atype (ftype f); ht = pb_htype (ftype f);
          pSize = p + scast (size_offset f);
          func = pb_encoder enc m f;
          pData = (if at = PB_ATYPE_POINTER then rd_u64 m p else p);
          implicit_has =
            (if at = PB_ATYPE_POINTER then Some (pData \<noteq> 0)
             else if size_offset f = 0 \<and> ht = PB_HTYPE_OPTIONAL
               then map_option Not (pb_check_proto3_default_value env n m f p)
             else Some True);
          present = enc_then (enc_lift (pb_encode_tag_for_field f)) (func pData)
      in
      case implicit_has of
        None \<Rightarrow> None
      | Some ihas \<Rightarrow>
          if ht = PB_HTYPE_REQUIRED then
            (if pData = 0 then Some (os_error ''missing required field'' s) else present s)
          else if ht = PB_HTYPE_OPTIONAL then
            (if (if size_offset f \<noteq> 0 then safe_read_bool m pSize else ihas) then present s
             else Some (True, s))
          else if ht = PB_HTYPE_REPEATED then
            encode_array func m f pData
              (ucast (if size_offset f \<noteq> 0 then rd_u32 m pSize else array_size f)) s
          else
            (if rd_u32 m pSize = tag f then present s else Some (True, s)))"

text \<open>A \<open>pb_callback_t\<close> is the function pointer and, at offset 8, the user's argument.\<close>

definition encode_callback_field :: "'s pb_env \<Rightarrow> mem \<Rightarrow> pb_field \<Rightarrow> u64 \<Rightarrow> 's pb_ostream \<Rightarrow> bool \<times> 's pb_ostream" where
  "encode_callback_field env m f p s =
     (if rd_u64 m p \<noteq> 0 then
        (case env_encode env (rd_u64 m p) f (p + 8) s of
           (ok, s') \<Rightarrow> if \<not> ok then os_error ''callback error'' s' else (True, s'))
      else (True, s))"

definition encode_field ::
  "'s pb_env \<Rightarrow> nat \<Rightarrow> (u64 \<Rightarrow> u64 \<Rightarrow> 's enc) \<Rightarrow> mem \<Rightarrow> pb_field \<Rightarrow> u64 \<Rightarrow> 's enc" where
  "encode_field env n enc m f p =
     (let at = pb_atype (ftype f) in
      if at = PB_ATYPE_STATIC \<or> at = PB_ATYPE_POINTER then encode_basic_field env n enc m f p
      else if at = PB_ATYPE_CALLBACK then enc_lift (encode_callback_field env m f p)
      else enc_lift (os_error ''invalid field type''))"

section \<open>Extensions\<close>

definition ext_field :: "'s pb_env \<Rightarrow> mem \<Rightarrow> u64 \<Rightarrow> pb_field" where
  "ext_field env m e = field_at (env_fields env (rd_u64 m (ext_type m e + 16))) 0"

definition default_extension_encoder ::
  "'s pb_env \<Rightarrow> nat \<Rightarrow> (u64 \<Rightarrow> u64 \<Rightarrow> 's enc) \<Rightarrow> mem \<Rightarrow> u64 \<Rightarrow> 's enc" where
  "default_extension_encoder env n enc m e =
     (let f = ext_field env m e in
      if pb_atype (ftype f) = PB_ATYPE_POINTER then encode_field env n enc m f (e + 8)
      else encode_field env n enc m f (ext_dest m e))"

fun encode_extensions ::
  "'s pb_env \<Rightarrow> nat \<Rightarrow> (u64 \<Rightarrow> u64 \<Rightarrow> 's enc) \<Rightarrow> mem \<Rightarrow> nat \<Rightarrow> u64 \<Rightarrow> 's enc" where
  "encode_extensions env n enc m 0 e = (if e = 0 then enc_lift (Pair True) else (\<lambda>s. None))"
| "encode_extensions env n enc m (Suc k) e =
     (if e = 0 then enc_lift (Pair True)
      else enc_then
        (if rd_u64 m (ext_type m e + 8) \<noteq> 0
         then enc_lift (env_ext_encode env (rd_u64 m (ext_type m e + 8)) e)
         else default_extension_encoder env n enc m e)
        (encode_extensions env n enc m k (ext_next m e)))"

definition encode_extension_field ::
  "'s pb_env \<Rightarrow> nat \<Rightarrow> (u64 \<Rightarrow> u64 \<Rightarrow> 's enc) \<Rightarrow> mem \<Rightarrow> u64 \<Rightarrow> 's enc" where
  "encode_extension_field env n enc m p = encode_extensions env n enc m n (rd_u64 m p)"

section \<open>Messages\<close>

fun enc_all :: "('a \<Rightarrow> 's enc) \<Rightarrow> 'a list \<Rightarrow> 's enc" where
  "enc_all f [] = enc_lift (Pair True)"
| "enc_all f (x # xs) = enc_then (f x) (enc_all f xs)"

fun pb_encode :: "'s pb_env \<Rightarrow> nat \<Rightarrow> mem \<Rightarrow> u64 \<Rightarrow> u64 \<Rightarrow> 's enc" where
  "pb_encode env 0 m fds src = (\<lambda>s. None)"
| "pb_encode env (Suc n) m fds src =
     enc_all
       (\<lambda>it. if pb_ltype (ftype (it_field it)) = PB_LTYPE_EXTENSION
             then encode_extension_field env n (pb_encode env n m) m (it_pData it)
             else encode_field env n (pb_encode env n m) m (it_field it) (it_pData it))
       (iter_fields (env_fields env fds) src)"

definition pb_encode_delimited :: "'s pb_env \<Rightarrow> nat \<Rightarrow> mem \<Rightarrow> u64 \<Rightarrow> u64 \<Rightarrow> 's enc" where
  "pb_encode_delimited env n m fds src = pb_encode_submessage (pb_encode env n m fds src)"

definition pb_encode_nullterminated :: "'s pb_env \<Rightarrow> nat \<Rightarrow> mem \<Rightarrow> u64 \<Rightarrow> u64 \<Rightarrow> 's enc" where
  "pb_encode_nullterminated env n m fds src =
     enc_then (pb_encode env n m fds src) (enc_lift (\<lambda>s. pb_write s [0] 1))"

text \<open>The size, \<open>Some None\<close> for a false return.\<close>

definition pb_get_encoded_size :: "'s \<Rightarrow> 's pb_env \<Rightarrow> nat \<Rightarrow> mem \<Rightarrow> u64 \<Rightarrow> u64 \<Rightarrow> u64 option option" where
  "pb_get_encoded_size st env n m fds src =
     (case pb_encode env n m fds src (pb_ostream_sizing st) of
        None \<Rightarrow> None
      | Some (ok, s) \<Rightarrow> Some (if ok then Some (os_bytes_written s) else None))"

end
