(* ===== verification/PbWire.thy ===== *)
theory PbWire
  imports PbEncode PbIstream
begin

text \<open>
  The wire format of a message as an abstract specification, and the refinement of the encoder
  of \<open>PbEncode\<close> to it.

  \<open>message_bytes\<close> gives the bytes of a message from its descriptor and its struct, with no
  streams, measuring passes, limits or early exits; \<open>None\<close> stands for a message that has no
  encoding (a missing required pointer, an invalid size, a descriptor that the depth bound does
  not reach). The bytes that the user's callbacks write are the parameters \<open>cb\<close> and \<open>ecb\<close>.

  The refinement: on a sizing stream, \<open>pb_encode\<close> counts these bytes; on a sink with room it
  writes exactly them; on a sink without room it fails with a message and has written a prefix.
  In particular the two passes of \<open>pb_encode_submessage\<close> agree.
\<close>

section \<open>The wire format\<close>

definition opt_then :: "bytes option \<Rightarrow> bytes option \<Rightarrow> bytes option" where
  "opt_then a b = (case a of None \<Rightarrow> None | Some x \<Rightarrow> map_option ((@) x) b)"

lemma opt_then_Some [simp]:
  "opt_then a b = Some z \<longleftrightarrow> (\<exists>x y. a = Some x \<and> b = Some y \<and> z = x @ y)"
  by (auto simp: opt_then_def split: option.splits)

definition field_wire_type :: "pb_field \<Rightarrow> pb_wire_type option" where
  "field_wire_type f =
     (let lt = pb_ltype (ftype f) in
      if lt \<in> {PB_LTYPE_BOOL, PB_LTYPE_VARINT, PB_LTYPE_UVARINT, PB_LTYPE_SVARINT} then Some PB_WT_VARINT
      else if lt = PB_LTYPE_FIXED32 then Some PB_WT_32BIT
      else if lt = PB_LTYPE_FIXED64 then Some PB_WT_64BIT
      else if lt \<in> {PB_LTYPE_BYTES, PB_LTYPE_STRING, PB_LTYPE_SUBMESSAGE, PB_LTYPE_FIXED_LENGTH_BYTES}
        then Some PB_WT_STRING
      else None)"

definition tag_bytes :: "pb_field \<Rightarrow> bytes option" where
  "tag_bytes f = map_option (\<lambda>wt. varint_bytes (tag_value wt (tag f))) (field_wire_type f)"

definition delimited :: "bytes \<Rightarrow> bytes" where
  "delimited bs = varint_bytes (of_nat (length bs)) @ bs"

definition bytes_field_bytes :: "mem \<Rightarrow> pb_field \<Rightarrow> u64 \<Rightarrow> bytes option" where
  "bytes_field_bytes m f src =
     (let n = ucast (rd_u32 m src) :: u64 in
      if src = 0 then Some (delimited [])
      else if pb_atype (ftype f) = PB_ATYPE_STATIC \<and> n > ucast (data_size f) - 4 then None
      else Some (delimited (mem_read m (src + 4) (unat n))))"

definition string_field_bytes :: "mem \<Rightarrow> pb_field \<Rightarrow> u64 \<Rightarrow> bytes" where
  "string_field_bytes m f src =
     (let max_size = (if pb_atype (ftype f) = PB_ATYPE_POINTER then - 1 else ucast (data_size f))
      in delimited (if src = 0 then [] else mem_read m src (unat (strn_len m src max_size 0))))"

definition value_bytes :: "(u64 \<Rightarrow> u64 \<Rightarrow> bytes option) \<Rightarrow> mem \<Rightarrow> pb_field \<Rightarrow> u64 \<Rightarrow> bytes option" where
  "value_bytes sub m f src =
     (let lt = pb_ltype (ftype f) in
      if lt = PB_LTYPE_BOOL then Some (varint_bytes (if m src \<noteq> 0 then 1 else 0))
      else if lt = PB_LTYPE_VARINT then map_option varint_bytes (load_signed m (data_size f) src)
      else if lt = PB_LTYPE_UVARINT then map_option varint_bytes (load_unsigned m (data_size f) src)
      else if lt = PB_LTYPE_SVARINT
        then map_option (\<lambda>v. varint_bytes (zigzag v)) (load_signed m (data_size f) src)
      else if lt = PB_LTYPE_FIXED32 then Some (mem_read m src 4)
      else if lt = PB_LTYPE_FIXED64 then Some (mem_read m src 8)
      else if lt = PB_LTYPE_BYTES then bytes_field_bytes m f src
      else if lt = PB_LTYPE_STRING then Some (string_field_bytes m f src)
      else if lt = PB_LTYPE_SUBMESSAGE
        then (if fptr f = 0 then None else map_option delimited (sub (fptr f) src))
      else if lt = PB_LTYPE_FIXED_LENGTH_BYTES
        then Some (delimited (mem_read m src (unat (data_size f))))
      else None)"

fun elems_bytes :: "(u64 \<Rightarrow> bytes option) \<Rightarrow> u64 \<Rightarrow> u64 \<Rightarrow> nat \<Rightarrow> bytes option" where
  "elems_bytes g step p 0 = Some []"
| "elems_bytes g step p (Suc n) = opt_then (g p) (elems_bytes g step (p + step) n)"

definition array_bytes :: "(u64 \<Rightarrow> bytes option) \<Rightarrow> mem \<Rightarrow> pb_field \<Rightarrow> u64 \<Rightarrow> u64 \<Rightarrow> bytes option" where
  "array_bytes g m f pData count =
     (let lt = pb_ltype (ftype f); step = ucast (data_size f) in
      if count = 0 then Some []
      else if pb_atype (ftype f) \<noteq> PB_ATYPE_POINTER \<and> count > ucast (array_size f) then None
      else if lt \<le> PB_LTYPE_LAST_PACKABLE then
        opt_then (Some (varint_bytes (tag_value PB_WT_STRING (tag f))))
          (map_option delimited (elems_bytes g step pData (unat count)))
      else elems_bytes
        (\<lambda>p. opt_then (tag_bytes f)
           (if pb_atype (ftype f) = PB_ATYPE_POINTER \<and> (lt = PB_LTYPE_STRING \<or> lt = PB_LTYPE_BYTES)
            then g (rd_u64 m p) else g p))
        step pData (unat count))"

definition basic_bytes ::
  "'s pb_env \<Rightarrow> nat \<Rightarrow> (u64 \<Rightarrow> u64 \<Rightarrow> bytes option) \<Rightarrow> mem \<Rightarrow> pb_field \<Rightarrow> u64 \<Rightarrow> bytes option" where
  "basic_bytes env n sub m f p =
     (let at = pb_atype (ftype f); ht = pb_htype (ftype f);
          pSize = p + scast (size_offset f);
          pData = (if at = PB_ATYPE_POINTER then rd_u64 m p else p);
          present = opt_then (tag_bytes f) (value_bytes sub m f pData)
      in
      if ht = PB_HTYPE_REQUIRED then (if pData = 0 then None else present)
      else if ht = PB_HTYPE_OPTIONAL then
        (if size_offset f \<noteq> 0 then (if m pSize \<noteq> 0 then present else Some [])
         else if at = PB_ATYPE_POINTER then (if pData \<noteq> 0 then present else Some [])
         else (case pb_check_proto3_default_value env n m f p of
                 None \<Rightarrow> None | Some dflt \<Rightarrow> if dflt then Some [] else present))
      else if ht = PB_HTYPE_REPEATED then
        array_bytes (value_bytes sub m f) m f pData
          (ucast (if size_offset f \<noteq> 0 then rd_u32 m pSize else array_size f))
      else if rd_u32 m pSize = tag f then present else Some [])"

definition field_bytes ::
  "(u64 \<Rightarrow> pb_field \<Rightarrow> u64 \<Rightarrow> bytes) \<Rightarrow> 's pb_env \<Rightarrow> nat \<Rightarrow> (u64 \<Rightarrow> u64 \<Rightarrow> bytes option)
     \<Rightarrow> mem \<Rightarrow> pb_field \<Rightarrow> u64 \<Rightarrow> bytes option" where
  "field_bytes cb env n sub m f p =
     (let at = pb_atype (ftype f) in
      if at = PB_ATYPE_STATIC \<or> at = PB_ATYPE_POINTER then basic_bytes env n sub m f p
      else if at = PB_ATYPE_CALLBACK
        then Some (if rd_u64 m p \<noteq> 0 then cb (rd_u64 m p) f (p + 8) else [])
      else None)"

fun extensions_bytes ::
  "(u64 \<Rightarrow> pb_field \<Rightarrow> u64 \<Rightarrow> bytes) \<Rightarrow> (u64 \<Rightarrow> u64 \<Rightarrow> bytes) \<Rightarrow> 's pb_env \<Rightarrow> nat
     \<Rightarrow> (u64 \<Rightarrow> u64 \<Rightarrow> bytes option) \<Rightarrow> mem \<Rightarrow> nat \<Rightarrow> u64 \<Rightarrow> bytes option" where
  "extensions_bytes cb ecb env n sub m 0 e = (if e = 0 then Some [] else None)"
| "extensions_bytes cb ecb env n sub m (Suc k) e =
     (if e = 0 then Some []
      else opt_then
        (let enc = rd_u64 m (ext_type m e + 8); f = ext_field env m e in
         if enc \<noteq> 0 then Some (ecb enc e)
         else field_bytes cb env n sub m f
           (if pb_atype (ftype f) = PB_ATYPE_POINTER then e + 8 else ext_dest m e))
        (extensions_bytes cb ecb env n sub m k (ext_next m e)))"

fun concat_opt :: "('a \<Rightarrow> bytes option) \<Rightarrow> 'a list \<Rightarrow> bytes option" where
  "concat_opt g [] = Some []"
| "concat_opt g (x # xs) = opt_then (g x) (concat_opt g xs)"

fun message_bytes ::
  "(u64 \<Rightarrow> pb_field \<Rightarrow> u64 \<Rightarrow> bytes) \<Rightarrow> (u64 \<Rightarrow> u64 \<Rightarrow> bytes) \<Rightarrow> 's pb_env \<Rightarrow> nat
     \<Rightarrow> mem \<Rightarrow> u64 \<Rightarrow> u64 \<Rightarrow> bytes option" where
  "message_bytes cb ecb env 0 m fds src = None"
| "message_bytes cb ecb env (Suc n) m fds src =
     concat_opt
       (\<lambda>it. if pb_ltype (ftype (it_field it)) = PB_LTYPE_EXTENSION
             then extensions_bytes cb ecb env n (message_bytes cb ecb env n m) m n (rd_u64 m (it_pData it))
             else field_bytes cb env n (message_bytes cb ecb env n m) m (it_field it) (it_pData it))
       (iter_fields (env_fields env fds) src)"

section \<open>Little-endian objects are their memory\<close>

lemma le_bytes_le_word: "8 * length bs \<le> LENGTH('a) \<Longrightarrow> le_bytes (length bs) (le_word bs :: 'a::len word) = bs"
proof (induction bs)
  case Nil
  then show ?case by simp
next
  case (Cons b bs)
  have low: "ucast (ucast b OR push_bit 8 (le_word bs) :: 'a word) = b"
    using Cons.prems by (intro bit_word_eqI) (auto simp: bit_simps)
  have "8 * length bs + 8 \<le> LENGTH('a)" using Cons.prems by simp
  then have "take_bit (8 * length bs) (drop_bit 8 (push_bit 8 (le_word bs) :: 'a word))
      = take_bit (8 * length bs) (le_word bs)"
    by (intro bit_word_eqI) (auto simp: bit_simps)
  moreover have "drop_bit 8 (ucast b :: 'a word) = 0"
    by (rule bit_word_eqI) (auto simp: bit_simps dest: bit_imp_le_length)
  moreover have take: "le_bytes n (take_bit (8 * n) w) = le_bytes n w" for n and w :: "'a word"
  proof (induction n arbitrary: w)
    case (Suc n)
    have "drop_bit 8 (take_bit (8 * Suc n) w) = take_bit (8 * n) (drop_bit 8 w)"
      by (rule bit_word_eqI) (auto simp: bit_simps)
    moreover have "ucast (take_bit (8 * Suc n) w) = (ucast w :: u8)"
      by (rule bit_word_eqI) (auto simp: bit_simps)
    ultimately show ?case using Suc by simp
  qed simp
  ultimately have "le_bytes (length bs) (drop_bit 8 (ucast b OR push_bit 8 (le_word bs) :: 'a word))
      = le_bytes (length bs) (le_word bs :: 'a word)"
    by (metis or.left_neutral drop_bit_or)
  with Cons low show ?case by simp
qed

lemma fixed32_bytes_mem: "fixed32_bytes (le_word (mem_read m p 4)) = mem_read m p 4"
  using le_bytes_le_word [of "mem_read m p 4", where 'a = 32]
  by (simp add: fixed32_bytes_le)

lemma fixed64_bytes_mem: "fixed64_bytes (le_word (mem_read m p 8)) = mem_read m p 8"
  using le_bytes_le_word [of "mem_read m p 8", where 'a = 64]
  by (simp add: fixed64_bytes_le)

lemma unat_ucast_up [simp]: "unat (ucast (w :: u32) :: u64) = unat w"
  by (simp add: unsigned_ucast_eq take_bit_nat_eq_self order.strict_trans [OF unsigned_less])

section \<open>The contract lifted to bounded recursion\<close>

definition enc_emits ::
  "('s \<Rightarrow> bytes \<Rightarrow> bool \<times> 's) \<Rightarrow> ('s \<Rightarrow> bytes) \<Rightarrow> ('s \<Rightarrow> nat) \<Rightarrow> ('s \<Rightarrow> 'f) \<Rightarrow> 's enc \<Rightarrow> bytes \<Rightarrow> bool" where
  "enc_emits wr out room keep f bs \<longleftrightarrow> (\<exists>g. f = enc_lift g \<and> emits wr out room keep g bs)"

definition callbacks_emit ::
  "('s \<Rightarrow> bytes \<Rightarrow> bool \<times> 's) \<Rightarrow> ('s \<Rightarrow> bytes) \<Rightarrow> ('s \<Rightarrow> nat) \<Rightarrow> ('s \<Rightarrow> 'f) \<Rightarrow> 's pb_env
     \<Rightarrow> (u64 \<Rightarrow> pb_field \<Rightarrow> u64 \<Rightarrow> bytes) \<Rightarrow> (u64 \<Rightarrow> u64 \<Rightarrow> bytes) \<Rightarrow> bool" where
  "callbacks_emit wr out room keep env cb ecb \<longleftrightarrow>
     (\<forall>fp f a. emits wr out room keep (env_encode env fp f a) (cb fp f a))
   \<and> (\<forall>fp e. emits wr out room keep (env_ext_encode env fp e) (ecb fp e))"

lemma enc_emits_lift: "emits wr out room keep g bs \<Longrightarrow> enc_emits wr out room keep (enc_lift g) bs"
  by (auto simp: enc_emits_def)

lemma enc_then_lift: "enc_then (enc_lift f) (enc_lift g) = enc_lift (os_then f g)"
  by (rule ext) (simp add: enc_then_def enc_lift_def os_then_def split: prod.split)

lemma enc_emits_then:
  "enc_emits wr out room keep f bs \<Longrightarrow> enc_emits wr out room keep g cs \<Longrightarrow>
   enc_emits wr out room keep (enc_then f g) (bs @ cs)"
  by (auto simp: enc_emits_def enc_then_lift intro: emits_then)

lemma enc_emits_nothing: "enc_emits wr out room keep (enc_lift (Pair True)) []"
  by (intro enc_emits_lift emits_nothing)

lemma enc_emits_nothing_iff: "enc_emits wr out room keep (\<lambda>s. Some (True, s)) []"
  using enc_emits_nothing by (simp add: enc_lift_def [abs_def])

lemma enc_elems_emit:
  assumes "\<And>p bs. g p = Some bs \<Longrightarrow> length bs < L \<Longrightarrow> enc_emits wr out room keep (func p) bs"
  shows "elems_bytes g step p n = Some bs \<Longrightarrow> length bs < L \<Longrightarrow>
    enc_emits wr out room keep (enc_elems func step p n) bs"
  by (induction n arbitrary: p bs) (auto intro!: enc_emits_nothing enc_emits_then assms)

lemma enc_all_emit:
  assumes "\<And>x bs. g x = Some bs \<Longrightarrow> length bs < L \<Longrightarrow> enc_emits wr out room keep (f x) bs"
  shows "concat_opt g xs = Some bs \<Longrightarrow> length bs < L \<Longrightarrow> enc_emits wr out room keep (enc_all f xs) bs"
  by (induction xs arbitrary: bs) (auto intro!: enc_emits_nothing enc_emits_then assms)

text \<open>The measuring pass and the writing pass of a submessage agree.\<close>

definition submessage_body :: "('s pb_ostream \<Rightarrow> bool \<times> 's pb_ostream) \<Rightarrow> u64 \<Rightarrow> 's pb_ostream \<Rightarrow> bool \<times> 's pb_ostream" where
  "submessage_body g sz s1 =
     (if os_callback s1 = None then pb_write s1 [] sz
      else if os_bytes_written s1 + sz > os_max_size s1 then os_error ''stream full'' s1
      else (case g \<lparr>os_callback = os_callback s1, os_state = os_state s1, os_max_size = sz,
                    os_bytes_written = 0, os_errmsg = None\<rparr> of
              (status, sub) \<Rightarrow>
                (let s2 = s1\<lparr>os_bytes_written := os_bytes_written s1 + os_bytes_written sub,
                             os_state := os_state sub, os_errmsg := os_errmsg sub\<rparr>
                 in if os_bytes_written sub \<noteq> sz then os_error ''submsg size changed'' s2
                    else (status, s2))))"

lemma submessage_unfold:
  assumes "g (pb_ostream_sizing (os_state s)) = (True, substream)" "os_bytes_written substream = sz"
  shows "pb_encode_submessage (enc_lift g) s = enc_lift (os_then (pb_encode_varint sz) (submessage_body g sz)) s"
  using assms
  by (simp add: pb_encode_submessage_def enc_lift_def os_then_def submessage_body_def Let_def
      split: prod.split)


section \<open>The encoder emits the wire format\<close>

context pb_sink
begin

lemma tag_for_field_emits:
  "tag_bytes f = Some bs \<Longrightarrow> emits wr out room keep (pb_encode_tag_for_field f) bs"
  using tag_emits
  by (auto simp: tag_bytes_def field_wire_type_def pb_encode_tag_for_field_def [abs_def] Let_def
      split: if_splits)

lemma delimited_emits:
  assumes "length bs < 2 ^ 63"
  shows "emits wr out room keep (pb_encode_string bs (of_nat (length bs))) (delimited bs)"
proof -
  have "unat (of_nat (length bs) :: u64) = length bs"
    using assms by (intro unat_of_nat_small) simp
  then show ?thesis
    using string_emits [of "of_nat (length bs)" bs] by (simp add: delimited_def)
qed

lemma submessage_body_emits:
  assumes g: "emits wr out room keep g bs" and len: "length bs < 2 ^ 63"
  shows "emits wr out room keep (submessage_body g (of_nat (length bs))) bs"
  unfolding emits_def
proof (intro conjI allI impI; (elim conjE)?)
  fix s :: "'s pb_ostream"
  assume "os_callback s = None"
  then show "submessage_body g (of_nat (length bs)) s = (True, os_advance s (length bs) (os_state s))"
    by (simp add: submessage_body_def pb_write_def os_advance_def)
next
  fix s
  assume s: "sink_stream wr room s" and fits: "os_fits s (length bs)"
  define sz where "sz = (of_nat (length bs) :: u64)"
  have unat_sz: "unat sz = length bs"
    unfolding sz_def using len by (intro unat_of_nat_small) simp
  define sub where "sub = \<lparr>os_callback = os_callback s, os_state = os_state s, os_max_size = sz,
    os_bytes_written = 0, os_errmsg = None\<rparr>"
  have sub: "sink_stream wr room sub" "os_fits sub (length bs)"
    using s fits len by (auto simp: sink_stream_def sub_def os_fits_def unat_sz)
  from g sub obtain st where st: "g sub = (True, os_advance sub (length bs) st)"
    "out st = out (os_state sub) @ bs" "room st = room (os_state sub) - length bs"
    "keep st = keep (os_state sub)" by (rule emitsE_fits)
  have fine: "\<not> os_bytes_written s + sz > os_max_size s"
    using os_fits_unat [OF fits] fits by (simp add: sz_def word_less_nat_alt os_fits_def)
  have cb: "os_callback s = Some wr" "os_errmsg s = None" using s by (simp_all add: sink_stream_def)
  have sub_cb: "\<lparr>os_callback = Some wr, os_state = os_state s, os_max_size = sz,
      os_bytes_written = 0, os_errmsg = None\<rparr> = sub" by (simp add: sub_def cb)
  have "submessage_body g sz s = (True, os_advance s (length bs) st)"
    unfolding submessage_body_def cb sub_cb st(1)
    using fine cb by (simp add: Let_def sub_def os_advance_def sz_def)
  then have "submessage_body g (of_nat (length bs)) s = (True, os_advance s (length bs) st)"
    by (simp add: sz_def)
  with st show "\<exists>st. submessage_body g (of_nat (length bs)) s = (True, os_advance s (length bs) st)
      \<and> out st = out (os_state s) @ bs \<and> room st = room (os_state s) - length bs
      \<and> keep st = keep (os_state s)"
    by (intro exI [of _ st]) (simp add: sub_def)
next
  fix s
  assume s: "sink_stream wr room s" and full: "\<not> os_fits s (length bs)"
  define sz where "sz = (of_nat (length bs) :: u64)"
  have unat_sz: "unat sz = length bs"
    unfolding sz_def using len by (intro unat_of_nat_small) simp
  have "unat (os_bytes_written s) + unat sz < 2 ^ LENGTH(64)"
    using s len by (auto simp: sink_stream_def word_le_nat_alt unat_sz)
  then have "unat (os_bytes_written s + sz) = unat (os_bytes_written s) + unat sz"
    by (rule unat_add_lem [THEN iffD1])
  then have "os_bytes_written s + sz > os_max_size s"
    using full by (simp add: os_fits_def word_less_nat_alt unat_sz)
  with s have "submessage_body g (of_nat (length bs)) s = (False, os_set_error ''stream full'' s)"
    by (simp add: submessage_body_def sink_stream_def os_error_def sz_def)
  then show "\<exists>s' k. submessage_body g (of_nat (length bs)) s = (False, s') \<and> os_errmsg s' \<noteq> None
      \<and> out (os_state s') = out (os_state s) @ take k bs \<and> keep (os_state s') = keep (os_state s)"
    by (intro exI [of _ "os_set_error ''stream full'' s"] exI [of _ 0]) simp
qed

lemma submessage_emits:
  assumes enc: "enc_emits wr out room keep enc bs" and len: "length bs < 2 ^ 63"
  shows "enc_emits wr out room keep (pb_encode_submessage enc) (delimited bs)"
proof -
  from enc obtain g where g: "enc = enc_lift g" "emits wr out room keep g bs"
    by (auto simp: enc_emits_def)
  let ?sz = "of_nat (length bs) :: u64"
  have "pb_encode_submessage enc = enc_lift (os_then (pb_encode_varint ?sz) (submessage_body g ?sz))"
    unfolding g(1)
    using emitsE_sizing [OF g(2)]
    by (intro ext submessage_unfold) (simp add: pb_ostream_sizing_def, simp add: pb_ostream_sizing_def)
  then show ?thesis
    unfolding delimited_def
    using emits_then [OF varint_emits submessage_body_emits [OF g(2) len]]
    by (simp add: enc_emits_lift)
qed

lemma delimited_mem_emits:
  "emits wr out room keep (pb_encode_string (mem_read m p (unat n)) n) (delimited (mem_read m p (unat n)))"
  using string_emits [of n "mem_read m p (unat n)"] by (simp add: delimited_def)

lemma empty_emits: "emits wr out room keep (pb_encode_string [] 0) (delimited [])"
  using delimited_mem_emits [of _ _ 0] by simp

lemma bytes_emits:
  "bytes_field_bytes m f src = Some bs \<Longrightarrow> emits wr out room keep (pb_enc_bytes m f src) bs"
  by (auto simp: bytes_field_bytes_def pb_enc_bytes_def [abs_def] Let_def split: if_splits
      intro!: delimited_mem_emits empty_emits simp del: unat_ucast_up)

lemma string_field_emits:
  "emits wr out room keep (pb_enc_string m f src) (string_field_bytes m f src)"
  by (simp add: string_field_bytes_def pb_enc_string_def [abs_def] Let_def
      delimited_mem_emits empty_emits)

lemma value_emits:
  assumes sub: "\<And>fds p bs. sub fds p = Some bs \<Longrightarrow> length bs < 2 ^ 63 \<Longrightarrow>
      enc_emits wr out room keep (enc fds p) bs"
    and val: "value_bytes sub m f src = Some bs" and len: "length bs < 2 ^ 63"
  shows "enc_emits wr out room keep (pb_encoder enc m f src) bs"
proof -
  consider (sub) cs where "pb_ltype (ftype f) = PB_LTYPE_SUBMESSAGE" "fptr f \<noteq> 0"
      "sub (fptr f) src = Some cs" "bs = delimited cs"
    | (scalar) "pb_ltype (ftype f) \<noteq> PB_LTYPE_SUBMESSAGE"
    using val by (auto simp: value_bytes_def Let_def split: if_splits)
  then show ?thesis
  proof cases
    case sub
    with len have "length cs < 2 ^ 63" by (simp add: delimited_def)
    with sub assms(1) have "enc_emits wr out room keep (pb_encode_submessage (enc (fptr f) src)) bs"
      by (simp add: submessage_emits)
    with sub show ?thesis by (simp add: pb_encoder_def pb_enc_submessage_def [abs_def])
  next
    case scalar
    note defs = pb_enc_bool_def [abs_def] pb_enc_varint_def [abs_def] pb_enc_uvarint_def [abs_def]
      pb_enc_svarint_def [abs_def] pb_enc_fixed32_def [abs_def] pb_enc_fixed64_def [abs_def]
      pb_enc_fixed_length_bytes_def [abs_def] safe_read_bool_def
    have fixed: "emits wr out room keep (pb_encode_fixed32 m src) (mem_read m src 4)"
      "emits wr out room keep (pb_encode_fixed64 m src) (mem_read m src 8)"
      using fixed32_emits [of m src] fixed64_emits [of m src]
      by (simp_all add: fixed32_bytes_mem fixed64_bytes_mem)
    have flb: "emits wr out room keep (pb_encode_string (mem_read m src (unat (data_size f))) (ucast (data_size f)))
        (delimited (mem_read m src (unat (data_size f))))"
      using delimited_mem_emits [of m src "ucast (data_size f)"] by simp
    show ?thesis
      using scalar val fixed flb
      by (auto simp: value_bytes_def pb_encoder_def Let_def defs split: if_splits
          intro!: enc_emits_lift bytes_emits string_field_emits varint_emits svarint_emits)
  qed
qed

lemma packed_body_emits:
  assumes g: "emits wr out room keep g bs"
  shows "emits wr out room keep
    (\<lambda>s. if os_callback s = None then pb_write s [] (of_nat (length bs)) else g s) bs"
proof -
  have cb: "sink_stream wr room s \<Longrightarrow> os_callback s = Some wr" for s by (simp add: sink_stream_def)
  show ?thesis
    unfolding emits_def
  proof (intro conjI allI impI; (elim conjE)?)
    fix s
    assume s: "sink_stream wr room s" "os_fits s (length bs)"
    with g show "\<exists>st. (if os_callback s = None then pb_write s [] (of_nat (length bs)) else g s)
          = (True, os_advance s (length bs) st)
        \<and> out st = out (os_state s) @ bs \<and> room st = room (os_state s) - length bs
        \<and> keep st = keep (os_state s)"
      by (simp add: emits_def cb [OF s(1)])
  next
    fix s
    assume s: "sink_stream wr room s" "\<not> os_fits s (length bs)"
    with g show "\<exists>s' k. (if os_callback s = None then pb_write s [] (of_nat (length bs)) else g s) = (False, s')
        \<and> os_errmsg s' \<noteq> None \<and> out (os_state s') = out (os_state s) @ take k bs
        \<and> keep (os_state s') = keep (os_state s)"
      by (simp add: emits_def cb [OF s(1)])
  qed (simp add: pb_write_def os_advance_def)
qed

lemma array_emits:
  assumes func: "\<And>p bs. val p = Some bs \<Longrightarrow> length bs < 2 ^ 63 \<Longrightarrow> enc_emits wr out room keep (func p) bs"
    and fixed32: "\<And>p bs. val p = Some bs \<Longrightarrow> pb_ltype (ftype f) = PB_LTYPE_FIXED32 \<Longrightarrow> length bs = 4"
    and fixed64: "\<And>p bs. val p = Some bs \<Longrightarrow> pb_ltype (ftype f) = PB_LTYPE_FIXED64 \<Longrightarrow> length bs = 8"
    and arr: "array_bytes val m f p count = Some bs" and len: "length bs < 2 ^ 63"
  shows "enc_emits wr out room keep (encode_array func m f p count) bs"
proof -
  let ?step = "ucast (data_size f) :: u64" and ?lt = "pb_ltype (ftype f)"
  have limit: "count = 0 \<or> \<not> (pb_atype (ftype f) \<noteq> PB_ATYPE_POINTER \<and> count > ucast (array_size f))"
    using arr by (auto simp: array_bytes_def Let_def split: if_splits)
  consider (empty) "count = 0" "bs = []"
    | (packed) cs where "count \<noteq> 0" "?lt \<le> PB_LTYPE_LAST_PACKABLE"
        "elems_bytes val ?step p (unat count) = Some cs"
        "bs = varint_bytes (tag_value PB_WT_STRING (tag f)) @ delimited cs"
    | (unpacked) "count \<noteq> 0" "\<not> ?lt \<le> PB_LTYPE_LAST_PACKABLE"
        "elems_bytes (\<lambda>p. opt_then (tag_bytes f)
           (if pb_atype (ftype f) = PB_ATYPE_POINTER \<and> (?lt = PB_LTYPE_STRING \<or> ?lt = PB_LTYPE_BYTES)
            then val (rd_u64 m p) else val p)) ?step p (unat count) = Some bs"
    using arr by (auto simp: array_bytes_def Let_def split: if_splits)
  then show ?thesis
  proof cases
    case empty
    then have "encode_array func m f p count = (\<lambda>s. Some (True, s))"
      by (intro ext) (simp add: encode_array_def Let_def)
    with empty show ?thesis by (simp add: enc_emits_nothing_iff)
  next
    case unpacked
    then have enc: "encode_array func m f p count =
        enc_elems (\<lambda>p. enc_then (enc_lift (pb_encode_tag_for_field f))
          (if pb_atype (ftype f) = PB_ATYPE_POINTER \<and> (?lt = PB_LTYPE_STRING \<or> ?lt = PB_LTYPE_BYTES)
           then func (rd_u64 m p) else func p)) ?step p (unat count)"
      using limit by (intro ext) (auto simp: encode_array_def Let_def)
    show ?thesis
      unfolding enc
      by (rule enc_elems_emit [OF _ unpacked(3) len])
        (auto intro!: enc_emits_then enc_emits_lift tag_for_field_emits func split: if_splits)
  next
    case packed
    have cs: "length cs < 2 ^ 63" using packed len by (simp add: delimited_def)
    from enc_elems_emit [where func = func and g = val, OF func packed(3) cs] obtain g where
      g: "enc_elems func ?step p (unat count) = enc_lift g" "emits wr out room keep g cs"
      by (auto simp: enc_emits_def)
    have len_elems: "elems_bytes val ?step q n = Some ds \<Longrightarrow> (\<And>p bs. val p = Some bs \<Longrightarrow> length bs = k)
        \<Longrightarrow> length ds = k * n" for q n ds k
      by (induction n arbitrary: q ds) auto
    have size: "of_nat (length cs) = (if ?lt = PB_LTYPE_FIXED32 then 4 * count else 8 * count)"
      if "?lt = PB_LTYPE_FIXED32 \<or> ?lt = PB_LTYPE_FIXED64"
      using that len_elems [OF packed(3) fixed32] len_elems [OF packed(3) fixed64] by auto
    define sz where "sz = (of_nat (length cs) :: u64)"
    have sizing: "enc_elems func ?step p (unat count) (pb_ostream_sizing st)
        = Some (True, os_advance (pb_ostream_sizing st) (length cs) st)" for st
      unfolding g(1) enc_lift_def using emitsE_sizing [OF g(2), of "pb_ostream_sizing st"]
      by (simp add: pb_ostream_sizing_def)
    have sizing_written: "os_bytes_written (pb_ostream_sizing st) = 0" for st
      by (simp add: pb_ostream_sizing_def)
    have measured: "(if ?lt = PB_LTYPE_FIXED32 then Some (Some (4 * count))
        else if ?lt = PB_LTYPE_FIXED64 then Some (Some (8 * count))
        else (case enc_elems func ?step p (unat count) (pb_ostream_sizing st) of
                None \<Rightarrow> None
              | Some (ok, sizestream) \<Rightarrow>
                  Some (if ok then Some (os_bytes_written sizestream) else None))) = Some (Some sz)" for st
      using size by (simp add: sizing sizing_written sz_def [symmetric])
    have c: "(count = 0) = False" "(?lt \<le> PB_LTYPE_LAST_PACKABLE) = True"
      "(pb_atype (ftype f) \<noteq> PB_ATYPE_POINTER \<and> count > ucast (array_size f)) = False"
      using packed(1,2) limit by auto
    have "encode_array func m f p count s = enc_lift
        (os_then (pb_encode_tag PB_WT_STRING (tag f)) (os_then (pb_encode_varint sz)
          (\<lambda>s. if os_callback s = None then pb_write s [] sz else g s))) s" for s
    proof -
      obtain ok s1 where tag: "pb_encode_tag PB_WT_STRING (tag f) s = (ok, s1)" by fastforce
      obtain ok2 s2 where var: "pb_encode_varint sz s1 = (ok2, s2)" by fastforce
      show ?thesis
        unfolding encode_array_def Let_def c if_True if_False tag prod.case measured option.case var
        by (simp add: enc_lift_def os_then_def g(1) tag var)
    qed
    then have "encode_array func m f p count = enc_lift
        (os_then (pb_encode_tag PB_WT_STRING (tag f)) (os_then (pb_encode_varint sz)
          (\<lambda>s. if os_callback s = None then pb_write s [] sz else g s)))" by (rule ext)
    with packed(4) show ?thesis
      unfolding delimited_def sz_def
      by (simp add: enc_emits_lift emits_then tag_emits varint_emits packed_body_emits g(2))
  qed
qed

lemma error_wrap_emits:
  assumes f: "emits wr out room keep f bs"
  shows "emits wr out room keep
    (\<lambda>s. case f s of (ok, s') \<Rightarrow> if \<not> ok then os_error msg s' else (True, s')) bs"
  unfolding emits_def
proof (intro conjI allI impI; (elim conjE)?)
  fix s
  assume s: "sink_stream wr room s" "os_fits s (length bs)"
  from f s obtain st where "f s = (True, os_advance s (length bs) st)" "out st = out (os_state s) @ bs"
    "room st = room (os_state s) - length bs" "keep st = keep (os_state s)" by (rule emitsE_fits)
  then show "\<exists>st. (case f s of (ok, s') \<Rightarrow> if \<not> ok then os_error msg s' else (True, s'))
      = (True, os_advance s (length bs) st) \<and> out st = out (os_state s) @ bs
      \<and> room st = room (os_state s) - length bs \<and> keep st = keep (os_state s)"
    by (intro exI [of _ st]) simp
next
  fix s
  assume s: "sink_stream wr room s" "\<not> os_fits s (length bs)"
  from f s obtain s' k where "f s = (False, s')" "os_errmsg s' \<noteq> None"
    "out (os_state s') = out (os_state s) @ take k bs" "keep (os_state s') = keep (os_state s)"
    by (rule emitsE_full)
  then show "\<exists>s' k. (case f s of (ok, s') \<Rightarrow> if \<not> ok then os_error msg s' else (True, s')) = (False, s')
      \<and> os_errmsg s' \<noteq> None \<and> out (os_state s') = out (os_state s) @ take k bs
      \<and> keep (os_state s') = keep (os_state s)"
    by (intro exI [of _ "os_set_error msg s'"] exI [of _ k]) (simp add: os_error_def)
qed (use emitsE_sizing [OF f] in simp)

lemma value_length:
  assumes "value_bytes sub m f p = Some bs"
  shows "pb_ltype (ftype f) = PB_LTYPE_FIXED32 \<Longrightarrow> length bs = 4"
    and "pb_ltype (ftype f) = PB_LTYPE_FIXED64 \<Longrightarrow> length bs = 8"
  using assms by (auto simp: value_bytes_def Let_def)

lemma present_emits:
  assumes sub: "\<And>fds p bs. sub fds p = Some bs \<Longrightarrow> length bs < 2 ^ 63 \<Longrightarrow>
      enc_emits wr out room keep (enc fds p) bs"
    and "opt_then (tag_bytes f) (value_bytes sub m f p) = Some bs" "length bs < 2 ^ 63"
  shows "enc_emits wr out room keep
    (enc_then (enc_lift (pb_encode_tag_for_field f)) (pb_encoder enc m f p)) bs"
  using assms(2,3)
  by (auto intro!: enc_emits_then enc_emits_lift tag_for_field_emits value_emits [OF sub])

lemma htype_cases:
  "pb_htype x = PB_HTYPE_REQUIRED \<or> pb_htype x = PB_HTYPE_OPTIONAL \<or> pb_htype x = PB_HTYPE_REPEATED
   \<or> pb_htype x = PB_HTYPE_ONEOF"
proof -
  have "x AND 0x30 = (if bit x 4 then 0x10 else 0) OR (if bit x 5 then 0x20 else 0)"
    by (rule bit_word_eqI) (auto simp: bit_simps bit_numeral_rec less_Suc_eq numeral_eq_Suc)
  then show ?thesis by (auto simp: pb_htype_def)
qed

lemma basic_emits:
  assumes sub: "\<And>fds p bs. sub fds p = Some bs \<Longrightarrow> length bs < 2 ^ 63 \<Longrightarrow>
      enc_emits wr out room keep (enc fds p) bs"
    and b: "basic_bytes env n sub m f p = Some bs" and len: "length bs < 2 ^ 63"
  shows "enc_emits wr out room keep (encode_basic_field env n enc m f p) bs"
proof -
  let ?at = "pb_atype (ftype f)" and ?ht = "pb_htype (ftype f)"
  let ?pData = "if ?at = PB_ATYPE_POINTER then rd_u64 m p else p"
  let ?present = "enc_then (enc_lift (pb_encode_tag_for_field f)) (pb_encoder enc m f ?pData)"
  have present: "opt_then (tag_bytes f) (value_bytes sub m f ?pData) = Some bs \<Longrightarrow>
      enc_emits wr out room keep ?present bs"
    using sub len by (intro present_emits)
  have array: "array_bytes (value_bytes sub m f) m f ?pData k = Some bs \<Longrightarrow>
      enc_emits wr out room keep (encode_array (pb_encoder enc m f) m f ?pData k) bs" for k
    using value_emits [OF sub] value_length len by (intro array_emits)
  note eq = encode_basic_field_def [abs_def] Let_def
  consider "?ht = PB_HTYPE_REQUIRED" | "?ht = PB_HTYPE_OPTIONAL" | "?ht = PB_HTYPE_REPEATED"
    | "?ht = PB_HTYPE_ONEOF" using htype_cases by blast
  then show ?thesis
  proof cases
    case 1
    with b present show ?thesis
      by (cases "?at = PB_ATYPE_POINTER") (auto simp: basic_bytes_def eq split: if_splits)
  next
    case 2
    with b present show ?thesis
      by (cases "?at = PB_ATYPE_POINTER"; cases "size_offset f = 0")
        (auto simp: basic_bytes_def eq safe_read_bool_def enc_emits_nothing_iff
          split: if_splits option.splits)
  next
    case 3
    with b array show ?thesis
      by (cases "?at = PB_ATYPE_POINTER") (auto simp: basic_bytes_def eq)
  next
    case 4
    with b present show ?thesis
      by (cases "?at = PB_ATYPE_POINTER") (auto simp: basic_bytes_def eq enc_emits_nothing_iff split: if_splits)
  qed
qed

lemma field_emits:
  assumes sub: "\<And>fds p bs. sub fds p = Some bs \<Longrightarrow> length bs < 2 ^ 63 \<Longrightarrow>
      enc_emits wr out room keep (enc fds p) bs"
    and cbs: "callbacks_emit wr out room keep env cb ecb"
    and b: "field_bytes cb env n sub m f p = Some bs" and len: "length bs < 2 ^ 63"
  shows "enc_emits wr out room keep (encode_field env n enc m f p) bs"
proof -
  have cb: "emits wr out room keep (env_encode env fp g a) (cb fp g a)" for fp g a
    using cbs by (simp add: callbacks_emit_def)
  show ?thesis
  proof (cases "pb_atype (ftype f) = PB_ATYPE_CALLBACK")
    case True
    with b error_wrap_emits [OF cb] emits_nothing
    have "emits wr out room keep (encode_callback_field env m f p) bs"
      by (auto simp: field_bytes_def encode_callback_field_def [abs_def] Let_def split: if_splits)
    with True show ?thesis by (simp add: encode_field_def Let_def enc_emits_lift)
  next
    case False
    with b basic_emits [OF sub _ len] show ?thesis
      by (auto simp: field_bytes_def encode_field_def Let_def split: if_splits)
  qed
qed

lemma extensions_emit:
  assumes sub: "\<And>fds p bs. sub fds p = Some bs \<Longrightarrow> length bs < 2 ^ 63 \<Longrightarrow>
      enc_emits wr out room keep (enc fds p) bs"
    and cbs: "callbacks_emit wr out room keep env cb ecb"
  shows "extensions_bytes cb ecb env n sub m k e = Some bs \<Longrightarrow> length bs < 2 ^ 63 \<Longrightarrow>
    enc_emits wr out room keep (encode_extensions env n enc m k e) bs"
proof (induction k arbitrary: e bs)
  case 0
  then show ?case by (simp add: enc_emits_nothing split: if_splits)
next
  case (Suc k)
  have ecb: "emits wr out room keep (env_ext_encode env fp g) (ecb fp g)" for fp g
    using cbs by (simp add: callbacks_emit_def)
  from Suc.prems show ?case
    by (auto simp: Let_def default_extension_encoder_def split: if_splits
        intro!: enc_emits_nothing enc_emits_then Suc.IH enc_emits_lift ecb field_emits [OF sub cbs])
qed

lemma message_emits:
  assumes cbs: "callbacks_emit wr out room keep env cb ecb"
  shows "message_bytes cb ecb env n m fds src = Some bs \<Longrightarrow> length bs < 2 ^ 63 \<Longrightarrow>
    enc_emits wr out room keep (pb_encode env n m fds src) bs"
proof (induction n arbitrary: fds src bs)
  case (Suc n)
  from Suc.prems show ?case
    by (auto simp: encode_extension_field_def intro!: extensions_emit [OF _ cbs] field_emits [OF _ cbs] Suc.IH
        elim!: enc_all_emit [rotated] split: if_splits)
qed simp

end

section \<open>Encoding into a buffer\<close>

lemma emits_buffer_full:
  assumes "emits buf_write (obuf_out p) (obuf_room p n) (obuf_keep p n) enc bs"
    and n: "unat n < length bs" "unat n < 2 ^ 63"
  obtains s where "enc (pb_ostream_from_buffer m p n) = (False, s)" "os_errmsg s \<noteq> None"
    "\<forall>q. unat n \<le> mem_off p q \<longrightarrow> ob_mem (os_state s) q = m q"
proof -
  note sink = sink_from_buffer [OF n(2)]
  from sink n have full: "\<not> os_fits (pb_ostream_from_buffer m p n) (length bs)" by simp
  from assms(1) sink(1) full obtain s k where s:
    "enc (pb_ostream_from_buffer m p n) = (False, s)" "os_errmsg s \<noteq> None"
    "obuf_keep p n (os_state s) = obuf_keep p n \<lparr>ob_mem = m, ob_ptr = p\<rparr>"
    by (rule emitsE_full) (simp add: pb_ostream_from_buffer_def)
  have "unat n \<le> mem_off p q \<Longrightarrow> ob_mem (os_state s) q = m q" for q
    using s(3) by (auto simp: obuf_keep_def fun_eq_iff split: if_splits dest: spec [of _ q])
  with s that show ?thesis by blast
qed

text \<open>The user's callbacks keep the contract on every buffer.\<close>

definition buf_callbacks ::
  "obuf pb_env \<Rightarrow> (u64 \<Rightarrow> pb_field \<Rightarrow> u64 \<Rightarrow> bytes) \<Rightarrow> (u64 \<Rightarrow> u64 \<Rightarrow> bytes) \<Rightarrow> bool" where
  "buf_callbacks env cb ecb \<longleftrightarrow>
     (\<forall>p n. callbacks_emit buf_write (obuf_out p) (obuf_room p n) (obuf_keep p n) env cb ecb)"

lemma buf_message_emits:
  assumes "buf_callbacks env cb ecb" "message_bytes cb ecb env d m fds src = Some bs" "length bs < 2 ^ 63"
  obtains g where "pb_encode env d m fds src = enc_lift g"
    "\<And>p n. emits buf_write (obuf_out p) (obuf_room p n) (obuf_keep p n) g bs"
proof -
  have e: "enc_emits buf_write (obuf_out p) (obuf_room p n) (obuf_keep p n) (pb_encode env d m fds src) bs" for p n
    using assms by (intro bufw.message_emits) (simp_all add: buf_callbacks_def)
  obtain g where g: "pb_encode env d m fds src = enc_lift g"
    using e [of 0 0] by (auto simp: enc_emits_def)
  have "enc_lift g = enc_lift h \<Longrightarrow> g = h" for h
    by (auto simp: enc_lift_def fun_eq_iff)
  with e g that show ?thesis by (metis enc_emits_def)
qed

text \<open>A descriptor with a required number and an optional string, and a message of it.\<close>

definition ex_fields :: "pb_field list" where
  "ex_fields =
     [\<lparr>tag = 1, ftype = 0x02, data_offset = 0, size_offset = 0, data_size = 4, array_size = 0, fptr = 0\<rparr>,
      \<lparr>tag = 2, ftype = 0x17, data_offset = 1, size_offset = - 1, data_size = 8, array_size = 0, fptr = 0\<rparr>,
      pb_last_field]"

definition ex_env :: "obuf pb_env" where
  "ex_env = \<lparr>env_fields = \<lambda>_. ex_fields, env_encode = \<lambda>_ _ _. Pair True, env_ext_encode = \<lambda>_ _. Pair True\<rparr>"

definition ex_mem :: mem where
  "ex_mem = (\<lambda>_. 0)(0x1000 := 0x96, 0x1001 := 0x01, 0x1004 := 1, 0x1005 := 0x68, 0x1006 := 0x69)"

lemma ex_callbacks: "buf_callbacks ex_env (\<lambda>_ _ _. []) (\<lambda>_ _. [])"
  by (simp add: buf_callbacks_def callbacks_emit_def ex_env_def emits_nothing)

lemma ex_message:
  "message_bytes (\<lambda>_ _ _. []) (\<lambda>_ _. []) ex_env 2 ex_mem 0x100 0x1000
     = Some [0x08, 0x96, 0x03, 0x12, 0x02, 0x68, 0x69]"
  by code_simp

text \<open>
  C1. \<open>pb_encode\<close> into a buffer that is large enough writes exactly the bytes of the wire
  format, reports their number, and leaves every byte outside of the buffer alone.
\<close>

theorem pb_encode_buffer:
  assumes "buf_callbacks env cb ecb" "message_bytes cb ecb env d m fds src = Some bs"
    and "length bs \<le> unat n" "unat n < 2 ^ 63"
  shows "\<exists>s. pb_encode env d m fds src (pb_ostream_from_buffer om p n) = Some (True, s)
    \<and> mem_read (ob_mem (os_state s)) p (length bs) = bs \<and> unat (os_bytes_written s) = length bs
    \<and> (\<forall>q. unat n \<le> mem_off p q \<longrightarrow> ob_mem (os_state s) q = om q)"
proof -
  obtain g where g: "pb_encode env d m fds src = enc_lift g"
    "emits buf_write (obuf_out p) (obuf_room p n) (obuf_keep p n) g bs"
    using buf_message_emits [OF assms(1,2)] assms(3,4) by (metis order.strict_trans1)
  from emits_buffer [OF g(2) assms(3,4)] show ?thesis
    by (metis g(1) enc_lift_def)
qed

lemma pb_encode_buffer_witness:
  "\<exists>s. pb_encode ex_env 2 ex_mem 0x100 0x1000 (pb_ostream_from_buffer (\<lambda>_. 0) 0x8000 16) = Some (True, s)
    \<and> mem_read (ob_mem (os_state s)) 0x8000 (length [0x08, 0x96, 0x03, 0x12, 0x02, 0x68, 0x69 :: u8])
        = [0x08, 0x96, 0x03, 0x12, 0x02, 0x68, 0x69]
    \<and> unat (os_bytes_written s) = length [0x08, 0x96, 0x03, 0x12, 0x02, 0x68, 0x69 :: u8]
    \<and> (\<forall>q. unat (16 :: u64) \<le> mem_off 0x8000 q \<longrightarrow> ob_mem (os_state s) q = 0)"
  by (rule pb_encode_buffer [OF ex_callbacks ex_message]) simp_all

text \<open>
  C7. When the wire format is longer than the buffer, \<open>pb_encode\<close> fails with a message and
  still has left every byte outside of the buffer alone.
\<close>

theorem pb_encode_buffer_too_small:
  assumes "buf_callbacks env cb ecb" "message_bytes cb ecb env d m fds src = Some bs"
    and "unat n < length bs" "length bs < 2 ^ 63"
  shows "\<exists>s. pb_encode env d m fds src (pb_ostream_from_buffer om p n) = Some (False, s)
    \<and> os_errmsg s \<noteq> None
    \<and> (\<forall>q. unat n \<le> mem_off p q \<longrightarrow> ob_mem (os_state s) q = om q)"
proof -
  obtain g where g: "pb_encode env d m fds src = enc_lift g"
    "emits buf_write (obuf_out p) (obuf_room p n) (obuf_keep p n) g bs"
    using buf_message_emits [OF assms(1,2,4)] by metis
  from assms have "unat n < 2 ^ 63" by simp
  from emits_buffer_full [OF g(2) assms(3) this] show ?thesis
    by (metis g(1) enc_lift_def)
qed

lemma pb_encode_buffer_too_small_witness:
  "\<exists>s. pb_encode ex_env 2 ex_mem 0x100 0x1000 (pb_ostream_from_buffer (\<lambda>_. 0) 0x8000 6) = Some (False, s)
    \<and> os_errmsg s \<noteq> None
    \<and> (\<forall>q. unat (6 :: u64) \<le> mem_off 0x8000 q \<longrightarrow> ob_mem (os_state s) q = 0)"
  by (rule pb_encode_buffer_too_small [OF ex_callbacks ex_message]) simp_all

text \<open>C8. \<open>pb_get_encoded_size\<close> returns the length of the wire format.\<close>

theorem pb_get_encoded_size_correct:
  assumes "buf_callbacks env cb ecb" "message_bytes cb ecb env d m fds src = Some bs" "length bs < 2 ^ 63"
  shows "pb_get_encoded_size st env d m fds src = Some (Some (of_nat (length bs)))"
proof -
  obtain g where g: "pb_encode env d m fds src = enc_lift g"
    "emits buf_write (obuf_out 0) (obuf_room 0 0) (obuf_keep 0 0) g bs"
    using buf_message_emits [OF assms] by metis
  with emitsE_sizing [OF g(2), of "pb_ostream_sizing st"] show ?thesis
    by (simp add: pb_get_encoded_size_def enc_lift_def pb_ostream_sizing_def)
qed

lemma pb_get_encoded_size_correct_witness:
  "pb_get_encoded_size \<lparr>ob_mem = \<lambda>_. 0, ob_ptr = 0\<rparr> ex_env 2 ex_mem 0x100 0x1000 = Some (Some 7)"
  using pb_get_encoded_size_correct [OF ex_callbacks ex_message] by simp

text \<open>
  C9. A message that \<open>pb_encode_delimited\<close> writes into a buffer is what the substream of
  \<open>pb_make_string_substream\<close> delivers from it: the length, and then exactly the message.
\<close>

theorem pb_encode_delimited_substream:
  assumes "buf_callbacks env cb ecb" "message_bytes cb ecb env d m fds src = Some bs"
    and "length bs < 2 ^ 32" "length bs + 10 \<le> unat n" "unat n < 2 ^ 63"
  shows "\<exists>s sub s'. pb_encode_delimited env d m fds src (pb_ostream_from_buffer om p n) = Some (True, s)
    \<and> pb_make_string_substream
        (pb_istream_from_buffer (ob_mem (os_state s)) p (os_bytes_written s)) = (Some sub, s')
    \<and> ibuf_peek (is_state sub) (unat (is_bytes_left sub)) = bs \<and> is_bytes_left s' = 0"
proof -
  have "enc_emits buf_write (obuf_out p) (obuf_room p n) (obuf_keep p n)
      (pb_encode_delimited env d m fds src) (delimited bs)"
    unfolding pb_encode_delimited_def using assms
    by (intro bufw.submessage_emits bufw.message_emits) (simp_all add: buf_callbacks_def)
  then obtain g where g: "pb_encode_delimited env d m fds src = enc_lift g"
    "emits buf_write (obuf_out p) (obuf_room p n) (obuf_keep p n) g (delimited bs)"
    by (auto simp: enc_emits_def)
  have "length (delimited bs) \<le> unat n"
    using length_varint_bytes [of "of_nat (length bs)"] assms(4) by (simp add: delimited_def)
  from emits_buffer [OF g(2) this assms(5)] obtain s where s: "g (pb_ostream_from_buffer om p n) = (True, s)"
    "mem_read (ob_mem (os_state s)) p (length (delimited bs)) = delimited bs"
    "unat (os_bytes_written s) = length (delimited bs)" .
  have "unat (of_nat (length bs) :: u64) = length bs" using assms(3) by (intro unat_of_nat_small) simp
  then have "delimited bs = leb128 (length bs) @ bs @ []" by (simp add: delimited_def varint_bytes_leb128)
  with s have "src_stream buf_read ibuf_peek
      (pb_istream_from_buffer (ob_mem (os_state s)) p (os_bytes_written s)) (leb128 (length bs) @ bs @ [])"
    by (simp add: src_stream_def pb_istream_from_buffer_def ibuf_peek_def)
  from bufr.make_substream [OF assms(3) this] obtain sub s' where sub: "pb_make_string_substream
      (pb_istream_from_buffer (ob_mem (os_state s)) p (os_bytes_written s)) = (Some sub, s')"
    "src_stream buf_read ibuf_peek sub bs" "unat (is_bytes_left s') = length ([] :: bytes)" .
  with g(1) s(1) show ?thesis
    by (intro exI [of _ s] exI [of _ sub] exI [of _ s'])
      (simp add: enc_lift_def src_stream_def unat_eq_0)
qed

lemma pb_encode_delimited_substream_witness:
  "\<exists>s sub s'. pb_encode_delimited ex_env 2 ex_mem 0x100 0x1000 (pb_ostream_from_buffer (\<lambda>_. 0) 0x8000 32) = Some (True, s)
    \<and> pb_make_string_substream
        (pb_istream_from_buffer (ob_mem (os_state s)) 0x8000 (os_bytes_written s)) = (Some sub, s')
    \<and> ibuf_peek (is_state sub) (unat (is_bytes_left sub)) = [0x08, 0x96, 0x03, 0x12, 0x02, 0x68, 0x69]
    \<and> is_bytes_left s' = 0"
  by (rule pb_encode_delimited_substream [OF ex_callbacks ex_message]) simp_all

end
