(* ===== verification/PbDecode.thy ===== *)
theory PbDecode
  imports PbIstream PbCommon
begin

text \<open>
  The message decoder of nanopb (pb_decode.c): defaults, the field decoders, static, pointer and
  callback fields, extensions, the release of allocated fields, and \<open>pb_decode\<close> itself, in the
  build's configuration (\<open>PB_ENABLE_MALLOC\<close>, 32-bit sizes).

  The decoder writes into the flat memory, and into a heap that \<open>realloc\<close> and \<open>free\<close> manage;
  both functions, the descriptor arrays behind pointers, and the user's callbacks are the
  environment \<open>pd_env\<close>. The source of the stream keeps its own bytes (\<open>ibuf\<close>): decoding a
  message on top of the buffer it is read from is not modelled. A read that fails stores nothing.

  Descriptors, heap structures and extension lists may be cyclic, so the recursion and the list
  walks have a bound; \<open>None\<close> means that it was not enough.
\<close>

section \<open>State\<close>

text \<open>\<open>d_fixed\<close> is the local \<open>fixed_count_size\<close> of the running \<open>pb_decode_noinit\<close>.\<close>

record ('s, 'h) dstate =
  d_in :: "'s pb_istream"
  d_mem :: mem
  d_heap :: 'h
  d_fixed :: u32

type_synonym ('s, 'h) dec = "('s, 'h) dstate \<Rightarrow> (bool \<times> ('s, 'h) dstate) option"

text \<open>
  Code and data behind pointers. \<open>pe_decode\<close> runs a decoding callback on a substream of the
  stream, \<open>pe_decode_raw\<close> runs the same callback on the buffer with a raw scalar value.
\<close>

record ('s, 'h) pd_env =
  pe_fields :: "u64 \<Rightarrow> pb_field list"
  pe_realloc :: "u64 \<Rightarrow> u64 \<Rightarrow> mem \<times> 'h \<Rightarrow> u64 \<times> mem \<times> 'h"
  pe_free :: "u64 \<Rightarrow> mem \<times> 'h \<Rightarrow> mem \<times> 'h"
  pe_decode :: "u64 \<Rightarrow> pb_field \<Rightarrow> u64 \<Rightarrow> 's pb_istream \<times> mem \<times> 'h \<Rightarrow> bool \<times> 's pb_istream \<times> mem \<times> 'h"
  pe_decode_raw :: "u64 \<Rightarrow> pb_field \<Rightarrow> u64 \<Rightarrow> ibuf pb_istream \<Rightarrow> mem \<times> 'h \<Rightarrow> bool \<times> mem \<times> 'h"
  pe_ext_decode :: "u64 \<Rightarrow> u64 \<Rightarrow> u32 \<Rightarrow> u32 \<Rightarrow> 's pb_istream \<times> mem \<times> 'h \<Rightarrow> bool \<times> 's pb_istream \<times> mem \<times> 'h"

definition d_error :: "string \<Rightarrow> ('s, 'h) dstate \<Rightarrow> bool \<times> ('s, 'h) dstate" where
  "d_error msg d = (False, d\<lparr>d_in := is_error msg (d_in d)\<rparr>)"

definition dec_error :: "string \<Rightarrow> ('s, 'h) dec" where
  "dec_error msg d = Some (d_error msg d)"

definition dec_lift :: "(('s, 'h) dstate \<Rightarrow> bool \<times> ('s, 'h) dstate) \<Rightarrow> ('s, 'h) dec" where
  "dec_lift f d = Some (f d)"

text \<open>\<open>if (!f(...)) return false;\<close> and then \<open>g\<close>.\<close>

definition dec_then :: "('s, 'h) dec \<Rightarrow> ('s, 'h) dec \<Rightarrow> ('s, 'h) dec" where
  "dec_then f g d =
     (case f d of None \<Rightarrow> None | Some (ok, d') \<Rightarrow> if ok then g d' else Some (False, d'))"

text \<open>Reading a value from the stream, or returning false.\<close>

definition d_read ::
  "('s pb_istream \<Rightarrow> 'v option \<times> 's pb_istream) \<Rightarrow> ('v \<Rightarrow> ('s, 'h) dstate \<Rightarrow> bool \<times> ('s, 'h) dstate)
     \<Rightarrow> ('s, 'h) dstate \<Rightarrow> bool \<times> ('s, 'h) dstate" where
  "d_read r f d =
     (case r (d_in d) of
        (None, s) \<Rightarrow> (False, d\<lparr>d_in := s\<rparr>)
      | (Some v, s) \<Rightarrow> f v (d\<lparr>d_in := s\<rparr>))"

definition wr :: "u64 \<Rightarrow> bytes \<Rightarrow> ('s, 'h) dstate \<Rightarrow> ('s, 'h) dstate" where
  "wr p bs d = d\<lparr>d_mem := mem_write (d_mem d) p bs\<rparr>"

section \<open>Scalar fields\<close>

definition pb_dec_bool :: "u64 \<Rightarrow> ('s, 'h) dstate \<Rightarrow> bool \<times> ('s, 'h) dstate" where
  "pb_dec_bool dest = d_read pb_decode_varint32 (\<lambda>v d. (True, wr dest [if v \<noteq> 0 then 1 else 0] d))"

definition pb_decode_bool :: "u64 \<Rightarrow> ('s, 'h) dstate \<Rightarrow> bool \<times> ('s, 'h) dstate" where
  "pb_decode_bool dest = pb_dec_bool dest"

text \<open>
  The casts of \<open>pb_dec_varint\<close> and its siblings: the bytes that are stored, and the value they
  hold, read back as \<open>int64_t\<close> (signed) or \<open>uint64_t\<close>.
\<close>

definition clamp :: "bool \<Rightarrow> u32 \<Rightarrow> u64 \<Rightarrow> (bytes \<times> u64) option" where
  "clamp is_signed sz v =
     (if sz = 8 then Some (le_bytes 8 v, v)
      else if sz = 4 then Some (le_bytes 4 v, if is_signed then scast (ucast v :: u32) else ucast (ucast v :: u32))
      else if sz = 2 then Some (le_bytes 2 v, if is_signed then scast (ucast v :: u16) else ucast (ucast v :: u16))
      else if sz = 1 then Some (le_bytes 1 v, if is_signed then scast (ucast v :: u8) else ucast (ucast v :: u8))
      else None)"

definition store_clamped :: "bool \<Rightarrow> pb_field \<Rightarrow> u64 \<Rightarrow> u64 \<Rightarrow> ('s, 'h) dstate \<Rightarrow> bool \<times> ('s, 'h) dstate" where
  "store_clamped is_signed f dest v d =
     (case clamp is_signed (data_size f) v of
        None \<Rightarrow> d_error ''invalid data_size'' d
      | Some (bs, clamped) \<Rightarrow>
          (let d' = wr dest bs d in
           if clamped \<noteq> v then d_error ''integer too large'' d' else (True, d')))"

definition pb_dec_varint :: "pb_field \<Rightarrow> u64 \<Rightarrow> ('s, 'h) dstate \<Rightarrow> bool \<times> ('s, 'h) dstate" where
  "pb_dec_varint f dest = d_read pb_decode_varint
     (\<lambda>value. let svalue = (if data_size f = 8 then value else scast (ucast value :: u32))
              in store_clamped True f dest svalue)"

definition pb_dec_uvarint :: "pb_field \<Rightarrow> u64 \<Rightarrow> ('s, 'h) dstate \<Rightarrow> bool \<times> ('s, 'h) dstate" where
  "pb_dec_uvarint f dest = d_read pb_decode_varint (store_clamped False f dest)"

definition pb_dec_svarint :: "pb_field \<Rightarrow> u64 \<Rightarrow> ('s, 'h) dstate \<Rightarrow> bool \<times> ('s, 'h) dstate" where
  "pb_dec_svarint f dest = d_read pb_decode_svarint (store_clamped True f dest)"

definition pb_dec_fixed32 :: "u64 \<Rightarrow> ('s, 'h) dstate \<Rightarrow> bool \<times> ('s, 'h) dstate" where
  "pb_dec_fixed32 dest = d_read pb_decode_fixed32 (\<lambda>v d. (True, wr dest (le_bytes 4 v) d))"

definition pb_dec_fixed64 :: "u64 \<Rightarrow> ('s, 'h) dstate \<Rightarrow> bool \<times> ('s, 'h) dstate" where
  "pb_dec_fixed64 dest = d_read pb_decode_fixed64 (\<lambda>v d. (True, wr dest (le_bytes 8 v) d))"

section \<open>Allocation\<close>

definition allocate_field ::
  "('s, 'h) pd_env \<Rightarrow> u64 \<Rightarrow> u64 \<Rightarrow> u64 \<Rightarrow> ('s, 'h) dstate \<Rightarrow> bool \<times> ('s, 'h) dstate" where
  "allocate_field env pData dsize asize d =
     (if dsize = 0 \<or> asize = 0 then d_error ''invalid size'' d
      else if (dsize \<ge> 0x100000000 \<or> asize \<ge> 0x100000000) \<and> (- 1) div asize < dsize
        then d_error ''size too large'' d
      else
        (case pe_realloc env (rd_u64 (d_mem d) pData) (asize * dsize) (d_mem d, d_heap d) of
           (p, m, h) \<Rightarrow>
             (let d' = d\<lparr>d_mem := m, d_heap := h\<rparr> in
              if p = 0 then d_error ''realloc failed'' d' else (True, wr pData (le_bytes 8 p) d'))))"

section \<open>Byte strings\<close>

definition pb_dec_bytes :: "('s, 'h) pd_env \<Rightarrow> pb_field \<Rightarrow> u64 \<Rightarrow> ('s, 'h) dstate \<Rightarrow> bool \<times> ('s, 'h) dstate" where
  "pb_dec_bytes env f dest = d_read pb_decode_varint32
     (\<lambda>n d.
        let alloc_size = ucast n + 4 :: u64;
            body = (\<lambda>bdest d. d_read (\<lambda>s. pb_read s (ucast n)) (\<lambda>bs d. (True, wr (bdest + 4) bs d))
                                (wr bdest (le_bytes 4 n) d))
        in
        if n > PB_SIZE_MAX then d_error ''bytes overflow'' d
        else if ucast n > alloc_size then d_error ''size too large'' d
        else if pb_atype (ftype f) = PB_ATYPE_POINTER then
          (if is_bytes_left (d_in d) < ucast n then d_error ''end-of-stream'' d
           else (case allocate_field env dest alloc_size 1 d of
                   (ok, d') \<Rightarrow> if \<not> ok then (False, d') else body (rd_u64 (d_mem d') dest) d'))
        else if alloc_size > ucast (data_size f) then d_error ''bytes overflow'' d
        else body dest d)"

text \<open>The terminator is stored after a failed read as well.\<close>

definition pb_dec_string :: "('s, 'h) pd_env \<Rightarrow> pb_field \<Rightarrow> u64 \<Rightarrow> ('s, 'h) dstate \<Rightarrow> bool \<times> ('s, 'h) dstate" where
  "pb_dec_string env f dest = d_read pb_decode_varint32
     (\<lambda>n d.
        let alloc_size = ucast (n + 1) :: u64;
            body = (\<lambda>dest d.
              case d_read (\<lambda>s. pb_read s (ucast n)) (\<lambda>bs d. (True, wr dest bs d)) d of
                (status, d') \<Rightarrow> (status, wr (dest + ucast n) [0] d'))
        in
        if alloc_size < ucast n then d_error ''size too large'' d
        else if pb_atype (ftype f) = PB_ATYPE_POINTER then
          (if is_bytes_left (d_in d) < ucast n then d_error ''end-of-stream'' d
           else (case allocate_field env dest alloc_size 1 d of
                   (ok, d') \<Rightarrow> if \<not> ok then (False, d') else body (rd_u64 (d_mem d') dest) d'))
        else if alloc_size > ucast (data_size f) then d_error ''string overflow'' d
        else body dest d)"

definition pb_dec_fixed_length_bytes :: "pb_field \<Rightarrow> u64 \<Rightarrow> ('s, 'h) dstate \<Rightarrow> bool \<times> ('s, 'h) dstate" where
  "pb_dec_fixed_length_bytes f dest = d_read pb_decode_varint32
     (\<lambda>n d.
        if n > PB_SIZE_MAX then d_error ''bytes overflow'' d
        else if n = 0 then (True, wr dest (replicate (unat (data_size f)) 0) d)
        else if n \<noteq> data_size f then d_error ''incorrect fixed length bytes size'' d
        else d_read (\<lambda>s. pb_read s (ucast (data_size f))) (\<lambda>bs d. (True, wr dest bs d)) d)"

section \<open>Default values\<close>

text \<open>An extension's own iterator; \<open>ext_iter\<close> is \<open>iter_from_extension\<close>.\<close>

definition ext_iter :: "(u64 \<Rightarrow> pb_field list) \<Rightarrow> mem \<Rightarrow> u64 \<Rightarrow> pb_field_iter" where
  "ext_iter fds m e =
     (let arg = fds (rd_u64 m (ext_type m e + 16));
          it = snd (pb_field_iter_begin arg (ext_dest m e))
      in it\<lparr>it_pData := (if pb_atype (ftype (field_at arg 0)) = PB_ATYPE_POINTER then e + 8 else ext_dest m e),
            it_pSize := e + 24\<rparr>)"

text \<open>\<open>while (ext != NULL) { step(ext); ext = ext->next; }\<close>, and a step for each element of a list.\<close>

fun ext_walk :: "('w \<Rightarrow> mem) \<Rightarrow> nat \<Rightarrow> (u64 \<Rightarrow> 'w \<Rightarrow> 'w option) \<Rightarrow> u64 \<Rightarrow> 'w \<Rightarrow> 'w option" where
  "ext_walk mm 0 step e w = (if e = 0 then Some w else None)"
| "ext_walk mm (Suc k) step e w =
     (if e = 0 then Some w
      else (case step e w of None \<Rightarrow> None | Some w' \<Rightarrow> ext_walk mm k step (ext_next (mm w') e) w'))"

fun opt_fold :: "('a \<Rightarrow> 'w \<Rightarrow> 'w option) \<Rightarrow> 'a list \<Rightarrow> 'w \<Rightarrow> 'w option" where
  "opt_fold f [] w = Some w"
| "opt_fold f (x # xs) w = (case f x w of None \<Rightarrow> None | Some w' \<Rightarrow> opt_fold f xs w')"

fun pb_field_set_to_default :: "(u64 \<Rightarrow> pb_field list) \<Rightarrow> nat \<Rightarrow> pb_field_iter \<Rightarrow> mem \<Rightarrow> mem option"
  and pb_message_set_to_defaults :: "(u64 \<Rightarrow> pb_field list) \<Rightarrow> nat \<Rightarrow> u64 \<Rightarrow> u64 \<Rightarrow> mem \<Rightarrow> mem option" where
  "pb_field_set_to_default fds 0 it m = None"
| "pb_field_set_to_default fds (Suc n) it m =
     (let f = it_field it; at = pb_atype (ftype f); ht = pb_htype (ftype f); lt = pb_ltype (ftype f) in
      if lt = PB_LTYPE_EXTENSION then
        ext_walk id n
          (\<lambda>e m. let m' = mem_write m (e + 24) [0] in pb_field_set_to_default fds n (ext_iter fds m' e) m')
          (rd_u64 m (it_pData it)) m
      else if at = PB_ATYPE_STATIC then
        (if ht = PB_HTYPE_REPEATED \<or> ht = PB_HTYPE_ONEOF then Some (mem_write m (it_pSize it) (le_bytes 4 (0 :: u32)))
         else
           (let m1 = (if ht = PB_HTYPE_OPTIONAL \<and> it_pSize it \<noteq> it_pData it
                      then mem_write m (it_pSize it) [0] else m)
            in if lt = PB_LTYPE_SUBMESSAGE then pb_message_set_to_defaults fds n (fptr f) (it_pData it) m1
               else if fptr f \<noteq> 0 then
                 Some (mem_write m1 (it_pData it) (mem_read m1 (fptr f) (unat (data_size f))))
               else Some (mem_write m1 (it_pData it) (replicate (unat (data_size f)) 0))))
      else if at = PB_ATYPE_POINTER then
        (let m1 = mem_write m (it_pData it) (le_bytes 8 (0 :: u64)) in
         Some (if ht = PB_HTYPE_REPEATED \<or> ht = PB_HTYPE_ONEOF
               then mem_write m1 (it_pSize it) (le_bytes 4 (0 :: u32)) else m1))
      else Some m)"
| "pb_message_set_to_defaults fds 0 p dest m = None"
| "pb_message_set_to_defaults fds (Suc n) p dest m =
     opt_fold (pb_field_set_to_default fds n) (iter_fields (fds p) dest) m"

section \<open>Releasing allocated fields\<close>

definition mem_put :: "u64 \<Rightarrow> bytes \<Rightarrow> mem \<times> 'h \<Rightarrow> mem \<times> 'h" where
  "mem_put p bs w = (mem_write (fst w) p bs, snd w)"

text \<open>\<open>for (; count > 0; count--) { f(p); p += step; }\<close>\<close>

fun each_item :: "(u64 \<Rightarrow> 'w \<Rightarrow> 'w option) \<Rightarrow> u64 \<Rightarrow> nat \<Rightarrow> u64 \<Rightarrow> 'w \<Rightarrow> 'w option" where
  "each_item f step 0 p w = Some w"
| "each_item f step (Suc k) p w =
     (case f p w of None \<Rightarrow> None | Some w' \<Rightarrow> each_item f step k (p + step) w')"

text \<open>How many submessages a field holds.\<close>

definition release_count :: "mem \<Rightarrow> pb_field_iter \<Rightarrow> u32" where
  "release_count m it =
     (let f = it_field it; at = pb_atype (ftype f) in
      if pb_htype (ftype f) = PB_HTYPE_REPEATED then
        (let count = (if at = PB_ATYPE_STATIC \<and> it_pSize it = it_pData it then array_size f
                      else rd_u32 m (it_pSize it))
         in if at = PB_ATYPE_STATIC \<and> count > array_size f then array_size f else count)
      else 1)"

text \<open>The last part of \<open>pb_release_single_field\<close>, for a pointer field.\<close>

definition release_pointer :: "('s, 'h) pd_env \<Rightarrow> pb_field_iter \<Rightarrow> mem \<times> 'h \<Rightarrow> (mem \<times> 'h) option" where
  "release_pointer env it w =
     (let f = it_field it; ht = pb_htype (ftype f); lt = pb_ltype (ftype f);
          entries = (if ht = PB_HTYPE_REPEATED \<and> (lt = PB_LTYPE_STRING \<or> lt = PB_LTYPE_BYTES)
            then each_item (\<lambda>p w. Some (mem_put p (le_bytes 8 (0 :: u64)) (pe_free env (rd_u64 (fst w) p) w)))
                   8 (unat (rd_u32 (fst w) (it_pSize it))) (rd_u64 (fst w) (it_pData it)) w
            else Some w)
      in case entries of
           None \<Rightarrow> None
         | Some w1 \<Rightarrow>
             (let w2 = (if ht = PB_HTYPE_REPEATED then mem_put (it_pSize it) (le_bytes 4 (0 :: u32)) w1 else w1)
              in Some (mem_put (it_pData it) (le_bytes 8 (0 :: u64))
                         (pe_free env (rd_u64 (fst w2) (it_pData it)) w2))))"

fun pb_release_single_field :: "('s, 'h) pd_env \<Rightarrow> nat \<Rightarrow> pb_field_iter \<Rightarrow> mem \<times> 'h \<Rightarrow> (mem \<times> 'h) option"
  and pb_release :: "('s, 'h) pd_env \<Rightarrow> nat \<Rightarrow> u64 \<Rightarrow> u64 \<Rightarrow> mem \<times> 'h \<Rightarrow> (mem \<times> 'h) option" where
  "pb_release_single_field env 0 it w = None"
| "pb_release_single_field env (Suc n) it w =
     (let f = it_field it; at = pb_atype (ftype f); ht = pb_htype (ftype f); lt = pb_ltype (ftype f) in
      if ht = PB_HTYPE_ONEOF \<and> rd_u32 (fst w) (it_pSize it) \<noteq> tag f then Some w
      else
        (let inner =
           (if lt = PB_LTYPE_EXTENSION then
              ext_walk fst n
                (\<lambda>e w. pb_release_single_field env n (ext_iter (pe_fields env) (fst w) e) w)
                (rd_u64 (fst w) (it_pData it)) w
            else if lt = PB_LTYPE_SUBMESSAGE \<and> at \<noteq> PB_ATYPE_CALLBACK then
              (let pItem = (if at = PB_ATYPE_POINTER then rd_u64 (fst w) (it_pData it) else it_pData it) in
               if pItem = 0 then Some w
               else each_item (\<lambda>p w. pb_release env n (fptr f) p w) (ucast (data_size f))
                      (unat (release_count (fst w) it)) pItem w)
            else Some w)
         in case inner of
              None \<Rightarrow> None
            | Some w1 \<Rightarrow> if at = PB_ATYPE_POINTER then release_pointer env it w1 else Some w1))"
| "pb_release env 0 p dest w = None"
| "pb_release env (Suc n) p dest w =
     (if dest = 0 then Some w
      else opt_fold (pb_release_single_field env n) (iter_fields (pe_fields env p) dest) w)"

section \<open>Submessages and the table of decoders\<close>

definition d_defaults :: "('s, 'h) pd_env \<Rightarrow> nat \<Rightarrow> u64 \<Rightarrow> u64 \<Rightarrow> ('s, 'h) dstate \<Rightarrow> ('s, 'h) dstate option" where
  "d_defaults env n p dest d =
     map_option (\<lambda>m. d\<lparr>d_mem := m\<rparr>) (pb_message_set_to_defaults (pe_fields env) n p dest (d_mem d))"

definition d_release :: "(mem \<times> 'h \<Rightarrow> (mem \<times> 'h) option) \<Rightarrow> ('s, 'h) dstate \<Rightarrow> ('s, 'h) dstate option" where
  "d_release f d = map_option (\<lambda>(m, h). d\<lparr>d_mem := m, d_heap := h\<rparr>) (f (d_mem d, d_heap d))"

text \<open>\<open>pb_decode\<close>, given \<open>pb_decode_noinit\<close>.\<close>

definition decode_with ::
  "('s, 'h) pd_env \<Rightarrow> nat \<Rightarrow> (u64 \<Rightarrow> u64 \<Rightarrow> ('s, 'h) dec) \<Rightarrow> u64 \<Rightarrow> u64 \<Rightarrow> ('s, 'h) dec" where
  "decode_with env n noinit p dest d =
     (case d_defaults env n p dest d of
        None \<Rightarrow> None
      | Some d1 \<Rightarrow>
          (case noinit p dest d1 of
             None \<Rightarrow> None
           | Some (True, d2) \<Rightarrow> Some (True, d2)
           | Some (False, d2) \<Rightarrow> map_option (Pair False) (d_release (pb_release env n p dest) d2)))"

text \<open>\<open>pb_close_string_substream\<close>, where the stream of \<open>d\<close> is the substream of \<open>parent\<close>.\<close>

definition d_close :: "'s pb_istream \<Rightarrow> ('s, 'h) dstate \<Rightarrow> bool \<times> ('s, 'h) dstate" where
  "d_close parent d = (case pb_close_string_substream parent (d_in d) of (ok, s) \<Rightarrow> (ok, d\<lparr>d_in := s\<rparr>))"

definition pb_dec_submessage ::
  "('s, 'h) pd_env \<Rightarrow> nat \<Rightarrow> (u64 \<Rightarrow> u64 \<Rightarrow> ('s, 'h) dec) \<Rightarrow> pb_field \<Rightarrow> u64 \<Rightarrow> ('s, 'h) dec" where
  "pb_dec_submessage env n noinit f dest d =
     (case pb_make_string_substream (d_in d) of
        (None, s) \<Rightarrow> Some (False, d\<lparr>d_in := s\<rparr>)
      | (Some sub, s) \<Rightarrow>
          if fptr f = 0 then dec_error ''invalid field descriptor'' (d\<lparr>d_in := s\<rparr>)
          else
            (case (if pb_htype (ftype f) = PB_HTYPE_REPEATED then decode_with env n noinit else noinit)
                    (fptr f) dest (d\<lparr>d_in := sub\<rparr>) of
               None \<Rightarrow> None
             | Some (status, d1) \<Rightarrow> (case d_close s d1 of (ok, d2) \<Rightarrow> Some (ok \<and> status, d2))))"

text \<open>
  The table \<open>PB_DECODERS\<close>. Its NULL entry and the types beyond its end have no decoder; calling
  one is undefined in C, and \<open>None\<close> here.
\<close>

definition pb_decoder ::
  "('s, 'h) pd_env \<Rightarrow> nat \<Rightarrow> (u64 \<Rightarrow> u64 \<Rightarrow> ('s, 'h) dec) \<Rightarrow> pb_field \<Rightarrow> u64 \<Rightarrow> ('s, 'h) dec" where
  "pb_decoder env n noinit f dest =
     (let lt = pb_ltype (ftype f) in
      if lt = PB_LTYPE_BOOL then dec_lift (pb_dec_bool dest)
      else if lt = PB_LTYPE_VARINT then dec_lift (pb_dec_varint f dest)
      else if lt = PB_LTYPE_UVARINT then dec_lift (pb_dec_uvarint f dest)
      else if lt = PB_LTYPE_SVARINT then dec_lift (pb_dec_svarint f dest)
      else if lt = PB_LTYPE_FIXED32 then dec_lift (pb_dec_fixed32 dest)
      else if lt = PB_LTYPE_FIXED64 then dec_lift (pb_dec_fixed64 dest)
      else if lt = PB_LTYPE_BYTES then dec_lift (pb_dec_bytes env f dest)
      else if lt = PB_LTYPE_STRING then dec_lift (pb_dec_string env f dest)
      else if lt = PB_LTYPE_SUBMESSAGE then pb_dec_submessage env n noinit f dest
      else if lt = PB_LTYPE_FIXED_LENGTH_BYTES then dec_lift (pb_dec_fixed_length_bytes f dest)
      else (\<lambda>d. None))"

section \<open>Static fields\<close>

text \<open>
  Where \<open>iter.pSize\<close> points: into the memory, or to the local \<open>fixed_count_size\<close>, which
  \<open>pb_decode_noinit\<close> uses for arrays without a count field.
\<close>

datatype size_ref = SizeAt u64 | SizeLocal

fun get_size :: "size_ref \<Rightarrow> ('s, 'h) dstate \<Rightarrow> u32" where
  "get_size (SizeAt p) d = rd_u32 (d_mem d) p"
| "get_size SizeLocal d = d_fixed d"

fun set_size :: "size_ref \<Rightarrow> u32 \<Rightarrow> ('s, 'h) dstate \<Rightarrow> ('s, 'h) dstate" where
  "set_size (SizeAt p) v d = wr p (le_bytes 4 v) d"
| "set_size SizeLocal v d = d\<lparr>d_fixed := v\<rparr>"

text \<open>\<open>(char*)p + data_size * i\<close>; the product is computed in the 32 bits of \<open>pb_size_t\<close>.\<close>

definition elem_addr :: "u64 \<Rightarrow> pb_field \<Rightarrow> u32 \<Rightarrow> u64" where
  "elem_addr p f i = p + ucast (data_size f * i)"

text \<open>The packed loop; every item reads at least a byte, so it runs at most \<open>bytes_left\<close> times.\<close>

fun packed_loop ::
  "nat \<Rightarrow> (u64 \<Rightarrow> ('s, 'h) dec) \<Rightarrow> pb_field \<Rightarrow> size_ref \<Rightarrow> u64 \<Rightarrow> ('s, 'h) dec" where
  "packed_loop 0 func f sr pData d = None"
| "packed_loop (Suc k) func f sr pData d =
     (if is_bytes_left (d_in d) > 0 \<and> get_size sr d < array_size f then
        (case func (elem_addr pData f (get_size sr d)) d of
           None \<Rightarrow> None
         | Some (ok, d') \<Rightarrow>
             if \<not> ok then Some (False, d')
             else packed_loop k func f sr pData (set_size sr (get_size sr d' + 1) d'))
      else Some (True, d))"

definition decode_static_field ::
  "('s, 'h) pd_env \<Rightarrow> nat \<Rightarrow> (u64 \<Rightarrow> u64 \<Rightarrow> ('s, 'h) dec) \<Rightarrow> u32 \<Rightarrow> pb_field_iter \<Rightarrow> size_ref \<Rightarrow> ('s, 'h) dec" where
  "decode_static_field env n noinit wire_type it sr d =
     (let f = it_field it; ht = pb_htype (ftype f); lt = pb_ltype (ftype f);
          func = pb_decoder env n noinit f
      in
      if ht = PB_HTYPE_REQUIRED then func (it_pData it) d
      else if ht = PB_HTYPE_OPTIONAL then
        func (it_pData it) (if it_pSize it \<noteq> it_pData it then wr (it_pSize it) [1] d else d)
      else if ht = PB_HTYPE_REPEATED then
        (if wire_type = 2 \<and> lt \<le> PB_LTYPE_LAST_PACKABLE then
           (case pb_make_string_substream (d_in d) of
              (None, s) \<Rightarrow> Some (False, d\<lparr>d_in := s\<rparr>)
            | (Some sub, s) \<Rightarrow>
                (case packed_loop (Suc (unat (is_bytes_left sub))) func f sr (it_pData it) (d\<lparr>d_in := sub\<rparr>) of
                   None \<Rightarrow> None
                 | Some (status, d1) \<Rightarrow>
                     if is_bytes_left (d_in d1) \<noteq> 0 then dec_error ''array overflow'' (d1\<lparr>d_in := s\<rparr>)
                     else (case d_close s d1 of (ok, d2) \<Rightarrow> Some (ok \<and> status, d2))))
         else
           (let size = get_size sr d; d1 = set_size sr (size + 1) d in
            if size \<ge> array_size f then dec_error ''array overflow'' d1
            else func (elem_addr (it_pData it) f size) d1))
      else if ht = PB_HTYPE_ONEOF then
        (let switched =
           (if lt = PB_LTYPE_SUBMESSAGE \<and> rd_u32 (d_mem d) (it_pSize it) \<noteq> tag f
            then d_defaults env n (fptr f) (it_pData it) (wr (it_pData it) (replicate (unat (data_size f)) 0) d)
            else Some d)
         in case switched of
              None \<Rightarrow> None
            | Some d1 \<Rightarrow> func (it_pData it) (wr (it_pSize it) (le_bytes 4 (tag f)) d1))
      else dec_error ''invalid field type'' d)"

section \<open>Pointer fields\<close>

definition initialize_pointer_field ::
  "('s, 'h) pd_env \<Rightarrow> nat \<Rightarrow> pb_field \<Rightarrow> u64 \<Rightarrow> ('s, 'h) dstate \<Rightarrow> ('s, 'h) dstate option" where
  "initialize_pointer_field env n f pItem d =
     (let lt = pb_ltype (ftype f) in
      if lt = PB_LTYPE_STRING \<or> lt = PB_LTYPE_BYTES then Some (wr pItem (le_bytes 8 (0 :: u64)) d)
      else if lt = PB_LTYPE_SUBMESSAGE then
        d_defaults env n (fptr f) pItem (wr pItem (replicate (unat (data_size f)) 0) d)
      else Some d)"

text \<open>One initialised item, then its decoder.\<close>

definition init_and_decode ::
  "('s, 'h) pd_env \<Rightarrow> nat \<Rightarrow> (u64 \<Rightarrow> ('s, 'h) dec) \<Rightarrow> pb_field \<Rightarrow> u64 \<Rightarrow> ('s, 'h) dec" where
  "init_and_decode env n func f pItem d =
     (case initialize_pointer_field env n f pItem d of None \<Rightarrow> None | Some d' \<Rightarrow> func pItem d')"

text \<open>
  The packed loop over the substream in \<open>d\<close>, with the parent stream, whose error message it may
  set. \<open>alloc\<close> is \<open>allocated_size\<close>.
\<close>

fun pointer_packed_loop ::
  "nat \<Rightarrow> ('s, 'h) pd_env \<Rightarrow> nat \<Rightarrow> (u64 \<Rightarrow> ('s, 'h) dec) \<Rightarrow> pb_field \<Rightarrow> size_ref \<Rightarrow> u64 \<Rightarrow> u64
     \<Rightarrow> 's pb_istream \<Rightarrow> ('s, 'h) dstate \<Rightarrow> (bool \<times> 's pb_istream \<times> ('s, 'h) dstate) option" where
  "pointer_packed_loop 0 env n func f sr pData alloc s d = None"
| "pointer_packed_loop (Suc k) env n func f sr pData alloc s d =
     (if is_bytes_left (d_in d) = 0 then Some (True, s, d)
      else if get_size sr d = PB_SIZE_MAX
        then Some (False, s\<lparr>is_errmsg := Some ''too many array entries''\<rparr>, d)
      else
        (let remain = (is_bytes_left (d_in d) - 1) div ucast (data_size f) + 1;
             grow = ucast (get_size sr d) + 1 > alloc;
             alloc' = (if grow then (if remain < ucast PB_SIZE_MAX - alloc then alloc + remain else alloc + 1)
                       else alloc)
         in
         case (if grow then allocate_field env pData (ucast (data_size f)) alloc' d else (True, d)) of
           (ok, d1) \<Rightarrow>
             if \<not> ok then Some (False, s, d1)
             else
               (let pItem = elem_addr (rd_u64 (d_mem d1) pData) f (get_size sr d1) in
                if pItem = 0 then Some (False, s, d1)
                else
                  (case init_and_decode env n func f pItem d1 of
                     None \<Rightarrow> None
                   | Some (ok2, d2) \<Rightarrow>
                       if \<not> ok2 then Some (False, s, d2)
                       else pointer_packed_loop k env n func f sr pData alloc' s
                              (set_size sr (get_size sr d2 + 1) d2)))))"

definition decode_pointer_field ::
  "('s, 'h) pd_env \<Rightarrow> nat \<Rightarrow> (u64 \<Rightarrow> u64 \<Rightarrow> ('s, 'h) dec) \<Rightarrow> u32 \<Rightarrow> pb_field_iter \<Rightarrow> size_ref \<Rightarrow> ('s, 'h) dec" where
  "decode_pointer_field env n noinit wire_type it sr d =
     (let f = it_field it; ht = pb_htype (ftype f); lt = pb_ltype (ftype f); pData = it_pData it;
          func = pb_decoder env n noinit f
      in
      if ht = PB_HTYPE_REQUIRED \<or> ht = PB_HTYPE_OPTIONAL \<or> ht = PB_HTYPE_ONEOF then
        (case (if lt = PB_LTYPE_SUBMESSAGE \<and> rd_u64 (d_mem d) pData \<noteq> 0
               then d_release (pb_release_single_field env n it) d else Some d) of
           None \<Rightarrow> None
         | Some d1 \<Rightarrow>
             (let d2 = (if ht = PB_HTYPE_ONEOF then wr (it_pSize it) (le_bytes 4 (tag f)) d1 else d1) in
              if lt = PB_LTYPE_STRING \<or> lt = PB_LTYPE_BYTES then func pData d2
              else (case allocate_field env pData (ucast (data_size f)) 1 d2 of
                      (ok, d3) \<Rightarrow>
                        if \<not> ok then Some (False, d3)
                        else init_and_decode env n func f (rd_u64 (d_mem d3) pData) d3)))
      else if ht = PB_HTYPE_REPEATED then
        (if wire_type = 2 \<and> lt \<le> PB_LTYPE_LAST_PACKABLE then
           (let alloc = ucast (get_size sr d) in
            case pb_make_string_substream (d_in d) of
              (None, s) \<Rightarrow> Some (False, d\<lparr>d_in := s\<rparr>)
            | (Some sub, s) \<Rightarrow>
                (case pointer_packed_loop (Suc (unat (is_bytes_left sub))) env n func f sr pData alloc s
                        (d\<lparr>d_in := sub\<rparr>) of
                   None \<Rightarrow> None
                 | Some (status, s', d1) \<Rightarrow> (case d_close s' d1 of (ok, d2) \<Rightarrow> Some (ok \<and> status, d2))))
         else if get_size sr d = PB_SIZE_MAX then dec_error ''too many array entries'' d
         else
           (case allocate_field env pData (ucast (data_size f)) (ucast (get_size sr d + 1)) d of
              (ok, d1) \<Rightarrow>
                if \<not> ok then Some (False, d1)
                else init_and_decode env n func f (elem_addr (rd_u64 (d_mem d1) pData) f (get_size sr d1))
                       (set_size sr (get_size sr d1 + 1) d1)))
      else dec_error ''invalid field type'' d)"

section \<open>Callback fields\<close>

text \<open>The bytes of a raw scalar value; a varint has at most as many as the buffer.\<close>

fun raw_varint :: "nat \<Rightarrow> 's pb_istream \<Rightarrow> bytes option \<times> 's pb_istream" where
  "raw_varint 0 s = (None, s)"
| "raw_varint (Suc k) s =
     (case pb_read s 1 of
        (None, s') \<Rightarrow> (None, s')
      | (Some b, s') \<Rightarrow>
          if first_byte b AND 0x80 \<noteq> 0
          then apfst (map_option ((#) (first_byte b))) (raw_varint k s')
          else (Some [first_byte b], s'))"

definition read_raw_value :: "u32 \<Rightarrow> 's pb_istream \<Rightarrow> bytes option \<times> 's pb_istream" where
  "read_raw_value wire_type s =
     (if wire_type = 0 then raw_varint 10 s
      else if wire_type = 1 then pb_read s 8
      else if wire_type = 5 then pb_read s 4
      else (None, is_error ''invalid wire_type'' s))"

definition run_callback ::
  "('s pb_istream \<times> mem \<times> 'h \<Rightarrow> bool \<times> 's pb_istream \<times> mem \<times> 'h) \<Rightarrow> ('s, 'h) dstate \<Rightarrow> bool \<times> ('s, 'h) dstate" where
  "run_callback cb d =
     (case cb (d_in d, d_mem d, d_heap d) of
        (ok, s, m, h) \<Rightarrow> (ok, d\<lparr>d_in := s, d_mem := m, d_heap := h\<rparr>))"

text \<open>\<open>do ... while (substream.bytes_left)\<close>: a callback that reads nothing is called again.\<close>

fun callback_loop :: "nat \<Rightarrow> (('s, 'h) dstate \<Rightarrow> bool \<times> ('s, 'h) dstate) \<Rightarrow> ('s, 'h) dec" where
  "callback_loop 0 cb d = None"
| "callback_loop (Suc k) cb d =
     (case cb d of
        (False, d') \<Rightarrow> Some (False, d')
      | (True, d') \<Rightarrow> if is_bytes_left (d_in d') \<noteq> 0 then callback_loop k cb d' else Some (True, d'))"

definition decode_callback_field ::
  "('s, 'h) pd_env \<Rightarrow> nat \<Rightarrow> u32 \<Rightarrow> pb_field_iter \<Rightarrow> ('s, 'h) dec" where
  "decode_callback_field env n wire_type it d =
     (let pCallback = it_pData it; fn = rd_u64 (d_mem d) pCallback; arg = pCallback + 8; f = it_field it in
      if pCallback = 0 \<or> fn = 0 then
        (case pb_skip_field wire_type (d_in d) of (ok, s) \<Rightarrow> Some (ok, d\<lparr>d_in := s\<rparr>))
      else if wire_type = 2 then
        (case pb_make_string_substream (d_in d) of
           (None, s) \<Rightarrow> Some (False, d\<lparr>d_in := s\<rparr>)
         | (Some sub, s) \<Rightarrow>
             (case callback_loop n (run_callback (pe_decode env fn f arg)) (d\<lparr>d_in := sub\<rparr>) of
                None \<Rightarrow> None
              | Some (False, d1) \<Rightarrow> dec_error ''callback failed'' (d1\<lparr>d_in := s\<rparr>)
              | Some (True, d1) \<Rightarrow> Some (d_close s d1)))
      else
        Some (d_read (read_raw_value wire_type)
          (\<lambda>buffer d.
             case pe_decode_raw env fn f arg
                    (pb_istream_from_buffer (mem_write (\<lambda>_. 0) 0 buffer) 0 (of_nat (length buffer)))
                    (d_mem d, d_heap d) of
               (ok, m, h) \<Rightarrow> (ok, d\<lparr>d_mem := m, d_heap := h\<rparr>)) d))"

section \<open>Fields\<close>

text \<open>
  \<open>pb_release_union_field\<close> returns the iterator as well: it is moved to the old field of the
  union and back to the new one.
\<close>

definition pb_release_union_field ::
  "('s, 'h) pd_env \<Rightarrow> nat \<Rightarrow> pb_field_iter \<Rightarrow> ('s, 'h) dstate \<Rightarrow> (bool \<times> pb_field_iter \<times> ('s, 'h) dstate) option" where
  "pb_release_union_field env n it d =
     (let old_tag = rd_u32 (d_mem d) (it_pSize it); new_tag = tag (it_field it);
          fail = (\<lambda>it msg d. Some (False, it, snd (d_error msg d)))
      in
      if old_tag = 0 \<or> old_tag = new_tag then Some (True, it, d)
      else
        (case pb_field_iter_find it old_tag of
           None \<Rightarrow> None
         | Some (False, it1) \<Rightarrow> fail it1 ''invalid union tag'' d
         | Some (True, it1) \<Rightarrow>
             (case d_release (pb_release_single_field env n it1) d of
                None \<Rightarrow> None
              | Some d1 \<Rightarrow>
                  (case pb_field_iter_find it1 new_tag of
                     None \<Rightarrow> None
                   | Some (False, it2) \<Rightarrow> fail it2 ''iterator error'' d1
                   | Some (True, it2) \<Rightarrow>
                       Some (True, it2,
                         if pb_atype (ftype (it_field it2)) = PB_ATYPE_POINTER
                         then wr (it_pData it2) (le_bytes 8 (0 :: u64)) d1 else d1)))))"

definition decode_field ::
  "('s, 'h) pd_env \<Rightarrow> nat \<Rightarrow> (u64 \<Rightarrow> u64 \<Rightarrow> ('s, 'h) dec) \<Rightarrow> u32 \<Rightarrow> pb_field_iter \<Rightarrow> size_ref
     \<Rightarrow> ('s, 'h) dstate \<Rightarrow> (bool \<times> pb_field_iter \<times> ('s, 'h) dstate) option" where
  "decode_field env n noinit wire_type it sr d =
     (case (if pb_htype (ftype (it_field it)) = PB_HTYPE_ONEOF then pb_release_union_field env n it d
            else Some (True, it, d)) of
        None \<Rightarrow> None
      | Some (False, it1, d1) \<Rightarrow> Some (False, it1, d1)
      | Some (True, it1, d1) \<Rightarrow>
          (let at = pb_atype (ftype (it_field it1));
               sr1 = (if pb_htype (ftype (it_field it)) = PB_HTYPE_ONEOF then SizeAt (it_pSize it1) else sr)
           in map_option (\<lambda>(ok, d2). (ok, it1, d2))
                ((if at = PB_ATYPE_STATIC then decode_static_field env n noinit wire_type it1 sr1
                  else if at = PB_ATYPE_POINTER then decode_pointer_field env n noinit wire_type it1 sr1
                  else if at = PB_ATYPE_CALLBACK then decode_callback_field env n wire_type it1
                  else dec_error ''invalid field type'') d1)))"

definition default_extension_decoder ::
  "('s, 'h) pd_env \<Rightarrow> nat \<Rightarrow> (u64 \<Rightarrow> u64 \<Rightarrow> ('s, 'h) dec) \<Rightarrow> u64 \<Rightarrow> u32 \<Rightarrow> u32 \<Rightarrow> ('s, 'h) dec" where
  "default_extension_decoder env n noinit e t wire_type d =
     (let field = field_at (pe_fields env (rd_u64 (d_mem d) (ext_type (d_mem d) e + 16))) 0 in
      if tag field \<noteq> t then Some (True, d)
      else
        (let it = ext_iter (pe_fields env) (d_mem d) e in
         map_option (\<lambda>(ok, _, d'). (ok, d'))
           (decode_field env n noinit wire_type it (SizeAt (it_pSize it)) (wr (e + 24) [1] d))))"

text \<open>The loop over the list of extensions, until one of them has read something.\<close>

fun extension_loop ::
  "('s, 'h) pd_env \<Rightarrow> nat \<Rightarrow> (u64 \<Rightarrow> u64 \<Rightarrow> ('s, 'h) dec) \<Rightarrow> u32 \<Rightarrow> u32 \<Rightarrow> u64 \<Rightarrow> nat \<Rightarrow> u64 \<Rightarrow> ('s, 'h) dec" where
  "extension_loop env n noinit t wire_type pos 0 e d =
     (if e \<noteq> 0 \<and> pos = is_bytes_left (d_in d) then None else Some (True, d))"
| "extension_loop env n noinit t wire_type pos (Suc k) e d =
     (if e \<noteq> 0 \<and> pos = is_bytes_left (d_in d) then
        dec_then
          (\<lambda>d. let fn = rd_u64 (d_mem d) (ext_type (d_mem d) e) in
               if fn \<noteq> 0 then Some (run_callback (pe_ext_decode env fn e t wire_type) d)
               else default_extension_decoder env n noinit e t wire_type d)
          (\<lambda>d. extension_loop env n noinit t wire_type pos k (ext_next (d_mem d) e) d) d
      else Some (True, d))"

definition decode_extension ::
  "('s, 'h) pd_env \<Rightarrow> nat \<Rightarrow> (u64 \<Rightarrow> u64 \<Rightarrow> ('s, 'h) dec) \<Rightarrow> u32 \<Rightarrow> u32 \<Rightarrow> pb_field_iter \<Rightarrow> ('s, 'h) dec" where
  "decode_extension env n noinit t wire_type it d =
     extension_loop env n noinit t wire_type (is_bytes_left (d_in d)) n (rd_u64 (d_mem d) (it_pData it)) d"

text \<open>\<open>find_extension_field\<close>, bounded like \<open>iter_find_loop\<close>.\<close>

fun find_extension_loop :: "nat \<Rightarrow> nat \<Rightarrow> pb_field_iter \<Rightarrow> (bool \<times> pb_field_iter) option" where
  "find_extension_loop 0 start it = None"
| "find_extension_loop (Suc n) start it =
     (if pb_ltype (ftype (it_field it)) = PB_LTYPE_EXTENSION then Some (True, it)
      else (let it' = snd (pb_field_iter_next it) in
            if it_pos it' = start then Some (False, it') else find_extension_loop n start it'))"

definition find_extension_field :: "pb_field_iter \<Rightarrow> (bool \<times> pb_field_iter) option" where
  "find_extension_field it = find_extension_loop (length (it_start it)) (it_pos it) it"

section \<open>Messages\<close>

text \<open>
  The locals of \<open>pb_decode_noinit\<close>: \<open>l_local\<close> says that \<open>iter.pSize\<close> points to
  \<open>fixed_count_size\<close>, \<open>l_fixed\<close> is \<open>fixed_count_field\<close>, and \<open>l_seen\<close> the two words of
  \<open>fields_seen\<close> (\<open>PB_MAX_REQUIRED_FIELDS\<close> is 64).
\<close>

record locals =
  l_it :: pb_field_iter
  l_local :: bool
  l_seen :: "u32 list"
  l_ext_start :: u32
  l_fixed :: "nat option"

abbreviation (input) "PB_MAX_REQUIRED_FIELDS \<equiv> 64 :: u32"

text \<open>The size test of a fixed count field, done when another one starts and at the end.\<close>

definition fixed_complete :: "pb_field list \<Rightarrow> nat option \<Rightarrow> u32 \<Rightarrow> bool" where
  "fixed_complete fs fixed count = (case fixed of None \<Rightarrow> True | Some i \<Rightarrow> count = array_size (field_at fs i))"

definition mark_seen :: "pb_field_iter \<Rightarrow> u32 list \<Rightarrow> u32 list" where
  "mark_seen it seen =
     (let i = it_required_field_index it in
      if pb_htype (ftype (it_field it)) = PB_HTYPE_REQUIRED \<and> i < PB_MAX_REQUIRED_FIELDS
      then seen[unat (drop_bit 5 i) := seen ! unat (drop_bit 5 i) OR push_bit (unat (i AND 31)) 1]
      else seen)"

text \<open>A tag that no field has: an extension, or data to be skipped.\<close>

definition decode_unknown ::
  "('s, 'h) pd_env \<Rightarrow> nat \<Rightarrow> (u64 \<Rightarrow> u64 \<Rightarrow> ('s, 'h) dec) \<Rightarrow> u32 \<Rightarrow> u32 \<Rightarrow> locals \<Rightarrow> ('s, 'h) dstate
     \<Rightarrow> (bool \<times> locals \<times> ('s, 'h) dstate) option" where
  "decode_unknown env n noinit t wire_type l d =
     (let skip = (\<lambda>l d. case pb_skip_field wire_type (d_in d) of (ok, s) \<Rightarrow> Some (ok, l, d\<lparr>d_in := s\<rparr>)) in
      if t \<ge> l_ext_start l then
        (case find_extension_field (l_it l) of
           None \<Rightarrow> None
         | Some (found, it1) \<Rightarrow>
             (let start = (if found then tag (it_field it1) else 0xFFFFFFFF);
                  l1 = l\<lparr>l_it := it1, l_local := False, l_ext_start := start\<rparr>
              in if t \<ge> start then
                   (case decode_extension env n noinit t wire_type it1 d of
                      None \<Rightarrow> None
                    | Some (False, d1) \<Rightarrow> Some (False, l1, d1)
                    | Some (True, d1) \<Rightarrow>
                        if is_bytes_left (d_in d) \<noteq> is_bytes_left (d_in d1) then Some (True, l1, d1)
                        else skip l1 d1)
                 else skip l1 d))
      else skip l d)"

text \<open>A tag that the field at \<open>it\<close> has.\<close>

definition decode_known ::
  "('s, 'h) pd_env \<Rightarrow> nat \<Rightarrow> (u64 \<Rightarrow> u64 \<Rightarrow> ('s, 'h) dec) \<Rightarrow> u32 \<Rightarrow> locals \<Rightarrow> ('s, 'h) dstate
     \<Rightarrow> (bool \<times> locals \<times> ('s, 'h) dstate) option" where
  "decode_known env n noinit wire_type l d =
     (let it = l_it l;
          fixed_array = (pb_htype (ftype (it_field it)) = PB_HTYPE_REPEATED \<and> \<not> l_local l \<and> it_pSize it = it_pData it);
          switch = (fixed_array \<and> l_fixed l \<noteq> Some (it_pos it))
      in
      if switch \<and> \<not> fixed_complete (it_start it) (l_fixed l) (d_fixed d)
        then (case d_error ''wrong size for fixed count field'' d of (ok, d') \<Rightarrow> Some (ok, l, d'))
      else
        (let l1 = (if switch then l\<lparr>l_fixed := Some (it_pos it)\<rparr> else l);
             d1 = (if switch then d\<lparr>d_fixed := 0\<rparr> else d);
             l2 = l1\<lparr>l_local := (l_local l \<or> fixed_array), l_seen := mark_seen it (l_seen l1)\<rparr>
         in map_option (\<lambda>(ok, it', d2).
              (ok, l2\<lparr>l_it := it', l_local := (l_local l2 \<and> pb_htype (ftype (it_field it)) \<noteq> PB_HTYPE_ONEOF)\<rparr>, d2))
              (decode_field env n noinit wire_type it
                 (if l_local l2 then SizeLocal else SizeAt (it_pSize it)) d1)))"

text \<open>
  The loop \<open>while (stream->bytes_left)\<close>. Every iteration reads at least a byte of tag, so it
  runs at most \<open>bytes_left\<close> times unless a callback gives bytes back.
\<close>

fun noinit_loop ::
  "('s, 'h) pd_env \<Rightarrow> nat \<Rightarrow> (u64 \<Rightarrow> u64 \<Rightarrow> ('s, 'h) dec) \<Rightarrow> nat \<Rightarrow> locals \<Rightarrow> ('s, 'h) dstate
     \<Rightarrow> (bool \<times> locals \<times> ('s, 'h) dstate) option" where
  "noinit_loop env n noinit k l d =
     (if is_bytes_left (d_in d) = 0 then Some (True, l, d)
      else (case k of
        0 \<Rightarrow> None
      | Suc k' \<Rightarrow>
          (case pb_decode_tag (d_in d) of
             ((None, eof), s) \<Rightarrow> Some (eof, l, d\<lparr>d_in := s\<rparr>)
           | ((Some (wire_type, t), _), s) \<Rightarrow>
               (let d1 = d\<lparr>d_in := s\<rparr> in
                case pb_field_iter_find (l_it l) t of
                  None \<Rightarrow> None
                | Some (found, it1) \<Rightarrow>
                    (let immediate = (tag (it_field (l_it l)) = t
                           \<and> pb_ltype (ftype (it_field (l_it l))) \<noteq> PB_LTYPE_EXTENSION);
                         l1 = l\<lparr>l_it := it1, l_local := (l_local l \<and> immediate)\<rparr>
                     in case (if found then decode_known env n noinit wire_type l1 d1
                              else decode_unknown env n noinit t wire_type l1 d1) of
                          None \<Rightarrow> None
                        | Some (False, l2, d2) \<Rightarrow> Some (False, l2, d2)
                        | Some (True, l2, d2) \<Rightarrow> noinit_loop env n noinit k' l2 d2)))))"

declare noinit_loop.simps [simp del]

text \<open>The number of required fields of the message, as the end of \<open>pb_decode_noinit\<close> finds it.\<close>

definition required_count :: "pb_field_iter \<Rightarrow> u32" where
  "required_count it =
     (let last_it = last (iter_run it);
          count = it_required_field_index last_it;
          count = (if pb_htype (ftype (it_field last_it)) = PB_HTYPE_REQUIRED
                     \<and> tag (it_field (snd (pb_field_iter_next last_it))) \<noteq> 0 then count + 1 else count)
      in if count > PB_MAX_REQUIRED_FIELDS then PB_MAX_REQUIRED_FIELDS else count)"

definition all_seen :: "u32 list \<Rightarrow> u32 \<Rightarrow> bool" where
  "all_seen seen count =
     (list_all (\<lambda>i. seen ! i = 0xFFFFFFFF) [0..<unat (drop_bit 5 count)]
      \<and> (count AND 31 \<noteq> 0 \<longrightarrow>
           seen ! unat (drop_bit 5 count) = drop_bit (unat (32 - (count AND 31))) 0xFFFFFFFF))"

definition finish_message :: "locals \<Rightarrow> ('s, 'h) dstate \<Rightarrow> bool \<times> ('s, 'h) dstate" where
  "finish_message l d =
     (if \<not> fixed_complete (it_start (l_it l)) (l_fixed l) (d_fixed d)
        then d_error ''wrong size for fixed count field'' d
      else if \<not> all_seen (l_seen l) (required_count (l_it l))
        then d_error ''missing required field'' d
      else (True, d))"

definition locals_init :: "pb_field list \<Rightarrow> u64 \<Rightarrow> locals" where
  "locals_init fs dest =
     \<lparr>l_it = snd (pb_field_iter_begin fs dest), l_local = False, l_seen = [0, 0], l_ext_start = 0, l_fixed = None\<rparr>"

text \<open>The caller's \<open>fixed_count_size\<close> is untouched.\<close>

fun pb_decode_noinit :: "('s, 'h) pd_env \<Rightarrow> nat \<Rightarrow> u64 \<Rightarrow> u64 \<Rightarrow> ('s, 'h) dec" where
  "pb_decode_noinit env 0 p dest d = None"
| "pb_decode_noinit env (Suc n) p dest d =
     (case noinit_loop env n (pb_decode_noinit env n) (unat (is_bytes_left (d_in d)))
             (locals_init (pe_fields env p) dest) (d\<lparr>d_fixed := 0\<rparr>) of
        None \<Rightarrow> None
      | Some (ok, l, d1) \<Rightarrow>
          (case (if ok then finish_message l d1 else (False, d1)) of
             (ok2, d2) \<Rightarrow> Some (ok2, d2\<lparr>d_fixed := d_fixed d\<rparr>)))"

definition pb_decode :: "('s, 'h) pd_env \<Rightarrow> nat \<Rightarrow> u64 \<Rightarrow> u64 \<Rightarrow> ('s, 'h) dec" where
  "pb_decode env n = decode_with env n (pb_decode_noinit env n)"

text \<open>A length and a message of that length.\<close>

definition delimited :: "('s, 'h) dec \<Rightarrow> ('s, 'h) dec" where
  "delimited f d =
     (case pb_make_string_substream (d_in d) of
        (None, s) \<Rightarrow> Some (False, d\<lparr>d_in := s\<rparr>)
      | (Some sub, s) \<Rightarrow>
          (case f (d\<lparr>d_in := sub\<rparr>) of
             None \<Rightarrow> None
           | Some (status, d1) \<Rightarrow> (case d_close s d1 of (ok, d2) \<Rightarrow> Some (ok \<and> status, d2))))"

definition pb_decode_delimited_noinit :: "('s, 'h) pd_env \<Rightarrow> nat \<Rightarrow> u64 \<Rightarrow> u64 \<Rightarrow> ('s, 'h) dec" where
  "pb_decode_delimited_noinit env n p dest = delimited (pb_decode_noinit env n p dest)"

definition pb_decode_delimited :: "('s, 'h) pd_env \<Rightarrow> nat \<Rightarrow> u64 \<Rightarrow> u64 \<Rightarrow> ('s, 'h) dec" where
  "pb_decode_delimited env n p dest = delimited (pb_decode env n p dest)"

definition pb_decode_nullterminated :: "('s, 'h) pd_env \<Rightarrow> nat \<Rightarrow> u64 \<Rightarrow> u64 \<Rightarrow> ('s, 'h) dec" where
  "pb_decode_nullterminated env n p dest = pb_decode env n p dest"

end
