(* ===== verification/PbDecodeSafe.thy ===== *)
theory PbDecodeSafe
  imports PbDecode
begin

text \<open>
  The decoder on message types without pointer, callback and extension fields, whatever the
  input: it returns, and it writes nowhere but into the message struct.

  \<open>static_layout\<close> says that the fields of a descriptor lie inside the struct; \<open>safe_dec A f\<close>
  is the total contract of a decoding step: it has a result, it only consumes input, and it
  writes only inside \<open>A\<close>. The contract is closed under the compositions of the decoder.
\<close>

section \<open>Regions\<close>

definition region :: "u64 \<Rightarrow> nat \<Rightarrow> u64 set" where
  "region p n = {q. mem_off p q < n}"

lemma region_mono: "n \<le> k \<Longrightarrow> region p n \<subseteq> region p k"
  by (auto simp: region_def)

lemma region_sub:
  assumes "unat off + k \<le> n"
  shows "region (p + off) k \<subseteq> region p n"
proof
  fix q
  assume "q \<in> region (p + off) k"
  then have "unat (q - (p + off)) < k" by (simp add: region_def)
  moreover have "unat (q - p) \<le> unat (q - (p + off)) + unat off"
  proof -
    have "q - p = (q - (p + off)) + off" by simp
    moreover have "unat (a + b) \<le> unat a + unat b" for a b :: u64
      by (simp add: unat_plus_if')
    ultimately show ?thesis by metis
  qed
  ultimately show "q \<in> region p n" using assms by (simp add: region_def)
qed

lemma mem_write_region:
  assumes "length bs \<le> n" "q \<notin> region p n"
  shows "mem_write m p bs q = m q"
proof -
  have "mem_off p q < 2 ^ 64" using unsigned_less [of "q - p", where 'a = nat] by simp
  with assms have "\<not> mem_off p q < length bs" "length bs \<le> 2 ^ 64" by (auto simp: region_def)
  then show ?thesis by (simp add: mem_write_apply)
qed

section \<open>What readers do to the stream\<close>

definition later :: "'s pb_istream \<Rightarrow> 's pb_istream \<Rightarrow> bool" where
  "later s s' \<longleftrightarrow> is_callback s' = is_callback s \<and> is_bytes_left s' \<le> is_bytes_left s"

lemma later_refl [simp]: "later s s" by (simp add: later_def)

lemma later_trans [trans]: "later s t \<Longrightarrow> later t u \<Longrightarrow> later s u"
  by (auto simp: later_def)

lemma later_error [simp]: "later s (is_error msg t) \<longleftrightarrow> later s t" "is_bytes_left (is_error msg t) = is_bytes_left t"
  "is_callback (is_error msg t) = is_callback t"
  by (auto simp: later_def is_error_def)

text \<open>A reader only consumes, and strictly so when it delivers a value.\<close>

definition reads :: "('s pb_istream \<Rightarrow> 'v option \<times> 's pb_istream) \<Rightarrow> bool" where
  "reads r \<longleftrightarrow> (\<forall>s v s'. r s = (v, s') \<longrightarrow> later s s' \<and> (v \<noteq> None \<longrightarrow> is_bytes_left s' < is_bytes_left s))"

lemma readsE:
  assumes "reads r" "r s = (v, s')"
  shows "later s s'" "v \<noteq> None \<Longrightarrow> is_bytes_left s' < is_bytes_left s"
  using assms by (auto simp: reads_def)

lemma sub_le_self: "n \<le> w \<Longrightarrow> w - n \<le> w" for n w :: u64
  by (rule word_sub_le)

lemma pb_read_later: "pb_read s n = (v, s') \<Longrightarrow> later s s'"
  by (auto simp: pb_read_def pb_read_checked_def later_def not_less sub_le_self split: if_splits prod.splits)

lemma minus_less: "0 < n \<Longrightarrow> n \<le> w \<Longrightarrow> w - n < w" for n w :: u64
  by (simp add: word_less_nat_alt word_le_nat_alt unat_sub)

lemma pb_read_reads: "n \<noteq> 0 \<Longrightarrow> reads (\<lambda>s. pb_read s n)"
  by (auto simp: reads_def pb_read_def pb_read_checked_def later_def not_less sub_le_self minus_less word_neq_0_conv
      split: if_splits prod.splits)

lemma pb_readbyte_reads: "reads pb_readbyte"
proof -
  have "w \<noteq> 0 \<Longrightarrow> w - 1 < w" "w \<noteq> 0 \<Longrightarrow> w - 1 \<le> w" for w :: u64
    using minus_less [of 1 w] by (simp_all add: word_le_nat_alt word_less_nat_alt unat_gt_0 Suc_le_eq)
  then show ?thesis
    by (auto simp: reads_def pb_readbyte_def later_def split: if_splits prod.splits)
qed

lemma varint32_loop_later: "varint32_loop s b r = (v, s') \<Longrightarrow> later s s'"
proof (induction s b r rule: varint32_loop.induct)
  case (1 s b r)
  obtain o1 s1 where r1: "pb_readbyte s = (o1, s1)" by fastforce
  have l1: "later s s1" using readsE [OF pb_readbyte_reads r1] by simp
  show ?case
  proof (cases o1)
    case None
    with "1.prems" r1 l1 show ?thesis by (simp add: varint32_loop.simps [of s])
  next
    case (Some byte)
    from "1.prems" l1 show ?thesis
      unfolding varint32_loop.simps [of s] r1 Some
      by (auto simp: Let_def split: if_splits
          intro: later_trans [OF l1 "1.IH" [OF r1 [unfolded Some, symmetric] refl refl _ refl refl]])
  qed
qed

lemma pb_decode_varint32_eof_reads:
  assumes "pb_decode_varint32_eof s = ((v, eof), s')"
  shows "later s s'" "v \<noteq> None \<Longrightarrow> is_bytes_left s' < is_bytes_left s"
proof -
  obtain o1 s1 where r1: "pb_readbyte s = (o1, s1)" by fastforce
  note l1 = readsE [OF pb_readbyte_reads r1]
  have "later s s' \<and> (v \<noteq> None \<longrightarrow> is_bytes_left s' < is_bytes_left s)"
  proof (cases o1)
    case None
    with assms r1 l1 show ?thesis by (simp add: pb_decode_varint32_eof_def)
  next
    case (Some byte)
    with assms r1 l1 show ?thesis
      by (auto simp: pb_decode_varint32_eof_def later_def dest!: varint32_loop_later split: if_splits prod.splits)
  qed
  then show "later s s'" "v \<noteq> None \<Longrightarrow> is_bytes_left s' < is_bytes_left s" by auto
qed

lemma pb_decode_varint32_reads: "reads pb_decode_varint32"
  by (auto simp: reads_def pb_decode_varint32_def split: prod.splits dest: pb_decode_varint32_eof_reads)

lemma varint_dec_loop_later:
  "varint_dec_loop s b r = (v, s') \<Longrightarrow> later s s' \<and> (v \<noteq> None \<longrightarrow> is_bytes_left s' < is_bytes_left s)"
proof (induction s b r rule: varint_dec_loop.induct)
  case (1 s b r)
  show ?case
  proof (cases "64 \<le> b")
    case True
    with "1.prems" show ?thesis by (auto simp: varint_dec_loop.simps [of s])
  next
    case False
    obtain o1 s1 where r1: "pb_readbyte s = (o1, s1)" by fastforce
    note l1 = readsE [OF pb_readbyte_reads r1]
    show ?thesis
    proof (cases o1)
      case None
      with "1.prems" r1 l1 False show ?thesis by (simp add: varint_dec_loop.simps [of s])
    next
      case (Some byte)
      let ?r = "r OR push_bit b (ucast (byte AND 0x7F))"
      show ?thesis
      proof (cases "byte AND 0x80 \<noteq> 0")
        case True
        have "varint_dec_loop s1 (b + 7) ?r = (v, s')"
          using "1.prems" False True Some r1 by (simp add: varint_dec_loop.simps [of s])
        with "1.IH" [OF False r1 [unfolded Some, symmetric] refl refl True] l1 Some
        show ?thesis by (auto simp: later_def intro: order.strict_trans1)
      qed (use "1.prems" False Some r1 l1 in \<open>simp add: varint_dec_loop.simps [of s]\<close>)
    qed
  qed
qed

lemma pb_decode_varint_reads: "reads pb_decode_varint"
  unfolding reads_def pb_decode_varint_def using varint_dec_loop_later by blast

lemma reads_map:
  assumes "reads r" "\<And>s. d s = (case r s of (None, s') \<Rightarrow> (None, s') | (Some x, s') \<Rightarrow> (Some (g x), s'))"
  shows "reads d"
  unfolding reads_def
proof (intro allI impI)
  fix s v s'
  assume "d s = (v, s')"
  then obtain o1 where "r s = (o1, s')" "v = map_option g o1"
    by (auto simp: assms(2) split: prod.splits option.splits)
  with readsE [OF assms(1) this(1)] show "later s s' \<and> (v \<noteq> None \<longrightarrow> is_bytes_left s' < is_bytes_left s)" by auto
qed

lemma pb_decode_svarint_reads: "reads pb_decode_svarint"
  by (rule reads_map [OF pb_decode_varint_reads]) (simp add: pb_decode_svarint_def)

lemma pb_decode_fixed32_reads: "reads pb_decode_fixed32"
  by (rule reads_map [OF pb_read_reads [of 4]]) (simp_all add: pb_decode_fixed32_def)

lemma pb_decode_fixed64_reads: "reads pb_decode_fixed64"
  by (rule reads_map [OF pb_read_reads [of 8]]) (simp_all add: pb_decode_fixed64_def)

lemma pb_skip_varint_later: "pb_skip_varint s = (ok, s') \<Longrightarrow> later s s'"
proof (induction s rule: pb_skip_varint.induct)
  case (1 s)
  obtain o1 s1 where r1: "pb_read s 1 = (o1, s1)" by fastforce
  note l1 = pb_read_later [OF r1]
  from "1.prems" show ?case
    using l1 by (auto simp: pb_skip_varint.simps [of s] r1 split: option.splits if_splits
        intro: later_trans [OF l1 "1.IH" [OF r1 [symmetric]]])
qed

lemma pb_skip_loop_later: "pb_skip_loop s n = (v, s') \<Longrightarrow> later s s'"
proof (induction s n rule: pb_skip_loop.induct)
  case (1 s n)
  show ?case
  proof (cases "16 < n")
    case False
    with "1.prems" show ?thesis by (simp add: pb_skip_loop.simps [of s] pb_read_later)
  next
    case True
    obtain o1 s1 where r1: "pb_read s 16 = (o1, s1)" by fastforce
    note l1 = pb_read_later [OF r1]
    from "1.prems" True show ?thesis
      using l1 by (auto simp: pb_skip_loop.simps [of s] r1 split: option.splits
          intro: later_trans [OF l1 "1.IH" [OF True r1 [symmetric]]])
  qed
qed

lemma pb_read_null_later: "pb_read_null s n = (v, s') \<Longrightarrow> later s s'"
  using pb_read_later [of s n v s'] pb_skip_loop_later [of s n v s']
  by (auto simp: pb_read_null_def pb_read_def split: if_splits)

lemma pb_skip_field_later: "pb_skip_field w s = (ok, s') \<Longrightarrow> later s s'"
proof -
  have "pb_skip_string s = (ok, s') \<Longrightarrow> later s s'"
    by (auto simp: pb_skip_string_def split: prod.splits option.splits
        dest!: pb_read_null_later readsE(1) [OF pb_decode_varint32_reads] intro: later_trans)
  moreover assume "pb_skip_field w s = (ok, s')"
  ultimately show ?thesis
    by (auto simp: pb_skip_field_def split: if_splits prod.splits
        dest: pb_read_null_later pb_skip_varint_later)
qed

lemma pb_decode_tag_later:
  "pb_decode_tag s = ((v, eof), s') \<Longrightarrow> later s s' \<and> (v \<noteq> None \<longrightarrow> is_bytes_left s' < is_bytes_left s)"
  by (auto simp: pb_decode_tag_def split: prod.splits option.splits if_splits
      dest: pb_decode_varint32_eof_reads)

text \<open>A substream takes its bytes from the parent, which has read the length.\<close>

lemma make_substream_later:
  assumes "pb_make_string_substream s = (sub, s')"
  shows "later s s'" "sub = Some t \<Longrightarrow> later s t \<and> is_bytes_left t < is_bytes_left s \<and> is_bytes_left s' < is_bytes_left s"
proof -
  obtain o1 s1 where r1: "pb_decode_varint32 s = (o1, s1)" by fastforce
  note l1 = readsE [OF pb_decode_varint32_reads r1]
  have "later s s' \<and> (sub = Some t \<longrightarrow> later s t \<and> is_bytes_left t < is_bytes_left s \<and> is_bytes_left s' < is_bytes_left s)" for t
    using assms r1 l1
    by (auto simp: pb_make_string_substream_def later_def word_less_nat_alt word_le_nat_alt not_less unat_sub
        split: option.splits if_splits)
  then show "later s s'" "sub = Some t \<Longrightarrow> later s t \<and> is_bytes_left t < is_bytes_left s \<and> is_bytes_left s' < is_bytes_left s"
    by blast+
qed

lemma close_substream_later: "pb_close_string_substream s sub = (ok, s') \<Longrightarrow> later s s' \<and> is_bytes_left s' = is_bytes_left s"
  by (auto simp: pb_close_string_substream_def later_def split: if_splits prod.splits option.splits)

section \<open>The contract of a decoding step\<close>

definition exact :: "('s \<Rightarrow> u64 \<Rightarrow> bool \<times> bytes \<times> 's) \<Rightarrow> bool" where
  "exact cb \<longleftrightarrow> (\<forall>st n bs st'. cb st n = (True, bs, st') \<longrightarrow> length bs = unat n)"

lemma exact_buf_read: "exact buf_read"
  by (auto simp: exact_def buf_read_def)

abbreviation left :: "('s, 'h) dstate \<Rightarrow> u64" where
  "left d \<equiv> is_bytes_left (d_in d)"

abbreviation delivers :: "('s, 'h) dstate \<Rightarrow> bool" where
  "delivers d \<equiv> exact (is_callback (d_in d))"

definition kept :: "u64 set \<Rightarrow> ('s, 'h) dstate \<Rightarrow> ('s, 'h) dstate \<Rightarrow> bool" where
  "kept A d d' \<longleftrightarrow> later (d_in d) (d_in d') \<and> d_heap d' = d_heap d \<and> (\<forall>q. q \<notin> A \<longrightarrow> d_mem d' q = d_mem d q)"

lemma kept_refl [simp]: "kept A d d" by (simp add: kept_def)

lemma kept_trans [trans]: "kept A d e \<Longrightarrow> kept A e f \<Longrightarrow> kept A d f"
  by (auto simp: kept_def intro: later_trans)

lemma kept_mono: "kept A d d' \<Longrightarrow> A \<subseteq> B \<Longrightarrow> kept B d d'"
  by (auto simp: kept_def)

lemma kept_delivers: "kept A d d' \<Longrightarrow> delivers d' \<longleftrightarrow> delivers d"
  by (simp add: kept_def later_def)

lemma kept_left: "kept A d d' \<Longrightarrow> left d' \<le> left d"
  by (simp add: kept_def later_def)

lemma kept_wr: "region p (length bs) \<subseteq> A \<Longrightarrow> kept A d (wr p bs d)"
  using mem_write_region [of bs "length bs"] by (auto simp: kept_def wr_def)

lemma kept_error: "d_error msg d = (ok, d') \<Longrightarrow> kept A d d'"
  by (auto simp: d_error_def kept_def)

lemma kept_fixed [simp]: "kept A d (d'\<lparr>d_fixed := v\<rparr>) \<longleftrightarrow> kept A d d'" "kept A (d\<lparr>d_fixed := v\<rparr>) d' \<longleftrightarrow> kept A d d'"
  by (auto simp: kept_def)

lemma kept_stream: "later (d_in d) s \<Longrightarrow> kept A d (d\<lparr>d_in := s\<rparr>)"
  by (simp add: kept_def)

definition safe_step :: "u64 set \<Rightarrow> (('s, 'h) dstate \<Rightarrow> bool \<times> ('s, 'h) dstate) \<Rightarrow> bool" where
  "safe_step A f \<longleftrightarrow> (\<forall>d ok d'. delivers d \<and> f d = (ok, d') \<longrightarrow> kept A d d')"

definition safe_dec :: "u64 set \<Rightarrow> ('s, 'h) dec \<Rightarrow> bool" where
  "safe_dec A f \<longleftrightarrow> (\<forall>d. delivers d \<longrightarrow> (\<exists>ok d'. f d = Some (ok, d') \<and> kept A d d'))"

lemma safe_decE:
  assumes "safe_dec A f" "delivers d"
  obtains ok d' where "f d = Some (ok, d')" "kept A d d'" "delivers d'"
  using assms kept_delivers unfolding safe_dec_def by blast

lemma safe_lift: "safe_step A f \<Longrightarrow> safe_dec A (dec_lift f)"
  unfolding safe_dec_def safe_step_def dec_lift_def by (metis surj_pair)

lemma safe_mono: "safe_dec A f \<Longrightarrow> A \<subseteq> B \<Longrightarrow> safe_dec B f"
  unfolding safe_dec_def using kept_mono by metis

lemma safe_error: "safe_step A (d_error msg)"
  unfolding safe_step_def using kept_error by blast

text \<open>Reading a value and storing it.\<close>

lemma safe_read:
  assumes r: "\<And>s v s'. r s = (v, s') \<Longrightarrow> later s s'" and f: "\<And>v. safe_step A (f v)"
  shows "safe_step A (d_read r f)"
  unfolding safe_step_def
proof (intro allI impI, elim conjE)
  fix d ok d'
  assume ex: "delivers d" and e: "d_read r f d = (ok, d')"
  obtain v s where rs: "r (d_in d) = (v, s)" by fastforce
  have k: "kept A d (d\<lparr>d_in := s\<rparr>)" using r [OF rs] by (rule kept_stream)
  show "kept A d d'"
  proof (cases v)
    case None
    with e rs k show ?thesis by (simp add: d_read_def)
  next
    case (Some x)
    with e rs have "f x (d\<lparr>d_in := s\<rparr>) = (ok, d')" by (simp add: d_read_def)
    with f [of x] ex k kept_delivers [OF k] have "kept A (d\<lparr>d_in := s\<rparr>) d'" unfolding safe_step_def by blast
    with k show ?thesis by (rule kept_trans)
  qed
qed

lemma safe_read_wr:
  assumes "reads r" "\<And>v. region p (length (g v)) \<subseteq> A"
  shows "safe_step A (d_read r (\<lambda>v d. (True, wr p (g v) d)))"
  using assms by (intro safe_read) (auto simp: safe_step_def kept_wr dest: readsE)

text \<open>Reading bytes: the callback delivers as many as asked for.\<close>

lemma safe_read_bytes:
  assumes "region p (unat n) \<subseteq> A"
  shows "safe_step A (d_read (\<lambda>s. pb_read s n) (\<lambda>bs d. (True, wr p bs d)))"
  unfolding safe_step_def
proof (intro allI impI, elim conjE)
  fix d ok d'
  assume ex: "delivers d" and e: "d_read (\<lambda>s. pb_read s n) (\<lambda>bs d. (True, wr p bs d)) d = (ok, d')"
  obtain v s where rs: "pb_read (d_in d) n = (v, s)" by fastforce
  have k: "kept A d (d\<lparr>d_in := s\<rparr>)" using pb_read_later [OF rs] by (rule kept_stream)
  have len: "length bs = unat n" if "v = Some bs" for bs
    using rs that ex by (auto simp: pb_read_def pb_read_checked_def exact_def split: if_splits prod.splits)
  show "kept A d d'"
  proof (cases v)
    case None
    with e rs k show ?thesis by (simp add: d_read_def)
  next
    case (Some bs)
    with e rs have "d' = wr p bs (d\<lparr>d_in := s\<rparr>)" by (simp add: d_read_def)
    moreover have "region p (length bs) \<subseteq> A" using len [OF Some] assms by simp
    ultimately show ?thesis using kept_trans [OF k kept_wr] by metis
  qed
qed

end
