(* ===== verification/PbDecodeStatic.thy ===== *)
theory PbDecodeStatic
  imports PbDecodeSafe
begin

text \<open>
  Message types whose fields are all static: no pointers, callbacks or extensions.
  \<open>static_layout\<close> says that every field of the descriptor at an address, with its size field,
  lies inside the struct; nested messages are bounded by its depth. On such a type
  \<open>pb_decode\<close> returns for every input, and writes nowhere but into the message struct.
\<close>

section \<open>Layouts\<close>

text \<open>The bytes a decoder writes for an item.\<close>

definition item_room :: "pb_field \<Rightarrow> nat" where
  "item_room f =
     (if pb_ltype (ftype f) = PB_LTYPE_BOOL then 1
      else if pb_ltype (ftype f) = PB_LTYPE_FIXED32 then 4
      else if pb_ltype (ftype f) = PB_LTYPE_FIXED64 then 8
      else unat (data_size f))"

definition field_fits :: "pb_field list \<Rightarrow> nat \<Rightarrow> nat \<Rightarrow> bool" where
  "field_fits fs sz i =
     (let f = field_at fs i; ht = pb_htype (ftype f); a = field_addr fs 0 i; s = size_addr fs 0 i in
      pb_atype (ftype f) = PB_ATYPE_STATIC
      \<and> pb_ltype (ftype f) \<le> PB_LTYPE_FIXED_LENGTH_BYTES \<and> pb_ltype (ftype f) \<noteq> PB_LTYPE_EXTENSION
      \<and> (ht \<noteq> PB_HTYPE_REPEATED \<longrightarrow> unat a + item_room f \<le> sz \<and> unat a + unat (data_size f) \<le> sz)
      \<and> (ht = PB_HTYPE_REPEATED \<longrightarrow>
           item_room f \<le> unat (data_size f) \<and> unat (data_size f) * unat (array_size f) < 2 ^ 32
           \<and> unat a + unat (data_size f) * unat (array_size f) \<le> sz)
      \<and> (ht = PB_HTYPE_REPEATED \<or> ht = PB_HTYPE_ONEOF \<longrightarrow> unat s + 4 \<le> sz)
      \<and> (ht = PB_HTYPE_OPTIONAL \<and> s \<noteq> a \<longrightarrow> unat s + 1 \<le> sz))"

text \<open>The positions at which an iterator can be; the terminator only in an empty message.\<close>

definition live :: "pb_field list \<Rightarrow> nat \<Rightarrow> bool" where
  "live fs i \<longleftrightarrow> i < length fs \<and> (tag (field_at fs i) = 0 \<longrightarrow> i = 0)"

primrec static_layout :: "(u64 \<Rightarrow> pb_field list) \<Rightarrow> nat \<Rightarrow> u64 \<Rightarrow> nat \<Rightarrow> bool" where
  "static_layout fds 0 p sz = False"
| "static_layout fds (Suc k) p sz =
     (0 < sz \<and> fields_wf (fds p)
      \<and> list_all (\<lambda>i. live (fds p) i \<longrightarrow> field_fits (fds p) sz i
            \<and> (pb_ltype (ftype (field_at (fds p) i)) = PB_LTYPE_SUBMESSAGE \<longrightarrow>
                 fptr (field_at (fds p) i) \<noteq> 0
                 \<and> static_layout fds k (fptr (field_at (fds p) i)) (unat (data_size (field_at (fds p) i)))))
          [0..<length (fds p)])"

lemma static_layoutE:
  assumes "static_layout fds (Suc k) p sz" "live (fds p) i"
  shows "0 < sz" "fields_wf (fds p)" "field_fits (fds p) sz i"
    "pb_ltype (ftype (field_at (fds p) i)) = PB_LTYPE_SUBMESSAGE \<Longrightarrow>
       fptr (field_at (fds p) i) \<noteq> 0
       \<and> static_layout fds k (fptr (field_at (fds p) i)) (unat (data_size (field_at (fds p) i)))"
  using assms by (auto simp: list_all_iff live_def)

lemma iter_inv_live: "iter_inv fs d it \<Longrightarrow> live fs (it_pos it)"
  by (auto simp: iter_inv_def live_def)

text \<open>Addresses inside the struct are relative to it.\<close>

lemma field_addr_shift: "field_addr fs d i = d + field_addr fs 0 i"
  by (induction i) (simp_all add: add.assoc)

lemma size_addr_shift: "size_addr fs d i = d + size_addr fs 0 i"
proof (induction i)
  case 0
  show ?case by (simp add: add.assoc)
next
  case (Suc i)
  then show ?case
    by (simp only: size_addr.simps field_addr_shift [of fs d] split: if_split) (simp add: add.assoc)
qed

text \<open>The struct at \<open>dest\<close>, and one inside it, are not at address 0.\<close>

definition placed :: "u64 \<Rightarrow> nat \<Rightarrow> bool" where
  "placed dest sz \<longleftrightarrow> 0 < sz \<and> 0 \<notin> region dest sz"

lemma placed_dest: "placed dest sz \<Longrightarrow> dest \<noteq> 0"
  by (auto simp: placed_def region_def)

lemma placed_sub: "placed dest sz \<Longrightarrow> region p n \<subseteq> region dest sz \<Longrightarrow> 0 < n \<Longrightarrow> placed p n"
  by (auto simp: placed_def)

text \<open>Where the iterator's pointers lead.\<close>

lemma iter_addr:
  assumes "iter_inv fs dest it" "dest \<noteq> 0"
  shows "it_pData it = dest + field_addr fs 0 (it_pos it)" "it_pSize it = dest + size_addr fs 0 (it_pos it)"
    "it_field it = field_at fs (it_pos it)"
  using assms field_addr_shift [of fs dest "it_pos it"] size_addr_shift [of fs dest "it_pos it"]
  by (simp_all add: iter_inv_def)

lemma unat_wide [simp]: "unat (ucast n :: u64) = unat n" for n :: u32
proof -
  have "unat n < 2 ^ 64" using unsigned_less [of n, where 'a = nat] by simp
  then show ?thesis by (simp add: unsigned_ucast_eq take_bit_nat_eq_self_iff)
qed

lemma elem_region:
  assumes i: "i < array_size f" and sz: "unat (data_size f) * unat (array_size f) < 2 ^ 32"
    "unat off + unat (data_size f) * unat (array_size f) \<le> sz"
  shows "region (elem_addr (dest + off) f i) (unat (data_size f)) \<subseteq> region dest sz"
proof -
  have "Suc (unat i) \<le> unat (array_size f)" using i by (simp add: word_less_nat_alt)
  then have le: "unat (data_size f) * Suc (unat i) \<le> unat (data_size f) * unat (array_size f)"
    by (rule mult_le_mono2)
  then have lt: "unat (data_size f) * unat i < 2 ^ 32" using sz(1) by (simp only: mult_Suc_right)
  then have "unat (data_size f * i) = unat (data_size f) * unat i"
    by (simp add: unat_word_ariths)
  then have item: "unat (ucast (data_size f * i) :: u64) = unat (data_size f) * unat i"
    by simp
  have "unat (off + ucast (data_size f * i)) \<le> unat off + unat (data_size f) * unat i"
    unfolding item [symmetric] by (simp add: unat_plus_if')
  then have "unat (off + ucast (data_size f * i)) + unat (data_size f) \<le> sz"
    using le sz(2) by (simp only: mult_Suc_right)
  then show ?thesis unfolding elem_addr_def add.assoc by (rule region_sub)
qed

lemma iter_regions:
  assumes inv: "iter_inv fs dest it" "dest \<noteq> 0" and fits: "field_fits fs sz (it_pos it)"
  shows "pb_htype (ftype (it_field it)) \<noteq> PB_HTYPE_REPEATED \<Longrightarrow>
           region (it_pData it) (item_room (it_field it)) \<subseteq> region dest sz"
    "pb_htype (ftype (it_field it)) \<noteq> PB_HTYPE_REPEATED \<Longrightarrow>
           region (it_pData it) (unat (data_size (it_field it))) \<subseteq> region dest sz"
    "pb_htype (ftype (it_field it)) = PB_HTYPE_REPEATED \<Longrightarrow> i < array_size (it_field it) \<Longrightarrow>
           region (elem_addr (it_pData it) (it_field it) i) (unat (data_size (it_field it))) \<subseteq> region dest sz"
    "pb_htype (ftype (it_field it)) = PB_HTYPE_REPEATED \<or> pb_htype (ftype (it_field it)) = PB_HTYPE_ONEOF \<Longrightarrow>
           region (it_pSize it) 4 \<subseteq> region dest sz"
    "pb_htype (ftype (it_field it)) = PB_HTYPE_OPTIONAL \<Longrightarrow> it_pSize it \<noteq> it_pData it \<Longrightarrow>
           region (it_pSize it) 1 \<subseteq> region dest sz"
proof -
  note a = iter_addr [OF inv]
  note fit = fits [unfolded field_fits_def Let_def a(3) [symmetric]]
  show "region (it_pData it) (item_room (it_field it)) \<subseteq> region dest sz"
    if "pb_htype (ftype (it_field it)) \<noteq> PB_HTYPE_REPEATED"
    unfolding a(1) by (rule region_sub) (use fit that in blast)
  show "region (it_pData it) (unat (data_size (it_field it))) \<subseteq> region dest sz"
    if "pb_htype (ftype (it_field it)) \<noteq> PB_HTYPE_REPEATED"
    unfolding a(1) by (rule region_sub) (use fit that in blast)
  show "region (it_pSize it) 4 \<subseteq> region dest sz"
    if "pb_htype (ftype (it_field it)) = PB_HTYPE_REPEATED \<or> pb_htype (ftype (it_field it)) = PB_HTYPE_ONEOF"
    unfolding a(2) by (rule region_sub) (use fit that in blast)
  show "region (it_pSize it) 1 \<subseteq> region dest sz"
    if "pb_htype (ftype (it_field it)) = PB_HTYPE_OPTIONAL" "it_pSize it \<noteq> it_pData it"
  proof -
    have "size_addr fs 0 (it_pos it) \<noteq> field_addr fs 0 (it_pos it)" using that(2) unfolding a(1,2) by simp
    then show ?thesis unfolding a(2) by (intro region_sub) (use fit that(1) in blast)
  qed
  show "region (elem_addr (it_pData it) (it_field it) i) (unat (data_size (it_field it))) \<subseteq> region dest sz"
    if "pb_htype (ftype (it_field it)) = PB_HTYPE_REPEATED" "i < array_size (it_field it)"
    unfolding a(1) by (rule elem_region) (use fit that in blast)+
qed

section \<open>Defaults and release\<close>

definition mem_kept :: "u64 set \<Rightarrow> mem \<Rightarrow> mem \<Rightarrow> bool" where
  "mem_kept A m m' \<longleftrightarrow> (\<forall>q. q \<notin> A \<longrightarrow> m' q = m q)"

lemma mem_kept_refl [simp]: "mem_kept A m m"
  by (simp add: mem_kept_def)

lemma mem_kept_trans [trans]: "mem_kept A m m' \<Longrightarrow> mem_kept A m' m'' \<Longrightarrow> mem_kept A m m''"
  by (simp add: mem_kept_def)

lemma mem_kept_mono: "mem_kept A m m' \<Longrightarrow> A \<subseteq> B \<Longrightarrow> mem_kept B m m'"
  by (auto simp: mem_kept_def)

lemma mem_kept_write: "region p (length bs) \<subseteq> A \<Longrightarrow> mem_kept A m (mem_write m p bs)"
  using mem_write_region [of bs "length bs"] by (auto simp: mem_kept_def)

lemma opt_fold_kept:
  assumes "\<And>x m. x \<in> set xs \<Longrightarrow> \<exists>m'. f x m = Some m' \<and> mem_kept A m m'"
  shows "\<exists>m'. opt_fold f xs m = Some m' \<and> mem_kept A m m'"
  using assms
proof (induction xs arbitrary: m)
  case (Cons x xs)
  from Cons.prems [of x m] obtain m1 where x: "f x m = Some m1" "mem_kept A m m1" by auto
  from Cons.IH [of m1] Cons.prems obtain m2 where "opt_fold f xs m1 = Some m2" "mem_kept A m1 m2" by auto
  with x show ?case by (auto intro: mem_kept_trans)
qed simp

text \<open>A level of nesting takes two calls, for the message and for the field.\<close>

lemma level_bound: "2 * Suc k \<le> n \<Longrightarrow> \<exists>j. n = Suc (Suc j) \<and> 2 * k \<le> j"
  by (rule exI [of _ "n - 2"]) auto

text \<open>\<open>defaults_kept k n\<close>: the defaults of types of depth \<open>k\<close> stay in the struct, with bound \<open>n\<close>.\<close>

definition defaults_kept :: "(u64 \<Rightarrow> pb_field list) \<Rightarrow> nat \<Rightarrow> nat \<Rightarrow> bool" where
  "defaults_kept fds k n \<longleftrightarrow> (\<forall>p dest sz m. static_layout fds k p sz \<and> placed dest sz \<longrightarrow>
     (\<exists>m'. pb_message_set_to_defaults fds n p dest m = Some m' \<and> mem_kept (region dest sz) m m'))"

lemma field_default_kept:
  assumes sub: "defaults_kept fds k n" and lay: "static_layout fds (Suc k) p sz" and pl: "placed dest sz"
    and inv: "iter_inv (fds p) dest it"
  shows "\<exists>m'. pb_field_set_to_default fds (Suc n) it m = Some m' \<and> mem_kept (region dest sz) m m'"
proof -
  define f where "f = it_field it"
  note l = static_layoutE [OF lay iter_inv_live [OF inv]]
  have f: "f = field_at (fds p) (it_pos it)" using inv by (simp add: f_def iter_inv_def)
  note r = iter_regions [OF inv placed_dest [OF pl] l(3), folded f_def]
  have ty: "pb_atype (ftype f) = PB_ATYPE_STATIC" "pb_ltype (ftype f) \<noteq> PB_LTYPE_EXTENSION"
    using l(3) by (simp_all add: field_fits_def Let_def f)
  consider (count) "pb_htype (ftype f) = PB_HTYPE_REPEATED \<or> pb_htype (ftype f) = PB_HTYPE_ONEOF"
    | (data) "pb_htype (ftype f) \<noteq> PB_HTYPE_REPEATED" "pb_htype (ftype f) \<noteq> PB_HTYPE_ONEOF" by blast
  then show ?thesis
  proof cases
    case count
    then show ?thesis
      using ty r(4) by (auto simp: Let_def f_def [symmetric] intro!: mem_kept_write)
  next
    case data
    define m1 where "m1 = (if pb_htype (ftype f) = PB_HTYPE_OPTIONAL \<and> it_pSize it \<noteq> it_pData it
                      then mem_write m (it_pSize it) [0] else m)"
    have m1: "mem_kept (region dest sz) m m1"
      using r(5) unfolding m1_def by (auto intro!: mem_kept_write simp del: mem_write.simps)
    have dr: "region (it_pData it) (unat (data_size f)) \<subseteq> region dest sz" using r(2) data by blast
    have "\<exists>m'. pb_field_set_to_default fds (Suc n) it m = Some m' \<and> mem_kept (region dest sz) m1 m'"
    proof (cases "pb_ltype (ftype f) = PB_LTYPE_SUBMESSAGE")
      case True
      have lay': "static_layout fds k (fptr f) (unat (data_size f))" using l(4) True f by simp
      then have "0 < unat (data_size f)" by (cases k) simp_all
      with pl dr have "placed (it_pData it) (unat (data_size f))" by (rule placed_sub)
      with sub lay' obtain m' where "pb_message_set_to_defaults fds n (fptr f) (it_pData it) m1 = Some m'"
        "mem_kept (region (it_pData it) (unat (data_size f))) m1 m'"
        unfolding defaults_kept_def by blast
      with True ty data dr show ?thesis
        by (auto simp: Let_def f_def [symmetric] m1_def [symmetric] intro: mem_kept_mono)
    next
      case False
      with ty data dr show ?thesis
        by (auto simp: Let_def f_def [symmetric] m1_def [symmetric] intro!: mem_kept_write)
    qed
    with m1 show ?thesis by (blast intro: mem_kept_trans)
  qed
qed

lemma message_defaults_kept: "2 * k \<le> n \<Longrightarrow> defaults_kept fds k n"
proof (induction k arbitrary: n)
  case 0
  show ?case by (simp add: defaults_kept_def)
next
  case (Suc k)
  obtain j where n: "n = Suc (Suc j)" "2 * k \<le> j" using level_bound [OF Suc.prems] by blast
  show ?case
    unfolding defaults_kept_def
  proof (intro allI impI, elim conjE)
    fix p dest sz m
    assume lay: "static_layout fds (Suc k) p sz" and pl: "placed dest sz"
    have wf: "fields_wf (fds p)" using lay by simp
    show "\<exists>m'. pb_message_set_to_defaults fds n p dest m = Some m' \<and> mem_kept (region dest sz) m m'"
      unfolding n(1) pb_message_set_to_defaults.simps
      using field_default_kept [OF Suc.IH [OF n(2)] lay pl] iter_fields_pos(2) [OF wf, of dest]
      by (intro opt_fold_kept) blast
  qed
qed

text \<open>There is nothing to release.\<close>

lemma each_item_id: "(\<And>p. f p w = Some w) \<Longrightarrow> each_item f s n p w = Some w"
  by (induction n arbitrary: p) simp_all

lemma opt_fold_id: "(\<And>x. x \<in> set xs \<Longrightarrow> f x w = Some w) \<Longrightarrow> opt_fold f xs w = Some w"
  by (induction xs) simp_all

lemma release_field_static:
  assumes sub: "\<And>p sz dest w. static_layout (pe_fields env) k p sz \<Longrightarrow> pb_release env n p dest w = Some w"
    and lay: "static_layout (pe_fields env) (Suc k) p sz" and inv: "iter_inv (pe_fields env p) dest it"
  shows "pb_release_single_field env (Suc n) it w = Some w"
proof -
  have f: "it_field it = field_at (pe_fields env p) (it_pos it)" using inv by (simp add: iter_inv_def)
  note l = static_layoutE [OF lay iter_inv_live [OF inv], folded f]
  have ty: "pb_atype (ftype (it_field it)) = PB_ATYPE_STATIC" "pb_ltype (ftype (it_field it)) \<noteq> PB_LTYPE_EXTENSION"
    using l(3) by (simp_all add: field_fits_def Let_def f)
  have "each_item (\<lambda>q w. pb_release env n (fptr (it_field it)) q w) st c q w = Some w"
    if "pb_ltype (ftype (it_field it)) = PB_LTYPE_SUBMESSAGE" for st c q
    by (rule each_item_id) (rule sub [OF conjunct2 [OF l(4) [OF that]]])
  with ty show ?thesis by (simp add: Let_def)
qed

lemma release_static:
  "2 * k \<le> n \<Longrightarrow> static_layout (pe_fields env) k p sz \<Longrightarrow> pb_release env n p dest w = Some w"
proof (induction k arbitrary: n p sz dest w)
  case (Suc k)
  obtain j where n: "n = Suc (Suc j)" "2 * k \<le> j" using level_bound [OF Suc.prems(1)] by blast
  have wf: "fields_wf (pe_fields env p)" using Suc.prems by simp
  have "pb_release_single_field env (Suc j) it w = Some w" if "iter_inv (pe_fields env p) dest it" for it
    by (rule release_field_static [OF _ Suc.prems(2) that]) (rule Suc.IH [OF n(2)])
  then have "opt_fold (pb_release_single_field env (Suc j)) (iter_fields (pe_fields env p) dest) w = Some w"
    using iter_fields_pos(2) [OF wf, of dest] by (intro opt_fold_id) blast
  then show ?case unfolding n(1) pb_release.simps by simp
qed simp

section \<open>Items\<close>

lemma clamp_length: "clamp sg sz v = Some (bs, w) \<Longrightarrow> length bs = unat sz"
  by (auto simp: clamp_def split: if_splits)

lemma safe_store_clamped:
  assumes "region p (unat (data_size f)) \<subseteq> A"
  shows "safe_step A (store_clamped sg f p v)"
  unfolding safe_step_def
proof (intro allI impI, elim conjE)
  fix d ok d'
  assume e: "store_clamped sg f p v d = (ok, d')"
  show "kept A d d'"
  proof (cases "clamp sg (data_size f) v")
    case None
    with e show ?thesis by (simp add: store_clamped_def kept_error)
  next
    case (Some c)
    obtain bs w where c: "c = (bs, w)" by fastforce
    with clamp_length [of sg "data_size f" v bs w] assms Some have k: "kept A d (wr p bs d)"
      by (intro kept_wr) simp
    with e Some c show ?thesis
      by (auto simp: store_clamped_def Let_def split: if_splits intro: kept_trans [OF k kept_error])
  qed
qed

text \<open>A step that reads first and goes on from what it read.\<close>

lemma safe_read_reads:
  "reads r \<Longrightarrow> (\<And>v. safe_step A (f v)) \<Longrightarrow> safe_step A (d_read r f)"
  by (rule safe_read) (auto dest: readsE(1))

lemma safe_if: "(b \<Longrightarrow> safe_step A f) \<Longrightarrow> (\<not> b \<Longrightarrow> safe_step A g) \<Longrightarrow> safe_step A (\<lambda>d. if b then f d else g d)"
  by (simp add: safe_step_def)

lemma safe_after:
  assumes "safe_step A g" "\<And>d. kept A d (f d)"
  shows "safe_step A (\<lambda>d. g (f d))"
  using assms kept_trans kept_delivers unfolding safe_step_def by metis

lemma safe_then_wr:
  assumes "safe_step A g" "\<And>d. kept A d (h d)"
  shows "safe_step A (\<lambda>d. case g d of (status, d') \<Rightarrow> (status, h d'))"
  unfolding safe_step_def
proof (intro allI impI, elim conjE)
  fix d ok d'
  assume ex: "delivers d" and e: "(case g d of (status, d') \<Rightarrow> (status, h d')) = (ok, d')"
  obtain st d1 where g: "g d = (st, d1)" by fastforce
  then have "kept A d d1" using assms(1) ex unfolding safe_step_def by blast
  moreover have "d' = h d1" using e g by simp
  ultimately show "kept A d d'" using kept_trans assms(2) by blast
qed

lemma safe_ok: "(\<And>d. kept A d (f d)) \<Longrightarrow> safe_step A (\<lambda>d. (True, f d))"
  by (simp add: safe_step_def)

lemma room_data: "pb_ltype (ftype f) \<notin> {PB_LTYPE_BOOL, PB_LTYPE_FIXED32, PB_LTYPE_FIXED64} \<Longrightarrow>
    item_room f = unat (data_size f)"
  by (simp add: item_room_def)

lemma region_prefix: "region p n \<subseteq> A \<Longrightarrow> m \<le> n \<Longrightarrow> region p m \<subseteq> A"
  using region_mono [of m n p] by blast

lemma region_tail: "region p n \<subseteq> A \<Longrightarrow> unat off + m \<le> n \<Longrightarrow> region (p + off) m \<subseteq> A"
  using region_sub [of off m n p] by blast

lemma safe_bytes:
  assumes st: "pb_atype (ftype f) = PB_ATYPE_STATIC" and r: "region p (unat (data_size f)) \<subseteq> A"
  shows "safe_step A (pb_dec_bytes env f p)"
  unfolding pb_dec_bytes_def
proof (rule safe_read_reads [OF pb_decode_varint32_reads])
  fix n :: u32
  have "safe_step A (\<lambda>d. d_read (\<lambda>s. pb_read s (ucast n)) (\<lambda>bs d. (True, wr (p + 4) bs d)) (wr p (le_bytes 4 n) d))"
    if fit: "\<not> ucast n + 4 > (ucast (data_size f) :: u64)"
  proof (rule safe_after)
    have "unat (ucast n + 4 :: u64) = unat n + 4"
      using unsigned_less [of n, where 'a = nat]
      by (simp add: unat_word_ariths)
    with fit have sz: "unat n + 4 \<le> unat (data_size f)"
      by (simp add: not_less word_le_nat_alt)
    show "kept A d (wr p (le_bytes 4 n) d)" for d
      by (intro kept_wr region_prefix [OF r]) (use sz in simp)
    show "safe_step A (d_read (\<lambda>s. pb_read s (ucast n)) (\<lambda>bs d. (True, wr (p + 4) bs d)))"
      by (intro safe_read_bytes region_tail [OF r]) (use sz in simp)
  qed
  then show "safe_step A (\<lambda>d. let alloc_size = ucast n + 4 :: u64;
            body = (\<lambda>bdest d. d_read (\<lambda>s. pb_read s (ucast n)) (\<lambda>bs d. (True, wr (bdest + 4) bs d))
                                (wr bdest (le_bytes 4 n) d))
        in
        if n > PB_SIZE_MAX then d_error ''bytes overflow'' d
        else if ucast n > alloc_size then d_error ''size too large'' d
        else if pb_atype (ftype f) = PB_ATYPE_POINTER then
          (if is_bytes_left (d_in d) < ucast n then d_error ''end-of-stream'' d
           else (case allocate_field env p alloc_size 1 d of
                   (ok, d') \<Rightarrow> if \<not> ok then (False, d') else body (rd_u64 (d_mem d') p) d'))
        else if alloc_size > ucast (data_size f) then d_error ''bytes overflow'' d
        else body p d)"
    unfolding Let_def st by (intro safe_if safe_error) simp_all
qed

lemma safe_string:
  assumes st: "pb_atype (ftype f) = PB_ATYPE_STATIC" and r: "region p (unat (data_size f)) \<subseteq> A"
  shows "safe_step A (pb_dec_string env f p)"
  unfolding pb_dec_string_def
proof (rule safe_read_reads [OF pb_decode_varint32_reads])
  fix n :: u32
  have "safe_step A (\<lambda>d. case d_read (\<lambda>s. pb_read s (ucast n)) (\<lambda>bs d. (True, wr p bs d)) d of
                (status, d') \<Rightarrow> (status, wr (p + ucast n) [0] d'))"
    if fit: "\<not> (ucast (n + 1) :: u64) < ucast n" "\<not> ucast (n + 1) > (ucast (data_size f) :: u64)"
  proof (rule safe_then_wr)
    have "unat (n + 1) = unat n + 1"
      using fit(1) unsigned_less [of n, where 'a = nat]
      by (simp add: word_less_nat_alt unat_plus_if' split: if_splits)
    with fit(2) have sz: "unat n + 1 \<le> unat (data_size f)"
      by (simp add: not_less word_le_nat_alt)
    show "safe_step A (d_read (\<lambda>s. pb_read s (ucast n)) (\<lambda>bs d. (True, wr p bs d)))"
      by (intro safe_read_bytes region_prefix [OF r]) (use sz in simp)
    show "kept A d (wr (p + ucast n) [0] d)" for d
      by (intro kept_wr region_tail [OF r]) (use sz in simp)
  qed
  then show "safe_step A (\<lambda>d. let alloc_size = ucast (n + 1) :: u64;
            body = (\<lambda>dest d.
              case d_read (\<lambda>s. pb_read s (ucast n)) (\<lambda>bs d. (True, wr dest bs d)) d of
                (status, d') \<Rightarrow> (status, wr (dest + ucast n) [0] d'))
        in
        if alloc_size < ucast n then d_error ''size too large'' d
        else if pb_atype (ftype f) = PB_ATYPE_POINTER then
          (if is_bytes_left (d_in d) < ucast n then d_error ''end-of-stream'' d
           else (case allocate_field env p alloc_size 1 d of
                   (ok, d') \<Rightarrow> if \<not> ok then (False, d') else body (rd_u64 (d_mem d') p) d'))
        else if alloc_size > ucast (data_size f) then d_error ''string overflow'' d
        else body p d)"
    unfolding Let_def st by (intro safe_if safe_error) simp_all
qed

lemma safe_fixed_length:
  assumes r: "region p (unat (data_size f)) \<subseteq> A"
  shows "safe_step A (pb_dec_fixed_length_bytes f p)"
  unfolding pb_dec_fixed_length_bytes_def
  by (intro safe_read_reads [OF pb_decode_varint32_reads] safe_if safe_error safe_ok kept_wr safe_read_bytes)
    (use r in simp_all)

text \<open>Every decoder but that of submessages.\<close>

lemma scalar_safe:
  assumes st: "pb_atype (ftype f) = PB_ATYPE_STATIC"
    and lt: "pb_ltype (ftype f) \<le> PB_LTYPE_FIXED_LENGTH_BYTES"
      "pb_ltype (ftype f) \<noteq> PB_LTYPE_EXTENSION" "pb_ltype (ftype f) \<noteq> PB_LTYPE_SUBMESSAGE"
    and r: "region p (item_room f) \<subseteq> A"
  shows "safe_dec A (pb_decoder env n noinit f p)"
proof -
  have lts: "pb_ltype (ftype f) \<in> {0, 1, 2, 3, 4, 5, 6, 7, 10}"
  proof -
    have "unat (pb_ltype (ftype f)) \<le> 10" "unat (pb_ltype (ftype f)) \<noteq> 9" "unat (pb_ltype (ftype f)) \<noteq> 8"
      using lt by (simp_all add: word_le_nat_alt word_unat_eq_iff)
    then show ?thesis by (simp add: word_unat_eq_iff) presburger
  qed
  have d: "region p (unat (data_size f)) \<subseteq> A" if "pb_ltype (ftype f) \<notin> {0, 4, 5}"
    using r that by (simp add: room_data)
  have b: "region p 1 \<subseteq> A" if "pb_ltype (ftype f) = 0" using r that by (simp add: item_room_def)
  have f4: "region p 4 \<subseteq> A" if "pb_ltype (ftype f) = 4" using r that by (simp add: item_room_def)
  have f8: "region p 8 \<subseteq> A" if "pb_ltype (ftype f) = 5" using r that by (simp add: item_room_def)
  have "safe_step A (pb_dec_bool p)" if "pb_ltype (ftype f) = 0"
    unfolding pb_dec_bool_def by (intro safe_read_wr pb_decode_varint32_reads) (use b that in simp)
  moreover have "safe_step A (pb_dec_varint f p)" "safe_step A (pb_dec_uvarint f p)" "safe_step A (pb_dec_svarint f p)"
    if "pb_ltype (ftype f) \<notin> {0, 4, 5}"
    unfolding pb_dec_varint_def pb_dec_uvarint_def pb_dec_svarint_def Let_def
    by (rule safe_read_reads, rule pb_decode_varint_reads pb_decode_svarint_reads,
        rule safe_store_clamped [OF d [OF that]])+
  moreover have "safe_step A (pb_dec_fixed32 p)" if "pb_ltype (ftype f) = 4"
    unfolding pb_dec_fixed32_def by (intro safe_read_wr pb_decode_fixed32_reads) (use f4 that in simp)
  moreover have "safe_step A (pb_dec_fixed64 p)" if "pb_ltype (ftype f) = 5"
    unfolding pb_dec_fixed64_def by (intro safe_read_wr pb_decode_fixed64_reads) (use f8 that in simp)
  ultimately show ?thesis
    using lts safe_bytes [OF st d] safe_string [OF st d] safe_fixed_length [OF d]
    by (auto simp: pb_decoder_def intro!: safe_lift)
qed

section \<open>Fields\<close>

lemma kept_close:
  assumes mk: "pb_make_string_substream (d_in d) = (Some sub, s)" and k: "kept A (d\<lparr>d_in := sub\<rparr>) d1"
    and cl: "d_close s d1 = (ok, d2)"
  shows "kept A d d2"
  using make_substream_later(1) [OF mk] k cl
  by (auto simp: kept_def d_close_def split: prod.splits dest!: close_substream_later intro: later_trans)

lemma substream_delivers:
  "pb_make_string_substream (d_in d) = (Some sub, s) \<Longrightarrow> delivers d \<Longrightarrow> delivers (d\<lparr>d_in := sub\<rparr>)"
  using make_substream_later(2) [of "d_in d" "Some sub" s sub] by (simp add: later_def)

definition noinit_safe :: "('s, 'h) pd_env \<Rightarrow> nat \<Rightarrow> (u64 \<Rightarrow> u64 \<Rightarrow> ('s, 'h) dec) \<Rightarrow> bool" where
  "noinit_safe env k noinit \<longleftrightarrow> (\<forall>p dest sz. static_layout (pe_fields env) k p sz \<and> placed dest sz \<longrightarrow>
     safe_dec (region dest sz) (noinit p dest))"

lemma decode_with_safe:
  assumes n: "2 * k \<le> n" and safe: "noinit_safe env k noinit"
    and lay: "static_layout (pe_fields env) k p sz" and pl: "placed dest sz"
  shows "safe_dec (region dest sz) (decode_with env n noinit p dest)"
  unfolding safe_dec_def
proof (intro allI impI)
  fix d :: "('a, 'b) dstate"
  assume ex: "delivers d"
  obtain m where m: "pb_message_set_to_defaults (pe_fields env) n p dest (d_mem d) = Some m"
    "mem_kept (region dest sz) (d_mem d) m"
    using message_defaults_kept [OF n] lay pl unfolding defaults_kept_def by blast
  define d1 where "d1 = d\<lparr>d_mem := m\<rparr>"
  have k1: "kept (region dest sz) d d1" using m(2) by (simp add: d1_def kept_def mem_kept_def)
  obtain ok d2 where r: "noinit p dest d1 = Some (ok, d2)" "kept (region dest sz) d1 d2"
    using safe lay pl k1 ex kept_delivers [OF k1] unfolding noinit_safe_def safe_dec_def by blast
  have "d_release (pb_release env n p dest) d2 = Some d2"
    by (simp add: d_release_def release_static [OF n lay])
  with m(1) r(1) have "decode_with env n noinit p dest d = Some (ok, d2)"
    by (cases ok) (simp_all add: decode_with_def d_defaults_def d1_def)
  with kept_trans [OF k1 r(2)] show "\<exists>ok d'. decode_with env n noinit p dest d = Some (ok, d') \<and> kept (region dest sz) d d'"
    by blast
qed

lemma submessage_safe:
  assumes n: "2 * k \<le> n" and safe: "noinit_safe env k noinit"
    and lay: "static_layout (pe_fields env) k (fptr f) (unat (data_size f))"
    and pl: "placed dest (unat (data_size f))" and ptr: "fptr f \<noteq> 0"
  shows "safe_dec (region dest (unat (data_size f))) (pb_dec_submessage env n noinit f dest)"
  unfolding safe_dec_def
proof (intro allI impI)
  let ?A = "region dest (unat (data_size f))"
  fix d :: "('a, 'b) dstate"
  assume ex: "delivers d"
  obtain sub s where mk: "pb_make_string_substream (d_in d) = (sub, s)" by fastforce
  show "\<exists>ok d'. pb_dec_submessage env n noinit f dest d = Some (ok, d') \<and> kept ?A d d'"
  proof (cases sub)
    case None
    with make_substream_later(1) [OF mk] mk show ?thesis
      by (auto simp: pb_dec_submessage_def intro: kept_stream)
  next
    case (Some t)
    define body where "body = (if pb_htype (ftype f) = PB_HTYPE_REPEATED then decode_with env n noinit else noinit)"
    have "safe_dec ?A (body (fptr f) dest)"
      unfolding body_def using decode_with_safe [OF n safe lay pl] safe lay pl
      by (auto simp: noinit_safe_def)
    from safe_decE [OF this substream_delivers [OF mk [unfolded Some] ex]]
    obtain st d1 where b: "body (fptr f) dest (d\<lparr>d_in := t\<rparr>) = Some (st, d1)" "kept ?A (d\<lparr>d_in := t\<rparr>) d1" by metis
    obtain ok d2 where c: "d_close s d1 = (ok, d2)" by fastforce
    from kept_close [OF mk [unfolded Some] b(2) c] b(1) c mk Some ptr show ?thesis
      by (simp add: pb_dec_submessage_def body_def [symmetric])
  qed
qed

text \<open>The contract of an item at \<open>p\<close>, for any field of a layout.\<close>

lemma item_safe:
  assumes n: "2 * k \<le> n" and safe: "noinit_safe env k noinit"
    and lay: "static_layout (pe_fields env) (Suc k) q sz" and lv: "live (pe_fields env q) i"
    and f: "f = field_at (pe_fields env q) i"
    and r: "region p (item_room f) \<subseteq> A" and nz: "0 \<notin> A"
  shows "safe_dec A (pb_decoder env n noinit f p)"
proof -
  note l = static_layoutE [OF lay lv, folded f]
  have ty: "pb_atype (ftype f) = PB_ATYPE_STATIC" "pb_ltype (ftype f) \<le> PB_LTYPE_FIXED_LENGTH_BYTES"
    "pb_ltype (ftype f) \<noteq> PB_LTYPE_EXTENSION"
    using l(3) by (simp_all add: field_fits_def Let_def f)
  show ?thesis
  proof (cases "pb_ltype (ftype f) = PB_LTYPE_SUBMESSAGE")
    case True
    have sub: "fptr f \<noteq> 0" "static_layout (pe_fields env) k (fptr f) (unat (data_size f))" using l(4) True by simp_all
    then have "0 < unat (data_size f)" by (cases k) simp_all
    moreover have rr: "region p (unat (data_size f)) \<subseteq> A" using r True by (simp add: item_room_def)
    ultimately have "placed p (unat (data_size f))" using nz by (auto simp: placed_def)
    from safe_mono [OF submessage_safe [OF n safe sub(2) this sub(1)] rr] True show ?thesis
      by (simp add: pb_decoder_def)
  qed (use scalar_safe [OF ty(1-3) _ r] in blast)
qed

text \<open>A packable item takes at least a byte.\<close>

lemma d_read_eats:
  assumes "reads r" "\<And>v d d'. f v d = (True, d') \<Longrightarrow> d_in d' = d_in d" "d_read r f d = (True, d')"
  shows "left d' < left d"
proof -
  obtain v s where r: "r (d_in d) = (v, s)" by fastforce
  with assms(3) obtain x where v: "v = Some x" and f: "f x (d\<lparr>d_in := s\<rparr>) = (True, d')"
    by (cases v) (auto simp: d_read_def)
  show ?thesis using readsE(2) [OF assms(1) r] v assms(2) [OF f] by simp
qed

lemma wr_stream [simp]: "d_in (wr p bs d) = d_in d"
  by (simp add: wr_def)

lemma store_clamped_stream: "store_clamped sg f p v d = (True, d') \<Longrightarrow> d_in d' = d_in d"
  by (auto simp: store_clamped_def d_error_def Let_def split: option.splits if_splits)

lemma packable_eats:
  assumes lt: "pb_ltype (ftype f) \<le> PB_LTYPE_LAST_PACKABLE" and e: "pb_decoder env n noinit f p d = Some (True, d')"
  shows "left d' < left d"
proof -
  have "pb_ltype (ftype f) \<in> {0, 1, 2, 3, 4, 5}"
  proof -
    have "unat (pb_ltype (ftype f)) \<le> 5" using lt by (simp add: word_le_nat_alt)
    then show ?thesis by (simp add: word_unat_eq_iff) presburger
  qed
  then have "(pb_dec_bool p d = (True, d') \<or> pb_dec_varint f p d = (True, d') \<or> pb_dec_uvarint f p d = (True, d')
     \<or> pb_dec_svarint f p d = (True, d') \<or> pb_dec_fixed32 p d = (True, d') \<or> pb_dec_fixed64 p d = (True, d'))"
    using e by (auto simp: pb_decoder_def dec_lift_def)
  then show ?thesis
    unfolding pb_dec_bool_def pb_dec_varint_def pb_dec_uvarint_def pb_dec_svarint_def pb_dec_fixed32_def
      pb_dec_fixed64_def Let_def
    by (elim disjE) (erule d_read_eats [rotated 2];
      auto intro: pb_decode_varint32_reads pb_decode_varint_reads pb_decode_svarint_reads
         pb_decode_fixed32_reads pb_decode_fixed64_reads store_clamped_stream)+
qed

text \<open>Where the count is.\<close>

definition size_ok :: "u64 set \<Rightarrow> size_ref \<Rightarrow> bool" where
  "size_ok A sr = (case sr of SizeAt p \<Rightarrow> region p 4 \<subseteq> A | SizeLocal \<Rightarrow> True)"

lemma kept_set_size: "size_ok A sr \<Longrightarrow> kept A d (set_size sr v d)"
  by (cases sr) (auto simp: size_ok_def intro!: kept_wr)

lemma left_set_size [simp]: "left (set_size sr v d) = left d"
  by (cases sr) simp_all

lemma packed_loop_safe:
  assumes item: "\<And>i. i < array_size f \<Longrightarrow> safe_dec A (func (elem_addr pData f i))"
    and eats: "\<And>p d d'. func p d = Some (True, d') \<Longrightarrow> left d' < left d" and sr: "size_ok A sr"
  shows "delivers d \<Longrightarrow> unat (left d) < k \<Longrightarrow>
    \<exists>ok d'. packed_loop k func f sr pData d = Some (ok, d') \<and> kept A d d'"
proof (induction k arbitrary: d)
  case (Suc k)
  show ?case
  proof (cases "left d > 0 \<and> get_size sr d < array_size f")
    case True
    from item [of "get_size sr d"] True Suc.prems obtain ok d1 where
      f: "func (elem_addr pData f (get_size sr d)) d = Some (ok, d1)" "kept A d d1" "delivers d1"
      by (metis safe_decE)
    show ?thesis
    proof (cases ok)
      case True': True
      define d2 where "d2 = set_size sr (get_size sr d1 + 1) d1"
      have k2: "kept A d1 d2" using sr by (simp add: d2_def kept_set_size)
      have "func (elem_addr pData f (get_size sr d)) d = Some (True, d1)" using f(1) True' by simp
      then have "left d2 < left d" using eats by (simp add: d2_def)
      then have "unat (left d2) < k" using Suc.prems(2) by (simp add: word_less_nat_alt)
      with Suc.IH [of d2] f(3) kept_delivers [OF k2] obtain ok' d' where
        "packed_loop k func f sr pData d2 = Some (ok', d')" "kept A d2 d'" by blast
      with True f True' kept_trans [OF kept_trans [OF f(2) k2]] show ?thesis by (simp add: d2_def)
    qed (use True f in auto)
  qed auto
qed simp

text \<open>Compositions of total steps.\<close>

lemma safe_dec_if: "(b \<Longrightarrow> safe_dec A f) \<Longrightarrow> (\<not> b \<Longrightarrow> safe_dec A g) \<Longrightarrow> safe_dec A (\<lambda>d. if b then f d else g d)"
  by (simp add: safe_dec_def)

lemma safe_dec_cond: "safe_dec A f \<Longrightarrow> safe_dec A g \<Longrightarrow> safe_dec A (\<lambda>d. if b d then f d else g d)"
  by (simp add: safe_dec_def)

lemma safe_dec_error: "safe_dec A (dec_error msg)"
  using safe_lift [OF safe_error] by (simp add: dec_error_def [abs_def] dec_lift_def [abs_def])

lemma safe_dec_after:
  assumes "safe_dec A g" "kept A d d1" "delivers d"
  shows "\<exists>ok d'. g d1 = Some (ok, d') \<and> kept A d d'"
  using assms kept_trans kept_delivers unfolding safe_dec_def by metis

lemma safe_dec_prep:
  assumes "\<And>d. delivers d \<Longrightarrow> \<exists>d1. h d = Some d1 \<and> kept A d d1" "safe_dec A g"
  shows "safe_dec A (\<lambda>d. case h d of None \<Rightarrow> None | Some d1 \<Rightarrow> g d1)"
  unfolding safe_dec_def
proof (intro allI impI)
  fix d :: "('a, 'b) dstate"
  assume ex: "delivers d"
  with assms(1) obtain d1 where "h d = Some d1" "kept A d d1" by blast
  with safe_dec_after [OF assms(2) this(2) ex]
  show "\<exists>ok d'. (case h d of None \<Rightarrow> None | Some d1 \<Rightarrow> g d1) = Some (ok, d') \<and> kept A d d'" by simp
qed

lemma safe_dec_pre: "safe_dec A g \<Longrightarrow> (\<And>d. kept A d (h d)) \<Longrightarrow> safe_dec A (\<lambda>d. g (h d))"
  unfolding safe_dec_def using kept_trans kept_delivers by metis

text \<open>The branches of a static field: packed, unpacked, and the switch of a union.\<close>

lemma packed_safe:
  assumes item: "\<And>i. i < array_size f \<Longrightarrow> safe_dec A (func (elem_addr pData f i))"
    and eats: "\<And>p d d'. func p d = Some (True, d') \<Longrightarrow> left d' < left d" and sr: "size_ok A sr"
  shows "safe_dec A (\<lambda>d. case pb_make_string_substream (d_in d) of
              (None, s) \<Rightarrow> Some (False, d\<lparr>d_in := s\<rparr>)
            | (Some sub, s) \<Rightarrow>
                (case packed_loop (Suc (unat (is_bytes_left sub))) func f sr pData (d\<lparr>d_in := sub\<rparr>) of
                   None \<Rightarrow> None
                 | Some (status, d1) \<Rightarrow>
                     if is_bytes_left (d_in d1) \<noteq> 0 then dec_error ''array overflow'' (d1\<lparr>d_in := s\<rparr>)
                     else (case d_close s d1 of (ok, d2) \<Rightarrow> Some (ok \<and> status, d2))))"
    (is "safe_dec A ?body")
  unfolding safe_dec_def
proof (intro allI impI)
  fix d :: "('a, 'b) dstate"
  assume ex: "delivers d"
  obtain sub s where mk: "pb_make_string_substream (d_in d) = (sub, s)" by fastforce
  show "\<exists>ok d'. ?body d = Some (ok, d') \<and> kept A d d'"
  proof (cases sub)
    case None
    with make_substream_later(1) [OF mk] mk show ?thesis by (auto intro: kept_stream)
  next
    case (Some t)
    have "\<exists>ok d'. packed_loop (Suc (unat (is_bytes_left t))) func f sr pData (d\<lparr>d_in := t\<rparr>) = Some (ok, d')
        \<and> kept A (d\<lparr>d_in := t\<rparr>) d'"
      using substream_delivers [OF mk [unfolded Some] ex] sr item eats by (intro packed_loop_safe) auto
    then obtain st d1 where b: "packed_loop (Suc (unat (is_bytes_left t))) func f sr pData (d\<lparr>d_in := t\<rparr>) = Some (st, d1)"
        "kept A (d\<lparr>d_in := t\<rparr>) d1" by blast
    have k1: "kept A d (d1\<lparr>d_in := s\<rparr>)"
      using make_substream_later(1) [OF mk] b(2) by (simp add: kept_def)
    obtain ok d2 where c: "d_close s d1 = (ok, d2)" by fastforce
    show ?thesis
      using mk Some b(1) c kept_close [OF mk [unfolded Some] b(2) c]
        safe_dec_after [OF safe_dec_error [of _ "''array overflow''"] k1 ex] by simp
  qed
qed

lemma unpacked_safe:
  assumes item: "\<And>i. i < array_size f \<Longrightarrow> safe_dec A (func (elem_addr pData f i))" and sr: "size_ok A sr"
  shows "safe_dec A (\<lambda>d. if get_size sr d \<ge> array_size f
            then dec_error ''array overflow'' (set_size sr (get_size sr d + 1) d)
            else func (elem_addr pData f (get_size sr d)) (set_size sr (get_size sr d + 1) d))"
  unfolding safe_dec_def
proof (intro allI impI)
  fix d :: "('a, 'b) dstate"
  assume ex: "delivers d"
  have k1: "kept A d (set_size sr (get_size sr d + 1) d)" using sr by (rule kept_set_size)
  show "\<exists>ok d'. (if get_size sr d \<ge> array_size f
            then dec_error ''array overflow'' (set_size sr (get_size sr d + 1) d)
            else func (elem_addr pData f (get_size sr d)) (set_size sr (get_size sr d + 1) d)) = Some (ok, d')
          \<and> kept A d d'"
    using safe_dec_after [OF safe_dec_error [of _ "''array overflow''"] k1 ex]
      safe_dec_after [OF item [of "get_size sr d"] k1 ex] by (simp add: not_le)
qed

lemma switch_safe:
  assumes n: "2 * k \<le> n" and dr: "region pd (unat (data_size f)) \<subseteq> A" and nz: "0 \<notin> A"
    and lay: "pb_ltype (ftype f) = PB_LTYPE_SUBMESSAGE \<Longrightarrow>
      static_layout (pe_fields env) k (fptr f) (unat (data_size f))"
  shows "\<exists>d1. (if pb_ltype (ftype f) = PB_LTYPE_SUBMESSAGE \<and> b
            then d_defaults env n (fptr f) pd (wr pd (replicate (unat (data_size f)) 0) d)
            else Some d) = Some d1 \<and> kept A d d1"
proof (cases "pb_ltype (ftype f) = PB_LTYPE_SUBMESSAGE \<and> b")
  case True
  define zeroed where "zeroed = wr pd (replicate (unat (data_size f)) 0) d"
  have k0: "kept A d zeroed" using dr unfolding zeroed_def by (auto intro!: kept_wr)
  have lay': "static_layout (pe_fields env) k (fptr f) (unat (data_size f))" using lay True by simp
  then have "0 < unat (data_size f)" by (cases k) simp_all
  with nz dr have "placed pd (unat (data_size f))" by (auto simp: placed_def)
  with lay' message_defaults_kept [OF n, of "pe_fields env"] obtain m where
    m: "pb_message_set_to_defaults (pe_fields env) n (fptr f) pd (d_mem zeroed) = Some m"
    "mem_kept (region pd (unat (data_size f))) (d_mem zeroed) m"
    unfolding defaults_kept_def by blast
  from mem_kept_mono [OF m(2) dr] have "kept A zeroed (zeroed\<lparr>d_mem := m\<rparr>)"
    by (simp add: kept_def mem_kept_def)
  with True m(1) kept_trans [OF k0] show ?thesis by (auto simp: d_defaults_def zeroed_def [symmetric])
next
  case False
  then show ?thesis unfolding if_not_P [OF False] by simp
qed

text \<open>The contract of a field: \<open>it\<close> is an iterator of the message at \<open>dest\<close>.\<close>

lemma static_field_safe:
  assumes n: "2 * k \<le> n" and safe: "noinit_safe env k noinit"
    and lay: "static_layout (pe_fields env) (Suc k) p sz" and pl: "placed dest sz"
    and inv: "iter_inv (pe_fields env p) dest it"
    and sr: "pb_htype (ftype (it_field it)) = PB_HTYPE_REPEATED \<Longrightarrow> size_ok (region dest sz) sr"
  shows "safe_dec (region dest sz) (decode_static_field env n noinit wt it sr)"
proof -
  let ?A = "region dest sz"
  define f where "f = it_field it"
  define func where "func = pb_decoder env n noinit f"
  note lv = iter_inv_live [OF inv]
  note l = static_layoutE [OF lay lv]
  have f: "f = field_at (pe_fields env p) (it_pos it)" using inv by (simp add: f_def iter_inv_def)
  note r = iter_regions [OF inv placed_dest [OF pl] l(3), folded f_def]
  have nz: "0 \<notin> ?A" using pl by (simp add: placed_def)
  have one: "safe_dec ?A (func (it_pData it))" if "pb_htype (ftype f) \<noteq> PB_HTYPE_REPEATED"
    unfolding func_def by (rule item_safe [OF n safe lay lv f r(1) [OF that] nz])
  have item: "safe_dec ?A (func (elem_addr (it_pData it) f i))"
    if "pb_htype (ftype f) = PB_HTYPE_REPEATED" "i < array_size f" for i
  proof -
    have "item_room f \<le> unat (data_size f)" using l(3) that(1) by (simp add: field_fits_def Let_def f)
    with item_safe [OF n safe lay lv f region_prefix [OF r(3) [OF that]] nz] show ?thesis
      by (simp add: func_def)
  qed
  have size: "region (it_pSize it) 4 \<subseteq> ?A" if "pb_htype (ftype f) = PB_HTYPE_ONEOF" using r(4) that by blast
  have "safe_dec ?A (\<lambda>d. decode_static_field env n noinit wt it sr d)"
    unfolding decode_static_field_def Let_def f_def [symmetric] func_def [symmetric]
  proof (intro safe_dec_if safe_dec_error)
    show "safe_dec ?A (func (it_pData it))" if "pb_htype (ftype f) = PB_HTYPE_REQUIRED" using one that by simp
    show "safe_dec ?A (\<lambda>d. func (it_pData it) (if it_pSize it \<noteq> it_pData it then wr (it_pSize it) [1] d else d))"
      if ht: "pb_htype (ftype f) = PB_HTYPE_OPTIONAL"
    proof (rule safe_dec_pre)
      show "safe_dec ?A (func (it_pData it))" by (rule one) (simp add: ht)
      show "kept ?A d (if it_pSize it \<noteq> it_pData it then wr (it_pSize it) [1] d else d)" for d
        using kept_wr [of "it_pSize it" "[1]" ?A d] r(5) [OF ht] by simp
    qed
    show "safe_dec ?A (\<lambda>d. case pb_make_string_substream (d_in d) of
              (None, s) \<Rightarrow> Some (False, d\<lparr>d_in := s\<rparr>)
            | (Some sub, s) \<Rightarrow>
                (case packed_loop (Suc (unat (is_bytes_left sub))) func f sr (it_pData it) (d\<lparr>d_in := sub\<rparr>) of
                   None \<Rightarrow> None
                 | Some (status, d1) \<Rightarrow>
                     if is_bytes_left (d_in d1) \<noteq> 0 then dec_error ''array overflow'' (d1\<lparr>d_in := s\<rparr>)
                     else (case d_close s d1 of (ok, d2) \<Rightarrow> Some (ok \<and> status, d2))))"
      if ht: "pb_htype (ftype f) = PB_HTYPE_REPEATED" and lt: "wt = 2 \<and> pb_ltype (ftype f) \<le> PB_LTYPE_LAST_PACKABLE"
    proof (rule packed_safe)
      show "safe_dec ?A (func (elem_addr (it_pData it) f i))" if "i < array_size f" for i by (rule item [OF ht that])
      show "left d' < left d" if "func q d = Some (True, d')" for q and d d' :: "('a, 'b) dstate"
        by (rule packable_eats [OF conjunct2 [OF lt] that [unfolded func_def]])
      show "size_ok ?A sr" by (rule sr [folded f_def, OF ht])
    qed
    show "safe_dec ?A (\<lambda>d. if get_size sr d \<ge> array_size f
            then dec_error ''array overflow'' (set_size sr (get_size sr d + 1) d)
            else func (elem_addr (it_pData it) f (get_size sr d)) (set_size sr (get_size sr d + 1) d))"
      if ht: "pb_htype (ftype f) = PB_HTYPE_REPEATED"
      by (rule unpacked_safe) (rule item [OF ht], assumption, rule sr [folded f_def, OF ht])
    show "safe_dec ?A (\<lambda>d. case (if pb_ltype (ftype f) = PB_LTYPE_SUBMESSAGE \<and> rd_u32 (d_mem d) (it_pSize it) \<noteq> tag f
            then d_defaults env n (fptr f) (it_pData it) (wr (it_pData it) (replicate (unat (data_size f)) 0) d)
            else Some d) of None \<Rightarrow> None
          | Some d1 \<Rightarrow> func (it_pData it) (wr (it_pSize it) (le_bytes 4 (tag f)) d1))"
      if ht: "pb_htype (ftype f) = PB_HTYPE_ONEOF"
    proof (rule safe_dec_prep)
      show "\<exists>d1. (if pb_ltype (ftype f) = PB_LTYPE_SUBMESSAGE \<and> rd_u32 (d_mem d) (it_pSize it) \<noteq> tag f
            then d_defaults env n (fptr f) (it_pData it) (wr (it_pData it) (replicate (unat (data_size f)) 0) d)
            else Some d) = Some d1 \<and> kept ?A d d1" for d
      proof (rule switch_safe [OF n _ nz])
        show "region (it_pData it) (unat (data_size f)) \<subseteq> ?A" by (rule r(2)) (simp add: ht)
        show "static_layout (pe_fields env) k (fptr f) (unat (data_size f))"
          if "pb_ltype (ftype f) = PB_LTYPE_SUBMESSAGE" using l(4) that unfolding f by blast
      qed
      show "safe_dec ?A (\<lambda>d. func (it_pData it) (wr (it_pSize it) (le_bytes 4 (tag f)) d))"
      proof (rule safe_dec_pre)
        show "safe_dec ?A (func (it_pData it))" by (rule one) (simp add: ht)
        show "kept ?A d (wr (it_pSize it) (le_bytes 4 (tag f)) d)" for d
          by (rule kept_wr) (simp add: size [OF ht])
      qed
    qed
  qed
  then show ?thesis by simp
qed

section \<open>The search for a field\<close>

lemma iter_find_total:
  assumes wf: "fields_wf fs" and inv: "iter_inv fs d it"
  obtains b it' where "pb_field_iter_find it t = Some (b, it')" "iter_inv fs d it'"
    "b \<Longrightarrow> find_match (it_field it') t" "\<And>i. \<not> b \<Longrightarrow> live fs i \<Longrightarrow> \<not> find_match (field_at fs i) t"
proof -
  define n where "n = length fs - 1"
  have st: "it_start it = fs" "it_pos it < length fs" using inv by (auto simp: iter_inv_def)
  show thesis
  proof (cases "0 < n")
    case True
    have "tag (it_field it) \<noteq> 0"
      using inv True field_at_wf [OF wf, of "it_pos it"] by (auto simp: iter_inv_def n_def)
    then have start: "it_pos it < n"
      using st field_at_wf [OF wf, of "it_pos it"] by (simp add: n_def)
    have lv: "live fs i \<Longrightarrow> i < n" for i
      using True field_at_wf [OF wf, of i] by (auto simp: live_def n_def)
    from iter_find_loop_correct [OF wf n_def True start, of 0 "length fs" d it t] True start inv st
    obtain b it' where r: "pb_field_iter_find it t = Some (b, it')" "iter_inv fs d it'"
      and b: "if b then \<exists>k<n. it_pos it' = (it_pos it + k) mod n \<and> find_match (field_at fs (it_pos it')) t
             \<and> (\<forall>i<k. \<not> find_match (field_at fs ((it_pos it + i) mod n)) t)
       else it_pos it' = it_pos it \<and> (\<forall>k<n. \<not> find_match (field_at fs ((it_pos it + k) mod n)) t)"
      by (auto simp: pb_field_iter_find_def n_def)
    have "it_start it' = fs" using r(2) by (simp add: iter_inv_def)
    with r b lv mod_range [OF True start, of "\<lambda>i. \<not> find_match (field_at fs i) t"] that show thesis
      by (cases b) auto
  next
    case False
    have nx: "pb_field_iter_next it = (False, it)"
      using False by (intro iter_next_empty [OF inv wf]) (simp add: n_def)
    obtain k where len: "length fs = Suc k" using st by (cases "length fs") auto
    have lv: "live fs i \<Longrightarrow> i = it_pos it" for i using False st(2) by (auto simp: live_def n_def)
    show thesis
    proof (cases "find_match (it_field it) t")
      case True
      then show thesis by (intro that [of True it] inv) (simp_all add: pb_field_iter_find_def st(1) len find_match_def)
    next
      case nm: False
      then have "pb_field_iter_find it t = Some (False, it)"
        by (simp add: pb_field_iter_find_def st(1) len find_match_def nx)
      with nm lv inv st(1) show thesis by (intro that [of False it]) auto
    qed
  qed
qed

text \<open>Without extension fields, the search for one fails like the search for an absent tag.\<close>

lemma find_extension_absent:
  assumes wf: "fields_wf fs" and inv: "iter_inv fs d it"
    and noext: "\<And>i. live fs i \<Longrightarrow> pb_ltype (ftype (field_at fs i)) \<noteq> PB_LTYPE_EXTENSION"
    and absent: "\<And>i. live fs i \<Longrightarrow> \<not> find_match (field_at fs i) t"
  obtains it' where "find_extension_field it = Some (False, it')" "iter_inv fs d it'"
proof -
  have eq: "iter_inv fs d j \<Longrightarrow> find_extension_loop n start j = iter_find_loop n t start j" for n start j
  proof (induction n arbitrary: j)
    case (Suc n)
    have "it_field j = field_at fs (it_pos j)" using Suc.prems by (simp add: iter_inv_def)
    then have "pb_ltype (ftype (it_field j)) \<noteq> PB_LTYPE_EXTENSION" "tag (it_field j) \<noteq> t"
      using noext absent iter_inv_live [OF Suc.prems] by (auto simp: find_match_def)
    with Suc.IH [OF iter_next_inv [OF wf Suc.prems]] show ?case by (simp add: Let_def)
  qed simp
  from iter_find_total [OF wf inv, of t] obtain b it' where
    r: "pb_field_iter_find it t = Some (b, it')" "iter_inv fs d it'" "b \<Longrightarrow> find_match (it_field it') t" by metis
  have "it_field it' = field_at fs (it_pos it')" using r(2) by (simp add: iter_inv_def)
  then have "\<not> b" using r(3) absent iter_inv_live [OF r(2)] by auto
  moreover have "find_extension_field it = pb_field_iter_find it t"
    using eq [OF inv] by (simp add: find_extension_field_def pb_field_iter_find_def)
  ultimately show thesis using r that by simp
qed

section \<open>Messages\<close>

text \<open>The iterator may be moved by the release of a union.\<close>

lemma union_safe:
  assumes n: "Suc (2 * k) \<le> n" and lay: "static_layout (pe_fields env) (Suc k) p sz"
    and inv: "iter_inv (pe_fields env p) dest it"
  obtains ok it' d' where "pb_release_union_field env n it d = Some (ok, it', d')"
    "iter_inv (pe_fields env p) dest it'" "kept A d d'"
proof -
  have wf: "fields_wf (pe_fields env p)" using lay by simp
  obtain n' where n': "n = Suc n'" "2 * k \<le> n'" using n by (cases n) auto
  define old where "old = rd_u32 (d_mem d) (it_pSize it)"
  define new where "new = tag (it_field it)"
  note def = pb_release_union_field_def Let_def old_def [symmetric] new_def [symmetric]
  have stay: "it_pData j = it_pData j" for j by simp
  show thesis
  proof (cases "old = 0 \<or> old = new")
    case True
    then show thesis by (intro that [of True it d] inv) (simp_all add: def)
  next
    case False
    note def = def if_not_P [OF False]
    from iter_find_total [OF wf inv, of old] obtain b1 it1 where
      f1: "pb_field_iter_find it old = Some (b1, it1)" "iter_inv (pe_fields env p) dest it1" by metis
    show thesis
    proof (cases b1)
      case False
      with f1 show thesis
        by (intro that [of False it1 "snd (d_error ''invalid union tag'' d)"])
          (simp_all add: def, metis kept_error prod.collapse)
    next
      case b1: True
      have "pb_release_single_field env n it1 w = Some w" for w
        unfolding n'(1) by (rule release_field_static [OF release_static [OF n'(2)] lay f1(2)])
      then have rel: "d_release (pb_release_single_field env n it1) d = Some d" by (simp add: d_release_def)
      from iter_find_total [OF wf f1(2), of new] obtain b2 it2 where
        f2: "pb_field_iter_find it1 new = Some (b2, it2)" "iter_inv (pe_fields env p) dest it2" by metis
      have st: "pb_atype (ftype (it_field it2)) = PB_ATYPE_STATIC"
        using static_layoutE(3) [OF lay iter_inv_live [OF f2(2)]] f2(2)
        by (simp add: field_fits_def Let_def iter_inv_def)
      show thesis
      proof (cases b2)
        case True
        with f1 f2 b1 rel st show thesis by (intro that [of True it2 d]) (simp_all add: def)
      next
        case False
        with f1 f2 b1 rel show thesis
          by (intro that [of False it2 "snd (d_error ''iterator error'' d)"])
            (simp_all add: def, metis kept_error prod.collapse)
      qed
    qed
  qed
qed

lemma field_safe:
  assumes n: "Suc (2 * k) \<le> n" and safe: "noinit_safe env k noinit"
    and lay: "static_layout (pe_fields env) (Suc k) p sz" and pl: "placed dest sz"
    and inv: "iter_inv (pe_fields env p) dest it" and ex: "delivers d"
    and sr: "sr = SizeLocal \<or> sr = SizeAt (it_pSize it)"
  obtains ok it' d' where "decode_field env n noinit wt it sr d = Some (ok, it', d')"
    "iter_inv (pe_fields env p) dest it'" "kept (region dest sz) d d'"
proof -
  let ?A = "region dest sz"
  have n2: "2 * k \<le> n" using n by simp
  have go: "\<exists>ok d2. decode_static_field env n noinit wt it1 sr1 d1 = Some (ok, d2) \<and> kept ?A d d2
      \<and> pb_atype (ftype (it_field it1)) = PB_ATYPE_STATIC"
    if i1: "iter_inv (pe_fields env p) dest it1" and k1: "kept ?A d d1"
      and s1: "sr1 = SizeLocal \<or> sr1 = SizeAt (it_pSize it1)" for it1 sr1 d1
  proof -
    note fits = static_layoutE(3) [OF lay iter_inv_live [OF i1]]
    have "pb_htype (ftype (it_field it1)) = PB_HTYPE_REPEATED \<Longrightarrow> size_ok ?A sr1"
      using iter_regions(4) [OF i1 placed_dest [OF pl] fits] s1 by (auto simp: size_ok_def)
    from safe_dec_after [OF static_field_safe [OF n2 safe lay pl i1 this] k1 ex] fits i1 show ?thesis
      by (auto simp: field_fits_def Let_def iter_inv_def)
  qed
  show thesis
  proof (cases "pb_htype (ftype (it_field it)) = PB_HTYPE_ONEOF")
    case False
    from go [OF inv _ sr, of d] obtain ok d2 where
      "decode_static_field env n noinit wt it sr d = Some (ok, d2)" "kept ?A d d2"
      "pb_atype (ftype (it_field it)) = PB_ATYPE_STATIC" by auto
    with False that [OF _ inv] show thesis by (simp add: decode_field_def)
  next
    case True
    obtain ok it1 d1 where u: "pb_release_union_field env n it d = Some (ok, it1, d1)"
      "iter_inv (pe_fields env p) dest it1" "kept ?A d d1" by (rule union_safe [OF n lay inv])
    from go [OF u(2,3), of "SizeAt (it_pSize it1)"] obtain ok2 d2 where
      "decode_static_field env n noinit wt it1 (SizeAt (it_pSize it1)) d1 = Some (ok2, d2)" "kept ?A d d2"
      "pb_atype (ftype (it_field it1)) = PB_ATYPE_STATIC" by auto
    with True u that [OF _ u(2)] show thesis by (cases ok) (simp_all add: decode_field_def)
  qed
qed

lemma known_safe:
  assumes n: "Suc (2 * k) \<le> n" and safe: "noinit_safe env k noinit"
    and lay: "static_layout (pe_fields env) (Suc k) p sz" and pl: "placed dest sz"
    and inv: "iter_inv (pe_fields env p) dest (l_it l)" and ex: "delivers d"
  obtains ok l' d' where "decode_known env n noinit wt l d = Some (ok, l', d')"
    "iter_inv (pe_fields env p) dest (l_it l')" "kept (region dest sz) d d'"
proof -
  define it where "it = l_it l"
  define arr where "arr = (pb_htype (ftype (it_field it)) = PB_HTYPE_REPEATED \<and> \<not> l_local l \<and> it_pSize it = it_pData it)"
  define sw where "sw = (arr \<and> l_fixed l \<noteq> Some (it_pos it))"
  note def = decode_known_def Let_def it_def [symmetric] arr_def [symmetric] sw_def [symmetric]
  show thesis
  proof (cases "sw \<and> \<not> fixed_complete (it_start it) (l_fixed l) (d_fixed d)")
    case True
    have "decode_known env n noinit wt l d = Some (False, l, snd (d_error ''wrong size for fixed count field'' d))"
      unfolding def if_P [OF True] by (simp add: d_error_def)
    then show thesis by (rule that [OF _ inv]) (simp add: d_error_def kept_def)
  next
    case False
    define d1 where "d1 = (if sw then d\<lparr>d_fixed := 0\<rparr> else d)"
    have d1: "kept (region dest sz) d d1" "delivers d1" using ex by (simp_all add: d1_def)
    obtain ok it' d2 where r: "decode_field env n noinit wt it (if l_local l \<or> arr then SizeLocal else SizeAt (it_pSize it)) d1
        = Some (ok, it', d2)" "iter_inv (pe_fields env p) dest it'" "kept (region dest sz) d1 d2"
      by (rule field_safe [OF n safe lay pl inv [folded it_def] d1(2),
          of "if l_local l \<or> arr then SizeLocal else SizeAt (it_pSize it)" wt]) simp
    define l1 where "l1 = (if sw then l\<lparr>l_fixed := Some (it_pos it)\<rparr> else l)"
    define l2 where "l2 = l1\<lparr>l_local := (l_local l \<or> arr), l_seen := mark_seen it (l_seen l1)\<rparr>"
    have "decode_known env n noinit wt l d =
       Some (ok, l2\<lparr>l_it := it', l_local := (l_local l2 \<and> pb_htype (ftype (it_field it)) \<noteq> PB_HTYPE_ONEOF)\<rparr>, d2)"
      unfolding def if_not_P [OF False] d1_def [symmetric] l1_def [symmetric] l2_def [symmetric]
      using r(1) by (simp add: l2_def)
    then show thesis by (rule that) (simp_all add: r(2) kept_trans [OF d1(1) r(3)])
  qed
qed

lemma unknown_safe:
  assumes lay: "static_layout (pe_fields env) (Suc k) p sz"
    and inv: "iter_inv (pe_fields env p) dest (l_it l)"
    and absent: "\<And>i. live (pe_fields env p) i \<Longrightarrow> \<not> find_match (field_at (pe_fields env p) i) t"
    and t: "t < 0xFFFFFFFF"
  obtains ok l' d' where "decode_unknown env n noinit t wt l d = Some (ok, l', d')"
    "iter_inv (pe_fields env p) dest (l_it l')" "kept A d d'"
proof -
  have wf: "fields_wf (pe_fields env p)" using lay by simp
  obtain ok s where sk: "pb_skip_field wt (d_in d) = (ok, s)" by fastforce
  have k: "kept A d (d\<lparr>d_in := s\<rparr>)" using pb_skip_field_later [OF sk] by (rule kept_stream)
  have noext: "pb_ltype (ftype (field_at (pe_fields env p) i)) \<noteq> PB_LTYPE_EXTENSION" if "live (pe_fields env p) i" for i
    using static_layoutE(3) [OF lay that] by (simp add: field_fits_def Let_def)
  show thesis
  proof (cases "l_ext_start l \<le> t")
    case False
    with sk k inv show thesis by (intro that [of ok l]) (simp_all add: decode_unknown_def)
  next
    case True
    obtain it' where x: "find_extension_field (l_it l) = Some (False, it')" "iter_inv (pe_fields env p) dest it'"
      by (rule find_extension_absent [OF wf inv noext absent])
    have "\<not> (0xFFFFFFFF :: u32) \<le> t" using t by simp
    with True sk k x show thesis
      by (intro that [of ok "l\<lparr>l_it := it', l_local := False, l_ext_start := 0xFFFFFFFF\<rparr>"])
        (simp_all add: decode_unknown_def Let_def)
  qed
qed

lemma pb_decode_tag_bound: "pb_decode_tag s = ((Some (wt, t), eof), s') \<Longrightarrow> t < 0xFFFFFFFF"
proof -
  have "drop_bit 3 w < 0xFFFFFFFF" for w :: u32
  proof -
    have "unat (drop_bit 3 w) = unat w div 8" by (simp add: drop_bit_eq_div unat_div)
    moreover have "unat w < 2 ^ 32" using unsigned_less [of w, where 'a = nat] by simp
    ultimately show ?thesis by (simp add: word_less_nat_alt)
  qed
  then show "pb_decode_tag s = ((Some (wt, t), eof), s') \<Longrightarrow> t < 0xFFFFFFFF"
    by (auto simp: pb_decode_tag_def split: prod.splits option.splits if_splits)
qed

lemma loop_safe:
  assumes n: "Suc (2 * k) \<le> n" and safe: "noinit_safe env k noinit"
    and lay: "static_layout (pe_fields env) (Suc k) p sz" and pl: "placed dest sz"
  shows "iter_inv (pe_fields env p) dest (l_it l) \<Longrightarrow> delivers d \<Longrightarrow> unat (left d) \<le> m \<Longrightarrow>
    \<exists>ok l' d'. noinit_loop env n noinit m l d = Some (ok, l', d') \<and> kept (region dest sz) d d'
      \<and> iter_inv (pe_fields env p) dest (l_it l')"
proof (induction m arbitrary: l d)
  case 0
  then show ?case by (auto simp: noinit_loop.simps [of _ _ _ 0] unat_eq_zero)
next
  case (Suc m)
  let ?A = "region dest sz"
  note unf = noinit_loop.simps [of _ _ _ "Suc m"]
  have wf: "fields_wf (pe_fields env p)" using lay by simp
  show ?case
  proof (cases "left d = 0")
    case True
    with Suc.prems show ?thesis by (auto simp: unf)
  next
    case False
    obtain tg eof s where dt: "pb_decode_tag (d_in d) = ((tg, eof), s)" by (metis surj_pair)
    define d1 where "d1 = d\<lparr>d_in := s\<rparr>"
    have k1: "kept ?A d d1" unfolding d1_def using pb_decode_tag_later [OF dt] by (blast intro: kept_stream)
    have ex1: "delivers d1" using kept_delivers [OF k1] Suc.prems(2) by simp
    show ?thesis
    proof (cases tg)
      case None
      with False dt k1 Suc.prems(1) show ?thesis by (auto simp: unf d1_def)
    next
      case (Some wtt)
      obtain wt t where wtt: "wtt = (wt, t)" by fastforce
      obtain found it1 where f: "pb_field_iter_find (l_it l) t = Some (found, it1)"
        "iter_inv (pe_fields env p) dest it1"
        "\<And>i. \<not> found \<Longrightarrow> live (pe_fields env p) i \<Longrightarrow> \<not> find_match (field_at (pe_fields env p) i) t"
        by (rule iter_find_total [OF wf Suc.prems(1), of t]) blast
      define l1 where "l1 = l\<lparr>l_it := it1, l_local := (l_local l \<and> tag (it_field (l_it l)) = t
                           \<and> pb_ltype (ftype (it_field (l_it l))) \<noteq> PB_LTYPE_EXTENSION)\<rparr>"
      have i1: "iter_inv (pe_fields env p) dest (l_it l1)" using f(2) by (simp add: l1_def)
      have t: "t < 0xFFFFFFFF" using dt [unfolded Some wtt] by (rule pb_decode_tag_bound)
      have "\<exists>ok l2 d2. (if found then decode_known env n noinit wt l1 d1
              else decode_unknown env n noinit t wt l1 d1) = Some (ok, l2, d2)
            \<and> iter_inv (pe_fields env p) dest (l_it l2) \<and> kept ?A d1 d2"
      proof (cases found)
        case True
        then show ?thesis using known_safe [OF n safe lay pl i1 ex1] by metis
      next
        case False
        obtain ok l2 d2 where "decode_unknown env n noinit t wt l1 d1 = Some (ok, l2, d2)"
          "iter_inv (pe_fields env p) dest (l_it l2)" "kept ?A d1 d2"
          by (rule unknown_safe [OF lay i1 f(3) [OF False] t])
        with False show ?thesis by simp
      qed
      then obtain ok l2 d2 where s2: "(if found then decode_known env n noinit wt l1 d1
              else decode_unknown env n noinit t wt l1 d1) = Some (ok, l2, d2)"
        and i2: "iter_inv (pe_fields env p) dest (l_it l2)" and k2: "kept ?A d1 d2" by blast
      have step: "noinit_loop env n noinit (Suc m) l d =
        (if ok then noinit_loop env n noinit m l2 d2 else Some (False, l2, d2))"
        using False dt Some wtt f(1) s2 unfolding d1_def l1_def by (subst unf) (auto simp: Let_def)
      note k12 = kept_trans [OF k1 k2]
      show ?thesis
      proof (cases ok)
        case True
        have "left d2 \<le> left d1" by (rule kept_left [OF k2])
        moreover have "left d1 < left d" using pb_decode_tag_later [OF dt] Some by (simp add: d1_def)
        ultimately have "unat (left d2) \<le> m" using Suc.prems(3) by (simp add: word_less_nat_alt word_le_nat_alt)
        moreover have "delivers d2" using kept_delivers [OF k2] ex1 by simp
        ultimately obtain ok' l3 d3 where "noinit_loop env n noinit m l2 d2 = Some (ok', l3, d3)"
          "kept ?A d2 d3" "iter_inv (pe_fields env p) dest (l_it l3)" using Suc.IH [OF i2] by blast
        with step True kept_trans [OF k12] show ?thesis by auto
      qed (use step k12 i2 in auto)
    qed
  qed
qed

lemma finish_kept: "finish_message l d = (ok, d') \<Longrightarrow> kept A d d'"
  by (auto simp: finish_message_def split: if_splits intro: kept_error)

lemma noinit_safe: "2 * k \<le> n \<Longrightarrow> noinit_safe env k (pb_decode_noinit env n)"
proof (induction k arbitrary: n)
  case 0
  show ?case by (simp add: noinit_safe_def)
next
  case (Suc k)
  obtain j where j: "n = Suc j" "Suc (2 * k) \<le> j" using Suc.prems by (cases n) auto
  have safe: "noinit_safe env k (pb_decode_noinit env j)" using j(2) by (intro Suc.IH) simp
  show ?case
    unfolding noinit_safe_def safe_dec_def
  proof (intro allI impI, elim conjE)
    fix p dest sz and d :: "('a, 'b) dstate"
    assume lay: "static_layout (pe_fields env) (Suc k) p sz" and pl: "placed dest sz" and ex: "delivers d"
    have wf: "fields_wf (pe_fields env p)" using lay by simp
    have i0: "iter_inv (pe_fields env p) dest (l_it (locals_init (pe_fields env p) dest))"
      using iter_begin_inv [OF wf] by (simp add: locals_init_def)
    obtain ok l d1 where r: "noinit_loop env j (pb_decode_noinit env j) (unat (left d))
        (locals_init (pe_fields env p) dest) (d\<lparr>d_fixed := 0\<rparr>) = Some (ok, l, d1)"
      "kept (region dest sz) d d1"
      using loop_safe [OF j(2) safe lay pl i0, of "d\<lparr>d_fixed := 0\<rparr>" "unat (left d)"] ex by auto
    obtain ok2 d2 where f: "(if ok then finish_message l d1 else (False, d1)) = (ok2, d2)" by fastforce
    have "kept (region dest sz) d1 d2" using f finish_kept by (auto split: if_splits)
    with r f kept_trans [OF r(2)]
    show "\<exists>ok d'. pb_decode_noinit env n p dest d = Some (ok, d') \<and> kept (region dest sz) d d'"
      by (simp add: j(1))
  qed
qed

text \<open>\<open>pb_decode\<close> on a static message type.\<close>

lemma decode_safe:
  assumes "2 * k \<le> n" "static_layout (pe_fields env) k p sz" "placed dest sz"
  shows "safe_dec (region dest sz) (pb_decode env n p dest)"
  unfolding pb_decode_def by (rule decode_with_safe [OF assms(1) noinit_safe [OF assms(1)] assms(2,3)])

end
