(* ===== verification/PbDecodeProps.thy ===== *)
theory PbDecodeProps
  imports PbDecodeStatic
begin

text \<open>
  What \<open>pb_decode\<close> guarantees on message types with static fields: it returns, stays inside the
  struct, and on the empty input gives the defaults and looks for required fields. A concrete
  descriptor shows that the layouts are those of generated code; arrays of a fixed count are the
  exception to what the defaults may write.
\<close>

section \<open>The message without fields\<close>

text \<open>How many required fields a message has, and how many of them the decoder can track.\<close>

definition required_total :: "pb_field list \<Rightarrow> nat" where
  "required_total fs = required_before fs (length fs - 1)"

lemma required_before_le: "required_before fs i \<le> i"
  unfolding required_before_def by (rule order_trans [OF length_filter_le]) simp

lemma required_count_total:
  assumes wf: "fields_wf fs" and inv: "iter_inv fs d it" and len: "length fs \<le> 2 ^ 32"
  shows "unat (required_count it) = min 64 (required_total fs)"
proof (cases "0 < length fs - 1")
  case False
  from iter_next_empty [OF inv wf] False have nx: "pb_field_iter_next it = (False, it)" by simp
  have run: "iter_run it = [it]" by (subst iter_run.simps) (simp add: nx)
  have pos: "it_start it = fs" "it_pos it = 0" using inv False by (auto simp: iter_inv_def)
  have "it_required_field_index it = 0" using inv pos by (auto simp: iter_inv_def required_before_def)
  moreover have "tag (it_field it) = 0" using pos False field_at_wf [OF wf, of 0] by simp
  moreover have "required_total fs = 0" using False by (simp add: required_total_def required_before_def)
  ultimately show ?thesis by (simp add: required_count_def run nx Let_def)
next
  case True
  define n where "n = length fs - 1"
  define z where "z = last (iter_run it)"
  note poss = iter_run_pos [OF wf inv True]
  have ne: "iter_run it \<noteq> []" by (subst iter_run.simps) simp
  then have zi: "iter_inv fs d z" using iter_run_inv [OF wf inv] by (simp add: z_def)
  have "it_pos z = last (map it_pos (iter_run it))" using ne by (simp add: z_def last_map)
  moreover have "[it_pos it..<length fs - 1] \<noteq> []" using poss ne by (metis map_is_Nil_conv)
  ultimately have "it_pos z = n - 1" using poss by (simp add: n_def)
  with True have zp: "Suc (it_pos z) = n" by (simp add: n_def)
  have st: "it_start z = fs" using zi by (simp add: iter_inv_def)
  have "it_pos (snd (pb_field_iter_next z)) = 0" "it_start (snd (pb_field_iter_next z)) = fs"
    using iter_next_wf(1) [OF wf zi True] iter_next_inv [OF wf zi] zp by (simp_all add: n_def iter_inv_def)
  then have t0: "tag (it_field (snd (pb_field_iter_next z))) \<noteq> 0" using field_at_wf [OF wf, of 0] True by simp
  have total: "required_total fs = required_before fs (it_pos z) +
     (if pb_htype (ftype (it_field z)) = PB_HTYPE_REQUIRED then 1 else 0)"
    using required_before_Suc [of "it_pos z" fs] zp zi st by (simp add: required_total_def n_def iter_inv_def)
  have idx: "it_required_field_index z = of_nat (required_before fs (it_pos z))" using zi by (simp add: iter_inv_def)
  have cnt: "(if pb_htype (ftype (it_field z)) = PB_HTYPE_REQUIRED \<and> tag (it_field (snd (pb_field_iter_next z))) \<noteq> 0
       then it_required_field_index z + 1 else it_required_field_index z) = of_nat (required_total fs)"
    unfolding total idx using t0 by simp
  have "required_total fs < 2 ^ 32"
    using required_before_le [of fs n] len True by (simp add: required_total_def n_def)
  then have un: "unat (of_nat (required_total fs) :: u32) = required_total fs" by (simp add: unsigned_of_nat take_bit_nat_eq_self_iff)
  have rc: "required_count it = (if (of_nat (required_total fs) :: u32) > 64 then 64 else of_nat (required_total fs))"
    unfolding required_count_def Let_def z_def [symmetric] cnt ..
  show ?thesis
    using un unfolding rc by (simp add: word_less_nat_alt)
qed

lemma all_seen_nothing: "unat c \<le> 64 \<Longrightarrow> all_seen [0, 0] c \<longleftrightarrow> c = 0"
proof -
  assume c: "unat c \<le> 64"
  have ones: "drop_bit k (0xFFFFFFFF :: u32) \<noteq> 0" if "k < 32" for k
  proof -
    have "unat (drop_bit k (0xFFFFFFFF :: u32)) = 0xFFFFFFFF div 2 ^ k"
      using unsigned_drop_bit_eq [of k "0xFFFFFFFF :: u32", where 'a = nat] by (simp add: drop_bit_eq_div)
    moreover have "(2::nat) ^ k \<le> 2 ^ 31" using that by (intro power_increasing) simp_all
    then have "0xFFFFFFFF div (2::nat) ^ k \<noteq> 0" by (simp add: div_eq_0_iff)
    ultimately show ?thesis by (metis unsigned_0)
  qed
  have m: "unat (c AND 31) = unat c mod 32"
  proof -
    have "c AND 31 = c mod 32"
      using take_bit_eq_mask [of 5 c] by (simp add: mask_eq_exp_minus_1 take_bit_eq_mod)
    then show ?thesis by (simp only: unat_mod) simp
  qed
  have dv: "unat (drop_bit 5 c) = unat c div 32" by (simp add: drop_bit_eq_div unat_div)
  show ?thesis
  proof (cases "c AND 31 = 0")
    case True
    then have "unat c mod 32 = 0" using m by simp
    then have "unat c div 32 = 0 \<longleftrightarrow> unat c = 0" by auto
    with True dv c show ?thesis by (cases "unat c div 32") (auto simp: all_seen_def list_all_iff unat_eq_zero nth_Cons')
  next
    case False
    then have "unat (c AND 31) \<noteq> 0" by (simp add: unat_eq_zero)
    with m have "unat c \<noteq> 64" by (intro notI) simp
    with c have i: "unat c div 32 < 2" by simp
    have "unat (32 - (c AND 31)) < 32"
    proof -
      have "unat (c AND 31) < 32" using m by simp
      then have "unat (32 - (c AND 31)) = 32 - unat (c AND 31)" by (simp add: unat_sub word_le_nat_alt)
      with \<open>unat (c AND 31) \<noteq> 0\<close> show ?thesis by simp
    qed
    with False ones [of "unat (32 - (c AND 31))"] i dv show ?thesis
      by (auto simp: all_seen_def nth_Cons' less_2_cases_iff)
  qed
qed

text \<open>Decoding nothing: the defaults, and an error if there is a required field.\<close>

lemma noinit_empty:
  assumes wf: "fields_wf (pe_fields env p)" and len: "length (pe_fields env p) \<le> 2 ^ 32" and "left d = 0"
  shows "pb_decode_noinit env (Suc n) p dest d =
    Some (if required_total (pe_fields env p) = 0 then (True, d)
          else (False, d\<lparr>d_in := is_error ''missing required field'' (d_in d)\<rparr>))"
proof -
  define l where "l = locals_init (pe_fields env p) dest"
  have inv: "iter_inv (pe_fields env p) dest (l_it l)"
    using iter_begin_inv [OF wf] by (simp add: l_def locals_init_def)
  note c = required_count_total [OF wf inv len]
  then have "all_seen [0, 0] (required_count (l_it l)) \<longleftrightarrow> required_total (pe_fields env p) = 0"
    by (subst all_seen_nothing) (simp_all add: unat_eq_zero [symmetric] min_def)
  moreover have "l_seen l = [0, 0]" "l_fixed l = None" by (simp_all add: l_def locals_init_def)
  ultimately have "finish_message l (d\<lparr>d_fixed := 0\<rparr>) =
      (if required_total (pe_fields env p) = 0 then (True, d\<lparr>d_fixed := 0\<rparr>)
       else d_error ''missing required field'' (d\<lparr>d_fixed := 0\<rparr>))"
    by (simp add: finish_message_def fixed_complete_def)
  moreover have "noinit_loop env n (pb_decode_noinit env n) (unat (left d)) l (d\<lparr>d_fixed := 0\<rparr>) = Some (True, l, d\<lparr>d_fixed := 0\<rparr>)"
    using assms(3) by (subst noinit_loop.simps) simp
  ultimately show ?thesis by (simp add: l_def d_error_def)
qed


section \<open>The decoder on static message types\<close>

text \<open>
  C3. Decoding ends on every input. For a message type whose fields are all static, with
  nesting at most \<open>k\<close>, \<open>pb_decode\<close> returns true or false whatever the bytes that the stream
  delivers, and it has only consumed input. The bound \<open>2 * k\<close> on the recursion is enough.
\<close>

theorem pb_decode_terminates:
  assumes "static_layout (pe_fields env) k p sz" "placed dest sz" "2 * k \<le> n" "exact (is_callback (d_in d))"
  shows "\<exists>ok d'. pb_decode env n p dest d = Some (ok, d')
    \<and> is_bytes_left (d_in d') \<le> is_bytes_left (d_in d)"
proof -
  from safe_decE [OF decode_safe [OF assms(3,1,2)] assms(4)] obtain ok d' where
    "pb_decode env n p dest d = Some (ok, d')" "kept (region dest sz) d d'" .
  with kept_left [OF this(2)] show ?thesis by blast
qed

text \<open>
  C2. Decoding a message of static fields stays in bounds. Suppose that the descriptor is terminated
  and that every field it describes is static and of a known type: no pointer, callback or extension
  field, here or in a nested message, whose descriptor is not NULL, and at most \<open>k\<close> levels of
  nesting. Suppose also that every field lies in the \<open>sz\<close> bytes of the struct, with four bytes of
  room at the count of an array or the selector of a union and one at the presence flag of an
  optional field; that the items of an array are as wide as the decoder writes them (one byte for a
  bool, four and eight for the fixed types), and that an array has fewer than \<open>2 ^ 32\<close> bytes. (An array of a fixed count has its
  count at its own address, so arrays of this kind that end within the last four bytes of the
  struct are left out here; C17 is about them.) If the struct is at an address from which its bytes do not reach
  address 0 by wrapping around, and the stream's callback delivers as many bytes as it reports,
  then, whatever the input, and whether \<open>pb_decode\<close> accepts or refuses it, the memory outside
  the \<open>sz\<close> bytes of the struct and the heap are unchanged: no length or count on the wire makes a
  field overflow the struct. The model's recursion bound \<open>n\<close> is any bound of at least \<open>2 * k\<close>.
\<close>

theorem pb_decode_in_bounds:
  assumes "static_layout (pe_fields env) k p sz" "placed dest sz" "2 * k \<le> n" "exact (is_callback (d_in d))"
    and "pb_decode env n p dest d = Some (ok, d')" "sz \<le> unat (q - dest)"
  shows "d_mem d' q = d_mem d q \<and> d_heap d' = d_heap d"
proof -
  have "kept (region dest sz) d d'"
    using safe_decE [OF decode_safe [OF assms(3,1,2)] assms(4)] assms(5) by (metis option.inject prod.inject)
  then show ?thesis
    using assms(6) by (auto simp: kept_def region_def)
qed

text \<open>
  The empty input. \<open>pb_decode\<close> sets every field to its default, and accepts exactly when
  no field of the message is required; otherwise its error is "missing required field", and
  the stream is left as it was.
\<close>

theorem pb_decode_nothing:
  assumes lay: "static_layout (pe_fields env) (Suc k) p sz" and pl: "placed dest sz" and n: "2 * Suc k \<le> n"
    and len: "length (pe_fields env p) \<le> 2 ^ 32" and none: "is_bytes_left (d_in d) = 0"
  shows "\<exists>m. pb_message_set_to_defaults (pe_fields env) n p dest (d_mem d) = Some m
    \<and> pb_decode env n p dest d =
        Some (if required_total (pe_fields env p) = 0 then (True, d\<lparr>d_mem := m\<rparr>)
              else (False, d\<lparr>d_mem := m, d_in := is_error ''missing required field'' (d_in d)\<rparr>))"
proof -
  obtain m where m: "pb_message_set_to_defaults (pe_fields env) n p dest (d_mem d) = Some m"
    using message_defaults_kept [OF n, of "pe_fields env"] lay pl unfolding defaults_kept_def by blast
  obtain j where j: "n = Suc j" using n by (cases n) auto
  have wf: "fields_wf (pe_fields env p)" using lay by simp
  have e: "pb_decode_noinit env n p dest (d\<lparr>d_mem := m\<rparr>) =
    Some (if required_total (pe_fields env p) = 0 then (True, d\<lparr>d_mem := m\<rparr>)
          else (False, d\<lparr>d_mem := m, d_in := is_error ''missing required field'' (d_in d)\<rparr>))"
    unfolding j by (subst noinit_empty [OF wf len]) (simp_all add: none del: pb_decode_noinit.simps)
  have "d_release (pb_release env n p dest) d' = Some d'" for d' :: "('a, 'b) dstate"
    by (simp add: d_release_def release_static [OF n lay])
  with m e show ?thesis
    by (simp add: pb_decode_def decode_with_def d_defaults_def)
qed

section \<open>An example\<close>

text \<open>
  A struct of 36 bytes: a required number, an array of at most three numbers and its count, an
  optional string, and an optional submessage.
\<close>

definition demo_fields :: "u64 \<Rightarrow> pb_field list" where
  "demo_fields p =
     (if p = 1 then
        [\<lparr>tag = 1, ftype = 0x02, data_offset = 0, size_offset = 0, data_size = 4, array_size = 0, fptr = 0\<rparr>,
         \<lparr>tag = 2, ftype = 0x21, data_offset = 4, size_offset = - 4, data_size = 4, array_size = 3, fptr = 0\<rparr>,
         \<lparr>tag = 3, ftype = 0x17, data_offset = 1, size_offset = - 1, data_size = 7, array_size = 0, fptr = 0\<rparr>,
         \<lparr>tag = 4, ftype = 0x18, data_offset = 4, size_offset = - 4, data_size = 4, array_size = 0, fptr = 2\<rparr>,
         pb_last_field]
      else
        [\<lparr>tag = 1, ftype = 0x04, data_offset = 0, size_offset = 0, data_size = 4, array_size = 0, fptr = 0\<rparr>,
         pb_last_field])"

definition demo_env :: "(ibuf, unit) pd_env" where
  "demo_env = \<lparr>pe_fields = demo_fields, pe_realloc = (\<lambda>_ _ w. (0, w)), pe_free = (\<lambda>_ w. w),
     pe_decode = (\<lambda>_ _ _ w. (False, w)), pe_decode_raw = (\<lambda>_ _ _ _ w. (False, w)),
     pe_ext_decode = (\<lambda>_ _ _ _ w. (False, w))\<rparr>"

definition demo_input :: bytes where
  "demo_input = [0x08, 0x05, 0x12, 0x02, 0x01, 0x02, 0x1A, 0x02, 0x68, 0x69, 0x22, 0x05, 0x0D, 0x01, 0, 0, 0]"

definition demo_state :: "bytes \<Rightarrow> (ibuf, unit) dstate" where
  "demo_state bs = \<lparr>d_in = pb_istream_from_buffer (mem_write (\<lambda>_. 0xAA) 0x100 bs) 0x100 (of_nat (length bs)),
     d_mem = (\<lambda>_. 0xAA), d_heap = (), d_fixed = 0\<rparr>"

lemmas layout_eval = demo_env_def demo_fields_def live_def field_fits_def fields_wf_def
  field_at_def item_room_def Let_def pb_atype_def pb_htype_def pb_ltype_def shares_union_def field_extent_def
  pb_last_field_def

lemma demo_layout: "static_layout (pe_fields demo_env) 2 1 36"
proof -
  have "static_layout demo_fields (Suc (Suc 0)) 1 36" by (simp add: layout_eval)
  then show ?thesis by (simp add: demo_env_def numeral_2_eq_2 del: static_layout.simps)
qed

lemma demo_placed: "placed 0x1000 36"
  by (simp add: placed_def region_def)

lemma demo_exact: "exact (is_callback (d_in (demo_state bs)))"
  by (simp add: demo_state_def pb_istream_from_buffer_def exact_buf_read)

theorem pb_decode_terminates_witness:
  "\<exists>ok d'. pb_decode demo_env 4 1 0x1000 (demo_state demo_input) = Some (ok, d')
    \<and> is_bytes_left (d_in d') \<le> is_bytes_left (d_in (demo_state demo_input))"
  by (rule pb_decode_terminates [OF demo_layout demo_placed _ demo_exact]) simp


theorem pb_decode_in_bounds_witness:
  "\<exists>ok d'. pb_decode demo_env 4 1 0x1000 (demo_state demo_input) = Some (ok, d')
    \<and> d_mem d' 0x1024 = d_mem (demo_state demo_input) 0x1024 \<and> d_heap d' = d_heap (demo_state demo_input)"
proof -
  have n: "2 * 2 \<le> (4 :: nat)" by simp
  obtain ok d' where r: "pb_decode demo_env 4 1 0x1000 (demo_state demo_input) = Some (ok, d')"
    by (rule safe_decE [OF decode_safe [OF n demo_layout demo_placed] demo_exact])
  have "36 \<le> unat (0x1024 - 0x1000 :: u64)" by simp
  from pb_decode_in_bounds [OF demo_layout demo_placed n demo_exact r this] r show ?thesis by blast
qed

theorem pb_decode_nothing_witness:
  "\<exists>m. pb_decode demo_env 4 1 0x1000 (demo_state []) =
     Some (False, (demo_state [])\<lparr>d_mem := m, d_in := is_error ''missing required field'' (d_in (demo_state []))\<rparr>)"
proof -
  have lay: "static_layout (pe_fields demo_env) (Suc 1) 1 36"
    using demo_layout by (simp add: numeral_2_eq_2 del: static_layout.simps)
  have n: "2 * Suc 1 \<le> (4 :: nat)" and len: "length (pe_fields demo_env 1) \<le> 2 ^ 32"
    and empty: "is_bytes_left (d_in (demo_state [])) = 0" and total: "required_total (pe_fields demo_env 1) \<noteq> 0"
    by (simp_all add: layout_eval demo_state_def pb_istream_from_buffer_def required_total_def required_before_def)
  from pb_decode_nothing [OF lay demo_placed n len empty] total show ?thesis
    by (auto simp del: pb_message_set_to_defaults.simps)
qed

section \<open>Arrays of a fixed count\<close>

text \<open>
  \<open>PB_REPEATED_FIXED_COUNT\<close> describes an array without a count field by \<open>size_offset = 0\<close>, so
  that \<open>pSize\<close> is the array itself. The defaults still store a count through it.
\<close>

definition fixed_count_pair :: "pb_field list" where
  "fixed_count_pair =
     [\<lparr>tag = 1, ftype = 0x20, data_offset = 0, size_offset = 0, data_size = 1, array_size = 2, fptr = 0\<rparr>,
      pb_last_field]"

text \<open>
  C17. Arrays of a fixed count shorter than four bytes. For a message whose only field is an
  array of exactly two bools, a struct of two bytes, \<open>pb_decode\<close> of the empty input succeeds
  and clears four bytes: the two after the struct are overwritten.
\<close>

theorem fixed_count_defaults_overrun:
  assumes "dest \<noteq> 0" "pe_fields env p = fixed_count_pair" "is_bytes_left (d_in d) = 0"
  shows "pb_decode env (Suc (Suc n)) p dest d = Some (True, d\<lparr>d_mem := mem_write (d_mem d) dest [0, 0, 0, 0]\<rparr>)"
proof -
  let ?m = "mem_write (d_mem d) dest [0, 0, 0, 0]"
  have wf: "fields_wf fixed_count_pair" and total: "required_total fixed_count_pair = 0"
    and len: "length fixed_count_pair \<le> 2 ^ 32"
    by (simp_all add: fixed_count_pair_def fields_wf_def pb_last_field_def required_total_def required_before_def
        pb_htype_def)
  obtain it where it: "pb_field_iter_begin fixed_count_pair dest = (True, it)" "it_field it = fixed_count_pair ! 0"
    "it_pSize it = dest" "fst (pb_field_iter_next it) = False"
    using assms(1) by (simp add: pb_field_iter_begin_def pb_field_iter_next_def fixed_count_pair_def field_at_def pb_last_field_def
        Let_def)
  have "iter_run it = [it]" using it(4) by (subst iter_run.simps) (auto split: prod.split)
  then have "iter_fields fixed_count_pair dest = [it]" using it(1) by (simp add: iter_fields_def)
  moreover have "le_bytes 4 (0 :: u32) = [0, 0, 0, 0]" by (simp add: numeral_eq_Suc)
  ultimately have "pb_message_set_to_defaults (pe_fields env) (Suc (Suc n)) p dest (d_mem d) = Some ?m"
    using it(2,3) assms(2)
    by (simp add: fixed_count_pair_def pb_ltype_def pb_atype_def pb_htype_def Let_def del: mem_write.simps)
  moreover have "pb_decode_noinit env (Suc (Suc n)) p dest (d\<lparr>d_mem := ?m\<rparr>) = Some (True, d\<lparr>d_mem := ?m\<rparr>)"
    using noinit_empty [of env p "d\<lparr>d_mem := ?m\<rparr>" "Suc n" dest] wf len total assms(2,3)
    by (simp del: pb_decode_noinit.simps mem_write.simps)
  ultimately show ?thesis
    by (simp add: pb_decode_def decode_with_def d_defaults_def
        del: pb_decode_noinit.simps pb_message_set_to_defaults.simps mem_write.simps)
qed

theorem fixed_count_defaults_overrun_witness:
  "pb_decode (demo_env\<lparr>pe_fields := \<lambda>_. fixed_count_pair\<rparr>) 2 1 0x1000 (demo_state [])
     = Some (True, (demo_state [])\<lparr>d_mem := mem_write (d_mem (demo_state [])) 0x1000 [0, 0, 0, 0]\<rparr>)"
  unfolding numeral_2_eq_2
  by (rule fixed_count_defaults_overrun) (simp_all add: demo_state_def pb_istream_from_buffer_def)

end
