(* ===== verification/Cbs.thy ===== *)
theory Cbs
  imports Prelude
begin

text \<open>
  The byte-string parser of BoringSSL, \<open>CBS\<close> (crypto/bytestring/cbs.c): fixed-width and
  length-prefixed reads, the DER/BER element parser, and the typed ASN.1 readers.

  A \<open>CBS\<close> is the C struct: a pointer into the memory and a length. An operation takes the
  memory and the \<open>CBS\<close> and returns its outputs, or \<open>None\<close> for a zero return, and the
  \<open>CBS\<close> after the call, which may have advanced on failure too. What a failed call leaves in
  its output variables is not modelled: no caller in these files reads it.
\<close>

section \<open>Reading bytes\<close>

record cbs =
  cbs_data :: u64
  cbs_len :: u64

definition cbs_bytes :: "mem \<Rightarrow> cbs \<Rightarrow> bytes" where
  "cbs_bytes m c = mem_read m (cbs_data c) (unat (cbs_len c))"

definition CBS_init :: "u64 \<Rightarrow> u64 \<Rightarrow> cbs" where
  "CBS_init data n = \<lparr>cbs_data = data, cbs_len = n\<rparr>"

definition cbs_get :: "u64 \<Rightarrow> cbs \<Rightarrow> u64 option \<times> cbs" where
  "cbs_get n c =
     (if cbs_len c < n then (None, c)
      else (Some (cbs_data c), \<lparr>cbs_data = cbs_data c + n, cbs_len = cbs_len c - n\<rparr>))"

definition CBS_skip :: "u64 \<Rightarrow> cbs \<Rightarrow> unit option \<times> cbs" where
  "CBS_skip n c = apfst (map_option (\<lambda>_. ())) (cbs_get n c)"

text \<open>
  \<open>CBS_stow\<close> and \<open>CBS_strdup\<close> copy into fresh storage; \<open>ok\<close> is the allocator's answer to
  a request for so many bytes.
\<close>

definition CBS_stow :: "(u64 \<Rightarrow> bool) \<Rightarrow> mem \<Rightarrow> cbs \<Rightarrow> bytes option" where
  "CBS_stow ok m c =
     (if cbs_len c = 0 then Some []
      else if ok (cbs_len c) then Some (mem_read m (cbs_data c) (unat (cbs_len c))) else None)"

definition OPENSSL_strnlen :: "bytes \<Rightarrow> nat" where
  "OPENSSL_strnlen s = length (takeWhile (\<lambda>b. b \<noteq> 0) s)"

definition CBS_strdup :: "(u64 \<Rightarrow> bool) \<Rightarrow> mem \<Rightarrow> cbs \<Rightarrow> bytes option" where
  "CBS_strdup ok m c =
     (let n = of_nat (OPENSSL_strnlen (cbs_bytes m c)) :: u64 in
      if n + 1 < n then None
      else if ok (n + 1) then Some (mem_read m (cbs_data c) (unat n) @ [0]) else None)"

definition OPENSSL_memchr :: "bytes \<Rightarrow> u8 \<Rightarrow> nat option" where
  "OPENSSL_memchr s b =
     (let i = length (takeWhile (\<lambda>x. x \<noteq> b) s) in if i < length s then Some i else None)"

definition CBS_contains_zero_byte :: "mem \<Rightarrow> cbs \<Rightarrow> bool" where
  "CBS_contains_zero_byte m c = (OPENSSL_memchr (cbs_bytes m c) 0 \<noteq> None)"

definition CRYPTO_memcmp :: "bytes \<Rightarrow> bytes \<Rightarrow> u8" where
  "CRYPTO_memcmp a b = foldl (\<lambda>x (p, q). x OR (p XOR q)) 0 (zip a b)"

definition CBS_mem_equal :: "mem \<Rightarrow> cbs \<Rightarrow> u64 \<Rightarrow> u64 \<Rightarrow> bool" where
  "CBS_mem_equal m c data n =
     (if n \<noteq> cbs_len c then False
      else CRYPTO_memcmp (cbs_bytes m c) (mem_read m data (unat n)) = 0)"

section \<open>Integers\<close>

text \<open>The loop \<open>result = (result << 8) | data[i]\<close>.\<close>

definition be_loop :: "u64 \<Rightarrow> bytes \<Rightarrow> u64" where
  "be_loop = foldl (\<lambda>r b. push_bit 8 r OR ucast b)"

definition cbs_get_u :: "u64 \<Rightarrow> mem \<Rightarrow> cbs \<Rightarrow> u64 option \<times> cbs" where
  "cbs_get_u n m c =
     (case cbs_get n c of
        (None, c') \<Rightarrow> (None, c')
      | (Some p, c') \<Rightarrow> (Some (be_loop 0 (mem_read m p (unat n))), c'))"

definition CBS_get_u8 :: "mem \<Rightarrow> cbs \<Rightarrow> u8 option \<times> cbs" where
  "CBS_get_u8 m c = (case cbs_get 1 c of (None, c') \<Rightarrow> (None, c') | (Some p, c') \<Rightarrow> (Some (m p), c'))"

definition CBS_get_u16 :: "mem \<Rightarrow> cbs \<Rightarrow> u16 option \<times> cbs" where
  "CBS_get_u16 m c = apfst (map_option ucast) (cbs_get_u 2 m c)"

definition CBS_get_u24 :: "mem \<Rightarrow> cbs \<Rightarrow> u32 option \<times> cbs" where
  "CBS_get_u24 m c = apfst (map_option ucast) (cbs_get_u 3 m c)"

definition CBS_get_u32 :: "mem \<Rightarrow> cbs \<Rightarrow> u32 option \<times> cbs" where
  "CBS_get_u32 m c = apfst (map_option ucast) (cbs_get_u 4 m c)"

definition CBS_get_u64 :: "mem \<Rightarrow> cbs \<Rightarrow> u64 option \<times> cbs" where
  "CBS_get_u64 m c = cbs_get_u 8 m c"

definition CRYPTO_bswap2 :: "u16 \<Rightarrow> u16" where
  "CRYPTO_bswap2 x = drop_bit 8 x OR push_bit 8 x"

definition CRYPTO_bswap4 :: "u32 \<Rightarrow> u32" where
  "CRYPTO_bswap4 x =
     (let y = drop_bit 16 x OR push_bit 16 x
      in drop_bit 8 (y AND 0xff00ff00) OR push_bit 8 (y AND 0x00ff00ff))"

definition CRYPTO_bswap8 :: "u64 \<Rightarrow> u64" where
  "CRYPTO_bswap8 x =
     ucast (CRYPTO_bswap4 (ucast (drop_bit 32 x))) OR push_bit 32 (ucast (CRYPTO_bswap4 (ucast x)))"

definition CBS_get_u16le :: "mem \<Rightarrow> cbs \<Rightarrow> u16 option \<times> cbs" where
  "CBS_get_u16le m c = apfst (map_option CRYPTO_bswap2) (CBS_get_u16 m c)"

definition CBS_get_u32le :: "mem \<Rightarrow> cbs \<Rightarrow> u32 option \<times> cbs" where
  "CBS_get_u32le m c = apfst (map_option CRYPTO_bswap4) (CBS_get_u32 m c)"

definition CBS_get_u64le :: "mem \<Rightarrow> cbs \<Rightarrow> u64 option \<times> cbs" where
  "CBS_get_u64le m c = apfst (map_option CRYPTO_bswap8) (cbs_get_u 8 m c)"

definition CBS_get_last_u8 :: "mem \<Rightarrow> cbs \<Rightarrow> u8 option \<times> cbs" where
  "CBS_get_last_u8 m c =
     (if cbs_len c = 0 then (None, c)
      else (Some (m (cbs_data c + (cbs_len c - 1))), c\<lparr>cbs_len := cbs_len c - 1\<rparr>))"

definition CBS_get_bytes :: "u64 \<Rightarrow> cbs \<Rightarrow> cbs option \<times> cbs" where
  "CBS_get_bytes n c =
     (case cbs_get n c of (None, c') \<Rightarrow> (None, c') | (Some p, c') \<Rightarrow> (Some (CBS_init p n), c'))"

definition CBS_copy_bytes :: "u64 \<Rightarrow> mem \<Rightarrow> cbs \<Rightarrow> bytes option \<times> cbs" where
  "CBS_copy_bytes n m c =
     (case cbs_get n c of (None, c') \<Rightarrow> (None, c') | (Some p, c') \<Rightarrow> (Some (mem_read m p (unat n)), c'))"

text \<open>
  The outer \<open>None\<close> is the end of the program by the assertion that \<open>len_len\<close> is at most 3.
\<close>

definition cbs_get_length_prefixed :: "u64 \<Rightarrow> mem \<Rightarrow> cbs \<Rightarrow> (cbs option \<times> cbs) option" where
  "cbs_get_length_prefixed len_len m c =
     (case cbs_get_u len_len m c of
        (None, c') \<Rightarrow> Some (None, c')
      | (Some n, c') \<Rightarrow> if \<not> len_len \<le> 3 then None else Some (CBS_get_bytes n c'))"

definition CBS_get_u8_length_prefixed :: "mem \<Rightarrow> cbs \<Rightarrow> (cbs option \<times> cbs) option" where
  "CBS_get_u8_length_prefixed = cbs_get_length_prefixed 1"

definition CBS_get_u16_length_prefixed :: "mem \<Rightarrow> cbs \<Rightarrow> (cbs option \<times> cbs) option" where
  "CBS_get_u16_length_prefixed = cbs_get_length_prefixed 2"

definition CBS_get_u24_length_prefixed :: "mem \<Rightarrow> cbs \<Rightarrow> (cbs option \<times> cbs) option" where
  "CBS_get_u24_length_prefixed = cbs_get_length_prefixed 3"

definition CBS_get_until_first :: "u8 \<Rightarrow> mem \<Rightarrow> cbs \<Rightarrow> cbs option \<times> cbs" where
  "CBS_get_until_first b m c =
     (case OPENSSL_memchr (cbs_bytes m c) b of
        None \<Rightarrow> (None, c)
      | Some i \<Rightarrow> CBS_get_bytes (of_nat i) c)"

lemma cbs_get_u8_decreases:
  "CBS_get_u8 m c = (Some b, c') \<Longrightarrow> unat (cbs_len c') < unat (cbs_len c)"
  by (auto simp: CBS_get_u8_def cbs_get_def word_less_nat_alt unat_sub_if_size unat_gt_0 Suc_le_eq
      split: if_splits option.splits prod.splits)

section \<open>ASN.1 elements\<close>

abbreviation (input) "CBS_ASN1_TAG_SHIFT \<equiv> 24 :: nat"
abbreviation (input) "CBS_ASN1_CONSTRUCTED \<equiv> 0x20000000 :: u32"
abbreviation (input) "CBS_ASN1_TAG_NUMBER_MASK \<equiv> 0x1FFFFFFF :: u32"
abbreviation (input) "CBS_ASN1_BOOLEAN \<equiv> 0x1 :: u32"
abbreviation (input) "CBS_ASN1_INTEGER \<equiv> 0x2 :: u32"
abbreviation (input) "CBS_ASN1_OCTETSTRING \<equiv> 0x4 :: u32"

function parse_base128_loop :: "mem \<Rightarrow> u64 \<Rightarrow> cbs \<Rightarrow> u64 option \<times> cbs" where
  "parse_base128_loop m v c =
     (case CBS_get_u8 m c of
        (None, c') \<Rightarrow> (None, c')
      | (Some b, c') \<Rightarrow>
          if drop_bit (64 - 7) v \<noteq> 0 then (None, c')
          else if v = 0 \<and> b = 0x80 then (None, c')
          else (let v' = push_bit 7 v OR ucast (b AND 0x7f) in
                if b AND 0x80 \<noteq> 0 then parse_base128_loop m v' c' else (Some v', c')))"
  by pat_completeness auto
termination
  by (relation "measure (\<lambda>(m, v, c). unat (cbs_len c))") (auto dest: cbs_get_u8_decreases [OF sym])

declare parse_base128_loop.simps [simp del]

definition parse_base128_integer :: "mem \<Rightarrow> cbs \<Rightarrow> u64 option \<times> cbs" where
  "parse_base128_integer m c = parse_base128_loop m 0 c"

definition parse_asn1_tag :: "mem \<Rightarrow> cbs \<Rightarrow> u32 option \<times> cbs" where
  "parse_asn1_tag m c =
     (case CBS_get_u8 m c of
        (None, c') \<Rightarrow> (None, c')
      | (Some tag_byte, c') \<Rightarrow>
          (let tag = push_bit CBS_ASN1_TAG_SHIFT (ucast (tag_byte AND 0xe0)) :: u32;
               tag_number = ucast (tag_byte AND 0x1f) :: u32
           in if tag_number = 0x1f then
                (case parse_base128_integer m c' of
                   (None, c'') \<Rightarrow> (None, c'')
                 | (Some v, c'') \<Rightarrow>
                     if v > ucast CBS_ASN1_TAG_NUMBER_MASK \<or> v < 0x1f then (None, c'')
                     else (Some (tag OR ucast v), c''))
              else (Some (tag OR tag_number), c')))"

text \<open>The element (header included), its tag, its header length, and \<open>*out_ber_found\<close>.\<close>

type_synonym asn1_element = "cbs \<times> u32 \<times> u64 \<times> bool"

definition asn1_take :: "u64 \<Rightarrow> u32 \<Rightarrow> u64 \<Rightarrow> bool \<Rightarrow> cbs \<Rightarrow> asn1_element option \<times> cbs" where
  "asn1_take n tag header_len ber_found c =
     apfst (map_option (\<lambda>out. (out, tag, header_len, ber_found))) (CBS_get_bytes n c)"

definition cbs_get_any_asn1_element :: "bool \<Rightarrow> mem \<Rightarrow> cbs \<Rightarrow> asn1_element option \<times> cbs" where
  "cbs_get_any_asn1_element ber_ok m c =
     (case parse_asn1_tag m c of
        (None, _) \<Rightarrow> (None, c)
      | (Some tag, h1) \<Rightarrow>
          (case CBS_get_u8 m h1 of
             (None, _) \<Rightarrow> (None, c)
           | (Some length_byte, h2) \<Rightarrow>
               (let header_len = cbs_len c - cbs_len h2 in
                if length_byte AND 0x80 = 0 then
                  asn1_take (ucast length_byte + header_len) tag header_len False c
                else
                  (let num_bytes = ucast (length_byte AND 0x7f) :: u64 in
                   if ber_ok \<and> tag AND CBS_ASN1_CONSTRUCTED \<noteq> 0 \<and> num_bytes = 0
                     then asn1_take header_len tag header_len True c
                   else if num_bytes = 0 \<or> num_bytes > 4 then (None, c)
                   else
                     (case cbs_get_u num_bytes m h2 of
                        (None, _) \<Rightarrow> (None, c)
                      | (Some len64, _) \<Rightarrow>
                          (let long_form = len64 < 128;
                               padded = drop_bit (unat ((num_bytes - 1) * 8)) len64 = 0
                           in if long_form \<and> \<not> ber_ok then (None, c)
                              else if padded \<and> \<not> ber_ok then (None, c)
                              else if len64 + header_len + num_bytes < len64 then (None, c)
                              else asn1_take (len64 + (header_len + num_bytes)) tag
                                     (header_len + num_bytes) (long_form \<or> padded) c))))))"

definition CBS_get_any_asn1_element :: "mem \<Rightarrow> cbs \<Rightarrow> (cbs \<times> u32 \<times> u64) option \<times> cbs" where
  "CBS_get_any_asn1_element m c =
     apfst (map_option (\<lambda>(out, tag, header_len, _). (out, tag, header_len)))
       (cbs_get_any_asn1_element False m c)"

definition CBS_get_any_ber_asn1_element :: "mem \<Rightarrow> cbs \<Rightarrow> asn1_element option \<times> cbs" where
  "CBS_get_any_ber_asn1_element m c = cbs_get_any_asn1_element True m c"

definition CBS_get_any_asn1 :: "mem \<Rightarrow> cbs \<Rightarrow> (cbs \<times> u32) option \<times> cbs" where
  "CBS_get_any_asn1 m c =
     (case CBS_get_any_asn1_element m c of
        (None, c') \<Rightarrow> (None, c')
      | (Some (out, tag, header_len), c') \<Rightarrow>
          (case CBS_skip header_len out of
             (None, _) \<Rightarrow> (None, c')
           | (Some _, out') \<Rightarrow> (Some (out', tag), c')))"

definition cbs_get_asn1 :: "bool \<Rightarrow> u32 \<Rightarrow> mem \<Rightarrow> cbs \<Rightarrow> cbs option \<times> cbs" where
  "cbs_get_asn1 skip_header tag_value m c =
     (case CBS_get_any_asn1_element m c of
        (None, c') \<Rightarrow> (None, c')
      | (Some (out, tag, header_len), c') \<Rightarrow>
          if tag \<noteq> tag_value then (None, c')
          else if skip_header then
            (case CBS_skip header_len out of
               (None, _) \<Rightarrow> (None, c')
             | (Some _, out') \<Rightarrow> (Some out', c'))
          else (Some out, c'))"

definition CBS_get_asn1 :: "u32 \<Rightarrow> mem \<Rightarrow> cbs \<Rightarrow> cbs option \<times> cbs" where
  "CBS_get_asn1 tag_value m c = cbs_get_asn1 True tag_value m c"

definition CBS_get_asn1_element :: "u32 \<Rightarrow> mem \<Rightarrow> cbs \<Rightarrow> cbs option \<times> cbs" where
  "CBS_get_asn1_element tag_value m c = cbs_get_asn1 False tag_value m c"

definition CBS_peek_asn1_tag :: "u32 \<Rightarrow> mem \<Rightarrow> cbs \<Rightarrow> bool" where
  "CBS_peek_asn1_tag tag_value m c =
     (if cbs_len c < 1 then False else fst (parse_asn1_tag m c) = Some tag_value)"

section \<open>Typed readers\<close>

text \<open>\<open>None\<close> for invalid; otherwise whether the integer is negative.\<close>

definition CBS_is_valid_asn1_integer :: "mem \<Rightarrow> cbs \<Rightarrow> bool option" where
  "CBS_is_valid_asn1_integer m c =
     (case CBS_get_u8 m c of
        (None, _) \<Rightarrow> None
      | (Some first, c1) \<Rightarrow>
          (let neg = (first AND 0x80 \<noteq> 0) in
           case CBS_get_u8 m c1 of
             (None, _) \<Rightarrow> Some neg
           | (Some second, _) \<Rightarrow>
               if first = 0x00 \<and> second AND 0x80 = 0 \<or> first = 0xff \<and> second AND 0x80 \<noteq> 0
               then None else Some neg))"

definition CBS_is_unsigned_asn1_integer :: "mem \<Rightarrow> cbs \<Rightarrow> bool" where
  "CBS_is_unsigned_asn1_integer m c = (CBS_is_valid_asn1_integer m c = Some False)"

fun uint64_loop :: "u64 \<Rightarrow> bytes \<Rightarrow> u64 option" where
  "uint64_loop r [] = Some r"
| "uint64_loop r (b # bs) =
     (if drop_bit 56 r \<noteq> 0 then None else uint64_loop (push_bit 8 r OR ucast b) bs)"

definition CBS_get_asn1_uint64 :: "mem \<Rightarrow> cbs \<Rightarrow> u64 option \<times> cbs" where
  "CBS_get_asn1_uint64 m c =
     (case CBS_get_asn1 CBS_ASN1_INTEGER m c of
        (None, c') \<Rightarrow> (None, c')
      | (Some b, c') \<Rightarrow>
          if \<not> CBS_is_unsigned_asn1_integer m b then (None, c')
          else (uint64_loop 0 (cbs_bytes m b), c'))"

text \<open>The union of an \<open>int64_t\<close> and its bytes, on a little-endian target.\<close>

definition CBS_get_asn1_int64 :: "mem \<Rightarrow> cbs \<Rightarrow> u64 option \<times> cbs" where
  "CBS_get_asn1_int64 m c =
     (case CBS_get_asn1 CBS_ASN1_INTEGER m c of
        (None, c') \<Rightarrow> (None, c')
      | (Some b, c') \<Rightarrow>
          (case CBS_is_valid_asn1_integer m b of
             None \<Rightarrow> (None, c')
           | Some is_negative \<Rightarrow>
               if cbs_len b > 8 then (None, c')
               else
                 (let data = cbs_bytes m b;
                      fill = replicate (8 - length data) (if is_negative then 0xff else 0)
                  in (Some (le_word (rev data @ fill)), c'))))"

definition CBS_get_asn1_bool :: "mem \<Rightarrow> cbs \<Rightarrow> bool option \<times> cbs" where
  "CBS_get_asn1_bool m c =
     (case CBS_get_asn1 CBS_ASN1_BOOLEAN m c of
        (None, c') \<Rightarrow> (None, c')
      | (Some b, c') \<Rightarrow>
          if cbs_len b \<noteq> 1 then (None, c')
          else (let v = m (cbs_data b) in
                if v \<noteq> 0 \<and> v \<noteq> 0xff then (None, c') else (Some (v \<noteq> 0), c')))"

definition CBS_get_optional_asn1 :: "u32 \<Rightarrow> mem \<Rightarrow> cbs \<Rightarrow> cbs option option \<times> cbs" where
  "CBS_get_optional_asn1 tag m c =
     (if CBS_peek_asn1_tag tag m c
      then apfst (map_option Some) (CBS_get_asn1 tag m c)
      else (Some None, c))"

definition CBS_get_optional_asn1_octet_string :: "u32 \<Rightarrow> mem \<Rightarrow> cbs \<Rightarrow> cbs option option \<times> cbs" where
  "CBS_get_optional_asn1_octet_string tag m c =
     (case CBS_get_optional_asn1 tag m c of
        (None, c') \<Rightarrow> (None, c')
      | (Some None, c') \<Rightarrow> (Some None, c')
      | (Some (Some child), c') \<Rightarrow>
          (case CBS_get_asn1 CBS_ASN1_OCTETSTRING m child of
             (None, _) \<Rightarrow> (None, c')
           | (Some out, child') \<Rightarrow> if cbs_len child' \<noteq> 0 then (None, c') else (Some (Some out), c')))"

definition CBS_get_optional_asn1_uint64 :: "u32 \<Rightarrow> u64 \<Rightarrow> mem \<Rightarrow> cbs \<Rightarrow> u64 option \<times> cbs" where
  "CBS_get_optional_asn1_uint64 tag default_value m c =
     (case CBS_get_optional_asn1 tag m c of
        (None, c') \<Rightarrow> (None, c')
      | (Some None, c') \<Rightarrow> (Some default_value, c')
      | (Some (Some child), c') \<Rightarrow>
          (case CBS_get_asn1_uint64 m child of
             (None, _) \<Rightarrow> (None, c')
           | (Some v, child') \<Rightarrow> if cbs_len child' \<noteq> 0 then (None, c') else (Some v, c')))"

definition CBS_get_optional_asn1_bool :: "u32 \<Rightarrow> int \<Rightarrow> mem \<Rightarrow> cbs \<Rightarrow> int option \<times> cbs" where
  "CBS_get_optional_asn1_bool tag default_value m c =
     (case CBS_get_optional_asn1 tag m c of
        (None, c') \<Rightarrow> (None, c')
      | (Some None, c') \<Rightarrow> (Some default_value, c')
      | (Some (Some child), c') \<Rightarrow>
          (case CBS_get_asn1 CBS_ASN1_BOOLEAN m child of
             (None, _) \<Rightarrow> (None, c')
           | (Some child2, child') \<Rightarrow>
               if cbs_len child2 \<noteq> 1 \<or> cbs_len child' \<noteq> 0 then (None, c')
               else (let boolean = m (cbs_data child2) in
                     if boolean = 0 then (Some 0, c')
                     else if boolean = 0xff then (Some 1, c')
                     else (None, c'))))"

definition CBS_is_valid_asn1_bitstring :: "mem \<Rightarrow> cbs \<Rightarrow> bool" where
  "CBS_is_valid_asn1_bitstring m c =
     (case CBS_get_u8 m c of
        (None, _) \<Rightarrow> False
      | (Some num_unused_bits, c1) \<Rightarrow>
          if num_unused_bits > 7 then False
          else if num_unused_bits = 0 then True
          else (case CBS_get_last_u8 m c1 of
                  (None, _) \<Rightarrow> False
                | (Some last_byte, _) \<Rightarrow>
                    last_byte AND (push_bit (unat num_unused_bits) 1 - 1) = 0))"

definition CBS_asn1_bitstring_has_bit :: "u32 \<Rightarrow> mem \<Rightarrow> cbs \<Rightarrow> bool" where
  "CBS_asn1_bitstring_has_bit b m c =
     (if \<not> CBS_is_valid_asn1_bitstring m c then False
      else
        (let byte_num = drop_bit 3 b + 1; bit_num = 7 - (b AND 7) in
         ucast byte_num < cbs_len c
         \<and> m (cbs_data c + ucast byte_num) AND push_bit (unat bit_num) 1 \<noteq> 0))"

end
