(* ===== verification/CbsDer.thy ===== *)
theory CbsDer
  imports Cbs
begin

text \<open>
  What the element parser accepts: exactly the DER encodings of X.690. \<open>der_tag\<close> and
  \<open>der_length\<close> give the identifier and length octets of the standard; every operation of
  \<open>Cbs\<close> up to \<open>cbs_get_any_asn1_element\<close> is characterised on the bytes of its input, and
  the parser is shown to accept an element exactly when it starts with these octets.
\<close>

section \<open>Reads as operations on byte strings\<close>

definition cbs_adv :: "nat \<Rightarrow> cbs \<Rightarrow> cbs" where
  "cbs_adv n c = \<lparr>cbs_data = cbs_data c + of_nat n, cbs_len = cbs_len c - of_nat n\<rparr>"

lemma cbs_adv_0 [simp]: "cbs_adv 0 c = c"
  by (simp add: cbs_adv_def)

lemma length_cbs_bytes [simp]: "length (cbs_bytes m c) = unat (cbs_len c)"
  by (simp add: cbs_bytes_def)

lemma unat_sub_of_nat: "n \<le> unat w \<Longrightarrow> unat (w - of_nat n) = unat w - n" for w :: "'a::len word"
  by (metis unat_of_nat_small unat_sub word_le_nat_alt unsigned_less order.strict_trans1)

lemma cbs_bytes_adv [simp]: "n \<le> unat (cbs_len c) \<Longrightarrow> cbs_bytes m (cbs_adv n c) = drop n (cbs_bytes m c)"
  by (simp add: cbs_bytes_def cbs_adv_def unat_sub_of_nat)

lemma cbs_adv_adv [simp]: "cbs_adv k (cbs_adv n c) = cbs_adv (n + k) c"
  by (simp add: cbs_adv_def algebra_simps)

lemma cbs_len_adv [simp]: "cbs_len (cbs_adv n c) = cbs_len c - of_nat n"
  by (simp add: cbs_adv_def)

lemma cbs_data_adv [simp]: "cbs_data (cbs_adv n c) = cbs_data c + of_nat n"
  by (simp add: cbs_adv_def)

lemma cbs_get_eq:
  "cbs_get n c = (if unat (cbs_len c) < unat n then (None, c) else (Some (cbs_data c), cbs_adv (unat n) c))"
  by (simp add: cbs_get_def cbs_adv_def word_less_nat_alt)

lemma CBS_get_bytes_eq:
  "CBS_get_bytes n c = (if unat (cbs_len c) < unat n then (None, c)
     else (Some (CBS_init (cbs_data c) n), cbs_adv (unat n) c))"
  by (simp add: CBS_get_bytes_def cbs_get_eq)

lemma CBS_skip_eq:
  "CBS_skip n c = (if unat (cbs_len c) < unat n then (None, c) else (Some (), cbs_adv (unat n) c))"
  by (simp add: CBS_skip_def cbs_get_eq)

lemma cbs_bytes_init [simp]: "cbs_bytes m (CBS_init p n) = mem_read m p (unat n)"
  by (simp add: cbs_bytes_def CBS_init_def)

lemma cbs_bytes_prefix:
  "n \<le> unat (cbs_len c) \<Longrightarrow> mem_read m (cbs_data c) n = take n (cbs_bytes m c)"
  by (simp add: cbs_bytes_def min_def)

lemma cbs_bytes_Cons:
  assumes "cbs_bytes m c = b # xs"
  shows "m (cbs_data c) = b" "cbs_bytes m (cbs_adv 1 c) = xs" "1 \<le> unat (cbs_len c)"
proof -
  have len: "unat (cbs_len c) = Suc (length xs)"
    using arg_cong [OF assms, of length] by simp
  then show "1 \<le> unat (cbs_len c)" by simp
  show "m (cbs_data c) = b"
    using assms len by (simp add: cbs_bytes_def mem_read_Suc)
  show "cbs_bytes m (cbs_adv 1 c) = xs"
    using assms len cbs_bytes_adv [of 1 c m] by simp
qed

lemma CBS_get_u8_eq:
  "CBS_get_u8 m c = (case cbs_bytes m c of [] \<Rightarrow> (None, c) | b # xs \<Rightarrow> (Some b, cbs_adv 1 c))"
proof (cases "cbs_bytes m c")
  case Nil
  then have "unat (cbs_len c) = 0" using length_cbs_bytes [of m c] by simp
  with Nil show ?thesis by (simp add: CBS_get_u8_def cbs_get_eq)
next
  case (Cons b xs)
  from cbs_bytes_Cons [OF Cons] show ?thesis
    by (simp add: CBS_get_u8_def cbs_get_eq Cons)
qed

lemma cbs_get_u_eq:
  "cbs_get_u n m c = (if unat (cbs_len c) < unat n then (None, c)
     else (Some (be_loop 0 (take (unat n) (cbs_bytes m c))), cbs_adv (unat n) c))"
  by (simp add: cbs_get_u_def cbs_get_eq cbs_bytes_prefix)

section \<open>Big-endian numbers\<close>

definition digits_val :: "nat \<Rightarrow> nat list \<Rightarrow> nat" where
  "digits_val b = foldl (\<lambda>a d. a * b + d) 0"

lemma foldl_digits: "foldl (\<lambda>a d. a * b + d) v ds = v * b ^ length ds + digits_val b ds" for v b :: nat
proof (induction ds arbitrary: v)
  case Nil
  then show ?case by (simp add: digits_val_def)
next
  case (Cons d ds)
  have "digits_val b (d # ds) = d * b ^ length ds + digits_val b ds"
    using Cons.IH [of d] by (simp add: digits_val_def)
  with Cons.IH [of "v * b + d"] show ?case by (simp add: algebra_simps)
qed

lemma digits_val_simps [simp]:
  "digits_val b [] = 0"
  "digits_val b (d # ds) = d * b ^ length ds + digits_val b ds"
  "digits_val b (ds @ [d]) = digits_val b ds * b + d"
  using foldl_digits [of b d ds] by (simp_all add: digits_val_def)

text \<open>The digits of a number without leading zeros.\<close>

fun digits :: "nat \<Rightarrow> nat \<Rightarrow> nat list" where
  "digits b n = (if b \<le> 1 \<or> n < b then [n] else digits b (n div b) @ [n mod b])"

declare digits.simps [simp del]

lemma digits_nonempty [simp]: "digits b n \<noteq> []"
  by (subst digits.simps) simp

lemma digits_val_digits: "1 < b \<Longrightarrow> digits_val b (digits b n) = n"
proof (induction b n rule: digits.induct)
  case (1 b n)
  then show ?case by (cases "n < b") (simp_all add: digits.simps [of b n])
qed

lemma digits_less: "1 < b \<Longrightarrow> d \<in> set (digits b n) \<Longrightarrow> d < b"
proof (induction b n rule: digits.induct)
  case (1 b n)
  then show ?case by (cases "n < b") (auto simp: digits.simps [of b n])
qed

lemma digits_hd: "1 < b \<Longrightarrow> 0 < n \<Longrightarrow> hd (digits b n) \<noteq> 0"
proof (induction b n rule: digits.induct)
  case (1 b n)
  show ?case
  proof (cases "n < b")
    case False
    then have "0 < n div b" using "1.prems" by (simp add: div_greater_zero_iff)
    with 1 False show ?thesis by (simp add: digits.simps [of b n])
  qed (use 1 in \<open>simp add: digits.simps [of b n]\<close>)
qed

lemma digits_val_ge: "ds \<noteq> [] \<Longrightarrow> hd ds \<noteq> 0 \<Longrightarrow> b ^ (length ds - 1) \<le> digits_val b ds"
  by (cases ds) (auto intro: trans_le_add1 simp: mult_le_mono1 [of 1, simplified])

lemma digits_unique:
  assumes "1 < b" "ds \<noteq> []" "\<forall>d \<in> set ds. d < b" "length ds = 1 \<or> hd ds \<noteq> 0"
  shows "digits b (digits_val b ds) = ds"
  using assms(2-)
proof (induction ds rule: rev_induct)
  case Nil
  then show ?case by simp
next
  case (snoc d ds)
  show ?case
  proof (cases "ds = []")
    case True
    with snoc.prems assms(1) show ?thesis by (simp add: digits.simps)
  next
    case False
    with snoc.prems have hd: "hd ds \<noteq> 0" and d: "d < b" by auto
    have "1 \<le> b ^ (length ds - 1)" using assms(1) by simp
    then have pos: "0 < digits_val b ds" using digits_val_ge [OF False hd, of b] by simp
    have "1 * b \<le> digits_val b ds * b" using pos by (intro mult_le_mono1) simp
    then have "\<not> digits_val b ds * b + d < b" by linarith
    with snoc.IH False hd snoc.prems(2) assms(1) d show ?thesis
      by (subst digits.simps) simp
  qed
qed

lemma digits_length: "1 < b \<Longrightarrow> n < b ^ k \<Longrightarrow> length (digits b n) \<le> max 1 k"
proof (induction b n arbitrary: k rule: digits.induct)
  case (1 b n)
  show ?case
  proof (cases "n < b")
    case False
    with "1.prems" obtain j where j: "k = Suc j" "j \<noteq> 0"
      by (cases k; cases "k - 1") auto
    with "1.prems" have "n div b < b ^ j" by (simp add: less_mult_imp_div_less mult.commute)
    with 1 False j show ?thesis by (fastforce simp: digits.simps [of b n])
  qed (simp add: digits.simps [of b n])
qed

lemma digits_val_less: "\<forall>d \<in> set ds. d < b \<Longrightarrow> digits_val b ds < b ^ length ds"
proof (induction ds)
  case (Cons d ds)
  then have "digits_val b ds < b ^ length ds" "Suc d \<le> b" by auto
  moreover from this(2) have "Suc d * b ^ length ds \<le> b * b ^ length ds" by (rule mult_le_mono1)
  ultimately show ?case by simp
qed simp

text \<open>The loop of \<open>cbs_get_u\<close> computes the big-endian value.\<close>

lemma be_loop_val:
  assumes "length xs \<le> 8"
  shows "unat (be_loop 0 xs) = digits_val 256 (map unat xs)"
  using assms
proof (induction xs rule: rev_induct)
  case Nil
  then show ?case by (simp add: be_loop_def)
next
  case (snoc b xs)
  let ?v = "be_loop 0 xs"
  have "\<forall>d \<in> set (map unat xs). d < 256" using unsigned_less [where 'a = nat and 'b = 8] by auto
  from digits_val_less [OF this] have "unat ?v < 256 ^ length xs" using snoc by simp
  also have "256 ^ length xs \<le> (256 :: nat) ^ 7" using snoc.prems by (intro power_increasing) simp_all
  finally have v: "unat ?v < 2 ^ 56" by simp
  have "unat (push_bit 8 ?v OR ucast b) = unat ?v * 256 + unat b"
  proof -
    have "push_bit 8 ?v AND ucast b = 0"
      by (rule bit_word_eqI) (auto simp: bit_simps dest: bit_imp_le_length)
    then have "push_bit 8 ?v OR ucast b = push_bit 8 ?v + ucast b"
      by (simp add: disjunctive_add_eq_or)
    moreover have "unat (push_bit 8 ?v) = unat ?v * 256"
      using v unat_mult_lem [of ?v 256] by (simp add: push_bit_eq_mult)
    moreover have "unat (ucast b :: u64) = unat b"
      by (simp add: unsigned_ucast_eq take_bit_nat_eq_self order.strict_trans [OF unsigned_less])
    moreover have "unat ?v * 256 + unat b < 2 ^ 64" 
      using v unsigned_less [of b, where 'a = nat] by simp
    ultimately show ?thesis by (simp add: unat_word_ariths)
  qed
  with snoc show ?case by (simp add: be_loop_def)
qed

section \<open>Base-128 numbers\<close>

lemma u8_and_7F: "unat (b AND 0x7F :: u8) = unat b mod 128"
proof -
  have "b AND 0x7F = take_bit 7 b" by (simp add: take_bit_eq_mask mask_eq_exp_minus_1)
  then show ?thesis
    unfolding \<open>b AND 0x7F = take_bit 7 b\<close> unsigned_take_bit_eq by (simp add: take_bit_eq_mod)
qed

lemma u8_and_80: "b AND 0x80 = (0 :: u8) \<longleftrightarrow> unat b < 128"
proof -
  have "b AND 2 ^ 7 = 0 \<longleftrightarrow> \<not> bit b 7" by (rule and_exp_eq_0_iff_not_bit)
  moreover have "bit b 7 \<longleftrightarrow> bit (unat b) 7" by (simp add: bit_unsigned_iff)
  then have "bit b 7 \<longleftrightarrow> odd (unat b div 128)" by (simp add: bit_iff_odd)
  moreover have "\<not> unat b < 128 \<Longrightarrow> unat b div 128 = 1"
    using unsigned_less [of b, where 'a = nat] by (intro div_nat_eqI) simp_all
  ultimately show ?thesis by (cases "unat b < 128") auto
qed

lemma u8_bound: "unat (b :: u8) < 256"
  using unsigned_less [of b, where 'a = nat] by simp

lemma mod128_high: "128 \<le> n \<Longrightarrow> n < 256 \<Longrightarrow> n mod 128 = n - (128 :: nat)"
  by (simp add: le_mod_geq)

definition b128_val :: "bytes \<Rightarrow> nat" where
  "b128_val xs = digits_val 128 (map (\<lambda>b. unat b mod 128) xs)"

lemma b128_val_simps [simp]:
  "b128_val [] = 0" "b128_val (b # xs) = (unat b mod 128) * 128 ^ length xs + b128_val xs"
  by (simp_all add: b128_val_def)

text \<open>How many octets have the high bit set.\<close>

definition b128_more :: "bytes \<Rightarrow> nat" where
  "b128_more xs = length (takeWhile (\<lambda>b. 128 \<le> unat b) xs)"

lemma b128_more_simps [simp]:
  "b128_more [] = 0" "b128_more (b # xs) = (if 128 \<le> unat b then Suc (b128_more xs) else 0)"
  by (simp_all add: b128_more_def)

lemma b128_step:
  assumes "unat v < 2 ^ 57"
  shows "unat (push_bit 7 v OR ucast (b AND 0x7f :: u8) :: u64) = unat v * 128 + unat b mod 128"
proof -
  let ?b = "b AND 0x7f :: u8"
  have "push_bit 7 v AND ucast ?b = 0"
  proof (rule bit_word_eqI)
    fix n
    have "?b = take_bit 7 b" by (simp add: take_bit_eq_mask mask_eq_exp_minus_1)
    then show "bit (push_bit 7 v AND ucast ?b) n = bit (0 :: u64) n"
      by (auto simp: bit_simps)
  qed
  then have "push_bit 7 v OR ucast ?b = v * 128 + ucast ?b"
    by (simp add: disjunctive_add_eq_or push_bit_eq_mult)
  moreover have "unat (v * 128) = unat v * 128"
    using assms unat_mult_lem [of v 128] by simp
  moreover have "unat (ucast ?b :: u64) = unat b mod 128"
    by (simp add: unsigned_ucast_eq u8_and_7F take_bit_nat_eq_self)
  moreover have "unat b mod 128 < 128" by simp
  ultimately show ?thesis using assms by (simp add: unat_word_ariths)
qed

lemma drop57: "drop_bit 57 v = (0 :: u64) \<longleftrightarrow> unat v < 2 ^ 57"
proof -
  have "drop_bit 57 v = 0 \<longleftrightarrow> unat v div 2 ^ 57 = 0"
    by (simp add: unat_drop_bit_div flip: unat_0_iff)
  then show ?thesis by (simp add: div_eq_0_iff)
qed

lemma parse_base128_loop_eq:
  assumes "cbs_bytes m c = xs"
  shows "if b128_more xs < length xs \<and> (v \<noteq> 0 \<or> hd xs \<noteq> 0x80)
            \<and> unat v * 128 ^ Suc (b128_more xs) + b128_val (take (Suc (b128_more xs)) xs) < 2 ^ 64
         then parse_base128_loop m v c =
           (Some (of_nat (unat v * 128 ^ Suc (b128_more xs) + b128_val (take (Suc (b128_more xs)) xs))),
            cbs_adv (Suc (b128_more xs)) c)
         else fst (parse_base128_loop m v c) = None"
  using assms
proof (induction xs arbitrary: v c)
  case Nil
  then show ?case by (simp add: parse_base128_loop.simps CBS_get_u8_eq)
next
  case (Cons b xs)
  note c1 = cbs_bytes_Cons [OF Cons.prems]
  note unfold = parse_base128_loop.simps [of m v c] CBS_get_u8_eq Cons.prems
  show ?case
  proof (cases "unat v < 2 ^ 57")
    case False
    let ?k = "b128_more (b # xs)"
    have "2 ^ 57 * 128 \<le> unat v * 128 ^ Suc ?k"
      using False by (intro mult_le_mono) (simp_all)
    then have "\<not> unat v * 128 ^ Suc ?k + b128_val (take (Suc ?k) (b # xs)) < 2 ^ 64" by simp
    with False show ?thesis by (simp add: unfold drop57)
  next
    case small: True
    show ?thesis
    proof (cases "v = 0 \<and> b = 0x80")
      case True
      then show ?thesis by (auto simp: parse_base128_loop.simps [of m 0 c] CBS_get_u8_eq Cons.prems)
    next
      case ok: False
      let ?v = "push_bit 7 v OR ucast (b AND 0x7f) :: u64"
      note v = b128_step [OF small, of b]
      show ?thesis
      proof (cases "unat b < 128")
        case True
        then have "(of_nat (unat v * 128 + unat b) :: u64) = of_nat (unat ?v)" by (simp only: v) simp
        moreover have "unat v * 128 + unat b < 2 ^ 64" using small True by simp
        ultimately show ?thesis
          using ok small True by (auto simp: unfold drop57 u8_and_80 Let_def simp del: of_nat_add of_nat_mult)
      next
        case False
        have "?v \<noteq> 0"
        proof
          assume "?v = 0"
          then have "unat v * 128 + unat b mod 128 = 0" using v by simp
          then have "v = 0" "unat b mod 128 = 0" by (auto simp: unat_eq_0)
          moreover have "unat b < 256" using unsigned_less [of b, where 'a = nat] by simp
          ultimately have "unat b = 128" using False mod128_high [of "unat b"] by simp
          then have "b = 0x80" by (simp add: word_unat_eq_iff)
          with ok \<open>v = 0\<close> show False by simp
        qed
        moreover have "unat ?v * 128 ^ Suc (b128_more xs) + b128_val (take (Suc (b128_more xs)) xs)
            = unat v * 128 ^ Suc (b128_more (b # xs)) + b128_val (take (Suc (b128_more (b # xs))) (b # xs))"
          if "b128_more xs < length xs"
        proof -
          have "length (take (Suc (b128_more xs)) xs) = Suc (b128_more xs)" using that by simp
          then show ?thesis using False that by (simp add: v algebra_simps del: length_take)
        qed
        moreover have "parse_base128_loop m v c = parse_base128_loop m ?v (cbs_adv 1 c)"
          using ok small False by (auto simp: unfold drop57 u8_and_80 Let_def)
        ultimately show ?thesis
          using Cons.IH [OF c1(2), of ?v] ok False
          by (auto simp del: of_nat_add of_nat_mult b128_val_simps split: if_splits)
      qed
    qed
  qed
qed

text \<open>The octets that stand for a number: its base-128 digits, all but the last marked.\<close>

definition base128 :: "nat \<Rightarrow> bytes" where
  "base128 n = (let ds = digits 128 n in map (\<lambda>d. of_nat (d + 128)) (butlast ds) @ [of_nat (last ds)])"

text \<open>The numbers a string starts with, and how many octets it takes up.\<close>

definition base128_parse :: "bytes \<Rightarrow> (nat \<times> nat) option" where
  "base128_parse xs =
     (let k = Suc (b128_more xs); v = b128_val (take k xs) in
      if k \<le> length xs \<and> hd xs \<noteq> 0x80 \<and> v < 2 ^ 64 then Some (v, k) else None)"

lemma parse_base128_eq:
  "case base128_parse (cbs_bytes m c) of
     Some (n, k) \<Rightarrow> parse_base128_integer m c = (Some (of_nat n), cbs_adv k c)
   | None \<Rightarrow> fst (parse_base128_integer m c) = None"
  using parse_base128_loop_eq [of m c "cbs_bytes m c" 0]
  by (auto simp: base128_parse_def parse_base128_integer_def Let_def Suc_le_eq simp del: b128_val_simps
      split: if_splits)

lemma base128_parse_complete:
  assumes "n < 2 ^ 64"
  shows "base128_parse (base128 n @ rest) = Some (n, length (base128 n))"
proof -
  define ds where "ds = digits 128 n"
  have ds: "ds \<noteq> []" "\<forall>d \<in> set ds. d < 128" "digits_val 128 ds = n"
    using digits_less [of 128] by (auto simp: ds_def digits_val_digits)
  define hi where "hi = map (\<lambda>d. of_nat (d + 128) :: u8) (butlast ds)"
  have base: "base128 n = hi @ [of_nat (last ds)]" by (simp add: base128_def hi_def ds_def Let_def)
  have hi: "map unat hi = map (\<lambda>d. d + 128) (butlast ds)"
    using ds(2) in_set_butlastD [of _ ds] by (auto simp: hi_def simp del: of_nat_add)
  have "last ds < 128" using ds by simp
  then have lst: "unat (of_nat (last ds) :: u8) = last ds" "last ds < 128" by simp_all
  have big: "\<forall>b \<in> set hi. 128 \<le> unat b"
  proof
    fix b assume "b \<in> set hi"
    then have "unat b \<in> set (map unat hi)" by auto
    then show "128 \<le> unat b" unfolding hi by auto
  qed
  have more: "b128_more (base128 n @ rest) = length hi"
    using big lst by (simp add: b128_more_def base takeWhile_append)
  have "map (\<lambda>b. unat b mod 128) hi = map (\<lambda>d. d mod 128) (map unat hi)" by simp
  also have "\<dots> = map (\<lambda>d. (d + 128) mod 128) (butlast ds)" unfolding hi by simp
  also have "\<dots> = butlast ds" 
    using ds(2) in_set_butlastD [of _ ds] by (intro map_idI) auto
  finally have "b128_val (base128 n) = digits_val 128 (butlast ds @ [last ds])"
    using lst by (simp add: b128_val_def base)
  then have val: "b128_val (take (Suc (length hi)) (base128 n @ rest)) = n"
    using ds by (simp add: base)
  have "hd (base128 n @ rest) \<noteq> 0x80"
  proof (cases "butlast ds")
    case Nil
    then have "hd (base128 n @ rest) = of_nat (last ds)" by (simp add: base hi_def)
    with lst show ?thesis by (auto simp: word_unat_eq_iff)
  next
    case (Cons d ds')
    then have cons: "ds = d # ds' @ [last ds]" using append_butlast_last_id [OF ds(1)] by simp
    have d: "d = hd ds" "length ds \<noteq> 1" by (subst cons, simp)+
    have "0 < n"
    proof (rule ccontr)
      assume "\<not> 0 < n"
      then have "length ds = 1" by (simp add: ds_def digits.simps)
      with d show False by simp
    qed
    then have "d \<noteq> 0" using digits_hd [of 128 n] d by (simp add: ds_def)
    moreover have "d < 128" using ds(1,2) d(1) by simp
    moreover from this have "unat (of_nat (d + 128) :: u8) = d + 128"
      by (intro unat_of_nat_small) simp
    ultimately have "unat (of_nat (d + 128) :: u8) \<noteq> 128" by linarith
    then have "of_nat (d + 128) \<noteq> (0x80 :: u8)" by force
    with Cons show ?thesis by (simp add: base hi_def del: of_nat_add)
  qed
  with assms more val show ?thesis
    by (simp add: base128_parse_def Let_def) (simp add: base)
qed

lemma base128_parse_sound:
  assumes "base128_parse xs = Some (n, k)"
  shows "take k xs = base128 n" "n < 2 ^ 64" "k \<le> length xs" "0 < k"
proof -
  define j where "j = b128_more xs"
  have k: "k = Suc j" "Suc j \<le> length xs" and hd: "hd xs \<noteq> 0x80" and n: "n = b128_val (take k xs)"
    and lt: "n < 2 ^ 64"
    using assms by (auto simp: base128_parse_def Let_def j_def simp del: b128_val_simps split: if_splits)
  show "n < 2 ^ 64" "k \<le> length xs" "0 < k" using k lt by auto
  have hi: "take j xs = takeWhile (\<lambda>b. 128 \<le> unat b) xs"
    unfolding j_def b128_more_def by (metis takeWhile_eq_take)
  have big: "\<forall>b \<in> set (take j xs). 128 \<le> unat b \<and> unat b < 256"
    unfolding hi using unsigned_less [where 'a = nat and 'b = 8] by (auto dest: set_takeWhileD)
  have lst: "unat (xs ! j) < 128"
    using k(2) nth_length_takeWhile [of "\<lambda>b. 128 \<le> unat b" xs] by (simp add: j_def b128_more_def)
  have whole: "take k xs = take j xs @ [xs ! j]"
    using k by (simp add: take_Suc_conv_app_nth)
  define ds where "ds = map (\<lambda>b. unat b mod 128) (take k xs)"
  have "digits 128 (digits_val 128 ds) = ds"
  proof (rule digits_unique)
    show "length ds = 1 \<or> hd ds \<noteq> 0"
    proof (cases "j = 0")
      case True
      then show ?thesis using k by (simp add: ds_def)
    next
      case False
      then obtain b ys where xs: "xs = b # ys" using k by (cases xs) auto
      with False have "b \<in> set (take j xs)" by (cases j) auto
      with big have "128 \<le> unat b" "unat b < 256" by auto
      moreover have "unat b \<noteq> 128" using hd xs by (auto simp: word_unat_eq_iff)
      ultimately have "unat b mod 128 \<noteq> 0" by (simp add: mod128_high)
      with xs k show ?thesis by (simp add: ds_def)
    qed
  next
    show "\<forall>d \<in> set ds. d < 128" by (simp add: ds_def)
    have "length ds \<noteq> 0" using k by (simp add: ds_def)
    then show "ds \<noteq> []" by auto
  qed simp
  then have dig: "digits 128 n = ds" by (simp add: n ds_def b128_val_def)
  have but: "butlast ds = map (\<lambda>b. unat b mod 128) (take j xs)" and la: "last ds = unat (xs ! j)"
    using lst by (simp_all add: ds_def whole)
  have "map (\<lambda>d. of_nat (d + 128)) (butlast ds) = take j xs"
    unfolding but map_map
  proof (rule map_idI)
    fix b assume "b \<in> set (take j xs)"
    then have "128 \<le> unat b" "unat b < 256" using big by auto
    then have "unat b mod 128 + 128 = unat b" by (simp add: mod128_high)
    then show "((\<lambda>d. of_nat (d + 128)) \<circ> (\<lambda>b. unat b mod 128)) b = b" by (simp del: of_nat_add)
  qed
  then show "take k xs = base128 n"
    by (simp add: base128_def Let_def dig la whole del: of_nat_add)
qed

section \<open>Identifier octets\<close>

definition tag_bits :: "u32 \<Rightarrow> u8" where
  "tag_bits t = ucast (drop_bit 24 t) AND 0xe0"

definition tag_number :: "u32 \<Rightarrow> u32" where
  "tag_number t = t AND CBS_ASN1_TAG_NUMBER_MASK"

definition tag_join :: "u8 \<Rightarrow> u32 \<Rightarrow> u32" where
  "tag_join b n = push_bit 24 (ucast (b AND 0xe0)) OR n"

definition der_tag :: "u32 \<Rightarrow> bytes" where
  "der_tag t =
     (if unat (tag_number t) < 31 then [tag_bits t OR ucast (tag_number t)]
      else (tag_bits t OR 0x1f) # base128 (unat (tag_number t)))"

lemma tag_masks: "(0xe0 :: u8) = push_bit 5 (mask 3)" "(0x1f :: u8) = mask 5" "(0x1FFFFFFF :: u32) = mask 29"
  by (simp_all add: mask_eq_exp_minus_1)

lemma tag_join_split: "tag_join (ucast (drop_bit 24 t)) (tag_number t) = t"
  unfolding tag_join_def tag_number_def tag_masks
  by (rule bit_word_eqI) (auto simp: bit_simps)

lemma tag_number_bit:
  assumes "n AND CBS_ASN1_TAG_NUMBER_MASK = n" "bit n i"
  shows "i < 29"
proof -
  have "bit (n AND mask 29) i" using assms by (simp add: mask_eq_exp_minus_1)
  then show ?thesis by (simp only: bit_and_iff bit_mask_iff)
qed

lemma tag_bits_join:
  assumes "n AND CBS_ASN1_TAG_NUMBER_MASK = n"
  shows "tag_bits (tag_join b n) = b AND 0xe0"
  using tag_number_bit [OF assms]
  unfolding tag_bits_def tag_join_def tag_masks
  by (intro bit_word_eqI) (fastforce simp: bit_simps)

lemma tag_number_join:
  assumes "n AND CBS_ASN1_TAG_NUMBER_MASK = n"
  shows "tag_number (tag_join b n) = n"
proof (rule bit_word_eqI)
  fix i assume "i < LENGTH(32)"
  have "bit (push_bit 24 (ucast (b AND 0xe0)) :: u32) i \<Longrightarrow> \<not> i < 29"
    unfolding tag_masks by (auto simp: bit_simps)
  moreover have "bit (mask 29 :: u32) i \<longleftrightarrow> i < 29"
    using \<open>i < LENGTH(32)\<close> by (auto simp: bit_simps)
  ultimately show "bit (tag_number (tag_join b n)) i = bit n i"
    using tag_number_bit [OF assms, of i]
    unfolding tag_number_def tag_join_def tag_masks bit_and_iff bit_or_iff by blast
qed

lemma tag_byte_join: "(b AND 0xe0) OR (b AND 0x1f) = (b :: u8)"
  unfolding tag_masks by (rule bit_word_eqI) (auto simp: bit_simps)

lemma tag_number_small: "n AND CBS_ASN1_TAG_NUMBER_MASK = n \<longleftrightarrow> n \<le> CBS_ASN1_TAG_NUMBER_MASK"
proof -
  have "n AND CBS_ASN1_TAG_NUMBER_MASK = take_bit 29 n" by (simp add: take_bit_eq_mask mask_eq_exp_minus_1)
  moreover have "take_bit 29 n = n \<longleftrightarrow> unat n < 2 ^ 29"
    by (simp add: word_unat_eq_iff unsigned_take_bit_eq take_bit_nat_eq_self_iff)
  ultimately show ?thesis by (auto simp: word_le_nat_alt)
qed

text \<open>The tag that a string starts with, and the length of its identifier octets.\<close>

definition tag_parse :: "bytes \<Rightarrow> (u32 \<times> nat) option" where
  "tag_parse xs =
     (case xs of
        [] \<Rightarrow> None
      | b # ys \<Rightarrow>
          if b AND 0x1f \<noteq> 0x1f then Some (tag_join b (ucast (b AND 0x1f)), 1)
          else (case base128_parse ys of
                  None \<Rightarrow> None
                | Some (v, k) \<Rightarrow>
                    if v < 31 \<or> 2 ^ 29 \<le> v then None else Some (tag_join b (of_nat v), Suc k)))"

lemma low_number: "(ucast (b AND 0x1f :: u8) :: u32) = 0x1f \<longleftrightarrow> b AND 0x1f = 0x1f"
proof -
  have "unat (ucast (b AND 0x1f :: u8) :: u32) = unat (b AND 0x1f)"
    by (simp add: unsigned_ucast_eq take_bit_nat_eq_self order.strict_trans [OF unsigned_less])
  then show ?thesis by (simp add: word_unat_eq_iff)
qed

lemma parse_asn1_tag_eq:
  "case tag_parse (cbs_bytes m c) of
     Some (t, k) \<Rightarrow> parse_asn1_tag m c = (Some t, cbs_adv k c)
   | None \<Rightarrow> fst (parse_asn1_tag m c) = None"
proof (cases "cbs_bytes m c")
  case Nil
  then show ?thesis by (simp add: tag_parse_def parse_asn1_tag_def CBS_get_u8_eq)
next
  case (Cons b ys)
  note c1 = cbs_bytes_Cons [OF Cons]
  show ?thesis
  proof (cases "b AND 0x1f = 0x1f")
    case False
    then show ?thesis
      by (simp add: tag_parse_def parse_asn1_tag_def CBS_get_u8_eq Cons low_number tag_join_def Let_def)
  next
    case True
    show ?thesis
    proof (cases "base128_parse ys")
      case None
      then have "fst (parse_base128_integer m (cbs_adv 1 c)) = None"
        using parse_base128_eq [of m "cbs_adv 1 c"] c1(2) by simp
      with True None show ?thesis
        by (auto simp: tag_parse_def parse_asn1_tag_def CBS_get_u8_eq Cons Let_def split: prod.split option.split)
    next
      case (Some vk)
      then obtain v k where vk: "base128_parse ys = Some (v, k)" by (cases vk) auto
      then have p: "parse_base128_integer m (cbs_adv 1 c) = (Some (of_nat v), cbs_adv k (cbs_adv 1 c))"
        using parse_base128_eq [of m "cbs_adv 1 c"] c1(2) by simp
      have v: "unat (of_nat v :: u64) = v" using base128_parse_sound(2) [OF vk] by simp
      have "(of_nat v :: u64) > ucast CBS_ASN1_TAG_NUMBER_MASK \<or> (of_nat v :: u64) < 0x1f \<longleftrightarrow> v < 31 \<or> 2 ^ 29 \<le> v"
        using v by (auto simp: word_less_nat_alt)
      moreover have "v < 2 ^ 29 \<Longrightarrow> (ucast (of_nat v :: u64) :: u32) = of_nat v"
        by (simp add: word_unat_eq_iff unsigned_ucast_eq unsigned_of_nat take_bit_nat_eq_self)
      ultimately show ?thesis
        using True vk p
        by (auto simp: tag_parse_def parse_asn1_tag_def CBS_get_u8_eq Cons Let_def tag_join_def not_less)
    qed
  qed
qed

lemma tag_bits_low: "tag_bits t AND 0xe0 = tag_bits t" "tag_bits t AND 0x1f = 0"
  unfolding tag_bits_def tag_masks by (rule bit_word_eqI, auto simp: bit_simps)+

lemma tag_parse_complete: "tag_parse (der_tag t @ rest) = Some (t, length (der_tag t))"
proof (cases "unat (tag_number t) < 31")
  case True
  let ?n = "ucast (tag_number t) :: u8"
  have n: "unat ?n = unat (tag_number t)"
    using True by (simp add: unsigned_ucast_eq take_bit_nat_eq_self)
  have n5: "?n AND 0x1f = ?n"
  proof -
    have "?n AND 0x1f = take_bit 5 ?n" by (simp add: take_bit_eq_mask mask_eq_exp_minus_1)
    also have "\<dots> = ?n"
      using True n by (simp add: word_unat_eq_iff unsigned_take_bit_eq take_bit_nat_eq_self del: unsigned_ucast_eq)
    finally show ?thesis .
  qed
  have "?n AND 0xe0 = 0"
    by (subst n5 [symmetric]) (simp add: and.assoc)
  then have hi: "(tag_bits t OR ?n) AND 0xe0 = tag_bits t"
    by (simp add: bit.conj_disj_distrib2 tag_bits_low)
  have lo: "(tag_bits t OR ?n) AND 0x1f = ?n"
    by (simp add: bit.conj_disj_distrib2 tag_bits_low n5)
  have "?n \<noteq> 0x1f" using n True by (auto simp: word_unat_eq_iff)
  moreover have "(ucast ?n :: u32) = tag_number t"
  proof -
    have "(ucast ?n :: u32) = take_bit 8 (tag_number t)" by (rule bit_word_eqI) (auto simp: bit_simps)
    moreover have "unat (take_bit 8 (tag_number t)) = unat (tag_number t)"
      unfolding unsigned_take_bit_eq using True by (simp add: take_bit_nat_eq_self)
    ultimately show ?thesis by (simp add: word_unat_eq_iff)
  qed
  moreover have "tag_join (tag_bits t OR ?n) k = tag_join (ucast (drop_bit 24 t)) k" for k
    by (simp add: tag_join_def hi) (simp add: tag_bits_def)
  ultimately show ?thesis
    using True by (simp add: tag_parse_def der_tag_def lo tag_join_split)
next
  case False
  have lo: "(tag_bits t OR 0x1f) AND 0x1f = 0x1f" "(tag_bits t OR 0x1f) AND 0xe0 = tag_bits t"
    by (simp_all add: bit.conj_disj_distrib2 tag_bits_low)
  have "tag_number t AND CBS_ASN1_TAG_NUMBER_MASK = tag_number t" by (simp add: tag_number_def and.assoc)
  then have "tag_number t \<le> CBS_ASN1_TAG_NUMBER_MASK" by (simp add: tag_number_small)
  then have v: "unat (tag_number t) < 2 ^ 29" by (simp add: word_le_nat_alt)
  have "base128_parse (base128 (unat (tag_number t)) @ rest)
      = Some (unat (tag_number t), length (base128 (unat (tag_number t))))"
    using v by (intro base128_parse_complete) simp
  moreover have "tag_join (tag_bits t OR 0x1f) k = tag_join (ucast (drop_bit 24 t)) k" for k
    by (simp add: tag_join_def lo) (simp add: tag_bits_def)
  ultimately show ?thesis
    using False v by (simp add: tag_parse_def der_tag_def lo tag_join_split)
qed

lemma tag_parse_sound:
  assumes "tag_parse xs = Some (t, k)"
  shows "take k xs = der_tag t" "k \<le> length xs" "0 < k"
proof -
  obtain b ys where xs: "xs = b # ys" using assms by (cases xs) (auto simp: tag_parse_def)
  have low31: "unat (b AND 0x1f) < 32"
  proof -
    have "b AND 0x1f = take_bit 5 b" by (simp add: take_bit_eq_mask mask_eq_exp_minus_1)
    then show ?thesis unfolding \<open>b AND 0x1f = take_bit 5 b\<close> unsigned_take_bit_eq by (simp add: take_bit_eq_mod)
  qed
  show "take k xs = der_tag t" "k \<le> length xs" "0 < k"
  proof -
    consider (low) "b AND 0x1f \<noteq> 0x1f" "t = tag_join b (ucast (b AND 0x1f))" "k = 1"
      | (high) v j where "b AND 0x1f = 0x1f" "base128_parse ys = Some (v, j)" "31 \<le> v" "v < 2 ^ 29"
          "t = tag_join b (of_nat v)" "k = Suc j"
      using assms by (auto simp: tag_parse_def xs split: if_splits option.splits)
    then have "take k xs = der_tag t \<and> k \<le> length xs \<and> 0 < k"
    proof cases
      case low
      let ?n = "ucast (b AND 0x1f) :: u32"
      have n: "unat ?n = unat (b AND 0x1f)"
        by (simp add: unsigned_ucast_eq take_bit_nat_eq_self order.strict_trans [OF unsigned_less])
      with low31 have "?n \<le> CBS_ASN1_TAG_NUMBER_MASK" by (simp add: word_le_nat_alt)
      then have small: "?n AND CBS_ASN1_TAG_NUMBER_MASK = ?n" by (simp only: tag_number_small)
      have "unat (b AND 0x1f) \<noteq> 31" using low(1) by (auto simp: word_unat_eq_iff)
      then have "unat ?n < 31" using n low31 by simp
      moreover have "(ucast ?n :: u8) = b AND 0x1f"
        by (rule bit_word_eqI) (auto simp: bit_simps)
      ultimately show ?thesis
        using low tag_byte_join [of b]
        by (simp add: xs der_tag_def tag_number_join [OF small] tag_bits_join [OF small])
    next
      case high
      have "unat (of_nat v :: u32) = v" using high by simp
      moreover from this have "(of_nat v :: u32) AND CBS_ASN1_TAG_NUMBER_MASK = of_nat v"
        using high by (simp only: tag_number_small) (simp add: word_le_nat_alt)
      moreover have "(b AND 0xe0) OR 0x1f = b" using tag_byte_join [of b] high by simp
      ultimately show ?thesis
        using high base128_parse_sound [OF high(2)]
        by (simp add: xs der_tag_def tag_number_join tag_bits_join)
    qed
    then show "take k xs = der_tag t" "k \<le> length xs" "0 < k" by auto
  qed
qed

section \<open>Length octets and elements\<close>

definition be_octets :: "nat \<Rightarrow> bytes" where
  "be_octets n = map of_nat (digits 256 n)"

definition der_length :: "nat \<Rightarrow> bytes" where
  "der_length n =
     (if n < 128 then [of_nat n] else of_nat (128 + length (be_octets n)) # be_octets n)"

definition der_header :: "u32 \<Rightarrow> nat \<Rightarrow> bytes" where
  "der_header t n = der_tag t @ der_length n"

definition der_element :: "u32 \<Rightarrow> bytes \<Rightarrow> bytes" where
  "der_element t v = der_header t (length v) @ v"

lemma unat_be_octets: "map unat (be_octets n) = digits 256 n"
proof -
  have "d \<in> set (digits 256 n) \<Longrightarrow> unat (of_nat d :: u8) = d" for d
    using digits_less [of 256 d n] by (intro unat_of_nat_small) simp
  then show ?thesis by (simp add: be_octets_def map_idI)
qed

lemma length_be_octets: "length (be_octets n) = length (digits 256 n)"
  by (simp add: be_octets_def)

lemma be_loop_octets:
  assumes "n < 2 ^ 64"
  shows "be_loop 0 (be_octets n) = of_nat n"
proof -
  have "length (digits 256 n) \<le> 8" using digits_length [of 256 n 8] assms by simp
  then have "unat (be_loop 0 (be_octets n)) = n"
    using be_loop_val [of "be_octets n"] by (simp add: unat_be_octets digits_val_digits length_be_octets)
  then have "of_nat (unat (be_loop 0 (be_octets n))) = (of_nat n :: u64)" by (rule arg_cong)
  then show ?thesis by simp
qed

text \<open>
  The length octets a string starts with, as the parser reads them: the length, how many octets
  they take, and whether the form is one that only BER allows. The indefinite form is separate.
\<close>

definition length_parse :: "bytes \<Rightarrow> (nat \<times> nat \<times> bool) option" where
  "length_parse xs =
     (case xs of
        [] \<Rightarrow> None
      | b # ys \<Rightarrow>
          if unat b < 128 then Some (unat b, 1, False)
          else
            (let k = unat b - 128 in
             if k = 0 \<or> k > 4 \<or> length ys < k then None
             else (let n = digits_val 256 (map unat (take k ys))
                   in Some (n, Suc k, n < 128 \<or> n < 256 ^ (k - 1)))))"

lemma length_parse_complete:
  assumes "n < 2 ^ 32"
  shows "length_parse (der_length n @ rest) = Some (n, length (der_length n), False)"
proof (cases "n < 128")
  case True
  then have "unat (of_nat n :: u8) = n" by (intro unat_of_nat_small) simp
  with True show ?thesis by (simp add: length_parse_def der_length_def)
next
  case False
  let ?k = "length (digits 256 n)"
  have k: "?k \<le> 4" "0 < ?k" using digits_length [of 256 n 4] assms by simp_all
  then have "128 + ?k < 2 ^ LENGTH(8)" by simp
  then have b: "unat (of_nat (128 + ?k) :: u8) = 128 + ?k" by (rule unat_of_nat_small)
  have "256 ^ (?k - 1) \<le> n"
    using digits_val_ge [of "digits 256 n" 256] digits_hd [of 256 n] False
    by (simp add: digits_val_digits)
  with False k b show ?thesis
    by (simp add: length_parse_def der_length_def length_be_octets Let_def unat_be_octets
        digits_val_digits del: of_nat_add)
qed

lemma length_parse_sound:
  assumes "length_parse xs = Some (n, k, ber)"
  shows "k \<le> length xs" "0 < k" "n < 2 ^ 32" "\<not> ber \<Longrightarrow> take k xs = der_length n"
proof -
  obtain b ys where xs: "xs = b # ys" using assms by (cases xs) (auto simp: length_parse_def)
  have "k \<le> length xs \<and> 0 < k \<and> n < 2 ^ 32 \<and> (\<not> ber \<longrightarrow> take k xs = der_length n)"
  proof (cases "unat b < 128")
    case True
    with assms show ?thesis by (auto simp: length_parse_def xs der_length_def)
  next
    case False
    define j where "j = unat b - 128"
    define ds where "ds = map unat (take j ys)"
    have j: "0 < j" "j \<le> 4" "j \<le> length ys" "k = Suc j" and n: "n = digits_val 256 ds"
      and ber: "ber \<longleftrightarrow> n < 128 \<or> n < 256 ^ (j - 1)"
      using assms False by (auto simp: length_parse_def xs Let_def j_def ds_def split: if_splits)
    have small: "\<forall>d \<in> set ds. d < 256" using unsigned_less [where 'a = nat and 'b = 8] by (auto simp: ds_def)
    have len: "length ds = j" using j by (simp add: ds_def)
    have "n < 256 ^ j" using digits_val_less [OF small] n len by simp
    also have "\<dots> \<le> 256 ^ 4" using j by (intro power_increasing) simp_all
    finally have "n < 2 ^ 32" by simp
    moreover have "take k xs = der_length n" if "\<not> ber"
    proof -
      have ne: "ds \<noteq> []" using len j by auto
      have "hd ds \<noteq> 0 \<or> length ds = 1"
      proof (rule ccontr)
        assume "\<not> (hd ds \<noteq> 0 \<or> length ds = 1)"
        then obtain es where es: "ds = 0 # es" "length es = j - 1" using ne len by (cases ds) auto
        have "digits_val 256 es < 256 ^ length es" using small es by (intro digits_val_less) simp
        with es n ber that show False by simp
      qed
      then have "digits 256 n = ds" using digits_unique [of 256 ds] small ne n by auto
      then have "be_octets n = take j ys" by (simp add: be_octets_def ds_def o_def)
      moreover have "128 + j = unat b" using False by (simp add: j_def)
      then have "of_nat (128 + j) = b" by simp
      ultimately show ?thesis using that ber j len by (simp add: der_length_def xs del: of_nat_add)
    qed
    ultimately show ?thesis using j xs by auto
  qed
  then show "k \<le> length xs" "0 < k" "n < 2 ^ 32" "\<not> ber \<Longrightarrow> take k xs = der_length n" by auto
qed

text \<open>
  The element a string starts with: its tag, the length of its header, its whole length, and
  whether it has a form that only BER allows. An indefinite element is its header alone.
\<close>

definition element_parse :: "bool \<Rightarrow> bytes \<Rightarrow> (u32 \<times> nat \<times> nat \<times> bool) option" where
  "element_parse ber_ok xs =
     (case tag_parse xs of
        None \<Rightarrow> None
      | Some (t, i) \<Rightarrow>
          if ber_ok \<and> t AND CBS_ASN1_CONSTRUCTED \<noteq> 0 \<and> i < length xs \<and> xs ! i = 0x80
          then Some (t, Suc i, Suc i, True)
          else (case length_parse (drop i xs) of
                  None \<Rightarrow> None
                | Some (n, k, ber) \<Rightarrow>
                    if ber \<and> \<not> ber_ok \<or> length xs < i + k + n then None
                    else Some (t, i + k, i + k + n, ber)))"

lemma base128_length: "n < 2 ^ 64 \<Longrightarrow> length (base128 n) \<le> 10"
  using digits_length [of 128 n 10] by (simp add: base128_def Let_def)

lemma der_tag_length: "length (der_tag t) \<le> 11"
  using base128_length [of "unat (tag_number t)"]
  by (simp add: der_tag_def order.strict_trans [OF unsigned_less])

lemma asn1_take_eq:
  "asn1_take n t hl ber c =
     (if unat (cbs_len c) < unat n then (None, c)
      else (Some (CBS_init (cbs_data c) n, t, hl, ber), cbs_adv (unat n) c))"
  by (simp add: asn1_take_def CBS_get_bytes_eq)

lemma asn1_take_nat:
  "n < 2 ^ 64 \<Longrightarrow> asn1_take (of_nat n) t hl ber c =
     (if unat (cbs_len c) < n then (None, c)
      else (Some (CBS_init (cbs_data c) (of_nat n), t, hl, ber), cbs_adv n c))"
  by (simp add: asn1_take_eq)

text \<open>The length field of the parser, against \<open>length_parse\<close>.\<close>

lemma length_byte_cases:
  "ucast (b AND 0x7f :: u8) = (of_nat (unat b mod 128) :: u64)"
  by (simp add: word_unat_eq_iff unsigned_ucast_eq u8_and_7F take_bit_nat_eq_self)

lemma cbs_get_u_small:
  assumes "k \<le> 8"
  shows "cbs_get_u (of_nat k) m c =
    (if unat (cbs_len c) < k then (None, c)
     else (Some (of_nat (digits_val 256 (map unat (take k (cbs_bytes m c))))), cbs_adv k c))"
proof -
  have k: "unat (of_nat k :: u64) = k" using assms by (intro unat_of_nat_small) simp
  have "length (take k (cbs_bytes m c)) \<le> 8" using assms by simp
  from be_loop_val [OF this]
  have "of_nat (unat (be_loop 0 (take k (cbs_bytes m c)))) =
      (of_nat (digits_val 256 (map unat (take k (cbs_bytes m c)))) :: u64)" by (rule arg_cong)
  then show ?thesis by (simp add: cbs_get_u_eq k)
qed

lemma element_long_form:
  fixes b :: u8
  assumes "\<not> unat b < 128" "\<not> (ber_ok \<and> con \<and> unat b = 128)"
  shows "(let num_bytes = ucast (b AND 0x7f) :: u64 in
      if ber_ok \<and> con \<and> num_bytes = 0 then X
      else if num_bytes = 0 \<or> num_bytes > 4 then (None, c)
      else (case cbs_get_u num_bytes m h2 of (None, _) \<Rightarrow> (None, c) | (Some v, _) \<Rightarrow> K num_bytes v))
    = (let k = unat b - 128 in
       if k = 0 \<or> k > 4 \<or> unat (cbs_len h2) < k then (None, c)
       else K (of_nat k) (of_nat (digits_val 256 (map unat (take k (cbs_bytes m h2))))))"
proof -
  have b: "128 \<le> unat b" "unat b < 256" using assms(1) u8_bound [of b] by simp_all
  define k where "k = unat b - 128"
  have num: "ucast (b AND 0x7f :: u8) = (of_nat k :: u64)"
    by (simp add: length_byte_cases mod128_high [OF b] k_def)
  have k: "unat (of_nat k :: u64) = k" using b by (intro unat_of_nat_small) (simp add: k_def)
  then have "(of_nat k :: u64) = 0 \<longleftrightarrow> k = 0" "(of_nat k :: u64) > 4 \<longleftrightarrow> k > 4"
    by (auto simp: word_less_nat_alt word_unat_eq_iff)
  moreover have "unat b = 128 \<longleftrightarrow> k = 0" using b by (auto simp: k_def)
  ultimately show ?thesis
    using assms(2) by (auto simp: num k_def [symmetric] Let_def cbs_get_u_small)
qed

lemma element_length_checks:
  fixes n hl k :: nat
  assumes n: "n < 2 ^ 32" and hl: "hl < 2 ^ 32" and k: "0 < k" "k \<le> 4"
  shows "(of_nat n :: u64) < 128 \<longleftrightarrow> n < 128"
    "drop_bit (unat ((of_nat k - 1) * 8 :: u64)) (of_nat n :: u64) = 0 \<longleftrightarrow> n < 256 ^ (k - 1)"
    "\<not> (of_nat n :: u64) + of_nat hl + of_nat k < of_nat n"
    "unat ((of_nat n :: u64) + (of_nat hl + of_nat k)) = hl + k + n"
proof -
  have un: "unat (of_nat n :: u64) = n" using n by (intro unat_of_nat_small) simp
  then show "(of_nat n :: u64) < 128 \<longleftrightarrow> n < 128" by (simp add: word_less_nat_alt)
  have "(of_nat k - 1) * 8 = (of_nat ((k - 1) * 8) :: u64)" using k by (simp add: of_nat_diff algebra_simps)
  moreover have "unat (of_nat ((k - 1) * 8) :: u64) = (k - 1) * 8" using k by (intro unat_of_nat_small) simp
  ultimately have "unat ((of_nat k - 1) * 8 :: u64) = (k - 1) * 8" by simp
  moreover have "drop_bit j (of_nat n :: u64) = 0 \<longleftrightarrow> n < 2 ^ j" for j
  proof -
    have "drop_bit j (of_nat n :: u64) = 0 \<longleftrightarrow> unat (of_nat n :: u64) div 2 ^ j = 0"
      by (simp add: unat_drop_bit_div flip: unat_0_iff)
    then show ?thesis by (simp add: un div_eq_0_iff)
  qed
  moreover have "(256 :: nat) ^ (k - 1) = (2 ^ 8) ^ (k - 1)" by simp
  then have "(256 :: nat) ^ (k - 1) = 2 ^ ((k - 1) * 8)"
    unfolding power_mult [symmetric] by (simp only: mult.commute)
  ultimately show "drop_bit (unat ((of_nat k - 1) * 8 :: u64)) (of_nat n :: u64) = 0 \<longleftrightarrow> n < 256 ^ (k - 1)"
    by simp
  have "unat (of_nat (n + hl + k) :: u64) = n + hl + k" using n hl k by (intro unat_of_nat_small) simp
  then have s: "unat ((of_nat n :: u64) + of_nat hl + of_nat k) = n + hl + k" by simp
  then show "\<not> (of_nat n :: u64) + of_nat hl + of_nat k < of_nat n" using un by (simp add: word_less_nat_alt)
  show "unat ((of_nat n :: u64) + (of_nat hl + of_nat k)) = hl + k + n" using s by (simp add: add.assoc)
qed

lemma parse_element_eq:
  "cbs_get_any_asn1_element ber_ok m c =
     (case element_parse ber_ok (cbs_bytes m c) of
        None \<Rightarrow> (None, c)
      | Some (t, hl, n, ber) \<Rightarrow>
          (Some (CBS_init (cbs_data c) (of_nat n), t, of_nat hl, ber), cbs_adv n c))"
proof (cases "tag_parse (cbs_bytes m c)")
  case None
  then have "fst (parse_asn1_tag m c) = None" using parse_asn1_tag_eq [of m c] by simp
  with None show ?thesis
    by (cases "parse_asn1_tag m c") (simp add: cbs_get_any_asn1_element_def element_parse_def)
next
  case (Some ti)
  then obtain t i where ti: "tag_parse (cbs_bytes m c) = Some (t, i)" by (cases ti) auto
  let ?xs = "cbs_bytes m c"
  have tag: "parse_asn1_tag m c = (Some t, cbs_adv i c)" using parse_asn1_tag_eq [of m c] ti by simp
  have i: "i \<le> length ?xs" "i \<le> 11" "take i ?xs = der_tag t"
    using tag_parse_sound [OF ti] der_tag_length [of t] by (auto dest: arg_cong [where f = length])
  then have rest: "cbs_bytes m (cbs_adv i c) = drop i ?xs" by simp
  show ?thesis
  proof (cases "drop i ?xs")
    case Nil
    then show ?thesis
      by (simp add: cbs_get_any_asn1_element_def element_parse_def ti tag CBS_get_u8_eq rest length_parse_def)
  next
    case (Cons b ys)
    have u8: "CBS_get_u8 m (cbs_adv i c) = (Some b, cbs_adv (Suc i) c)"
      by (simp add: CBS_get_u8_eq rest Cons)
    have si: "Suc i \<le> unat (cbs_len c)" using Cons i(1) by (cases "i = length ?xs") auto
    have bytes2: "cbs_bytes m (cbs_adv (Suc i) c) = ys"
      using si Cons by (simp add: drop_Suc tl_drop [symmetric] drop_tl)
    have nth: "?xs ! i = b" using Cons by (metis hd_drop_conv_nth list.sel(1) drop_eq_Nil linorder_not_le list.distinct(1))
    have hl: "cbs_len c - cbs_len (cbs_adv (Suc i) c) = of_nat (Suc i)" by simp
    have len2: "unat (cbs_len (cbs_adv (Suc i) c)) = length ys"
      using length_cbs_bytes [of m "cbs_adv (Suc i) c"] bytes2 by simp
    have total: "unat (cbs_len c) = Suc i + length ys"
      using len2 si by (simp add: unat_sub_of_nat del: of_nat_Suc)
    have b80: "b = 0x80 \<longleftrightarrow> unat b = 128" by (simp add: word_unat_eq_iff)
    note unfold = cbs_get_any_asn1_element_def tag prod.case option.case u8 hl u8_and_80
    consider (short) "unat b < 128"
      | (indef) "unat b = 128" "ber_ok" "t AND CBS_ASN1_CONSTRUCTED \<noteq> 0"
      | (long) "\<not> unat b < 128" "\<not> (ber_ok \<and> t AND CBS_ASN1_CONSTRUCTED \<noteq> 0 \<and> unat b = 128)"
      by linarith
    then show ?thesis
    proof cases
      case short
      have "b \<noteq> 0x80" using short b80 by auto
      moreover have "(ucast b :: u64) + of_nat (Suc i) = of_nat (i + 1 + unat b)" by (simp add: add_ac)
      moreover have "i + 1 + unat b < 2 ^ 64" using short i(2) by simp
      moreover have "cbs_get_any_asn1_element ber_ok m c
          = asn1_take (ucast b + of_nat (Suc i)) t (of_nat (Suc i)) False c"
        unfolding unfold using short by (simp add: Let_def)
      ultimately show ?thesis
        using short by (simp add: element_parse_def ti nth Cons length_parse_def asn1_take_nat
            del: of_nat_Suc of_nat_add)
    next
      case indef
      have "(ucast (b AND 0x7f) :: u64) = 0" using indef by (simp add: length_byte_cases)
      then have "cbs_get_any_asn1_element ber_ok m c = asn1_take (of_nat (Suc i)) t (of_nat (Suc i)) True c"
        unfolding unfold using indef by (simp add: Let_def)
      moreover have "Suc i < 2 ^ 64" using i(2) by simp
      ultimately show ?thesis
        using indef si b80 by (simp add: element_parse_def ti nth asn1_take_nat del: of_nat_Suc)
    next
      case long
      define k where "k = unat b - 128"
      define n where "n = digits_val 256 (map unat (take k ys))"
      define K where "K = (\<lambda>num_bytes len64 :: u64.
             let long_form = len64 < 128; padded = drop_bit (unat ((num_bytes - 1) * 8)) len64 = 0
             in if long_form \<and> \<not> ber_ok then (None, c)
                else if padded \<and> \<not> ber_ok then (None, c)
                else if len64 + of_nat (Suc i) + num_bytes < len64 then (None, c)
                else asn1_take (len64 + (of_nat (Suc i) + num_bytes)) t
                       (of_nat (Suc i) + num_bytes) (long_form \<or> padded) c)"
      have "cbs_get_any_asn1_element ber_ok m c =
          (let num_bytes = ucast (b AND 0x7f) :: u64 in
            if ber_ok \<and> t AND CBS_ASN1_CONSTRUCTED \<noteq> 0 \<and> num_bytes = 0
              then asn1_take (of_nat (Suc i)) t (of_nat (Suc i)) True c
            else if num_bytes = 0 \<or> num_bytes > 4 then (None, c)
            else (case cbs_get_u num_bytes m (cbs_adv (Suc i) c) of
                    (None, _) \<Rightarrow> (None, c) | (Some v, _) \<Rightarrow> K num_bytes v))"
        unfolding unfold K_def if_not_P [OF long(1)] Let_def by (rule refl)
      then have eq: "cbs_get_any_asn1_element ber_ok m c =
          (if k = 0 \<or> k > 4 \<or> unat (cbs_len (cbs_adv (Suc i) c)) < k then (None, c)
           else K (of_nat k) (of_nat n))"
        unfolding element_long_form [OF long] bytes2 k_def n_def by (simp only: Let_def)
      show ?thesis
      proof (cases "k = 0 \<or> k > 4 \<or> length ys < k")
        case True
        then show ?thesis
          using long eq b80 nth len2 by (auto simp: element_parse_def ti nth Cons length_parse_def k_def Let_def)
      next
        case False
        have "n < 256 ^ k"
          using digits_val_less [of "map unat (take k ys)" 256] u8_bound False by (auto simp: n_def)
        also have "\<dots> \<le> 256 ^ 4" using False by (intro power_increasing) simp_all
        finally have n32: "n < 2 ^ 32" by simp
        have i32: "Suc i < 2 ^ 32" using i(2) by simp
        have k4: "0 < k" "k \<le> 4" using False by auto
        note checks = element_length_checks [OF n32 i32 k4]
        have small: "i + Suc k + n < 2 ^ 64" using n32 i(2) k4 by simp
        have w: "(of_nat n :: u64) + of_nat (i + Suc k) = of_nat (i + Suc k + n)"
          "(of_nat (Suc i) :: u64) + of_nat k = of_nat (i + Suc k)" by (simp_all add: add_ac)
        have Kkn: "K (of_nat k) (of_nat n) =
            (if (n < 128 \<or> n < 256 ^ (k - 1)) \<and> \<not> ber_ok then (None, c)
             else asn1_take (of_nat (i + Suc k + n)) t (of_nat (i + Suc k)) (n < 128 \<or> n < 256 ^ (k - 1)) c)"
          unfolding K_def Let_def checks(1,2) if_not_P [OF checks(3)] w
          by (cases "n < 128"; cases "n < 256 ^ (k - 1)"; cases ber_ok) (simp_all only: simp_thms if_True if_False)
        have "cbs_get_any_asn1_element ber_ok m c = K (of_nat k) (of_nat n)"
          unfolding eq using False len2 by (simp only: if_False)
        note this [unfolded Kkn]
        moreover have "length_parse (drop i ?xs) = Some (n, Suc k, n < 128 \<or> n < 256 ^ (k - 1))"
          using False long(1) by (simp add: Cons length_parse_def n_def k_def Let_def)
        moreover have "\<not> (ber_ok \<and> t AND CBS_ASN1_CONSTRUCTED \<noteq> 0 \<and> i < length ?xs \<and> ?xs ! i = 0x80)"
          using long(2) b80 nth by auto
        ultimately show ?thesis
          by (simp only: element_parse_def ti prod.case option.case if_False asn1_take_nat [OF small] length_cbs_bytes)
            auto
      qed
    qed
  qed
qed

section \<open>Exactly DER\<close>

lemma der_length_hd: "der_length n \<noteq> []" "n < 2 ^ 32 \<Longrightarrow> hd (der_length n) \<noteq> 0x80"
proof -
  show "der_length n \<noteq> []" by (simp add: der_length_def)
  assume n: "n < 2 ^ 32"
  show "hd (der_length n) \<noteq> 0x80"
  proof (cases "n < 128")
    case True
    then have "unat (of_nat n :: u8) = n" by (intro unat_of_nat_small) simp
    with True show ?thesis by (auto simp: der_length_def word_unat_eq_iff)
  next
    case False
    let ?k = "length (digits 256 n)"
    have k: "?k \<le> 4" "0 < ?k" using digits_length [of 256 n 4] n by simp_all
    then have "128 + ?k < 2 ^ LENGTH(8)" by simp
    then have "unat (of_nat (128 + ?k) :: u8) = 128 + ?k" by (rule unat_of_nat_small)
    with False k show ?thesis
      by (auto simp: der_length_def length_be_octets word_unat_eq_iff simp del: of_nat_add)
  qed
qed

lemma element_parse_complete:
  assumes "length v < 2 ^ 32"
  shows "element_parse ber_ok (der_element t v @ rest)
    = Some (t, length (der_header t (length v)), length (der_element t v), False)"
proof -
  let ?n = "length v"
  have nth: "(der_tag t @ der_length ?n @ v @ rest) ! length (der_tag t) = hd (der_length ?n)"
    using der_length_hd(1) [of ?n] by (simp add: nth_append hd_conv_nth)
  show ?thesis
    using tag_parse_complete [of t "der_length ?n @ v @ rest"] length_parse_complete [OF assms, of "v @ rest"]
      der_length_hd(2) [OF assms] nth
    by (simp add: element_parse_def der_element_def der_header_def)
qed

lemma element_parse_bounds:
  assumes "element_parse ber_ok xs = Some (t, hl, n, ber)"
  shows "hl \<le> n" "n \<le> length xs" "0 < hl" "n < 2 ^ 33"
proof -
  from assms obtain i where i: "tag_parse xs = Some (t, i)"
    by (auto simp: element_parse_def split: option.splits if_splits)
  note s = tag_parse_sound [OF i]
  have "length (take i xs) = i" using s(2) by simp
  then have i11: "i \<le> 11" using s(1) der_tag_length [of t] by simp
  have "hl \<le> n \<and> n \<le> length xs \<and> 0 < hl \<and> n < 2 ^ 33"
  proof (cases "ber_ok \<and> t AND CBS_ASN1_CONSTRUCTED \<noteq> 0 \<and> i < length xs \<and> xs ! i = 0x80")
    case True
    then show ?thesis using assms i s i11 by (auto simp: element_parse_def)
  next
    case False
    with assms i obtain k l b where l: "length_parse (drop i xs) = Some (l, k, b)"
      and r: "hl = i + k" "n = i + k + l" "n \<le> length xs"
      by (auto simp: element_parse_def split: option.splits if_splits)
    from length_parse_sound [OF l] have "0 < k" "l < 2 ^ 32" by auto
    moreover have "k \<le> 5"
    proof -
      have "length_parse ys = Some (l, k, b) \<Longrightarrow> k \<le> 5" for ys
        by (cases ys) (auto simp: length_parse_def Let_def split: if_splits)
      with l show ?thesis by blast
    qed
    ultimately show ?thesis using r s i11 by auto
  qed
  then show "hl \<le> n" "n \<le> length xs" "0 < hl" "n < 2 ^ 33" by auto
qed

lemma element_parse_sound:
  assumes "element_parse False xs = Some (t, hl, n, ber)"
  shows "xs = der_element t (take (n - hl) (drop hl xs)) @ drop n xs" "n - hl < 2 ^ 32"
    "hl = length (der_header t (n - hl))" "\<not> ber"
proof -
  from assms obtain i k l where i: "tag_parse xs = Some (t, i)"
    and l: "length_parse (drop i xs) = Some (l, k, ber)"
    and r: "hl = i + k" "n = i + k + l" "n \<le> length xs" and b: "\<not> ber"
    by (auto simp: element_parse_def split: option.splits if_splits)
  note s = tag_parse_sound [OF i] length_parse_sound [OF l]
  have kd: "take k (drop i xs) = der_length l" using s(7) b by blast
  have h: "take hl xs = der_header t l"
    using s(1) kd by (simp add: r take_add der_header_def)
  then show "hl = length (der_header t (n - hl))"
  proof -
    have "length (take hl xs) = hl" using r by simp
    moreover have "n - hl = l" using r by simp
    ultimately show ?thesis unfolding h by simp
  qed
  show "n - hl < 2 ^ 32" "\<not> ber" using s r b by auto
  have "xs = take hl xs @ take l (drop hl xs) @ drop n xs"
    using r by (metis append_take_drop_id drop_drop add.commute append.assoc)
  moreover have "length (take l (drop hl xs)) = l" using r by simp
  ultimately show "xs = der_element t (take (n - hl) (drop hl xs)) @ drop n xs"
    using h r by (simp add: der_element_def)
qed

lemma CBS_get_any_asn1_element_eq:
  "CBS_get_any_asn1_element m c =
     (case element_parse False (cbs_bytes m c) of
        None \<Rightarrow> (None, c)
      | Some (t, hl, n, _) \<Rightarrow> (Some (CBS_init (cbs_data c) (of_nat n), t, of_nat hl), cbs_adv n c))"
  by (auto simp: CBS_get_any_asn1_element_def parse_element_eq split: option.split)

text \<open>Past its header, an element is its content.\<close>

lemma skip_header:
  assumes "hl \<le> n" "n < 2 ^ 64"
  shows "CBS_skip (of_nat hl) (CBS_init p (of_nat n)) = (Some (), CBS_init (p + of_nat hl) (of_nat (n - hl)))"
proof -
  have "unat (of_nat n :: u64) = n" "unat (of_nat hl :: u64) = hl" using assms by auto
  then show ?thesis
    using assms by (simp add: CBS_skip_eq cbs_adv_def CBS_init_def of_nat_diff)
qed

lemma content_bytes:
  assumes "hl \<le> n" "n \<le> unat (cbs_len c)"
  shows "cbs_bytes m (CBS_init (cbs_data c + of_nat hl) (of_nat (n - hl))) = take (n - hl) (drop hl (cbs_bytes m c))"
proof -
  have "n - hl < 2 ^ LENGTH(64)" using assms(2) unsigned_less [of "cbs_len c", where 'a = nat] by simp
  then have "unat (of_nat (n - hl) :: u64) = n - hl" by (rule unat_of_nat_small)
  moreover have "take (n - hl) (drop hl (cbs_bytes m c)) = mem_read m (cbs_data c + of_nat hl) (n - hl)"
    using assms by (simp add: cbs_bytes_def min_absorb1)
  ultimately show ?thesis by (simp del: of_nat_diff)
qed

lemma CBS_get_any_asn1_eq:
  "CBS_get_any_asn1 m c =
     (case element_parse False (cbs_bytes m c) of
        None \<Rightarrow> (None, c)
      | Some (t, hl, n, _) \<Rightarrow>
          (Some (CBS_init (cbs_data c + of_nat hl) (of_nat (n - hl)), t), cbs_adv n c))"
proof -
  have "CBS_skip (of_nat hl) (CBS_init (cbs_data c) (of_nat n))
      = (Some (), CBS_init (cbs_data c + of_nat hl) (of_nat (n - hl)))"
    if "element_parse False (cbs_bytes m c) = Some (t, hl, n, b)" for t hl n b
    using element_parse_bounds [OF that] by (intro skip_header) simp_all
  then show ?thesis
    by (auto simp: CBS_get_any_asn1_def CBS_get_any_asn1_element_eq split: option.split)
qed

lemma any_asn1_exact:
  "(\<exists>out c'. CBS_get_any_asn1 m c = (Some (out, t), c') \<and> cbs_bytes m out = v \<and> cbs_bytes m c' = rest)
   \<longleftrightarrow> cbs_bytes m c = der_element t v @ rest \<and> length v < 2 ^ 32"
proof
  assume "\<exists>out c'. CBS_get_any_asn1 m c = (Some (out, t), c') \<and> cbs_bytes m out = v \<and> cbs_bytes m c' = rest"
  then obtain hl n ber where p: "element_parse False (cbs_bytes m c) = Some (t, hl, n, ber)"
    and v: "cbs_bytes m (CBS_init (cbs_data c + of_nat hl) (of_nat (n - hl))) = v"
    and rest: "cbs_bytes m (cbs_adv n c) = rest"
    by (auto simp: CBS_get_any_asn1_eq split: option.splits)
  note b = element_parse_bounds [OF p]
  have "v = take (n - hl) (drop hl (cbs_bytes m c))" "rest = drop n (cbs_bytes m c)"
    using v rest content_bytes [of hl n c m] b by auto
  moreover from this b have "length v = n - hl" by simp
  ultimately show "cbs_bytes m c = der_element t v @ rest \<and> length v < 2 ^ 32"
    using element_parse_sound [OF p] by simp
next
  assume a: "cbs_bytes m c = der_element t v @ rest \<and> length v < 2 ^ 32"
  let ?h = "length (der_header t (length v))" and ?n = "length (der_element t v)"
  have p: "element_parse False (cbs_bytes m c) = Some (t, ?h, ?n, False)"
    using a by (simp add: element_parse_complete)
  note b = element_parse_bounds [OF p]
  have le: "?n \<le> unat (cbs_len c)" using b(2) by simp
  have "cbs_bytes m (CBS_init (cbs_data c + of_nat ?h) (of_nat (?n - ?h))) = v"
    using b(1) le content_bytes [of ?h ?n c m] a by (simp add: der_element_def)
  moreover have "cbs_bytes m (cbs_adv ?n c) = rest" using le a by simp
  ultimately show "\<exists>out c'. CBS_get_any_asn1 m c = (Some (out, t), c') \<and> cbs_bytes m out = v \<and> cbs_bytes m c' = rest"
    using p by (simp add: CBS_get_any_asn1_eq)
qed

text \<open>
  C11. \<open>CBS_get_any_asn1\<close> accepts exactly DER: it returns tag \<open>t\<close> and content \<open>v\<close> and leaves
  \<open>rest\<close> if and only if its input is the DER encoding of \<open>t\<close> and \<open>v\<close> followed by \<open>rest\<close>, and
  the content is shorter than \<open>2 ^ 32\<close> bytes.
\<close>

theorem CBS_get_any_asn1_der:
  "(\<exists>out c'. CBS_get_any_asn1 m c = (Some (out, t), c') \<and> cbs_bytes m out = v \<and> cbs_bytes m c' = rest)
   \<longleftrightarrow> cbs_bytes m c = der_element t v @ rest \<and> length v < 2 ^ 32"
  by (rule any_asn1_exact)

end
