(* ===== verification/CbsTyped.thy ===== *)
theory CbsTyped
  imports CbsDer "HOL-Library.Sublist"
begin

text \<open>
  The typed ASN.1 readers of cbs.c against the DER contents they accept: integers
  (\<open>uint_octets\<close>, \<open>int_octets\<close>), booleans, optional elements and bit strings. Each reader
  accepts exactly the encodings of its results.
\<close>

section \<open>Contents octets of integers\<close>

definition be_val :: "bytes \<Rightarrow> nat" where
  "be_val bs = digits_val 256 (map unat bs)"

lemma be_val_simps [simp]:
  "be_val [] = 0"
  "be_val (b # bs) = unat b * 256 ^ length bs + be_val bs"
  "be_val (bs @ [b]) = be_val bs * 256 + unat b"
  by (simp_all add: be_val_def)

lemma be_val_less: "be_val bs < 256 ^ length bs"
  unfolding be_val_def using digits_val_less [of "map unat bs" 256] u8_bound by auto

lemma be_val_be_octets [simp]: "be_val (be_octets n) = n"
  by (simp add: be_val_def unat_be_octets digits_val_digits)

lemma be_octets_nonempty [simp]: "be_octets n \<noteq> []"
  by (simp add: be_octets_def)

lemma be_octets_be_val:
  assumes "bs \<noteq> []" "length bs = 1 \<or> hd bs \<noteq> 0"
  shows "be_octets (be_val bs) = bs"
proof -
  have "digits 256 (digits_val 256 (map unat bs)) = map unat bs"
    using assms u8_bound by (intro digits_unique) (auto simp: hd_map unat_eq_0)
  then show ?thesis by (simp add: be_octets_def be_val_def comp_def)
qed

text \<open>The minimal contents octets of a number that is not negative, and of any number.\<close>

definition uint_octets :: "nat \<Rightarrow> bytes" where
  "uint_octets n = (if 128 \<le> unat (hd (be_octets n)) then 0 # be_octets n else be_octets n)"

definition int_octets :: "int \<Rightarrow> bytes" where
  "int_octets i = (if 0 \<le> i then uint_octets (nat i) else map NOT (uint_octets (nat (- i - 1))))"

lemma be_val_uint_octets [simp]: "be_val (uint_octets n) = n"
  by (simp add: uint_octets_def)

text \<open>
  \<open>int_status\<close> decides on a string of contents octets: \<open>None\<close> for an invalid one, otherwise
  whether the number is negative.
\<close>

fun int_status :: "bytes \<Rightarrow> bool option" where
  "int_status [] = None"
| "int_status [b] = Some (128 \<le> unat b)"
| "int_status (b # d # bs) =
     (if b = 0 \<and> unat d < 128 \<or> b = 0xff \<and> 128 \<le> unat d then None else Some (128 \<le> unat b))"

lemma CBS_is_valid_asn1_integer_eq: "CBS_is_valid_asn1_integer m c = int_status (cbs_bytes m c)"
proof (cases "cbs_bytes m c")
  case Nil
  then show ?thesis by (simp add: CBS_is_valid_asn1_integer_def CBS_get_u8_eq)
next
  case (Cons b xs)
  note c1 = cbs_bytes_Cons [OF Cons, unfolded One_nat_def]
  show ?thesis
    by (cases xs) (auto simp: CBS_is_valid_asn1_integer_def CBS_get_u8_eq Cons c1 u8_and_80 not_less)
qed

lemma int_status_uint_octets: "int_status (uint_octets n) = Some False"
proof -
  obtain b bs where o: "be_octets n = b # bs" by (cases "be_octets n") auto
  have "bs \<noteq> [] \<Longrightarrow> b \<noteq> 0"
  proof
    assume "bs \<noteq> []" "b = 0"
    have ds: "digits 256 n = unat b # map unat bs" using o unat_be_octets [of n] by simp
    with \<open>bs \<noteq> []\<close> \<open>b = 0\<close> have hd: "hd (digits 256 n) = 0" and "length (digits 256 n) \<noteq> 1" by simp_all
    then have "n \<noteq> 0" by (cases "n = 0") (simp_all add: digits.simps [of 256 0])
    with hd show False using digits_hd [of 256 n] by simp
  qed
  with o show ?thesis by (cases bs) (auto simp: uint_octets_def)
qed

lemma int_status_pos: "int_status bs = Some False \<longleftrightarrow> bs = uint_octets (be_val bs)"
proof
  assume s: "int_status bs = Some False"
  show "bs = uint_octets (be_val bs)"
  proof (cases bs rule: int_status.cases)
    case (2 b)
    with s be_octets_be_val [of bs] show ?thesis by (simp add: uint_octets_def)
  next
    case (3 b d ds)
    show ?thesis
    proof (cases "b = 0")
      case True
      with s 3 have "128 \<le> unat d" by (auto split: if_splits)
      then have "be_octets (be_val (d # ds)) = d # ds" by (intro be_octets_be_val) auto
      with 3 True \<open>128 \<le> unat d\<close> show ?thesis by (simp add: uint_octets_def)
    next
      case False
      then have "be_octets (be_val bs) = bs" using 3 by (intro be_octets_be_val) auto
      moreover have "unat b < 128" using s 3 by (auto split: if_splits)
      ultimately show ?thesis using 3 by (simp add: uint_octets_def)
    qed
  qed (use s in simp)
qed (metis int_status_uint_octets)

lemma unat_NOT8: "unat (NOT b :: u8) = 255 - unat b"
proof -
  have "NOT b = - 1 - b" by (simp add: not_eq_complement)
  then have "NOT b = 255 - b" by simp
  moreover have "b \<le> 255" using u8_bound [of b] by (simp add: word_le_nat_alt)
  ultimately show ?thesis by (simp add: unat_sub)
qed

lemma int_status_NOT: "int_status (map NOT bs) = map_option Not (int_status bs)"
proof -
  have "(NOT b :: u8) = 0 \<longleftrightarrow> b = 0xff" "(NOT b :: u8) = 0xff \<longleftrightarrow> b = 0" for b
    using u8_bound [of b] by (auto simp: word_unat_eq_iff unat_NOT8)
  moreover have "128 \<le> unat (NOT b :: u8) \<longleftrightarrow> unat b < 128" for b
    unfolding unat_NOT8 using u8_bound [of b] by linarith
  moreover have "unat (NOT b :: u8) < 128 \<longleftrightarrow> 128 \<le> unat b" for b
    unfolding unat_NOT8 using u8_bound [of b] by linarith
  ultimately show ?thesis
    by (cases bs rule: int_status.cases) (auto simp: not_le)
qed

lemma int_status_neg: "int_status bs = Some True \<longleftrightarrow> bs = map NOT (uint_octets (be_val (map NOT bs)))"
proof -
  have dbl: "map NOT (map NOT xs) = xs" for xs :: bytes by (simp add: comp_def)
  have "int_status bs = Some True \<longleftrightarrow> int_status (map NOT bs) = Some False"
    by (simp add: int_status_NOT) (metis (full_types))
  also have "\<dots> \<longleftrightarrow> map NOT bs = uint_octets (be_val (map NOT bs))" by (rule int_status_pos)
  also have "\<dots> \<longleftrightarrow> bs = map NOT (uint_octets (be_val (map NOT bs)))" by (metis dbl)
  finally show ?thesis .
qed

text \<open>The number of octets.\<close>

lemma be_octets_length: "0 < k \<Longrightarrow> length (be_octets n) \<le> k \<longleftrightarrow> n < 256 ^ k"
proof
  assume "0 < k" "length (be_octets n) \<le> k"
  moreover have "n < 256 ^ length (be_octets n)" using be_val_less [of "be_octets n"] by simp
  ultimately show "n < 256 ^ k" by (meson order.strict_trans2 power_increasing one_le_numeral)
next
  assume "0 < k" "n < 256 ^ k"
  then show "length (be_octets n) \<le> k" using digits_length [of 256 n k] by (simp add: length_be_octets)
qed

lemma int_status_half:
  assumes "int_status bs = Some False"
  shows "2 * be_val bs < 256 ^ length bs"
proof -
  obtain b ds where b: "bs = b # ds" "unat b < 128"
    using assms by (cases bs rule: int_status.cases) (auto split: if_splits)
  define P :: nat where "P = 256 ^ length ds"
  define Q where "Q = unat b * P"
  have "Suc (unat b) * P \<le> 128 * P" using b(2) by (intro mult_le_mono1) simp
  then have "P + Q \<le> 128 * P" by (simp add: Q_def)
  moreover have "be_val ds < P" unfolding P_def by (rule be_val_less)
  ultimately have "2 * (Q + be_val ds) < 256 * P" by presburger
  then show ?thesis by (simp add: b(1) P_def Q_def)
qed

lemma uint_octets_length: "length (uint_octets n) \<le> 8 \<longleftrightarrow> n < 2 ^ 63"
proof
  assume "length (uint_octets n) \<le> 8"
  then have "(256 :: nat) ^ length (uint_octets n) \<le> 256 ^ 8" by (intro power_increasing) simp_all
  then show "n < 2 ^ 63" using int_status_half [OF int_status_uint_octets, of n] by simp
next
  assume n: "n < 2 ^ 63"
  show "length (uint_octets n) \<le> 8"
  proof (cases "128 \<le> unat (hd (be_octets n))")
    case False
    have "n < 256 ^ 8" using n by simp
    then have "length (be_octets n) \<le> 8" by (intro be_octets_length [THEN iffD2]) simp_all
    with False show ?thesis by (simp add: uint_octets_def)
  next
    case True
    obtain b bs where o: "be_octets n = b # bs" by (cases "be_octets n") auto
    have v: "unat b * 256 ^ length bs \<le> n" using be_val_be_octets [of n] unfolding o by simp
    have "length bs < 7"
    proof (rule ccontr)
      assume "\<not> length bs < 7"
      then have "(256 :: nat) ^ 7 \<le> 256 ^ length bs" by (intro power_increasing) simp_all
      then have "128 * 256 ^ 7 \<le> unat b * 256 ^ length bs" using True o by (intro mult_le_mono) simp_all
      with v n show False by simp
    qed
    with o show ?thesis by (simp add: uint_octets_def)
  qed
qed


section \<open>Readers\<close>

lemma CBS_get_asn1_eq:
  "CBS_get_asn1 t m c =
     (case CBS_get_any_asn1 m c of
        (Some (out, t'), c') \<Rightarrow> (if t' = t then Some out else None, c')
      | (None, c') \<Rightarrow> (None, c'))"
proof -
  have "CBS_skip h out = (None, o') \<Longrightarrow> element_parse False (cbs_bytes m c) = Some (t', hl, n, b) \<Longrightarrow>
      h = of_nat hl \<Longrightarrow> out = CBS_init (cbs_data c) (of_nat n) \<Longrightarrow> False" for h out o' t' hl n b
    using skip_header [of hl n "cbs_data c"] element_parse_bounds [of False "cbs_bytes m c" t' hl n b] by simp
  then show ?thesis
    by (auto simp: CBS_get_asn1_def cbs_get_asn1_def CBS_get_any_asn1_def CBS_get_any_asn1_element_eq
        split: option.splits prod.splits)
qed

lemma CBS_get_asn1_der:
  "(\<exists>out c'. CBS_get_asn1 t m c = (Some out, c') \<and> cbs_bytes m out = v \<and> cbs_bytes m c' = rest)
   \<longleftrightarrow> cbs_bytes m c = der_element t v @ rest \<and> length v < 2 ^ 32"
proof -
  have "CBS_get_asn1 t m c = (Some out, c') \<longleftrightarrow> CBS_get_any_asn1 m c = (Some (out, t), c')" for out c'
    by (auto simp: CBS_get_asn1_eq split: option.splits prod.splits)
  then show ?thesis by (simp add: any_asn1_exact)
qed

text \<open>The value an element's contents are read as, when the reader checks them with \<open>f\<close>.\<close>

lemma typed_reader:
  "(\<exists>out c'. CBS_get_asn1 t m c = (Some out, c') \<and> P (cbs_bytes m out) \<and> cbs_bytes m c' = rest)
   \<longleftrightarrow> (\<exists>v. P v \<and> cbs_bytes m c = der_element t v @ rest \<and> length v < 2 ^ 32)"
proof -
  have "(\<exists>out c'. CBS_get_asn1 t m c = (Some out, c') \<and> P (cbs_bytes m out) \<and> cbs_bytes m c' = rest)
      \<longleftrightarrow> (\<exists>v. P v \<and> (\<exists>out c'. CBS_get_asn1 t m c = (Some out, c') \<and> cbs_bytes m out = v \<and> cbs_bytes m c' = rest))"
    by blast
  then show ?thesis by (simp only: CBS_get_asn1_der)
qed

text \<open>The loop of \<open>CBS_get_asn1_uint64\<close> fails exactly when the value does not fit.\<close>

lemma drop56: "drop_bit 56 r = (0 :: u64) \<longleftrightarrow> unat r < 2 ^ 56"
proof -
  have "drop_bit 56 r = 0 \<longleftrightarrow> unat r div 2 ^ 56 = 0"
    by (metis unat_drop_bit_div unat_eq_0)
  then show ?thesis by (simp add: div_eq_0_iff)
qed

lemma shift_in:
  assumes "unat r < 2 ^ 56"
  shows "unat (push_bit 8 r OR ucast (b :: u8) :: u64) = unat r * 256 + unat b"
proof -
  have "push_bit 8 r AND ucast b = 0"
    by (rule bit_word_eqI) (auto simp: bit_simps dest: bit_imp_le_length)
  then have "push_bit 8 r OR ucast b = push_bit 8 r + ucast b" by (simp add: disjunctive_add_eq_or)
  moreover have "unat (push_bit 8 r) = unat r * 256"
    using assms unat_mult_lem [of r 256] by (simp add: push_bit_eq_mult)
  moreover have "unat (ucast b :: u64) = unat b"
    by (simp add: unsigned_ucast_eq take_bit_nat_eq_self order.strict_trans [OF unsigned_less])
  moreover have "unat r * 256 + unat b < 2 ^ 64" using assms u8_bound [of b] by simp
  ultimately show ?thesis by (simp add: unat_word_ariths)
qed

lemma uint64_loop_eq:
  "uint64_loop r bs =
     (if unat r * 256 ^ length bs + be_val bs < 2 ^ 64 then Some (of_nat (unat r * 256 ^ length bs + be_val bs))
      else None)"
proof (induction bs arbitrary: r)
  case Nil
  then show ?case using unsigned_less [of r, where 'a = nat] by simp
next
  case (Cons b bs)
  define P :: nat where "P = 256 ^ length bs"
  have P: "1 \<le> P" by (simp add: P_def)
  show ?case
  proof (cases "unat r < 2 ^ 56")
    case True
    then have "drop_bit 56 r = 0" by (simp only: drop56)
    moreover have "unat r * 256 ^ length (b # bs) + be_val (b # bs) = (unat r * 256 + unat b) * 256 ^ length bs + be_val bs"
      by (simp add: algebra_simps)
    ultimately show ?thesis
      unfolding uint64_loop.simps Cons.IH shift_in [OF True] by (simp only: simp_thms if_False)
  next
    case False
    then have "2 ^ 56 * (256 * P) \<le> unat r * (256 * P)" by (intro mult_le_mono1) simp
    moreover have "(2 :: nat) ^ 64 \<le> 2 ^ 56 * (256 * P)" using P by simp
    ultimately have "2 ^ 64 \<le> unat r * (256 * P)" by (rule order.trans [rotated])
    then have "2 ^ 64 \<le> unat r * 256 ^ length (b # bs)" unfolding length_Cons power_Suc P_def .
    then have "\<not> unat r * 256 ^ length (b # bs) + be_val (b # bs) < 2 ^ 64"
      unfolding not_less by (rule trans_le_add1)
    moreover have "drop_bit 56 r \<noteq> 0" using False by (simp only: drop56 not_False_eq_True)
    ultimately show ?thesis by simp
  qed
qed

lemma asn1_uint64_exact:
  "(\<exists>c'. CBS_get_asn1_uint64 m c = (Some v, c') \<and> cbs_bytes m c' = rest)
   \<longleftrightarrow> cbs_bytes m c = der_element CBS_ASN1_INTEGER (uint_octets (unat v)) @ rest"
proof -
  let ?P = "\<lambda>bs. int_status bs = Some False \<and> uint64_loop 0 bs = Some v"
  have "(\<exists>c'. CBS_get_asn1_uint64 m c = (Some v, c') \<and> cbs_bytes m c' = rest)
      \<longleftrightarrow> (\<exists>out c'. CBS_get_asn1 CBS_ASN1_INTEGER m c = (Some out, c') \<and> ?P (cbs_bytes m out) \<and> cbs_bytes m c' = rest)"
    by (auto simp: CBS_get_asn1_uint64_def CBS_is_unsigned_asn1_integer_def CBS_is_valid_asn1_integer_eq
        split: option.splits prod.splits)
  also have "\<dots> \<longleftrightarrow> (\<exists>bs. ?P bs \<and> cbs_bytes m c = der_element CBS_ASN1_INTEGER bs @ rest \<and> length bs < 2 ^ 32)"
    by (rule typed_reader)
  also have "\<dots> \<longleftrightarrow> cbs_bytes m c = der_element CBS_ASN1_INTEGER (uint_octets (unat v)) @ rest"
  proof -
    have eq: "?P bs \<longleftrightarrow> bs = uint_octets (unat v)" for bs
    proof
      assume p: "?P bs"
      then have "be_val bs < 2 ^ 64" "of_nat (be_val bs) = v"
        by (auto simp: uint64_loop_eq split: if_splits)
      then have "unat v = be_val bs" by auto
      with p show "bs = uint_octets (unat v)" by (simp add: int_status_pos)
    next
      assume "bs = uint_octets (unat v)"
      then show "?P bs"
        using unsigned_less [of v, where 'a = nat] by (simp add: int_status_uint_octets uint64_loop_eq)
    qed
    have "length (uint_octets (unat v)) \<le> 9"
      using be_octets_length [of 8 "unat v"] unsigned_less [of v, where 'a = nat] by (simp add: uint_octets_def)
    then show ?thesis by (simp add: eq)
  qed
  finally show ?thesis .
qed

text \<open>
  \<open>CBS_get_asn1_uint64\<close> reads \<open>v\<close> and leaves \<open>rest\<close> exactly when its input is the DER INTEGER
  of \<open>v\<close> followed by \<open>rest\<close>: negative, padded, empty and too large integers are refused.
\<close>

theorem CBS_get_asn1_uint64_der:
  "(\<exists>c'. CBS_get_asn1_uint64 m c = (Some v, c') \<and> cbs_bytes m c' = rest)
   \<longleftrightarrow> cbs_bytes m c = der_element CBS_ASN1_INTEGER (uint_octets (unat v)) @ rest"
  by (rule asn1_uint64_exact)


section \<open>Signed integers\<close>

lemma le_word_be_val: "length bs \<le> 8 \<Longrightarrow> unat (le_word (rev bs) :: u64) = be_val bs"
proof (induction bs rule: rev_induct)
  case (snoc b bs)
  have "be_val bs < 256 ^ length bs" by (rule be_val_less)
  also have "(256 :: nat) ^ length bs \<le> 256 ^ 7" using snoc.prems by (intro power_increasing) simp_all
  finally have "unat (le_word (rev bs) :: u64) < 2 ^ 56" using snoc by simp
  from shift_in [OF this, of b] snoc show ?case by (simp add: or.commute)
qed simp

lemma be_val_zeros [simp]: "be_val (replicate k 0 @ bs) = be_val bs"
  by (induction k) simp_all

lemma be_val_NOT: "be_val bs + be_val (map NOT bs) = 256 ^ length bs - 1"
proof (induction bs)
  case (Cons b bs)
  have "(unat b + (255 - unat b)) * 256 ^ length bs = 255 * 256 ^ length bs"
    using u8_bound [of b] by simp
  then have "unat b * 256 ^ length bs + (255 - unat b) * 256 ^ length bs = 255 * (256 :: nat) ^ length bs"
    by (simp only: add_mult_distrib)
  moreover have "(1 :: nat) \<le> 256 ^ length bs" by simp
  ultimately have "unat b * 256 ^ length bs + be_val bs + ((255 - unat b) * 256 ^ length bs + be_val (map NOT bs))
      = 256 * 256 ^ length bs - 1" using Cons by linarith
  then show ?case by (simp add: unat_NOT8)
qed simp

text \<open>The word that \<open>CBS_get_asn1_int64\<close> assembles: the octets, extended by the sign.\<close>

definition int64_word :: "bool \<Rightarrow> bytes \<Rightarrow> u64" where
  "int64_word neg bs = le_word (rev bs @ replicate (8 - length bs) (if neg then 0xff else 0))"

lemma int_status_NOT_neg: "int_status bs = Some True \<Longrightarrow> int_status (map NOT bs) = Some False"
  by (simp add: int_status_NOT)

lemma sint_small:
  assumes "2 * unat w < 2 ^ 64"
  shows "sint (w :: u64) = int (unat w)"
proof -
  have "unat w < 2 ^ 63" using assms by simp
  then have "int (unat w) < int (2 ^ 63)" by (simp only: of_nat_less_iff)
  then have "uint w < 2 ^ 63" by simp
  then have "signed_take_bit 63 (uint w) = uint w"
    by (intro signed_take_bit_int_eq_self) (simp_all add: order.trans [OF _ unsigned_greater_eq])
  then show ?thesis by (simp add: sint_uint)
qed

lemma sint_NOT: "sint (NOT w :: u64) = - sint w - 1"
proof -
  have "sint (NOT w) = NOT (sint w)"
    by (rule bit_eqI) (auto simp: bit_sint_iff bit_not_iff possible_bit_def min_def dest: bit_imp_le_length)
  then show ?thesis by (simp add: not_eq_complement)
qed

lemma int64_word_val:
  assumes "int_status bs = Some neg" "length bs \<le> 8"
  shows "sint (int64_word neg bs) = (if neg then - int (be_val (map NOT bs)) - 1 else int (be_val bs))"
proof -
  let ?k = "8 - length bs"
  let ?pad = "replicate ?k (if neg then 0xff else 0) @ bs"
  have w: "unat (int64_word neg bs) = be_val ?pad"
    using le_word_be_val [of ?pad] assms(2) by (simp add: int64_word_def)
  have half: "2 * be_val xs < 2 ^ 64" if "int_status xs = Some False" "length xs \<le> 8" for xs
  proof -
    have "(256 :: nat) ^ length xs \<le> 256 ^ 8" using that(2) by (intro power_increasing) simp_all
    with int_status_half [OF that(1)] show ?thesis by simp
  qed
  show ?thesis
  proof (cases neg)
    case False
    with half [of bs] assms w sint_small [of "int64_word neg bs"] show ?thesis by simp
  next
    case True
    let ?n = "be_val (map NOT bs)"
    have n: "2 * ?n < 2 ^ 64" using half [of "map NOT bs"] assms True int_status_NOT_neg by simp
    have "map NOT ?pad = replicate ?k 0 @ map NOT bs" using True by simp
    with be_val_NOT [of ?pad] assms(2) have "be_val ?pad + ?n = 2 ^ 64 - 1"
      by (simp del: map_append map_replicate)
    then have "unat (int64_word neg bs) = 2 ^ 64 - 1 - ?n" using w by simp
    moreover have "(- of_nat ?n - 1 :: u64) = - 1 - of_nat ?n" by simp
    moreover have "unat (- 1 - of_nat ?n :: u64) = 2 ^ 64 - 1 - ?n"
      using n by (subst unat_sub) (simp_all add: unsigned_minus_1_eq_mask mask_eq_exp_minus_1)
    ultimately have "int64_word neg bs = NOT (of_nat ?n)"
      by (simp only: word_unat_eq_iff not_eq_complement)
    then show ?thesis using True n sint_NOT sint_small [of "of_nat ?n"] by simp
  qed
qed

lemma int64_octets:
  "(\<exists>neg. int_status bs = Some neg \<and> length bs \<le> 8 \<and> int64_word neg bs = v) \<longleftrightarrow> bs = int_octets (sint v)"
proof
  assume "\<exists>neg. int_status bs = Some neg \<and> length bs \<le> 8 \<and> int64_word neg bs = v"
  then obtain neg where s: "int_status bs = Some neg" "length bs \<le> 8" "int64_word neg bs = v" by blast
  show "bs = int_octets (sint v)"
  proof (cases neg)
    case True
    then have "sint v = - int (be_val (map NOT bs)) - 1" using int64_word_val [OF s(1,2)] s(3) by simp
    then have "int_octets (sint v) = map NOT (uint_octets (be_val (map NOT bs)))" by (simp add: int_octets_def)
    with s(1) True show ?thesis using int_status_neg [of bs] by simp
  next
    case False
    then have "sint v = int (be_val bs)" using int64_word_val [OF s(1,2)] s(3) by simp
    with s(1) False show ?thesis using int_status_pos [of bs] by (simp add: int_octets_def)
  qed
next
  assume bs: "bs = int_octets (sint v)"
  have range: "sint v < 2 ^ 63" "- (2 ^ 63) \<le> sint v"
    using sint_lt [of v] sint_ge [of v] by simp_all
  define n where "n = (if 0 \<le> sint v then nat (sint v) else nat (- sint v - 1))"
  have n: "n < 2 ^ 63" using range by (auto simp: n_def nat_less_iff)
  have s: "int_status bs = Some (sint v < 0)"
    by (simp add: bs int_octets_def int_status_NOT int_status_uint_octets)
  have len: "length bs \<le> 8"
    using n uint_octets_length [of n] by (auto simp: bs int_octets_def n_def)
  have "be_val (if sint v < 0 then map NOT bs else bs) = n"
    by (simp add: bs int_octets_def n_def comp_def)
  then have "sint (int64_word (sint v < 0) bs) = sint v"
    using int64_word_val [OF s len] by (auto simp: n_def split: if_splits)
  then show "\<exists>neg. int_status bs = Some neg \<and> length bs \<le> 8 \<and> int64_word neg bs = v"
    using s len signed_word_eqI [of "int64_word (sint v < 0) bs" v, where 'a = int] by auto
qed

lemma int_octets_length: "length (int_octets (sint (v :: u64))) \<le> 8"
  using int64_octets [of "int_octets (sint v)" v, THEN iffD2, OF refl] by blast

lemma asn1_int64_exact:
  "(\<exists>c'. CBS_get_asn1_int64 m c = (Some v, c') \<and> cbs_bytes m c' = rest)
   \<longleftrightarrow> cbs_bytes m c = der_element CBS_ASN1_INTEGER (int_octets (sint v)) @ rest"
proof -
  let ?P = "\<lambda>bs. \<exists>neg. int_status bs = Some neg \<and> length bs \<le> 8 \<and> int64_word neg bs = v"
  have eq: "CBS_get_asn1_int64 m c =
      (case CBS_get_asn1 CBS_ASN1_INTEGER m c of
         (None, c') \<Rightarrow> (None, c')
       | (Some b, c') \<Rightarrow>
           (case int_status (cbs_bytes m b) of
              None \<Rightarrow> (None, c')
            | Some neg \<Rightarrow> (if length (cbs_bytes m b) \<le> 8 then Some (int64_word neg (cbs_bytes m b)) else None, c')))"
    by (auto simp: CBS_get_asn1_int64_def CBS_is_valid_asn1_integer_eq int64_word_def Let_def not_less
        word_le_nat_alt word_less_nat_alt split: option.splits prod.splits)
  have "(\<exists>c'. CBS_get_asn1_int64 m c = (Some v, c') \<and> cbs_bytes m c' = rest)
      \<longleftrightarrow> (\<exists>out c'. CBS_get_asn1 CBS_ASN1_INTEGER m c = (Some out, c') \<and> ?P (cbs_bytes m out) \<and> cbs_bytes m c' = rest)"
    unfolding eq by (auto simp del: length_cbs_bytes split: option.splits prod.splits if_splits)
  also have "\<dots> \<longleftrightarrow> (\<exists>bs. bs = int_octets (sint v) \<and> cbs_bytes m c = der_element CBS_ASN1_INTEGER bs @ rest
      \<and> length bs < 2 ^ 32)"
    unfolding int64_octets by (rule typed_reader [of _ _ _ "\<lambda>bs. bs = int_octets (sint v)"])
  also have "\<dots> \<longleftrightarrow> cbs_bytes m c = der_element CBS_ASN1_INTEGER (int_octets (sint v)) @ rest"
    using int_octets_length [of v] by auto
  finally show ?thesis .
qed

text \<open>
  C12. \<open>CBS_get_asn1_int64\<close> reads \<open>v\<close> and leaves \<open>rest\<close> exactly when its input is the DER INTEGER of
  the signed value of \<open>v\<close> followed by \<open>rest\<close>.
\<close>

theorem CBS_get_asn1_int64_der:
  "(\<exists>c'. CBS_get_asn1_int64 m c = (Some v, c') \<and> cbs_bytes m c' = rest)
   \<longleftrightarrow> cbs_bytes m c = der_element CBS_ASN1_INTEGER (int_octets (sint v)) @ rest"
  by (rule asn1_int64_exact)

section \<open>Booleans\<close>

lemma asn1_bool_exact:
  "(\<exists>c'. CBS_get_asn1_bool m c = (Some v, c') \<and> cbs_bytes m c' = rest)
   \<longleftrightarrow> cbs_bytes m c = der_element CBS_ASN1_BOOLEAN [if v then 0xff else 0] @ rest"
proof -
  have one: "cbs_bytes m b = [x] \<longleftrightarrow> cbs_len b = 1 \<and> m (cbs_data b) = x" for b x
  proof -
    have "cbs_bytes m b = [x] \<Longrightarrow> unat (cbs_len b) = 1" using length_cbs_bytes [of m b] by simp
    moreover have "unat (cbs_len b) = 1 \<longleftrightarrow> cbs_len b = 1" by (metis unat_1 word_unat_eq_iff)
    ultimately show ?thesis by (auto simp: cbs_bytes_def mem_read_Suc)
  qed
  have "(\<exists>c'. CBS_get_asn1_bool m c = (Some v, c') \<and> cbs_bytes m c' = rest)
      \<longleftrightarrow> (\<exists>out c'. CBS_get_asn1 CBS_ASN1_BOOLEAN m c = (Some out, c')
            \<and> cbs_bytes m out = [if v then 0xff else 0] \<and> cbs_bytes m c' = rest)"
    unfolding one by (auto simp: CBS_get_asn1_bool_def Let_def split: option.splits prod.splits if_splits)
  then show ?thesis by (simp add: CBS_get_asn1_der)
qed

text \<open>
  \<open>CBS_get_asn1_bool\<close> reads \<open>v\<close> and leaves \<open>rest\<close> exactly when its input is the DER BOOLEAN
  of \<open>v\<close>, whose one octet is \<open>0xff\<close> or \<open>0\<close>.
\<close>

theorem CBS_get_asn1_bool_der:
  "(\<exists>c'. CBS_get_asn1_bool m c = (Some v, c') \<and> cbs_bytes m c' = rest)
   \<longleftrightarrow> cbs_bytes m c = der_element CBS_ASN1_BOOLEAN [if v then 0xff else 0] @ rest"
  by (rule asn1_bool_exact)

section \<open>Optional elements\<close>

lemma CBS_peek_asn1_tag_prefix: "CBS_peek_asn1_tag t m c \<longleftrightarrow> prefix (der_tag t) (cbs_bytes m c)"
proof -
  let ?xs = "cbs_bytes m c"
  have "fst (parse_asn1_tag m c) = map_option fst (tag_parse ?xs)"
    using parse_asn1_tag_eq [of m c] by (auto split: option.splits)
  moreover have "cbs_len c < 1 \<Longrightarrow> tag_parse ?xs = None"
  proof -
    assume "cbs_len c < 1"
    then have "length ?xs = 0" by (simp add: word_less_nat_alt)
    then have "?xs = []" by (simp only: length_0_conv)
    then show ?thesis by (simp add: tag_parse_def)
  qed
  ultimately have "CBS_peek_asn1_tag t m c \<longleftrightarrow> (\<exists>k. tag_parse ?xs = Some (t, k))"
    by (auto simp: CBS_peek_asn1_tag_def)
  also have "\<dots> \<longleftrightarrow> prefix (der_tag t) ?xs"
  proof
    assume "\<exists>k. tag_parse ?xs = Some (t, k)"
    then obtain k where "take k ?xs = der_tag t" using tag_parse_sound by blast
    then show "prefix (der_tag t) ?xs" by (metis take_is_prefix)
  next
    assume "prefix (der_tag t) ?xs"
    then obtain rest where "?xs = der_tag t @ rest" by (auto simp: prefix_def)
    then show "\<exists>k. tag_parse ?xs = Some (t, k)" using tag_parse_complete [of t rest] by simp
  qed
  finally show ?thesis .
qed

lemma der_element_prefix: "prefix (der_tag t) (der_element t v @ rest)"
  by (simp add: der_element_def der_header_def prefix_def)

text \<open>
  An optional explicitly tagged integer is read as \<open>v\<close>, leaving \<open>rest\<close>, exactly when the
  input starts with the tag and is the doubly wrapped DER INTEGER of \<open>v\<close> and then \<open>rest\<close>, or
  when it does not start with the tag, \<open>v\<close> is the default, and nothing has been consumed.
\<close>

theorem CBS_get_optional_asn1_uint64_der:
  "(\<exists>c'. CBS_get_optional_asn1_uint64 t dflt m c = (Some v, c') \<and> cbs_bytes m c' = rest)
   \<longleftrightarrow> (if prefix (der_tag t) (cbs_bytes m c)
        then cbs_bytes m c = der_element t (der_element CBS_ASN1_INTEGER (uint_octets (unat v))) @ rest
        else v = dflt \<and> rest = cbs_bytes m c)"
proof (cases "prefix (der_tag t) (cbs_bytes m c)")
  case False
  then show ?thesis
    by (auto simp: CBS_get_optional_asn1_uint64_def CBS_get_optional_asn1_def CBS_peek_asn1_tag_prefix)
next
  case True
  let ?i = "der_element CBS_ASN1_INTEGER (uint_octets (unat v))"
  have inner: "(\<exists>b'. CBS_get_asn1_uint64 m b = (Some v, b') \<and> cbs_len b' = 0) \<longleftrightarrow> cbs_bytes m b = ?i" for b
  proof -
    have "cbs_len b' = 0 \<longleftrightarrow> cbs_bytes m b' = []" for b'
      by (metis length_0_conv length_cbs_bytes unat_eq_0)
    then show ?thesis using asn1_uint64_exact [of m b v "[]"] by simp
  qed
  have "(\<exists>c'. CBS_get_optional_asn1_uint64 t dflt m c = (Some v, c') \<and> cbs_bytes m c' = rest)
      \<longleftrightarrow> (\<exists>b c'. CBS_get_asn1 t m c = (Some b, c')
            \<and> (\<exists>b'. CBS_get_asn1_uint64 m b = (Some v, b') \<and> cbs_len b' = 0) \<and> cbs_bytes m c' = rest)"
    using True
    by (cases "CBS_get_asn1 t m c")
      (auto simp: CBS_get_optional_asn1_uint64_def CBS_get_optional_asn1_def CBS_peek_asn1_tag_prefix
        split: option.splits prod.splits)
  also have "\<dots> \<longleftrightarrow> cbs_bytes m c = der_element t ?i @ rest \<and> length ?i < 2 ^ 32"
    unfolding inner by (rule CBS_get_asn1_der)
  finally have "(\<exists>c'. CBS_get_optional_asn1_uint64 t dflt m c = (Some v, c') \<and> cbs_bytes m c' = rest)
      \<longleftrightarrow> cbs_bytes m c = der_element t ?i @ rest \<and> length ?i < 2 ^ 32" .
  moreover have "length ?i < 2 ^ 32"
  proof -
    have l: "length (uint_octets (unat v)) \<le> 9"
      using be_octets_length [of 8 "unat v"] unsigned_less [of v, where 'a = nat] by (simp add: uint_octets_def)
    then show ?thesis by (simp add: der_element_def der_header_def der_length_def der_tag_def Let_def tag_number_def)
  qed
  ultimately show ?thesis using True by simp
qed

section \<open>Bit strings\<close>

text \<open>The first octet of a BIT STRING counts the unused bits, which are the low bits of the last octet.\<close>

definition unused_ok :: "u8 \<Rightarrow> bytes \<Rightarrow> bool" where
  "unused_ok u bs \<longleftrightarrow> unat u \<le> 7 \<and> (u \<noteq> 0 \<longrightarrow> bs \<noteq> [] \<and> take_bit (unat u) (last bs) = 0)"

lemma CBS_get_last_u8_eq:
  "cbs_bytes m c = bs \<Longrightarrow> fst (CBS_get_last_u8 m c) = (if bs = [] then None else Some (last bs))"
proof -
  assume bs: "cbs_bytes m c = bs"
  have len: "unat (cbs_len c) = length bs" using bs length_cbs_bytes [of m c] by simp
  show ?thesis
  proof (cases "bs = []")
    case True
    with len have "cbs_len c = 0" by (simp add: unat_eq_0)
    with True show ?thesis by (simp add: CBS_get_last_u8_def)
  next
    case False
    with len have nz: "cbs_len c \<noteq> 0" by auto
    have "last bs = cbs_bytes m c ! (unat (cbs_len c) - 1)" using False bs len by (simp add: last_conv_nth)
    also have "\<dots> = m (cbs_data c + of_nat (unat (cbs_len c) - 1))"
      using len False by (simp add: cbs_bytes_def)
    also have "unat (cbs_len c) - 1 = unat (cbs_len c - 1)" using nz by (simp add: unat_minus_one)
    finally show ?thesis using False nz by (simp add: CBS_get_last_u8_def)
  qed
qed

lemma CBS_is_valid_asn1_bitstring_eq:
  "CBS_is_valid_asn1_bitstring m c \<longleftrightarrow> (\<exists>u bs. cbs_bytes m c = u # bs \<and> unused_ok u bs)"
proof (cases "cbs_bytes m c")
  case Nil
  then show ?thesis by (simp add: CBS_is_valid_asn1_bitstring_def CBS_get_u8_eq)
next
  case (Cons u bs)
  note c1 = cbs_bytes_Cons [OF Cons]
  have "push_bit n 1 - 1 = (mask n :: u8)" for n by (simp add: mask_eq_exp_minus_1 push_bit_eq_mult)
  then have "last bs AND (push_bit (unat u) 1 - 1) = take_bit (unat u) (last bs)"
    by (simp add: take_bit_eq_mask)
  moreover have "u \<le> 7 \<longleftrightarrow> unat u \<le> 7" by (simp add: word_le_nat_alt)
  ultimately show ?thesis
    using CBS_get_last_u8_eq [OF c1(2)]
    by (cases "CBS_get_last_u8 m (cbs_adv 1 c)")
      (auto simp: CBS_is_valid_asn1_bitstring_def CBS_get_u8_eq Cons unused_ok_def not_le split: if_splits)
qed

text \<open>
  \<open>CBS_asn1_bitstring_has_bit\<close> finds bit \<open>b\<close> set exactly when the contents are a valid BIT
  STRING, long enough for bit \<open>b\<close>, whose octet \<open>b div 8\<close> has the bit, counted from the top, set.
\<close>

theorem CBS_asn1_bitstring_has_bit_spec:
  "CBS_asn1_bitstring_has_bit b m c \<longleftrightarrow>
     (\<exists>u bs. cbs_bytes m c = u # bs \<and> unused_ok u bs
        \<and> unat b div 8 < length bs \<and> bit (bs ! (unat b div 8)) (7 - unat b mod 8))"
proof (cases "\<exists>u bs. cbs_bytes m c = u # bs \<and> unused_ok u bs")
  case False
  then show ?thesis using CBS_is_valid_asn1_bitstring_eq [of m c] by (auto simp: CBS_asn1_bitstring_has_bit_def)
next
  case True
  then obtain u bs where bs: "cbs_bytes m c = u # bs" "unused_ok u bs" by blast
  have len: "unat (cbs_len c) = Suc (length bs)" using bs(1) length_cbs_bytes [of m c] by simp
  have bn: "unat (drop_bit 3 b + 1) = Suc (unat b div 8)"
  proof -
    have "unat b div 8 + 1 < 2 ^ 32" using unsigned_less [of b, where 'a = nat] by simp
    then show ?thesis by (simp add: unat_word_ariths unat_drop_bit_div)
  qed
  moreover have "unat (ucast w :: u64) = unat w" for w :: u32
    by (simp add: unsigned_ucast_eq take_bit_nat_eq_self order.strict_trans [OF unsigned_less])
  ultimately have up: "unat (ucast (drop_bit 3 b + 1) :: u64) = Suc (unat b div 8)" by simp
  have off: "unat (7 - (b AND 7)) = 7 - unat b mod 8"
  proof -
    have "b AND 7 = take_bit 3 b" by (simp add: take_bit_eq_mask mask_eq_exp_minus_1)
    then have "unat (b AND 7) = take_bit 3 (unat b)" by (simp only: unsigned_take_bit_eq)
    then have "unat (b AND 7) = unat b mod 8" by (simp add: take_bit_eq_mod)
    moreover from this have "b AND 7 \<le> 7" by (simp add: word_le_nat_alt)
    ultimately show ?thesis by (simp add: unat_sub)
  qed
  have get: "m (cbs_data c + ucast (drop_bit 3 b + 1)) = bs ! (unat b div 8)" if "unat b div 8 < length bs"
  proof -
    have "of_nat (unat (ucast (drop_bit 3 b + 1) :: u64)) = (of_nat (Suc (unat b div 8)) :: u64)"
      using up by (rule arg_cong)
    then have "m (cbs_data c + ucast (drop_bit 3 b + 1)) = m (cbs_data c + of_nat (Suc (unat b div 8)))"
      by (simp del: of_nat_Suc)
    also have "\<dots> = (u # bs) ! Suc (unat b div 8)"
      unfolding bs(1) [symmetric] cbs_bytes_def using that len by (intro nth_mem_read [symmetric]) simp
    finally show ?thesis by simp
  qed
  have test: "x AND 2 ^ n = 0 \<longleftrightarrow> \<not> bit x n" for x :: u8 and n
    by (rule and_exp_eq_0_iff_not_bit)
  have "CBS_asn1_bitstring_has_bit b m c \<longleftrightarrow>
      unat b div 8 < length bs \<and> bit (bs ! (unat b div 8)) (7 - unat b mod 8)"
    using bs CBS_is_valid_asn1_bitstring_eq [of m c] get
    by (auto simp: CBS_asn1_bitstring_has_bit_def Let_def word_less_nat_alt up len test off)
  with bs show ?thesis by auto
qed

end
