(* ===== verification/Cbb.thy ===== *)
theory Cbb
  imports Cbs
begin

text \<open>
  The byte-string builder of BoringSSL, \<open>CBB\<close> (crypto/bytestring/cbb.c): a growing or fixed
  buffer, nested length-prefixed children whose prefixes are filled in by \<open>CBB_flush\<close>, and the
  ASN.1 writers on top.

  In C the \<open>CBB\<close> objects of one buffer form a chain through their \<open>child\<close> pointers. The model
  keeps the chain as one value: the shared buffer and, outermost first, the pending children. A
  \<open>CBB\<close> is named by its level in the chain, 0 for the top-level object; a level beyond the end
  of the chain is an object whose \<open>base\<close> has been set to \<open>NULL\<close>, on which every call fails.

  \<open>al\<close> is the allocator: \<open>al n\<close> is the content of a fresh block of \<open>n\<close> bytes, or \<open>None\<close>.
\<close>

type_synonym allocator = "u64 \<Rightarrow> bytes option"

section \<open>The buffer\<close>

record cbb_buffer =
  bb_buf :: bytes
  bb_len :: u64
  bb_cap :: u64
  bb_can_resize :: bool
  bb_error :: bool

record cbb_frame =
  fr_offset :: u64
  fr_len_len :: u8
  fr_is_asn1 :: bool

record cbb =
  cb_base :: "cbb_buffer option"
  cb_children :: "cbb_frame list"

definition CBB_zero :: cbb where
  "CBB_zero = \<lparr>cb_base = None, cb_children = []\<rparr>"

text \<open>\<open>cbb_init\<close>: the size of a \<open>struct cbb_buffer_st\<close> is 32.\<close>

definition cbb_init :: "allocator \<Rightarrow> bytes \<Rightarrow> u64 \<Rightarrow> cbb option" where
  "cbb_init al buf cap =
     (case al 32 of
        None \<Rightarrow> None
      | Some _ \<Rightarrow> Some \<lparr>cb_base = Some \<lparr>bb_buf = buf, bb_len = 0, bb_cap = cap, bb_can_resize = True,
                                      bb_error = False\<rparr>, cb_children = []\<rparr>)"

definition CBB_init :: "allocator \<Rightarrow> u64 \<Rightarrow> cbb option" where
  "CBB_init al initial_capacity =
     (case al initial_capacity of
        None \<Rightarrow> if initial_capacity > 0 then None else cbb_init al [] initial_capacity
      | Some buf \<Rightarrow> cbb_init al buf initial_capacity)"

definition CBB_init_fixed :: "allocator \<Rightarrow> bytes \<Rightarrow> u64 \<Rightarrow> cbb option" where
  "CBB_init_fixed al buf n =
     map_option (\<lambda>c. c\<lparr>cb_base := map_option (\<lambda>b. b\<lparr>bb_can_resize := False\<rparr>) (cb_base c)\<rparr>)
       (cbb_init al buf n)"

definition CBB_cleanup :: "nat \<Rightarrow> cbb \<Rightarrow> cbb" where
  "CBB_cleanup k c = (if k \<noteq> 0 then c else c\<lparr>cb_base := None\<rparr>)"

definition cbb_buffer_reserve :: "allocator \<Rightarrow> u64 \<Rightarrow> cbb_buffer \<Rightarrow> bool \<times> cbb_buffer" where
  "cbb_buffer_reserve al n b =
     (let newlen = bb_len b + n; err = (False, b\<lparr>bb_error := True\<rparr>) in
      if newlen < bb_len b then err
      else if newlen > bb_cap b then
        (if \<not> bb_can_resize b then err
         else
           (let newcap = bb_cap b * 2;
                newcap = (if newcap < bb_cap b \<or> newcap < newlen then newlen else newcap)
            in case al newcap of
                 None \<Rightarrow> err
               | Some block \<Rightarrow>
                   (True, b\<lparr>bb_buf := take (unat (bb_cap b)) (bb_buf b) @ drop (unat (bb_cap b)) block,
                            bb_cap := newcap\<rparr>)))
      else (True, b))"

definition cbb_buffer_add :: "allocator \<Rightarrow> u64 \<Rightarrow> cbb_buffer \<Rightarrow> bool \<times> cbb_buffer" where
  "cbb_buffer_add al n b =
     (case cbb_buffer_reserve al n b of
        (False, b') \<Rightarrow> (False, b')
      | (True, b') \<Rightarrow> (True, b'\<lparr>bb_len := bb_len b' + n\<rparr>))"

text \<open>The loops \<open>for (i = n - 1; i < n; i--) { buf[off + i] = v; v >>= 8; }\<close>.\<close>

fun store_be :: "bytes \<Rightarrow> nat \<Rightarrow> nat \<Rightarrow> u64 \<Rightarrow> bytes \<times> u64" where
  "store_be buf off 0 v = (buf, v)"
| "store_be buf off (Suc i) v = store_be (buf[off + i := ucast v]) off i (drop_bit 8 v)"

definition store_bytes :: "bytes \<Rightarrow> nat \<Rightarrow> bytes \<Rightarrow> bytes" where
  "store_bytes buf off bs = take off buf @ bs @ drop (off + length bs) buf"

definition cbb_buffer_add_u :: "allocator \<Rightarrow> u64 \<Rightarrow> u64 \<Rightarrow> cbb_buffer \<Rightarrow> bool \<times> cbb_buffer" where
  "cbb_buffer_add_u al v n b =
     (if n = 0 then (True, b)
      else (case cbb_buffer_add al n b of
              (False, b') \<Rightarrow> (False, b')
            | (True, b') \<Rightarrow>
                (case store_be (bb_buf b') (unat (bb_len b)) (unat n) v of
                   (buf, v') \<Rightarrow>
                     if v' \<noteq> 0 then (False, b'\<lparr>bb_buf := buf, bb_error := True\<rparr>)
                     else (True, b'\<lparr>bb_buf := buf\<rparr>))))"

section \<open>Flushing\<close>

text \<open>How many bytes an ASN.1 length takes, its first byte, and what is left to write.\<close>

definition asn1_length_form :: "u64 \<Rightarrow> u8 \<times> u8 \<times> u64" where
  "asn1_length_form n =
     (if n > 0xffffff then (5, 0x80 OR 4, n)
      else if n > 0xffff then (4, 0x80 OR 3, n)
      else if n > 0xff then (3, 0x80 OR 2, n)
      else if n > 0x7f then (2, 0x80 OR 1, n)
      else (1, ucast n, 0))"

text \<open>
  The prefix of one child whose own children have been flushed into \<open>b\<close>. \<open>None\<close> is the jump to
  \<open>err\<close>; the buffer then keeps what has been written so far.
\<close>

definition flush_prefix :: "allocator \<Rightarrow> cbb_frame \<Rightarrow> cbb_buffer \<Rightarrow> bool \<times> cbb_buffer" where
  "flush_prefix al fr b =
     (let child_start = fr_offset fr + ucast (fr_len_len fr) in
      if child_start < fr_offset fr \<or> bb_len b < child_start then (False, b)
      else
        (let n = bb_len b - child_start;
             finish = (\<lambda>off len_len n b.
               case store_be (bb_buf b) (unat off) (unat len_len) n of
                 (buf, rest) \<Rightarrow> (rest = 0, b\<lparr>bb_buf := buf\<rparr>))
         in if fr_is_asn1 fr then
              (if n > 0xfffffffe then (False, b)
               else (case asn1_length_form n of
                 (len_len, initial, n') \<Rightarrow>
                   (let moved =
                      (if len_len \<noteq> 1 then
                         (let extra = ucast (len_len - 1) :: u64 in
                          case cbb_buffer_add al extra b of
                            (False, b') \<Rightarrow> (False, b')
                          | (True, b') \<Rightarrow>
                              (True, b'\<lparr>bb_buf := store_bytes (bb_buf b') (unat (child_start + extra))
                                          (take (unat n) (drop (unat child_start) (bb_buf b')))\<rparr>))
                       else (True, b))
                    in case moved of
                         (False, b') \<Rightarrow> (False, b')
                       | (True, b') \<Rightarrow>
                           finish (fr_offset fr + 1) (len_len - 1) n'
                             (b'\<lparr>bb_buf := (bb_buf b')[unat (fr_offset fr) := initial]\<rparr>))))
            else finish (fr_offset fr) (fr_len_len fr) n b))"

fun flush_frames :: "allocator \<Rightarrow> cbb_frame list \<Rightarrow> cbb_buffer \<Rightarrow> bool \<times> cbb_buffer \<times> cbb_frame list" where
  "flush_frames al [] b = (if bb_error b then (False, b, []) else (True, b, []))"
| "flush_frames al (fr # frs) b =
     (if bb_error b then (False, b, fr # frs)
      else if fr_len_len fr = 0 then (True, b, fr # frs)
      else (case flush_frames al frs b of
              (ok, b1, frs1) \<Rightarrow>
                if \<not> ok then (False, b1\<lparr>bb_error := True\<rparr>, fr # frs1)
                else (case flush_prefix al fr b1 of
                        (ok2, b2) \<Rightarrow>
                          if \<not> ok2 then (False, b2\<lparr>bb_error := True\<rparr>, fr # frs1)
                          else (True, b2, []))))"

definition CBB_flush :: "allocator \<Rightarrow> nat \<Rightarrow> cbb \<Rightarrow> bool \<times> cbb" where
  "CBB_flush al k c =
     (case cb_base c of
        None \<Rightarrow> (False, c)
      | Some b \<Rightarrow>
          if k > length (cb_children c) then (False, c)
          else (case flush_frames al (drop k (cb_children c)) b of
                  (ok, b', frs) \<Rightarrow>
                    (ok, \<lparr>cb_base = Some b', cb_children = take k (cb_children c) @ frs\<rparr>)))"

text \<open>\<open>CBB_finish\<close>; \<open>outs\<close> says that both output pointers are given.\<close>

definition CBB_finish :: "allocator \<Rightarrow> bool \<Rightarrow> nat \<Rightarrow> cbb \<Rightarrow> bytes option \<times> cbb" where
  "CBB_finish al outs k c =
     (if k \<noteq> 0 then (None, c)
      else (case CBB_flush al 0 c of
              (False, c') \<Rightarrow> (None, c')
            | (True, c') \<Rightarrow>
                (case cb_base c' of
                   None \<Rightarrow> (None, c')
                 | Some b \<Rightarrow>
                     if bb_can_resize b \<and> \<not> outs then (None, c')
                     else (Some (take (unat (bb_len b)) (bb_buf b)), CBB_cleanup 0 c'))))"

section \<open>Steps\<close>

definition cbb_then :: "(cbb \<Rightarrow> bool \<times> cbb) \<Rightarrow> (cbb \<Rightarrow> bool \<times> cbb) \<Rightarrow> cbb \<Rightarrow> bool \<times> cbb" where
  "cbb_then f g c = (case f c of (ok, c') \<Rightarrow> if ok then g c' else (False, c'))"

text \<open>\<open>if (!CBB_flush(cbb)) return 0;\<close> and then an operation on the buffer.\<close>

definition cbb_on_base :: "(cbb_buffer \<Rightarrow> bool \<times> cbb_buffer) \<Rightarrow> cbb \<Rightarrow> bool \<times> cbb" where
  "cbb_on_base f c =
     (case cb_base c of
        None \<Rightarrow> (False, c)
      | Some b \<Rightarrow> (case f b of (ok, b') \<Rightarrow> (ok, c\<lparr>cb_base := Some b'\<rparr>)))"

definition cbb_with_buffer ::
  "allocator \<Rightarrow> nat \<Rightarrow> (cbb_buffer \<Rightarrow> bool \<times> cbb_buffer) \<Rightarrow> cbb \<Rightarrow> bool \<times> cbb" where
  "cbb_with_buffer al k f = cbb_then (CBB_flush al k) (cbb_on_base f)"

text \<open>\<open>cbb_buffer_add\<close> followed by a copy or a fill of the new space.\<close>

definition cbb_buffer_put :: "allocator \<Rightarrow> bytes \<Rightarrow> cbb_buffer \<Rightarrow> bool \<times> cbb_buffer" where
  "cbb_buffer_put al data b =
     (case cbb_buffer_add al (of_nat (length data)) b of
        (False, b') \<Rightarrow> (False, b')
      | (True, b') \<Rightarrow> (True, b'\<lparr>bb_buf := store_bytes (bb_buf b') (unat (bb_len b)) data\<rparr>))"

definition CBB_add_bytes :: "allocator \<Rightarrow> nat \<Rightarrow> bytes \<Rightarrow> cbb \<Rightarrow> bool \<times> cbb" where
  "CBB_add_bytes al k data = cbb_with_buffer al k (cbb_buffer_put al data)"

definition CBB_add_space :: "allocator \<Rightarrow> nat \<Rightarrow> u64 \<Rightarrow> cbb \<Rightarrow> bool \<times> cbb" where
  "CBB_add_space al k n = cbb_with_buffer al k (cbb_buffer_add al n)"

definition CBB_add_zeros :: "allocator \<Rightarrow> nat \<Rightarrow> u64 \<Rightarrow> cbb \<Rightarrow> bool \<times> cbb" where
  "CBB_add_zeros al k n =
     cbb_then (CBB_add_space al k n)
       (\<lambda>c. (True, c\<lparr>cb_base := map_option (\<lambda>b. b\<lparr>bb_buf :=
          store_bytes (bb_buf b) (unat (bb_len b - n)) (replicate (unat n) 0)\<rparr>) (cb_base c)\<rparr>))"

definition CBB_reserve :: "allocator \<Rightarrow> nat \<Rightarrow> u64 \<Rightarrow> cbb \<Rightarrow> bool \<times> cbb" where
  "CBB_reserve al k n = cbb_with_buffer al k (cbb_buffer_reserve al n)"

text \<open>\<open>CBB_did_write\<close>, after the caller has put \<open>bs\<close> into the reserved space.\<close>

definition CBB_did_write :: "nat \<Rightarrow> bytes \<Rightarrow> cbb \<Rightarrow> bool \<times> cbb" where
  "CBB_did_write k bs c =
     (case cb_base c of
        None \<Rightarrow> (False, c)
      | Some b \<Rightarrow>
          (let newlen = bb_len b + of_nat (length bs) in
           if k < length (cb_children c) \<or> newlen < bb_len b \<or> newlen > bb_cap b then (False, c)
           else (True, c\<lparr>cb_base := Some (b\<lparr>bb_len := newlen,
                   bb_buf := store_bytes (bb_buf b) (unat (bb_len b)) bs\<rparr>)\<rparr>)))"

definition CBB_add_u8 :: "allocator \<Rightarrow> nat \<Rightarrow> u8 \<Rightarrow> cbb \<Rightarrow> bool \<times> cbb" where
  "CBB_add_u8 al k v = cbb_with_buffer al k (cbb_buffer_add_u al (ucast v) 1)"

definition CBB_add_u16 :: "allocator \<Rightarrow> nat \<Rightarrow> u16 \<Rightarrow> cbb \<Rightarrow> bool \<times> cbb" where
  "CBB_add_u16 al k v = cbb_with_buffer al k (cbb_buffer_add_u al (ucast v) 2)"

definition CBB_add_u24 :: "allocator \<Rightarrow> nat \<Rightarrow> u32 \<Rightarrow> cbb \<Rightarrow> bool \<times> cbb" where
  "CBB_add_u24 al k v = cbb_with_buffer al k (cbb_buffer_add_u al (ucast v) 3)"

definition CBB_add_u32 :: "allocator \<Rightarrow> nat \<Rightarrow> u32 \<Rightarrow> cbb \<Rightarrow> bool \<times> cbb" where
  "CBB_add_u32 al k v = cbb_with_buffer al k (cbb_buffer_add_u al (ucast v) 4)"

definition CBB_add_u64 :: "allocator \<Rightarrow> nat \<Rightarrow> u64 \<Rightarrow> cbb \<Rightarrow> bool \<times> cbb" where
  "CBB_add_u64 al k v = cbb_with_buffer al k (cbb_buffer_add_u al v 8)"

definition CBB_add_u16le :: "allocator \<Rightarrow> nat \<Rightarrow> u16 \<Rightarrow> cbb \<Rightarrow> bool \<times> cbb" where
  "CBB_add_u16le al k v = CBB_add_u16 al k (CRYPTO_bswap2 v)"

definition CBB_add_u32le :: "allocator \<Rightarrow> nat \<Rightarrow> u32 \<Rightarrow> cbb \<Rightarrow> bool \<times> cbb" where
  "CBB_add_u32le al k v = CBB_add_u32 al k (CRYPTO_bswap4 v)"

definition CBB_add_u64le :: "allocator \<Rightarrow> nat \<Rightarrow> u64 \<Rightarrow> cbb \<Rightarrow> bool \<times> cbb" where
  "CBB_add_u64le al k v = CBB_add_u64 al k (CRYPTO_bswap8 v)"

definition CBB_discard_child :: "nat \<Rightarrow> cbb \<Rightarrow> cbb" where
  "CBB_discard_child k c =
     (if length (cb_children c) \<le> k then c
      else \<lparr>cb_base = map_option (\<lambda>b. b\<lparr>bb_len := fr_offset (cb_children c ! k)\<rparr>) (cb_base c),
            cb_children = take k (cb_children c)\<rparr>)"

text \<open>The bytes of the \<open>CBB\<close> at level \<open>k\<close>, which has no child (\<open>CBB_data\<close>, \<open>CBB_len\<close>).\<close>

definition cbb_start :: "nat \<Rightarrow> cbb \<Rightarrow> u64" where
  "cbb_start k c =
     (if k = 0 then 0
      else fr_offset (cb_children c ! (k - 1)) + ucast (fr_len_len (cb_children c ! (k - 1))))"

definition CBB_len :: "nat \<Rightarrow> cbb \<Rightarrow> u64" where
  "CBB_len k c = (case cb_base c of None \<Rightarrow> 0 | Some b \<Rightarrow> bb_len b - cbb_start k c)"

definition CBB_data :: "nat \<Rightarrow> cbb \<Rightarrow> bytes" where
  "CBB_data k c =
     (case cb_base c of None \<Rightarrow> []
      | Some b \<Rightarrow> take (unat (CBB_len k c)) (drop (unat (cbb_start k c)) (bb_buf b)))"

section \<open>Children\<close>

text \<open>The new child is at level \<open>k + 1\<close>.\<close>

definition cbb_add_child :: "nat \<Rightarrow> u64 \<Rightarrow> u8 \<Rightarrow> bool \<Rightarrow> cbb \<Rightarrow> bool \<times> cbb" where
  "cbb_add_child k off len_len is_asn1 c =
     (True, c\<lparr>cb_children := take k (cb_children c) @
        [\<lparr>fr_offset = off, fr_len_len = len_len, fr_is_asn1 = is_asn1\<rparr>]\<rparr>)"

definition cbb_base_len :: "cbb \<Rightarrow> u64" where
  "cbb_base_len c = (case cb_base c of None \<Rightarrow> 0 | Some b \<Rightarrow> bb_len b)"

definition cbb_add_length_prefixed :: "allocator \<Rightarrow> nat \<Rightarrow> u8 \<Rightarrow> cbb \<Rightarrow> bool \<times> cbb" where
  "cbb_add_length_prefixed al k len_len =
     cbb_then (CBB_flush al k)
       (\<lambda>c. let off = cbb_base_len c in
            cbb_then (cbb_on_base (cbb_buffer_put al (replicate (unat len_len) 0)))
              (cbb_add_child k off len_len False) c)"

definition CBB_add_u8_length_prefixed :: "allocator \<Rightarrow> nat \<Rightarrow> cbb \<Rightarrow> bool \<times> cbb" where
  "CBB_add_u8_length_prefixed al k = cbb_add_length_prefixed al k 1"

definition CBB_add_u16_length_prefixed :: "allocator \<Rightarrow> nat \<Rightarrow> cbb \<Rightarrow> bool \<times> cbb" where
  "CBB_add_u16_length_prefixed al k = cbb_add_length_prefixed al k 2"

definition CBB_add_u24_length_prefixed :: "allocator \<Rightarrow> nat \<Rightarrow> cbb \<Rightarrow> bool \<times> cbb" where
  "CBB_add_u24_length_prefixed al k = cbb_add_length_prefixed al k 3"

text \<open>One \<open>CBB_add_u8\<close> after the other, up to the first that fails.\<close>

fun cbb_add_octets :: "allocator \<Rightarrow> nat \<Rightarrow> bytes \<Rightarrow> cbb \<Rightarrow> bool \<times> cbb" where
  "cbb_add_octets al k [] c = (True, c)"
| "cbb_add_octets al k (b # bs) c = cbb_then (CBB_add_u8 al k b) (cbb_add_octets al k bs) c"

function base128_len :: "u64 \<Rightarrow> nat" where
  "base128_len copy = (if copy > 0 then Suc (base128_len (drop_bit 7 copy)) else 0)"
  by pat_completeness auto
termination
proof (relation "measure unat")
  fix v :: u64
  assume "0 < v"
  then have "0 < unat v" by (simp add: word_less_nat_alt)
  then show "(drop_bit 7 v, v) \<in> measure unat" by (simp add: unat_drop_bit_div)
qed simp

declare base128_len.simps [simp del]

definition base128_octet :: "u64 \<Rightarrow> nat \<Rightarrow> u8" where
  "base128_octet v i =
     (let byte = ucast (drop_bit (7 * i) v) AND 0x7f in if i \<noteq> 0 then byte OR 0x80 else byte)"

definition add_base128_integer :: "allocator \<Rightarrow> nat \<Rightarrow> u64 \<Rightarrow> cbb \<Rightarrow> bool \<times> cbb" where
  "add_base128_integer al k v =
     (let len_len = (if base128_len v = 0 then 1 else base128_len v)
      in cbb_add_octets al k (map (base128_octet v) (rev [0..<len_len])))"

definition CBB_add_asn1 :: "allocator \<Rightarrow> nat \<Rightarrow> u32 \<Rightarrow> cbb \<Rightarrow> bool \<times> cbb" where
  "CBB_add_asn1 al k tag =
     (let tag_bits = ucast (drop_bit CBS_ASN1_TAG_SHIFT tag) AND 0xe0 :: u8;
          tag_number = tag AND CBS_ASN1_TAG_NUMBER_MASK
      in
      cbb_then (CBB_flush al k)
     (cbb_then
        (if tag_number \<ge> 0x1f
         then cbb_then (CBB_add_u8 al k (tag_bits OR 0x1f)) (add_base128_integer al k (ucast tag_number))
         else CBB_add_u8 al k (tag_bits OR ucast tag_number))
        (\<lambda>c. let off = cbb_base_len c in
             cbb_then (CBB_add_u8 al k 0) (cbb_add_child k off 1 True) c)))"

section \<open>ASN.1 values\<close>

text \<open>The bytes of the loop of \<open>CBB_add_asn1_uint64\<close>.\<close>

fun uint64_octets :: "bool \<Rightarrow> bytes \<Rightarrow> bytes" where
  "uint64_octets started [] = (if started then [] else [0])"
| "uint64_octets started (byte # bs) =
     (if \<not> started then
        (if byte = 0 then uint64_octets False bs
         else (if byte AND 0x80 \<noteq> 0 then [0, byte] else [byte]) @ uint64_octets True bs)
      else byte # uint64_octets True bs)"

definition CBB_add_asn1_uint64 :: "allocator \<Rightarrow> nat \<Rightarrow> u64 \<Rightarrow> cbb \<Rightarrow> bool \<times> cbb" where
  "CBB_add_asn1_uint64 al k v =
     cbb_then (CBB_add_asn1 al k CBS_ASN1_INTEGER)
    (cbb_then (cbb_add_octets al (Suc k)
       (uint64_octets False (map (\<lambda>i. ucast (drop_bit (8 * (7 - i)) v AND 0xff)) [0..<8])))
     (CBB_flush al k))"

text \<open>The \<open>while\<close> loop that skips leading sign octets: \<open>bs\<close> are the bytes, last one first.\<close>

fun skip_sign :: "bytes \<Rightarrow> bytes" where
  "skip_sign (b # d # bs) = (if b = 0xff \<and> d AND 0x80 \<noteq> 0 then skip_sign (d # bs) else b # d # bs)"
| "skip_sign bs = bs"

definition CBB_add_asn1_int64 :: "allocator \<Rightarrow> nat \<Rightarrow> u64 \<Rightarrow> cbb \<Rightarrow> bool \<times> cbb" where
  "CBB_add_asn1_int64 al k v =
     (if 0 \<le>s v then CBB_add_asn1_uint64 al k v
      else
        cbb_then (CBB_add_asn1 al k CBS_ASN1_INTEGER)
       (cbb_then (cbb_add_octets al (Suc k) (skip_sign (rev (le_bytes 8 v))))
        (CBB_flush al k)))"

definition CBB_add_asn1_octet_string :: "allocator \<Rightarrow> nat \<Rightarrow> bytes \<Rightarrow> cbb \<Rightarrow> bool \<times> cbb" where
  "CBB_add_asn1_octet_string al k data =
     cbb_then (CBB_add_asn1 al k CBS_ASN1_OCTETSTRING)
    (cbb_then (CBB_add_bytes al (Suc k) data) (CBB_flush al k))"

definition CBB_add_asn1_bool :: "allocator \<Rightarrow> nat \<Rightarrow> bool \<Rightarrow> cbb \<Rightarrow> bool \<times> cbb" where
  "CBB_add_asn1_bool al k v =
     cbb_then (CBB_add_asn1 al k CBS_ASN1_BOOLEAN)
    (cbb_then (CBB_add_u8 al (Suc k) (if v then 0xff else 0)) (CBB_flush al k))"

end
