(* ===== verification/CbbDer.thy ===== *)
theory CbbDer
  imports Cbb CbsDer
begin

text \<open>
  What the builder builds. A chain of pending children is abstracted to the bytes written at
  each level: \<open>cbb_rep c lv x\<close> says that the buffer holds, for each pending child, the bytes
  before it and its placeholder, and then the bytes \<open>x\<close> of the innermost level. \<open>close\<close> is
  the meaning of a flush: it puts the length prefix of each child in front of its contents.

  \<open>appends\<close> is the contract of a builder step at a level; it is closed under sequencing and
  under wrapping into a child, so that every writer is shown to append its DER encoding.
\<close>

section \<open>Stores\<close>

lemma length_store_bytes [simp]: "off + length bs \<le> length buf \<Longrightarrow> length (store_bytes buf off bs) = length buf"
  by (simp add: store_bytes_def)

lemma store_be_eq:
  "off + n \<le> length buf \<Longrightarrow> store_be buf off n v = (store_bytes buf off (rev (le_bytes n v)), drop_bit (8 * n) v)"
proof (induction n arbitrary: buf v)
  case 0
  then show ?case by (simp add: store_bytes_def)
next
  case (Suc n)
  have "drop (off + n) (buf[off + n := ucast v]) = ucast v # drop (Suc (off + n)) buf"
    using Suc.prems by (simp add: Cons_nth_drop_Suc [symmetric])
  moreover have "take off (buf[off + n := ucast v]) = take off buf" by simp
  ultimately show ?case
    using Suc by (simp add: store_bytes_def) (simp add: algebra_simps)
qed

definition be_fixed :: "nat \<Rightarrow> nat \<Rightarrow> bytes" where
  "be_fixed k n = rev (le_bytes k (of_nat n :: u64))"

lemma length_be_fixed [simp]: "length (be_fixed k n) = k"
  by (simp add: be_fixed_def)

lemma le_bytes_digit: "k \<le> 7 \<Longrightarrow> n < 256 ^ Suc k \<Longrightarrow>
    le_bytes (Suc k) (of_nat n :: u64) = of_nat (n mod 256) # le_bytes k (of_nat (n div 256) :: u64)"
proof -
  assume k: "k \<le> 7" and n: "n < 256 ^ Suc k"
  have "(256 :: nat) ^ Suc k \<le> 256 ^ 8" using k by (intro power_increasing) simp_all
  with n have un: "unat (of_nat n :: u64) = n" by (intro unat_of_nat_small) simp
  have "(ucast (of_nat n :: u64) :: u8) = of_nat (n mod 256)"
    by (simp add: word_unat_eq_iff unsigned_ucast_eq unsigned_of_nat take_bit_eq_mod mod_mod_cancel)
  moreover have "unat (drop_bit 8 (of_nat n :: u64)) = n div 256" by (simp add: unat_drop_bit_div un)
  then have "of_nat (unat (drop_bit 8 (of_nat n :: u64))) = (of_nat (n div 256) :: u64)" by (rule arg_cong)
  then have "drop_bit 8 (of_nat n :: u64) = of_nat (n div 256)" by simp
  ultimately show ?thesis by simp
qed

lemma be_fixed_octets:
  "n < 2 ^ 64 \<Longrightarrow> be_fixed (length (be_octets n)) n = be_octets n"
proof (induction n rule: less_induct)
  case (less n)
  show ?case
  proof (cases "n < 256")
    case True
    then have "be_octets n = [of_nat n]" by (simp add: be_octets_def digits.simps)
    moreover have "(ucast (of_nat n :: u64) :: u8) = of_nat n"
      by (simp add: word_unat_eq_iff unsigned_ucast_eq unsigned_of_nat take_bit_eq_mod mod_mod_cancel)
    ultimately show ?thesis by (simp add: be_fixed_def)
  next
    case False
    let ?k = "length (be_octets (n div 256))"
    have split: "be_octets n = be_octets (n div 256) @ [of_nat (n mod 256)]"
      using False by (subst be_octets_def, subst digits.simps) (simp add: be_octets_def)
    have "n div 256 < 256 ^ 7" using less.prems by (simp add: less_mult_imp_div_less)
    then have k: "?k \<le> 7" using digits_length [of 256 "n div 256" 7] by (simp add: length_be_octets)
    have "n div 256 < 256 ^ ?k"
      using digits_val_less [of "digits 256 (n div 256)" 256] digits_less [of 256]
      by (simp add: digits_val_digits length_be_octets)
    then have "n < 256 ^ Suc ?k"
      by (simp add: div_less_iff_less_mult mult.commute)
    moreover have "be_fixed ?k (n div 256) = be_octets (n div 256)"
      using False less.prems by (intro less.IH) simp_all
    ultimately show ?thesis
      using le_bytes_digit [OF k] by (simp add: be_fixed_def split)
  qed
qed

section \<open>Buffers\<close>

definition buffer_ok :: "cbb_buffer \<Rightarrow> bool" where
  "buffer_ok b \<longleftrightarrow> length (bb_buf b) = unat (bb_cap b) \<and> bb_len b \<le> bb_cap b"

definition buffer_bytes :: "cbb_buffer \<Rightarrow> bytes" where
  "buffer_bytes b = take (unat (bb_len b)) (bb_buf b)"

definition al_ok :: "allocator \<Rightarrow> bool" where
  "al_ok al \<longleftrightarrow> (\<forall>n bs. al n = Some bs \<longrightarrow> length bs = unat n)"

definition al_total :: "allocator \<Rightarrow> bool" where
  "al_total al \<longleftrightarrow> al_ok al \<and> (\<forall>n. al n \<noteq> None)"

lemma length_buffer_bytes [simp]: "buffer_ok b \<Longrightarrow> length (buffer_bytes b) = unat (bb_len b)"
  by (simp add: buffer_ok_def buffer_bytes_def word_le_nat_alt)

text \<open>Reserving keeps the invariant and the bytes, whatever the allocator answers.\<close>

lemma cbb_buffer_reserve_ok:
  assumes "al_ok al" "buffer_ok b" "cbb_buffer_reserve al n b = (ok, b')"
  shows "buffer_ok b'" "buffer_bytes b' = buffer_bytes b" "bb_len b' = bb_len b"
    "bb_can_resize b' = bb_can_resize b" "ok \<Longrightarrow> bb_error b' = bb_error b" "\<not> ok \<Longrightarrow> bb_error b'"
    "ok \<Longrightarrow> unat (bb_len b) + unat n \<le> unat (bb_cap b')"
    "\<not> bb_can_resize b \<Longrightarrow> bb_cap b' = bb_cap b"
proof -
  have "buffer_ok b' \<and> buffer_bytes b' = buffer_bytes b \<and> bb_len b' = bb_len b
    \<and> bb_can_resize b' = bb_can_resize b \<and> (ok \<longrightarrow> bb_error b' = bb_error b) \<and> (\<not> ok \<longrightarrow> bb_error b')
    \<and> (ok \<longrightarrow> unat (bb_len b) + unat n \<le> unat (bb_cap b'))
    \<and> (\<not> bb_can_resize b \<longrightarrow> bb_cap b' = bb_cap b)"
  proof (cases "bb_len b + n < bb_len b")
    case True
    with assms show ?thesis
      by (auto simp: cbb_buffer_reserve_def buffer_ok_def buffer_bytes_def)
  next
    case False
    then have sum: "unat (bb_len b + n) = unat (bb_len b) + unat n"
      using unsigned_less [of n, where 'a = nat]
      by (simp add: not_less word_le_nat_alt unat_plus_if' split: if_splits)
    show ?thesis
    proof (cases "bb_len b + n > bb_cap b")
      case within: False
      then have "(ok, b') = (True, b)"
        using False assms(3) by (simp add: cbb_buffer_reserve_def Let_def)
      moreover have "unat (bb_len b) + unat n \<le> unat (bb_cap b)"
        using within sum by (simp add: not_less word_le_nat_alt)
      ultimately show ?thesis using assms(2) by simp
    next
      case True
      show ?thesis
      proof (cases "bb_can_resize b")
        case fixed: False
        then have "(ok, b') = (False, b\<lparr>bb_error := True\<rparr>)"
          using False True assms(3) by (simp add: cbb_buffer_reserve_def Let_def)
        then show ?thesis using assms(2) by (simp add: buffer_ok_def buffer_bytes_def)
      next
      case res: True
      define newcap where "newcap = (if bb_cap b * 2 < bb_cap b \<or> bb_cap b * 2 < bb_len b + n
        then bb_len b + n else bb_cap b * 2)"
      have big: "bb_len b + n \<le> newcap" "bb_cap b \<le> newcap"
        using True by (auto simp: newcap_def)
      show ?thesis
      proof (cases "al newcap")
        case None
        then have "(ok, b') = (False, b\<lparr>bb_error := True\<rparr>)"
          using True res False assms(3) by (simp add: cbb_buffer_reserve_def Let_def newcap_def)
        then show ?thesis using assms(2) by (simp add: buffer_ok_def buffer_bytes_def)
      next
        case (Some block)
        then have len: "length block = unat newcap" using assms(1) by (simp add: al_ok_def)
        have b': "ok" "b' = b\<lparr>bb_buf := take (unat (bb_cap b)) (bb_buf b) @ drop (unat (bb_cap b)) block,
            bb_cap := newcap\<rparr>"
          using assms(3) True res False Some
          by (simp_all add: cbb_buffer_reserve_def newcap_def Let_def split: if_splits)
        show ?thesis
          using big len assms(2) True sum
          by (auto simp: b' res buffer_ok_def buffer_bytes_def word_le_nat_alt min_absorb1)
      qed
      qed
    qed
  qed
  then show "buffer_ok b'" "buffer_bytes b' = buffer_bytes b" "bb_len b' = bb_len b"
    "bb_can_resize b' = bb_can_resize b" "ok \<Longrightarrow> bb_error b' = bb_error b" "\<not> ok \<Longrightarrow> bb_error b'"
    "ok \<Longrightarrow> unat (bb_len b) + unat n \<le> unat (bb_cap b')"
    "\<not> bb_can_resize b \<Longrightarrow> bb_cap b' = bb_cap b" by blast+
qed

text \<open>A buffer that takes \<open>L\<close> bytes in total: it may grow, or it is large enough already.\<close>

definition builder :: "allocator \<Rightarrow> nat \<Rightarrow> cbb_buffer \<Rightarrow> bool" where
  "builder al L b \<longleftrightarrow> buffer_ok b \<and> \<not> bb_error b \<and> al_ok al \<and> L < 2 ^ 63
     \<and> (bb_can_resize b \<and> al_total al \<or> L \<le> unat (bb_cap b))"

lemma cbb_buffer_reserve_builder:
  assumes b: "builder al L b" and n: "unat (bb_len b) + unat n \<le> L"
  obtains b' where "cbb_buffer_reserve al n b = (True, b')" "builder al L b'" "bb_len b' = bb_len b"
    "buffer_bytes b' = buffer_bytes b" "unat (bb_len b) + unat n \<le> unat (bb_cap b')"
proof -
  obtain ok b' where r: "cbb_buffer_reserve al n b = (ok, b')" by fastforce
  have ok: "al_ok al" "buffer_ok b" using b by (simp_all add: builder_def)
  note p = cbb_buffer_reserve_ok [OF ok r]
  have sum: "unat (bb_len b + n) = unat (bb_len b) + unat n"
    using b n by (intro unat_add_lem [THEN iffD1]) (simp add: builder_def)
  have "\<not> bb_len b + n < bb_len b" by (simp add: word_less_nat_alt sum)
  then have ok: ok
    using r b n sum
    by (auto simp: cbb_buffer_reserve_def builder_def al_total_def Let_def word_less_nat_alt
        split: if_splits option.splits) (metis option.distinct(1))+
  have cap: "unat (bb_cap b) \<le> unat (bb_cap b')"
  proof (cases "bb_len b + n > bb_cap b")
    case True
    then show ?thesis using p(7) [OF ok] sum by (simp add: word_less_nat_alt)
  next
    case False
    then have "b' = b" using r \<open>\<not> bb_len b + n < bb_len b\<close> by (simp add: cbb_buffer_reserve_def Let_def)
    then show ?thesis by simp
  qed
  have "builder al L b'" using b p(1) p(4,5) ok cap by (auto simp: builder_def)
  with r ok p that show ?thesis by simp
qed

lemma cbb_buffer_add_builder:
  assumes b: "builder al L b" and n: "unat (bb_len b) + unat n \<le> L"
  obtains b' where "cbb_buffer_add al n b = (True, b')" "builder al L b'"
    "take (unat (bb_len b)) (bb_buf b') = buffer_bytes b" "unat (bb_len b') = unat (bb_len b) + unat n"
    "unat (bb_len b) + unat n \<le> length (bb_buf b')"
proof -
  from cbb_buffer_reserve_builder [OF b n] obtain b1 where r: "cbb_buffer_reserve al n b = (True, b1)"
    "builder al L b1" "bb_len b1 = bb_len b" "buffer_bytes b1 = buffer_bytes b"
    "unat (bb_len b) + unat n \<le> unat (bb_cap b1)" .
  let ?b' = "b1\<lparr>bb_len := bb_len b1 + n\<rparr>"
  have sum: "unat (bb_len b + n) = unat (bb_len b) + unat n"
    using b n by (intro unat_add_lem [THEN iffD1]) (simp add: builder_def)
  have "builder al L ?b'"
    using r(2,3,5) sum by (auto simp: builder_def buffer_ok_def word_le_nat_alt)
  moreover have "take (unat (bb_len b)) (bb_buf ?b') = buffer_bytes b"
    using r(3,4) by (simp add: buffer_bytes_def)
  moreover have "unat (bb_len b) + unat n \<le> length (bb_buf ?b')"
    using r(2,5) by (simp add: builder_def buffer_ok_def)
  ultimately show ?thesis
    using that [of ?b'] r(1,3) sum by (simp add: cbb_buffer_add_def)
qed

text \<open>Filling the new space.\<close>

lemma buffer_fill:
  assumes "builder al L b" "unat (bb_len b) = n + length bs" "take n (bb_buf b) = xs"
    "n + length bs \<le> length (bb_buf b)"
  shows "builder al L (b\<lparr>bb_buf := store_bytes (bb_buf b) n bs\<rparr>)"
    "buffer_bytes (b\<lparr>bb_buf := store_bytes (bb_buf b) n bs\<rparr>) = xs @ bs"
  using assms by (auto simp: builder_def buffer_ok_def buffer_bytes_def store_bytes_def min_absorb1)

lemma cbb_buffer_put_builder:
  assumes b: "builder al L b" and n: "unat (bb_len b) + length data \<le> L"
  obtains b' where "cbb_buffer_put al data b = (True, b')" "builder al L b'"
    "buffer_bytes b' = buffer_bytes b @ data"
proof -
  have len: "unat (of_nat (length data) :: u64) = length data"
    using b n by (intro unat_of_nat_small) (simp add: builder_def)
  from cbb_buffer_add_builder [OF b, of "of_nat (length data)"] n len obtain b1 where
    a: "cbb_buffer_add al (of_nat (length data)) b = (True, b1)" "builder al L b1"
      "take (unat (bb_len b)) (bb_buf b1) = buffer_bytes b"
      "unat (bb_len b1) = unat (bb_len b) + length data"
      "unat (bb_len b) + length data \<le> length (bb_buf b1)" by metis
  from buffer_fill [OF a(2,4,3,5)] a(1) that show ?thesis by (simp add: cbb_buffer_put_def)
qed

lemma cbb_buffer_add_u_builder:
  assumes b: "builder al L b" and n: "unat (bb_len b) + unat n \<le> L"
    and v: "drop_bit (8 * unat n) v = 0"
  obtains b' where "cbb_buffer_add_u al v n b = (True, b')" "builder al L b'"
    "buffer_bytes b' = buffer_bytes b @ rev (le_bytes (unat n) v)"
proof (cases "n = 0")
  case True
  with that b show ?thesis by (simp add: cbb_buffer_add_u_def)
next
  case False
  from cbb_buffer_add_builder [OF b n] obtain b1 where
    a: "cbb_buffer_add al n b = (True, b1)" "builder al L b1"
      "take (unat (bb_len b)) (bb_buf b1) = buffer_bytes b"
      "unat (bb_len b1) = unat (bb_len b) + unat n"
      "unat (bb_len b) + unat n \<le> length (bb_buf b1)" .
  have len: "length (rev (le_bytes (unat n) v)) = unat n" by simp
  from buffer_fill [of al L b1 "unat (bb_len b)" "rev (le_bytes (unat n) v)"] a len
  show ?thesis
    using that False v by (simp add: cbb_buffer_add_u_def store_be_eq)
qed

section \<open>Levels\<close>

type_synonym level = "bytes \<times> cbb_frame"

text \<open>The bytes of the pending levels: what each wrote, then the placeholder of its child.\<close>

fun levels_bytes :: "level list \<Rightarrow> bytes" where
  "levels_bytes [] = []"
| "levels_bytes ((s, fr) # lv) = s @ replicate (unat (fr_len_len fr)) 0 @ levels_bytes lv"

fun levels_ok :: "nat \<Rightarrow> level list \<Rightarrow> bool" where
  "levels_ok off [] = True"
| "levels_ok off ((s, fr) # lv) \<longleftrightarrow>
     unat (fr_offset fr) = off + length s \<and> fr_len_len fr \<noteq> 0 \<and> unat (fr_len_len fr) \<le> 8
     \<and> (fr_is_asn1 fr \<longrightarrow> fr_len_len fr = 1)
     \<and> levels_ok (off + length s + unat (fr_len_len fr)) lv"

definition len_prefix :: "cbb_frame \<Rightarrow> nat \<Rightarrow> bytes" where
  "len_prefix fr n = (if fr_is_asn1 fr then der_length n else be_fixed (unat (fr_len_len fr)) n)"

definition len_fits :: "cbb_frame \<Rightarrow> nat \<Rightarrow> bool" where
  "len_fits fr n \<longleftrightarrow> (if fr_is_asn1 fr then n \<le> 0xfffffffe else n < 256 ^ unat (fr_len_len fr))"

fun close :: "level list \<Rightarrow> bytes \<Rightarrow> bytes" where
  "close [] x = x"
| "close ((s, fr) # lv) x = s @ len_prefix fr (length (close lv x)) @ close lv x"

fun closes :: "level list \<Rightarrow> bytes \<Rightarrow> bool" where
  "closes [] x = True"
| "closes ((s, fr) # lv) x \<longleftrightarrow> len_fits fr (length (close lv x)) \<and> closes lv x"

lemma levels_bytes_append: "levels_bytes (xs @ ys) = levels_bytes xs @ levels_bytes ys"
  by (induction xs rule: levels_bytes.induct) simp_all

lemma levels_ok_append:
  "levels_ok off (xs @ ys) \<longleftrightarrow> levels_ok off xs \<and> levels_ok (off + length (levels_bytes xs)) ys"
  by (induction xs arbitrary: off rule: levels_bytes.induct) (auto simp: add_ac)

text \<open>One length prefix.\<close>

lemma der_length_forms:
  assumes "n \<le> 0xfffffffe"
  shows "\<exists>len_len initial n'. asn1_length_form (of_nat n) = (len_len, initial, n')
    \<and> der_length n = initial # rev (le_bytes (unat len_len - 1) n')
    \<and> 1 \<le> unat len_len \<and> unat len_len \<le> 5 \<and> drop_bit (8 * (unat len_len - 1)) n' = 0
    \<and> (len_len \<noteq> 1 \<longrightarrow> n' = of_nat n)"
proof -
  have un: "unat (of_nat n :: u64) = n" using assms by (intro unat_of_nat_small) simp
  have cmp: "(of_nat n :: u64) > w \<longleftrightarrow> unat w < n" for w using un by (simp add: word_less_nat_alt)
  have db: "drop_bit j (of_nat n :: u64) = 0 \<longleftrightarrow> n < 2 ^ j" for j
  proof -
    have "drop_bit j (of_nat n :: u64) = 0 \<longleftrightarrow> unat (of_nat n :: u64) div 2 ^ j = 0"
      by (simp add: unat_drop_bit_div flip: unat_0_iff)
    then show ?thesis by (simp add: un div_eq_0_iff)
  qed
  show ?thesis
  proof (cases "n < 128")
    case True
    then have "(ucast (of_nat n :: u64) :: u8) = of_nat n"
      by (simp add: word_unat_eq_iff unsigned_ucast_eq unsigned_of_nat take_bit_eq_mod mod_mod_cancel)
    with True show ?thesis by (simp add: asn1_length_form_def cmp der_length_def)
  next
    case False
    let ?k = "length (be_octets n)"
    have oct: "be_octets n = rev (le_bytes ?k (of_nat n :: u64))"
      using be_fixed_octets [of n] assms by (simp add: be_fixed_def)
    have low: "256 ^ (?k - 1) \<le> n"
      using digits_val_ge [of "digits 256 n" 256] digits_hd [of 256 n] False
      by (simp add: digits_val_digits length_be_octets)
    have high: "n < 256 ^ ?k"
      using digits_val_less [of "digits 256 n" 256] digits_less [of 256]
      by (simp add: digits_val_digits length_be_octets)
    have k: "0 < ?k" "?k \<le> 4" using digits_length [of 256 n 4] assms by (simp_all add: length_be_octets)
    then consider "?k = 1" | "?k = 2" | "?k = 3" | "?k = 4" by linarith
    then show ?thesis
      using False oct low high assms
      by cases (auto simp: asn1_length_form_def cmp der_length_def db)
  qed
qed

lemma store_in_place:
  assumes b: "builder al L b" and bytes: "buffer_bytes b = pre @ old @ x" and len: "length old = length bs"
  shows "builder al L (b\<lparr>bb_buf := store_bytes (bb_buf b) (length pre) bs\<rparr>)"
    "buffer_bytes (b\<lparr>bb_buf := store_bytes (bb_buf b) (length pre) bs\<rparr>) = pre @ bs @ x"
proof -
  have "length (buffer_bytes b) = unat (bb_len b)" "unat (bb_len b) \<le> length (bb_buf b)"
    using b by (auto simp: builder_def buffer_ok_def buffer_bytes_def word_le_nat_alt)
  then have le: "length pre + length bs + length x = unat (bb_len b)" "unat (bb_len b) \<le> length (bb_buf b)"
    using bytes len by auto
  then show "builder al L (b\<lparr>bb_buf := store_bytes (bb_buf b) (length pre) bs\<rparr>)"
    using b by (auto simp: builder_def buffer_ok_def)
  have buf: "bb_buf b = (pre @ old @ x) @ drop (unat (bb_len b)) (bb_buf b)"
    unfolding bytes [symmetric] buffer_bytes_def by simp
  have "store_bytes (bb_buf b) (length pre) bs = pre @ bs @ x @ drop (unat (bb_len b)) (bb_buf b)"
    using len by (subst buf) (simp add: store_bytes_def)
  then show "buffer_bytes (b\<lparr>bb_buf := store_bytes (bb_buf b) (length pre) bs\<rparr>) = pre @ bs @ x"
    using le len by (simp add: buffer_bytes_def)
qed

lemma update_is_store: "p < length buf \<Longrightarrow> buf[p := v] = store_bytes buf p [v]"
  by (simp add: store_bytes_def upd_conv_take_nth_drop)

lemma flush_prefix_builder:
  assumes b: "builder al L b" and bytes: "buffer_bytes b = pre @ replicate (unat (fr_len_len fr)) 0 @ x"
    and fr: "unat (fr_offset fr) = length pre" "fr_len_len fr \<noteq> 0" "unat (fr_len_len fr) \<le> 8"
      "fr_is_asn1 fr \<longrightarrow> fr_len_len fr = 1"
    and fits: "len_fits fr (length x)" and L: "length pre + length (len_prefix fr (length x)) + length x \<le> L"
  obtains b' where "flush_prefix al fr b = (True, b')" "builder al L b'"
    "buffer_bytes b' = pre @ len_prefix fr (length x) @ x"
proof -
  let ?k = "unat (fr_len_len fr)" and ?start = "fr_offset fr + ucast (fr_len_len fr)"
  have blen: "unat (bb_len b) = length pre + ?k + length x"
    using b bytes length_buffer_bytes [of b] by (simp add: builder_def)
  have bb: "unat (bb_len b) \<le> length (bb_buf b)" "length (bb_buf b) = unat (bb_cap b)"
    using b by (simp_all add: builder_def buffer_ok_def word_le_nat_alt)
  have ku: "unat (ucast (fr_len_len fr) :: u64) = ?k"
    by (simp add: unsigned_ucast_eq take_bit_nat_eq_self order.strict_trans [OF unsigned_less])
  have start: "unat ?start = length pre + ?k"
  proof -
    have "length pre + ?k < 2 ^ LENGTH(64)"
      using blen unsigned_less [of "bb_len b", where 'a = nat] by simp
    then show ?thesis using unat_add_lem [of "fr_offset fr" "ucast (fr_len_len fr)"] fr(1) ku by simp
  qed
  have n: "bb_len b - ?start = of_nat (length x)"
  proof -
    have "unat (bb_len b - ?start) = length x"
      using start blen by (subst unat_sub) (simp_all add: word_le_nat_alt)
    then have "of_nat (unat (bb_len b - ?start)) = (of_nat (length x) :: u64)" by (rule arg_cong)
    then show ?thesis by simp
  qed
  have no_err: "\<not> (?start < fr_offset fr \<or> bb_len b < ?start)"
    using start fr(1) blen by (simp add: word_less_nat_alt)
  have xlen: "length x < 2 ^ 63" using L b by (simp add: builder_def)
  then have xu: "unat (of_nat (length x) :: u64) = length x" by (intro unat_of_nat_small) simp
  show ?thesis
  proof (cases "fr_is_asn1 fr")
    case False
    have "length x < 2 ^ (8 * ?k)"
      using fits False by (simp add: len_fits_def power_mult)
    then have rest: "drop_bit (8 * ?k) (of_nat (length x) :: u64) = 0"
      using xu by (simp add: unat_drop_bit_div div_eq_0_iff flip: unat_0_iff)
    let ?b' = "b\<lparr>bb_buf := store_bytes (bb_buf b) (length pre) (be_fixed ?k (length x))\<rparr>"
    have "flush_prefix al fr b = (True, ?b')"
      using False no_err fr(1) blen bb rest
      by (simp add: flush_prefix_def Let_def n store_be_eq be_fixed_def)
    moreover have "buffer_bytes ?b' = pre @ len_prefix fr (length x) @ x" "builder al L ?b'"
      using store_in_place [OF b bytes, of "be_fixed ?k (length x)"] False by (simp_all add: len_prefix_def)
    ultimately show ?thesis using that by simp
  next
    case True
    then have k1: "?k = 1" "fr_len_len fr = 1" using fr(4) by simp_all
    have small: "length x \<le> 0xfffffffe" using fits True by (simp add: len_fits_def)
    then have "\<not> (of_nat (length x) :: u64) > 0xfffffffe" using xu by (simp add: word_less_nat_alt)
    from der_length_forms [OF small] obtain ll init n' where
      form: "asn1_length_form (of_nat (length x)) = (ll, init, n')"
        "der_length (length x) = init # rev (le_bytes (unat ll - 1) n')"
        "1 \<le> unat ll" "unat ll \<le> 5" "drop_bit (8 * (unat ll - 1)) n' = 0" "ll \<noteq> 1 \<longrightarrow> n' = of_nat (length x)"
      by blast
    define e where "e = unat ll - 1"
    have ew: "unat (ll - 1) = e" using form(3) by (simp add: e_def unat_sub word_le_nat_alt)
    have "e < 2 ^ 64" using form(4) by (simp add: e_def)
    then have eu: "unat (ucast (ll - 1) :: u64) = e"
      using ew by (simp add: unsigned_ucast_eq take_bit_nat_eq_self)
    have len: "length (len_prefix fr (length x)) = Suc e" using True form(2) by (simp add: len_prefix_def e_def)
    obtain b1 J where b1: "(if ll \<noteq> 1 then
          (case cbb_buffer_add al (ucast (ll - 1)) b of
             (False, b') \<Rightarrow> (False, b')
           | (True, b') \<Rightarrow> (True, b'\<lparr>bb_buf := store_bytes (bb_buf b') (unat (?start + ucast (ll - 1)))
               (take (unat (of_nat (length x) :: u64)) (drop (unat ?start) (bb_buf b')))\<rparr>))
          else (True, b)) = (True, b1)"
        "builder al L b1" "buffer_bytes b1 = pre @ J @ x" "length J = Suc e"
    proof (cases "ll = 1")
      case True
      with bytes b k1 that [of b "[0]"] show ?thesis by (simp add: e_def)
    next
      case False
      have "unat (bb_len b) + unat (ucast (ll - 1) :: u64) \<le> L" using L len eu blen k1(1) by simp
      from cbb_buffer_add_builder [OF b this, unfolded eu] obtain b0 where
        a: "cbb_buffer_add al (ucast (ll - 1)) b = (True, b0)" "builder al L b0"
          "take (unat (bb_len b)) (bb_buf b0) = buffer_bytes b"
          "unat (bb_len b0) = unat (bb_len b) + e" "unat (bb_len b) + e \<le> length (bb_buf b0)" .
      have "unat ?start + e < 2 ^ LENGTH(64)"
        using start blen a(4) unsigned_less [of "bb_len b0", where 'a = nat] by simp
      then have to: "unat (?start + ucast (ll - 1)) = length pre + 1 + e"
        using unat_add_lem [of ?start "ucast (ll - 1)"] start k1(1) eu by simp
      have moved: "take (length x) (drop (unat ?start) (bb_buf b0)) = x"
      proof -
        have "drop (unat ?start) (take (unat (bb_len b)) (bb_buf b0)) = x"
          using bytes start k1(1) by (simp add: a(3))
        then show ?thesis using blen start by (simp add: drop_take)
      qed
      define J where "J = drop (length pre) (take (length pre + 1 + e) (bb_buf b0))"
      have pre: "take (length pre) (bb_buf b0) = pre"
      proof -
        have "take (length pre) (take (unat (bb_len b)) (bb_buf b0)) = pre" using bytes by (simp add: a(3))
        then show ?thesis using blen by (simp add: min_def split: if_splits)
      qed
      have "take (length pre + 1 + e) (bb_buf b0) = take (length pre) (bb_buf b0) @ J"
        unfolding J_def by (metis append_take_drop_id min.absorb1 take_take le_add1 add.assoc)
      then have split: "take (length pre + 1 + e) (bb_buf b0) = pre @ J" by (simp add: pre)
      have lenJ: "length J = Suc e" using a(5) blen k1(1) by (simp add: J_def)
      have "unat (bb_len b0) = (length pre + 1 + e) + length x" using a(4) blen k1(1) by simp
      from buffer_fill [OF a(2) this split] a(5) blen k1(1) show ?thesis
        using that [of "b0\<lparr>bb_buf := store_bytes (bb_buf b0) (length pre + 1 + e) x\<rparr>" J] False a(1) to moved xu lenJ
        by simp
    qed
    let ?b2 = "b1\<lparr>bb_buf := store_bytes (bb_buf b1) (length pre) [init]\<rparr>"
    obtain J0 J' where J: "J = J0 # J'" "length J' = e" using b1(4) by (cases J) auto
    have s2: "builder al L ?b2" "buffer_bytes ?b2 = (pre @ [init]) @ J' @ x"
      using store_in_place [OF b1(2), of pre "[J0]" "J' @ x" "[init]"] b1(3) J by simp_all
    let ?b3 = "?b2\<lparr>bb_buf := store_bytes (bb_buf ?b2) (length (pre @ [init])) (rev (le_bytes e n'))\<rparr>"
    have s3: "builder al L ?b3" "buffer_bytes ?b3 = (pre @ [init]) @ rev (le_bytes e n') @ x"
      using store_in_place [OF s2, of "rev (le_bytes e n')"] J by simp_all
    have blen1: "unat (bb_len b1) = length pre + Suc e + length x" "unat (bb_len b1) \<le> length (bb_buf b1)"
      using b1(2-4) length_buffer_bytes [of b1] by (simp_all add: builder_def buffer_ok_def word_le_nat_alt)
    have upd: "(bb_buf b1)[length pre := init] = store_bytes (bb_buf b1) (length pre) [init]"
      using blen1 by (intro update_is_store) simp
    have off1: "unat (fr_offset fr + 1) = length pre + 1"
      using start fr(1) k1 by simp
    have "flush_prefix al fr b = (True, ?b3)"
      unfolding flush_prefix_def Let_def n if_not_P [OF no_err] if_P [OF True]
        if_not_P [OF \<open>\<not> (of_nat (length x) :: u64) > 0xfffffffe\<close>] form(1) prod.case b1(1)
      using form(5) [folded e_def] blen1 fr(1) ew off1
      by (simp add: upd store_be_eq)
    moreover have "buffer_bytes ?b3 = pre @ len_prefix fr (length x) @ x"
      using s3(2) True form(2) by (simp add: len_prefix_def e_def)
    ultimately show ?thesis using that s3(1) by simp
  qed
qed

text \<open>A whole chain.\<close>

lemma flush_frames_builder:
  assumes "builder al L b" "buffer_bytes b = pre @ levels_bytes lv @ x" "levels_ok (length pre) lv"
    "closes lv x" "length pre + length (close lv x) \<le> L"
  shows "\<exists>b'. flush_frames al (map snd lv) b = (True, b', []) \<and> builder al L b'
    \<and> buffer_bytes b' = pre @ close lv x"
  using assms
proof (induction lv arbitrary: pre b rule: levels_bytes.induct)
  case 1
  then show ?case by (simp add: builder_def)
next
  case (2 s fr lv)
  let ?zeros = "replicate (unat (fr_len_len fr)) (0 :: u8)"
  have fr: "unat (fr_offset fr) = length (pre @ s)" "fr_len_len fr \<noteq> 0" "unat (fr_len_len fr) \<le> 8"
    "fr_is_asn1 fr \<longrightarrow> fr_len_len fr = 1" "levels_ok (length (pre @ s @ ?zeros)) lv"
    using "2.prems"(3) by (simp_all add: add.assoc)
  have fits: "len_fits fr (length (close lv x))" "closes lv x" using "2.prems"(4) by simp_all
  have kle: "unat (fr_len_len fr) \<le> length (len_prefix fr (length (close lv x)))"
    using fr(4) by (auto simp: len_prefix_def der_length_def)
  have L: "length (pre @ s) + length (len_prefix fr (length (close lv x))) + length (close lv x) \<le> L"
    using "2.prems"(5) by simp
  then have "length (pre @ s @ ?zeros) + length (close lv x) \<le> L" using kle by simp
  with "2.IH" [of b "pre @ s @ ?zeros"] "2.prems"(1,2) fr(5) fits(2) obtain b1 where
    b1: "flush_frames al (map snd lv) b = (True, b1, [])" "builder al L b1"
      "buffer_bytes b1 = (pre @ s) @ ?zeros @ close lv x" by auto
  from flush_prefix_builder [OF b1(2,3) fr(1-4) fits(1) L] obtain b2 where
    "flush_prefix al fr b1 = (True, b2)" "builder al L b2"
    "buffer_bytes b2 = (pre @ s) @ len_prefix fr (length (close lv x)) @ close lv x" .
  with b1(1) fr(2) "2.prems"(1) show ?case by (simp add: builder_def)
qed

definition cbb_rep :: "allocator \<Rightarrow> nat \<Rightarrow> cbb \<Rightarrow> level list \<Rightarrow> bytes \<Rightarrow> bool" where
  "cbb_rep al L c lv x \<longleftrightarrow> (\<exists>b. cb_base c = Some b \<and> builder al L b \<and> cb_children c = map snd lv
     \<and> buffer_bytes b = levels_bytes lv @ x \<and> levels_ok 0 lv)"

text \<open>A step at level \<open>k\<close> that appends \<open>bs\<close>, after flushing what is below.\<close>

definition appends :: "allocator \<Rightarrow> nat \<Rightarrow> (cbb \<Rightarrow> bool \<times> cbb) \<Rightarrow> bytes \<Rightarrow> bool" where
  "appends al k f bs \<longleftrightarrow>
     (\<forall>L c lv x. cbb_rep al L c lv x \<and> k \<le> length lv \<and> closes (drop k lv) x
        \<and> length (levels_bytes (take k lv)) + length (close (drop k lv) x) + length bs \<le> L \<longrightarrow>
        (\<exists>c'. f c = (True, c') \<and> cbb_rep al L c' (take k lv) (close (drop k lv) x @ bs)))"

lemma appendsE:
  assumes "appends al k f bs" "cbb_rep al L c lv x" "k \<le> length lv" "closes (drop k lv) x"
    "length (levels_bytes (take k lv)) + length (close (drop k lv) x) + length bs \<le> L"
  obtains c' where "f c = (True, c')" "cbb_rep al L c' (take k lv) (close (drop k lv) x @ bs)"
  using assms unfolding appends_def by blast

lemma CBB_flush_appends: "appends al k (CBB_flush al k) []"
  unfolding appends_def
proof (intro allI impI; elim conjE)
  fix L c lv x
  assume rep: "cbb_rep al L c lv x" and k: "k \<le> length lv" and cl: "closes (drop k lv) x"
    and len: "length (levels_bytes (take k lv)) + length (close (drop k lv) x) + length ([] :: bytes) \<le> L"
  from rep obtain b where b: "cb_base c = Some b" "builder al L b" "cb_children c = map snd lv"
    "buffer_bytes b = levels_bytes lv @ x" "levels_ok 0 lv" by (auto simp: cbb_rep_def)
  have split: "levels_bytes lv = levels_bytes (take k lv) @ levels_bytes (drop k lv)"
    by (metis append_take_drop_id levels_bytes_append)
  have ok: "levels_ok 0 (take k lv)" "levels_ok (length (levels_bytes (take k lv))) (drop k lv)"
    using b(5) levels_ok_append [of 0 "take k lv" "drop k lv"] by simp_all
  from flush_frames_builder [OF b(2), of "levels_bytes (take k lv)" "drop k lv" x] b(4) split ok(2) cl len
  obtain b' where b': "flush_frames al (map snd (drop k lv)) b = (True, b', [])" "builder al L b'"
    "buffer_bytes b' = levels_bytes (take k lv) @ close (drop k lv) x" by auto
  let ?c' = "\<lparr>cb_base = Some b', cb_children = map snd (take k lv)\<rparr>"
  have "CBB_flush al k c = (True, ?c')"
    using b k b' by (simp add: CBB_flush_def drop_map take_map)
  moreover have "cbb_rep al L ?c' (take k lv) (close (drop k lv) x @ [])"
    using b' ok(1) by (simp add: cbb_rep_def)
  ultimately show "\<exists>c'. CBB_flush al k c = (True, c') \<and> cbb_rep al L c' (take k lv) (close (drop k lv) x @ [])"
    by blast
qed

text \<open>Sequencing at one level.\<close>

lemma appends_then:
  assumes f: "appends al k f bs" and g: "appends al k g cs"
  shows "appends al k (cbb_then f g) (bs @ cs)"
  unfolding appends_def
proof (intro allI impI; elim conjE)
  fix L c lv x
  assume rep: "cbb_rep al L c lv x" and k: "k \<le> length lv" and cl: "closes (drop k lv) x"
    and len: "length (levels_bytes (take k lv)) + length (close (drop k lv) x) + length (bs @ cs) \<le> L"
  from appendsE [OF f rep k cl] len obtain c1 where c1: "f c = (True, c1)"
    "cbb_rep al L c1 (take k lv) (close (drop k lv) x @ bs)" by auto
  from appendsE [OF g c1(2)] len k obtain c2 where "g c1 = (True, c2)"
    "cbb_rep al L c2 (take k lv) ((close (drop k lv) x @ bs) @ cs)" by auto
  with c1(1) show "\<exists>c'. cbb_then f g c = (True, c') \<and> cbb_rep al L c' (take k lv) (close (drop k lv) x @ bs @ cs)"
    by (auto simp: cbb_then_def)
qed

text \<open>Operations on the buffer, behind a flush.\<close>

lemma cbb_with_buffer_appends:
  assumes "\<And>L b. builder al L b \<Longrightarrow> unat (bb_len b) + length bs \<le> L \<Longrightarrow>
    \<exists>b'. f b = (True, b') \<and> builder al L b' \<and> buffer_bytes b' = buffer_bytes b @ bs"
  shows "appends al k (cbb_with_buffer al k f) bs"
proof -
  have "appends al k (cbb_then (CBB_flush al k) (cbb_on_base f)) ([] @ bs)"
    unfolding appends_def
  proof (intro allI impI; elim conjE)
    fix L c lv x
    assume rep: "cbb_rep al L c lv x" and k: "k \<le> length lv" and cl: "closes (drop k lv) x"
      and len: "length (levels_bytes (take k lv)) + length (close (drop k lv) x) + length ([] @ bs) \<le> L"
    from appendsE [OF CBB_flush_appends rep k cl] len obtain c1 where c1: "CBB_flush al k c = (True, c1)"
      "cbb_rep al L c1 (take k lv) (close (drop k lv) x)" by auto
    then obtain b where b: "cb_base c1 = Some b" "builder al L b"
      "buffer_bytes b = levels_bytes (take k lv) @ close (drop k lv) x" by (auto simp: cbb_rep_def)
    have "unat (bb_len b) = length (buffer_bytes b)" using b(2) by (simp add: builder_def)
    with assms [OF b(2)] len b(3) obtain b' where b': "f b = (True, b')" "builder al L b'"
      "buffer_bytes b' = buffer_bytes b @ bs" by auto
    with c1 b show "\<exists>c'. cbb_then (CBB_flush al k) (cbb_on_base f) c = (True, c')
        \<and> cbb_rep al L c' (take k lv) (close (drop k lv) x @ [] @ bs)"
      by (auto simp: cbb_then_def cbb_on_base_def cbb_rep_def)
  qed
  then show ?thesis by (simp add: cbb_with_buffer_def)
qed

lemma CBB_add_bytes_appends: "appends al k (CBB_add_bytes al k data) data"
  unfolding CBB_add_bytes_def
  by (rule cbb_with_buffer_appends) (metis cbb_buffer_put_builder)

lemma cbb_add_u_appends:
  assumes "drop_bit (8 * unat n) v = 0"
  shows "appends al k (cbb_with_buffer al k (cbb_buffer_add_u al v n)) (rev (le_bytes (unat n) v))"
proof (rule cbb_with_buffer_appends)
  fix L b
  assume "builder al L b" "unat (bb_len b) + length (rev (le_bytes (unat n) v)) \<le> L"
  then show "\<exists>b'. cbb_buffer_add_u al v n b = (True, b') \<and> builder al L b'
      \<and> buffer_bytes b' = buffer_bytes b @ rev (le_bytes (unat n) v)"
    using assms by (metis cbb_buffer_add_u_builder length_rev length_le_bytes)
qed

lemma CBB_add_u8_appends: "appends al k (CBB_add_u8 al k v) [v]"
proof -
  have "drop_bit 8 (ucast v :: u64) = 0"
    by (rule bit_word_eqI) (auto simp: bit_simps dest: bit_imp_le_length)
  moreover have "(ucast (ucast v :: u64) :: u8) = v"
    by (rule bit_word_eqI) (auto simp: bit_simps)
  ultimately show ?thesis
    using cbb_add_u_appends [of 1 "ucast v" al k] by (simp add: CBB_add_u8_def [abs_def])
qed

lemma cbb_add_octets_appends: "bs \<noteq> [] \<Longrightarrow> appends al k (cbb_add_octets al k bs) bs"
proof (induction bs)
  case (Cons b bs)
  show ?case
  proof (cases "bs = []")
    case True
    have "cbb_add_octets al k [b] = CBB_add_u8 al k b"
      by (rule ext) (simp add: cbb_then_def split: prod.split)
    with True show ?thesis by (simp add: CBB_add_u8_appends)
  next
    case False
    have "cbb_add_octets al k (b # bs) = cbb_then (CBB_add_u8 al k b) (cbb_add_octets al k bs)"
      by (rule ext) simp
    with appends_then [OF CBB_add_u8_appends Cons.IH [OF False], of b] show ?thesis by simp
  qed
qed simp

section \<open>Tags\<close>

lemma digits_positions:
  "1 < b \<Longrightarrow> digits b n = map (\<lambda>i. n div b ^ i mod b) (rev [0..<length (digits b n)])"
proof (induction b n rule: digits.induct)
  case (1 b n)
  show ?case
  proof (cases "n < b")
    case True
    then show ?thesis by (simp add: digits.simps [of b n])
  next
    case False
    let ?k = "length (digits b (n div b))"
    have "[0..<Suc ?k] = 0 # map Suc [0..<?k]"
      by (subst upt_conv_Cons) (simp_all add: map_Suc_upt del: upt_Suc)
    then have "rev [0..<Suc ?k] = map Suc (rev [0..<?k]) @ [0]"
      by (simp add: rev_map del: upt_Suc)
    then have "map (\<lambda>i. n div b ^ i mod b) (rev [0..<Suc ?k])
        = map (\<lambda>i. n div b div b ^ i mod b) (rev [0..<?k]) @ [n mod b]"
      by (simp add: div_mult2_eq del: upt_Suc)
    also have "\<dots> = digits b (n div b) @ [n mod b]"
      using 1 False by simp
    finally show ?thesis
      using False "1.prems" by (simp add: digits.simps [of b n] del: upt_Suc)
  qed
qed

lemma base128_len_digits:
  "(if base128_len v = 0 then 1 else base128_len v) = length (digits 128 (unat v))"
proof -
  have "v \<noteq> 0 \<Longrightarrow> base128_len v = length (digits 128 (unat v))"
  proof (induction v rule: base128_len.induct)
    case (1 v)
    then have pos: "v > 0" by (simp add: word_neq_0_conv)
    show ?case
    proof (cases "drop_bit 7 v = 0")
      case True
      have "unat (drop_bit 7 v) = unat v div 128" by (simp add: unat_drop_bit_div)
      with True have "unat v div 128 = 0" by simp
      then have "unat v < 128" by (simp add: div_eq_0_iff)
      with True pos show ?thesis by (simp add: base128_len.simps [of v] base128_len.simps [of 0] digits.simps)
    next
      case False
      have d: "unat (drop_bit 7 v) = unat v div 128" by (simp add: unat_drop_bit_div)
      with False have "\<not> unat v < 128" by (auto simp: unat_eq_0)
      with False pos d "1.IH" show ?thesis
        by (simp add: base128_len.simps [of v] digits.simps [of 128 "unat v"])
    qed
  qed
  then show ?thesis by (cases "v = 0") (simp_all add: base128_len.simps [of 0] digits.simps)
qed

lemma base128_octet_val:
  "base128_octet v i = of_nat (unat v div 128 ^ i mod 128 + (if i \<noteq> 0 then 128 else 0))"
proof -
  let ?w = "ucast (drop_bit (7 * i) v) AND 0x7f :: u8"
  have "unat (drop_bit (7 * i) v) = unat v div 128 ^ i" by (simp add: unat_drop_bit_div power_mult)
  then have w: "unat ?w = unat v div 128 ^ i mod 128"
    by (simp add: u8_and_7F unsigned_ucast_eq take_bit_eq_mod mod_mod_cancel)
  show ?thesis
  proof (cases "i = 0")
    case True
    have "?w = of_nat (unat ?w)" by simp
    with True w show ?thesis by (simp add: base128_octet_def Let_def)
  next
    case False
    have "?w AND 0x7F = ?w" by (simp add: and.assoc)
    then have "unat (?w OR 0x80) = unat ?w mod 128 + 128" using unat_or_80 [of ?w] by simp
    then have o: "unat (?w OR 0x80) = unat v div 128 ^ i mod 128 + 128" using w by simp
    have "?w OR 0x80 = of_nat (unat (?w OR 0x80))" by simp
    also have "\<dots> = of_nat (unat v div 128 ^ i mod 128 + 128)" by (simp only: o)
    finally show ?thesis using False by (simp only: base128_octet_def Let_def if_True not_False_eq_True)
  qed
qed

lemma add_base128_integer_appends:
  "appends al k (add_base128_integer al k v) (base128 (unat v))"
proof -
  let ?ds = "digits 128 (unat v)"
  obtain j where j: "length ?ds = Suc j" by (cases "length ?ds") auto
  have ds: "?ds = map (\<lambda>i. unat v div 128 ^ i mod 128) (rev [0..<Suc j])"
    using digits_positions [of 128 "unat v"] j by simp
  have up: "rev [0..<Suc j] = rev [1..<Suc j] @ [0]"
    by (simp add: upt_conv_Cons del: upt_Suc)
  have "base128 (unat v) = map (base128_octet v) (rev [0..<Suc j])"
    unfolding base128_def Let_def ds up
    by (auto simp: base128_octet_val simp del: upt_Suc of_nat_add)
  moreover have "add_base128_integer al k v = cbb_add_octets al k (map (base128_octet v) (rev [0..<Suc j]))"
    by (simp add: add_base128_integer_def base128_len_digits j del: upt_Suc)
  ultimately show ?thesis by (simp add: cbb_add_octets_appends del: upt_Suc)
qed

lemma tag_octets_appends:
  "appends al k
     (if tag AND CBS_ASN1_TAG_NUMBER_MASK \<ge> 0x1f
      then cbb_then (CBB_add_u8 al k (ucast (drop_bit CBS_ASN1_TAG_SHIFT tag) AND 0xe0 OR 0x1f))
             (add_base128_integer al k (ucast (tag AND CBS_ASN1_TAG_NUMBER_MASK)))
      else CBB_add_u8 al k (ucast (drop_bit CBS_ASN1_TAG_SHIFT tag) AND 0xe0 OR ucast (tag AND CBS_ASN1_TAG_NUMBER_MASK)))
     (der_tag tag)"
proof -
  have "unat (ucast (tag AND CBS_ASN1_TAG_NUMBER_MASK) :: u64) = unat (tag AND CBS_ASN1_TAG_NUMBER_MASK)"
    by (simp add: unsigned_ucast_eq take_bit_nat_eq_self order.strict_trans [OF unsigned_less])
  then show ?thesis
    using appends_then [OF CBB_add_u8_appends add_base128_integer_appends,
        of al k "ucast (drop_bit 24 tag) AND 0xe0 OR 0x1f" "ucast (tag AND CBS_ASN1_TAG_NUMBER_MASK)"]
    by (auto simp: der_tag_def tag_number_def tag_bits_def word_le_nat_alt CBB_add_u8_appends)
qed

section \<open>Children\<close>

lemma add_child_opens:
  assumes rep: "cbb_rep al L c lv (x @ replicate n 0)" and k: "k = length lv"
    and n: "0 < n" "n \<le> 8" "a \<longrightarrow> n = 1" and off: "unat off = length (levels_bytes lv) + length x"
  shows "\<exists>c' fr. cbb_add_child k off (of_nat n) a c = (True, c') \<and> fr_is_asn1 fr = a \<and> unat (fr_len_len fr) = n
    \<and> cbb_rep al L c' (lv @ [(x, fr)]) []"
proof -
  let ?fr = "\<lparr>fr_offset = off, fr_len_len = of_nat n, fr_is_asn1 = a\<rparr>"
  have nu: "unat (of_nat n :: u8) = n" using n by (intro unat_of_nat_small) simp
  have nz: "(of_nat n :: u8) \<noteq> 0"
  proof
    assume "(of_nat n :: u8) = 0"
    then have "unat (of_nat n :: u8) = 0" by simp
    with nu n show False by simp
  qed
  have one: "a \<Longrightarrow> (of_nat n :: u8) = 1" using n(3) by simp
  from rep obtain b where b: "cb_base c = Some b" "builder al L b" "cb_children c = map snd lv"
    "buffer_bytes b = levels_bytes lv @ x @ replicate n 0" "levels_ok 0 lv" by (auto simp: cbb_rep_def)
  have "levels_ok 0 (lv @ [(x, ?fr)])"
    using b(5) off n(2) nu nz one by (simp add: levels_ok_append)
  moreover have "levels_bytes (lv @ [(x, ?fr)]) = levels_bytes lv @ x @ replicate n 0"
    by (simp add: levels_bytes_append nu)
  ultimately have "cbb_rep al L (c\<lparr>cb_children := take k (cb_children c) @ [?fr]\<rparr>) (lv @ [(x, ?fr)]) []"
    using b k by (simp add: cbb_rep_def)
  then show ?thesis
    by (intro exI [of _ "c\<lparr>cb_children := take k (cb_children c) @ [?fr]\<rparr>"] exI [of _ ?fr])
      (simp add: cbb_add_child_def nu)
qed

text \<open>A step that opens a child of \<open>n\<close> length bytes behind \<open>pre\<close>.\<close>

definition opens :: "allocator \<Rightarrow> nat \<Rightarrow> (cbb \<Rightarrow> bool \<times> cbb) \<Rightarrow> bytes \<Rightarrow> nat \<Rightarrow> bool \<Rightarrow> bool" where
  "opens al k f pre n a \<longleftrightarrow>
     (\<forall>L c lv x. cbb_rep al L c lv x \<and> k \<le> length lv \<and> closes (drop k lv) x
        \<and> length (levels_bytes (take k lv)) + length (close (drop k lv) x) + length pre + n \<le> L \<longrightarrow>
        (\<exists>c' fr. f c = (True, c') \<and> fr_is_asn1 fr = a \<and> unat (fr_len_len fr) = n
           \<and> cbb_rep al L c' (take k lv @ [(close (drop k lv) x @ pre, fr)]) []))"

text \<open>A step at level \<open>k\<close> when nothing is pending below it.\<close>

definition here :: "allocator \<Rightarrow> nat \<Rightarrow> (cbb \<Rightarrow> bool \<times> cbb) \<Rightarrow> bytes \<Rightarrow> bool" where
  "here al k f bs \<longleftrightarrow>
     (\<forall>L c lv x. cbb_rep al L c lv x \<and> k = length lv \<and> length (levels_bytes lv) + length x + length bs \<le> L \<longrightarrow>
        (\<exists>c'. f c = (True, c') \<and> cbb_rep al L c' lv (x @ bs)))"

lemma appends_here: "appends al k f bs \<Longrightarrow> here al k f bs"
  unfolding here_def by (force elim: appendsE)

lemma put_here: "here al k (cbb_on_base (cbb_buffer_put al data)) data"
  unfolding here_def
proof (intro allI impI; elim conjE)
  fix L c lv x
  assume rep: "cbb_rep al L c lv x" and len: "length (levels_bytes lv) + length x + length data \<le> L"
  from rep obtain b where b: "cb_base c = Some b" "builder al L b" "cb_children c = map snd lv"
    "buffer_bytes b = levels_bytes lv @ x" "levels_ok 0 lv" by (auto simp: cbb_rep_def)
  have "unat (bb_len b) = length (buffer_bytes b)" using b(2) by (simp add: builder_def)
  then have "unat (bb_len b) + length data \<le> L" using len b(4) by simp
  from cbb_buffer_put_builder [OF b(2) this] obtain b' where
    "cbb_buffer_put al data b = (True, b')" "builder al L b'" "buffer_bytes b' = buffer_bytes b @ data" .
  with b show "\<exists>c'. cbb_on_base (cbb_buffer_put al data) c = (True, c') \<and> cbb_rep al L c' lv (x @ data)"
    by (auto simp: cbb_on_base_def cbb_rep_def)
qed

text \<open>The child is opened where the bytes of the flushed level end.\<close>

lemma opens_after:
  assumes g: "appends al k g pre" and f: "here al k f (replicate n 0)"
    and n: "0 < n" "n \<le> 8" "a \<longrightarrow> n = 1"
  shows "opens al k (cbb_then g
      (\<lambda>c. let off = cbb_base_len c in cbb_then f (cbb_add_child k off (of_nat n) a) c)) pre n a"
  unfolding opens_def
proof (intro allI impI; elim conjE)
  fix L c lv x
  assume rep: "cbb_rep al L c lv x" and k: "k \<le> length lv" and cl: "closes (drop k lv) x"
    and len: "length (levels_bytes (take k lv)) + length (close (drop k lv) x) + length pre + n \<le> L"
  let ?x = "close (drop k lv) x @ pre" and ?lv = "take k lv"
  from appendsE [OF g rep k cl] len obtain c1 where c1: "g c = (True, c1)"
    "cbb_rep al L c1 ?lv ?x" by auto
  then obtain b where b: "cb_base c1 = Some b" "builder al L b" "buffer_bytes b = levels_bytes ?lv @ ?x"
    by (auto simp: cbb_rep_def)
  have "length (buffer_bytes b) = unat (bb_len b)" using b(2) by (simp add: builder_def)
  then have off: "unat (cbb_base_len c1) = length (levels_bytes ?lv) + length ?x"
    using b by (simp add: cbb_base_len_def)
  from f [unfolded here_def, rule_format, of L c1 ?lv ?x] c1(2) len k obtain c2 where
    c2: "f c1 = (True, c2)" "cbb_rep al L c2 ?lv (?x @ replicate n 0)" by auto
  from add_child_opens [OF c2(2) _ n off] k obtain c' fr where
    "cbb_add_child k (cbb_base_len c1) (of_nat n) a c2 = (True, c')" "fr_is_asn1 fr = a"
    "unat (fr_len_len fr) = n" "cbb_rep al L c' (?lv @ [(?x, fr)]) []" by auto
  with c1(1) c2(1) show "\<exists>c' fr. cbb_then g
      (\<lambda>c. let off = cbb_base_len c in cbb_then f (cbb_add_child k off (of_nat n) a) c) c = (True, c')
      \<and> fr_is_asn1 fr = a \<and> unat (fr_len_len fr) = n
      \<and> cbb_rep al L c' (?lv @ [(?x, fr)]) []"
    by (auto simp: cbb_then_def Let_def)
qed

lemma cbb_then_assoc: "cbb_then (cbb_then f g) h = cbb_then f (cbb_then g h)"
  by (rule ext) (simp add: cbb_then_def split: prod.split)

lemma CBB_add_asn1_opens: "opens al k (CBB_add_asn1 al k t) (der_tag t) 1 True"
proof -
  have "here al k (CBB_add_u8 al k 0) (replicate 1 0)" by (simp add: appends_here CBB_add_u8_appends)
  from opens_after [OF appends_then [OF CBB_flush_appends tag_octets_appends] this, of True]
  show ?thesis by (simp add: CBB_add_asn1_def [abs_def] cbb_then_assoc Let_def)
qed

text \<open>A step that fills a fresh child.\<close>

definition fills :: "allocator \<Rightarrow> nat \<Rightarrow> (cbb \<Rightarrow> bool \<times> cbb) \<Rightarrow> bytes \<Rightarrow> bool" where
  "fills al k f v \<longleftrightarrow>
     (\<forall>L c lv. cbb_rep al L c lv [] \<and> k = length lv \<and> length (levels_bytes lv) + length v \<le> L \<longrightarrow>
        (\<exists>c'. f c = (True, c') \<and> cbb_rep al L c' lv v))"

lemma appends_fills: "appends al k f v \<Longrightarrow> fills al k f v"
  unfolding fills_def by (force elim: appendsE)

text \<open>Writing into the child and flushing puts the prefix in.\<close>

lemma opens_close:
  assumes op: "opens al k f pre n a" and body: "fills al (Suc k) body v"
    and fits: "if a then length v \<le> 0xfffffffe else length v < 256 ^ n" and n: "a \<longrightarrow> n = 1"
  shows "appends al k (cbb_then f (cbb_then body (CBB_flush al k)))
    (pre @ (if a then der_length (length v) else be_fixed n (length v)) @ v)"
  unfolding appends_def
proof (intro allI impI; elim conjE)
  fix L c lv x
  let ?p = "if a then der_length (length v) else be_fixed n (length v)"
  let ?x = "close (drop k lv) x @ pre" and ?lv = "take k lv"
  assume rep: "cbb_rep al L c lv x" and k: "k \<le> length lv" and cl: "closes (drop k lv) x"
    and len: "length (levels_bytes ?lv) + length (close (drop k lv) x) + length (pre @ ?p @ v) \<le> L"
  have np: "n \<le> length ?p" using n by (auto simp: der_length_def)
  with op [unfolded opens_def, rule_format, of L c lv x] rep k cl len obtain c1 fr where
    c1: "f c = (True, c1)" "fr_is_asn1 fr = a" "unat (fr_len_len fr) = n" "cbb_rep al L c1 (?lv @ [(?x, fr)]) []"
    by auto
  from body [unfolded fills_def, rule_format, of L c1 "?lv @ [(?x, fr)]"] c1(3,4) k len np obtain c2 where
    c2: "body c1 = (True, c2)" "cbb_rep al L c2 (?lv @ [(?x, fr)]) v"
    by (auto simp: levels_bytes_append)
  have pfx: "len_prefix fr (length v) = ?p" "len_fits fr (length v)"
    using c1(2,3) fits by (simp_all add: len_prefix_def len_fits_def)
  from appendsE [OF CBB_flush_appends c2(2), of k] k len pfx obtain c3 where
    "CBB_flush al k c2 = (True, c3)" "cbb_rep al L c3 ?lv (?x @ ?p @ v)" by auto
  with c1(1) c2(1) show "\<exists>c'. cbb_then f (cbb_then body (CBB_flush al k)) c = (True, c')
      \<and> cbb_rep al L c' ?lv (close (drop k lv) x @ pre @ ?p @ v)"
    by (auto simp: cbb_then_def)
qed

lemma asn1_fills:
  "fills al (Suc k) body v \<Longrightarrow> length v \<le> 0xfffffffe \<Longrightarrow>
     appends al k (cbb_then (CBB_add_asn1 al k t) (cbb_then body (CBB_flush al k))) (der_element t v)"
  using opens_close [OF CBB_add_asn1_opens, of al k body v t] by (simp add: der_element_def der_header_def)

lemma asn1_appends:
  "appends al (Suc k) body v \<Longrightarrow> length v \<le> 0xfffffffe \<Longrightarrow>
     appends al k (cbb_then (CBB_add_asn1 al k t) (cbb_then body (CBB_flush al k))) (der_element t v)"
  by (intro asn1_fills appends_fills)

lemma length_prefixed_appends:
  assumes "appends al (Suc k) body v" "0 < unat n" "unat n \<le> 8" "length v < 256 ^ unat n"
  shows "appends al k (cbb_then (cbb_add_length_prefixed al k n) (cbb_then body (CBB_flush al k)))
    (be_fixed (unat n) (length v) @ v)"
proof -
  from opens_after [OF CBB_flush_appends put_here, of "unat n" False al k] assms
  have "opens al k (cbb_add_length_prefixed al k n) [] (unat n) False"
    by (simp add: cbb_add_length_prefixed_def [abs_def] Let_def)
  from opens_close [OF this appends_fills [OF assms(1)]] assms(4) show ?thesis by simp
qed

section \<open>Whole documents\<close>

lemma CBB_init_rep:
  assumes "al_total al" "L < 2 ^ 63"
  obtains c where "CBB_init al cap = Some c" "cbb_rep al L c [] []"
proof -
  obtain s where s: "al 32 = Some s" using assms(1) by (auto simp: al_total_def)
  obtain buf where buf: "al cap = Some buf" using assms(1) by (auto simp: al_total_def)
  have len: "length buf = unat cap" using buf assms(1) by (simp add: al_total_def al_ok_def)
  show ?thesis
    by (rule that [of "\<lparr>cb_base = Some \<lparr>bb_buf = buf, bb_len = 0, bb_cap = cap, bb_can_resize = True,
        bb_error = False\<rparr>, cb_children = []\<rparr>"]) (use s buf len assms in
      \<open>simp_all add: CBB_init_def cbb_init_def cbb_rep_def builder_def buffer_ok_def buffer_bytes_def al_total_def\<close>)
qed

lemma CBB_init_fixed_rep:
  assumes "al_ok al" "al 32 \<noteq> None" "length buf = unat n" "unat n < 2 ^ 63"
  obtains c where "CBB_init_fixed al buf n = Some c" "cbb_rep al (unat n) c [] []"
proof -
  obtain s where s: "al 32 = Some s" using assms(2) by auto
  show ?thesis
    by (rule that [of "\<lparr>cb_base = Some \<lparr>bb_buf = buf, bb_len = 0, bb_cap = n, bb_can_resize = False,
        bb_error = False\<rparr>, cb_children = []\<rparr>"]) (use s assms in
      \<open>simp_all add: CBB_init_fixed_def cbb_init_def cbb_rep_def builder_def buffer_ok_def buffer_bytes_def\<close>)
qed

lemma CBB_finish_rep:
  assumes "cbb_rep al L c lv x" "closes lv x" "length (close lv x) \<le> L"
  obtains c' where "CBB_finish al True 0 c = (Some (close lv x), c')"
proof -
  from appendsE [OF CBB_flush_appends assms(1), of 0] assms(2,3) obtain c1 where
    c1: "CBB_flush al 0 c = (True, c1)" "cbb_rep al L c1 [] (close lv x)" by auto
  then obtain b where b: "cb_base c1 = Some b" "buffer_bytes b = close lv x" by (auto simp: cbb_rep_def)
  with c1(1) that show ?thesis by (simp add: CBB_finish_def buffer_bytes_def)
qed

text \<open>A document written at the top level, and read back.\<close>

definition build :: "allocator \<Rightarrow> u64 \<Rightarrow> (cbb \<Rightarrow> bool \<times> cbb) \<Rightarrow> bytes option" where
  "build al cap f =
     (case CBB_init al cap of
        None \<Rightarrow> None
      | Some c \<Rightarrow> (case f c of (False, _) \<Rightarrow> None | (True, c') \<Rightarrow> fst (CBB_finish al True 0 c')))"

lemma build_appends:
  assumes "appends al 0 f bs" "al_total al" "length bs < 2 ^ 63"
  shows "build al cap f = Some bs"
proof -
  obtain c where c: "CBB_init al cap = Some c" "cbb_rep al (length bs) c [] []"
    using CBB_init_rep assms(2,3) by blast
  from appendsE [OF assms(1) c(2)] obtain c1 where c1: "f c = (True, c1)" "cbb_rep al (length bs) c1 [] bs" by auto
  from CBB_finish_rep [OF c1(2)] obtain c2 where "CBB_finish al True 0 c1 = (Some bs, c2)" by auto
  with c(1) c1(1) show ?thesis by (simp add: build_def)
qed

end
