(* ===== verification/CbbTyped.thy ===== *)
theory CbbTyped
  imports CbbDer CbsTyped
begin

text \<open>
  The ASN.1 writers of cbb.c: each appends the DER encoding of its argument, which the reader of
  cbs.c for the same type reads back; and the failures of the builder, which are sticky.
\<close>

section \<open>The octets of an integer\<close>

lemma be_val_le_bytes: "be_val (rev (le_bytes n v)) = unat v mod 256 ^ n"
proof (induction n arbitrary: v)
  case (Suc n)
  have u: "unat (ucast v :: u8) = unat v mod 256" by (simp add: unsigned_ucast_eq take_bit_eq_mod)
  have "unat v div 256 mod 256 ^ n * 256 + unat v mod 256 = unat v mod (256 * 256 ^ n)"
    by (simp add: mod_mult2_eq)
  with Suc u show ?case by (simp add: unat_drop_bit_div)
qed simp

lemma be_val_bytes64: "be_val (rev (le_bytes 8 (v :: u64))) = unat v"
  using unsigned_less [of v, where 'a = nat] by (simp add: be_val_le_bytes)

lemma bytes64: "map (\<lambda>i. ucast (drop_bit (8 * (7 - i)) v AND 0xff)) [0..<8] = rev (le_bytes 8 (v :: u64))"
  by (simp add: ucast_and_FF eval_nat_numeral upt_conv_Cons drop_bit_drop_bit del: drop_bit_Suc)

lemma uint64_octets_True [simp]: "uint64_octets True bs = bs"
  by (induction bs) simp_all

lemma uint64_octets_minimal: "uint64_octets False bs = uint_octets (be_val bs)"
proof (induction bs)
  case Nil
  then show ?case by (simp add: uint_octets_def be_octets_def digits.simps)
next
  case (Cons b bs)
  show ?case
  proof (cases "b = 0")
    case False
    then have "be_octets (be_val (b # bs)) = b # bs" by (intro be_octets_be_val) simp_all
    with False show ?thesis by (simp add: uint_octets_def u8_and_80 not_less)
  qed (simp add: Cons)
qed

lemma skip_sign_single:
  "128 \<le> unat (hd [b]) \<Longrightarrow> skip_sign [b] = map NOT (uint_octets (be_val (map NOT [b])))"
  using int_status_neg [of "[b]"] by auto

lemma skip_sign_minimal:
  "bs \<noteq> [] \<Longrightarrow> 128 \<le> unat (hd bs) \<Longrightarrow> skip_sign bs = map NOT (uint_octets (be_val (map NOT bs)))"
proof (induction bs rule: skip_sign.induct)
  case (1 b d bs)
  show ?case
  proof (cases "b = 0xff \<and> 128 \<le> unat d")
    case True
    with 1 show ?thesis by (simp add: u8_and_80 not_less)
  next
    case False
    then have "int_status (b # d # bs) = Some True" using 1 by auto
    with False int_status_neg [of "b # d # bs"] show ?thesis by (auto simp: u8_and_80 not_less)
  qed
next
  case "2_2"
  from skip_sign_single [OF "2_2"(2)] show ?case .
qed simp

lemma unat_NOT64: "unat (NOT v :: u64) = 2 ^ 64 - 1 - unat v"
proof -
  have "NOT v = - v - 1" by (rule not_eq_complement)
  then have "NOT v = - 1 - v" by simp
  then show ?thesis by (simp add: unat_sub unsigned_minus_1_eq_mask mask_eq_exp_minus_1)
qed

lemma sint_high: "2 ^ 63 \<le> unat v \<Longrightarrow> sint (v :: u64) = - int (2 ^ 64 - 1 - unat v) - 1"
  using sint_NOT [of v] sint_small [of "NOT v"] by (simp add: unat_NOT64)

lemma sint_nonneg: "0 \<le> sint (v :: u64) \<longleftrightarrow> unat v < 2 ^ 63"
  using sint_small [of v] sint_high [of v] by (cases "unat v < 2 ^ 63") (simp_all add: not_less)

lemma skip_sign_negative:
  assumes "2 ^ 63 \<le> unat v"
  shows "skip_sign (rev (le_bytes 8 v)) = int_octets (sint (v :: u64))"
proof -
  let ?bs = "rev (le_bytes 8 v)"
  have v: "be_val ?bs = unat v" by (rule be_val_bytes64)
  have hd: "128 \<le> unat (hd ?bs)"
  proof (rule ccontr)
    assume low: "\<not> 128 \<le> unat (hd ?bs)"
    obtain b ds where bs: "?bs = b # ds" by (cases ?bs) (simp_all flip: length_0_conv)
    have len: "length ds = 7" using arg_cong [OF bs, of length] by simp
    have "unat b * 256 ^ 7 \<le> 127 * 256 ^ 7" using low unfolding bs by (intro mult_le_mono1) simp
    moreover have "be_val ds < 256 ^ 7" using be_val_less [of ds] len by simp
    moreover have "unat v = unat b * 256 ^ 7 + be_val ds" using v len unfolding bs by simp
    ultimately show False using assms by simp
  qed
  have "unat v + be_val (map NOT ?bs) = 256 ^ 8 - 1"
    using be_val_NOT [of ?bs] v by (simp only: length_rev length_le_bytes)
  then have "be_val (map NOT ?bs) = 2 ^ 64 - 1 - unat v" by simp
  moreover have "\<not> 0 \<le> sint v" using assms by (simp add: sint_nonneg)
  moreover have "nat (- sint v - 1) = 2 ^ 64 - 1 - unat v" using sint_high [OF assms] by simp
  moreover have "?bs \<noteq> []" by (simp flip: length_0_conv)
  ultimately show ?thesis using skip_sign_minimal [OF _ hd] by (simp only: int_octets_def if_False simp_thms)
qed

section \<open>Writers\<close>

theorem CBB_add_asn1_uint64_appends:
  "appends al k (CBB_add_asn1_uint64 al k v) (der_element CBS_ASN1_INTEGER (uint_octets (unat v)))"
proof -
  have o: "uint64_octets False (map (\<lambda>i. ucast (drop_bit (8 * (7 - i)) v AND 0xff)) [0..<8]) = uint_octets (unat v)"
    unfolding bytes64 by (simp add: uint64_octets_minimal be_val_bytes64)
  have ne: "uint_octets (unat v) \<noteq> []" by (simp add: uint_octets_def)
  have "length (uint_octets (unat v)) \<le> 9"
    using be_octets_length [of 8 "unat v"] unsigned_less [of v, where 'a = nat] by (simp add: uint_octets_def)
  with asn1_appends [OF cbb_add_octets_appends [OF ne]] show ?thesis
    by (simp add: CBB_add_asn1_uint64_def [abs_def] o)
qed

theorem CBB_add_asn1_int64_appends:
  "appends al k (CBB_add_asn1_int64 al k v) (der_element CBS_ASN1_INTEGER (int_octets (sint v)))"
proof (cases "unat v < 2 ^ 63")
  case True
  then have "0 \<le>s v" "int_octets (sint v) = uint_octets (unat v)"
    using sint_nonneg [of v] sint_small [of v] by (simp_all add: word_sle_eq int_octets_def)
  then show ?thesis
    using CBB_add_asn1_uint64_appends [of al k v] by (simp add: CBB_add_asn1_int64_def [abs_def])
next
  case False
  then have "\<not> 0 \<le>s v" "skip_sign (rev (le_bytes 8 v)) = int_octets (sint v)"
    using sint_nonneg [of v] skip_sign_negative [of v] by (simp_all add: word_sle_eq)
  moreover have "int_octets (sint v) \<noteq> []" by (simp add: int_octets_def uint_octets_def)
  from asn1_appends [OF cbb_add_octets_appends [OF this]] int_octets_length [of v] calculation show ?thesis
    by (simp add: CBB_add_asn1_int64_def [abs_def])
qed

theorem CBB_add_asn1_octet_string_appends:
  "length data \<le> 0xfffffffe \<Longrightarrow>
     appends al k (CBB_add_asn1_octet_string al k data) (der_element CBS_ASN1_OCTETSTRING data)"
  using asn1_appends [OF CBB_add_bytes_appends] by (simp add: CBB_add_asn1_octet_string_def [abs_def])

theorem CBB_add_asn1_bool_appends:
  "appends al k (CBB_add_asn1_bool al k v) (der_element CBS_ASN1_BOOLEAN [if v then 0xff else 0])"
  using asn1_appends [OF CBB_add_u8_appends, of "if v then 0xff else 0" al k]
  by (simp add: CBB_add_asn1_bool_def [abs_def])

section \<open>Round trips\<close>

lemma build_fits:
  assumes "appends al 0 f (der_element t v)" "al_total al" "length v < 2 ^ 32"
  shows "build al cap f = Some (der_element t v)"
proof -
  have "length (der_tag t) \<le> 11" by (rule der_tag_length)
  moreover have "length (der_length (length v)) \<le> 5"
    using be_octets_length [of 4 "length v"] assms(3) by (simp add: der_length_def)
  ultimately have "length (der_element t v) < 2 ^ 63"
    using assms(3) by (simp add: der_element_def der_header_def)
  with build_appends assms(1,2) show ?thesis by blast
qed

text \<open>
  A value type of ASN.1 as its writer and its reader agree on it: the writer appends the DER
  element of the contents, and the reader accepts exactly that.
\<close>

locale asn1_codec =
  fixes add :: "allocator \<Rightarrow> nat \<Rightarrow> 'v \<Rightarrow> cbb \<Rightarrow> bool \<times> cbb"
    and get :: "mem \<Rightarrow> cbs \<Rightarrow> 'v option \<times> cbs"
    and tag :: u32
    and contents :: "'v \<Rightarrow> bytes"
    and fits :: "'v \<Rightarrow> bool"
  assumes add_appends: "fits v \<Longrightarrow> appends al k (add al k v) (der_element tag (contents v))"
    and get_exact: "fits v \<Longrightarrow> (\<exists>c'. get m c = (Some v, c') \<and> cbs_bytes m c' = rest)
      \<longleftrightarrow> cbs_bytes m c = der_element tag (contents v) @ rest"
    and contents_short: "fits v \<Longrightarrow> length (contents v) < 2 ^ 32"
begin

lemma build_add: "fits v \<Longrightarrow> al_total al \<Longrightarrow> build al cap (add al 0 v) = Some (der_element tag (contents v))"
  using build_fits [OF add_appends] contents_short by blast

lemma roundtrip:
  "fits v \<Longrightarrow> al_total al \<Longrightarrow> \<exists>bs. build al cap (add al 0 v) = Some bs
    \<and> (\<forall>m c rest. cbs_bytes m c = bs @ rest \<longrightarrow>
          (\<exists>c'. get m c = (Some v, c') \<and> cbs_bytes m c' = rest))"
  by (simp add: build_add get_exact)

text \<open>What the reader took was what the writer writes.\<close>

lemma canonical:
  "fits v \<Longrightarrow> al_total al \<Longrightarrow> get m c = (Some v, c') \<Longrightarrow>
     \<exists>bs. build al cap (add al 0 v) = Some bs \<and> cbs_bytes m c = bs @ cbs_bytes m c'"
  using get_exact [of v m c "cbs_bytes m c'"] by (auto simp: build_add)

text \<open>Two values in a row at one level.\<close>

lemma add_two: "fits v \<Longrightarrow> fits w \<Longrightarrow> appends al k (cbb_then (add al k v) (add al k w))
    (der_element tag (contents v) @ der_element tag (contents w))"
  by (intro appends_then add_appends)

end

lemma uint_octets_short: "length (uint_octets (unat (v :: u64))) < 2 ^ 32"
  using be_octets_length [of 8 "unat v"] unsigned_less [of v, where 'a = nat] by (simp add: uint_octets_def)

lemma int_octets_short: "length (int_octets (sint (v :: u64))) < 2 ^ 32"
  by (rule order.strict_trans1 [OF int_octets_length]) simp

interpretation asn1_uint64: asn1_codec CBB_add_asn1_uint64 CBS_get_asn1_uint64 CBS_ASN1_INTEGER
    "\<lambda>v. uint_octets (unat v)" "\<lambda>_. True"
  by unfold_locales (simp_all only: CBB_add_asn1_uint64_appends asn1_uint64_exact uint_octets_short)

interpretation asn1_int64: asn1_codec CBB_add_asn1_int64 CBS_get_asn1_int64 CBS_ASN1_INTEGER
    "\<lambda>v. int_octets (sint v)" "\<lambda>_. True"
  by unfold_locales (simp_all only: CBB_add_asn1_int64_appends asn1_int64_exact int_octets_short)

interpretation asn1_bool: asn1_codec CBB_add_asn1_bool CBS_get_asn1_bool CBS_ASN1_BOOLEAN
    "\<lambda>v. [if v then 0xff else 0]" "\<lambda>_. True"
  by unfold_locales (simp_all only: CBB_add_asn1_bool_appends asn1_bool_exact, simp)

text \<open>Octet strings, read as the bytes of the \<open>CBS\<close> that \<open>CBS_get_asn1\<close> returns.\<close>

definition read_octet_string :: "mem \<Rightarrow> cbs \<Rightarrow> bytes option \<times> cbs" where
  "read_octet_string m c = apfst (map_option (cbs_bytes m)) (CBS_get_asn1 CBS_ASN1_OCTETSTRING m c)"

lemma read_octet_string_exact:
  "length v < 2 ^ 32 \<Longrightarrow> (\<exists>c'. read_octet_string m c = (Some v, c') \<and> cbs_bytes m c' = rest)
     \<longleftrightarrow> cbs_bytes m c = der_element CBS_ASN1_OCTETSTRING v @ rest"
proof -
  assume "length v < 2 ^ 32"
  have "(\<exists>c'. read_octet_string m c = (Some v, c') \<and> cbs_bytes m c' = rest)
      \<longleftrightarrow> (\<exists>out c'. CBS_get_asn1 CBS_ASN1_OCTETSTRING m c = (Some out, c') \<and> cbs_bytes m out = v \<and> cbs_bytes m c' = rest)"
    by (cases "CBS_get_asn1 CBS_ASN1_OCTETSTRING m c") (auto simp: read_octet_string_def)
  with \<open>length v < 2 ^ 32\<close> show ?thesis by (simp add: CBS_get_asn1_der)
qed

interpretation asn1_octet_string: asn1_codec CBB_add_asn1_octet_string read_octet_string CBS_ASN1_OCTETSTRING
    id "\<lambda>v. length v \<le> 0xfffffffe"
  by unfold_locales (simp_all add: CBB_add_asn1_octet_string_appends read_octet_string_exact)

text \<open>
  Integers survive the trip: in a growing buffer \<open>CBB_add_asn1_uint64\<close> succeeds, and
  \<open>CBS_get_asn1_uint64\<close> reads the number back from any input that starts with what it built,
  leaving the rest.
\<close>

theorem asn1_uint64_roundtrip:
  assumes "al_total al"
  shows "\<exists>bs. build al cap (CBB_add_asn1_uint64 al 0 v) = Some bs
    \<and> (\<forall>m c rest. cbs_bytes m c = bs @ rest \<longrightarrow>
          (\<exists>c'. CBS_get_asn1_uint64 m c = (Some v, c') \<and> cbs_bytes m c' = rest))"
  using asn1_uint64.roundtrip [OF TrueI assms] .

definition zero_alloc :: allocator where
  "zero_alloc n = Some (replicate (unat n) 0)"

lemma zero_alloc_total: "al_total zero_alloc"
  by (simp add: al_total_def al_ok_def zero_alloc_def)

lemma asn1_uint64_roundtrip_witness:
  "\<exists>bs. build zero_alloc 0 (CBB_add_asn1_uint64 zero_alloc 0 300) = Some bs
    \<and> (\<forall>m c rest. cbs_bytes m c = bs @ rest \<longrightarrow>
          (\<exists>c'. CBS_get_asn1_uint64 m c = (Some 300, c') \<and> cbs_bytes m c' = rest))"
  using asn1_uint64_roundtrip [OF zero_alloc_total] .

text \<open>Signed integers survive the trip in the same way.\<close>

theorem asn1_int64_roundtrip:
  assumes "al_total al"
  shows "\<exists>bs. build al cap (CBB_add_asn1_int64 al 0 v) = Some bs
    \<and> (\<forall>m c rest. cbs_bytes m c = bs @ rest \<longrightarrow>
          (\<exists>c'. CBS_get_asn1_int64 m c = (Some v, c') \<and> cbs_bytes m c' = rest))"
  using asn1_int64.roundtrip [OF TrueI assms] .

lemma asn1_int64_roundtrip_witness:
  "\<exists>bs. build zero_alloc 0 (CBB_add_asn1_int64 zero_alloc 0 (- 129)) = Some bs
    \<and> (\<forall>m c rest. cbs_bytes m c = bs @ rest \<longrightarrow>
          (\<exists>c'. CBS_get_asn1_int64 m c = (Some (- 129), c') \<and> cbs_bytes m c' = rest))"
  using asn1_int64_roundtrip [OF zero_alloc_total] .

text \<open>
  What \<open>CBS_get_asn1_int64\<close> accepted is what \<open>CBB_add_asn1_int64\<close> writes for the value it
  returned: no integer has a second accepted encoding.
\<close>

theorem asn1_int64_canonical:
  assumes "al_total al" "CBS_get_asn1_int64 m c = (Some v, c')"
  shows "\<exists>bs. build al cap (CBB_add_asn1_int64 al 0 v) = Some bs \<and> cbs_bytes m c = bs @ cbs_bytes m c'"
  using asn1_int64.canonical [OF TrueI assms] .

lemma asn1_int64_canonical_witness:
  "build zero_alloc 0 (CBB_add_asn1_int64 zero_alloc 0 (- 129)) = Some [2, 2, 0xff, 0x7f]"
proof -
  let ?m = "(\<lambda>p. if p = 0 then 2 else if p = 1 then 2 else if p = 2 then 0xff else 0x7f) :: mem"
  have "CBS_get_asn1_int64 ?m (CBS_init 0 4) = (Some (- 129), \<lparr>cbs_data = 4, cbs_len = 0\<rparr>)" by code_simp
  from asn1_int64_canonical [OF zero_alloc_total this, of 0] obtain bs where
    "build zero_alloc 0 (CBB_add_asn1_int64 zero_alloc 0 (- 129)) = Some bs"
    "cbs_bytes ?m (CBS_init 0 4) = bs @ cbs_bytes ?m \<lparr>cbs_data = 4, cbs_len = 0\<rparr>" by blast
  moreover have "cbs_bytes ?m (CBS_init 0 4) = [2, 2, 0xff, 0x7f]" by code_simp
  ultimately show ?thesis by (simp add: cbs_bytes_def)
qed

text \<open>
  C13. A nested element survives the trip: content written into a child of a child comes back from
  \<open>CBS_get_asn1\<close> with the outer tag and then with the inner one, whatever the two tags are.
\<close>

theorem asn1_nested_roundtrip:
  assumes "al_total al" "length data < 2 ^ 31"
  shows "\<exists>bs. build al cap
       (cbb_then (CBB_add_asn1 al 0 t)
          (cbb_then (cbb_then (CBB_add_asn1 al 1 u) (cbb_then (CBB_add_bytes al 2 data) (CBB_flush al 1)))
             (CBB_flush al 0))) = Some bs
    \<and> (\<forall>m c rest. cbs_bytes m c = bs @ rest \<longrightarrow>
          (\<exists>out c' out' c''. CBS_get_asn1 t m c = (Some out, c') \<and> cbs_bytes m c' = rest
             \<and> CBS_get_asn1 u m out = (Some out', c'') \<and> cbs_bytes m c'' = [] \<and> cbs_bytes m out' = data))"
proof -
  have len: "length (der_element u data) \<le> length data + 16" if "length data < 2 ^ 32"
  proof -
    have "length (der_tag u) \<le> 11" by (rule der_tag_length)
    moreover have "length (der_length (length data)) \<le> 5"
      using be_octets_length [of 4 "length data"] that by (simp add: der_length_def)
    ultimately show ?thesis by (simp add: der_element_def der_header_def)
  qed
  have "appends al 1 (cbb_then (CBB_add_asn1 al 1 u) (cbb_then (CBB_add_bytes al 2 data) (CBB_flush al 1)))
      (der_element u data)"
  proof -
    have "length data \<le> 0xfffffffe" using assms(2) by simp
    from asn1_appends [OF CBB_add_bytes_appends this, of al 1 u] show ?thesis
      by (simp only: Suc_1)
  qed
  then have "appends al 0 (cbb_then (CBB_add_asn1 al 0 t)
          (cbb_then (cbb_then (CBB_add_asn1 al 1 u) (cbb_then (CBB_add_bytes al 2 data) (CBB_flush al 1)))
             (CBB_flush al 0))) (der_element t (der_element u data))"
    using len assms(2) by (intro asn1_appends) simp_all
  from build_fits [OF this assms(1)] len assms(2)
  have b: "build al cap (cbb_then (CBB_add_asn1 al 0 t)
          (cbb_then (cbb_then (CBB_add_asn1 al 1 u) (cbb_then (CBB_add_bytes al 2 data) (CBB_flush al 1)))
             (CBB_flush al 0))) = Some (der_element t (der_element u data))" by simp
  have "\<exists>out c' out' c''. CBS_get_asn1 t m c = (Some out, c') \<and> cbs_bytes m c' = rest
      \<and> CBS_get_asn1 u m out = (Some out', c'') \<and> cbs_bytes m c'' = [] \<and> cbs_bytes m out' = data"
    if input: "cbs_bytes m c = der_element t (der_element u data) @ rest" for m c rest
  proof -
    obtain out c' where o: "CBS_get_asn1 t m c = (Some out, c')" "cbs_bytes m out = der_element u data"
      "cbs_bytes m c' = rest"
      using CBS_get_asn1_der [of t m c "der_element u data" rest] input len assms(2) by auto
    then obtain out' c'' where "CBS_get_asn1 u m out = (Some out', c'')" "cbs_bytes m out' = data" "cbs_bytes m c'' = []"
      using CBS_get_asn1_der [of u m out data "[]"] assms(2) by auto
    with o show ?thesis by blast
  qed
  with b show ?thesis by blast
qed

lemma asn1_nested_roundtrip_witness:
  "\<exists>bs. build zero_alloc 0
       (cbb_then (CBB_add_asn1 zero_alloc 0 0x20000010)
          (cbb_then (cbb_then (CBB_add_asn1 zero_alloc 1 4) (cbb_then (CBB_add_bytes zero_alloc 2 [1, 2, 3]) (CBB_flush zero_alloc 1)))
             (CBB_flush zero_alloc 0))) = Some bs
    \<and> (\<forall>m c rest. cbs_bytes m c = bs @ rest \<longrightarrow>
          (\<exists>out c' out' c''. CBS_get_asn1 0x20000010 m c = (Some out, c') \<and> cbs_bytes m c' = rest
             \<and> CBS_get_asn1 4 m out = (Some out', c'') \<and> cbs_bytes m c'' = [] \<and> cbs_bytes m out' = [1, 2, 3]))"
  using asn1_nested_roundtrip [OF zero_alloc_total, of "[1, 2, 3]"] by simp

section \<open>Length prefixes\<close>

lemma be_val_be_fixed: "n < 256 ^ k \<Longrightarrow> k \<le> 8 \<Longrightarrow> be_val (be_fixed k n) = n"
proof -
  assume n: "n < 256 ^ k" and k: "k \<le> 8"
  have "(256 :: nat) ^ k \<le> 256 ^ 8" using k by (intro power_increasing) simp_all
  with n have "unat (of_nat n :: u64) = n" by (intro unat_of_nat_small) simp
  with n show ?thesis by (simp add: be_fixed_def be_val_le_bytes)
qed

text \<open>
  C14. A length-prefixed child, of data whose length fits the prefix, survives the trip through \<open>cbs_get_length_prefixed\<close> of the same width, for the
  widths 1, 2 and 3 of \<open>CBB_add_u8_length_prefixed\<close> and its siblings: the reader does not run into its assertion,
  it returns the data and leaves what follows. The allocator does not fail.
\<close>

theorem length_prefixed_roundtrip:
  assumes "al_total al" "0 < unat n" "unat n \<le> 3" "length data < 256 ^ unat n"
  shows "\<exists>bs. build al cap (cbb_then (cbb_add_length_prefixed al 0 n)
        (cbb_then (CBB_add_bytes al 1 data) (CBB_flush al 0))) = Some bs
    \<and> (\<forall>m c rest. cbs_bytes m c = bs @ rest \<longrightarrow>
          (\<exists>out c'. cbs_get_length_prefixed (ucast n) m c = Some (Some out, c')
             \<and> cbs_bytes m out = data \<and> cbs_bytes m c' = rest))"
proof -
  let ?k = "unat n" and ?l = "length data"
  have l: "?l < 2 ^ 56" 
  proof -
    have "(256 :: nat) ^ ?k \<le> 256 ^ 7" using assms(3) by (intro power_increasing) simp_all
    with assms(4) show ?thesis by simp
  qed
  have ap: "appends al 0 (cbb_then (cbb_add_length_prefixed al 0 n) (cbb_then (CBB_add_bytes al 1 data) (CBB_flush al 0)))
      (be_fixed ?k ?l @ data)"
    using length_prefixed_appends [of al 0 "CBB_add_bytes al 1 data" data n] CBB_add_bytes_appends [of al 1 data] assms
    by simp
  have "length (be_fixed ?k ?l @ data) < 2 ^ 63" using l assms(3) by simp
  note b = build_appends [OF ap assms(1) this, of cap]
  have "\<exists>out c'. cbs_get_length_prefixed (ucast n) m c = Some (Some out, c') \<and> cbs_bytes m out = data \<and> cbs_bytes m c' = rest"
    if c: "cbs_bytes m c = (be_fixed ?k ?l @ data) @ rest" for m c rest
  proof -
    have un: "unat (ucast n :: u64) = ?k"
      by (simp add: unsigned_ucast_eq take_bit_nat_eq_self order.strict_trans [OF unsigned_less])
    have len: "unat (cbs_len c) = ?k + ?l + length rest"
      using arg_cong [OF c, of length] by simp
    have lu: "unat (of_nat ?l :: u64) = ?l" using l by (intro unat_of_nat_small) simp
    have "unat (be_loop 0 (be_fixed ?k ?l)) = ?l"
      using be_loop_val [of "be_fixed ?k ?l"] be_val_be_fixed [of ?l ?k] assms(3,4) by (simp add: be_val_def)
    then have "unat (be_loop 0 (be_fixed ?k ?l)) = unat (of_nat ?l :: u64)" using lu by simp
    then have v: "be_loop 0 (be_fixed ?k ?l) = of_nat ?l" by (simp only: word_unat_eq_iff)
    have "cbs_get_u (ucast n) m c = (Some (of_nat ?l), cbs_adv ?k c)"
      using len by (simp add: cbs_get_u_eq un c v)
    moreover have "(ucast n :: u64) \<le> 3" using assms(3) un by (simp add: word_le_nat_alt)
    moreover have "cbs_bytes m (cbs_adv ?k c) = data @ rest" using len by (simp add: c)
    moreover have "unat (cbs_len (cbs_adv ?k c)) = ?l + length rest"
      using calculation(3) length_cbs_bytes [of m "cbs_adv ?k c"] by simp
    ultimately show ?thesis
      using cbs_bytes_prefix [of ?l "cbs_adv ?k c" m] cbs_bytes_adv [of ?l "cbs_adv ?k c" m] lu
      by (simp add: cbs_get_length_prefixed_def CBS_get_bytes_eq del: cbs_len_adv cbs_data_adv cbs_adv_adv)
  qed
  with b show ?thesis by blast
qed

lemma length_prefixed_roundtrip_witness:
  "\<exists>bs. build zero_alloc 0 (cbb_then (cbb_add_length_prefixed zero_alloc 0 2)
        (cbb_then (CBB_add_bytes zero_alloc 1 [7, 8]) (CBB_flush zero_alloc 0))) = Some bs
    \<and> (\<forall>m c rest. cbs_bytes m c = bs @ rest \<longrightarrow>
          (\<exists>out c'. cbs_get_length_prefixed (ucast (2 :: u8)) m c = Some (Some out, c')
             \<and> cbs_bytes m out = [7, 8] \<and> cbs_bytes m c' = rest))"
  using length_prefixed_roundtrip [OF zero_alloc_total, of 2 "[7, 8]"] by simp

section \<open>Failure\<close>

text \<open>The builder after a failure, or after its object was closed.\<close>

definition cbb_failed :: "cbb \<Rightarrow> bool" where
  "cbb_failed c = (case cb_base c of None \<Rightarrow> True | Some b \<Rightarrow> bb_error b)"

lemma CBB_flush_failed: "cbb_failed c \<Longrightarrow> CBB_flush al k c = (False, c)"
proof -
  have "bb_error b \<Longrightarrow> flush_frames al frs b = (False, b, frs)" for b frs by (cases frs) simp_all
  then show "cbb_failed c \<Longrightarrow> CBB_flush al k c = (False, c)"
    by (auto simp: cbb_failed_def CBB_flush_def split: option.splits)
qed

lemma cbb_with_buffer_failed: "cbb_failed c \<Longrightarrow> cbb_with_buffer al k f c = (False, c)"
  by (simp add: cbb_with_buffer_def cbb_then_def CBB_flush_failed)

lemma flush_prefix_unfit:
  assumes b: "builder al L b" and bytes: "buffer_bytes b = pre @ replicate (unat (fr_len_len fr)) 0 @ x"
    and fr: "unat (fr_offset fr) = length pre" and fits: "\<not> len_fits fr (length x)"
  shows "\<exists>b'. flush_prefix al fr b = (False, b')"
proof -
  let ?k = "unat (fr_len_len fr)" and ?start = "fr_offset fr + ucast (fr_len_len fr)"
  have blen: "unat (bb_len b) = length pre + ?k + length x"
    using b bytes length_buffer_bytes [of b] by (simp add: builder_def)
  have bb: "unat (bb_len b) \<le> length (bb_buf b)"
    using b by (simp add: builder_def buffer_ok_def word_le_nat_alt)
  have ku: "unat (ucast (fr_len_len fr) :: u64) = ?k"
    by (simp add: unsigned_ucast_eq take_bit_nat_eq_self order.strict_trans [OF unsigned_less])
  have start: "unat ?start = length pre + ?k"
  proof -
    have "length pre + ?k < 2 ^ LENGTH(64)"
      using blen unsigned_less [of "bb_len b", where 'a = nat] by simp
    then show ?thesis using unat_add_lem [of "fr_offset fr" "ucast (fr_len_len fr)"] fr(1) ku by simp
  qed
  have n: "unat (bb_len b - ?start) = length x"
    using start blen by (subst unat_sub) (simp_all add: word_le_nat_alt)
  show ?thesis
  proof (cases "fr_is_asn1 fr")
    case True
    then have "bb_len b - ?start > 0xfffffffe" using fits n by (simp add: len_fits_def word_less_nat_alt)
    with True show ?thesis by (simp add: flush_prefix_def Let_def)
  next
    case False
    have "drop_bit (8 * ?k) (bb_len b - ?start) \<noteq> 0"
    proof
      assume "drop_bit (8 * ?k) (bb_len b - ?start) = 0"
      then have "unat (bb_len b - ?start) div 2 ^ (8 * ?k) = 0" by (metis unat_drop_bit_div unat_eq_0)
      then show False using fits False n by (simp add: len_fits_def power_mult div_eq_0_iff)
    qed
    then show ?thesis
      using False fr blen bb by (simp add: flush_prefix_def Let_def store_be_eq)
  qed
qed

lemma CBB_flush_unfit:
  assumes rep: "cbb_rep al L c [(s, fr)] x" and fits: "\<not> len_fits fr (length x)"
  shows "\<exists>c'. CBB_flush al 0 c = (False, c') \<and> cbb_failed c'"
proof -
  from rep obtain b where b: "cb_base c = Some b" "builder al L b" "cb_children c = [fr]"
    "buffer_bytes b = s @ replicate (unat (fr_len_len fr)) 0 @ x" "unat (fr_offset fr) = length s"
    "fr_len_len fr \<noteq> 0" "\<not> bb_error b"
    by (auto simp: cbb_rep_def builder_def)
  from flush_prefix_unfit [OF b(2,4,5) fits] obtain b' where "flush_prefix al fr b = (False, b')" by blast
  with b show ?thesis by (simp add: CBB_flush_def cbb_failed_def)
qed

text \<open>
  C15. A length that does not fit into its prefix is an error, never a truncated prefix: building a
  child of \<open>n\<close> length bytes around \<open>256 ^ n\<close> or more bytes of data fails.
\<close>

theorem length_prefixed_overflow:
  assumes "al_total al" "0 < unat n" "unat n \<le> 7" "256 ^ unat n \<le> length data" "length data < 2 ^ 62"
  shows "build al cap (cbb_then (cbb_add_length_prefixed al 0 n)
     (cbb_then (CBB_add_bytes al 1 data) (CBB_flush al 0))) = None"
proof -
  let ?L = "length data + 8"
  obtain c where c: "CBB_init al cap = Some c" "cbb_rep al ?L c [] []"
    using CBB_init_rep [of al ?L cap] assms(1,5) by auto
  have "opens al 0 (cbb_add_length_prefixed al 0 n) [] (unat n) False"
    using opens_after [OF CBB_flush_appends put_here, of "unat n" False al 0] assms(2,3)
    by (simp add: cbb_add_length_prefixed_def [abs_def] Let_def)
  from this [unfolded opens_def, rule_format, of ?L c "[]" "[]"] c(2) assms(3) obtain c1 fr where
    c1: "cbb_add_length_prefixed al 0 n c = (True, c1)" "\<not> fr_is_asn1 fr" "unat (fr_len_len fr) = unat n"
      "cbb_rep al ?L c1 [([], fr)] []" by auto
  from appendsE [OF CBB_add_bytes_appends c1(4), of 1 data] c1(3) assms(3) obtain c2 where
    c2: "CBB_add_bytes al 1 data c1 = (True, c2)" "cbb_rep al ?L c2 [([], fr)] data" by auto
  have "\<not> len_fits fr (length data)" using c1(2,3) assms(4) by (simp add: len_fits_def)
  from CBB_flush_unfit [OF c2(2) this] obtain c3 where "CBB_flush al 0 c2 = (False, c3)" by blast
  with c(1) c1(1) c2(1) show ?thesis by (simp add: build_def cbb_then_def)
qed

lemma length_prefixed_overflow_witness:
  "build zero_alloc 16 (cbb_then (cbb_add_length_prefixed zero_alloc 0 1)
     (cbb_then (CBB_add_bytes zero_alloc 1 (replicate 256 0)) (CBB_flush zero_alloc 0))) = None"
  using length_prefixed_overflow [OF zero_alloc_total, of 1 "replicate 256 0"] by simp

end
