(* ===== verification/CbbOid.thy ===== *)
theory CbbOid
  imports CbbTyped
begin

text \<open>
  Object identifiers as text: \<open>CBB_add_asn1_oid_from_text\<close> (cbb.c) and \<open>CBS_asn1_oid_to_text\<close>
  (cbs.c). An identifier is its list of components, \<open>arcs_ok\<close>; \<open>oid_text\<close> is its dotted
  decimal form and \<open>oid_content\<close> the contents of its DER element. Each direction of the code
  accepts exactly the forms of valid identifiers and maps one form to the other.
\<close>

section \<open>The code\<close>

text \<open>One component, and the dot after it.\<close>

function dotted_loop :: "mem \<Rightarrow> cbs \<Rightarrow> u64 \<Rightarrow> bool \<Rightarrow> u64 option \<times> cbs" where
  "dotted_loop m c out seen_digit =
     (case CBS_get_u8 m c of
        (None, c') \<Rightarrow> (if seen_digit then Some out else None, c')
      | (Some u, c') \<Rightarrow>
          if u = 0x2E \<and> cbs_len c' > 0 then (if seen_digit then Some out else None, c')
          else if u < 0x30 \<or> u > 0x39 \<or> (seen_digit \<and> out = 0) \<or> out > - 1 div 10
                  \<or> out * 10 > - 1 - ucast (u - 0x30)
            then (None, c')
          else dotted_loop m c' (out * 10 + ucast (u - 0x30)) True)"
  by pat_completeness auto
termination
  by (relation "measure (\<lambda>(m, c, _). unat (cbs_len c))")
    (auto simp: CBS_get_u8_eq unat_sub_of_nat [of 1, simplified] dest!: cbs_bytes_Cons(3) split: list.splits)

declare dotted_loop.simps [simp del]

definition parse_dotted_decimal :: "mem \<Rightarrow> cbs \<Rightarrow> u64 option \<times> cbs" where
  "parse_dotted_decimal m c = dotted_loop m c 0 False"

lemma CBS_get_u8_len:
  "CBS_get_u8 m c = (Some u, c') \<Longrightarrow> unat (cbs_len c') < unat (cbs_len c)"
  "CBS_get_u8 m c = (None, c') \<Longrightarrow> c' = c"
  by (auto simp: CBS_get_u8_eq unat_sub_of_nat [of 1, simplified] dest!: cbs_bytes_Cons(3) split: list.splits)

lemma dotted_loop_len:
  "dotted_loop m c out seen = (r, c') \<Longrightarrow> unat (cbs_len c') \<le> unat (cbs_len c)"
proof (induction m c out seen rule: dotted_loop.induct)
  case (1 m c out seen)
  obtain o1 c1 where g: "CBS_get_u8 m c = (o1, c1)" by fastforce
  show ?case
  proof (cases o1)
    case None
    with "1.prems" g show ?thesis by (auto simp: dotted_loop.simps [of m c] dest: CBS_get_u8_len(2))
  next
    case (Some u)
    with g CBS_get_u8_len(1) have "unat (cbs_len c1) < unat (cbs_len c)" by simp
    with "1.prems" "1.IH" [OF g [symmetric] Some] g Some show ?thesis
      by (fastforce simp: dotted_loop.simps [of m c] split: if_splits)
  qed
qed

lemma parse_dotted_decimal_len:
  "parse_dotted_decimal m c = (Some v, c') \<Longrightarrow> unat (cbs_len c') < unat (cbs_len c)"
proof -
  assume p: "parse_dotted_decimal m c = (Some v, c')"
  obtain o1 c1 where g: "CBS_get_u8 m c = (o1, c1)" by fastforce
  with p show ?thesis
    using CBS_get_u8_len(1) [of m c _ c1] dotted_loop_len [of m c1 _ True "Some v" c']
    by (cases o1) (fastforce simp: parse_dotted_decimal_def dotted_loop.simps [of m c] split: if_splits)+
qed

text \<open>The remaining components.\<close>

function oid_components :: "allocator \<Rightarrow> nat \<Rightarrow> mem \<Rightarrow> cbs \<Rightarrow> cbb \<Rightarrow> bool \<times> cbb" where
  "oid_components al k m c b =
     (if cbs_len c > 0 then
        (case parse_dotted_decimal m c of
           (None, _) \<Rightarrow> (False, b)
         | (Some a, c') \<Rightarrow> cbb_then (add_base128_integer al k a) (\<lambda>b. oid_components al k m c' b) b)
      else (True, b))"
  by pat_completeness auto
termination
  by (relation "measure (\<lambda>(al, k, m, c, b). unat (cbs_len c))") (auto dest!: parse_dotted_decimal_len [OF sym])

declare oid_components.simps [simp del]

definition CBB_add_asn1_oid_from_text :: "allocator \<Rightarrow> nat \<Rightarrow> mem \<Rightarrow> u64 \<Rightarrow> u64 \<Rightarrow> cbb \<Rightarrow> bool \<times> cbb" where
  "CBB_add_asn1_oid_from_text al k m txt n =
     cbb_then (CBB_flush al k)
       (\<lambda>x. case parse_dotted_decimal m (CBS_init txt n) of
          (None, _) \<Rightarrow> (False, x)
        | (Some a, c1) \<Rightarrow>
            (case parse_dotted_decimal m c1 of
               (None, _) \<Rightarrow> (False, x)
             | (Some b, c2) \<Rightarrow>
                 if a > 2 \<or> (a < 2 \<and> b > 39) \<or> b > - 1 - 80 then (False, x)
                 else cbb_then (add_base128_integer al k (40 * a + b)) (oid_components al k m c2) x))"

text \<open>\<open>BIO_snprintf\<close> with \<open>PRIu64\<close>: the decimal digits.\<close>

definition decimal :: "nat \<Rightarrow> bytes" where
  "decimal n = map (\<lambda>d. of_nat (d + 0x30)) (digits 10 n)"

definition add_decimal :: "allocator \<Rightarrow> nat \<Rightarrow> u64 \<Rightarrow> cbb \<Rightarrow> bool \<times> cbb" where
  "add_decimal al k v = CBB_add_bytes al k (decimal (unat v))"

lemma parse_base128_integer_len:
  "parse_base128_integer m c = (Some v, c') \<Longrightarrow> unat (cbs_len c') < unat (cbs_len c)"
proof -
  assume p: "parse_base128_integer m c = (Some v, c')"
  obtain n k where b: "base128_parse (cbs_bytes m c) = Some (n, k)" and c': "c' = cbs_adv k c"
    using p parse_base128_eq [of m c] by (auto split: option.splits)
  from base128_parse_sound(3,4) [OF b] show ?thesis by (simp add: c' unat_sub_of_nat)
qed

function oid_text_loop :: "allocator \<Rightarrow> mem \<Rightarrow> cbs \<Rightarrow> cbb \<Rightarrow> bool \<times> cbb" where
  "oid_text_loop al m c b =
     (if cbs_len c \<noteq> 0 then
        (case parse_base128_integer m c of
           (None, _) \<Rightarrow> (False, b)
         | (Some v, c') \<Rightarrow>
             cbb_then (CBB_add_u8 al 0 0x2E)
               (cbb_then (add_decimal al 0 v) (\<lambda>b. oid_text_loop al m c' b)) b)
      else (True, b))"
  by pat_completeness auto
termination
  by (relation "measure (\<lambda>(al, m, c, b). unat (cbs_len c))") (auto dest!: parse_base128_integer_len [OF sym])

declare oid_text_loop.simps [simp del]

text \<open>The result is the string with its terminator.\<close>

definition CBS_asn1_oid_to_text :: "allocator \<Rightarrow> mem \<Rightarrow> cbs \<Rightarrow> bytes option" where
  "CBS_asn1_oid_to_text al m c =
     (case CBB_init al 32 of
        None \<Rightarrow> None
      | Some b \<Rightarrow>
          (case parse_base128_integer m c of
             (None, _) \<Rightarrow> None
           | (Some v, c') \<Rightarrow>
               (case cbb_then
                   (if v \<ge> 80 then cbb_then (CBB_add_bytes al 0 [0x32, 0x2E]) (add_decimal al 0 (v - 80))
                    else cbb_then (add_decimal al 0 (v div 40))
                           (cbb_then (CBB_add_u8 al 0 0x2E) (add_decimal al 0 (v mod 40))))
                   (cbb_then (oid_text_loop al m c') (CBB_add_u8 al 0 0)) b of
                  (False, _) \<Rightarrow> None
                | (True, b') \<Rightarrow> fst (CBB_finish al True 0 b'))))"

section \<open>Identifiers\<close>

definition dotted :: "nat list \<Rightarrow> bytes" where
  "dotted ns = concat (map (\<lambda>n. 0x2E # decimal n) ns)"

fun arcs_ok :: "nat list \<Rightarrow> bool" where
  "arcs_ok (a # b # ns) =
     (a \<le> 2 \<and> (a < 2 \<longrightarrow> b \<le> 39) \<and> b + 80 < 2 ^ 64 \<and> list_all (\<lambda>n. n < 2 ^ 64) ns)"
| "arcs_ok _ = False"

fun oid_text :: "nat list \<Rightarrow> bytes" where
  "oid_text (n # ns) = decimal n @ dotted ns"
| "oid_text [] = []"

fun oid_content :: "nat list \<Rightarrow> bytes" where
  "oid_content (a # b # ns) = base128 (40 * a + b) @ concat (map base128 ns)"
| "oid_content _ = []"

section \<open>Reading a component\<close>

abbreviation digit :: "nat \<Rightarrow> u8" where
  "digit d \<equiv> of_nat (d + 0x30)"

text \<open>The digits that may follow the value \<open>v\<close>.\<close>

definition no_zeros :: "bool \<Rightarrow> nat \<Rightarrow> nat list \<Rightarrow> bool" where
  "no_zeros seen v ds \<longleftrightarrow> (seen \<and> v = 0 \<longrightarrow> ds = []) \<and> (\<not> seen \<longrightarrow> v = 0 \<and> (ds \<noteq> [] \<and> hd ds = 0 \<longrightarrow> tl ds = []))"

definition ends :: "bytes \<Rightarrow> bool" where
  "ends ys \<longleftrightarrow> ys = [] \<or> (\<exists>r. r \<noteq> [] \<and> ys = 0x2E # r)"

definition dot_len :: "bytes \<Rightarrow> nat" where
  "dot_len ys = (if ys = [] then 0 else 1)"

lemma digit_byte: "d < 10 \<Longrightarrow> unat (digit d) = d + 0x30"
  by (simp add: unat_of_nat_small del: of_nat_add)

lemma digit_cases: "\<not> u < 0x30 \<Longrightarrow> \<not> u > 0x39 \<Longrightarrow> \<exists>d < 10. u = digit d"
  for u :: u8
  by (rule exI [of _ "unat u - 0x30"]) (auto simp: word_less_nat_alt simp del: of_nat_add)

lemma digit_step:
  assumes d: "d < 10"
  shows "(out > - 1 div 10 \<or> out * 10 > - 1 - (ucast (digit d - 0x30) :: u64)) \<longleftrightarrow> \<not> unat out * 10 + d < 2 ^ 64"
    "unat out * 10 + d < 2 ^ 64 \<Longrightarrow> unat (out * 10 + ucast (digit d - 0x30)) = unat out * 10 + d"
proof -
  have "unat (digit d - 0x30) = d"
    using digit_byte [OF d] by (simp add: unat_sub word_le_nat_alt del: of_nat_add)
  then have u: "unat (ucast (digit d - 0x30) :: u64) = d"
    using d by (simp add: unsigned_ucast_eq take_bit_nat_eq_self_iff del: of_nat_add)
  have top: "unat (- 1 :: u64) = 2 ^ 64 - 1" by (simp add: unsigned_minus_1_eq_mask mask_eq_exp_minus_1)
  have room: "unat (- 1 - ucast (digit d - 0x30) :: u64) = 2 ^ 64 - 1 - d"
    using u top d by (subst unat_sub) (simp_all add: word_le_nat_alt del: of_nat_add)
  have tenth: "out > - 1 div 10 \<longleftrightarrow> \<not> unat out * 10 < 2 ^ 64"
    using top by (simp add: word_less_nat_alt unat_div) presburger
  have mul: "unat (out * 10) = unat out * 10" if "unat out * 10 < 2 ^ 64"
    using that by (simp add: unat_word_ariths)
  show "(out > - 1 div 10 \<or> out * 10 > - 1 - (ucast (digit d - 0x30) :: u64)) \<longleftrightarrow> \<not> unat out * 10 + d < 2 ^ 64"
  proof (cases "unat out * 10 < 2 ^ 64")
    case True
    then show ?thesis using tenth mul room d by (auto simp: word_less_nat_alt simp del: of_nat_add)
  qed (use tenth in auto)
  show "unat (out * 10 + ucast (digit d - 0x30)) = unat out * 10 + d" if lt: "unat out * 10 + d < 2 ^ 64"
    using mul u lt by (simp add: unat_plus_if' del: of_nat_add)
qed

lemma more_after:
  assumes "cbs_bytes m c = b # xs"
  shows "cbs_len (cbs_adv 1 c) > 0 \<longleftrightarrow> xs \<noteq> []"
proof -
  have "unat (cbs_len (cbs_adv 1 c)) = length xs"
    using cbs_bytes_Cons(2) [OF assms] length_cbs_bytes [of m "cbs_adv 1 c"] by metis
  moreover have "0 < w \<longleftrightarrow> 0 < unat w" for w :: u64 by (simp add: word_less_nat_alt)
  ultimately show ?thesis by (metis length_greater_0_conv)
qed

text \<open>A run of digits without leading zeros, up to a dot that is not the last byte, or the end.\<close>

lemma dotted_loop_complete:
  assumes "cbs_bytes m c = map digit ds @ ys" "\<forall>d \<in> set ds. d < 10" "ends ys"
    "no_zeros seen (unat out) ds" "unat out * 10 ^ length ds + digits_val 10 ds < 2 ^ 64" "seen \<or> ds \<noteq> []"
  shows "dotted_loop m c out seen =
    (Some (of_nat (unat out * 10 ^ length ds + digits_val 10 ds)), cbs_adv (length ds + dot_len ys) c)"
  using assms
proof (induction ds arbitrary: c out seen)
  case Nil
  then have seen: "seen" and by': "cbs_bytes m c = ys" by simp_all
  show ?case
  proof (cases ys)
    case Nil
    with by' seen show ?thesis by (simp add: dotted_loop.simps [of m c] CBS_get_u8_eq dot_len_def)
  next
    case (Cons y zs)
    with Nil.prems(3) have "zs \<noteq> []" "y = 0x2E" by (auto simp: ends_def)
    then have "cbs_len (cbs_adv 1 c) > 0" using more_after [OF by' [unfolded Cons]] by simp
    with by' Cons seen \<open>y = 0x2E\<close> show ?thesis
      by (simp add: dotted_loop.simps [of m c] CBS_get_u8_eq dot_len_def)
  qed
next
  case (Cons d ds)
  have bytes: "cbs_bytes m c = digit d # (map digit ds @ ys)" using Cons.prems(1) by simp
  note g = cbs_bytes_Cons(2) [OF bytes]
  have d: "d < 10" using Cons.prems(2) by simp
  have val: "unat out * 10 ^ length (d # ds) + digits_val 10 (d # ds)
      = (unat out * 10 + d) * 10 ^ length ds + digits_val 10 ds"
    by (simp add: algebra_simps)
  have le: "unat out * 10 + d \<le> (unat out * 10 + d) * 10 ^ length ds" by simp
  have lt: "unat out * 10 + d < 2 ^ 64"
    by (rule order.strict_trans1 [OF trans_le_add1 [OF le] Cons.prems(5) [unfolded val]])
  note out' = digit_step(2) [OF d lt]
  have nz: "no_zeros True (unat out * 10 + d) ds" "\<not> (seen \<and> out = 0)"
    using Cons.prems(4) by (auto simp: no_zeros_def unat_eq_zero)
  have byte: "\<not> digit d < 0x30" "\<not> digit d > 0x39" "digit d \<noteq> 0x2E"
    using digit_byte [OF d] d by (auto simp: word_less_nat_alt word_unat_eq_iff simp del: of_nat_add)
  have go: "\<not> (digit d < 0x30 \<or> digit d > 0x39 \<or> (seen \<and> out = 0) \<or> out > - 1 div 10
      \<or> out * 10 > - 1 - ucast (digit d - 0x30))"
    using byte nz(2) digit_step(1) [OF d, of out] lt by blast
  have g8: "CBS_get_u8 m c = (Some (digit d), cbs_adv 1 c)" by (simp add: CBS_get_u8_eq bytes)
  have nodot: "\<not> (digit d = 0x2E \<and> cbs_len (cbs_adv 1 c) > 0)" using byte(3) by simp
  have "dotted_loop m c out seen = dotted_loop m (cbs_adv 1 c) (out * 10 + ucast (digit d - 0x30)) True"
    unfolding dotted_loop.simps [of m c] g8 prod.case option.case if_not_P [OF nodot] if_not_P [OF go] ..
  also have "\<dots> = (Some (of_nat ((unat out * 10 + d) * 10 ^ length ds + digits_val 10 ds)),
      cbs_adv (length ds + dot_len ys) (cbs_adv 1 c))"
    using Cons.IH [OF g _ Cons.prems(3), of True "out * 10 + ucast (digit d - 0x30)"] Cons.prems(2,5) nz(1)
    unfolding out' val by simp
  finally show ?case unfolding val by simp
qed

lemma dotted_loop_sound:
  assumes "dotted_loop m c out seen = (Some n, c')" "seen \<or> out = 0"
  shows "\<exists>ds ys. cbs_bytes m c = map digit ds @ ys \<and> (\<forall>d \<in> set ds. d < 10) \<and> ends ys
    \<and> no_zeros seen (unat out) ds \<and> unat n = unat out * 10 ^ length ds + digits_val 10 ds
    \<and> (seen \<or> ds \<noteq> []) \<and> c' = cbs_adv (length ds + dot_len ys) c"
  using assms
proof (induction m c out seen rule: dotted_loop.induct)
  case (1 m c out seen)
  show ?case
  proof (cases "cbs_bytes m c")
    case Nil
    with "1.prems" show ?thesis
      by (intro exI [of _ "[]"])
        (auto simp: dotted_loop.simps [of m c] CBS_get_u8_eq ends_def no_zeros_def dot_len_def split: if_splits)
  next
    case (Cons u xs)
    have g: "CBS_get_u8 m c = (Some u, cbs_adv 1 c)" by (simp add: CBS_get_u8_eq Cons)
    note xs = cbs_bytes_Cons(2) [OF Cons]
    show ?thesis
    proof (cases "u = 0x2E \<and> cbs_len (cbs_adv 1 c) > 0")
      case True
      then have "xs \<noteq> []" using more_after [OF Cons] by simp
      with "1.prems" True g Cons show ?thesis
        by (intro exI [of _ "[]"] exI [of _ "0x2E # xs"])
          (auto simp: dotted_loop.simps [of m c] ends_def no_zeros_def dot_len_def split: if_splits)
    next
      case False
      have dig: "\<not> (u < 0x30 \<or> u > 0x39 \<or> (seen \<and> out = 0) \<or> out > - 1 div 10
          \<or> out * 10 > - 1 - ucast (u - 0x30))"
        using "1.prems"(1) unfolding dotted_loop.simps [of m c] g prod.case option.case if_not_P [OF False]
        by (auto split: if_splits)
      then obtain d where d: "d < 10" "u = digit d" using digit_cases [of u] by blast
      have lt: "unat out * 10 + d < 2 ^ 64" using dig digit_step(1) [OF d(1), of out] unfolding d(2) by blast
      note out' = digit_step(2) [OF d(1) lt]
      have rec: "dotted_loop m (cbs_adv 1 c) (out * 10 + ucast (u - 0x30)) True = (Some n, c')"
        using "1.prems"(1) unfolding dotted_loop.simps [of m c] g prod.case option.case if_not_P [OF False] if_not_P [OF dig] .
      from "1.IH" [OF g [symmetric] refl False dig rec] obtain ds ys where
        ih: "cbs_bytes m (cbs_adv 1 c) = map digit ds @ ys" "\<forall>d \<in> set ds. d < 10" "ends ys"
          "no_zeros True (unat out * 10 + d) ds"
          "unat n = (unat out * 10 + d) * 10 ^ length ds + digits_val 10 ds"
          "c' = cbs_adv (length ds + dot_len ys) (cbs_adv 1 c)"
        unfolding d(2) out' by blast
      have "no_zeros seen (unat out) (d # ds)"
        using ih(4) dig "1.prems"(2) by (auto simp: no_zeros_def unat_eq_zero)
      with ih xs Cons d show ?thesis
        by (intro exI [of _ "d # ds"] exI [of _ ys]) (simp add: algebra_simps)
    qed
  qed
qed

text \<open>A component is the decimal form of its value.\<close>

lemma parse_dotted_complete:
  assumes "cbs_bytes m c = decimal n @ ys" "ends ys" "n < 2 ^ 64"
  shows "parse_dotted_decimal m c = (Some (of_nat n), cbs_adv (length (decimal n) + dot_len ys) c)"
proof -
  have v: "digits_val 10 (digits 10 n) = n" by (simp add: digits_val_digits)
  have "no_zeros False 0 (digits 10 n)"
  proof (cases "n = 0")
    case True
    then show ?thesis by (simp add: no_zeros_def digits.simps)
  next
    case False
    then show ?thesis using digits_hd [of 10 n] by (simp add: no_zeros_def)
  qed
  with dotted_loop_complete [of m c "digits 10 n" ys False 0] assms digits_less [of 10] v show ?thesis
    by (auto simp: parse_dotted_decimal_def decimal_def)
qed

lemma parse_dotted_sound:
  assumes "parse_dotted_decimal m c = (Some n, c')"
  obtains ys where "cbs_bytes m c = decimal (unat n) @ ys" "ends ys"
    "c' = cbs_adv (length (decimal (unat n)) + dot_len ys) c"
proof -
  from dotted_loop_sound [OF assms [unfolded parse_dotted_decimal_def]] obtain ds ys where
    r: "cbs_bytes m c = map digit ds @ ys" "\<forall>d \<in> set ds. d < 10" "ends ys" "no_zeros False 0 ds"
      "unat n = digits_val 10 ds" "ds \<noteq> []" "c' = cbs_adv (length ds + dot_len ys) c" by auto
  have "length ds = 1 \<or> hd ds \<noteq> 0" using r(4,6) by (cases ds) (auto simp: no_zeros_def)
  with r have "digits 10 (unat n) = ds" unfolding r(5) by (intro digits_unique) auto
  with r that show thesis by (simp add: decimal_def)
qed

section \<open>Text to contents\<close>

lemma ends_dotted: "ends (dotted ns) \<longleftrightarrow> True"
proof (cases ns)
  case (Cons n ms)
  have "decimal n \<noteq> []" by (simp add: decimal_def)
  with Cons show ?thesis by (simp add: ends_def dotted_def)
qed (simp add: ends_def dotted_def)

lemma dotted_Cons: "dotted (n # ns) = 0x2E # decimal n @ dotted ns"
  by (simp add: dotted_def)

lemma base128_ne [simp]: "base128 n \<noteq> []" "decimal n \<noteq> []"
  by (simp_all add: base128_def decimal_def Let_def)

lemma cbs_bytes_empty: "cbs_bytes m c = [] \<longleftrightarrow> cbs_len c = 0"
  using length_cbs_bytes [of m c] by (metis length_0_conv unat_eq_zero)

text \<open>What follows a component and its dot.\<close>

definition undot :: "bytes \<Rightarrow> bytes" where
  "undot ys = drop (dot_len ys) ys"

lemma parse_dotted_rest:
  assumes "cbs_bytes m c = decimal n @ ys"
  shows "cbs_bytes m (cbs_adv (length (decimal n) + dot_len ys) c) = undot ys"
proof -
  have "length (decimal n) + dot_len ys \<le> unat (cbs_len c)"
    using assms length_cbs_bytes [of m c] by (cases ys) (simp_all add: dot_len_def)
  then show ?thesis using assms by (simp add: undot_def)
qed

lemma here_then:
  assumes f: "here al k f bs" and g: "here al k g cs"
  shows "here al k (cbb_then f g) (bs @ cs)"
  unfolding here_def
proof (intro allI impI; elim conjE)
  fix L c lv x
  assume rep: "cbb_rep al L c lv x" and k: "k = length lv"
    and len: "length (levels_bytes lv) + length x + length (bs @ cs) \<le> L"
  from f [unfolded here_def, rule_format, of L c lv x] rep k len obtain c1 where
    c1: "f c = (True, c1)" "cbb_rep al L c1 lv (x @ bs)" by auto
  from g [unfolded here_def, rule_format, of L c1 lv "x @ bs"] c1(2) k len obtain c2 where
    "g c1 = (True, c2)" "cbb_rep al L c2 lv (x @ bs @ cs)" by auto
  with c1(1) show "\<exists>c'. cbb_then f g c = (True, c') \<and> cbb_rep al L c' lv (x @ bs @ cs)"
    by (auto simp: cbb_then_def)
qed

lemma here_nop: "here al k (\<lambda>c. (True, c)) []"
  by (simp add: here_def)

lemma appends_then_here:
  assumes f: "appends al k f bs" and g: "here al k g cs"
  shows "appends al k (cbb_then f g) (bs @ cs)"
  unfolding appends_def
proof (intro allI impI; elim conjE)
  fix L c lv x
  assume rep: "cbb_rep al L c lv x" and k: "k \<le> length lv" and cl: "closes (drop k lv) x"
    and len: "length (levels_bytes (take k lv)) + length (close (drop k lv) x) + length (bs @ cs) \<le> L"
  from appendsE [OF f rep k cl] len obtain c1 where c1: "f c = (True, c1)"
    "cbb_rep al L c1 (take k lv) (close (drop k lv) x @ bs)" by auto
  from g [unfolded here_def, rule_format, of L c1 "take k lv" "close (drop k lv) x @ bs"] c1(2) k len obtain c2 where
    "g c1 = (True, c2)" "cbb_rep al L c2 (take k lv) ((close (drop k lv) x @ bs) @ cs)" by auto
  with c1(1) show "\<exists>c'. cbb_then f g c = (True, c')
      \<and> cbb_rep al L c' (take k lv) (close (drop k lv) x @ bs @ cs)"
    by (auto simp: cbb_then_def)
qed

lemma flush_then_here: "here al k g bs \<Longrightarrow> appends al k (cbb_then (CBB_flush al k) g) bs"
  using appends_then_here [OF CBB_flush_appends] by force

lemma oid_components_appends:
  "cbs_bytes m c = undot (dotted ns) \<Longrightarrow> list_all (\<lambda>n. n < 2 ^ 64) ns \<Longrightarrow>
     here al k (oid_components al k m c) (concat (map base128 ns))"
proof (induction ns arbitrary: c)
  case Nil
  then have "cbs_len c = 0" using cbs_bytes_empty [of m c] by (simp add: undot_def dotted_def)
  then have "oid_components al k m c = (\<lambda>b. (True, b))" by (intro ext) (simp add: oid_components.simps)
  then show ?case by (simp add: here_nop)
next
  case (Cons n ns)
  have bytes: "cbs_bytes m c = decimal n @ dotted ns"
    using Cons.prems(1) by (simp add: undot_def dotted_Cons dot_len_def)
  let ?c = "cbs_adv (length (decimal n) + dot_len (dotted ns)) c"
  have n: "n < 2 ^ 64" using Cons.prems(2) by simp
  have p: "parse_dotted_decimal m c = (Some (of_nat n), ?c)"
    using parse_dotted_complete [OF bytes] n by (simp add: ends_dotted)
  have "cbs_len c \<noteq> 0" using bytes cbs_bytes_empty [of m c] by simp
  then have step: "oid_components al k m c = cbb_then (add_base128_integer al k (of_nat n)) (oid_components al k m ?c)"
    by (intro ext) (simp add: oid_components.simps [of _ _ m c] p word_neq_0_conv)
  have "unat (of_nat n :: u64) = n" using n by (simp add: unat_of_nat_small)
  with add_base128_integer_appends [of al k "of_nat n"]
  have "here al k (add_base128_integer al k (of_nat n)) (base128 n)" by (simp add: appends_here)
  from here_then [OF this Cons.IH [OF parse_dotted_rest [OF bytes]]] Cons.prems(2) step show ?case by simp
qed

lemma ends_undot_inj: "ends ys \<Longrightarrow> ends zs \<Longrightarrow> undot ys = undot zs \<Longrightarrow> ys = zs"
  by (auto simp: ends_def undot_def dot_len_def)

lemma oid_components_sound:
  "oid_components al k m c b = (True, b') \<Longrightarrow>
     \<exists>ns. cbs_bytes m c = undot (dotted ns) \<and> list_all (\<lambda>n. n < 2 ^ 64) ns"
proof (induction al k m c b rule: oid_components.induct)
  case (1 al k m c b)
  show ?case
  proof (cases "cbs_len c = 0")
    case True
    then show ?thesis
      using cbs_bytes_empty [of m c] by (intro exI [of _ "[]"]) (simp add: undot_def dotted_def)
  next
    case False
    then obtain a c1 b1 where p: "parse_dotted_decimal m c = (Some a, c1)"
      and r: "oid_components al k m c1 b1 = (True, b')"
      using "1.prems" by (auto simp: oid_components.simps [of al k m c] word_neq_0_conv cbb_then_def
          split: prod.splits option.splits if_splits)
    obtain ys where ys: "cbs_bytes m c = decimal (unat a) @ ys" "ends ys"
      "c1 = cbs_adv (length (decimal (unat a)) + dot_len ys) c" by (rule parse_dotted_sound [OF p])
    have "0 < cbs_len c" using False by (simp add: word_neq_0_conv)
    from "1.IH" [OF this p [symmetric] refl r] obtain ns where
      ns: "cbs_bytes m c1 = undot (dotted ns)" "list_all (\<lambda>n. n < 2 ^ 64) ns" by blast
    have "undot ys = undot (dotted ns)" using parse_dotted_rest [OF ys(1)] ys(3) ns(1) by simp
    then have "ys = dotted ns" using ends_undot_inj [OF ys(2)] by (simp add: ends_dotted)
    then show ?thesis
      using ys(1) ns(2) unsigned_less [of a, where 'a = nat]
      by (intro exI [of _ "unat a # ns"]) (simp add: undot_def dotted_Cons dot_len_def)
  qed
qed

lemma u64_nat: "n < 2 ^ 64 \<Longrightarrow> unat (of_nat n :: u64) = n"
  by (simp add: unat_of_nat_small)

lemma minus_81: "b > - 1 - 80 \<longleftrightarrow> \<not> unat b + 80 < 2 ^ 64" for b :: u64
proof -
  have "unat (- 1 - 80 :: u64) = 2 ^ 64 - 81" by simp
  then show ?thesis by (simp add: word_less_nat_alt) presburger
qed

lemma oid_from_text_appends:
  assumes ok: "arcs_ok arcs" and bytes: "mem_read m txt (unat n) = oid_text arcs"
  shows "appends al k (CBB_add_asn1_oid_from_text al k m txt n) (oid_content arcs)"
proof -
  obtain a b ns where arcs: "arcs = a # b # ns" using ok by (cases arcs rule: arcs_ok.cases) auto
  let ?c = "CBS_init txt n"
  have lt: "a < 2 ^ 64" "b < 2 ^ 64" "list_all (\<lambda>n. n < 2 ^ 64) ns" "a \<le> 2" "a < 2 \<longrightarrow> b \<le> 39" "b + 80 < 2 ^ 64"
    using ok by (auto simp: arcs)
  have b0: "cbs_bytes m ?c = decimal a @ dotted (b # ns)" using bytes by (simp add: arcs)
  let ?c1 = "cbs_adv (length (decimal a) + dot_len (dotted (b # ns))) ?c"
  have p1: "parse_dotted_decimal m ?c = (Some (of_nat a), ?c1)"
    using parse_dotted_complete [OF b0] lt by (simp add: ends_dotted)
  have b1: "cbs_bytes m ?c1 = decimal b @ dotted ns"
    using parse_dotted_rest [OF b0] by (simp add: undot_def dotted_Cons dot_len_def)
  let ?c2 = "cbs_adv (length (decimal b) + dot_len (dotted ns)) ?c1"
  have p2: "parse_dotted_decimal m ?c1 = (Some (of_nat b), ?c2)"
    using parse_dotted_complete [OF b1] lt by (simp add: ends_dotted)
  have ua: "unat (of_nat a :: u64) = a" "unat (of_nat b :: u64) = b" using lt by (simp_all add: unat_of_nat_small)
  have range: "\<not> ((of_nat a :: u64) > 2 \<or> ((of_nat a :: u64) < 2 \<and> (of_nat b :: u64) > 39) \<or> (of_nat b :: u64) > - 1 - 80)"
    using lt ua unfolding minus_81 by (auto simp: word_less_nat_alt)
  have sum: "unat (40 * of_nat a + of_nat b :: u64) = 40 * a + b"
  proof -
    have "(40 * of_nat a + of_nat b :: u64) = of_nat (40 * a + b)" by simp
    also have "unat \<dots> = 40 * a + b" using lt by (intro unat_of_nat_small) auto
    finally show ?thesis .
  qed
  have "here al k (add_base128_integer al k (40 * of_nat a + of_nat b)) (base128 (40 * a + b))"
    using appends_here [OF add_base128_integer_appends [of al k "40 * of_nat a + of_nat b"]] unfolding sum .
  from flush_then_here [OF here_then [OF this oid_components_appends [OF parse_dotted_rest [OF b1] lt(3)]]]
  show ?thesis
    unfolding CBB_add_asn1_oid_from_text_def p1 prod.case option.case p2 if_not_P [OF range]
    by (simp add: arcs)
qed

lemma oid_from_text_sound:
  assumes "CBB_add_asn1_oid_from_text al k m txt n x = (True, x')"
  obtains arcs where "arcs_ok arcs" "mem_read m txt (unat n) = oid_text arcs"
proof -
  let ?c = "CBS_init txt n"
  obtain a b c1 c2 y y' where p1: "parse_dotted_decimal m ?c = (Some a, c1)"
    and p2: "parse_dotted_decimal m c1 = (Some b, c2)"
    and range: "\<not> (a > 2 \<or> (a < 2 \<and> b > 39) \<or> b > - 1 - 80)"
    and r: "oid_components al k m c2 y = (True, y')"
    using assms by (auto simp: CBB_add_asn1_oid_from_text_def cbb_then_def
        split: prod.splits option.splits if_splits)
  obtain ys where ys: "cbs_bytes m ?c = decimal (unat a) @ ys" "ends ys"
    "c1 = cbs_adv (length (decimal (unat a)) + dot_len ys) ?c" by (rule parse_dotted_sound [OF p1])
  obtain zs where zs: "cbs_bytes m c1 = decimal (unat b) @ zs" "ends zs"
    "c2 = cbs_adv (length (decimal (unat b)) + dot_len zs) c1" by (rule parse_dotted_sound [OF p2])
  obtain ns where ns: "cbs_bytes m c2 = undot (dotted ns)" "list_all (\<lambda>n. n < 2 ^ 64) ns"
    using oid_components_sound [OF r] by blast
  have "undot zs = undot (dotted ns)" using parse_dotted_rest [OF zs(1)] zs(3) ns(1) by simp
  then have z: "zs = dotted ns" using ends_undot_inj [OF zs(2)] by (simp add: ends_dotted)
  have "undot ys = decimal (unat b) @ dotted ns" using parse_dotted_rest [OF ys(1)] ys(3) zs(1) z by simp
  also have "\<dots> = undot (dotted (unat b # ns))" by (simp add: undot_def dotted_Cons dot_len_def)
  finally have y: "ys = dotted (unat b # ns)" using ends_undot_inj [OF ys(2)] by (simp add: ends_dotted)
  show thesis
  proof
    show "arcs_ok (unat a # unat b # ns)"
      using range ns(2) unfolding minus_81 by (auto simp: word_less_nat_alt)
    show "mem_read m txt (unat n) = oid_text (unat a # unat b # ns)" using ys(1) y by simp
  qed
qed

section \<open>Contents to text\<close>

lemma oid_text_loop_appends:
  "cbs_bytes m c = concat (map base128 ns) \<Longrightarrow> list_all (\<lambda>n. n < 2 ^ 64) ns \<Longrightarrow>
     here al 0 (oid_text_loop al m c) (dotted ns)"
proof (induction ns arbitrary: c)
  case Nil
  then have "cbs_len c = 0" using cbs_bytes_empty [of m c] by simp
  then have "oid_text_loop al m c = (\<lambda>b. (True, b))" by (intro ext) (simp add: oid_text_loop.simps)
  then show ?case by (simp add: here_nop dotted_def)
next
  case (Cons n ns)
  let ?k = "length (base128 n)"
  have n: "n < 2 ^ 64" using Cons.prems(2) by simp
  have bytes: "cbs_bytes m c = base128 n @ concat (map base128 ns)" using Cons.prems(1) by simp
  have p: "parse_base128_integer m c = (Some (of_nat n), cbs_adv ?k c)"
    using parse_base128_eq [of m c] base128_parse_complete [OF n] unfolding bytes by simp
  have "?k \<le> unat (cbs_len c)" using bytes length_cbs_bytes [of m c] by simp
  then have rest: "cbs_bytes m (cbs_adv ?k c) = concat (map base128 ns)" using bytes by simp
  have "cbs_len c \<noteq> 0" using bytes cbs_bytes_empty [of m c] by simp
  then have step: "oid_text_loop al m c = cbb_then (CBB_add_u8 al 0 0x2E)
      (cbb_then (add_decimal al 0 (of_nat n)) (oid_text_loop al m (cbs_adv ?k c)))"
    by (intro ext) (simp add: oid_text_loop.simps [of al m c] p)
  have "here al 0 (add_decimal al 0 (of_nat n)) (decimal n)"
    unfolding add_decimal_def u64_nat [OF n] by (rule appends_here [OF CBB_add_bytes_appends])
  from here_then [OF appends_here [OF CBB_add_u8_appends] here_then [OF this Cons.IH [OF rest]], of "0x2E"]
    Cons.prems(2) step show ?case by (simp add: dotted_Cons)
qed

lemma parse_base128_sound:
  assumes "parse_base128_integer m c = (Some v, c')"
  shows "cbs_bytes m c = base128 (unat v) @ cbs_bytes m c'"
proof -
  obtain n k where b: "base128_parse (cbs_bytes m c) = Some (n, k)" and v: "v = of_nat n" and c': "c' = cbs_adv k c"
    using assms parse_base128_eq [of m c] by (auto split: option.splits)
  note s = base128_parse_sound [OF b]
  have "cbs_bytes m c' = drop k (cbs_bytes m c)" unfolding c' using s(3) by (intro cbs_bytes_adv) simp
  then show ?thesis using s(1) u64_nat [OF s(2)] v append_take_drop_id [of k "cbs_bytes m c"] by simp
qed

lemma oid_text_loop_sound:
  "oid_text_loop al m c b = (True, b') \<Longrightarrow>
     \<exists>ns. cbs_bytes m c = concat (map base128 ns) \<and> list_all (\<lambda>n. n < 2 ^ 64) ns"
proof (induction al m c b rule: oid_text_loop.induct)
  case (1 al m c b)
  show ?case
  proof (cases "cbs_len c = 0")
    case True
    then show ?thesis using cbs_bytes_empty [of m c] by (intro exI [of _ "[]"]) simp
  next
    case False
    then obtain v c1 b1 where p: "parse_base128_integer m c = (Some v, c1)"
      and r: "oid_text_loop al m c1 b1 = (True, b')"
      using "1.prems" by (auto simp: oid_text_loop.simps [of al m c] cbb_then_def
          split: prod.splits option.splits if_splits)
    from "1.IH" [OF False p [symmetric] refl r] obtain ns where
      "cbs_bytes m c1 = concat (map base128 ns)" "list_all (\<lambda>n. n < 2 ^ 64) ns" by blast
    with parse_base128_sound [OF p] unsigned_less [of v, where 'a = nat] show ?thesis
      by (intro exI [of _ "unat v # ns"]) simp
  qed
qed

text \<open>The text of the first component, which holds two.\<close>

definition oid_first :: "allocator \<Rightarrow> u64 \<Rightarrow> cbb \<Rightarrow> bool \<times> cbb" where
  "oid_first al v =
     (if v \<ge> 80 then cbb_then (CBB_add_bytes al 0 [0x32, 0x2E]) (add_decimal al 0 (v - 80))
      else cbb_then (add_decimal al 0 (v div 40))
             (cbb_then (CBB_add_u8 al 0 0x2E) (add_decimal al 0 (v mod 40))))"

lemma oid_to_text_build:
  "CBS_asn1_oid_to_text al m c =
     (case parse_base128_integer m c of
        (None, _) \<Rightarrow> None
      | (Some v, c') \<Rightarrow> build al 32 (cbb_then (oid_first al v) (cbb_then (oid_text_loop al m c') (CBB_add_u8 al 0 0))))"
  by (auto simp: CBS_asn1_oid_to_text_def build_def oid_first_def split: option.splits prod.splits)

text \<open>The two components that a first value stands for.\<close>

definition first_arcs :: "nat \<Rightarrow> nat \<times> nat" where
  "first_arcs v = (if v \<ge> 80 then (2, v - 80) else (v div 40, v mod 40))"

lemma first_arcs_ok:
  "v < 2 ^ 64 \<Longrightarrow> first_arcs v = (a, b) \<Longrightarrow> a \<le> 2 \<and> (a < 2 \<longrightarrow> b \<le> 39) \<and> b + 80 < 2 ^ 64 \<and> 40 * a + b = v"
  by (auto simp: first_arcs_def split: if_splits)

lemma first_arcs_join: "a \<le> 2 \<Longrightarrow> a < 2 \<longrightarrow> b \<le> 39 \<Longrightarrow> first_arcs (40 * a + b) = (a, b)"
proof -
  assume "a \<le> 2" "a < 2 \<longrightarrow> b \<le> 39"
  moreover from this(1) have "a = 0 \<or> a = 1 \<or> a = 2" by arith
  ultimately show ?thesis by (auto simp: first_arcs_def)
qed

lemma oid_first_appends:
  assumes "first_arcs (unat v) = (a, b)"
  shows "appends al 0 (oid_first al v) (decimal a @ 0x2E # decimal b)"
proof (cases "v \<ge> 80")
  case True
  have "unat (v - 80) = unat v - 80" using True by (simp add: unat_sub)
  then have b: "b = unat (v - 80)" "a = 2" using assms True by (simp_all add: first_arcs_def word_le_nat_alt)
  have "decimal 2 = [0x32]" by (simp add: decimal_def digits.simps)
  with appends_then [OF CBB_add_bytes_appends [of al 0 "[0x32, 0x2E]"] CBB_add_bytes_appends [of al 0 "decimal b"]] True b
  show ?thesis by (simp add: oid_first_def add_decimal_def)
next
  case False
  have d: "unat (v div 40) = unat v div 40" "unat (v mod 40) = unat v mod 40"
    by (simp_all add: unat_div unat_mod)
  then have "a = unat (v div 40)" "b = unat (v mod 40)"
    using assms False by (simp_all add: first_arcs_def word_le_nat_alt not_le)
  with appends_then [OF CBB_add_bytes_appends [of al 0 "decimal a"] appends_then [OF CBB_add_u8_appends [of al 0 "0x2E"]
      CBB_add_bytes_appends [of al 0 "decimal b"]]] False
  show ?thesis by (simp add: oid_first_def add_decimal_def)
qed

lemma oid_to_text_complete:
  assumes al: "al_total al" and ok: "arcs_ok arcs" and bytes: "cbs_bytes m c = oid_content arcs"
    and len: "length (oid_text arcs) < 2 ^ 62"
  shows "CBS_asn1_oid_to_text al m c = Some (oid_text arcs @ [0])"
proof -
  obtain a b ns where arcs: "arcs = a # b # ns" using ok by (cases arcs rule: arcs_ok.cases) auto
  let ?v = "40 * a + b" and ?k = "length (base128 (40 * a + b))"
  have lt: "?v < 2 ^ 64" "list_all (\<lambda>n. n < 2 ^ 64) ns" "a \<le> 2" "a < 2 \<longrightarrow> b \<le> 39"
    using ok by (auto simp: arcs)
  have bytes: "cbs_bytes m c = base128 ?v @ concat (map base128 ns)" using bytes by (simp add: arcs)
  have p: "parse_base128_integer m c = (Some (of_nat ?v), cbs_adv ?k c)"
    using parse_base128_eq [of m c] base128_parse_complete [OF lt(1)] unfolding bytes by simp
  have "?k \<le> unat (cbs_len c)" using bytes length_cbs_bytes [of m c] by simp
  then have rest: "cbs_bytes m (cbs_adv ?k c) = concat (map base128 ns)" using bytes by simp
  have "first_arcs (unat (of_nat ?v :: u64)) = (a, b)"
    unfolding u64_nat [OF lt(1)] by (rule first_arcs_join [OF lt(3,4)])
  from appends_then_here [OF oid_first_appends [OF this]
      here_then [OF oid_text_loop_appends [OF rest lt(2)] appends_here [OF CBB_add_u8_appends [of al 0 0]]]]
  have "appends al 0 (cbb_then (oid_first al (of_nat ?v)) (cbb_then (oid_text_loop al m (cbs_adv ?k c)) (CBB_add_u8 al 0 0)))
    (oid_text arcs @ [0])" by (simp add: arcs dotted_Cons)
  from build_appends [OF this al, of 32] len p show ?thesis unfolding oid_to_text_build by simp
qed

lemma oid_to_text_sound:
  assumes "CBS_asn1_oid_to_text al m c = Some t"
  obtains arcs where "arcs_ok arcs" "cbs_bytes m c = oid_content arcs"
proof -
  obtain v c' where p: "parse_base128_integer m c = (Some v, c')"
    using assms by (auto simp: oid_to_text_build split: prod.splits option.splits)
  then obtain x x' where "oid_text_loop al m c' x = (True, x')"
    using assms by (auto simp: oid_to_text_build build_def cbb_then_def split: prod.splits option.splits if_splits)
  from oid_text_loop_sound [OF this] obtain ns where
    ns: "cbs_bytes m c' = concat (map base128 ns)" "list_all (\<lambda>n. n < 2 ^ 64) ns" by blast
  obtain a b where ab: "first_arcs (unat v) = (a, b)" by fastforce
  note f = first_arcs_ok [OF _ ab]
  have "unat v < 2 ^ 64" using unsigned_less [of v, where 'a = nat] by simp
  note f = first_arcs_ok [OF this ab]
  show thesis
  proof
    show "arcs_ok (a # b # ns)" using f ns(2) by simp
    show "cbs_bytes m c = oid_content (a # b # ns)" using parse_base128_sound [OF p] ns(1) f by simp
  qed
qed

section \<open>Both directions\<close>

lemma build_Some: "build al cap f = Some bs \<Longrightarrow> \<exists>c c'. f c = (True, c')"
  by (auto simp: build_def split: option.splits prod.splits bool.splits)

lemma base128_short: "n < 2 ^ 64 \<Longrightarrow> length (base128 n) \<le> 10 * length (decimal n)"
proof -
  have "decimal n \<noteq> []" by simp
  then have "1 \<le> length (decimal n)" by (cases "decimal n") auto
  moreover assume "n < 2 ^ 64"
  then have "length (base128 n) \<le> 10" by (rule base128_length)
  ultimately show ?thesis by linarith
qed

lemma oid_content_length:
  assumes "arcs_ok arcs" shows "length (oid_content arcs) \<le> 10 * length (oid_text arcs)"
proof -
  obtain a b ns where arcs: "arcs = a # b # ns" using assms by (cases arcs rule: arcs_ok.cases) auto
  have "list_all (\<lambda>n. n < 2 ^ 64) ms \<Longrightarrow> length (concat (map base128 ms)) \<le> 10 * length (dotted ms)" for ms
  proof (induction ms)
    case (Cons n ms)
    then show ?case using base128_short [of n] by (simp add: dotted_Cons)
  qed (simp add: dotted_def)
  from this [of ns] assms have rest: "length (concat (map base128 ns)) \<le> 10 * length (dotted ns)" by (simp add: arcs)
  have "40 * a + b < 2 ^ 64" using assms by (auto simp: arcs)
  then have "length (base128 (40 * a + b)) \<le> 10" by (rule base128_length)
  moreover have "10 \<le> 10 * length (decimal a @ 0x2E # decimal b)" by simp
  ultimately show ?thesis using rest by (simp add: arcs dotted_Cons)
qed

lemma oid_from_text_exact:
  assumes "al_total al" "unat n < 2 ^ 59"
  shows "build al cap (CBB_add_asn1_oid_from_text al 0 m txt n) = Some bs \<longleftrightarrow>
    (\<exists>arcs. arcs_ok arcs \<and> mem_read m txt (unat n) = oid_text arcs \<and> bs = oid_content arcs)"
proof -
  have go: "build al cap (CBB_add_asn1_oid_from_text al 0 m txt n) = Some (oid_content arcs)"
    if "arcs_ok arcs" "mem_read m txt (unat n) = oid_text arcs" for arcs
  proof (rule build_appends [OF oid_from_text_appends [OF that] assms(1)])
    have "length (oid_text arcs) = unat n" using that(2) by (metis length_mem_read)
    then show "length (oid_content arcs) < 2 ^ 63" using oid_content_length [OF that(1)] assms(2) by simp
  qed
  show ?thesis
  proof
    assume b: "build al cap (CBB_add_asn1_oid_from_text al 0 m txt n) = Some bs"
    then obtain x x' where "CBB_add_asn1_oid_from_text al 0 m txt n x = (True, x')" using build_Some by blast
    then obtain arcs where "arcs_ok arcs" "mem_read m txt (unat n) = oid_text arcs" by (rule oid_from_text_sound)
    with go b show "\<exists>arcs. arcs_ok arcs \<and> mem_read m txt (unat n) = oid_text arcs \<and> bs = oid_content arcs" by auto
  qed (use go in blast)
qed

lemma decimal_length: "n < 2 ^ 64 \<Longrightarrow> length (decimal n) \<le> 20"
  using digits_length [of 10 n 20] by (simp add: decimal_def)

lemma oid_text_length:
  assumes "arcs_ok arcs" shows "length (oid_text arcs) \<le> 42 * length (oid_content arcs)"
proof -
  obtain a b ns where arcs: "arcs = a # b # ns" using assms by (cases arcs rule: arcs_ok.cases) auto
  have one: "1 \<le> length (base128 n)" for n using base128_ne(1) [of n] by (cases "base128 n") auto
  have "list_all (\<lambda>n. n < 2 ^ 64) ms \<Longrightarrow> length (dotted ms) \<le> 42 * length (concat (map base128 ms))" for ms
  proof (induction ms)
    case (Cons n ms)
    then show ?case using decimal_length [of n] one [of n] by (simp add: dotted_Cons)
  qed (simp add: dotted_def)
  from this [of ns] assms have rest: "length (dotted ns) \<le> 42 * length (concat (map base128 ns))" by (simp add: arcs)
  have "a < 2 ^ 64" "b < 2 ^ 64" using assms by (auto simp: arcs)
  then have "length (decimal a) \<le> 20" "length (decimal b) \<le> 20" by (simp_all add: decimal_length)
  with rest one [of "40 * a + b"] show ?thesis by (simp add: arcs dotted_Cons)
qed

lemma oid_to_text_exact:
  assumes al: "al_total al" and len: "unat (cbs_len c) < 2 ^ 56"
  shows "CBS_asn1_oid_to_text al m c = Some t \<longleftrightarrow>
    (\<exists>arcs. arcs_ok arcs \<and> cbs_bytes m c = oid_content arcs \<and> t = oid_text arcs @ [0])"
proof -
  have go: "CBS_asn1_oid_to_text al m c = Some (oid_text arcs @ [0])"
    if "arcs_ok arcs" "cbs_bytes m c = oid_content arcs" for arcs
  proof (rule oid_to_text_complete [OF al that])
    have "length (oid_content arcs) = unat (cbs_len c)" using that(2) by (metis length_cbs_bytes)
    then show "length (oid_text arcs) < 2 ^ 62" using oid_text_length [OF that(1)] len by simp
  qed
  show ?thesis
  proof
    assume t: "CBS_asn1_oid_to_text al m c = Some t"
    obtain arcs where "arcs_ok arcs" "cbs_bytes m c = oid_content arcs" by (rule oid_to_text_sound [OF t])
    with go t show "\<exists>arcs. arcs_ok arcs \<and> cbs_bytes m c = oid_content arcs \<and> t = oid_text arcs @ [0]" by auto
  qed (use go in blast)
qed

text \<open>
  C19. The text of an object identifier. \<open>CBB_add_asn1_oid_from_text\<close> succeeds exactly on the
  dotted decimal forms, without leading zeros or a final dot, of identifiers whose first component
  is at most 2, whose second is at most 39 when the first is 0 or 1, and at most \<open>2 ^ 64 - 81\<close> when
  it is 2 (80 is added to it), and whose other components are below \<open>2 ^ 64\<close>; it then writes 40
  times the first plus the second, and the rest, in base 128. The allocator does not fail and the
  text is shorter than \<open>2 ^ 59\<close> bytes.
\<close>

theorem CBB_add_asn1_oid_from_text_exact:
  assumes "al_total al" "unat n < 2 ^ 59"
  shows "build al cap (CBB_add_asn1_oid_from_text al 0 m txt n) = Some bs \<longleftrightarrow>
    (\<exists>arcs. arcs_ok arcs \<and> mem_read m txt (unat n) = oid_text arcs \<and> bs = oid_content arcs)"
  using assms by (rule oid_from_text_exact)

text \<open>
  C18. Round trip of object identifiers. If \<open>CBS_asn1_oid_to_text\<close> turns the contents of an OBJECT
  IDENTIFIER into a text, then \<open>CBB_add_asn1_oid_from_text\<close> turns that text, without its
  terminator, into exactly the same contents.
\<close>

theorem oid_text_roundtrip:
  assumes "al_total al" "unat (cbs_len c) < 2 ^ 50"
    and "CBS_asn1_oid_to_text al m c = Some t" "mem_read m' txt (length t) = t" "length t = Suc (unat n)"
  shows "build al cap (CBB_add_asn1_oid_from_text al 0 m' txt n) = Some (cbs_bytes m c)"
proof -
  have "unat (cbs_len c) < 2 ^ 56" using assms(2) by simp
  with oid_to_text_exact [OF assms(1)] assms(3) obtain arcs where
    a: "arcs_ok arcs" "cbs_bytes m c = oid_content arcs" "t = oid_text arcs @ [0]" by blast
  have l: "length (oid_content arcs) = unat (cbs_len c)" using a(2) by (metis length_cbs_bytes)
  have "mem_read m' txt (unat n) = take (unat n) (mem_read m' txt (length t))" using assms(5) by simp
  also have "\<dots> = oid_text arcs" using a(3) assms(4,5) by simp
  finally have dotted_text: "mem_read m' txt (unat n) = oid_text arcs" .
  have "unat n < 2 ^ 59" using oid_text_length [OF a(1)] l assms(2,5) a(3) by simp
  with oid_from_text_exact [OF assms(1), of n cap m' "txt" "oid_content arcs"] a(1) dotted_text show ?thesis
    unfolding a(2) by blast
qed

text \<open>\<open>1.2.840\<close>, for example.\<close>

definition oid_example :: "nat list" where
  "oid_example = [1, 2, 840]"

lemma oid_example_forms:
  "arcs_ok oid_example" "oid_text oid_example = [0x31, 0x2E, 0x32, 0x2E, 0x38, 0x34, 0x30]"
  "oid_content oid_example = [0x2A, 0x86, 0x48]"
  by (simp_all add: oid_example_def dotted_def decimal_def base128_def digits.simps Let_def)

definition holding :: "bytes \<Rightarrow> mem" where
  "holding bs = mem_write (\<lambda>_. 0) 0x100 bs"

lemma holding_read: "length bs = n \<Longrightarrow> n \<le> 2 ^ 64 \<Longrightarrow> mem_read (holding bs) 0x100 n = bs"
  unfolding holding_def using mem_read_write_same by blast

theorem CBB_add_asn1_oid_from_text_exact_witness:
  "build zero_alloc 16 (CBB_add_asn1_oid_from_text zero_alloc 0 (holding (oid_text oid_example)) 0x100 7)
     = Some [0x2A, 0x86, 0x48]"
proof -
  have "mem_read (holding (oid_text oid_example)) 0x100 (unat (7 :: u64)) = oid_text oid_example"
    using holding_read [of "oid_text oid_example" 7] by (simp add: oid_example_forms)
  with CBB_add_asn1_oid_from_text_exact [OF zero_alloc_total, of 7 16 "holding (oid_text oid_example)" "0x100"
      "oid_content oid_example"] oid_example_forms show ?thesis by auto
qed

theorem oid_text_roundtrip_witness:
  "build zero_alloc 16 (CBB_add_asn1_oid_from_text zero_alloc 0 (holding (oid_text oid_example @ [0])) 0x100 7)
     = Some (cbs_bytes (holding (oid_content oid_example)) (CBS_init 0x100 3))"
proof (rule oid_text_roundtrip [OF zero_alloc_total])
  have "cbs_bytes (holding (oid_content oid_example)) (CBS_init 0x100 3) = oid_content oid_example"
    using holding_read [of "oid_content oid_example" 3] by (simp add: oid_example_forms)
  from oid_to_text_complete [OF zero_alloc_total oid_example_forms(1) this]
  show "CBS_asn1_oid_to_text zero_alloc (holding (oid_content oid_example)) (CBS_init 0x100 3)
      = Some (oid_text oid_example @ [0])"
    by (simp add: oid_example_forms)
  show "mem_read (holding (oid_text oid_example @ [0])) 0x100 (length (oid_text oid_example @ [0])) = oid_text oid_example @ [0]"
    by (rule holding_read) (simp_all add: oid_example_forms)
qed (simp_all add: oid_example_forms CBS_init_def)

end
