(* ===== verification/CbbSetOf.thy ===== *)
theory CbbSetOf
  imports CbbOid "HOL-Library.List_Lexorder" "HOL-Library.Multiset"
begin

text \<open>
  SET OF and the hand-over of a finished builder: \<open>CBB_flush_asn1_set_of\<close> (cbb.c) sorts the
  elements that have been written to a child, and \<open>CBB_finish_i2d\<close> (asn1_compat.c) serves the
  calling convention of the older encoders.
\<close>

section \<open>The code\<close>

text \<open>\<open>OPENSSL_memcmp\<close> on strings of one length; C only fixes the sign of \<open>memcmp\<close>.\<close>

fun OPENSSL_memcmp :: "bytes \<Rightarrow> bytes \<Rightarrow> int" where
  "OPENSSL_memcmp (x # xs) (y # ys) = (if x = y then OPENSSL_memcmp xs ys else if x < y then - 1 else 1)"
| "OPENSSL_memcmp _ _ = 0"

definition compare_set_of_element :: "bytes \<Rightarrow> bytes \<Rightarrow> int" where
  "compare_set_of_element a b =
     (let min_len = min (length a) (length b);
          ret = OPENSSL_memcmp (take min_len a) (take min_len b)
      in if ret \<noteq> 0 then ret
         else if length a = length b then 0
         else if length a < length b then - 1 else 1)"

text \<open>
  \<open>qsort\<close> of the C library is a parameter: what it makes of a list when it is given a comparison. C says that the
  result is in order, and leaves the order of elements that compare as equal open.
\<close>

type_synonym 'a sorter = "('a \<Rightarrow> 'a \<Rightarrow> int) \<Rightarrow> 'a list \<Rightarrow> 'a list"

text \<open>The elements of the contents, by the first of the two loops over them.\<close>

lemma CBS_get_any_asn1_element_len:
  "CBS_get_any_asn1_element m c = (Some e, c') \<Longrightarrow> unat (cbs_len c') < unat (cbs_len c)"
proof -
  assume "CBS_get_any_asn1_element m c = (Some e, c')"
  then obtain t hl n b where p: "element_parse False (cbs_bytes m c) = Some (t, hl, n, b)" and c': "c' = cbs_adv n c"
    by (auto simp: CBS_get_any_asn1_element_eq split: option.splits)
  have "0 < n" "n \<le> unat (cbs_len c)" using element_parse_bounds [OF p] by simp_all
  then show ?thesis by (simp add: c' unat_sub_of_nat)
qed

function set_of_children :: "mem \<Rightarrow> cbs \<Rightarrow> cbs list option" where
  "set_of_children m c =
     (if cbs_len c \<noteq> 0 then
        (case CBS_get_any_asn1_element m c of
           (None, _) \<Rightarrow> None
         | (Some (child, _, _), c') \<Rightarrow> map_option ((#) child) (set_of_children m c'))
      else Some [])"
  by pat_completeness auto
termination
  by (relation "measure (\<lambda>(m, c). unat (cbs_len c))") (auto dest!: CBS_get_any_asn1_element_len [OF sym])

declare set_of_children.simps [simp del]

fun cbb_add_all :: "allocator \<Rightarrow> nat \<Rightarrow> bytes list \<Rightarrow> cbb \<Rightarrow> bool \<times> cbb" where
  "cbb_add_all al k [] b = (True, b)"
| "cbb_add_all al k (x # xs) b = cbb_then (CBB_add_bytes al k x) (cbb_add_all al k xs) b"

text \<open>
  The contents are parsed in the buffer and again in the copy \<open>buf\<close>, with the same result; the
  memory that holds them is \<open>set_of_mem\<close>. A \<open>CBS\<close> takes 16 bytes.
\<close>

definition set_of_mem :: "bytes \<Rightarrow> mem" where
  "set_of_mem bs = mem_write (\<lambda>_. 0) 0 bs"

definition CBB_flush_asn1_set_of :: "bytes sorter \<Rightarrow> allocator \<Rightarrow> nat \<Rightarrow> cbb \<Rightarrow> bool \<times> cbb" where
  "CBB_flush_asn1_set_of qsort al k =
     cbb_then (CBB_flush al k)
       (\<lambda>b. let m = set_of_mem (CBB_data k b) in
          case set_of_children m (CBS_init 0 (CBB_len k b)) of
            None \<Rightarrow> (False, b)
          | Some children \<Rightarrow>
              if length children < 2 then (True, b)
              else if of_nat (length children) > (- 1 :: u64) div 16 then (False, b)
              else (case (al (CBB_len k b), al (of_nat (length children) * 16)) of
                      (Some _, Some _) \<Rightarrow>
                        cbb_add_all al k (qsort compare_set_of_element (map (cbs_bytes m) children))
                          (b\<lparr>cb_base := map_option (\<lambda>x. x\<lparr>bb_len := cbb_start k b\<rparr>) (cb_base b)\<rparr>)
                    | _ \<Rightarrow> (False, b)))"

text \<open>
  \<open>outp\<close> of \<open>CBB_finish_i2d\<close>: the null pointer, a pointer to the null pointer, or a pointer to a
  pointer to memory; on return also a pointer to a fresh block with the given contents.
\<close>

datatype i2d_out = I2d_none | I2d_null | I2d_at u64 | I2d_block bytes

definition CBB_finish_i2d :: "allocator \<Rightarrow> cbb \<Rightarrow> i2d_out \<Rightarrow> mem \<Rightarrow> int \<times> cbb \<times> i2d_out \<times> mem" where
  "CBB_finish_i2d al b outp m =
     (case CBB_finish al True 0 b of
        (None, b') \<Rightarrow> (- 1, CBB_cleanup 0 b', outp, m)
      | (Some der, b') \<Rightarrow>
          if length der > 0x7FFFFFFF then (- 1, b', outp, m)
          else (int (length der), b',
            (case outp of I2d_null \<Rightarrow> I2d_block der | I2d_at p \<Rightarrow> I2d_at (p + of_nat (length der)) | _ \<Rightarrow> outp),
            (case outp of I2d_at p \<Rightarrow> mem_write m p der | _ \<Rightarrow> m)))"

section \<open>The order\<close>

lemma compare_sign: "(compare_set_of_element a b \<le> 0 \<longleftrightarrow> a \<le> b) \<and> (compare_set_of_element a b = 0 \<longleftrightarrow> a = b)"
proof (induction a arbitrary: b)
  case Nil
  show ?case by (cases b) (simp_all add: compare_set_of_element_def)
next
  case (Cons x a)
  show ?case
  proof (cases b)
    case Nil
    then show ?thesis by (simp add: compare_set_of_element_def)
  next
    case (Cons y b')
    have "compare_set_of_element (x # a) (y # b') =
        (if x = y then compare_set_of_element a b' else if x < y then - 1 else 1)"
      by (auto simp: compare_set_of_element_def Let_def)
    with Cons.IH [of b'] Cons show ?thesis by auto
  qed
qed

text \<open>Insertion by a comparison.\<close>

fun insert_by :: "('a \<Rightarrow> 'a \<Rightarrow> int) \<Rightarrow> 'a \<Rightarrow> 'a list \<Rightarrow> 'a list" where
  "insert_by cmp x [] = [x]"
| "insert_by cmp x (y # ys) = (if cmp x y \<le> 0 then x # y # ys else y # insert_by cmp x ys)"

definition in_order :: "('a \<Rightarrow> 'a \<Rightarrow> int) \<Rightarrow> 'a list \<Rightarrow> bool" where
  "in_order cmp xs \<longleftrightarrow> sorted_wrt (\<lambda>a b. cmp a b \<le> 0) xs"

text \<open>What \<open>qsort\<close> and a binary search rely on: \<open>cmp\<close> is a total order of equivalence classes.\<close>

locale comparison =
  fixes cmp :: "'a \<Rightarrow> 'a \<Rightarrow> int"
  assumes cmp_neg: "cmp a b < 0 \<longleftrightarrow> 0 < cmp b a"
    and cmp_trans: "cmp a b \<le> 0 \<Longrightarrow> cmp b c \<le> 0 \<Longrightarrow> cmp a c \<le> 0"
begin

lemma cmp_not_le: "\<not> cmp a b \<le> 0 \<Longrightarrow> cmp b a \<le> 0"
  using cmp_neg [of b a] by linarith

lemma set_insert_by: "set (insert_by cmp x xs) = insert x (set xs)"
  by (induction xs) auto

lemma insert_by_in_order: "in_order cmp xs \<Longrightarrow> in_order cmp (insert_by cmp x xs)"
proof (induction xs)
  case (Cons y ys)
  then have y: "\<forall>z \<in> set ys. cmp y z \<le> 0" "in_order cmp ys" by (simp_all add: in_order_def)
  show ?case
  proof (cases "cmp x y \<le> 0")
    case True
    then have "\<forall>z \<in> set ys. cmp x z \<le> 0" using y(1) cmp_trans by blast
    with True Cons.prems show ?thesis by (simp add: in_order_def)
  next
    case False
    with y cmp_not_le [OF False] Cons.IH show ?thesis by (simp add: in_order_def set_insert_by)
  qed
qed (simp add: in_order_def)

lemma in_order_mono:
  assumes "in_order cmp xs" and "i < j" and "j < length xs"
  shows "(0 < cmp p (xs ! j) \<longrightarrow> 0 < cmp p (xs ! i)) \<and> (cmp p (xs ! i) < 0 \<longrightarrow> cmp p (xs ! j) < 0)"
proof -
  have le: "cmp (xs ! i) (xs ! j) \<le> 0" using sorted_wrt_nth_less [of _ xs i j] assms unfolding in_order_def by blast
  have "cmp p (xs ! i) \<le> 0 \<Longrightarrow> cmp p (xs ! j) \<le> 0" using cmp_trans le by blast
  moreover have "cmp p (xs ! i) < 0" if "cmp p (xs ! j) < 0 \<Longrightarrow> False" "cmp p (xs ! i) < 0" using that by simp
  moreover have "cmp (xs ! j) p \<le> 0 \<Longrightarrow> cmp (xs ! i) p \<le> 0" using cmp_trans le by blast
  ultimately show ?thesis using cmp_neg [of p "xs ! i"] cmp_neg [of p "xs ! j"] by linarith
qed

end

text \<open>The contract of \<open>qsort\<close>.\<close>

definition sorts :: "'a sorter \<Rightarrow> bool" where
  "sorts qsort \<longleftrightarrow> (\<forall>cmp xs. comparison cmp \<longrightarrow> mset (qsort cmp xs) = mset xs \<and> in_order cmp (qsort cmp xs))"

lemma sortsD:
  assumes "sorts qsort" "comparison cmp"
  shows "mset (qsort cmp xs) = mset xs" "length (qsort cmp xs) = length xs" "in_order cmp (qsort cmp xs)"
proof -
  show m: "mset (qsort cmp xs) = mset xs" and "in_order cmp (qsort cmp xs)" using assms by (simp_all add: sorts_def)
  show "length (qsort cmp xs) = length xs" using m by (metis size_mset)
qed

text \<open>A sorting function that meets it.\<close>

definition insertion_sort :: "'a sorter" where
  "insertion_sort cmp xs = foldr (insert_by cmp) xs []"

lemma insertion_sort_sorts: "sorts insertion_sort"
  unfolding sorts_def
proof (intro allI impI)
  fix cmp :: "'a \<Rightarrow> 'a \<Rightarrow> int" and xs
  assume cmp: "comparison cmp"
  have ins: "mset (insert_by cmp x ys) = add_mset x (mset ys)" for x ys by (induction ys) auto
  show "mset (insertion_sort cmp xs) = mset xs \<and> in_order cmp (insertion_sort cmp xs)"
    unfolding insertion_sort_def
    by (induction xs) (simp add: in_order_def, simp add: ins comparison.insert_by_in_order [OF cmp])
qed

interpretation set_of: comparison compare_set_of_element
proof
  fix a b c :: bytes
  show "compare_set_of_element a b < 0 \<longleftrightarrow> 0 < compare_set_of_element b a"
    using compare_sign [of a b] compare_sign [of b a] by (metis less_le not_le order_antisym_conv)
  show "compare_set_of_element a b \<le> 0 \<Longrightarrow> compare_set_of_element b c \<le> 0 \<Longrightarrow> compare_set_of_element a c \<le> 0"
    using compare_sign [of a b] compare_sign [of b c] compare_sign [of a c] by auto
qed

text \<open>Different elements never compare as equal, so every \<open>qsort\<close> gives the same list.\<close>

lemma sorts_sort:
  assumes "sorts qsort"
  shows "qsort compare_set_of_element xs = sort xs"
proof (rule properties_for_sort [symmetric])
  note q = sortsD [OF assms set_of.comparison_axioms, of xs]
  show "mset (qsort compare_set_of_element xs) = mset xs" by (rule q(1))
  show "sorted (qsort compare_set_of_element xs)"
    using q(3) unfolding in_order_def by (simp add: compare_sign)
qed

lemma length_concat_sort: "length (concat (sort es)) = length (concat (es :: bytes list))"
  by (metis length_concat sum_mset_sum_list mset_map mset_sort)

section \<open>The elements\<close>

definition der_value :: "bytes \<Rightarrow> bool" where
  "der_value e \<longleftrightarrow> (\<exists>t v. e = der_element t v \<and> length v < 2 ^ 32)"

lemma der_value_ne: "der_value e \<Longrightarrow> e \<noteq> []"
proof -
  have "der_tag t \<noteq> []" for t using tag_parse_complete [of t "[]"] by (auto simp: tag_parse_def)
  then show "der_value e \<Longrightarrow> e \<noteq> []" by (auto simp: der_value_def der_element_def der_header_def)
qed

lemma cbs_init_prefix:
  assumes "n \<le> unat (cbs_len c)"
  shows "cbs_bytes m (CBS_init (cbs_data c) (of_nat n)) = take n (cbs_bytes m c)"
proof -
  have "n < 2 ^ 64" using assms unsigned_less [of "cbs_len c", where 'a = nat] by simp
  then have "unat (of_nat n :: u64) = n" by (rule u64_nat)
  then show ?thesis using cbs_bytes_prefix [OF assms] by simp
qed

lemma set_of_children_complete:
  "cbs_bytes m c = concat es \<Longrightarrow> list_all der_value es \<Longrightarrow>
     \<exists>cs. set_of_children m c = Some cs \<and> map (cbs_bytes m) cs = es"
proof (induction es arbitrary: c)
  case Nil
  then show ?case using cbs_bytes_empty [of m c] by (auto simp: set_of_children.simps [of m c])
next
  case (Cons e es)
  from Cons.prems(2) obtain t v where e: "e = der_element t v" "length v < 2 ^ 32" by (auto simp: der_value_def)
  have ne: "cbs_len c \<noteq> 0"
    using Cons.prems der_value_ne [of e] cbs_bytes_empty [of m c] by auto
  have bytes: "cbs_bytes m c = der_element t v @ concat es" using Cons.prems(1) e by simp
  have p: "element_parse False (cbs_bytes m c) =
      Some (t, length (der_header t (length v)), length e, False)"
    unfolding bytes e(1) by (rule element_parse_complete [OF e(2)])
  have len: "length e \<le> unat (cbs_len c)" using element_parse_bounds(2) [OF p] by simp
  then have "cbs_bytes m (cbs_adv (length e) c) = concat es" using bytes e(1) by simp
  with Cons obtain cs where "set_of_children m (cbs_adv (length e) c) = Some cs" "map (cbs_bytes m) cs = es" by auto
  moreover have "cbs_bytes m (CBS_init (cbs_data c) (of_nat (length e))) = e"
    using cbs_init_prefix [OF len, of m] bytes e(1) by simp
  ultimately show ?case
    using ne p by (simp add: set_of_children.simps [of m c] CBS_get_any_asn1_element_eq)
qed

lemma set_of_children_sound:
  "set_of_children m c = Some cs \<Longrightarrow> cbs_bytes m c = concat (map (cbs_bytes m) cs) \<and> list_all der_value (map (cbs_bytes m) cs)"
proof (induction m c arbitrary: cs rule: set_of_children.induct)
  case (1 m c)
  show ?case
  proof (cases "cbs_len c = 0")
    case True
    with "1.prems" show ?thesis using cbs_bytes_empty [of m c] by (simp add: set_of_children.simps [of m c])
  next
    case False
    then obtain child t hl c' cs' where g: "CBS_get_any_asn1_element m c = (Some (child, t, hl), c')"
      and r: "set_of_children m c' = Some cs'" and cs: "cs = child # cs'"
      using "1.prems" by (auto simp: set_of_children.simps [of m c] split: prod.splits option.splits)
    obtain h n b where p: "element_parse False (cbs_bytes m c) = Some (t, h, n, b)" and c': "c' = cbs_adv n c"
      and child: "child = CBS_init (cbs_data c) (of_nat n)"
      using g by (auto simp: CBS_get_any_asn1_element_eq split: option.splits)
    note bd = element_parse_bounds [OF p] and s = element_parse_sound [OF p]
    have n: "n \<le> unat (cbs_len c)" using bd(2) by simp
    have cb: "cbs_bytes m child = take n (cbs_bytes m c)" and rest: "cbs_bytes m c' = drop n (cbs_bytes m c)"
      using n cbs_init_prefix [OF n, of m] by (simp_all add: child c')
    have len: "length (der_element t (take (n - h) (drop h (cbs_bytes m c)))) = n"
      using arg_cong [OF s(1), of length] n by simp
    have "take n (cbs_bytes m c) = der_element t (take (n - h) (drop h (cbs_bytes m c)))"
      by (subst s(1)) (simp add: len)
    moreover have "length (take (n - h) (drop h (cbs_bytes m c))) < 2 ^ 32" using s(2) by simp
    ultimately have "der_value (cbs_bytes m child)" unfolding cb der_value_def by metis
    with "1.IH" [OF False g [symmetric] refl refl refl r] cb rest cs show ?thesis
      by simp (metis append_take_drop_id)
  qed
qed

section \<open>The flush\<close>

lemma levels_end:
  assumes "levels_ok off (lv @ [(s, fr)])"
  shows "unat (fr_offset fr) = off + length (levels_bytes lv) + length s" "0 < unat (fr_len_len fr)"
    "unat (fr_len_len fr) \<le> 8"
  using assms by (induction lv arbitrary: off) (auto simp: word_neq_0_conv word_less_nat_alt)

text \<open>Where the contents of the innermost level start.\<close>

lemma cbb_start_rep:
  assumes rep: "cbb_rep al L c lv x" and k: "k = length lv"
  shows "unat (cbb_start k c) = length (levels_bytes lv)"
    "CBB_data k c = x" "unat (CBB_len k c) = length x"
proof -
  from rep obtain b where b: "cb_base c = Some b" "builder al L b" "cb_children c = map snd lv"
    "buffer_bytes b = levels_bytes lv @ x" "levels_ok 0 lv" by (auto simp: cbb_rep_def)
  have len: "unat (bb_len b) = length (levels_bytes lv) + length x"
    using b(2,4) length_buffer_bytes [of b] by (simp add: builder_def)
  have "length (buffer_bytes b) = unat (bb_len b)" using b(2) by (simp add: builder_def)
  show start: "unat (cbb_start k c) = length (levels_bytes lv)"
  proof (cases lv rule: rev_cases)
    case Nil
    then show ?thesis by (simp add: cbb_start_def k)
  next
    case (snoc lv' lf)
    obtain s fr where lf: "lf = (s, fr)" by fastforce
    note e = levels_end [OF b(5) [unfolded snoc lf]]
    have fr: "cb_children c ! (k - 1) = fr" using b(3) by (simp add: snoc lf k nth_append)
    have tot: "length (levels_bytes lv) = unat (fr_offset fr) + unat (fr_len_len fr)"
      using e by (simp add: snoc lf levels_bytes_append)
    have "length (levels_bytes lv) < 2 ^ 64" using len unsigned_less [of "bb_len b", where 'a = nat] by simp
    moreover have "unat (ucast (fr_len_len fr) :: u64) = unat (fr_len_len fr)"
      using e(3) by (simp add: unsigned_ucast_eq take_bit_nat_eq_self_iff)
    ultimately have "unat (fr_offset fr + ucast (fr_len_len fr)) = length (levels_bytes lv)"
      using tot by (simp add: unat_plus_if')
    moreover have "k \<noteq> 0" by (simp add: k snoc)
    ultimately show ?thesis using fr by (simp add: cbb_start_def)
  qed
  have l: "CBB_len k c = bb_len b - cbb_start k c" by (simp add: CBB_len_def b(1))
  show len2: "unat (CBB_len k c) = length x"
    unfolding l using start len by (subst unat_sub) (simp_all add: word_le_nat_alt)
  have "drop (length (levels_bytes lv)) (buffer_bytes b) = x" using b(4) by simp
  then show "CBB_data k c = x"
    using start len2 len by (simp add: CBB_data_def b(1) buffer_bytes_def take_drop add.commute)
qed

lemma cbb_add_all_here: "here al k (cbb_add_all al k es) (concat es)"
proof (induction es)
  case Nil
  have "cbb_add_all al k [] = (\<lambda>c. (True, c))" by (intro ext) simp
  then show ?case by (simp add: here_nop)
next
  case (Cons e es)
  have "cbb_add_all al k (e # es) = cbb_then (CBB_add_bytes al k e) (cbb_add_all al k es)" by (intro ext) simp
  with here_then [OF appends_here [OF CBB_add_bytes_appends] Cons.IH] show ?case by simp
qed

lemma rewind_rep:
  assumes rep: "cbb_rep al L c lv x" and k: "k = length lv"
  shows "cbb_rep al L (c\<lparr>cb_base := map_option (\<lambda>b. b\<lparr>bb_len := cbb_start k c\<rparr>) (cb_base c)\<rparr>) lv []"
proof -
  from rep obtain b where b: "cb_base c = Some b" "builder al L b" "cb_children c = map snd lv"
    "buffer_bytes b = levels_bytes lv @ x" "levels_ok 0 lv" by (auto simp: cbb_rep_def)
  note start = cbb_start_rep(1) [OF rep k]
  have len: "unat (bb_len b) = length (levels_bytes lv) + length x"
    using b(2,4) length_buffer_bytes [of b] by (simp add: builder_def)
  have "take (unat (cbb_start k c)) (bb_buf b) = take (unat (cbb_start k c)) (buffer_bytes b)"
    using start len by (simp add: buffer_bytes_def min_def)
  also have "\<dots> = levels_bytes lv" using b(4) start by simp
  finally have "buffer_bytes (b\<lparr>bb_len := cbb_start k c\<rparr>) = levels_bytes lv" by (simp add: buffer_bytes_def)
  moreover have "cbb_start k c \<le> bb_len b" using start len by (simp add: word_le_nat_alt)
  then have "builder al L (b\<lparr>bb_len := cbb_start k c\<rparr>)"
    using b(2) by (auto simp: builder_def buffer_ok_def)
  ultimately show ?thesis using b by (simp add: cbb_rep_def)
qed

lemma set_of_flush:
  assumes al: "al_total al" "sorts qsort" and es: "list_all der_value es" "length (concat es) < 2 ^ 60"
    and rep: "cbb_rep al L c lv x" and k: "k \<le> length lv" and cl: "closes (drop k lv) x"
    and x: "close (drop k lv) x = concat es"
    and len: "length (levels_bytes (take k lv)) + length (concat es) \<le> L"
  obtains c' where "CBB_flush_asn1_set_of qsort al k c = (True, c')"
    "cbb_rep al L c' (take k lv) (concat (sort es))"
proof -
  from appendsE [OF CBB_flush_appends rep k cl] len x obtain c1 where
    c1: "CBB_flush al k c = (True, c1)" "cbb_rep al L c1 (take k lv) (concat es)" by auto
  have k1: "k = length (take k lv)" using k by simp
  note st = cbb_start_rep [OF c1(2) k1]
  define m where "m = set_of_mem (concat es)"
  have bytes: "cbs_bytes m (CBS_init 0 (CBB_len k c1)) = concat es"
    using st(3) es(2) by (simp add: m_def set_of_mem_def mem_read_write_same)
  obtain cs where cs: "set_of_children m (CBS_init 0 (CBB_len k c1)) = Some cs" "map (cbs_bytes m) cs = es"
    using set_of_children_complete [OF bytes es(1)] by blast
  have n: "length cs = length es" using arg_cong [OF cs(2), of length] by simp
  have "length es \<le> length (concat es)"
    using es(1)
  proof (induction es)
    case (Cons e es)
    then have "1 \<le> length e" using der_value_ne [of e] by (cases e) auto
    with Cons show ?case by simp
  qed simp
  then have "length cs < 2 ^ 60" using n es(2) by simp
  then have "unat (of_nat (length cs) :: u64) < 2 ^ 60" by (simp add: u64_nat)
  moreover have "unat (- 1 div 16 :: u64) = 2 ^ 60 - 1" by (simp add: unat_div)
  ultimately have small: "\<not> of_nat (length cs) > (- 1 :: u64) div 16" by (simp add: word_less_nat_alt)
  show thesis
  proof (cases "length cs < 2")
    case True
    then have "sort es = es" using n by (cases es; cases "tl es") auto
    with c1 cs True st(2) that show thesis
      by (simp add: CBB_flush_asn1_set_of_def cbb_then_def Let_def m_def)
  next
    case False
    let ?c = "c1\<lparr>cb_base := map_option (\<lambda>b. b\<lparr>bb_len := cbb_start k c1\<rparr>) (cb_base c1)\<rparr>"
    obtain y z where alloc: "al (CBB_len k c1) = Some y" "al (of_nat (length cs) * 16) = Some z"
      using al(1) unfolding al_total_def by (meson not_None_eq)
    note length_concat_sort [of es]
    with cbb_add_all_here [of al k "sort es", unfolded here_def, rule_format, of L ?c "take k lv" "[]"]
      rewind_rep [OF c1(2) k1] k1 len obtain c2 where
      c2: "cbb_add_all al k (sort es) ?c = (True, c2)" "cbb_rep al L c2 (take k lv) (concat (sort es))" by auto
    with c1 cs False small alloc st(2) that show thesis
      by (simp add: CBB_flush_asn1_set_of_def cbb_then_def Let_def m_def sorts_sort [OF al(2)])
  qed
qed

abbreviation (input) "CBS_ASN1_SET \<equiv> 0x20000011 :: u32"

text \<open>A SET OF as its callers write it, and what the document then is.\<close>

definition add_set_of :: "bytes sorter \<Rightarrow> allocator \<Rightarrow> bytes list \<Rightarrow> cbb \<Rightarrow> bool \<times> cbb" where
  "add_set_of qsort al es =
     cbb_then (CBB_add_asn1 al 0 CBS_ASN1_SET)
    (cbb_then (cbb_add_all al 1 es) (cbb_then (CBB_flush_asn1_set_of qsort al 1) (CBB_flush al 0)))"

lemma add_set_of_sorted:
  assumes al: "al_total al" "sorts qsort" and es: "list_all der_value es" "length (concat es) < 2 ^ 31"
  shows "build al cap (add_set_of qsort al es) = Some (der_element CBS_ASN1_SET (concat (sort es)))"
proof -
  note ls = length_concat_sort [of es]
  have "fills al (Suc 0) (cbb_then (cbb_add_all al 1 es) (CBB_flush_asn1_set_of qsort al 1)) (concat (sort es))"
    unfolding fills_def
  proof (intro allI impI; elim conjE)
    fix L c lv
    assume rep: "cbb_rep al L c lv []" and k: "Suc 0 = length lv"
      and len: "length (levels_bytes lv) + length (concat (sort es)) \<le> L"
    from cbb_add_all_here [of al 1 es, unfolded here_def, rule_format, of L c lv "[]"] rep k len ls obtain c1 where
      c1: "cbb_add_all al 1 es c = (True, c1)" "cbb_rep al L c1 lv (concat es)" by auto
    obtain c2 where "CBB_flush_asn1_set_of qsort al 1 c1 = (True, c2)" "cbb_rep al L c2 (take 1 lv) (concat (sort es))"
      by (rule set_of_flush [OF al es(1) _ c1(2), of 1]) (use k len ls es(2) in simp_all)
    with c1(1) k show "\<exists>c'. cbb_then (cbb_add_all al 1 es) (CBB_flush_asn1_set_of qsort al 1) c = (True, c')
        \<and> cbb_rep al L c' lv (concat (sort es))"
      by (simp add: cbb_then_def)
  qed
  from asn1_fills [OF this, of CBS_ASN1_SET] ls es(2)
  have "appends al 0 (add_set_of qsort al es) (der_element CBS_ASN1_SET (concat (sort es)))"
    by (simp add: add_set_of_def cbb_then_assoc)
  from build_fits [OF this al(1)] ls es(2) show ?thesis by simp
qed

text \<open>
  C20. A SET OF is canonical. When DER elements are written into a SET and
  \<open>CBB_flush_asn1_set_of\<close> is called, the document holds them in ascending order of their
  encodings, a shorter one before those it is a prefix of; so it is the same whatever the order
  in which they were written, and whatever sorting function \<open>qsort\<close> is. The allocator does not fail and the
  elements have less than \<open>2 ^ 31\<close> bytes together.
\<close>

theorem set_of_canonical:
  assumes "al_total al" "sorts qsort" "list_all der_value es" "length (concat es) < 2 ^ 31" "mset es' = mset es"
  shows "build al cap (add_set_of qsort al es') = Some (der_element CBS_ASN1_SET (concat (sort es)))"
proof -
  have srt: "sort es' = sort es"
    using assms(5) by (intro properties_for_sort) simp_all
  have "list_all der_value es'"
    using assms(3) mset_eq_setD [OF assms(5)] by (simp add: list_all_iff)
  moreover have "length (concat es') = length (concat es)"
    using length_concat_sort [of es] length_concat_sort [of es'] srt by simp
  ultimately show ?thesis using add_set_of_sorted [OF assms(1,2), of es' cap] assms(4) srt by simp
qed

theorem set_of_canonical_witness:
  "build zero_alloc 16 (add_set_of insertion_sort zero_alloc [[2, 1, 5], [1, 1, 0xFF], [2, 1, 3]])
     = Some (der_element CBS_ASN1_SET [1, 1, 0xFF, 2, 1, 3, 2, 1, 5])"
proof -
  have "der_value [t, 1, v]" if "t \<in> {1, 2}" for t v
    unfolding der_value_def
    by (rule exI [of _ "ucast t"], rule exI [of _ "[v]"])
      (use that in \<open>auto simp: der_element_def der_header_def der_tag_def der_length_def tag_bits_def tag_number_def Let_def\<close>)
  then have "list_all der_value [[1, 1, 0xFF], [2, 1, 3], [2, 1, 5]]" by simp
  from set_of_canonical [OF zero_alloc_total insertion_sort_sorts this, of "[[2, 1, 5], [1, 1, 0xFF], [2, 1, 3]]" 16]
  show ?thesis by simp
qed

end
