(* ===== verification/CbbFailure.thy ===== *)
theory CbbFailure
  imports CbbSetOf
begin

text \<open>
  Builders after a failure: the operations of cbb.c as calls of a client, and what they do once the error flag of the
  buffer is set. \<open>CBB_did_write\<close> and \<open>CBB_discard_child\<close> do not look at the flag.
\<close>

section \<open>Calls\<close>

text \<open>
  The calls that write to a builder or flush it. The text of an object identifier is given by the memory, its address
  and its length; a sort is given with the function that sorts.
\<close>

datatype cbb_op =
    Op_flush | Op_bytes bytes | Op_zeros u64 | Op_space u64 | Op_reserve u64 | Op_did_write bytes
  | Op_u8 u8 | Op_u16 u16 | Op_u24 u32 | Op_u32 u32 | Op_u64 u64 | Op_u16le u16 | Op_u32le u32 | Op_u64le u64
  | Op_u8_prefixed | Op_u16_prefixed | Op_u24_prefixed | Op_asn1 u32 | Op_discard_child
  | Op_asn1_uint64 u64 | Op_asn1_int64 u64 | Op_asn1_octet_string bytes | Op_asn1_bool bool
  | Op_asn1_oid mem u64 u64 | Op_asn1_set_of "bytes sorter"

fun cbb_call :: "allocator \<Rightarrow> nat \<Rightarrow> cbb_op \<Rightarrow> cbb \<Rightarrow> bool \<times> cbb" where
  "cbb_call al k Op_flush = CBB_flush al k"
| "cbb_call al k (Op_bytes bs) = CBB_add_bytes al k bs"
| "cbb_call al k (Op_zeros n) = CBB_add_zeros al k n"
| "cbb_call al k (Op_space n) = CBB_add_space al k n"
| "cbb_call al k (Op_reserve n) = CBB_reserve al k n"
| "cbb_call al k (Op_did_write bs) = CBB_did_write k bs"
| "cbb_call al k (Op_u8 v) = CBB_add_u8 al k v"
| "cbb_call al k (Op_u16 w) = CBB_add_u16 al k w"
| "cbb_call al k (Op_u24 x) = CBB_add_u24 al k x"
| "cbb_call al k (Op_u32 x) = CBB_add_u32 al k x"
| "cbb_call al k (Op_u64 y) = CBB_add_u64 al k y"
| "cbb_call al k (Op_u16le w) = CBB_add_u16le al k w"
| "cbb_call al k (Op_u32le x) = CBB_add_u32le al k x"
| "cbb_call al k (Op_u64le y) = CBB_add_u64le al k y"
| "cbb_call al k Op_u8_prefixed = CBB_add_u8_length_prefixed al k"
| "cbb_call al k Op_u16_prefixed = CBB_add_u16_length_prefixed al k"
| "cbb_call al k Op_u24_prefixed = CBB_add_u24_length_prefixed al k"
| "cbb_call al k (Op_asn1 x) = CBB_add_asn1 al k x"
| "cbb_call al k Op_discard_child = (\<lambda>c. (True, CBB_discard_child k c))"
| "cbb_call al k (Op_asn1_uint64 y) = CBB_add_asn1_uint64 al k y"
| "cbb_call al k (Op_asn1_int64 y) = CBB_add_asn1_int64 al k y"
| "cbb_call al k (Op_asn1_octet_string bs) = CBB_add_asn1_octet_string al k bs"
| "cbb_call al k (Op_asn1_bool p) = CBB_add_asn1_bool al k p"
| "cbb_call al k (Op_asn1_oid m txt n) = CBB_add_asn1_oid_from_text al k m txt n"
| "cbb_call al k (Op_asn1_set_of qsort) = CBB_flush_asn1_set_of qsort al k"

text \<open>A client's calls, each at the level of a \<open>CBB\<close>, with their results.\<close>

fun cbb_calls :: "allocator \<Rightarrow> (nat \<times> cbb_op) list \<Rightarrow> cbb \<Rightarrow> bool list \<times> cbb" where
  "cbb_calls al [] c = ([], c)"
| "cbb_calls al ((k, op) # ops) c =
     (case cbb_call al k op c of (r, c') \<Rightarrow> (case cbb_calls al ops c' of (rs, c'') \<Rightarrow> (r # rs, c'')))"

text \<open>The calls that look at the flag.\<close>

fun guarded :: "cbb_op \<Rightarrow> bool" where
  "guarded (Op_did_write bs) = False"
| "guarded Op_discard_child = False"
| "guarded _ = True"

section \<open>After a failure\<close>

lemma cbb_then_failed: "f c = (False, c) \<Longrightarrow> cbb_then f g c = (False, c)"
  by (simp add: cbb_then_def)

lemmas failed_writes = CBB_flush_failed cbb_with_buffer_failed

lemma asn1_failed: "cbb_failed c \<Longrightarrow> CBB_add_asn1 al k t c = (False, c)"
  by (simp add: CBB_add_asn1_def Let_def cbb_then_failed failed_writes)

lemma uint64_failed: "cbb_failed c \<Longrightarrow> CBB_add_asn1_uint64 al k v c = (False, c)"
  by (simp add: CBB_add_asn1_uint64_def cbb_then_failed asn1_failed)

lemma guarded_failed:
  assumes "cbb_failed c" "guarded op"
  shows "cbb_call al k op c = (False, c)"
  using assms(2) failed_writes [OF assms(1)] asn1_failed [OF assms(1)] uint64_failed [OF assms(1)]
  by (cases op)
    (simp_all add: cbb_then_failed CBB_add_bytes_def CBB_add_zeros_def CBB_add_space_def CBB_reserve_def CBB_add_u8_def
      CBB_add_u16_def CBB_add_u24_def CBB_add_u32_def CBB_add_u64_def CBB_add_u16le_def CBB_add_u32le_def CBB_add_u64le_def
      CBB_add_u8_length_prefixed_def CBB_add_u16_length_prefixed_def CBB_add_u24_length_prefixed_def
      cbb_add_length_prefixed_def CBB_add_asn1_int64_def CBB_add_asn1_octet_string_def CBB_add_asn1_bool_def
      CBB_add_asn1_oid_from_text_def CBB_flush_asn1_set_of_def)

lemma unguarded_failed:
  assumes "cbb_failed c" "\<not> guarded op" "cbb_call al k op c = (r, c')"
  shows "cbb_failed c'"
  using assms by (cases op) (auto simp: CBB_did_write_def CBB_discard_child_def cbb_failed_def Let_def split: option.splits if_splits)

lemma CBB_finish_failed: "cbb_failed c \<Longrightarrow> fst (CBB_finish al outs k c) = None"
  by (simp add: CBB_finish_def CBB_flush_failed)

text \<open>
  C16. A failure is final: after any calls on a builder that has failed, every one that looks at the error flag, which
  are all but \<open>CBB_did_write\<close> and \<open>CBB_discard_child\<close>, has returned an error, the builder still counts as failed, and
  \<open>CBB_finish\<close> returns no bytes. Without these two calls the builder is also unchanged.
\<close>

theorem cbb_error_sticky:
  assumes "cbb_failed c" and "cbb_calls al ops c = (rs, c')"
  shows "list_all2 (\<lambda>(k, op) r. guarded op \<longrightarrow> \<not> r) ops rs \<and> cbb_failed c' \<and> fst (CBB_finish al outs k c') = None
    \<and> (list_all (\<lambda>(k, op). guarded op) ops \<longrightarrow> c' = c)"
  using assms
proof (induction ops arbitrary: c rs)
  case Nil
  then show ?case by (simp add: CBB_finish_failed)
next
  case (Cons kop ops)
  obtain k op where kop: "kop = (k, op)" by (cases kop)
  obtain r c1 rs1 where r: "cbb_call al k op c = (r, c1)" "cbb_calls al ops c1 = (rs1, c')" "rs = r # rs1"
    using Cons.prems(2) by (auto simp: kop split: prod.splits)
  have "cbb_failed c1 \<and> (guarded op \<longrightarrow> \<not> r \<and> c1 = c)"
    using guarded_failed [OF Cons.prems(1), of op al k] unguarded_failed [OF Cons.prems(1) _ r(1)] Cons.prems(1) r(1)
    by (cases "guarded op") auto
  with Cons.IH [OF _ r(2)] show ?case by (auto simp: kop r(3))
qed

text \<open>A builder of four bytes whose error flag is set.\<close>

definition failed_example :: cbb where
  "failed_example = \<lparr>cb_base = Some \<lparr>bb_buf = [0, 0, 0, 0], bb_len = 0, bb_cap = 4, bb_can_resize = False, bb_error = True\<rparr>,
     cb_children = []\<rparr>"

theorem cbb_error_sticky_witness:
  "\<exists>c'. cbb_calls zero_alloc [(0, Op_u8 1), (0, Op_did_write [7]), (0, Op_asn1 0x30)] failed_example = ([False, True, False], c')
    \<and> cbb_failed c' \<and> fst (CBB_finish zero_alloc True 0 c') = None"
proof -
  let ?ops = "[(0, Op_u8 1), (0, Op_did_write [7]), (0, Op_asn1 0x30)]"
  obtain rs c' where r: "cbb_calls zero_alloc ?ops failed_example = (rs, c')" by fastforce
  have f: "cbb_failed failed_example" by (simp add: cbb_failed_def failed_example_def)
  from cbb_error_sticky [OF f r, of True 0] obtain b where
    "rs = [False, b, False]" "cbb_failed c'" "fst (CBB_finish zero_alloc True 0 c') = None"
    by (auto simp: list_all2_Cons1)
  moreover from this(1) r guarded_failed [OF f, of "Op_u8 1" zero_alloc 0] have b
    by (auto simp: CBB_did_write_def failed_example_def split: prod.splits)
  ultimately show ?thesis using r by auto
qed

text \<open>\<open>CBB_did_write\<close> succeeds on a failed builder, when the bytes have room.\<close>

lemma did_write_after_error:
  assumes "cb_base c = Some b" "bb_error b" "cb_children c = []" "unat (bb_len b) + length bs \<le> unat (bb_cap b)"
  shows "cbb_failed c \<and> fst (CBB_did_write 0 bs c)"
proof -
  have "length bs < 2 ^ 64" "unat (bb_len b) + length bs < 2 ^ 64"
    using assms(4) unsigned_less [of "bb_cap b", where 'a = nat] by simp_all
  then have "unat (bb_len b + of_nat (length bs)) = unat (bb_len b) + length bs" by (simp add: unat_word_ariths unat_of_nat)
  with assms show ?thesis by (simp add: CBB_did_write_def cbb_failed_def Let_def word_less_nat_alt not_less)
qed

end
