(* ===== verification/CbbUnicode.thy ===== *)
theory CbbUnicode
  imports CbbOid
begin

text \<open>
  Unicode in byte strings (crypto/bytestring/unicode.c): code points read from a \<open>CBS\<close> and
  written to a \<open>CBB\<close> as UTF-8, Latin-1, UCS-2 and UTF-32. The interface \<open>char_codec\<close> says when a
  reader and a writer belong together: the writer appends the encoding of the code points it
  takes and refuses the others, and the reader accepts exactly these encodings.
\<close>

section \<open>The code\<close>

definition is_valid_code_point :: "u32 \<Rightarrow> bool" where
  "is_valid_code_point v \<longleftrightarrow>
     \<not> (v > 0x10ffff \<or> v AND 0xfffe = 0xfffe \<or> (v \<ge> 0xfdd0 \<and> v \<le> 0xfdef) \<or> (v \<ge> 0xd800 \<and> v \<le> 0xdfff))"

fun utf8_tail :: "mem \<Rightarrow> nat \<Rightarrow> u32 \<Rightarrow> cbs \<Rightarrow> u32 option \<times> cbs" where
  "utf8_tail m 0 v c = (Some v, c)"
| "utf8_tail m (Suc n) v c =
     (case CBS_get_u8 m c of
        (None, c') \<Rightarrow> (None, c')
      | (Some b, c') \<Rightarrow>
          if b AND 0xC0 \<noteq> 0x80 then (None, c')
          else utf8_tail m n (push_bit 6 v OR ucast (b AND 0x3F)) c')"

definition cbs_get_utf8 :: "mem \<Rightarrow> cbs \<Rightarrow> u32 option \<times> cbs" where
  "cbs_get_utf8 m c =
     (case CBS_get_u8 m c of
        (None, c') \<Rightarrow> (None, c')
      | (Some b, c') \<Rightarrow>
          if b \<le> 0x7f then (Some (ucast b), c')
          else
            (case (if b AND 0xE0 = 0xC0 then Some (ucast (b AND 0x1F), 1, 0x80)
                   else if b AND 0xF0 = 0xE0 then Some (ucast (b AND 0x0F), 2, 0x800)
                   else if b AND 0xF8 = 0xF0 then Some (ucast (b AND 0x07), 3, 0x10000)
                   else None) of
               None \<Rightarrow> (None, c')
             | Some (v, len, lower_bound) \<Rightarrow>
                 (case utf8_tail m len v c' of
                    (None, c'') \<Rightarrow> (None, c'')
                  | (Some v, c'') \<Rightarrow>
                      if \<not> is_valid_code_point v \<or> v < lower_bound then (None, c'') else (Some v, c''))))"

definition cbs_get_latin1 :: "mem \<Rightarrow> cbs \<Rightarrow> u32 option \<times> cbs" where
  "cbs_get_latin1 m c = apfst (map_option ucast) (CBS_get_u8 m c)"

definition cbs_get_ucs2_be :: "mem \<Rightarrow> cbs \<Rightarrow> u32 option \<times> cbs" where
  "cbs_get_ucs2_be m c =
     (case CBS_get_u16 m c of
        (None, c') \<Rightarrow> (None, c')
      | (Some v, c') \<Rightarrow> if \<not> is_valid_code_point (ucast v) then (None, c') else (Some (ucast v), c'))"

definition cbs_get_utf32_be :: "mem \<Rightarrow> cbs \<Rightarrow> u32 option \<times> cbs" where
  "cbs_get_utf32_be m c =
     (case CBS_get_u32 m c of
        (None, c') \<Rightarrow> (None, c')
      | (Some v, c') \<Rightarrow> if is_valid_code_point v then (Some v, c') else (None, c'))"

definition cbb_get_utf8_len :: "u32 \<Rightarrow> u64" where
  "cbb_get_utf8_len u = (if u \<le> 0x7f then 1 else if u \<le> 0x7ff then 2 else if u \<le> 0xffff then 3 else 4)"

text \<open>Calls of \<open>CBB_add_u8\<close> joined by \<open>&&\<close> are \<open>cbb_add_octets\<close>.\<close>

definition cbb_add_utf8 :: "allocator \<Rightarrow> nat \<Rightarrow> u32 \<Rightarrow> cbb \<Rightarrow> bool \<times> cbb" where
  "cbb_add_utf8 al k u b =
     (if \<not> is_valid_code_point u then (False, b)
      else if u \<le> 0x7f then CBB_add_u8 al k (ucast u) b
      else if u \<le> 0x7ff then
        cbb_add_octets al k [ucast (0xC0 OR drop_bit 6 u), ucast (0x80 OR (u AND 0x3F))] b
      else if u \<le> 0xffff then
        cbb_add_octets al k [ucast (0xE0 OR drop_bit 12 u), ucast (0x80 OR (drop_bit 6 u AND 0x3F)),
          ucast (0x80 OR (u AND 0x3F))] b
      else if u \<le> 0x10ffff then
        cbb_add_octets al k [ucast (0xF0 OR drop_bit 18 u), ucast (0x80 OR (drop_bit 12 u AND 0x3F)),
          ucast (0x80 OR (drop_bit 6 u AND 0x3F)), ucast (0x80 OR (u AND 0x3F))] b
      else (False, b))"

definition cbb_add_latin1 :: "allocator \<Rightarrow> nat \<Rightarrow> u32 \<Rightarrow> cbb \<Rightarrow> bool \<times> cbb" where
  "cbb_add_latin1 al k u b = (if u \<le> 0xff then CBB_add_u8 al k (ucast u) b else (False, b))"

definition cbb_add_ucs2_be :: "allocator \<Rightarrow> nat \<Rightarrow> u32 \<Rightarrow> cbb \<Rightarrow> bool \<times> cbb" where
  "cbb_add_ucs2_be al k u b =
     (if u \<le> 0xffff \<and> is_valid_code_point u then CBB_add_u16 al k (ucast u) b else (False, b))"

definition cbb_add_utf32_be :: "allocator \<Rightarrow> nat \<Rightarrow> u32 \<Rightarrow> cbb \<Rightarrow> bool \<times> cbb" where
  "cbb_add_utf32_be al k u b = (if is_valid_code_point u then CBB_add_u32 al k u b else (False, b))"

section \<open>Bytes and numbers\<close>

lemma high_bits: "unat (b AND push_bit k (mask (8 - k))) = unat b div 2 ^ k * 2 ^ k" for b :: u8
proof -
  have "b AND push_bit k (mask (8 - k)) = push_bit k (drop_bit k b)"
    by (rule bit_word_eqI) (auto simp: bit_simps)
  also have "unat \<dots> = unat b div 2 ^ k * 2 ^ k"
  proof -
    have b8: "take_bit 8 (unat b) = unat b" using u8_bound [of b] by (simp add: take_bit_nat_eq_self_iff)
    have "unat b div 2 ^ k * 2 ^ k < 256"
      using u8_bound [of b] div_times_less_eq_dividend [of "unat b" "2 ^ k"] by (rule order.strict_trans1 [rotated])
    then show ?thesis
      by (simp only: unsigned_push_bit_eq unsigned_drop_bit_eq)
        (simp add: push_bit_eq_mult drop_bit_eq_div take_bit_nat_eq_self_iff b8)
  qed
  finally show ?thesis .
qed

lemma head_tests:
  "b AND 0xC0 = 0x80 \<longleftrightarrow> unat b div 64 = 2" "b AND 0xE0 = 0xC0 \<longleftrightarrow> unat b div 32 = 6"
  "b AND 0xF0 = 0xE0 \<longleftrightarrow> unat b div 16 = 14" "b AND 0xF8 = 0xF0 \<longleftrightarrow> unat b div 8 = 30" for b :: u8
proof -
  have masks: "(0xC0 :: u8) = push_bit 6 (mask (8 - 6))" "(0xE0 :: u8) = push_bit 5 (mask (8 - 5))"
    "(0xF0 :: u8) = push_bit 4 (mask (8 - 4))" "(0xF8 :: u8) = push_bit 3 (mask (8 - 3))"
    by (simp_all add: mask_eq_exp_minus_1)
  have "unat (b AND 0xC0) = unat b div 64 * 64" "unat (b AND 0xE0) = unat b div 32 * 32"
    "unat (b AND 0xF0) = unat b div 16 * 16" "unat (b AND 0xF8) = unat b div 8 * 8"
    using high_bits [of b 6] high_bits [of b 5] high_bits [of b 4] high_bits [of b 3]
    unfolding masks by simp_all
  then show "b AND 0xC0 = 0x80 \<longleftrightarrow> unat b div 64 = 2" "b AND 0xE0 = 0xC0 \<longleftrightarrow> unat b div 32 = 6"
    "b AND 0xF0 = 0xE0 \<longleftrightarrow> unat b div 16 = 14" "b AND 0xF8 = 0xF0 \<longleftrightarrow> unat b div 8 = 30"
    by (simp_all add: word_unat_eq_iff)
qed

lemma low_bits: "unat (b AND 0x3F) = unat b mod 64" "unat (b AND 0x1F) = unat b mod 32"
  "unat (b AND 0x0F) = unat b mod 16" "unat (b AND 0x07) = unat b mod 8" for b :: "'a::len word"
proof -
  have *: "unat (b AND mask k) = unat b mod 2 ^ k" for k
    by (simp only: take_bit_eq_mask [symmetric] unsigned_take_bit_eq) (simp add: take_bit_eq_mod)
  show "unat (b AND 0x3F) = unat b mod 64" "unat (b AND 0x1F) = unat b mod 32"
    "unat (b AND 0x0F) = unat b mod 16" "unat (b AND 0x07) = unat b mod 8"
    using * [of 6] * [of 5] * [of 4] * [of 3] by (simp_all add: mask_eq_exp_minus_1)
qed

lemma byte_to_u32 [simp]: "unat (ucast b :: u32) = unat b" for b :: u8
  using u8_bound [of b] by (simp add: unsigned_ucast_eq take_bit_nat_eq_self_iff)

text \<open>\<open>v <<= 6; v |= c & 0x3f\<close>, while there is room.\<close>

lemma push6:
  fixes v :: u32 and b :: u8
  assumes "unat v < 2 ^ 26"
  shows "unat (push_bit 6 v OR ucast (b AND 0x3F)) = unat v * 64 + unat b mod 64"
proof -
  have "push_bit 6 v AND ucast (b AND 0x3F) = 0"
  proof -
    have m: "(0x3F :: u8) = mask 6" by (simp add: mask_eq_exp_minus_1)
    show ?thesis unfolding m by (rule bit_word_eqI) (auto simp: bit_simps)
  qed
  then have "push_bit 6 v OR ucast (b AND 0x3F) = push_bit 6 v + ucast (b AND 0x3F)"
    by (simp add: disjunctive_add_eq_or)
  moreover have "unat (push_bit 6 v) = unat v * 64"
    using assms by (simp only: unsigned_push_bit_eq) (simp add: push_bit_eq_mult take_bit_nat_eq_self_iff)
  moreover have "unat b mod 64 < 64" by simp
  have "unat v < 67108864" using assms by simp
  with \<open>unat b mod 64 < 64\<close> have lt: "unat v * 64 + unat b mod 64 < 4294967296" by linarith
  ultimately show ?thesis using low_bits(1) [of b] lt by (simp add: unat_plus_if')
qed

section \<open>UTF-8\<close>

definition utf8 :: "nat \<Rightarrow> nat list" where
  "utf8 n =
     (if n < 0x80 then [n]
      else if n < 0x800 then [0xC0 + n div 64, 0x80 + n mod 64]
      else if n < 0x10000 then [0xE0 + n div 4096, 0x80 + n div 64 mod 64, 0x80 + n mod 64]
      else [0xF0 + n div 262144, 0x80 + n div 4096 mod 64, 0x80 + n div 64 mod 64, 0x80 + n mod 64])"

definition utf8_bytes :: "u32 \<Rightarrow> bytes" where
  "utf8_bytes u = map of_nat (utf8 (unat u))"

lemma utf8_small: "n < 0x110000 \<Longrightarrow> \<forall>b \<in> set (utf8 n). b < 256"
proof -
  have "n div 64 < 32" if "n < 0x800" using that by simp
  moreover have "n div 4096 < 16" if "n < 0x10000" using that by simp
  moreover have "n div 262144 < 5" if "n < 0x110000" using that by simp
  ultimately show "n < 0x110000 \<Longrightarrow> \<forall>b \<in> set (utf8 n). b < 256" by (auto simp: utf8_def)
qed

lemma unat_utf8_bytes: "unat u < 0x110000 \<Longrightarrow> map unat (utf8_bytes u) = utf8 (unat u)"
  unfolding utf8_bytes_def map_map by (rule map_idI) (use utf8_small [of "unat u"] in \<open>auto simp: unat_of_nat_small\<close>)


text \<open>The continuation bytes.\<close>

definition tail_val :: "nat \<Rightarrow> bytes \<Rightarrow> nat" where
  "tail_val = foldl (\<lambda>a b. a * 64 + unat b mod 64)"

lemma tail_val_simps [simp]: "tail_val v [] = v" "tail_val v (b # bs) = tail_val (v * 64 + unat b mod 64) bs"
  by (simp_all add: tail_val_def)

definition room :: "u32 \<Rightarrow> nat \<Rightarrow> bool" where
  "room v n \<longleftrightarrow> Suc (unat v) * 64 ^ n \<le> 2 ^ 32"

lemma room_Suc: "room v (Suc n) \<Longrightarrow> unat v < 2 ^ 26 \<and> room (push_bit 6 v OR ucast (b AND 0x3F :: u8)) n"
proof -
  assume r: "room v (Suc n)"
  have "Suc (unat v) * 64 * 1 \<le> Suc (unat v) * 64 * 64 ^ n" by (rule mult_le_mono2) simp
  also have "\<dots> \<le> 2 ^ 32" using r by (simp only: room_def power_Suc mult.assoc)
  finally have v: "unat v < 2 ^ 26" by simp
  have "Suc (unat v * 64 + unat b mod 64) \<le> Suc (unat v) * 64" by (simp add: Suc_le_eq)
  then have "Suc (unat v * 64 + unat b mod 64) * 64 ^ n \<le> Suc (unat v) * 64 * 64 ^ n" by (rule mult_le_mono1)
  also have "\<dots> \<le> 2 ^ 32" using r by (simp only: room_def power_Suc mult.assoc)
  finally show ?thesis using v push6 [OF v, of b] by (simp only: room_def simp_thms)
qed

lemma utf8_tail_sound:
  "utf8_tail m n v c = (Some w, c') \<Longrightarrow> room v n \<Longrightarrow>
     \<exists>bs. length bs = n \<and> cbs_bytes m c = bs @ cbs_bytes m c' \<and> list_all (\<lambda>b. unat b div 64 = 2) bs
       \<and> unat w = tail_val (unat v) bs"
proof (induction n arbitrary: v c)
  case (Suc n)
  from Suc.prems(1) obtain b xs where bytes: "cbs_bytes m c = b # xs" and b: "b AND 0xC0 = 0x80"
    and r: "utf8_tail m n (push_bit 6 v OR ucast (b AND 0x3F)) (cbs_adv 1 c) = (Some w, c')"
    by (auto simp: CBS_get_u8_eq split: list.splits if_splits)
  note rm = room_Suc [OF Suc.prems(2), of b]
  from Suc.IH [OF r] rm obtain bs where "length bs = n" "cbs_bytes m (cbs_adv 1 c) = bs @ cbs_bytes m c'"
    "list_all (\<lambda>b. unat b div 64 = 2) bs" "unat w = tail_val (unat v * 64 + unat b mod 64) bs"
    using push6 [of v b] by auto
  with bytes b cbs_bytes_Cons(2) [OF bytes] show ?case
    by (intro exI [of _ "b # bs"]) (simp add: head_tests)
qed simp

lemma utf8_tail_complete:
  "cbs_bytes m c = bs @ ys \<Longrightarrow> list_all (\<lambda>b. unat b div 64 = 2) bs \<Longrightarrow> room v (length bs) \<Longrightarrow>
     \<exists>w c'. utf8_tail m (length bs) v c = (Some w, c') \<and> cbs_bytes m c' = ys \<and> unat w = tail_val (unat v) bs"
proof (induction bs arbitrary: v c)
  case (Cons b bs)
  have bytes: "cbs_bytes m c = b # (bs @ ys)" using Cons.prems(1) by simp
  have r: "unat v < 2 ^ 26" "room (push_bit 6 v OR ucast (b AND 0x3F)) (length bs)"
    using room_Suc [of v "length bs" b] Cons.prems(3) by simp_all
  have b: "b AND 0xC0 = 0x80" using Cons.prems(2) by (simp add: head_tests)
  from Cons.IH [OF cbs_bytes_Cons(2) [OF bytes] _ r(2)] Cons.prems(2) obtain w c' where
    "utf8_tail m (length bs) (push_bit 6 v OR ucast (b AND 0x3F)) (cbs_adv 1 c) = (Some w, c')"
    "cbs_bytes m c' = ys" "unat w = tail_val (unat v * 64 + unat b mod 64) bs"
    using push6 [OF r(1), of b] by auto
  with b show ?case by (simp add: CBS_get_u8_eq bytes)
qed simp

lemma valid_small: "is_valid_code_point u \<Longrightarrow> unat u < 0x110000"
  by (simp add: is_valid_code_point_def word_le_nat_alt not_less)

lemma room_head: "room (ucast (b AND 0x1F :: u8)) 1" "room (ucast (b AND 0x0F :: u8)) 2" "room (ucast (b AND 0x07 :: u8)) 3"
  using low_bits(2-4) [of b] by (simp_all add: room_def)

lemma valid_ascii: "unat u < 0x80 \<Longrightarrow> is_valid_code_point u"
proof -
  assume u: "unat u < 0x80"
  have "u AND 0xfffe \<le> u" by (rule word_and_le2)
  then have "u AND 0xfffe \<noteq> 0xfffe" using u by (auto simp: word_le_nat_alt)
  with u show ?thesis by (simp add: is_valid_code_point_def word_le_nat_alt word_less_nat_alt)
qed

text \<open>Head and continuation bytes against the digits of the code point.\<close>

lemma utf8_join:
  assumes "list_all (\<lambda>b. unat b div 64 = 2) bs" "unat u < 0x110000"
  shows "unat b div 32 = 6 \<Longrightarrow> length bs = 1 \<Longrightarrow> unat u = tail_val (unat b mod 32) bs \<Longrightarrow> 0x80 \<le> unat u \<Longrightarrow>
      map unat (b # bs) = utf8 (unat u)"
    "unat b div 16 = 14 \<Longrightarrow> length bs = 2 \<Longrightarrow> unat u = tail_val (unat b mod 16) bs \<Longrightarrow> 0x800 \<le> unat u \<Longrightarrow>
      map unat (b # bs) = utf8 (unat u)"
    "unat b div 8 = 30 \<Longrightarrow> length bs = 3 \<Longrightarrow> unat u = tail_val (unat b mod 8) bs \<Longrightarrow> 0x10000 \<le> unat u \<Longrightarrow>
      map unat (b # bs) = utf8 (unat u)"
proof -
  have split: "x div k = q \<Longrightarrow> x = q * k + x mod k" for x k q :: nat
    by (metis div_mult_mod_eq)
  have cont: "unat c = 128 + unat c mod 64" if "unat c div 64 = 2" for c :: u8
    using split [OF that] by simp
  show "map unat (b # bs) = utf8 (unat u)"
    if h: "unat b div 32 = 6" "length bs = 1" "unat u = tail_val (unat b mod 32) bs" "0x80 \<le> unat u"
  proof -
    obtain c where bs: "bs = [c]" using h(2) by (auto simp: length_Suc_conv)
    define r s where "r = unat b mod 32" and "s = unat c mod 64"
    have "unat b = 192 + r" "unat c = 128 + s" "unat u = r * 64 + s" "r < 32" "s < 64"
      using split [OF h(1)] cont [of c] assms(1) h(3) by (simp_all add: bs r_def s_def)
    with h(4) show ?thesis by (simp add: utf8_def bs)
  qed
  show "map unat (b # bs) = utf8 (unat u)"
    if h: "unat b div 16 = 14" "length bs = 2" "unat u = tail_val (unat b mod 16) bs" "0x800 \<le> unat u"
  proof -
    obtain c d where bs: "bs = [c, d]" using h(2) by (auto simp: length_Suc_conv numeral_2_eq_2)
    define r s t where "r = unat b mod 16" and "s = unat c mod 64" and "t = unat d mod 64"
    have e: "unat b = 224 + r" "unat c = 128 + s" "unat d = 128 + t" "unat u = (r * 64 + s) * 64 + t" "r < 16" "s < 64" "t < 64"
      using split [OF h(1)] cont [of c] cont [of d] assms(1) h(3) by (simp_all add: bs r_def s_def t_def)
    have "unat u div 64 = r * 64 + s" using e by simp
    moreover have "unat u div 4096 = r" using e by simp
    moreover have "unat u mod 64 = t" "(r * 64 + s) mod 64 = s"
      unfolding e(4) mod_mult_self3 using e by simp_all
    moreover have "\<not> unat u < 0x800" "unat u < 0x10000" using e h(4) by simp_all
    ultimately show ?thesis using e(1-3) by (simp add: utf8_def bs)
  qed
  show "map unat (b # bs) = utf8 (unat u)"
    if h: "unat b div 8 = 30" "length bs = 3" "unat u = tail_val (unat b mod 8) bs" "0x10000 \<le> unat u"
  proof -
    obtain c d e where bs: "bs = [c, d, e]" using h(2) by (auto simp: length_Suc_conv numeral_3_eq_3)
    define r s t w where "r = unat b mod 8" and "s = unat c mod 64" and "t = unat d mod 64" and "w = unat e mod 64"
    have e: "unat b = 240 + r" "unat c = 128 + s" "unat d = 128 + t" "unat e = 128 + w"
      "unat u = ((r * 64 + s) * 64 + t) * 64 + w" "r < 8" "s < 64" "t < 64" "w < 64"
      using split [OF h(1)] cont [of c] cont [of d] cont [of e] assms(1) h(3)
      by (simp_all add: bs r_def s_def t_def w_def)
    have "unat u div 64 = (r * 64 + s) * 64 + t" using e by simp
    moreover have "unat u div 4096 = r * 64 + s" using e by simp
    moreover have "unat u div 262144 = r" using e by simp
    moreover have "unat u mod 64 = w" "((r * 64 + s) * 64 + t) mod 64 = t" "(r * 64 + s) mod 64 = s"
      unfolding e(5) mod_mult_self3 using e by simp_all
    moreover have "\<not> unat u < 0x10000" "\<not> unat u < 0x800" using h(4) by simp_all
    ultimately show ?thesis using e(1-4) by (simp add: utf8_def bs)
  qed
qed


lemma utf8_sound:
  assumes "cbs_get_utf8 m c = (Some u, c')"
  shows "is_valid_code_point u \<and> cbs_bytes m c = utf8_bytes u @ cbs_bytes m c'"
proof -
  obtain b xs where bytes: "cbs_bytes m c = b # xs"
    using assms by (cases "cbs_bytes m c") (simp_all add: cbs_get_utf8_def CBS_get_u8_eq)
  note g = assms [unfolded cbs_get_utf8_def CBS_get_u8_eq bytes list.case prod.case option.case]
  note xs = cbs_bytes_Cons(2) [OF bytes]
  have inj: "map unat ys = utf8 (unat u) \<Longrightarrow> ys = utf8_bytes u" for ys
  proof -
    assume "map unat ys = utf8 (unat u)"
    then have "utf8_bytes u = map (of_nat \<circ> unat) ys" by (simp add: utf8_bytes_def flip: map_map)
    also have "\<dots> = ys" by (simp add: o_def)
    finally show "ys = utf8_bytes u" ..
  qed
  show ?thesis
  proof (cases "b \<le> 0x7f")
    case True
    then have u: "u = ucast b" "c' = cbs_adv 1 c" "unat b < 0x80" using g by (simp_all add: word_le_nat_alt)
    then have "utf8_bytes u = [b]" by (simp add: utf8_bytes_def utf8_def)
    with u xs bytes valid_ascii [of u] show ?thesis by simp
  next
    case False
    then obtain v len lb where h: "(if b AND 0xE0 = 0xC0 then Some (ucast (b AND 0x1F), 1, 0x80)
                   else if b AND 0xF0 = 0xE0 then Some (ucast (b AND 0x0F), 2, 0x800)
                   else if b AND 0xF8 = 0xF0 then Some (ucast (b AND 0x07), 3, 0x10000)
                   else None) = Some (v, len, lb)"
      and t: "utf8_tail m len v (cbs_adv 1 c) = (Some u, c')" and ok: "is_valid_code_point u" "\<not> u < lb"
      using g by (auto split: if_splits prod.splits option.splits)
    have "room v len" using h room_head [of b] by (auto split: if_splits)
    from utf8_tail_sound [OF t this] obtain bs where bs: "length bs = len" "cbs_bytes m (cbs_adv 1 c) = bs @ cbs_bytes m c'"
      "list_all (\<lambda>b. unat b div 64 = 2) bs" "unat u = tail_val (unat v) bs" by blast
    note join = utf8_join [OF bs(3) valid_small [OF ok(1)], of b]
    have val: "unat v = unat b mod 32 \<and> unat b div 32 = 6 \<and> len = 1 \<and> lb = 0x80
        \<or> unat v = unat b mod 16 \<and> unat b div 16 = 14 \<and> len = 2 \<and> lb = 0x800
        \<or> unat v = unat b mod 8 \<and> unat b div 8 = 30 \<and> len = 3 \<and> lb = 0x10000"
      using h by (auto simp: head_tests low_bits split: if_splits)
    then have "map unat (b # bs) = utf8 (unat u)"
    proof (elim disjE conjE)
      show ?thesis if "unat v = unat b mod 32" "unat b div 32 = 6" "len = 1" "lb = 0x80"
        using join(1) that bs(1,4) ok(2) by (simp add: word_less_nat_alt)
      show ?thesis if "unat v = unat b mod 16" "unat b div 16 = 14" "len = 2" "lb = 0x800"
        using join(2) that bs(1,4) ok(2) by (simp add: word_less_nat_alt)
      show ?thesis if "unat v = unat b mod 8" "unat b div 8 = 30" "len = 3" "lb = 0x10000"
        using join(3) that bs(1,4) ok(2) by (simp add: word_less_nat_alt)
    qed
    then have "utf8_bytes u = b # bs" using inj [of "b # bs"] by simp
    with ok(1) bs(2) bytes xs show ?thesis by simp
  qed
qed


lemma utf8_tail_bytes:
  "n < 0x110000 \<Longrightarrow> list_all (\<lambda>b. unat b div 64 = 2) (tl (map of_nat (utf8 n) :: bytes))"
proof -
  have "(128 + k mod 64) div 64 = 2" for k :: nat by simp
  moreover have "unat (of_nat (128 + k mod 64) :: u8) = 128 + k mod 64" for k
    by (rule unat_of_nat_small) simp
  ultimately show ?thesis by (auto simp: utf8_def simp del: of_nat_add)
qed

lemma byte_nat: "n < 256 \<Longrightarrow> unat (of_nat n :: u8) = n"
  by (rule unat_of_nat_small) simp

lemma digit_split: "x < d \<Longrightarrow> (q * d + x) mod d = x \<and> (q * d + x) div d = q" for x d q :: nat
  by (auto simp: mod_mult_self3)

lemma head_digits:
  "x < 16 \<Longrightarrow> (224 + x) div 32 = 7 \<and> (224 + x) div 16 = 14 \<and> (224 + x) mod 16 = x"
  "y < 8 \<Longrightarrow> (240 + y) div 32 = 7 \<and> (240 + y) div 16 = 15 \<and> (240 + y) div 8 = 30 \<and> (240 + y) mod 8 = y"
  "(128 + z mod 64) mod 64 = z mod 64" for x y z :: nat
proof -
  show "x < 16 \<Longrightarrow> (224 + x) div 32 = 7 \<and> (224 + x) div 16 = 14 \<and> (224 + x) mod 16 = x"
    using digit_split [of x 16 14] by (auto intro: div_nat_eqI)
  show "y < 8 \<Longrightarrow> (240 + y) div 32 = 7 \<and> (240 + y) div 16 = 15 \<and> (240 + y) div 8 = 30 \<and> (240 + y) mod 8 = y"
    using digit_split [of y 8 30] by (auto intro: div_nat_eqI)
  show "(128 + z mod 64) mod 64 = z mod 64" using digit_split [of "z mod 64" 64 2] by simp
qed

text \<open>Reading a multi-byte form.\<close>

lemma utf8_read_form:
  fixes v :: u32
  assumes bytes: "cbs_bytes m c = b # bs @ rest" and cont: "list_all (\<lambda>b. unat b div 64 = 2) bs"
    and big: "\<not> b \<le> 0x7f" and ok: "is_valid_code_point u" "\<not> u < lb"
    and head: "(if b AND 0xE0 = 0xC0 then Some (ucast (b AND 0x1F), 1, 0x80)
                   else if b AND 0xF0 = 0xE0 then Some (ucast (b AND 0x0F), 2, 0x800)
                   else if b AND 0xF8 = 0xF0 then Some (ucast (b AND 0x07), 3, 0x10000)
                   else None) = Some (v, length bs, lb)"
    and val: "unat u = tail_val (unat v) bs"
  shows "\<exists>c'. cbs_get_utf8 m c = (Some u, c') \<and> cbs_bytes m c' = rest"
proof -
  have "room v (length bs)" using head room_head [of b] by (auto split: if_splits)
  from utf8_tail_complete [OF cbs_bytes_Cons(2) [OF bytes] cont this] obtain w c' where
    t: "utf8_tail m (length bs) v (cbs_adv 1 c) = (Some w, c')" "cbs_bytes m c' = rest" "unat w = tail_val (unat v) bs"
    by blast
  have "w = u" using t(3) val by (simp add: word_unat_eq_iff)
  have "cbs_get_utf8 m c = (Some u, c')"
    unfolding cbs_get_utf8_def CBS_get_u8_eq bytes list.case prod.case option.case if_not_P [OF big] head
    using t(1) ok \<open>w = u\<close> by simp
  with t(2) show ?thesis by blast
qed

lemma utf8_complete:
  assumes ok: "is_valid_code_point u" and bytes: "cbs_bytes m c = utf8_bytes u @ rest"
  shows "\<exists>c'. cbs_get_utf8 m c = (Some u, c') \<and> cbs_bytes m c' = rest"
proof -
  define n where "n = unat u"
  note cont = utf8_tail_bytes [of n]
  have top: "n < 0x110000" using valid_small [OF ok] by (simp add: n_def)
  consider (one) "n < 0x80" | (two) "0x80 \<le> n" "n < 0x800" | (three) "0x800 \<le> n" "n < 0x10000" | (four) "0x10000 \<le> n"
    by linarith
  then show ?thesis
  proof cases
    case one
    then have "cbs_bytes m c = ucast u # rest" using bytes by (simp add: utf8_bytes_def utf8_def n_def)
    moreover have low: "unat (ucast u :: u8) = n"
      using one by (simp only: unsigned_ucast_eq n_def) (simp add: take_bit_nat_eq_self_iff)
    moreover have "(ucast (ucast u :: u8) :: u32) = u" "(ucast u :: u8) \<le> 0x7f"
      using one low by (simp_all add: word_unat_eq_iff [where 'a = 32] word_le_nat_alt n_def)
    ultimately show ?thesis using cbs_bytes_Cons(2) [of m c "ucast u" rest] by (simp add: cbs_get_utf8_def CBS_get_u8_eq)
  next
    case two
    let ?b = "of_nat (0xC0 + n div 64) :: u8"
    have h: "n div 64 < 32" using two by simp
    then have b: "unat ?b = 0xC0 + n div 64" by (intro byte_nat) simp
    have u8: "utf8 n = [0xC0 + n div 64, 0x80 + n mod 64]" using two by (simp add: utf8_def)
    show ?thesis
    proof (rule utf8_read_form [OF _ _ _ ok])
      show "cbs_bytes m c = ?b # [of_nat (0x80 + n mod 64)] @ rest"
        using bytes u8 by (simp add: utf8_bytes_def n_def [symmetric])
      show "list_all (\<lambda>b. unat b div 64 = 2) [of_nat (0x80 + n mod 64) :: u8]" using cont [OF top] u8 by simp
      show "\<not> ?b \<le> 0x7f" using b by (simp add: word_le_nat_alt del: of_nat_add)
      show "(if ?b AND 0xE0 = 0xC0 then Some (ucast (?b AND 0x1F), 1, 0x80)
                   else if ?b AND 0xF0 = 0xE0 then Some (ucast (?b AND 0x0F), 2, 0x800)
                   else if ?b AND 0xF8 = 0xF0 then Some (ucast (?b AND 0x07), 3, 0x10000)
                   else None) = Some (ucast (?b AND 0x1F), length [of_nat (0x80 + n mod 64) :: u8], 0x80)"
        using h unfolding head_tests b by simp
      show "\<not> u < 0x80" using two by (simp add: word_less_nat_alt n_def)
      have "(192 + n div 64) mod 32 = n div 64" "(128 + n mod 64) mod 64 = n mod 64"
        using h mod_mult_self2 [of "n div 64" 32 6] mod_mult_self2 [of "n mod 64" 64 2] by (simp_all add: add.commute)
      moreover have "n = n div 64 * 64 + n mod 64" by simp
      ultimately show "unat u = tail_val (unat (ucast (?b AND 0x1F) :: u32)) [of_nat (0x80 + n mod 64)]"
        using h byte_nat [of "0x80 + n mod 64"] by (simp add: low_bits b n_def [symmetric] del: of_nat_add)
    qed
  next
    case three
    let ?b = "of_nat (0xE0 + n div 4096) :: u8"
    let ?bs = "[of_nat (0x80 + n div 64 mod 64), of_nat (0x80 + n mod 64)] :: bytes"
    have h: "n div 4096 < 16" using three by simp
    then have b: "unat ?b = 0xE0 + n div 4096" by (intro byte_nat) simp
    have u8: "utf8 n = [0xE0 + n div 4096, 0x80 + n div 64 mod 64, 0x80 + n mod 64]" using three by (simp add: utf8_def)
    show ?thesis
    proof (rule utf8_read_form [OF _ _ _ ok])
      show "cbs_bytes m c = ?b # ?bs @ rest"
        using bytes u8 by (simp add: utf8_bytes_def n_def [symmetric])
      show "list_all (\<lambda>b. unat b div 64 = 2) ?bs" using cont [OF top] u8 by simp
      show "\<not> ?b \<le> 0x7f" using b by (simp add: word_le_nat_alt del: of_nat_add)
      show "(if ?b AND 0xE0 = 0xC0 then Some (ucast (?b AND 0x1F), 1, 0x80)
                   else if ?b AND 0xF0 = 0xE0 then Some (ucast (?b AND 0x0F), 2, 0x800)
                   else if ?b AND 0xF8 = 0xF0 then Some (ucast (?b AND 0x07), 3, 0x10000)
                   else None) = Some (ucast (?b AND 0x0F), length ?bs, 0x800)"
        using head_digits(1) [OF h] unfolding head_tests b by simp
      show "\<not> u < 0x800" using three by (simp add: word_less_nat_alt n_def)
      have d: "n = n div 64 * 64 + n mod 64" "n div 64 = n div 64 div 64 * 64 + n div 64 mod 64" by simp_all
      have "n div 64 div 64 = n div 4096" by (simp add: div_mult2_eq [symmetric])
      with d have "n = (n div 4096 * 64 + n div 64 mod 64) * 64 + n mod 64" by simp
      then show "unat u = tail_val (unat (ucast (?b AND 0x0F) :: u32)) ?bs"
        using head_digits(1) [OF h] byte_nat [of "0x80 + n mod 64"] byte_nat [of "0x80 + n div 64 mod 64"]
        by (simp add: low_bits b head_digits(3) n_def [symmetric] del: of_nat_add)
    qed
  next
    case four
    let ?b = "of_nat (0xF0 + n div 262144) :: u8"
    let ?bs = "[of_nat (0x80 + n div 4096 mod 64), of_nat (0x80 + n div 64 mod 64), of_nat (0x80 + n mod 64)] :: bytes"
    have h: "n div 262144 < 8" using top by simp
    then have b: "unat ?b = 0xF0 + n div 262144" by (intro byte_nat) simp
    have u8: "utf8 n = [0xF0 + n div 262144, 0x80 + n div 4096 mod 64, 0x80 + n div 64 mod 64, 0x80 + n mod 64]"
      using four by (simp add: utf8_def)
    show ?thesis
    proof (rule utf8_read_form [OF _ _ _ ok])
      show "cbs_bytes m c = ?b # ?bs @ rest"
        using bytes u8 by (simp add: utf8_bytes_def n_def [symmetric])
      show "list_all (\<lambda>b. unat b div 64 = 2) ?bs" using cont [OF top] u8 by simp
      show "\<not> ?b \<le> 0x7f" using b by (simp add: word_le_nat_alt del: of_nat_add)
      show "(if ?b AND 0xE0 = 0xC0 then Some (ucast (?b AND 0x1F), 1, 0x80)
                   else if ?b AND 0xF0 = 0xE0 then Some (ucast (?b AND 0x0F), 2, 0x800)
                   else if ?b AND 0xF8 = 0xF0 then Some (ucast (?b AND 0x07), 3, 0x10000)
                   else None) = Some (ucast (?b AND 0x07), length ?bs, 0x10000)"
        using head_digits(2) [OF h] unfolding head_tests b by simp
      show "\<not> u < 0x10000" using four by (simp add: word_less_nat_alt n_def)
      have d: "n = n div 64 * 64 + n mod 64" "n div 64 = n div 64 div 64 * 64 + n div 64 mod 64"
        "n div 64 div 64 = n div 64 div 64 div 64 * 64 + n div 64 div 64 mod 64" by simp_all
      have "n div 64 div 64 = n div 4096" "n div 64 div 64 div 64 = n div 262144"
        by (simp_all add: div_mult2_eq [symmetric])
      moreover have "n = ((n div 64 div 64 div 64 * 64 + n div 64 div 64 mod 64) * 64 + n div 64 mod 64) * 64 + n mod 64"
        using d by metis
      ultimately have "n = ((n div 262144 * 64 + n div 4096 mod 64) * 64 + n div 64 mod 64) * 64 + n mod 64" by metis
      then show "unat u = tail_val (unat (ucast (?b AND 0x07) :: u32)) ?bs"
        using head_digits(2) [OF h] byte_nat [of "0x80 + n mod 64"] byte_nat [of "0x80 + n div 64 mod 64"]
          byte_nat [of "0x80 + n div 4096 mod 64"]
        by (simp add: low_bits b head_digits(3) n_def [symmetric] del: of_nat_add)
    qed
  qed
qed

text \<open>Writing: the \<open>|\<close> of a head and its digits is their sum.\<close>

lemma or_byte:
  fixes h x :: u32
  assumes h: "h = push_bit k p" and x: "unat x < 2 ^ k" and sum: "unat h + unat x < 2 ^ 32"
  shows "(ucast (h OR x) :: u8) = of_nat (unat h + unat x)"
proof -
  have x': "x = take_bit k x"
  proof (rule word_unat_eq_iff [THEN iffD2])
    show "unat x = unat (take_bit k x)" using x by (simp only: unsigned_take_bit_eq) (simp add: take_bit_nat_eq_self)
  qed
  have "push_bit k p AND take_bit k x = 0" by (rule bit_word_eqI) (auto simp: bit_simps)
  then have "h OR x = h + x" using x' h by (simp add: disjunctive_add_eq_or)
  moreover have "unat (h + x) = unat h + unat x" using sum by (simp add: unat_plus_if')
  moreover have "(ucast (h OR x) :: u8) = of_nat (unat (h OR x))" by simp
  ultimately show ?thesis by (simp only:)
qed

lemma utf8_octets:
  fixes x :: u32
  shows "unat x < 32 \<Longrightarrow> (ucast (0xC0 OR x) :: u8) = of_nat (0xC0 + unat x)"
    "unat x < 16 \<Longrightarrow> (ucast (0xE0 OR x) :: u8) = of_nat (0xE0 + unat x)"
    "unat x < 8 \<Longrightarrow> (ucast (0xF0 OR x) :: u8) = of_nat (0xF0 + unat x)"
    "(ucast (0x80 OR (x AND 0x3F)) :: u8) = of_nat (0x80 + unat x mod 64)"
  using or_byte [of "0xC0" 5 6 x] or_byte [of "0xE0" 4 14 x] or_byte [of "0xF0" 3 30 x]
    or_byte [of "0x80" 6 2 "x AND 0x3F"] low_bits(1) [of x] mod_less_divisor [of 64 "unat x"]
  by (simp_all del: mod_less_divisor)

lemma unat_drop: "unat (drop_bit k x) = unat x div 2 ^ k" for x :: "'a::len word"
  by (simp only: unat_drop_bit_eq) (simp add: drop_bit_eq_div)

lemma utf8_written:
  assumes "is_valid_code_point u"
  shows "cbb_add_utf8 al k u = (if unat u < 0x80 then CBB_add_u8 al k (ucast u) else cbb_add_octets al k (utf8_bytes u))"
proof (rule ext)
  fix b
  have top: "unat u < 0x110000" by (rule valid_small [OF assms])
  then have d: "unat u < 0x800 \<Longrightarrow> unat u div 64 < 32" "unat u < 0x10000 \<Longrightarrow> unat u div 4096 < 16" "unat u div 262144 < 8"
    by simp_all
  note parts = utf8_octets [of "drop_bit 6 u"] utf8_octets [of "drop_bit 12 u"] utf8_octets [of "drop_bit 18 u"]
    utf8_octets(4) [of u]
  have le: "u \<le> 0x7f \<longleftrightarrow> unat u < 0x80" "u \<le> 0x7ff \<longleftrightarrow> unat u < 0x800" "u \<le> 0xffff \<longleftrightarrow> unat u < 0x10000" "u \<le> 0x10ffff"
    using top by (auto simp: word_le_nat_alt)
  show "cbb_add_utf8 al k u b = (if unat u < 0x80 then CBB_add_u8 al k (ucast u) else cbb_add_octets al k (utf8_bytes u)) b"
  proof -
    consider (one) "unat u < 0x80" | (two) "\<not> unat u < 0x80" "unat u < 0x800" | (three) "\<not> unat u < 0x800" "unat u < 0x10000"
      | (four) "\<not> unat u < 0x10000" by linarith
    then show ?thesis
    proof cases
      case one
      then show ?thesis using assms le by (simp add: cbb_add_utf8_def)
    next
      case two
      then have "utf8_bytes u = [ucast (0xC0 OR drop_bit 6 u), ucast (0x80 OR (u AND 0x3F))]"
        using parts d(1) by (simp add: utf8_bytes_def utf8_def unat_drop)
      with two show ?thesis using assms le unfolding cbb_add_utf8_def by simp
    next
      case three
      then have "utf8_bytes u = [ucast (0xE0 OR drop_bit 12 u), ucast (0x80 OR (drop_bit 6 u AND 0x3F)), ucast (0x80 OR (u AND 0x3F))]"
        using parts d(2) by (simp add: utf8_bytes_def utf8_def unat_drop)
      with three show ?thesis using assms le unfolding cbb_add_utf8_def by simp
    next
      case four
      then have "utf8_bytes u = [ucast (0xF0 OR drop_bit 18 u), ucast (0x80 OR (drop_bit 12 u AND 0x3F)),
          ucast (0x80 OR (drop_bit 6 u AND 0x3F)), ucast (0x80 OR (u AND 0x3F))]"
        using parts d(3) by (simp add: utf8_bytes_def utf8_def unat_drop)
      with four show ?thesis using assms le unfolding cbb_add_utf8_def by simp
    qed
  qed
qed

lemma utf8_ne [simp]: "utf8_bytes u \<noteq> []"
  by (simp add: utf8_bytes_def utf8_def)

lemma cbb_add_utf8_appends:
  assumes "is_valid_code_point u"
  shows "appends al k (cbb_add_utf8 al k u) (utf8_bytes u)"
proof (cases "unat u < 0x80")
  case True
  then have "utf8_bytes u = [ucast u]" by (simp add: utf8_bytes_def utf8_def)
  with True show ?thesis by (simp add: utf8_written [OF assms] CBB_add_u8_appends)
next
  case False
  then show ?thesis by (simp add: utf8_written [OF assms] cbb_add_octets_appends)
qed

lemma cbb_get_utf8_len_eq: "unat (cbb_get_utf8_len u) = length (utf8_bytes u)"
  by (simp add: cbb_get_utf8_len_def utf8_bytes_def utf8_def word_le_nat_alt)

section \<open>The fixed-width forms\<close>

lemma be_val_inj: "length xs = length ys \<Longrightarrow> be_val xs = be_val ys \<Longrightarrow> xs = ys"
proof (induction xs arbitrary: ys rule: rev_induct)
  case (snoc x xs)
  then obtain y ys' where ys: "ys = ys' @ [y]" by (cases ys rule: rev_cases) auto
  with snoc.prems(2) have e: "be_val xs * 256 + unat x = be_val ys' * 256 + unat y" by simp
  have "unat x = unat y" "be_val xs = be_val ys'"
    using arg_cong [OF e, of "\<lambda>n. n mod 256"] arg_cong [OF e, of "\<lambda>n. n div 256"] u8_bound [of x] u8_bound [of y]
    by simp_all
  with snoc.IH [of ys'] snoc.prems(1) show ?case by (simp add: ys word_unat_eq_iff)
qed simp

lemma cbs_get_u_exact:
  assumes k: "k \<le> 8"
  shows "(\<exists>c'. cbs_get_u (of_nat k) m c = (Some v, c') \<and> cbs_bytes m c' = rest) \<longleftrightarrow>
    unat v < 256 ^ k \<and> cbs_bytes m c = be_fixed k (unat v) @ rest"
proof
  let ?b = "cbs_bytes m c"
  have get: "cbs_get_u (of_nat k) m c = (if unat (cbs_len c) < k then (None, c)
      else (Some (of_nat (be_val (take k ?b))), cbs_adv k c))"
    using cbs_get_u_small [OF k, of m c] by (simp add: be_val_def)
  assume "\<exists>c'. cbs_get_u (of_nat k) m c = (Some v, c') \<and> cbs_bytes m c' = rest"
  then have long: "k \<le> length ?b" and v: "v = of_nat (be_val (take k ?b))" and r: "rest = drop k ?b"
    by (auto simp: get not_less split: if_splits)
  have "be_val (take k ?b) < 256 ^ k" using be_val_less [of "take k ?b"] long by simp
  moreover have "(256 :: nat) ^ k \<le> 256 ^ 8" using k by (intro power_increasing) simp_all
  ultimately have u: "unat v = be_val (take k ?b)" "be_val (take k ?b) < 256 ^ k" unfolding v by (simp_all add: unat_of_nat_small)
  have "be_fixed k (unat v) = take k ?b"
    by (rule be_val_inj) (use long u k be_val_be_fixed [of "unat v" k] in simp_all)
  then show "unat v < 256 ^ k \<and> ?b = be_fixed k (unat v) @ rest" using u r by simp
next
  let ?b = "cbs_bytes m c"
  have get: "cbs_get_u (of_nat k) m c = (if unat (cbs_len c) < k then (None, c)
      else (Some (of_nat (be_val (take k ?b))), cbs_adv k c))"
    using cbs_get_u_small [OF k, of m c] by (simp add: be_val_def)
  assume a: "unat v < 256 ^ k \<and> ?b = be_fixed k (unat v) @ rest"
  then have "length ?b = length (be_fixed k (unat v) @ rest)" by simp
  then have "k \<le> unat (cbs_len c)" by simp
  with a k show "\<exists>c'. cbs_get_u (of_nat k) m c = (Some v, c') \<and> cbs_bytes m c' = rest"
    by (simp add: get be_val_be_fixed cbs_bytes_adv)
qed

lemma ucast_half: "unat (ucast v :: u32) = unat v" for v :: u16
  using unsigned_less [of v, where ?'a = nat] by (simp add: unsigned_ucast_eq take_bit_nat_eq_self_iff)

lemma CBB_add_u16_appends: "appends al k (CBB_add_u16 al k v) (be_fixed 2 (unat v))"
proof -
  have "drop_bit 16 (ucast v :: u64) = 0"
    by (rule bit_word_eqI) (auto simp: bit_simps dest: bit_imp_le_length)
  moreover have "(of_nat (unat v) :: u64) = ucast v" by simp
  ultimately show ?thesis
    using cbb_add_u_appends [of 2 "ucast v" al k] by (simp add: CBB_add_u16_def [abs_def] be_fixed_def)
qed

lemma CBB_add_u32_appends: "appends al k (CBB_add_u32 al k v) (be_fixed 4 (unat v))"
proof -
  have "drop_bit 32 (ucast v :: u64) = 0"
    by (rule bit_word_eqI) (auto simp: bit_simps dest: bit_imp_le_length)
  moreover have "(of_nat (unat v) :: u64) = ucast v" by simp
  ultimately show ?thesis
    using cbb_add_u_appends [of 4 "ucast v" al k] by (simp add: CBB_add_u32_def [abs_def] be_fixed_def)
qed

lemma cbs_get_u_range: "cbs_get_u (of_nat k) m c = (Some v, c') \<Longrightarrow> k \<le> 8 \<Longrightarrow> unat v < 256 ^ k"
  using cbs_get_u_exact [of k m c v "cbs_bytes m c'"] by blast

lemma CBS_get_u16_exact:
  "(\<exists>c'. CBS_get_u16 m c = (Some v, c') \<and> cbs_bytes m c' = rest) \<longleftrightarrow> cbs_bytes m c = be_fixed 2 (unat v) @ rest"
proof -
  have small: "unat (ucast v :: u64) = unat v" "unat v < 65536"
    using unsigned_less [of v, where ?'a = nat] by (simp_all add: unsigned_ucast_eq take_bit_nat_eq_self_iff)
  have "x = ucast v \<longleftrightarrow> ucast x = v" if "unat x < 65536" for x :: u64
  proof -
    have "unat (ucast x :: u16) = unat x" using that by (simp only: unsigned_ucast_eq) (simp add: take_bit_nat_eq_self_iff)
    then show ?thesis using small by (auto simp: word_unat_eq_iff)
  qed
  then have "CBS_get_u16 m c = (Some v, c') \<longleftrightarrow> cbs_get_u (of_nat 2) m c = (Some (ucast v), c')" for c'
    using cbs_get_u_range [of 2 m c]
    by (cases "cbs_get_u 2 m c"; cases "fst (cbs_get_u 2 m c)") (auto simp: CBS_get_u16_def)
  with cbs_get_u_exact [of 2 m c "ucast v" rest] small show ?thesis by simp
qed

lemma CBS_get_u32_exact:
  "(\<exists>c'. CBS_get_u32 m c = (Some v, c') \<and> cbs_bytes m c' = rest) \<longleftrightarrow> cbs_bytes m c = be_fixed 4 (unat v) @ rest"
proof -
  have small: "unat (ucast v :: u64) = unat v" "unat v < 4294967296"
    using unsigned_less [of v, where ?'a = nat] by (simp_all add: unsigned_ucast_eq take_bit_nat_eq_self_iff)
  have "x = ucast v \<longleftrightarrow> ucast x = v" if "unat x < 4294967296" for x :: u64
  proof -
    have "unat (ucast x :: u32) = unat x" using that by (simp only: unsigned_ucast_eq) (simp add: take_bit_nat_eq_self_iff)
    then show ?thesis using small by (auto simp: word_unat_eq_iff)
  qed
  then have "CBS_get_u32 m c = (Some v, c') \<longleftrightarrow> cbs_get_u (of_nat 4) m c = (Some (ucast v), c')" for c'
    using cbs_get_u_range [of 4 m c]
    by (cases "cbs_get_u 4 m c"; cases "fst (cbs_get_u 4 m c)") (auto simp: CBS_get_u32_def)
  with cbs_get_u_exact [of 4 m c "ucast v" rest] small show ?thesis by simp
qed

section \<open>Readers and writers that belong together\<close>

locale char_codec =
  fixes add :: "allocator \<Rightarrow> nat \<Rightarrow> u32 \<Rightarrow> cbb \<Rightarrow> bool \<times> cbb"
    and get :: "mem \<Rightarrow> cbs \<Rightarrow> u32 option \<times> cbs"
    and enc :: "u32 \<Rightarrow> bytes"
    and fits :: "u32 \<Rightarrow> bool"
  assumes add_appends: "fits u \<Longrightarrow> appends al k (add al k u) (enc u)"
    and add_refuses: "\<not> fits u \<Longrightarrow> add al k u b = (False, b)"
    and get_exact: "(\<exists>c'. get m c = (Some u, c') \<and> cbs_bytes m c' = rest) \<longleftrightarrow>
      fits u \<and> cbs_bytes m c = enc u @ rest"
    and enc_ne: "enc u \<noteq> []"
begin

lemma get_sound: "get m c = (Some u, c') \<Longrightarrow> fits u \<and> cbs_bytes m c = enc u @ cbs_bytes m c'"
  using get_exact [of m c u "cbs_bytes m c'"] by blast

lemma enc_inj: "fits u \<Longrightarrow> fits v \<Longrightarrow> enc u @ xs = enc v @ ys \<Longrightarrow> length (enc u @ xs) < 2 ^ 64 \<Longrightarrow> u = v \<and> xs = ys"
proof -
  assume fu: "fits u" and fv: "fits v" and e: "enc u @ xs = enc v @ ys" and l: "length (enc u @ xs) < 2 ^ 64"
  obtain m c where mc: "cbs_bytes m c = enc u @ xs"
  proof
    show "cbs_bytes (holding (enc u @ xs)) (CBS_init 0x100 (of_nat (length (enc u @ xs)))) = enc u @ xs"
      using l holding_read [of "enc u @ xs" "length (enc u @ xs)"]
      by (simp add: unat_of_nat_small del: of_nat_add length_append)
  qed
  from get_exact [of m c u xs] get_exact [of m c v ys] show "u = v \<and> xs = ys" using fu fv e mc by auto
qed

lemma get_progress: "get m c = (Some u, c') \<Longrightarrow> unat (cbs_len c') < unat (cbs_len c)"
proof -
  assume "get m c = (Some u, c')"
  from get_sound [OF this] have "length (cbs_bytes m c) = length (enc u @ cbs_bytes m c')" by simp
  then show ?thesis using enc_ne [of u] by (cases "enc u") auto
qed

lemma get_end: "cbs_len c = 0 \<Longrightarrow> fst (get m c) = None"
  using get_progress [of m c _ "snd (get m c)"] by (cases "fst (get m c)") (auto simp: prod_eq_iff)

text \<open>A string of code points has one reading.\<close>

lemma text_inj: "list_all fits us \<Longrightarrow> list_all fits vs \<Longrightarrow> concat (map enc us) = concat (map enc vs) \<Longrightarrow>
    length (concat (map enc us)) < 2 ^ 64 \<Longrightarrow> us = vs"
proof (induction us arbitrary: vs)
  case Nil
  then show ?case using enc_ne by (cases vs) auto
next
  case (Cons u us)
  then obtain v vs' where vs: "vs = v # vs'" using enc_ne [of u] by (cases vs) auto
  have fu: "fits u" "fits v" using Cons.prems vs by simp_all
  have eq: "enc u @ concat (map enc us) = enc v @ concat (map enc vs')" using Cons.prems(3) vs by simp
  have len: "length (enc u @ concat (map enc us)) < 2 ^ 64" using Cons.prems(4) by simp
  from enc_inj [OF fu eq len] have "u = v" "concat (map enc us) = concat (map enc vs')" by simp_all
  with Cons.IH [of vs'] Cons.prems vs show ?case by simp
qed

lemma add_all_appends: "list_all fits us \<Longrightarrow>
    here al k (foldr (\<lambda>u f. cbb_then (add al k u) f) us (\<lambda>c. (True, c))) (concat (map enc us))"
  by (induction us) (auto intro!: here_nop here_then [OF appends_here [OF add_appends]])

end

interpretation utf8: char_codec cbb_add_utf8 cbs_get_utf8 utf8_bytes is_valid_code_point
proof unfold_locales
  show "appends al k (cbb_add_utf8 al k u) (utf8_bytes u)" if "is_valid_code_point u" for al k u
    by (rule cbb_add_utf8_appends [OF that])
  show "cbb_add_utf8 al k u b = (False, b)" if "\<not> is_valid_code_point u" for al k u b
    using that by (simp add: cbb_add_utf8_def)
  show "(\<exists>c'. cbs_get_utf8 m c = (Some u, c') \<and> cbs_bytes m c' = rest) \<longleftrightarrow>
      is_valid_code_point u \<and> cbs_bytes m c = utf8_bytes u @ rest" for m c u rest
    using utf8_sound utf8_complete by blast
qed simp

interpretation latin1: char_codec cbb_add_latin1 cbs_get_latin1 "\<lambda>u. [ucast u]" "\<lambda>u. u \<le> 0xff"
proof unfold_locales
  show "appends al k (cbb_add_latin1 al k u) [ucast u]" if "u \<le> 0xff" for al k u
  proof -
    have "cbb_add_latin1 al k u = CBB_add_u8 al k (ucast u)" using that by (intro ext) (simp add: cbb_add_latin1_def)
    then show ?thesis by (simp add: CBB_add_u8_appends)
  qed
  show "(\<exists>c'. cbs_get_latin1 m c = (Some u, c') \<and> cbs_bytes m c' = rest) \<longleftrightarrow>
      u \<le> 0xff \<and> cbs_bytes m c = [ucast u] @ rest" for m c u rest
  proof -
    have "u = ucast b \<longleftrightarrow> u \<le> 0xff \<and> ucast u = b" for b :: u8
    proof
      assume u: "u = ucast b"
      have "ucast (ucast b :: u32) = b" by (rule bit_word_eqI) (auto simp: bit_simps)
      with u show "u \<le> 0xff \<and> ucast u = b" using u8_bound [of b] by (simp add: word_le_nat_alt)
    next
      assume a: "u \<le> 0xff \<and> ucast u = b"
      have "unat (ucast u :: u8) = unat u"
        using conjunct1 [OF a] by (simp only: unsigned_ucast_eq) (simp add: take_bit_nat_eq_self_iff word_le_nat_alt)
      moreover have "unat (ucast (ucast u :: u8) :: u32) = unat (ucast u :: u8)" by (rule byte_to_u32)
      ultimately show "u = ucast b" using a by (simp add: word_unat_eq_iff [where 'a = 32])
    qed
    note byte = this
    show ?thesis
    proof (cases "cbs_bytes m c")
      case (Cons b xs)
      have "cbs_get_latin1 m c = (Some u, c') \<longleftrightarrow> u = ucast b \<and> c' = cbs_adv 1 c" for c'
        by (auto simp: cbs_get_latin1_def CBS_get_u8_eq Cons)
      then show ?thesis using byte [of b] cbs_bytes_Cons(2) [OF Cons] by (auto simp only: Cons append.simps list.inject)
    qed (simp add: cbs_get_latin1_def CBS_get_u8_eq)
  qed
qed (simp_all add: cbb_add_latin1_def)

interpretation ucs2: char_codec cbb_add_ucs2_be cbs_get_ucs2_be "\<lambda>u. be_fixed 2 (unat u)"
  "\<lambda>u. u \<le> 0xffff \<and> is_valid_code_point u"
proof unfold_locales
  have low: "unat (ucast u :: u16) = unat u" if "u \<le> 0xffff" for u :: u32
    using that by (simp only: unsigned_ucast_eq) (simp add: take_bit_nat_eq_self_iff word_le_nat_alt)
  show "appends al k (cbb_add_ucs2_be al k u) (be_fixed 2 (unat u))" if "u \<le> 0xffff \<and> is_valid_code_point u" for al k u
  proof -
    have "cbb_add_ucs2_be al k u = CBB_add_u16 al k (ucast u)" using that by (intro ext) (simp add: cbb_add_ucs2_be_def)
    with CBB_add_u16_appends [of al k "ucast u"] low that show ?thesis by simp
  qed
  show "(\<exists>c'. cbs_get_ucs2_be m c = (Some u, c') \<and> cbs_bytes m c' = rest) \<longleftrightarrow>
      (u \<le> 0xffff \<and> is_valid_code_point u) \<and> cbs_bytes m c = be_fixed 2 (unat u) @ rest" for m c u rest
  proof -
    have "u = ucast v \<longleftrightarrow> u \<le> 0xffff \<and> v = ucast u" for v :: u16
    proof
      have v: "unat (ucast v :: u32) = unat v" "unat v < 65536"
        using unsigned_less [of v, where ?'a = nat] by (simp_all add: ucast_half)
      assume u: "u = ucast v"
      then have le: "u \<le> 0xffff" using v by (simp add: word_le_nat_alt)
      moreover have "v = ucast u" unfolding u by (rule bit_word_eqI) (auto simp: bit_simps)
      ultimately show "u \<le> 0xffff \<and> v = ucast u" by blast
    next
      assume a: "u \<le> 0xffff \<and> v = ucast u"
      have "unat (ucast v :: u32) = unat v" by (rule ucast_half)
      moreover have "unat (ucast u :: u16) = unat u" by (rule low [OF conjunct1 [OF a]])
      ultimately show "u = ucast v" using a by (simp add: word_unat_eq_iff [where 'a = 32])
    qed
    note half = this
    have "cbs_get_ucs2_be m c = (Some u, c') \<longleftrightarrow>
        u \<le> 0xffff \<and> is_valid_code_point u \<and> CBS_get_u16 m c = (Some (ucast u), c')" for c'
    proof (cases "fst (CBS_get_u16 m c)")
      case None
      then show ?thesis by (cases "CBS_get_u16 m c") (simp add: cbs_get_ucs2_be_def)
    next
      case (Some v)
      then obtain c1 where g: "CBS_get_u16 m c = (Some v, c1)" by (metis prod.collapse)
      have "cbs_get_ucs2_be m c = (Some u, c') \<longleftrightarrow> is_valid_code_point (ucast v) \<and> u = ucast v \<and> c1 = c'"
        by (auto simp: cbs_get_ucs2_be_def g)
      moreover have "CBS_get_u16 m c = (Some (ucast u), c') \<longleftrightarrow> v = ucast u \<and> c1 = c'" by (simp add: g)
      ultimately show ?thesis using half [of v] by metis
    qed
    then show ?thesis using CBS_get_u16_exact [of m c "ucast u" rest] low [of u] by auto
  qed
  show "be_fixed 2 (unat u) \<noteq> []" for u :: u32
    by (simp flip: length_0_conv)
qed (auto simp: cbb_add_ucs2_be_def)

interpretation utf32: char_codec cbb_add_utf32_be cbs_get_utf32_be "\<lambda>u. be_fixed 4 (unat u)" is_valid_code_point
proof unfold_locales
  show "appends al k (cbb_add_utf32_be al k u) (be_fixed 4 (unat u))" if "is_valid_code_point u" for al k u
  proof -
    have "cbb_add_utf32_be al k u = CBB_add_u32 al k u" using that by (intro ext) (simp add: cbb_add_utf32_be_def)
    with CBB_add_u32_appends [of al k u] show ?thesis by simp
  qed
  show "(\<exists>c'. cbs_get_utf32_be m c = (Some u, c') \<and> cbs_bytes m c' = rest) \<longleftrightarrow>
      is_valid_code_point u \<and> cbs_bytes m c = be_fixed 4 (unat u) @ rest" for m c u rest
  proof -
    have "cbs_get_utf32_be m c = (Some u, c') \<longleftrightarrow> is_valid_code_point u \<and> CBS_get_u32 m c = (Some u, c')" for c'
      by (auto simp: cbs_get_utf32_be_def split: prod.split option.split)
    then show ?thesis using CBS_get_u32_exact [of m c u rest] by auto
  qed
  show "be_fixed 4 (unat u) \<noteq> []" for u :: u32
    by (simp flip: length_0_conv)
qed (auto simp: cbb_add_utf32_be_def)

section \<open>Properties\<close>

section \<open>Unicode characters\<close>

text \<open>
  The code points that stand for characters, as numbers: the 17 planes of 65536, without the surrogates, the 32
  noncharacters of the block at 0xFDD0, and the last two code points of every plane.
\<close>

definition unicode_character :: "nat \<Rightarrow> bool" where
  "unicode_character n \<longleftrightarrow>
     n < 17 * 65536 \<and> n \<notin> {0xD800..<0xE000} \<and> n \<notin> {0xFDD0..<0xFDF0} \<and> n mod 65536 < 65534"

lemma last_of_plane: "u AND 0xfffe = 0xfffe \<longleftrightarrow> 65534 \<le> unat u mod 65536" for u :: u32
proof -
  have m: "(0xfffe :: u32) = push_bit 1 (mask 15)" by (simp add: mask_eq_exp_minus_1 push_bit_eq_mult)
  have "u AND push_bit k (mask n) = push_bit k (take_bit n (drop_bit k u))" for k n
    by (rule bit_word_eqI) (auto simp: bit_simps)
  then have "u AND 0xfffe = push_bit 1 (take_bit 15 (drop_bit 1 u))" unfolding m .
  moreover have "unat (take_bit 15 (drop_bit 1 u)) = unat u div 2 mod 32768"
    unfolding unsigned_take_bit_eq unat_drop_bit_eq by (simp add: take_bit_eq_mod drop_bit_eq_div)
  ultimately have "unat (u AND 0xfffe) = 2 * (unat u div 2 mod 32768)"
    by (simp add: push_bit_eq_mult unat_word_ariths)
  moreover have "unat u mod 65536 = 2 * (unat u div 2 mod 32768) + unat u mod 2"
    using mod_mult2_eq [of "unat u" 2 32768] by simp
  moreover have "unat u mod 2 < 2" "unat u div 2 mod 32768 < 32768" by simp_all
  moreover have "unat (0xfffe :: u32) = 65534" by simp
  moreover have "a = 65534 \<longleftrightarrow> 65534 \<le> x" if "a = 2 * d" "x = 2 * d + r" "r < 2" "d < 32768" for a d r x :: nat
    using that by presburger
  ultimately show ?thesis unfolding word_unat_eq_iff by metis
qed

lemma valid_code_point_iff: "is_valid_code_point u \<longleftrightarrow> unicode_character (unat u)"
  unfolding is_valid_code_point_def last_of_plane unicode_character_def
  by (auto simp: word_le_nat_alt word_less_nat_alt)

text \<open>
  C21. The reader accepts exactly the shortest UTF-8 form of the code points that stand for characters (neither
  surrogates nor noncharacters), and leaves what follows.
\<close>

theorem cbs_get_utf8_exact:
  "(\<exists>c'. cbs_get_utf8 m c = (Some u, c') \<and> cbs_bytes m c' = rest) \<longleftrightarrow>
     unicode_character (unat u) \<and> cbs_bytes m c = map of_nat (utf8 (unat u)) @ rest"
  unfolding valid_code_point_iff [symmetric] using utf8.get_exact by (simp add: utf8_bytes_def)

end
