(* ===== verification/CbsBer.thy ===== *)
theory CbsBer
  imports CbbTyped CbbSetOf
begin

text \<open>
  BER to DER (crypto/bytestring/ber.c): the walk that decides whether a conversion is needed, the
  conversion, and implicitly tagged strings.

  The recursion depth is a natural number, as it stays below \<open>kMaxDepth + 2\<close>. \<open>cbs_find_ber\<close>
  always descends into a shorter string and is a terminating function. \<open>cbs_convert_ber\<close> goes on
  with the input that its recursive call has left, so it is defined as a partial function, with
  \<open>None\<close> for a run that does not end, and then shown to return on every input.
\<close>

section \<open>Looking for BER\<close>

definition kMaxDepth :: nat where
  "kMaxDepth = 2048"

definition is_string_type :: "u32 \<Rightarrow> bool" where
  "is_string_type tag = (tag AND NOT CBS_ASN1_CONSTRUCTED \<in>
     {0x4, 0xc, 0x12, 0x13, 0x14, 0x16, 0x19, 0x1a, 0x1b, 0x1c, 0x1e, 0x15})"

lemma CBS_get_any_ber_asn1_element_eq:
  "CBS_get_any_ber_asn1_element m c =
     (case element_parse True (cbs_bytes m c) of
        None \<Rightarrow> (None, c)
      | Some (t, hl, n, ber) \<Rightarrow> (Some (CBS_init (cbs_data c) (of_nat n), t, of_nat hl, ber), cbs_adv n c))"
  by (simp add: CBS_get_any_ber_asn1_element_def parse_element_eq)

lemma ber_element_len:
  assumes "CBS_get_any_ber_asn1_element m c = (Some (contents, t, hl, ber), c')"
  shows "unat (cbs_len c') < unat (cbs_len c)"
    and "CBS_skip hl contents = (Some u, body) \<Longrightarrow> unat (cbs_len body) < unat (cbs_len c)"
proof -
  obtain h n where p: "element_parse True (cbs_bytes m c) = Some (t, h, n, ber)" and c': "c' = cbs_adv n c"
    and e: "contents = CBS_init (cbs_data c) (of_nat n)" "hl = of_nat h"
    using assms by (auto simp: CBS_get_any_ber_asn1_element_eq split: option.splits)
  note b = element_parse_bounds [OF p]
  show "unat (cbs_len c') < unat (cbs_len c)" using b by (simp add: c' unat_sub_of_nat)
  assume s: "CBS_skip hl contents = (Some u, body)"
  have n: "n < 2 ^ 64" using b(4) by simp
  from s skip_header [OF b(1) n, of "cbs_data c"] have "body = CBS_init (cbs_data c + of_nat h) (of_nat (n - h))"
    by (simp add: e)
  moreover have "unat (of_nat (n - h) :: u64) = n - h" using n by (intro unat_of_nat_small) simp
  ultimately show "unat (cbs_len body) < unat (cbs_len c)"
    using b(1,2,3) by (simp add: CBS_init_def del: of_nat_diff)
qed

lemma double_less: "a < b \<Longrightarrow> Suc (2 * a) < 2 * b"
  by simp

text \<open>
  \<open>find_ber_loop\<close> is the \<open>while\<close> loop at \<open>depth\<close> with \<open>in\<close> and \<open>*ber_found\<close> as they are at
  its head. The loop does not look at \<open>*ber_found\<close> after the recursive call.
\<close>

function (sequential) cbs_find_ber :: "mem \<Rightarrow> nat \<Rightarrow> cbs \<Rightarrow> bool option"
  and find_ber_loop :: "mem \<Rightarrow> nat \<Rightarrow> cbs \<Rightarrow> bool \<Rightarrow> bool option" where
  "cbs_find_ber m depth orig_in =
     (if depth > kMaxDepth then None
      else find_ber_loop m depth (CBS_init (cbs_data orig_in) (cbs_len orig_in)) False)"
| "find_ber_loop m depth c ber_found =
     (if cbs_len c = 0 then Some ber_found
      else (case CBS_get_any_ber_asn1_element m c of
              (None, _) \<Rightarrow> None
            | (Some (contents, tag, header_len, ber_found), c') \<Rightarrow>
                if ber_found then Some True
                else if tag AND CBS_ASN1_CONSTRUCTED \<noteq> 0 then
                  (if is_string_type tag then Some True
                   else (case CBS_skip header_len contents of
                           (None, _) \<Rightarrow> None
                         | (Some _, contents') \<Rightarrow>
                             (case cbs_find_ber m (depth + 1) contents' of
                                None \<Rightarrow> None
                              | Some ber_found \<Rightarrow> find_ber_loop m depth c' ber_found)))
                else find_ber_loop m depth c' ber_found))"
  by pat_completeness auto
termination
proof (relation "measure (case_sum (\<lambda>(m, d, c). 2 * unat (cbs_len c) + 1) (\<lambda>(m, d, c, f). 2 * unat (cbs_len c)))")
qed (auto simp: CBS_init_def dest: ber_element_len(1) [OF sym] intro!: double_less elim: ber_element_len(2) [OF sym sym])

declare cbs_find_ber.simps [simp del] find_ber_loop.simps [simp del]

section \<open>The conversion\<close>

definition is_eoc :: "mem \<Rightarrow> u64 \<Rightarrow> cbs \<Rightarrow> bool" where
  "is_eoc m header_len contents =
     (header_len = 2 \<and> cbs_len contents = 2 \<and> OPENSSL_memcmp (mem_read m (cbs_data contents) 2) [0, 0] = 0)"

text \<open>
  The tag under which the children of an element are concatenated, and the level of the \<open>CBB\<close>
  that takes its contents: \<open>out\<close> itself inside a constructed string, else a new child.
\<close>

definition child_string_tag :: "u32 \<Rightarrow> u32 \<Rightarrow> u32" where
  "child_string_tag string_tag tag =
     (if string_tag = 0 \<and> tag AND CBS_ASN1_CONSTRUCTED \<noteq> 0 \<and> is_string_type tag
      then tag AND NOT CBS_ASN1_CONSTRUCTED else string_tag)"

definition contents_level :: "u32 \<Rightarrow> nat \<Rightarrow> nat" where
  "contents_level string_tag k = (if string_tag \<noteq> 0 then k else Suc k)"

definition convert_open :: "allocator \<Rightarrow> nat \<Rightarrow> u32 \<Rightarrow> u32 \<Rightarrow> cbb \<Rightarrow> bool \<times> cbb" where
  "convert_open al k string_tag tag out =
     (if string_tag \<noteq> 0 then (tag AND NOT CBS_ASN1_CONSTRUCTED = string_tag, out)
      else (let out_tag = (if tag AND CBS_ASN1_CONSTRUCTED \<noteq> 0 \<and> is_string_type tag
                           then tag AND NOT CBS_ASN1_CONSTRUCTED else tag)
            in CBB_add_asn1 al k out_tag out))"

definition is_indefinite :: "mem \<Rightarrow> u64 \<Rightarrow> cbs \<Rightarrow> bool" where
  "is_indefinite m header_len contents =
     (cbs_len contents = header_len \<and> header_len > 0 \<and> m (cbs_data contents + (header_len - 1)) = 0x80)"

text \<open>The result is the return value, \<open>in\<close> and \<open>out\<close> after the call.\<close>

partial_function (option) cbs_convert_ber ::
  "allocator \<Rightarrow> mem \<Rightarrow> u32 \<Rightarrow> bool \<Rightarrow> nat \<Rightarrow> nat \<Rightarrow> cbs \<Rightarrow> cbb \<Rightarrow> (bool \<times> cbs \<times> cbb) option" where
  "cbs_convert_ber al m string_tag looking_for_eoc depth k c out =
     (if depth > kMaxDepth then Some (False, c, out)
      else if cbs_len c = 0 then Some (\<not> looking_for_eoc, c, out)
      else (case CBS_get_any_ber_asn1_element m c of
              (None, c') \<Rightarrow> Some (False, c', out)
            | (Some (contents, tag, header_len, _), c') \<Rightarrow>
                if is_eoc m header_len contents then Some (looking_for_eoc, c', out)
                else (case convert_open al k string_tag tag out of (opened, out1) \<Rightarrow>
                  if \<not> opened then Some (False, c', out1)
                  else if is_indefinite m header_len contents then
                    Option.bind
                      (cbs_convert_ber al m (child_string_tag string_tag tag) True (depth + 1)
                         (contents_level string_tag k) c' out1)
                      (\<lambda>(ok, c2, out2).
                         if \<not> ok then Some (False, c2, out2)
                         else (case CBB_flush al k out2 of (flushed, out3) \<Rightarrow>
                           if \<not> flushed then Some (False, c2, out3)
                           else cbs_convert_ber al m string_tag looking_for_eoc depth k c2 out3))
                  else (case CBS_skip header_len contents of
                          (None, _) \<Rightarrow> Some (False, c', out1)
                        | (Some _, body) \<Rightarrow>
                            Option.bind
                              (if tag AND CBS_ASN1_CONSTRUCTED \<noteq> 0 then
                                 Option.bind
                                   (cbs_convert_ber al m (child_string_tag string_tag tag) False (depth + 1)
                                      (contents_level string_tag k) body out1)
                                   (\<lambda>(ok, _, out2). Some (ok, out2))
                               else Some (CBB_add_bytes al (contents_level string_tag k) (cbs_bytes m body) out1))
                              (\<lambda>(ok, out2).
                                 if \<not> ok then Some (False, c', out2)
                                 else (case CBB_flush al k out2 of (flushed, out3) \<Rightarrow>
                                   if \<not> flushed then Some (False, c', out3)
                                   else cbs_convert_ber al m string_tag looking_for_eoc depth k c' out3))))))"

text \<open>Either \<open>out\<close> points into the input and \<open>*out_storage\<close> is \<open>NULL\<close>, or it is the storage.\<close>

datatype ber_out = In_place cbs | Converted bytes

definition CBS_asn1_ber_to_der :: "allocator \<Rightarrow> mem \<Rightarrow> cbs \<Rightarrow> (ber_out option \<times> cbs) option" where
  "CBS_asn1_ber_to_der al m c =
     (case cbs_find_ber m 0 c of
        None \<Rightarrow> Some (None, c)
      | Some conversion_needed \<Rightarrow>
          if \<not> conversion_needed then
            (case CBS_get_any_asn1_element m c of
               (None, c') \<Rightarrow> Some (None, c')
             | (Some (out, _, _), c') \<Rightarrow> Some (Some (In_place out), c'))
          else
            (case CBB_init al (cbs_len c) of
               None \<Rightarrow> Some (None, c)
             | Some cbb \<Rightarrow>
                 Option.bind (cbs_convert_ber al m 0 False 0 0 c cbb)
                   (\<lambda>(ok, c', cbb').
                      if \<not> ok then Some (None, c')
                      else (case CBB_finish al True 0 cbb' of
                              (None, _) \<Rightarrow> Some (None, c')
                            | (Some data, _) \<Rightarrow> Some (Some (Converted data), c')))))"

section \<open>Implicitly tagged strings\<close>

lemma CBS_get_asn1_len: "CBS_get_asn1 t m c = (Some x, c') \<Longrightarrow> unat (cbs_len c') < unat (cbs_len c)"
  using CBS_get_any_asn1_element_len
  by (auto simp: CBS_get_asn1_def cbs_get_asn1_def split: prod.splits option.splits if_splits)

function string_chunks :: "allocator \<Rightarrow> mem \<Rightarrow> u32 \<Rightarrow> cbs \<Rightarrow> cbb \<Rightarrow> bool \<times> cbb" where
  "string_chunks al m inner_tag child out =
     (if cbs_len child > 0 then
        (case CBS_get_asn1 inner_tag m child of
           (None, _) \<Rightarrow> (False, out)
         | (Some chunk, child') \<Rightarrow>
             (case CBB_add_bytes al 0 (cbs_bytes m chunk) out of
                (False, out') \<Rightarrow> (False, out')
              | (True, out') \<Rightarrow> string_chunks al m inner_tag child' out'))
      else (True, out))"
  by pat_completeness auto
termination
  by (relation "measure (\<lambda>(al, m, t, child, out). unat (cbs_len child))") (auto dest!: CBS_get_asn1_len [OF sym])

declare string_chunks.simps [simp del]

definition CBS_get_asn1_implicit_string ::
  "allocator \<Rightarrow> u32 \<Rightarrow> u32 \<Rightarrow> mem \<Rightarrow> cbs \<Rightarrow> ber_out option \<times> cbs" where
  "CBS_get_asn1_implicit_string al outer_tag inner_tag m c =
     (if CBS_peek_asn1_tag outer_tag m c
      then apfst (map_option In_place) (CBS_get_asn1 outer_tag m c)
      else (case CBB_init al (cbs_len c) of
              None \<Rightarrow> (None, c)
            | Some result \<Rightarrow>
                (case CBS_get_asn1 (outer_tag OR CBS_ASN1_CONSTRUCTED) m c of
                   (None, c') \<Rightarrow> (None, c')
                 | (Some child, c') \<Rightarrow>
                     (case string_chunks al m inner_tag child result of
                        (False, _) \<Rightarrow> (None, c')
                      | (True, result') \<Rightarrow>
                          (map_option Converted (fst (CBB_finish al True 0 result')), c')))))"

section \<open>The conversion returns\<close>

lemma convert_returns:
  "\<exists>ok c' out'. cbs_convert_ber al m s eoc d k c out = Some (ok, c', out') \<and> unat (cbs_len c') \<le> unat (cbs_len c)"
proof (induction "unat (cbs_len c)" arbitrary: s eoc d k c out rule: less_induct)
  case less
  note IH = less
  show ?case
  proof (cases "d > kMaxDepth \<or> cbs_len c = 0")
    case True
    then show ?thesis by (auto simp: cbs_convert_ber.simps [of al m s eoc d k c out])
  next
    case False
    obtain e c1 where g: "CBS_get_any_ber_asn1_element m c = (e, c1)" by (cases "CBS_get_any_ber_asn1_element m c")
    show ?thesis
    proof (cases e)
      case None
      with g have "c1 = c" by (auto simp: CBS_get_any_ber_asn1_element_eq split: option.splits)
      with None g False show ?thesis by (auto simp: cbs_convert_ber.simps [of al m s eoc d k c out])
    next
      case (Some el)
      obtain contents t hl ber where el: "el = (contents, t, hl, ber)" by (cases el) auto
      note g = g [unfolded Some el]
      note len = ber_element_len [OF g]
      obtain opened out1 where o: "convert_open al k s t out = (opened, out1)"
        by (cases "convert_open al k s t out")
      let ?s = "child_string_tag s t" and ?k = "contents_level s k"
      note unfold = cbs_convert_ber.simps [of al m s eoc d k c out] g o
      show ?thesis
      proof (cases "is_eoc m hl contents \<or> \<not> opened")
        case True
        with False len show ?thesis by (auto simp: unfold)
      next
        case going: False
        show ?thesis
        proof (cases "is_indefinite m hl contents")
          case True
          obtain ok c2 out2 where r: "cbs_convert_ber al m ?s True (d + 1) ?k c1 out1 = Some (ok, c2, out2)"
            and l2: "unat (cbs_len c2) \<le> unat (cbs_len c1)" using IH [OF len(1)] by blast
          obtain fl out3 where f: "CBB_flush al k out2 = (fl, out3)" by (cases "CBB_flush al k out2")
          obtain ok' c4 out4 where "cbs_convert_ber al m s eoc d k c2 out3 = Some (ok', c4, out4)"
            "unat (cbs_len c4) \<le> unat (cbs_len c2)" using IH [of c2] l2 len(1) by fastforce
          with False going True r f l2 len(1) show ?thesis by (auto simp: unfold)
        next
          case definite: False
          obtain u body where sk: "CBS_skip hl contents = (u, body)" by (cases "CBS_skip hl contents")
          show ?thesis
          proof (cases u)
            case None
            with False going definite sk len(1) show ?thesis by (auto simp: unfold)
          next
            case (Some u')
            note sk = sk [unfolded Some]
            obtain ok out2 where b: "(if t AND CBS_ASN1_CONSTRUCTED \<noteq> 0 then
                Option.bind (cbs_convert_ber al m ?s False (d + 1) ?k body out1) (\<lambda>(ok, _, out2). Some (ok, out2))
                else Some (CBB_add_bytes al ?k (cbs_bytes m body) out1)) = Some (ok, out2)"
              using IH [OF len(2) [OF sk], of ?s False "d + 1" ?k out1]
              by (cases "t AND CBS_ASN1_CONSTRUCTED \<noteq> 0"; cases "CBB_add_bytes al ?k (cbs_bytes m body) out1")
                fastforce+
            obtain fl out3 where f: "CBB_flush al k out2 = (fl, out3)" by (cases "CBB_flush al k out2")
            obtain ok' c4 out4 where "cbs_convert_ber al m s eoc d k c1 out3 = Some (ok', c4, out4)"
              "unat (cbs_len c4) \<le> unat (cbs_len c1)" using IH [OF len(1)] by blast
            with False going definite sk b f len(1) show ?thesis by (auto simp: unfold)
          qed
        qed
      qed
    qed
  qed
qed

end
