(* ===== verification/CbsBerTree.thy ===== *)
theory CbsBerTree
  imports CbsBer
begin

text \<open>
  What the conversion of BER to DER is for: BER values as trees, the octets that encode one, the
  DER encoding of the same value, and the proof that \<open>cbs_convert_ber\<close> takes the one to the other.
\<close>

section \<open>BER values\<close>

text \<open>
  A value as its sender encoded it. A definite element keeps the length octets it was sent with,
  which BER does not fix.
\<close>

datatype ber_tree =
    Primitive u32 bytes bytes
  | Definite u32 bytes "ber_tree list"
  | Indefinite u32 "ber_tree list"

fun ber_octets :: "ber_tree \<Rightarrow> bytes" where
  "ber_octets (Primitive t lo v) = der_tag t @ lo @ v"
| "ber_octets (Definite t lo xs) = der_tag t @ lo @ concat (map ber_octets xs)"
| "ber_octets (Indefinite t xs) = der_tag t @ 0x80 # concat (map ber_octets xs) @ [0, 0]"

definition ber_length :: "bytes \<Rightarrow> nat \<Rightarrow> bool" where
  "ber_length lo n = (case length_parse lo of None \<Rightarrow> False | Some (n', k, _) \<Rightarrow> n' = n \<and> k = length lo)"

text \<open>
  The types of X.680 and X.690 whose values are strings of octets, by their universal numbers: OCTET STRING,
  UTF8String, and the strings numbered 18 to 22 and 25 to 30 (NumericString to IA5String, GraphicString to BMPString)
  but 29. BIT STRING is not among them. A tag has its class in the bits 30 and 31, and its number below the bit 29.
\<close>

definition octet_string_types :: "nat list" where
  "octet_string_types = [4, 12] @ [18..<23] @ [25..<29] @ [30]"

definition octet_string_tag :: "u32 \<Rightarrow> bool" where
  "octet_string_tag t \<longleftrightarrow> unat t div 2 ^ 30 = 0 \<and> unat t mod 2 ^ 29 \<in> set octet_string_types"

lemma clear_constructed: "unat (t AND NOT CBS_ASN1_CONSTRUCTED) = unat t mod 2 ^ 29 + 2 ^ 30 * (unat t div 2 ^ 30)" for t :: u32
proof -
  have c: "CBS_ASN1_CONSTRUCTED = push_bit 29 (1 :: u32)" by (simp add: push_bit_eq_mult)
  have "t AND NOT (push_bit 29 1) = take_bit 29 t OR push_bit 30 (drop_bit 30 t)"
  proof (rule bit_word_eqI)
    fix n
    show "bit (t AND NOT (push_bit 29 1)) n \<longleftrightarrow> bit (take_bit 29 t OR push_bit 30 (drop_bit 30 t)) n" if "n < LENGTH(32)"
      using that by (cases "n < 30") (auto simp: bit_simps less_Suc_eq simp del: push_bit_of_1)
  qed
  also have "\<dots> = take_bit 29 t + push_bit 30 (drop_bit 30 t)"
    by (rule disjunctive_add_eq_or [symmetric]) (rule bit_word_eqI, auto simp: bit_simps)
  finally have "t AND NOT CBS_ASN1_CONSTRUCTED = take_bit 29 t + push_bit 30 (drop_bit 30 t)" unfolding c .
  moreover have "unat (take_bit 29 t) = unat t mod 2 ^ 29" unfolding unsigned_take_bit_eq by (simp add: take_bit_eq_mod)
  moreover have "unat (push_bit 30 (drop_bit 30 t)) = 2 ^ 30 * (unat t div 2 ^ 30)"
  proof -
    have "unat (drop_bit 30 t) = unat t div 2 ^ 30" unfolding unat_drop_bit_eq by (simp add: drop_bit_eq_div)
    moreover have "unat t div 2 ^ 30 < 4" using unsigned_less [of t, where 'a = nat] by (simp add: less_mult_imp_div_less)
    ultimately show ?thesis by (simp add: push_bit_eq_mult unat_word_ariths)
  qed
  moreover have "unat t mod 2 ^ 29 + 2 ^ 30 * (unat t div 2 ^ 30) < 2 ^ 32"
  proof -
    have "unat t div 2 ^ 30 < 4" using unsigned_less [of t, where 'a = nat] by (simp add: less_mult_imp_div_less)
    moreover have "unat t mod 2 ^ 29 < 2 ^ 29" by simp
    ultimately show ?thesis by simp
  qed
  ultimately show ?thesis by (simp add: unat_plus_if')
qed

lemma octet_string_tag_code [simp]: "octet_string_tag t \<longleftrightarrow> is_string_type t"
proof -
  have e: "octet_string_types = [4, 12, 18, 19, 20, 21, 22, 25, 26, 27, 28, 30]" by code_simp
  have "n mod 2 ^ 29 + 2 ^ 30 * (n div 2 ^ 30) \<in> S \<longleftrightarrow> n div 2 ^ 30 = 0 \<and> n mod 2 ^ 29 \<in> S" if S: "\<forall>x\<in>S. x < 2 ^ 29" for S and n :: nat
  proof (cases "n div 2 ^ 30 = 0")
    case False
    then have "2 ^ 29 \<le> n mod 2 ^ 29 + 2 ^ 30 * (n div 2 ^ 30)" by (cases "n div 2 ^ 30") auto
    with S False show ?thesis by auto
  qed simp
  from this [of "set octet_string_types" "unat t"] have
    "unat (t AND NOT CBS_ASN1_CONSTRUCTED) \<in> set octet_string_types \<longleftrightarrow> octet_string_tag t"
    unfolding clear_constructed octet_string_tag_def by (simp add: e)
  then show ?thesis unfolding e is_string_type_def by (auto simp: word_unat_eq_iff)
qed

text \<open>The tag of the fragments inside an element with tag \<open>t\<close>, when it is a fragment of a string with tag \<open>s\<close>.\<close>

definition fragment_tag :: "u32 \<Rightarrow> u32 \<Rightarrow> u32" where
  "fragment_tag s t = (if s = 0 \<and> t AND CBS_ASN1_CONSTRUCTED \<noteq> 0 \<and> octet_string_tag t then t AND NOT CBS_ASN1_CONSTRUCTED else s)"

lemma fragment_tag_code [simp]: "fragment_tag s t = child_string_tag s t"
  by (simp add: fragment_tag_def child_string_tag_def)

text \<open>
  The trees that are BER. \<open>s\<close> is the tag of the constructed string an element is a fragment of, 0
  outside of one. The end-of-contents octets are not an element.
\<close>

fun ber_ok :: "u32 \<Rightarrow> ber_tree \<Rightarrow> bool" where
  "ber_ok s (Primitive t lo v) \<longleftrightarrow>
     t AND CBS_ASN1_CONSTRUCTED = 0 \<and> (s \<noteq> 0 \<longrightarrow> t = s) \<and> ber_length lo (length v) \<and> \<not> (t = 0 \<and> lo = [0])"
| "ber_ok s (Definite t lo xs) \<longleftrightarrow>
     t AND CBS_ASN1_CONSTRUCTED \<noteq> 0 \<and> (s \<noteq> 0 \<longrightarrow> t AND NOT CBS_ASN1_CONSTRUCTED = s)
     \<and> ber_length lo (length (concat (map ber_octets xs))) \<and> list_all (ber_ok (fragment_tag s t)) xs"
| "ber_ok s (Indefinite t xs) \<longleftrightarrow>
     t AND CBS_ASN1_CONSTRUCTED \<noteq> 0 \<and> (s \<noteq> 0 \<longrightarrow> t AND NOT CBS_ASN1_CONSTRUCTED = s)
     \<and> list_all (ber_ok (fragment_tag s t)) xs"

fun nested_within :: "nat \<Rightarrow> ber_tree \<Rightarrow> bool" where
  "nested_within n (Primitive t lo v) = True"
| "nested_within n (Definite t lo xs) = (n \<noteq> 0 \<and> list_all (nested_within (n - 1)) xs)"
| "nested_within n (Indefinite t xs) = (n \<noteq> 0 \<and> list_all (nested_within (n - 1)) xs)"

text \<open>The bytes of a string, and the DER encoding of a value.\<close>

fun string_bytes :: "ber_tree \<Rightarrow> bytes" where
  "string_bytes (Primitive t lo v) = v"
| "string_bytes (Definite t lo xs) = concat (map string_bytes xs)"
| "string_bytes (Indefinite t xs) = concat (map string_bytes xs)"

definition der_constructed :: "u32 \<Rightarrow> bytes \<Rightarrow> bytes \<Rightarrow> bytes" where
  "der_constructed t str body =
     (if octet_string_tag t then der_element (t AND NOT CBS_ASN1_CONSTRUCTED) str else der_element t body)"

fun der_of :: "ber_tree \<Rightarrow> bytes" where
  "der_of (Primitive t lo v) = der_element t v"
| "der_of (Definite t lo xs) = der_constructed t (concat (map string_bytes xs)) (concat (map der_of xs))"
| "der_of (Indefinite t xs) = der_constructed t (concat (map string_bytes xs)) (concat (map der_of xs))"

text \<open>What an element contributes to the output.\<close>

definition written :: "u32 \<Rightarrow> ber_tree \<Rightarrow> bytes" where
  "written s x = (if s \<noteq> 0 then string_bytes x else der_of x)"

definition enclosed :: "u32 \<Rightarrow> u32 \<Rightarrow> bytes \<Rightarrow> bytes" where
  "enclosed s t v =
     (if s \<noteq> 0 then v
      else der_element (if t AND CBS_ASN1_CONSTRUCTED \<noteq> 0 \<and> is_string_type t
                        then t AND NOT CBS_ASN1_CONSTRUCTED else t) v)"

lemma not_constructed:
  assumes "t AND CBS_ASN1_CONSTRUCTED = 0"
  shows "t AND NOT CBS_ASN1_CONSTRUCTED = t"
proof -
  have "t = t AND (CBS_ASN1_CONSTRUCTED OR NOT CBS_ASN1_CONSTRUCTED)" by simp
  also have "\<dots> = (t AND CBS_ASN1_CONSTRUCTED) OR (t AND NOT CBS_ASN1_CONSTRUCTED)"
    by (rule bit.conj_disj_distrib)
  finally show ?thesis using assms by simp
qed

lemma string_type_nonzero: "is_string_type t \<Longrightarrow> t AND NOT CBS_ASN1_CONSTRUCTED \<noteq> 0"
  by (auto simp: is_string_type_def)

lemma child_string_tag_zero: "s \<noteq> 0 \<Longrightarrow> child_string_tag s t = s"
  by (simp add: child_string_tag_def)

lemma written_simps:
  "t AND CBS_ASN1_CONSTRUCTED = 0 \<Longrightarrow> written s (Primitive t lo v) = enclosed s t v"
  "t AND CBS_ASN1_CONSTRUCTED \<noteq> 0 \<Longrightarrow>
     written s (Definite t lo xs) = enclosed s t (concat (map (written (child_string_tag s t)) xs))"
  "t AND CBS_ASN1_CONSTRUCTED \<noteq> 0 \<Longrightarrow>
     written s (Indefinite t xs) = enclosed s t (concat (map (written (child_string_tag s t)) xs))"
  using string_type_nonzero [of t]
  by (simp_all add: written_def [abs_def] enclosed_def der_constructed_def child_string_tag_def)

lemma enclosed_length: "length v \<le> length (enclosed s t v)"
  by (simp add: enclosed_def der_element_def)

section \<open>Reading an element\<close>

text \<open>Length octets that DER would have written shorter.\<close>

definition overlong :: "bytes \<Rightarrow> bool" where
  "overlong lo = (case length_parse lo of None \<Rightarrow> False | Some (_, _, b) \<Rightarrow> b)"

lemma length_parse_app: "ber_length lo n \<Longrightarrow> length_parse (lo @ ys) = Some (n, length lo, overlong lo)"
  by (auto simp: ber_length_def overlong_def length_parse_def Let_def split: list.splits if_splits)

lemma ber_length_ne:
  assumes "ber_length lo n"
  shows "lo \<noteq> []" "hd lo \<noteq> 0x80"
  using assms by (auto simp: ber_length_def length_parse_def Let_def split: list.splits if_splits)

lemma ber_length_zero:
  assumes "ber_length lo 0"
  shows "last lo = 0"
proof -
  obtain b ys where lo: "lo = b # ys" using ber_length_ne(1) [OF assms] by (cases lo) auto
  show ?thesis
  proof (cases "unat b < 128")
    case True
    then have "unat b = 0" "ys = []" using assms by (auto simp: lo ber_length_def length_parse_def)
    then show ?thesis by (simp add: lo unat_eq_zero)
  next
    case False
    then have z: "digits_val 256 (map unat ys) = 0" and ne: "ys \<noteq> []"
      using assms by (auto simp: lo ber_length_def length_parse_def Let_def split: if_splits)
    then obtain zs z' where ys: "ys = zs @ [z']" by (cases ys rule: rev_cases) auto
    with z have "unat z' = 0" by simp
    then show ?thesis by (simp add: lo ys unat_eq_zero)
  qed
qed

lemma definite_parse:
  assumes "ber_length lo (length v)"
  shows "element_parse True (der_tag t @ lo @ v @ rest)
    = Some (t, length (der_tag t) + length lo, length (der_tag t) + length lo + length v, overlong lo)"
proof -
  note ne = ber_length_ne [OF assms]
  have "length_parse (lo @ v @ rest) = Some (length v, length lo, overlong lo)"
    by (rule length_parse_app [OF assms])
  moreover have "(der_tag t @ lo @ v @ rest) ! length (der_tag t) \<noteq> 0x80"
    using ne by (simp add: nth_append hd_conv_nth)
  ultimately show ?thesis
    using tag_parse_complete [of t "lo @ v @ rest"] by (simp add: element_parse_def)
qed

lemma indefinite_parse:
  "t AND CBS_ASN1_CONSTRUCTED \<noteq> 0 \<Longrightarrow> element_parse True (der_tag t @ 0x80 # rest)
     = Some (t, Suc (length (der_tag t)), Suc (length (der_tag t)), True)"
  using tag_parse_complete [of t "0x80 # rest"] by (simp add: element_parse_def nth_append)

lemma der_tag_zero: "der_tag t = [0] \<Longrightarrow> t = 0"
proof -
  assume "der_tag t = [0]"
  then have "tag_parse [0] = Some (t, 1)" using tag_parse_complete [of t "[]"] by simp
  then show ?thesis by (simp add: tag_parse_def tag_join_def)
qed

lemma memcmp_two: "length xs = 2 \<Longrightarrow> OPENSSL_memcmp xs [0, 0] = 0 \<longleftrightarrow> xs = [0, 0]"
  by (cases xs; cases "tl xs") auto

lemma is_eoc_bytes:
  assumes "hl \<le> n" "n \<le> unat (cbs_len c)"
  shows "is_eoc m (of_nat hl) (CBS_init (cbs_data c) (of_nat n)) \<longleftrightarrow> hl = 2 \<and> n = 2 \<and> take 2 (cbs_bytes m c) = [0, 0]"
proof -
  have small: "n < 2 ^ 64" "hl < 2 ^ 64"
    using assms unsigned_less [of "cbs_len c", where 'a = nat] by simp_all
  have two: "(of_nat j :: u64) = 2 \<longleftrightarrow> j = 2" if "j < 2 ^ 64" for j
    using that by (simp add: word_unat_eq_iff u64_nat)
  have "mem_read m (cbs_data c) 2 = take 2 (cbs_bytes m c)" if "n = 2"
    using cbs_bytes_prefix [of 2 c m] assms that by simp
  then show ?thesis
    using memcmp_two [of "take 2 (cbs_bytes m c)"] assms
    by (auto simp: is_eoc_def CBS_init_def two [OF small(1)] two [OF small(2)])
qed

lemma is_indefinite_bytes:
  assumes "0 < hl" "hl \<le> n" "n \<le> unat (cbs_len c)"
  shows "is_indefinite m (of_nat hl) (CBS_init (cbs_data c) (of_nat n))
    \<longleftrightarrow> hl = n \<and> cbs_bytes m c ! (hl - 1) = 0x80"
proof -
  have small: "n < 2 ^ 64" "hl < 2 ^ 64"
    using assms unsigned_less [of "cbs_len c", where 'a = nat] by simp_all
  then have "(of_nat n :: u64) = of_nat hl \<longleftrightarrow> n = hl" by (metis u64_nat)
  moreover have "(of_nat hl :: u64) > 0" using assms small u64_nat [of hl] by (simp add: word_less_nat_alt)
  moreover have "(of_nat hl - 1 :: u64) = of_nat (hl - 1)" using assms by (simp add: of_nat_diff)
  moreover have "m (cbs_data c + of_nat (hl - 1)) = cbs_bytes m c ! (hl - 1)"
    using assms by (simp add: cbs_bytes_def)
  ultimately show ?thesis by (auto simp: is_indefinite_def CBS_init_def)
qed

section \<open>Writing an element\<close>

lemma cbb_flush_here:
  assumes "cbb_rep al L out lv y" "length (levels_bytes lv) + length y \<le> L"
  obtains out' where "CBB_flush al (length lv) out = (True, out')" "cbb_rep al L out' lv y"
  using appendsE [OF CBB_flush_appends assms(1), of "length lv"] assms(2) by auto

lemma convert_opens:
  assumes rep: "cbb_rep al L out lv y" and s: "s \<noteq> 0 \<longrightarrow> t AND NOT CBS_ASN1_CONSTRUCTED = s"
    and len: "length (levels_bytes lv) + length y + length (enclosed s t v) \<le> L" "length (enclosed s t v) \<le> 0xfffffffe"
  obtains out1 lv' y' where "convert_open al (length lv) s t out = (True, out1)" "cbb_rep al L out1 lv' y'"
    "length lv' = contents_level s (length lv)" "length (levels_bytes lv') + length y' + length v \<le> L"
    "\<And>out2. cbb_rep al L out2 lv' (y' @ v) \<Longrightarrow>
       \<exists>out3. CBB_flush al (length lv) out2 = (True, out3) \<and> cbb_rep al L out3 lv (y @ enclosed s t v)"
proof (cases "s = 0")
  case False
  then have e: "enclosed s t v = v" by (simp add: enclosed_def)
  have fl: "\<exists>out3. CBB_flush al (length lv) out2 = (True, out3) \<and> cbb_rep al L out3 lv (y @ enclosed s t v)"
    if "cbb_rep al L out2 lv (y @ v)" for out2
    using cbb_flush_here [OF that] len(1) e by (metis length_append add.assoc)
  show ?thesis
    by (rule that [of out lv y]) (use False s rep len e fl in \<open>simp_all add: convert_open_def contents_level_def\<close>)
next
  case True
  define u where "u = (if t AND CBS_ASN1_CONSTRUCTED \<noteq> 0 \<and> is_string_type t
    then t AND NOT CBS_ASN1_CONSTRUCTED else t)"
  have e: "enclosed s t v = der_element u v" using True by (simp add: enclosed_def u_def)
  have small: "length v \<le> 0xfffffffe" using len(2) enclosed_length [of v s t] by simp
  have one: "1 \<le> length (der_length (length v))" by (simp add: der_length_def)
  have "length (levels_bytes lv) + length y + length (der_tag u) + 1 \<le> L"
    using len(1) one by (simp add: e der_element_def der_header_def)
  then obtain out1 fr where o: "CBB_add_asn1 al (length lv) u out = (True, out1)" "fr_is_asn1 fr"
    "unat (fr_len_len fr) = 1" "cbb_rep al L out1 (lv @ [(y @ der_tag u, fr)]) []"
    using CBB_add_asn1_opens [of al "length lv" u, unfolded opens_def, rule_format, of L out lv y] rep by auto
  have fl: "\<exists>out3. CBB_flush al (length lv) out2 = (True, out3) \<and> cbb_rep al L out3 lv (y @ enclosed s t v)"
    if r: "cbb_rep al L out2 (lv @ [(y @ der_tag u, fr)]) v" for out2
  proof -
    have pfx: "len_prefix fr (length v) = der_length (length v)" "len_fits fr (length v)"
      using o(2) small by (simp_all add: len_prefix_def len_fits_def)
    from appendsE [OF CBB_flush_appends r, of "length lv"] len(1) pfx obtain out3 where
      "CBB_flush al (length lv) out2 = (True, out3)" "cbb_rep al L out3 lv ((y @ der_tag u) @ der_length (length v) @ v)"
      by (auto simp: e der_element_def der_header_def)
    then show ?thesis by (simp add: e der_element_def der_header_def)
  qed
  have "convert_open al (length lv) s t out = (True, out1)"
    using True o(1) by (simp add: convert_open_def u_def Let_def)
  moreover have "length (levels_bytes (lv @ [(y @ der_tag u, fr)])) + length [] + length v \<le> L"
    using len(1) one o(3) by (simp add: e der_element_def der_header_def levels_bytes_append)
  ultimately show ?thesis
    using that [of out1 "lv @ [(y @ der_tag u, fr)]" "[]"] o(4) fl True by (simp add: contents_level_def)
qed

text \<open>One turn of the loop, on an element that is not the end of contents.\<close>

lemma convert_definite:
  assumes "d \<le> kMaxDepth" and p: "element_parse True (cbs_bytes m c) = Some (t, hl, n, b)"
    and "\<not> (hl = 2 \<and> n = 2 \<and> take 2 (cbs_bytes m c) = [0, 0])"
    and "\<not> (hl = n \<and> cbs_bytes m c ! (hl - 1) = 0x80)"
    and o: "convert_open al k s t out = (True, out1)"
    and body: "(if t AND CBS_ASN1_CONSTRUCTED \<noteq> 0 then
        Option.bind (cbs_convert_ber al m (child_string_tag s t) False (d + 1) (contents_level s k)
          (CBS_init (cbs_data c + of_nat hl) (of_nat (n - hl))) out1) (\<lambda>(ok, _, out2). Some (ok, out2))
      else Some (CBB_add_bytes al (contents_level s k)
        (cbs_bytes m (CBS_init (cbs_data c + of_nat hl) (of_nat (n - hl)))) out1)) = Some (True, out2)"
    and fl: "CBB_flush al k out2 = (True, out3)"
  shows "cbs_convert_ber al m s eoc d k c out = cbs_convert_ber al m s eoc d k (cbs_adv n c) out3"
proof -
  note e = element_parse_bounds [OF p]
  have n: "n \<le> unat (cbs_len c)" using e(2) by simp
  have "n < 2 ^ 64" using e(4) by simp
  note sk = skip_header [OF e(1) this, of "cbs_data c"]
  have "cbs_len c \<noteq> 0" using e n by auto
  moreover have "CBS_get_any_ber_asn1_element m c =
      (Some (CBS_init (cbs_data c) (of_nat n), t, of_nat hl, b), cbs_adv n c)"
    using p by (simp add: CBS_get_any_ber_asn1_element_eq)
  moreover have "\<not> is_eoc m (of_nat hl) (CBS_init (cbs_data c) (of_nat n))"
    "\<not> is_indefinite m (of_nat hl) (CBS_init (cbs_data c) (of_nat n))"
    using is_eoc_bytes [OF e(1) n, of m] is_indefinite_bytes [OF e(3,1) n, of m] assms(3,4) by blast+
  ultimately show ?thesis
    using assms(1) o body fl by (subst cbs_convert_ber.simps) (simp add: sk del: of_nat_diff)
qed

lemma convert_indefinite:
  assumes "d \<le> kMaxDepth" and p: "element_parse True (cbs_bytes m c) = Some (t, n, n, b)"
    and last_byte: "cbs_bytes m c ! (n - 1) = 0x80" and "\<not> (n = 2 \<and> take 2 (cbs_bytes m c) = [0, 0])"
    and o: "convert_open al k s t out = (True, out1)"
    and body: "cbs_convert_ber al m (child_string_tag s t) True (d + 1) (contents_level s k) (cbs_adv n c) out1
      = Some (True, c2, out2)"
    and fl: "CBB_flush al k out2 = (True, out3)"
  shows "cbs_convert_ber al m s eoc d k c out = cbs_convert_ber al m s eoc d k c2 out3"
proof -
  note e = element_parse_bounds [OF p]
  have n: "n \<le> unat (cbs_len c)" using e(2) by simp
  have "cbs_len c \<noteq> 0" using e n by auto
  moreover have "CBS_get_any_ber_asn1_element m c =
      (Some (CBS_init (cbs_data c) (of_nat n), t, of_nat n, b), cbs_adv n c)"
    using p by (simp add: CBS_get_any_ber_asn1_element_eq)
  moreover have "\<not> is_eoc m (of_nat n) (CBS_init (cbs_data c) (of_nat n))"
    "is_indefinite m (of_nat n) (CBS_init (cbs_data c) (of_nat n))"
    using is_eoc_bytes [OF e(1) n, of m] is_indefinite_bytes [OF e(3,1) n, of m] last_byte assms(4) by blast+
  ultimately show ?thesis
    using assms(1) o body fl by (subst cbs_convert_ber.simps) simp
qed

lemma convert_end: "d \<le> kMaxDepth \<Longrightarrow> cbs_bytes m c = [] \<Longrightarrow> cbs_convert_ber al m s eoc d k c out = Some (\<not> eoc, c, out)"
  using cbs_bytes_empty [of m c] by (simp add: cbs_convert_ber.simps [of al m s eoc d k c])

lemma convert_eoc:
  assumes "d \<le> kMaxDepth" "cbs_bytes m c = [0, 0] @ rest"
  shows "cbs_convert_ber al m s eoc d k c out = Some (eoc, cbs_adv 2 c, out)"
proof -
  have p: "element_parse True (cbs_bytes m c) = Some (0, 2, 2, False)"
    by (simp add: assms(2) element_parse_def tag_parse_def tag_join_def length_parse_def)
  note e = element_parse_bounds [OF p]
  have n: "2 \<le> unat (cbs_len c)" using e(2) by simp
  have "CBS_get_any_ber_asn1_element m c = (Some (CBS_init (cbs_data c) 2, 0, 2, False), cbs_adv 2 c)"
    using p by (simp add: CBS_get_any_ber_asn1_element_eq)
  moreover have "cbs_len c \<noteq> 0" using n by auto
  ultimately show ?thesis
    using assms is_eoc_bytes [OF e(1) n, of m] by (subst cbs_convert_ber.simps) simp
qed

section \<open>Converting trees\<close>

definition elements_convert :: "allocator \<Rightarrow> mem \<Rightarrow> ber_tree list \<Rightarrow> bool" where
  "elements_convert al m xs \<longleftrightarrow> (\<forall>s eoc d c rest L out lv y.
     list_all (ber_ok s) xs \<and> list_all (nested_within (kMaxDepth - d)) xs \<and> d \<le> kMaxDepth
     \<and> cbs_bytes m c = concat (map ber_octets xs) @ rest \<and> cbb_rep al L out lv y
     \<and> length (levels_bytes lv) + length y + length (concat (map (written s) xs)) \<le> L
     \<and> length (concat (map (written s) xs)) \<le> 0xfffffffe \<longrightarrow>
     (\<exists>out'. cbs_convert_ber al m s eoc d (length lv) c out
          = cbs_convert_ber al m s eoc d (length lv) (cbs_adv (length (concat (map ber_octets xs))) c) out'
        \<and> cbb_rep al L out' lv (y @ concat (map (written s) xs))))"

lemma elements_convertD:
  assumes "elements_convert al m xs" "list_all (ber_ok s) xs" "list_all (nested_within (kMaxDepth - d)) xs"
    "d \<le> kMaxDepth" "cbs_bytes m c = concat (map ber_octets xs) @ rest" "cbb_rep al L out lv y"
    "length (levels_bytes lv) + length y + length (concat (map (written s) xs)) \<le> L"
    "length (concat (map (written s) xs)) \<le> 0xfffffffe"
  obtains out' where "cbs_convert_ber al m s eoc d (length lv) c out
      = cbs_convert_ber al m s eoc d (length lv) (cbs_adv (length (concat (map ber_octets xs))) c) out'"
    "cbb_rep al L out' lv (y @ concat (map (written s) xs))"
  using assms unfolding elements_convert_def by blast

text \<open>A single element; the induction over trees goes through its children.\<close>

definition element_converts :: "allocator \<Rightarrow> mem \<Rightarrow> ber_tree \<Rightarrow> bool" where
  "element_converts al m x \<longleftrightarrow> (\<forall>s eoc d c rest L out lv y.
     ber_ok s x \<and> nested_within (kMaxDepth - d) x \<and> d \<le> kMaxDepth
     \<and> cbs_bytes m c = ber_octets x @ rest \<and> cbb_rep al L out lv y
     \<and> length (levels_bytes lv) + length y + length (written s x) \<le> L \<and> length (written s x) \<le> 0xfffffffe \<longrightarrow>
     (\<exists>out'. cbs_convert_ber al m s eoc d (length lv) c out
          = cbs_convert_ber al m s eoc d (length lv) (cbs_adv (length (ber_octets x)) c) out'
        \<and> cbb_rep al L out' lv (y @ written s x)))"

lemma definite_not_eoc:
  assumes "ber_length lo (length v)" "\<not> (t = 0 \<and> lo = [0])" "xs = der_tag t @ lo @ v @ rest"
  shows "\<not> (length (der_tag t) + length lo = 2 \<and> length (der_tag t) + length lo + length v = 2 \<and> take 2 xs = [0, 0])"
    and "\<not> (length (der_tag t) + length lo = length (der_tag t) + length lo + length v
      \<and> xs ! (length (der_tag t) + length lo - 1) = 0x80)"
proof -
  have ne: "der_tag t \<noteq> []" "lo \<noteq> []"
    using tag_parse_complete [of t "[]"] ber_length_ne(1) [OF assms(1)] by (auto simp: tag_parse_def)
  show "\<not> (length (der_tag t) + length lo = 2 \<and> length (der_tag t) + length lo + length v = 2 \<and> take 2 xs = [0, 0])"
  proof
    assume a: "length (der_tag t) + length lo = 2 \<and> length (der_tag t) + length lo + length v = 2 \<and> take 2 xs = [0, 0]"
    have "0 < length (der_tag t)" "0 < length lo" using ne by simp_all
    then have "length (der_tag t) = 1" "length lo = 1" using a by linarith+
    then obtain p q where "der_tag t = [p]" "lo = [q]" by (metis One_nat_def length_0_conv length_Suc_conv)
    then have "der_tag t = [0]" "lo = [0]" using a assms(3) by simp_all
    with assms(2) der_tag_zero show False by blast
  qed
  have "xs ! (length (der_tag t) + length lo - 1) = last lo" if "v = []"
  proof -
    obtain q lo' where q: "lo = lo' @ [q]" using ne(2) by (cases lo rule: rev_cases) auto
    have "xs = (der_tag t @ lo') @ q # rest" by (simp add: assms(3) q that)
    moreover have "length (der_tag t) + length lo - 1 = length (der_tag t @ lo')" by (simp add: q)
    ultimately show ?thesis by (simp only: nth_append_length q last_snoc)
  qed
  moreover have "last lo = 0" if "v = []" using ber_length_zero assms(1) that by simp
  ultimately show "\<not> (length (der_tag t) + length lo = length (der_tag t) + length lo + length v
      \<and> xs ! (length (der_tag t) + length lo - 1) = 0x80)" by auto
qed

lemma primitive_converts: "element_converts al m (Primitive t lo v)"
  unfolding element_converts_def
proof (intro allI impI; elim conjE)
  fix s eoc d c rest L out lv y
  let ?x = "Primitive t lo v" and ?hl = "length (der_tag t) + length lo"
  assume ok: "ber_ok s ?x" and d: "d \<le> kMaxDepth" and bytes: "cbs_bytes m c = ber_octets ?x @ rest"
    and rep: "cbb_rep al L out lv y" and len: "length (levels_bytes lv) + length y + length (written s ?x) \<le> L"
      "length (written s ?x) \<le> 0xfffffffe"
  have t: "t AND CBS_ASN1_CONSTRUCTED = 0" and st: "s \<noteq> 0 \<longrightarrow> t AND NOT CBS_ASN1_CONSTRUCTED = s"
    and lo: "ber_length lo (length v)" and ne: "\<not> (t = 0 \<and> lo = [0])" using ok not_constructed [of t] by auto
  note w = written_simps(1) [OF t, of s lo v]
  have xs: "cbs_bytes m c = der_tag t @ lo @ v @ rest" using bytes by simp
  have p: "element_parse True (cbs_bytes m c) = Some (t, ?hl, ?hl + length v, overlong lo)"
    unfolding xs by (rule definite_parse [OF lo])
  note e = element_parse_bounds [OF p]
  have n: "?hl + length v \<le> unat (cbs_len c)" using e(2) by simp
  have body: "cbs_bytes m (CBS_init (cbs_data c + of_nat ?hl) (of_nat (?hl + length v - ?hl))) = v"
    unfolding content_bytes [OF e(1) n, of m] xs by simp
  obtain out1 lv' y' where o: "convert_open al (length lv) s t out = (True, out1)" "cbb_rep al L out1 lv' y'"
    "length lv' = contents_level s (length lv)" "length (levels_bytes lv') + length y' + length v \<le> L"
    "\<And>out2. cbb_rep al L out2 lv' (y' @ v) \<Longrightarrow>
       \<exists>out3. CBB_flush al (length lv) out2 = (True, out3) \<and> cbb_rep al L out3 lv (y @ enclosed s t v)"
    using convert_opens [OF rep st, of v] len w by metis
  obtain out2 where a: "CBB_add_bytes al (length lv') v out1 = (True, out2)" "cbb_rep al L out2 lv' (y' @ v)"
    using appendsE [OF CBB_add_bytes_appends o(2), of "length lv'" v] o(4) by auto
  from o(5) [OF a(2)] obtain out3 where f: "CBB_flush al (length lv) out2 = (True, out3)"
    "cbb_rep al L out3 lv (y @ enclosed s t v)" by blast
  have "cbs_convert_ber al m s eoc d (length lv) c out
      = cbs_convert_ber al m s eoc d (length lv) (cbs_adv (?hl + length v) c) out3"
    by (rule convert_definite [OF d p definite_not_eoc [OF lo ne xs] o(1) _ f(1)])
      (simp only: t body a(1) o(3) [symmetric] simp_thms if_False)
  then show "\<exists>out'. cbs_convert_ber al m s eoc d (length lv) c out
          = cbs_convert_ber al m s eoc d (length lv) (cbs_adv (length (ber_octets ?x)) c) out'
        \<and> cbb_rep al L out' lv (y @ written s ?x)"
    using f(2) w by (auto simp: add.assoc)
qed

lemma definite_converts:
  assumes below: "elements_convert al m xs"
  shows "element_converts al m (Definite t lo xs)"
  unfolding element_converts_def
proof (intro allI impI; elim conjE)
  fix s eoc d c rest L out lv y
  let ?x = "Definite t lo xs" and ?hl = "length (der_tag t) + length lo" and ?v = "concat (map ber_octets xs)"
  let ?s = "child_string_tag s t" and ?w = "concat (map (written (child_string_tag s t)) xs)"
  assume ok: "ber_ok s ?x" and nest: "nested_within (kMaxDepth - d) ?x" and d: "d \<le> kMaxDepth"
    and bytes: "cbs_bytes m c = ber_octets ?x @ rest"
    and rep: "cbb_rep al L out lv y" and len: "length (levels_bytes lv) + length y + length (written s ?x) \<le> L"
      "length (written s ?x) \<le> 0xfffffffe"
  have t: "t AND CBS_ASN1_CONSTRUCTED \<noteq> 0" and st: "s \<noteq> 0 \<longrightarrow> t AND NOT CBS_ASN1_CONSTRUCTED = s"
    and lo: "ber_length lo (length ?v)" and sub: "list_all (ber_ok ?s) xs" using ok by simp_all
  have ne: "\<not> (t = 0 \<and> lo = [0])" using t by auto
  have d1: "d + 1 \<le> kMaxDepth" "list_all (nested_within (kMaxDepth - (d + 1))) xs" using nest by auto
  note w = written_simps(2) [OF t, of s lo xs]
  have xs: "cbs_bytes m c = der_tag t @ lo @ ?v @ rest" using bytes by simp
  have p: "element_parse True (cbs_bytes m c) = Some (t, ?hl, ?hl + length ?v, overlong lo)"
    unfolding xs by (rule definite_parse [OF lo])
  note e = element_parse_bounds [OF p]
  have n: "?hl + length ?v \<le> unat (cbs_len c)" using e(2) by (simp only: length_cbs_bytes)
  let ?body = "CBS_init (cbs_data c + of_nat ?hl) (of_nat (?hl + length ?v - ?hl))"
  have body: "cbs_bytes m ?body = ?v @ []" unfolding content_bytes [OF e(1) n, of m] xs by simp
  obtain out1 lv' y' where o: "convert_open al (length lv) s t out = (True, out1)" "cbb_rep al L out1 lv' y'"
    "length lv' = contents_level s (length lv)" "length (levels_bytes lv') + length y' + length ?w \<le> L"
    "\<And>out2. cbb_rep al L out2 lv' (y' @ ?w) \<Longrightarrow>
       \<exists>out3. CBB_flush al (length lv) out2 = (True, out3) \<and> cbb_rep al L out3 lv (y @ enclosed s t ?w)"
    using convert_opens [OF rep st, of ?w] len w by metis
  have wl: "length ?w \<le> 0xfffffffe" using len(2) enclosed_length [of ?w s t] w by simp
  obtain out2 where a: "cbs_convert_ber al m ?s False (d + 1) (length lv') ?body out1
      = cbs_convert_ber al m ?s False (d + 1) (length lv') (cbs_adv (length ?v) ?body) out2"
    "cbb_rep al L out2 lv' (y' @ ?w)"
    by (rule elements_convertD [OF below sub d1(2,1) body o(2,4) wl])
  have "length ?v \<le> unat (cbs_len ?body)" using body by (metis length_cbs_bytes append_Nil2 order_refl)
  then have "cbs_bytes m (cbs_adv (length ?v) ?body) = []" using body by simp
  note ended = convert_end [OF d1(1) this, of al ?s False "length lv'" out2]
  from o(5) [OF a(2)] obtain out3 where f: "CBB_flush al (length lv) out2 = (True, out3)"
    "cbb_rep al L out3 lv (y @ enclosed s t ?w)" by blast
  have "cbs_convert_ber al m s eoc d (length lv) c out
      = cbs_convert_ber al m s eoc d (length lv) (cbs_adv (?hl + length ?v) c) out3"
    by (rule convert_definite [OF d p definite_not_eoc [OF lo ne xs] o(1) _ f(1)])
      (simp only: t a(1) ended o(3) [symmetric] simp_thms if_True Option.bind.simps prod.case not_False_eq_True)
  then show "\<exists>out'. cbs_convert_ber al m s eoc d (length lv) c out
          = cbs_convert_ber al m s eoc d (length lv) (cbs_adv (length (ber_octets ?x)) c) out'
        \<and> cbb_rep al L out' lv (y @ written s ?x)"
    using f(2) w by (auto simp: add.assoc)
qed

lemma indefinite_converts:
  assumes below: "elements_convert al m xs"
  shows "element_converts al m (Indefinite t xs)"
  unfolding element_converts_def
proof (intro allI impI; elim conjE)
  fix s eoc d c rest L out lv y
  let ?x = "Indefinite t xs" and ?n = "Suc (length (der_tag t))" and ?v = "concat (map ber_octets xs)"
  let ?s = "child_string_tag s t" and ?w = "concat (map (written (child_string_tag s t)) xs)"
  assume ok: "ber_ok s ?x" and nest: "nested_within (kMaxDepth - d) ?x" and d: "d \<le> kMaxDepth"
    and bytes: "cbs_bytes m c = ber_octets ?x @ rest"
    and rep: "cbb_rep al L out lv y" and len: "length (levels_bytes lv) + length y + length (written s ?x) \<le> L"
      "length (written s ?x) \<le> 0xfffffffe"
  have t: "t AND CBS_ASN1_CONSTRUCTED \<noteq> 0" and st: "s \<noteq> 0 \<longrightarrow> t AND NOT CBS_ASN1_CONSTRUCTED = s"
    and sub: "list_all (ber_ok ?s) xs" using ok by simp_all
  have d1: "d + 1 \<le> kMaxDepth" "list_all (nested_within (kMaxDepth - (d + 1))) xs" using nest by auto
  note w = written_simps(3) [OF t, of s xs]
  have xs: "cbs_bytes m c = der_tag t @ 0x80 # ?v @ [0, 0] @ rest" using bytes by simp
  have p: "element_parse True (cbs_bytes m c) = Some (t, ?n, ?n, True)"
    unfolding xs by (rule indefinite_parse [OF t])
  have n: "?n + length ?v + 2 \<le> unat (cbs_len c)" using arg_cong [OF xs, of length] by simp
  then have body: "cbs_bytes m (cbs_adv ?n c) = ?v @ [0, 0] @ rest" by (simp add: xs)
  have last_byte: "cbs_bytes m c ! (?n - 1) = 0x80" by (simp add: xs nth_append)
  have "\<not> (?n = 2 \<and> take 2 (cbs_bytes m c) = [0, 0])"
  proof
    assume a: "?n = 2 \<and> take 2 (cbs_bytes m c) = [0, 0]"
    then obtain q where "der_tag t = [q]" by (cases "der_tag t") auto
    with a xs show False by simp
  qed
  note no_eoc = this
  obtain out1 lv' y' where o: "convert_open al (length lv) s t out = (True, out1)" "cbb_rep al L out1 lv' y'"
    "length lv' = contents_level s (length lv)" "length (levels_bytes lv') + length y' + length ?w \<le> L"
    "\<And>out2. cbb_rep al L out2 lv' (y' @ ?w) \<Longrightarrow>
       \<exists>out3. CBB_flush al (length lv) out2 = (True, out3) \<and> cbb_rep al L out3 lv (y @ enclosed s t ?w)"
    using convert_opens [OF rep st, of ?w] len w by metis
  have wl: "length ?w \<le> 0xfffffffe" using len(2) enclosed_length [of ?w s t] w by simp
  obtain out2 where a: "cbs_convert_ber al m ?s True (d + 1) (length lv') (cbs_adv ?n c) out1
      = cbs_convert_ber al m ?s True (d + 1) (length lv') (cbs_adv (length ?v) (cbs_adv ?n c)) out2"
    "cbb_rep al L out2 lv' (y' @ ?w)"
    by (rule elements_convertD [OF below sub d1(2,1) body o(2,4) wl])
  have "cbs_bytes m (cbs_adv (length ?v) (cbs_adv ?n c)) = [0, 0] @ rest"
    using n by (simp add: xs)
  note eoc_read = convert_eoc [OF d1(1) this, of al ?s True "length lv'" out2]
  from o(5) [OF a(2)] obtain out3 where f: "CBB_flush al (length lv) out2 = (True, out3)"
    "cbb_rep al L out3 lv (y @ enclosed s t ?w)" by blast
  have "cbs_convert_ber al m s eoc d (length lv) c out
      = cbs_convert_ber al m s eoc d (length lv) (cbs_adv 2 (cbs_adv (length ?v) (cbs_adv ?n c))) out3"
    by (rule convert_indefinite [OF d p last_byte no_eoc o(1) _ f(1)]) (simp only: a(1) eoc_read o(3) [symmetric])
  moreover have "cbs_adv 2 (cbs_adv (length ?v) (cbs_adv ?n c)) = cbs_adv (length (ber_octets ?x)) c"
    unfolding cbs_adv_adv by (rule arg_cong [of _ _ "\<lambda>n. cbs_adv n c"]) simp
  ultimately show "\<exists>out'. cbs_convert_ber al m s eoc d (length lv) c out
          = cbs_convert_ber al m s eoc d (length lv) (cbs_adv (length (ber_octets ?x)) c) out'
        \<and> cbb_rep al L out' lv (y @ written s ?x)"
    using f(2) w by auto
qed

lemma elements_convert_Cons:
  assumes x: "element_converts al m x" and xs: "elements_convert al m xs"
  shows "elements_convert al m (x # xs)"
  unfolding elements_convert_def
proof (intro allI impI; elim conjE)
  fix s eoc d c rest L out lv y
  let ?n = "length (ber_octets x)" and ?w = "concat (map (written s) xs)"
  assume ok: "list_all (ber_ok s) (x # xs)" and nest: "list_all (nested_within (kMaxDepth - d)) (x # xs)"
    and d: "d \<le> kMaxDepth" and bytes: "cbs_bytes m c = concat (map ber_octets (x # xs)) @ rest"
    and rep: "cbb_rep al L out lv y"
    and len: "length (levels_bytes lv) + length y + length (concat (map (written s) (x # xs))) \<le> L"
      "length (concat (map (written s) (x # xs))) \<le> 0xfffffffe"
  have b1: "cbs_bytes m c = ber_octets x @ concat (map ber_octets xs) @ rest" using bytes by simp
  have "?n \<le> unat (cbs_len c)" using arg_cong [OF b1, of length] by simp
  then have b2: "cbs_bytes m (cbs_adv ?n c) = concat (map ber_octets xs) @ rest" by (simp add: b1)
  obtain out1 where o1: "cbs_convert_ber al m s eoc d (length lv) c out
      = cbs_convert_ber al m s eoc d (length lv) (cbs_adv ?n c) out1" "cbb_rep al L out1 lv (y @ written s x)"
    using x [unfolded element_converts_def, rule_format, of s d c "concat (map ber_octets xs) @ rest" L out lv y eoc]
      ok nest d b1 rep len by auto
  have l2: "length (levels_bytes lv) + length (y @ written s x) + length ?w \<le> L" "length ?w \<le> 0xfffffffe"
    using len by simp_all
  have ok2: "list_all (ber_ok s) xs" "list_all (nested_within (kMaxDepth - d)) xs" using ok nest by simp_all
  obtain out2 where o2: "cbs_convert_ber al m s eoc d (length lv) (cbs_adv ?n c) out1
      = cbs_convert_ber al m s eoc d (length lv) (cbs_adv (length (concat (map ber_octets xs))) (cbs_adv ?n c)) out2"
    "cbb_rep al L out2 lv ((y @ written s x) @ ?w)"
    by (rule elements_convertD [OF xs ok2 d b2 o1(2) l2])
  show "\<exists>out'. cbs_convert_ber al m s eoc d (length lv) c out
          = cbs_convert_ber al m s eoc d (length lv) (cbs_adv (length (concat (map ber_octets (x # xs)))) c) out'
        \<and> cbb_rep al L out' lv (y @ concat (map (written s) (x # xs)))"
    using o1(1) o2 by auto
qed

lemma elements_convert: "elements_convert al m xs"
proof (induction xs rule: measure_induct_rule [of "size_list size"])
  case (less xs)
  show ?case
  proof (cases xs)
    case Nil
    then show ?thesis by (auto simp: elements_convert_def)
  next
    case (Cons x xs')
    have "elements_convert al m xs'" using less Cons by simp
    moreover have "element_converts al m x"
    proof (cases x)
      case (Primitive t lo v)
      then show ?thesis by (simp add: primitive_converts)
    next
      case (Definite t lo ys)
      then show ?thesis using less [of ys] Cons by (simp add: definite_converts)
    next
      case (Indefinite t ys)
      then show ?thesis using less [of ys] Cons by (simp add: indefinite_converts)
    qed
    ultimately show ?thesis using Cons by (simp add: elements_convert_Cons)
  qed
qed

section \<open>The walk\<close>

text \<open>
  What \<open>cbs_find_ber\<close> reports of a list of elements: what it found in the children of one element
  is forgotten at the next.
\<close>

fun ber_seen :: "bool \<Rightarrow> ber_tree list \<Rightarrow> bool" where
  "ber_seen found [] = found"
| "ber_seen found (Primitive t lo v # xs) = (overlong lo \<or> ber_seen False xs)"
| "ber_seen found (Indefinite t ys # xs) = True"
| "ber_seen found (Definite t lo ys # xs) =
     (overlong lo \<or> octet_string_tag t \<or> ber_seen (ber_seen False ys) xs)"

lemma find_ber_trees:
  "list_all (ber_ok 0) xs \<Longrightarrow> list_all (nested_within (kMaxDepth - d)) xs \<Longrightarrow> d \<le> kMaxDepth \<Longrightarrow>
     cbs_bytes m c = concat (map ber_octets xs) \<Longrightarrow> find_ber_loop m d c found = Some (ber_seen found xs)"
proof (induction found xs arbitrary: d c rule: ber_seen.induct)
  case (1 found)
  then show ?case using cbs_bytes_empty [of m c] by (simp add: find_ber_loop.simps [of m d c])
next
  case (2 found t lo v xs)
  let ?n = "length (der_tag t) + length lo + length v"
  have xs: "cbs_bytes m c = der_tag t @ lo @ v @ concat (map ber_octets xs)" using "2.prems"(4) by simp
  have t: "t AND CBS_ASN1_CONSTRUCTED = 0" and lo: "ber_length lo (length v)" using "2.prems"(1) by simp_all
  have p: "element_parse True (cbs_bytes m c) = Some (t, length (der_tag t) + length lo, ?n, overlong lo)"
    unfolding xs by (rule definite_parse [OF lo])
  note e = element_parse_bounds [OF p]
  have n: "?n \<le> unat (cbs_len c)" using e(2) by simp
  have "cbs_len c \<noteq> 0" using e(1,3) n by auto
  moreover have "cbs_bytes m (cbs_adv ?n c) = concat (map ber_octets xs)" using n by (simp add: xs)
  ultimately show ?case
    using "2.IH" [of d "cbs_adv ?n c"] "2.prems" p t
    by (simp add: find_ber_loop.simps [of m d c] CBS_get_any_ber_asn1_element_eq)
next
  case (3 found t ys xs)
  have xs: "cbs_bytes m c = der_tag t @ 0x80 # concat (map ber_octets ys) @ [0, 0] @ concat (map ber_octets xs)"
    using "3.prems"(4) by simp
  have p: "element_parse True (cbs_bytes m c) = Some (t, Suc (length (der_tag t)), Suc (length (der_tag t)), True)"
    unfolding xs using "3.prems"(1) by (intro indefinite_parse) simp
  have "cbs_len c \<noteq> 0" using xs cbs_bytes_empty [of m c] by auto
  then show ?case using p by (simp add: find_ber_loop.simps [of m d c] CBS_get_any_ber_asn1_element_eq)
next
  case (4 found t lo ys xs)
  let ?hl = "length (der_tag t) + length lo" and ?v = "concat (map ber_octets ys)"
  let ?n = "?hl + length ?v" and ?body = "CBS_init (cbs_data c + of_nat (length (der_tag t) + length lo))
    (of_nat (length (der_tag t) + length lo + length (concat (map ber_octets ys)) - (length (der_tag t) + length lo)))"
  have xs: "cbs_bytes m c = der_tag t @ lo @ ?v @ concat (map ber_octets xs)" using "4.prems"(4) by simp
  have t: "t AND CBS_ASN1_CONSTRUCTED \<noteq> 0" and lo: "ber_length lo (length ?v)" using "4.prems"(1) by simp_all
  have p: "element_parse True (cbs_bytes m c) = Some (t, ?hl, ?n, overlong lo)"
    unfolding xs by (rule definite_parse [OF lo])
  note e = element_parse_bounds [OF p]
  have n: "?n \<le> unat (cbs_len c)" using e(2) by (simp only: length_cbs_bytes)
  have ne: "cbs_len c \<noteq> 0" using e(1,3) n by auto
  have g: "CBS_get_any_ber_asn1_element m c =
      (Some (CBS_init (cbs_data c) (of_nat ?n), t, of_nat ?hl, overlong lo), cbs_adv ?n c)"
    using p by (simp only: CBS_get_any_ber_asn1_element_eq option.case prod.case)
  show ?case
  proof (cases "overlong lo \<or> is_string_type t")
    case True
    with ne g t show ?thesis by (auto simp: find_ber_loop.simps [of m d c])
  next
    case False
    then have ok: "list_all (ber_ok 0) ys" "list_all (nested_within (kMaxDepth - (d + 1))) ys" "d + 1 \<le> kMaxDepth"
      using "4.prems"(1,2) by (auto simp: child_string_tag_def)
    have "?n < 2 ^ 64" using e(4) by simp
    note sk = skip_header [OF e(1) this, of "cbs_data c"]
    have "cbs_bytes m (CBS_init (cbs_data ?body) (cbs_len ?body)) = ?v"
      unfolding CBS_init_def cbs.simps using content_bytes [OF e(1) n, of m] by (simp add: CBS_init_def xs)
    moreover have "\<not> kMaxDepth < d + 1" using ok(3) by simp
    ultimately have "cbs_find_ber m (d + 1) ?body = Some (ber_seen False ys)"
      using "4.IH"(1) [OF ok] by (simp only: cbs_find_ber.simps if_False)
    moreover have "cbs_bytes m (cbs_adv ?n c) = concat (map ber_octets xs)" using n by (simp add: xs)
    ultimately show ?thesis
      using "4.IH"(2) [of d "cbs_adv ?n c"] "4.prems"(1-3) False t ne g sk
      by (subst find_ber_loop.simps) simp
  qed
qed

text \<open>The trees that are DER already.\<close>

fun is_der :: "ber_tree \<Rightarrow> bool" where
  "is_der (Primitive t lo v) = (lo = der_length (length v))"
| "is_der (Definite t lo xs) =
     (lo = der_length (length (concat (map ber_octets xs))) \<and> \<not> octet_string_tag t \<and> list_all is_der xs)"
| "is_der (Indefinite t xs) = False"

lemma is_der_octets: "is_der x \<Longrightarrow> ber_octets x = der_of x"
proof (induction x)
  case (Definite t lo xs)
  then have m: "map ber_octets xs = map der_of xs" by (auto simp: list_all_iff)
  have e: "concat (map ber_octets xs) = concat (map der_of xs)" unfolding m ..
  from Definite.prems show ?case by (simp add: der_constructed_def der_element_def der_header_def e)
qed (simp_all add: der_element_def der_header_def)

lemma der_body_length: "list_all is_der xs \<Longrightarrow> length (concat (map der_of xs)) = length (concat (map ber_octets xs))"
  by (induction xs) (simp_all add: is_der_octets)

lemma der_not_overlong: "ber_length (der_length n) k \<Longrightarrow> k = n \<and> n < 2 ^ 32 \<and> \<not> overlong (der_length n)"
proof -
  assume a: "ber_length (der_length n) k"
  have "length (der_length n) \<le> 5"
  proof -
    have "length_parse ys = Some (l, j, b) \<Longrightarrow> j \<le> 5" for ys l j b
      by (cases ys) (auto simp: length_parse_def Let_def split: if_splits)
    with a show ?thesis by (fastforce simp: ber_length_def split: option.splits)
  qed
  then have "n < 2 ^ 32"
  proof (cases "n < 128")
    case False
    assume "length (der_length n) \<le> 5"
    then have "length (digits 256 n) \<le> 4" using False by (simp add: der_length_def length_be_octets)
    moreover have "digits_val 256 (digits 256 n) < 256 ^ length (digits 256 n)"
      using digits_less [of 256 _ n] by (intro digits_val_less) auto
    ultimately show ?thesis
      using power_increasing [of "length (digits 256 n)" 4 "256 :: nat"] by (simp add: digits_val_digits)
  qed simp
  with length_parse_complete [of n "[]"] a show ?thesis by (simp add: ber_length_def overlong_def)
qed

lemma der_of_value: "is_der x \<Longrightarrow> ber_ok 0 x \<Longrightarrow> der_value (der_of x)"
proof (cases x)
  case (Primitive t lo v)
  assume "is_der x" "ber_ok 0 x"
  then have "length v < 2 ^ 32" using der_not_overlong [of "length v" "length v"] Primitive by simp
  then show ?thesis unfolding der_value_def Primitive der_of.simps by blast
next
  case (Definite t lo xs)
  assume "is_der x" "ber_ok 0 x"
  then have "length (concat (map der_of xs)) < 2 ^ 32" "\<not> is_string_type t"
    using der_not_overlong [of "length (concat (map ber_octets xs))" "length (concat (map ber_octets xs))"]
      der_body_length [of xs] Definite by simp_all
  then show ?thesis unfolding der_value_def Definite der_of.simps der_constructed_def by auto
qed simp

lemma is_der_not_seen: "list_all is_der xs \<Longrightarrow> list_all (ber_ok 0) xs \<Longrightarrow> \<not> found \<Longrightarrow> \<not> ber_seen found xs"
proof (induction found xs rule: ber_seen.induct)
  case (4 found t lo ys xs)
  then have "list_all (ber_ok 0) ys" by (simp add: child_string_tag_def)
  with 4 show ?case using der_not_overlong by auto
qed (use der_not_overlong in auto)

section \<open>The entry point\<close>

lemma find_ber_input:
  assumes "list_all (ber_ok 0) xs" "list_all (nested_within kMaxDepth) xs" "cbs_bytes m c = concat (map ber_octets xs)"
  shows "cbs_find_ber m 0 c = Some (ber_seen False xs)"
proof -
  have "CBS_init (cbs_data c) (cbs_len c) = c" by (simp add: CBS_init_def)
  with find_ber_trees [of xs 0 m c False] assms show ?thesis by (simp add: cbs_find_ber.simps)
qed

text \<open>
  C31. \<open>CBS_asn1_ber_to_der\<close> always returns, whatever bytes it is given, and never moves its input
  backwards: with the conversion's recursion through the shared input, every level of it ends.
\<close>

theorem CBS_asn1_ber_to_der_returns:
  "\<exists>r c'. CBS_asn1_ber_to_der al m c = Some (r, c') \<and> unat (cbs_len c') \<le> unat (cbs_len c)"
proof (cases "cbs_find_ber m 0 c = Some True")
  case False
  have "unat (cbs_len c') \<le> unat (cbs_len c)" if "CBS_get_any_asn1_element m c = (e, c')" for e c'
    using that CBS_get_any_asn1_element_len [of m c] by (cases e) (auto simp: CBS_get_any_asn1_element_eq less_imp_le split: option.splits)
  then show ?thesis
    using False by (auto simp: CBS_asn1_ber_to_der_def split: option.splits prod.splits)
next
  case True
  show ?thesis
  proof (cases "CBB_init al (cbs_len c)")
    case None
    with True show ?thesis by (simp add: CBS_asn1_ber_to_der_def)
  next
    case (Some cbb)
    obtain ok c' cbb' where "cbs_convert_ber al m 0 False 0 0 c cbb = Some (ok, c', cbb')"
      "unat (cbs_len c') \<le> unat (cbs_len c)" using convert_returns by blast
    with True Some show ?thesis
      by (cases "CBB_finish al True 0 cbb'"; cases "fst (CBB_finish al True 0 cbb')")
        (auto simp: CBS_asn1_ber_to_der_def)
  qed
qed

text \<open>
  C30. When the walk has found BER and the output has at most \<open>0xfffffffe\<close> bytes, with an allocator that does not
  fail, \<open>CBS_asn1_ber_to_der\<close> writes the DER encoding of the values in its
  input: whatever mixture of indefinite lengths, overlong length octets and constructed strings the
  sender used, nested up to \<open>kMaxDepth\<close>, the storage holds the DER encoding of the same values, with
  the fragments of every constructed string joined, and the whole input is consumed.
\<close>

theorem CBS_asn1_ber_to_der_converts:
  assumes "al_total al" "list_all (ber_ok 0) xs" "list_all (nested_within kMaxDepth) xs"
    and "cbs_bytes m c = concat (map ber_octets xs)" "ber_seen False xs"
    and "length (concat (map der_of xs)) \<le> 0xfffffffe"
  shows "\<exists>c'. CBS_asn1_ber_to_der al m c = Some (Some (Converted (concat (map der_of xs))), c')
    \<and> cbs_bytes m c' = []"
proof -
  let ?out = "concat (map der_of xs)"
  have w: "concat (map (written 0) xs) = ?out" by (simp add: written_def [abs_def])
  have big: "length ?out < 2 ^ 63" using assms(6) by simp
  obtain cbb where i: "CBB_init al (cbs_len c) = Some cbb" "cbb_rep al (length ?out) cbb [] []"
    using CBB_init_rep [OF assms(1) big] by blast
  have bytes: "cbs_bytes m c = concat (map ber_octets xs) @ []" using assms(4) by simp
  obtain cbb' where r: "cbs_convert_ber al m 0 False 0 0 c cbb
      = cbs_convert_ber al m 0 False 0 0 (cbs_adv (length (concat (map ber_octets xs))) c) cbb'"
    "cbb_rep al (length ?out) cbb' [] ?out"
    using elements_convertD [OF elements_convert assms(2) _ _ bytes i(2), of 0 False] assms(3,6) w by auto
  let ?c = "cbs_adv (length (concat (map ber_octets xs))) c"
  have "length (concat (map ber_octets xs)) \<le> unat (cbs_len c)" using arg_cong [OF assms(4), of length] by simp
  then have empty: "cbs_bytes m ?c = []" using assms(4) by simp
  note ended = convert_end [OF _ this, of 0 al 0 False 0 cbb']
  obtain x where "CBB_finish al True 0 cbb' = (Some ?out, x)"
    using CBB_finish_rep [OF r(2)] by auto
  with find_ber_input [OF assms(2,3,4)] assms(5) i(1) r(1) ended empty show ?thesis
    by (simp add: CBS_asn1_ber_to_der_def)
qed

text \<open>
  DER input is not copied: when every value in the input is already DER, \<open>CBS_asn1_ber_to_der\<close>
  returns the first element where it lies in the input and advances past that element only.
\<close>

theorem CBS_asn1_ber_to_der_der:
  assumes "list_all (ber_ok 0) (x # xs)" "list_all (nested_within kMaxDepth) (x # xs)" "list_all is_der (x # xs)"
    and "cbs_bytes m c = concat (map ber_octets (x # xs))"
  shows "\<exists>out c'. CBS_asn1_ber_to_der al m c = Some (Some (In_place out), c') \<and> cbs_data out = cbs_data c
    \<and> cbs_bytes m out = der_of x \<and> cbs_bytes m c' = concat (map ber_octets xs)"
proof -
  have "\<not> ber_seen False (x # xs)" using is_der_not_seen [OF assms(3,1)] by blast
  with find_ber_input [OF assms(1,2,4)] have f: "cbs_find_ber m 0 c = Some False" by simp
  have "der_value (der_of x)" using der_of_value assms(1,3) by simp
  then obtain t v where x: "der_of x = der_element t v" and v: "length v < 2 ^ 32" by (auto simp: der_value_def)
  have bytes: "cbs_bytes m c = der_element t v @ concat (map ber_octets xs)"
    using assms(3,4) is_der_octets [of x] x by simp
  let ?n = "length (der_element t v)"
  have p: "element_parse False (cbs_bytes m c) = Some (t, length (der_header t (length v)), ?n, False)"
    unfolding bytes by (rule element_parse_complete [OF v])
  have n: "?n \<le> unat (cbs_len c)" using element_parse_bounds(2) [OF p] by simp
  have "cbs_bytes m (CBS_init (cbs_data c) (of_nat ?n)) = der_element t v"
    using cbs_init_prefix [OF n, of m] bytes by simp
  moreover have "cbs_bytes m (cbs_adv ?n c) = concat (map ber_octets xs)" using n bytes by simp
  ultimately show ?thesis
    using f p x by (simp add: CBS_asn1_ber_to_der_def CBS_get_any_asn1_element_eq) (simp add: CBS_init_def)
qed

definition overlooked :: ber_tree where
  "overlooked = Definite 0x20000010 [9]
     [Definite 0x20000010 [4] [Indefinite 0x20000010 []], Primitive 0x2 [1] [5]]"

lemma overlooked_tags: "der_tag 0x20000010 = [0x30]" "der_tag 2 = [2]"
  by (simp_all add: der_tag_def tag_number_def tag_bits_def)

lemma overlooked_octets:
  "ber_octets overlooked = [0x30, 9, 0x30, 4, 0x30, 0x80, 0, 0, 2, 1, 5]"
  "der_of overlooked = [0x30, 7, 0x30, 2, 0x30, 0, 2, 1, 5]"
  by (simp_all add: overlooked_def overlooked_tags der_constructed_def is_string_type_def der_element_def
      der_header_def der_length_def)

text \<open>
  C32. Nested BER can be overlooked: an indefinite-length SEQUENCE inside a definite one is found, but
  the flag is cleared by the next element at the outer level, and the input is returned as if it were
  DER.
\<close>

theorem nested_ber_overlooked:
  assumes "cbs_bytes m c = ber_octets overlooked"
  shows "(\<exists>out c'. CBS_asn1_ber_to_der al m c = Some (Some (In_place out), c')
      \<and> cbs_bytes m out = ber_octets overlooked) \<and> der_of overlooked \<noteq> ber_octets overlooked"
proof -
  have ok: "list_all (ber_ok 0) [overlooked]" "list_all (nested_within kMaxDepth) [overlooked]"
    by (simp_all add: overlooked_def overlooked_tags child_string_tag_def is_string_type_def ber_length_def
        length_parse_def kMaxDepth_def)
  have "ber_seen False [overlooked] = False"
    by (simp add: overlooked_def overlong_def length_parse_def is_string_type_def)
  then have f: "cbs_find_ber m 0 c = Some False" using find_ber_input [OF ok] assms by simp
  define v :: bytes where "v = [0x30, 4, 0x30, 0x80, 0, 0, 2, 1, 5]"
  have e: "ber_octets overlooked = der_element 0x20000010 v"
    by (simp add: overlooked_octets v_def der_element_def der_header_def der_length_def overlooked_tags)
  have len: "length (der_element 0x20000010 v) = 11" "length v < 2 ^ 32"
    using overlooked_octets(1) by (simp_all add: v_def flip: e [unfolded v_def])
  have p: "element_parse False (cbs_bytes m c)
      = Some (0x20000010, length (der_header 0x20000010 (length v)), 11, False)"
    using element_parse_complete [OF len(2), of False "0x20000010" "[]"] unfolding assms e len(1) append_Nil2 .
  have n: "11 \<le> unat (cbs_len c)" using element_parse_bounds(2) [OF p] by simp
  have "cbs_bytes m (CBS_init (cbs_data c) 11) = ber_octets overlooked"
    using cbs_init_prefix [OF n, of m] assms overlooked_octets(1) by simp
  then show ?thesis
    using f p overlooked_octets by (simp add: CBS_asn1_ber_to_der_def CBS_get_any_asn1_element_eq)
qed

lemma nested_ber_overlooked_witness:
  "\<exists>out c'. CBS_asn1_ber_to_der zero_alloc (holding (ber_octets overlooked)) (CBS_init 0x100 11)
     = Some (Some (In_place out), c')"
proof -
  have "cbs_bytes (holding (ber_octets overlooked)) (CBS_init 0x100 11) = ber_octets overlooked"
    using holding_read [of "ber_octets overlooked" 11] by (simp add: overlooked_octets)
  from nested_ber_overlooked [OF this, of zero_alloc] show ?thesis by blast
qed

text \<open>A constructed OCTET STRING inside an indefinite-length SEQUENCE, with an overlong length.\<close>

definition ber_example :: ber_tree where
  "ber_example = Indefinite 0x20000010
     [Indefinite 0x20000004 [Primitive 0x4 [1] [0xAA], Definite 0x20000004 [3] [Primitive 0x4 [1] [0xBB]]],
      Primitive 0x2 [0x81, 1] [5]]"

lemma ber_example_octets:
  "ber_octets ber_example = [0x30, 0x80, 0x24, 0x80, 4, 1, 0xAA, 0x24, 3, 4, 1, 0xBB, 0, 0, 2, 0x81, 1, 5, 0, 0]"
  "der_of ber_example = [0x30, 7, 4, 2, 0xAA, 0xBB, 2, 1, 5]"
  by (simp_all add: ber_example_def der_tag_def tag_number_def tag_bits_def der_constructed_def is_string_type_def
      der_element_def der_header_def der_length_def)

lemma CBS_asn1_ber_to_der_converts_witness:
  "\<exists>c'. CBS_asn1_ber_to_der zero_alloc (holding (ber_octets ber_example)) (CBS_init 0x100 20)
     = Some (Some (Converted [0x30, 7, 4, 2, 0xAA, 0xBB, 2, 1, 5]), c')"
proof -
  have ok: "list_all (ber_ok 0) [ber_example]" "list_all (nested_within kMaxDepth) [ber_example]"
    by (simp_all add: ber_example_def child_string_tag_def is_string_type_def ber_length_def length_parse_def
        kMaxDepth_def der_tag_def tag_number_def tag_bits_def)
  have bytes: "cbs_bytes (holding (ber_octets ber_example)) (CBS_init 0x100 20) = concat (map ber_octets [ber_example])"
    using holding_read [of "ber_octets ber_example" 20] by (simp add: ber_example_octets)
  have "ber_seen False [ber_example]" by (simp add: ber_example_def)
  from CBS_asn1_ber_to_der_converts [OF zero_alloc_total ok bytes this] show ?thesis
    by (auto simp: ber_example_octets)
qed

definition der_example :: ber_tree where
  "der_example = Definite 0x20000010 [3] [Primitive 0x2 [1] [5]]"

lemma CBS_asn1_ber_to_der_der_witness:
  "\<exists>out c'. CBS_asn1_ber_to_der zero_alloc (holding (ber_octets der_example)) (CBS_init 0x100 5)
     = Some (Some (In_place out), c') \<and> cbs_bytes (holding (ber_octets der_example)) c' = []"
proof -
  have tags: "der_tag 0x20000010 = [0x30]" "der_tag 2 = [2]"
    by (simp_all add: der_tag_def tag_number_def tag_bits_def)
  have ok: "list_all (ber_ok 0) [der_example]" "list_all (nested_within kMaxDepth) [der_example]"
    "list_all is_der [der_example]"
    by (simp_all add: der_example_def child_string_tag_def is_string_type_def ber_length_def length_parse_def
        kMaxDepth_def tags der_length_def)
  have "cbs_bytes (holding (ber_octets der_example)) (CBS_init 0x100 5) = concat (map ber_octets [der_example])"
    using holding_read [of "ber_octets der_example" 5] by (simp add: der_example_def tags)
  from CBS_asn1_ber_to_der_der [OF ok this, of zero_alloc] show ?thesis by auto
qed

section \<open>Implicitly tagged strings\<close>

lemma CBS_get_asn1_at:
  assumes "cbs_bytes m c = der_element t v @ rest" "length v < 2 ^ 32"
  obtains out c' where "CBS_get_asn1 t m c = (Some out, c')" "cbs_bytes m out = v" "cbs_bytes m c' = rest"
  using CBS_get_asn1_der [of t m c v rest] assms by auto

lemma der_element_ne: "der_element t v \<noteq> []"
  using tag_parse_complete [of t "[]"] by (auto simp: tag_parse_def der_element_def der_header_def)

lemma chunks_length: "length (concat vs) \<le> length (concat (map (der_element t) vs))"
    "v \<in> set vs \<Longrightarrow> length v \<le> length (concat (map (der_element t) vs))"
  by (induction vs) (auto simp: der_element_def)

lemma string_chunks_here:
  "cbs_bytes m c = concat (map (der_element t) vs) \<Longrightarrow> list_all (\<lambda>v. length v < 2 ^ 32) vs \<Longrightarrow>
     here al 0 (string_chunks al m t c) (concat vs)"
proof (induction vs arbitrary: c)
  case Nil
  then have "cbs_len c = 0" using cbs_bytes_empty [of m c] by simp
  then have "string_chunks al m t c = (\<lambda>b. (True, b))" by (intro ext) (simp add: string_chunks.simps)
  then show ?case by (simp add: here_nop)
next
  case (Cons v vs)
  then have "cbs_bytes m c = der_element t v @ concat (map (der_element t) vs)" "length v < 2 ^ 32" by simp_all
  then obtain out c' where g: "CBS_get_asn1 t m c = (Some out, c')" "cbs_bytes m out = v"
    "cbs_bytes m c' = concat (map (der_element t) vs)" by (rule CBS_get_asn1_at)
  have "cbs_len c \<noteq> 0" using Cons.prems(1) cbs_bytes_empty [of m c] by (auto simp: der_element_ne)
  then have "string_chunks al m t c = cbb_then (CBB_add_bytes al 0 v) (string_chunks al m t c')"
    using g by (intro ext)
      (simp add: string_chunks.simps [of _ _ _ c] cbb_then_def word_neq_0_conv split: prod.split bool.split)
  moreover have "list_all (\<lambda>v. length v < 2 ^ 32) vs" using Cons.prems(2) by simp
  ultimately show ?case
    using here_then [OF appends_here [OF CBB_add_bytes_appends] Cons.IH [OF g(3)]] by simp
qed

lemma implicit_string_primitive:
  assumes "cbs_bytes m c = der_element outer v @ rest" "length v < 2 ^ 32"
  shows "\<exists>out c'. CBS_get_asn1_implicit_string al outer inner m c = (Some (In_place out), c')
    \<and> cbs_bytes m out = v \<and> cbs_bytes m c' = rest"
proof -
  have "CBS_peek_asn1_tag outer m c" by (simp add: CBS_peek_asn1_tag_prefix assms(1) der_element_def der_header_def)
  moreover obtain out c' where "CBS_get_asn1 outer m c = (Some out, c')" "cbs_bytes m out = v" "cbs_bytes m c' = rest"
    using assms by (rule CBS_get_asn1_at)
  ultimately show ?thesis by (simp add: CBS_get_asn1_implicit_string_def)
qed

text \<open>The constructed form yields the chunks joined, in a new buffer.\<close>

lemma implicit_string_joined:
  assumes "al_total al" and bytes: "cbs_bytes m c = der_element (outer OR CBS_ASN1_CONSTRUCTED) body @ rest"
    and body: "body = concat (map (der_element inner) vs)" "length body < 2 ^ 32"
    and outer: "outer AND CBS_ASN1_CONSTRUCTED = 0"
  shows "\<exists>c'. CBS_get_asn1_implicit_string al outer inner m c = (Some (Converted (concat vs)), c')
    \<and> cbs_bytes m c' = rest"
proof -
  let ?t = "outer OR CBS_ASN1_CONSTRUCTED"
  have "\<not> CBS_peek_asn1_tag outer m c"
  proof
    assume "CBS_peek_asn1_tag outer m c"
    then obtain zs where "cbs_bytes m c = der_tag outer @ zs" by (auto simp: CBS_peek_asn1_tag_prefix prefix_def)
    with bytes have "tag_parse (der_tag ?t @ der_length (length body) @ body @ rest) = tag_parse (der_tag outer @ zs)"
      by (simp add: der_element_def der_header_def)
    then have "outer = ?t" by (simp add: tag_parse_complete)
    then have "outer AND CBS_ASN1_CONSTRUCTED = ?t AND CBS_ASN1_CONSTRUCTED" by (rule arg_cong)
    then show False using outer by (simp add: bit.conj_disj_distrib2)
  qed
  moreover obtain child c' where child: "CBS_get_asn1 ?t m c = (Some child, c')" "cbs_bytes m child = body"
    "cbs_bytes m c' = rest" using bytes body(2) by (rule CBS_get_asn1_at)
  moreover have "length (concat vs) < 2 ^ 63" using chunks_length(1) [of vs inner] body by simp
  then obtain b where b: "CBB_init al (cbs_len c) = Some b" "cbb_rep al (length (concat vs)) b [] []"
    using CBB_init_rep [OF assms(1)] by blast
  moreover have "list_all (\<lambda>v. length v < 2 ^ 32) vs"
    using chunks_length(2) [of _ vs inner] body by (fastforce simp: list_all_iff)
  then have "here al 0 (string_chunks al m inner child) (concat vs)"
    using string_chunks_here child(2) body(1) by simp
  then obtain b' where b': "string_chunks al m inner child b = (True, b')"
      "cbb_rep al (length (concat vs)) b' [] (concat vs)"
    using b(2) unfolding here_def by fastforce
  moreover obtain x where "CBB_finish al True 0 b' = (Some (concat vs), x)" using CBB_finish_rep [OF b'(2)] by auto
  ultimately show ?thesis by (simp add: CBS_get_asn1_implicit_string_def)
qed

end
