(* ===== verification/Lhash.thy ===== *)
theory Lhash
  imports Prelude "HOL-Library.Multiset"
begin

text \<open>
  The chained hash table of BoringSSL (crypto/lhash/lhash.c): buckets of chains, resized by the average
  length of a chain.

  An element is the object that its pointer stands for. \<open>hash\<close> and \<open>cmp\<close> are the two functions that a
  table is created with; they are arguments of the operations, as they are called through the table's
  pointers. A pointer to the link of an item is its bucket and its place in the chain, past the end for a
  link that holds \<open>NULL\<close>. \<open>ok\<close> is the allocator's answer to a request for so many bytes.
\<close>

section \<open>The table\<close>

record 'd lhash_item =
  it_data :: 'd
  it_hash :: u32

record 'd lhash =
  lh_num_items :: u64
  lh_buckets :: "'d lhash_item list list"
  lh_num_buckets :: u64
  lh_callback_depth :: u32

definition kMinNumBuckets :: u64 where "kMinNumBuckets = 16"
definition kMaxAverageChainLength :: u64 where "kMaxAverageChainLength = 2"
definition kMinAverageChainLength :: u64 where "kMinAverageChainLength = 1"

text \<open>A \<open>struct lhash_st\<close> takes 48 bytes, an item 24.\<close>

definition OPENSSL_lh_new :: "(u64 \<Rightarrow> bool) \<Rightarrow> 'd lhash option" where
  "OPENSSL_lh_new ok =
     (if \<not> ok 48 then None
      else if \<not> ok (8 * kMinNumBuckets) then None
      else Some \<lparr>lh_num_items = 0, lh_buckets = replicate (unat kMinNumBuckets) [],
                 lh_num_buckets = kMinNumBuckets, lh_callback_depth = 0\<rparr>)"

fun chain_find :: "('d \<Rightarrow> bool) \<Rightarrow> 'd lhash_item list \<Rightarrow> nat" where
  "chain_find eq [] = 0"
| "chain_find eq (it # c) = (if eq (it_data it) then 0 else Suc (chain_find eq c))"

definition bucket_of :: "u64 \<Rightarrow> u32 \<Rightarrow> nat" where
  "bucket_of n h = unat (ucast h mod n)"

definition get_next_ptr_and_hash ::
  "('d \<Rightarrow> u32) \<Rightarrow> ('d \<Rightarrow> 'd \<Rightarrow> int) \<Rightarrow> 'd \<Rightarrow> 'd lhash \<Rightarrow> u32 \<times> nat \<times> nat" where
  "get_next_ptr_and_hash hash cmp x lh =
     (let h = hash x; b = bucket_of (lh_num_buckets lh) h
      in (h, b, chain_find (\<lambda>d. cmp d x = 0) (lh_buckets lh ! b)))"

definition get_next_ptr_by_key :: "u32 \<Rightarrow> ('k \<Rightarrow> 'd \<Rightarrow> int) \<Rightarrow> 'k \<Rightarrow> 'd lhash \<Rightarrow> nat \<times> nat" where
  "get_next_ptr_by_key key_hash cmp_key key lh =
     (let b = bucket_of (lh_num_buckets lh) key_hash
      in (b, chain_find (\<lambda>d. cmp_key key d = 0) (lh_buckets lh ! b)))"

text \<open>What a link holds.\<close>

definition link_item :: "'d lhash \<Rightarrow> nat \<times> nat \<Rightarrow> 'd lhash_item option" where
  "link_item lh p = (case p of (b, i) \<Rightarrow> if i < length (lh_buckets lh ! b) then Some (lh_buckets lh ! b ! i) else None)"

definition OPENSSL_lh_retrieve :: "('d \<Rightarrow> u32) \<Rightarrow> ('d \<Rightarrow> 'd \<Rightarrow> int) \<Rightarrow> 'd lhash \<Rightarrow> 'd \<Rightarrow> 'd option" where
  "OPENSSL_lh_retrieve hash cmp lh x =
     (case get_next_ptr_and_hash hash cmp x lh of (_, p) \<Rightarrow> map_option it_data (link_item lh p))"

definition OPENSSL_lh_retrieve_key :: "u32 \<Rightarrow> ('k \<Rightarrow> 'd \<Rightarrow> int) \<Rightarrow> 'd lhash \<Rightarrow> 'k \<Rightarrow> 'd option" where
  "OPENSSL_lh_retrieve_key key_hash cmp_key lh key =
     map_option it_data (link_item lh (get_next_ptr_by_key key_hash cmp_key key lh))"

section \<open>Resizing\<close>

text \<open>The two nested loops of \<open>lh_rebucket\<close> visit the chains one after the other.\<close>

definition rebucket_item :: "u64 \<Rightarrow> 'd lhash_item list list \<Rightarrow> 'd lhash_item \<Rightarrow> 'd lhash_item list list" where
  "rebucket_item n bs cur = (let b = bucket_of n (it_hash cur) in bs[b := cur # bs ! b])"

definition lh_rebucket :: "(u64 \<Rightarrow> bool) \<Rightarrow> u64 \<Rightarrow> 'd lhash \<Rightarrow> 'd lhash" where
  "lh_rebucket ok n lh =
     (let alloc_size = 8 * n in
      if alloc_size div 8 \<noteq> n then lh
      else if \<not> ok alloc_size then lh
      else lh\<lparr>lh_buckets := foldl (rebucket_item n) (replicate (unat n) []) (concat (lh_buckets lh)),
              lh_num_buckets := n\<rparr>)"

definition lh_maybe_resize :: "(u64 \<Rightarrow> bool) \<Rightarrow> 'd lhash \<Rightarrow> 'd lhash" where
  "lh_maybe_resize ok lh =
     (if lh_callback_depth lh > 0 then lh
      else
        (let avg = lh_num_items lh div lh_num_buckets lh in
         if avg > kMaxAverageChainLength then
           (let n = lh_num_buckets lh * 2 in if n > lh_num_buckets lh then lh_rebucket ok n lh else lh)
         else if avg < kMinAverageChainLength \<and> lh_num_buckets lh > kMinNumBuckets then
           (let n = lh_num_buckets lh div 2; n = (if n < kMinNumBuckets then kMinNumBuckets else n)
            in lh_rebucket ok n lh)
         else lh))"

section \<open>Insertion, deletion, iteration\<close>

definition link_update :: "nat \<times> nat \<Rightarrow> ('d lhash_item list \<Rightarrow> 'd lhash_item list) \<Rightarrow> 'd lhash \<Rightarrow> 'd lhash" where
  "link_update p f lh = (case p of (b, i) \<Rightarrow>
     lh\<lparr>lh_buckets := (lh_buckets lh)[b := take i (lh_buckets lh ! b) @ f (drop i (lh_buckets lh ! b))]\<rparr>)"

text \<open>The result: the return value, \<open>*old_data\<close>, and the table.\<close>

definition OPENSSL_lh_insert ::
  "(u64 \<Rightarrow> bool) \<Rightarrow> ('d \<Rightarrow> u32) \<Rightarrow> ('d \<Rightarrow> 'd \<Rightarrow> int) \<Rightarrow> 'd \<Rightarrow> 'd lhash \<Rightarrow> bool \<times> 'd option \<times> 'd lhash" where
  "OPENSSL_lh_insert ok hash cmp x lh =
     (case get_next_ptr_and_hash hash cmp x lh of (h, p) \<Rightarrow>
        (case link_item lh p of
           Some it \<Rightarrow> (True, Some (it_data it), link_update p (\<lambda>c. it\<lparr>it_data := x\<rparr> # tl c) lh)
         | None \<Rightarrow>
             if \<not> ok 24 then (False, None, lh)
             else (let lh1 = link_update p (\<lambda>_. [\<lparr>it_data = x, it_hash = h\<rparr>]) lh
                   in (True, None, lh_maybe_resize ok (lh1\<lparr>lh_num_items := lh_num_items lh1 + 1\<rparr>)))))"

definition OPENSSL_lh_delete ::
  "(u64 \<Rightarrow> bool) \<Rightarrow> ('d \<Rightarrow> u32) \<Rightarrow> ('d \<Rightarrow> 'd \<Rightarrow> int) \<Rightarrow> 'd \<Rightarrow> 'd lhash \<Rightarrow> 'd option \<times> 'd lhash" where
  "OPENSSL_lh_delete ok hash cmp x lh =
     (case get_next_ptr_and_hash hash cmp x lh of (_, p) \<Rightarrow>
        (case link_item lh p of
           None \<Rightarrow> (None, lh)
         | Some it \<Rightarrow>
             (let lh1 = link_update p tl lh
              in (Some (it_data it), lh_maybe_resize ok (lh1\<lparr>lh_num_items := lh_num_items lh1 - 1\<rparr>)))))"

text \<open>
  Iteration, for a callback that leaves the table alone: it takes an element and \<open>arg\<close> and returns the new
  value of what \<open>arg\<close> points to. \<open>callback_depth\<close> is seen by nested calls only.
\<close>

definition OPENSSL_lh_doall_arg :: "(u64 \<Rightarrow> bool) \<Rightarrow> ('d \<Rightarrow> 's \<Rightarrow> 's) \<Rightarrow> 's \<Rightarrow> 'd lhash \<Rightarrow> 's \<times> 'd lhash" where
  "OPENSSL_lh_doall_arg ok func arg lh =
     (let d = lh_callback_depth lh;
          lh1 = (if d < - 1 then lh\<lparr>lh_callback_depth := d + 1\<rparr> else lh);
          arg' = foldl (\<lambda>a it. func (it_data it) a) arg (concat (lh_buckets lh1));
          d1 = lh_callback_depth lh1;
          lh2 = (if d1 < - 1 then lh1\<lparr>lh_callback_depth := d1 - 1\<rparr> else lh1)
      in (arg', lh_maybe_resize ok lh2))"

definition OPENSSL_lh_num_items :: "'d lhash \<Rightarrow> u64" where
  "OPENSSL_lh_num_items lh = lh_num_items lh"

section \<open>The invariant\<close>

definition lh_items :: "'d lhash \<Rightarrow> 'd lhash_item multiset" where
  "lh_items lh = mset (concat (lh_buckets lh))"

text \<open>No two items hold equal elements.\<close>

definition apart :: "('d \<Rightarrow> 'd \<Rightarrow> int) \<Rightarrow> 'd lhash_item multiset \<Rightarrow> bool" where
  "apart cmp M \<longleftrightarrow> (\<forall>a \<in># M. \<forall>b \<in># M - {#a#}. cmp (it_data a) (it_data b) \<noteq> 0)"

definition buckets_ok :: "('d \<Rightarrow> u32) \<Rightarrow> u64 \<Rightarrow> 'd lhash_item list list \<Rightarrow> bool" where
  "buckets_ok hash n bs \<longleftrightarrow> length bs = unat n
     \<and> (\<forall>b < length bs. \<forall>it \<in> set (bs ! b). it_hash it = hash (it_data it) \<and> bucket_of n (it_hash it) = b)"

definition lh_ok :: "('d \<Rightarrow> u32) \<Rightarrow> ('d \<Rightarrow> 'd \<Rightarrow> int) \<Rightarrow> 'd lhash \<Rightarrow> bool" where
  "lh_ok hash cmp lh \<longleftrightarrow> 16 \<le> unat (lh_num_buckets lh) \<and> buckets_ok hash (lh_num_buckets lh) (lh_buckets lh)
     \<and> unat (lh_num_items lh) = size (lh_items lh) \<and> apart cmp (lh_items lh)"

text \<open>The elements in the table.\<close>

definition lh_elements :: "'d lhash \<Rightarrow> 'd set" where
  "lh_elements lh = it_data ` set_mset (lh_items lh)"

lemma bucket_of_less: "0 < unat n \<Longrightarrow> bucket_of n h < unat n"
  by (simp add: bucket_of_def unat_mod)

lemma mset_concat_split:
  assumes "b < length bs"
  shows "mset (concat (bs[b := c])) = mset (concat (take b bs)) + mset c + mset (concat (drop (Suc b) bs))"
  using assms by (simp add: upd_conv_take_nth_drop)

lemma mset_concat_nth:
  assumes "b < length bs"
  shows "mset (concat bs) = mset (concat (take b bs)) + mset (bs ! b) + mset (concat (drop (Suc b) bs))"
  using mset_concat_split [OF assms, of "bs ! b"] by simp

lemma mset_concat_update:
  "b < length bs \<Longrightarrow> mset (concat (bs[b := c])) + mset (bs ! b) = mset (concat bs) + mset c"
  by (simp only: mset_concat_split mset_concat_nth [of b bs]) (simp add: ac_simps)

lemma in_bucketI: "b < length bs \<Longrightarrow> it \<in> set (bs ! b) \<Longrightarrow> it \<in> set (concat bs)"
  using nth_mem by auto

lemma in_bucketE:
  assumes "it \<in> set (concat bs)"
  obtains b where "b < length bs" "it \<in> set (bs ! b)"
proof -
  from assms obtain c where "c \<in> set bs" "it \<in> set c" by auto
  then show thesis using that by (auto simp: in_set_conv_nth)
qed

lemma buckets_ok_item:
  "buckets_ok hash n bs \<Longrightarrow> it \<in> set (concat bs) \<Longrightarrow>
     it_hash it = hash (it_data it) \<and> it \<in> set (bs ! bucket_of n (hash (it_data it)))"
  by (elim in_bucketE) (fastforce simp: buckets_ok_def)

lemma buckets_okD:
  "buckets_ok hash n bs \<Longrightarrow> b < length bs \<Longrightarrow> it \<in> set (bs ! b) \<Longrightarrow>
     it_hash it = hash (it_data it) \<and> bucket_of n (it_hash it) = b"
  unfolding buckets_ok_def by blast

lemma buckets_ok_update:
  assumes "buckets_ok hash n bs" and "\<And>it. it \<in> set c \<Longrightarrow> it_hash it = hash (it_data it) \<and> bucket_of n (it_hash it) = b"
  shows "buckets_ok hash n (bs[b := c])"
  unfolding buckets_ok_def
proof (intro conjI allI impI ballI)
  show "length (bs[b := c]) = unat n" using assms(1) by (simp add: buckets_ok_def)
next
  fix k it assume "k < length (bs[b := c])" "it \<in> set (bs[b := c] ! k)"
  then show "it_hash it = hash (it_data it)" "bucket_of n (it_hash it) = k"
    using assms by (cases "k = b"; simp add: buckets_ok_def)+
qed

section \<open>Chains\<close>

lemma chain_find_le: "chain_find eq c \<le> length c"
  by (induction c) auto

lemma chain_find_match: "chain_find eq c < length c \<Longrightarrow> eq (it_data (c ! chain_find eq c))"
  by (induction c) (auto split: if_splits)

lemma chain_find_none: "\<not> chain_find eq c < length c \<longleftrightarrow> (\<forall>it \<in> set c. \<not> eq (it_data it))"
  by (induction c) auto

section \<open>Resizing keeps the items\<close>

lemma rebucket_items:
  "length bs = unat n \<Longrightarrow> 0 < unat n \<Longrightarrow>
     length (foldl (rebucket_item n) bs its) = unat n
     \<and> mset (concat (foldl (rebucket_item n) bs its)) = mset (concat bs) + mset its"
proof (induction its arbitrary: bs)
  case (Cons it its)
  let ?b = "bucket_of n (it_hash it)"
  have b: "?b < length bs" using Cons.prems bucket_of_less by simp
  have l: "length (rebucket_item n bs it) = unat n" using Cons.prems(1) by (simp add: rebucket_item_def Let_def)
  have "mset (concat (rebucket_item n bs it)) + mset (bs ! ?b) = mset (concat bs) + (mset (bs ! ?b) + {#it#})"
    using mset_concat_update [OF b, of "it # bs ! ?b"] by (simp add: rebucket_item_def Let_def)
  then have "mset (concat (rebucket_item n bs it)) = mset (concat bs) + {#it#}" by (simp add: ac_simps)
  with Cons.IH [OF l Cons.prems(2)] show ?case by simp
qed simp

lemma rebucket_ok:
  "length bs = unat n \<Longrightarrow> 0 < unat n \<Longrightarrow> buckets_ok hash n bs \<Longrightarrow> \<forall>it \<in> set its. it_hash it = hash (it_data it) \<Longrightarrow>
     buckets_ok hash n (foldl (rebucket_item n) bs its)"
proof (induction its arbitrary: bs)
  case (Cons it its)
  have l: "length (rebucket_item n bs it) = unat n" using Cons.prems(1) by (simp add: rebucket_item_def Let_def)
  let ?b = "bucket_of n (it_hash it)"
  have "?b < length bs" using Cons.prems(1,2) bucket_of_less by simp
  then have "buckets_ok hash n (rebucket_item n bs it)"
    unfolding rebucket_item_def Let_def
    using Cons.prems(3,4) buckets_okD [OF Cons.prems(3)] by (intro buckets_ok_update) auto
  with Cons.IH [OF l] Cons.prems show ?case by simp
qed simp

lemma lh_rebucket_ok:
  assumes ok: "lh_ok hash cmp lh" and n: "16 \<le> unat n"
  shows "lh_ok hash cmp (lh_rebucket al n lh) \<and> lh_items (lh_rebucket al n lh) = lh_items lh
    \<and> lh_callback_depth (lh_rebucket al n lh) = lh_callback_depth lh"
proof -
  let ?bs = "foldl (rebucket_item n) (replicate (unat n) []) (concat (lh_buckets lh))"
  have pos: "0 < unat n" using n by simp
  have h: "\<forall>it \<in> set (concat (lh_buckets lh)). it_hash it = hash (it_data it)"
    using ok buckets_ok_item unfolding lh_ok_def by blast
  have "buckets_ok hash n (replicate (unat n) [])" by (simp add: buckets_ok_def)
  from rebucket_ok [OF length_replicate pos this h]
  have b: "buckets_ok hash n ?bs" .
  have m: "mset (concat ?bs) = mset (concat (lh_buckets lh))"
    using rebucket_items [OF length_replicate pos, of "[]" "concat (lh_buckets lh)"] by (simp del: mset_concat)
  show ?thesis
  proof (cases "8 * n div 8 = n \<and> al (8 * n)")
    case True
    then have e: "lh_rebucket al n lh = lh\<lparr>lh_buckets := ?bs, lh_num_buckets := n\<rparr>"
      by (simp add: lh_rebucket_def Let_def)
    have "lh_items (lh_rebucket al n lh) = lh_items lh" unfolding e lh_items_def using m by simp
    with ok b n show ?thesis unfolding lh_ok_def by (simp add: e)
  next
    case False
    then have "lh_rebucket al n lh = lh" by (auto simp: lh_rebucket_def Let_def)
    with ok show ?thesis by simp
  qed
qed

lemma lh_maybe_resize_ok:
  assumes "lh_ok hash cmp lh"
  shows "lh_ok hash cmp (lh_maybe_resize al lh) \<and> lh_items (lh_maybe_resize al lh) = lh_items lh
    \<and> lh_callback_depth (lh_maybe_resize al lh) = lh_callback_depth lh"
proof -
  have b: "16 \<le> unat (lh_num_buckets lh)" using assms by (simp add: lh_ok_def)
  have "16 \<le> unat (lh_num_buckets lh * 2)" if "lh_num_buckets lh * 2 > lh_num_buckets lh"
    using that b by (simp add: word_less_nat_alt)
  moreover have "16 \<le> unat (if n < kMinNumBuckets then kMinNumBuckets else n)" for n
    by (simp add: kMinNumBuckets_def word_less_nat_alt)
  ultimately show ?thesis
    using assms lh_rebucket_ok [OF assms] by (auto simp: lh_maybe_resize_def Let_def)
qed

section \<open>One link changed\<close>

lemma apart_add:
  "apart cmp (add_mset a M) \<longleftrightarrow> apart cmp M
     \<and> (\<forall>b \<in># M. cmp (it_data a) (it_data b) \<noteq> 0 \<and> cmp (it_data b) (it_data a) \<noteq> 0)"
  unfolding apart_def
  by (auto simp: in_diff_count dest!: multi_member_split split: if_splits)

lemma link_update_items:
  assumes "b < length (lh_buckets lh)"
  shows "lh_items (link_update (b, i) f lh) + mset (lh_buckets lh ! b)
    = lh_items lh + mset (take i (lh_buckets lh ! b)) + mset (f (drop i (lh_buckets lh ! b)))"
  using mset_concat_update [OF assms] by (simp add: link_update_def lh_items_def add.assoc del: mset_concat)

lemma link_update_simps [simp]:
  "lh_num_items (link_update p f lh) = lh_num_items lh"
  "lh_num_buckets (link_update p f lh) = lh_num_buckets lh"
  "lh_callback_depth (link_update p f lh) = lh_callback_depth lh"
  by (simp_all add: link_update_def split: prod.splits)

lemma link_split:
  assumes "b < length (lh_buckets lh)" and "i < length (lh_buckets lh ! b)" and "lh_buckets lh ! b ! i = it"
  obtains N where "lh_items lh = add_mset it N" "lh_items (link_update (b, i) tl lh) = N"
    "\<And>it'. lh_items (link_update (b, i) (\<lambda>c. it' # tl c) lh) = add_mset it' N"
proof -
  let ?c = "lh_buckets lh ! b"
  have d: "drop i ?c = it # drop (Suc i) ?c" using Cons_nth_drop_Suc [OF assms(2)] assms(3) by simp
  have m: "mset ?c = mset (take i ?c) + mset (drop i ?c)" by (simp flip: mset_append)
  have t: "lh_items (link_update (b, i) tl lh) + {#it#} = lh_items lh"
    using link_update_items [OF assms(1), of i tl] unfolding m d by (simp add: ac_simps)
  moreover have "lh_items (link_update (b, i) (\<lambda>c. it' # tl c) lh) + {#it#} = lh_items lh + {#it'#}" for it'
    using link_update_items [OF assms(1), of i "\<lambda>c. it' # tl c"] unfolding m d by (simp add: ac_simps)
  ultimately have "lh_items (link_update (b, i) (\<lambda>c. it' # tl c) lh) = add_mset it' (lh_items (link_update (b, i) tl lh))" for it'
    by (metis add_mset_add_single add_mset_commute add_mset_remove_trivial)
  from that [OF _ refl this] t show thesis by simp
qed

lemma link_update_buckets:
  assumes "buckets_ok hash n (lh_buckets lh)" and "b < length (lh_buckets lh)"
    and "\<And>it. it \<in> set (f (drop i (lh_buckets lh ! b))) \<Longrightarrow>
      it_hash it = hash (it_data it) \<and> bucket_of n (it_hash it) = b"
  shows "buckets_ok hash n (lh_buckets (link_update (b, i) f lh))"
  unfolding link_update_def
  by (simp, rule buckets_ok_update [OF assms(1)], use buckets_okD [OF assms(1,2)] assms(3) in \<open>metis in_set_takeD UnE set_append\<close>)

section \<open>The table as a set\<close>

text \<open>
  What a table relies on: \<open>cmp\<close> decides an equivalence and \<open>hash\<close> respects it.
\<close>

locale lhash_key =
  fixes hash :: "'d \<Rightarrow> u32" and cmp :: "'d \<Rightarrow> 'd \<Rightarrow> int"
  assumes cmp_refl: "cmp x x = 0"
    and cmp_sym: "cmp x y = 0 \<Longrightarrow> cmp y x = 0"
    and cmp_trans: "cmp x y = 0 \<Longrightarrow> cmp y z = 0 \<Longrightarrow> cmp x z = 0"
    and cmp_hash: "cmp x y = 0 \<Longrightarrow> hash x = hash y"
begin

lemma elements_bucket:
  assumes "lh_ok hash cmp lh" and "d \<in> lh_elements lh" and "cmp d x = 0"
  shows "\<exists>it \<in> set (lh_buckets lh ! bucket_of (lh_num_buckets lh) (hash x)). it_data it = d"
proof -
  from assms(2) obtain it where it: "it \<in> set (concat (lh_buckets lh))" "it_data it = d"
    by (auto simp: lh_elements_def lh_items_def)
  have "buckets_ok hash (lh_num_buckets lh) (lh_buckets lh)" using assms(1) by (simp add: lh_ok_def)
  from buckets_ok_item [OF this it(1)] it(2) cmp_hash [OF assms(3)] show ?thesis by auto
qed

text \<open>The two cases of a search: the link found holds an equal item, or no element is equal.\<close>

lemma search_cases:
  assumes ok: "lh_ok hash cmp lh"
  obtains (found) b i it where "get_next_ptr_and_hash hash cmp x lh = (hash x, b, i)"
      "b < length (lh_buckets lh)" "i < length (lh_buckets lh ! b)" "lh_buckets lh ! b ! i = it"
      "link_item lh (b, i) = Some it" "cmp (it_data it) x = 0" "b = bucket_of (lh_num_buckets lh) (hash x)"
    | (missing) b where "get_next_ptr_and_hash hash cmp x lh = (hash x, b, length (lh_buckets lh ! b))"
      "b < length (lh_buckets lh)" "link_item lh (b, length (lh_buckets lh ! b)) = None"
      "\<forall>d \<in> lh_elements lh. cmp d x \<noteq> 0" "b = bucket_of (lh_num_buckets lh) (hash x)"
proof -
  let ?b = "bucket_of (lh_num_buckets lh) (hash x)"
  let ?i = "chain_find (\<lambda>d. cmp d x = 0) (lh_buckets lh ! ?b)"
  have b: "?b < length (lh_buckets lh)" using ok bucket_of_less by (simp add: lh_ok_def buckets_ok_def)
  have g: "get_next_ptr_and_hash hash cmp x lh = (hash x, ?b, ?i)" by (simp add: get_next_ptr_and_hash_def Let_def)
  show thesis
  proof (cases "?i < length (lh_buckets lh ! ?b)")
    case True
    show thesis by (rule found [OF g b True refl]) (use True chain_find_match [OF True] in \<open>simp_all add: link_item_def\<close>)
  next
    case False
    then have i: "?i = length (lh_buckets lh ! ?b)" using chain_find_le [of _ "lh_buckets lh ! ?b"] by (meson le_neq_implies_less)
    from False have n: "\<forall>it \<in> set (lh_buckets lh ! ?b). cmp (it_data it) x \<noteq> 0" by (simp add: chain_find_none)
    have "\<forall>d \<in> lh_elements lh. cmp d x \<noteq> 0" using elements_bucket [OF ok] n by blast
    then show thesis using g b by (intro missing [of ?b]) (simp_all add: i link_item_def)
  qed
qed

lemma item_unique:
  assumes "apart cmp M" and "a \<in># M" and "c \<in># M" and "cmp (it_data a) x = 0" and "cmp (it_data c) x = 0"
  shows "c = a \<and> a \<notin># M - {#a#}"
proof -
  have e: "cmp (it_data a) (it_data c) = 0" "cmp (it_data a) (it_data a) = 0"
    using assms(4,5) cmp_sym cmp_trans cmp_refl by blast+
  have "c \<notin># M - {#a#}" "a \<notin># M - {#a#}" using assms(1,2) e unfolding apart_def by auto
  then show ?thesis using assms(3) by (metis insert_DiffM insert_noteq_member assms(2))
qed

lemma found_mem:
  assumes "b < length (lh_buckets lh)" and "i < length (lh_buckets lh ! b)" and "lh_buckets lh ! b ! i = it"
  shows "it \<in># lh_items lh"
  using assms nth_mem in_bucketI [of b "lh_buckets lh" it] by (force simp: lh_items_def simp del: mset_concat)

theorem retrieve_spec:
  assumes ok: "lh_ok hash cmp lh"
  shows "OPENSSL_lh_retrieve hash cmp lh x = Some d \<longleftrightarrow> d \<in> lh_elements lh \<and> cmp d x = 0"
  using ok
proof (cases rule: search_cases [of _ x])
  case (found b i it)
  have it: "it \<in># lh_items lh" by (rule found_mem [OF found(2-4)])
  have r: "OPENSSL_lh_retrieve hash cmp lh x = Some (it_data it)" using found by (simp add: OPENSSL_lh_retrieve_def)
  show ?thesis unfolding r
  proof
    assume "Some (it_data it) = Some d"
    with it found(6) show "d \<in> lh_elements lh \<and> cmp d x = 0" by (auto simp: lh_elements_def)
  next
    assume d: "d \<in> lh_elements lh \<and> cmp d x = 0"
    then obtain c where "c \<in># lh_items lh" "it_data c = d" by (auto simp: lh_elements_def)
    with item_unique [of "lh_items lh" it c x] it found(6) d ok show "Some (it_data it) = Some d"
      by (auto simp: lh_ok_def)
  qed
next
  case (missing b)
  then show ?thesis by (auto simp: OPENSSL_lh_retrieve_def)
qed


theorem insert_spec:
  assumes ok: "lh_ok hash cmp lh" and room: "unat (lh_num_items lh) + 1 < 2 ^ 64"
    and ins: "OPENSSL_lh_insert al hash cmp x lh = (r, old, lh')"
  shows "lh_ok hash cmp lh' \<and> old = OPENSSL_lh_retrieve hash cmp lh x
    \<and> (if r then lh_elements lh' = insert x {d \<in> lh_elements lh. cmp d x \<noteq> 0} else lh' = lh \<and> \<not> al 24 \<and> old = None)"
  using ok
proof (cases rule: search_cases [of _ x])
  case (found b i it)
  obtain N where N: "lh_items lh = add_mset it N"
      "\<And>it'. lh_items (link_update (b, i) (\<lambda>c. it' # tl c) lh) = add_mset it' N"
    by (rule link_split [OF found(2-4)]) blast
  let ?it = "it\<lparr>it_data := x\<rparr>"
  have e: "r" "old = Some (it_data it)" "lh' = link_update (b, i) (\<lambda>c. ?it # tl c) lh"
    using ins found by (simp_all add: OPENSSL_lh_insert_def)
  have bk: "buckets_ok hash (lh_num_buckets lh) (lh_buckets lh)" and ap: "apart cmp (add_mset it N)"
    using ok N(1) by (simp_all add: lh_ok_def)
  have far: "cmp (it_data c) x \<noteq> 0 \<and> cmp x (it_data c) \<noteq> 0" if "c \<in># N" for c
    using ap that found(6) cmp_sym cmp_trans unfolding apart_add by blast
  have "apart cmp (add_mset ?it N)" using ap far unfolding apart_add by simp
  moreover have "buckets_ok hash (lh_num_buckets lh) (lh_buckets lh')"
    unfolding e(3)
  proof (rule link_update_buckets [OF bk found(2)])
    fix c assume "c \<in> set (?it # tl (drop i (lh_buckets lh ! b)))"
    then consider "c = ?it" | "c \<in> set (lh_buckets lh ! b)"
      by (metis in_set_dropD list.sel(2) list.set_sel(2) set_ConsD)
    then show "it_hash c = hash (it_data c) \<and> bucket_of (lh_num_buckets lh) (it_hash c) = b"
    proof cases
      case 1
      have "it \<in> set (lh_buckets lh ! b)" using found(3,4) by auto
      from buckets_okD [OF bk found(2) this] 1 cmp_hash [OF found(6)] found(7) show ?thesis by simp
    next
      case 2
      then show ?thesis by (rule buckets_okD [OF bk found(2)])
    qed
  qed
  ultimately have "lh_ok hash cmp lh'" using ok N e(3) by (simp add: lh_ok_def)
  moreover have "lh_elements lh' = insert x {d \<in> lh_elements lh. cmp d x \<noteq> 0}"
    using far found(6) by (auto simp: lh_elements_def e(3) N)
  moreover have "old = OPENSSL_lh_retrieve hash cmp lh x"
    using found e(2) by (simp add: OPENSSL_lh_retrieve_def)
  ultimately show ?thesis using e(1) by simp
next
  case (missing b)
  let ?p = "(b, length (lh_buckets lh ! b))"
  let ?it = "\<lparr>it_data = x, it_hash = hash x\<rparr>"
  let ?lh1 = "link_update ?p (\<lambda>_. [?it]) lh"
  let ?lh2 = "?lh1\<lparr>lh_num_items := lh_num_items lh + 1\<rparr>"
  have old: "OPENSSL_lh_retrieve hash cmp lh x = None" using missing by (simp add: OPENSSL_lh_retrieve_def)
  show ?thesis
  proof (cases "al 24")
    case False
    with ins missing have "\<not> r" "old = None" "lh' = lh" by (auto simp: OPENSSL_lh_insert_def)
    with ok old False show ?thesis by simp
  next
    case True
    have e: "r" "old = None" "lh' = lh_maybe_resize al ?lh2"
      using ins missing True by (simp_all add: OPENSSL_lh_insert_def Let_def)
    have it: "lh_items ?lh1 = add_mset ?it (lh_items lh)"
      using link_update_items [OF missing(2), of "length (lh_buckets lh ! b)" "\<lambda>_. [?it]"] by simp
    then have it2: "lh_items ?lh2 = add_mset ?it (lh_items lh)" by (simp add: lh_items_def)
    have far: "cmp (it_data c) x \<noteq> 0 \<and> cmp x (it_data c) \<noteq> 0" if "c \<in># lh_items lh" for c
      using missing(4) cmp_sym that by (auto simp: lh_elements_def)
    have "buckets_ok hash (lh_num_buckets lh) (lh_buckets ?lh1)"
      using ok missing(2,5) by (intro link_update_buckets) (auto simp: lh_ok_def)
    moreover have "apart cmp (lh_items ?lh2)" using ok far by (simp add: it2 apart_add lh_ok_def)
    moreover have "unat (lh_num_items lh + 1) = unat (lh_num_items lh) + 1" using room by (simp add: unat_word_ariths)
    ultimately have "lh_ok hash cmp ?lh2" using ok by (simp add: lh_ok_def it2)
    from lh_maybe_resize_ok [OF this, of al]
    have "lh_ok hash cmp lh' \<and> lh_items lh' = add_mset ?it (lh_items lh)" unfolding e(3) it2 by simp
    with missing(4) e old show ?thesis by (auto simp: lh_elements_def)
  qed
qed

theorem delete_spec:
  assumes ok: "lh_ok hash cmp lh" and del: "OPENSSL_lh_delete al hash cmp x lh = (old, lh')"
  shows "lh_ok hash cmp lh' \<and> old = OPENSSL_lh_retrieve hash cmp lh x
    \<and> lh_elements lh' = {d \<in> lh_elements lh. cmp d x \<noteq> 0}"
  using ok
proof (cases rule: search_cases [of _ x])
  case (found b i it)
  let ?lh2 = "link_update (b, i) tl lh\<lparr>lh_num_items := lh_num_items lh - 1\<rparr>"
  obtain N where N: "lh_items lh = add_mset it N" "lh_items (link_update (b, i) tl lh) = N"
    by (rule link_split [OF found(2-4)]) blast
  have e: "old = Some (it_data it)" "lh' = lh_maybe_resize al ?lh2"
    using del found by (simp_all add: OPENSSL_lh_delete_def Let_def)
  have N2: "lh_items ?lh2 = N" using N(2) by (simp add: lh_items_def)
  have bk: "buckets_ok hash (lh_num_buckets lh) (lh_buckets lh)" and ap: "apart cmp (add_mset it N)"
    and n: "unat (lh_num_items lh) = Suc (size N)"
    using ok N(1) by (simp_all add: lh_ok_def)
  have far: "cmp (it_data c) x \<noteq> 0" if "c \<in># N" for c
    using ap that found(6) cmp_sym cmp_trans unfolding apart_add by blast
  have "buckets_ok hash (lh_num_buckets lh) (lh_buckets (link_update (b, i) tl lh))"
    using bk found(2)
  proof (rule link_update_buckets)
    fix c assume "c \<in> set (tl (drop i (lh_buckets lh ! b)))"
    then have "c \<in> set (lh_buckets lh ! b)" by (metis in_set_dropD list.sel(2) list.set_sel(2))
    then show "it_hash c = hash (it_data c) \<and> bucket_of (lh_num_buckets lh) (it_hash c) = b"
      by (rule buckets_okD [OF bk found(2)])
  qed
  moreover have "unat (lh_num_items lh - 1) = size N"
  proof -
    have "lh_num_items lh \<noteq> 0" using n by auto
    from unat_minus_one [OF this] n show ?thesis by simp
  qed
  ultimately have "lh_ok hash cmp ?lh2" using ok ap by (simp add: lh_ok_def N2 apart_add)
  from lh_maybe_resize_ok [OF this, of al]
  have "lh_ok hash cmp lh' \<and> lh_items lh' = N" unfolding e(2) N2 by simp
  with far found e(1) show ?thesis by (auto simp: lh_elements_def N(1) OPENSSL_lh_retrieve_def)
next
  case (missing b)
  with del ok show ?thesis by (auto simp: OPENSSL_lh_delete_def OPENSSL_lh_retrieve_def)
qed


lemma option_eqI: "(\<And>d. a = Some d \<longleftrightarrow> b = Some d) \<Longrightarrow> a = b" for a b :: "'z option"
  by (cases a; cases b) auto

lemma insert_retrieve:
  assumes "lh_ok hash cmp lh" and "unat (lh_num_items lh) + 1 < 2 ^ 64"
    and "OPENSSL_lh_insert al hash cmp x lh = (r, old, lh')"
  shows "OPENSSL_lh_retrieve hash cmp lh' y
    = (if r \<and> cmp x y = 0 then Some x else OPENSSL_lh_retrieve hash cmp lh y)"
proof -
  have s: "lh_ok hash cmp lh'" "r \<Longrightarrow> lh_elements lh' = insert x {d \<in> lh_elements lh. cmp d x \<noteq> 0}" "\<not> r \<Longrightarrow> lh' = lh"
    using insert_spec [OF assms] by auto
  show ?thesis
  proof (cases "r")
    case True
    show ?thesis
    proof (rule option_eqI)
      fix d
      have "cmp d y = 0 \<Longrightarrow> (cmp d x = 0) = (cmp x y = 0)" using cmp_sym cmp_trans by blast
      then show "(OPENSSL_lh_retrieve hash cmp lh' y = Some d)
        = ((if r \<and> cmp x y = 0 then Some x else OPENSSL_lh_retrieve hash cmp lh y) = Some d)"
        unfolding retrieve_spec [OF s(1)] s(2) [OF True] using True by (auto simp: retrieve_spec [OF assms(1)])
    qed
  qed (use s(3) in simp)
qed

lemma delete_retrieve:
  assumes "lh_ok hash cmp lh" and "OPENSSL_lh_delete al hash cmp x lh = (old, lh')"
  shows "OPENSSL_lh_retrieve hash cmp lh' y = (if cmp x y = 0 then None else OPENSSL_lh_retrieve hash cmp lh y)"
proof -
  have s: "lh_ok hash cmp lh'" "lh_elements lh' = {d \<in> lh_elements lh. cmp d x \<noteq> 0}"
    using delete_spec [OF assms] by auto
  show ?thesis
  proof (rule option_eqI)
    fix d
    have "cmp d y = 0 \<Longrightarrow> (cmp d x = 0) = (cmp x y = 0)" using cmp_sym cmp_trans by blast
    then show "(OPENSSL_lh_retrieve hash cmp lh' y = Some d)
      = ((if cmp x y = 0 then None else OPENSSL_lh_retrieve hash cmp lh y) = Some d)"
      unfolding retrieve_spec [OF s(1)] s(2) by (auto simp: retrieve_spec [OF assms(1)])
  qed
qed

end

lemma lh_maybe_resize_num [simp]: "lh_num_items (lh_maybe_resize al lh) = lh_num_items lh"
  by (simp add: lh_maybe_resize_def lh_rebucket_def Let_def)

lemma insert_num:
  "OPENSSL_lh_insert al hash cmp x lh = (r, old, lh') \<Longrightarrow> lh_num_items lh' \<in> {lh_num_items lh, lh_num_items lh + 1}"
  by (auto simp: OPENSSL_lh_insert_def Let_def split: prod.splits option.splits if_splits)

lemma OPENSSL_lh_new_ok:
  assumes "OPENSSL_lh_new al = Some lh"
  shows "lh_ok hash cmp lh \<and> lh_elements lh = {} \<and> lh_num_items lh = 0 \<and> lh_callback_depth lh = 0"
  using assms by (auto simp: OPENSSL_lh_new_def lh_ok_def buckets_ok_def lh_items_def lh_elements_def apart_def
      kMinNumBuckets_def split: if_splits)

text \<open>The callback sees every element once, whatever the order, and the table keeps its items.\<close>

lemma lh_ok_depth [simp]:
  "lh_ok hash cmp (lh\<lparr>lh_callback_depth := d\<rparr>) = lh_ok hash cmp lh"
  "lh_items (lh\<lparr>lh_callback_depth := d\<rparr>) = lh_items lh"
  by (simp_all add: lh_ok_def lh_items_def)

lemma doall_table:
  "OPENSSL_lh_doall_arg al func arg lh =
     (foldl (\<lambda>a d. func d a) arg (map it_data (concat (lh_buckets lh))),
      lh_maybe_resize al (lh\<lparr>lh_callback_depth :=
        (if lh_callback_depth lh + 1 = - 1 then - 1 else lh_callback_depth lh)\<rparr>))"
proof -
  let ?d = "lh_callback_depth lh"
  have c: "?d < - 1 \<longleftrightarrow> ?d \<noteq> - 1" "?d + 1 < - 1 \<longleftrightarrow> ?d + 1 \<noteq> - 1" using word_order.not_eq_extremum by blast+
  have same: "lh\<lparr>lh_callback_depth := - 1\<rparr> = lh" if "?d = - 1" using that by (cases lh) simp
  show ?thesis
  proof (cases "?d = - 1")
    case True
    then show ?thesis by (simp add: OPENSSL_lh_doall_arg_def Let_def foldl_map same)
  next
    case False
    show ?thesis
    proof (cases "?d + 1 = - 1")
      case True
      then have "?d < - 1" "\<not> ?d + 1 < - 1" using False c by simp_all
      then show ?thesis using True by (simp only: OPENSSL_lh_doall_arg_def Let_def) (simp add: foldl_map)
    next
      case F: False
      then show ?thesis using False by (simp add: OPENSSL_lh_doall_arg_def Let_def foldl_map c)
    qed
  qed
qed

theorem OPENSSL_lh_doall_arg_spec:
  assumes ok: "lh_ok hash cmp lh" and run: "OPENSSL_lh_doall_arg al func arg lh = (arg', lh')"
  shows "\<exists>ds. mset ds = image_mset it_data (lh_items lh) \<and> arg' = foldl (\<lambda>a d. func d a) arg ds
    \<and> lh_ok hash cmp lh' \<and> lh_items lh' = lh_items lh"
proof (intro exI conjI)
  show "mset (map it_data (concat (lh_buckets lh))) = image_mset it_data (lh_items lh)" by (simp add: lh_items_def)
  show "arg' = foldl (\<lambda>a d. func d a) arg (map it_data (concat (lh_buckets lh)))" using run by (simp add: doall_table)
  show "lh_ok hash cmp lh'" "lh_items lh' = lh_items lh"
    using run lh_maybe_resize_ok [OF lh_ok_depth(1) [THEN iffD2, OF ok]] by (auto simp: doall_table)
qed

text \<open>A lookup by a key acts as one by an element that stands for it.\<close>

lemma OPENSSL_lh_retrieve_key_eq:
  assumes "key_hash = hash x" and "\<And>d. cmp_key key d = 0 \<longleftrightarrow> cmp d x = 0"
  shows "OPENSSL_lh_retrieve_key key_hash cmp_key lh key = OPENSSL_lh_retrieve hash cmp lh x"
  by (simp add: OPENSSL_lh_retrieve_key_def OPENSSL_lh_retrieve_def get_next_ptr_by_key_def get_next_ptr_and_hash_def
      Let_def assms)

section \<open>The table as a map\<close>

text \<open>
  The calls of a client, each with the allocator's answers while it runs, and the map they act on: the
  object that a lookup of \<open>x\<close> finds.
\<close>

datatype 'd lh_op = LhInsert "u64 \<Rightarrow> bool" 'd | LhDelete "u64 \<Rightarrow> bool" 'd | LhRetrieve 'd

fun lh_call :: "('d \<Rightarrow> u32) \<Rightarrow> ('d \<Rightarrow> 'd \<Rightarrow> int) \<Rightarrow> 'd lh_op \<Rightarrow> 'd lhash \<Rightarrow> (bool \<times> 'd option) \<times> 'd lhash" where
  "lh_call hash cmp (LhInsert ok x) lh = (case OPENSSL_lh_insert ok hash cmp x lh of (r, old, lh') \<Rightarrow> ((r, old), lh'))"
| "lh_call hash cmp (LhDelete ok x) lh = (case OPENSSL_lh_delete ok hash cmp x lh of (old, lh') \<Rightarrow> ((True, old), lh'))"
| "lh_call hash cmp (LhRetrieve x) lh = ((True, OPENSSL_lh_retrieve hash cmp lh x), lh)"

fun map_call :: "('d \<Rightarrow> 'd \<Rightarrow> int) \<Rightarrow> 'd lh_op \<Rightarrow> ('d \<Rightarrow> 'd option) \<Rightarrow> (bool \<times> 'd option) \<times> ('d \<Rightarrow> 'd option)" where
  "map_call cmp (LhInsert ok x) m =
     (if m x = None \<and> \<not> ok 24 then ((False, None), m)
      else ((True, m x), \<lambda>y. if cmp x y = 0 then Some x else m y))"
| "map_call cmp (LhDelete ok x) m = ((True, m x), \<lambda>y. if cmp x y = 0 then None else m y)"
| "map_call cmp (LhRetrieve x) m = ((True, m x), m)"

lemma insert_success:
  "OPENSSL_lh_insert al hash cmp x lh = (r, old, lh') \<Longrightarrow>
     r = (OPENSSL_lh_retrieve hash cmp lh x \<noteq> None \<or> al 24)"
  by (auto simp: OPENSSL_lh_insert_def OPENSSL_lh_retrieve_def Let_def split: prod.splits option.splits if_splits)

context lhash_key
begin

lemma call_simulates:
  assumes ok: "lh_ok hash cmp lh" and room: "unat (lh_num_items lh) + 1 < 2 ^ 64"
    and run: "lh_call hash cmp c lh = (r, lh')"
  shows "lh_ok hash cmp lh' \<and> unat (lh_num_items lh') \<le> unat (lh_num_items lh) + 1
    \<and> map_call cmp c (OPENSSL_lh_retrieve hash cmp lh) = (r, OPENSSL_lh_retrieve hash cmp lh')"
proof (cases c)
  case (LhInsert al x)
  obtain b old where i: "OPENSSL_lh_insert al hash cmp x lh = (b, old, lh')" "r = (b, old)"
    using run LhInsert by (auto split: prod.splits)
  have n: "unat (lh_num_items lh + 1) = unat (lh_num_items lh) + 1" using room by (simp add: unat_word_ariths)
  from i(2) LhInsert insert_success [OF i(1)] insert_spec [OF ok room i(1)] insert_num [OF i(1)] n
    insert_retrieve [OF ok room i(1)]
  show ?thesis by (auto split: if_splits)
next
  case (LhDelete al x)
  obtain old where d: "OPENSSL_lh_delete al hash cmp x lh = (old, lh')" "r = (True, old)"
    using run LhDelete by (auto split: prod.splits)
  have "unat (lh_num_items lh') \<le> unat (lh_num_items lh)"
  proof (cases "old")
    case None
    then show ?thesis using d(1) by (auto simp: OPENSSL_lh_delete_def Let_def split: prod.splits option.splits)
  next
    case (Some o')
    then have e: "lh_num_items lh' = lh_num_items lh - 1" using d(1)
      by (auto simp: OPENSSL_lh_delete_def Let_def split: prod.splits option.splits)
    have "OPENSSL_lh_retrieve hash cmp lh x = Some o'" using delete_spec [OF ok d(1)] Some by simp
    then have "lh_items lh \<noteq> {#}" by (auto simp: retrieve_spec [OF ok] lh_elements_def)
    then have "lh_num_items lh \<noteq> 0" using ok by (auto simp: lh_ok_def)
    then show ?thesis unfolding e by (simp add: unat_minus_one)
  qed
  with d(2) LhDelete delete_spec [OF ok d(1)] delete_retrieve [OF ok d(1)] show ?thesis by auto
qed (use assms in auto)

lemma calls_simulate:
  "lh_ok hash cmp lh \<Longrightarrow> unat (lh_num_items lh) + length cs < 2 ^ 64 \<Longrightarrow>
     run_calls (lh_call hash cmp) cs lh = (rs, lh') \<Longrightarrow>
     lh_ok hash cmp lh' \<and> run_calls (map_call cmp) cs (OPENSSL_lh_retrieve hash cmp lh) = (rs, OPENSSL_lh_retrieve hash cmp lh')"
proof (induction cs arbitrary: lh rs)
  case (Cons c cs)
  obtain r lh1 rs1 where c: "lh_call hash cmp c lh = (r, lh1)" and cs: "run_calls (lh_call hash cmp) cs lh1 = (rs1, lh')"
    and rs: "rs = r # rs1"
    using Cons.prems(3) by (auto split: prod.splits)
  have "unat (lh_num_items lh) + 1 < 2 ^ 64" using Cons.prems(2) by simp
  from call_simulates [OF Cons.prems(1) this c] Cons.IH [OF _ _ cs] Cons.prems(2) rs
  show ?case by simp
qed simp

end

text \<open>
  C35. Refinement: a table created by \<open>OPENSSL_lh_new\<close> answers any sequence of insertions, deletions and
  lookups exactly as a map does, and keeps its invariant. Resizing, whether its allocation succeeds or
  not, is not seen by a client; only an insertion of a new element fails, when its item cannot be allocated.
\<close>

theorem lhash_refines_map:
  assumes "lhash_key hash cmp" and "OPENSSL_lh_new al = Some lh" and "length cs < 2 ^ 64"
    and "run_calls (lh_call hash cmp) cs lh = (rs, lh')"
  shows "lh_ok hash cmp lh' \<and> run_calls (map_call cmp) cs (\<lambda>_. None) = (rs, OPENSSL_lh_retrieve hash cmp lh')"
proof -
  have ok: "lh_ok hash cmp lh" "lh_elements lh = {}" "lh_num_items lh = 0"
    using OPENSSL_lh_new_ok [OF assms(2)] by blast+
  then have "OPENSSL_lh_retrieve hash cmp lh = (\<lambda>_. None)"
    using lhash_key.retrieve_spec [OF assms(1) ok(1)] by (intro ext) (metis empty_iff not_Some_eq)
  with lhash_key.calls_simulate [OF assms(1) ok(1) _ assms(4)] assms(3) ok(3) show ?thesis by simp
qed

lemma mod3_key: "lhash_key (\<lambda>n::nat. of_nat (n mod 3)) (\<lambda>a b. int a - int b)"
  by unfold_locales auto

lemma lhash_refines_map_witness:
  "\<exists>lh lh'. OPENSSL_lh_new (\<lambda>_. True) = Some lh
     \<and> run_calls (lh_call (\<lambda>n::nat. of_nat (n mod 3)) (\<lambda>a b. int a - int b))
         [LhInsert (\<lambda>_. True) 1, LhInsert (\<lambda>_. True) 4, LhDelete (\<lambda>_. True) 1, LhRetrieve 4, LhInsert (\<lambda>_. False) 7] lh
       = ([(True, None), (True, None), (True, Some 1), (True, Some 4), (False, None)], lh')"
proof -
  let ?cs = "[LhInsert (\<lambda>_. True) 1, LhInsert (\<lambda>_. True) 4, LhDelete (\<lambda>_. True) 1, LhRetrieve 4, LhInsert (\<lambda>_. False) (7::nat)]"
  obtain lh where n: "OPENSSL_lh_new (\<lambda>_. True) = (Some lh :: nat lhash option)" by (simp add: OPENSSL_lh_new_def)
  obtain rs lh' where r: "run_calls (lh_call (\<lambda>n::nat. of_nat (n mod 3)) (\<lambda>a b. int a - int b)) ?cs lh = (rs, lh')"
    by (rule prod.exhaust)
  from lhash_refines_map [OF mod3_key n _ r]
  have "rs = [(True, None), (True, None), (True, Some 1), (True, Some 4), (False, None)]" by simp
  with n r show ?thesis by blast
qed

end
