(* ===== verification/Stack.thy ===== *)
theory Stack
  imports CbbSetOf
begin

text \<open>
  The stacks of BoringSSL (crypto/stack/stack.c): growing arrays of pointers with an optional comparison and
  a flag that says whether they are known to be sorted.

  A stack's array is the list of its words, the slots past \<open>num\<close> included; a pointer is a word and
  \<open>NULL\<close> is 0. A comparison function is known by its address, a value of type \<open>'c\<close>, which
  \<open>sk_set_cmp_func\<close> compares, and \<open>call\<close> is what a call of the function at an address gives for two
  elements. \<open>qsort\<close> is the sorting function of the C library. \<open>al\<close> is the allocator: the block it returns for a request of so many bytes, as a list of words.
  The operations take a \<open>_STACK *\<close>, whose \<open>NULL\<close> is \<open>None\<close>, and return their result and the stack.
\<close>

section \<open>Stacks\<close>

record 'c stack_st =
  sk_len :: u64
  sk_data :: "u64 list"
  sk_sorted :: bool
  sk_num_alloc :: u64
  sk_comp :: "'c option"

type_synonym word_allocator = "u64 \<Rightarrow> u64 list option"

definition kMinSize :: u64 where "kMinSize = 4"

text \<open>A \<open>_STACK\<close> takes 40 bytes.\<close>

definition sk_new :: "word_allocator \<Rightarrow> 'c option \<Rightarrow> 'c stack_st option" where
  "sk_new al cmpf =
     (if al 40 = None then None
      else if al (8 * kMinSize) = None then None
      else Some \<lparr>sk_len = 0, sk_data = replicate (unat kMinSize) 0, sk_sorted = False,
                 sk_num_alloc = kMinSize, sk_comp = cmpf\<rparr>)"

definition sk_new_null :: "word_allocator \<Rightarrow> 'c stack_st option" where
  "sk_new_null al = sk_new al None"

text \<open>An operation of a stack that is not \<open>NULL\<close>, and its result when it is.\<close>

definition on_stack :: "'r \<Rightarrow> ('c stack_st \<Rightarrow> 'r \<times> 'c stack_st) \<Rightarrow> 'c stack_st option \<Rightarrow> 'r \<times> 'c stack_st option" where
  "on_stack r0 f sk = (case sk of None \<Rightarrow> (r0, None) | Some s \<Rightarrow> (case f s of (r, s') \<Rightarrow> (r, Some s')))"

definition sk_num :: "'c stack_st option \<Rightarrow> u64" where
  "sk_num sk = (case sk of None \<Rightarrow> 0 | Some s \<Rightarrow> sk_len s)"

definition sk_zero :: "'c stack_st option \<Rightarrow> 'c stack_st option" where
  "sk_zero sk =
     (case sk of
        None \<Rightarrow> None
      | Some s \<Rightarrow>
          if sk_len s = 0 then Some s
          else Some (s\<lparr>sk_data := replicate (unat (sk_len s)) 0 @ drop (unat (sk_len s)) (sk_data s),
                       sk_len := 0, sk_sorted := False\<rparr>))"

definition sk_value :: "'c stack_st option \<Rightarrow> u64 \<Rightarrow> u64" where
  "sk_value sk i = (case sk of None \<Rightarrow> 0 | Some s \<Rightarrow> if i \<ge> sk_len s then 0 else sk_data s ! unat i)"

definition sk_set :: "u64 \<Rightarrow> u64 \<Rightarrow> 'c stack_st option \<Rightarrow> u64 \<times> 'c stack_st option" where
  "sk_set i v = on_stack 0 (\<lambda>s.
     if i \<ge> sk_len s then (0, s) else (v, s\<lparr>sk_data := (sk_data s)[unat i := v]\<rparr>))"

text \<open>The pointers that \<open>free_func\<close> is called with.\<close>

definition sk_pop_free_ex :: "'c stack_st option \<Rightarrow> u64 list" where
  "sk_pop_free_ex sk =
     (case sk of None \<Rightarrow> [] | Some s \<Rightarrow> filter (\<lambda>p. p \<noteq> 0) (take (unat (sk_len s)) (sk_data s)))"

definition sk_pop_free :: "'c stack_st option \<Rightarrow> u64 list" where
  "sk_pop_free sk = sk_pop_free_ex sk"

section \<open>Inserting and deleting\<close>

text \<open>\<open>OPENSSL_memmove\<close> of \<open>n\<close> words from place \<open>src\<close> of an array to place \<open>dst\<close>.\<close>

definition move_words :: "nat \<Rightarrow> nat \<Rightarrow> nat \<Rightarrow> u64 list \<Rightarrow> u64 list" where
  "move_words dst src n xs = take dst xs @ take n (drop src xs) @ drop (dst + n) xs"

text \<open>The size of an array that grows: doubled, one more when that overflows, none when that overflows too.\<close>

definition grown_alloc :: "u64 \<Rightarrow> u64 option" where
  "grown_alloc n =
     (let new_alloc = push_bit 1 n;
          alloc_size = new_alloc * 8;
          over = (new_alloc < n \<or> alloc_size div 8 \<noteq> new_alloc);
          new_alloc = (if over then n + 1 else new_alloc);
          alloc_size = (if over then new_alloc * 8 else alloc_size)
      in if new_alloc < n \<or> alloc_size div 8 \<noteq> new_alloc then None else Some new_alloc)"

definition stack_room :: "word_allocator \<Rightarrow> 'c stack_st \<Rightarrow> 'c stack_st option" where
  "stack_room al s =
     (if sk_num_alloc s \<le> sk_len s + 1 then
        (case grown_alloc (sk_num_alloc s) of
           None \<Rightarrow> None
         | Some new_alloc \<Rightarrow>
             (case al (new_alloc * 8) of
                None \<Rightarrow> None
              | Some blk \<Rightarrow>
                  Some (s\<lparr>sk_data := sk_data s @ drop (length (sk_data s)) blk, sk_num_alloc := new_alloc\<rparr>)))
      else Some s)"

definition sk_insert :: "word_allocator \<Rightarrow> u64 \<Rightarrow> u64 \<Rightarrow> 'c stack_st option \<Rightarrow> u64 \<times> 'c stack_st option" where
  "sk_insert al p whr = on_stack 0 (\<lambda>s.
     (case stack_room al s of
        None \<Rightarrow> (0, s)
      | Some s \<Rightarrow>
          (let data =
                 (if whr \<ge> sk_len s then (sk_data s)[unat (sk_len s) := p]
                  else (move_words (unat (whr + 1)) (unat whr) (unat (sk_len s - whr)) (sk_data s))[unat whr := p])
           in (sk_len s + 1, s\<lparr>sk_data := data, sk_len := sk_len s + 1, sk_sorted := False\<rparr>))))"

definition sk_delete :: "u64 \<Rightarrow> 'c stack_st option \<Rightarrow> u64 \<times> 'c stack_st option" where
  "sk_delete whr = on_stack 0 (\<lambda>s.
     if whr \<ge> sk_len s then (0, s)
     else
       (let ret = sk_data s ! unat whr;
            data = (if whr \<noteq> sk_len s - 1
                    then move_words (unat whr) (unat (whr + 1)) (unat (sk_len s - whr - 1)) (sk_data s) else sk_data s)
        in (ret, s\<lparr>sk_data := data, sk_len := sk_len s - 1\<rparr>)))"

text \<open>The loops that look for the first element with a property.\<close>

fun first_where :: "(u64 \<Rightarrow> bool) \<Rightarrow> u64 list \<Rightarrow> nat option" where
  "first_where P [] = None"
| "first_where P (x # xs) = (if P x then Some 0 else map_option Suc (first_where P xs))"

definition sk_delete_ptr :: "u64 \<Rightarrow> 'c stack_st option \<Rightarrow> u64 \<times> 'c stack_st option" where
  "sk_delete_ptr p sk =
     (case sk of
        None \<Rightarrow> (0, None)
      | Some s \<Rightarrow>
          (case first_where (\<lambda>x. x = p) (take (unat (sk_len s)) (sk_data s)) of
             None \<Rightarrow> (0, Some s)
           | Some i \<Rightarrow> sk_delete (of_nat i) (Some s)))"

definition sk_shift :: "'c stack_st option \<Rightarrow> u64 \<times> 'c stack_st option" where
  "sk_shift sk = (if sk_num sk = 0 then (0, sk) else sk_delete 0 sk)"

definition sk_push :: "word_allocator \<Rightarrow> u64 \<Rightarrow> 'c stack_st option \<Rightarrow> u64 \<times> 'c stack_st option" where
  "sk_push al p sk = sk_insert al p (sk_num sk) sk"

definition sk_pop :: "'c stack_st option \<Rightarrow> u64 \<times> 'c stack_st option" where
  "sk_pop sk = (if sk_num sk = 0 then (0, sk) else sk_delete (sk_num sk - 1) sk)"

section \<open>Sorting and searching\<close>

lemma mid_unat: "lo < hi \<Longrightarrow> unat (lo + (hi - lo - 1) div 2) = unat lo + (unat hi - unat lo - 1) div 2" for lo hi :: u64
proof -
  assume lt: "lo < hi"
  then have l: "unat lo < unat hi" by (simp add: word_less_nat_alt)
  then have d: "unat (hi - lo) = unat hi - unat lo" by (simp add: unat_sub_if')
  then have "hi - lo \<noteq> 0" using l by auto
  then have "unat (hi - lo - 1) = unat hi - unat lo - 1" using d by (simp add: unat_minus_one)
  then have q: "unat ((hi - lo - 1) div 2) = (unat hi - unat lo - 1) div 2" by (simp add: unat_div)
  have "unat lo + (unat hi - unat lo - 1) div 2 < 2 ^ 64" using l unsigned_less [of hi, where 'a = nat] by simp
  then show ?thesis using q by (simp add: unat_word_ariths)
qed

lemma mid_less:
  "lo < hi \<Longrightarrow> unat lo \<le> unat (lo + (hi - lo - 1) div 2) \<and> unat (lo + (hi - lo - 1) div 2) < unat hi" for lo hi :: u64
  using mid_unat [of lo hi] by (simp add: word_less_nat_alt)

lemma mid_Suc: "lo < hi \<Longrightarrow> unat (lo + (hi - lo - 1) div 2 + 1) = Suc (unat (lo + (hi - lo - 1) div 2))" for lo hi :: u64
proof -
  assume "lo < hi"
  from mid_less [OF this] have "unat (lo + (hi - lo - 1) div 2) + 1 < 2 ^ 64"
    using unsigned_less [of hi, where 'a = nat] by simp
  then show ?thesis by (simp only: unat_word_ariths(1)) simp
qed

lemma mid_early: "lo < hi \<Longrightarrow> hi - lo \<noteq> 1 \<Longrightarrow> Suc (unat (lo + (hi - lo - 1) div 2)) < unat hi" for lo hi :: u64
proof -
  assume lt: "lo < hi" and ne: "hi - lo \<noteq> 1"
  from lt have l: "unat lo < unat hi" by (simp add: word_less_nat_alt)
  then have "unat (hi - lo) = unat hi - unat lo" by (simp add: unat_sub_if')
  with ne have "unat hi - unat lo \<noteq> 1" by (metis unsigned_1 word_unat_eq_iff)
  with l show ?thesis unfolding mid_unat [OF lt] by linarith
qed

function sk_search :: "(u64 \<Rightarrow> int) \<Rightarrow> u64 list \<Rightarrow> u64 \<Rightarrow> u64 \<Rightarrow> u64 option" where
  "sk_search c data lo hi =
     (if lo < hi then
        (let mid = lo + (hi - lo - 1) div 2; r = c (data ! unat mid) in
         if r > 0 then sk_search c data (mid + 1) hi
         else if r < 0 then sk_search c data lo mid
         else if hi - lo = 1 then Some mid
         else sk_search c data lo (mid + 1))
      else None)"
  by pat_completeness auto
termination
proof (relation "measure (\<lambda>(_, _, lo, hi). unat hi - unat lo)", goal_cases)
  case (2 c data lo hi mid r)
  then show ?case using mid_Suc [OF 2(1)] mid_less [OF 2(1)] by (simp only: in_measure prod.case) linarith
next
  case (3 c data lo hi mid r)
  then show ?case using mid_less [OF 3(1)] by (simp only: in_measure prod.case) linarith
next
  case (4 c data lo hi mid r)
  then show ?case using mid_Suc [OF 4(1)] mid_less [OF 4(1)] mid_early [OF 4(1) 4(6)]
    by (simp only: in_measure prod.case) linarith
qed simp

declare sk_search.simps [simp del]

definition sk_find :: "('c \<Rightarrow> u64 \<Rightarrow> u64 \<Rightarrow> int) \<Rightarrow> u64 \<Rightarrow> 'c stack_st option \<Rightarrow> u64 option" where
  "sk_find call p sk =
     (case sk of
        None \<Rightarrow> None
      | Some s \<Rightarrow>
          (let elems = take (unat (sk_len s)) (sk_data s) in
           (case sk_comp s of
              None \<Rightarrow> map_option of_nat (first_where (\<lambda>x. x = p) elems)
            | Some c \<Rightarrow>
                if p = 0 then None
                else if \<not> sk_sorted s then map_option of_nat (first_where (\<lambda>x. call c p x = 0) elems)
                else sk_search (call c p) (sk_data s) 0 (sk_len s))))"

definition sk_sort :: "u64 sorter \<Rightarrow> ('c \<Rightarrow> u64 \<Rightarrow> u64 \<Rightarrow> int) \<Rightarrow> 'c stack_st option \<Rightarrow> 'c stack_st option" where
  "sk_sort qsort call sk =
     (case sk of
        None \<Rightarrow> None
      | Some s \<Rightarrow>
          (case sk_comp s of
             None \<Rightarrow> Some s
           | Some c \<Rightarrow>
               if sk_sorted s then Some s
               else
                 (let n = unat (sk_len s);
                      data = (if sk_len s \<ge> 2 then qsort (call c) (take n (sk_data s)) @ drop n (sk_data s) else sk_data s)
                  in Some (s\<lparr>sk_data := data, sk_sorted := True\<rparr>))))"

definition sk_is_sorted :: "'c stack_st option \<Rightarrow> bool" where
  "sk_is_sorted sk = (case sk of None \<Rightarrow> True | Some s \<Rightarrow> sk_sorted s)"

definition sk_set_cmp_func :: "'c option \<Rightarrow> 'c stack_st \<Rightarrow> 'c option \<times> 'c stack_st" where
  "sk_set_cmp_func cmpf s =
     (sk_comp s, s\<lparr>sk_sorted := (if sk_comp s \<noteq> cmpf then False else sk_sorted s), sk_comp := cmpf\<rparr>)"

section \<open>Copies\<close>

definition sk_dup :: "word_allocator \<Rightarrow> 'c stack_st option \<Rightarrow> 'c stack_st option" where
  "sk_dup al sk =
     (case sk of
        None \<Rightarrow> None
      | Some s \<Rightarrow>
          if al 40 = None then None
          else (case al (8 * sk_num_alloc s) of
                  None \<Rightarrow> None
                | Some blk \<Rightarrow>
                    Some (s\<lparr>sk_data := take (unat (sk_len s)) (sk_data s) @ drop (unat (sk_len s)) blk\<rparr>)))"

text \<open>
  The loop of \<open>sk_deep_copy\<close> over the elements not yet copied, \<open>done\<close> those that are: the copies, or the
  copies to free when one fails. \<open>copy i p\<close> is what the copying function returns for the element at \<open>i\<close>.
\<close>

fun copy_elems :: "(nat \<Rightarrow> u64 \<Rightarrow> u64) \<Rightarrow> u64 list \<Rightarrow> u64 list \<Rightarrow> u64 list + u64 list" where
  "copy_elems cp copied [] = Inr copied"
| "copy_elems cp copied (p # ps) =
     (if p = 0 then copy_elems cp (copied @ [0]) ps
      else let q = cp (length copied) p in
        if q = 0 then Inl (filter (\<lambda>x. x \<noteq> 0) copied) else copy_elems cp (copied @ [q]) ps)"

text \<open>The copy, and the elements that are freed on the way.\<close>

definition sk_deep_copy :: "word_allocator \<Rightarrow> (nat \<Rightarrow> u64 \<Rightarrow> u64) \<Rightarrow> 'c stack_st option \<Rightarrow> 'c stack_st option \<times> u64 list" where
  "sk_deep_copy al cp sk =
     (case sk_dup al sk of
        None \<Rightarrow> (None, [])
      | Some ret \<Rightarrow>
          (let n = unat (sk_len ret) in
           (case copy_elems cp [] (take n (sk_data ret)) of
              Inl freed \<Rightarrow> (None, freed)
            | Inr elems \<Rightarrow> (Some (ret\<lparr>sk_data := elems @ drop n (sk_data ret)\<rparr>), []))))"

section \<open>The elements of a stack\<close>

definition sk_elems :: "'c stack_st \<Rightarrow> u64 list" where
  "sk_elems s = take (unat (sk_len s)) (sk_data s)"

definition sk_ok :: "('c \<Rightarrow> u64 \<Rightarrow> u64 \<Rightarrow> int) \<Rightarrow> 'c stack_st \<Rightarrow> bool" where
  "sk_ok call s \<longleftrightarrow> length (sk_data s) = unat (sk_num_alloc s) \<and> unat (sk_len s) < unat (sk_num_alloc s)
     \<and> unat (sk_num_alloc s) < 2 ^ 61
     \<and> (sk_sorted s \<longrightarrow> (case sk_comp s of None \<Rightarrow> False | Some c \<Rightarrow> in_order (call c) (sk_elems s)))"

definition words_ok :: "word_allocator \<Rightarrow> bool" where
  "words_ok al \<longleftrightarrow> (\<forall>n. case al n of None \<Rightarrow> True | Some blk \<Rightarrow> length blk = unat n div 8)"

lemma length_elems: "sk_ok call s \<Longrightarrow> length (sk_elems s) = unat (sk_len s)"
  by (simp add: sk_ok_def sk_elems_def)

lemma elems_nth: "i < unat (sk_len s) \<Longrightarrow> sk_elems s ! i = sk_data s ! i"
  by (simp add: sk_elems_def)

lemma Suc_unat: "unat x < 2 ^ 63 \<Longrightarrow> unat (x + 1) = Suc (unat x)" for x :: u64
  by (simp add: unat_word_ariths)

lemma grown_alloc_Some:
  assumes "grown_alloc n = Some m"
  shows "(m = n * 2 \<or> m = n + 1) \<and> m * 8 div 8 = m"
proof -
  have d: "push_bit 1 n = n * 2" by (simp add: push_bit_eq_mult)
  show ?thesis using assms unfolding grown_alloc_def Let_def d by (simp only: split: if_splits) auto
qed

lemma grown_alloc_total:
  assumes "unat n < 2 ^ 61 - 1"
  shows "grown_alloc n \<noteq> None"
proof -
  have "unat (n + 1) = unat n + 1" using assms by (simp add: unat_word_ariths)
  moreover from this have "unat ((n + 1) * 8) = (unat n + 1) * 8" using assms by (simp only: unat_word_ariths) simp
  ultimately have "\<not> n + 1 < n" "(n + 1) * 8 div 8 = n + 1"
    by (simp_all only: word_less_nat_alt word_unat_eq_iff unat_div) simp_all
  then show ?thesis unfolding grown_alloc_def Let_def by (simp only: split: if_split) auto
qed

lemma stack_room_ok:
  assumes ok: "sk_ok call s" and al: "words_ok al" and r: "stack_room al s = Some s'"
  shows "sk_ok call s' \<and> unat (sk_len s') + 1 < unat (sk_num_alloc s') \<and> sk_elems s' = sk_elems s
    \<and> sk_len s' = sk_len s \<and> sk_comp s' = sk_comp s
    \<and> unat (sk_num_alloc s') \<le> max (unat (sk_num_alloc s)) (2 * unat (sk_len s) + 2)"
proof (cases "sk_num_alloc s \<le> sk_len s + 1")
  case False
  then have "s' = s" using r by (simp add: stack_room_def)
  moreover have "unat (sk_len s + 1) = Suc (unat (sk_len s))" using ok by (intro Suc_unat) (simp add: sk_ok_def)
  ultimately show ?thesis using ok False by (simp add: word_less_nat_alt not_le)
next
  case True
  let ?n = "unat (sk_num_alloc s)"
  have b: "?n < 2 ^ 61" "0 < ?n" "unat (sk_len s) < ?n" "length (sk_data s) = ?n" using ok by (auto simp: sk_ok_def)
  have eight: "unat (m * 8) = unat m * 8 \<and> m * 8 div 8 = m" if "unat m < 2 ^ 61" for m :: u64
    using that by (simp add: unat_word_ariths word_unat_eq_iff unat_div)
  have less: "unat m < 2 ^ 61" if "m * 8 div 8 = m" for m :: u64
  proof -
    have "unat m = unat (m * 8) div unat (8 :: u64)" using that by (metis unat_div)
    then show ?thesis using unsigned_less [of "m * 8", where 'a = nat] by simp
  qed
  obtain n' blk where n': "n' = sk_num_alloc s * 2 \<or> n' = sk_num_alloc s + 1" "n' * 8 div 8 = n'" "al (n' * 8) = Some blk"
    and s': "s' = s\<lparr>sk_data := sk_data s @ drop (length (sk_data s)) blk, sk_num_alloc := n'\<rparr>"
    using r True grown_alloc_Some by (auto simp: stack_room_def split: option.splits)
  have u: "unat (sk_num_alloc s * 2) = ?n * 2" "unat (sk_num_alloc s + 1) = ?n + 1"
    using b(1) by (simp_all add: unat_word_ariths)
  have lt: "?n < unat n'" using n'(1) u b(2) by auto
  have lb: "length blk = unat n'"
    using al n'(3) eight [OF less [OF n'(2)]] by (auto simp: words_ok_def dest!: spec [of _ "n' * 8"])
  have e: "sk_elems s' = sk_elems s" using b by (simp add: sk_elems_def s')
  have "unat (sk_len s + 1) = Suc (unat (sk_len s))" using b by (intro Suc_unat) simp
  then have "?n \<le> Suc (unat (sk_len s))" using True by (simp add: word_le_nat_alt)
  then have "unat n' \<le> 2 * unat (sk_len s) + 2" using n'(1) u b(2) by auto
  with ok lt lb b less [OF n'(2)] show ?thesis unfolding sk_ok_def e by (simp add: s')
qed

lemma stack_room_total:
  assumes ok: "sk_ok call s" and al: "\<And>n. al n \<noteq> None" and small: "unat (sk_num_alloc s) < 2 ^ 61 - 1"
  shows "stack_room al s \<noteq> None"
proof (cases "sk_num_alloc s \<le> sk_len s + 1")
  case True
  obtain m where m: "grown_alloc (sk_num_alloc s) = Some m" using grown_alloc_total [OF small] by auto
  from al [of "m * 8"] obtain blk where "al (m * 8) = Some blk" by auto
  with m show ?thesis by (simp add: stack_room_def)
qed (simp add: stack_room_def)

section \<open>What the operations do to the elements\<close>

lemma length_move_words: "dst + n \<le> length xs \<Longrightarrow> src + n \<le> length xs \<Longrightarrow> length (move_words dst src n xs) = length xs"
  by (simp add: move_words_def)

lemma move_words_nth:
  assumes "dst + n \<le> length xs" and "src + n \<le> length xs" and "i < length xs"
  shows "move_words dst src n xs ! i = (if dst \<le> i \<and> i < dst + n then xs ! (src + (i - dst)) else xs ! i)"
proof -
  have l: "length (take dst xs) = dst" "length (take n (drop src xs)) = n" using assms by simp_all
  consider "i < dst" | "dst \<le> i" "i < dst + n" | "dst + n \<le> i" by linarith
  then show ?thesis
  proof cases
    case 1
    then show ?thesis by (simp add: move_words_def nth_append assms l)
  next
    case 2
    then have "\<not> i < dst" "i - dst < n" by auto
    then show ?thesis using 2 assms by (simp only: move_words_def nth_append l) simp
  next
    case 3
    then have "\<not> i < dst" "\<not> i - dst < n" "i - dst - n + (dst + n) = i" by auto
    then show ?thesis using 3 assms by (simp only: move_words_def nth_append l) (simp add: add.commute)
  qed
qed

lemma on_stack_Some: "on_stack r0 f (Some s) = (case f s of (r, s') \<Rightarrow> (r, Some s'))"
  by (simp add: on_stack_def)

lemma sk_insert_spec:
  assumes ok: "sk_ok call s" and al: "words_ok al"
  shows "stack_room al s \<noteq> None \<Longrightarrow> \<exists>s'. sk_insert al p whr (Some s) = (sk_len s + 1, Some s') \<and> sk_ok call s'
      \<and> sk_elems s' = take (unat whr) (sk_elems s) @ p # drop (unat whr) (sk_elems s) \<and> sk_comp s' = sk_comp s
      \<and> unat (sk_len s') = Suc (unat (sk_len s))
      \<and> unat (sk_num_alloc s') \<le> max (unat (sk_num_alloc s)) (2 * unat (sk_len s) + 2)"
proof -
  assume "stack_room al s \<noteq> None"
  then obtain t where t: "stack_room al s = Some t" by auto
  let ?n = "unat (sk_len s)" and ?w = "unat whr"
  have o: "sk_ok call t" "?n + 1 < unat (sk_num_alloc t)" "sk_elems t = sk_elems s" "sk_len t = sk_len s" "sk_comp t = sk_comp s"
    and cap: "unat (sk_num_alloc t) \<le> max (unat (sk_num_alloc s)) (2 * unat (sk_len s) + 2)"
    using stack_room_ok [OF ok al t] by auto
  have len: "length (sk_data t) = unat (sk_num_alloc t)" using o(1) by (simp add: sk_ok_def)
  have small: "unat (sk_num_alloc t) < 2 ^ 61" using o(1) by (simp add: sk_ok_def)
  define data where "data = (if whr \<ge> sk_len t then (sk_data t)[unat (sk_len t) := p]
    else (move_words (unat (whr + 1)) ?w (unat (sk_len t - whr)) (sk_data t))[?w := p])"
  have Suc: "unat (sk_len s + 1) = Suc ?n" using small o(2) by (intro Suc_unat) simp
  have es: "sk_elems s = take ?n (sk_data t)" using o(3,4) by (simp add: sk_elems_def)
  have d: "length data = length (sk_data t) \<and> take (Suc ?n) data = take ?w (sk_elems s) @ p # drop ?w (sk_elems s)"
  proof (cases "whr \<ge> sk_len t")
    case True
    then have "?n \<le> ?w" using o(4) by (simp add: word_le_nat_alt)
    then show ?thesis using True o(2,4) len by (simp add: data_def es take_Suc_conv_app_nth)
  next
    case False
    then have lt: "?w < ?n" using o(4) by (simp add: word_less_nat_alt not_le)
    have u1: "unat (whr + 1) = Suc ?w" using lt small o(2) by (intro Suc_unat) simp
    have u2: "unat (sk_len t - whr) = ?n - ?w" using lt o(4) by (simp add: unat_sub_if')
    note u = u1 u2
    have b: "Suc ?w + (?n - ?w) \<le> length (sk_data t)" "?w + (?n - ?w) \<le> length (sk_data t)" using lt len o(2) by auto
    have e: "data = (move_words (Suc ?w) ?w (?n - ?w) (sk_data t))[?w := p]" using False u by (simp add: data_def)
    have l: "length data = length (sk_data t)" unfolding e using length_move_words [OF b] by simp
    have "take (Suc ?n) data = take ?w (sk_elems s) @ p # drop ?w (sk_elems s)"
    proof (rule nth_equalityI)
      show "length (take (Suc ?n) data) = length (take ?w (sk_elems s) @ p # drop ?w (sk_elems s))"
        using l len o(2) lt by (simp add: es)
      fix i assume "i < length (take (Suc ?n) data)"
      then have i: "i < Suc ?n" "i < length (sk_data t)" using l by auto
      show "take (Suc ?n) data ! i = (take ?w (sk_elems s) @ p # drop ?w (sk_elems s)) ! i"
        using i lt b len o(2) by (auto simp: e es nth_append nth_list_update move_words_nth length_move_words nth_Cons' min_def)
    qed
    with l show ?thesis by simp
  qed
  let ?s = "t\<lparr>sk_data := data, sk_len := sk_len s + 1, sk_sorted := False\<rparr>"
  have "sk_insert al p whr (Some s) = (sk_len s + 1, Some ?s)"
    using t o(4) by (simp add: sk_insert_def on_stack_Some Let_def data_def)
  moreover have "sk_elems ?s = take ?w (sk_elems s) @ p # drop ?w (sk_elems s)" using d Suc by (simp add: sk_elems_def)
  moreover have "sk_ok call ?s" using o(1,2) d Suc len by (simp add: sk_ok_def)
  ultimately show "\<exists>s'. sk_insert al p whr (Some s) = (sk_len s + 1, Some s') \<and> sk_ok call s'
      \<and> sk_elems s' = take ?w (sk_elems s) @ p # drop ?w (sk_elems s) \<and> sk_comp s' = sk_comp s
      \<and> unat (sk_len s') = Suc ?n \<and> unat (sk_num_alloc s') \<le> max (unat (sk_num_alloc s)) (2 * ?n + 2)"
    using o(5) Suc cap by (intro exI [of _ ?s]) simp
qed

lemma sk_insert_full: "stack_room al s = None \<Longrightarrow> sk_insert al p whr (Some s) = (0, Some s)"
  by (simp add: sk_insert_def on_stack_Some)

lemma in_order_remove: "in_order cmp xs \<Longrightarrow> in_order cmp (take i xs @ drop (Suc i) xs)"
proof (induction xs arbitrary: i)
  case (Cons x xs)
  then show ?case by (cases i) (auto simp: in_order_def dest: in_set_takeD in_set_dropD)
qed (simp add: in_order_def)

lemma list_as_remove:
  "i < length xs \<Longrightarrow> length ys = length xs - 1 \<Longrightarrow> (\<And>k. k < i \<Longrightarrow> ys ! k = xs ! k) \<Longrightarrow>
     (\<And>k. i \<le> k \<Longrightarrow> k < length xs - 1 \<Longrightarrow> ys ! k = xs ! Suc k) \<Longrightarrow> ys = take i xs @ drop (Suc i) xs"
  by (rule nth_equalityI) (auto simp: nth_append min_def)

lemma sk_delete_spec:
  assumes ok: "sk_ok call s"
  shows "unat (sk_len s) \<le> unat whr \<Longrightarrow> sk_delete whr (Some s) = (0, Some s)"
    and "unat whr < unat (sk_len s) \<Longrightarrow> \<exists>s'. sk_delete whr (Some s) = (sk_elems s ! unat whr, Some s') \<and> sk_ok call s'
      \<and> sk_elems s' = take (unat whr) (sk_elems s) @ drop (Suc (unat whr)) (sk_elems s) \<and> sk_comp s' = sk_comp s
      \<and> Suc (unat (sk_len s')) = unat (sk_len s) \<and> sk_num_alloc s' = sk_num_alloc s"
proof -
  show "sk_delete whr (Some s) = (0, Some s)" if "unat (sk_len s) \<le> unat whr"
    using that by (simp add: sk_delete_def on_stack_Some word_le_nat_alt)
  let ?n = "unat (sk_len s)" and ?w = "unat whr"
  have len: "length (sk_data s) = unat (sk_num_alloc s)" "?n < unat (sk_num_alloc s)" "unat (sk_num_alloc s) < 2 ^ 61"
    using ok by (simp_all add: sk_ok_def)
  have le: "length (sk_elems s) = ?n" using ok by (rule length_elems)
  assume lt: "?w < ?n"
  have ne: "sk_len s \<noteq> 0" using lt by auto
  have u1: "unat (sk_len s - 1) = ?n - 1" by (rule unat_minus_one [OF ne])
  have u2: "unat (whr + 1) = Suc ?w" using lt len by (intro Suc_unat) simp
  have u3: "unat (sk_len s - whr) = ?n - ?w" using lt by (simp add: unat_sub_if')
  have ne2: "sk_len s - whr \<noteq> 0" using u3 lt by auto
  have u4: "unat (sk_len s - whr - 1) = ?n - ?w - 1" using unat_minus_one [OF ne2] u3 by simp
  define data where "data = (if whr \<noteq> sk_len s - 1
    then move_words ?w (unat (whr + 1)) (unat (sk_len s - whr - 1)) (sk_data s) else sk_data s)"
  let ?s = "s\<lparr>sk_data := data, sk_len := sk_len s - 1\<rparr>"
  have b: "?w + (?n - ?w - 1) \<le> length (sk_data s)" "Suc ?w + (?n - ?w - 1) \<le> length (sk_data s)" using lt len by auto
  have ld: "length data = length (sk_data s)" unfolding data_def using length_move_words [OF b] u2 u4 by simp
  have nth: "data ! k = (if k < ?w then sk_data s ! k else sk_data s ! Suc k)" if "k < ?n - 1" for k
  proof (cases "whr = sk_len s - 1")
    case True
    then show ?thesis using that u1 by (simp add: data_def)
  next
    case False
    then have e: "data = move_words ?w (Suc ?w) (?n - ?w - 1) (sk_data s)" using u2 u4 by (simp add: data_def)
    have "k < length (sk_data s)" using that len by simp
    from move_words_nth [OF b this] that lt show ?thesis unfolding e by auto
  qed
  have e: "sk_elems ?s = take ?w (sk_elems s) @ drop (Suc ?w) (sk_elems s)"
  proof (rule list_as_remove)
    show "?w < length (sk_elems s)" using lt le by simp
    show "length (sk_elems ?s) = length (sk_elems s) - 1" using ld len le u1 by (simp add: sk_elems_def)
    show "sk_elems ?s ! k = sk_elems s ! k" if "k < ?w" for k
      using that lt nth [of k] u1 by (simp add: sk_elems_def)
    show "sk_elems ?s ! k = sk_elems s ! Suc k" if "?w \<le> k" "k < length (sk_elems s) - 1" for k
      using that lt nth [of k] u1 le by (simp add: sk_elems_def)
  qed
  have "sk_ok call ?s"
    using ok in_order_remove [of _ "sk_elems s" ?w] ld u1 unfolding sk_ok_def e by (auto split: option.splits)
  moreover have "sk_delete whr (Some s) = (sk_elems s ! ?w, Some ?s)"
    using lt by (simp add: sk_delete_def on_stack_Some Let_def data_def word_le_nat_alt elems_nth)
  ultimately show "\<exists>s'. sk_delete whr (Some s) = (sk_elems s ! ?w, Some s') \<and> sk_ok call s'
      \<and> sk_elems s' = take ?w (sk_elems s) @ drop (Suc ?w) (sk_elems s) \<and> sk_comp s' = sk_comp s
      \<and> Suc (unat (sk_len s')) = ?n \<and> sk_num_alloc s' = sk_num_alloc s"
    using e u1 lt by (intro exI [of _ ?s]) simp
qed


section \<open>The searches agree\<close>

lemma first_where_Some:
  "first_where P xs = Some i \<longleftrightarrow> i < length xs \<and> P (xs ! i) \<and> (\<forall>j < i. \<not> P (xs ! j))"
proof (induction xs arbitrary: i)
  case (Cons x xs)
  then show ?case by (cases i) (auto simp: All_less_Suc2)
qed simp

lemma first_where_None: "first_where P xs = None \<longleftrightarrow> (\<forall>i < length xs. \<not> P (xs ! i))"
  by (induction xs) (auto simp: All_less_Suc2)

lemma sk_search_first:
  assumes "unat hi \<le> n" and "n \<le> length data" and "n < 2 ^ 64"
    and "\<And>i j. i < j \<Longrightarrow> j < n \<Longrightarrow> (0 < c (data ! j) \<longrightarrow> 0 < c (data ! i)) \<and> (c (data ! i) < 0 \<longrightarrow> c (data ! j) < 0)"
    and "\<And>i. i < unat lo \<Longrightarrow> i < n \<Longrightarrow> 0 < c (data ! i)"
    and "\<And>i. i < n \<Longrightarrow> c (data ! i) = 0 \<Longrightarrow> \<exists>j < unat hi. c (data ! j) = 0"
  shows "sk_search c data lo hi = map_option of_nat (first_where (\<lambda>x. c x = 0) (take n data))"
  using assms
proof (induction c data lo hi rule: sk_search.induct)
  case (1 c data lo hi)
  let ?mid = "lo + (hi - lo - 1) div 2"
  note mono = "1.prems"(4) and low = "1.prems"(5) and early = "1.prems"(6)
  show ?case
  proof (cases "lo < hi")
    case False
    then have le: "unat hi \<le> unat lo" by (metis linorder_not_less word_le_nat_alt)
    have "c (data ! i) \<noteq> 0" if "i < n" for i
    proof
      assume "c (data ! i) = 0"
      with early [OF that] obtain j where j: "j < unat hi" "c (data ! j) = 0" by blast
      with low [of j] le "1.prems"(1) show False by simp
    qed
    then have "first_where (\<lambda>x. c x = 0) (take n data) = None" using "1.prems"(2) by (simp add: first_where_None)
    then show ?thesis using False by (simp add: sk_search.simps)
  next
    case True
    note m = mid_less [OF True] mid_Suc [OF True]
    consider "c (data ! unat ?mid) > 0" | "c (data ! unat ?mid) < 0" | "c (data ! unat ?mid) = 0" by linarith
    then show ?thesis
    proof cases
      case a: 1
      have "sk_search c data (?mid + 1) hi = map_option of_nat (first_where (\<lambda>x. c x = 0) (take n data))"
      proof (rule "1.IH"(1) [OF True refl refl a "1.prems"(1-3) mono])
        fix i assume "i < unat (?mid + 1)" "i < n"
        then have "i = unat ?mid \<or> i < unat ?mid \<and> unat ?mid < n" using m "1.prems"(1) by auto
        then show "0 < c (data ! i)" using mono [of i "unat ?mid"] a by auto
      qed (use early in auto)
      then show ?thesis using True a by (simp add: sk_search.simps [of c data lo hi] Let_def)
    next
      case a: 2
      have "sk_search c data lo ?mid = map_option of_nat (first_where (\<lambda>x. c x = 0) (take n data))"
      proof (rule "1.IH"(2) [OF True refl refl _ a _ "1.prems"(2,3) mono low])
        show "\<not> 0 < c (data ! unat ?mid)" using a by simp
        show "unat ?mid \<le> n" using m "1.prems"(1) by linarith
        fix i assume i: "i < n" "c (data ! i) = 0"
        have "i < unat ?mid"
        proof (rule ccontr)
          assume "\<not> i < unat ?mid"
          then have "i = unat ?mid \<or> unat ?mid < i" by auto
          then show False using mono [of "unat ?mid" i] i a by auto
        qed
        with i show "\<exists>j < unat ?mid. c (data ! j) = 0" by auto
      qed
      then show ?thesis using True a by (simp add: sk_search.simps [of c data lo hi] Let_def)
    next
      case a: 3
      show ?thesis
      proof (cases "hi - lo = 1")
        case one: True
        then have e: "unat ?mid = unat lo" by (simp add: mid_unat [OF True])
        have "unat lo < n" using True "1.prems"(1) by (simp add: word_less_nat_alt)
        then have "first_where (\<lambda>x. c x = 0) (take n data) = Some (unat lo)"
          using a low "1.prems"(2) unfolding e by (fastforce simp: first_where_Some)
        moreover have "?mid = lo" by (rule word_unat_eq_iff [THEN iffD2, OF e])
        ultimately show ?thesis using True a one by (simp add: sk_search.simps [of c data lo hi] Let_def)
      next
        case False
        have "sk_search c data lo (?mid + 1) = map_option of_nat (first_where (\<lambda>x. c x = 0) (take n data))"
        proof (rule "1.IH"(3) [OF True refl refl _ _ False _ "1.prems"(2,3) mono low])
          show "unat (?mid + 1) \<le> n" using m "1.prems"(1) by linarith
          show "\<exists>j < unat (?mid + 1). c (data ! j) = 0" using m(2) a by auto
        qed (use a in auto)
        then show ?thesis using True a False by (simp add: sk_search.simps [of c data lo hi] Let_def)
      qed
    qed
  qed
qed

lemma sk_find_first:
  assumes ok: "sk_ok call s" and cmp: "\<And>c. comparison (call c)"
  shows "sk_find call p (Some s) =
    (case sk_comp s of
       None \<Rightarrow> map_option of_nat (first_where (\<lambda>x. x = p) (sk_elems s))
     | Some c \<Rightarrow> if p = 0 then None else map_option of_nat (first_where (\<lambda>x. call c p x = 0) (sk_elems s)))"
proof (cases "sk_comp s")
  case None
  then show ?thesis by (simp add: sk_find_def sk_elems_def)
next
  case (Some c)
  have b: "unat (sk_len s) \<le> length (sk_data s)" "unat (sk_len s) < 2 ^ 64" using ok by (auto simp: sk_ok_def)
  have "sk_search (call c p) (sk_data s) 0 (sk_len s) = map_option of_nat (first_where (\<lambda>x. call c p x = 0) (sk_elems s))"
    if srt: "sk_sorted s"
    unfolding sk_elems_def
  proof (rule sk_search_first [OF order.refl b])
    fix i j assume ij: "i < j" "j < unat (sk_len s)"
    have "in_order (call c) (sk_elems s)" using ok srt Some by (simp add: sk_ok_def)
    from comparison.in_order_mono [OF cmp this ij(1), of p] ij
    show "(0 < call c p (sk_data s ! j) \<longrightarrow> 0 < call c p (sk_data s ! i)) \<and> (call c p (sk_data s ! i) < 0 \<longrightarrow> call c p (sk_data s ! j) < 0)"
      by (simp add: length_elems [OF ok] elems_nth)
  qed auto
  with Some show ?thesis by (simp add: sk_find_def sk_elems_def)
qed

section \<open>A stack as a list\<close>

text \<open>
  The calls of a client that leave the elements' order to the stack, and the list with a comparison that they act on.
  A call of \<open>sk_set\<close> is not among them: it does not reset the flag (theorem \<open>sk_set_hides_element\<close>). A call of
  \<open>sk_sort\<close> comes with the function that \<open>qsort\<close> is then, so that \<open>qsort\<close> need not give the same result twice.
\<close>

datatype 'c sk_op =
    SkInsert u64 u64 | SkPush u64 | SkDelete u64 | SkDeletePtr u64 | SkShift | SkPop | SkZero | SkNum
  | SkValue u64 | SkFind u64 | SkSort "u64 sorter" | SkSetCmp "'c option"

datatype 'c sk_res = Word u64 | Found "u64 option" | Func "'c option"

fun sk_call :: "word_allocator \<Rightarrow> ('c \<Rightarrow> u64 \<Rightarrow> u64 \<Rightarrow> int) \<Rightarrow> 'c sk_op \<Rightarrow> 'c stack_st \<Rightarrow> 'c sk_res \<times> 'c stack_st" where
  "sk_call al call (SkInsert p w) s = (case sk_insert al p w (Some s) of (r, t) \<Rightarrow> (Word r, the t))"
| "sk_call al call (SkPush p) s = (case sk_push al p (Some s) of (r, t) \<Rightarrow> (Word r, the t))"
| "sk_call al call (SkDelete w) s = (case sk_delete w (Some s) of (r, t) \<Rightarrow> (Word r, the t))"
| "sk_call al call (SkDeletePtr p) s = (case sk_delete_ptr p (Some s) of (r, t) \<Rightarrow> (Word r, the t))"
| "sk_call al call SkShift s = (case sk_shift (Some s) of (r, t) \<Rightarrow> (Word r, the t))"
| "sk_call al call SkPop s = (case sk_pop (Some s) of (r, t) \<Rightarrow> (Word r, the t))"
| "sk_call al call SkZero s = (Word 0, the (sk_zero (Some s)))"
| "sk_call al call SkNum s = (Word (sk_num (Some s)), s)"
| "sk_call al call (SkValue i) s = (Word (sk_value (Some s) i), s)"
| "sk_call al call (SkFind p) s = (Found (sk_find call p (Some s)), s)"
| "sk_call al call (SkSort qsort) s = (Word 0, the (sk_sort qsort call (Some s)))"
| "sk_call al call (SkSetCmp f) s = (case sk_set_cmp_func f s of (g, t) \<Rightarrow> (Func g, t))"

definition list_delete :: "nat \<Rightarrow> u64 list \<Rightarrow> u64 \<times> u64 list" where
  "list_delete i xs = (if i < length xs then (xs ! i, take i xs @ drop (Suc i) xs) else (0, xs))"

definition list_find :: "('c \<Rightarrow> u64 \<Rightarrow> u64 \<Rightarrow> int) \<Rightarrow> u64 \<Rightarrow> u64 list \<times> 'c option \<Rightarrow> u64 option" where
  "list_find call p st = (case st of (xs, f) \<Rightarrow>
     (case f of
        None \<Rightarrow> map_option of_nat (first_where (\<lambda>x. x = p) xs)
      | Some c \<Rightarrow> if p = 0 then None else map_option of_nat (first_where (\<lambda>x. call c p x = 0) xs)))"

text \<open>
  What a call does to the list. Only \<open>SkSort\<close> leaves a choice: the list may become any permutation of its elements
  that is in order, so elements that compare as equal may change places.
\<close>

fun list_step :: "('c \<Rightarrow> u64 \<Rightarrow> u64 \<Rightarrow> int) \<Rightarrow> 'c sk_op \<Rightarrow> u64 list \<times> 'c option \<Rightarrow> 'c sk_res \<times> u64 list \<times> 'c option \<Rightarrow> bool" where
  "list_step call (SkInsert p w) (xs, f) res \<longleftrightarrow>
     res = (Word (of_nat (Suc (length xs))), take (unat w) xs @ p # drop (unat w) xs, f)"
| "list_step call (SkPush p) (xs, f) res \<longleftrightarrow> res = (Word (of_nat (Suc (length xs))), xs @ [p], f)"
| "list_step call (SkDelete w) (xs, f) res \<longleftrightarrow> res = (case list_delete (unat w) xs of (r, ys) \<Rightarrow> (Word r, ys, f))"
| "list_step call (SkDeletePtr p) (xs, f) res \<longleftrightarrow>
     res = (if p \<in> set xs then (Word p, remove1 p xs, f) else (Word 0, xs, f))"
| "list_step call SkShift (xs, f) res \<longleftrightarrow> res = (Word (if xs = [] then 0 else hd xs), tl xs, f)"
| "list_step call SkPop (xs, f) res \<longleftrightarrow> res = (Word (if xs = [] then 0 else last xs), butlast xs, f)"
| "list_step call SkZero (xs, f) res \<longleftrightarrow> res = (Word 0, [], f)"
| "list_step call SkNum (xs, f) res \<longleftrightarrow> res = (Word (of_nat (length xs)), xs, f)"
| "list_step call (SkValue i) (xs, f) res \<longleftrightarrow> res = (Word (if unat i < length xs then xs ! unat i else 0), xs, f)"
| "list_step call (SkFind p) (xs, f) res \<longleftrightarrow> res = (Found (list_find call p (xs, f)), xs, f)"
| "list_step call (SkSort qsort) (xs, f) res \<longleftrightarrow>
     (case res of (r, ys, g) \<Rightarrow> r = Word 0 \<and> g = f \<and>
        (case f of None \<Rightarrow> ys = xs | Some c \<Rightarrow> mset ys = mset xs \<and> in_order (call c) ys))"
| "list_step call (SkSetCmp g) (xs, f) res \<longleftrightarrow> res = (Func f, xs, g)"

text \<open>The calls and results that the list allows.\<close>

inductive list_run ::
  "('c \<Rightarrow> u64 \<Rightarrow> u64 \<Rightarrow> int) \<Rightarrow> 'c sk_op list \<Rightarrow> u64 list \<times> 'c option \<Rightarrow> 'c sk_res list \<Rightarrow> u64 list \<times> 'c option \<Rightarrow> bool"
  for call where
  list_run_Nil: "list_run call [] st [] st"
| list_run_Cons: "list_step call cl st (r, st1) \<Longrightarrow> list_run call cls st1 rs st' \<Longrightarrow> list_run call (cl # cls) st (r # rs) st'"

inductive_simps list_run_simps: "list_run call [] st rs st'" "list_run call (cl # cls) st rs st'"

definition sk_abs :: "'c stack_st \<Rightarrow> u64 list \<times> 'c option" where
  "sk_abs s = (sk_elems s, sk_comp s)"

definition sk_sim :: "('c \<Rightarrow> u64 \<Rightarrow> u64 \<Rightarrow> int) \<Rightarrow> nat \<Rightarrow> 'c stack_st \<Rightarrow> bool" where
  "sk_sim call k s \<longleftrightarrow> sk_ok call s \<and> unat (sk_len s) \<le> k \<and> unat (sk_num_alloc s) \<le> 2 * k + 4"

lemma insert_simulates:
  assumes sim: "sk_sim call k s" and k: "k < 2 ^ 60 - 4" and al: "words_ok al" "\<And>n. al n \<noteq> None"
  shows "\<exists>s'. sk_insert al p whr (Some s) = (of_nat (Suc (length (sk_elems s))), Some s') \<and> sk_sim call (Suc k) s'
    \<and> sk_abs s' = (take (unat whr) (sk_elems s) @ p # drop (unat whr) (sk_elems s), sk_comp s)"
proof -
  have ok: "sk_ok call s" using sim by (simp add: sk_sim_def)
  have "stack_room al s \<noteq> None" using stack_room_total [OF ok al(2)] sim k by (simp add: sk_sim_def)
  from sk_insert_spec [OF ok al(1) this, of p whr] sim length_elems [OF ok]
  show ?thesis by (auto simp: sk_sim_def sk_abs_def)
qed

lemma delete_simulates:
  assumes sim: "sk_sim call k s"
  shows "\<exists>s'. sk_delete whr (Some s) = (fst (list_delete (unat whr) (sk_elems s)), Some s') \<and> sk_sim call k s'
    \<and> sk_abs s' = (snd (list_delete (unat whr) (sk_elems s)), sk_comp s)"
proof -
  have ok: "sk_ok call s" using sim by (simp add: sk_sim_def)
  show ?thesis
  proof (cases "unat whr < unat (sk_len s)")
    case True
    from sk_delete_spec(2) [OF ok True] sim length_elems [OF ok] True
    show ?thesis by (auto simp: sk_sim_def sk_abs_def list_delete_def)
  next
    case False
    then show ?thesis using sk_delete_spec(1) [OF ok, of whr] sim length_elems [OF ok]
      by (simp add: sk_abs_def list_delete_def)
  qed
qed

lemma remove1_first: "first_where (\<lambda>x. x = p) xs = Some i \<Longrightarrow> take i xs @ drop (Suc i) xs = remove1 p xs"
  by (induction xs arbitrary: i) (auto split: if_splits)

lemma in_order_short: "length xs < 2 \<Longrightarrow> in_order cmp xs"
  by (cases xs rule: remdups_adj.cases) (auto simp: in_order_def)

lemma sort_simulates:
  assumes sim: "sk_sim call k s" and cmp: "\<And>c. comparison (call c)" and q: "sorts qsort"
  shows "\<exists>s'. sk_sort qsort call (Some s) = Some s' \<and> sk_sim call k s'
    \<and> list_step call (SkSort qsort) (sk_abs s) (Word 0, sk_abs s')"
proof (cases "sk_comp s")
  case None
  then show ?thesis using sim by (simp add: sk_sort_def sk_abs_def)
next
  case (Some c)
  have ok: "sk_ok call s" using sim by (simp add: sk_sim_def)
  show ?thesis
  proof (cases "sk_sorted s")
    case True
    then have "in_order (call c) (sk_elems s)" using ok Some by (simp add: sk_ok_def)
    with True Some sim show ?thesis by (simp add: sk_sort_def sk_abs_def)
  next
    case False
    let ?n = "unat (sk_len s)"
    have len: "?n \<le> length (sk_data s)" using ok by (simp add: sk_ok_def)
    define data where "data = (if sk_len s \<ge> 2 then qsort (call c) (take ?n (sk_data s)) @ drop ?n (sk_data s) else sk_data s)"
    let ?s = "s\<lparr>sk_data := data, sk_sorted := True\<rparr>"
    note q = sortsD [OF q cmp [of c]]
    have "sk_elems ?s = (if sk_len s \<ge> 2 then qsort (call c) (sk_elems s) else sk_elems s)" and l: "length data = length (sk_data s)"
      using len by (auto simp: sk_elems_def data_def q)
    moreover have "in_order (call c) (sk_elems s)" if "\<not> sk_len s \<ge> 2"
      using that length_elems [OF ok] by (intro in_order_short) (simp add: word_le_nat_alt)
    ultimately have e: "mset (sk_elems ?s) = mset (sk_elems s)" "in_order (call c) (sk_elems ?s)" by (simp_all add: q)
    have "sk_ok call ?s" using ok l Some e(2) unfolding sk_ok_def by simp
    then have "sk_sim call k ?s" using sim by (simp add: sk_sim_def)
    with e Some False show ?thesis by (simp add: sk_sort_def sk_abs_def data_def Let_def)
  qed
qed

lemma sk_call_simulates:
  assumes sim: "sk_sim call k s" and k: "k < 2 ^ 60 - 4" and al: "words_ok al" "\<And>n. al n \<noteq> None"
    and cmp: "\<And>c. comparison (call c)" and qsort: "\<And>q. cl = SkSort q \<Longrightarrow> sorts q"
    and run: "sk_call al call cl s = (r, s')"
  shows "sk_sim call (Suc k) s' \<and> list_step call cl (sk_abs s) (r, sk_abs s')"
proof -
  have ok: "sk_ok call s" and mono: "\<And>t. sk_sim call k t \<Longrightarrow> sk_sim call (Suc k) t" using sim by (auto simp: sk_sim_def)
  have len: "length (sk_elems s) = unat (sk_len s)" by (rule length_elems [OF ok])
  have b: "unat (sk_len s) < unat (sk_num_alloc s)" "length (sk_data s) = unat (sk_num_alloc s)" using ok by (simp_all add: sk_ok_def)
  have z: "sk_len s = 0 \<longleftrightarrow> sk_elems s = []" using len by (metis length_0_conv unat_eq_zero)
  note insert = insert_simulates [OF sim k al] and delete = delete_simulates [OF sim]
  show ?thesis
  proof (cases cl)
    case (SkInsert p w)
    then show ?thesis using insert [of p w] run by (auto simp: sk_abs_def)
  next
    case (SkPush p)
    then show ?thesis using insert [of p "sk_len s"] run len by (auto simp: sk_abs_def sk_push_def sk_num_def)
  next
    case (SkDelete w)
    then show ?thesis using delete [of w] run mono by (auto simp: sk_abs_def split: prod.splits)
  next
    case (SkDeletePtr p)
    show ?thesis
    proof (cases "first_where (\<lambda>x. x = p) (sk_elems s)")
      case None
      then have "p \<notin> set (sk_elems s)" by (auto simp: first_where_None in_set_conv_nth)
      moreover have "r = Word 0" "s' = s" using run SkDeletePtr None by (simp_all add: sk_delete_ptr_def sk_elems_def)
      ultimately show ?thesis using SkDeletePtr mono [OF sim] by (simp add: sk_abs_def)
    next
      case (Some i)
      then have i: "i < length (sk_elems s)" "sk_elems s ! i = p" by (simp_all add: first_where_Some)
      then have p: "p \<in> set (sk_elems s)" using nth_mem by blast
      have "i < 2 ^ 64" using i(1) len unsigned_less [of "sk_len s", where 'a = nat] by simp
      then have u: "unat (of_nat i :: u64) = i" by (rule u64_nat)
      have "sk_delete_ptr p (Some s) = sk_delete (of_nat i) (Some s)"
        using Some by (simp add: sk_delete_ptr_def sk_elems_def)
      then show ?thesis using delete [of "of_nat i"] run SkDeletePtr mono i p remove1_first [OF Some] unfolding u
        by (auto simp: sk_abs_def list_delete_def)
    qed
  next
    case SkShift
    show ?thesis
    proof (cases "sk_elems s = []")
      case True
      then show ?thesis using run SkShift z mono [OF sim] by (simp add: sk_shift_def sk_num_def sk_abs_def)
    next
      case False
      then show ?thesis using delete [of 0] run SkShift z mono
        by (auto simp: sk_shift_def sk_num_def sk_abs_def list_delete_def hd_conv_nth drop_Suc)
    qed
  next
    case SkPop
    show ?thesis
    proof (cases "sk_elems s = []")
      case True
      then show ?thesis using run SkPop z mono [OF sim] by (simp add: sk_pop_def sk_num_def sk_abs_def)
    next
      case False
      then have "unat (sk_len s - 1) = length (sk_elems s) - 1" using z len by (simp add: unat_minus_one)
      then show ?thesis using delete [of "sk_len s - 1"] run SkPop z mono False
        by (auto simp: sk_pop_def sk_num_def sk_abs_def list_delete_def last_conv_nth butlast_conv_take)
    qed
  next
    case SkZero
    show ?thesis
    proof (cases "sk_len s = 0")
      case True
      then have "s' = s" "r = Word 0" using run SkZero by (simp_all add: sk_zero_def)
      with True z SkZero mono [OF sim] show ?thesis by (simp add: sk_abs_def)
    next
      case False
      let ?t = "s\<lparr>sk_data := replicate (unat (sk_len s)) 0 @ drop (unat (sk_len s)) (sk_data s), sk_len := 0, sk_sorted := False\<rparr>"
      have s': "s' = ?t" "r = Word 0" using run SkZero False by (simp_all add: sk_zero_def)
      have "sk_ok call ?t" using ok b by (simp add: sk_ok_def)
      then have "sk_sim call (Suc k) ?t" using sim by (simp add: sk_sim_def)
      moreover have "sk_elems ?t = []" by (simp add: sk_elems_def)
      ultimately show ?thesis using SkZero by (simp add: s' sk_abs_def)
    qed
  next
    case SkNum
    then show ?thesis using run len mono [OF sim] by (auto simp: sk_num_def sk_abs_def)
  next
    case (SkValue i)
    then show ?thesis using run len mono [OF sim]
      by (auto simp: sk_value_def sk_abs_def elems_nth word_le_nat_alt)
  next
    case (SkFind p)
    have "sk_find call p (Some s) = list_find call p (sk_elems s, sk_comp s)"
      using sk_find_first [OF ok cmp, of p] by (simp add: list_find_def)
    then show ?thesis using SkFind run mono [OF sim] by (auto simp: sk_abs_def)
  next
    case (SkSort q)
    from sort_simulates [OF sim cmp qsort [OF this]] obtain t where
      "sk_sort q call (Some s) = Some t" "sk_sim call k t" "list_step call (SkSort q) (sk_abs s) (Word 0, sk_abs t)" by blast
    then show ?thesis using SkSort run mono by (auto simp del: list_step.simps)
  next
    case (SkSetCmp f)
    then have "r = Func (sk_comp s)" "s' = snd (sk_set_cmp_func f s)" using run by (simp_all add: sk_set_cmp_func_def)
    with SkSetCmp sim show ?thesis
      by (auto simp: sk_set_cmp_func_def sk_sim_def sk_abs_def sk_ok_def sk_elems_def split: option.splits)
  qed
qed

lemma sk_calls_simulate:
  "sk_sim call k s \<Longrightarrow> k + length cs < 2 ^ 60 - 4 \<Longrightarrow> words_ok al \<Longrightarrow> (\<And>n. al n \<noteq> None) \<Longrightarrow> (\<And>c. comparison (call c)) \<Longrightarrow>
     (\<And>q. SkSort q \<in> set cs \<Longrightarrow> sorts q) \<Longrightarrow> run_calls (sk_call al call) cs s = (rs, s') \<Longrightarrow>
     sk_ok call s' \<and> list_run call cs (sk_abs s) rs (sk_abs s')"
proof (induction cs arbitrary: k s rs)
  case Nil
  then show ?case by (simp add: sk_sim_def list_run_simps)
next
  case (Cons cl cs)
  obtain r t rs1 where r: "sk_call al call cl s = (r, t)" "run_calls (sk_call al call) cs t = (rs1, s')" "rs = r # rs1"
    using Cons.prems(7) by (auto split: prod.splits)
  have "k < 2 ^ 60 - 4" using Cons.prems(2) by simp
  from sk_call_simulates [OF Cons.prems(1) this Cons.prems(3-5) _ r(1)] Cons.prems(6)
  have t: "sk_sim call (Suc k) t" "list_step call cl (sk_abs s) (r, sk_abs t)" by auto
  have "sk_ok call s' \<and> list_run call cs (sk_abs t) rs1 (sk_abs s')"
    by (rule Cons.IH [OF t(1) _ Cons.prems(3-5) _ r(2)]) (use Cons.prems(2,6) in auto)
  with t(2) r(3) show ?case by (auto intro: list_run_Cons)
qed

lemma sk_search_high:
  assumes "\<And>i. unat lo \<le> i \<Longrightarrow> i < unat hi \<Longrightarrow> 0 < c (data ! i)"
  shows "sk_search c data lo hi = None"
  using assms
proof (induction c data lo hi rule: sk_search.induct)
  case (1 c data lo hi)
  let ?mid = "lo + (hi - lo - 1) div 2"
  show ?case
  proof (cases "lo < hi")
    case True
    note m = mid_less [OF True] mid_Suc [OF True]
    have a: "c (data ! unat ?mid) > 0" using "1.prems" m by simp
    have "sk_search c data (?mid + 1) hi = None"
      by (rule "1.IH"(1) [OF True refl refl a]) (use "1.prems" m in simp)
    then show ?thesis using True a by (simp add: sk_search.simps [of c data lo hi] Let_def)
  qed (simp add: sk_search.simps)
qed

section \<open>What copies hold\<close>

lemma sk_dup_spec:
  assumes ok: "sk_ok call s" and al: "words_ok al" and d: "sk_dup al (Some s) = Some t"
  shows "sk_ok call t \<and> sk_abs t = sk_abs s \<and> sk_len t = sk_len s"
proof -
  obtain blk where blk: "al (8 * sk_num_alloc s) = Some blk"
    and t: "t = s\<lparr>sk_data := take (unat (sk_len s)) (sk_data s) @ drop (unat (sk_len s)) blk\<rparr>"
    using d by (auto simp: sk_dup_def split: if_splits option.splits)
  have b: "unat (sk_num_alloc s) < 2 ^ 61" "unat (sk_len s) < unat (sk_num_alloc s)" "length (sk_data s) = unat (sk_num_alloc s)"
    using ok by (simp_all add: sk_ok_def)
  have "unat (8 * sk_num_alloc s) = 8 * unat (sk_num_alloc s)" using b(1) by (simp add: unat_word_ariths)
  then have l: "length blk = unat (sk_num_alloc s)" using al blk by (auto simp: words_ok_def dest!: spec [of _ "8 * sk_num_alloc s"])
  have e: "sk_elems t = sk_elems s" using b by (simp add: sk_elems_def t)
  show ?thesis using ok b l e unfolding sk_ok_def e sk_abs_def by (simp add: t)
qed

text \<open>The copies of the first elements of a list, \<open>k\<close> of them before it.\<close>

definition copies :: "(nat \<Rightarrow> u64 \<Rightarrow> u64) \<Rightarrow> nat \<Rightarrow> u64 list \<Rightarrow> u64 list" where
  "copies cp k ps = map (\<lambda>i. if ps ! i = 0 then 0 else cp (k + i) (ps ! i)) [0..<length ps]"

lemma copies_Cons: "copies cp k (p # ps) = (if p = 0 then 0 else cp k p) # copies cp (Suc k) ps"
  unfolding copies_def by (simp add: upt_conv_Cons map_Suc_upt [symmetric] del: upt_Suc)

lemma copy_elems_cases:
  "case copy_elems cp copied ps of
     Inr r \<Rightarrow> r = copied @ copies cp (length copied) ps \<and> (\<forall>i < length ps. ps ! i \<noteq> 0 \<longrightarrow> cp (length copied + i) (ps ! i) \<noteq> 0)
   | Inl freed \<Rightarrow> \<exists>i < length ps. ps ! i \<noteq> 0 \<and> cp (length copied + i) (ps ! i) = 0
       \<and> freed = filter (\<lambda>x. x \<noteq> 0) (copied @ copies cp (length copied) (take i ps))"
proof (induction cp copied ps rule: copy_elems.induct)
  case (1 cp copied)
  then show ?case by (simp add: copies_def)
next
  case (2 cp copied p ps)
  let ?q = "if p = 0 then 0 else cp (length copied) p"
  show ?case
  proof (cases "p \<noteq> 0 \<and> cp (length copied) p = 0")
    case True
    then show ?thesis by (auto simp: Let_def copies_def intro!: exI [of _ 0])
  next
    case False
    then have e: "copy_elems cp copied (p # ps) = copy_elems cp (copied @ [?q]) ps" by (auto simp: Let_def)
    have IH: "case copy_elems cp (copied @ [?q]) ps of
       Inr r \<Rightarrow> r = (copied @ [?q]) @ copies cp (length (copied @ [?q])) ps
         \<and> (\<forall>i < length ps. ps ! i \<noteq> 0 \<longrightarrow> cp (length (copied @ [?q]) + i) (ps ! i) \<noteq> 0)
     | Inl freed \<Rightarrow> \<exists>i < length ps. ps ! i \<noteq> 0 \<and> cp (length (copied @ [?q]) + i) (ps ! i) = 0
         \<and> freed = filter (\<lambda>x. x \<noteq> 0) ((copied @ [?q]) @ copies cp (length (copied @ [?q])) (take i ps))"
      using "2.IH" False by (cases "p = 0") auto
    show ?thesis
    proof (cases "copy_elems cp (copied @ [?q]) ps")
      case (Inl freed)
      with IH obtain i where i: "i < length ps" "ps ! i \<noteq> 0" "cp (Suc (length copied) + i) (ps ! i) = 0"
        "freed = filter (\<lambda>x. x \<noteq> 0) ((copied @ [?q]) @ copies cp (Suc (length copied)) (take i ps))" by auto
      then show ?thesis unfolding e Inl
        by (simp only: sum.case, intro exI [of _ "Suc i"]) (simp add: copies_Cons)
    next
      case (Inr r)
      with IH False show ?thesis unfolding e by (auto simp: copies_Cons less_Suc_eq_0_disj)
    qed
  qed
qed

text \<open>A deep copy holds the copies, in order; when one fails, exactly the copies made before it are freed.\<close>

theorem sk_deep_copy_spec:
  assumes ok: "sk_ok call s" and al: "words_ok al" and d: "sk_dup al (Some s) \<noteq> None"
  shows "case sk_deep_copy al cp (Some s) of
      (Some t, freed) \<Rightarrow> sk_elems t = copies cp 0 (sk_elems s) \<and> freed = []
    | (None, freed) \<Rightarrow> \<exists>i < length (sk_elems s). sk_elems s ! i \<noteq> 0 \<and> cp i (sk_elems s ! i) = 0
        \<and> freed = filter (\<lambda>x. x \<noteq> 0) (copies cp 0 (take i (sk_elems s)))"
proof -
  obtain t where t: "sk_dup al (Some s) = Some t" using d by auto
  have e: "sk_elems t = sk_elems s" "sk_len t = sk_len s" using sk_dup_spec [OF ok al t] by (simp_all add: sk_abs_def)
  have l: "length (copies cp 0 (sk_elems s)) = unat (sk_len s)" using length_elems [OF ok] by (simp add: copies_def)
  have el: "take (unat (sk_len t)) (sk_data t) = sk_elems s" using e by (simp add: sk_elems_def)
  show ?thesis
  proof (cases "copy_elems cp [] (sk_elems s)")
    case (Inl freed)
    then show ?thesis using copy_elems_cases [where cp = cp and copied = "[]" and ps = "sk_elems s"] by (simp add: sk_deep_copy_def t el Let_def)
  next
    case (Inr r)
    then have r: "r = copies cp 0 (sk_elems s)" using copy_elems_cases [where cp = cp and copied = "[]" and ps = "sk_elems s"] by simp
    have "sk_elems (t\<lparr>sk_data := r @ drop (unat (sk_len t)) (sk_data t)\<rparr>) = r"
      using l unfolding sk_elems_def r by (simp add: e(2))
    then show ?thesis using Inr r by (simp add: sk_deep_copy_def t el Let_def)
  qed
qed

section \<open>Properties\<close>

text \<open>
  C36. Refinement: a stack created by \<open>sk_new\<close> answers any sequence of fewer than \<open>2 ^ 60 - 4\<close> insertions, deletions, sorts,
  searches and changes of its comparison as a list of its elements may, for which a sort gives some permutation that is in
  order (elements that compare as equal in any order) and a search gives the earliest match. The growth of the array, and
  the choice between the binary and the linear search by the flag, are not seen. The allocator does not fail, the
  comparisons are total orders of equivalence classes, and \<open>qsort\<close> permutes an array into order.
\<close>

theorem stack_refines_list:
  assumes "words_ok al" and "\<And>n. al n \<noteq> None" and "\<And>c. comparison (call c)" and "\<And>q. SkSort q \<in> set cs \<Longrightarrow> sorts q"
    and "sk_new al f = Some s" and "length cs < 2 ^ 60 - 4" and "run_calls (sk_call al call) cs s = (rs, s')"
  shows "sk_ok call s' \<and> list_run call cs ([], f) rs (sk_elems s', sk_comp s')"
proof -
  have s: "sk_sim call 0 s" "sk_abs s = ([], f)"
    using assms(5) by (auto simp: sk_new_def sk_sim_def sk_ok_def sk_abs_def sk_elems_def kMinSize_def split: if_splits)
  from sk_calls_simulate [OF s(1) _ assms(1-4,7)] assms(6) s(2) show ?thesis by (simp add: sk_abs_def)
qed

definition word_heap :: word_allocator where
  "word_heap n = Some (replicate (unat n div 8) 0xAAAA)"

text \<open>Two orders: by the number, and by the number without its last digit, so that different words compare as equal.\<close>

definition number_order :: "unit \<Rightarrow> u64 \<Rightarrow> u64 \<Rightarrow> int" where
  "number_order _ a b = int (unat a) - int (unat b)"

definition tens_order :: "unit \<Rightarrow> u64 \<Rightarrow> u64 \<Rightarrow> int" where
  "tens_order _ a b = int (unat a div 10) - int (unat b div 10)"

lemma word_heap_ok: "words_ok word_heap" "word_heap n \<noteq> None"
  by (simp_all add: words_ok_def word_heap_def)

interpretation number: comparison "number_order c" for c
  by unfold_locales (auto simp: number_order_def)

interpretation tens: comparison "tens_order c" for c
  by unfold_locales (auto simp: tens_order_def)

definition stack_example :: "unit sk_op list" where
  "stack_example = [SkPush 15, SkPush 27, SkInsert 16 0, SkPush 11, SkSort insertion_sort, SkFind 19, SkFind 20, SkPop, SkDeletePtr 9]"

lemma stack_example_run:
  "run_calls (sk_call word_heap tens_order) stack_example (the (sk_new word_heap (Some ())))
     = ([Word 1, Word 2, Word 3, Word 4, Word 0, Found (Some 0), Found (Some 3), Word 27, Word 0],
        \<lparr>sk_len = 3, sk_data = [16, 15, 11, 27, 0xAAAA, 0xAAAA, 0xAAAA, 0xAAAA], sk_sorted = True, sk_num_alloc = 8, sk_comp = Some ()\<rparr>)"
  by code_simp

theorem stack_refines_list_witness:
  "list_run tens_order stack_example ([], Some ())
     [Word 1, Word 2, Word 3, Word 4, Word 0, Found (Some 0), Found (Some 3), Word 27, Word 0] ([16, 15, 11], Some ())"
proof -
  have n: "sk_new word_heap (Some ()) = Some (the (sk_new word_heap (Some ())))" using word_heap_ok(2) by (simp add: sk_new_def)
  have q: "sorts q" if "SkSort q \<in> set stack_example" for q
    using that insertion_sort_sorts by (auto simp: stack_example_def)
  from stack_refines_list [OF word_heap_ok tens.comparison_axioms q n _ stack_example_run] show ?thesis
    by (simp add: stack_example_def sk_elems_def)
qed

text \<open>
  \<open>sk_set\<close> leaves the flag of a sorted stack as it is. When its new first element is greater than the
  others, the stack still counts as sorted and \<open>sk_find\<close> does not find an element that is there.
\<close>

theorem sk_set_hides_element:
  assumes "sk_ok call s" and "sk_sorted s" and "sk_comp s = Some c" and "3 \<le> unat (sk_len s)" and "v \<noteq> 0"
    and "\<And>x. x \<in> set (sk_elems s) \<Longrightarrow> 0 < call c v x" and "sk_set 0 v (Some s) = (v, s')"
  shows "sk_value s' 0 = v \<and> sk_is_sorted s' \<and> sk_find call v s' = None"
proof -
  have b: "unat (sk_len s) < unat (sk_num_alloc s)" "length (sk_data s) = unat (sk_num_alloc s)" using assms(1) by (simp_all add: sk_ok_def)
  have n0: "\<not> sk_len s \<le> 0" using assms(4) by (auto simp: word_le_nat_alt)
  then have s': "s' = Some (s\<lparr>sk_data := (sk_data s)[0 := v]\<rparr>)" using assms(7) by (simp add: sk_set_def on_stack_Some)
  have high: "0 < call c v ((sk_data s)[0 := v] ! i)" if "1 \<le> i" "i < unat (sk_len s)" for i
  proof -
    have "sk_elems s ! i \<in> set (sk_elems s)" using that length_elems [OF assms(1)] by simp
    with assms(6) that show ?thesis by (simp add: elems_nth)
  qed
  let ?mid = "0 + (sk_len s - 0 - 1) div 2"
  have lt: "0 < sk_len s" using assms(4) by (simp add: word_less_nat_alt)
  have m: "1 \<le> unat ?mid" "unat ?mid < unat (sk_len s)" "unat (?mid + 1) = Suc (unat ?mid)"
    using mid_unat [OF lt] mid_less [OF lt] mid_Suc [OF lt] assms(4) by simp_all
  have "sk_search (call c v) ((sk_data s)[0 := v]) (?mid + 1) (sk_len s) = None"
    by (rule sk_search_high) (use high m in simp)
  then have "sk_search (call c v) ((sk_data s)[0 := v]) 0 (sk_len s) = None"
    using high [OF m(1,2)] lt by (simp add: sk_search.simps [of _ _ 0] Let_def)
  with b n0 assms(2,3,5) show ?thesis
    by (simp add: s' sk_value_def sk_is_sorted_def sk_find_def Let_def)
qed

theorem sk_set_hides_element_witness:
  "\<exists>s s'. sk_ok number_order s \<and> sk_sort insertion_sort number_order (Some s) = Some s \<and> sk_elems s = [1, 2, 3]
     \<and> sk_set 0 9 (Some s) = (9, s') \<and> sk_value s' 0 = 9 \<and> sk_find number_order 9 s' = None"
proof -
  let ?s = "\<lparr>sk_len = 3, sk_data = [1, 2, 3, 0], sk_sorted = True, sk_num_alloc = 4, sk_comp = Some ()\<rparr>"
  obtain s' where s': "sk_set 0 9 (Some ?s) = (9, s')" by (simp add: sk_set_def on_stack_Some)
  have e: "sk_elems ?s = [1, 2, 3]" by (simp add: sk_elems_def)
  have ok: "sk_ok number_order ?s" using e by (simp add: sk_ok_def in_order_def number_order_def)
  have gt: "0 < number_order () 9 x" if "x \<in> set (sk_elems ?s)" for x
    using that unfolding e by (auto simp: number_order_def)
  have "sk_value s' 0 = 9 \<and> sk_is_sorted s' \<and> sk_find number_order 9 s' = None"
    by (rule sk_set_hides_element [OF ok _ _ _ _ gt s']) simp_all
  with ok e s' show ?thesis by (intro exI [of _ ?s] exI [of _ s']) (simp add: sk_sort_def)
qed

end
