(* ===== verification/Asn1Julian.thy ===== *)
theory Asn1Julian
  imports Prelude "HOL-Library.Signed_Division"
begin

text \<open>
  Calendar arithmetic of the ASN.1 time types (crypto/asn1/time_support.c): Julian day numbers,
  adding an offset to a broken-down time, and the difference of two times. The reference is the
  day count of the Gregorian calendar by years, months and leap years.

  \<open>int\<close> and \<open>long\<close> are integers; \<open>to_int\<close> is the conversion to a 32-bit \<open>int\<close>, and \<open>/\<close> and
  \<open>%\<close> are \<open>sdiv\<close> and \<open>smod\<close>.
\<close>

section \<open>The code\<close>

record tm =
  tm_year :: int
  tm_mon :: int
  tm_mday :: int
  tm_hour :: int
  tm_min :: int
  tm_sec :: int

definition SECS_PER_DAY :: int where
  "SECS_PER_DAY = 24 * 60 * 60"

definition date_to_julian :: "int \<Rightarrow> int \<Rightarrow> int \<Rightarrow> int" where
  "date_to_julian y m d =
     (1461 * (y + 4800 + (m - 14) sdiv 12)) sdiv 4 +
     (367 * (m - 2 - 12 * ((m - 14) sdiv 12))) sdiv 12 -
     (3 * ((y + 4900 + (m - 14) sdiv 12) sdiv 100)) sdiv 4 + d - 32075"

definition julian_to_date :: "int \<Rightarrow> int \<times> int \<times> int" where
  "julian_to_date jd =
     (let L = jd + 68569;
          n = (4 * L) sdiv 146097;
          L = L - (146097 * n + 3) sdiv 4;
          i = (4000 * (L + 1)) sdiv 1461001;
          L = L - (1461 * i) sdiv 4 + 31;
          j = (80 * L) sdiv 2447;
          d = to_int (L - (2447 * j) sdiv 80);
          L = j sdiv 11;
          m = to_int (j + 2 - (12 * L));
          y = to_int (100 * (n - 49) + i + L)
      in (y, m, d))"

definition julian_adj :: "tm \<Rightarrow> int \<Rightarrow> int \<Rightarrow> (int \<times> int) option" where
  "julian_adj tm off_day offset_sec =
     (let offset_day = to_int (offset_sec sdiv SECS_PER_DAY);
          offset_hms = to_int (offset_sec - to_int (offset_day * SECS_PER_DAY));
          offset_day = offset_day + off_day;
          offset_hms = offset_hms + (tm_hour tm * 3600 + tm_min tm * 60 + tm_sec tm);
          (offset_day, offset_hms) =
            (if offset_hms \<ge> SECS_PER_DAY then (offset_day + 1, offset_hms - SECS_PER_DAY)
             else if offset_hms < 0 then (offset_day - 1, offset_hms + SECS_PER_DAY)
             else (offset_day, offset_hms));
          time_jd = date_to_julian (tm_year tm + 1900) (tm_mon tm + 1) (tm_mday tm) + offset_day
      in if time_jd < 0 then None else Some (time_jd, offset_hms))"

definition OPENSSL_gmtime_adj :: "tm \<Rightarrow> int \<Rightarrow> int \<Rightarrow> tm option" where
  "OPENSSL_gmtime_adj tm off_day offset_sec =
     (case julian_adj tm off_day offset_sec of
        None \<Rightarrow> None
      | Some (time_jd, time_sec) \<Rightarrow>
          (case julian_to_date time_jd of
             (time_year, time_month, time_day) \<Rightarrow>
               if time_year < 1900 \<or> time_year > 9999 then None
               else Some (tm\<lparr>tm_year := time_year - 1900, tm_mon := time_month - 1, tm_mday := time_day,
                             tm_hour := time_sec sdiv 3600, tm_min := (time_sec sdiv 60) smod 60,
                             tm_sec := time_sec smod 60\<rparr>)))"

definition OPENSSL_gmtime_diff :: "tm \<Rightarrow> tm \<Rightarrow> (int \<times> int) option" where
  "OPENSSL_gmtime_diff from_tm to_tm =
     (case julian_adj from_tm 0 0 of
        None \<Rightarrow> None
      | Some (from_jd, from_sec) \<Rightarrow>
          (case julian_adj to_tm 0 0 of
             None \<Rightarrow> None
           | Some (to_jd, to_sec) \<Rightarrow>
               (let diff_day = to_jd - from_jd;
                    diff_sec = to_sec - from_sec;
                    (diff_day, diff_sec) =
                      (if diff_day > 0 \<and> diff_sec < 0 then (diff_day - 1, diff_sec + SECS_PER_DAY)
                       else (diff_day, diff_sec));
                    (diff_day, diff_sec) =
                      (if diff_day < 0 \<and> diff_sec > 0 then (diff_day + 1, diff_sec - SECS_PER_DAY)
                       else (diff_day, diff_sec))
                in Some (to_int diff_day, diff_sec))))"

section \<open>The Gregorian calendar\<close>

definition leap :: "int \<Rightarrow> bool" where
  "leap y \<longleftrightarrow> y mod 4 = 0 \<and> (y mod 100 \<noteq> 0 \<or> y mod 400 = 0)"

definition month_length :: "int \<Rightarrow> int \<Rightarrow> int" where
  "month_length y m = (if m = 2 then (if leap y then 29 else 28) else if m = 4 \<or> m = 6 \<or> m = 9 \<or> m = 11 then 30 else 31)"

definition valid_date :: "int \<Rightarrow> int \<Rightarrow> int \<Rightarrow> bool" where
  "valid_date y m d \<longleftrightarrow> 1 \<le> m \<and> m \<le> 12 \<and> 1 \<le> d \<and> d \<le> month_length y m"

text \<open>Days before a year and before a month of a year.\<close>

definition days_before_year :: "int \<Rightarrow> int" where
  "days_before_year y = 365 * (y - 1) + (y - 1) div 4 - (y - 1) div 100 + (y - 1) div 400"

definition days_before_month :: "int \<Rightarrow> int \<Rightarrow> int" where
  "days_before_month y m = (\<Sum>k\<leftarrow>[1..m - 1]. month_length y k)"

definition day_count :: "int \<Rightarrow> int \<Rightarrow> int \<Rightarrow> int" where
  "day_count y m d = days_before_year y + days_before_month y m + d"

section \<open>Dates and day numbers\<close>

lemma sdiv_div: "0 \<le> a \<Longrightarrow> 0 < b \<Longrightarrow> a sdiv b = a div b" for a b :: int
  by (simp add: signed_divide_int_eq_divide_int sgn_if)

lemma smod_mod: "0 \<le> a \<Longrightarrow> 0 < b \<Longrightarrow> a smod b = a mod b" for a b :: int
  by (simp add: signed_modulo_int_eq_modulo_int sgn_if)

lemma div_between: "b * q \<le> a \<Longrightarrow> a < b * (q + 1) \<Longrightarrow> a div b = q" for a b q :: int
  by (rule int_div_pos_eq [of _ _ _ "a - b * q"]) (simp_all add: algebra_simps)

lemma month_cases:
  fixes m :: int
  assumes "1 \<le> m" "m \<le> 12"
  obtains "m = 1" | "m = 2" | "m = 3" | "m = 4" | "m = 5" | "m = 6" | "m = 7" | "m = 8" | "m = 9" | "m = 10"
    | "m = 11" | "m = 12"
proof -
  have "m = 1 \<or> m = 2 \<or> m = 3 \<or> m = 4 \<or> m = 5 \<or> m = 6 \<or> m = 7 \<or> m = 8 \<or> m = 9 \<or> m = 10 \<or> m = 11 \<or> m = 12"
    using assms by presburger
  then show thesis using that by blast
qed

lemma january_shift:
  fixes m :: int
  assumes "1 \<le> m" "m \<le> 12"
  shows "(m - 14) sdiv 12 = (if m \<le> 2 then - 1 else 0)"
  using assms by (rule month_cases) (simp_all add: signed_divide_int_def)

text \<open>A date in the years that begin in March: century, year in it, month and day.\<close>

definition march_year :: "int \<Rightarrow> int \<Rightarrow> int" where
  "march_year y m = y + 4900 - (if m \<le> 2 then 1 else 0)"

definition march_month :: "int \<Rightarrow> int" where
  "march_month m = (if m \<le> 2 then m + 10 else m - 2)"

definition century_days :: "int \<Rightarrow> int" where
  "century_days c = (146097 * c + 3) div 4"

definition year_day :: "int \<Rightarrow> int \<Rightarrow> int" where
  "year_day m d = 367 * march_month m div 12 + d - 31"

lemma century_days_alt: "century_days c = 36525 * c - (3 * c) div 4"
  unfolding century_days_def by linarith

lemma date_to_julian_march:
  assumes "1 \<le> m" "m \<le> 12" "- 4799 \<le> y"
  shows "date_to_julian y m d + 68569 =
    century_days (march_year y m div 100) + 1461 * (march_year y m mod 100) div 4 + year_day m d"
proof -
  let ?Y = "march_year y m" and ?s = "if m \<le> 2 then - 1 else 0 :: int"
  have s: "(m - 14) sdiv 12 = ?s" by (rule january_shift [OF assms(1,2)])
  have Y: "y + 4900 + ?s = ?Y" "y + 4800 + ?s = ?Y - 100" by (simp_all add: march_year_def)
  have pos: "100 \<le> ?Y" using assms(3) by (simp add: march_year_def)
  have m: "m - 2 - 12 * ?s = march_month m" by (simp add: march_month_def)
  have mp: "0 < march_month m" using assms by (simp add: march_month_def)
  have "(1461 * (?Y - 100)) sdiv 4 = (1461 * (?Y - 100)) div 4" using pos by (intro sdiv_div) simp_all
  also have "\<dots> = 36525 * (?Y div 100) - 36525 + 1461 * (?Y mod 100) div 4"
  proof -
    define q r where "q = ?Y div 100" and "r = ?Y mod 100"
    have "?Y = q * 100 + r" unfolding q_def r_def by simp
    then have "1461 * (?Y - 100) = 1461 * r + (36525 * q - 36525) * 4" by (simp add: algebra_simps)
    then have "1461 * (?Y - 100) div 4 = 36525 * q - 36525 + 1461 * r div 4" by simp
    then show ?thesis unfolding q_def r_def .
  qed
  finally have y: "(1461 * (?Y - 100)) sdiv 4 = \<dots>" .
  have c: "?Y sdiv 100 = ?Y div 100" "(3 * (?Y div 100)) sdiv 4 = (3 * (?Y div 100)) div 4"
    using pos by (simp_all add: sdiv_div pos_imp_zdiv_nonneg_iff)
  have mm: "(367 * march_month m) sdiv 12 = 367 * march_month m div 12" using mp by (simp add: sdiv_div)
  show ?thesis
    unfolding date_to_julian_def s Y m y c mm century_days_alt year_day_def by simp
qed

text \<open>The inverse on the parts: years of a century and months of a year, by evaluation.\<close>

definition last_day :: "int \<Rightarrow> int" where
  "last_day r = (if r mod 4 = 3 then 365 else 364)"

lemma year_of_day:
  assumes "0 \<le> r" "r \<le> 99" "0 \<le> u" "u \<le> last_day r"
  shows "(4000 * (1461 * r div 4 + u + 1)) div 1461001 = r"
proof -
  have all: "list_all (\<lambda>r. 1461001 * r \<le> 4000 * (1461 * r div 4 + 1)
      \<and> 4000 * (1461 * r div 4 + last_day r + 1) < 1461001 * (r + 1)) [0..99]" by code_simp
  have "r \<in> set [0..99]" using assms by simp
  with all have b: "1461001 * r \<le> 4000 * (1461 * r div 4 + 1)"
    "4000 * (1461 * r div 4 + last_day r + 1) < 1461001 * (r + 1)" unfolding list_all_iff by blast+
  have "4000 * (1461 * r div 4 + 1) \<le> 4000 * (1461 * r div 4 + u + 1)"
    "4000 * (1461 * r div 4 + u + 1) \<le> 4000 * (1461 * r div 4 + last_day r + 1)" using assms by simp_all
  with b show ?thesis by (intro div_between) linarith+
qed

lemma month_of_day:
  assumes "1 \<le> m" "m \<le> 12" "1 \<le> d" "d \<le> (if m = 2 then 29 else month_length 1 m)"
  shows "80 * (year_day m d + 31) div 2447 = march_month m" "0 \<le> year_day m d"
    "year_day m d \<le> (if m = 2 \<and> d = 29 then 365 else 364)"
proof -
  have "list_all (\<lambda>m. list_all (\<lambda>d. 80 * (year_day m d + 31) div 2447 = march_month m \<and> 0 \<le> year_day m d \<and>
      year_day m d \<le> (if m = 2 \<and> d = 29 then 365 else 364)) [1..(if m = 2 then 29 else month_length 1 m)]) [1..12]"
    by code_simp
  moreover have "m \<in> set [1..12]" "d \<in> set [1..(if m = 2 then 29 else month_length 1 m)]" using assms by simp_all
  ultimately show "80 * (year_day m d + 31) div 2447 = march_month m" "0 \<le> year_day m d"
    "year_day m d \<le> (if m = 2 \<and> d = 29 then 365 else 364)" unfolding list_all_iff by blast+
qed


text \<open>The day number split at its century.\<close>

lemma century_of_day:
  assumes "0 \<le> t" "t < century_days (c + 1) - century_days c"
  shows "4 * (century_days c + t) div 146097 = c"
proof (rule div_between)
  have "century_days c = (146097 * c + 3) div 4" "century_days (c + 1) = (146097 * (c + 1) + 3) div 4"
    by (simp_all add: century_days_def)
  then have "146097 * c \<le> 4 * century_days c" "4 * century_days (c + 1) \<le> 146097 * (c + 1) + 3"
    by linarith+
  moreover have "4 * (century_days c + t) + 4 \<le> 4 * century_days (c + 1)" using assms(2) by presburger
  ultimately show "146097 * c \<le> 4 * (century_days c + t)" "4 * (century_days c + t) < 146097 * (c + 1)"
    using assms(1) by simp_all
qed

lemma century_length: "century_days (c + 1) - century_days c = (if c mod 4 = 0 then 36525 else 36524)"
proof -
  define q r where "q = c div 4" and "r = c mod 4"
  have c: "c = 4 * q + r" "r = 0 \<or> r = 1 \<or> r = 2 \<or> r = 3" "r = c mod 4" unfolding q_def r_def by auto
  have "century_days c = 146097 * q + (146097 * r + 3) div 4"
    "century_days (c + 1) = 146097 * q + (146097 * (r + 1) + 3) div 4"
    unfolding century_days_def c(1) by (simp_all add: algebra_simps)
  with c(2,3) show ?thesis by auto
qed

lemma march_split:
  assumes "0 \<le> r" "r \<le> 99" "0 \<le> u" "u \<le> last_day r" "r = 99 \<longrightarrow> u = 365 \<longrightarrow> c mod 4 = 0"
    and L: "jd + 68569 = century_days c + 1461 * r div 4 + u" and c: "0 \<le> c"
  shows "julian_to_date jd =
    (let j = 80 * (u + 31) div 2447 in
     (to_int (100 * c - 4900 + r + j div 11), to_int (j + 2 - 12 * (j div 11)), to_int (u + 31 - 2447 * j div 80)))"
proof -
  let ?t = "1461 * r div 4 + u"
  have u365: "u = 365 \<Longrightarrow> r mod 4 = 3" "u \<le> 365" using assms(4) by (auto simp: last_day_def split: if_splits)
  have t: "0 \<le> ?t" "?t < century_days (c + 1) - century_days c"
  proof -
    show "0 \<le> ?t" using assms by simp
    have "1461 * r div 4 + u \<le> 36158 + 365" if "r \<noteq> 99" 
    proof -
      have "1461 * r div 4 \<le> 1461 * 98 div 4" using assms(2) that by (intro zdiv_mono1) simp_all
      then show ?thesis using u365(2) by simp
    qed
    moreover have "?t \<le> 36159 + 364 + (if c mod 4 = 0 then 1 else 0)" if "r = 99"
      using that assms(5) u365(2) by (cases "u = 365") simp_all
    ultimately show "?t < century_days (c + 1) - century_days c" unfolding century_length
      by (cases "r = 99") (auto split: if_splits)
  qed
  have L': "jd + 68569 = century_days c + ?t" using L by simp
  have pos: "0 \<le> century_days c" using c by (simp add: century_days_def)
  have n: "(4 * (jd + 68569)) sdiv 146097 = c"
    unfolding L' using century_of_day [OF t] pos t(1) by (simp add: sdiv_div)
  have cd: "(146097 * c + 3) sdiv 4 = century_days c" using c by (simp add: sdiv_div century_days_def)
  have i: "(4000 * (?t + 1)) sdiv 1461001 = r"
    using year_of_day [OF assms(1-4)] t(1) by (simp add: sdiv_div)
  have ri: "(1461 * r) sdiv 4 = 1461 * r div 4" using assms(1) by (simp add: sdiv_div)
  let ?j = "80 * (u + 31) div 2447"
  have j: "(80 * (u + 31)) sdiv 2447 = ?j" "0 \<le> ?j" using assms(3) by (simp_all add: sdiv_div)
  have jj: "(2447 * ?j) sdiv 80 = 2447 * ?j div 80" "?j sdiv 11 = ?j div 11"
    using j(2) by (simp_all add: sdiv_div)
  have d: "jd + 68569 - (146097 * c + 3) sdiv 4 = ?t" using L' cd by simp
  have u: "?t - (1461 * r) sdiv 4 + 31 = u + 31" using ri by simp
  have y: "100 * (c - 49) + r + x = 100 * c - 4900 + r + x" for x by simp
  show ?thesis
    unfolding julian_to_date_def Let_def n d i u j(1) jj y by (rule refl)
qed

lemma march_leap:
  assumes "leap y"
  shows "march_year y 2 mod 100 mod 4 = 3" "march_year y 2 mod 100 = 99 \<longrightarrow> march_year y 2 div 100 mod 4 = 0"
proof -
  have Y: "march_year y 2 = y + 4899" by (simp add: march_year_def)
  have "(y + 4899) mod 4 = 3" 
  proof -
    have "y mod 4 = 0" using assms by (simp add: leap_def)
    then show ?thesis by presburger
  qed
  moreover have "(y + 4899) mod 100 mod 4 = (y + 4899) mod 4" by (rule mod_mod_cancel) simp
  ultimately show "march_year y 2 mod 100 mod 4 = 3" unfolding Y by simp
  show "march_year y 2 mod 100 = 99 \<longrightarrow> march_year y 2 div 100 mod 4 = 0"
  proof
    assume r: "march_year y 2 mod 100 = 99"
    define q where "q = (y + 4899) div 100"
    have e: "y + 4899 = 100 * q + 99" using r div_mult_mod_eq [of "y + 4899" 100] unfolding Y q_def by simp
    then have y: "y = 100 * (q - 48)" by simp
    have "y mod 100 = 0" by (simp add: y)
    then have "y mod 400 = 0" using assms by (simp add: leap_def)
    moreover have "100 * (q - 48) mod (100 * 4) = 100 * ((q - 48) mod 4)" by (rule mod_mult_mult1)
    ultimately have "(q - 48) mod 4 = 0" unfolding y by simp
    then have "q mod 4 = 0" by presburger
    then show "march_year y 2 div 100 mod 4 = 0" unfolding Y q_def .
  qed
qed

text \<open>Converting a date to its day number and back.\<close>

lemma julian_to_date_to_julian:
  assumes v: "valid_date y m d" and y: "- 4799 \<le> y" "y \<le> 2000000000"
  shows "julian_to_date (date_to_julian y m d) = (y, m, d)"
proof -
  let ?Y = "march_year y m" and ?u = "year_day m d"
  let ?c = "?Y div 100" and ?r = "?Y mod 100"
  have m: "1 \<le> m" "m \<le> 12" and d: "1 \<le> d" "d \<le> month_length y m" using v by (simp_all add: valid_date_def)
  have d': "d \<le> (if m = 2 then 29 else month_length 1 m)" using d(2) by (simp add: month_length_def split: if_splits)
  note u = month_of_day [OF m d(1) d']
  have feb29: "m = 2 \<and> d = 29 \<Longrightarrow> leap y" using d(2) by (auto simp: month_length_def split: if_splits)
  have r: "0 \<le> ?r" "?r \<le> 99" by simp_all
  have last: "?u \<le> last_day ?r" "?r = 99 \<longrightarrow> ?u = 365 \<longrightarrow> ?c mod 4 = 0"
    using u(3) march_leap [OF feb29] by (auto simp: last_day_def split: if_splits)
  have c: "0 \<le> ?c" using y(1) by (simp add: march_year_def pos_imp_zdiv_nonneg_iff)
  have s: "julian_to_date (date_to_julian y m d) = (let j = march_month m in
     (to_int (100 * ?c - 4900 + ?r + j div 11), to_int (j + 2 - 12 * (j div 11)), to_int (?u + 31 - 2447 * j div 80)))"
    using march_split [OF r u(2) last date_to_julian_march [OF m y(1)] c] unfolding u(1) .
  have mm: "march_month m div 11 = (if m \<le> 2 then 1 else 0)" "march_month m + 2 - 12 * (march_month m div 11) = m"
    "367 * march_month m div 12 = 2447 * march_month m div 80"
    using m by (rule month_cases; simp add: march_month_def)+
  have "100 * ?c - 4900 + ?r + march_month m div 11 = y"
  proof -
    have sum: "100 * c + r = Y \<Longrightarrow> Y = y + 4900 - s \<Longrightarrow> k = s \<Longrightarrow> 100 * c - 4900 + r + k = y" for c r Y s k :: int
      by simp
    show ?thesis by (rule sum [OF _ march_year_def mm(1)]) simp
  qed
  moreover have "?u + 31 - 2447 * march_month m div 80 = d" using mm(3) by (simp add: year_day_def)
  moreover have "month_length y m \<le> 31" by (simp add: month_length_def)
  ultimately show ?thesis using s mm(2) m d y by (simp add: Let_def to_int_id)
qed

section \<open>The day number is the day count of the calendar\<close>

text \<open>Both are periodic in 400 years; one period is evaluated.\<close>

lemma years_period:
  assumes "0 \<le> s"
  shows "days_before_year (400 * q + s) = 146097 * q + days_before_year s" "leap (400 * q + s) = leap s"
    "march_year (400 * q + s) m = 400 * q + march_year s m"
proof -
  have "days_before_year (400 * q + s) = 365 * (400 * q + s - 1) + (s - 1 + 400 * q) div 4 - (s - 1 + 400 * q) div 100 + (s - 1 + 400 * q) div 400"
    by (simp add: days_before_year_def algebra_simps)
  also have "(s - 1 + 400 * q) div 4 = (s - 1) div 4 + 100 * q" using div_mult_self2 [of 4 "s - 1" "100 * q"] by simp
  also have "(s - 1 + 400 * q) div 100 = (s - 1) div 100 + 4 * q" using div_mult_self2 [of 100 "s - 1" "4 * q"] by simp
  also have "(s - 1 + 400 * q) div 400 = (s - 1) div 400 + q" by simp
  finally show "days_before_year (400 * q + s) = 146097 * q + days_before_year s" by (simp add: days_before_year_def)
  have "(400 * q + s) mod 4 = s mod 4" using mod_mult_self3 [of "100 * q" 4 s] by simp
  moreover have "(400 * q + s) mod 100 = s mod 100" using mod_mult_self3 [of "4 * q" 100 s] by simp
  moreover have "(400 * q + s) mod 400 = s mod 400" by simp
  ultimately show "leap (400 * q + s) = leap s" by (simp add: leap_def)
qed (simp add: march_year_def)

lemma month_days_cong: "leap y = leap s \<Longrightarrow> days_before_month y m = days_before_month s m"
  by (simp add: days_before_month_def month_length_def cong: map_cong)

definition julian_base :: "int \<Rightarrow> int" where
  "julian_base Y = century_days (Y div 100) + 1461 * (Y mod 100) div 4"

lemma julian_base_period: "julian_base (400 * q + Y) = 146097 * q + julian_base Y"
proof -
  have "(400 * q + Y) div 100 = 4 * q + Y div 100" "(400 * q + Y) mod 100 = Y mod 100"
    using div_mult_self3 [of 100 "4 * q" Y] mod_mult_self3 [of "4 * q" 100 Y] by simp_all
  moreover have "century_days (4 * q + c) = 146097 * q + century_days c" for c
    using div_mult_self3 [of 4 "146097 * q" "146097 * c + 3"] by (simp add: century_days_def algebra_simps)
  ultimately show ?thesis by (simp add: julian_base_def)
qed

lemma period_agrees:
  "list_all (\<lambda>s. julian_base (s + 4899) = days_before_year s + 1789689 \<and>
     julian_base (s + 4900) = days_before_year s + (if leap s then 1790055 else 1790054)) [0..399]"
  by code_simp

lemma months_agree:
  assumes "1 \<le> m" "m \<le> 12"
  shows "year_day m d = days_before_month y m + d + (if m \<le> 2 then 305 else if leap y then - 61 else - 60)"
  using assms by (rule month_cases)
    (simp_all add: year_day_def march_month_def days_before_month_def month_length_def upto.simps)

lemma date_to_julian_day_count:
  assumes m: "1 \<le> m" "m \<le> 12" and y: "- 4799 \<le> y"
  shows "date_to_julian y m d = day_count y m d + 1721425"
proof -
  define q s where "q = y div 400" and "s = y mod 400"
  have ys: "y = 400 * q + s" "0 \<le> s" "s \<le> 399" unfolding q_def s_def by simp_all
  have "s \<in> set [0..399]" using ys by simp
  with period_agrees have p: "julian_base (s + 4899) = days_before_year s + 1789689"
    "julian_base (s + 4900) = days_before_year s + (if leap s then 1790055 else 1790054)"
    unfolding list_all_iff by blast+
  have leap: "leap y = leap s" and dby: "days_before_year y = 146097 * q + days_before_year s"
    using years_period [OF ys(2), of q] ys(1) by simp_all
  have base: "julian_base (march_year y m) = 146097 * q + julian_base (march_year s m)"
    unfolding ys(1) years_period(3) [OF ys(2)] julian_base_period ..
  have "date_to_julian y m d + 68569 = julian_base (march_year y m) + year_day m d"
    unfolding date_to_julian_march [OF m y] julian_base_def by simp
  also have "\<dots> = day_count y m d + 1789994"
    unfolding base months_agree [OF m, of d y] day_count_def dby leap
    using p by (simp add: march_year_def add.commute)
  finally show ?thesis by simp
qed

section \<open>Every day has a date\<close>

lemma day_to_month:
  assumes "0 \<le> u" "u \<le> 365"
  obtains m d where "1 \<le> m" "m \<le> 12" "1 \<le> d" "d \<le> (if m = 2 then 29 else month_length 1 m)" "year_day m d = u"
    "m = 2 \<and> d = 29 \<longrightarrow> u = 365"
proof -
  let ?ok = "\<lambda>u m d. 1 \<le> m \<and> m \<le> 12 \<and> 1 \<le> d \<and> d \<le> (if m = 2 then 29 else month_length 1 m) \<and> year_day m d = u
      \<and> (m = 2 \<and> d = 29 \<longrightarrow> u = 365)"
  have "list_all (\<lambda>u. let j = 80 * (u + 31) div 2447 in ?ok u (j + 2 - 12 * (j div 11)) (u + 31 - 2447 * j div 80)) [0..365]"
    by code_simp
  moreover have "u \<in> set [0..365]" using assms by simp
  ultimately have "\<exists>m d. ?ok u m d" unfolding list_all_iff Let_def by blast
  then show thesis using that by blast
qed

lemma day_to_year:
  assumes "0 \<le> t" "t \<le> 36524"
  obtains r u where "0 \<le> r" "r \<le> 99" "0 \<le> u" "u \<le> last_day r" "t = 1461 * r div 4 + u"
proof -
  define r k where "r = (4 * t + 3) div 1461" and "k = 1461 * r div 4"
  have r: "1461 * r \<le> 4 * t + 3" "4 * t + 3 < 1461 * r + 1461"
    unfolding r_def using pos_mod_bound [of 1461 "4 * t + 3"] pos_mod_sign [of 1461 "4 * t + 3"]
      mult_div_mod_eq [of 1461 "4 * t + 3"] by linarith+
  have "(r + 365 * r * 4) mod 4 = r mod 4" by (rule mod_mult_self1)
  then have "1461 * r mod 4 = r mod 4" by simp
  then have k: "1461 * r = 4 * k + r mod 4" unfolding k_def using mult_div_mod_eq [of 4 "1461 * r"] by simp
  have m4: "0 \<le> r mod 4" "r mod 4 \<le> 3" by simp_all
  show thesis
  proof (rule that [of r "t - k"])
    show "0 \<le> r" using assms by (simp add: r_def pos_imp_zdiv_nonneg_iff)
    show "r \<le> 99" using r(1) assms(2) by linarith
    show "0 \<le> t - k" using r(1) k m4 by linarith
    show "t - k \<le> last_day r" using r(2) k m4 by (auto simp: last_day_def)
    show "t = 1461 * r div 4 + (t - k)" by (simp add: k_def)
  qed
qed

lemma date_of_day:
  assumes "0 \<le> jd" "jd \<le> 100000000000"
  obtains y m d where "valid_date y m d" "date_to_julian y m d = jd" "- 4799 \<le> y" "y \<le> 2000000000"
proof -
  define L c t where "L = jd + 68569" and "c = 4 * L div 146097" and "t = L - century_days c"
  have L: "0 \<le> L" using assms(1) by (simp add: L_def)
  have c: "146097 * c \<le> 4 * L" "4 * L < 146097 * c + 146097"
    unfolding c_def using pos_mod_bound [of 146097 "4 * L"] pos_mod_sign [of 146097 "4 * L"]
      mult_div_mod_eq [of 146097 "4 * L"] by linarith+
  have c0: "0 \<le> c" using L by (simp add: c_def pos_imp_zdiv_nonneg_iff)
  have cd: "4 * century_days c \<le> 146097 * c + 3" "146097 * (c + 1) \<le> 4 * century_days (c + 1)"
    unfolding century_days_def by linarith+
  have "4 * L < 4 * century_days (c + 1)" using c(2) cd(2) by simp
  then have t: "0 \<le> t" "t < century_days (c + 1) - century_days c" unfolding t_def using c(1) cd(1) by simp_all
  then have "t \<le> 36524" unfolding century_length by (simp split: if_splits)
  from day_to_year [OF t(1) this] obtain r u where r: "0 \<le> r" "r \<le> 99" and u: "0 \<le> u" "u \<le> last_day r"
    and tu: "t = 1461 * r div 4 + u" by blast
  have "u \<le> 365" using u(2) by (simp add: last_day_def split: if_splits)
  from day_to_month [OF u(1) this] obtain m d where m: "1 \<le> m" "m \<le> 12" and d: "1 \<le> d"
    "d \<le> (if m = 2 then 29 else month_length 1 m)" and ud: "year_day m d = u" "m = 2 \<and> d = 29 \<longrightarrow> u = 365"
    by blast
  define y where "y = 100 * c + r - 4900 + (if m \<le> 2 then 1 else 0)"
  have Y: "march_year y m = 100 * c + r" by (simp add: y_def march_year_def)
  have split: "(100 * c + r) div 100 = c" "(100 * c + r) mod 100 = r" using r by simp_all
  have leap: "leap y" if "m = 2" "d = 29"
  proof -
    have "u = 365" using ud(2) that by blast
    then have r3: "r mod 4 = 3" using u(2) by (simp add: last_day_def split: if_splits)
    have y: "y = 100 * c + r - 4899" using that(1) by (simp add: y_def)
    have y4: "y mod 4 = 0" unfolding y using r3 by presburger
    show ?thesis
    proof (cases "r = 99")
      case True
      then have "c mod 4 = 0" using t(2) tu \<open>u = 365\<close> unfolding century_length by (simp split: if_splits)
      then have "(c - 48) mod 4 = 0" by presburger
      moreover have "100 * (c - 48) mod (100 * 4) = 100 * ((c - 48) mod 4)" by (rule mod_mult_mult1)
      moreover have "y = 100 * (c - 48)" using y True by simp
      ultimately show ?thesis using y4 by (simp add: leap_def)
    next
      case False
      have "y = (c - 49) * 100 + (r + 1)" using y by simp
      moreover have "(r + 1) mod 100 = r + 1" using r False by (intro mod_pos_pos_trivial) simp_all
      ultimately have "y mod 100 = r + 1" by (simp only: mod_mult_self3)
      then show ?thesis using y4 r by (simp add: leap_def)
    qed
  qed
  show thesis
  proof (rule that)
    have "d \<le> month_length y m"
    proof (cases "m = 2 \<and> d = 29")
      case True
      then show ?thesis using leap by (simp add: month_length_def)
    next
      case False
      then show ?thesis using d(2) by (auto simp: month_length_def split: if_splits)
    qed
    then show "valid_date y m d" using m d(1) by (simp add: valid_date_def)
    have "c \<le> 10000000" using c(1) assms(2) by (simp add: L_def)
    then show "y \<le> 2000000000" using r by (simp add: y_def)
    have "1 \<le> c" using c(2) assms(1) by (simp add: L_def)
    moreover have "1 \<le> r" if "c = 1"
    proof (rule ccontr)
      assume "\<not> 1 \<le> r"
      then have "t \<le> 365" using tu r \<open>u \<le> 365\<close> by simp
      then show False using assms(1) that by (simp add: t_def L_def century_days_def)
    qed
    ultimately show y: "- 4799 \<le> y" using r by (cases "c = 1") (simp_all add: y_def)
    show "date_to_julian y m d = jd"
      using date_to_julian_march [OF m y, of d] ud(1) tu unfolding Y split by (simp add: t_def L_def)
  qed
qed

section \<open>Broken-down times\<close>

definition valid_tm :: "tm \<Rightarrow> bool" where
  "valid_tm t \<longleftrightarrow> valid_date (tm_year t + 1900) (tm_mon t + 1) (tm_mday t)
     \<and> 0 \<le> tm_hour t \<and> tm_hour t \<le> 23 \<and> 0 \<le> tm_min t \<and> tm_min t \<le> 59 \<and> 0 \<le> tm_sec t \<and> tm_sec t \<le> 59"

text \<open>The fields in their ranges, for a day that need not be one of the month.\<close>

definition tm_ranges :: "tm \<Rightarrow> bool" where
  "tm_ranges t \<longleftrightarrow> 0 \<le> tm_mon t \<and> tm_mon t \<le> 11 \<and> 1 \<le> tm_mday t \<and> tm_mday t \<le> 31
     \<and> 0 \<le> tm_hour t \<and> tm_hour t \<le> 23 \<and> 0 \<le> tm_min t \<and> tm_min t \<le> 59 \<and> 0 \<le> tm_sec t \<and> tm_sec t \<le> 59"

lemma valid_tm_ranges: "valid_tm t \<Longrightarrow> tm_ranges t"
  by (auto simp: valid_tm_def tm_ranges_def valid_date_def month_length_def split: if_splits)

definition day_secs :: "tm \<Rightarrow> int" where
  "day_secs t = tm_hour t * 3600 + tm_min t * 60 + tm_sec t"

text \<open>Seconds from the start of the year 1.\<close>

definition epoch_secs :: "tm \<Rightarrow> int" where
  "epoch_secs t = day_count (tm_year t + 1900) (tm_mon t + 1) (tm_mday t) * SECS_PER_DAY + day_secs t"

lemma day_secs_range: "tm_ranges t \<Longrightarrow> 0 \<le> day_secs t \<and> day_secs t < SECS_PER_DAY"
  by (simp add: tm_ranges_def day_secs_def SECS_PER_DAY_def)

lemma smod_range: "- SECS_PER_DAY < x smod SECS_PER_DAY \<and> x smod SECS_PER_DAY < SECS_PER_DAY"
proof -
  have "0 \<le> \<bar>x\<bar> mod SECS_PER_DAY" "\<bar>x\<bar> mod SECS_PER_DAY < SECS_PER_DAY" by (simp_all add: SECS_PER_DAY_def)
  then show ?thesis by (auto simp: signed_modulo_int_def sgn_if SECS_PER_DAY_def)
qed

lemma div_mod_eqI: "T = q * b + r \<Longrightarrow> 0 \<le> r \<Longrightarrow> r < b \<Longrightarrow> T div b = q \<and> T mod b = r" for T :: int
proof
  assume T: "T = q * b + r" "0 \<le> r" "r < b"
  then show q: "T div b = q" by (intro div_between) (simp_all add: algebra_simps)
  show "T mod b = r" using minus_div_mult_eq_mod [of T b] q T(1) by simp
qed

definition offset_ok :: "int \<Rightarrow> int \<Rightarrow> bool" where
  "offset_ok off_day off_sec \<longleftrightarrow> \<bar>off_day\<bar> < 2 ^ 30 \<and> \<bar>off_sec\<bar> < 2 ^ 30 * SECS_PER_DAY"

lemma offset_parts:
  assumes "\<bar>s\<bar> < 2 ^ 30 * SECS_PER_DAY"
  shows "to_int (s sdiv SECS_PER_DAY) = s sdiv SECS_PER_DAY"
    "to_int (s - to_int (s sdiv SECS_PER_DAY * SECS_PER_DAY)) = s smod SECS_PER_DAY"
    "\<bar>s sdiv SECS_PER_DAY\<bar> < 2 ^ 30"
proof -
  have "\<bar>s\<bar> div 86400 < 1073741824" using assms by (simp add: SECS_PER_DAY_def)
  moreover have "\<bar>s sdiv SECS_PER_DAY\<bar> = \<bar>s\<bar> div 86400"
    by (simp add: signed_divide_int_def SECS_PER_DAY_def abs_mult sgn_if)
  ultimately show "\<bar>s sdiv SECS_PER_DAY\<bar> < 2 ^ 30" by simp
  then show "to_int (s sdiv SECS_PER_DAY) = s sdiv SECS_PER_DAY" by (intro to_int_id) simp_all
  have "s - s sdiv SECS_PER_DAY * SECS_PER_DAY = s smod SECS_PER_DAY" by (rule minus_sdiv_mult_eq_smod)
  then show "to_int (s - to_int (s sdiv SECS_PER_DAY * SECS_PER_DAY)) = s smod SECS_PER_DAY"
    unfolding to_int_diff using smod_range [of s] by (simp add: SECS_PER_DAY_def to_int_id)
qed

lemma julian_adj_eq:
  assumes v: "tm_ranges t" and y: "- 1900 \<le> tm_year t" and o: "offset_ok off_day off_sec"
    and T: "T = epoch_secs t + off_day * SECS_PER_DAY + off_sec"
  shows "julian_adj t off_day off_sec =
    (if T div SECS_PER_DAY + 1721425 < 0 then None else Some (T div SECS_PER_DAY + 1721425, T mod SECS_PER_DAY))"
proof -
  let ?q = "off_sec sdiv SECS_PER_DAY" and ?r = "off_sec smod SECS_PER_DAY"
  let ?days = "day_count (tm_year t + 1900) (tm_mon t + 1) (tm_mday t)"
  note parts = offset_parts [of off_sec] o [unfolded offset_ok_def]
  have h: "?r + day_secs t < 2 * SECS_PER_DAY" "- SECS_PER_DAY < ?r + day_secs t"
    using smod_range [of off_sec] day_secs_range [OF v] by linarith+
  have T': "T = (?days + (?q + off_day)) * SECS_PER_DAY + (?r + day_secs t)"
    unfolding T epoch_secs_def using sdiv_mult_smod_eq [of off_sec SECS_PER_DAY] by (simp add: algebra_simps)
  have jd: "date_to_julian (tm_year t + 1900) (tm_mon t + 1) (tm_mday t) = ?days + 1721425"
    using v y by (intro date_to_julian_day_count) (simp_all add: tm_ranges_def)
  have hms: "tm_hour t * 3600 + tm_min t * 60 + tm_sec t = day_secs t" by (simp add: day_secs_def)
  note def = julian_adj_def [of t off_day off_sec] Let_def
  consider (over) "SECS_PER_DAY \<le> ?r + day_secs t" | (under) "?r + day_secs t < 0"
    | (within) "0 \<le> ?r + day_secs t" "?r + day_secs t < SECS_PER_DAY" by linarith
  then show ?thesis
  proof cases
    case over
    have "T = (?days + (?q + off_day + 1)) * SECS_PER_DAY + (?r + day_secs t - SECS_PER_DAY)"
      unfolding T' by (simp add: algebra_simps)
    from div_mod_eqI [OF this] over h(1) have "T div SECS_PER_DAY = ?days + (?q + off_day + 1)"
      "T mod SECS_PER_DAY = ?r + day_secs t - SECS_PER_DAY" by simp_all
    with over parts jd show ?thesis unfolding def hms by simp
  next
    case under
    have "T = (?days + (?q + off_day - 1)) * SECS_PER_DAY + (?r + day_secs t + SECS_PER_DAY)"
      unfolding T' by (simp add: algebra_simps)
    from div_mod_eqI [OF this] under h(2) have "T div SECS_PER_DAY = ?days + (?q + off_day - 1)"
      "T mod SECS_PER_DAY = ?r + day_secs t + SECS_PER_DAY" by simp_all
    moreover have "\<not> SECS_PER_DAY \<le> ?r + day_secs t" using under by (simp add: SECS_PER_DAY_def)
    ultimately show ?thesis using under parts jd unfolding def hms by simp
  next
    case within
    from div_mod_eqI [OF T' within] have "T div SECS_PER_DAY = ?days + (?q + off_day)"
      "T mod SECS_PER_DAY = ?r + day_secs t" by simp_all
    with within parts jd show ?thesis unfolding def hms by simp
  qed
qed

text \<open>A valid time is determined by its seconds.\<close>

lemma epoch_parts:
  assumes "tm_ranges t"
  shows "epoch_secs t div SECS_PER_DAY = day_count (tm_year t + 1900) (tm_mon t + 1) (tm_mday t)"
    "epoch_secs t mod SECS_PER_DAY = day_secs t"
  using div_mod_eqI [of "epoch_secs t"] day_secs_range [OF assms] by (simp_all add: epoch_secs_def)

lemma date_range: "tm_ranges t \<Longrightarrow> - 6699 \<le> tm_year t \<Longrightarrow>
    date_to_julian (tm_year t + 1900) (tm_mon t + 1) (tm_mday t) = epoch_secs t div SECS_PER_DAY + 1721425"
  by (simp add: epoch_parts date_to_julian_day_count tm_ranges_def)

lemma secs_parts:
  assumes "0 \<le> h" "h \<le> 23" "0 \<le> mi" "mi \<le> 59" "0 \<le> s" "s \<le> 59"
  shows "(h * 3600 + mi * 60 + s) sdiv 3600 = h" "(h * 3600 + mi * 60 + s) sdiv 60 smod 60 = mi"
    "(h * 3600 + mi * 60 + s) smod 60 = (s :: int)"
proof -
  let ?n = "h * 3600 + mi * 60 + s"
  have h: "?n div 3600 = h" using assms by (intro div_between) simp_all
  have m: "?n div 60 = h * 60 + mi" using assms by (intro div_between) simp_all
  have m60: "(h * 60 + mi) mod 60 = mi" using assms by simp
  have s: "?n mod 60 = s" using div_mod_eqI [of ?n "h * 60 + mi" "60" s] assms by simp
  show "?n sdiv 3600 = h" "?n sdiv 60 smod 60 = mi" "?n smod 60 = s"
    using assms h m m60 s by (simp_all add: sdiv_div smod_mod)
qed

lemma secs_split:
  assumes "0 \<le> n" "n < SECS_PER_DAY"
  obtains h mi s where "n = h * 3600 + mi * 60 + s" "0 \<le> h" "h \<le> 23" "0 \<le> mi" "mi \<le> 59" "0 \<le> s" "s \<le> 59"
proof (rule that)
  show "n = n div 3600 * 3600 + n mod 3600 div 60 * 60 + n mod 3600 mod 60" by simp
  show "n div 3600 \<le> 23" using assms by (simp add: SECS_PER_DAY_def)
  show "n mod 3600 div 60 \<le> 59" by simp
qed (use assms in \<open>simp_all add: pos_imp_zdiv_nonneg_iff\<close>)

lemma gmtime_adj_eq:
  assumes v: "tm_ranges t" and y: "- 1900 \<le> tm_year t" "tm_year t \<le> 8099" and o: "offset_ok off_day off_sec"
    and T: "T = epoch_secs t + off_day * SECS_PER_DAY + off_sec"
    and u: "valid_tm u" "epoch_secs u = T" "- 6699 \<le> tm_year u" "tm_year u \<le> 2000000000 - 1900"
    and jd: "0 \<le> T div SECS_PER_DAY + 1721425"
  shows "OPENSSL_gmtime_adj t off_day off_sec = (if tm_year u < 0 \<or> tm_year u > 8099 then None else Some u)"
proof -
  have date: "julian_to_date (T div SECS_PER_DAY + 1721425) = (tm_year u + 1900, tm_mon u + 1, tm_mday u)"
    unfolding u(2) [symmetric] date_range [OF valid_tm_ranges [OF u(1)] u(3), symmetric]
    using u by (intro julian_to_date_to_julian) (simp_all add: valid_tm_def)
  have "T mod SECS_PER_DAY = tm_hour u * 3600 + tm_min u * 60 + tm_sec u"
    using epoch_parts(2) [OF valid_tm_ranges [OF u(1)]] by (simp add: u(2) day_secs_def)
  then show ?thesis
    using jd u(1) julian_adj_eq [OF v y(1) o T]
    by (auto simp: OPENSSL_gmtime_adj_def date secs_parts valid_tm_def)
qed

lemma day_count_bounds:
  assumes m: "1 \<le> m" "m \<le> 12" and d: "1 \<le> d" "d \<le> 31" and "0 \<le> y"
  shows "- 366 \<le> day_count y m d" "1 \<le> y \<Longrightarrow> 1 \<le> day_count y m d" "day_count y m d \<le> 366 * y + 366"
proof -
  have mon: "0 \<le> days_before_month y m" "days_before_month y m \<le> 335"
    using m by (rule month_cases; simp add: days_before_month_def month_length_def upto.simps)+
  have y: "day_count y m d = 365 * (y - 1) + (y - 1) div 4 - (y - 1) div 100 + (y - 1) div 400 + days_before_month y m + d"
    by (simp add: day_count_def days_before_year_def)
  have q: "(y - 1) div 100 \<le> (y - 1) div 4" "- 1 \<le> (y - 1) div 400" "(y - 1) div 400 \<le> (y - 1) div 100 + 1"
    "4 * ((y - 1) div 4) \<le> y - 1" "0 \<le> (y - 1) div 100 + 1" using assms(5) by linarith+
  have sum: "- 366 \<le> 365 * (y - 1) + a - b + c + e + d" "365 * (y - 1) + a - b + c + e + d \<le> 366 * y + 366"
    "1 \<le> y \<Longrightarrow> 0 \<le> c \<Longrightarrow> 1 \<le> 365 * (y - 1) + a - b + c + e + d"
    if "b \<le> a" "- 1 \<le> c" "c \<le> b + 1" "4 * a \<le> y - 1" "0 \<le> b + 1" "0 \<le> e" "e \<le> 335" for a b c e
    using that d assms(5) by simp_all
  note sum = sum [OF q mon]
  show "- 366 \<le> day_count y m d" unfolding y by (rule sum(1))
  show "day_count y m d \<le> 366 * y + 366" unfolding y by (rule sum(2))
  assume "1 \<le> y"
  then have "0 \<le> (y - 1) div 400" by (simp add: pos_imp_zdiv_nonneg_iff)
  with \<open>1 \<le> y\<close> show "1 \<le> day_count y m d" unfolding y by (rule sum(3))
qed

lemma gmtime_adj_exact:
  assumes v: "tm_ranges t" and y: "- 1900 \<le> tm_year t" "tm_year t \<le> 8099" and o: "offset_ok off_day off_sec"
  shows "OPENSSL_gmtime_adj t off_day off_sec = Some u \<longleftrightarrow>
    valid_tm u \<and> 0 \<le> tm_year u \<and> tm_year u \<le> 8099 \<and> epoch_secs u = epoch_secs t + off_day * SECS_PER_DAY + off_sec"
proof -
  define T where "T = epoch_secs t + off_day * SECS_PER_DAY + off_sec"
  note adj = gmtime_adj_eq [OF v y o T_def]
  have small: "T div SECS_PER_DAY + 1721425 \<le> 100000000000"
  proof -
    have "day_count (tm_year t + 1900) (tm_mon t + 1) (tm_mday t) \<le> 3660000"
      using day_count_bounds(3) [of "tm_mon t + 1" "tm_mday t" "tm_year t + 1900"] v y by (simp add: tm_ranges_def)
    then have "T < 3660001 * SECS_PER_DAY + 2 ^ 31 * SECS_PER_DAY"
      using day_secs_range [OF v] o unfolding T_def epoch_secs_def offset_ok_def SECS_PER_DAY_def by (simp add: abs_less_iff)
    then have "T div SECS_PER_DAY < 3660001 + 2 ^ 31" by (simp add: SECS_PER_DAY_def)
    then show ?thesis by simp
  qed
  show ?thesis unfolding T_def [symmetric]
  proof
    assume u: "valid_tm u \<and> 0 \<le> tm_year u \<and> tm_year u \<le> 8099 \<and> epoch_secs u = T"
    then have "1 \<le> T div SECS_PER_DAY"
      using day_count_bounds(2) [of "tm_mon u + 1" "tm_mday u" "tm_year u + 1900"] epoch_parts(1) [of u] valid_tm_ranges [of u]
      by (simp add: tm_ranges_def)
    with adj [of u] u show "OPENSSL_gmtime_adj t off_day off_sec = Some u" by simp
  next
    assume some: "OPENSSL_gmtime_adj t off_day off_sec = Some u"
    then have jd: "0 \<le> T div SECS_PER_DAY + 1721425"
      using julian_adj_eq [OF v y(1) o T_def] by (auto simp: OPENSSL_gmtime_adj_def split: if_splits)
    from date_of_day [OF this small] obtain yy m d where date: "valid_date yy m d"
      "date_to_julian yy m d = T div SECS_PER_DAY + 1721425" "- 4799 \<le> yy" "yy \<le> 2000000000" by blast
    obtain h mi s where hms: "T mod SECS_PER_DAY = h * 3600 + mi * 60 + s" "0 \<le> h" "h \<le> 23" "0 \<le> mi" "mi \<le> 59"
      "0 \<le> s" "s \<le> 59" by (rule secs_split [of "T mod SECS_PER_DAY"]) (simp_all add: SECS_PER_DAY_def)
    let ?u = "\<lparr>tm_year = yy - 1900, tm_mon = m - 1, tm_mday = d, tm_hour = h, tm_min = mi, tm_sec = s\<rparr>"
    have vu: "valid_tm ?u" using date(1) hms by (simp add: valid_tm_def)
    have "day_count yy m d = T div SECS_PER_DAY"
      using date(2) date_to_julian_day_count [of m yy d] date(1,3) by (simp add: valid_date_def)
    then have e: "epoch_secs ?u = T" using hms(1) by (simp add: epoch_secs_def day_secs_def flip: hms(1))
    from adj [OF vu e _ _ jd] date(3,4) have "OPENSSL_gmtime_adj t off_day off_sec =
        (if tm_year ?u < 0 \<or> tm_year ?u > 8099 then None else Some ?u)" by simp
    with some vu e show "valid_tm u \<and> 0 \<le> tm_year u \<and> tm_year u \<le> 8099 \<and> epoch_secs u = T"
      by (auto split: if_splits)
  qed
qed

text \<open>The difference, as days and seconds of one sign.\<close>

lemma gmtime_diff_exact:
  assumes f: "tm_ranges f" "- 1900 \<le> tm_year f" "tm_year f \<le> 8099" and t: "tm_ranges t" "- 1900 \<le> tm_year t" "tm_year t \<le> 8099"
  obtains days secs where "OPENSSL_gmtime_diff f t = Some (days, secs)"
    "epoch_secs t = epoch_secs f + days * SECS_PER_DAY + secs" "\<bar>secs\<bar> < SECS_PER_DAY" "\<bar>days\<bar> < 3660800"
    "0 < days \<longrightarrow> 0 \<le> secs" "days < 0 \<longrightarrow> secs \<le> 0"
proof -
  have zero: "offset_ok 0 0" by (simp add: offset_ok_def SECS_PER_DAY_def)
  have days: "- 366 \<le> epoch_secs x div SECS_PER_DAY \<and> epoch_secs x div SECS_PER_DAY \<le> 3660000"
    if "tm_ranges x" "- 1900 \<le> tm_year x" "tm_year x \<le> 8099" for x
    using day_count_bounds [of "tm_mon x + 1" "tm_mday x" "tm_year x + 1900"] that by (simp add: epoch_parts tm_ranges_def)
  have adj: "julian_adj x 0 0 = Some (epoch_secs x div SECS_PER_DAY + 1721425, epoch_secs x mod SECS_PER_DAY)"
    if "tm_ranges x" "- 1900 \<le> tm_year x" "tm_year x \<le> 8099" for x
    using julian_adj_eq [OF that(1,2) zero, of "epoch_secs x"] days [OF that] by simp
  define p q where "p = epoch_secs t div SECS_PER_DAY - epoch_secs f div SECS_PER_DAY"
    and "q = epoch_secs t mod SECS_PER_DAY - epoch_secs f mod SECS_PER_DAY"
  have p: "\<bar>p\<bar> < 3660700" using days [OF f] days [OF t] unfolding p_def by linarith
  have q: "\<bar>q\<bar> < SECS_PER_DAY" unfolding q_def SECS_PER_DAY_def by (simp add: abs_less_iff) (smt (verit) pos_mod_bound pos_mod_sign)
  have sum: "epoch_secs t = epoch_secs f + p * SECS_PER_DAY + q"
    unfolding p_def q_def using div_mult_mod_eq [of "epoch_secs t" SECS_PER_DAY] div_mult_mod_eq [of "epoch_secs f" SECS_PER_DAY]
    by (simp add: algebra_simps)
  have diff: "OPENSSL_gmtime_diff f t =
      (case (if 0 < p \<and> q < 0 then (p - 1, q + SECS_PER_DAY) else (p, q)) of
        (d, s) \<Rightarrow> (case (if d < 0 \<and> 0 < s then (d + 1, s - SECS_PER_DAY) else (d, s)) of
          (d, s) \<Rightarrow> Some (to_int d, s)))"
    unfolding OPENSSL_gmtime_diff_def adj [OF f] adj [OF t] Let_def option.case prod.case p_def q_def by simp
  show thesis
  proof (cases "0 < p \<and> q < 0")
    case True
    show ?thesis
      by (rule that [of "p - 1" "q + SECS_PER_DAY"])
        (use True p q sum in \<open>auto simp: diff to_int_id SECS_PER_DAY_def\<close>)
  next
    case pos: False
    show ?thesis
    proof (cases "p < 0 \<and> 0 < q")
      case True
      show ?thesis
        by (rule that [of "p + 1" "q - SECS_PER_DAY"])
          (use True p q sum in \<open>auto simp: diff to_int_id SECS_PER_DAY_def\<close>)
    next
      case False
      show ?thesis
        by (rule that [of p q])
          (use pos False p q sum in \<open>auto simp: diff to_int_id SECS_PER_DAY_def\<close>)
    qed
  qed
qed

section \<open>Properties\<close>

text \<open>
  C22. Adding an offset of days and seconds to a calendar time of the years 0 to 9999 gives exactly
  the calendar time that many seconds away, across months, leap years and centuries, and fails
  exactly when that time is not in the years 1900 to 9999. The offsets are less than \<open>2 ^ 30\<close> days
  in magnitude, each of the two, so that the sums fit an \<open>int\<close>.
\<close>

theorem OPENSSL_gmtime_adj_exact:
  assumes "valid_tm t" "- 1900 \<le> tm_year t" "tm_year t \<le> 8099" "offset_ok off_day off_sec"
  shows "OPENSSL_gmtime_adj t off_day off_sec = Some u \<longleftrightarrow>
    valid_tm u \<and> 0 \<le> tm_year u \<and> tm_year u \<le> 8099
      \<and> epoch_secs u = epoch_secs t + off_day * SECS_PER_DAY + off_sec"
  using gmtime_adj_exact [OF valid_tm_ranges] assms by blast

text \<open>
  The difference of two calendar times always exists, its parts have one sign, and adding it
  to the first time gives the second.
\<close>

theorem OPENSSL_gmtime_diff_adj:
  assumes f: "valid_tm f" "- 1900 \<le> tm_year f" "tm_year f \<le> 8099" and t: "valid_tm t" "0 \<le> tm_year t" "tm_year t \<le> 8099"
  shows "\<exists>days secs. OPENSSL_gmtime_diff f t = Some (days, secs) \<and> \<bar>secs\<bar> < SECS_PER_DAY
    \<and> (0 < days \<longrightarrow> 0 \<le> secs) \<and> (days < 0 \<longrightarrow> secs \<le> 0) \<and> OPENSSL_gmtime_adj f days secs = Some t"
proof -
  have "- 1900 \<le> tm_year t" using t(2) by simp
  from gmtime_diff_exact [OF valid_tm_ranges [OF f(1)] f(2,3) valid_tm_ranges [OF t(1)] this t(3)] obtain days secs where d: "OPENSSL_gmtime_diff f t = Some (days, secs)"
    "epoch_secs t = epoch_secs f + days * SECS_PER_DAY + secs" "\<bar>secs\<bar> < SECS_PER_DAY" "\<bar>days\<bar> < 3660800"
    "0 < days \<longrightarrow> 0 \<le> secs" "days < 0 \<longrightarrow> secs \<le> 0" by blast
  have "offset_ok days secs" using d(3,4) by (auto simp: offset_ok_def SECS_PER_DAY_def abs_less_iff)
  from gmtime_adj_exact [OF valid_tm_ranges [OF f(1)] f(2,3) this, of t] d t show ?thesis by blast
qed

definition leap_eve :: tm where
  "leap_eve = \<lparr>tm_year = 124, tm_mon = 1, tm_mday = 28, tm_hour = 23, tm_min = 59, tm_sec = 59\<rparr>"

definition leap_day :: tm where
  "leap_day = \<lparr>tm_year = 124, tm_mon = 1, tm_mday = 29, tm_hour = 0, tm_min = 0, tm_sec = 0\<rparr>"

lemma leap_days_valid: "valid_tm leap_eve" "valid_tm leap_day" "epoch_secs leap_day = epoch_secs leap_eve + 1"
  by (simp_all add: leap_eve_def leap_day_def valid_tm_def valid_date_def month_length_def leap_def epoch_secs_def
      day_count_def day_secs_def SECS_PER_DAY_def)

theorem OPENSSL_gmtime_adj_exact_witness: "OPENSSL_gmtime_adj leap_eve 0 1 = Some leap_day"
  using OPENSSL_gmtime_adj_exact [of leap_eve 0 1 leap_day] leap_days_valid
  by (simp add: leap_eve_def leap_day_def offset_ok_def SECS_PER_DAY_def)

theorem OPENSSL_gmtime_diff_adj_witness:
  "\<exists>days secs. OPENSSL_gmtime_diff leap_day leap_eve = Some (days, secs) \<and> OPENSSL_gmtime_adj leap_day days secs = Some leap_eve"
  using OPENSSL_gmtime_diff_adj [of leap_day leap_eve] leap_days_valid
  by (auto simp: leap_eve_def leap_day_def)

end
