(* ===== verification/Asn1String.thy ===== *)
theory Asn1String
  imports CbbSetOf "HOL-Library.Product_Lexorder" "HOL-Library.Signed_Division"
begin

text \<open>
  The string objects of BoringSSL's ASN.1 library (crypto/asn1/asn1_lib.c, a_octet.c, a_bitstr.c):
  \<open>ASN1_STRING\<close>, its allocation, copying and comparison, and the bit strings on top of it.

  A pointer to a heap block is the content of the block; a source pointer is the content of its
  object from the pointer on. \<open>int\<close> and \<open>long\<close> are integers, and \<open>flags\<close>, \<open>type\<close> are read bitwise.
\<close>

section \<open>The code: strings\<close>

datatype asn1_error =
  ERR_MALLOC_FAILURE | ERR_INTERNAL_ERROR
| ASN1_R_STRING_TOO_SHORT | ASN1_R_STRING_TOO_LONG | ASN1_R_TOO_LONG
| ASN1_R_INVALID_BIT_STRING_BITS_LEFT | ASN1_R_INVALID_BIT_STRING_PADDING
| ASN1_R_INVALID_BMPSTRING | ASN1_R_INVALID_UNIVERSALSTRING | ASN1_R_INVALID_UTF8STRING
| ASN1_R_ILLEGAL_CHARACTERS | ASN1_R_UNKNOWN_FORMAT

record asn1_string =
  as_length :: int
  as_type :: int
  as_data :: "bytes option"
  as_flags :: int

definition V_ASN1_INTEGER :: int where "V_ASN1_INTEGER = 2"
definition V_ASN1_BIT_STRING :: int where "V_ASN1_BIT_STRING = 3"
definition V_ASN1_OCTET_STRING :: int where "V_ASN1_OCTET_STRING = 4"

definition ASN1_STRING_FLAG_BITS_LEFT :: int where
  "ASN1_STRING_FLAG_BITS_LEFT = 0x08"

definition INT_MAX :: int where
  "INT_MAX = 2147483647"

definition strlen :: "bytes \<Rightarrow> nat" where
  "strlen s = length (takeWhile (\<lambda>b. b \<noteq> 0) s)"

definition OPENSSL_realloc :: "allocator \<Rightarrow> bytes option \<Rightarrow> u64 \<Rightarrow> bytes option" where
  "OPENSSL_realloc al orig new_size =
     (case orig of
        None \<Rightarrow> al new_size
      | Some b \<Rightarrow> map_option (\<lambda>ret. take (unat new_size) b @ drop (length b) ret) (al new_size))"

definition ASN1_STRING_type_new :: "allocator \<Rightarrow> int \<Rightarrow> asn1_string option" where
  "ASN1_STRING_type_new al ty =
     map_option (\<lambda>_. \<lparr>as_length = 0, as_type = ty, as_data = None, as_flags = 0\<rparr>) (al 24)"

definition ASN1_STRING_new :: "allocator \<Rightarrow> asn1_string option" where
  "ASN1_STRING_new al = ASN1_STRING_type_new al V_ASN1_OCTET_STRING"

definition ASN1_STRING_set :: "allocator \<Rightarrow> asn1_string \<Rightarrow> bytes option \<Rightarrow> int \<Rightarrow> bool \<times> asn1_string" where
  "ASN1_STRING_set al str data len =
     (case (if len < 0 then map_option (\<lambda>d. to_int (int (strlen d))) data else Some len) of
        None \<Rightarrow> (False, str)
      | Some len \<Rightarrow>
          (case (if as_length str \<le> len \<or> as_data str = None
                 then OPENSSL_realloc al (as_data str) (word_of_int (len + 1)) else as_data str) of
             None \<Rightarrow> (False, str)
           | Some block \<Rightarrow>
               (True, str\<lparr>as_length := len,
                          as_data := Some (case data of
                            None \<Rightarrow> block
                          | Some d \<Rightarrow> store_bytes block 0 (take (nat len) d @ [0]))\<rparr>)))"

definition ASN1_STRING_set0 :: "asn1_string \<Rightarrow> bytes option \<Rightarrow> int \<Rightarrow> asn1_string" where
  "ASN1_STRING_set0 str data len = str\<lparr>as_data := data, as_length := len\<rparr>"

definition ASN1_STRING_copy :: "allocator \<Rightarrow> asn1_string \<Rightarrow> asn1_string option \<Rightarrow> bool \<times> asn1_string" where
  "ASN1_STRING_copy al dst src =
     (case src of
        None \<Rightarrow> (False, dst)
      | Some str \<Rightarrow>
          (case ASN1_STRING_set al dst (as_data str) (as_length str) of
             (False, dst') \<Rightarrow> (False, dst')
           | (True, dst') \<Rightarrow> (True, dst'\<lparr>as_type := as_type str, as_flags := as_flags str\<rparr>)))"

definition ASN1_STRING_dup :: "allocator \<Rightarrow> asn1_string option \<Rightarrow> asn1_string option" where
  "ASN1_STRING_dup al src =
     (case src of
        None \<Rightarrow> None
      | Some str \<Rightarrow>
          (case ASN1_STRING_new al of
             None \<Rightarrow> None
           | Some ret \<Rightarrow> (case ASN1_STRING_copy al ret (Some str) of (True, ret') \<Rightarrow> Some ret' | (False, _) \<Rightarrow> None)))"

section \<open>The code: bit strings\<close>

text \<open>The loop \<open>while (len > 0 && data[len - 1] == 0) len--\<close>.\<close>

fun trim_zeros :: "bytes \<Rightarrow> nat \<Rightarrow> nat" where
  "trim_zeros d 0 = 0"
| "trim_zeros d (Suc n) = (if d ! n = 0 then trim_zeros d n else Suc n)"

text \<open>The loop over \<open>padding_bits < 7\<close>; the last byte is not zero.\<close>

fun padding_loop :: "u8 \<Rightarrow> nat \<Rightarrow> nat \<Rightarrow> nat" where
  "padding_loop b 0 p = p"
| "padding_loop b (Suc n) p = (if b AND push_bit p 1 \<noteq> 0 then p else padding_loop b n (Suc p))"

definition asn1_bit_string_length :: "asn1_string \<Rightarrow> int \<times> u8" where
  "asn1_bit_string_length str =
     (if as_flags str AND ASN1_STRING_FLAG_BITS_LEFT \<noteq> 0
      then (as_length str, if as_length str = 0 then 0 else word_of_int (as_flags str AND 0x07))
      else
        (let d = (case as_data str of None \<Rightarrow> [] | Some d \<Rightarrow> d);
             len = trim_zeros d (nat (as_length str))
         in (int len, if len > 0 then of_nat (padding_loop (d ! (len - 1)) 7 0) else 0)))"

definition ASN1_BIT_STRING_num_bytes :: "asn1_string \<Rightarrow> int option" where
  "ASN1_BIT_STRING_num_bytes str =
     (case asn1_bit_string_length str of (len, padding_bits) \<Rightarrow> if padding_bits \<noteq> 0 then None else Some len)"

text \<open>The bytes that \<open>i2c_ASN1_BIT_STRING\<close> writes at \<open>*pp\<close>; it returns their number.\<close>

definition i2c_ASN1_BIT_STRING :: "asn1_string \<Rightarrow> bytes" where
  "i2c_ASN1_BIT_STRING a =
     (case asn1_bit_string_length a of
        (len, bits) \<Rightarrow>
          (let p = take (nat len) (case as_data a of None \<Rightarrow> [] | Some d \<Rightarrow> d);
               n = nat len
           in bits # (if len > 0 then p[n - 1 := (p ! (n - 1)) AND push_bit (unat bits) 0xff] else p)))"

text \<open>
  \<open>a\<close> is the object to reuse, or \<open>NULL\<close>, and \<open>p\<close> the bytes at \<open>*pp\<close>. The second component is the
  caller's object afterwards. On success \<open>*pp\<close> has moved past \<open>len\<close> bytes.
\<close>

definition c2i_ASN1_BIT_STRING ::
  "allocator \<Rightarrow> asn1_string option \<Rightarrow> bytes \<Rightarrow> int \<Rightarrow> (asn1_error + asn1_string) \<times> asn1_string option" where
  "c2i_ASN1_BIT_STRING al a p len =
     (if len < 1 then (Inl ASN1_R_STRING_TOO_SHORT, a)
      else if len > INT_MAX then (Inl ASN1_R_STRING_TOO_LONG, a)
      else
        (case (case a of None \<Rightarrow> ASN1_STRING_type_new al V_ASN1_BIT_STRING | Some ret \<Rightarrow> Some ret) of
           None \<Rightarrow> (Inl ERR_MALLOC_FAILURE, a)
         | Some ret \<Rightarrow>
             (let padding = p ! 0; p = drop 1 p; len = len - 1 in
              if padding > 7 then (Inl ASN1_R_INVALID_BIT_STRING_BITS_LEFT, a)
              else
                (let padding_mask = push_bit (unat padding) 1 - 1 in
                 if padding \<noteq> 0 \<and> (len < 1 \<or> (p ! nat (len - 1)) AND padding_mask \<noteq> 0)
                 then (Inl ASN1_R_INVALID_BIT_STRING_PADDING, a)
                 else
                   (let ret = ret\<lparr>as_flags := (as_flags ret AND NOT (ASN1_STRING_FLAG_BITS_LEFT OR 0x07))
                                    OR (ASN1_STRING_FLAG_BITS_LEFT OR uint padding)\<rparr>;
                        s = (if len > 0 then map_option (\<lambda>_. Some (take (nat len) p)) (al (word_of_int len)) else Some None)
                    in case s of
                         None \<Rightarrow> (Inl ERR_MALLOC_FAILURE, if a = None then None else Some ret)
                       | Some s \<Rightarrow>
                           (let ret = ret\<lparr>as_length := len, as_data := s, as_type := V_ASN1_BIT_STRING\<rparr>
                            in (Inr ret, Some ret)))))))"

text \<open>
  The bit number is an \<open>int\<close>: \<open>n / 8\<close> truncates and \<open>n & 7\<close> is the remainder modulo 8, also when it is negative. \<open>None\<close> is
  an access outside the block, which a negative number can cause.
\<close>

definition ASN1_BIT_STRING_set_bit :: "allocator \<Rightarrow> asn1_string \<Rightarrow> int \<Rightarrow> bool \<Rightarrow> (bool \<times> asn1_string) option" where
  "ASN1_BIT_STRING_set_bit al a n val =
     (let w = n sdiv 8;
          v = push_bit (7 - nat (n mod 8)) 1 :: u8;
          iv = NOT v;
          v = (if val then v else 0);
          a = a\<lparr>as_flags := as_flags a AND NOT (ASN1_STRING_FLAG_BITS_LEFT OR 0x07)\<rparr>;
          short = (as_length a < w + 1 \<or> as_data a = None)
      in if short \<and> \<not> val then Some (True, a)
         else
           (case (if short
                  then map_option
                    (\<lambda>c. a\<lparr>as_data := Some (if w + 1 - as_length a > 0
                              then store_bytes c (nat (as_length a)) (replicate (nat (w + 1 - as_length a)) 0) else c),
                           as_length := w + 1\<rparr>)
                    (OPENSSL_realloc al (as_data a) (word_of_int (w + 1)))
                  else Some a) of
              None \<Rightarrow> Some (False, a)
            | Some a \<Rightarrow>
                (let d = (case as_data a of None \<Rightarrow> [] | Some d \<Rightarrow> d)
                 in if 0 \<le> w \<and> w < int (length d)
                    then (let d = d[nat w := ((d ! nat w) AND iv) OR v]
                          in Some (True, a\<lparr>as_data := Some d, as_length := int (trim_zeros d (nat (as_length a)))\<rparr>))
                    else None)))"

definition ASN1_BIT_STRING_get_bit :: "asn1_string \<Rightarrow> int \<Rightarrow> bool option" where
  "ASN1_BIT_STRING_get_bit a n =
     (let w = n sdiv 8;
          v = push_bit (7 - nat (n mod 8)) 1 :: u8
      in case as_data a of
           None \<Rightarrow> Some False
         | Some d \<Rightarrow> if as_length a < w + 1 then Some False
                      else if 0 \<le> w \<and> w < int (length d) then Some ((d ! nat w) AND v \<noteq> 0) else None)"

fun check_loop :: "bytes \<Rightarrow> bytes \<Rightarrow> bool" where
  "check_loop [] flags = True"
| "check_loop (b # d) flags =
     (let mask = (case flags of [] \<Rightarrow> 0xff | f # _ \<Rightarrow> NOT f)
      in if b AND mask = 0 then check_loop d (drop 1 flags) else False)"

definition ASN1_BIT_STRING_check :: "asn1_string option \<Rightarrow> bytes \<Rightarrow> bool" where
  "ASN1_BIT_STRING_check a flags =
     (case a of
        None \<Rightarrow> True
      | Some a \<Rightarrow> (case as_data a of None \<Rightarrow> True | Some d \<Rightarrow> check_loop (take (nat (as_length a)) d) flags))"

section \<open>The code: comparison\<close>

definition ASN1_STRING_cmp :: "asn1_string \<Rightarrow> asn1_string \<Rightarrow> int" where
  "ASN1_STRING_cmp a b =
     (let (a_length, a_padding) = (if as_type a = V_ASN1_BIT_STRING then asn1_bit_string_length a else (as_length a, 0));
          (b_length, b_padding) = (if as_type b = V_ASN1_BIT_STRING then asn1_bit_string_length b else (as_length b, 0))
      in if a_length < b_length then - 1
         else if a_length > b_length then 1
         else if a_padding > b_padding then - 1
         else if a_padding < b_padding then 1
         else
           (let text = (\<lambda>s. take (nat a_length) (case as_data s of None \<Rightarrow> [] | Some d \<Rightarrow> d));
                ret = OPENSSL_memcmp (text a) (text b)
            in if ret \<noteq> 0 then ret
               else if as_type a < as_type b then - 1
               else if as_type a > as_type b then 1
               else 0))"

section \<open>The objects\<close>

definition block_of :: "asn1_string \<Rightarrow> bytes" where
  "block_of s = (case as_data s of None \<Rightarrow> [] | Some d \<Rightarrow> d)"

definition contents_of :: "asn1_string \<Rightarrow> bytes" where
  "contents_of s = take (nat (as_length s)) (block_of s)"

text \<open>The invariant: the length is inside the block.\<close>

definition string_ok :: "asn1_string \<Rightarrow> bool" where
  "string_ok s \<longleftrightarrow> 0 \<le> as_length s \<and> as_length s \<le> int (length (block_of s)) \<and> as_length s < INT_MAX"

lemma length_contents [simp]: "string_ok s \<Longrightarrow> length (contents_of s) = nat (as_length s)"
  by (auto simp: string_ok_def contents_of_def min_def)

lemma length_realloc: "al_ok al \<Longrightarrow> OPENSSL_realloc al orig n = Some b \<Longrightarrow> length b = unat n"
  by (auto simp: OPENSSL_realloc_def al_ok_def split: option.splits)

lemma realloc_nth: "al_ok al \<Longrightarrow> OPENSSL_realloc al (Some d) n = Some b \<Longrightarrow> i < length d \<Longrightarrow> i < unat n \<Longrightarrow> b ! i = d ! i"
  by (auto simp: OPENSSL_realloc_def nth_append)

lemma realloc_total: "al_total al \<Longrightarrow> \<exists>b. OPENSSL_realloc al orig n = Some b"
proof -
  assume "al_total al"
  then obtain b where "al n = Some b" by (auto simp: al_total_def)
  then show ?thesis by (cases orig) (simp_all add: OPENSSL_realloc_def)
qed

lemma unat_int: "0 \<le> n \<Longrightarrow> n < 2 ^ 64 \<Longrightarrow> unat (word_of_int n :: u64) = nat n"
  by (simp add: unat_eq_nat_uint take_bit_int_eq_self word_of_int_inverse uint_word_of_int_eq)

lemma string_set_ok:
  assumes ok: "string_ok s" "al_ok al" and len: "0 \<le> len" "len < INT_MAX" and d: "nat len \<le> length d"
    and set: "ASN1_STRING_set al s (Some d) len = (True, s')"
  shows "string_ok s'" "contents_of s' = take (nat len) d" "block_of s' ! nat len = 0" "nat len < length (block_of s')"
    "as_type s' = as_type s" "as_flags s' = as_flags s"
proof -
  obtain block where b: "(if as_length s \<le> len \<or> as_data s = None
      then OPENSSL_realloc al (as_data s) (word_of_int (len + 1)) else as_data s) = Some block"
    and s': "s' = s\<lparr>as_length := len, as_data := Some (store_bytes block 0 (take (nat len) d @ [0]))\<rparr>"
    using set len(1) by (auto simp: ASN1_STRING_set_def split: option.splits)
  have room: "nat len < length block"
  proof (cases "as_length s \<le> len \<or> as_data s = None")
    case True
    then have "OPENSSL_realloc al (as_data s) (word_of_int (len + 1)) = Some block" using b by simp
    moreover have "unat (word_of_int (len + 1) :: u64) = nat (len + 1)"
      using len by (intro unat_int) (simp_all add: INT_MAX_def)
    ultimately have "length block = nat (len + 1)" using length_realloc [OF ok(2)] by metis
    then show ?thesis using len(1) by simp
  next
    case False
    then have "as_data s = Some block" using b by auto
    then have "as_length s \<le> int (length block)" using ok(1) by (simp add: string_ok_def block_of_def)
    then show ?thesis using False len(1) by auto
  qed
  have block: "block_of s' = take (nat len) d @ 0 # drop (Suc (nat len)) block"
    using d by (simp add: s' block_of_def store_bytes_def min_def)
  show "string_ok s'" using len room d unfolding string_ok_def block by (simp add: s')
  show "contents_of s' = take (nat len) d" using d unfolding contents_of_def block by (simp add: s')
  show "block_of s' ! nat len = 0" using d unfolding block by (simp add: nth_append)
  show "nat len < length (block_of s')" using d unfolding block by simp
  show "as_type s' = as_type s" "as_flags s' = as_flags s" by (simp_all add: s')
qed

lemma string_set_total:
  assumes "al_total al" "0 \<le> len"
  shows "\<exists>s'. ASN1_STRING_set al s d len = (True, s')"
  using realloc_total [OF assms(1), of "as_data s" "word_of_int (len + 1)"] assms(2)
  by (cases "as_data s") (auto simp: ASN1_STRING_set_def)

section \<open>Bits\<close>

lemma test_bit: "x AND push_bit j 1 \<noteq> 0 \<longleftrightarrow> bit x j" if "j < 8" for x :: u8
proof -
  have "bit (x AND push_bit j 1) k \<longleftrightarrow> bit x j \<and> k = j" for k
    using that by (auto simp: bit_simps dest: bit_imp_le_length)
  then show ?thesis by (metis bit_eqI bit_0_eq bot_apply bot_bool_def)
qed

lemma bit_number: "int n sdiv 8 = int (n div 8)" "nat (int n mod 8) = n mod 8" "nat (int k) = k"
proof -
  show "int n sdiv 8 = int (n div 8)" by (cases "n = 0") (simp_all add: signed_divide_int_def zdiv_int)
  show "nat (int n mod 8) = n mod 8" by (metis nat_int of_nat_mod of_nat_numeral)
qed simp

lemma get_bit_alt:
  assumes "string_ok a"
  shows "ASN1_BIT_STRING_get_bit a (int n) = Some (n div 8 < nat (as_length a) \<and> bit (block_of a ! (n div 8)) (7 - n mod 8))"
  using assms test_bit [of "7 - n mod 8"] unfolding ASN1_BIT_STRING_get_bit_def bit_number
  by (auto simp: Let_def block_of_def string_ok_def split: option.splits)

lemma trim_le: "trim_zeros d n \<le> n"
  by (induction n) auto

lemma trim_zero: "trim_zeros d n \<le> i \<Longrightarrow> i < n \<Longrightarrow> d ! i = 0"
  by (induction n) (auto simp: less_Suc_eq split: if_splits)

lemma set_byte:
  fixes x :: u8
  assumes "j < 8"
  shows "bit ((x AND NOT (push_bit j 1)) OR (if v then push_bit j 1 else 0)) i \<longleftrightarrow> (if i = j then v else bit x i)"
  using assms by (auto simp: bit_simps dest: bit_imp_le_length)

lemma bit_index: "n div 8 = k div 8 \<Longrightarrow> 7 - n mod 8 = 7 - k mod 8 \<longleftrightarrow> n = k" for n k :: nat
proof
  assume d: "n div 8 = k div 8" and "7 - n mod 8 = 7 - k mod 8"
  moreover have "n mod 8 \<le> 7" "k mod 8 \<le> 7" by simp_all
  ultimately have "n mod 8 = k mod 8" by (metis diff_diff_cancel)
  with d show "n = k" by (metis div_mult_mod_eq)
qed simp

text \<open>Setting one bit in a block, then trimming.\<close>

lemma set_in_block:
  assumes L: "n div 8 < L" "L \<le> length d"
    and a': "as_length a' = int (trim_zeros d' L)" "as_data a' = Some d'"
    and d': "d' = d[n div 8 := ((d ! (n div 8)) AND NOT (push_bit (7 - n mod 8) 1)) OR (if v then push_bit (7 - n mod 8) 1 else 0)]"
    and max: "int L < INT_MAX"
  shows "string_ok a'"
    "ASN1_BIT_STRING_get_bit a' (int k) = Some (if k = n then v else k div 8 < L \<and> bit (d ! (k div 8)) (7 - k mod 8))"
proof -
  let ?T = "trim_zeros d' L"
  have T: "?T \<le> L" "length d' = length d" by (simp_all add: trim_le d')
  have block: "block_of a' = d'" by (simp add: block_of_def a'(2))
  show ok: "string_ok a'" using T L max by (simp add: string_ok_def block a'(1))
  have bits: "bit (d' ! (k div 8)) (7 - k mod 8) \<longleftrightarrow> (if k = n then v else bit (d ! (k div 8)) (7 - k mod 8))" if "k div 8 < L"
  proof (cases "k div 8 = n div 8")
    case True
    then have "d' ! (k div 8) = (d ! (n div 8) AND NOT (push_bit (7 - n mod 8) 1)) OR (if v then push_bit (7 - n mod 8) 1 else 0)"
      using L by (simp add: d')
    then show ?thesis
      using set_byte [of "7 - n mod 8" "d ! (n div 8)" v "7 - k mod 8"] bit_index [of k n] True by auto
  next
    case False
    then show ?thesis by (auto simp: d')
  qed
  show "ASN1_BIT_STRING_get_bit a' (int k) = Some (if k = n then v else k div 8 < L \<and> bit (d ! (k div 8)) (7 - k mod 8))"
  proof (cases "k div 8 < ?T")
    case True
    then show ?thesis using bits T(1) by (auto simp: get_bit_alt [OF ok] a'(1) block)
  next
    case False
    show ?thesis
    proof (cases "k div 8 < L")
      case True
      then have "d' ! (k div 8) = 0" using False by (intro trim_zero [of d' L]) simp_all
      then have "\<not> bit (d' ! (k div 8)) (7 - k mod 8)" by simp
      then show ?thesis using bits [OF True] True False by (auto simp: get_bit_alt [OF ok] a'(1))
    next
      case F2: False
      then have "k \<noteq> n" using L(1) by auto
      then show ?thesis using F2 False by (simp add: get_bit_alt [OF ok] a'(1))
    qed
  qed
qed

lemma set_bit_get_bit:
  assumes ok: "string_ok a" "al_ok al" and n: "int (n div 8) + 1 < INT_MAX"
    and set: "ASN1_BIT_STRING_set_bit al a (int n) v = Some (True, a')"
  shows "string_ok a' \<and> ASN1_BIT_STRING_get_bit a' (int k) = (if k = n then Some v else ASN1_BIT_STRING_get_bit a (int k))"
proof -
  let ?w = "n div 8" and ?short = "as_length a < int (n div 8) + 1 \<or> as_data a = None"
  define a0 where "a0 = a\<lparr>as_flags := as_flags a AND NOT (ASN1_STRING_FLAG_BITS_LEFT OR 0x07)\<rparr>"
  have a0: "as_length a0 = as_length a" "as_data a0 = as_data a" "string_ok a0 = string_ok a"
    "block_of a0 = block_of a"
    by (simp_all add: a0_def string_ok_def block_of_def)
  have get0: "ASN1_BIT_STRING_get_bit a0 j = ASN1_BIT_STRING_get_bit a j" for j unfolding ASN1_BIT_STRING_get_bit_def a0 ..
  note get = get_bit_alt [OF ok(1)]
  have short: "ASN1_BIT_STRING_get_bit a (int n) = Some False" if ?short
    using that ok(1) by (auto simp: get string_ok_def block_of_def)
  note set' = set [unfolded ASN1_BIT_STRING_set_bit_def Let_def a0_def [symmetric] bit_number]
  show ?thesis
  proof (cases ?short)
    case True
    show ?thesis
    proof (cases v)
      case False
      then have "a' = a0" using set' True by (simp add: a0)
      then show ?thesis using get0 short [OF True] False ok(1) by (auto simp: a0)
    next
      case val: True
      then obtain c where c: "OPENSSL_realloc al (as_data a) (word_of_int (int ?w + 1)) = Some c"
        using set' True by (auto simp: a0 split: option.splits)
      have "unat (of_nat (?w + 1) :: u64) = ?w + 1"
        by (rule unat_of_nat_small) (use n in \<open>simp add: INT_MAX_def\<close>)
      then have w64: "unat (word_of_int (int ?w + 1) :: u64) = ?w + 1" by (simp add: ac_simps)
      have len: "length c = ?w + 1" using length_realloc [OF ok(2) c] w64 by simp
      define l where "l = nat (as_length a)"
      have l: "as_length a = int l" using ok(1) by (simp add: l_def string_ok_def)
      have lw: "l \<le> ?w" using True ok(1) by (auto simp: string_ok_def block_of_def l)
      define d where "d = store_bytes c l (replicate (?w + 1 - l) 0)"
      have d: "length d = ?w + 1" "d = take l c @ replicate (?w + 1 - l) 0"
        using len lw by (simp_all add: d_def store_bytes_def)
      have nth: "d ! i = (if i < l then block_of a ! i else 0)" if "i \<le> ?w" for i
      proof (cases "i < l")
        case True
        then obtain b where b: "as_data a = Some b" "i < length b"
          using ok(1) by (auto simp: string_ok_def block_of_def l split: option.splits)
        then have "c ! i = b ! i" using realloc_nth [OF ok(2), of b] c w64 that by auto
        then show ?thesis using True lw len b(1) by (simp add: d(2) nth_append block_of_def)
      next
        case False
        then show ?thesis using that lw len by (simp add: d(2) nth_append)
      qed
      have n2: "nat (int ?w + 1 - int l) = ?w + 1 - l" "nat (int ?w + 1) = ?w + 1" by simp_all
      define x where "x = ((d ! ?w) AND NOT (push_bit (7 - n mod 8) 1)) OR (if v then push_bit (7 - n mod 8) 1 else 0)"
      have d': "(if int ?w + 1 - int l > 0 then store_bytes c (nat (int l)) (replicate (nat (int ?w + 1 - int l)) 0) else c) = d"
        using lw by (simp add: d_def n2)
      have "a' = a0\<lparr>as_data := Some (d[?w := x]), as_length := int (trim_zeros (d[?w := x]) (?w + 1))\<rparr>"
        using set' unfolding a0(1,2) l
        unfolding eqTrueI [OF True [unfolded l]] eqTrueI [OF val] simp_thms if_True if_False c option.map option.case
        unfolding d'
        by (simp add: x_def eqTrueI [OF val] n2 d(1) del: push_bit_of_1 trim_zeros.simps)
      then have a': "as_length a' = int (trim_zeros (d[?w := ((d ! ?w) AND NOT (push_bit (7 - n mod 8) 1)) OR (if v then push_bit (7 - n mod 8) 1 else 0)]) (?w + 1))"
        "as_data a' = Some (d[?w := ((d ! ?w) AND NOT (push_bit (7 - n mod 8) 1)) OR (if v then push_bit (7 - n mod 8) 1 else 0)])"
        unfolding x_def by simp_all
      have max: "int (?w + 1) < INT_MAX" using n by simp
      note r = set_in_block [OF _ _ a' refl max]
      have "Some (k div 8 < ?w + 1 \<and> bit (d ! (k div 8)) (7 - k mod 8)) = ASN1_BIT_STRING_get_bit a (int k)"
        using nth [of "k div 8"] lw by (auto simp: get l less_Suc_eq_le split: if_splits)
      then show ?thesis using r(1) r(2) [of k] d(1) by simp
    qed
  next
    case False
    then obtain d where d: "as_data a = Some d" "int ?w < as_length a" by auto
    then have L: "?w < nat (as_length a)" "nat (as_length a) \<le> length d" "int (nat (as_length a)) < INT_MAX"
      using ok(1) by (auto simp: string_ok_def block_of_def)
    then have in_d: "?w < length d" by simp
    have a': "as_length a' = int (trim_zeros (d[?w := ((d ! ?w) AND NOT (push_bit (7 - n mod 8) 1)) OR (if v then push_bit (7 - n mod 8) 1 else 0)]) (nat (as_length a)))"
      "as_data a' = Some (d[?w := ((d ! ?w) AND NOT (push_bit (7 - n mod 8) 1)) OR (if v then push_bit (7 - n mod 8) 1 else 0)])"
      using set' False d(1) in_d by (auto simp: a0)
    note r = set_in_block [OF L(1,2) a' refl L(3)]
    have "Some (k div 8 < nat (as_length a) \<and> bit (d ! (k div 8)) (7 - k mod 8)) = ASN1_BIT_STRING_get_bit a (int k)"
      by (simp add: get block_of_def d(1))
    then show ?thesis using r by simp
  qed
qed

section \<open>The order of strings\<close>

text \<open>
  What a string is compared by: the bytes that count and the padding bits, for a bit string those
  of \<open>asn1_bit_string_length\<close>.
\<close>

definition string_key :: "asn1_string \<Rightarrow> int \<times> int \<times> bytes \<times> int" where
  "string_key s =
     (let (n, p) = (if as_type s = V_ASN1_BIT_STRING then asn1_bit_string_length s else (as_length s, 0))
      in (n, - uint p, take (nat n) (block_of s), as_type s))"

lemma memcmp_sign: "length a = length b \<Longrightarrow> (OPENSSL_memcmp a b < 0 \<longleftrightarrow> a < b) \<and> (OPENSSL_memcmp a b = 0 \<longleftrightarrow> a = b)"
proof (induction a arbitrary: b)
  case (Cons x a)
  then obtain y b' where "b = y # b'" "length a = length b'" by (cases b) auto
  with Cons.IH [of b'] show ?case by auto
qed simp

lemma counted_length: "string_ok s \<Longrightarrow> fst (asn1_bit_string_length s) \<le> as_length s \<and> 0 \<le> fst (asn1_bit_string_length s)"
  using trim_le [of "case as_data s of None \<Rightarrow> [] | Some d \<Rightarrow> d" "nat (as_length s)"]
  by (auto simp: asn1_bit_string_length_def string_ok_def Let_def)

lemma string_cmp_sign:
  assumes "string_ok a" "string_ok b"
  shows "(ASN1_STRING_cmp a b < 0 \<longleftrightarrow> string_key a < string_key b) \<and> (ASN1_STRING_cmp a b = 0 \<longleftrightarrow> string_key a = string_key b)"
proof -
  define parts where "parts = (\<lambda>s. if as_type s = V_ASN1_BIT_STRING then asn1_bit_string_length s else (as_length s, 0))"
  have len: "fst (parts s) \<le> int (length (block_of s))" if "string_ok s" for s
    using counted_length [OF that] that by (auto simp: parts_def string_ok_def)
  obtain m p n q where parts: "parts a = (m, p)" "parts b = (n, q)" by fastforce
  have m: "m \<le> int (length (block_of a))" "n \<le> int (length (block_of b))"
    using len [OF assms(1)] len [OF assms(2)] parts by simp_all
  have key: "string_key a = (m, - uint p, take (nat m) (block_of a), as_type a)"
    "string_key b = (n, - uint q, take (nat n) (block_of b), as_type b)"
    using parts by (simp_all add: string_key_def parts_def [symmetric, THEN fun_cong])
  have cmp: "ASN1_STRING_cmp a b =
      (if m < n then - 1 else if m > n then 1 else if p > q then - 1 else if p < q then 1
       else (let ret = OPENSSL_memcmp (take (nat m) (block_of a)) (take (nat m) (block_of b))
             in if ret \<noteq> 0 then ret else if as_type a < as_type b then - 1 else if as_type a > as_type b then 1 else 0))"
    using parts unfolding ASN1_STRING_cmp_def parts_def block_of_def by (simp add: Let_def)
  have pq: "x < y \<longleftrightarrow> uint x < uint y" "x = y \<longleftrightarrow> uint x = uint y" for x y :: u8
    by (simp_all add: word_less_def word_uint_eq_iff)
  show ?thesis
  proof (cases "m = n \<and> p = q")
    case True
    then have "length (take (nat m) (block_of a)) = length (take (nat m) (block_of b))" using m by simp
    from memcmp_sign [OF this] True show ?thesis unfolding cmp key by (auto simp: Let_def)
  next
    case False
    then show ?thesis unfolding cmp key by (auto simp: Let_def pq)
  qed
qed

section \<open>Bit strings as contents octets\<close>

lemma bits_left_flags:
  assumes "unat u \<le> 7"
  shows "((f AND NOT (ASN1_STRING_FLAG_BITS_LEFT OR 0x07)) OR (ASN1_STRING_FLAG_BITS_LEFT OR uint u)) AND ASN1_STRING_FLAG_BITS_LEFT \<noteq> 0"
    "((f AND NOT (ASN1_STRING_FLAG_BITS_LEFT OR 0x07)) OR (ASN1_STRING_FLAG_BITS_LEFT OR uint u)) AND 0x07 = uint u"
proof -
  let ?f = "(f AND NOT (ASN1_STRING_FLAG_BITS_LEFT OR 0x07)) OR (ASN1_STRING_FLAG_BITS_LEFT OR uint u)"
  have m: "(0x07 :: int) = mask 3" "ASN1_STRING_FLAG_BITS_LEFT = push_bit 3 1"
    by (simp_all add: mask_eq_exp_minus_1 ASN1_STRING_FLAG_BITS_LEFT_def)
  have "bit (?f AND ASN1_STRING_FLAG_BITS_LEFT) 3" unfolding m by (simp add: bit_simps)
  then show "?f AND ASN1_STRING_FLAG_BITS_LEFT \<noteq> 0" by auto
  have "take_bit 3 (uint u) = uint u"
  proof (rule take_bit_int_eq_self)
    have "uint u = int (unat u)" by simp
    moreover have "int (unat u) < 8" using assms by linarith
    ultimately show "uint u < 2 ^ 3" by (simp only: power3_eq_cube)
  qed simp
  then have u: "bit (uint u) i \<Longrightarrow> i < 3" for i
    using bit_take_bit_iff [of 3 "uint u" i] by simp
  show "?f AND 0x07 = uint u"
  proof (rule bit_eqI)
    fix i
    have "bit (push_bit 3 1 :: int) i \<longleftrightarrow> 3 \<le> i \<and> bit (1 :: int) (i - 3)" by (simp only: bit_push_bit_iff_int)
    then have "bit ASN1_STRING_FLAG_BITS_LEFT i \<Longrightarrow> i = 3" unfolding m(2) by (simp only: bit_1_iff) simp
    then show "bit (?f AND 0x07) i = bit (uint u) i"
      unfolding m(1) using u [of i] by (auto simp add: bit_and_iff bit_or_iff bit_not_iff bit_mask_iff)
  qed
qed

lemma clear_low: "take_bit k b = 0 \<Longrightarrow> b AND push_bit k 0xff = b" for b :: u8
proof (rule bit_word_eqI)
  fix n
  assume t: "take_bit k b = 0" and n: "n < LENGTH(8)"
  have "bit b i \<Longrightarrow> k \<le> i" for i using t bit_take_bit_iff [of k b i] by (metis bit_0_eq bot_apply bot_bool_def not_le)
  moreover have ff: "(0xff :: u8) = mask 8" by (simp add: mask_eq_exp_minus_1)
  ultimately show "bit (b AND push_bit k 0xff) n = bit b n" using n unfolding ff by (auto simp: bit_simps)
qed

lemma c2i_bit_string:
  assumes al: "al_total al" and p: "p = u # bs" "int (length p) \<le> INT_MAX"
  shows "unused_ok u bs \<Longrightarrow> \<exists>s. c2i_ASN1_BIT_STRING al a p (int (length p)) = (Inr s, Some s)"
    "c2i_ASN1_BIT_STRING al a p (int (length p)) = (Inr s, a') \<Longrightarrow> unused_ok u bs \<and> a' = Some s \<and> i2c_ASN1_BIT_STRING s = p
      \<and> as_type s = V_ASN1_BIT_STRING"
proof -
  have obj: "\<exists>ret. (case a of None \<Rightarrow> ASN1_STRING_type_new al V_ASN1_BIT_STRING | Some ret \<Rightarrow> Some ret) = Some ret"
    using al by (auto simp: ASN1_STRING_type_new_def al_total_def split: option.split)
  then obtain ret where ret: "(case a of None \<Rightarrow> ASN1_STRING_type_new al V_ASN1_BIT_STRING | Some ret \<Rightarrow> Some ret) = Some ret" ..
  have len: "\<not> int (length p) < 1" "\<not> INT_MAX < int (length p)" "int (length p) - 1 = int (length bs)" using p by simp_all
  have mask: "push_bit n 1 - 1 = (mask n :: u8)" for n by (simp add: mask_eq_exp_minus_1 push_bit_eq_mult)
  have le: "u > 7 \<longleftrightarrow> \<not> unat u \<le> 7" by (simp add: word_less_nat_alt not_le)
  have "nat (int n - 1) = n - 1" for n by (cases n) simp_all
  then have last: "bs \<noteq> [] \<Longrightarrow> bs ! nat (int (length bs) - 1) = last bs" by (simp add: last_conv_nth)
  have bad: "u \<noteq> 0 \<and> (int (length bs) < 1 \<or> bs ! nat (int (length bs) - 1) AND (push_bit (unat u) 1 - 1) \<noteq> 0) \<longleftrightarrow>
      \<not> (u = 0 \<or> bs \<noteq> [] \<and> take_bit (unat u) (last bs) = 0)"
    using last by (cases "bs = []") (simp_all add: mask take_bit_eq_mask del: push_bit_of_1)
  let ?flags = "(as_flags ret AND NOT (ASN1_STRING_FLAG_BITS_LEFT OR 0x07)) OR (ASN1_STRING_FLAG_BITS_LEFT OR uint u)"
  let ?s = "\<lparr>as_length = int (length bs), as_type = V_ASN1_BIT_STRING, as_data = (if bs = [] then None else Some bs), as_flags = ?flags\<rparr>"
  have s: "c2i_ASN1_BIT_STRING al a p (int (length p)) = (Inr ?s, Some ?s)" if "unused_ok u bs"
  proof -
    obtain blk where "al (word_of_int (int (length bs))) = Some blk" using al by (auto simp: al_total_def)
    then have d: "(if int (length bs) > 0 then map_option (\<lambda>_. Some (take (nat (int (length bs))) bs)) (al (word_of_int (int (length bs)))) else Some None)
        = Some (if bs = [] then None else Some bs)" by simp
    have ok: "\<not> u > 7" "\<not> (u \<noteq> 0 \<and> (int (length bs) < 1 \<or> bs ! nat (int (length bs) - 1) AND (push_bit (unat u) 1 - 1) \<noteq> 0))"
      using that unfolding bad le unused_ok_def by auto
    show ?thesis
      unfolding c2i_ASN1_BIT_STRING_def if_not_P [OF len(1)] if_not_P [OF len(2)] ret option.case len(3) Let_def
      unfolding p(1) nth_Cons_0 drop_Suc_Cons One_nat_def drop0 if_not_P [OF ok(1)] if_not_P [OF ok(2)] d option.case by simp
  qed
  then show "unused_ok u bs \<Longrightarrow> \<exists>s. c2i_ASN1_BIT_STRING al a p (int (length p)) = (Inr s, Some s)" by blast
  assume c: "c2i_ASN1_BIT_STRING al a p (int (length p)) = (Inr s, a')"
  have u: "unused_ok u bs"
  proof (rule ccontr)
    assume "\<not> unused_ok u bs"
    then have "u > 7 \<or> (u \<noteq> 0 \<and> (int (length bs) < 1 \<or> bs ! nat (int (length bs) - 1) AND (push_bit (unat u) 1 - 1) \<noteq> 0))"
      unfolding bad le unused_ok_def by auto
    then show False
      using c unfolding c2i_ASN1_BIT_STRING_def if_not_P [OF len(1)] if_not_P [OF len(2)] ret option.case len(3) Let_def
      unfolding p(1) nth_Cons_0 drop_Suc_Cons One_nat_def drop0 by (auto split: if_splits)
  qed
  then have eq: "s = ?s" "a' = Some ?s" using s c by simp_all
  have u7: "unat u \<le> 7" using u by (simp add: unused_ok_def)
  have sl: "asn1_bit_string_length ?s = (int (length bs), if bs = [] then 0 else u)"
    unfolding asn1_bit_string_length_def using bits_left_flags [OF u7, of "as_flags ret"] by simp
  have "i2c_ASN1_BIT_STRING ?s = p"
  proof (cases "bs = []")
    case True
    then have "u = 0" using u by (simp add: unused_ok_def unat_eq_0)
    then show ?thesis using True unfolding i2c_ASN1_BIT_STRING_def sl by (simp add: p(1))
  next
    case False
    then have "take_bit (unat u) (last bs) = 0" using u by (auto simp: unused_ok_def)
    then have "last bs AND push_bit (unat u) 0xff = last bs" by (rule clear_low)
    then have "bs[length bs - 1 := (bs ! (length bs - 1)) AND push_bit (unat u) 0xff] = bs"
      using False by (simp add: last_conv_nth)
    then show ?thesis using False unfolding i2c_ASN1_BIT_STRING_def sl by (simp add: p(1) Let_def)
  qed
  then show "unused_ok u bs \<and> a' = Some s \<and> i2c_ASN1_BIT_STRING s = p \<and> as_type s = V_ASN1_BIT_STRING" using u eq by simp
qed

section \<open>Properties\<close>

text \<open>
  C23. Reading contents octets into a bit string succeeds exactly when the byte-string parser finds
  them a valid BIT STRING, and writing the object gives the octets back, whatever object was reused.
  The octets are at least one and at most \<open>INT_MAX\<close>, and the allocator does not fail.
\<close>

theorem c2i_ASN1_BIT_STRING_exact:
  assumes "al_total al" "int (unat (cbs_len c)) \<le> INT_MAX" "cbs_len c \<noteq> 0"
  shows "((\<exists>s. c2i_ASN1_BIT_STRING al a (cbs_bytes m c) (int (unat (cbs_len c))) = (Inr s, Some s))
      \<longleftrightarrow> CBS_is_valid_asn1_bitstring m c)
    \<and> (\<forall>s a'. c2i_ASN1_BIT_STRING al a (cbs_bytes m c) (int (unat (cbs_len c))) = (Inr s, a')
      \<longrightarrow> i2c_ASN1_BIT_STRING s = cbs_bytes m c)"
proof -
  obtain u bs where p: "cbs_bytes m c = u # bs"
    using assms(3) length_cbs_bytes [of m c] by (cases "cbs_bytes m c") (simp_all add: unat_eq_0)
  have len: "unat (cbs_len c) = length (cbs_bytes m c)" by simp
  have v: "CBS_is_valid_asn1_bitstring m c \<longleftrightarrow> unused_ok u bs" using p by (simp add: CBS_is_valid_asn1_bitstring_eq)
  note r = c2i_bit_string [OF assms(1) p]
  show ?thesis unfolding v len using r assms(2) unfolding len by blast
qed

text \<open>
  C24. Setting a bit of a well-formed bit string, whose number is at least 0, changes that bit and no
  other, and keeps the object well-formed, also when the string grows or loses its trailing zero
  bytes; every bit can then be read within the block.
\<close>

theorem ASN1_BIT_STRING_set_bit_get_bit:
  assumes "string_ok a" "al_ok al" "int (n div 8) + 1 < INT_MAX" "ASN1_BIT_STRING_set_bit al a (int n) v = Some (True, a')"
  shows "string_ok a'
    \<and> (\<forall>k. \<exists>b. ASN1_BIT_STRING_get_bit a (int k) = Some b \<and> ASN1_BIT_STRING_get_bit a' (int k) = Some (if k = n then v else b))"
  using set_bit_get_bit [OF assms] get_bit_alt [OF assms(1)] by simp

text \<open>A number below -7 is an access before the block.\<close>

lemma bit_before_block:
  assumes "string_ok a" "as_data a \<noteq> None" "n < - 7"
  shows "ASN1_BIT_STRING_get_bit a n = None" "ASN1_BIT_STRING_set_bit al a n v = None"
proof -
  have "n sdiv 8 < 0" using assms(3) by (simp add: signed_divide_int_def sgn_if)
  with assms show "ASN1_BIT_STRING_get_bit a n = None" "ASN1_BIT_STRING_set_bit al a n v = None"
    by (auto simp: ASN1_BIT_STRING_get_bit_def ASN1_BIT_STRING_set_bit_def Let_def string_ok_def)
qed

text \<open>
  \<open>ASN1_STRING_cmp\<close> is the sign of a comparison in one total order, that of the key
  (length, padding bits, bytes, type); so it is antisymmetric and transitive, also between bit
  strings and others.
\<close>

theorem ASN1_STRING_cmp_order:
  assumes "string_ok a" "string_ok b"
  shows "sgn (ASN1_STRING_cmp a b) =
    (if string_key a < string_key b then - 1 else if string_key a = string_key b then 0 else 1)"
  using string_cmp_sign [OF assms] by (auto simp: sgn_if)

definition bits_example :: asn1_string where
  "bits_example = \<lparr>as_length = 2, as_type = V_ASN1_BIT_STRING, as_data = Some [0x80, 0x01], as_flags = 0\<rparr>"

lemma bits_example_ok: "string_ok bits_example"
  by (simp add: bits_example_def string_ok_def block_of_def INT_MAX_def)

theorem c2i_ASN1_BIT_STRING_exact_witness:
  "\<exists>s. c2i_ASN1_BIT_STRING zero_alloc None (cbs_bytes (holding [4, 0xF0]) (CBS_init 0x100 2)) 2 = (Inr s, Some s)
     \<and> i2c_ASN1_BIT_STRING s = [4, 0xF0]"
proof -
  let ?m = "holding [4, 0xF0]" and ?c = "CBS_init 0x100 2"
  have b: "cbs_bytes ?m ?c = [4, 0xF0]" using holding_read [of "[4, 0xF0]" 2] by simp
  have len: "int (unat (cbs_len ?c)) = 2" "int (unat (cbs_len ?c)) \<le> INT_MAX" "cbs_len ?c \<noteq> 0"
    by (simp_all add: CBS_init_def INT_MAX_def)
  have v: "CBS_is_valid_asn1_bitstring ?m ?c"
    unfolding CBS_is_valid_asn1_bitstring_eq b by (simp add: unused_ok_def take_bit_eq_mod)
  show ?thesis
    using c2i_ASN1_BIT_STRING_exact [OF zero_alloc_total len(2,3), of None ?m] v unfolding b len(1) by blast
qed

theorem ASN1_BIT_STRING_set_bit_get_bit_witness:
  "\<exists>a. ASN1_BIT_STRING_set_bit zero_alloc bits_example 15 False = Some (True, a) \<and> ASN1_BIT_STRING_get_bit a 0 = Some True
     \<and> as_length a = 1"
proof -
  have "trim_zeros [0x80, 0] (Suc (Suc 0)) = 1" by simp
  then have "trim_zeros [0x80, 0] 2 = 1" unfolding numeral_2_eq_2 .
  then obtain a where a: "ASN1_BIT_STRING_set_bit zero_alloc bits_example (int 15) False = Some (True, a)" "as_length a = 1"
    unfolding ASN1_BIT_STRING_set_bit_def bit_number by (simp add: bits_example_def Let_def)
  have c: "al_ok zero_alloc" "int (15 div 8) + 1 < INT_MAX" using zero_alloc_total by (simp_all add: INT_MAX_def al_total_def)
  from ASN1_BIT_STRING_set_bit_get_bit [OF bits_example_ok c a(1)]
  obtain b where "ASN1_BIT_STRING_get_bit bits_example (int 0) = Some b"
    "ASN1_BIT_STRING_get_bit a (int 0) = Some (if (0 :: nat) = 15 then False else b)" by blast
  then have "ASN1_BIT_STRING_get_bit a (int 0) = ASN1_BIT_STRING_get_bit bits_example (int 0)" by simp
  moreover have "ASN1_BIT_STRING_get_bit bits_example (int 0) = Some True"
    unfolding ASN1_BIT_STRING_get_bit_def bit_number by (simp add: bits_example_def Let_def)
  ultimately show ?thesis using a by auto
qed

theorem ASN1_STRING_cmp_order_witness:
  "sgn (ASN1_STRING_cmp bits_example (bits_example\<lparr>as_data := Some [0x80, 0x03]\<rparr>)) = - 1"
proof -
  let ?b = "bits_example\<lparr>as_data := Some [0x80, 0x03]\<rparr>"
  have ok: "string_ok ?b" by (simp add: bits_example_def string_ok_def block_of_def INT_MAX_def)
  have "trim_zeros [0x80, 0x01] (Suc (Suc 0)) = 2" "trim_zeros [0x80, 0x03] (Suc (Suc 0)) = 2" by simp_all
  then have "trim_zeros [0x80, 0x01] 2 = 2" "trim_zeros [0x80, 0x03] 2 = 2" unfolding numeral_2_eq_2 .
  moreover have "padding_loop 0x01 7 0 = 0" "padding_loop 0x03 7 0 = 0"
    using padding_loop.simps(2) [of "0x01" 6 0] padding_loop.simps(2) [of "0x03" 6 0] by simp_all
  ultimately have "string_key ?b > string_key bits_example"
    by (simp add: string_key_def bits_example_def block_of_def asn1_bit_string_length_def)
  then show ?thesis using ASN1_STRING_cmp_order [OF bits_example_ok ok] by simp
qed

end
