(* ===== verification/Asn1Object.thy ===== *)
theory Asn1Object
  imports CbsDer Asn1String
begin

text \<open>
  The element headers of the ASN.1 library (crypto/asn1/asn1_lib.c), read by \<open>ASN1_get_object\<close> and written by
  \<open>ASN1_put_object\<close>.

  The pointer \<open>*pp\<close> is the start of the bytes \<open>bs\<close> that may be read, and \<open>p\<close> an index into them; a read
  past them is the outcome \<open>None\<close>. \<open>int\<close> and \<open>long\<close> are integers. A writer gives the bytes it writes.
\<close>

section \<open>The reader\<close>

definition V_ASN1_UNIVERSAL :: u8 where "V_ASN1_UNIVERSAL = 0x00"
definition V_ASN1_PRIVATE :: u8 where "V_ASN1_PRIVATE = 0xc0"
definition V_ASN1_CONSTRUCTED :: u8 where "V_ASN1_CONSTRUCTED = 0x20"
definition V_ASN1_PRIMITIVE_TAG :: u8 where "V_ASN1_PRIMITIVE_TAG = 0x1f"
definition V_ASN1_MAX_UNIVERSAL :: int where "V_ASN1_MAX_UNIVERSAL = 0xff"

datatype header_error = HEADER_TOO_LONG | TOO_LONG

text \<open>
  What a call leaves: its result, how far \<open>*pp\<close> has moved, the outputs that were set, and the error.
\<close>

record object_out =
  oo_ret :: u8
  oo_pp :: nat
  oo_length :: "int option"
  oo_tag :: "int option"
  oo_class :: "u8 option"
  oo_error :: "header_error option"

definition byte_at :: "bytes \<Rightarrow> nat \<Rightarrow> u8 option" where
  "byte_at bs p = (if p < length bs then Some (bs ! p) else None)"

text \<open>The loop over the octets of a tag number that are not the last; \<open>Some None\<close> is \<open>goto err\<close>.\<close>

function high_tag :: "bytes \<Rightarrow> nat \<Rightarrow> int \<Rightarrow> int \<Rightarrow> (nat \<times> int \<times> int) option option" where
  "high_tag bs p l maxi =
     (case byte_at bs p of
        None \<Rightarrow> None
      | Some b \<Rightarrow>
          if b AND 0x80 \<noteq> 0 then
            (let l = push_bit 7 l OR uint (b AND 0x7f); maxi = maxi - 1 in
             if maxi = 0 then Some None
             else if l > drop_bit 7 INT_MAX then Some None
             else high_tag bs (p + 1) l maxi)
          else Some (Some (p, l, maxi)))"
  by pat_completeness auto
termination
  by (relation "measure (\<lambda>(bs, p, _, _). length bs - p)") (auto simp: byte_at_def split: if_splits)

declare high_tag.simps [simp del]

text \<open>The octets of a length.\<close>

fun read_be :: "bytes \<Rightarrow> nat \<Rightarrow> nat \<Rightarrow> u64 \<Rightarrow> u64 option" where
  "read_be bs p 0 r = Some r"
| "read_be bs p (Suc i) r =
     (case byte_at bs p of None \<Rightarrow> None | Some b \<Rightarrow> read_be bs (p + 1) i (push_bit 8 r OR ucast b))"

definition asn1_get_length :: "bytes \<Rightarrow> nat \<Rightarrow> int \<Rightarrow> (nat \<times> int) option option" where
  "asn1_get_length bs p maxi =
     (if maxi < 1 then Some None
      else
        (let maxi = maxi - 1 in
         case byte_at bs p of
           None \<Rightarrow> None
         | Some b \<Rightarrow>
             if b = 0x80 then Some None
             else
               (let i = unat (b AND 0x7f) in
                if b AND 0x80 \<noteq> 0 then
                  (if i > 8 \<or> maxi < int i then Some None
                   else (case read_be bs (p + 1) i 0 of
                           None \<Rightarrow> None
                         | Some ret \<Rightarrow> if ret > word_of_int (INT_MAX div 2) then Some None else Some (Some (p + 1 + i, uint ret))))
                else if (of_nat i :: u64) > word_of_int (INT_MAX div 2) then Some None
                else Some (Some (p + 1, int i)))))"

definition get_failed :: "int option \<Rightarrow> u8 option \<Rightarrow> object_out option" where
  "get_failed tag xclass = Some \<lparr>oo_ret = 0x80, oo_pp = 0, oo_length = None, oo_tag = tag, oo_class = xclass,
     oo_error = Some HEADER_TOO_LONG\<rparr>"

text \<open>The rest of \<open>ASN1_get_object\<close> once the tag is known.\<close>

definition get_body :: "bytes \<Rightarrow> u8 \<Rightarrow> u8 \<Rightarrow> int \<Rightarrow> nat \<Rightarrow> int \<Rightarrow> int \<Rightarrow> object_out option" where
  "get_body bs ret xclass tag p maxi omax =
     (if xclass = V_ASN1_UNIVERSAL \<and> tag > V_ASN1_MAX_UNIVERSAL then get_failed None None
      else
        (case asn1_get_length bs p maxi of
           None \<Rightarrow> None
         | Some None \<Rightarrow> get_failed (Some tag) (Some xclass)
         | Some (Some (p, len)) \<Rightarrow>
             if len > omax - int p then
               Some \<lparr>oo_ret = 0x80, oo_pp = 0, oo_length = Some len, oo_tag = Some tag, oo_class = Some xclass,
                     oo_error = Some TOO_LONG\<rparr>
             else
               Some \<lparr>oo_ret = ret, oo_pp = p, oo_length = Some len, oo_tag = Some tag, oo_class = Some xclass,
                     oo_error = None\<rparr>))"

definition ASN1_get_object :: "bytes \<Rightarrow> int \<Rightarrow> object_out option" where
  "ASN1_get_object bs omax =
     (if omax = 0 then get_failed None None
      else
        (case byte_at bs 0 of
           None \<Rightarrow> None
         | Some b \<Rightarrow>
             (let ret = b AND V_ASN1_CONSTRUCTED; xclass = b AND V_ASN1_PRIVATE; i = b AND V_ASN1_PRIMITIVE_TAG in
              if i = V_ASN1_PRIMITIVE_TAG then
                (if omax - 1 = 0 then get_failed None None
                 else
                   (case high_tag bs 1 0 (omax - 1) of
                      None \<Rightarrow> None
                    | Some None \<Rightarrow> get_failed None None
                    | Some (Some (p, l, maxi)) \<Rightarrow>
                        (let l = push_bit 7 l OR uint (bs ! p AND 0x7f); tag = to_int l in
                         if maxi - 1 = 0 then get_failed None None
                         else get_body bs ret xclass tag (p + 1) (maxi - 1) omax)))
              else if omax - 1 = 0 then get_failed None None
              else get_body bs ret xclass (uint i) 1 (omax - 1) omax)))"

section \<open>The writers\<close>

text \<open>How often \<open>l\<close> is shifted by \<open>k\<close> bits before it is 0.\<close>

function shifts :: "nat \<Rightarrow> int \<Rightarrow> nat" where
  "shifts k l = (if 0 < k \<and> 0 < l then Suc (shifts k (drop_bit k l)) else 0)"
  by pat_completeness auto
termination
proof (relation "measure (\<lambda>(_, l). nat l)", goal_cases)
  case (2 k l)
  then have "l div 2 ^ k < l" by (intro int_div_less_self) (auto simp: one_less_power)
  with 2 show ?case by (simp add: drop_bit_eq_div)
qed simp

declare shifts.simps [simp del]

fun put_length_octets :: "nat \<Rightarrow> int \<Rightarrow> bytes" where
  "put_length_octets 0 l = []"
| "put_length_octets (Suc i) l = put_length_octets i (drop_bit 8 l) @ [word_of_int (l AND 0xff)]"

definition asn1_put_length :: "int \<Rightarrow> bytes" where
  "asn1_put_length len =
     (if len \<le> 127 then [word_of_int len]
      else (let i = shifts 8 len in (of_nat i OR 0x80) # put_length_octets i len))"

fun put_tag_octets :: "nat \<Rightarrow> nat \<Rightarrow> int \<Rightarrow> bytes" where
  "put_tag_octets ttag 0 tag = []"
| "put_tag_octets ttag (Suc i) tag =
     put_tag_octets ttag i (drop_bit 7 tag)
     @ [if i \<noteq> ttag - 1 then word_of_int (tag AND 0x7f) OR 0x80 else word_of_int (tag AND 0x7f)]"

definition ASN1_put_object :: "int \<Rightarrow> int \<Rightarrow> int \<Rightarrow> u8 \<Rightarrow> bytes" where
  "ASN1_put_object constructed len tag xclass =
     (let i = (if constructed \<noteq> 0 then V_ASN1_CONSTRUCTED else 0) OR (xclass AND V_ASN1_PRIVATE) in
      (if tag < 31 then [i OR (word_of_int tag AND V_ASN1_PRIMITIVE_TAG)]
       else (let ttag = shifts 7 tag in (i OR V_ASN1_PRIMITIVE_TAG) # put_tag_octets ttag ttag tag))
      @ (if constructed = 2 then [0x80] else asn1_put_length len))"

definition ASN1_put_eoc :: "bytes \<times> int" where
  "ASN1_put_eoc = ([0, 0], 2)"

definition ASN1_object_size :: "int \<Rightarrow> int \<Rightarrow> int \<Rightarrow> int" where
  "ASN1_object_size constructed len tag =
     (if len < 0 then - 1
      else
        (let ret = 1 + (if tag \<ge> 31 then int (shifts 7 tag) else 0);
             ret = (if constructed = 2 then ret + 3
                    else ret + 1 + (if len > 127 then int (shifts 8 len) else 0))
         in if ret \<ge> INT_MAX - len then - 1 else ret + len))"

section \<open>The writers write DER\<close>

lemma drop_bit_int_nat: "drop_bit k (int n) = int (n div 2 ^ k)"
  by (simp add: drop_bit_eq_div zdiv_int)

lemma shifts_digits: "0 < k \<Longrightarrow> 0 < n \<Longrightarrow> shifts k (int n) = length (digits (2 ^ k) n)"
proof (induction n rule: less_induct)
  case (less n)
  have b: "1 < (2 ^ k :: nat)" by (rule one_less_power) (use less.prems in auto)
  show ?case
  proof (cases "n < 2 ^ k")
    case True
    then have "drop_bit k (int n) = 0" by (simp add: drop_bit_int_nat)
    then have "shifts k (drop_bit k (int n)) = 0" by (simp add: shifts.simps [of k 0])
    then show ?thesis using True less.prems b by (simp add: shifts.simps [of k "int n"] digits.simps [of _ n])
  next
    case False
    then have "0 < n div 2 ^ k" "n div 2 ^ k < n" using less.prems b by (simp_all add: div_greater_zero_iff)
    from less.IH [OF this(2) less.prems(1) this(1)] show ?thesis using False b less.prems
      by (simp add: shifts.simps [of k "int n"] digits.simps [of _ n] drop_bit_int_nat)
  qed
qed

lemma low_bits_int: "int n AND 0xff = int (n mod 256)" "int n AND 0x7f = int (n mod 128)"
proof -
  have "int n AND 0xff = take_bit 8 (int n)" "int n AND 0x7f = take_bit 7 (int n)"
    by (simp_all add: take_bit_eq_mask mask_eq_exp_minus_1)
  then show "int n AND 0xff = int (n mod 256)" "int n AND 0x7f = int (n mod 128)"
    by (simp_all add: take_bit_eq_mod zmod_int)
qed

lemma put_length_octets_digits: "put_length_octets (length (digits 256 n)) (int n) = be_octets n"
proof (induction n rule: less_induct)
  case (less n)
  show ?case
  proof (cases "n < 256")
    case True
    then show ?thesis by (simp add: digits.simps [of _ n] be_octets_def low_bits_int)
  next
    case False
    then have "n div 256 < n" by simp
    from less.IH [OF this] False show ?thesis
      using drop_bit_int_nat [of 8 n] by (simp add: digits.simps [of _ n] be_octets_def low_bits_int)
  qed
qed

lemma high_bit_octet: "d < 128 \<Longrightarrow> (of_nat d :: u8) OR 0x80 = of_nat (d + 128)"
proof -
  assume "d < 128"
  then have "(of_nat d :: u8) AND 0x80 = 0" by (simp add: u8_and_80)
  then have "(of_nat d :: u8) OR 0x80 = of_nat d + 0x80" by (rule disjunctive_add_eq_or [symmetric])
  then show ?thesis by simp
qed

lemma asn1_put_length_der: "n < 2 ^ 31 \<Longrightarrow> asn1_put_length (int n) = der_length n"
proof (cases "n < 128")
  case False
  assume n: "n < 2 ^ 31"
  have sh: "shifts 8 (int n) = length (digits 256 n)" using shifts_digits [of 8 n] False by simp
  have "length (digits 256 n) \<le> 4" using digits_length [of 256 n 4] n by simp
  then have "(of_nat (length (digits 256 n)) :: u8) OR 0x80 = of_nat (length (digits 256 n) + 128)"
    by (intro high_bit_octet) simp
  then show ?thesis using False
    by (simp add: asn1_put_length_def der_length_def Let_def sh put_length_octets_digits length_be_octets add.commute)
qed (simp add: asn1_put_length_def der_length_def)

lemma put_tag_octets_high:
  "length (digits 128 n) < ttag \<Longrightarrow>
     put_tag_octets ttag (length (digits 128 n)) (int n) = map (\<lambda>d. of_nat (d + 128)) (digits 128 n)"
proof (induction n rule: less_induct)
  case (less n)
  have h: "(of_nat (n mod 128) :: u8) OR 0x80 = of_nat (n mod 128 + 128)" by (rule high_bit_octet) simp
  show ?case
  proof (cases "n < 128")
    case True
    then show ?thesis using less.prems h by (simp add: digits.simps [of _ n] low_bits_int)
  next
    case False
    then have d: "digits 128 n = digits 128 (n div 128) @ [n mod 128]" "n div 128 < n"
      by (simp_all add: digits.simps [of _ n])
    then have "length (digits 128 (n div 128)) < ttag" "length (digits 128 (n div 128)) \<noteq> ttag - 1" using less.prems by auto
    then show ?thesis using less.IH [OF d(2)] drop_bit_int_nat [of 7 n] h
      by (simp add: d(1) low_bits_int)
  qed
qed

lemma put_tag_octets_base128:
  "put_tag_octets (length (digits 128 n)) (length (digits 128 n)) (int n) = base128 n"
proof (cases "n < 128")
  case True
  then show ?thesis by (simp add: digits.simps [of _ n] low_bits_int base128_def)
next
  case False
  then have d: "digits 128 n = digits 128 (n div 128) @ [n mod 128]" by (simp add: digits.simps [of _ n])
  have "put_tag_octets (length (digits 128 n)) (length (digits 128 (n div 128))) (int (n div 128))
      = map (\<lambda>d. of_nat (d + 128)) (digits 128 (n div 128))"
    by (rule put_tag_octets_high) (simp add: d)
  then show ?thesis using drop_bit_int_nat [of 7 n] unfolding base128_def
    by (simp add: d low_bits_int)
qed

text \<open>The octets of a tag number, in the header of an element.\<close>

definition tag_octets :: "u8 \<Rightarrow> nat \<Rightarrow> bytes" where
  "tag_octets i n = (if n < 31 then [i OR of_nat n] else (i OR 0x1f) # base128 n)"

lemma put_object_octets:
  assumes "con \<noteq> 2" and "n < 2 ^ 31"
  shows "ASN1_put_object con (int n) (int tg) xclass
    = tag_octets ((if con \<noteq> 0 then 0x20 else 0) OR (xclass AND 0xc0)) tg @ der_length n"
proof -
  have "(of_nat tg :: u8) AND 0x1f = of_nat tg" if "tg < 31"
  proof -
    have "(of_nat tg :: u8) AND mask 5 = take_bit 5 (of_nat tg)" by (simp add: take_bit_eq_mask)
    also have "\<dots> = of_nat tg" using that
      by (simp add: word_unat_eq_iff unsigned_take_bit_eq take_bit_nat_eq_self_iff unat_of_nat_small)
    finally show ?thesis by (simp add: mask_eq_exp_minus_1)
  qed
  then show ?thesis
    using assms asn1_put_length_der [of n] put_tag_octets_base128 [of tg] shifts_digits [of 7 tg]
    by (simp add: ASN1_put_object_def tag_octets_def V_ASN1_CONSTRUCTED_def V_ASN1_PRIVATE_def
        V_ASN1_PRIMITIVE_TAG_def Let_def)
qed

section \<open>The reader reads what was written\<close>

lemma shift_in_septet: "0 \<le> d \<Longrightarrow> d < 128 \<Longrightarrow> push_bit 7 l OR d = l * 128 + d" for l d :: int
proof -
  assume d: "0 \<le> d" "d < 128"
  then have t: "take_bit 7 d = d" by (simp add: take_bit_int_eq_self)
  have lt: "bit d n \<longrightarrow> n < 7" for n by (metis t bit_take_bit_iff)
  have "push_bit 7 l AND d = 0"
  proof (rule bit_eqI)
    fix n show "bit (push_bit 7 l AND d) n = bit 0 n" using lt [of n] by (auto simp: bit_and_iff bit_push_bit_iff)
  qed
  then have "push_bit 7 l OR d = push_bit 7 l + d" by (rule disjunctive_add_eq_or [symmetric])
  then show ?thesis by (simp add: push_bit_eq_mult)
qed

lemma octet_7F: "d < 128 \<Longrightarrow> uint ((of_nat (d + 128) :: u8) AND 0x7f) = int d" "d < 128 \<Longrightarrow> uint ((of_nat d :: u8) AND 0x7f) = int d"
proof -
  assume d: "d < 128"
  then have "unat (of_nat (d + 128) :: u8) = d + 128" "unat (of_nat d :: u8) = d"
    by (intro unat_of_nat_small; simp)+
  with d show "uint ((of_nat (d + 128) :: u8) AND 0x7f) = int d" "uint ((of_nat d :: u8) AND 0x7f) = int d"
    by (simp_all add: u8_and_7F uint_nat del: of_nat_add)
qed

lemma octet_80: "d < 128 \<Longrightarrow> (of_nat (d + 128) :: u8) AND 0x80 \<noteq> 0" "d < 128 \<Longrightarrow> (of_nat d :: u8) AND 0x80 = 0"
proof -
  assume d: "d < 128"
  then have "unat (of_nat (d + 128) :: u8) = d + 128" "unat (of_nat d :: u8) = d"
    by (intro unat_of_nat_small; simp)+
  with d show "(of_nat (d + 128) :: u8) AND 0x80 \<noteq> 0" "(of_nat d :: u8) AND 0x80 = 0"
    by (simp_all add: u8_and_80 del: of_nat_add)
qed

lemma foldl_ge: "v \<le> foldl (\<lambda>a d. a * 128 + d) v ds" for v :: nat
proof (induction ds arbitrary: v)
  case (Cons d ds)
  from Cons.IH [of "v * 128 + d"] show ?case by simp
qed simp

lemma high_tag_step:
  assumes "byte_at bs p = Some b" and "b AND 0x80 \<noteq> 0" and "push_bit 7 l OR uint (b AND 0x7f) = l'"
    and "m - 1 = m'" and "m' \<noteq> 0" and "l' \<le> drop_bit 7 INT_MAX"
  shows "high_tag bs p l m = high_tag bs (p + 1) l' m'"
  using assms by (subst high_tag.simps) (simp add: Let_def)

lemma high_tag_octets:
  assumes "\<forall>d \<in> set ds. d < 128" and "e < 128" and "length ds < maxi"
    and "foldl (\<lambda>a d. a * 128 + d) v ds \<le> 16777215"
  shows "high_tag (pre @ map (\<lambda>d. of_nat (d + 128)) ds @ of_nat e # rest) (length pre) (int v) (int maxi)
    = Some (Some (length pre + length ds, int (foldl (\<lambda>a d. a * 128 + d) v ds), int (maxi - length ds)))"
  using assms
proof (induction ds arbitrary: pre v maxi)
  case Nil
  then show ?case using octet_80(2) [of e] by (simp add: high_tag.simps [of _ "length pre"] byte_at_def)
next
  case (Cons d ds)
  have d: "d < 128" using Cons.prems(1) by simp
  have v: "v * 128 + d \<le> 16777215" using Cons.prems(4) foldl_ge [of "v * 128 + d" ds] by simp
  let ?bs = "pre @ map (\<lambda>d. of_nat (d + 128)) (d # ds) @ of_nat e # rest :: bytes"
  have step: "high_tag ?bs (length pre) (int v) (int maxi) = high_tag ?bs (length pre + 1) (int (v * 128 + d)) (int (maxi - 1))"
  proof (rule high_tag_step [OF _ octet_80(1) [OF d]])
    show "byte_at ?bs (length pre) = Some (of_nat (d + 128))" by (simp add: byte_at_def)
    show "push_bit 7 (int v) OR uint ((of_nat (d + 128) :: u8) AND 0x7f) = int (v * 128 + d)"
      unfolding octet_7F(1) [OF d] using d by (simp add: shift_in_septet)
    show "int maxi - 1 = int (maxi - 1)" "int (maxi - 1) \<noteq> 0" using Cons.prems(3) by auto
    show "int (v * 128 + d) \<le> drop_bit 7 INT_MAX" using v by (simp add: INT_MAX_def drop_bit_eq_div)
  qed
  have "high_tag ((pre @ [of_nat (d + 128)]) @ map (\<lambda>d. of_nat (d + 128)) ds @ of_nat e # rest)
      (length (pre @ [of_nat (d + 128) :: u8])) (int (v * 128 + d)) (int (maxi - 1))
    = Some (Some (length (pre @ [of_nat (d + 128) :: u8]) + length ds, int (foldl (\<lambda>a d. a * 128 + d) (v * 128 + d) ds),
        int (maxi - 1 - length ds)))"
    using Cons.prems by (intro Cons.IH) auto
  then show ?case using step by (simp del: of_nat_add)
qed

lemma high_tag_base128:
  assumes "n < 2 ^ 31" and "length (base128 n) \<le> maxi"
  shows "\<exists>p l m. high_tag (b # base128 n @ rest) 1 0 (int maxi) = Some (Some (p, l, m))
    \<and> push_bit 7 l OR uint ((b # base128 n @ rest) ! p AND 0x7f) = int n \<and> p = length (base128 n)
    \<and> m = int (maxi - (length (base128 n) - 1))"
proof -
  let ?ds = "digits 128 n"
  have ds: "?ds \<noteq> []" "\<forall>d \<in> set ?ds. d < 128" using digits_less [of 128] by auto
  have lst: "last ?ds < 128" using ds by simp
  have bl: "\<forall>d \<in> set (butlast ?ds). d < 128" using ds(2) by (auto dest: in_set_butlastD)
  let ?v = "foldl (\<lambda>a d. a * 128 + d) 0 (butlast ?ds)"
  have snoc: "foldl (\<lambda>a d. a * 128 + d) 0 xs = foldl (\<lambda>a d. a * 128 + d) 0 (butlast xs) * 128 + last xs"
    if "xs \<noteq> []" for xs :: "nat list" using that by (cases xs rule: rev_cases) simp_all
  have n: "?v * 128 + last ?ds = n"
    using snoc [OF ds(1)] digits_val_digits [of 128 n] by (simp add: digits_val_def)
  then have v: "?v \<le> 16777215" using assms(1) by simp
  have len: "length (base128 n) = Suc (length (butlast ?ds))" by (simp add: base128_def Let_def)
  have base: "b # base128 n @ rest = [b] @ map (\<lambda>d. of_nat (d + 128)) (butlast ?ds) @ of_nat (last ?ds) # rest"
    by (simp add: base128_def Let_def)
  have lm: "length (butlast ?ds) < maxi" using assms(2) len by linarith
  have h: "high_tag (b # base128 n @ rest) 1 0 (int maxi)
    = Some (Some (1 + length (butlast ?ds), int ?v, int (maxi - length (butlast ?ds))))"
    using high_tag_octets [OF bl lst lm v, of "[b]" rest] unfolding base by simp
  have "(b # base128 n @ rest) ! (1 + length (butlast ?ds)) = of_nat (last ?ds)"
    unfolding base by (simp add: nth_append)
  then have "push_bit 7 (int ?v) OR uint ((b # base128 n @ rest) ! (1 + length (butlast ?ds)) AND 0x7f) = int n"
    using lst octet_7F(2) [OF lst] n by (simp add: shift_in_septet flip: of_nat_add of_nat_mult)
  with h len show ?thesis by simp
qed

lemma read_be_loop: "p + i \<le> length bs \<Longrightarrow> read_be bs p i r = Some (be_loop r (take i (drop p bs)))"
proof (induction i arbitrary: p r)
  case (Suc i)
  then have "drop p bs = bs ! p # drop (Suc p) bs" by (simp add: Cons_nth_drop_Suc)
  with Suc show ?case by (simp add: byte_at_def be_loop_def)
qed (simp add: be_loop_def)

lemma get_length_der:
  assumes "int n \<le> INT_MAX div 2" and "length (der_length n) \<le> maxi"
  shows "asn1_get_length (pre @ der_length n @ rest) (length pre) (int maxi)
    = Some (Some (length pre + length (der_length n), int n))"
proof (cases "n < 128")
  case True
  then have u: "unat (of_nat n :: u8) = n" by (intro unat_of_nat_small) simp
  then have "(of_nat n :: u8) \<noteq> 0x80" using True by (auto simp: word_unat_eq_iff)
  moreover have "unat ((of_nat n :: u8) AND 0x7f) = n" using u True by (simp add: u8_and_7F)
  moreover have "unat (of_nat n :: u64) = n" using True by (intro u64_nat) simp
  then have "\<not> (of_nat n :: u64) > word_of_int (INT_MAX div 2)" using True by (simp only: INT_MAX_def word_less_nat_alt) simp
  moreover have "byte_at (pre @ der_length n @ rest) (length pre) = Some (of_nat n)"
    using True by (simp add: byte_at_def der_length_def)
  moreover have "\<not> int maxi < 1" "length (der_length n) = 1" using assms(2) True by (simp_all add: der_length_def)
  ultimately show ?thesis using octet_80(2) [OF True]
    by (simp only: asn1_get_length_def option.case Let_def if_False not_True_eq_False not_False_eq_True simp_thms)
next
  case False
  let ?k = "length (be_octets n)"
  have n: "n < 2 ^ 30" "n < 2 ^ 64" using assms(1) by (simp_all add: INT_MAX_def)
  have k: "?k \<le> 4" "0 < ?k" using digits_length [of 256 n 4] n by (simp_all add: length_be_octets)
  then have kb: "?k < 128" by simp
  have u: "unat (of_nat (?k + 128) :: u8) = ?k + 128" using k by (intro unat_of_nat_small) simp
  then have ne: "(of_nat (?k + 128) :: u8) \<noteq> 0x80" using k by (auto simp: word_unat_eq_iff simp del: of_nat_add)
  have i: "unat ((of_nat (?k + 128) :: u8) AND 0x7f) = ?k" by (simp only: unat_eq_nat_uint octet_7F(1) [OF kb] nat_int)
  have d: "der_length n = of_nat (?k + 128) # be_octets n" using False by (simp add: der_length_def add.commute)
  have "read_be (pre @ der_length n @ rest) (length pre + 1) ?k 0 = Some (be_loop 0 (be_octets n))"
    by (subst read_be_loop) (simp_all add: d del: of_nat_add)
  then have r: "read_be (pre @ der_length n @ rest) (length pre + 1) ?k 0 = Some (of_nat n)" by (simp only: be_loop_octets [OF n(2)])
  have "uint (of_nat n :: u64) = int n" using n by (simp add: uint_nat u64_nat)
  moreover have "\<not> (of_nat n :: u64) > word_of_int (INT_MAX div 2)"
    using assms(1) n by (simp add: INT_MAX_def word_less_nat_alt u64_nat)
  moreover have "byte_at (pre @ der_length n @ rest) (length pre) = Some (of_nat (?k + 128))"
    by (simp add: byte_at_def d del: of_nat_add)
  moreover have "\<not> int maxi < 1" "\<not> (8 < ?k \<or> int maxi - 1 < int ?k)" "length pre + 1 + ?k = length pre + length (der_length n)"
    using assms(2) k by (simp_all add: d del: of_nat_add)
  ultimately show ?thesis using r ne i octet_80(1) [OF kb]
    by (simp only: asn1_get_length_def option.case Let_def if_False if_True not_True_eq_False not_False_eq_True)
qed

lemma octet_masks: "(0x1f :: u8) = mask 5" "(0x20 :: u8) = push_bit 5 1" "(0xc0 :: u8) = push_bit 6 (mask 2)"
  by (simp_all add: mask_eq_exp_minus_1 push_bit_eq_mult)

lemma first_octet:
  assumes "low AND 0x1f = (low :: u8)" and "i AND 0x1f = 0"
  shows "(i OR low) AND 0x20 = i AND 0x20" "(i OR low) AND 0xc0 = i AND 0xc0" "(i OR low) AND 0x1f = low"
proof -
  have z: "(0x1f :: u8) AND 0x20 = 0" "(0x1f :: u8) AND 0xc0 = 0" by simp_all
  have l: "low AND 0x20 = 0" "low AND 0xc0 = 0"
    by (subst assms(1) [symmetric], simp only: and.assoc z and_zero_eq)+
  show "(i OR low) AND 0x20 = i AND 0x20" "(i OR low) AND 0xc0 = i AND 0xc0" "(i OR low) AND 0x1f = low"
    by (simp_all only: bit.conj_disj_distrib2 l assms or.right_neutral or.left_neutral)
qed

definition head_bits :: "int \<Rightarrow> u8 \<Rightarrow> u8" where
  "head_bits con xclass = (if con \<noteq> 0 then 0x20 else 0) OR (xclass AND 0xc0)"

lemma head_bits_masks:
  "head_bits con xclass AND 0x1f = 0" "head_bits con xclass AND 0x20 = (if con \<noteq> 0 then 0x20 else 0)"
  "head_bits con xclass AND 0xc0 = xclass AND 0xc0"
proof -
  have z: "(0xc0 :: u8) AND 0x1f = 0" "(0xc0 :: u8) AND 0x20 = 0" "(0x20 :: u8) AND 0x1f = 0" "(0x20 :: u8) AND 0xc0 = 0" by simp_all
  show "head_bits con xclass AND 0x1f = 0" "head_bits con xclass AND 0x20 = (if con \<noteq> 0 then 0x20 else 0)"
    "head_bits con xclass AND 0xc0 = xclass AND 0xc0"
    by (auto simp: head_bits_def bit.conj_disj_distrib2 and.assoc z)
qed

lemma small_octet: "tg \<le> 31 \<Longrightarrow> (of_nat tg :: u8) AND 0x1f = of_nat tg"
proof -
  assume "tg \<le> 31"
  then have "take_bit 5 (of_nat tg :: u8) = of_nat tg"
    by (simp add: word_unat_eq_iff unsigned_take_bit_eq take_bit_nat_eq_self_iff unat_of_nat_small)
  then show ?thesis by (simp add: take_bit_eq_mask mask_eq_exp_minus_1)
qed

lemma get_body_der:
  assumes "int n \<le> INT_MAX div 2" and "length pre + length (der_length n) + n \<le> omax"
    and "xclass = V_ASN1_UNIVERSAL \<longrightarrow> tag \<le> V_ASN1_MAX_UNIVERSAL"
  shows "get_body (pre @ der_length n @ rest) ret xclass tag (length pre) (int (omax - length pre)) (int omax)
    = Some \<lparr>oo_ret = ret, oo_pp = length pre + length (der_length n), oo_length = Some (int n), oo_tag = Some tag,
        oo_class = Some xclass, oo_error = None\<rparr>"
proof -
  have "asn1_get_length (pre @ der_length n @ rest) (length pre) (int (omax - length pre))
      = Some (Some (length pre + length (der_length n), int n))"
    using assms(1,2) by (intro get_length_der) simp_all
  with assms(2,3) show ?thesis by (auto simp: get_body_def)
qed

lemma get_object_low:
  assumes "omax \<noteq> 0" and "omax - 1 \<noteq> 0" and "b AND 0x1f \<noteq> 0x1f"
  shows "ASN1_get_object (b # bs) omax = get_body (b # bs) (b AND 0x20) (b AND 0xc0) (uint (b AND 0x1f)) 1 (omax - 1) omax"
  using assms by (simp add: ASN1_get_object_def byte_at_def V_ASN1_CONSTRUCTED_def V_ASN1_PRIVATE_def V_ASN1_PRIMITIVE_TAG_def Let_def)

lemma get_object_high:
  assumes "omax \<noteq> 0" and "omax - 1 \<noteq> 0" and "b AND 0x1f = 0x1f" and "high_tag (b # bs) 1 0 (omax - 1) = Some (Some (p, l, m))"
    and "m - 1 \<noteq> 0" and "push_bit 7 l OR uint ((b # bs) ! p AND 0x7f) = t"
  shows "ASN1_get_object (b # bs) omax = get_body (b # bs) (b AND 0x20) (b AND 0xc0) (to_int t) (p + 1) (m - 1) omax"
proof -
  have "byte_at (b # bs) 0 = Some b" by (simp add: byte_at_def)
  then show ?thesis unfolding ASN1_get_object_def V_ASN1_CONSTRUCTED_def V_ASN1_PRIVATE_def V_ASN1_PRIMITIVE_TAG_def
    using assms by (simp only: option.case prod.case Let_def if_False if_True simp_thms)
qed

lemma get_object_octets:
  assumes n: "int n \<le> INT_MAX div 2" and tg: "int tg \<le> INT_MAX"
    and room: "length (tag_octets (head_bits con xclass) tg) + length (der_length n) + n \<le> omax"
    and cls: "xclass AND 0xc0 = xclass" "xclass = V_ASN1_UNIVERSAL \<longrightarrow> int tg \<le> V_ASN1_MAX_UNIVERSAL"
  shows "ASN1_get_object (tag_octets (head_bits con xclass) tg @ der_length n @ rest) (int omax)
    = Some \<lparr>oo_ret = (if con \<noteq> 0 then V_ASN1_CONSTRUCTED else 0),
        oo_pp = length (tag_octets (head_bits con xclass) tg) + length (der_length n), oo_length = Some (int n),
        oo_tag = Some (int tg), oo_class = Some xclass, oo_error = None\<rparr>"
proof -
  let ?i = "head_bits con xclass"
  have dl: "1 \<le> length (der_length n)" by (simp add: der_length_def)
  note masks = V_ASN1_CONSTRUCTED_def V_ASN1_PRIVATE_def V_ASN1_PRIMITIVE_TAG_def
  show ?thesis
  proof (cases "tg < 31")
    case True
    let ?b = "?i OR of_nat tg"
    note f = first_octet [OF small_octet head_bits_masks(1), of tg con xclass]
    have o: "tag_octets ?i tg = [?b]" using True by (simp add: tag_octets_def)
    have u: "unat (of_nat tg :: u8) = tg" using True by (intro unat_of_nat_small) simp
    then have ne: "(of_nat tg :: u8) \<noteq> 0x1f" "uint (of_nat tg :: u8) = int tg" using True by (auto simp: uint_nat word_unat_eq_iff)
    have om: "int omax \<noteq> 0" "int omax - 1 \<noteq> 0" "int omax - 1 = int (omax - 1)" using room dl o by auto
    have "get_body ([?b] @ der_length n @ rest) (if con \<noteq> 0 then 0x20 else 0) xclass (int tg) (length [?b]) (int (omax - length [?b])) (int omax)
      = Some \<lparr>oo_ret = (if con \<noteq> 0 then 0x20 else 0), oo_pp = length [?b] + length (der_length n), oo_length = Some (int n),
        oo_tag = Some (int tg), oo_class = Some xclass, oo_error = None\<rparr>"
      by (rule get_body_der [OF n _ cls(2)]) (use room o in simp)
    moreover have "?b AND 0x1f = of_nat tg" "?b AND 0x20 = (if con \<noteq> 0 then 0x20 else 0)" "?b AND 0xc0 = xclass"
      using f True head_bits_masks [of con xclass] cls(1) by simp_all
    moreover from this have "ASN1_get_object (?b # der_length n @ rest) (int omax)
        = get_body (?b # der_length n @ rest) (?b AND 0x20) (?b AND 0xc0) (uint (?b AND 0x1f)) 1 (int omax - 1) (int omax)"
      using ne by (intro get_object_low om(1,2)) simp
    ultimately show ?thesis using ne(2) om(3) by (simp only: o masks append_Cons append_Nil list.size One_nat_def add_0)
  next
    case False
    let ?b = "?i OR 0x1f" and ?pre = "(?i OR 0x1f) # base128 tg"
    have o: "tag_octets ?i tg = ?pre" using False by (simp add: tag_octets_def)
    have f: "?b AND 0x20 = ?i AND 0x20" "?b AND 0xc0 = ?i AND 0xc0" "?b AND 0x1f = 0x1f"
      by (rule first_octet [OF _ head_bits_masks(1)], simp)+
    have lb: "1 \<le> length (base128 tg)"
      using digits_nonempty [of 128 tg] by (cases "digits 128 tg") (simp_all add: base128_def Let_def)
    have om: "int omax \<noteq> 0" "int omax - 1 \<noteq> 0" "int omax - 1 = int (omax - 1)" using room dl o lb by auto
    have t: "tg < 2 ^ 31" using tg by (simp add: INT_MAX_def)
    have le: "length (base128 tg) \<le> omax - 1" using room unfolding o by simp
    obtain p l m where h: "high_tag (?b # base128 tg @ der_length n @ rest) 1 0 (int (omax - 1)) = Some (Some (p, l, m))"
      "push_bit 7 l OR uint ((?b # base128 tg @ der_length n @ rest) ! p AND 0x7f) = int tg" "p = length (base128 tg)"
      "m = int (omax - 1 - (length (base128 tg) - 1))"
      using high_tag_base128 [OF t le, of ?b "der_length n @ rest"] by blast
    have m: "m - 1 = int (omax - length ?pre)" "m - 1 \<noteq> 0" using room o lb dl h(4) by auto
    have ti: "to_int (int tg) = int tg" using tg by (intro to_int_id) (simp_all add: INT_MAX_def)
    have "get_body (?pre @ der_length n @ rest) (if con \<noteq> 0 then 0x20 else 0) xclass (int tg) (length ?pre) (int (omax - length ?pre)) (int omax)
      = Some \<lparr>oo_ret = (if con \<noteq> 0 then 0x20 else 0), oo_pp = length ?pre + length (der_length n), oo_length = Some (int n),
        oo_tag = Some (int tg), oo_class = Some xclass, oo_error = None\<rparr>"
      by (rule get_body_der [OF n _ cls(2)]) (use room o in simp)
    moreover have q: "?b AND 0x20 = (if con \<noteq> 0 then 0x20 else 0)" "?b AND 0xc0 = xclass"
      using f head_bits_masks [of con xclass] cls(1) by simp_all
    have pl: "p + 1 = length ?pre" by (simp add: h(3))
    have "ASN1_get_object (?b # base128 tg @ der_length n @ rest) (int omax)
        = get_body (?b # base128 tg @ der_length n @ rest) (?b AND 0x20) (?b AND 0xc0) (to_int (int tg)) (p + 1) (m - 1) (int omax)"
      by (rule get_object_high [OF om(1,2) f(3) _ m(2) h(2)]) (simp only: om(3) h(1))
    note this [unfolded q ti pl m(1)]
    ultimately show ?thesis unfolding o masks append_Cons by (rule trans [rotated])
  qed
qed

section \<open>The same header as the builder's\<close>

lemma tag_octets_der: "tag_octets (tag_bits t) (unat (tag_number t)) = der_tag t"
  by (simp add: tag_octets_def der_tag_def)

lemma single_bit_and: "x AND push_bit k 1 = (if bit x k then push_bit k 1 else 0)" for x :: "'a::len word"
  by (rule bit_word_eqI) (auto simp: bit_simps)

lemma head_bits_of_tag:
  "head_bits (if t AND 0x20000000 = 0 then 0 else 1) (ucast (drop_bit 24 t)) = tag_bits t" for t :: u32
proof -
  let ?x = "ucast (drop_bit 24 t) :: u8"
  have m: "(0x20000000 :: u32) = push_bit 29 1" by (simp add: push_bit_eq_mult)
  have "t AND 0x20000000 = 0 \<longleftrightarrow> \<not> bit t 29" unfolding m by (simp only: bit_iff_and_push_bit_not_eq_0 not_not)
  also have "bit t 29 \<longleftrightarrow> bit ?x 5" by (simp add: bit_simps)
  also have "\<not> bit ?x 5 \<longleftrightarrow> ?x AND 0x20 = 0" unfolding octet_masks by (simp only: bit_iff_and_push_bit_not_eq_0 not_not)
  finally have c: "t AND 0x20000000 = 0 \<longleftrightarrow> ?x AND 0x20 = 0" .
  have one: "?x AND 0x20 = (if ?x AND 0x20 = 0 then 0 else 0x20)"
    unfolding octet_masks by (simp only: single_bit_and split: if_splits) auto
  have "tag_bits t = ?x AND (0x20 OR 0xc0)" by (simp add: tag_bits_def)
  also have "\<dots> = (?x AND 0x20) OR (?x AND 0xc0)" by (simp only: bit.conj_disj_distrib)
  finally show ?thesis unfolding head_bits_def c using one by (auto split: if_splits)
qed

lemma put_object_der_header:
  assumes "n < 2 ^ 31"
  shows "ASN1_put_object (if t AND 0x20000000 = 0 then 0 else 1) (int n) (int (unat (tag_number t))) (ucast (drop_bit 24 t))
    = der_header t n"
proof -
  have "ASN1_put_object con (int n) (int (unat (tag_number t))) (ucast (drop_bit 24 t))
      = tag_octets (head_bits con (ucast (drop_bit 24 t))) (unat (tag_number t)) @ der_length n" if "con \<noteq> 2" for con
    unfolding head_bits_def by (rule put_object_octets [OF that assms])
  then show ?thesis using head_bits_of_tag [of t] tag_octets_der [of t] by (auto simp: der_header_def)
qed

section \<open>Reads stay in bounds\<close>

lemma high_tag_bounds:
  "0 < m \<Longrightarrow> int p + m \<le> int (length bs) \<Longrightarrow> 0 \<le> l \<Longrightarrow> l \<le> drop_bit 7 INT_MAX \<Longrightarrow>
     case high_tag bs p l m of
       None \<Rightarrow> False
     | Some None \<Rightarrow> True
     | Some (Some (p', l', m')) \<Rightarrow> 0 < m' \<and> int p' + m' = int p + m \<and> 0 \<le> l' \<and> l' \<le> drop_bit 7 INT_MAX"
proof (induction bs p l m rule: high_tag.induct)
  case (1 bs p l m)
  have b: "byte_at bs p = Some (bs ! p)" using "1.prems" by (simp add: byte_at_def)
  let ?l = "push_bit 7 l OR uint (bs ! p AND 0x7f)"
  have nn: "0 \<le> ?l" using "1.prems"(3) by (simp add: push_bit_eq_mult)
  show ?case
  proof (cases "bs ! p AND 0x80 \<noteq> 0 \<and> m - 1 \<noteq> 0 \<and> ?l \<le> drop_bit 7 INT_MAX")
    case True
    then have e: "high_tag bs p l m = high_tag bs (p + 1) ?l (m - 1)" by (intro high_tag_step [OF b]) auto
    have "case high_tag bs (p + 1) ?l (m - 1) of None \<Rightarrow> False | Some None \<Rightarrow> True
      | Some (Some (p', l', m')) \<Rightarrow> 0 < m' \<and> int p' + m' = int (p + 1) + (m - 1) \<and> 0 \<le> l' \<and> l' \<le> drop_bit 7 INT_MAX"
      by (rule "1.IH" [OF b _ refl refl]) (use True "1.prems" nn in auto)
    then show ?thesis unfolding e by (auto split: option.splits)
  next
    case False
    then show ?thesis using "1.prems" by (subst high_tag.simps) (auto simp: b Let_def)
  qed
qed

lemma get_length_bounds:
  assumes "int p + m \<le> int (length bs)"
  shows "case asn1_get_length bs p m of
      None \<Rightarrow> False
    | Some None \<Rightarrow> True
    | Some (Some (p', len)) \<Rightarrow> 0 \<le> len \<and> len \<le> INT_MAX div 2 \<and> p < p' \<and> int p' \<le> int p + m"
proof (cases "m < 1")
  case True
  then show ?thesis by (simp add: asn1_get_length_def)
next
  case False
  have b: "byte_at bs p = Some (bs ! p)" using assms False by (simp add: byte_at_def)
  let ?i = "unat (bs ! p AND 0x7f)"
  have i: "?i < 128" by (simp add: u8_and_7F)
  have u: "unat (word_of_int (INT_MAX div 2) :: u64) = 1073741823" by (simp add: INT_MAX_def)
  have le: "uint w \<le> INT_MAX div 2" if "\<not> word_of_int (INT_MAX div 2) < w" for w :: u64
  proof -
    have "unat w \<le> 1073741823" using that unfolding word_less_nat_alt u by simp
    then have "int (unat w) \<le> 1073741823" by linarith
    then show ?thesis by (simp add: INT_MAX_def)
  qed
  show ?thesis
  proof (cases "bs ! p AND 0x80 \<noteq> 0 \<and> \<not> (?i > 8 \<or> m - 1 < int ?i)")
    case long: True
    then have "p + 1 + ?i \<le> length bs" using assms by linarith
    then obtain r where r: "read_be bs (p + 1) ?i 0 = Some r" using read_be_loop by blast
    show ?thesis
    proof (cases "bs ! p = 0x80 \<or> word_of_int (INT_MAX div 2) < r")
      case True
      then have "asn1_get_length bs p m = Some None"
        using long b False r by (simp only: asn1_get_length_def Let_def option.case if_True if_False simp_thms) auto
      then show ?thesis by simp
    next
      case ok: False
      then have "bs ! p \<noteq> 0x80" "\<not> word_of_int (INT_MAX div 2) < r" by simp_all
      then have "asn1_get_length bs p m = Some (Some (p + 1 + ?i, uint r))"
        using long b False r by (simp only: asn1_get_length_def Let_def option.case if_True if_False simp_thms)
      moreover have "int (p + 1 + ?i) \<le> int p + m" using long by linarith
      ultimately show ?thesis using le [of r] ok by simp
    qed
  next
    case short: False
    have "uint (bs ! p AND 0x7f) \<le> 1073741823"
    proof -
      have "uint (bs ! p AND 0x7f) = int ?i" by simp
      with i show ?thesis by linarith
    qed
    with short show ?thesis using b False i by (auto simp: asn1_get_length_def Let_def INT_MAX_def)
  qed
qed

text \<open>What a result says: an element within the limit, unless it is an error.\<close>

definition within :: "int \<Rightarrow> object_out option \<Rightarrow> bool" where
  "within omax r \<longleftrightarrow> (\<exists>out. r = Some out \<and> (oo_error out = None \<longrightarrow>
     (\<exists>len. oo_length out = Some len \<and> 0 \<le> len \<and> len \<le> INT_MAX div 2
        \<and> 0 < oo_pp out \<and> int (oo_pp out) + len \<le> omax)))"

lemma within_failed: "within omax (get_failed t c)"
  by (simp add: within_def get_failed_def)

lemma get_body_within: "int p + m \<le> int (length bs) \<Longrightarrow> within omax (get_body bs ret xclass tag p m omax)"
  using get_length_bounds [of p m bs] by (auto simp: get_body_def get_failed_def within_def split: option.splits)

lemma get_object_within:
  assumes "0 \<le> omax" and "omax \<le> int (length bs)"
  shows "within omax (ASN1_get_object bs omax)"
proof (cases "omax = 0 \<or> omax - 1 = 0")
  case True
  then show ?thesis using assms within_failed by (cases bs) (auto simp: ASN1_get_object_def byte_at_def Let_def)
next
  case False
  then obtain b bs' where bs: "bs = b # bs'" using assms by (cases bs) auto
  show ?thesis
  proof (cases "b AND 0x1f = 0x1f")
    case low: False
    then show ?thesis using get_object_low [of omax b bs'] get_body_within [of 1 "omax - 1" bs] False assms(2) bs by simp
  next
    case high: True
    have "0 < omax - 1" "int 1 + (omax - 1) \<le> int (length bs)" using assms False by auto
    from high_tag_bounds [OF this, of 0]
    have h: "case high_tag bs 1 0 (omax - 1) of None \<Rightarrow> False | Some None \<Rightarrow> True
      | Some (Some (p, l, m)) \<Rightarrow> 0 < m \<and> int p + m = int 1 + (omax - 1) \<and> 0 \<le> l \<and> l \<le> drop_bit 7 INT_MAX"
      by (simp add: INT_MAX_def drop_bit_eq_div)
    have b0: "byte_at bs 0 = Some b" by (simp add: byte_at_def bs)
    note def = ASN1_get_object_def V_ASN1_CONSTRUCTED_def V_ASN1_PRIVATE_def V_ASN1_PRIMITIVE_TAG_def
    show ?thesis
    proof (cases "\<exists>p l m. high_tag bs 1 0 (omax - 1) = Some (Some (p, l, m)) \<and> m - 1 \<noteq> 0")
      case True
      then obtain p l m where t: "high_tag bs 1 0 (omax - 1) = Some (Some (p, l, m))" "m - 1 \<noteq> 0" by blast
      then have "int (p + 1) + (m - 1) \<le> int (length bs)" using h assms(2) by simp
      then show ?thesis using get_object_high [of omax b bs' p l m] get_body_within [of "p + 1" "m - 1" bs] high False t bs by simp
    next
      case none: False
      then show ?thesis using h high False b0 within_failed by (auto simp: def Let_def split: option.splits)
    qed
  qed
qed

section \<open>Properties\<close>

text \<open>
  C38. The header that \<open>ASN1_put_object\<close> writes for a primitive or constructed element is read back by
  \<open>ASN1_get_object\<close>, with the tag, the class and the length, when the element lies within the limit, and
  \<open>ASN1_object_size\<close> is its size. The tag is any \<open>int\<close> that is not negative, up to 255 in the universal class, and the
  length at most half of \<open>INT_MAX\<close>.
\<close>

theorem ASN1_put_get_object:
  assumes "0 \<le> tag" and "tag \<le> INT_MAX" and "0 \<le> len" and "len \<le> INT_MAX div 2" and "con = 0 \<or> con = 1"
    and "xclass AND V_ASN1_PRIVATE = xclass" and "xclass = V_ASN1_UNIVERSAL \<longrightarrow> tag \<le> V_ASN1_MAX_UNIVERSAL"
    and "hdr = ASN1_put_object con len tag xclass" and "int (length hdr) + len \<le> omax"
  shows "ASN1_get_object (hdr @ rest) omax
      = Some \<lparr>oo_ret = (if con = 1 then V_ASN1_CONSTRUCTED else 0), oo_pp = length hdr, oo_length = Some len,
              oo_tag = Some tag, oo_class = Some xclass, oo_error = None\<rparr>
    \<and> ASN1_object_size con len tag = int (length hdr) + len"
proof -
  obtain n tg where n: "len = int n" "tag = int tg" using assms(1,3) zero_le_imp_eq_int by blast
  have n31: "n < 2 ^ 31" using assms(4) n by (simp add: INT_MAX_def)
  have hdr: "hdr = tag_octets (head_bits con xclass) tg @ der_length n"
    using put_object_octets [of con n tg xclass] assms(5,8) n n31 by (auto simp: head_bits_def)
  obtain om where om: "omax = int om" using assms(3,9) zero_le_imp_eq_int [of omax] by auto
  have "ASN1_get_object (tag_octets (head_bits con xclass) tg @ der_length n @ rest) (int om)
    = Some \<lparr>oo_ret = (if con \<noteq> 0 then V_ASN1_CONSTRUCTED else 0),
        oo_pp = length (tag_octets (head_bits con xclass) tg) + length (der_length n), oo_length = Some (int n),
        oo_tag = Some (int tg), oo_class = Some xclass, oo_error = None\<rparr>"
  proof (rule get_object_octets)
    have "length hdr = length (tag_octets (head_bits con xclass) tg) + length (der_length n)" by (simp add: hdr)
    then show "length (tag_octets (head_bits con xclass) tg) + length (der_length n) + n \<le> om"
      using assms(9) n om by linarith
  qed (use assms n in \<open>simp_all add: V_ASN1_PRIVATE_def\<close>)
  moreover have "ASN1_object_size con len tag = int (length hdr) + len"
  proof -
    have tl: "length (tag_octets (head_bits con xclass) tg) = 1 + (if 31 \<le> tg then shifts 7 (int tg) else 0)"
      using shifts_digits [of 7 tg] by (simp add: tag_octets_def base128_def Let_def)
    have ll: "length (der_length n) = 1 + (if 127 < n then shifts 8 (int n) else 0)"
      using shifts_digits [of 8 n] by (simp add: der_length_def length_be_octets)
    have "length (digits 128 tg) \<le> 5" using digits_length [of 128 tg 5] assms(2) n(2) by (simp add: INT_MAX_def)
    then have "length (tag_octets (head_bits con xclass) tg) \<le> 6" unfolding tl using shifts_digits [of 7 tg] by auto
    moreover have "length (digits 256 n) \<le> 4" using digits_length [of 256 n 4] n31 by simp
    then have "length (der_length n) \<le> 5" unfolding ll using shifts_digits [of 8 n] by auto
    ultimately have "int (length hdr) < INT_MAX - len" using assms(4) hdr by (simp add: INT_MAX_def)
    moreover have "con \<noteq> 2" using assms(5) by auto
    ultimately show ?thesis using hdr tl ll n
      by (cases "31 \<le> tg"; cases "127 < n"; simp add: ASN1_object_size_def Let_def)
  qed
  ultimately show ?thesis using assms(5) n hdr om by auto
qed

theorem ASN1_put_get_object_witness:
  "ASN1_put_object 1 300 1000 0x80 = [0xbf, 0x87, 0x68, 0x82, 0x01, 0x2c]
   \<and> ASN1_get_object (ASN1_put_object 1 300 1000 0x80 @ replicate 300 0) 306
     = Some \<lparr>oo_ret = V_ASN1_CONSTRUCTED, oo_pp = 6, oo_length = Some 300, oo_tag = Some 1000, oo_class = Some 0x80, oo_error = None\<rparr>"
proof -
  have e: "ASN1_put_object 1 300 1000 0x80 = [0xbf, 0x87, 0x68, 0x82, 0x01, 0x2c]"
    using put_object_octets [of 1 300 1000 "0x80"]
    by (simp add: tag_octets_def base128_def der_length_def be_octets_def digits.simps [of 128 1000] digits.simps [of 128 7]
        digits.simps [of 256 300] digits.simps [of 256 "Suc 0"])
  show ?thesis
    using ASN1_put_get_object [of 1000 300 1 "0x80" _ 306 "replicate 300 0", OF _ _ _ _ _ _ _ refl]
    by (simp add: e INT_MAX_def V_ASN1_PRIVATE_def V_ASN1_UNIVERSAL_def)
qed

text \<open>
  C39. \<open>ASN1_get_object\<close> reads no further than its limit allows, whatever the bytes are: it always has a result, and
  when it succeeds, the header and the element lie within the limit and the length is at most half of \<open>INT_MAX\<close>.
\<close>

theorem ASN1_get_object_in_bounds:
  assumes "0 \<le> omax" and "omax \<le> int (length bs)"
  shows "\<exists>out. ASN1_get_object bs omax = Some out
    \<and> (oo_error out = None \<longrightarrow> (\<exists>len. oo_length out = Some len \<and> 0 \<le> len \<and> len \<le> INT_MAX div 2
         \<and> 0 < oo_pp out \<and> int (oo_pp out) + len \<le> omax))"
  using get_object_within [OF assms] by (simp add: within_def)

theorem ASN1_get_object_in_bounds_witness:
  "(\<exists>out. ASN1_get_object [0x1f, 0x80, 0x80, 0x80] 4 = Some out)
   \<and> (\<exists>out len. ASN1_get_object [0x04, 0x01, 0xaa] 3 = Some out \<and> oo_length out = Some len \<and> int (oo_pp out) + len \<le> 3)"
proof -
  have "\<exists>out. ASN1_get_object [0x1f, 0x80, 0x80, 0x80] 4 = Some out"
    using ASN1_get_object_in_bounds [of 4 "[0x1f, 0x80, 0x80, 0x80]"] by auto
  moreover obtain out where o: "ASN1_get_object [0x04, 0x01, 0xaa] 3 = Some out"
      "oo_error out = None \<longrightarrow> (\<exists>len. oo_length out = Some len \<and> 0 \<le> len \<and> len \<le> INT_MAX div 2
         \<and> 0 < oo_pp out \<and> int (oo_pp out) + len \<le> 3)"
    using ASN1_get_object_in_bounds [of 3 "[0x04, 0x01, 0xaa]"] by auto
  moreover have "oo_error out = None"
    using get_object_octets [of 1 4 0 0 3 "[0xaa]"] o(1)
    by (auto simp: tag_octets_def head_bits_def der_length_def INT_MAX_def V_ASN1_MAX_UNIVERSAL_def)
  ultimately show ?thesis by blast
qed

end
