(* ===== verification/Asn1Integer.thy ===== *)
theory Asn1Integer
  imports Asn1String
begin

text \<open>
  INTEGER and ENUMERATED objects (crypto/asn1/a_int.c, a_enum.c): a big-endian magnitude in an
  \<open>ASN1_STRING\<close> whose type holds the sign, its conversion from and to two's complement contents
  octets, and from and to \<open>long\<close>. The conversions from and to \<open>BIGNUM\<close> are not modelled.
\<close>

section \<open>The code\<close>

definition V_ASN1_NEG :: int where "V_ASN1_NEG = 0x100"
definition V_ASN1_NEG_INTEGER :: int where "V_ASN1_NEG_INTEGER = 0x102"
definition V_ASN1_ENUMERATED :: int where "V_ASN1_ENUMERATED = 10"
definition V_ASN1_NEG_ENUMERATED :: int where "V_ASN1_NEG_ENUMERATED = 0x10A"
definition LONG_MAX :: int where "LONG_MAX = 2 ^ 63 - 1"

definition ASN1_INTEGER_cmp :: "asn1_string \<Rightarrow> asn1_string \<Rightarrow> int" where
  "ASN1_INTEGER_cmp x y =
     (let neg = as_type x AND V_ASN1_NEG in
      if neg \<noteq> as_type y AND V_ASN1_NEG then (if neg \<noteq> 0 then - 1 else 1)
      else (let ret = ASN1_STRING_cmp x y in if neg \<noteq> 0 then - ret else ret))"

text \<open>
  The loops that write a negative number, from its last byte on: zeros are kept, the first other
  byte is complemented and incremented, the rest complemented.
\<close>

fun i2c_negate :: "bytes \<Rightarrow> bytes" where
  "i2c_negate [] = []"
| "i2c_negate (n # ns) =
     (if n = 0 \<and> ns \<noteq> [] then 0 # i2c_negate ns else ((n XOR 0xff) + 1) # map (\<lambda>b. b XOR 0xff) ns)"

definition i2c_ASN1_INTEGER :: "asn1_string \<Rightarrow> bytes" where
  "i2c_ASN1_INTEGER a =
     (let neg = (as_type a AND V_ASN1_NEG \<noteq> 0); d = contents_of a in
      if d = [] then [0]
      else
        (let i = d ! 0;
             neg = (if length d = 1 \<and> i = 0 then False else neg);
             pad = (if \<not> neg \<and> i > 127 then [0]
                    else if neg then
                      (if i > 128 then [0xFF]
                       else if i = 128 then (if list_ex (\<lambda>b. b \<noteq> 0) (drop 1 d) then [0xFF] else [])
                       else [])
                    else [])
         in pad @ (if \<not> neg then d else rev (i2c_negate (rev d)))))"

text \<open>
  The loops that read one, again from the last byte on; the flag says that all bytes were zero,
  in which case one more zero is appended and the first byte set to 1.
\<close>

fun c2i_negate :: "bytes \<Rightarrow> bytes \<times> bool" where
  "c2i_negate [] = ([], True)"
| "c2i_negate (p # ps) =
     (if p = 0 then apfst ((#) 0) (c2i_negate ps) else (((p XOR 0xff) + 1) # map (\<lambda>b. b XOR 0xff) ps, False))"

definition c2i_ASN1_INTEGER ::
  "allocator \<Rightarrow> asn1_string option \<Rightarrow> bytes \<Rightarrow> int \<Rightarrow> (asn1_error + asn1_string) \<times> asn1_string option" where
  "c2i_ASN1_INTEGER al a p len =
     (if len < 0 \<or> len > INT_MAX div 2 then (Inl ASN1_R_TOO_LONG, a)
      else
        (case (case a of None \<Rightarrow> ASN1_STRING_type_new al V_ASN1_INTEGER | Some ret \<Rightarrow> Some ret) of
           None \<Rightarrow> (Inl ERR_MALLOC_FAILURE, a)
         | Some ret \<Rightarrow>
             (case al (word_of_int (len + 1)) of
                None \<Rightarrow> (Inl ERR_MALLOC_FAILURE, a)
              | Some s \<Rightarrow>
                  (let p = take (nat len) p;
                       (ty, d) =
                         (if len = 0 then (V_ASN1_INTEGER, [])
                          else if p ! 0 AND 0x80 \<noteq> 0 then
                            (let p = (if p ! 0 = 0xff \<and> len \<noteq> 1 then drop 1 p else p) in
                             case c2i_negate (rev p) of
                               (to, True) \<Rightarrow> (V_ASN1_NEG_INTEGER, (rev to)[0 := 1] @ [0])
                             | (to, False) \<Rightarrow> (V_ASN1_NEG_INTEGER, rev to))
                          else (V_ASN1_INTEGER, if p ! 0 = 0 \<and> len \<noteq> 1 then drop 1 p else p));
                       ret = ret\<lparr>as_type := ty, as_data := Some (store_bytes s 0 d), as_length := int (length d)\<rparr>
                   in (Inr ret, Some ret)))))"

definition ASN1_INTEGER_set_uint64 :: "allocator \<Rightarrow> asn1_string \<Rightarrow> u64 \<Rightarrow> bool \<times> asn1_string" where
  "ASN1_INTEGER_set_uint64 al out v =
     (case al 8 of
        None \<Rightarrow> (False, out)
      | Some _ \<Rightarrow>
          (let d = le_bytes 8 (CRYPTO_bswap8 v);
               leading_zeros = length (takeWhile (\<lambda>b. b = 0) (take 7 d))
           in (True, out\<lparr>as_data := Some (store_bytes d 0 (drop leading_zeros d)), as_type := V_ASN1_INTEGER,
                         as_length := int (8 - leading_zeros)\<rparr>)))"

definition ASN1_INTEGER_set :: "allocator \<Rightarrow> asn1_string \<Rightarrow> int \<Rightarrow> bool \<times> asn1_string" where
  "ASN1_INTEGER_set al a v =
     (if v \<ge> 0 then ASN1_INTEGER_set_uint64 al a (word_of_int v)
      else
        (case ASN1_INTEGER_set_uint64 al a (0 - word_of_int v) of
           (False, a) \<Rightarrow> (False, a)
         | (True, a) \<Rightarrow> (True, a\<lparr>as_type := V_ASN1_NEG_INTEGER\<rparr>)))"

text \<open>\<open>ASN1_INTEGER_get\<close> and \<open>ASN1_ENUMERATED_get\<close> are one function but for the types.\<close>

definition long_of_string :: "int \<Rightarrow> int \<Rightarrow> asn1_string option \<Rightarrow> int" where
  "long_of_string pos_type neg_type a =
     (case a of
        None \<Rightarrow> 0
      | Some a \<Rightarrow>
          if as_type a \<noteq> neg_type \<and> as_type a \<noteq> pos_type then - 1
          else if as_length a > 8 then - 1
          else
            (let r64 = (case as_data a of None \<Rightarrow> 0 | Some d \<Rightarrow> be_loop 0 (take (nat (as_length a)) d)) in
             if uint r64 > LONG_MAX then - 1
             else if as_type a = neg_type then - uint r64 else uint r64))"

definition ASN1_INTEGER_get :: "asn1_string option \<Rightarrow> int" where
  "ASN1_INTEGER_get = long_of_string V_ASN1_INTEGER V_ASN1_NEG_INTEGER"

definition ASN1_ENUMERATED_get :: "asn1_string option \<Rightarrow> int" where
  "ASN1_ENUMERATED_get = long_of_string V_ASN1_ENUMERATED V_ASN1_NEG_ENUMERATED"

text \<open>The loop over \<open>d\<close>, with the bytes in the order they are stored in \<open>buf\<close>.\<close>

fun enumerated_digits :: "nat \<Rightarrow> int \<Rightarrow> bytes" where
  "enumerated_digits 0 d = []"
| "enumerated_digits (Suc i) d = (if d = 0 then [] else word_of_int d # enumerated_digits i (d div 256))"

definition ASN1_ENUMERATED_set :: "allocator \<Rightarrow> asn1_string \<Rightarrow> int \<Rightarrow> bool \<times> asn1_string" where
  "ASN1_ENUMERATED_set al a v =
     (let a = a\<lparr>as_type := V_ASN1_ENUMERATED\<rparr>;
          a = (if as_length a < 9 then a\<lparr>as_data := map_option (\<lambda>_. replicate 9 0) (al 9)\<rparr> else a)
      in case as_data a of
           None \<Rightarrow> (False, a)
         | Some data \<Rightarrow>
             (let a = (if v < 0 then a\<lparr>as_type := V_ASN1_NEG_ENUMERATED\<rparr> else a);
                  buf = enumerated_digits 8 \<bar>v\<bar>
              in (True, a\<lparr>as_data := Some (store_bytes data 0 (rev buf)), as_length := int (length buf)\<rparr>)))"

section \<open>Two's complement\<close>

definition twos_val :: "bytes \<Rightarrow> int" where
  "twos_val bs = (if bs \<noteq> [] \<and> 128 \<le> unat (hd bs) then int (be_val bs) - 256 ^ length bs else int (be_val bs))"

lemma be_val_split: "be_val (xs @ ys) = be_val xs * 256 ^ length ys + be_val ys"
  by (induction xs) (simp_all add: power_add algebra_simps)

lemma hd_ge: "bs \<noteq> [] \<Longrightarrow> k \<le> unat (hd bs) \<longleftrightarrow> k * 256 ^ (length bs - 1) \<le> be_val bs"
proof -
  assume "bs \<noteq> []"
  then obtain b ds where b: "bs = b # ds" by (cases bs) auto
  define P :: nat where "P = 256 ^ length ds"
  have r: "be_val ds < P" unfolding P_def by (rule be_val_less)
  have v: "be_val bs = unat b * P + be_val ds" by (simp add: b P_def)
  show ?thesis
  proof
    assume "k \<le> unat (hd bs)"
    then have "k * P \<le> unat b * P + be_val ds" by (simp add: b trans_le_add1)
    then show "k * 256 ^ (length bs - 1) \<le> be_val bs" by (simp only: v) (simp add: b P_def)
  next
    assume "k * 256 ^ (length bs - 1) \<le> be_val bs"
    then have "k * P \<le> unat b * P + be_val ds" by (simp add: v) (simp add: b P_def)
    with r have "k * P < (unat b + 1) * P" by simp
    then have "k < unat b + 1" by (simp only: mult_less_cancel2)
    then show "k \<le> unat (hd bs)" by (simp add: b)
  qed
qed

lemma twos_val_alt: "twos_val bs = (if 256 ^ length bs \<le> 2 * be_val bs \<and> bs \<noteq> [] then int (be_val bs) - 256 ^ length bs else int (be_val bs))"
proof (cases "bs = []")
  case False
  then have "(256 :: nat) ^ length bs = 2 * (128 * 256 ^ (length bs - 1))" by (cases bs) simp_all
  then show ?thesis using hd_ge [OF False, of 128] False by (simp add: twos_val_def)
qed (simp add: twos_val_def)

lemma be_val_0: "be_val bs = 0 \<longleftrightarrow> list_all (\<lambda>b. b = 0) bs"
  by (induction bs) (auto simp: unat_eq_0)

lemma xor_ff: "b XOR 0xff = NOT b" for b :: u8
proof -
  have ff: "(0xff :: u8) = mask 8" by (simp add: mask_eq_exp_minus_1)
  show ?thesis unfolding ff by (rule bit_word_eqI) (auto simp: bit_simps)
qed

text \<open>The value of bytes from the last one on.\<close>

lemma unat_negate: "b \<noteq> 0 \<Longrightarrow> unat (NOT b + 1 :: u8) = 256 - unat b"
proof -
  assume "b \<noteq> 0"
  then have "0 < unat b" by (simp add: unat_gt_0)
  then show ?thesis using u8_bound [of b] by (simp add: unat_plus_if' unat_NOT8)
qed

lemma be_val_NOT': "be_val (map NOT bs) = 256 ^ length bs - 1 - be_val bs"
  using be_val_NOT [of bs] by simp

lemma negate_value:
  assumes "n # ns = rev bs" "n \<noteq> 0"
  shows "be_val (rev (((n XOR 0xff) + 1) # map (\<lambda>b. b XOR 0xff) ns)) = 256 ^ length bs - be_val bs"
proof -
  have bs: "bs = rev ns @ [n]" using assms(1) by (metis rev.simps(2) rev_rev_ident)
  have "be_val (rev ns) < 256 ^ length ns" using be_val_less [of "rev ns"] by simp
  moreover have "be_val (rev (map NOT ns)) = 256 ^ length ns - 1 - be_val (rev ns)"
    using be_val_NOT' [of "rev ns"] by (simp add: rev_map)
  moreover have "unat n < 256" "0 < unat n" using assms(2) u8_bound by (simp_all add: unat_gt_0)
  ultimately show ?thesis
    using unat_negate [OF assms(2)] by (simp add: bs xor_ff algebra_simps)
qed

lemma i2c_negate_value:
  "length (i2c_negate xs) = length xs \<and> (xs \<noteq> [] \<longrightarrow>
     be_val (rev (i2c_negate xs)) = (if be_val (rev xs) = 0 then 0 else 256 ^ length xs - be_val (rev xs)))"
proof (induction xs)
  case (Cons n ns)
  show ?case
  proof (cases "n = 0 \<and> ns \<noteq> []")
    case True
    with Cons.IH show ?thesis by (simp add: diff_mult_distrib2 mult.commute)
  next
    case False
    show ?thesis
    proof (cases "n = 0")
      case True
      then have "ns = []" using False by simp
      then show ?thesis using True by (simp add: xor_ff)
    next
      case n: False
      then have "be_val (rev (n # ns)) \<noteq> 0" by (simp add: unat_eq_0)
      moreover have "be_val (rev (((n XOR 0xff) + 1) # map (\<lambda>b. b XOR 0xff) ns)) = 256 ^ length (n # ns) - be_val (rev (n # ns))"
        using negate_value [of n ns "rev (n # ns)"] n by simp
      ultimately show ?thesis using n unfolding i2c_negate.simps by (simp del: rev.simps)
    qed
  qed
qed simp

lemma c2i_negate_value:
  "c2i_negate xs = (ys, z) \<Longrightarrow> length ys = length xs \<and> (z \<longleftrightarrow> be_val (rev xs) = 0) \<and> (z \<longrightarrow> ys = replicate (length xs) 0)
     \<and> (\<not> z \<longrightarrow> be_val (rev ys) = 256 ^ length xs - be_val (rev xs))"
proof (induction xs arbitrary: ys)
  case (Cons n ns)
  show ?case
  proof (cases "n = 0")
    case True
    with Cons.prems obtain zs where zs: "c2i_negate ns = (zs, z)" "ys = 0 # zs" by (cases "c2i_negate ns") auto
    from Cons.IH [OF zs(1)] show ?thesis using True zs(2) by (simp add: diff_mult_distrib2 mult.commute)
  next
    case n: False
    then have "be_val (rev (n # ns)) \<noteq> 0" by (simp add: unat_eq_0)
    moreover have "be_val (rev (((n XOR 0xff) + 1) # map (\<lambda>b. b XOR 0xff) ns)) = 256 ^ length (n # ns) - be_val (rev (n # ns))"
      using negate_value [of n ns "rev (n # ns)"] n by simp
    ultimately show ?thesis using n Cons.prems by (auto simp del: rev.simps)
  qed
qed simp

section \<open>Contents octets and values\<close>

definition integer_val :: "asn1_string \<Rightarrow> int" where
  "integer_val a = (if as_type a AND V_ASN1_NEG \<noteq> 0 then - int (be_val (contents_of a)) else int (be_val (contents_of a)))"

text \<open>A magnitude without leading zeros; zero is one byte.\<close>

definition minimal :: "bytes \<Rightarrow> bool" where
  "minimal d \<longleftrightarrow> d = [0] \<or> d \<noteq> [] \<and> hd d \<noteq> 0"

lemma twos_val_pos: "2 * be_val bs < 256 ^ length bs \<Longrightarrow> twos_val bs = int (be_val bs)"
  by (simp add: twos_val_alt)

lemma twos_val_neg: "bs \<noteq> [] \<Longrightarrow> be_val bs = 256 ^ length bs - n \<Longrightarrow> 0 < n \<Longrightarrow> 2 * n \<le> 256 ^ length bs \<Longrightarrow> twos_val bs = - int n"
  by (auto simp: twos_val_alt of_nat_diff)

lemma pow_split: "d \<noteq> [] \<Longrightarrow> (256 :: nat) ^ length d = 256 * 256 ^ (length d - 1)"
  by (cases d) simp_all

lemma i2c_forms:
  assumes "contents_of a = d" "d \<noteq> []" "neg = (as_type a AND V_ASN1_NEG \<noteq> 0)"
  shows "\<not> (neg \<and> \<not> (length d = 1 \<and> d ! 0 = 0)) \<Longrightarrow> i2c_ASN1_INTEGER a = (if d ! 0 > 127 then [0] else []) @ d"
    "neg \<and> \<not> (length d = 1 \<and> d ! 0 = 0) \<Longrightarrow> i2c_ASN1_INTEGER a =
      (if d ! 0 > 128 \<or> d ! 0 = 128 \<and> list_ex (\<lambda>b. b \<noteq> 0) (drop 1 d) then [0xFF] else []) @ rev (i2c_negate (rev d))"
proof -
  assume pos: "\<not> (neg \<and> \<not> (length d = 1 \<and> d ! 0 = 0))"
  show "i2c_ASN1_INTEGER a = (if d ! 0 > 127 then [0] else []) @ d"
  proof (cases neg)
    case True
    then have "length d = 1" "d ! 0 = 0" using pos by simp_all
    then show ?thesis using assms(2) by (simp add: i2c_ASN1_INTEGER_def assms(1))
  next
    case False
    show ?thesis
      unfolding i2c_ASN1_INTEGER_def assms(1) assms(3) [symmetric] Let_def using assms(2) False
      by (simp only: if_False simp_thms if_cancel if_True)
  qed
next
  assume n: "neg \<and> \<not> (length d = 1 \<and> d ! 0 = 0)"
  then have n: "neg = True" "(length d = 1 \<and> d ! 0 = 0) = False" by simp_all
  show "i2c_ASN1_INTEGER a =
      (if d ! 0 > 128 \<or> d ! 0 = 128 \<and> list_ex (\<lambda>b. b \<noteq> 0) (drop 1 d) then [0xFF] else []) @ rev (i2c_negate (rev d))"
    unfolding i2c_ASN1_INTEGER_def assms(1) assms(3) [symmetric] Let_def n simp_thms if_True if_False
      if_not_P [OF assms(2)] by (cases "d ! 0 > 128"; cases "d ! 0 = 128") simp_all
qed

lemma i2c_value: "twos_val (i2c_ASN1_INTEGER a) = integer_val a"
proof -
  define d where "d = contents_of a"
  define neg where "neg = (as_type a AND V_ASN1_NEG \<noteq> 0)"
  define out where "out = rev (i2c_negate (rev d))"
  have val: "integer_val a = (if neg then - int (be_val d) else int (be_val d))" by (simp add: integer_val_def neg_def d_def)
  show ?thesis
  proof (cases "d = []")
    case True
    then show ?thesis by (simp add: i2c_ASN1_INTEGER_def d_def [symmetric] val twos_val_def)
  next
    case False
    define P :: nat where "P = 256 ^ (length d - 1)"
    have P: "256 ^ length d = 256 * P" "0 < P" using pow_split [OF False] by (simp_all add: P_def)
    have hd: "d ! 0 = hd d" using False by (simp add: hd_conv_nth)
    note ge = hd_ge [OF False, folded P_def]
    have less: "be_val d < 256 * P" using be_val_less [of d] P by simp
    have out: "length out = length d" "be_val out = (if be_val d = 0 then 0 else 256 * P - be_val d)"
      using i2c_negate_value [of "rev d"] False P(1) by (simp_all add: out_def)
    have ne: "out \<noteq> []" using out(1) False by (cases out) simp_all
    show ?thesis
    proof (cases "neg \<and> \<not> (length d = 1 \<and> d ! 0 = 0)")
      case pos: False
      have v: "integer_val a = int (be_val d)"
      proof (cases "length d = 1 \<and> d ! 0 = 0")
        case True
        then have "d = [0]" by (cases d) auto
        then show ?thesis by (simp add: val)
      qed (use pos val in auto)
      note i2c = i2c_forms(1) [OF d_def [symmetric] False neg_def pos]
      show ?thesis
      proof (cases "d ! 0 > 127")
        case True
        then show ?thesis unfolding i2c v by (simp add: twos_val_def)
      next
        case F: False
        then have "\<not> 128 \<le> unat (hd d)" by (simp add: hd word_less_nat_alt)
        then show ?thesis using F unfolding i2c v by (simp add: twos_val_def)
      qed
    next
      case True
      then have v: "integer_val a = - int (be_val d)" by (simp add: val)
      let ?pad = "d ! 0 > 128 \<or> d ! 0 = 128 \<and> list_ex (\<lambda>b. b \<noteq> 0) (drop 1 d)"
      note i2c = i2c_forms(2) [OF d_def [symmetric] False neg_def True, folded out_def]
      have d: "be_val d = unat (d ! 0) * P + be_val (drop 1 d)"
        using False by (cases d) (simp_all add: P_def)
      have rest: "list_ex (\<lambda>b. b \<noteq> 0) (drop 1 d) \<longleftrightarrow> be_val (drop 1 d) \<noteq> 0"
        unfolding be_val_0 by (auto simp: list_ex_iff list_all_iff)
      have rless: "be_val (drop 1 d) < P" using be_val_less [of "drop 1 d"] by (simp add: P_def)
      show ?thesis
      proof (cases ?pad)
        case pad: True
        have "unat (d ! 0) \<ge> 128" using pad by (auto simp: word_less_nat_alt)
        then have "128 * P \<le> be_val d" using ge [of 128] hd by simp
        then have nz: "be_val d \<noteq> 0" using P(2) by simp
        have "be_val ([0xFF] @ out) = 256 ^ length ([0xFF] @ out) - be_val d"
          using out nz less P(1) by simp
        then show ?thesis unfolding i2c v if_P [OF pad] using less nz out(1) P(1) by (intro twos_val_neg) simp_all
      next
        case np: False
        have "be_val d \<le> 128 * P"
        proof (cases "d ! 0 = 128")
          case True
          then show ?thesis using np d rest by simp
        next
          case F: False
          then have "unat (d ! 0) < 128" using np by (simp add: word_less_nat_alt word_unat_eq_iff)
          then have "unat (d ! 0) + 1 \<le> 128" by simp
          then have "(unat (d ! 0) + 1) * P \<le> 128 * P" by (rule mult_le_mono1)
          then have "unat (d ! 0) * P + P \<le> 128 * P" by (simp only: add_mult_distrib mult_1)
          then show ?thesis unfolding d using rless by linarith
        qed
        then show ?thesis
          using out P np ne unfolding i2c v if_not_P [OF np] append_Nil
          by (cases "be_val d = 0") (simp add: twos_val_pos, intro twos_val_neg, simp_all)
      qed
    qed
  qed
qed

text \<open>Two's complement octets are minimal exactly when one octet less would not do.\<close>

lemma int_status_range:
  assumes "bs = b # d # ds" "P = 256 ^ length ds"
  shows "int_status bs \<noteq> None \<longleftrightarrow> twos_val bs < - (128 * int P) \<or> 128 * int P \<le> twos_val bs"
proof -
  have v: "be_val bs = unat b * (256 * P) + unat d * P + be_val ds" by (simp add: assms)
  have r: "be_val ds < P" using be_val_less [of ds] assms(2) by simp
  have l: "(256 :: int) ^ length bs = 65536 * int P" by (simp add: assms)
  have tv: "twos_val bs = (if 128 \<le> unat b then int (be_val bs) - 65536 * int P else int (be_val bs))"
    using l by (simp add: twos_val_def assms(1))
  have bb: "b = 0 \<longleftrightarrow> unat b = 0" "b = 0xff \<longleftrightarrow> unat b = 255" by (simp_all add: word_unat_eq_iff)
  have ub: "unat b < 256" "unat d < 256" by (rule u8_bound)+
  define x y z where "x = unat b" and "y = unat d" and "z = be_val ds"
  note fold = x_def [symmetric] y_def [symmetric] z_def [symmetric]
  have mono: "i \<le> j \<Longrightarrow> i * P \<le> j * P" for i j by simp
  have st: "int_status bs \<noteq> None \<longleftrightarrow> \<not> (x = 0 \<and> y < 128 \<or> x = 255 \<and> 128 \<le> y)"
    by (auto simp: assms(1) bb fold)
  have e: "int (be_val bs) = int x * 256 * int P + int y * int P + int z" unfolding v fold by (simp add: algebra_simps)
  consider (zero) "x = 0" | (low) "0 < x" "x < 128" | (high) "128 \<le> x" "x < 255" | (ones) "x = 255"
    using ub(1) unfolding fold by linarith
  then show ?thesis
  proof cases
    case zero
    then have tv0: "twos_val bs = int y * int P + int z" unfolding tv e fold by simp
    show ?thesis
    proof (cases "y < 128")
      case True
      then have "y * P + P \<le> 128 * P" using mono [of "y + 1" 128] by (simp add: add_mult_distrib)
      then have "int y * int P + int P \<le> 128 * int P" by (metis of_nat_add of_nat_le_iff of_nat_mult of_nat_numeral)
      then have "twos_val bs < 128 * int P" unfolding tv0 using r unfolding fold by linarith
      moreover have "0 \<le> twos_val bs" unfolding tv0 by simp
      ultimately show ?thesis unfolding st using zero True by simp
    next
      case False
      then have "128 * P \<le> y * P" by (intro mono) simp
      then have "128 * int P \<le> int y * int P" by (metis of_nat_le_iff of_nat_mult of_nat_numeral)
      then show ?thesis unfolding st tv0 using zero False by simp
    qed
  next
    case low
    then have "1 * P \<le> x * P" by (intro mono) simp
    then have "int P \<le> int x * int P" by (metis mult_1 of_nat_le_iff of_nat_mult)
    moreover have "0 \<le> int y * int P" by simp
    ultimately have "128 * int P \<le> int (be_val bs)" unfolding e by linarith
    then show ?thesis unfolding st tv fold using low by simp
  next
    case high
    then have "x * P + P \<le> 255 * P" using mono [of "x + 1" 255] by (simp add: add_mult_distrib)
    then have "int x * int P + int P \<le> 255 * int P" by (metis of_nat_add of_nat_le_iff of_nat_mult of_nat_numeral)
    moreover have "y * P + P \<le> 256 * P" using mono [of "y + 1" 256] ub(2) unfolding fold by (simp add: add_mult_distrib)
    then have "int y * int P + int P \<le> 256 * int P" by (metis of_nat_add of_nat_le_iff of_nat_mult of_nat_numeral)
    ultimately have "int (be_val bs) - 65536 * int P < - (128 * int P)" unfolding e using r unfolding fold by linarith
    then show ?thesis unfolding st tv fold using high by simp
  next
    case ones
    then have tv1: "twos_val bs = int y * int P + int z - 256 * int P" unfolding tv e fold by simp
    show ?thesis
    proof (cases "128 \<le> y")
      case True
      then have "128 * P \<le> y * P" by (intro mono) simp
      then have a: "128 * int P \<le> int y * int P" by (metis of_nat_le_iff of_nat_mult of_nat_numeral)
      have "y * P + P \<le> 256 * P" using mono [of "y + 1" 256] ub(2) unfolding fold by (simp add: add_mult_distrib)
      then have "int y * int P + int P \<le> 256 * int P" by (metis of_nat_add of_nat_le_iff of_nat_mult of_nat_numeral)
      then have "\<not> twos_val bs < - (128 * int P)" "\<not> 128 * int P \<le> twos_val bs"
        unfolding tv1 using a r unfolding fold by linarith+
      then show ?thesis unfolding st using ones True by simp
    next
      case False
      then have "y * P + P \<le> 128 * P" using mono [of "y + 1" 128] by (simp add: add_mult_distrib)
      then have "int y * int P + int P \<le> 128 * int P" by (metis of_nat_add of_nat_le_iff of_nat_mult of_nat_numeral)
      then have "twos_val bs < - (128 * int P)" unfolding tv1 using r unfolding fold by linarith
      then show ?thesis unfolding st using ones False by simp
    qed
  qed
qed

lemma minimal_octets: "int_status bs \<noteq> None \<Longrightarrow> bs = int_octets (twos_val bs)"
proof -
  assume s: "int_status bs \<noteq> None"
  then have ne: "bs \<noteq> []" by (cases bs) simp_all
  have hd: "int_status bs = Some (128 \<le> unat (hd bs))"
    using s by (cases bs rule: int_status.cases) (auto split: if_splits)
  show ?thesis
  proof (cases "128 \<le> unat (hd bs)")
    case False
    then have "bs = uint_octets (be_val bs)" using hd int_status_pos [of bs] by simp
    then show ?thesis using False by (simp add: twos_val_def int_octets_def)
  next
    case True
    then have "bs = map NOT (uint_octets (be_val (map NOT bs)))" using hd int_status_neg [of bs] by simp
    moreover have "be_val bs < 256 ^ length bs" by (rule be_val_less)
    then have "- twos_val bs - 1 = int (be_val (map NOT bs))" "twos_val bs < 0"
      using True ne by (simp_all add: twos_val_def be_val_NOT' of_nat_diff)
    ultimately show ?thesis by (simp add: int_octets_def)
  qed
qed

lemma i2c_minimal:
  assumes m: "minimal (contents_of a)"
  shows "int_status (i2c_ASN1_INTEGER a) \<noteq> None"
proof -
  define d neg n where "d = contents_of a" and "neg = (as_type a AND V_ASN1_NEG \<noteq> 0)" and "n = be_val d"
  have d: "d \<noteq> []" and min: "d = [0] \<or> hd d \<noteq> 0" using m by (auto simp: minimal_def d_def)
  define P :: nat where "P = 256 ^ (length d - 1)"
  have val: "twos_val (i2c_ASN1_INTEGER a) = (if neg then - int n else int n)"
    by (simp add: i2c_value integer_val_def neg_def d_def n_def)
  note ge = hd_ge [OF d, folded P_def n_def]
  have P: "0 < P" by (simp add: P_def)
  have big: "P \<le> n" if "2 \<le> length d"
  proof -
    have "hd d \<noteq> 0" using min that by auto
    then show ?thesis using ge [of 1] by (simp add: Suc_le_eq unat_gt_0)
  qed
  have hd: "d ! 0 = hd d" using d by (simp add: hd_conv_nth)
  let ?bs = "i2c_ASN1_INTEGER a"
  have range: "int_status ?bs \<noteq> None"
    if len: "length ?bs = length d \<or> length ?bs = Suc (length d) \<and> (if neg then 128 * P < n else 128 * P \<le> n)"
  proof -
    consider (short) b where "?bs = [b]" | (long) b e ds where "?bs = b # e # ds"
      using len d by (cases ?bs rule: int_status.cases) auto
    then show ?thesis
    proof cases
      case long
      define Q :: nat where "Q = 256 ^ length ds"
      note st = int_status_range [OF long Q_def]
      show ?thesis
      proof (cases "length ?bs = length d")
        case True
        then have "length d - 1 = Suc (length ds)" "2 \<le> length d" using long by simp_all
        then have "P = 256 * Q" "P \<le> n" using big by (simp_all add: P_def Q_def)
        moreover have "0 < Q" by (simp add: Q_def)
        ultimately have "128 * int Q < int n" by linarith
        then show ?thesis unfolding st val by simp
      next
        case False
        then have n: "if neg then 128 * P < n else 128 * P \<le> n" and "length ?bs = Suc (length d)" using len by simp_all
        then have "Q = P" using long by (simp add: P_def Q_def)
        then show ?thesis unfolding st val using n by (simp split: if_splits)
      qed
    qed simp
  qed
  show ?thesis
  proof (cases "neg \<and> \<not> (length d = 1 \<and> d ! 0 = 0)")
    case False
    note f = i2c_forms(1) [OF d_def [symmetric] d neg_def False]
    show ?thesis
    proof (cases "d ! 0 > 127")
      case True
      then have "128 \<le> unat (hd d)" by (simp add: hd word_less_nat_alt)
      then have "128 * P \<le> n" using ge by simp
      moreover have "\<not> neg"
      proof
        assume neg
        then have "d ! 0 = 0" using False by simp
        then show False using True by simp
      qed
      ultimately show ?thesis using f True by (intro range) simp
    next
      case F: False
      then show ?thesis using f by (intro range) simp
    qed
  next
    case True
    note f = i2c_forms(2) [OF d_def [symmetric] d neg_def True]
    show ?thesis
    proof (cases "d ! 0 > 128 \<or> d ! 0 = 128 \<and> list_ex (\<lambda>b. b \<noteq> 0) (drop 1 d)")
      case pad: True
      have e: "n = unat (d ! 0) * P + be_val (drop 1 d)"
        using d by (cases d) (simp_all add: P_def n_def)
      have "128 * P < n"
      proof (cases "d ! 0 = 128")
        case True
        then have "list_ex (\<lambda>b. b \<noteq> 0) (drop 1 d)" using pad by simp
        then have "be_val (drop 1 d) \<noteq> 0" unfolding be_val_0 by (auto simp: list_ex_iff list_all_iff)
        then show ?thesis using e True by simp
      next
        case False
        then have "129 \<le> unat (hd d)" using pad by (simp add: hd word_less_nat_alt)
        then have "129 * P \<le> n" using ge by simp
        then show ?thesis using P by linarith
      qed
      then show ?thesis using f pad True i2c_negate_value [of "rev d"] by (intro range) simp
    next
      case False
      then show ?thesis unfolding f if_not_P [OF False] using i2c_negate_value [of "rev d"] f by (intro range [unfolded f if_not_P [OF False]]) simp
    qed
  qed
qed

lemma c2i_value:
  assumes al: "al_total al" and bs: "bs \<noteq> []" "int (length bs) \<le> INT_MAX div 2"
  obtains s where "c2i_ASN1_INTEGER al a bs (int (length bs)) = (Inr s, Some s)" "integer_val s = twos_val bs"
    "as_type s = V_ASN1_INTEGER \<or> as_type s = V_ASN1_NEG_INTEGER \<and> be_val (contents_of s) \<noteq> 0"
    "int_status bs \<noteq> None \<Longrightarrow> minimal (contents_of s)" "string_ok s"
proof -
  obtain ret where ret: "(case a of None \<Rightarrow> ASN1_STRING_type_new al V_ASN1_INTEGER | Some ret \<Rightarrow> Some ret) = Some ret"
    using al by (cases a) (auto simp: ASN1_STRING_type_new_def al_total_def)
  obtain blk where blk: "al (word_of_int (int (length bs) + 1)) = Some blk" using al by (auto simp: al_total_def)
  have "length blk = unat (word_of_int (int (length bs) + 1) :: u64)" using al blk by (simp add: al_total_def al_ok_def)
  moreover have "unat (word_of_int (int (length bs) + 1) :: u64) = nat (int (length bs) + 1)"
    using bs(2) by (intro unat_int) (simp_all add: INT_MAX_def)
  ultimately have blen: "length blk = Suc (length bs)" by simp
  define k where "k = length bs"
  have k: "0 < k" "int (length bs) = int k" "\<not> (int k < 0 \<or> int k > INT_MAX div 2)" "int k \<noteq> 0"
    "int k \<noteq> 1 \<longleftrightarrow> k \<noteq> 1" "take k bs = bs" using bs by (auto simp: k_def)
  have hd: "bs ! 0 = hd bs" using bs(1) by (simp add: hd_conv_nth)
  define obj where "obj = (\<lambda>ty d. ret\<lparr>as_type := ty, as_data := Some (store_bytes blk 0 d), as_length := int (length d)\<rparr>)"
  have obj: "contents_of (obj ty d) = d \<and> as_type (obj ty d) = ty \<and> string_ok (obj ty d)" if "length d \<le> Suc k" for ty d
    using that blen bs(2) by (auto simp: obj_def contents_of_def block_of_def store_bytes_def string_ok_def k_def INT_MAX_def)
  note unf = c2i_ASN1_INTEGER_def [of al a bs] if_not_P [OF k(3)] if_not_P [OF k(4)] ret option.case blk [unfolded k(2)] Let_def nat_int k(2,6)
  have types: "V_ASN1_INTEGER AND V_ASN1_NEG = 0" "V_ASN1_NEG_INTEGER AND V_ASN1_NEG \<noteq> 0"
    by (simp_all add: V_ASN1_INTEGER_def V_ASN1_NEG_def V_ASN1_NEG_INTEGER_def)
  show thesis
  proof (cases "128 \<le> unat (hd bs)")
    case False
    then have pos: "\<not> bs ! 0 AND 0x80 \<noteq> 0" by (simp add: hd u8_and_80)
    define d where "d = (if bs ! 0 = 0 \<and> int k \<noteq> 1 then drop 1 bs else bs)"
    have v: "be_val d = be_val bs" "length d \<le> Suc k" using bs(1) by (cases bs; simp add: d_def k_def)+
    have c: "c2i_ASN1_INTEGER al a bs (int (length bs)) = (Inr (obj V_ASN1_INTEGER d), Some (obj V_ASN1_INTEGER d))"
      unfolding unf if_not_P [OF pos] d_def [symmetric] prod.case obj_def ..
    show thesis
    proof (rule that [OF c])
      show "integer_val (obj V_ASN1_INTEGER d) = twos_val bs"
        using obj [OF v(2)] types v(1) False by (simp add: integer_val_def twos_val_def)
      show "minimal (contents_of (obj V_ASN1_INTEGER d))" if "int_status bs \<noteq> None"
        using obj [OF v(2)] that False k(1) bs(1)
        by (cases bs rule: int_status.cases) (auto simp: minimal_def d_def k_def split: if_splits)
    qed (use obj [OF v(2)] in simp_all)
  next
    case True
    then have neg: "bs ! 0 AND 0x80 \<noteq> 0" by (simp add: hd u8_and_80)
    define q where "q = (if bs ! 0 = 0xff \<and> int k \<noteq> 1 then drop 1 bs else bs)"
    define m where "m = length q"
    obtain tos z where t: "c2i_negate (rev q) = (tos, z)" by (cases "c2i_negate (rev q)")
    from c2i_negate_value [OF t] have tz: "length tos = m" "z \<longleftrightarrow> be_val q = 0" "z \<longrightarrow> tos = replicate m 0"
      "\<not> z \<longrightarrow> be_val (rev tos) = 256 ^ m - be_val q" by (simp_all add: m_def)
    have m: "0 < m" "m \<le> k" and tv: "twos_val bs = int (be_val q) - 256 ^ m"
      using True bs(1) by (cases bs; auto simp: q_def m_def k_def twos_val_def)+
    define d where "d = (if z then (rev tos)[0 := 1] @ [0] else rev tos)"
    have c: "c2i_ASN1_INTEGER al a bs (int (length bs)) = (Inr (obj V_ASN1_NEG_INTEGER d), Some (obj V_ASN1_NEG_INTEGER d))"
      unfolding unf if_P [OF neg] q_def [symmetric] t prod.case obj_def d_def by (cases z) simp_all
    have less: "be_val q < 256 ^ m" unfolding m_def by (rule be_val_less)
    have d: "int (be_val d) = 256 ^ m - int (be_val q)" "length d \<le> Suc k" "be_val d \<noteq> 0" "be_val d = 256 ^ m - be_val q"
    proof -
      have "be_val d = 256 ^ m - be_val q \<and> length d \<le> Suc k"
      proof (cases z)
        case True
        then have "d = 1 # replicate m 0" using tz(3) m(1) by (cases m) (simp_all add: d_def replicate_append_same)
        moreover have "be_val (replicate m 0) = 0" by (simp add: be_val_0 list_all_iff)
        ultimately show ?thesis using True tz(2) m by simp
      next
        case False
        then show ?thesis using tz m by (simp add: d_def)
      qed
      then show "int (be_val d) = 256 ^ m - int (be_val q)" "length d \<le> Suc k" "be_val d \<noteq> 0" "be_val d = 256 ^ m - be_val q"
        using less by (simp_all add: of_nat_diff)
    qed
    show thesis
    proof (rule that [OF c])
      show "integer_val (obj V_ASN1_NEG_INTEGER d) = twos_val bs"
        using obj [OF d(2)] types d(1) tv by (simp add: integer_val_def)
      show "minimal (contents_of (obj V_ASN1_NEG_INTEGER d))" if s: "int_status bs \<noteq> None"
      proof (cases z)
        case True
        then have "hd d = 1" using tz(1) m(1) by (cases "rev tos") (auto simp: d_def)
        then show ?thesis using obj [OF d(2)] d(3) by (auto simp: minimal_def)
      next
        case False
        then have ld: "length d = m" using tz(1) by (simp add: d_def)
        have "256 ^ (m - 1) \<le> be_val d"
        proof (cases "m = 1")
          case True
          then show ?thesis using d(3) by (simp add: Suc_le_eq)
        next
          case m1: False
          then have k1: "k \<noteq> 1" using m by simp
          have "\<not> 255 \<le> unat (hd q)"
          proof
            assume q255: "255 \<le> unat (hd q)"
            have qff: "hd q = 0xff" using q255 u8_bound [of "hd q"] by (simp add: word_unat_eq_iff)
            show False
            proof (cases "bs ! 0 = 0xff")
              case True
              then obtain b e ds where b: "bs = b # e # ds" "b = 0xff"
                using k1 bs(1) by (cases bs rule: int_status.cases) (auto simp: k_def)
              then have "hd q = e" using k1 True by (simp add: q_def)
              then show False using s b q255 by simp
            next
              case F: False
              then show False using qff by (simp add: q_def hd)
            qed
          qed
          moreover have "q \<noteq> []" using m(1) by (auto simp: m_def)
          ultimately have "\<not> 255 * 256 ^ (m - 1) \<le> be_val q" using hd_ge [of q 255] by (simp add: m_def)
          moreover have "(256 :: nat) ^ m = 256 * 256 ^ (m - 1)" using m(1) by (cases m) simp_all
          ultimately show ?thesis using d(4) by simp
        qed
        moreover have "d \<noteq> []" using ld m(1) by auto
        ultimately have "1 \<le> unat (hd d)" using hd_ge [of d 1] ld by simp
        then show ?thesis using \<open>d \<noteq> []\<close> obj [OF d(2)] by (auto simp: minimal_def)
      qed
    qed (use obj [OF d(2)] d(3) in simp_all)
  qed
qed

text \<open>So what is not DER loses nothing but its padding, and DER comes back.\<close>

lemma i2c_octets: "minimal (contents_of a) \<Longrightarrow> i2c_ASN1_INTEGER a = int_octets (integer_val a)"
  using minimal_octets [OF i2c_minimal] by (simp add: i2c_value)

section \<open>Values as \<open>long\<close>\<close>

lemma take_zeros_val: "be_val (drop (length (takeWhile (\<lambda>b. b = 0) (take k d))) d) = be_val d"
proof (induction d arbitrary: k)
  case (Cons b d)
  then show ?case by (cases k) auto
qed simp

text \<open>Swapping the bytes of a word reverses its little-endian encoding.\<close>

lemma mask_ff00ff00: "bit (0xff00ff00 :: u32) n \<longleftrightarrow> n \<in> {8..<16} \<union> {24..<32}"
proof -
  have "(0xff00ff00 :: u32) = push_bit 8 (mask 8) OR push_bit 24 (mask 8)"
    by (simp add: mask_eq_exp_minus_1)
  then show ?thesis by (auto simp only: bit_simps) (auto)
qed

lemma mask_00ff00ff: "bit (0x00ff00ff :: u32) n \<longleftrightarrow> n \<in> {0..<8} \<union> {16..<24}"
proof -
  have "(0x00ff00ff :: u32) = mask 8 OR push_bit 16 (mask 8)"
    by (simp add: mask_eq_exp_minus_1)
  then show ?thesis by (auto simp only: bit_simps) (auto)
qed

lemma bswap4_bit: "j < 4 \<Longrightarrow> i < 8 \<Longrightarrow> bit (CRYPTO_bswap4 x) (8 * j + i) \<longleftrightarrow> bit x (8 * (3 - j) + i)"
proof -
  assume i: "i < 8" and "j < 4"
  then consider "j = 0" | "j = 1" | "j = 2" | "j = 3" by linarith
  moreover define a b :: u32 where "a = 0xff00ff00" and "b = 0x00ff00ff"
  then have m: "bit a n \<longleftrightarrow> n \<in> {8..<16} \<union> {24..<32}" "bit b n \<longleftrightarrow> n \<in> {0..<8} \<union> {16..<24}" for n
    using mask_ff00ff00 mask_00ff00ff by blast+
  ultimately show ?thesis
    by cases (use i in \<open>auto simp: CRYPTO_bswap4_def a_def [symmetric] b_def [symmetric] Let_def bit_simps m add.commute dest: bit_imp_le_length\<close>)
qed

lemma bswap8_bit: "j < 8 \<Longrightarrow> i < 8 \<Longrightarrow> bit (CRYPTO_bswap8 x) (8 * j + i) \<longleftrightarrow> bit x (8 * (7 - j) + i)"
proof -
  assume i: "i < 8" and j: "j < 8"
  show ?thesis
  proof (cases "j < 4")
    case True
    define u where "u = 8 * (3 - j) + i"
    have u: "8 * (7 - j) + i = 32 + u" "u < 32" "8 * j + i < 32" using True i by (simp_all add: u_def)
    show ?thesis
      using bswap4_bit [OF True i, folded u_def] u(2,3) unfolding u(1) by (simp add: CRYPTO_bswap8_def bit_simps)
  next
    case False
    then obtain k where k: "j = k + 4" "k < 4" using j using that [of "j - 4"] False by simp
    have "8 * j + i = 8 * k + i + 32" "8 * k + i < 32" "8 * (7 - j) + i = 8 * (3 - k) + i" "8 * (3 - k) + i < 32" using k i by simp_all
    then show ?thesis using bswap4_bit [OF k(2) i] by (auto simp: CRYPTO_bswap8_def bit_simps dest: bit_imp_le_length)
  qed
qed

lemma nth_le_bytes: "j < n \<Longrightarrow> le_bytes n w ! j = ucast (drop_bit (8 * j) w)"
proof (induction n arbitrary: j w)
  case (Suc n)
  then show ?case by (cases j) (simp_all add: drop_bit_drop_bit add.commute)
qed simp

lemma bswap8_bytes: "le_bytes 8 (CRYPTO_bswap8 v) = rev (le_bytes 8 v)"
proof (rule nth_equalityI)
  fix j assume "j < length (le_bytes 8 (CRYPTO_bswap8 v))"
  then have j: "j < 8" by simp
  have "(ucast (drop_bit (8 * j) (CRYPTO_bswap8 v)) :: u8) = ucast (drop_bit (8 * (7 - j)) v)"
    using bswap8_bit [OF j] by (intro bit_word_eqI) (simp add: bit_simps add.commute)
  then show "le_bytes 8 (CRYPTO_bswap8 v) ! j = rev (le_bytes 8 v) ! j"
    using j by (simp add: rev_nth nth_le_bytes)
qed simp

lemma set_uint64_total:
  assumes "al_total al"
  obtains s where "ASN1_INTEGER_set_uint64 al a v = (True, s)" "be_val (contents_of s) = unat v" "minimal (contents_of s)"
    "string_ok s" "as_type s = V_ASN1_INTEGER" "as_length s \<le> 8" "as_flags s = as_flags a"
proof -
  obtain blk where blk: "al 8 = Some blk" using assms by (auto simp: al_total_def)
  define d where "d = rev (le_bytes 8 v)"
  define z where "z = length (takeWhile (\<lambda>b. b = 0) (take 7 d))"
  define s where "s = a\<lparr>as_data := Some (store_bytes d 0 (drop z d)), as_type := V_ASN1_INTEGER, as_length := int (8 - z)\<rparr>"
  have d: "length d = 8" by (simp add: d_def)
  have z: "z \<le> 7" using length_takeWhile_le [of _ "take 7 d"] d by (simp add: z_def)
  have c: "contents_of s = drop z d" using d z by (simp add: s_def contents_of_def block_of_def store_bytes_def)
  show thesis
  proof (rule that [of s])
    show "ASN1_INTEGER_set_uint64 al a v = (True, s)"
      by (simp add: ASN1_INTEGER_set_uint64_def blk bswap8_bytes s_def z_def d_def Let_def)
    show "be_val (contents_of s) = unat v"
      unfolding c z_def take_zeros_val by (simp add: d_def be_val_bytes64)
    show "minimal (contents_of s)"
    proof (cases "z = 7")
      case True
      then have "length (drop z d) = Suc 0" using d by simp
      then obtain b where "drop z d = [b]" by (auto simp only: length_Suc_conv length_0_conv)
      then show ?thesis by (auto simp: c minimal_def)
    next
      case False
      then have "z < length (take 7 d)" using z d by simp
      then have "take 7 d ! z \<noteq> 0" unfolding z_def using nth_length_takeWhile by blast
      then show ?thesis using z d False by (simp add: c minimal_def hd_drop_conv_nth)
    qed
    show "string_ok s" using d z by (simp add: s_def string_ok_def block_of_def store_bytes_def INT_MAX_def)
  qed (simp_all add: s_def)
qed

lemma long_of_string_value:
  assumes "string_ok a" "as_type a = pos \<or> as_type a = neg" "as_length a \<le> 8"
  shows "long_of_string pos neg (Some a) =
    (if int (be_val (contents_of a)) > LONG_MAX then - 1
     else if as_type a = neg then - int (be_val (contents_of a)) else int (be_val (contents_of a)))"
proof -
  have "length (contents_of a) \<le> 8" using assms by simp
  from be_loop_val [OF this] have "unat (be_loop 0 (contents_of a)) = be_val (contents_of a)"
    by (simp add: be_val_def)
  moreover have "uint (be_loop 0 (contents_of a)) = int (unat (be_loop 0 (contents_of a)))" by simp
  ultimately have "int (be_val (contents_of a)) = uint (be_loop 0 (contents_of a))" by argo
  moreover have "(case as_data a of None \<Rightarrow> 0 | Some d \<Rightarrow> be_loop 0 (take (nat (as_length a)) d)) = be_loop 0 (contents_of a)"
    by (simp add: contents_of_def block_of_def be_loop_def split: option.split)
  ultimately show ?thesis using assms by (auto simp: long_of_string_def Let_def)
qed

lemma integer_types [simp]:
  "V_ASN1_INTEGER AND V_ASN1_NEG = 0" "V_ASN1_NEG_INTEGER AND V_ASN1_NEG = V_ASN1_NEG" "V_ASN1_NEG \<noteq> 0"
  "V_ASN1_ENUMERATED AND V_ASN1_NEG = 0" "V_ASN1_NEG_ENUMERATED AND V_ASN1_NEG = V_ASN1_NEG"
  "V_ASN1_INTEGER \<noteq> V_ASN1_NEG_INTEGER" "V_ASN1_ENUMERATED \<noteq> V_ASN1_NEG_ENUMERATED"
  by (simp_all add: V_ASN1_INTEGER_def V_ASN1_NEG_def V_ASN1_NEG_INTEGER_def V_ASN1_ENUMERATED_def V_ASN1_NEG_ENUMERATED_def)

lemma set_get:
  assumes "al_total al" "- (2 ^ 63) \<le> v" "v < 2 ^ 63"
  obtains s where "ASN1_INTEGER_set al a v = (True, s)" "string_ok s" "integer_val s = v" "minimal (contents_of s)"
    "as_type s = (if v < 0 then V_ASN1_NEG_INTEGER else V_ASN1_INTEGER)"
    "ASN1_INTEGER_get (Some s) = (if v = - (2 ^ 63) then - 1 else v)"
proof (cases "v \<ge> 0")
  case True
  then have v: "int (unat (word_of_int v :: u64)) = v" using assms(3) unat_int [of v] by simp
  obtain s where s: "ASN1_INTEGER_set_uint64 al a (word_of_int v) = (True, s)" "be_val (contents_of s) = unat (word_of_int v :: u64)"
    "minimal (contents_of s)" "string_ok s" "as_type s = V_ASN1_INTEGER" "as_length s \<le> 8"
    using set_uint64_total [OF assms(1)] by metis
  show ?thesis
  proof (rule that [of s])
    show "ASN1_INTEGER_get (Some s) = (if v = - (2 ^ 63) then - 1 else v)"
      using long_of_string_value [of s V_ASN1_INTEGER V_ASN1_NEG_INTEGER] s v assms(3) True by (simp add: ASN1_INTEGER_get_def LONG_MAX_def)
  qed (use s v True in \<open>simp_all add: ASN1_INTEGER_set_def integer_val_def\<close>)
next
  case False
  have "(0 - word_of_int v :: u64) = word_of_int (- v)" by simp
  then have v: "int (unat (0 - word_of_int v :: u64)) = - v" using assms(2) False unat_int [of "- v"] by simp
  obtain s where s: "ASN1_INTEGER_set_uint64 al a (0 - word_of_int v) = (True, s)" "be_val (contents_of s) = unat (0 - word_of_int v :: u64)"
    "minimal (contents_of s)" "string_ok s" "as_type s = V_ASN1_INTEGER" "as_length s \<le> 8"
    using set_uint64_total [OF assms(1)] by metis
  let ?s = "s\<lparr>as_type := V_ASN1_NEG_INTEGER\<rparr>"
  have c: "contents_of ?s = contents_of s" "string_ok ?s" using s(4) by (simp_all add: contents_of_def block_of_def string_ok_def)
  have b: "int (be_val (contents_of ?s)) = - v" unfolding c s(2) by (rule v)
  show ?thesis
  proof (rule that [of ?s])
    show "ASN1_INTEGER_get (Some ?s) = (if v = - (2 ^ 63) then - 1 else v)"
      using long_of_string_value [of ?s V_ASN1_INTEGER V_ASN1_NEG_INTEGER] s(6) c(2) assms(2) unfolding b by (simp add: ASN1_INTEGER_get_def LONG_MAX_def)
    show "integer_val ?s = v" unfolding integer_val_def b by simp
    show "ASN1_INTEGER_set al a v = (True, ?s)" using False s(1) by (simp only: ASN1_INTEGER_set_def if_False prod.case bool.case)
  qed (use s c False in simp_all)
qed

text \<open>An ENUMERATED zero has no contents octets.\<close>

lemma enumerated_digits_val:
  assumes "0 \<le> d" "d < 256 ^ k"
  shows "length (enumerated_digits k d) \<le> k" "int (be_val (rev (enumerated_digits k d))) = d"
proof -
  have "length (enumerated_digits k d) \<le> k \<and> int (be_val (rev (enumerated_digits k d))) = d"
    using assms
  proof (induction k arbitrary: d)
    case (Suc k)
    show ?case
    proof (cases "d = 0")
      case False
      have "d div 256 < 256 ^ k" using Suc.prems(2) by (simp add: div_less_iff_less_mult mult.commute)
      with Suc.IH [of "d div 256"] Suc.prems(1)
      have "length (enumerated_digits k (d div 256)) \<le> k" "int (be_val (rev (enumerated_digits k (d div 256)))) = d div 256" by simp_all
      moreover have "int (unat (word_of_int d :: u8)) = d mod 256" by (simp add: uint_word_of_int)
      ultimately show ?thesis using False by simp
    qed simp
  qed simp
  then show "length (enumerated_digits k d) \<le> k" "int (be_val (rev (enumerated_digits k d))) = d" by simp_all
qed

lemma enumerated_set_get:
  assumes "al_total al" "string_ok a" "- (2 ^ 63) < v" "v < 2 ^ 63"
  obtains s where "ASN1_ENUMERATED_set al a v = (True, s)" "string_ok s" "integer_val s = v" "ASN1_ENUMERATED_get (Some s) = v"
proof -
  obtain blk where blk: "al 9 = Some blk" using assms by (auto simp: al_total_def)
  define data where "data = (if as_length a < 9 then replicate 9 0 else block_of a)"
  have data: "9 \<le> length data" "(as_length a < 9 \<or> as_data a = Some data)"
    using assms(2) by (auto simp: data_def string_ok_def block_of_def split: option.splits)
  define buf where "buf = enumerated_digits 8 \<bar>v\<bar>"
  have buf: "length buf \<le> 8" "int (be_val (rev buf)) = \<bar>v\<bar>"
    using enumerated_digits_val [of "\<bar>v\<bar>" 8] assms(3,4) by (simp_all add: buf_def)
  define s where "s = a\<lparr>as_type := (if v < 0 then V_ASN1_NEG_ENUMERATED else V_ASN1_ENUMERATED),
    as_data := Some (store_bytes data 0 (rev buf)), as_length := int (length buf)\<rparr>"
  have c: "contents_of s = rev buf" "as_length s = int (length buf)" by (simp_all add: s_def contents_of_def block_of_def store_bytes_def)
  have ok: "string_ok s" using data(1) buf(1) by (simp add: s_def string_ok_def block_of_def store_bytes_def INT_MAX_def)
  have ty: "as_type s = V_ASN1_ENUMERATED \<or> as_type s = V_ASN1_NEG_ENUMERATED" "as_type s = V_ASN1_NEG_ENUMERATED \<longleftrightarrow> v < 0"
    by (simp_all add: s_def)
  show thesis
  proof (rule that [of s])
    show "ASN1_ENUMERATED_set al a v = (True, s)"
      using data(2) by (cases "as_length a < 9") (auto simp: ASN1_ENUMERATED_set_def blk s_def data_def buf_def Let_def)
    show "integer_val s = v" using ty buf(2) unfolding integer_val_def c by (cases "v < 0") auto
    show "ASN1_ENUMERATED_get (Some s) = v"
      using long_of_string_value [OF ok ty(1)] ty(2) buf assms(3,4) unfolding ASN1_ENUMERATED_get_def c by (simp add: LONG_MAX_def)
  qed (rule ok)
qed

section \<open>The order\<close>

text \<open>The objects that the conversions give: no leading zeros, and zero is not negative.\<close>

definition int_obj :: "asn1_string \<Rightarrow> bool" where
  "int_obj s \<longleftrightarrow> string_ok s \<and> minimal (contents_of s) \<and>
     (as_type s = V_ASN1_INTEGER \<or> as_type s = V_ASN1_NEG_INTEGER \<and> be_val (contents_of s) \<noteq> 0)"

lemma be_val_lex: "length a = length b \<Longrightarrow> a < b \<longleftrightarrow> be_val a < be_val b"
proof (induction a b rule: list_induct2)
  case (Cons x xs y ys)
  define P where "P = (256 :: nat) ^ length ys"
  have P: "be_val xs < P" "be_val ys < P" using be_val_less [of xs] be_val_less [of ys] Cons.hyps by (simp_all add: P_def)
  have carry: "a * P + r < b * P + s" if "a < b" "r < P" for a b r s :: nat
  proof -
    have "(a + 1) * P \<le> b * P" using that(1) by (intro mult_le_mono1) simp
    then show ?thesis using that(2) by simp
  qed
  consider "unat x < unat y" | "unat y < unat x" | "x = y" by (metis linorder_neqE_nat word_unat_eq_iff)
  then show ?case
  proof cases
    case 1
    then show ?thesis using carry [OF 1 P(1), of "be_val ys"] Cons.hyps by (simp add: word_less_nat_alt P_def)
  next
    case 2
    then have "\<not> x < y" "x \<noteq> y" by (auto simp: word_less_nat_alt)
    then show ?thesis using carry [OF 2 P(2), of "be_val xs"] Cons.hyps by (simp add: P_def)
  next
    case 3
    then show ?thesis using Cons by simp
  qed
qed simp

lemma minimal_lex:
  assumes "minimal d" "minimal e"
  shows "length d < length e \<or> length d = length e \<and> d < e \<longleftrightarrow> be_val d < be_val e"
proof -
  have longer: "be_val x < be_val y" if "length x < length y" "minimal x" "minimal y" for x y
  proof -
    have y: "y \<noteq> []" "hd y \<noteq> 0" using that by (auto simp: minimal_def)
    then have "256 ^ (length y - 1) \<le> be_val y" using hd_ge [of y 1] by (simp add: Suc_le_eq unat_gt_0)
    moreover have "(256 :: nat) ^ length x \<le> 256 ^ (length y - 1)" using that(1) by (intro power_increasing) simp_all
    ultimately show ?thesis using be_val_less [of x] by linarith
  qed
  consider "length d < length e" | "length e < length d" | "length d = length e" by linarith
  then show ?thesis
  proof cases
    case 2
    then show ?thesis using longer [OF 2 assms(2,1)] by simp
  qed (use longer [OF _ assms] be_val_lex in auto)
qed

lemma integer_cmp_sign:
  assumes x: "int_obj x" and y: "int_obj y"
  shows "sgn (ASN1_INTEGER_cmp x y) = sgn (integer_val x - integer_val y)"
proof -
  define m n where "m = be_val (contents_of x)" and "n = be_val (contents_of y)"
  have ok: "string_ok x" "string_ok y" "minimal (contents_of x)" "minimal (contents_of y)" using x y by (simp_all add: int_obj_def)
  have signs: "as_type x = V_ASN1_INTEGER \<or> as_type x = V_ASN1_NEG_INTEGER \<and> m \<noteq> 0"
    "as_type y = V_ASN1_INTEGER \<or> as_type y = V_ASN1_NEG_INTEGER \<and> n \<noteq> 0" using x y by (simp_all add: int_obj_def m_def n_def)
  have key: "string_key s = (as_length s, 0, contents_of s, as_type s)" if "int_obj s" for s
    using that by (auto simp: int_obj_def string_key_def contents_of_def V_ASN1_INTEGER_def V_ASN1_NEG_INTEGER_def V_ASN1_BIT_STRING_def)
  have len: "as_length x = int (length (contents_of x))" "as_length y = int (length (contents_of y))"
    using ok(1,2) by (simp_all add: string_ok_def)
  have cmp: "sgn (ASN1_STRING_cmp x y) = sgn (int m - int n)" if "as_type x = as_type y"
  proof -
    have "string_key x < string_key y \<longleftrightarrow> m < n"
      using minimal_lex [OF ok(3,4)] that by (auto simp: key x y len m_def n_def)
    moreover have "string_key y < string_key x \<longleftrightarrow> n < m"
      using minimal_lex [OF ok(4,3)] that by (auto simp: key x y len m_def n_def)
    ultimately show ?thesis
      using string_cmp_sign [OF ok(1,2)] by (auto simp: sgn_if)
  qed
  have val: "integer_val x = (if as_type x = V_ASN1_NEG_INTEGER then - int m else int m)"
    "integer_val y = (if as_type y = V_ASN1_NEG_INTEGER then - int n else int n)"
    using signs by (auto simp: integer_val_def m_def n_def)
  note int = ASN1_INTEGER_cmp_def [of x y] Let_def
  consider (pos) "as_type x = V_ASN1_INTEGER" "as_type y = V_ASN1_INTEGER"
    | (neg) "as_type x = V_ASN1_NEG_INTEGER" "as_type y = V_ASN1_NEG_INTEGER"
    | (below) "as_type x = V_ASN1_NEG_INTEGER" "as_type y = V_ASN1_INTEGER" "m \<noteq> 0"
    | (above) "as_type x = V_ASN1_INTEGER" "as_type y = V_ASN1_NEG_INTEGER" "n \<noteq> 0"
    using signs by argo
  then show ?thesis
  proof cases
    case pos
    then have "ASN1_INTEGER_cmp x y = ASN1_STRING_cmp x y" by (simp add: int)
    then show ?thesis using cmp pos by (simp add: val)
  next
    case neg
    then have "sgn (ASN1_INTEGER_cmp x y) = - sgn (ASN1_STRING_cmp x y)" by (simp add: int sgn_minus)
    also have "\<dots> = sgn (int n - int m)" using cmp neg by (simp flip: sgn_minus)
    finally show ?thesis using neg by (simp add: val)
  next
    case below
    then have "ASN1_INTEGER_cmp x y = - 1" by (simp add: int)
    then show ?thesis using below by (simp add: val sgn_if)
  next
    case above
    then have "ASN1_INTEGER_cmp x y = 1" by (simp add: int)
    then show ?thesis using above by (simp add: val sgn_if)
  qed
qed

text \<open>
  The comparison is one of representations: of two contents for the same value, of which one has
  more leading zeros than the reader drops, it says that the shorter is smaller.
\<close>

lemma cmp_padded:
  assumes "al_total al"
  obtains x y where "fst (c2i_ASN1_INTEGER al None [0, 0, 1] 3) = Inr x" "fst (c2i_ASN1_INTEGER al None [1] 1) = Inr y"
    "integer_val x = integer_val y" "ASN1_INTEGER_cmp x y = 1"
proof -
  have al: "length blk = unat n" if "al n = Some blk" for n blk using assms that by (simp add: al_total_def al_ok_def)
  obtain ret where ret: "ASN1_STRING_type_new al V_ASN1_INTEGER = Some ret"
    using assms by (auto simp: ASN1_STRING_type_new_def al_total_def)
  have some: "\<exists>blk. al n = Some blk" for n using assms by (simp add: al_total_def)
  from some [of 4] some [of 2] obtain b1 b2 where b: "al 4 = Some b1" "al 2 = Some b2" by blast
  let ?x = "ret\<lparr>as_type := V_ASN1_INTEGER, as_data := Some (store_bytes b1 0 [0, 1]), as_length := 2\<rparr>"
  let ?y = "ret\<lparr>as_type := V_ASN1_INTEGER, as_data := Some (store_bytes b2 0 [1]), as_length := 1\<rparr>"
  have c: "contents_of ?x = [0, 1]" "contents_of ?y = [1]" by (simp_all add: contents_of_def block_of_def store_bytes_def)
  show thesis
  proof (rule that [of ?x ?y])
    show "fst (c2i_ASN1_INTEGER al None [0, 0, 1] 3) = Inr ?x" "fst (c2i_ASN1_INTEGER al None [1] 1) = Inr ?y"
      using ret b by (simp_all add: c2i_ASN1_INTEGER_def INT_MAX_def Let_def)
    show "integer_val ?x = integer_val ?y" unfolding integer_val_def c by simp
    show "ASN1_INTEGER_cmp ?x ?y = 1"
      by (simp add: ASN1_INTEGER_cmp_def ASN1_STRING_cmp_def V_ASN1_INTEGER_def V_ASN1_BIT_STRING_def V_ASN1_NEG_def)
  qed
qed

text \<open>
  When the allocation of \<open>ASN1_ENUMERATED_set\<close> fails, the object keeps its length without its data,
  so its invariant is lost.
\<close>

lemma enumerated_set_failed:
  assumes "al 9 = None" "0 < as_length a" "as_length a < 9"
  obtains a' where "ASN1_ENUMERATED_set al a v = (False, a')" "as_data a' = None" "as_length a' = as_length a" "\<not> string_ok a'"
  by (rule that [of "a\<lparr>as_type := V_ASN1_ENUMERATED, as_data := None\<rparr>"])
    (use assms in \<open>simp_all add: ASN1_ENUMERATED_set_def Let_def string_ok_def block_of_def\<close>)

section \<open>Properties\<close>

definition heap_al :: allocator where
  "heap_al n = Some (replicate (unat n) 0xAA)"

lemma heap_al_total: "al_total heap_al"
  by (simp add: al_total_def al_ok_def heap_al_def)

text \<open>
  C25. Contents octets, at least one and at most half of \<open>INT_MAX\<close>, with or without padding, are read
  as their two's complement value and written back as octets of the same value; DER octets come back
  byte for byte. The allocator does not fail.
\<close>

theorem c2i_i2c_ASN1_INTEGER:
  assumes "al_total al" "bs \<noteq> []" "int (length bs) \<le> INT_MAX div 2"
  shows "\<exists>s. c2i_ASN1_INTEGER al a bs (int (length bs)) = (Inr s, Some s) \<and> integer_val s = twos_val bs
    \<and> twos_val (i2c_ASN1_INTEGER s) = twos_val bs
    \<and> (int_status bs \<noteq> None \<longrightarrow> int_obj s \<and> i2c_ASN1_INTEGER s = bs)"
proof -
  obtain s where s: "c2i_ASN1_INTEGER al a bs (int (length bs)) = (Inr s, Some s)" "integer_val s = twos_val bs"
    "as_type s = V_ASN1_INTEGER \<or> as_type s = V_ASN1_NEG_INTEGER \<and> be_val (contents_of s) \<noteq> 0"
    "int_status bs \<noteq> None \<Longrightarrow> minimal (contents_of s)" "string_ok s"
    using c2i_value [OF assms, of a] by metis
  moreover have "i2c_ASN1_INTEGER s = bs" if "int_status bs \<noteq> None"
    using i2c_octets [OF s(4) [OF that]] minimal_octets [OF that] s(2) by simp
  ultimately show ?thesis by (auto simp: i2c_value int_obj_def)
qed

theorem c2i_i2c_ASN1_INTEGER_witness:
  "\<exists>s. c2i_ASN1_INTEGER heap_al None [0xff, 0x00] 2 = (Inr s, Some s) \<and> integer_val s = - 256 \<and> i2c_ASN1_INTEGER s = [0xff, 0x00]"
  using c2i_i2c_ASN1_INTEGER [OF heap_al_total, of "[0xff, 0x00]" None] by (auto simp: INT_MAX_def twos_val_def)

text \<open>
  Every \<open>long\<close> that is set is the value of the object and gives its DER octets, and is what
  is got again, except the least one, for which the answer is that of an error.
\<close>

theorem ASN1_INTEGER_set_get:
  assumes "al_total al" "- (2 ^ 63) \<le> v" "v < 2 ^ 63"
  shows "\<exists>s. ASN1_INTEGER_set al a v = (True, s) \<and> int_obj s \<and> integer_val s = v \<and> i2c_ASN1_INTEGER s = int_octets v
    \<and> ASN1_INTEGER_get (Some s) = (if v = - (2 ^ 63) then - 1 else v)"
proof -
  obtain s where s: "ASN1_INTEGER_set al a v = (True, s)" "string_ok s" "integer_val s = v" "minimal (contents_of s)"
    "as_type s = (if v < 0 then V_ASN1_NEG_INTEGER else V_ASN1_INTEGER)"
    "ASN1_INTEGER_get (Some s) = (if v = - (2 ^ 63) then - 1 else v)"
    using set_get [OF assms, of a] by metis
  moreover have "be_val (contents_of s) \<noteq> 0" if "v < 0" using s(3,5) that by (simp add: integer_val_def)
  ultimately show ?thesis using i2c_octets [OF s(4)] by (auto simp: int_obj_def)
qed

theorem ASN1_INTEGER_set_get_witness:
  "\<exists>s. ASN1_INTEGER_set heap_al bits_example (- 128) = (True, s) \<and> ASN1_INTEGER_get (Some s) = - 128"
  using ASN1_INTEGER_set_get [OF heap_al_total, of "- 128" bits_example] by auto

text \<open>
  On objects as the conversions give them, without leading zeros and without a negative zero,
  \<open>ASN1_INTEGER_cmp\<close> has the sign of the difference of the values.
\<close>

theorem ASN1_INTEGER_cmp_values:
  assumes "int_obj x" "int_obj y"
  shows "sgn (ASN1_INTEGER_cmp x y) = sgn (integer_val x - integer_val y)"
  using assms by (rule integer_cmp_sign)

theorem ASN1_INTEGER_cmp_values_witness:
  "\<exists>x y. integer_val x = - 129 \<and> integer_val y = - 2 \<and> ASN1_INTEGER_cmp x y < 0"
proof -
  let ?x = "\<lparr>as_length = 1, as_type = V_ASN1_NEG_INTEGER, as_data = Some [129], as_flags = 0\<rparr>"
  let ?y = "\<lparr>as_length = 1, as_type = V_ASN1_NEG_INTEGER, as_data = Some [2], as_flags = 0\<rparr>"
  have o: "int_obj ?x" "int_obj ?y"
    by (simp_all add: int_obj_def string_ok_def contents_of_def block_of_def minimal_def INT_MAX_def)
  have v: "integer_val ?x = - 129" "integer_val ?y = - 2"
    by (simp_all add: integer_val_def contents_of_def block_of_def)
  from ASN1_INTEGER_cmp_values [OF o] have "sgn (ASN1_INTEGER_cmp ?x ?y) = - 1" by (simp add: v)
  then have "ASN1_INTEGER_cmp ?x ?y < 0" by (simp add: sgn_if split: if_splits)
  with v show ?thesis by blast
qed

end
