(* ===== verification/Asn1Time.thy ===== *)
theory Asn1Time
  imports Asn1Julian Asn1Integer CbbOid "HOL-Library.Monad_Syntax"
begin

text \<open>
  UTCTime and GeneralizedTime (crypto/asn1/a_utctm.c, a_gentm.c, a_time.c): their text parsed into
  a broken-down time, printed from one, and compared.

  The parsers read characters by index. A read outside the heap block of the string is the outcome
  \<open>None\<close>; otherwise \<open>Some (ok, tm)\<close> has the result and the time, which is absent when the
  caller passes \<open>NULL\<close>.
\<close>

section \<open>The code: parsing\<close>

definition V_ASN1_UTCTIME :: int where "V_ASN1_UTCTIME = 23"
definition V_ASN1_GENERALIZEDTIME :: int where "V_ASN1_GENERALIZEDTIME = 24"

definition char_at :: "bytes \<Rightarrow> nat \<Rightarrow> u8 option" where
  "char_at a i = (if i < length a then Some (a ! i) else None)"

definition is_digit :: "u8 \<Rightarrow> bool" where
  "is_digit c \<longleftrightarrow> \<not> (c < 0x30 \<or> c > 0x39)"

text \<open>
  Two digits, of which the first is at \<open>i\<close>; \<open>ok\<close> is the test after each step of the index. The
  inner \<open>None\<close> is \<open>goto err\<close>.
\<close>

definition digit_pair :: "(nat \<Rightarrow> bool) \<Rightarrow> bytes \<Rightarrow> nat \<Rightarrow> (int \<times> nat) option option" where
  "digit_pair ok a i =
     do { c \<leftarrow> char_at a i;
          if \<not> is_digit c then Some None
          else if \<not> ok (i + 1) then Some None
          else do { c' \<leftarrow> char_at a (i + 1);
                    if \<not> is_digit c' then Some None
                    else if \<not> ok (i + 2) then Some None
                    else Some (Some ((uint c - 48) * 10 + (uint c' - 48), i + 2)) } }"

text \<open>
  The loop over the two-digit fields with their limits, from field \<open>n\<close> on; \<open>sec\<close> is the number of
  the seconds, which may be missing, and \<open>store\<close> the \<open>switch\<close>.
\<close>

fun time_fields ::
  "nat \<Rightarrow> (nat \<Rightarrow> int \<Rightarrow> tm \<Rightarrow> tm) \<Rightarrow> bytes \<Rightarrow> nat \<Rightarrow> nat \<Rightarrow> (int \<times> int) list \<Rightarrow> nat \<Rightarrow> tm option
    \<Rightarrow> (nat option \<times> tm option) option" where
  "time_fields sec store a l n [] i tm = Some (Some i, tm)"
| "time_fields sec store a l n ((lo, hi) # limits) i tm =
     do { stop \<leftarrow> (if n = sec then do { c \<leftarrow> char_at a i; Some (c = 0x5A \<or> c = 0x2B \<or> c = 0x2D) } else Some False);
          if stop then Some (Some i, map_option (tm_sec_update (\<lambda>_. 0)) tm)
          else do { r \<leftarrow> digit_pair (\<lambda>j. \<not> j > l) a i;
                    case r of
                      None \<Rightarrow> Some (None, tm)
                    | Some (v, i) \<Rightarrow>
                        if v < lo \<or> v > hi then Some (None, tm)
                        else time_fields sec store a l (Suc n) limits i (map_option (store n v) tm) } }"

definition utc_store :: "nat \<Rightarrow> int \<Rightarrow> tm \<Rightarrow> tm" where
  "utc_store n v tm =
     (if n = 0 then tm\<lparr>tm_year := (if v < 50 then v + 100 else v)\<rparr>
      else if n = 1 then tm\<lparr>tm_mon := v - 1\<rparr>
      else if n = 2 then tm\<lparr>tm_mday := v\<rparr>
      else if n = 3 then tm\<lparr>tm_hour := v\<rparr>
      else if n = 4 then tm\<lparr>tm_min := v\<rparr>
      else if n = 5 then tm\<lparr>tm_sec := v\<rparr> else tm)"

definition gen_store :: "nat \<Rightarrow> int \<Rightarrow> tm \<Rightarrow> tm" where
  "gen_store n v tm =
     (if n = 0 then tm\<lparr>tm_year := v * 100 - 1900\<rparr>
      else if n = 1 then tm\<lparr>tm_year := tm_year tm + v\<rparr>
      else if n = 2 then tm\<lparr>tm_mon := v - 1\<rparr>
      else if n = 3 then tm\<lparr>tm_mday := v\<rparr>
      else if n = 4 then tm\<lparr>tm_hour := v\<rparr>
      else if n = 5 then tm\<lparr>tm_min := v\<rparr>
      else if n = 6 then tm\<lparr>tm_sec := v\<rparr> else tm)"

definition utc_limits :: "(int \<times> int) list" where
  "utc_limits = [(0, 99), (1, 12), (1, 31), (0, 23), (0, 59), (0, 59)]"

definition gen_limits :: "(int \<times> int) list" where
  "gen_limits = [(0, 99), (0, 99), (1, 12), (1, 31), (0, 23), (0, 59), (0, 59)]"

text \<open>The offset from UTC after its sign, which the offset inverts.\<close>

definition time_zone :: "u8 \<Rightarrow> bytes \<Rightarrow> nat \<Rightarrow> nat \<Rightarrow> tm option \<Rightarrow> (nat option \<times> tm option) option" where
  "time_zone sign a l i tm =
     (let offsign = (if sign = 0x2D then 1 else - 1) in
      if i + 4 > l then Some (None, tm)
      else do { r \<leftarrow> digit_pair (\<lambda>_. True) a i;
                case r of
                  None \<Rightarrow> Some (None, tm)
                | Some (h, i) \<Rightarrow>
                    if h < 0 \<or> h > 12 then Some (None, tm)
                    else do { r \<leftarrow> digit_pair (\<lambda>_. True) a i;
                              case r of
                                None \<Rightarrow> Some (None, tm)
                              | Some (m, i) \<Rightarrow>
                                  if m < 0 \<or> m > 59 then Some (None, tm)
                                  else (case tm of
                                          None \<Rightarrow> Some (Some i, None)
                                        | Some t \<Rightarrow>
                                            (let offset = h * 3600 + m * 60 in
                                             if offset \<noteq> 0
                                             then (case OPENSSL_gmtime_adj t 0 (offset * offsign) of
                                                     None \<Rightarrow> Some (None, tm)
                                                   | Some t' \<Rightarrow> Some (Some i, Some t'))
                                             else Some (Some i, Some t))) } })"

definition utc_zone :: "bytes \<Rightarrow> nat \<Rightarrow> nat \<Rightarrow> tm option \<Rightarrow> (bool \<times> tm option) option" where
  "utc_zone a l i tm =
     do { c \<leftarrow> char_at a i;
          (r, tm) \<leftarrow> (if c = 0x5A then Some (Some (i + 1), tm)
                     else if c = 0x2B \<or> c = 0x2D then time_zone c a l (i + 1) tm
                     else Some (Some i, tm));
          Some (r = Some l, tm) }"

definition asn1_utctime_to_tm :: "tm option \<Rightarrow> asn1_string \<Rightarrow> (bool \<times> tm option) option" where
  "asn1_utctime_to_tm tm d =
     (if as_type d \<noteq> V_ASN1_UTCTIME then Some (False, tm)
      else
        (let l = nat (as_length d); a = (case as_data d of None \<Rightarrow> [] | Some a \<Rightarrow> a) in
         if as_length d < 11 then Some (False, tm)
         else do { (r, tm) \<leftarrow> time_fields 5 utc_store a l 0 utc_limits 0 tm;
                   case r of None \<Rightarrow> Some (False, tm) | Some i \<Rightarrow> utc_zone a l i tm }))"

text \<open>The loop over the digits of the fraction.\<close>

function fraction_loop :: "bytes \<Rightarrow> nat \<Rightarrow> nat \<Rightarrow> nat option" where
  "fraction_loop a l i =
     (case char_at a i of
        None \<Rightarrow> None
      | Some c \<Rightarrow> if is_digit c \<and> i \<le> l then fraction_loop a l (i + 1) else Some i)"
  by pat_completeness auto
termination
  by (relation "measure (\<lambda>(a, l, i). length a - i)") (auto simp: char_at_def split: if_splits)

declare fraction_loop.simps [simp del]

definition gen_fraction :: "bytes \<Rightarrow> nat \<Rightarrow> nat \<Rightarrow> nat option option" where
  "gen_fraction a l i =
     do { c \<leftarrow> char_at a i;
          if c = 0x2E then
            (if i + 1 > l then Some None
             else do { j \<leftarrow> fraction_loop a l (i + 1); Some (if j = i + 1 then None else Some j) })
          else Some (Some i) }"

definition gen_zone :: "bytes \<Rightarrow> nat \<Rightarrow> nat \<Rightarrow> tm option \<Rightarrow> (bool \<times> tm option) option" where
  "gen_zone a l i tm =
     do { c \<leftarrow> char_at a i;
          (r, tm) \<leftarrow> (if c = 0x5A then Some (Some (i + 1), tm)
                     else if c = 0x2B \<or> c = 0x2D then time_zone c a l (i + 1) tm
                     else if c \<noteq> 0 then Some (None, tm)
                     else Some (Some i, tm));
          Some (r = Some l, tm) }"

definition asn1_generalizedtime_to_tm :: "tm option \<Rightarrow> asn1_string \<Rightarrow> (bool \<times> tm option) option" where
  "asn1_generalizedtime_to_tm tm d =
     (if as_type d \<noteq> V_ASN1_GENERALIZEDTIME then Some (False, tm)
      else
        (let l = nat (as_length d); a = (case as_data d of None \<Rightarrow> [] | Some a \<Rightarrow> a) in
         if as_length d < 13 then Some (False, tm)
         else do { (r, tm) \<leftarrow> time_fields 6 gen_store a l 0 gen_limits 0 tm;
                   case r of
                     None \<Rightarrow> Some (False, tm)
                   | Some i \<Rightarrow>
                       do { r \<leftarrow> gen_fraction a l i;
                            case r of None \<Rightarrow> Some (False, tm) | Some i \<Rightarrow> gen_zone a l i tm } }))"

definition ASN1_UTCTIME_check :: "asn1_string \<Rightarrow> bool option" where
  "ASN1_UTCTIME_check d = map_option fst (asn1_utctime_to_tm None d)"

definition ASN1_GENERALIZEDTIME_check :: "asn1_string \<Rightarrow> bool option" where
  "ASN1_GENERALIZEDTIME_check d = map_option fst (asn1_generalizedtime_to_tm None d)"

definition ASN1_TIME_check :: "asn1_string \<Rightarrow> bool option" where
  "ASN1_TIME_check t =
     (if as_type t = V_ASN1_GENERALIZEDTIME then ASN1_GENERALIZEDTIME_check t
      else if as_type t = V_ASN1_UTCTIME then ASN1_UTCTIME_check t else Some False)"

text \<open>
  \<open>str\<close> is a C string without its terminator; the fields of the temporary object that are not set
  are not read.
\<close>

definition string_on_stack :: "int \<Rightarrow> bytes \<Rightarrow> asn1_string" where
  "string_on_stack ty str = \<lparr>as_length = to_int (int (length str)), as_type = ty, as_data = Some (str @ [0]), as_flags = 0\<rparr>"

definition time_set_string ::
  "int \<Rightarrow> (asn1_string \<Rightarrow> bool option) \<Rightarrow> allocator \<Rightarrow> asn1_string option \<Rightarrow> bytes \<Rightarrow> (bool \<times> asn1_string option) option" where
  "time_set_string ty check al s str =
     (let t = string_on_stack ty str in
      do { ok \<leftarrow> check t;
           if ok
           then (case s of
                   None \<Rightarrow> Some (True, None)
                 | Some s' \<Rightarrow>
                     (case ASN1_STRING_set al s' (Some (str @ [0])) (as_length t) of
                        (False, s') \<Rightarrow> Some (False, Some s')
                      | (True, s') \<Rightarrow> Some (True, Some (s'\<lparr>as_type := ty\<rparr>))))
           else Some (False, s) })"

definition ASN1_UTCTIME_set_string :: "allocator \<Rightarrow> asn1_string option \<Rightarrow> bytes \<Rightarrow> (bool \<times> asn1_string option) option" where
  "ASN1_UTCTIME_set_string = time_set_string V_ASN1_UTCTIME ASN1_UTCTIME_check"

definition ASN1_GENERALIZEDTIME_set_string :: "allocator \<Rightarrow> asn1_string option \<Rightarrow> bytes \<Rightarrow> (bool \<times> asn1_string option) option" where
  "ASN1_GENERALIZEDTIME_set_string = time_set_string V_ASN1_GENERALIZEDTIME ASN1_GENERALIZEDTIME_check"

definition ASN1_TIME_set_string :: "allocator \<Rightarrow> asn1_string option \<Rightarrow> bytes \<Rightarrow> (bool \<times> asn1_string option) option" where
  "ASN1_TIME_set_string al s str =
     do { ok \<leftarrow> ASN1_TIME_check (string_on_stack V_ASN1_UTCTIME str);
          r \<leftarrow> (if ok then Some (Some V_ASN1_UTCTIME)
                else do { ok \<leftarrow> ASN1_TIME_check (string_on_stack V_ASN1_GENERALIZEDTIME str);
                          Some (if ok then Some V_ASN1_GENERALIZEDTIME else None) });
          case r of
            None \<Rightarrow> Some (False, s)
          | Some ty \<Rightarrow>
              (case s of
                 None \<Rightarrow> Some (True, None)
               | Some s' \<Rightarrow>
                   (case ASN1_STRING_copy al s' (Some (string_on_stack ty str)) of
                      (ok, s') \<Rightarrow> Some (ok, Some s'))) }"

section \<open>The code: printing\<close>

text \<open>
  \<open>OPENSSL_gmtime\<close> is the C library's \<open>gmtime_r\<close>: the calendar time of a number of seconds since
  1970, \<open>None\<close> when the year is not an \<open>int\<close>. Days are reduced to one period of 400 years.
\<close>

definition OPENSSL_gmtime :: "int \<Rightarrow> tm option" where
  "OPENSSL_gmtime t =
     (let days = t div 86400; secs = t mod 86400;
          (y, m, d) = julian_to_date (days mod 146097 + 2440588);
          year = y + 400 * (days div 146097) - 1900
      in if year < - 2147483648 \<or> year > 2147483647 then None
         else Some \<lparr>tm_year = year, tm_mon = m - 1, tm_mday = d, tm_hour = secs div 3600, tm_min = secs div 60 mod 60,
                    tm_sec = secs mod 60\<rparr>)"

text \<open>The conversion \<open>%0wd\<close>.\<close>

definition pad_decimal :: "nat \<Rightarrow> int \<Rightarrow> bytes" where
  "pad_decimal w v =
     (let ds = decimal (nat \<bar>v\<bar>); sign = (if v < 0 then [0x2D] else [])
      in sign @ replicate (w - length sign - length ds) 0x30 @ ds)"

text \<open>\<open>BIO_snprintf\<close> into the block \<open>p\<close>, with room for \<open>len\<close> bytes.\<close>

definition snprintf :: "bytes \<Rightarrow> nat \<Rightarrow> bytes \<Rightarrow> bytes" where
  "snprintf p len text = store_bytes p 0 (take (len - 1) text @ [0])"

definition time_text :: "bytes \<Rightarrow> tm \<Rightarrow> bytes" where
  "time_text year ts =
     year @ pad_decimal 2 (tm_mon ts + 1) @ pad_decimal 2 (tm_mday ts) @ pad_decimal 2 (tm_hour ts)
       @ pad_decimal 2 (tm_min ts) @ pad_decimal 2 (tm_sec ts) @ [0x5A]"

text \<open>The end of both \<open>_adj\<close> functions: a block of at least 20 bytes, the text and the fields.\<close>

definition time_store :: "allocator \<Rightarrow> asn1_string \<Rightarrow> int \<Rightarrow> bytes \<Rightarrow> asn1_string option" where
  "time_store al s ty text =
     (case (if as_data s = None \<or> as_length s < 20 then al 20 else as_data s) of
        None \<Rightarrow> None
      | Some p \<Rightarrow>
          (let p = snprintf p 20 text
           in Some (s\<lparr>as_data := Some p, as_length := int (strlen p), as_type := ty\<rparr>)))"

definition gmtime_adj :: "int \<Rightarrow> int \<Rightarrow> int \<Rightarrow> tm option" where
  "gmtime_adj t offset_day offset_sec =
     (case OPENSSL_gmtime t of
        None \<Rightarrow> None
      | Some ts \<Rightarrow> if offset_day \<noteq> 0 \<or> offset_sec \<noteq> 0 then OPENSSL_gmtime_adj ts offset_day offset_sec else Some ts)"

definition ASN1_UTCTIME_adj :: "allocator \<Rightarrow> asn1_string option \<Rightarrow> int \<Rightarrow> int \<Rightarrow> int \<Rightarrow> asn1_string option" where
  "ASN1_UTCTIME_adj al s t offset_day offset_sec =
     (case (case s of None \<Rightarrow> ASN1_STRING_type_new al V_ASN1_UTCTIME | Some s \<Rightarrow> Some s) of
        None \<Rightarrow> None
      | Some s \<Rightarrow>
          (case gmtime_adj t offset_day offset_sec of
             None \<Rightarrow> None
           | Some ts \<Rightarrow>
               if tm_year ts < 50 \<or> tm_year ts \<ge> 150 then None
               else time_store al s V_ASN1_UTCTIME (time_text (pad_decimal 2 (tm_year ts smod 100)) ts)))"

definition ASN1_GENERALIZEDTIME_adj :: "allocator \<Rightarrow> asn1_string option \<Rightarrow> int \<Rightarrow> int \<Rightarrow> int \<Rightarrow> asn1_string option" where
  "ASN1_GENERALIZEDTIME_adj al s t offset_day offset_sec =
     (case (case s of None \<Rightarrow> ASN1_STRING_type_new al V_ASN1_GENERALIZEDTIME | Some s \<Rightarrow> Some s) of
        None \<Rightarrow> None
      | Some s \<Rightarrow>
          (case gmtime_adj t offset_day offset_sec of
             None \<Rightarrow> None
           | Some ts \<Rightarrow>
               if tm_year ts < 0 - 1900 \<or> tm_year ts > 9999 - 1900 then None
               else time_store al s V_ASN1_GENERALIZEDTIME (time_text (pad_decimal 4 (tm_year ts + 1900)) ts)))"

definition ASN1_TIME_adj :: "allocator \<Rightarrow> asn1_string option \<Rightarrow> int \<Rightarrow> int \<Rightarrow> int \<Rightarrow> asn1_string option" where
  "ASN1_TIME_adj al s t offset_day offset_sec =
     (case gmtime_adj t offset_day offset_sec of
        None \<Rightarrow> None
      | Some ts \<Rightarrow>
          if tm_year ts \<ge> 50 \<and> tm_year ts < 150 then ASN1_UTCTIME_adj al s t offset_day offset_sec
          else ASN1_GENERALIZEDTIME_adj al s t offset_day offset_sec)"

definition ASN1_UTCTIME_set :: "allocator \<Rightarrow> asn1_string option \<Rightarrow> int \<Rightarrow> asn1_string option" where
  "ASN1_UTCTIME_set al s t = ASN1_UTCTIME_adj al s t 0 0"

definition ASN1_GENERALIZEDTIME_set :: "allocator \<Rightarrow> asn1_string option \<Rightarrow> int \<Rightarrow> asn1_string option" where
  "ASN1_GENERALIZEDTIME_set al s t = ASN1_GENERALIZEDTIME_adj al s t 0 0"

definition ASN1_TIME_set :: "allocator \<Rightarrow> asn1_string option \<Rightarrow> int \<Rightarrow> asn1_string option" where
  "ASN1_TIME_set al s t = ASN1_TIME_adj al s t 0 0"

section \<open>The code: comparing and converting\<close>

text \<open>\<open>stm\<close> is what the uninitialised \<open>struct tm\<close> holds.\<close>

definition ASN1_UTCTIME_cmp_time_t :: "tm \<Rightarrow> asn1_string \<Rightarrow> int \<Rightarrow> int option" where
  "ASN1_UTCTIME_cmp_time_t stm s t =
     do { (ok, stm) \<leftarrow> asn1_utctime_to_tm (Some stm) s;
          if \<not> ok then Some (- 2)
          else (case OPENSSL_gmtime t of
                  None \<Rightarrow> Some (- 2)
                | Some ttm \<Rightarrow>
                    (case OPENSSL_gmtime_diff ttm (the stm) of
                       None \<Rightarrow> Some (- 2)
                     | Some (day, sec) \<Rightarrow>
                         Some (if day > 0 then 1 else if day < 0 then - 1
                               else if sec > 0 then 1 else if sec < 0 then - 1 else 0))) }"

text \<open>\<open>now\<close> is the answer of \<open>time\<close>.\<close>

definition asn1_time_to_tm :: "int \<Rightarrow> tm \<Rightarrow> asn1_string option \<Rightarrow> (bool \<times> tm) option" where
  "asn1_time_to_tm now tm t =
     (case t of
        None \<Rightarrow> (case OPENSSL_gmtime now of Some tm \<Rightarrow> Some (True, tm) | None \<Rightarrow> Some (False, tm))
      | Some t \<Rightarrow>
          map_option (map_prod id the)
            (if as_type t = V_ASN1_UTCTIME then asn1_utctime_to_tm (Some tm) t
             else if as_type t = V_ASN1_GENERALIZEDTIME then asn1_generalizedtime_to_tm (Some tm) t
             else Some (False, Some tm)))"

definition ASN1_TIME_diff :: "int \<Rightarrow> tm \<Rightarrow> tm \<Rightarrow> asn1_string option \<Rightarrow> asn1_string option \<Rightarrow> (int \<times> int) option option" where
  "ASN1_TIME_diff now tm_from tm_to from_t to_t =
     do { (ok, tm_from) \<leftarrow> asn1_time_to_tm now tm_from from_t;
          if \<not> ok then Some None
          else do { (ok, tm_to) \<leftarrow> asn1_time_to_tm now tm_to to_t;
                    if \<not> ok then Some None else Some (OPENSSL_gmtime_diff tm_from tm_to) } }"

text \<open>
  The string functions of mem.c, on the block at \<open>dst\<close>; the source is a block with a terminator,
  or the read leaves it.
\<close>

definition c_string :: "bytes \<Rightarrow> bytes option" where
  "c_string s = (if 0 \<in> set s then Some (takeWhile (\<lambda>b. b \<noteq> 0) s) else None)"

definition OPENSSL_strlcpy :: "bytes \<Rightarrow> nat \<Rightarrow> bytes \<Rightarrow> nat \<Rightarrow> bytes" where
  "OPENSSL_strlcpy block dst src dst_size =
     (if dst_size = 0 then block else store_bytes block dst (take (dst_size - 1) src @ [0]))"

definition OPENSSL_strlcat :: "bytes \<Rightarrow> nat \<Rightarrow> bytes \<Rightarrow> nat \<Rightarrow> bytes" where
  "OPENSSL_strlcat block dst src dst_size =
     (let l = length (takeWhile (\<lambda>b. b \<noteq> 0) (take dst_size (drop dst block)))
      in OPENSSL_strlcpy block (dst + l) src (dst_size - l))"

text \<open>\<open>out\<close> is the object at \<open>*out\<close>, if any.\<close>

definition ASN1_TIME_to_generalizedtime :: "allocator \<Rightarrow> asn1_string \<Rightarrow> asn1_string option \<Rightarrow> asn1_string option option" where
  "ASN1_TIME_to_generalizedtime al t out =
     do { ok \<leftarrow> ASN1_TIME_check t;
          if \<not> ok then Some None
          else
            (case (case out of None \<Rightarrow> ASN1_STRING_type_new al V_ASN1_GENERALIZEDTIME | Some ret \<Rightarrow> Some ret) of
               None \<Rightarrow> Some None
             | Some ret \<Rightarrow>
                 if as_type t = V_ASN1_GENERALIZEDTIME then
                   (case ASN1_STRING_set al ret (as_data t) (as_length t) of
                      (ok, ret) \<Rightarrow> Some (if ok then Some ret else None))
                 else
                   (case ASN1_STRING_set al ret None (as_length t + 2) of
                      (False, _) \<Rightarrow> Some None
                    | (True, ret) \<Rightarrow>
                        (let newlen = nat (as_length t + 2 + 1); d = (case as_data t of None \<Rightarrow> [] | Some d \<Rightarrow> d) in
                         do { c \<leftarrow> char_at d 0;
                              src \<leftarrow> c_string d;
                              (let str = (case as_data ret of None \<Rightarrow> [] | Some str \<Rightarrow> str);
                                   str = OPENSSL_strlcpy str 0 (if c \<ge> 0x35 then [0x31, 0x39] else [0x32, 0x30]) newlen;
                                   str = OPENSSL_strlcat str 0 src newlen
                               in Some (Some (ret\<lparr>as_data := Some str\<rparr>))) }))) }"

section \<open>Reads stay inside a terminated string\<close>

definition terminated :: "asn1_string \<Rightarrow> bool" where
  "terminated d \<longleftrightarrow> 0 \<le> as_length d \<and> as_length d < int (length (block_of d)) \<and> block_of d ! nat (as_length d) = 0"

lemma char_at_some [simp]: "i < length a \<Longrightarrow> char_at a i = Some (a ! i)"
  by (simp add: char_at_def)

lemma digit_pair_reads:
  assumes "i < length a" "ok (i + 1) \<Longrightarrow> i + 1 < length a"
  obtains r where "digit_pair ok a i = Some r" "\<And>v j. r = Some (v, j) \<Longrightarrow> j = i + 2 \<and> ok j"
  using assms that by (cases "is_digit (a ! i)"; cases "ok (i + 1)"; cases "ok (i + 2)"; cases "is_digit (a ! (i + 1))")
    (auto simp: digit_pair_def)

lemma time_fields_reads:
  assumes "i \<le> l" "l < length a"
  shows "\<exists>r tm'. time_fields sec store a l n limits i tm = Some (r, tm') \<and> (\<forall>j. r = Some j \<longrightarrow> j \<le> l)"
  using assms
proof (induction sec store a l n limits i tm rule: time_fields.induct)
  case (2 sec store a l n lo hi limits i tm)
  obtain r where r: "digit_pair (\<lambda>j. \<not> j > l) a i = Some r" "\<And>v j. r = Some (v, j) \<Longrightarrow> j = i + 2 \<and> \<not> l < j"
    by (rule digit_pair_reads [of i a "\<lambda>j. \<not> j > l"]) (use 2(2,3) in auto)
  let ?stop = "n = sec \<and> (a ! i = 0x5A \<or> a ! i = 0x2B \<or> a ! i = 0x2D)"
  have stop: "(if n = sec then do { c \<leftarrow> char_at a i; Some (c = 0x5A \<or> c = 0x2B \<or> c = 0x2D) } else Some False) = Some ?stop"
    using 2(2,3) by simp
  show ?case
  proof (cases "?stop \<or> r = None \<or> (\<exists>v j. r = Some (v, j) \<and> (v < lo \<or> v > hi))")
    case True
    then show ?thesis using 2(2) r unfolding time_fields.simps stop by auto
  next
    case False
    then obtain v j where vj: "r = Some (v, j)" "\<not> (v < lo \<or> v > hi)" by (cases r) auto
    then have "j \<le> l" using r(2) by auto
    with 2(1) [of False r "(v, j)" v j] 2(3) False r(1) vj stop show ?thesis
      unfolding time_fields.simps stop by auto
  qed
qed simp

lemma time_zone_reads:
  assumes "l < length a"
  shows "\<exists>r tm'. time_zone c a l i tm = Some (r, tm') \<and> (\<forall>j. r = Some j \<longrightarrow> j \<le> l)"
proof (cases "i + 4 > l")
  case False
  obtain r where r: "digit_pair (\<lambda>_. True) a i = Some r" "\<And>v j. r = Some (v, j) \<Longrightarrow> j = i + 2"
    by (rule digit_pair_reads [of i a "\<lambda>_. True"]) (use False assms in auto)
  obtain q where q: "digit_pair (\<lambda>_. True) a (i + 2) = Some q" "\<And>v j. q = Some (v, j) \<Longrightarrow> j = i + 2 + 2"
    by (rule digit_pair_reads [of "i + 2" a "\<lambda>_. True"]) (use False assms in auto)
  show ?thesis
    using False r q unfolding time_zone_def Let_def
    by (cases r; cases q; cases tm) (auto simp: Let_def split: option.splits)
qed (auto simp: time_zone_def)

lemma fraction_reads:
  assumes "i \<le> l" "l < length a" "\<not> is_digit (a ! l)"
  shows "\<exists>j. fraction_loop a l i = Some j \<and> i \<le> j \<and> j \<le> l"
  using assms
proof (induction a l i rule: fraction_loop.induct)
  case (1 a l i)
  then have i: "char_at a i = Some (a ! i)" by simp
  show ?case
  proof (cases "is_digit (a ! i)")
    case True
    then have "i < l" using 1(2,4) by (cases "i = l") auto
    with 1(1) [OF i] 1(3,4) True show ?thesis by (subst fraction_loop.simps) (auto simp: i)
  next
    case False
    then show ?thesis using 1(2) by (subst fraction_loop.simps) (simp add: i)
  qed
qed

lemma block: "(case as_data d of None \<Rightarrow> [] | Some a \<Rightarrow> a) = block_of d"
  by (simp add: block_of_def)

lemma fraction_in:
  assumes "i \<le> l" "l < length a" "a ! l = 0"
  shows "\<exists>r. gen_fraction a l i = Some r \<and> (\<forall>j. r = Some j \<longrightarrow> j \<le> l)"
proof (cases "a ! i = 0x2E \<and> i + 1 \<le> l")
  case True
  then obtain j where "fraction_loop a l (i + 1) = Some j" "i + 1 \<le> j" "j \<le> l"
    using fraction_reads [of "i + 1" l a] assms by (auto simp: is_digit_def)
  with True assms show ?thesis by (auto simp: gen_fraction_def)
qed (use assms in \<open>auto simp: gen_fraction_def\<close>)

lemma zone_in:
  assumes "i \<le> l" "l < length a"
  shows "utc_zone a l i tm \<noteq> None" "gen_zone a l i tm \<noteq> None"
  using time_zone_reads [OF assms(2), of "a ! i" "i + 1" tm] assms by (auto simp: utc_zone_def gen_zone_def)

lemma utctime_reads:
  assumes "0 \<le> as_length d" "as_length d < int (length (block_of d))"
  shows "asn1_utctime_to_tm tm d \<noteq> None"
proof -
  have l: "nat (as_length d) < length (block_of d)" using assms by simp
  obtain r tm' where "time_fields 5 utc_store (block_of d) (nat (as_length d)) 0 utc_limits 0 tm = Some (r, tm')"
    "\<forall>j. r = Some j \<longrightarrow> j \<le> nat (as_length d)" using time_fields_reads l by blast
  with zone_in(1) [OF _ l] show ?thesis by (auto simp: asn1_utctime_to_tm_def block Let_def split: option.split)
qed

lemma generalizedtime_reads:
  assumes "terminated d"
  shows "asn1_generalizedtime_to_tm tm d \<noteq> None"
proof -
  have l: "nat (as_length d) < length (block_of d)" "block_of d ! nat (as_length d) = 0"
    using assms by (auto simp: terminated_def nat_less_iff)
  obtain r tm' where r: "time_fields 6 gen_store (block_of d) (nat (as_length d)) 0 gen_limits 0 tm = Some (r, tm')"
    "\<forall>j. r = Some j \<longrightarrow> j \<le> nat (as_length d)" using time_fields_reads l(1) by blast
  show ?thesis
  proof (cases r)
    case (Some i)
    then obtain q where "gen_fraction (block_of d) (nat (as_length d)) i = Some q" "\<forall>j. q = Some j \<longrightarrow> j \<le> nat (as_length d)"
      using fraction_in [OF _ l] r(2) by blast
    with Some r(1) zone_in(2) [OF _ l(1)] show ?thesis
      by (auto simp: asn1_generalizedtime_to_tm_def block Let_def split: option.split)
  qed (use r(1) in \<open>auto simp: asn1_generalizedtime_to_tm_def block Let_def\<close>)
qed

section \<open>The fields after a successful parse\<close>

fun apply_fields :: "(nat \<Rightarrow> int \<Rightarrow> tm \<Rightarrow> tm) \<Rightarrow> nat \<Rightarrow> int list \<Rightarrow> tm \<Rightarrow> tm" where
  "apply_fields store n [] tm = tm"
| "apply_fields store n (v # vs) tm = apply_fields store (Suc n) vs (store n v tm)"

definition within :: "int \<Rightarrow> int \<times> int \<Rightarrow> bool" where
  "within v lim \<longleftrightarrow> fst lim \<le> v \<and> v \<le> snd lim"

text \<open>The values do not depend on the time that is filled in.\<close>

lemma time_fields_values:
  assumes "n + length limits = Suc sec" "within 0 (last limits)" "\<And>tm. store sec 0 tm = tm\<lparr>tm_sec := 0\<rparr>" "limits \<noteq> []"
    "time_fields sec store a l n limits i tm = Some (Some j, tm')"
  shows "\<exists>vs. list_all2 within vs limits
    \<and> (\<forall>tm. time_fields sec store a l n limits i tm = Some (Some j, map_option (apply_fields store n vs) tm))"
  using assms
proof (induction sec store a l n limits i tm rule: time_fields.induct)
  case (2 sec store a l n lo hi limits i tm)
  from 2(6) obtain stop where stop: "(if n = sec then do { c \<leftarrow> char_at a i; Some (c = 0x5A \<or> c = 0x2B \<or> c = 0x2D) } else Some False) = Some stop"
    by (auto simp: bind_eq_Some_conv)
  show ?case
  proof (cases stop)
    case True
    then have n: "n = sec" using stop by (auto split: if_splits)
    then have "limits = []" "within 0 (lo, hi)" using 2(2,3) by simp_all
    moreover have "j = i" using 2(6) True unfolding time_fields.simps stop by simp
    moreover have "map_option (tm_sec_update (\<lambda>_. 0)) tm = map_option (store n 0) tm" for tm using 2(4) n by (cases tm) simp_all
    ultimately show ?thesis using True unfolding time_fields.simps stop
      by (intro exI [of _ "[0]"]) (auto simp: option.map_comp comp_def intro!: option.map_cong)
  next
    case False
    with 2(6) stop obtain v k where v: "digit_pair (\<lambda>j. \<not> j > l) a i = Some (Some (v, k))" "\<not> (v < lo \<or> v > hi)"
      and rest: "time_fields sec store a l (Suc n) limits k (map_option (store n v) tm) = Some (Some j, tm')"
      unfolding time_fields.simps stop by (auto simp: bind_eq_Some_conv split: option.splits if_splits)
    have w: "within v (lo, hi)" using v(2) by (simp add: within_def)
    have step: "time_fields sec store a l n ((lo, hi) # limits) i tm = time_fields sec store a l (Suc n) limits k (map_option (store n v) tm)" for tm
      using False v unfolding time_fields.simps stop by simp
    have "\<exists>vs. list_all2 within vs limits
      \<and> (\<forall>tm. time_fields sec store a l (Suc n) limits k tm = Some (Some j, map_option (apply_fields store (Suc n) vs) tm))"
    proof (cases "limits = []")
      case True
      moreover have "map_option (apply_fields store (Suc n) []) tm = tm" for tm by (cases tm) simp_all
      ultimately show ?thesis using rest by auto
    next
      case False
      then show ?thesis using 2(1) [of False "Some (v, k)" "(v, k)" v k] stop \<open>\<not> stop\<close> v rest 2(2,3,4) by auto
    qed
    then obtain vs where vs: "list_all2 within vs limits"
      "\<And>tm. time_fields sec store a l (Suc n) limits k tm = Some (Some j, map_option (apply_fields store (Suc n) vs) tm)" by blast
    show ?thesis
      by (intro exI [of _ "v # vs"]) (simp add: vs w step option.map_comp comp_def del: time_fields.simps)
  qed
qed simp

lemma utc_values:
  assumes "time_fields 5 utc_store a l 0 utc_limits 0 tm = Some (Some j, tm')"
  obtains t where "tm_ranges t" "50 \<le> tm_year t" "tm_year t \<le> 149"
    "\<And>tm. time_fields 5 utc_store a l 0 utc_limits 0 tm = Some (Some j, map_option (\<lambda>_. t) tm)"
proof -
  from time_fields_values [OF _ _ _ _ assms] obtain vs where vs: "list_all2 within vs utc_limits"
    "\<And>tm. time_fields 5 utc_store a l 0 utc_limits 0 tm = Some (Some j, map_option (apply_fields utc_store 0 vs) tm)"
    by (auto simp: utc_limits_def within_def utc_store_def)
  from vs(1) obtain y mo d h mi s where f: "vs = [y, mo, d, h, mi, s]" "0 \<le> y" "y \<le> 99" "1 \<le> mo" "mo \<le> 12" "1 \<le> d" "d \<le> 31"
    "0 \<le> h" "h \<le> 23" "0 \<le> mi" "mi \<le> 59" "0 \<le> s" "s \<le> 59"
    by (auto simp: utc_limits_def list_all2_Cons2 within_def)
  let ?t = "\<lparr>tm_year = (if y < 50 then y + 100 else y), tm_mon = mo - 1, tm_mday = d, tm_hour = h, tm_min = mi, tm_sec = s\<rparr>"
  have "apply_fields utc_store 0 vs = (\<lambda>_. ?t)" by (intro ext) (simp add: f(1) utc_store_def)
  with vs(2) show thesis by (intro that [of ?t]) (use f in \<open>simp_all add: tm_ranges_def\<close>)
qed

lemma gen_values:
  assumes "time_fields 6 gen_store a l 0 gen_limits 0 tm = Some (Some j, tm')"
  obtains t where "tm_ranges t" "- 1900 \<le> tm_year t" "tm_year t \<le> 8099"
    "\<And>tm. time_fields 6 gen_store a l 0 gen_limits 0 tm = Some (Some j, map_option (\<lambda>_. t) tm)"
proof -
  from time_fields_values [OF _ _ _ _ assms] obtain vs where vs: "list_all2 within vs gen_limits"
    "\<And>tm. time_fields 6 gen_store a l 0 gen_limits 0 tm = Some (Some j, map_option (apply_fields gen_store 0 vs) tm)"
    by (auto simp: gen_limits_def within_def gen_store_def)
  from vs(1) obtain c y mo d h mi s where f: "vs = [c, y, mo, d, h, mi, s]" "0 \<le> c" "c \<le> 99" "0 \<le> y" "y \<le> 99" "1 \<le> mo" "mo \<le> 12"
    "1 \<le> d" "d \<le> 31" "0 \<le> h" "h \<le> 23" "0 \<le> mi" "mi \<le> 59" "0 \<le> s" "s \<le> 59"
    by (auto simp: gen_limits_def list_all2_Cons2 within_def)
  let ?t = "\<lparr>tm_year = c * 100 - 1900 + y, tm_mon = mo - 1, tm_mday = d, tm_hour = h, tm_min = mi, tm_sec = s\<rparr>"
  have "apply_fields gen_store 0 vs = (\<lambda>_. ?t)" by (intro ext) (simp add: f(1) gen_store_def)
  with vs(2) show thesis by (intro that [of ?t]) (use f in \<open>simp_all add: tm_ranges_def\<close>)
qed

lemma digit_pair_small: "digit_pair ok a i = Some (Some (v, j)) \<Longrightarrow> 0 \<le> v \<and> v \<le> 99"
proof -
  assume "digit_pair ok a i = Some (Some (v, j))"
  then obtain c c' where c: "is_digit c" "is_digit c'" "v = (uint c - 48) * 10 + (uint c' - 48)"
    by (auto simp: digit_pair_def bind_eq_Some_conv split: if_splits)
  have "48 \<le> uint b \<and> uint b \<le> 57" if "is_digit b" for b :: u8
    using that by (simp add: is_digit_def word_less_def word_le_def)
  from this [OF c(1)] this [OF c(2)] show ?thesis unfolding c(3) by auto
qed

lemma time_zone_cases:
  assumes "time_zone c a l i (Some t) = Some (Some j, tm')"
  obtains "tm' = Some t" "time_zone c a l i None = Some (Some j, None)"
    | off u where "time_zone c a l i None = Some (Some j, None)" "OPENSSL_gmtime_adj t 0 off = Some u" "tm' = Some u" "\<bar>off\<bar> \<le> 46740"
proof -
  define s :: int where "s = (if c = 0x2D then 1 else - 1)"
  have l: "\<not> i + 4 > l" using assms by (auto simp: time_zone_def)
  note z = assms [unfolded time_zone_def Let_def s_def [symmetric] if_not_P [OF l]]
  from z obtain qh where qh: "digit_pair (\<lambda>_. True) a i = Some qh" by (cases "digit_pair (\<lambda>_. True) a i") simp_all
  note z = z [unfolded qh Option.bind.simps]
  from z obtain h k where vh: "qh = Some (h, k)" by (cases qh) auto
  note z = z [unfolded vh option.case prod.case]
  from z have oh: "\<not> (h < 0 \<or> h > 12)" by auto
  note z = z [unfolded if_not_P [OF oh]]
  from z obtain qm where qm: "digit_pair (\<lambda>_. True) a k = Some qm" by (cases "digit_pair (\<lambda>_. True) a k") simp_all
  note z = z [unfolded qm Option.bind.simps]
  from z obtain m k' where vm: "qm = Some (m, k')" by (cases qm) auto
  note z = z [unfolded vm option.case prod.case]
  from z have om: "\<not> (m < 0 \<or> m > 59)" by auto
  note z = z [unfolded if_not_P [OF om]]
  define off where "off = (h * 3600 + m * 60) * s"
  have "\<bar>off\<bar> \<le> 46740" using oh om by (simp add: off_def s_def abs_mult)
  moreover have "k' = j" using z by (auto split: if_splits option.splits)
  then have "time_zone c a l i None = Some (Some j, None)"
    unfolding time_zone_def Let_def if_not_P [OF l] qh Option.bind.simps vh option.case prod.case if_not_P [OF oh]
      qm vm if_not_P [OF om] by simp
  ultimately show thesis using z that(1) that(2) [of off] unfolding off_def [symmetric]
    by (cases "OPENSSL_gmtime_adj t 0 off") (auto split: if_splits)
qed

lemma time_zone_values:
  assumes t: "tm_ranges t" "- 1900 \<le> tm_year t" "tm_year t \<le> 8099"
    and z: "time_zone c a l i (Some t) = Some (Some j, tm')"
  obtains t' where "tm' = Some t'" "tm_ranges t'" "- 1900 \<le> tm_year t'" "tm_year t' \<le> 8099" "time_zone c a l i None = Some (Some j, None)"
  using z
proof (rule time_zone_cases)
  assume "tm' = Some t" "time_zone c a l i None = Some (Some j, None)"
  then show thesis using that t by simp
next
  fix off u
  assume u: "OPENSSL_gmtime_adj t 0 off = Some u" "tm' = Some u" "\<bar>off\<bar> \<le> 46740" "time_zone c a l i None = Some (Some j, None)"
  then have "offset_ok 0 off" by (simp add: offset_ok_def SECS_PER_DAY_def)
  from gmtime_adj_exact [OF t this, of u] u that valid_tm_ranges show thesis by simp
qed

lemma zone_values:
  assumes t: "tm_ranges t" "- 1900 \<le> tm_year t" "tm_year t \<le> 8099"
    and zone: "zone = utc_zone \<or> zone = gen_zone" and z: "zone a l i (Some t) = Some (True, tm')"
  obtains t' where "tm' = Some t'" "tm_ranges t'" "- 1900 \<le> tm_year t'" "tm_year t' \<le> 8099" "zone a l i None = Some (True, None)"
proof -
  from zone z obtain c where c: "char_at a i = Some c" by (auto simp: utc_zone_def gen_zone_def bind_eq_Some_conv)
  show thesis
  proof (cases "c = 0x2B \<or> c = 0x2D")
    case True
    then have "c \<noteq> 0x5A" by auto
    then have eq: "zone a l i tm = time_zone c a l (i + 1) tm \<bind> (\<lambda>(r, tm). Some (r = Some l, tm))" for tm
      using zone c True by (auto simp: utc_zone_def gen_zone_def)
    from z have "time_zone c a l (i + 1) (Some t) = Some (Some l, tm')" unfolding eq by (auto simp: bind_eq_Some_conv)
    from time_zone_values [OF t this] obtain t' where t': "tm' = Some t'" "tm_ranges t'" "- 1900 \<le> tm_year t'" "tm_year t' \<le> 8099"
      "time_zone c a l (i + 1) None = Some (Some l, None)" by blast
    have "zone a l i None = Some (True, None)" unfolding eq t'(5) by simp
    then show thesis using that t' by blast
  next
    case False
    have u: "utc_zone a l i tm = Some (if c = 0x5A then i + 1 = l else i = l, tm)" for tm
      using False by (simp add: utc_zone_def c)
    have g: "gen_zone a l i tm = Some (if c = 0x5A then i + 1 = l else c = 0 \<and> i = l, tm)" for tm
      using False by (simp add: gen_zone_def c)
    have "\<exists>b. \<forall>tm. zone a l i tm = Some (b, tm)" using zone u g by blast
    then have "tm' = Some t" "zone a l i None = Some (True, None)" using z by auto
    with t that show thesis by blast
  qed
qed

text \<open>What a parser gives: a time with its fields in range, whatever time it was given, and the check agrees.\<close>

definition time_parses :: "(tm option \<Rightarrow> (bool \<times> tm option) option) \<Rightarrow> tm \<Rightarrow> bool" where
  "time_parses f t \<longleftrightarrow> tm_ranges t \<and> - 1900 \<le> tm_year t \<and> tm_year t \<le> 8099
     \<and> (\<forall>tm. f (Some tm) = Some (True, Some t)) \<and> f None = Some (True, None)"

lemma utctime_values:
  assumes "asn1_utctime_to_tm (Some tm) d = Some (True, tm')"
  obtains t where "tm' = Some t" "time_parses (\<lambda>tm. asn1_utctime_to_tm tm d) t"
proof -
  let ?a = "block_of d" and ?l = "nat (as_length d)"
  have d: "as_type d = V_ASN1_UTCTIME" "\<not> as_length d < 11" using assms by (auto simp: asn1_utctime_to_tm_def Let_def split: if_splits)
  note def = asn1_utctime_to_tm_def block Let_def d(1) if_not_P [OF d(2)] simp_thms if_False
  from assms obtain i tm1 where f: "time_fields 5 utc_store ?a ?l 0 utc_limits 0 (Some tm) = Some (Some i, tm1)"
    and z: "utc_zone ?a ?l i tm1 = Some (True, tm')"
    unfolding def by (auto simp: bind_eq_Some_conv split: option.splits)
  obtain t where t: "tm_ranges t" "50 \<le> tm_year t" "tm_year t \<le> 149"
    "\<And>tm. time_fields 5 utc_store ?a ?l 0 utc_limits 0 tm = Some (Some i, map_option (\<lambda>_. t) tm)"
    using utc_values [OF f] by metis
  have y: "- 1900 \<le> tm_year t" "tm_year t \<le> 8099" using t(2,3) by simp_all
  have tm1: "tm1 = Some t" using f t(4) by simp
  from zone_values [where zone = utc_zone, OF t(1) y disjI1 [OF refl] z [unfolded tm1]] obtain t' where t': "tm' = Some t'" "tm_ranges t'" "- 1900 \<le> tm_year t'"
    "tm_year t' \<le> 8099" "utc_zone ?a ?l i None = Some (True, None)" by blast
  then have "time_parses (\<lambda>tm. asn1_utctime_to_tm tm d) t'"
    using t(4) z unfolding time_parses_def def tm1 by simp
  with t'(1) that show thesis by blast
qed

lemma generalizedtime_values:
  assumes "asn1_generalizedtime_to_tm (Some tm) d = Some (True, tm')"
  obtains t where "tm' = Some t" "time_parses (\<lambda>tm. asn1_generalizedtime_to_tm tm d) t"
proof -
  let ?a = "block_of d" and ?l = "nat (as_length d)"
  have d: "as_type d = V_ASN1_GENERALIZEDTIME" "\<not> as_length d < 13" using assms by (auto simp: asn1_generalizedtime_to_tm_def Let_def split: if_splits)
  note def = asn1_generalizedtime_to_tm_def block Let_def d(1) if_not_P [OF d(2)] simp_thms if_False
  from assms obtain i k tm1 where f: "time_fields 6 gen_store ?a ?l 0 gen_limits 0 (Some tm) = Some (Some i, tm1)"
    and k: "gen_fraction ?a ?l i = Some (Some k)" and z: "gen_zone ?a ?l k tm1 = Some (True, tm')"
    unfolding def by (auto simp: bind_eq_Some_conv split: option.splits)
  obtain t where t: "tm_ranges t" "- 1900 \<le> tm_year t" "tm_year t \<le> 8099"
    "\<And>tm. time_fields 6 gen_store ?a ?l 0 gen_limits 0 tm = Some (Some i, map_option (\<lambda>_. t) tm)"
    using gen_values [OF f] by metis
  have tm1: "tm1 = Some t" using f t(4) by simp
  from zone_values [where zone = gen_zone, OF t(1,2,3) disjI2 [OF refl] z [unfolded tm1]] obtain t' where t': "tm' = Some t'" "tm_ranges t'" "- 1900 \<le> tm_year t'"
    "tm_year t' \<le> 8099" "gen_zone ?a ?l k None = Some (True, None)" by blast
  then have "time_parses (\<lambda>tm. asn1_generalizedtime_to_tm tm d) t'"
    using t(4) z k unfolding time_parses_def def tm1 by simp
  with t'(1) that show thesis by blast
qed

lemma to_tm_values:
  assumes "asn1_time_to_tm now tm (Some d) = Some (True, t)"
  shows "tm_ranges t \<and> - 1900 \<le> tm_year t \<and> tm_year t \<le> 8099
    \<and> asn1_time_to_tm now tm1 (Some d) = Some (True, t) \<and> ASN1_TIME_check d = Some True"
proof -
  from assms consider (utc) tm' where "as_type d = V_ASN1_UTCTIME" "t = the tm'" "asn1_utctime_to_tm (Some tm) d = Some (True, tm')"
    | (gen) tm' where "as_type d \<noteq> V_ASN1_UTCTIME" "as_type d = V_ASN1_GENERALIZEDTIME" "t = the tm'" "asn1_generalizedtime_to_tm (Some tm) d = Some (True, tm')"
    by (auto simp: asn1_time_to_tm_def split: if_splits)
  then show ?thesis
  proof cases
    case utc
    obtain u where "tm' = Some u" "time_parses (\<lambda>tm. asn1_utctime_to_tm tm d) u" by (rule utctime_values [OF utc(3)])
    with utc(1,2) show ?thesis
      by (simp add: time_parses_def asn1_time_to_tm_def ASN1_TIME_check_def ASN1_UTCTIME_check_def V_ASN1_UTCTIME_def V_ASN1_GENERALIZEDTIME_def)
  next
    case gen
    obtain u where "tm' = Some u" "time_parses (\<lambda>tm. asn1_generalizedtime_to_tm tm d) u" by (rule generalizedtime_values [OF gen(4)])
    with gen(1,2,3) show ?thesis
      by (simp add: time_parses_def asn1_time_to_tm_def ASN1_TIME_check_def ASN1_GENERALIZEDTIME_check_def)
  qed
qed

section \<open>The calendar time of a number of seconds\<close>

definition unix_epoch :: int where
  "unix_epoch = 719163 * SECS_PER_DAY"

lemma years_shift:
  fixes y q :: int
  shows "days_before_year (400 * q + y) = 146097 * q + days_before_year y" "leap (400 * q + y) = leap y"
proof -
  define k s where "k = y div 400" and "s = y mod 400"
  have y: "y = 400 * k + s" "0 \<le> s" by (simp_all add: k_def s_def)
  have shift: "400 * q + y = 400 * (q + k) + s" using y(1) by simp
  show "days_before_year (400 * q + y) = 146097 * q + days_before_year y"
    unfolding shift years_period(1) [OF y(2)] by (subst y(1)) (simp add: years_period(1) [OF y(2)])
  show "leap (400 * q + y) = leap y"
    unfolding shift years_period(2) [OF y(2)] by (subst y(1)) (simp add: years_period(2) [OF y(2)])
qed

lemma gmtime_valid:
  assumes "OPENSSL_gmtime t = Some b"
  shows "valid_tm b" "epoch_secs b = unix_epoch + t"
proof -
  define days secs where "days = t div 86400" and "secs = t mod 86400"
  define q r where "q = days div 146097" and "r = days mod 146097"
  have r: "0 \<le> r" "r < 146097" "days = 146097 * q + r" by (simp_all add: q_def r_def)
  obtain y m d where date: "valid_date y m d" "date_to_julian y m d = r + 2440588" "- 4799 \<le> y" "y \<le> 2000000000"
    using date_of_day [of "r + 2440588"] r by auto
  have jd: "julian_to_date (r + 2440588) = (y, m, d)"
    using julian_to_date_to_julian [OF date(1,3,4)] unfolding date(2) .
  have count: "day_count y m d = r + 719163"
    using date_to_julian_day_count [of m y d] date by (simp add: valid_date_def)
  have b: "b = \<lparr>tm_year = y + 400 * q - 1900, tm_mon = m - 1, tm_mday = d, tm_hour = secs div 3600, tm_min = secs div 60 mod 60,
      tm_sec = secs mod 60\<rparr>"
    using assms by (auto simp: OPENSSL_gmtime_def Let_def jd days_def [symmetric] secs_def [symmetric] q_def [symmetric] r_def [symmetric] split: if_splits)
  have lp: "leap (y + 400 * q) = leap y" using years_shift(2) [of q y] by (simp add: add.commute)
  have cnt: "day_count (y + 400 * q) m d = days + 719163"
    using years_shift(1) [of q y] month_days_cong [OF lp] count r(3) by (simp add: day_count_def add.commute)
  have secs: "0 \<le> secs" "secs < 86400" by (simp_all add: secs_def)
  obtain h mi s where hms: "secs = h * 3600 + mi * 60 + s" "0 \<le> h" "h \<le> 23" "0 \<le> mi" "mi \<le> 59" "0 \<le> s" "s \<le> 59"
    using secs_split [of secs] secs by (auto simp: SECS_PER_DAY_def)
  have parts: "secs div 3600 = h" "secs div 60 mod 60 = mi" "secs mod 60 = s"
    using secs_parts [OF hms(2-)] hms(1) secs by (simp_all add: sdiv_div smod_mod pos_imp_zdiv_nonneg_iff)
  have "month_length (y + 400 * q) m = month_length y m" by (simp add: month_length_def lp)
  then show "valid_tm b" using date(1) hms(2-) by (simp add: b parts valid_tm_def valid_date_def)
  have "t = days * 86400 + (h * 3600 + mi * 60 + s)" unfolding hms(1) [symmetric] by (simp add: days_def secs_def)
  then show "epoch_secs b = unix_epoch + t"
    using cnt by (simp add: b parts epoch_secs_def day_secs_def unix_epoch_def SECS_PER_DAY_def)
qed

section \<open>Printing and parsing\<close>

fun fixed_digits :: "nat \<Rightarrow> nat \<Rightarrow> nat list" where
  "fixed_digits 0 n = []"
| "fixed_digits (Suc w) n = fixed_digits w (n div 10) @ [n mod 10]"

lemma length_fixed_digits [simp]: "length (fixed_digits w n) = w"
  by (induction w arbitrary: n) simp_all

lemma fixed_digits_0: "fixed_digits w 0 = replicate w 0"
  by (induction w) (simp_all add: replicate_append_same)

lemma padded_digits: "0 < w \<Longrightarrow> n < 10 ^ w \<Longrightarrow> length (digits 10 n) \<le> w \<and> replicate (w - length (digits 10 n)) 0 @ digits 10 n = fixed_digits w n"
proof (induction w arbitrary: n)
  case (Suc w)
  show ?case
  proof (cases "n < 10")
    case True
    then show ?thesis by (simp add: digits.simps [of 10 n] fixed_digits_0)
  next
    case False
    then have "0 < w" using Suc.prems by (cases w) simp_all
    moreover have "n div 10 < 10 ^ w" using Suc.prems(2) by (simp add: div_less_iff_less_mult mult.commute)
    ultimately have "length (digits 10 (n div 10)) \<le> w \<and> replicate (w - length (digits 10 (n div 10))) 0 @ digits 10 (n div 10) = fixed_digits w (n div 10)"
      using Suc.IH by blast
    then show ?thesis using False by (simp add: digits.simps [of 10 n])
  qed
qed simp

lemma pad_decimal_fixed:
  assumes "0 < w" "0 \<le> v" "v < 10 ^ w"
  shows "pad_decimal w v = map (\<lambda>d. of_nat (d + 0x30)) (fixed_digits w (nat v))"
proof -
  have "nat v < 10 ^ w" using assms(2,3) by (simp add: nat_less_iff)
  from padded_digits [OF assms(1) this] have "replicate (w - length (digits 10 (nat v))) 0 @ digits 10 (nat v) = fixed_digits w (nat v)" ..
  from arg_cong [OF this, of "map (\<lambda>d. of_nat (d + 0x30))"] show ?thesis
    using assms(2) by (simp add: pad_decimal_def decimal_def Let_def map_replicate_const)
qed

lemma pad_2: "0 \<le> v \<Longrightarrow> v \<le> 99 \<Longrightarrow> pad_decimal 2 v = [of_nat (nat v div 10 + 0x30), of_nat (nat v mod 10 + 0x30)]"
  by (subst pad_decimal_fixed) (simp_all add: numeral_2_eq_2)

lemma fixed_digits_2: "fixed_digits (w + 2) n = fixed_digits w (n div 100) @ fixed_digits 2 (n mod 100)"
proof -
  have "n mod 100 div 10 = n div 10 mod 10" using mod_mult2_eq [of n 10 10] by simp
  moreover have "n mod 100 mod 10 = n mod 10" by (rule mod_mod_cancel) simp
  ultimately show ?thesis by (simp add: numeral_2_eq_2 div_mult2_eq [of n 10 10, simplified])
qed

lemma pad_4: "0 \<le> y \<Longrightarrow> y \<le> 9999 \<Longrightarrow> pad_decimal 4 y = pad_decimal 2 (y div 100) @ pad_decimal 2 (y mod 100)"
proof -
  assume y: "0 \<le> y" "y \<le> 9999"
  then have d: "0 \<le> y div 100" "y div 100 < 100" by (simp_all add: pos_imp_zdiv_nonneg_iff)
  have n: "nat (y div 100) = nat y div 100" "nat (y mod 100) = nat y mod 100"
    using y by (simp_all add: nat_div_distrib nat_mod_distrib)
  have "pad_decimal 4 y = map (\<lambda>d. of_nat (d + 0x30)) (fixed_digits (2 + 2) (nat y))"
    using pad_decimal_fixed [of 4 y] y by simp
  also have "\<dots> = pad_decimal 2 (y div 100) @ pad_decimal 2 (y mod 100)"
    using pad_decimal_fixed [of 2 "y div 100"] pad_decimal_fixed [of 2 "y mod 100"] d unfolding fixed_digits_2 by (simp add: n)
  finally show ?thesis .
qed

text \<open>Two digits are read as they were printed.\<close>

lemma time_digit_byte:
  assumes "d < 10"
  shows "is_digit (of_nat (d + 0x30))" "uint (of_nat (d + 0x30) :: u8) = int d + 48" "(of_nat (d + 0x30) :: u8) \<noteq> 0"
proof -
  define c :: u8 where "c = of_nat (d + 0x30)"
  have u: "unat c = d + 0x30" unfolding c_def using assms by (intro unat_of_nat_small) simp
  have "uint c = int (unat c)" by simp
  then show "uint (of_nat (d + 0x30) :: u8) = int d + 48" unfolding c_def [symmetric] u by simp
  show "is_digit (of_nat (d + 0x30))" unfolding c_def [symmetric] is_digit_def word_less_nat_alt u using assms by simp
  have "c \<noteq> 0" using u by auto
  then show "(of_nat (d + 0x30) :: u8) \<noteq> 0" unfolding c_def .
qed

lemma digit_pair_pad:
  assumes "0 \<le> v" "v \<le> 99" "ok (length pre + 1)" "ok (length pre + 2)" "a = pre @ pad_decimal 2 v @ post"
  shows "digit_pair ok a (length pre) = Some (Some (v, length pre + 2))" "is_digit (a ! length pre)"
proof -
  define p q where "p = nat v div 10" and "q = nat v mod 10"
  have "nat v = p * 10 + q" unfolding p_def q_def by simp
  then have pq: "p < 10" "q < 10" "v = int p * 10 + int q"
    using assms(1,2) by (simp_all add: q_def)
  have a: "a = pre @ of_nat (p + 0x30) # of_nat (q + 0x30) # post"
    unfolding assms(5) pad_2 [OF assms(1,2)] p_def q_def by simp
  have n: "a ! length pre = of_nat (p + 0x30)" "a ! (length pre + 1) = of_nat (q + 0x30)" "length pre + 1 < length a"
    unfolding a by (simp_all add: nth_append)
  show "is_digit (a ! length pre)" unfolding n by (rule time_digit_byte(1) [OF pq(1)])
  show "digit_pair ok a (length pre) = Some (Some (v, length pre + 2))"
    using n(3) assms(3,4) time_digit_byte(1,2) [OF pq(1)] time_digit_byte(1,2) [OF pq(2)] pq(3)
    unfolding digit_pair_def by (simp add: n n(2) [unfolded Suc_eq_plus1 [symmetric]] del: of_nat_add)
qed

text \<open>So are all fields.\<close>

lemma fields_parse:
  assumes "length limits = length vs" "list_all2 within vs limits" "\<forall>v\<in>set vs. 0 \<le> v \<and> v \<le> 99"
    "a = pre @ concat (map (pad_decimal 2) vs) @ post" "length pre + 2 * length vs \<le> l"
  shows "time_fields sec store a l n limits (length pre) tm = Some (Some (length pre + 2 * length vs), map_option (apply_fields store n vs) tm)"
  using assms
proof (induction limits vs arbitrary: pre n tm rule: list_induct2)
  case Nil
  then show ?case by (cases tm) simp_all
next
  case (Cons lim limits v vs)
  obtain lo hi where lim: "lim = (lo, hi)" by (cases lim)
  have v: "0 \<le> v" "v \<le> 99" "\<not> (v < lo \<or> v > hi)" using Cons.prems lim by (simp_all add: within_def)
  have a: "a = pre @ pad_decimal 2 v @ (concat (map (pad_decimal 2) vs) @ post)" using Cons.prems by simp
  have p: "digit_pair (\<lambda>j. \<not> j > l) a (length pre) = Some (Some (v, length pre + 2))" "is_digit (a ! length pre)"
    using digit_pair_pad [OF v(1,2) _ _ a, of "\<lambda>j. \<not> j > l"] Cons.prems(4) by simp_all
  have "length pre < length a" unfolding a pad_2 [OF v(1,2)] by simp
  moreover have "\<not> (a ! length pre = 0x5A \<or> a ! length pre = 0x2B \<or> a ! length pre = 0x2D)"
    using p(2) by (auto simp: is_digit_def)
  ultimately have stop: "(if n = sec then do { c \<leftarrow> char_at a (length pre); Some (c = 0x5A \<or> c = 0x2B \<or> c = 0x2D) } else Some False) = Some False"
    by simp
  have "time_fields sec store a l (Suc n) limits (length (pre @ pad_decimal 2 v)) (map_option (store n v) tm) =
      Some (Some (length (pre @ pad_decimal 2 v) + 2 * length vs), map_option (apply_fields store (Suc n) vs) (map_option (store n v) tm))"
    by (rule Cons.IH) (use Cons.prems pad_2 [OF v(1,2)] in \<open>simp_all\<close>)
  then show ?case
    using v(3) pad_2 [OF v(1,2)] unfolding lim time_fields.simps stop p(1)
    by (cases tm) simp_all
qed

lemma pads_nonzero: "\<forall>v\<in>set vs. 0 \<le> v \<and> v \<le> 99 \<Longrightarrow> 0 \<notin> set (concat (map (pad_decimal 2) vs)) \<and> length (concat (map (pad_decimal 2) vs)) = 2 * length vs"
proof (induction vs)
  case (Cons v vs)
  define p q where "p = nat v div 10" and "q = nat v mod 10"
  have "p < 10" "q < 10" using Cons.prems by (auto simp: p_def q_def)
  note nz = time_digit_byte(3) [OF this(1)] time_digit_byte(3) [OF this(2)]
  have "pad_decimal 2 v = [of_nat (p + 0x30), of_nat (q + 0x30)]" using pad_2 [of v] Cons.prems by (simp add: p_def q_def)
  then show ?case using Cons nz by (simp del: of_nat_add)
qed simp

lemma year_pair: "0 \<le> y \<Longrightarrow> y \<le> 9999 \<Longrightarrow> 0 \<le> y div 100 \<and> y div 100 \<le> 99 \<and> 0 \<le> y mod 100 \<and> y mod 100 \<le> 99" for y :: int
  by (simp add: pos_imp_zdiv_nonneg_iff) linarith

lemma time_store_text:
  assumes al: "al_total al" and s: "string_ok s" and chars: "length chars \<le> 19" "0 \<notin> set chars"
  obtains s' rest where "time_store al s ty chars = Some s'" "block_of s' = chars @ 0 # rest" "as_length s' = int (length chars)"
    "as_type s' = ty" "string_ok s'"
proof -
  obtain p where p: "(if as_data s = None \<or> as_length s < 20 then al 20 else as_data s) = Some p" "20 \<le> length p"
  proof (cases "as_data s = None \<or> as_length s < 20")
    case True
    have "\<exists>p. al 20 = Some p" using al by (simp add: al_total_def)
    then obtain p where "al 20 = Some p" ..
    with True show thesis using that [of p] al by (simp add: al_total_def al_ok_def)
  next
    case False
    then show thesis using that s by (auto simp: string_ok_def block_of_def)
  qed
  let ?s = "s\<lparr>as_data := Some (snprintf p 20 chars), as_length := int (length chars), as_type := ty\<rparr>"
  have b: "snprintf p 20 chars = chars @ 0 # drop (length chars + 1) p" using chars(1) by (simp add: snprintf_def store_bytes_def)
  moreover have "takeWhile (\<lambda>b. b \<noteq> 0) (chars @ 0 # drop (length chars + 1) p) = chars"
    using chars(2) by (subst takeWhile_append2) auto
  ultimately have "strlen (snprintf p 20 chars) = length chars" by (simp add: strlen_def)
  then have "time_store al s ty chars = Some ?s" by (simp add: time_store_def p(1) Let_def)
  moreover have "string_ok ?s" using b chars(1) by (simp add: string_ok_def block_of_def INT_MAX_def)
  ultimately show thesis using b by (intro that [of ?s]) (simp_all add: block_of_def)
qed

lemma utc_text:
  assumes t: "valid_tm ts" "50 \<le> tm_year ts" "tm_year ts < 150"
    and s: "block_of s = time_text (pad_decimal 2 (tm_year ts smod 100)) ts @ 0 # rest" "as_length s = 13" "as_type s = V_ASN1_UTCTIME"
  shows "asn1_utctime_to_tm (Some tm) s = Some (True, Some ts)"
proof -
  let ?y = "tm_year ts mod 100"
  let ?vs = "[?y, tm_mon ts + 1, tm_mday ts, tm_hour ts, tm_min ts, tm_sec ts]"
  note r = valid_tm_ranges [OF t(1), unfolded tm_ranges_def]
  have y: "tm_year ts smod 100 = ?y" using t(2) by (simp add: smod_mod)
  have year: "(if ?y < 50 then ?y + 100 else ?y) = tm_year ts" using t(2,3) by presburger
  have a: "block_of s = [] @ concat (map (pad_decimal 2) ?vs) @ 0x5A # 0 # rest" unfolding s(1) y time_text_def by simp
  have small: "\<forall>v\<in>set ?vs. 0 \<le> v \<and> v \<le> 99" using r by simp
  have f: "time_fields 5 utc_store (block_of s) 13 0 utc_limits (length ([] :: bytes)) tm' = Some (Some (length ([] :: bytes) + 2 * length ?vs), map_option (apply_fields utc_store 0 ?vs) tm')" for tm'
    by (rule fields_parse [OF _ _ small a]) (use r in \<open>simp_all add: utc_limits_def within_def\<close>)
  have "length (concat (map (pad_decimal 2) ?vs)) = 12" using pads_nonzero [OF small] by simp
  then have z: "block_of s ! 12 = 0x5A" "12 < length (block_of s)" unfolding a by (simp_all add: nth_append del: concat.simps list.map)
  have "apply_fields utc_store 0 ?vs tm = ts" using year by (simp add: utc_store_def)
  then show ?thesis
    using f [of "Some tm"] z s(2,3) by (simp add: asn1_utctime_to_tm_def block Let_def utc_zone_def)
qed

lemma gen_text:
  assumes t: "valid_tm ts" "- 1900 \<le> tm_year ts" "tm_year ts \<le> 8099"
    and s: "block_of s = time_text (pad_decimal 4 (tm_year ts + 1900)) ts @ 0 # rest" "as_length s = 15" "as_type s = V_ASN1_GENERALIZEDTIME"
  shows "asn1_generalizedtime_to_tm (Some tm) s = Some (True, Some ts)"
proof -
  let ?y = "tm_year ts + 1900"
  let ?vs = "[?y div 100, ?y mod 100, tm_mon ts + 1, tm_mday ts, tm_hour ts, tm_min ts, tm_sec ts]"
  note r = valid_tm_ranges [OF t(1), unfolded tm_ranges_def]
  have y: "pad_decimal 4 ?y = pad_decimal 2 (?y div 100) @ pad_decimal 2 (?y mod 100)" using t(2,3) by (intro pad_4) simp_all
  have year: "?y div 100 * 100 - 1900 + ?y mod 100 = tm_year ts" by presburger
  have a: "block_of s = [] @ concat (map (pad_decimal 2) ?vs) @ 0x5A # 0 # rest" unfolding s(1) y time_text_def by simp
  have c: "0 \<le> ?y div 100" "?y div 100 \<le> 99" "0 \<le> ?y mod 100" "?y mod 100 \<le> 99" using year_pair [of ?y] t(2,3) by simp_all
  have small: "\<forall>v\<in>set ?vs. 0 \<le> v \<and> v \<le> 99" using r c by simp
  have f: "time_fields 6 gen_store (block_of s) 15 0 gen_limits (length ([] :: bytes)) tm' = Some (Some (length ([] :: bytes) + 2 * length ?vs), map_option (apply_fields gen_store 0 ?vs) tm')" for tm'
    by (rule fields_parse [OF _ _ small a]) (use r c in \<open>simp_all add: gen_limits_def within_def\<close>)
  have "length (concat (map (pad_decimal 2) ?vs)) = 14" using pads_nonzero [OF small] by simp
  then have z: "block_of s ! 14 = 0x5A" "14 < length (block_of s)" unfolding a by (simp_all add: nth_append del: concat.simps list.map)
  have "apply_fields gen_store 0 ?vs tm = ts" using year by (simp add: gen_store_def)
  then show ?thesis
    using f [of "Some tm"] z s(2,3) by (simp add: asn1_generalizedtime_to_tm_def block Let_def gen_fraction_def gen_zone_def)
qed

lemma time_adj_text:
  assumes al: "al_total al" and s: "case s of None \<Rightarrow> True | Some s \<Rightarrow> string_ok s"
    and u: "gmtime_adj t day sec = Some u" "valid_tm u" "- 1900 \<le> tm_year u" "tm_year u \<le> 8099"
  obtains r where "ASN1_TIME_adj al s t day sec = Some r" "string_ok r" "terminated r"
    "as_type r = (if 50 \<le> tm_year u \<and> tm_year u < 150 then V_ASN1_UTCTIME else V_ASN1_GENERALIZEDTIME)"
    "\<And>tm. asn1_time_to_tm now tm (Some r) = Some (True, u)"
proof -
  have new: "\<exists>s'. (case s of None \<Rightarrow> ASN1_STRING_type_new al ty | Some s \<Rightarrow> Some s) = Some s' \<and> string_ok s'" for ty
    using s al by (cases s) (auto simp: ASN1_STRING_type_new_def al_total_def string_ok_def block_of_def INT_MAX_def)
  note r = valid_tm_ranges [OF u(2), unfolded tm_ranges_def]
  show thesis
  proof (cases "50 \<le> tm_year u \<and> tm_year u < 150")
    case True
    obtain s' where s': "(case s of None \<Rightarrow> ASN1_STRING_type_new al V_ASN1_UTCTIME | Some s \<Rightarrow> Some s) = Some s'" "string_ok s'"
      using new by blast
    let ?vs = "[tm_year u smod 100, tm_mon u + 1, tm_mday u, tm_hour u, tm_min u, tm_sec u]"
    define chars where "chars = time_text (pad_decimal 2 (tm_year u smod 100)) u"
    have chars: "chars = concat (map (pad_decimal 2) ?vs) @ [0x5A]" by (simp add: chars_def time_text_def)
    have "\<forall>v\<in>set ?vs. 0 \<le> v \<and> v \<le> 99" using r True by (simp add: smod_mod)
    from pads_nonzero [OF this] have len: "length chars = 13" "0 \<notin> set chars" unfolding chars by (simp_all del: concat.simps list.map)
    obtain x rest where x: "time_store al s' V_ASN1_UTCTIME chars = Some x" "block_of x = chars @ 0 # rest" "as_length x = 13"
      "as_type x = V_ASN1_UTCTIME" "string_ok x"
      using time_store_text [OF al s'(2), of chars] len by auto
    show thesis
    proof (rule that [of x])
      show "ASN1_TIME_adj al s t day sec = Some x"
        using True x(1) by (simp add: ASN1_TIME_adj_def u(1) ASN1_UTCTIME_adj_def s'(1) chars_def)
      show "terminated x" using x(2,3) len(1) by (simp add: terminated_def nth_append)
      show "asn1_time_to_tm now tm (Some x) = Some (True, u)" for tm
        using utc_text [OF u(2) _ _ _ x(3,4)] True x(2,4) by (simp add: asn1_time_to_tm_def chars_def)
    qed (use x True in simp_all)
  next
    case False
    obtain s' where s': "(case s of None \<Rightarrow> ASN1_STRING_type_new al V_ASN1_GENERALIZEDTIME | Some s \<Rightarrow> Some s) = Some s'" "string_ok s'"
      using new by blast
    let ?y = "tm_year u + 1900"
    let ?vs = "[?y div 100, ?y mod 100, tm_mon u + 1, tm_mday u, tm_hour u, tm_min u, tm_sec u]"
    define chars where "chars = time_text (pad_decimal 4 ?y) u"
    have chars: "chars = concat (map (pad_decimal 2) ?vs) @ [0x5A]" using pad_4 [of ?y] u(3,4) by (simp add: chars_def time_text_def)
    have "\<forall>v\<in>set ?vs. 0 \<le> v \<and> v \<le> 99" using r year_pair [of ?y] u(3,4) by simp
    from pads_nonzero [OF this] have len: "length chars = 15" "0 \<notin> set chars" unfolding chars by (simp_all del: concat.simps list.map)
    obtain x rest where x: "time_store al s' V_ASN1_GENERALIZEDTIME chars = Some x" "block_of x = chars @ 0 # rest" "as_length x = 15"
      "as_type x = V_ASN1_GENERALIZEDTIME" "string_ok x"
      using time_store_text [OF al s'(2), of chars] len by auto
    show thesis
    proof (rule that [of x])
      show "ASN1_TIME_adj al s t day sec = Some x"
        using False x(1) u(3,4) by (auto simp: ASN1_TIME_adj_def u(1) ASN1_GENERALIZEDTIME_adj_def s'(1) chars_def)
      show "terminated x" using x(2,3) len(1) by (simp add: terminated_def nth_append)
      show "asn1_time_to_tm now tm (Some x) = Some (True, u)" for tm
        using gen_text [OF u(2,3,4) _ x(3,4)] x(2,4) by (simp add: asn1_time_to_tm_def chars_def V_ASN1_UTCTIME_def V_ASN1_GENERALIZEDTIME_def)
    qed (use x False in auto)
  qed
qed

section \<open>Comparing\<close>

lemma utctime_cmp:
  assumes s: "asn1_utctime_to_tm (Some tm) s = Some (True, Some stm)"
    and t: "OPENSSL_gmtime t = Some b" "- 1900 \<le> tm_year b" "tm_year b \<le> 8099"
  shows "ASN1_UTCTIME_cmp_time_t tm s t = Some (sgn (epoch_secs stm - (unix_epoch + t)))"
proof -
  obtain u where "Some stm = Some u" "time_parses (\<lambda>tm. asn1_utctime_to_tm tm s) u" by (rule utctime_values [OF s])
  then have r: "tm_ranges stm" "- 1900 \<le> tm_year stm" "tm_year stm \<le> 8099" by (simp_all add: time_parses_def)
  from gmtime_diff_exact [OF valid_tm_ranges [OF gmtime_valid(1) [OF t(1)]] t(2,3) r]
  obtain days secs where d: "OPENSSL_gmtime_diff b stm = Some (days, secs)"
    "epoch_secs stm = epoch_secs b + days * SECS_PER_DAY + secs" "\<bar>secs\<bar> < SECS_PER_DAY"
    "0 < days \<longrightarrow> 0 \<le> secs" "days < 0 \<longrightarrow> secs \<le> 0" by blast
  have "epoch_secs stm - (unix_epoch + t) = days * SECS_PER_DAY + secs" using d(2) gmtime_valid(2) [OF t(1)] by simp
  then have "sgn (epoch_secs stm - (unix_epoch + t)) = (if days > 0 then 1 else if days < 0 then - 1 else if secs > 0 then 1 else if secs < 0 then - 1 else 0)"
    using d(4,5) by (auto simp: sgn_if SECS_PER_DAY_def)
  then show ?thesis by (simp add: ASN1_UTCTIME_cmp_time_t_def s t(1) d(1))
qed

text \<open>The difference is \<open>to\<close> minus \<open>from\<close>: both parts are positive or zero when \<open>to\<close> is later.\<close>

lemma time_diff:
  assumes "asn1_time_to_tm now tm1 (Some from_t) = Some (True, f)" "asn1_time_to_tm now tm2 (Some to_t) = Some (True, t)"
  obtains days secs where "ASN1_TIME_diff now tm1 tm2 (Some from_t) (Some to_t) = Some (Some (days, secs))"
    "epoch_secs t - epoch_secs f = days * SECS_PER_DAY + secs" "\<bar>secs\<bar> < SECS_PER_DAY"
    "0 < days \<longrightarrow> 0 \<le> secs" "days < 0 \<longrightarrow> secs \<le> 0"
proof -
  have r: "tm_ranges f" "- 1900 \<le> tm_year f" "tm_year f \<le> 8099" "tm_ranges t" "- 1900 \<le> tm_year t" "tm_year t \<le> 8099"
    using to_tm_values [OF assms(1), of tm1] to_tm_values [OF assms(2), of tm1] by simp_all
  obtain days secs where d: "OPENSSL_gmtime_diff f t = Some (days, secs)"
    "epoch_secs t = epoch_secs f + days * SECS_PER_DAY + secs" "\<bar>secs\<bar> < SECS_PER_DAY"
    "0 < days \<longrightarrow> 0 \<le> secs" "days < 0 \<longrightarrow> secs \<le> 0" using gmtime_diff_exact [OF r] by blast
  show thesis by (rule that [of days secs]) (use d assms in \<open>simp_all add: ASN1_TIME_diff_def\<close>)
qed

lemma check_reads:
  assumes "terminated d"
  shows "ASN1_TIME_check d \<noteq> None"
proof -
  have "0 \<le> as_length d" "as_length d < int (length (block_of d))" using assms by (simp_all add: terminated_def)
  from utctime_reads [OF this, of None] generalizedtime_reads [OF assms, of None] show ?thesis
    by (auto simp: ASN1_TIME_check_def ASN1_UTCTIME_check_def ASN1_GENERALIZEDTIME_check_def)
qed

lemma to_tm_reads:
  assumes "terminated d"
  shows "asn1_time_to_tm now tm (Some d) \<noteq> None"
proof -
  have "0 \<le> as_length d" "as_length d < int (length (block_of d))" using assms by (simp_all add: terminated_def)
  from utctime_reads [OF this, of "Some tm"] generalizedtime_reads [OF assms, of "Some tm"] show ?thesis
    by (auto simp: asn1_time_to_tm_def)
qed

lemma to_generalizedtime_reads:
  assumes "terminated d"
  shows "ASN1_TIME_to_generalizedtime al d out \<noteq> None"
proof -
  have "0 \<in> set (block_of d)" "block_of d \<noteq> []"
    using assms nth_mem [of "nat (as_length d)" "block_of d"] by (auto simp: terminated_def nat_less_iff)
  then have "c_string (block_of d) \<noteq> None" "char_at (block_of d) 0 \<noteq> None" by (simp_all add: c_string_def char_at_def)
  then obtain src c where r: "c_string (block_of d) = Some src" "char_at (block_of d) 0 = Some c" by blast
  obtain ok where ok: "ASN1_TIME_check d = Some ok" using check_reads [OF assms] by blast
  show ?thesis
    unfolding ASN1_TIME_to_generalizedtime_def block [of d] Let_def r ok Option.bind.simps prod.case
    by (auto split: option.split prod.split bool.split)
qed

text \<open>What \<open>ASN1_STRING_set\<close> stores is terminated.\<close>

lemma set_terminated:
  assumes "string_ok s" "al_ok al" "0 \<le> len" "len < INT_MAX" "nat len \<le> length d" "ASN1_STRING_set al s (Some d) len = (True, s')"
  shows "terminated s'"
  using string_set_ok [OF assms] assms(3,6) by (auto simp: terminated_def ASN1_STRING_set_def split: option.splits if_splits)

text \<open>
  Without a terminator the parsers read the byte after the string: a UTCTime of 12 digits in a
  block of its length.
\<close>

definition time_object :: "int \<Rightarrow> bytes \<Rightarrow> nat \<Rightarrow> asn1_string" where
  "time_object ty block n = \<lparr>as_length = int n, as_type = ty, as_data = Some block, as_flags = 0\<rparr>"

lemmas parse_simps = asn1_utctime_to_tm_def asn1_generalizedtime_to_tm_def time_object_def utc_limits_def gen_limits_def
  utc_store_def gen_store_def digit_pair_def char_at_def is_digit_def utc_zone_def gen_zone_def gen_fraction_def
  V_ASN1_UTCTIME_def V_ASN1_GENERALIZEDTIME_def Let_def

lemma unterminated_over_read:
  "asn1_utctime_to_tm None (time_object V_ASN1_UTCTIME [0x32, 0x34, 0x30, 0x31, 0x30, 0x31, 0x30, 0x30, 0x30, 0x30, 0x30, 0x30] 12) = None"
  by (simp add: parse_simps)

text \<open>A GeneralizedTime without a time zone, and a 31 February, are accepted.\<close>

lemma no_zone_accepted:
  "ASN1_GENERALIZEDTIME_check (time_object V_ASN1_GENERALIZEDTIME
     [0x32, 0x30, 0x32, 0x34, 0x30, 0x31, 0x30, 0x31, 0x30, 0x30, 0x30, 0x30, 0x30, 0x30, 0] 14) = Some True"
  by (simp add: ASN1_GENERALIZEDTIME_check_def parse_simps)

lemma february_31_accepted:
  "ASN1_UTCTIME_check (time_object V_ASN1_UTCTIME
     [0x32, 0x34, 0x30, 0x32, 0x33, 0x31, 0x30, 0x30, 0x30, 0x30, 0x30, 0x30, 0x5A, 0] 13) = Some True"
  by (simp add: ASN1_UTCTIME_check_def parse_simps)

lemma epoch_secs_inj:
  assumes "valid_tm a" "valid_tm b" "epoch_secs a = epoch_secs b"
    "- 1900 \<le> tm_year a" "tm_year a \<le> 8099" "- 1900 \<le> tm_year b" "tm_year b \<le> 8099"
  shows "a = b"
proof -
  have date: "(tm_year x + 1900, tm_mon x + 1, tm_mday x) = julian_to_date (epoch_secs x div SECS_PER_DAY + 1721425)"
    if "valid_tm x" "- 1900 \<le> tm_year x" "tm_year x \<le> 8099" for x
    using that date_range [OF valid_tm_ranges [OF that(1)]] julian_to_date_to_julian [of "tm_year x + 1900" "tm_mon x + 1" "tm_mday x"]
    by (simp add: valid_tm_def)
  have hms: "tm_hour x = day_secs x sdiv 3600 \<and> tm_min x = day_secs x sdiv 60 smod 60 \<and> tm_sec x = day_secs x smod 60" if "valid_tm x" for x
    using that secs_parts [of "tm_hour x" "tm_min x" "tm_sec x"] by (simp add: valid_tm_def day_secs_def)
  have "day_secs a = day_secs b"
    using epoch_parts(2) [OF valid_tm_ranges [OF assms(1)]] epoch_parts(2) [OF valid_tm_ranges [OF assms(2)]] assms(3) by simp
  moreover have "(tm_year a + 1900, tm_mon a + 1, tm_mday a) = (tm_year b + 1900, tm_mon b + 1, tm_mday b)"
    unfolding date [OF assms(1,4,5)] date [OF assms(2,6,7)] assms(3) ..
  ultimately show ?thesis
    using hms [OF assms(1)] hms [OF assms(2)]
    by (intro tm.equality) simp_all
qed

section \<open>Properties\<close>

text \<open>
  C26. A time object that is parsed successfully gives a broken-down time with every field in its
  range and a year from 0 to 9999, whatever the caller's uninitialised struct holds, and the check
  of the object succeeds.
\<close>

theorem asn1_time_to_tm_ranges:
  assumes "asn1_time_to_tm now tm (Some d) = Some (True, t)"
  shows "tm_ranges t \<and> - 1900 \<le> tm_year t \<and> tm_year t \<le> 8099
    \<and> (\<forall>tm'. asn1_time_to_tm now tm' (Some d) = Some (True, t)) \<and> ASN1_TIME_check d = Some True"
  using to_tm_values [OF assms] by blast

definition leap_text :: asn1_string where
  "leap_text = time_object V_ASN1_UTCTIME [0x32, 0x34, 0x30, 0x32, 0x32, 0x39, 0x31, 0x32, 0x30, 0x30, 0x30, 0x30, 0x5A, 0] 13"

lemma leap_text_parses:
  "asn1_utctime_to_tm (Some tm) leap_text =
    Some (True, Some \<lparr>tm_year = 124, tm_mon = 1, tm_mday = 29, tm_hour = 12, tm_min = 0, tm_sec = 0\<rparr>)"
  by (simp add: leap_text_def parse_simps)

lemma leap_text_type: "as_type leap_text = V_ASN1_UTCTIME"
  by (simp add: leap_text_def time_object_def)

theorem asn1_time_to_tm_ranges_witness: "ASN1_TIME_check leap_text = Some True"
  using asn1_time_to_tm_ranges [of 0 leap_day leap_text]
  by (simp add: asn1_time_to_tm_def leap_text_parses leap_text_type)

text \<open>
  C27. On an object whose contents are followed by a NUL byte, as \<open>ASN1_STRING_set\<close> leaves it, no
  time function reads outside the heap block, whatever the contents are.
\<close>

theorem time_reads_in_block:
  assumes "terminated d"
  shows "ASN1_TIME_check d \<noteq> None \<and> asn1_time_to_tm now tm (Some d) \<noteq> None \<and> ASN1_TIME_to_generalizedtime al d out \<noteq> None"
  using check_reads to_tm_reads to_generalizedtime_reads assms by blast

theorem time_reads_in_block_witness:
  "ASN1_TIME_check (time_object V_ASN1_GENERALIZEDTIME [0x32, 0x2E, 0xFF, 0, 0x39, 0x39, 0x39, 0x39, 0x39, 0x39, 0x39, 0x39, 0x39, 0] 13) \<noteq> None"
  using time_reads_in_block [of "time_object V_ASN1_GENERALIZEDTIME [0x32, 0x2E, 0xFF, 0, 0x39, 0x39, 0x39, 0x39, 0x39, 0x39, 0x39, 0x39, 0x39, 0] 13"]
  by (simp add: terminated_def time_object_def block_of_def)

text \<open>
  C28. \<open>ASN1_TIME_adj\<close> prints the calendar time that is the offset away from \<open>t\<close>, as a UTCTime
  in the years 1950 to 2049 and as a GeneralizedTime otherwise, and the parsers read exactly that
  calendar time back. This is for a time \<open>t\<close> in the years 0 to 9999, offsets of less than \<open>2 ^ 30\<close> days in
  magnitude, a calendar time to print in the years 1900 to 9999, an allocator that does not fail,
  and no object or a well-formed one to store into.
\<close>

theorem ASN1_TIME_adj_roundtrip:
  assumes al: "al_total al" and s: "case s of None \<Rightarrow> True | Some s \<Rightarrow> string_ok s"
    and b: "OPENSSL_gmtime t = Some b" "- 1900 \<le> tm_year b" "tm_year b \<le> 8099" and o: "offset_ok day sec"
    and u: "valid_tm u" "0 \<le> tm_year u" "tm_year u \<le> 8099" "epoch_secs u = unix_epoch + t + day * SECS_PER_DAY + sec"
  shows "\<exists>r. ASN1_TIME_adj al s t day sec = Some r \<and> string_ok r \<and> terminated r
    \<and> as_type r = (if 50 \<le> tm_year u \<and> tm_year u < 150 then V_ASN1_UTCTIME else V_ASN1_GENERALIZEDTIME)
    \<and> asn1_time_to_tm now tm (Some r) = Some (True, u)"
proof -
  note v = gmtime_valid [OF b(1)]
  have y: "- 1900 \<le> tm_year u" using u(2) by simp
  have adj: "OPENSSL_gmtime_adj b day sec = Some u"
    using gmtime_adj_exact [OF valid_tm_ranges [OF v(1)] b(2,3) o, of u] u v(2) by simp
  have "gmtime_adj t day sec = Some u"
  proof (cases "day \<noteq> 0 \<or> sec \<noteq> 0")
    case False
    then have "b = u" using v u b(2,3) by (intro epoch_secs_inj) simp_all
    then show ?thesis using False b(1) by (simp add: gmtime_adj_def)
  qed (simp add: gmtime_adj_def b(1) adj)
  from time_adj_text [OF al s this u(1) y u(3), of now] show ?thesis by metis
qed

theorem ASN1_TIME_adj_roundtrip_witness:
  "\<exists>r. ASN1_TIME_adj heap_al None 1709164800 1 (- 43200) = Some r \<and> asn1_time_to_tm 0 leap_eve (Some r) =
    Some (True, \<lparr>tm_year = 124, tm_mon = 1, tm_mday = 29, tm_hour = 12, tm_min = 0, tm_sec = 0\<rparr>)"
proof -
  let ?u = "\<lparr>tm_year = 124, tm_mon = 1, tm_mday = 29, tm_hour = 12, tm_min = 0, tm_sec = 0\<rparr>"
  have b: "OPENSSL_gmtime 1709164800 = Some \<lparr>tm_year = 124, tm_mon = 1, tm_mday = 29, tm_hour = 0, tm_min = 0, tm_sec = 0\<rparr>"
    by code_simp
  have v: "valid_tm ?u" by code_simp
  have e: "epoch_secs ?u = unix_epoch + 1709164800 + 1 * SECS_PER_DAY + (- 43200)" by code_simp
  have o: "offset_ok 1 (- 43200)" by (simp add: offset_ok_def SECS_PER_DAY_def)
  from ASN1_TIME_adj_roundtrip [OF heap_al_total _ b _ _ o v _ _ e, of None 0 leap_eve] show ?thesis by auto
qed

text \<open>
  \<open>ASN1_UTCTIME_cmp_time_t\<close> gives the sign of the difference, in seconds, between the time
  the object denotes and the time it is compared with.
\<close>

theorem ASN1_UTCTIME_cmp_time_t_exact:
  assumes "asn1_utctime_to_tm (Some tm) s = Some (True, Some stm)"
    "OPENSSL_gmtime t = Some b" "- 1900 \<le> tm_year b" "tm_year b \<le> 8099"
  shows "ASN1_UTCTIME_cmp_time_t tm s t = Some (sgn (epoch_secs stm - (unix_epoch + t)))"
  using assms by (rule utctime_cmp)

theorem ASN1_UTCTIME_cmp_time_t_exact_witness: "ASN1_UTCTIME_cmp_time_t leap_eve leap_text 1709208001 = Some (- 1)"
proof -
  have b: "OPENSSL_gmtime 1709208001 = Some \<lparr>tm_year = 124, tm_mon = 1, tm_mday = 29, tm_hour = 12, tm_min = 0, tm_sec = 1\<rparr>"
    by code_simp
  have e: "sgn (epoch_secs \<lparr>tm_year = 124, tm_mon = 1, tm_mday = 29, tm_hour = 12, tm_min = 0, tm_sec = 0\<rparr> - (unix_epoch + 1709208001)) = - 1"
    by code_simp
  from ASN1_UTCTIME_cmp_time_t_exact [OF leap_text_parses b, of leap_eve] e show ?thesis by simp
qed

end
