(* ===== verification/Asn1Mbstr.thy ===== *)
theory Asn1Mbstr
  imports Asn1Integer CbbUnicode
begin

text \<open>
  Strings of code points converted into ASN.1 string types (crypto/asn1/a_mbstr.c, a_strex.c): the
  input is decoded, the first type of the mask that has all its characters is chosen, and the
  characters are encoded again.

  The object at \<open>in\<close> is the list of its bytes; for the \<open>CBS\<close> it lies at the address 0x100.
\<close>

section \<open>The code\<close>

definition V_ASN1_UTF8STRING :: int where "V_ASN1_UTF8STRING = 12"
definition V_ASN1_PRINTABLESTRING :: int where "V_ASN1_PRINTABLESTRING = 19"
definition V_ASN1_T61STRING :: int where "V_ASN1_T61STRING = 20"
definition V_ASN1_IA5STRING :: int where "V_ASN1_IA5STRING = 22"
definition V_ASN1_UNIVERSALSTRING :: int where "V_ASN1_UNIVERSALSTRING = 28"
definition V_ASN1_BMPSTRING :: int where "V_ASN1_BMPSTRING = 30"

definition B_ASN1_PRINTABLESTRING :: u64 where "B_ASN1_PRINTABLESTRING = 0x0002"
definition B_ASN1_T61STRING :: u64 where "B_ASN1_T61STRING = 0x0004"
definition B_ASN1_IA5STRING :: u64 where "B_ASN1_IA5STRING = 0x0010"
definition B_ASN1_UNIVERSALSTRING :: u64 where "B_ASN1_UNIVERSALSTRING = 0x0100"
definition B_ASN1_BMPSTRING :: u64 where "B_ASN1_BMPSTRING = 0x0800"
definition B_ASN1_UTF8STRING :: u64 where "B_ASN1_UTF8STRING = 0x2000"

definition DIRSTRING_TYPE :: u64 where
  "DIRSTRING_TYPE = B_ASN1_PRINTABLESTRING OR B_ASN1_T61STRING OR B_ASN1_BMPSTRING OR B_ASN1_UTF8STRING"

definition MBSTRING_UTF8 :: int where "MBSTRING_UTF8 = 0x1000"
definition MBSTRING_ASC :: int where "MBSTRING_ASC = 0x1001"
definition MBSTRING_BMP :: int where "MBSTRING_BMP = 0x1002"
definition MBSTRING_UNIV :: int where "MBSTRING_UNIV = 0x1004"

definition asn1_is_printable :: "u32 \<Rightarrow> bool" where
  "asn1_is_printable value =
     (if value > 0x7f then False
      else (0x61 \<le> value \<and> value \<le> 0x7A) \<or> (0x41 \<le> value \<and> value \<le> 0x5A) \<or> (0x30 \<le> value \<and> value \<le> 0x39)
        \<or> value = 0x20 \<or> value = 0x27 \<or> value = 0x28 \<or> value = 0x29 \<or> value = 0x2B \<or> value = 0x2C \<or> value = 0x2D
        \<or> value = 0x2E \<or> value = 0x2F \<or> value = 0x3A \<or> value = 0x3D \<or> value = 0x3F)"

text \<open>\<open>decode_func\<close> and \<open>error\<close>.\<close>

definition mb_decode :: "int \<Rightarrow> (mem \<Rightarrow> cbs \<Rightarrow> u32 option \<times> cbs) option" where
  "mb_decode inform =
     (if inform = MBSTRING_BMP then Some cbs_get_ucs2_be
      else if inform = MBSTRING_UNIV then Some cbs_get_utf32_be
      else if inform = MBSTRING_UTF8 then Some cbs_get_utf8
      else if inform = MBSTRING_ASC then Some cbs_get_latin1 else None)"

definition mb_error :: "int \<Rightarrow> asn1_error" where
  "mb_error inform =
     (if inform = MBSTRING_BMP then ASN1_R_INVALID_BMPSTRING
      else if inform = MBSTRING_UNIV then ASN1_R_INVALID_UNIVERSALSTRING
      else if inform = MBSTRING_UTF8 then ASN1_R_INVALID_UTF8STRING
      else ERR_INTERNAL_ERROR)"

text \<open>The output formats that are still possible after a character.\<close>

definition mb_narrow :: "u32 \<Rightarrow> u64 \<Rightarrow> u64" where
  "mb_narrow c msk =
     (let msk = (if msk AND B_ASN1_PRINTABLESTRING \<noteq> 0 \<and> \<not> asn1_is_printable c then msk AND NOT B_ASN1_PRINTABLESTRING else msk);
          msk = (if msk AND B_ASN1_IA5STRING \<noteq> 0 \<and> c > 127 then msk AND NOT B_ASN1_IA5STRING else msk);
          msk = (if msk AND B_ASN1_T61STRING \<noteq> 0 \<and> c > 0xff then msk AND NOT B_ASN1_T61STRING else msk);
          msk = (if msk AND B_ASN1_BMPSTRING \<noteq> 0 \<and> c > 0xffff then msk AND NOT B_ASN1_BMPSTRING else msk)
      in msk)"

lemma mb_decode_progress:
  "mb_decode inform = Some get \<Longrightarrow> get m c = (Some u, c') \<Longrightarrow> unat (cbs_len c') < unat (cbs_len c)"
  using ucs2.get_progress utf32.get_progress utf8.get_progress latin1.get_progress
  by (auto simp: mb_decode_def split: if_splits)

text \<open>The first loop: the mask, the number of characters and their length in UTF-8.\<close>

function mb_scan :: "int \<Rightarrow> mem \<Rightarrow> cbs \<Rightarrow> u64 \<Rightarrow> nat \<Rightarrow> u64 \<Rightarrow> asn1_error + u64 \<times> nat \<times> u64" where
  "mb_scan inform m cbs msk nchar utf8_len =
     (if cbs_len cbs = 0 then Inr (msk, nchar, utf8_len)
      else
        (case mb_decode inform of
           None \<Rightarrow> Inl ASN1_R_UNKNOWN_FORMAT
         | Some get \<Rightarrow>
             (case get m cbs of
                (None, _) \<Rightarrow> Inl (mb_error inform)
              | (Some c, cbs) \<Rightarrow>
                  if nchar = 0 \<and> (inform = MBSTRING_BMP \<or> inform = MBSTRING_UNIV) \<and> c = 0xfeff
                  then Inl ASN1_R_ILLEGAL_CHARACTERS
                  else
                    (let msk = mb_narrow c msk in
                     if msk = 0 then Inl ASN1_R_ILLEGAL_CHARACTERS
                     else mb_scan inform m cbs msk (nchar + 1) (utf8_len + cbb_get_utf8_len c)))))"
  by pat_completeness auto
termination
  by (relation "measure (\<lambda>(inform, m, cbs, msk, n, k). unat (cbs_len cbs))") (auto dest: mb_decode_progress [OF _ sym])

declare mb_scan.simps [simp del]

text \<open>
  The output: type, format, encoder and size estimate.
\<close>

definition mb_output :: "u64 \<Rightarrow> nat \<Rightarrow> u64 \<Rightarrow> (int \<times> int \<times> (allocator \<Rightarrow> nat \<Rightarrow> u32 \<Rightarrow> cbb \<Rightarrow> bool \<times> cbb) \<times> u64) option" where
  "mb_output msk nchar utf8_len =
     (let size_estimate = of_nat nchar in
      if msk AND B_ASN1_PRINTABLESTRING \<noteq> 0 then Some (V_ASN1_PRINTABLESTRING, MBSTRING_ASC, cbb_add_latin1, size_estimate)
      else if msk AND B_ASN1_IA5STRING \<noteq> 0 then Some (V_ASN1_IA5STRING, MBSTRING_ASC, cbb_add_latin1, size_estimate)
      else if msk AND B_ASN1_T61STRING \<noteq> 0 then Some (V_ASN1_T61STRING, MBSTRING_ASC, cbb_add_latin1, size_estimate)
      else if msk AND B_ASN1_BMPSTRING \<noteq> 0 then Some (V_ASN1_BMPSTRING, MBSTRING_BMP, cbb_add_ucs2_be, 2 * of_nat nchar)
      else if msk AND B_ASN1_UNIVERSALSTRING \<noteq> 0
      then Some (V_ASN1_UNIVERSALSTRING, MBSTRING_UNIV, cbb_add_utf32_be, 4 * of_nat nchar)
      else if msk AND B_ASN1_UTF8STRING \<noteq> 0 then Some (V_ASN1_UTF8STRING, MBSTRING_UTF8, cbb_add_utf8, utf8_len)
      else None)"

text \<open>The checks up to the choice of the output.\<close>

definition mb_select ::
  "int \<Rightarrow> mem \<Rightarrow> cbs \<Rightarrow> u64 \<Rightarrow> int \<Rightarrow> int
    \<Rightarrow> asn1_error + int \<times> int \<times> (allocator \<Rightarrow> nat \<Rightarrow> u32 \<Rightarrow> cbb \<Rightarrow> bool \<times> cbb) \<times> u64" where
  "mb_select inform m cbs msk minsize maxsize =
     (case mb_scan inform m cbs msk 0 0 of
        Inl e \<Rightarrow> Inl e
      | Inr (msk, nchar, utf8_len) \<Rightarrow>
          if minsize > 0 \<and> int nchar < minsize then Inl ASN1_R_STRING_TOO_SHORT
          else if maxsize > 0 \<and> int nchar > maxsize then Inl ASN1_R_STRING_TOO_LONG
          else
            (case mb_output msk nchar utf8_len of
               None \<Rightarrow> Inl ASN1_R_ILLEGAL_CHARACTERS
             | Some r \<Rightarrow> Inr r))"

text \<open>The second loop.\<close>

function mb_copy ::
  "int \<Rightarrow> (allocator \<Rightarrow> nat \<Rightarrow> u32 \<Rightarrow> cbb \<Rightarrow> bool \<times> cbb) \<Rightarrow> allocator \<Rightarrow> mem \<Rightarrow> cbs \<Rightarrow> cbb \<Rightarrow> bool \<times> cbb" where
  "mb_copy inform encode_func al m cbs cbb =
     (if cbs_len cbs = 0 then (True, cbb)
      else
        (case mb_decode inform of
           None \<Rightarrow> (False, cbb)
         | Some get \<Rightarrow>
             (case get m cbs of
                (None, _) \<Rightarrow> (False, cbb)
              | (Some c, cbs) \<Rightarrow>
                  (case encode_func al 0 c cbb of
                     (False, cbb) \<Rightarrow> (False, cbb)
                   | (True, cbb) \<Rightarrow> mb_copy inform encode_func al m cbs cbb))))"
  by pat_completeness auto
termination
  by (relation "measure (\<lambda>(inform, e, al, m, cbs, cbb). unat (cbs_len cbs))") (auto dest: mb_decode_progress [OF _ sym])

declare mb_copy.simps [simp del]

text \<open>
  The pointer \<open>out\<close>: \<open>NULL\<close>, or the address of a pointer to an object or of \<open>NULL\<close>. After the
  object has been freed, the pointer at \<open>out\<close> is dangling.
\<close>

datatype mb_out = Out_null | Out_at "asn1_string option" | Out_freed

text \<open>The object that receives the result, and whether it is a new one.\<close>

definition mb_dest :: "allocator \<Rightarrow> mb_out \<Rightarrow> int \<Rightarrow> (bool \<times> asn1_string) option" where
  "mb_dest al out str_type =
     (case out of
        Out_at (Some dest) \<Rightarrow>
          Some (False, (if as_data dest \<noteq> None then dest\<lparr>as_length := 0, as_data := None\<rparr> else dest)\<lparr>as_type := str_type\<rparr>)
      | _ \<Rightarrow> map_option (Pair True) (ASN1_STRING_type_new al str_type))"

text \<open>The encoding of the characters into it; \<open>err\<close> is where \<open>goto err\<close> leaves the pointer.\<close>

definition mb_build ::
  "allocator \<Rightarrow> int \<Rightarrow> mem \<Rightarrow> cbs \<Rightarrow> int \<times> int \<times> (allocator \<Rightarrow> nat \<Rightarrow> u32 \<Rightarrow> cbb \<Rightarrow> bool \<times> cbb) \<times> u64 \<Rightarrow> bool
    \<Rightarrow> asn1_string \<Rightarrow> (asn1_error + int) \<times> mb_out" where
  "mb_build al inform m cbs output free_out dest =
     (case output of
        (str_type, outform, encode_func, size_estimate) \<Rightarrow>
          (let err = (if free_out then Out_freed else Out_at (Some dest)) in
           case CBB_init al (size_estimate + 1) of
             None \<Rightarrow> (Inl ERR_MALLOC_FAILURE, err)
           | Some cbb \<Rightarrow>
               (case cbb_then (mb_copy inform encode_func al m cbs) (CBB_add_u8 al 0 0) cbb of
                  (False, _) \<Rightarrow> (Inl ERR_INTERNAL_ERROR, err)
                | (True, cbb) \<Rightarrow>
                    (case fst (CBB_finish al True 0 cbb) of
                       None \<Rightarrow> (Inl ERR_INTERNAL_ERROR, err)
                     | Some data \<Rightarrow>
                         if length data < 1 \<or> int (length data) > INT_MAX then (Inl ERR_INTERNAL_ERROR, err)
                         else (Inr str_type, Out_at (Some (dest\<lparr>as_length := int (length data) - 1, as_data := Some data\<rparr>)))))))"

definition ASN1_mbstring_ncopy ::
  "allocator \<Rightarrow> mb_out \<Rightarrow> bytes \<Rightarrow> int \<Rightarrow> int \<Rightarrow> u64 \<Rightarrow> int \<Rightarrow> int \<Rightarrow> (asn1_error + int) \<times> mb_out" where
  "ASN1_mbstring_ncopy al out inp len inform msk minsize maxsize =
     (let len = (if len = - 1 then to_int (int (strlen inp)) else len);
          msk = (if msk = 0 then DIRSTRING_TYPE else msk);
          m = holding inp;
          cbs = CBS_init 0x100 (word_of_int len)
      in if mb_decode inform = None then (Inl ASN1_R_UNKNOWN_FORMAT, out)
      else
        (case mb_select inform m cbs msk minsize maxsize of
           Inl e \<Rightarrow> (Inl e, out)
         | Inr output \<Rightarrow>
             if out = Out_null then (Inr (fst output), out)
             else
               (case mb_dest al out (fst output) of
                  None \<Rightarrow> (Inl ERR_MALLOC_FAILURE, out)
                | Some (free_out, dest) \<Rightarrow>
                    if inform = fst (snd output) then
                      (case ASN1_STRING_set al dest (Some inp) len of
                         (False, dest) \<Rightarrow> (Inl ERR_MALLOC_FAILURE, Out_at (Some dest))
                       | (True, dest) \<Rightarrow> (Inr (fst output), Out_at (Some dest)))
                    else mb_build al inform m cbs output free_out dest)))"

definition ASN1_mbstring_copy :: "allocator \<Rightarrow> mb_out \<Rightarrow> bytes \<Rightarrow> int \<Rightarrow> int \<Rightarrow> u64 \<Rightarrow> (asn1_error + int) \<times> mb_out" where
  "ASN1_mbstring_copy al out inp len inform msk = ASN1_mbstring_ncopy al out inp len inform msk 0 0"

text \<open>\<open>*out\<close> and the length on success.\<close>

definition tag2nbyte :: "int list" where
  "tag2nbyte = [- 1, - 1, - 1, - 1, - 1, - 1, - 1, - 1, - 1, - 1, - 1, - 1, 0, - 1, - 1, - 1, - 1, - 1, 1, 1, 1, - 1, 1, 1, 1,
     - 1, 1, - 1, 4, - 1, 2]"

definition MBSTRING_FLAG :: int where "MBSTRING_FLAG = 0x1000"

definition ASN1_STRING_to_UTF8 :: "allocator \<Rightarrow> asn1_string option \<Rightarrow> (bytes option \<times> int) option" where
  "ASN1_STRING_to_UTF8 al s =
     (case s of
        None \<Rightarrow> None
      | Some s \<Rightarrow>
          (let ty = as_type s in
           if ty < 0 \<or> ty > 30 then None
           else
             (let mbflag = tag2nbyte ! nat ty in
              if mbflag = - 1 then None
              else
                (let stmp = \<lparr>as_length = 0, as_type = 0, as_data = None, as_flags = 0\<rparr>;
                     inp = (case as_data s of None \<Rightarrow> [] | Some d \<Rightarrow> d)
                 in case ASN1_mbstring_copy al (Out_at (Some stmp)) inp (as_length s) (mbflag OR MBSTRING_FLAG) B_ASN1_UTF8STRING of
                      (Inr _, Out_at (Some str)) \<Rightarrow> Some (as_data str, as_length str)
                    | _ \<Rightarrow> None))))"

section \<open>Formats\<close>

definition mb_add :: "int \<Rightarrow> allocator \<Rightarrow> nat \<Rightarrow> u32 \<Rightarrow> cbb \<Rightarrow> bool \<times> cbb" where
  "mb_add form = (if form = MBSTRING_BMP then cbb_add_ucs2_be else if form = MBSTRING_UNIV then cbb_add_utf32_be
     else if form = MBSTRING_UTF8 then cbb_add_utf8 else cbb_add_latin1)"

definition mb_enc :: "int \<Rightarrow> u32 \<Rightarrow> bytes" where
  "mb_enc form u = (if form = MBSTRING_BMP then be_fixed 2 (unat u) else if form = MBSTRING_UNIV then be_fixed 4 (unat u)
     else if form = MBSTRING_UTF8 then utf8_bytes u else [ucast u])"

text \<open>The characters that a format can hold.\<close>

definition mb_fits :: "int \<Rightarrow> u32 \<Rightarrow> bool" where
  "mb_fits form u \<longleftrightarrow>
     (if form = MBSTRING_BMP then unat u < 65536 \<and> unicode_character (unat u)
      else if form = MBSTRING_UNIV \<or> form = MBSTRING_UTF8 then unicode_character (unat u)
      else unat u < 256)"

lemma mb_fits_code:
  "mb_fits form u \<longleftrightarrow> (if form = MBSTRING_BMP then u \<le> 0xffff \<and> is_valid_code_point u else if form = MBSTRING_UNIV then is_valid_code_point u
     else if form = MBSTRING_UTF8 then is_valid_code_point u else u \<le> 0xff)"
  by (auto simp: mb_fits_def valid_code_point_iff word_le_nat_alt)

lemma mb_codec: "mb_decode form = Some get \<Longrightarrow> char_codec (mb_add form) get (mb_enc form) (mb_fits form)"
  using ucs2.char_codec_axioms utf32.char_codec_axioms utf8.char_codec_axioms latin1.char_codec_axioms
  by (auto simp: mb_decode_def mb_add_def mb_enc_def [abs_def] mb_fits_code [abs_def] split: if_splits)

text \<open>The characters of an input.\<close>

definition mb_text :: "int \<Rightarrow> bytes \<Rightarrow> u32 list \<Rightarrow> bool" where
  "mb_text form bs us \<longleftrightarrow> list_all (mb_fits form) us \<and> concat (map (mb_enc form) us) = bs"

definition mb_bom :: "int \<Rightarrow> u32 list \<Rightarrow> bool" where
  "mb_bom form us \<longleftrightarrow> (form = MBSTRING_BMP \<or> form = MBSTRING_UNIV) \<and> us \<noteq> [] \<and> hd us = 0xfeff"

lemma narrow_0: "mb_narrow u 0 = 0" "fold mb_narrow us 0 = 0"
proof -
  show n: "mb_narrow u 0 = 0" for u by (simp add: mb_narrow_def)
  show "fold mb_narrow us 0 = 0" by (induction us) (simp_all add: n)
qed

lemma scan_text:
  assumes "mb_decode form = Some get" "mb_text form (cbs_bytes m c) us"
  shows "mb_scan form m c msk n k =
    (if n = 0 \<and> mb_bom form us \<or> us \<noteq> [] \<and> fold mb_narrow us msk = 0 then Inl ASN1_R_ILLEGAL_CHARACTERS
     else Inr (fold mb_narrow us msk, n + length us, k + sum_list (map cbb_get_utf8_len us)))"
  using assms(2)
proof (induction us arbitrary: c msk n k)
  case Nil
  then have "length (cbs_bytes m c) = 0" by (simp add: mb_text_def)
  then have "cbs_len c = 0" by (simp add: unat_eq_0)
  then show ?case by (subst mb_scan.simps) (simp add: mb_bom_def)
next
  case (Cons u us)
  let ?rest = "concat (map (mb_enc form) us)"
  have fits: "mb_fits form u" and bytes: "cbs_bytes m c = mb_enc form u @ ?rest" and rest: "mb_text form ?rest us"
    using Cons.prems by (simp_all add: mb_text_def)
  obtain c' where c': "get m c = (Some u, c')" "cbs_bytes m c' = ?rest"
    using char_codec.get_exact [OF mb_codec [OF assms(1)], of m c u ?rest] fits bytes by blast
  have "cbs_bytes m c \<noteq> []" using bytes char_codec.enc_ne [OF mb_codec [OF assms(1)], of u] by simp
  then have "0 < length (cbs_bytes m c)" by (rule length_greater_0_conv [THEN iffD2])
  then have len: "cbs_len c \<noteq> 0" by auto
  note IH = Cons.IH [of c', unfolded c'(2), OF rest]
  have scan: "mb_scan form m c msk n k =
      (if n = 0 \<and> mb_bom form (u # us) then Inl ASN1_R_ILLEGAL_CHARACTERS
       else if mb_narrow u msk = 0 then Inl ASN1_R_ILLEGAL_CHARACTERS
       else mb_scan form m c' (mb_narrow u msk) (n + 1) (k + cbb_get_utf8_len u))"
    by (subst mb_scan.simps) (simp add: len assms(1) c'(1) mb_bom_def Let_def)
  show ?case
  proof (cases "n = 0 \<and> mb_bom form (u # us) \<or> mb_narrow u msk = 0")
    case True
    then show ?thesis unfolding scan using narrow_0(2) [of us] by auto
  next
    case False
    then show ?thesis
      unfolding scan by (simp add: IH algebra_simps) (cases us; auto)
  qed
qed

lemma scan_sound:
  assumes "mb_decode form = Some get" "mb_scan form m c msk n k = Inr r"
  shows "\<exists>us. mb_text form (cbs_bytes m c) us"
  using assms(2)
proof (induction "unat (cbs_len c)" arbitrary: c msk n k rule: less_induct)
  case less
  show ?case
  proof (cases "cbs_len c = 0")
    case True
    then have "length (cbs_bytes m c) = 0" by simp
    then have "cbs_bytes m c = []" by (simp only: length_0_conv)
    then show ?thesis by (intro exI [of _ "[]"]) (simp add: mb_text_def)
  next
    case False
    obtain o' c' where g: "get m c = (o', c')" by (cases "get m c")
    with less.prems False obtain u where u: "o' = Some u" "\<exists>msk n k. mb_scan form m c' msk n k = Inr r"
      by (subst (asm) mb_scan.simps) (auto simp: assms(1) Let_def split: option.splits if_splits)
    note codec = mb_codec [OF assms(1)]
    have s: "mb_fits form u" "cbs_bytes m c = mb_enc form u @ cbs_bytes m c'" "unat (cbs_len c') < unat (cbs_len c)"
      using char_codec.get_sound [OF codec, of m c u c'] char_codec.get_progress [OF codec, of m c u c'] g u(1) by simp_all
    from u(2) less.hyps [OF s(3)] obtain us where "mb_text form (cbs_bytes m c') us" by blast
    then show ?thesis using s by (intro exI [of _ "u # us"]) (simp add: mb_text_def)
  qed
qed

section \<open>The choice of a type\<close>

text \<open>
  The characters of a PrintableString (X.680), as numbers: the letters, the digits, the space and \<open>'()+,-./:=?\<close>.
\<close>

definition printable_chars :: "nat list" where
  "printable_chars =
     map of_char (''ABCDEFGHIJKLMNOPQRSTUVWXYZ'' @ ''abcdefghijklmnopqrstuvwxyz'' @ ''0123456789'' @ '' ()+,-./:=?'' @ [CHR 0x27])"

lemma printable_set:
  "n \<in> set printable_chars \<longleftrightarrow>
     65 \<le> n \<and> n \<le> 90 \<or> 97 \<le> n \<and> n \<le> 122 \<or> 48 \<le> n \<and> n \<le> 57 \<or> n \<in> {32, 39, 40, 41, 43, 44, 45, 46, 47, 58, 61, 63}"
proof -
  have e: "printable_chars = [65..<91] @ [97..<123] @ [48..<58] @ [32, 40, 41, 43, 44, 45, 46, 47, 58, 61, 63, 39]"
    by code_simp
  show ?thesis unfolding e set_append set_upt Un_iff atLeastLessThan_iff list.set insert_iff empty_iff by linarith
qed

lemma printable_iff: "asn1_is_printable u \<longleftrightarrow> unat u \<in> set printable_chars"
  unfolding printable_set
  by (simp add: asn1_is_printable_def word_le_nat_alt word_less_nat_alt word_unat_eq_iff) linarith

text \<open>
  The first type of the mask that has all the characters, with its format. The bits of a mask are those of its types:
  1 PrintableString, 2 T61String, 4 IA5String, 8 UniversalString, 11 BMPString, 13 UTF8String.
\<close>

definition mb_choice :: "u64 \<Rightarrow> u32 list \<Rightarrow> (int \<times> int) option" where
  "mb_choice msk us =
     (if bit msk 1 \<and> list_all (\<lambda>u. unat u \<in> set printable_chars) us then Some (V_ASN1_PRINTABLESTRING, MBSTRING_ASC)
      else if bit msk 4 \<and> list_all (\<lambda>u. unat u < 128) us then Some (V_ASN1_IA5STRING, MBSTRING_ASC)
      else if bit msk 2 \<and> list_all (\<lambda>u. unat u < 256) us then Some (V_ASN1_T61STRING, MBSTRING_ASC)
      else if bit msk 11 \<and> list_all (\<lambda>u. unat u < 65536) us then Some (V_ASN1_BMPSTRING, MBSTRING_BMP)
      else if bit msk 8 then Some (V_ASN1_UNIVERSALSTRING, MBSTRING_UNIV)
      else if bit msk 13 then Some (V_ASN1_UTF8STRING, MBSTRING_UTF8)
      else None)"

lemma mb_choice_code:
  "mb_choice msk us =
     (if bit msk 1 \<and> list_all asn1_is_printable us then Some (V_ASN1_PRINTABLESTRING, MBSTRING_ASC)
      else if bit msk 4 \<and> list_all (\<lambda>u. u \<le> 127) us then Some (V_ASN1_IA5STRING, MBSTRING_ASC)
      else if bit msk 2 \<and> list_all (\<lambda>u. u \<le> 0xff) us then Some (V_ASN1_T61STRING, MBSTRING_ASC)
      else if bit msk 11 \<and> list_all (\<lambda>u. u \<le> 0xffff) us then Some (V_ASN1_BMPSTRING, MBSTRING_BMP)
      else if bit msk 8 then Some (V_ASN1_UNIVERSALSTRING, MBSTRING_UNIV)
      else if bit msk 13 then Some (V_ASN1_UTF8STRING, MBSTRING_UTF8)
      else None)"
proof -
  have "asn1_is_printable = (\<lambda>u. unat u \<in> set printable_chars)" by (intro ext) (rule printable_iff)
  moreover have "(\<lambda>u :: u32. u \<le> 127) = (\<lambda>u. unat u < 128)" "(\<lambda>u :: u32. u \<le> 0xff) = (\<lambda>u. unat u < 256)"
    "(\<lambda>u :: u32. u \<le> 0xffff) = (\<lambda>u. unat u < 65536)" by (auto simp: word_le_nat_alt fun_eq_iff)
  ultimately show ?thesis unfolding mb_choice_def by simp
qed

lemma mask_bits:
  "m AND B_ASN1_PRINTABLESTRING \<noteq> 0 \<longleftrightarrow> bit m 1" "m AND B_ASN1_IA5STRING \<noteq> 0 \<longleftrightarrow> bit m 4"
  "m AND B_ASN1_T61STRING \<noteq> 0 \<longleftrightarrow> bit m 2" "m AND B_ASN1_BMPSTRING \<noteq> 0 \<longleftrightarrow> bit m 11"
  "m AND B_ASN1_UNIVERSALSTRING \<noteq> 0 \<longleftrightarrow> bit m 8" "m AND B_ASN1_UTF8STRING \<noteq> 0 \<longleftrightarrow> bit m 13"
proof -
  have b: "B_ASN1_PRINTABLESTRING = push_bit 1 1" "B_ASN1_IA5STRING = push_bit 4 1" "B_ASN1_T61STRING = push_bit 2 1"
    "B_ASN1_BMPSTRING = push_bit 11 1" "B_ASN1_UNIVERSALSTRING = push_bit 8 1" "B_ASN1_UTF8STRING = push_bit 13 1"
    by (simp_all add: B_ASN1_PRINTABLESTRING_def B_ASN1_IA5STRING_def B_ASN1_T61STRING_def B_ASN1_BMPSTRING_def
        B_ASN1_UNIVERSALSTRING_def B_ASN1_UTF8STRING_def push_bit_eq_mult)
  show "m AND B_ASN1_PRINTABLESTRING \<noteq> 0 \<longleftrightarrow> bit m 1" "m AND B_ASN1_IA5STRING \<noteq> 0 \<longleftrightarrow> bit m 4"
    "m AND B_ASN1_T61STRING \<noteq> 0 \<longleftrightarrow> bit m 2" "m AND B_ASN1_BMPSTRING \<noteq> 0 \<longleftrightarrow> bit m 11"
    "m AND B_ASN1_UNIVERSALSTRING \<noteq> 0 \<longleftrightarrow> bit m 8" "m AND B_ASN1_UTF8STRING \<noteq> 0 \<longleftrightarrow> bit m 13"
    unfolding b by (simp_all only: bit_iff_and_push_bit_not_eq_0)
qed

lemma clear_bits:
  "bit (m AND NOT B_ASN1_PRINTABLESTRING) j \<longleftrightarrow> bit m j \<and> j \<noteq> 1" "bit (m AND NOT B_ASN1_IA5STRING) j \<longleftrightarrow> bit m j \<and> j \<noteq> 4"
  "bit (m AND NOT B_ASN1_T61STRING) j \<longleftrightarrow> bit m j \<and> j \<noteq> 2" "bit (m AND NOT B_ASN1_BMPSTRING) j \<longleftrightarrow> bit m j \<and> j \<noteq> 11"
proof -
  have b: "B_ASN1_PRINTABLESTRING = push_bit 1 1" "B_ASN1_IA5STRING = push_bit 4 1" "B_ASN1_T61STRING = push_bit 2 1"
    "B_ASN1_BMPSTRING = push_bit 11 1"
    by (simp_all add: B_ASN1_PRINTABLESTRING_def B_ASN1_IA5STRING_def B_ASN1_T61STRING_def B_ASN1_BMPSTRING_def push_bit_eq_mult)
  show "bit (m AND NOT B_ASN1_PRINTABLESTRING) j \<longleftrightarrow> bit m j \<and> j \<noteq> 1" "bit (m AND NOT B_ASN1_IA5STRING) j \<longleftrightarrow> bit m j \<and> j \<noteq> 4"
    "bit (m AND NOT B_ASN1_T61STRING) j \<longleftrightarrow> bit m j \<and> j \<noteq> 2" "bit (m AND NOT B_ASN1_BMPSTRING) j \<longleftrightarrow> bit m j \<and> j \<noteq> 11"
    unfolding b by (auto simp: bit_simps dest: bit_imp_le_length simp del: push_bit_of_1)
qed

lemma clear_if:
  assumes "\<And>j. bit m' j \<longleftrightarrow> bit m j \<and> j \<noteq> k"
  shows "bit (if bit m k \<and> \<not> P then m' else m) j \<longleftrightarrow> bit m j \<and> (j = k \<longrightarrow> P)"
  using assms by (cases P; cases "bit m k") auto

lemma narrow_bit: "bit (mb_narrow u m) j \<longleftrightarrow> bit m j \<and> (j = 1 \<longrightarrow> asn1_is_printable u) \<and> (j = 4 \<longrightarrow> u \<le> 127)
    \<and> (j = 2 \<longrightarrow> u \<le> 0xff) \<and> (j = 11 \<longrightarrow> u \<le> 0xffff)"
proof -
  define n1 n2 n3 n4 :: "u64 \<Rightarrow> u64"
    where "n1 = (\<lambda>m. if m AND B_ASN1_PRINTABLESTRING \<noteq> 0 \<and> \<not> asn1_is_printable u then m AND NOT B_ASN1_PRINTABLESTRING else m)"
      and "n2 = (\<lambda>m. if m AND B_ASN1_IA5STRING \<noteq> 0 \<and> u > 127 then m AND NOT B_ASN1_IA5STRING else m)"
      and "n3 = (\<lambda>m. if m AND B_ASN1_T61STRING \<noteq> 0 \<and> u > 0xff then m AND NOT B_ASN1_T61STRING else m)"
      and "n4 = (\<lambda>m. if m AND B_ASN1_BMPSTRING \<noteq> 0 \<and> u > 0xffff then m AND NOT B_ASN1_BMPSTRING else m)"
  have eq: "mb_narrow u m = n4 (n3 (n2 (n1 m)))" unfolding mb_narrow_def Let_def n1_def n2_def n3_def n4_def ..
  have b1: "bit (n1 m) j \<longleftrightarrow> bit m j \<and> (j = 1 \<longrightarrow> asn1_is_printable u)" for m unfolding n1_def mask_bits by (rule clear_if) (rule clear_bits)
  have b2: "bit (n2 m) j \<longleftrightarrow> bit m j \<and> (j = 4 \<longrightarrow> u \<le> 127)" for m unfolding n2_def mask_bits not_le [symmetric] by (rule clear_if) (rule clear_bits)
  have b3: "bit (n3 m) j \<longleftrightarrow> bit m j \<and> (j = 2 \<longrightarrow> u \<le> 0xff)" for m unfolding n3_def mask_bits not_le [symmetric] by (rule clear_if) (rule clear_bits)
  have b4: "bit (n4 m) j \<longleftrightarrow> bit m j \<and> (j = 11 \<longrightarrow> u \<le> 0xffff)" for m unfolding n4_def mask_bits not_le [symmetric] by (rule clear_if) (rule clear_bits)
  show ?thesis unfolding eq b1 b2 b3 b4 by argo
qed

lemma narrow_all: "bit (fold mb_narrow us m) j \<longleftrightarrow> bit m j \<and> (j = 1 \<longrightarrow> list_all asn1_is_printable us) \<and> (j = 4 \<longrightarrow> list_all (\<lambda>u. u \<le> 127) us)
    \<and> (j = 2 \<longrightarrow> list_all (\<lambda>u. u \<le> 0xff) us) \<and> (j = 11 \<longrightarrow> list_all (\<lambda>u. u \<le> 0xffff) us)"
proof (induction us arbitrary: m)
  case (Cons u us)
  have "bit (fold mb_narrow (u # us) m) j = bit (fold mb_narrow us (mb_narrow u m)) j" by simp
  then show ?case unfolding Cons.IH narrow_bit list.pred_inject(2) by argo
qed simp

lemma narrow_bits:
  "bit (fold mb_narrow us m) 1 \<longleftrightarrow> bit m 1 \<and> list_all asn1_is_printable us"
  "bit (fold mb_narrow us m) 4 \<longleftrightarrow> bit m 4 \<and> list_all (\<lambda>u. u \<le> 127) us"
  "bit (fold mb_narrow us m) 2 \<longleftrightarrow> bit m 2 \<and> list_all (\<lambda>u. u \<le> 0xff) us"
  "bit (fold mb_narrow us m) 11 \<longleftrightarrow> bit m 11 \<and> list_all (\<lambda>u. u \<le> 0xffff) us"
  "bit (fold mb_narrow us m) 8 \<longleftrightarrow> bit m 8" "bit (fold mb_narrow us m) 13 \<longleftrightarrow> bit m 13"
  unfolding narrow_all by simp_all

definition mb_size :: "int \<Rightarrow> nat \<Rightarrow> u64 \<Rightarrow> u64" where
  "mb_size form n k = (if form = MBSTRING_BMP then 2 * of_nat n else if form = MBSTRING_UNIV then 4 * of_nat n
     else if form = MBSTRING_UTF8 then k else of_nat n)"

lemma form_values:
  "mb_add MBSTRING_ASC = cbb_add_latin1" "mb_add MBSTRING_BMP = cbb_add_ucs2_be" "mb_add MBSTRING_UNIV = cbb_add_utf32_be"
  "mb_add MBSTRING_UTF8 = cbb_add_utf8" "mb_size MBSTRING_ASC n k = of_nat n" "mb_size MBSTRING_BMP n k = 2 * of_nat n"
  "mb_size MBSTRING_UNIV n k = 4 * of_nat n" "mb_size MBSTRING_UTF8 n k = k"
  by (simp_all add: mb_add_def mb_size_def MBSTRING_ASC_def MBSTRING_BMP_def MBSTRING_UNIV_def MBSTRING_UTF8_def)

lemma output_choice:
  "mb_output (fold mb_narrow us m) n k = map_option (\<lambda>(ty, form). (ty, form, mb_add form, mb_size form n k)) (mb_choice m us)"
  unfolding mb_output_def Let_def mask_bits narrow_bits mb_choice_code
  by (simp only: if_distrib [of "map_option _"] option.map prod.case form_values cong: if_cong)

lemma choice_0: "fold mb_narrow us m = 0 \<Longrightarrow> mb_choice m us = None"
proof -
  assume "fold mb_narrow us m = 0"
  then have no: "\<not> bit (fold mb_narrow us m) j" for j by simp
  show ?thesis
    using no [of 1] no [of 2] no [of 4] no [of 8] no [of 11] no [of 13] unfolding narrow_bits mb_choice_code
    by (simp only: if_False simp_thms if_cancel)
qed

text \<open>A chosen format has all the characters.\<close>

lemma choice_fits:
  assumes "mb_choice m us = Some (ty, form)" "list_all (mb_fits inform) us"
  shows "list_all (mb_fits form) us" "form \<in> {MBSTRING_ASC, MBSTRING_BMP, MBSTRING_UNIV, MBSTRING_UTF8}"
proof -
  have valid: "is_valid_code_point u" if "u \<le> 0xff" for u
  proof -
    have "u AND 0xfffe \<le> u" by (rule word_and_le2)
    then have "u AND 0xfffe \<noteq> 0xfffe" using that by (auto simp: word_le_nat_alt)
    with that show ?thesis by (simp add: is_valid_code_point_def word_le_nat_alt word_less_nat_alt)
  qed
  have v: "is_valid_code_point u" if "mb_fits inform u" for u using that valid by (auto simp: mb_fits_code split: if_splits)
  have p: "u \<le> 0xff" if "asn1_is_printable u \<or> u \<le> 127" for u
    using that by (auto simp: asn1_is_printable_def word_le_nat_alt word_less_nat_alt split: if_splits)
  show "form \<in> {MBSTRING_ASC, MBSTRING_BMP, MBSTRING_UNIV, MBSTRING_UTF8}"
    using assms(1) by (auto simp: mb_choice_code split: if_splits)
  show "list_all (mb_fits form) us"
    using assms v p unfolding mb_choice_code list_all_iff
    by (auto simp: mb_fits_code MBSTRING_ASC_def MBSTRING_BMP_def MBSTRING_UNIV_def MBSTRING_UTF8_def split: if_splits)
qed

section \<open>The conversion\<close>

lemma holding_prefix:
  assumes "n \<le> length inp" "length inp < 2 ^ 31"
  shows "cbs_bytes (holding inp) (CBS_init 0x100 (word_of_int (int n))) = take n inp"
proof -
  have "unat (word_of_int (int n) :: u64) = n" using assms unat_int [of "int n"] by simp
  moreover have "mem_read (holding inp) 0x100 n = take n (mem_read (holding inp) 0x100 (length inp))"
    using assms(1) by (simp add: take_mem_read)
  moreover have "mem_read (holding inp) 0x100 (length inp) = inp" using assms(2) by (intro holding_read) simp_all
  ultimately show ?thesis by simp
qed

lemma copy_text:
  assumes "mb_decode inform = Some get" "mb_decode form \<noteq> None" "mb_text inform (cbs_bytes m c) us" "list_all (mb_fits form) us"
  shows "here al 0 (mb_copy inform (mb_add form) al m c) (concat (map (mb_enc form) us))"
  using assms(3,4)
proof (induction us arbitrary: c)
  case Nil
  then have "length (cbs_bytes m c) = 0" by (simp add: mb_text_def)
  then have "cbs_len c = 0" by (simp add: unat_eq_0)
  then have "mb_copy inform (mb_add form) al m c = (\<lambda>b. (True, b))" by (intro ext) (subst mb_copy.simps, simp)
  then show ?case by (simp add: here_nop)
next
  case (Cons u us)
  let ?rest = "concat (map (mb_enc inform) us)"
  obtain get' where form: "mb_decode form = Some get'" using assms(2) by blast
  have fits: "mb_fits inform u" "mb_fits form u" "list_all (mb_fits form) us" and bytes: "cbs_bytes m c = mb_enc inform u @ ?rest"
    and rest: "mb_text inform ?rest us"
    using Cons.prems by (simp_all add: mb_text_def)
  obtain c' where c': "get m c = (Some u, c')" "cbs_bytes m c' = ?rest"
    using char_codec.get_exact [OF mb_codec [OF assms(1)], of m c u ?rest] fits bytes by blast
  have "cbs_bytes m c \<noteq> []" using bytes char_codec.enc_ne [OF mb_codec [OF assms(1)], of u] by simp
  then have "0 < length (cbs_bytes m c)" by (rule length_greater_0_conv [THEN iffD2])
  then have len: "cbs_len c \<noteq> 0" by auto
  have step: "mb_copy inform (mb_add form) al m c = cbb_then (mb_add form al 0 u) (mb_copy inform (mb_add form) al m c')"
  proof
    fix b
    show "mb_copy inform (mb_add form) al m c b = cbb_then (mb_add form al 0 u) (mb_copy inform (mb_add form) al m c') b"
      by (subst mb_copy.simps) (simp add: len assms(1) c'(1) cbb_then_def split: prod.split bool.split)
  qed
  have "here al 0 (mb_add form al 0 u) (mb_enc form u)"
    using char_codec.add_appends [OF mb_codec [OF form] fits(2)] by (rule appends_here)
  from here_then [OF this Cons.IH [of c', unfolded c'(2), OF rest fits(3)]] show ?case unfolding step by simp
qed

lemma build_text:
  assumes "al_total al" "here al 0 f bs" "length bs < 2 ^ 31"
  obtains cbb cbb' where "CBB_init al cap = Some cbb" "cbb_then f (CBB_add_u8 al 0 0) cbb = (True, cbb')"
    "fst (CBB_finish al True 0 cbb') = Some (bs @ [0])"
proof -
  obtain c where c: "CBB_init al cap = Some c" "cbb_rep al (length bs + 1) c [] []"
    using CBB_init_rep [of al "length bs + 1" cap] assms(1,3) by auto
  have "here al 0 (cbb_then f (CBB_add_u8 al 0 0)) (bs @ [0])"
    by (rule here_then [OF assms(2) appends_here [OF CBB_add_u8_appends]])
  from this [unfolded here_def, rule_format, of "length bs + 1" c "[]" "[]"] c(2) obtain c1 where
    c1: "cbb_then f (CBB_add_u8 al 0 0) c = (True, c1)" "cbb_rep al (length bs + 1) c1 [] (bs @ [0])" by auto
  from CBB_finish_rep [OF c1(2)] obtain c2 where "CBB_finish al True 0 c1 = (Some (bs @ [0]), c2)" by auto
  then have "fst (CBB_finish al True 0 c1) = fst (Some (bs @ [0]), c2)" by (rule arg_cong)
  then show thesis by (intro that [OF c(1) c1(1)]) (simp only: fst_conv)
qed

text \<open>The text of an input, what is asked of it, and its type.\<close>

definition mb_chosen :: "int \<Rightarrow> bytes \<Rightarrow> u64 \<Rightarrow> int \<Rightarrow> int \<Rightarrow> u32 list \<Rightarrow> int \<times> int \<Rightarrow> bool" where
  "mb_chosen inform bs msk minsize maxsize us tf \<longleftrightarrow>
     mb_text inform bs us \<and> \<not> mb_bom inform us \<and> (0 < minsize \<longrightarrow> minsize \<le> int (length us))
     \<and> (0 < maxsize \<longrightarrow> int (length us) \<le> maxsize) \<and> mb_choice (if msk = 0 then 0x2806 else msk) us = Some tf"

lemma mb_chosen_code:
  "mb_chosen inform bs msk minsize maxsize us tf \<longleftrightarrow>
     mb_text inform bs us \<and> \<not> mb_bom inform us \<and> (0 < minsize \<longrightarrow> minsize \<le> int (length us))
     \<and> (0 < maxsize \<longrightarrow> int (length us) \<le> maxsize) \<and> mb_choice (if msk = 0 then DIRSTRING_TYPE else msk) us = Some tf"
proof -
  have "DIRSTRING_TYPE = 0x2806" by code_simp
  then show ?thesis by (simp add: mb_chosen_def)
qed

definition mb_len :: "bytes \<Rightarrow> int \<Rightarrow> nat" where
  "mb_len inp len = (if len = - 1 then strlen inp else nat len)"

lemma enc_length: "mb_decode form \<noteq> None \<Longrightarrow> 1 \<le> length (mb_enc form u) \<and> length (mb_enc form u) \<le> 4"
  by (auto simp: mb_decode_def mb_enc_def utf8_bytes_def utf8_def split: if_splits)

lemma enc_lengths: "mb_decode form \<noteq> None \<Longrightarrow> length us \<le> length (concat (map (mb_enc form) us)) \<and> length (concat (map (mb_enc form) us)) \<le> 4 * length us"
proof (induction us)
  case (Cons u us)
  with enc_length [OF Cons.prems, of u] show ?case by simp
qed simp

lemma mb_len_bounds: "- 1 \<le> len \<Longrightarrow> len \<le> int (length inp) \<Longrightarrow> mb_len inp len \<le> length inp"
  using length_takeWhile_le [of "\<lambda>b. b \<noteq> 0" inp] by (auto simp: mb_len_def strlen_def)

lemma select_exact:
  assumes inform: "mb_decode inform = Some get" and bytes: "cbs_bytes m c = bs"
  defines "sel \<equiv> \<lambda>msk minsize maxsize. mb_select inform m c (if msk = 0 then DIRSTRING_TYPE else msk) minsize maxsize"
  shows "mb_chosen inform bs msk minsize maxsize us (ty, form) \<Longrightarrow> \<exists>size. sel msk minsize maxsize = Inr (ty, form, mb_add form, size)"
    "sel msk minsize maxsize = Inr r \<Longrightarrow> \<exists>us tf. mb_chosen inform bs msk minsize maxsize us tf"
proof -
  let ?msk = "if msk = 0 then DIRSTRING_TYPE else msk"
  note scan = scan_text [OF inform, of m c, unfolded bytes]
  show "\<exists>size. sel msk minsize maxsize = Inr (ty, form, mb_add form, size)" if "mb_chosen inform bs msk minsize maxsize us (ty, form)"
  proof -
    from that have t: "mb_text inform bs us" "\<not> mb_bom inform us" "0 < minsize \<longrightarrow> minsize \<le> int (length us)"
      "0 < maxsize \<longrightarrow> int (length us) \<le> maxsize" "mb_choice ?msk us = Some (ty, form)" by (simp_all add: mb_chosen_code)
    have "fold mb_narrow us ?msk \<noteq> 0" using choice_0 [of us ?msk] t(5) by auto
    with t have "mb_scan inform m c ?msk 0 0 = Inr (fold mb_narrow us ?msk, length us, sum_list (map cbb_get_utf8_len us))"
      unfolding scan [OF t(1)] by simp
    with t show ?thesis unfolding sel_def mb_select_def by (auto simp: output_choice)
  qed
  assume "sel msk minsize maxsize = Inr r"
  then obtain msk' n k where r: "mb_scan inform m c ?msk 0 0 = Inr (msk', n, k)" "\<not> (minsize > 0 \<and> int n < minsize)"
    "\<not> (maxsize > 0 \<and> int n > maxsize)" "mb_output msk' n k \<noteq> None"
    unfolding sel_def mb_select_def by (auto split: sum.splits if_splits option.splits)
  from scan_sound [OF inform r(1)] bytes obtain us where us: "mb_text inform bs us" by auto
  from scan [OF us, of ?msk 0 0] r(1) have s: "\<not> mb_bom inform us" "msk' = fold mb_narrow us ?msk" "n = length us"
    by (auto split: if_splits)
  then obtain tf where "mb_choice ?msk us = Some tf" using r(4) by (auto simp: output_choice)
  with us s r show "\<exists>us tf. mb_chosen inform bs msk minsize maxsize us tf" by (auto simp: mb_chosen_code not_less)
qed

definition mb_stored :: "mb_out \<Rightarrow> mb_out \<Rightarrow> int \<Rightarrow> bytes \<Rightarrow> bool" where
  "mb_stored out out' ty bs \<longleftrightarrow>
     (if out = Out_null then out' = Out_null
      else \<exists>s. out' = Out_at (Some s) \<and> as_type s = ty \<and> string_ok s \<and> contents_of s = bs
        \<and> nat (as_length s) < length (block_of s) \<and> block_of s ! nat (as_length s) = 0)"

lemma stored_set:
  assumes al: "al_total al" and s: "string_ok dest" "as_type dest = ty" and len: "n \<le> length inp" "length inp < 2 ^ 28"
  obtains s where "ASN1_STRING_set al dest (Some inp) (int n) = (True, s)" "out \<noteq> Out_null \<Longrightarrow> mb_stored out (Out_at (Some s)) ty (take n inp)"
proof -
  obtain s where s': "ASN1_STRING_set al dest (Some inp) (int n) = (True, s)" using string_set_total [OF al, of "int n"] by auto
  have "al_ok al" "int n < INT_MAX" using al len by (simp_all add: al_total_def INT_MAX_def)
  from string_set_ok [OF s(1) this(1) _ this(2) _ s'] len s(2) have "as_type s = ty" "string_ok s" "contents_of s = take n inp"
    "n < length (block_of s)" "block_of s ! n = 0" by simp_all
  moreover have "as_length s = int n" using s' by (auto simp: ASN1_STRING_set_def split: option.splits)
  ultimately show thesis using that [OF s'] by (auto simp: mb_stored_def)
qed

lemma stored_data:
  assumes "length bs < 2 ^ 31 - 1" "as_type dest = ty" "out \<noteq> Out_null"
  shows "mb_stored out (Out_at (Some (dest\<lparr>as_length := int (length (bs @ [0])) - 1, as_data := Some (bs @ [0])\<rparr>))) ty bs"
  using assms by (simp add: mb_stored_def string_ok_def contents_of_def block_of_def INT_MAX_def)

lemma dest_ok:
  assumes "al_total al" "\<And>s. out = Out_at (Some s) \<Longrightarrow> string_ok s"
  obtains free_out dest where "mb_dest al out ty = Some (free_out, dest)" "string_ok dest" "as_type dest = ty"
proof (cases "\<exists>s. out = Out_at (Some s)")
  case True
  then obtain s where s: "out = Out_at (Some s)" "string_ok s" using assms(2) by blast
  then show thesis
    by (intro that [of False "(if as_data s \<noteq> None then s\<lparr>as_length := 0, as_data := None\<rparr> else s)\<lparr>as_type := ty\<rparr>"])
      (auto simp: mb_dest_def string_ok_def block_of_def INT_MAX_def)
next
  case False
  then have "mb_dest al out ty = map_option (Pair True) (ASN1_STRING_type_new al ty)"
    by (cases out) (auto simp: mb_dest_def split: option.split)
  moreover obtain b where "al 24 = Some b" using assms(1) by (auto simp: al_total_def)
  ultimately show thesis
    by (intro that [of True "\<lparr>as_length = 0, as_type = ty, as_data = None, as_flags = 0\<rparr>"])
      (simp_all add: ASN1_STRING_type_new_def string_ok_def block_of_def INT_MAX_def)
qed

lemma ncopy_exact:
  assumes al: "al_total al" and out: "\<And>s. out = Out_at (Some s) \<Longrightarrow> string_ok s" and inform: "mb_decode inform = Some get"
    and len: "- 1 \<le> len" "len \<le> int (length inp)" "length inp < 2 ^ 28"
  defines "bs \<equiv> take (mb_len inp len) inp"
  shows "\<lbrakk>\<nexists>us tf. mb_chosen inform bs msk minsize maxsize us tf\<rbrakk>
      \<Longrightarrow> \<exists>e. ASN1_mbstring_ncopy al out inp len inform msk minsize maxsize = (Inl e, out)"
    "\<lbrakk>mb_chosen inform bs msk minsize maxsize us (ty, form)\<rbrakk>
      \<Longrightarrow> \<exists>out'. ASN1_mbstring_ncopy al out inp len inform msk minsize maxsize = (Inr ty, out')
        \<and> mb_stored out out' ty (concat (map (mb_enc form) us))"
proof -
  define m c n where "m = holding inp" and "c = CBS_init 0x100 (word_of_int (int (mb_len inp len)))" and "n = mb_len inp len"
  have n: "n \<le> length inp" unfolding n_def by (rule mb_len_bounds [OF len(1,2)])
  have len': "(if len = - 1 then to_int (int (strlen inp)) else len) = int n"
    using len n by (auto simp: n_def mb_len_def to_int_id)
  have bytes: "cbs_bytes m c = bs"
    unfolding m_def c_def bs_def using len(3) n by (intro holding_prefix) (simp_all add: n_def)
  note sel = select_exact [OF inform bytes]
  have inf: "(mb_decode inform = None) = False" using inform by simp
  note def = ASN1_mbstring_ncopy_def [of al out inp len inform msk minsize maxsize] len' Let_def inf if_False
    m_def [symmetric] c_def [folded n_def, symmetric]
  show "\<exists>e. ASN1_mbstring_ncopy al out inp len inform msk minsize maxsize = (Inl e, out)"
    if "\<nexists>us tf. mb_chosen inform bs msk minsize maxsize us tf"
  proof -
    have "\<exists>e. mb_select inform m c (if msk = 0 then DIRSTRING_TYPE else msk) minsize maxsize = Inl e"
      using sel(2) that by (cases "mb_select inform m c (if msk = 0 then DIRSTRING_TYPE else msk) minsize maxsize") blast+
    then show ?thesis unfolding def by auto
  qed
  show "\<exists>out'. ASN1_mbstring_ncopy al out inp len inform msk minsize maxsize = (Inr ty, out')
      \<and> mb_stored out out' ty (concat (map (mb_enc form) us))"
    if ch: "mb_chosen inform bs msk minsize maxsize us (ty, form)"
  proof -
    obtain size where s: "mb_select inform m c (if msk = 0 then DIRSTRING_TYPE else msk) minsize maxsize = Inr (ty, form, mb_add form, size)"
      using sel(1) [OF ch] by blast
    have txt': "mb_text inform (cbs_bytes m c) us" and choice: "mb_choice (if msk = 0 then DIRSTRING_TYPE else msk) us = Some (ty, form)"
      using ch bytes by (simp_all add: mb_chosen_code)
    have fits: "list_all (mb_fits form) us" "form \<in> {MBSTRING_ASC, MBSTRING_BMP, MBSTRING_UNIV, MBSTRING_UTF8}"
      using choice_fits [OF choice, of inform] txt' by (simp_all add: mb_text_def)
    then have form: "mb_decode form \<noteq> None" by (auto simp: mb_decode_def)
    note def = def s sum.case fst_conv snd_conv
    show ?thesis
    proof (cases "out = Out_null")
      case True
      then show ?thesis unfolding def by (simp add: mb_stored_def)
    next
      case False
      obtain free_out dest where d: "mb_dest al out ty = Some (free_out, dest)" "string_ok dest" "as_type dest = ty"
        by (rule dest_ok [OF al out])
      note def = def if_not_P [OF False] d(1) option.case prod.case
      show ?thesis
      proof (cases "inform = form")
        case True
        obtain x where x: "ASN1_STRING_set al dest (Some inp) (int n) = (True, x)" "out \<noteq> Out_null \<Longrightarrow> mb_stored out (Out_at (Some x)) ty (take n inp)"
          using stored_set [OF al d(2,3) n len(3)] by blast
        have "concat (map (mb_enc form) us) = take n inp" using txt' bytes True by (simp add: mb_text_def bs_def n_def)
        with x False show ?thesis unfolding def if_P [OF True] by simp
      next
        case neq: False
        let ?bs = "concat (map (mb_enc form) us)"
        have "length us \<le> length bs" using enc_lengths [of inform us] inform txt' bytes by (simp add: mb_text_def)
        then have "length us < 2 ^ 28" using len(3) by (simp add: bs_def)
        then have small: "length ?bs < 2 ^ 31 - 1" using enc_lengths [OF form, of us] by simp
        obtain cbb cbb' where b: "CBB_init al (size + 1) = Some cbb"
          "cbb_then (mb_copy inform (mb_add form) al m c) (CBB_add_u8 al 0 0) cbb = (True, cbb')"
          "fst (CBB_finish al True 0 cbb') = Some (?bs @ [0])"
          using build_text [OF al copy_text [OF inform form txt' fits(1)], of "size + 1"] small by auto
        have "mb_build al inform m c (ty, form, mb_add form, size) free_out dest =
            (Inr ty, Out_at (Some (dest\<lparr>as_length := int (length (?bs @ [0])) - 1, as_data := Some (?bs @ [0])\<rparr>)))"
          unfolding mb_build_def prod.case Let_def b option.case bool.case using small by (simp add: INT_MAX_def)
        then show ?thesis unfolding def if_not_P [OF neq] using stored_data [OF small d(3) False] by blast
      qed
    qed
  qed
qed

text \<open>
  When the encoding fails after a new object was made, the object is freed, and the caller's
  pointer still points to it.
\<close>

lemma utf8_A: "mb_text MBSTRING_UTF8 [0x41] [0x41]" "asn1_is_printable 0x41"
proof -
  have "is_valid_code_point 0x41" by (rule valid_ascii) simp
  then show "mb_text MBSTRING_UTF8 [0x41] [0x41]"
    by (simp add: mb_text_def mb_fits_code mb_enc_def utf8_bytes_def utf8_def MBSTRING_BMP_def MBSTRING_UNIV_def MBSTRING_UTF8_def)
  show "asn1_is_printable 0x41" by (simp add: asn1_is_printable_def)
qed

lemma printable_bits: "bit B_ASN1_PRINTABLESTRING 1" "B_ASN1_PRINTABLESTRING \<noteq> 0"
  using mask_bits(1) [of B_ASN1_PRINTABLESTRING] by (simp_all add: B_ASN1_PRINTABLESTRING_def)

lemma chosen_A: "mb_chosen MBSTRING_UTF8 [0x41] B_ASN1_PRINTABLESTRING 0 0 [0x41] (V_ASN1_PRINTABLESTRING, MBSTRING_ASC)"
proof -
  have "mb_choice B_ASN1_PRINTABLESTRING [0x41] = Some (V_ASN1_PRINTABLESTRING, MBSTRING_ASC)"
    unfolding mb_choice_code using printable_bits(1) utf8_A(2) by (simp only: list.pred_inject simp_thms if_True)
  then show ?thesis
    using utf8_A(1) printable_bits(2) by (simp add: mb_chosen_code mb_bom_def)
qed

lemma ncopy_dangling:
  assumes "al 24 = Some b" "\<And>n. n \<noteq> 24 \<Longrightarrow> al n = None"
  shows "ASN1_mbstring_ncopy al (Out_at None) [0x41] 1 MBSTRING_UTF8 B_ASN1_PRINTABLESTRING 0 0 = (Inl ERR_MALLOC_FAILURE, Out_freed)"
proof -
  define m c where "m = holding [0x41]" and "c = CBS_init 0x100 (word_of_int 1)"
  have bytes: "cbs_bytes m c = [0x41]" using holding_prefix [of 1 "[0x41]"] unfolding m_def c_def by simp
  have dec: "mb_decode MBSTRING_UTF8 = Some cbs_get_utf8"
    by (simp add: mb_decode_def MBSTRING_UTF8_def MBSTRING_BMP_def MBSTRING_UNIV_def)
  obtain size where sel: "mb_select MBSTRING_UTF8 m c B_ASN1_PRINTABLESTRING 0 0 = Inr (V_ASN1_PRINTABLESTRING, MBSTRING_ASC, mb_add MBSTRING_ASC, size)"
    using select_exact(1) [OF dec bytes chosen_A] printable_bits(2) by auto
  have new: "mb_dest al (Out_at None) V_ASN1_PRINTABLESTRING =
      Some (True, \<lparr>as_length = 0, as_type = V_ASN1_PRINTABLESTRING, as_data = None, as_flags = 0\<rparr>)"
    by (simp add: mb_dest_def ASN1_STRING_type_new_def assms(1))
  have fail: "CBB_init al (size + 1) = None"
    using assms by (auto simp: CBB_init_def cbb_init_def split: option.split)
  have ne: "MBSTRING_UTF8 \<noteq> MBSTRING_ASC" by (simp add: MBSTRING_UTF8_def MBSTRING_ASC_def)
  have one: "(if (1 :: int) = - 1 then to_int (int (strlen [0x41])) else 1) = 1" by simp
  show ?thesis
    unfolding ASN1_mbstring_ncopy_def one Let_def m_def [symmetric] c_def [symmetric] if_not_P [OF printable_bits(2)]
    by (simp add: dec sel new ne mb_build_def fail)
qed

section \<open>Properties\<close>

text \<open>
  C29. With an allocator that does not fail, a known input format, fewer than \<open>2 ^ 28\<close> input bytes and a well-formed
  object, if any, to fill, \<open>ASN1_mbstring_ncopy\<close> succeeds exactly when the input is the encoding of characters that
  begin with no byte-order mark, are as many as asked for, and all fit one of the types of the mask. Its
  answer is the first such type in the order of preference, the object holds the characters encoded in that type's
  format, with a NUL byte after them, and on failure the caller's object is untouched. (When an allocation fails, it
  may have been freed: lemma \<open>ncopy_dangling\<close>.)
\<close>

theorem ASN1_mbstring_ncopy_exact:
  assumes "al_total al" "\<And>s. out = Out_at (Some s) \<Longrightarrow> string_ok s" "mb_decode inform = Some get"
    "- 1 \<le> len" "len \<le> int (length inp)" "length inp < 2 ^ 28"
  shows "case ASN1_mbstring_ncopy al out inp len inform msk minsize maxsize of
      (Inl e, out') \<Rightarrow> out' = out \<and> (\<nexists>us tf. mb_chosen inform (take (mb_len inp len) inp) msk minsize maxsize us tf)
    | (Inr ty, out') \<Rightarrow> \<exists>us form. mb_chosen inform (take (mb_len inp len) inp) msk minsize maxsize us (ty, form)
        \<and> mb_stored out out' ty (concat (map (mb_enc form) us))"
proof (cases "\<exists>us tf. mb_chosen inform (take (mb_len inp len) inp) msk minsize maxsize us tf")
  case False
  then show ?thesis using ncopy_exact(1) [where out = out and msk = msk and minsize = minsize and maxsize = maxsize, OF assms] by auto
next
  case True
  then obtain us ty form where ch: "mb_chosen inform (take (mb_len inp len) inp) msk minsize maxsize us (ty, form)" by auto
  from ncopy_exact(2) [where out = out, OF assms ch] obtain out' where
    "ASN1_mbstring_ncopy al out inp len inform msk minsize maxsize = (Inr ty, out')"
    "mb_stored out out' ty (concat (map (mb_enc form) us))" by blast
  with ch show ?thesis by (simp only: prod.case sum.case) blast
qed

theorem ASN1_mbstring_ncopy_exact_witness:
  "\<exists>s. ASN1_mbstring_ncopy heap_al (Out_at None) [0x41] 1 MBSTRING_UTF8 B_ASN1_PRINTABLESTRING 0 0 =
    (Inr V_ASN1_PRINTABLESTRING, Out_at (Some s)) \<and> contents_of s = [0x41]"
proof -
  let ?r = "ASN1_mbstring_ncopy heap_al (Out_at None) [0x41] 1 MBSTRING_UTF8 B_ASN1_PRINTABLESTRING 0 0"
  have dec: "mb_decode MBSTRING_UTF8 = Some cbs_get_utf8"
    by (simp add: mb_decode_def MBSTRING_UTF8_def MBSTRING_BMP_def MBSTRING_UNIV_def)
  have len: "take (mb_len [0x41] 1) [0x41] = ([0x41] :: bytes)" by (simp add: mb_len_def)
  note t = ASN1_mbstring_ncopy_exact [where out = "Out_at None" and inp = "[0x41]" and len = 1 and msk = B_ASN1_PRINTABLESTRING
      and minsize = 0 and maxsize = 0, OF heap_al_total _ dec, unfolded len, simplified]
  show ?thesis
  proof (cases "fst ?r")
    case (Inl e)
    then show ?thesis using t chosen_A by (cases ?r) auto
  next
    case (Inr ty)
    then obtain out' us form where r: "?r = (Inr ty, out')" "mb_chosen MBSTRING_UTF8 [0x41] B_ASN1_PRINTABLESTRING 0 0 us (ty, form)"
      "mb_stored (Out_at None) out' ty (concat (map (mb_enc form) us))" using t by (cases ?r) auto
    have "us = [0x41]"
      using utf8_A(1) r(2) char_codec.text_inj [OF mb_codec [OF dec], of us "[0x41]"] by (simp add: mb_chosen_code mb_text_def)
    moreover have "(ty, form) = (V_ASN1_PRINTABLESTRING, MBSTRING_ASC)"
      using r(2) chosen_A calculation by (simp add: mb_chosen_code)
    ultimately show ?thesis using r(1,3)
      by (auto simp: mb_stored_def mb_enc_def MBSTRING_ASC_def MBSTRING_BMP_def MBSTRING_UNIV_def MBSTRING_UTF8_def)
  qed
qed

end
