(* ===== verification/Asn1Strnid.thy ===== *)
theory Asn1Strnid
  imports Asn1Mbstr Lhash
begin

text \<open>
  The table of the limits that the standards set for the strings of an attribute type
  (crypto/asn1/a_strnid.c): the built-in entries, searched by \<open>bsearch\<close>, the entries that a program adds,
  kept in a hash table (theory Lhash), and \<open>ASN1_STRING_set_by_NID\<close>, which builds a string within the limits of its entry.

  The variable \<open>string_tables\<close> is the argument and result \<open>tables\<close>, its \<open>NULL\<close> the value \<open>None\<close>. \<open>ok\<close> is
  the allocator's answer to a request for so many bytes while \<open>ASN1_STRING_TABLE_add\<close> runs; its requests
  differ in their sizes.
\<close>

section \<open>The entries\<close>

record string_table =
  st_nid :: int
  st_minsize :: int
  st_maxsize :: int
  st_mask :: u64
  st_flags :: u64

definition PKCS9STRING_TYPE :: u64 where "PKCS9STRING_TYPE = DIRSTRING_TYPE OR B_ASN1_IA5STRING"
definition STABLE_NO_MASK :: u64 where "STABLE_NO_MASK = 0x02"

definition NID_commonName :: int where "NID_commonName = 13"
definition NID_countryName :: int where "NID_countryName = 14"
definition NID_localityName :: int where "NID_localityName = 15"
definition NID_stateOrProvinceName :: int where "NID_stateOrProvinceName = 16"
definition NID_organizationName :: int where "NID_organizationName = 17"
definition NID_organizationalUnitName :: int where "NID_organizationalUnitName = 18"
definition NID_pkcs9_emailAddress :: int where "NID_pkcs9_emailAddress = 48"
definition NID_pkcs9_unstructuredName :: int where "NID_pkcs9_unstructuredName = 49"
definition NID_pkcs9_challengePassword :: int where "NID_pkcs9_challengePassword = 54"
definition NID_pkcs9_unstructuredAddress :: int where "NID_pkcs9_unstructuredAddress = 55"
definition NID_givenName :: int where "NID_givenName = 99"
definition NID_surname :: int where "NID_surname = 100"
definition NID_initials :: int where "NID_initials = 101"
definition NID_serialNumber :: int where "NID_serialNumber = 105"
definition NID_friendlyName :: int where "NID_friendlyName = 156"
definition NID_name :: int where "NID_name = 173"
definition NID_dnQualifier :: int where "NID_dnQualifier = 174"
definition NID_domainComponent :: int where "NID_domainComponent = 391"
definition NID_ms_csp_name :: int where "NID_ms_csp_name = 417"

lemmas nid_defs = NID_commonName_def NID_countryName_def NID_localityName_def NID_stateOrProvinceName_def
  NID_organizationName_def NID_organizationalUnitName_def NID_pkcs9_emailAddress_def NID_pkcs9_unstructuredName_def
  NID_pkcs9_challengePassword_def NID_pkcs9_unstructuredAddress_def NID_givenName_def NID_surname_def
  NID_initials_def NID_serialNumber_def NID_friendlyName_def NID_name_def NID_dnQualifier_def
  NID_domainComponent_def NID_ms_csp_name_def

definition ub_name :: int where "ub_name = 32768"
definition ub_common_name :: int where "ub_common_name = 64"
definition ub_locality_name :: int where "ub_locality_name = 128"
definition ub_state_name :: int where "ub_state_name = 128"
definition ub_organization_name :: int where "ub_organization_name = 64"
definition ub_organization_unit_name :: int where "ub_organization_unit_name = 64"
definition ub_email_address :: int where "ub_email_address = 128"
definition ub_serial_number :: int where "ub_serial_number = 64"

definition st_entry :: "int \<Rightarrow> int \<Rightarrow> int \<Rightarrow> u64 \<Rightarrow> u64 \<Rightarrow> string_table" where
  "st_entry nid minsize maxsize msk flags =
     \<lparr>st_nid = nid, st_minsize = minsize, st_maxsize = maxsize, st_mask = msk, st_flags = flags\<rparr>"

lemma st_entry_nid [simp]: "st_nid (st_entry nid a b c d) = nid"
  by (simp add: st_entry_def)

definition tbl_standard :: "string_table list" where
  "tbl_standard =
    [st_entry NID_commonName 1 ub_common_name DIRSTRING_TYPE 0,
     st_entry NID_countryName 2 2 B_ASN1_PRINTABLESTRING STABLE_NO_MASK,
     st_entry NID_localityName 1 ub_locality_name DIRSTRING_TYPE 0,
     st_entry NID_stateOrProvinceName 1 ub_state_name DIRSTRING_TYPE 0,
     st_entry NID_organizationName 1 ub_organization_name DIRSTRING_TYPE 0,
     st_entry NID_organizationalUnitName 1 ub_organization_unit_name DIRSTRING_TYPE 0,
     st_entry NID_pkcs9_emailAddress 1 ub_email_address B_ASN1_IA5STRING STABLE_NO_MASK,
     st_entry NID_pkcs9_unstructuredName 1 (- 1) PKCS9STRING_TYPE 0,
     st_entry NID_pkcs9_challengePassword 1 (- 1) PKCS9STRING_TYPE 0,
     st_entry NID_pkcs9_unstructuredAddress 1 (- 1) DIRSTRING_TYPE 0,
     st_entry NID_givenName 1 ub_name DIRSTRING_TYPE 0,
     st_entry NID_surname 1 ub_name DIRSTRING_TYPE 0,
     st_entry NID_initials 1 ub_name DIRSTRING_TYPE 0,
     st_entry NID_serialNumber 1 ub_serial_number B_ASN1_PRINTABLESTRING STABLE_NO_MASK,
     st_entry NID_friendlyName (- 1) (- 1) B_ASN1_BMPSTRING STABLE_NO_MASK,
     st_entry NID_name 1 ub_name DIRSTRING_TYPE 0,
     st_entry NID_dnQualifier (- 1) (- 1) B_ASN1_PRINTABLESTRING STABLE_NO_MASK,
     st_entry NID_domainComponent 1 (- 1) B_ASN1_IA5STRING STABLE_NO_MASK,
     st_entry NID_ms_csp_name (- 1) (- 1) B_ASN1_BMPSTRING STABLE_NO_MASK]"

section \<open>Searching the table\<close>

definition table_cmp :: "string_table \<Rightarrow> string_table \<Rightarrow> int" where
  "table_cmp a b = (if st_nid a < st_nid b then - 1 else if st_nid a > st_nid b then 1 else 0)"

definition OPENSSL_hash32 :: "bytes \<Rightarrow> u32" where
  "OPENSSL_hash32 bs = foldl (\<lambda>h b. (h XOR ucast b) * 16777619) 2166136261 bs"

definition table_hash :: "string_table \<Rightarrow> u32" where
  "table_hash tbl = OPENSSL_hash32 (le_bytes 4 (word_of_int (st_nid tbl) :: u32))"

text \<open>
  The C library's \<open>bsearch\<close> over the elements \<open>l\<close> to \<open>u\<close> of an array; \<open>c\<close> compares the key with an element.
\<close>

function bsearch :: "('e \<Rightarrow> int) \<Rightarrow> 'e list \<Rightarrow> nat \<Rightarrow> nat \<Rightarrow> 'e option" where
  "bsearch c xs l u =
     (if l < u then
        (let idx = (l + u) div 2; r = c (xs ! idx) in
         if r < 0 then bsearch c xs l idx
         else if r > 0 then bsearch c xs (idx + 1) u
         else Some (xs ! idx))
      else None)"
  by pat_completeness auto
termination by (relation "measure (\<lambda>(_, _, l, u). u - l)") auto

declare bsearch.simps [simp del]

text \<open>The object that is only a key: no more than its \<open>nid\<close> is set and read.\<close>

definition nid_key :: "int \<Rightarrow> string_table" where
  "nid_key nid = st_entry nid 0 0 0 0"

definition asn1_string_table_get :: "string_table lhash option \<Rightarrow> int \<Rightarrow> string_table option" where
  "asn1_string_table_get tables nid =
     (case bsearch (table_cmp (nid_key nid)) tbl_standard 0 (length tbl_standard) of
        Some tbl \<Rightarrow> Some tbl
      | None \<Rightarrow> (case tables of
          Some lh \<Rightarrow> OPENSSL_lh_retrieve table_hash table_cmp lh (nid_key nid)
        | None \<Rightarrow> None))"

section \<open>Adding an entry\<close>

text \<open>The part of \<open>ASN1_STRING_TABLE_add\<close> after both tests, and the part under the lock.\<close>

definition add_new_entry :: "(u64 \<Rightarrow> bool) \<Rightarrow> string_table \<Rightarrow> string_table lhash \<Rightarrow> bool \<times> string_table lhash option" where
  "add_new_entry ok e lh =
     (if \<not> ok 40 then (False, Some lh)
      else (case OPENSSL_lh_insert ok table_hash table_cmp e lh of (r, _, lh') \<Rightarrow> (r, Some lh')))"

definition add_locked :: "(u64 \<Rightarrow> bool) \<Rightarrow> string_table \<Rightarrow> string_table lhash option \<Rightarrow> bool \<times> string_table lhash option" where
  "add_locked ok e tables =
     (case tables of
        None \<Rightarrow> (case OPENSSL_lh_new ok of None \<Rightarrow> (False, None) | Some lh \<Rightarrow> add_new_entry ok e lh)
      | Some lh \<Rightarrow>
          if OPENSSL_lh_retrieve table_hash table_cmp lh (nid_key (st_nid e)) \<noteq> None then (False, Some lh)
          else add_new_entry ok e lh)"

definition ASN1_STRING_TABLE_add ::
  "(u64 \<Rightarrow> bool) \<Rightarrow> int \<Rightarrow> int \<Rightarrow> int \<Rightarrow> u64 \<Rightarrow> u64 \<Rightarrow> string_table lhash option \<Rightarrow> bool \<times> string_table lhash option" where
  "ASN1_STRING_TABLE_add ok nid minsize maxsize msk flags tables =
     (if asn1_string_table_get tables nid \<noteq> None then (False, tables)
      else add_locked ok (st_entry nid minsize maxsize msk flags) tables)"

section \<open>Strings of an attribute type\<close>

text \<open>The result: the object returned, which is the one that \<open>out\<close> refers to afterwards.\<close>

definition ASN1_STRING_set_by_NID ::
  "allocator \<Rightarrow> string_table lhash option \<Rightarrow> mb_out \<Rightarrow> bytes \<Rightarrow> int \<Rightarrow> int \<Rightarrow> int \<Rightarrow> asn1_string option \<times> mb_out" where
  "ASN1_STRING_set_by_NID al tables out inp len inform nid =
     (let out1 = (if out = Out_null then Out_at None else out);
          (ret, out2) =
            (case asn1_string_table_get tables nid of
               Some tbl \<Rightarrow>
                 (let msk = st_mask tbl;
                      msk = (if st_flags tbl AND STABLE_NO_MASK = 0 then msk AND B_ASN1_UTF8STRING else msk)
                  in ASN1_mbstring_ncopy al out1 inp len inform msk (st_minsize tbl) (st_maxsize tbl))
             | None \<Rightarrow> ASN1_mbstring_copy al out1 inp len inform B_ASN1_UTF8STRING);
          out3 = (if out = Out_null then Out_null else out2)
      in (case ret of
            Inl _ \<Rightarrow> (None, out3)
          | Inr r \<Rightarrow> if r \<le> 0 then (None, out3) else (case out2 of Out_at s \<Rightarrow> (s, out3) | _ \<Rightarrow> (None, out3))))"

section \<open>The searches find what is there\<close>

lemma bsearch_spec:
  assumes "u \<le> length xs"
    and "\<And>i j. l \<le> i \<Longrightarrow> i < j \<Longrightarrow> j < u \<Longrightarrow> (0 < c (xs ! j) \<longrightarrow> 0 < c (xs ! i)) \<and> (c (xs ! i) < 0 \<longrightarrow> c (xs ! j) < 0)"
  shows "case bsearch c xs l u of
      Some e \<Rightarrow> e \<in> set xs \<and> c e = 0
    | None \<Rightarrow> \<forall>i. l \<le> i \<longrightarrow> i < u \<longrightarrow> c (xs ! i) \<noteq> 0"
  using assms
proof (induction c xs l u rule: bsearch.induct)
  case (1 c xs l u)
  let ?idx = "(l + u) div 2"
  show ?case
  proof (cases "l < u")
    case False
    then show ?thesis by (simp add: bsearch.simps)
  next
    case True
    then have m: "l \<le> ?idx" "?idx < u" by auto
    consider "c (xs ! ?idx) < 0" | "c (xs ! ?idx) > 0" | "c (xs ! ?idx) = 0" by linarith
    then show ?thesis
    proof cases
      case a: 1
      have o: "c (xs ! i) \<noteq> 0" if "?idx \<le> i" "i < u" for i
        using "1.prems"(2) [of ?idx i] a m that by (cases "i = ?idx") auto
      have "case bsearch c xs l ?idx of Some e \<Rightarrow> e \<in> set xs \<and> c e = 0
          | None \<Rightarrow> \<forall>i. l \<le> i \<longrightarrow> i < ?idx \<longrightarrow> c (xs ! i) \<noteq> 0"
        using "1.IH"(1) [OF True refl refl a] "1.prems" m by simp
      then show ?thesis using True a o unfolding bsearch.simps [of c xs l u]
        by (simp add: Let_def split: option.splits) (meson not_less)
    next
      case a: 2
      have o: "c (xs ! i) \<noteq> 0" if "l \<le> i" "i \<le> ?idx" for i
        using "1.prems"(2) [of i ?idx] a m that by (cases "i = ?idx") auto
      have "case bsearch c xs (?idx + 1) u of Some e \<Rightarrow> e \<in> set xs \<and> c e = 0
          | None \<Rightarrow> \<forall>i. ?idx + 1 \<le> i \<longrightarrow> i < u \<longrightarrow> c (xs ! i) \<noteq> 0"
        by (rule "1.IH"(2) [OF True refl refl _ a]) (use a "1.prems"(1) in \<open>simp, simp\<close>, rule "1.prems"(2), use m in simp_all)
      then show ?thesis using True a o unfolding bsearch.simps [of c xs l u]
        by (simp add: Let_def split: option.splits) (meson not_less_eq_eq)
    next
      case a: 3
      then show ?thesis using True m "1.prems"(1) unfolding bsearch.simps [of c xs l u] by (simp add: Let_def)
    qed
  qed
qed

lemma table_cmp_0: "table_cmp a b = 0 \<longleftrightarrow> st_nid a = st_nid b"
  by (simp add: table_cmp_def)

lemma nid_key_nid [simp]: "st_nid (nid_key nid) = nid"
  by (simp add: nid_key_def)

interpretation tbl: lhash_key table_hash table_cmp
  by unfold_locales (auto simp: table_cmp_0 table_hash_def)

definition std_get :: "int \<Rightarrow> string_table option" where
  "std_get nid = find (\<lambda>e. st_nid e = nid) tbl_standard"

lemma tbl_standard_sorted: "sorted_wrt (<) (map st_nid tbl_standard)"
  by (simp add: tbl_standard_def nid_defs)

lemma find_sound: "find P xs = Some e \<Longrightarrow> e \<in> set xs \<and> P e"
  by (induction xs) (auto split: if_splits)

lemma std_get_sound: "std_get nid = Some e \<Longrightarrow> e \<in> set tbl_standard \<and> st_nid e = nid"
  unfolding std_get_def by (rule find_sound)

lemma std_get_Some: "std_get nid = Some e \<longleftrightarrow> e \<in> set tbl_standard \<and> st_nid e = nid"
proof (rule iffI [OF std_get_sound])
  assume e: "e \<in> set tbl_standard \<and> st_nid e = nid"
  have d: "distinct (map st_nid tbl_standard)" using tbl_standard_sorted strict_sorted_iff by blast
  from e have "std_get nid \<noteq> None" unfolding std_get_def find_None_iff by blast
  then obtain e' where e': "std_get nid = Some e'" by blast
  from std_get_sound [OF this] d e have "e' = e" by (metis distinct_map inj_onD)
  with e' show "std_get nid = Some e" by simp
qed

lemma bsearch_std: "bsearch (table_cmp (nid_key nid)) tbl_standard 0 (length tbl_standard) = std_get nid"
proof -
  have m: "st_nid (tbl_standard ! i) < st_nid (tbl_standard ! j)" if "i < j" "j < length tbl_standard" for i j
    using sorted_wrt_nth_less [OF tbl_standard_sorted that(1)] that by simp
  have "case bsearch (table_cmp (nid_key nid)) tbl_standard 0 (length tbl_standard) of
      Some e \<Rightarrow> e \<in> set tbl_standard \<and> table_cmp (nid_key nid) e = 0
    | None \<Rightarrow> \<forall>i. 0 \<le> i \<longrightarrow> i < length tbl_standard \<longrightarrow> table_cmp (nid_key nid) (tbl_standard ! i) \<noteq> 0"
  proof (rule bsearch_spec)
    fix i j assume "i < j" "j < length tbl_standard"
    with m [of i j] show "(0 < table_cmp (nid_key nid) (tbl_standard ! j) \<longrightarrow> 0 < table_cmp (nid_key nid) (tbl_standard ! i))
        \<and> (table_cmp (nid_key nid) (tbl_standard ! i) < 0 \<longrightarrow> table_cmp (nid_key nid) (tbl_standard ! j) < 0)"
      by (simp add: table_cmp_def)
  qed simp
  then show ?thesis
  proof (cases "bsearch (table_cmp (nid_key nid)) tbl_standard 0 (length tbl_standard)")
    case None
    then have "\<forall>e \<in> set tbl_standard. st_nid e \<noteq> nid"
      using \<open>case bsearch _ _ _ _ of Some e \<Rightarrow> _ e | None \<Rightarrow> _\<close> by (auto simp: table_cmp_0 in_set_conv_nth)
    then have "std_get nid = None" by (simp add: std_get_def find_None_iff)
    with None show ?thesis by simp
  next
    case (Some e)
    with \<open>case bsearch _ _ _ _ of Some e \<Rightarrow> _ e | None \<Rightarrow> _\<close>
    have "e \<in> set tbl_standard" "st_nid e = nid" by (auto simp: table_cmp_0)
    then have "std_get nid = Some e" by (simp add: std_get_Some)
    with Some show ?thesis by simp
  qed
qed

definition added_get :: "string_table lhash option \<Rightarrow> int \<Rightarrow> string_table option" where
  "added_get tables nid = (case tables of None \<Rightarrow> None | Some lh \<Rightarrow> OPENSSL_lh_retrieve table_hash table_cmp lh (nid_key nid))"

lemma table_get: "asn1_string_table_get tables nid = (case std_get nid of Some e \<Rightarrow> Some e | None \<Rightarrow> added_get tables nid)"
  by (simp add: asn1_string_table_get_def bsearch_std added_get_def split: option.splits)

section \<open>Concurrent callers\<close>

text \<open>
  A caller of \<open>ASN1_STRING_TABLE_add\<close> looks the entry up under the read lock, which it releases, and does the
  rest under the write lock. Callers in several threads interleave between the two.
\<close>

datatype add_thread = Add_start string_table | Add_checked string_table | Add_done string_table bool

inductive add_step :: "string_table lhash option \<times> add_thread list \<Rightarrow> string_table lhash option \<times> add_thread list \<Rightarrow> bool" where
  registered: "i < length ts \<Longrightarrow> ts ! i = Add_start e \<Longrightarrow> asn1_string_table_get tables (st_nid e) \<noteq> None \<Longrightarrow>
     add_step (tables, ts) (tables, ts[i := Add_done e False])"
| unregistered: "i < length ts \<Longrightarrow> ts ! i = Add_start e \<Longrightarrow> asn1_string_table_get tables (st_nid e) = None \<Longrightarrow>
     add_step (tables, ts) (tables, ts[i := Add_checked e])"
| locked: "i < length ts \<Longrightarrow> ts ! i = Add_checked e \<Longrightarrow> add_locked ok e tables = (r, tables') \<Longrightarrow>
     add_step (tables, ts) (tables', ts[i := Add_done e r])"

inductive_cases add_stepE: "add_step (tables, ts) (tables', ts')"

lemma add_is_steps:
  assumes "i < length ts" and "ts ! i = Add_start (st_entry nid minsize maxsize msk flags)"
    and "ASN1_STRING_TABLE_add ok nid minsize maxsize msk flags tables = (r, tables')"
  shows "add_step\<^sup>*\<^sup>* (tables, ts) (tables', ts[i := Add_done (st_entry nid minsize maxsize msk flags) r])"
proof (cases "asn1_string_table_get tables nid")
  case (Some e)
  with assms show ?thesis using registered [OF assms(1,2), of tables] by (auto simp: ASN1_STRING_TABLE_add_def)
next
  case None
  let ?e = "st_entry nid minsize maxsize msk flags"
  have s1: "add_step (tables, ts) (tables, ts[i := Add_checked ?e])" using unregistered [OF assms(1,2)] None by simp
  have l: "add_locked ok ?e tables = (r, tables')" using assms(3) None by (simp add: ASN1_STRING_TABLE_add_def)
  have "add_step (tables, ts[i := Add_checked ?e]) (tables', ts[i := Add_checked ?e, i := Add_done ?e r])"
    using assms(1) by (intro locked [OF _ _ l]) simp_all
  with s1 show ?thesis by simp
qed

definition tables_ok :: "string_table lhash option \<Rightarrow> nat \<Rightarrow> bool" where
  "tables_ok tables n \<longleftrightarrow> (case tables of None \<Rightarrow> True | Some lh \<Rightarrow> lh_ok table_hash table_cmp lh \<and> unat (lh_num_items lh) \<le> n)"

lemma add_new_entry_spec:
  assumes "lh_ok table_hash table_cmp lh" and "unat (lh_num_items lh) \<le> n" and "n + 1 < 2 ^ 64"
    and "add_new_entry ok e lh = (r, tables')"
  shows "tables_ok tables' (n + 1)
    \<and> (\<forall>k. added_get tables' k = (if r \<and> st_nid e = k then Some e else added_get (Some lh) k))"
proof (cases "ok 40")
  case False
  with assms show ?thesis by (auto simp: add_new_entry_def tables_ok_def)
next
  case True
  obtain old lh' where i: "OPENSSL_lh_insert ok table_hash table_cmp e lh = (r, old, lh')" "tables' = Some lh'"
    using assms(4) True by (auto simp: add_new_entry_def split: prod.splits)
  have room: "unat (lh_num_items lh) + 1 < 2 ^ 64" using assms(2,3) by simp
  then have "unat (lh_num_items lh + 1) = unat (lh_num_items lh) + 1" by (simp add: unat_word_ariths)
  then have "unat (lh_num_items lh') \<le> n + 1" using insert_num [OF i(1)] assms(2) by auto
  with tbl.insert_spec [OF assms(1) room i(1)] tbl.insert_retrieve [OF assms(1) room i(1)] i(2)
  show ?thesis by (auto simp: tables_ok_def added_get_def table_cmp_0)
qed

lemma add_locked_spec:
  assumes "tables_ok tables n" and "n + 1 < 2 ^ 64" and "add_locked ok e tables = (r, tables')"
  shows "tables_ok tables' (n + 1) \<and> (r \<longrightarrow> added_get tables (st_nid e) = None)
    \<and> (\<forall>k. added_get tables' k = (if r \<and> st_nid e = k then Some e else added_get tables k))"
proof (cases tables)
  case None
  show ?thesis
  proof (cases "OPENSSL_lh_new ok :: string_table lhash option")
    case n: None
    with None assms show ?thesis by (auto simp: add_locked_def tables_ok_def)
  next
    case (Some lh)
    have lh: "lh_ok table_hash table_cmp lh" "lh_elements lh = {}" "lh_num_items lh = 0"
      using OPENSSL_lh_new_ok [OF Some] by blast+
    have "added_get (Some lh) k = None" for k
      using tbl.retrieve_spec [OF lh(1)] lh(2) by (auto simp: added_get_def) (metis not_Some_eq)
    moreover have "added_get tables k = None" for k by (simp add: added_get_def None)
    ultimately show ?thesis
      using add_new_entry_spec [OF lh(1) _ assms(2), of ok e r tables'] lh(3) Some None assms(3)
      by (simp add: add_locked_def)
  qed
next
  case (Some lh)
  then have lh: "lh_ok table_hash table_cmp lh" "unat (lh_num_items lh) \<le> n" using assms(1) by (simp_all add: tables_ok_def)
  show ?thesis
  proof (cases "OPENSSL_lh_retrieve table_hash table_cmp lh (nid_key (st_nid e))")
    case None
    with add_new_entry_spec [OF lh assms(2), of ok e r tables'] assms(3) Some show ?thesis
      by (simp add: add_locked_def added_get_def)
  next
    case (Some e')
    with \<open>tables = Some lh\<close> assms lh show ?thesis by (auto simp: add_locked_def tables_ok_def)
  qed
qed

section \<open>The invariant of the interleaving\<close>

definition is_done :: "add_thread \<Rightarrow> bool" where
  "is_done t = (case t of Add_done _ _ \<Rightarrow> True | _ \<Rightarrow> False)"

definition done_count :: "add_thread list \<Rightarrow> nat" where
  "done_count ts = length (filter is_done ts)"

definition add_inv :: "string_table lhash option \<times> add_thread list \<Rightarrow> bool" where
  "add_inv s \<longleftrightarrow> (case s of (tables, ts) \<Rightarrow> tables_ok tables (done_count ts)
     \<and> (\<forall>t \<in> set ts. \<forall>e. t = Add_checked e \<or> t = Add_done e True \<longrightarrow> std_get (st_nid e) = None)
     \<and> (\<forall>t \<in> set ts. \<forall>e. t = Add_done e True \<longrightarrow> added_get tables (st_nid e) = Some e)
     \<and> (\<forall>i < length ts. \<forall>j < length ts. \<forall>e e'. ts ! i = Add_done e True \<longrightarrow> ts ! j = Add_done e' True \<longrightarrow>
          st_nid e = st_nid e' \<longrightarrow> i = j))"

lemma done_count_update:
  "i < length ts \<Longrightarrow> \<not> is_done (ts ! i) \<Longrightarrow> done_count (ts[i := t]) = done_count ts + (if is_done t then 1 else 0)"
  unfolding done_count_def
  by (subst (2) id_take_nth_drop [of i ts]) (simp_all add: upd_conv_take_nth_drop)

lemma done_count_less: "i < length ts \<Longrightarrow> \<not> is_done (ts ! i) \<Longrightarrow> done_count ts < length ts"
  unfolding done_count_def by (metis length_filter_less nth_mem)

lemma tables_ok_mono: "tables_ok tables n \<Longrightarrow> n \<le> m \<Longrightarrow> tables_ok tables m"
  by (auto simp: tables_ok_def split: option.splits)

lemma in_updateE:
  assumes "t \<in> set (xs[i := x])"
  obtains "t = x" | "t \<in> set xs"
  using set_update_subset_insert [of xs i x] assms by auto

lemma add_inv_step:
  assumes "add_step s s'" and "add_inv s" and "length (snd s) < 2 ^ 64"
  shows "add_inv s' \<and> length (snd s') = length (snd s)
    \<and> (\<forall>k e. asn1_string_table_get (fst s) k = Some e \<longrightarrow> asn1_string_table_get (fst s') k = Some e)"
  using assms
proof (cases rule: add_step.cases)
  case (registered i ts e tables)
  have "\<not> is_done (ts ! i)" using registered(4) by (simp add: is_done_def)
  then have "done_count ts \<le> done_count (ts[i := Add_done e False])" using done_count_update registered(3) by simp
  with registered assms(2) show ?thesis
    unfolding add_inv_def by (auto elim!: in_updateE intro: tables_ok_mono simp: nth_list_update split: if_splits)
next
  case (unregistered i ts e tables)
  have "\<not> is_done (ts ! i)" using unregistered(4) by (simp add: is_done_def)
  then have "done_count ts = done_count (ts[i := Add_checked e])"
    using done_count_update unregistered(3) by (simp add: is_done_def)
  moreover have "std_get (st_nid e) = None" using unregistered(5) by (simp add: table_get split: option.splits)
  ultimately show ?thesis using unregistered assms(2)
    unfolding add_inv_def by (auto elim!: in_updateE simp: nth_list_update split: if_splits)
next
  case (locked i ts e ok tables r tables')
  have nd: "\<not> is_done (ts ! i)" using locked(4) by (simp add: is_done_def)
  have c: "done_count (ts[i := Add_done e r]) = done_count ts + 1" "done_count ts + 1 < 2 ^ 64"
    using done_count_update [OF locked(3) nd] done_count_less [OF locked(3) nd] assms(3) locked(1)
    by (simp_all add: is_done_def)
  have inv: "tables_ok tables (done_count ts)" "std_get (st_nid e) = None"
      "\<And>t e'. t \<in> set ts \<Longrightarrow> t = Add_checked e' \<or> t = Add_done e' True \<Longrightarrow> std_get (st_nid e') = None"
      "\<And>t e'. t \<in> set ts \<Longrightarrow> t = Add_done e' True \<Longrightarrow> added_get tables (st_nid e') = Some e'"
      "\<And>a b x y. a < length ts \<Longrightarrow> b < length ts \<Longrightarrow> ts ! a = Add_done x True \<Longrightarrow> ts ! b = Add_done y True \<Longrightarrow>
         st_nid x = st_nid y \<Longrightarrow> a = b"
    using assms(2) locked(1,3,4) nth_mem unfolding add_inv_def by (auto; metis)+
  have sp: "tables_ok tables' (done_count ts + 1)" "r \<Longrightarrow> added_get tables (st_nid e) = None"
      "\<And>k. added_get tables' k = (if r \<and> st_nid e = k then Some e else added_get tables k)"
    using add_locked_spec [OF inv(1) c(2) locked(5)] by auto
  have fresh: "st_nid e' \<noteq> st_nid e" if "r" "t \<in> set ts" "t = Add_done e' True" for t e'
    using inv(4) [OF that(2,3)] sp(2) [OF that(1)] by auto
  have "add_inv (tables', ts[i := Add_done e r])"
    unfolding add_inv_def prod.case
  proof (intro conjI)
    show "tables_ok tables' (done_count (ts[i := Add_done e r]))" using sp(1) c(1) by simp
    show "\<forall>t \<in> set (ts[i := Add_done e r]). \<forall>e'. t = Add_checked e' \<or> t = Add_done e' True \<longrightarrow> std_get (st_nid e') = None"
      using inv(2,3) by (auto elim!: in_updateE)
    show "\<forall>t \<in> set (ts[i := Add_done e r]). \<forall>e'. t = Add_done e' True \<longrightarrow> added_get tables' (st_nid e') = Some e'"
    proof (intro ballI allI impI)
      fix t e' assume t: "t \<in> set (ts[i := Add_done e r])" "t = Add_done e' True"
      from t(1) show "added_get tables' (st_nid e') = Some e'"
      proof (cases rule: in_updateE)
        case 1
        then show ?thesis using t(2) sp(3) by simp
      next
        case 2
        then have "\<not> (r \<and> st_nid e = st_nid e')" using fresh t(2) by metis
        then show ?thesis using sp(3) [of "st_nid e'"] inv(4) [OF 2 t(2)] by auto
      qed
    qed
    show "\<forall>a < length (ts[i := Add_done e r]). \<forall>b < length (ts[i := Add_done e r]). \<forall>x y.
        ts[i := Add_done e r] ! a = Add_done x True \<longrightarrow> ts[i := Add_done e r] ! b = Add_done y True \<longrightarrow>
        st_nid x = st_nid y \<longrightarrow> a = b"
    proof (intro allI impI)
      fix a b x y assume ab: "a < length (ts[i := Add_done e r])" "b < length (ts[i := Add_done e r])"
        "ts[i := Add_done e r] ! a = Add_done x True" "ts[i := Add_done e r] ! b = Add_done y True" "st_nid x = st_nid y"
      have far: "st_nid z \<noteq> st_nid e" if "r" "c < length ts" "ts ! c = Add_done z True" for c z
        by (rule fresh [OF that(1) nth_mem [OF that(2)] that(3)])
      consider "a = i" "b = i" | "a = i" "b \<noteq> i" | "a \<noteq> i" "b = i" | "a \<noteq> i" "b \<noteq> i" by blast
      then show "a = b"
      proof cases
        case 2
        then show ?thesis using ab far [of b y] by simp
      next
        case 3
        then show ?thesis using ab far [of a x] by simp
      next
        case 4
        then show ?thesis using ab inv(5) [of a b x y] by simp
      qed simp
    qed
  qed
  moreover have "asn1_string_table_get tables' k = Some e'" if "asn1_string_table_get tables k = Some e'" for k e'
    using that inv(2) sp(2,3) by (auto simp: table_get split: option.splits if_splits)
  ultimately show ?thesis using locked(1,2) by simp
qed

lemma add_inv_steps:
  assumes "add_step\<^sup>*\<^sup>* s s'" and "add_inv s" and "length (snd s) < 2 ^ 64"
  shows "add_inv s' \<and> length (snd s') = length (snd s)
    \<and> (\<forall>k e. asn1_string_table_get (fst s) k = Some e \<longrightarrow> asn1_string_table_get (fst s') k = Some e)"
  using assms(1)
proof induction
  case (step t u)
  with add_inv_step [OF step.hyps(2)] assms(3) show ?case by simp
qed (use assms in simp)

lemma add_inv_start: "add_inv (None, map Add_start es)"
  by (auto simp: add_inv_def tables_ok_def)

section \<open>Strings within the limits\<close>

text \<open>The mask and the sizes that a lookup leads to.\<close>

definition nid_limits :: "string_table lhash option \<Rightarrow> int \<Rightarrow> u64 \<times> int \<times> int" where
  "nid_limits tables nid =
     (case asn1_string_table_get tables nid of
        None \<Rightarrow> (B_ASN1_UTF8STRING, 0, 0)
      | Some e \<Rightarrow> (if st_flags e AND STABLE_NO_MASK = 0 then st_mask e AND B_ASN1_UTF8STRING else st_mask e,
                  st_minsize e, st_maxsize e))"

lemma set_by_NID_ncopy:
  "ASN1_STRING_set_by_NID al tables out inp len inform nid =
     (case nid_limits tables nid of (msk, minsize, maxsize) \<Rightarrow>
        case ASN1_mbstring_ncopy al (if out = Out_null then Out_at None else out) inp len inform msk minsize maxsize of
          (ret, out2) \<Rightarrow>
            let out3 = (if out = Out_null then Out_null else out2) in
            (case ret of Inl _ \<Rightarrow> (None, out3)
             | Inr r \<Rightarrow> if r \<le> 0 then (None, out3) else (case out2 of Out_at s \<Rightarrow> (s, out3) | _ \<Rightarrow> (None, out3))))"
  by (simp add: ASN1_STRING_set_by_NID_def nid_limits_def ASN1_mbstring_copy_def Let_def split: option.splits prod.splits)

lemma choice_positive: "mb_choice msk us = Some (ty, form) \<Longrightarrow> 0 < ty"
  by (auto simp: mb_choice_code V_ASN1_PRINTABLESTRING_def V_ASN1_IA5STRING_def V_ASN1_T61STRING_def V_ASN1_BMPSTRING_def
      V_ASN1_UNIVERSALSTRING_def V_ASN1_UTF8STRING_def split: if_splits)

lemma set_by_NID_fails:
  assumes "al_total al" and "\<And>s. out = Out_at (Some s) \<Longrightarrow> string_ok s" and "mb_decode inform = Some get"
    and "- 1 \<le> len" and "len \<le> int (length inp)" and "length inp < 2 ^ 28"
    and "nid_limits tables nid = (msk, minsize, maxsize)"
    and "\<nexists>us tf. mb_chosen inform (take (mb_len inp len) inp) msk minsize maxsize us tf"
  shows "ASN1_STRING_set_by_NID al tables out inp len inform nid = (None, out)"
proof -
  let ?out = "if out = Out_null then Out_at None else out"
  have out: "\<And>s. ?out = Out_at (Some s) \<Longrightarrow> string_ok s" using assms(2) by (auto split: if_splits)
  from ncopy_exact(1) [where msk = msk and minsize = minsize and maxsize = maxsize, OF assms(1) out assms(3-6,8)]
  obtain e where "ASN1_mbstring_ncopy al ?out inp len inform msk minsize maxsize = (Inl e, ?out)" by blast
  then show ?thesis unfolding set_by_NID_ncopy assms(7) by (auto simp: Let_def)
qed

lemma set_by_NID_succeeds:
  assumes "al_total al" and "\<And>s. out = Out_at (Some s) \<Longrightarrow> string_ok s" and "mb_decode inform = Some get"
    and "- 1 \<le> len" and "len \<le> int (length inp)" and "length inp < 2 ^ 28"
    and "nid_limits tables nid = (msk, minsize, maxsize)"
    and "mb_chosen inform (take (mb_len inp len) inp) msk minsize maxsize us (ty, form)"
  shows "\<exists>s. ASN1_STRING_set_by_NID al tables out inp len inform nid
      = (Some s, if out = Out_null then Out_null else Out_at (Some s))
    \<and> as_type s = ty \<and> string_ok s \<and> contents_of s = concat (map (mb_enc form) us)"
proof -
  let ?out = "if out = Out_null then Out_at None else out"
  have out: "\<And>s. ?out = Out_at (Some s) \<Longrightarrow> string_ok s" using assms(2) by (auto split: if_splits)
  from ncopy_exact(2) [OF assms(1) out assms(3-6,8)]
  obtain out' where r: "ASN1_mbstring_ncopy al ?out inp len inform msk minsize maxsize = (Inr ty, out')"
    "mb_stored ?out out' ty (concat (map (mb_enc form) us))" by blast
  then obtain s where s: "out' = Out_at (Some s)" "as_type s = ty" "string_ok s" "contents_of s = concat (map (mb_enc form) us)"
    by (auto simp: mb_stored_def split: if_splits)
  have "0 < ty" using assms(8) choice_positive by (auto simp: mb_chosen_code)
  with r s show ?thesis unfolding set_by_NID_ncopy assms(7) by (auto simp: Let_def)
qed

section \<open>Concrete entries\<close>

lemma asc_decode: "mb_decode MBSTRING_ASC = Some cbs_get_latin1"
  by (simp add: mb_decode_def MBSTRING_ASC_def MBSTRING_BMP_def MBSTRING_UNIV_def MBSTRING_UTF8_def)

lemma asc_enc: "mb_enc MBSTRING_ASC u = [ucast u]" "mb_fits MBSTRING_ASC u \<longleftrightarrow> u \<le> 0xff" "\<not> mb_bom MBSTRING_ASC us"
  by (simp_all add: mb_enc_def mb_fits_code mb_bom_def MBSTRING_ASC_def MBSTRING_BMP_def MBSTRING_UNIV_def MBSTRING_UTF8_def)

lemma std_country: "std_get NID_countryName = Some (st_entry NID_countryName 2 2 B_ASN1_PRINTABLESTRING STABLE_NO_MASK)"
  by (simp add: std_get_Some tbl_standard_def)

lemma std_5000: "std_get 5000 = None" "std_get 5001 = None"
  by (simp_all add: std_get_def tbl_standard_def nid_defs)

lemma country_limits: "nid_limits None NID_countryName = (B_ASN1_PRINTABLESTRING, 2, 2)"
  by (simp add: nid_limits_def table_get std_country) (simp add: st_entry_def STABLE_NO_MASK_def)

lemma chosen_US: "mb_chosen MBSTRING_ASC [0x55, 0x53] B_ASN1_PRINTABLESTRING 2 2 [0x55, 0x53] (V_ASN1_PRINTABLESTRING, MBSTRING_ASC)"
proof -
  have "asn1_is_printable 0x55" "asn1_is_printable 0x53" by (simp_all add: asn1_is_printable_def)
  then have "mb_choice B_ASN1_PRINTABLESTRING [0x55, 0x53] = Some (V_ASN1_PRINTABLESTRING, MBSTRING_ASC)"
    unfolding mb_choice_code using printable_bits(1) by (simp only: list.pred_inject simp_thms if_True)
  then show ?thesis using printable_bits(2) by (simp add: mb_chosen_code mb_text_def asc_enc)
qed

lemma dirstring_bits: "bit DIRSTRING_TYPE 1" "\<not> bit DIRSTRING_TYPE 4" "bit DIRSTRING_TYPE 2"
  using mask_bits [of DIRSTRING_TYPE]
  by (simp_all add: DIRSTRING_TYPE_def B_ASN1_PRINTABLESTRING_def B_ASN1_T61STRING_def B_ASN1_BMPSTRING_def
      B_ASN1_UTF8STRING_def B_ASN1_IA5STRING_def)

lemma dirstring_nonzero: "DIRSTRING_TYPE \<noteq> 0"
  using dirstring_bits(1) by auto

lemma chosen_E9: "mb_chosen MBSTRING_ASC [0xE9] DIRSTRING_TYPE 1 64 [0xE9] (V_ASN1_T61STRING, MBSTRING_ASC)"
proof -
  have "\<not> asn1_is_printable 0xE9" by (simp add: asn1_is_printable_def)
  then have "mb_choice DIRSTRING_TYPE [0xE9] = Some (V_ASN1_T61STRING, MBSTRING_ASC)"
    unfolding mb_choice_code using dirstring_bits by simp
  then show ?thesis using dirstring_nonzero by (simp add: mb_chosen_code mb_text_def asc_enc)
qed

lemma add_locked_first:
  obtains tables where "add_locked (\<lambda>_. True) e None = (True, Some tables)"
proof -
  obtain lh where lh: "OPENSSL_lh_new (\<lambda>_. True) = (Some lh :: string_table lhash option)" by (simp add: OPENSSL_lh_new_def)
  obtain r old lh' where i: "OPENSSL_lh_insert (\<lambda>_. True) table_hash table_cmp e lh = (r, old, lh')" by (rule prod_cases3)
  with insert_success [OF i] lh that show thesis by (simp add: add_locked_def add_new_entry_def)
qed

section \<open>Properties\<close>

text \<open>
  C37. Callers of \<open>ASN1_STRING_TABLE_add\<close> may interleave between their lookup and their locked part in any
  order, with any answers of the allocator: an entry whose registration has returned 1 is the one that
  \<open>asn1_string_table_get\<close> finds, no two registrations of one NID return 1, and an entry that was once
  found is found unchanged ever after. (The comment in the lookup relies on this for the pointer that it returns
  without the lock.)
\<close>

theorem ASN1_STRING_TABLE_add_interleaved:
  assumes "add_step\<^sup>*\<^sup>* (None, map Add_start es) (tables, ts)" and "length es < 2 ^ 64"
  shows "(\<forall>i < length ts. \<forall>e. ts ! i = Add_done e True \<longrightarrow> asn1_string_table_get tables (st_nid e) = Some e)
    \<and> (\<forall>i < length ts. \<forall>j < length ts. \<forall>e e'. ts ! i = Add_done e True \<longrightarrow> ts ! j = Add_done e' True \<longrightarrow>
         st_nid e = st_nid e' \<longrightarrow> i = j)
    \<and> (\<forall>tables' ts' nid e. add_step\<^sup>*\<^sup>* (tables, ts) (tables', ts') \<longrightarrow> asn1_string_table_get tables nid = Some e \<longrightarrow>
         asn1_string_table_get tables' nid = Some e)"
proof -
  have inv: "add_inv (tables, ts)" "length ts < 2 ^ 64"
    using add_inv_steps [OF assms(1) add_inv_start] assms(2) by auto
  then have "asn1_string_table_get tables (st_nid e) = Some e" if "i < length ts" "ts ! i = Add_done e True" for i e
    using that nth_mem [OF that(1)] by (auto simp: add_inv_def table_get)
  moreover have "asn1_string_table_get tables' nid = Some e"
    if "add_step\<^sup>*\<^sup>* (tables, ts) (tables', ts')" "asn1_string_table_get tables nid = Some e" for tables' ts' nid e
    using add_inv_steps [OF that(1) inv(1)] inv(2) that(2) by simp
  moreover have "\<forall>i < length ts. \<forall>j < length ts. \<forall>e e'. ts ! i = Add_done e True \<longrightarrow> ts ! j = Add_done e' True \<longrightarrow>
      st_nid e = st_nid e' \<longrightarrow> i = j" using inv(1) by (simp add: add_inv_def)
  ultimately show ?thesis by auto
qed

text \<open>
  \<open>ASN1_STRING_set_by_NID\<close> succeeds exactly when the input is the encoding of characters that are as many
  as the entry of the NID asks for and fit a type of its mask. The object returned has the first such
  type and the characters in that type's format. On failure the caller's object is untouched.
\<close>

theorem ASN1_STRING_set_by_NID_exact:
  assumes "al_total al" and "\<And>s. out = Out_at (Some s) \<Longrightarrow> string_ok s" and "mb_decode inform = Some get"
    and "- 1 \<le> len" and "len \<le> int (length inp)" and "length inp < 2 ^ 28"
    and "nid_limits tables nid = (msk, minsize, maxsize)"
  shows "case ASN1_STRING_set_by_NID al tables out inp len inform nid of
      (None, out') \<Rightarrow> out' = out \<and> (\<nexists>us tf. mb_chosen inform (take (mb_len inp len) inp) msk minsize maxsize us tf)
    | (Some s, out') \<Rightarrow> out' = (if out = Out_null then Out_null else Out_at (Some s))
        \<and> (\<exists>us ty form. mb_chosen inform (take (mb_len inp len) inp) msk minsize maxsize us (ty, form)
             \<and> as_type s = ty \<and> string_ok s \<and> contents_of s = concat (map (mb_enc form) us))"
proof (cases "\<exists>us tf. mb_chosen inform (take (mb_len inp len) inp) msk minsize maxsize us tf")
  case False
  with set_by_NID_fails [OF assms] show ?thesis by simp
next
  case True
  then obtain us ty form where ch: "mb_chosen inform (take (mb_len inp len) inp) msk minsize maxsize us (ty, form)" by auto
  from set_by_NID_succeeds [where out = out, OF assms ch]
  obtain s where "ASN1_STRING_set_by_NID al tables out inp len inform nid
      = (Some s, if out = Out_null then Out_null else Out_at (Some s))"
    "as_type s = ty" "string_ok s" "contents_of s = concat (map (mb_enc form) us)" by blast
  with ch show ?thesis by (simp only: prod.case option.case) blast
qed

theorem ASN1_STRING_set_by_NID_exact_witness:
  "\<exists>s. ASN1_STRING_set_by_NID heap_al None Out_null [0x55, 0x53] 2 MBSTRING_ASC NID_countryName = (Some s, Out_null)
     \<and> as_type s = V_ASN1_PRINTABLESTRING \<and> contents_of s = [0x55, 0x53]"
proof -
  let ?r = "ASN1_STRING_set_by_NID heap_al None Out_null [0x55, 0x53] 2 MBSTRING_ASC NID_countryName"
  have len: "take (mb_len [0x55, 0x53] 2) [0x55, 0x53] = ([0x55, 0x53] :: bytes)" by (simp add: mb_len_def)
  note t = ASN1_STRING_set_by_NID_exact [where out = Out_null and inp = "[0x55, 0x53]" and len = 2 and tables = None,
      OF heap_al_total _ asc_decode _ _ _ country_limits, unfolded len, simplified]
  obtain s out' where r: "?r = (Some s, out')"
    using t chosen_US by (cases ?r; cases "fst ?r") auto
  with t obtain us ty form where u: "out' = Out_null" "mb_chosen MBSTRING_ASC [0x55, 0x53] B_ASN1_PRINTABLESTRING 2 2 us (ty, form)"
    "as_type s = ty" "contents_of s = concat (map (mb_enc form) us)" by auto
  have "us = [0x55, 0x53]"
    using u(2) chosen_US char_codec.text_inj [OF mb_codec [OF asc_decode], of us "[0x55, 0x53]"]
    by (simp add: mb_chosen_code mb_text_def)
  then have "ty = V_ASN1_PRINTABLESTRING" "form = MBSTRING_ASC" using u(2) chosen_US by (simp_all add: mb_chosen_code)
  with r u \<open>us = _\<close> show ?thesis by (simp add: asc_enc)
qed

theorem ASN1_STRING_TABLE_add_interleaved_witness:
  "\<exists>tables. add_step\<^sup>*\<^sup>* (None, map Add_start [st_entry 5000 1 64 B_ASN1_UTF8STRING 0, st_entry 5000 1 8 B_ASN1_UTF8STRING 0])
       (tables, [Add_done (st_entry 5000 1 64 B_ASN1_UTF8STRING 0) True, Add_done (st_entry 5000 1 8 B_ASN1_UTF8STRING 0) False])
     \<and> asn1_string_table_get tables 5000 = Some (st_entry 5000 1 64 B_ASN1_UTF8STRING 0)"
proof -
  let ?e = "st_entry 5000 1 64 B_ASN1_UTF8STRING 0" and ?f = "st_entry 5000 1 8 B_ASN1_UTF8STRING 0"
  let ?ok = "\<lambda>_ :: u64. True"
  obtain tables where l: "add_locked ?ok ?e None = (True, Some tables)" by (rule add_locked_first)
  have g: "asn1_string_table_get None 5000 = None" using std_5000 by (simp add: table_get added_get_def)
  have "added_get (Some tables) 5000 = Some ?e"
    using add_locked_spec [OF _ _ l, of 0] by (simp add: tables_ok_def)
  then have f: "add_locked ?ok ?f (Some tables) = (False, Some tables)" by (simp add: add_locked_def added_get_def)
  have "add_step (None, [Add_start ?e, Add_start ?f]) (None, [Add_checked ?e, Add_start ?f])"
    using unregistered [of 0 "[Add_start ?e, Add_start ?f]" ?e None] g by simp
  moreover have "add_step (None, [Add_checked ?e, Add_start ?f]) (None, [Add_checked ?e, Add_checked ?f])"
    using unregistered [of 1 "[Add_checked ?e, Add_start ?f]" ?f None] g by simp
  moreover have "add_step (None, [Add_checked ?e, Add_checked ?f]) (Some tables, [Add_done ?e True, Add_checked ?f])"
    using locked [of 0 "[Add_checked ?e, Add_checked ?f]" ?e, OF _ _ l] by simp
  moreover have "add_step (Some tables, [Add_done ?e True, Add_checked ?f]) (Some tables, [Add_done ?e True, Add_done ?f False])"
    using locked [of 1 "[Add_done ?e True, Add_checked ?f]" ?f, OF _ _ f] by simp
  ultimately have r: "add_step\<^sup>*\<^sup>* (None, map Add_start [?e, ?f]) (Some tables, [Add_done ?e True, Add_done ?f False])"
    by (simp add: r_into_rtranclp rtranclp.rtrancl_into_rtrancl)
  have "asn1_string_table_get (Some tables) (st_nid ?e) = Some ?e"
    using conjunct1 [OF ASN1_STRING_TABLE_add_interleaved [OF r], rule_format, of 0 ?e] by simp
  with r show ?thesis by auto
qed

text \<open>
  An entry registered without \<open>STABLE_NO_MASK\<close> for types other than UTF8String is not confined to
  UTF8String: its mask, cleared, is read as \<open>DIRSTRING_TYPE\<close>, so the entry acts as one for \<open>DIRSTRING_TYPE\<close>
  with \<open>STABLE_NO_MASK\<close>.
\<close>

theorem ASN1_STRING_set_by_NID_mask_dropped:
  assumes "asn1_string_table_get tables nid = Some e" and "st_flags e AND STABLE_NO_MASK = 0"
    and "st_mask e AND B_ASN1_UTF8STRING = 0"
    and "asn1_string_table_get tables' nid' = Some (st_entry nid' (st_minsize e) (st_maxsize e) DIRSTRING_TYPE STABLE_NO_MASK)"
  shows "ASN1_STRING_set_by_NID al tables out inp len inform nid = ASN1_STRING_set_by_NID al tables' out inp len inform nid'"
proof -
  have l: "nid_limits tables nid = (0, st_minsize e, st_maxsize e)"
    "nid_limits tables' nid' = (DIRSTRING_TYPE, st_minsize e, st_maxsize e)"
    using assms by (simp_all add: nid_limits_def st_entry_def STABLE_NO_MASK_def)
  show ?thesis unfolding set_by_NID_ncopy l
    by (simp add: ASN1_mbstring_ncopy_def [of _ _ _ _ _ 0] ASN1_mbstring_ncopy_def [of _ _ _ _ _ DIRSTRING_TYPE] dirstring_nonzero)
qed

theorem ASN1_STRING_set_by_NID_mask_dropped_witness:
  "\<exists>tables s. ASN1_STRING_TABLE_add (\<lambda>_. True) 5000 1 64 B_ASN1_PRINTABLESTRING 0 None = (True, Some tables)
     \<and> ASN1_STRING_set_by_NID heap_al (Some tables) Out_null [0xE9] 1 MBSTRING_ASC 5000 = (Some s, Out_null)
     \<and> as_type s = V_ASN1_T61STRING"
proof -
  let ?e = "st_entry 5000 1 64 B_ASN1_PRINTABLESTRING 0" and ?d = "st_entry 5001 1 64 DIRSTRING_TYPE STABLE_NO_MASK"
  obtain tables where t: "add_locked (\<lambda>_. True) ?e None = (True, Some tables)" by (rule add_locked_first)
  obtain tables' where t': "add_locked (\<lambda>_. True) ?d None = (True, Some tables')" by (rule add_locked_first)
  have g: "asn1_string_table_get (Some tables) 5000 = Some ?e" "asn1_string_table_get (Some tables') 5001 = Some ?d"
    using add_locked_spec [OF _ _ t, of 0] add_locked_spec [OF _ _ t', of 0] std_5000
    by (simp_all add: tables_ok_def table_get)
  have add: "ASN1_STRING_TABLE_add (\<lambda>_. True) 5000 1 64 B_ASN1_PRINTABLESTRING 0 None = (True, Some tables)"
    using t std_5000 by (simp add: ASN1_STRING_TABLE_add_def table_get added_get_def)
  have m: "st_flags ?e AND STABLE_NO_MASK = 0" "st_mask ?e AND B_ASN1_UTF8STRING = 0"
    by (simp_all add: st_entry_def B_ASN1_PRINTABLESTRING_def B_ASN1_UTF8STRING_def)
  have l: "nid_limits (Some tables') 5001 = (DIRSTRING_TYPE, 1, 64)"
    using g(2) by (simp add: nid_limits_def st_entry_def STABLE_NO_MASK_def)
  have len: "take (mb_len [0xE9] 1) [0xE9] = ([0xE9] :: bytes)" by (simp add: mb_len_def)
  obtain s where s: "ASN1_STRING_set_by_NID heap_al (Some tables') Out_null [0xE9] 1 MBSTRING_ASC 5001 = (Some s, Out_null)"
      "as_type s = V_ASN1_T61STRING"
    using set_by_NID_succeeds [where out = Out_null and inp = "[0xE9]" and len = 1, OF heap_al_total _ asc_decode _ _ _ l,
        unfolded len, OF _ _ _ _ chosen_E9] by auto
  have "ASN1_STRING_set_by_NID heap_al (Some tables) Out_null [0xE9] 1 MBSTRING_ASC 5000
      = ASN1_STRING_set_by_NID heap_al (Some tables') Out_null [0xE9] 1 MBSTRING_ASC 5001"
    by (rule ASN1_STRING_set_by_NID_mask_dropped [OF g(1) m]) (use g(2) in \<open>simp add: st_entry_def\<close>)
  with add s show ?thesis by auto
qed

end
