(* ===== verification/X509Host.thy ===== *)
theory X509Host
  imports Asn1Strnid
begin

text \<open>
  Names of a certificate compared with a name the caller gives (crypto/x509v3/v3_utl.c, with the
  case-insensitive comparison of crypto/mem.c): exact and case-insensitive comparison, wildcards, and
  \<open>X509_check_host\<close>, \<open>X509_check_email\<close>, \<open>X509_check_ip\<close>.

  A pattern or subject is the list of its bytes, so that a pointer and a length are one argument; the
  predicates of type \<open>equal_fn\<close> are functions of the flags, the pattern and the subject.
\<close>

section \<open>The code: comparing names\<close>

definition X509_CHECK_FLAG_NO_WILDCARDS :: u32 where "X509_CHECK_FLAG_NO_WILDCARDS = 0x2"
definition X509_CHECK_FLAG_NO_PARTIAL_WILDCARDS :: u32 where "X509_CHECK_FLAG_NO_PARTIAL_WILDCARDS = 0x4"
definition X509_CHECK_FLAG_MULTI_LABEL_WILDCARDS :: u32 where "X509_CHECK_FLAG_MULTI_LABEL_WILDCARDS = 0x8"
definition X509_CHECK_FLAG_SINGLE_LABEL_SUBDOMAINS :: u32 where "X509_CHECK_FLAG_SINGLE_LABEL_SUBDOMAINS = 0x10"
definition X509_CHECK_FLAG_NEVER_CHECK_SUBJECT :: u32 where "X509_CHECK_FLAG_NEVER_CHECK_SUBJECT = 0x20"
definition X509_CHECK_FLAG_DOT_SUBDOMAINS :: u32 where "X509_CHECK_FLAG_DOT_SUBDOMAINS = 0x8000"

text \<open>The characters that the code names: full stop, hyphen, asterisk, at sign.\<close>

abbreviation c_dot :: u8 where "c_dot \<equiv> 0x2E"
abbreviation c_hyphen :: u8 where "c_hyphen \<equiv> 0x2D"
abbreviation c_star :: u8 where "c_star \<equiv> 0x2A"
abbreviation c_at :: u8 where "c_at \<equiv> 0x40"

definition OPENSSL_tolower :: "int \<Rightarrow> int" where
  "OPENSSL_tolower c = (if c \<ge> 0x41 \<and> c \<le> 0x5A then c + (0x61 - 0x41) else c)"

text \<open>\<open>char\<close> is a signed byte.\<close>

fun OPENSSL_strncasecmp :: "bytes \<Rightarrow> bytes \<Rightarrow> nat \<Rightarrow> int" where
  "OPENSSL_strncasecmp a b 0 = 0"
| "OPENSSL_strncasecmp a b (Suc n) =
     (let aa = OPENSSL_tolower (sint (hd a)); bb = OPENSSL_tolower (sint (hd b)) in
      if aa < bb then - 1
      else if aa > bb then 1
      else if aa = 0 then 0
      else OPENSSL_strncasecmp (tl a) (tl b) n)"

text \<open>\<open>skip_prefix\<close> with its loop; the result is the new pattern.\<close>

fun skip_loop :: "u32 \<Rightarrow> bytes \<Rightarrow> nat \<Rightarrow> bytes" where
  "skip_loop flags [] subject_len = []"
| "skip_loop flags (c # pattern) subject_len =
     (if length (c # pattern) > subject_len \<and> c \<noteq> 0 then
        (if flags AND X509_CHECK_FLAG_SINGLE_LABEL_SUBDOMAINS \<noteq> 0 \<and> c = c_dot then c # pattern
         else skip_loop flags pattern subject_len)
      else c # pattern)"

definition skip_prefix :: "u32 \<Rightarrow> bytes \<Rightarrow> nat \<Rightarrow> bytes" where
  "skip_prefix flags pattern subject_len =
     (if flags AND X509_CHECK_FLAG_DOT_SUBDOMAINS = 0 then pattern
      else
        (let p = skip_loop flags pattern subject_len in
         if length p = subject_len then p else pattern))"

fun nocase_loop :: "bytes \<Rightarrow> bytes \<Rightarrow> bool" where
  "nocase_loop (l # pattern) (r # subject) =
     (if l = 0 then False
      else if l \<noteq> r then
        (let l' = (if 0x41 \<le> l \<and> l \<le> 0x5A then (l - 0x41) + 0x61 else l);
             r' = (if 0x41 \<le> r \<and> r \<le> 0x5A then (r - 0x41) + 0x61 else r)
         in if l' \<noteq> r' then False else nocase_loop pattern subject)
      else nocase_loop pattern subject)"
| "nocase_loop _ _ = True"

definition equal_nocase :: "u32 \<Rightarrow> bytes \<Rightarrow> bytes \<Rightarrow> bool" where
  "equal_nocase flags pattern subject =
     (let pattern = skip_prefix flags pattern (length subject) in
      if length pattern \<noteq> length subject then False else nocase_loop pattern subject)"

definition equal_case :: "u32 \<Rightarrow> bytes \<Rightarrow> bytes \<Rightarrow> bool" where
  "equal_case flags pattern subject =
     (let pattern = skip_prefix flags pattern (length subject) in
      if length pattern \<noteq> length subject then False else OPENSSL_memcmp pattern subject = 0)"

text \<open>The loop of \<open>equal_email\<close>, from \<open>i\<close> down: \<open>None\<close> where it returns 0, the last \<open>i\<close> otherwise.\<close>

fun email_loop :: "bytes \<Rightarrow> bytes \<Rightarrow> nat \<Rightarrow> nat option" where
  "email_loop a b 0 = Some 0"
| "email_loop a b (Suc i) =
     (if a ! i = c_at \<or> b ! i = c_at then
        (if \<not> equal_nocase 0 (drop i a) (drop i b) then None else Some i)
      else email_loop a b i)"

definition equal_email :: "u32 \<Rightarrow> bytes \<Rightarrow> bytes \<Rightarrow> bool" where
  "equal_email unused_flags a b =
     (if length a \<noteq> length b then False
      else
        (case email_loop a b (length a) of
           None \<Rightarrow> False
         | Some i \<Rightarrow>
             (let i = (if i = 0 then length a else i) in equal_case 0 (take i a) (take i b))))"

text \<open>\<open>wildcard_match\<close> reads the first byte of the suffix; past its end is the terminator of the pattern.\<close>

definition wildcard_char :: "bool \<Rightarrow> u8 \<Rightarrow> bool" where
  "wildcard_char allow_multi p \<longleftrightarrow>
     (0x30 \<le> p \<and> p \<le> 0x39) \<or> (0x41 \<le> p \<and> p \<le> 0x5A) \<or> (0x61 \<le> p \<and> p \<le> 0x7A)
     \<or> p = c_hyphen \<or> (allow_multi \<and> p = c_dot)"

definition wildcard_match :: "u32 \<Rightarrow> bytes \<Rightarrow> bytes \<Rightarrow> bytes \<Rightarrow> bool" where
  "wildcard_match flags prefx suffx subject =
     (if length subject < length prefx + length suffx then False
      else if \<not> equal_nocase flags prefx (take (length prefx) subject) then False
      else
        (let wildcard_start = length prefx; wildcard_end = length subject - length suffx in
         if \<not> equal_nocase flags (drop wildcard_end subject) suffx then False
         else
           (let whole = (length prefx = 0 \<and> hd (suffx @ [0]) = c_dot);
                allow_idna = whole;
                allow_multi = (whole \<and> flags AND X509_CHECK_FLAG_MULTI_LABEL_WILDCARDS \<noteq> 0);
                part = drop wildcard_start (take wildcard_end subject)
            in
            if whole \<and> wildcard_start = wildcard_end then False
            else if \<not> allow_idna \<and> length subject \<ge> 4
                 \<and> OPENSSL_strncasecmp subject [0x78, 0x6E, 0x2D, 0x2D] 4 = 0 then False
            else if wildcard_end = wildcard_start + 1 \<and> subject ! wildcard_start = c_star then True
            else list_all (wildcard_char allow_multi) part)))"

definition LABEL_START :: u32 where "LABEL_START = 1"
definition LABEL_END :: u32 where "LABEL_END = 2"
definition LABEL_HYPHEN :: u32 where "LABEL_HYPHEN = 4"
definition LABEL_IDNA :: u32 where "LABEL_IDNA = 8"

text \<open>
  The loop of \<open>valid_star\<close> over the rest of the pattern from \<open>i\<close> on. The outer \<open>None\<close> is \<open>return NULL\<close>;
  the result is \<open>star\<close> (as an index), \<open>state\<close> and \<open>dots\<close> after the loop.
\<close>

fun star_loop :: "u32 \<Rightarrow> bytes \<Rightarrow> nat \<Rightarrow> nat option \<Rightarrow> u32 \<Rightarrow> nat \<Rightarrow> (nat option \<times> u32 \<times> nat) option" where
  "star_loop flags [] i star state dots = Some (star, state, dots)"
| "star_loop flags (c # p) i star state dots =
     (if c = c_star then
        (let atstart = (state AND LABEL_START \<noteq> 0);
             atend = (p = [] \<or> hd p = c_dot)
         in
         if star \<noteq> None \<or> state AND LABEL_IDNA \<noteq> 0 \<or> dots \<noteq> 0 then None
         else if flags AND X509_CHECK_FLAG_NO_PARTIAL_WILDCARDS \<noteq> 0 \<and> (\<not> atstart \<or> \<not> atend) then None
         else if \<not> atstart \<and> \<not> atend then None
         else star_loop flags p (i + 1) (Some i) (state AND NOT LABEL_START) dots)
      else if (0x61 \<le> c \<and> c \<le> 0x7A) \<or> (0x41 \<le> c \<and> c \<le> 0x5A) \<or> (0x30 \<le> c \<and> c \<le> 0x39) then
        (let state =
               (if state AND LABEL_START \<noteq> 0 \<and> length (c # p) \<ge> 4
                   \<and> OPENSSL_strncasecmp (c # p) [0x78, 0x6E, 0x2D, 0x2D] 4 = 0
                then state OR LABEL_IDNA else state)
         in star_loop flags p (i + 1) star (state AND NOT (LABEL_HYPHEN OR LABEL_START)) dots)
      else if c = c_dot then
        (if state AND (LABEL_HYPHEN OR LABEL_START) \<noteq> 0 then None
         else star_loop flags p (i + 1) star LABEL_START (dots + 1))
      else if c = c_hyphen then
        (if state AND LABEL_START \<noteq> 0 then None
         else star_loop flags p (i + 1) star (state OR LABEL_HYPHEN) dots)
      else None)"

definition valid_star :: "u32 \<Rightarrow> bytes \<Rightarrow> nat option" where
  "valid_star flags p =
     (case star_loop flags p 0 None LABEL_START 0 of
        None \<Rightarrow> None
      | Some (star, state, dots) \<Rightarrow>
          if state AND (LABEL_START OR LABEL_HYPHEN) \<noteq> 0 \<or> dots < 2 then None else star)"

definition equal_wildcard :: "u32 \<Rightarrow> bytes \<Rightarrow> bytes \<Rightarrow> bool" where
  "equal_wildcard flags pattern subject =
     (case (if \<not> (length subject > 1 \<and> hd subject = c_dot) then valid_star flags pattern else None) of
        None \<Rightarrow> equal_nocase flags pattern subject
      | Some star \<Rightarrow> wildcard_match flags (take star pattern) (drop (star + 1) pattern) subject)"

text \<open>\<open>x509v3_looks_like_dns_name\<close>: its loop from \<open>i\<close> on, over the rest of the name.\<close>

fun dns_loop :: "bytes \<Rightarrow> nat \<Rightarrow> nat \<Rightarrow> nat \<Rightarrow> bool" where
  "dns_loop [] i label_start len = True"
| "dns_loop (c # inp) i label_start len =
     (if (c \<ge> 0x61 \<and> c \<le> 0x7A) \<or> (c \<ge> 0x30 \<and> c \<le> 0x39) \<or> (c \<ge> 0x41 \<and> c \<le> 0x5A)
         \<or> (c = c_hyphen \<and> i > label_start) \<or> c = 0x5F \<or> c = 0x3A
      then dns_loop inp (i + 1) label_start len
      else if c = c_dot \<and> i > label_start \<and> i < len - 1 then dns_loop inp (i + 1) (i + 1) len
      else False)"

definition x509v3_looks_like_dns_name :: "bytes \<Rightarrow> bool" where
  "x509v3_looks_like_dns_name inp =
     (let inp = (if length inp > 0 \<and> inp ! (length inp - 1) = c_dot then take (length inp - 1) inp else inp);
          inp = (if length inp \<ge> 2 \<and> inp ! 0 = c_star \<and> inp ! 1 = c_dot then drop 2 inp else inp)
      in if length inp = 0 then False else dns_loop inp 0 0 (length inp))"

section \<open>Comparing without regard to case\<close>

definition lower :: "u8 \<Rightarrow> u8" where
  "lower c = (if 0x41 \<le> c \<and> c \<le> 0x5A then c + 0x20 else c)"

text \<open>Equal names: the case of ASCII letters is ignored and no byte is NUL.\<close>

definition same_name :: "bytes \<Rightarrow> bytes \<Rightarrow> bool" where
  "same_name a b \<longleftrightarrow> map lower a = map lower b \<and> 0 \<notin> set a"

lemma lower_cases:
  obtains "lower c = c" "\<not> (0x41 \<le> c \<and> c \<le> 0x5A)"
  | "unat (lower c) = unat c + 32" "0x41 \<le> unat c" "unat c \<le> 0x5A" "lower c = c + 0x20"
proof (cases "0x41 \<le> c \<and> c \<le> 0x5A")
  case True
  then have "unat c + 32 < 2 ^ LENGTH(8)" by (simp add: word_le_nat_alt)
  then have "unat (c + 0x20) = unat c + 32" by (subst unat_plus_if') simp
  with True that(2) show ?thesis by (simp add: lower_def word_le_nat_alt)
next
  case False
  then show ?thesis using that(1) by (simp add: lower_def)
qed

lemma lower_outside:
  assumes "\<not> (0x61 \<le> d \<and> d \<le> 0x7A)" "\<not> (0x41 \<le> d \<and> d \<le> 0x5A)"
  shows "lower c = d \<longleftrightarrow> c = d"
proof (cases rule: lower_cases [of c])
  case 2
  then have "unat (lower c) \<noteq> unat d" "c \<noteq> d" using assms by (auto simp: word_le_nat_alt)
  then show ?thesis by auto
qed (use assms in \<open>auto simp: lower_def\<close>)

lemmas lower_dot [simp] = lower_outside [of c_dot, simplified]
lemmas lower_star [simp] = lower_outside [of c_star, simplified]
lemmas lower_zero [simp] = lower_outside [of 0, simplified]

lemma nocase_loop_iff:
  "length p = length s \<Longrightarrow> nocase_loop p s \<longleftrightarrow> same_name p s"
proof (induction p s rule: nocase_loop.induct)
  case (1 l p r s)
  then show ?case by (auto simp: same_name_def lower_def Let_def algebra_simps split: if_splits)
qed (auto simp: same_name_def)

lemma skip_prefix_same [simp]: "length p = n \<Longrightarrow> skip_prefix flags p n = p"
  by (cases p) (auto simp: skip_prefix_def Let_def)

lemma equal_nocase_same_length:
  "length p = length s \<Longrightarrow> equal_nocase flags p s \<longleftrightarrow> same_name p s"
  by (simp add: equal_nocase_def nocase_loop_iff Let_def)

lemma same_name_length: "same_name p s \<Longrightarrow> length p = length s"
  unfolding same_name_def by (metis length_map)

lemma same_name_append:
  "length a = length c \<Longrightarrow> same_name (a @ b) (c @ d) \<longleftrightarrow> same_name a c \<and> same_name b d"
  by (auto simp: same_name_def)

lemma same_name_sym: "same_name a b \<Longrightarrow> same_name b a"
proof -
  assume "same_name a b"
  then have m: "map lower a = map lower b" and z: "0 \<notin> set a" by (auto simp: same_name_def)
  have "0 \<in> set xs \<longleftrightarrow> 0 \<in> set (map lower xs)" for xs
    by (induction xs) (simp_all add: eq_commute [of 0])
  with m z show ?thesis unfolding same_name_def by metis
qed

lemma equal_nocase_iff:
  assumes "flags AND X509_CHECK_FLAG_DOT_SUBDOMAINS = 0"
  shows "equal_nocase flags p s \<longleftrightarrow> same_name p s"
proof (cases "length p = length s")
  case False
  with assms show ?thesis by (auto simp: equal_nocase_def skip_prefix_def dest: same_name_length)
qed (simp add: equal_nocase_same_length)

text \<open>The last part of a longer name, by which a name matches a host that starts with a full stop.\<close>

definition sub_domain :: "u32 \<Rightarrow> bytes \<Rightarrow> bytes \<Rightarrow> bool" where
  "sub_domain flags p h \<longleftrightarrow>
     (\<exists>x y. p = x @ y \<and> same_name y h \<and> 0 \<notin> set x
        \<and> (flags AND X509_CHECK_FLAG_SINGLE_LABEL_SUBDOMAINS \<noteq> 0 \<longrightarrow> c_dot \<notin> set x))"

lemma skip_loop_iff:
  "length (skip_loop flags p n) = n \<and> skip_loop flags p n = y \<longleftrightarrow>
     length y = n \<and> (\<exists>x. p = x @ y \<and> 0 \<notin> set x \<and> (flags AND X509_CHECK_FLAG_SINGLE_LABEL_SUBDOMAINS \<noteq> 0 \<longrightarrow> c_dot \<notin> set x))"
proof (induction p)
  case (Cons c p)
  define ok where "ok x \<longleftrightarrow> 0 \<notin> set x \<and> (flags AND X509_CHECK_FLAG_SINGLE_LABEL_SUBDOMAINS \<noteq> 0 \<longrightarrow> c_dot \<notin> set x)" for x
  define E where "E \<longleftrightarrow> (\<exists>x. p = x @ y \<and> ok x)"
  have ok: "ok []" "ok (c # x) \<longleftrightarrow> ok [c] \<and> ok x" for x by (auto simp: ok_def)
  have split: "(\<exists>x. c # p = x @ y \<and> ok x) \<longleftrightarrow> y = c # p \<or> ok [c] \<and> E"
    unfolding E_def by (subst Cons_eq_append_conv) (use ok in blast)
  have len: "E \<Longrightarrow> length y \<le> length p" by (auto simp: E_def)
  show ?case unfolding ok_def [symmetric] split
  proof (cases "length (c # p) > n \<and> ok [c]")
    case True
    then have e: "skip_loop flags (c # p) n = skip_loop flags p n" by (auto simp: ok_def)
    have "length y = n \<Longrightarrow> y \<noteq> c # p" using True by auto
    then show "length (skip_loop flags (c # p) n) = n \<and> skip_loop flags (c # p) n = y \<longleftrightarrow> length y = n \<and> (y = c # p \<or> ok [c] \<and> E)"
      unfolding e Cons.IH [folded ok_def, folded E_def] using True by blast
  next
    case False
    then have e: "skip_loop flags (c # p) n = c # p" by (auto simp: ok_def)
    have "length y = n \<Longrightarrow> ok [c] \<Longrightarrow> \<not> E" using False len by auto
    then show "length (skip_loop flags (c # p) n) = n \<and> skip_loop flags (c # p) n = y \<longleftrightarrow> length y = n \<and> (y = c # p \<or> ok [c] \<and> E)"
      unfolding e by blast
  qed
qed auto

lemma skip_loop_same: "length p = n \<Longrightarrow> skip_loop flags p n = p"
  by (cases p) auto

lemma equal_nocase_sub_domain:
  assumes "flags AND X509_CHECK_FLAG_DOT_SUBDOMAINS \<noteq> 0"
  shows "equal_nocase flags p h \<longleftrightarrow> sub_domain flags p h"
proof -
  let ?q = "skip_loop flags p (length h)"
  have "equal_nocase flags p h \<longleftrightarrow> length ?q = length h \<and> nocase_loop ?q h"
    using assms skip_loop_same [of p "length h" flags] by (simp add: equal_nocase_def skip_prefix_def Let_def)
  also have "\<dots> \<longleftrightarrow> (\<exists>y. (length ?q = length h \<and> ?q = y) \<and> same_name y h)"
    using nocase_loop_iff by blast
  also have "\<dots> \<longleftrightarrow> sub_domain flags p h"
    unfolding skip_loop_iff sub_domain_def using same_name_length by blast
  finally show ?thesis .
qed

lemma tolower_sint: "OPENSSL_tolower (sint c) = sint (lower c)" for c :: u8
proof -
  have s: "sint (d :: u8) = (if unat d < 128 then int (unat d) else int (unat d) - 256)" for d
  proof -
    have u: "unat d < 256" using unsigned_less [of d, where ?'a = nat] by simp
    have "sint d = take_bit 8 (int (unat d) + 128) - 128"
      by (simp add: sint_uint signed_take_bit_eq_take_bit_shift)
    also have "\<dots> = int ((unat d + 128) mod 256) - 128"
      unfolding take_bit_eq_mod zmod_int by simp
    also have "(unat d + 128) mod 256 = (if unat d < 128 then unat d + 128 else unat d - 128)"
      using u by (simp add: mod_if)
    finally show ?thesis by (auto simp: of_nat_diff)
  qed
  show ?thesis
  proof (cases rule: lower_cases [of c])
    case 1
    then have "unat c < 65 \<or> 90 < unat c" by (auto simp: word_le_nat_alt)
    moreover have "unat c < 256" using unsigned_less [of c, where ?'a = nat] by simp
    ultimately show ?thesis using 1(1) by (auto simp: OPENSSL_tolower_def s simp del: of_nat_unat)
  next
    case 2
    then show ?thesis by (simp add: OPENSSL_tolower_def s del: of_nat_unat)
  qed
qed

lemma sint_inject_u8 [simp]: "sint a = sint b \<longleftrightarrow> a = (b :: u8)"
  by (rule word_eq_iff_signed [symmetric])

definition xn :: bytes where "xn = [0x78, 0x6E, 0x2D, 0x2D]"

lemma strncasecmp_zero:
  "length a = n \<Longrightarrow> length b = n \<Longrightarrow> 0 \<notin> set b \<Longrightarrow>
     OPENSSL_strncasecmp a b n = 0 \<longleftrightarrow> map lower a = map lower b"
proof (induction a b n rule: OPENSSL_strncasecmp.induct)
  case (2 a b n)
  then obtain x xs y ys where ab: "a = x # xs" "b = y # ys" by (cases a; cases b) auto
  have "sint (lower y) \<noteq> 0"
    using 2(4) ab sint_inject_u8 [of "lower y" 0] by (auto simp del: sint_inject_u8)
  moreover have "sint (lower x) < sint (lower y) \<or> sint (lower x) > sint (lower y) \<longleftrightarrow> lower x \<noteq> lower y"
    by (metis linorder_neq_iff sint_inject_u8)
  ultimately show ?case using 2 ab by (auto simp: tolower_sint Let_def)
qed simp

lemma strncasecmp_take: "length a \<ge> n \<Longrightarrow> OPENSSL_strncasecmp a b n = OPENSSL_strncasecmp (take n a) b n"
proof (induction a b n rule: OPENSSL_strncasecmp.induct)
  case (2 a b n)
  then show ?case by (cases a) (auto simp: Let_def)
qed simp

lemma strncasecmp_xn:
  "length a \<ge> 4 \<Longrightarrow> OPENSSL_strncasecmp a [0x78, 0x6E, 0x2D, 0x2D] 4 = 0 \<longleftrightarrow> map lower (take 4 a) = xn"
  by (subst strncasecmp_take) (auto simp: strncasecmp_zero xn_def lower_def)

section \<open>Labels\<close>

fun labels :: "bytes \<Rightarrow> bytes list" where
  "labels [] = [[]]"
| "labels (c # p) = (if c = c_dot then [] # labels p else (c # hd (labels p)) # tl (labels p))"

lemma labels_nonempty [simp]: "labels p \<noteq> []"
  by (induction p) auto

lemma labels_append: "c_dot \<notin> set a \<Longrightarrow> labels (a @ b) = (a @ hd (labels b)) # tl (labels b)"
  by (induction a) auto

lemma labels_append_dot: "c_dot \<notin> set a \<Longrightarrow> labels (a @ c_dot # b) = a # labels b"
  by (simp add: labels_append)

lemma labels_no_dot: "l \<in> set (labels p) \<Longrightarrow> c_dot \<notin> set l"
proof (induction p arbitrary: l)
  case (Cons c p)
  have "hd (labels p) \<in> set (labels p)" "set (tl (labels p)) \<subseteq> set (labels p)"
    by (simp_all add: list.set_sel(2) subsetI)
  with Cons show ?case by (auto split: if_splits)
qed simp

lemma map_labels: "labels (map lower p) = map (map lower) (labels p)"
  by (induction p) (auto simp: hd_map map_tl)

lemma length_labels: "length (labels p) = Suc (count_list p c_dot)"
  by (induction p) auto

lemma labels_inject: "labels p = labels q \<Longrightarrow> p = q"
proof (induction p arbitrary: q)
  case Nil
  then show ?case by (cases q) (auto split: if_splits dest: sym [of "[]"])
next
  case (Cons c p)
  then obtain d q' where q: "q = d # q'" by (cases q) (auto split: if_splits)
  have "labels p = labels q'" if "hd (labels p) = hd (labels q')" "tl (labels p) = tl (labels q')"
    using that by (metis labels_nonempty list.collapse)
  with Cons q show ?case by (auto split: if_splits dest: arg_cong [where f = hd])
qed

lemma labels_same_iff: "map lower p = map lower q \<longleftrightarrow> map (map lower) (labels p) = map (map lower) (labels q)"
  by (metis labels_inject map_labels)

text \<open>A label of a host name: letters, digits, and hyphens that are not at an end.\<close>

definition label_char :: "u8 \<Rightarrow> bool" where
  "label_char c \<longleftrightarrow> (0x30 \<le> c \<and> c \<le> 0x39) \<or> (0x41 \<le> c \<and> c \<le> 0x5A) \<or> (0x61 \<le> c \<and> c \<le> 0x7A) \<or> c = c_hyphen"

definition label_ok :: "bytes \<Rightarrow> bool" where
  "label_ok l \<longleftrightarrow> l \<noteq> [] \<and> list_all label_char l \<and> hd l \<noteq> c_hyphen \<and> last l \<noteq> c_hyphen"

lemma label_char_not [simp]: "label_char c \<Longrightarrow> c \<noteq> c_dot \<and> c \<noteq> c_star \<and> c \<noteq> 0"
  by (auto simp: label_char_def)

lemma label_ok_no_dot: "list_all label_char l \<Longrightarrow> c_dot \<notin> set l"
  by (metis label_char_not list_all_iff)

section \<open>The wildcard of a pattern\<close>

lemma state_flags:
  "st AND LABEL_START \<noteq> 0 \<longleftrightarrow> bit st 0"
  "st AND (LABEL_HYPHEN OR LABEL_START) \<noteq> 0 \<longleftrightarrow> bit st 0 \<or> bit st 2"
  "st AND (LABEL_START OR LABEL_HYPHEN) \<noteq> 0 \<longleftrightarrow> bit st 0 \<or> bit st 2"
  "st AND LABEL_IDNA \<noteq> 0 \<longleftrightarrow> bit st 3"
  using and_exp_eq_0_iff_not_bit [of st 0] and_exp_eq_0_iff_not_bit [of st 2] and_exp_eq_0_iff_not_bit [of st 3]
  unfolding bit.conj_disj_distrib or_eq_0_iff LABEL_START_def LABEL_HYPHEN_def LABEL_IDNA_def by auto

lemma state_bits:
  "bit (st AND NOT LABEL_START) 0 = False"
  "bit (st AND NOT LABEL_START) 2 = bit st 2"
  "bit (st AND NOT LABEL_START) 3 = bit st 3"
  "bit (st AND NOT (LABEL_HYPHEN OR LABEL_START)) 0 = False"
  "bit (st AND NOT (LABEL_HYPHEN OR LABEL_START)) 2 = False"
  "bit (st AND NOT (LABEL_HYPHEN OR LABEL_START)) 3 = bit st 3"
  "bit LABEL_START 0" "\<not> bit LABEL_START 2" "\<not> bit LABEL_START 3"
  "bit (st OR LABEL_HYPHEN) 0 = bit st 0" "bit (st OR LABEL_HYPHEN) 2" "bit (st OR LABEL_HYPHEN) 3 = bit st 3"
  "bit (st OR LABEL_IDNA) 0 = bit st 0" "bit (st OR LABEL_IDNA) 2 = bit st 2" "bit (st OR LABEL_IDNA) 3"
  by (simp_all add: LABEL_START_def LABEL_HYPHEN_def LABEL_IDNA_def bit_simps numeral_eq_Suc)

text \<open>The rest of a pattern after its wildcard: \<open>s\<close> at the start of a label, \<open>h\<close> after a hyphen.\<close>

fun tail_ok :: "bool \<Rightarrow> bool \<Rightarrow> bytes \<Rightarrow> bool" where
  "tail_ok s h [] \<longleftrightarrow> \<not> s \<and> \<not> h"
| "tail_ok s h (c # p) \<longleftrightarrow>
     (if c = c_dot then \<not> s \<and> \<not> h \<and> tail_ok True False p
      else if c = c_hyphen then \<not> s \<and> tail_ok False True p
      else label_char c \<and> tail_ok False False p)"

definition star_end :: "(nat option \<times> u32 \<times> nat) option \<Rightarrow> nat option" where
  "star_end r =
     (case r of
        None \<Rightarrow> None
      | Some (star, state, dots) \<Rightarrow>
          if state AND (LABEL_START OR LABEL_HYPHEN) \<noteq> 0 \<or> dots < 2 then None else star)"

lemma star_end_None [simp]: "star_end None = None"
  by (simp add: star_end_def)

lemma star_loop_char:
  assumes "label_char c" "c \<noteq> c_hyphen"
  obtains st' where "star_loop flags (c # p) i star st dots = star_loop flags p (i + 1) star st' dots"
    "\<not> bit st' 0" "\<not> bit st' 2" "bit st' 3 \<longleftrightarrow> bit st 3 \<or> bit st 0 \<and> map lower (take 4 (c # p)) = xn"
proof -
  let ?idna = "bit st 0 \<and> length (c # p) \<ge> 4 \<and> OPENSSL_strncasecmp (c # p) [0x78, 0x6E, 0x2D, 0x2D] 4 = 0"
  let ?st = "(if ?idna then st OR LABEL_IDNA else st) AND NOT (LABEL_HYPHEN OR LABEL_START)"
  have "map lower (take 4 (c # p)) = xn \<Longrightarrow> length (c # p) \<ge> 4"
    by (drule arg_cong [where f = length]) (simp add: xn_def)
  then have "?idna \<longleftrightarrow> bit st 0 \<and> map lower (take 4 (c # p)) = xn"
    using strncasecmp_xn [of "c # p"] by blast
  then have "bit ?st 3 \<longleftrightarrow> bit st 3 \<or> bit st 0 \<and> map lower (take 4 (c # p)) = xn"
    by (simp only: state_bits split: if_split) blast
  moreover have "star_loop flags (c # p) i star st dots = star_loop flags p (i + 1) star ?st dots"
    using assms unfolding star_loop.simps state_flags by (auto simp: label_char_def Let_def)
  ultimately show ?thesis using that state_bits(4,5) by metis
qed

lemma star_loop_tail:
  "star \<noteq> None \<or> dots \<noteq> 0 \<Longrightarrow>
     star_end (star_loop flags p i star st dots) =
       (if tail_ok (bit st 0) (bit st 2) p \<and> 2 \<le> dots + count_list p c_dot then star else None)"
proof (induction p arbitrary: i st dots)
  case Nil
  then show ?case by (auto simp: star_end_def state_flags)
next
  case (Cons c p)
  consider "c = c_star" | "c = c_dot" | "c = c_hyphen" | "label_char c" "c \<noteq> c_hyphen"
    | "\<not> label_char c" "c \<noteq> c_dot" "c \<noteq> c_star" by blast
  then show ?case
  proof cases
    case 1
    with Cons.prems show ?thesis by (auto simp: label_char_def)
  next
    case 2
    with Cons.prems show ?thesis
      by (auto simp: Cons.IH state_flags state_bits)
  next
    case 3
    with Cons.prems show ?thesis
      by (auto simp: Cons.IH state_flags state_bits)
  next
    case 4
    then obtain st' where "star_loop flags (c # p) i star st dots = star_loop flags p (i + 1) star st' dots"
      "\<not> bit st' 0" "\<not> bit st' 2" by (rule star_loop_char)
    with 4 show ?thesis using Cons.prems by (simp del: star_loop.simps add: Cons.IH)
  next
    case 5
    then show ?thesis by (auto simp: label_char_def)
  qed
qed

lemma star_loop_hyphen:
  "star_loop flags (c_hyphen # p) i star st dots =
     (if bit st 0 then None else star_loop flags p (i + 1) star (st OR LABEL_HYPHEN) dots)"
  by (simp add: state_flags)

lemma star_loop_star:
  "star_loop flags (c_star # p) i None st 0 =
     (if bit st 3 \<or> (flags AND X509_CHECK_FLAG_NO_PARTIAL_WILDCARDS \<noteq> 0 \<and> \<not> (bit st 0 \<and> (p = [] \<or> hd p = c_dot)))
         \<or> \<not> (bit st 0 \<or> p = [] \<or> hd p = c_dot) then None
      else star_loop flags p (i + 1) (Some i) (st AND NOT LABEL_START) 0)"
  by (auto simp: state_flags Let_def)

text \<open>The characters of a label leave the star and the number of dots as they are.\<close>

lemma star_loop_label:
  assumes "list_all label_char u" "\<not> bit st 0"
  obtains st' where "star_loop flags (u @ r) i star st d = star_loop flags r (i + length u) star st' d"
    "\<not> bit st' 0" "bit st' 2 \<longleftrightarrow> (if u = [] then bit st 2 else last u = c_hyphen)" "bit st' 3 = bit st 3"
  using assms
proof (induction u arbitrary: i st thesis)
  case Nil
  then show ?case by simp
next
  case (Cons c u)
  then have u: "list_all label_char u" by simp
  obtain st1 where st1: "star_loop flags (c # u @ r) i star st d = star_loop flags (u @ r) (i + 1) star st1 d"
    "\<not> bit st1 0" "bit st1 2 \<longleftrightarrow> c = c_hyphen" "bit st1 3 = bit st 3"
  proof (cases "c = c_hyphen")
    case True
    with that [of "st OR LABEL_HYPHEN"] Cons.prems(3) show ?thesis
      by (simp add: star_loop_hyphen state_bits del: star_loop.simps)
  next
    case False
    with Cons.prems have "label_char c" by simp
    from star_loop_char [OF this False] Cons.prems(3) that False show ?thesis by metis
  qed
  obtain st2 where "star_loop flags (u @ r) (i + 1) star st1 d = star_loop flags r (i + 1 + length u) star st2 d"
    "\<not> bit st2 0" "bit st2 2 \<longleftrightarrow> (if u = [] then bit st1 2 else last u = c_hyphen)" "bit st2 3 = bit st1 3"
    by (rule Cons.IH [OF _ u st1(2)])
  with st1 show ?case by (intro Cons.prems(1) [of st2]) (auto simp del: star_loop.simps)
qed

lemma star_loop_first_label:
  assumes u: "u \<noteq> []" "list_all label_char u"
  obtains "hd u = c_hyphen" "star_loop flags (u @ r) i star LABEL_START d = None"
  | st where "hd u \<noteq> c_hyphen" "star_loop flags (u @ r) i star LABEL_START d = star_loop flags r (i + length u) star st d"
    "\<not> bit st 0" "bit st 2 \<longleftrightarrow> last u = c_hyphen" "bit st 3 \<longleftrightarrow> map lower (take 4 (u @ r)) = xn"
proof (cases u)
  case Nil
  with u show ?thesis by simp
next
  case (Cons c v)
  show ?thesis
  proof (cases "c = c_hyphen")
    case True
    with Cons that(1) show ?thesis by (simp add: star_loop_hyphen state_bits del: star_loop.simps)
  next
    case False
    from Cons u have "label_char c" "list_all label_char v" by simp_all
    obtain st1 where st1: "star_loop flags (c # (v @ r)) i star LABEL_START d = star_loop flags (v @ r) (i + 1) star st1 d"
      "\<not> bit st1 0" "\<not> bit st1 2" "bit st1 3 \<longleftrightarrow> map lower (take 4 (c # (v @ r))) = xn"
      using star_loop_char [OF \<open>label_char c\<close> False, of flags "v @ r" i star LABEL_START d] state_bits(7,9) by metis
    obtain st2 where "star_loop flags (v @ r) (i + 1) star st1 d = star_loop flags r (i + 1 + length v) star st2 d"
      "\<not> bit st2 0" "bit st2 2 \<longleftrightarrow> (if v = [] then bit st1 2 else last v = c_hyphen)" "bit st2 3 = bit st1 3"
      using star_loop_label [OF \<open>list_all label_char v\<close> st1(2)] .
    with st1 Cons False show ?thesis by (intro that(2) [of st2]) (auto simp del: star_loop.simps)
  qed
qed

text \<open>
  The wildcard \<open>u * v\<close>: a part of the first label and the rest of the pattern. The star is all of the
  label, or at its start or end, the label is not an IDNA label, and two labels at least follow.
\<close>

definition star_ok :: "u32 \<Rightarrow> bytes \<Rightarrow> bytes \<Rightarrow> bool" where
  "star_ok flags u v \<longleftrightarrow>
     list_all label_char u \<and> (u \<noteq> [] \<longrightarrow> hd u \<noteq> c_hyphen \<and> map lower (take 4 u) \<noteq> xn)
     \<and> (u = [] \<or> v = [] \<or> hd v = c_dot)
     \<and> (flags AND X509_CHECK_FLAG_NO_PARTIAL_WILDCARDS \<noteq> 0 \<longrightarrow> u = [] \<and> (v = [] \<or> hd v = c_dot))
     \<and> tail_ok False (u \<noteq> [] \<and> last u = c_hyphen) v \<and> 2 \<le> count_list v c_dot"

lemma xn_prefix: "map lower (take 4 (u @ c_star # v)) = xn \<longleftrightarrow> map lower (take 4 u) = xn"
proof (cases "length u < 4")
  case True
  then obtain k where "4 - length u = Suc k" by (cases "4 - length u") auto
  then have "c_star \<in> set (map lower (take 4 (u @ c_star # v)))" by (force simp: image_iff)
  moreover have "c_star \<notin> set xn" by (simp add: xn_def)
  moreover have "length (map lower (take 4 u)) \<noteq> length xn" using True by (simp add: xn_def)
  ultimately show ?thesis by metis
qed simp

lemma star_end_star:
  assumes "list_all label_char u"
  shows "star_end (star_loop flags (u @ c_star # v) 0 None LABEL_START 0) = (if star_ok flags u v then Some (length u) else None)"
proof (cases "u = []")
  case True
  then show ?thesis
    by (auto simp: star_loop_star star_loop_tail state_bits star_ok_def simp del: star_loop.simps)
next
  case False
  then show ?thesis using assms
  proof (cases rule: star_loop_first_label [where r = "c_star # v" and flags = flags and i = 0 and star = None and d = 0])
    case 1
    with False show ?thesis by (auto simp: star_ok_def simp del: star_loop.simps)
  next
    case (2 st)
    from 2(5) have "bit st 3 \<longleftrightarrow> map lower (take 4 u) = xn" by (simp only: xn_prefix)
    with False assms 2(1-4) show ?thesis
      by (auto simp: star_loop_star star_loop_tail state_bits star_ok_def simp del: star_loop.simps take_append)
  qed
qed

lemma star_loop_no_star: "list_all label_char u \<Longrightarrow> star_end (star_loop flags u 0 None LABEL_START 0) = None"
proof (cases "u = []")
  case False
  moreover assume "list_all label_char u"
  ultimately show ?thesis
  proof (cases rule: star_loop_first_label [where r = "[]" and flags = flags and i = 0 and star = None and d = 0])
    case (2 st)
    then show ?thesis by (auto simp: star_end_def)
  qed simp
qed (simp add: star_end_def)

lemma valid_star_iff:
  "valid_star flags p = Some n \<longleftrightarrow> (\<exists>u v. p = u @ c_star # v \<and> n = length u \<and> star_ok flags u v)"
proof -
  have vs: "valid_star flags p = star_end (star_loop flags p 0 None LABEL_START 0)"
    by (simp add: valid_star_def star_end_def)
  let ?u = "takeWhile label_char p" and ?r = "dropWhile label_char p"
  have u: "list_all label_char ?u" by (auto simp: list_all_iff dest: set_takeWhileD)
  have only: "p = u @ c_star # v \<and> star_ok flags u v \<Longrightarrow> u = ?u \<and> ?r = c_star # v" for u v
  proof -
    assume p: "p = u @ c_star # v \<and> star_ok flags u v"
    then have "\<forall>c\<in>set u. label_char c" by (auto simp: star_ok_def list_all_iff)
    with p label_char_not [of c_star] show ?thesis by (auto simp: takeWhile_append2 dropWhile_append2)
  qed
  show ?thesis
  proof (cases ?r)
    case Nil
    then have "?u = p" by (metis append_Nil2 takeWhile_dropWhile_id)
    with u have "star_end (star_loop flags p 0 None LABEL_START 0) = None" using star_loop_no_star by metis
    with Nil only show ?thesis unfolding vs by auto
  next
    case (Cons c v)
    have c: "\<not> label_char c" using Cons by (metis hd_dropWhile list.distinct(1) list.sel(1))
    have p: "p = ?u @ c # v" using Cons by (metis takeWhile_dropWhile_id)
    show ?thesis
    proof (cases "c = c_star")
      case True
      with p have "valid_star flags p = (if star_ok flags ?u v then Some (length ?u) else None)"
        unfolding vs using star_end_star [OF u] by metis
      with True p only Cons show ?thesis by (auto split: if_splits)
    next
      case False
      have stop: "star_end (star_loop flags (c # v) i None st 0) = None" for i st
      proof (cases "c = c_dot")
        case True
        then show ?thesis by (simp add: star_loop_tail)
      next
        case False
        with c \<open>c \<noteq> c_star\<close> show ?thesis by (auto simp: label_char_def)
      qed
      have "star_end (star_loop flags (?u @ c # v) 0 None LABEL_START 0) = None"
      proof (cases "?u = []")
        case False
        then show ?thesis using u
        proof (cases rule: star_loop_first_label [where r = "c # v" and flags = flags and i = 0 and star = None and d = 0])
          case 1
          then show ?thesis by (simp only: star_end_None)
        next
          case (2 st)
          from 2(2) show ?thesis by (simp only: stop)
        qed
      qed (simp only: append_Nil stop)
      with p have "valid_star flags p = None" unfolding vs by metis
      with only Cons False show ?thesis by auto
    qed
  qed
qed

lemma tail_ok_labels:
  "tail_ok s h p \<longleftrightarrow>
     (if hd (labels p) = [] then \<not> s \<and> \<not> h
      else list_all label_char (hd (labels p)) \<and> (s \<longrightarrow> hd (hd (labels p)) \<noteq> c_hyphen) \<and> last (hd (labels p)) \<noteq> c_hyphen)
     \<and> list_all label_ok (tl (labels p))"
proof (induction p arbitrary: s h)
  case (Cons c p)
  obtain l ls where "labels p = l # ls" by (cases "labels p") auto
  then show ?case by (auto simp: Cons.IH label_ok_def label_char_def)
qed simp

lemma hd_labels_empty: "hd (labels v) = [] \<longleftrightarrow> v = [] \<or> hd v = c_dot"
  by (cases v) auto

text \<open>A wildcard in labels: the first one is \<open>u * v\<close>, \<open>ls\<close> are the others.\<close>

definition star_labels :: "u32 \<Rightarrow> bytes \<Rightarrow> bytes \<Rightarrow> bytes list \<Rightarrow> bool" where
  "star_labels flags u v ls \<longleftrightarrow>
     (u = [] \<or> v = []) \<and> (u \<noteq> [] \<longrightarrow> label_ok u \<and> map lower (take 4 u) \<noteq> xn)
     \<and> (v \<noteq> [] \<longrightarrow> list_all label_char v \<and> last v \<noteq> c_hyphen)
     \<and> (flags AND X509_CHECK_FLAG_NO_PARTIAL_WILDCARDS \<noteq> 0 \<longrightarrow> u = [] \<and> v = [])
     \<and> list_all label_ok ls \<and> 2 \<le> length ls"

lemma star_ok_labels:
  "star_ok flags u v \<longleftrightarrow> star_labels flags u (hd (labels v)) (tl (labels v))"
  by (auto simp: star_ok_def star_labels_def tail_ok_labels length_labels hd_labels_empty [symmetric] label_ok_def)

section \<open>Matching a wildcard\<close>

lemma xn_length: "map lower (take 4 h) = xn \<Longrightarrow> 4 \<le> length h"
  by (drule arg_cong [where f = length]) (simp add: xn_def)

lemma wildcard_match_split:
  assumes l: "length u' = length u" "length s' = length s"
  shows "wildcard_match flags u s (u' @ w @ s') \<longleftrightarrow>
     same_name u u' \<and> same_name s' s
     \<and> (if u = [] \<and> hd (s @ [0]) = c_dot then w \<noteq> [] else map lower (take 4 (u' @ w @ s')) \<noteq> xn)
     \<and> (w = [c_star] \<or> list_all (wildcard_char (u = [] \<and> hd (s @ [0]) = c_dot
             \<and> flags AND X509_CHECK_FLAG_MULTI_LABEL_WILDCARDS \<noteq> 0)) w)"
proof -
  let ?h = "u' @ w @ s'"
  define h where "h = ?h"
  have pieces: "length h - length s = length u + length w" "take (length u) h = u'"
    "drop (length u + length w) h = s'" "drop (length u) (take (length u + length w) h) = w"
    "(length h < length u + length s) = False"
    using l by (auto simp: h_def)
  have nocase: "equal_nocase flags u u' \<longleftrightarrow> same_name u u'" "equal_nocase flags s' s \<longleftrightarrow> same_name s' s"
    using l by (simp_all add: equal_nocase_same_length)
  have xn: "4 \<le> length h \<and> OPENSSL_strncasecmp h [0x78, 0x6E, 0x2D, 0x2D] 4 = 0 \<longleftrightarrow> map lower (take 4 h) = xn"
    using strncasecmp_xn xn_length by blast
  have one: "length u + length w = length u + 1 \<and> h ! length u = c_star \<longleftrightarrow> w = [c_star]"
    using l by (cases w) (auto simp: h_def nth_append)
  show ?thesis
    unfolding wildcard_match_def h_def [symmetric] Let_def pieces one xn nocase
    by (cases "w = []") auto
qed

lemma wildcard_match_iff:
  "wildcard_match flags u s h \<longleftrightarrow>
     (\<exists>u' w s'. h = u' @ w @ s' \<and> same_name u u' \<and> same_name s' s
        \<and> (if u = [] \<and> hd (s @ [0]) = c_dot then w \<noteq> [] else map lower (take 4 h) \<noteq> xn)
        \<and> (w = [c_star] \<or> list_all (wildcard_char (u = [] \<and> hd (s @ [0]) = c_dot
               \<and> flags AND X509_CHECK_FLAG_MULTI_LABEL_WILDCARDS \<noteq> 0)) w))"
  (is "_ \<longleftrightarrow> (\<exists>u' w s'. ?M u' w s')")
proof
  assume m: "wildcard_match flags u s h"
  let ?e = "length h - length s"
  let ?u = "take (length u) h" and ?s = "drop ?e h" and ?w = "drop (length u) (take ?e h)"
  have len: "length u + length s \<le> length h" using m by (auto simp: wildcard_match_def split: if_splits)
  then have h: "h = ?u @ ?w @ ?s"
    by (metis (no_types, lifting) add_le_imp_le_diff append_assoc append_take_drop_id min.absorb1 take_take)
  have "length ?u = length u" "length ?s = length s" using len by auto
  from m wildcard_match_split [OF this, of flags ?w] h have "?M ?u ?w ?s" by metis
  then show "\<exists>u' w s'. ?M u' w s'" by blast
next
  assume "\<exists>u' w s'. ?M u' w s'"
  then obtain u' w s' where M: "?M u' w s'" by blast
  then have "length u' = length u" "length s' = length s" by (auto dest: same_name_length)
  from M wildcard_match_split [OF this, of flags w] show "wildcard_match flags u s h" by metis
qed

lemma same_name_Cons: "same_name (c # p) (d # q) \<longleftrightarrow> lower c = lower d \<and> c \<noteq> 0 \<and> same_name p q"
  by (auto simp: same_name_def)

lemma same_name_Nil [simp]: "same_name [] q \<longleftrightarrow> q = []" "same_name q [] \<longleftrightarrow> q = []"
  by (auto simp: same_name_def)

lemma lower_dot_eq: "lower c = lower d \<Longrightarrow> c = c_dot \<longleftrightarrow> d = c_dot"
  by (metis lower_dot)

lemma same_name_labels: "same_name p q \<longleftrightarrow> list_all2 same_name (labels p) (labels q)"
proof (induction p arbitrary: q)
  case Nil
  have "labels q = [[]] \<longleftrightarrow> q = []" using labels_inject [of q "[]"] by auto
  then show ?case by (auto simp: list_all2_Cons1)
next
  case (Cons c p)
  show ?case
  proof (cases q)
    case Nil
    obtain l ls where "labels p = l # ls" by (cases "labels p") auto
    with Nil show ?thesis by auto
  next
    case (Cons d q')
    obtain l ls m ms where lm: "labels p = l # ls" "labels q' = m # ms"
      by (cases "labels p"; cases "labels q'") auto
    with Cons.IH [of q'] show ?thesis
      by (auto simp: Cons same_name_Cons dest: lower_dot_eq)
  qed
qed

lemma list_all2_hd_tl: "list_all2 P xs ys \<Longrightarrow> xs \<noteq> [] \<Longrightarrow> P (hd xs) (hd ys) \<and> list_all2 P (tl xs) (tl ys)"
  by (cases xs; cases ys) auto

lemma labels_split_first:
  assumes "labels h = (a @ b) # hs" shows "\<exists>t. h = a @ t \<and> labels t = b # hs"
  using assms
proof (induction a arbitrary: h)
  case (Cons c a)
  then obtain h' where h: "h = c # h'" "c \<noteq> c_dot" by (cases h) (auto split: if_splits)
  moreover have "labels h' = hd (labels h') # tl (labels h')" by simp
  ultimately have "labels h' = (a @ b) # hs" using Cons.prems by (auto simp del: labels_nonempty)
  from Cons.IH [OF this] h show ?case by auto
qed auto

lemma wildcard_char_label: "wildcard_char False = label_char"
  by (auto simp: wildcard_char_def label_char_def fun_eq_iff)

lemma same_name_no_dot: "same_name a b \<Longrightarrow> c_dot \<notin> set a \<Longrightarrow> c_dot \<notin> set b"
proof -
  assume "same_name a b" "c_dot \<notin> set a"
  have "c_dot \<in> set xs \<longleftrightarrow> c_dot \<in> set (map lower xs)" for xs
    by (induction xs) (simp_all add: eq_commute [of c_dot])
  with \<open>same_name a b\<close> \<open>c_dot \<notin> set a\<close> show ?thesis unfolding same_name_def by metis
qed

text \<open>A host under a wildcard: the first label matches \<open>u * v\<close> and the others are the same.\<close>

definition wild_match :: "bytes \<Rightarrow> bytes \<Rightarrow> bytes list \<Rightarrow> bytes \<Rightarrow> bool" where
  "wild_match u v ls h \<longleftrightarrow>
     (\<exists>u' w v' hs. labels h = (u' @ w @ v') # hs \<and> same_name u u' \<and> same_name v v' \<and> list_all2 same_name ls hs
        \<and> (w = [c_star] \<or> list_all label_char w)
        \<and> (if u = [] \<and> v = [] then w \<noteq> [] else map lower (take 4 h) \<noteq> xn))"

lemma wild_matchI:
  assumes "labels h = (u' @ w @ v') # hs" "same_name u u'"
    "if u = [] \<and> v = [] then w \<noteq> [] else map lower (take 4 h) \<noteq> xn"
    "w = [c_star] \<or> list_all label_char w" "same_name v v'" "list_all2 same_name ls hs"
  shows "wild_match u v ls h"
  using assms unfolding wild_match_def by blast

lemma first_split: "a @ c # b = a' @ c # b' \<Longrightarrow> c \<notin> set a \<Longrightarrow> c \<notin> set a' \<Longrightarrow> a = a' \<and> b = b'"
proof (induction a arbitrary: a')
  case Nil
  then show ?case by (cases a') auto
next
  case (Cons x a)
  then show ?case by (cases a') auto
qed

lemma wildcard_match_labels:
  assumes ok: "star_ok flags u s" and single: "flags AND X509_CHECK_FLAG_MULTI_LABEL_WILDCARDS = 0"
  shows "wildcard_match flags u s h \<longleftrightarrow> wild_match u (hd (labels s)) (tl (labels s)) h"
proof -
  let ?v = "hd (labels s)" and ?ls = "tl (labels s)"
  have s: "labels s = ?v # ?ls" by simp
  have "s \<noteq> []" and u: "c_dot \<notin> set u" using ok by (auto simp: star_ok_def dest: label_ok_no_dot)
  then have whole: "u = [] \<and> hd (s @ [0]) = c_dot \<longleftrightarrow> u = [] \<and> ?v = []" by (auto simp: hd_labels_empty)
  have w: "c_dot \<notin> set w" if "w = [c_star] \<or> list_all label_char w" for w
    using that by (auto dest: label_ok_no_dot)
  have multi: "(u = [] \<and> hd (s @ [0]) = c_dot \<and> flags AND X509_CHECK_FLAG_MULTI_LABEL_WILDCARDS \<noteq> 0) = False"
    using single by simp
  have sym: "same_name s' s \<longleftrightarrow> same_name s s'" for s' by (auto dest: same_name_sym)
  have wm: "wildcard_match flags u s h \<longleftrightarrow>
     (\<exists>u' w s'. h = u' @ w @ s' \<and> same_name u u' \<and> same_name s s'
        \<and> (if u = [] \<and> ?v = [] then w \<noteq> [] else map lower (take 4 h) \<noteq> xn)
        \<and> (w = [c_star] \<or> list_all label_char w))"
    unfolding wildcard_match_iff multi whole wildcard_char_label by (simp only: sym)
  show ?thesis
  proof
    assume "wildcard_match flags u s h"
    then obtain u' w s' where h: "h = u' @ w @ s'" "same_name u u'" "same_name s s'"
        "if u = [] \<and> ?v = [] then w \<noteq> [] else map lower (take 4 h) \<noteq> xn"
        "w = [c_star] \<or> list_all label_char w"
      unfolding wm by blast
    have l: "labels h = (u' @ w @ hd (labels s')) # tl (labels s')"
      using same_name_no_dot [OF h(2) u] w [OF h(5)] by (simp add: h(1) labels_append)
    have "same_name ?v (hd (labels s'))" "list_all2 same_name ?ls (tl (labels s'))"
      using list_all2_hd_tl [OF same_name_labels [THEN iffD1, OF h(3)]] by simp_all
    with l h(2,4,5) show "wild_match u ?v ?ls h" by (rule wild_matchI)
  next
    assume "wild_match u ?v ?ls h"
    then obtain u' w v' hs where h: "labels h = (u' @ w @ v') # hs" "same_name u u'" "same_name ?v v'"
        "list_all2 same_name ?ls hs" "w = [c_star] \<or> list_all label_char w"
        "if u = [] \<and> ?v = [] then w \<noteq> [] else map lower (take 4 h) \<noteq> xn"
      unfolding wild_match_def by blast
    obtain s' where s': "h = (u' @ w) @ s'" "labels s' = v' # hs"
      using labels_split_first [of h "u' @ w" v' hs] h(1) by auto
    have "list_all2 same_name (labels s) (labels s')"
      unfolding s'(2) using list.rel_intros(2) [OF h(3,4)] s by metis
    then have "same_name s s'" by (rule same_name_labels [THEN iffD2])
    with h s'(1) have "h = u' @ w @ s' \<and> same_name u u' \<and> same_name s s'
        \<and> (if u = [] \<and> ?v = [] then w \<noteq> [] else map lower (take 4 h) \<noteq> xn)
        \<and> (w = [c_star] \<or> list_all label_char w)" by simp
    then show "wildcard_match flags u s h" unfolding wm by blast
  qed
qed


lemma same_name_star:
  assumes p: "labels p = (u @ c_star # v) # ls" "star_labels flags u v ls" and h: "same_name p h"
  shows "wild_match u v ls h"
proof -
  obtain l hs where lh: "labels h = l # hs" by (cases "labels h") auto
  have s: "same_name (u @ c_star # v) l" "list_all2 same_name ls hs"
    using same_name_labels [THEN iffD1, OF h] p(1) lh by auto
  let ?u = "take (length u) l" and ?r = "drop (length u) l"
  have len: "length l = length u + Suc (length v)" using same_name_length [OF s(1)] by simp
  then obtain c v' where r: "?r = c # v'" by (cases ?r) auto
  have "same_name u ?u" "same_name (c_star # v) ?r"
    using s(1) same_name_append [of u ?u "c_star # v" ?r] len by auto
  then have "same_name u ?u" "c = c_star" "same_name v v'"
    using r lower_star [of c] by (auto simp: same_name_Cons lower_def)
  moreover from r \<open>c = c_star\<close> have l: "l = ?u @ [c_star] @ v'" by (metis append_Cons append_Nil append_take_drop_id)
  moreover have "map lower (take 4 h) \<noteq> xn" if "\<not> (u = [] \<and> v = [])"
  proof
    assume xn: "map lower (take 4 h) = xn"
    have "map lower h = map lower p" using h by (simp add: same_name_def)
    with xn have "map lower (take 4 p) = xn" by (metis take_map)
    moreover obtain t where "p = u @ c_star # t" using labels_split_first [of p u "c_star # v" ls] p(1)
      by (metis labels_split_first append_Cons append_Nil append_assoc)
    ultimately have "map lower (take 4 u) = xn" using xn_prefix by metis
    with p(2) show False by (cases "u = []") (auto simp: star_labels_def xn_def)
  qed
  ultimately show ?thesis using lh s(2) unfolding wild_match_def by (metis append_Cons append_Nil list.distinct(1))
qed

lemma equal_wildcard_iff:
  assumes single: "flags AND X509_CHECK_FLAG_MULTI_LABEL_WILDCARDS = 0"
    and nodot: "flags AND X509_CHECK_FLAG_DOT_SUBDOMAINS = 0"
  shows "equal_wildcard flags p h \<longleftrightarrow>
     same_name p h
     \<or> \<not> (1 < length h \<and> hd h = c_dot)
       \<and> (\<exists>u v ls. labels p = (u @ c_star # v) # ls \<and> star_labels flags u v ls \<and> wild_match u v ls h)"
proof -
  have star: "(\<exists>u s. p = u @ c_star # s \<and> n = length u \<and> star_ok flags u s) \<longleftrightarrow>
      (\<exists>u v ls. labels p = (u @ c_star # v) # ls \<and> star_labels flags u v ls \<and> n = length u)" for n
  proof
    assume "\<exists>u s. p = u @ c_star # s \<and> n = length u \<and> star_ok flags u s"
    then obtain u s where p: "p = u @ c_star # s" "n = length u" "star_ok flags u s" by blast
    then have "c_dot \<notin> set u" by (auto simp: star_ok_def dest: label_ok_no_dot)
    then have "labels p = (u @ c_star # hd (labels s)) # tl (labels s)" by (simp add: p(1) labels_append)
    with p star_ok_labels show "\<exists>u v ls. labels p = (u @ c_star # v) # ls \<and> star_labels flags u v ls \<and> n = length u"
      by blast
  next
    assume "\<exists>u v ls. labels p = (u @ c_star # v) # ls \<and> star_labels flags u v ls \<and> n = length u"
    then obtain u v ls where p: "labels p = (u @ c_star # v) # ls" "star_labels flags u v ls" "n = length u" by blast
    then obtain s where "p = (u @ [c_star]) @ s" "labels s = v # ls"
      using labels_split_first [of p "u @ [c_star]" v ls] by auto
    with p have "p = u @ c_star # s \<and> n = length u \<and> star_ok flags u s" by (simp add: star_ok_labels)
    then show "\<exists>u s. p = u @ c_star # s \<and> n = length u \<and> star_ok flags u s" by blast
  qed
  show ?thesis
  proof (cases "1 < length h \<and> hd h = c_dot")
    case True
    then show ?thesis by (simp add: equal_wildcard_def equal_nocase_iff [OF nodot])
  next
    case False
    then have e: "equal_wildcard flags p h = (case valid_star flags p of None \<Rightarrow> same_name p h
        | Some n \<Rightarrow> wildcard_match flags (take n p) (drop (n + 1) p) h)"
      by (simp add: equal_wildcard_def equal_nocase_iff [OF nodot] split: option.split)
    show ?thesis
    proof (cases "valid_star flags p")
      case None
      then have "\<not> (\<exists>u v ls. labels p = (u @ c_star # v) # ls \<and> star_labels flags u v ls)"
        using star valid_star_iff by (metis option.distinct(1))
      with e None show ?thesis by auto
    next
      case (Some n)
      then obtain u s where p: "p = u @ c_star # s" "n = length u" "star_ok flags u s"
        using valid_star_iff by metis
      have u: "list_all label_char u" "c_dot \<notin> set u" using p(3) by (auto simp: star_ok_def dest: label_ok_no_dot)
      let ?v = "hd (labels s)" and ?ls = "tl (labels s)"
      have l: "labels p = (u @ c_star # ?v) # ?ls" "star_labels flags u ?v ?ls"
        using u p(3) by (simp_all add: p(1) labels_append star_ok_labels)
      have only: "u1 = u \<and> v1 = ?v \<and> ls1 = ?ls"
        if "labels p = (u1 @ c_star # v1) # ls1" "star_labels flags u1 v1 ls1" for u1 v1 ls1
      proof -
        have "list_all label_char u1" using that(2) by (auto simp: star_labels_def label_ok_def)
        have "u1 @ c_star # v1 = u @ c_star # ?v" "ls1 = ?ls" using that(1) l(1) by simp_all
        moreover have "c_star \<notin> set u1" "c_star \<notin> set u"
          using \<open>list_all label_char u1\<close> u(1) label_char_not unfolding list_all_iff by blast+
        ultimately show ?thesis using first_split by metis
      qed
      have "equal_wildcard flags p h \<longleftrightarrow> wild_match u ?v ?ls h"
        unfolding wildcard_match_labels [OF p(3) single, symmetric] e Some p(2) by (simp add: p(1))
      with False l only same_name_star [OF l] show ?thesis by metis
    qed
  qed
qed

text \<open>
  C6. Equivalence: \<open>equal_wildcard\<close> without the multi-label and sub-domain flags accepts a subject exactly when the
  pattern is the same name (ignoring ASCII case, with no NUL byte), or the pattern is a wildcard: its first label is
  \<open>u*v\<close> with the star at an end of it and not in an IDNA label, two valid labels at least follow, and the subject,
  which does not start with a full stop, has the same other labels and a first label with letters, digits and hyphens
  (or a literal star) in the place of the star.
\<close>

theorem equal_wildcard_labels:
  assumes single: "flags AND X509_CHECK_FLAG_MULTI_LABEL_WILDCARDS = 0"
    and nodot: "flags AND X509_CHECK_FLAG_DOT_SUBDOMAINS = 0"
  shows "equal_wildcard flags p h \<longleftrightarrow>
     same_name p h
     \<or> \<not> (1 < length h \<and> hd h = c_dot)
       \<and> (\<exists>u v ls. labels p = (u @ c_star # v) # ls \<and> star_labels flags u v ls \<and> wild_match u v ls h)"
  by (rule equal_wildcard_iff [OF assms])

theorem equal_wildcard_labels_witness:
  "equal_wildcard 0 [0x2A, 0x2E, 0x61, 0x2E, 0x62] [0x78, 0x2E, 0x61, 0x2E, 0x62]
   \<and> (\<exists>u v ls. labels [0x2A, 0x2E, 0x61, 0x2E, 0x62] = (u @ c_star # v) # ls \<and> star_labels 0 u v ls
        \<and> wild_match u v ls [0x78, 0x2E, 0x61, 0x2E, 0x62])"
proof -
  have "equal_wildcard 0 [0x2A, 0x2E, 0x61, 0x2E, 0x62] [0x78, 0x2E, 0x61, 0x2E, 0x62]" by code_simp
  moreover have "\<not> same_name [0x2A, 0x2E, 0x61, 0x2E, 0x62] [0x78, 0x2E, 0x61, 0x2E, 0x62]"
    by (simp add: same_name_def lower_def)
  ultimately show ?thesis
    using equal_wildcard_labels [of 0 "[0x2A, 0x2E, 0x61, 0x2E, 0x62]" "[0x78, 0x2E, 0x61, 0x2E, 0x62]"] by auto
qed

end
