(* ===== verification/X509Check.thy ===== *)
theory X509Check
  imports X509Host
begin

text \<open>
  Certificates checked against a name (crypto/x509v3/v3_utl.c, with the search in a subject of
  crypto/x509/x509name.c): \<open>do_check_string\<close>, \<open>do_x509_check\<close>, \<open>X509_check_host\<close>, \<open>X509_check_email\<close>,
  \<open>X509_check_ip\<close>.

  A certificate is a record of what this code reads: the subject, the names that \<open>X509_get_ext_d2i\<close>
  decodes from its subject alternative name extension, the copy of them that is cached in \<open>altname\<close>,
  its name constraints and its flags. An \<open>ASN1_OBJECT\<close> is its encoding, \<open>OBJ_nid2obj\<close> has the rows of its table
  for the two attribute types that this code asks for.
\<close>

section \<open>Certificates\<close>

definition GEN_EMAIL :: int where "GEN_EMAIL = 1"
definition GEN_DNS :: int where "GEN_DNS = 2"
definition GEN_DIRNAME :: int where "GEN_DIRNAME = 4"
definition GEN_URI :: int where "GEN_URI = 6"
definition GEN_IPADD :: int where "GEN_IPADD = 7"

lemmas gen_defs = GEN_EMAIL_def GEN_DNS_def GEN_DIRNAME_def GEN_URI_def GEN_IPADD_def

record x509_name_entry =
  ne_object :: bytes
  ne_value :: asn1_string

record x509_name =
  xn_entries :: "x509_name_entry list"
  xn_modified :: bool
  xn_canon_enc :: bytes

text \<open>The \<open>type\<close> of a \<open>GENERAL_NAME\<close> is the constructor; the types without a case here keep their number.\<close>

datatype general_name =
  rfc822Name asn1_string | dNSName asn1_string | uniformResourceIdentifier asn1_string | iPAddress asn1_string
| directoryName x509_name | other_name int

fun gen_type :: "general_name \<Rightarrow> int" where
  "gen_type (rfc822Name _) = GEN_EMAIL"
| "gen_type (dNSName _) = GEN_DNS"
| "gen_type (uniformResourceIdentifier _) = GEN_URI"
| "gen_type (iPAddress _) = GEN_IPADD"
| "gen_type (directoryName _) = GEN_DIRNAME"
| "gen_type (other_name ty) = ty"

record general_subtree =
  gs_base :: general_name
  gs_minimum :: "asn1_string option"
  gs_maximum :: "asn1_string option"

record name_constraints =
  permittedSubtrees :: "general_subtree list"
  excludedSubtrees :: "general_subtree list"

record x509 =
  x_subject :: x509_name
  x_alt_ext :: "general_name list option"
  x_altname :: "general_name list option"
  x_nc :: "name_constraints option"
  x_ex_flags :: u64

section \<open>Entries of a subject\<close>

definition NID_undef :: int where "NID_undef = 0"

definition OBJ_nid2obj :: "int \<Rightarrow> bytes option" where
  "OBJ_nid2obj nid =
     (if nid = NID_commonName then Some [0x55, 0x04, 0x03]
      else if nid = NID_pkcs9_emailAddress then Some [0x2A, 0x86, 0x48, 0x86, 0xF7, 0x0D, 0x01, 0x09, 0x01]
      else None)"

definition OBJ_cmp :: "bytes \<Rightarrow> bytes \<Rightarrow> int" where
  "OBJ_cmp a b = (let ret = int (length a) - int (length b) in if ret \<noteq> 0 then ret else OPENSSL_memcmp a b)"

function index_loop :: "x509_name_entry list \<Rightarrow> bytes \<Rightarrow> nat \<Rightarrow> int" where
  "index_loop sk obj lastpos =
     (if lastpos < length sk then
        (if OBJ_cmp (ne_object (sk ! lastpos)) obj = 0 then int lastpos else index_loop sk obj (lastpos + 1))
      else - 1)"
  by pat_completeness auto
termination by (relation "measure (\<lambda>(sk, _, i). length sk - i)") auto

declare index_loop.simps [simp del]

definition X509_NAME_get_index_by_OBJ :: "x509_name \<Rightarrow> bytes \<Rightarrow> int \<Rightarrow> int" where
  "X509_NAME_get_index_by_OBJ name obj lastpos =
     (let lastpos = (if lastpos < 0 then - 1 else lastpos) in
      index_loop (xn_entries name) obj (nat (lastpos + 1)))"

definition X509_NAME_get_index_by_NID :: "x509_name \<Rightarrow> int \<Rightarrow> int \<Rightarrow> int" where
  "X509_NAME_get_index_by_NID name nid lastpos =
     (case OBJ_nid2obj nid of
        None \<Rightarrow> - 2
      | Some obj \<Rightarrow> X509_NAME_get_index_by_OBJ name obj lastpos)"

definition X509_NAME_get_entry :: "x509_name \<Rightarrow> int \<Rightarrow> x509_name_entry option" where
  "X509_NAME_get_entry name loc =
     (if loc < 0 \<or> int (length (xn_entries name)) \<le> loc then None else Some (xn_entries name ! nat loc))"

lemma index_loop_less:
  "i < length sk \<Longrightarrow> OBJ_cmp (ne_object (sk ! i)) obj = 0 \<Longrightarrow> index_loop sk obj i = int i"
  "i < length sk \<Longrightarrow> OBJ_cmp (ne_object (sk ! i)) obj \<noteq> 0 \<Longrightarrow> index_loop sk obj i = index_loop sk obj (Suc i)"
  "\<not> i < length sk \<Longrightarrow> index_loop sk obj i = - 1"
  by (simp_all add: index_loop.simps [of sk obj i])

lemma index_loop_range:
  "0 \<le> index_loop sk obj i \<Longrightarrow> int i \<le> index_loop sk obj i \<and> index_loop sk obj i < int (length sk)"
proof (induction sk obj i rule: index_loop.induct)
  case (1 sk obj i)
  then show ?case
    by (cases "i < length sk"; cases "OBJ_cmp (ne_object (sk ! i)) obj = 0") (auto simp: index_loop_less)
qed

lemma get_index_range:
  assumes "0 \<le> X509_NAME_get_index_by_NID name nid j"
  shows "j < X509_NAME_get_index_by_NID name nid j
    \<and> X509_NAME_get_index_by_NID name nid j < int (length (xn_entries name))"
proof -
  let ?l = "(if j < 0 then - 1 else j) + 1"
  obtain obj where obj: "OBJ_nid2obj nid = Some obj"
    using assms by (auto simp: X509_NAME_get_index_by_NID_def split: option.splits)
  then have "X509_NAME_get_index_by_NID name nid j = index_loop (xn_entries name) obj (nat ?l)"
    by (simp add: X509_NAME_get_index_by_NID_def X509_NAME_get_index_by_OBJ_def Let_def)
  moreover have "j < int (nat ?l)" by simp
  ultimately show ?thesis using assms index_loop_range [of "xn_entries name" obj "nat ?l"] by linarith
qed

text \<open>
  The loop over the entries of an attribute type from the index \<open>j\<close> on; \<open>f\<close> is what the body returns for the value of
  an entry, \<open>None\<close> where it goes on.
\<close>

lemma get_index_measure:
  "0 \<le> X509_NAME_get_index_by_NID name nid j \<Longrightarrow>
     nat (int (length (xn_entries name)) - X509_NAME_get_index_by_NID name nid j) < nat (int (length (xn_entries name)) - j)"
  using get_index_range [of name nid j] by simp

function name_loop :: "(asn1_string \<Rightarrow> 'r option) \<Rightarrow> x509_name \<Rightarrow> int \<Rightarrow> int \<Rightarrow> 'r option" where
  "name_loop f name nid j =
     (let i = X509_NAME_get_index_by_NID name nid j in
      if i < 0 then None
      else
        (case X509_NAME_get_entry name i of
           None \<Rightarrow> None
         | Some ne \<Rightarrow> (case f (ne_value ne) of Some r \<Rightarrow> Some r | None \<Rightarrow> name_loop f name nid i)))"
  by pat_completeness auto
termination
  by (relation "measure (\<lambda>(f, name, nid, j). nat (int (length (xn_entries name)) - j))")
     (simp_all only: in_measure split_conv wf_measure get_index_measure not_less)

declare name_loop.simps [simp del]

fun first_some :: "('a \<Rightarrow> 'r option) \<Rightarrow> 'a list \<Rightarrow> 'r option" where
  "first_some f [] = None"
| "first_some f (x # xs) = (case f x of Some r \<Rightarrow> Some r | None \<Rightarrow> first_some f xs)"

lemma first_some_None: "first_some f xs = None \<longleftrightarrow> (\<forall>x\<in>set xs. f x = None)"
  by (induction xs) (auto split: option.splits)

lemma first_some_Some: "first_some f xs = Some r \<Longrightarrow> \<exists>x\<in>set xs. f x = Some r"
  by (induction xs) (auto split: option.splits)

text \<open>The values of the attribute type with the object \<open>obj\<close>.\<close>

definition values_of :: "bytes \<Rightarrow> x509_name_entry list \<Rightarrow> asn1_string list" where
  "values_of obj es = map ne_value (filter (\<lambda>e. OBJ_cmp (ne_object e) obj = 0) es)"

lemma name_loop_values:
  assumes obj: "OBJ_nid2obj nid = Some obj" and j: "- 1 \<le> j"
  shows "name_loop f name nid j = first_some f (values_of obj (drop (nat (j + 1)) (xn_entries name)))"
  using j
proof (induction "length (xn_entries name) - nat (j + 1)" arbitrary: j rule: less_induct)
  case (less j)
  let ?es = "xn_entries name"
  have i: "X509_NAME_get_index_by_NID name nid j' = index_loop ?es obj (nat (j' + 1))" if "- 1 \<le> j'" for j'
    using obj that by (auto simp: X509_NAME_get_index_by_NID_def X509_NAME_get_index_by_OBJ_def Let_def)
  show ?case
  proof (cases "nat (j + 1) < length ?es")
    case False
    then show ?thesis
      using less.prems by (subst name_loop.simps) (simp add: i index_loop_less values_of_def)
  next
    case True
    then have d: "drop (nat (j + 1)) ?es = ?es ! nat (j + 1) # drop (nat (j + 1 + 1)) ?es"
      using less.prems by (simp only: nat_add_distrib) (simp add: Cons_nth_drop_Suc)
    have IH: "name_loop f name nid (j + 1) = first_some f (values_of obj (drop (nat (j + 1 + 1)) ?es))"
      using less.hyps [of "j + 1"] less.prems True by simp
    show ?thesis
    proof (cases "OBJ_cmp (ne_object (?es ! nat (j + 1))) obj = 0")
      case eq: True
      then have "X509_NAME_get_index_by_NID name nid j = j + 1"
        using True less.prems by (simp add: i index_loop_less)
      moreover have "\<not> j + 1 < 0" "\<not> int (length ?es) \<le> j + 1" using True less.prems by linarith+
      ultimately show ?thesis
        using eq IH
        by (subst name_loop.simps) (simp add: X509_NAME_get_entry_def d values_of_def Let_def split: option.split)
    next
      case False
      have "nat (j + 1 + 1) = Suc (nat (j + 1))" using less.prems by (simp add: Suc_nat_eq_nat_zadd1)
      with False have "X509_NAME_get_index_by_NID name nid j = X509_NAME_get_index_by_NID name nid (j + 1)"
        using True less.prems by (simp only: i) (simp add: i index_loop_less)
      then have "name_loop f name nid j = name_loop f name nid (j + 1)"
        by (subst (1 2) name_loop.simps) simp
      with IH False show ?thesis by (simp add: d values_of_def)
    qed
  qed
qed

section \<open>The code: strings of a certificate\<close>

definition OPENSSL_strndup :: "allocator \<Rightarrow> bytes \<Rightarrow> bytes option" where
  "OPENSSL_strndup al str =
     (let size = OPENSSL_strnlen str; alloc_size = of_nat size + 1 :: u64 in
      if alloc_size < of_nat size then None
      else map_option (\<lambda>ret. take size str @ [0]) (al alloc_size))"

text \<open>
  \<open>do_check_string\<close>: the result and, where it is written, the new \<open>*peername\<close>; \<open>want\<close> is whether the
  caller gave a \<open>peername\<close>. \<open>(int)blen\<close> wraps around.
\<close>

definition do_check_string ::
  "allocator \<Rightarrow> asn1_string \<Rightarrow> int \<Rightarrow> (u32 \<Rightarrow> bytes \<Rightarrow> bytes \<Rightarrow> bool) \<Rightarrow> u32 \<Rightarrow> int \<Rightarrow> bytes \<Rightarrow> bool \<Rightarrow> int \<times> bytes option option" where
  "do_check_string al a cmp_type equal flags check_type b want =
     (if as_data a = None \<or> as_length a = 0 then (0, None)
      else if cmp_type > 0 then
        (if cmp_type \<noteq> as_type a then (0, None)
         else
           (let rv = (if cmp_type = V_ASN1_IA5STRING then equal flags (contents_of a) b
                      else as_length a = to_int (int (length b)) \<and> OPENSSL_memcmp (block_of a) b = 0)
            in (if rv then 1 else 0, if rv \<and> want then Some (OPENSSL_strndup al (contents_of a)) else None)))
      else
        (case ASN1_STRING_to_UTF8 al (Some a) of
           None \<Rightarrow> (- 1, None)
         | Some (out, astrlen) \<Rightarrow>
             (let astr = take (nat astrlen) (case out of None \<Rightarrow> [] | Some d \<Rightarrow> d);
                  rv = (if check_type = GEN_DNS \<and> \<not> x509v3_looks_like_dns_name astr then False
                        else equal flags astr b)
              in (if rv then 1 else 0, if rv \<and> want then Some (OPENSSL_strndup al astr) else None))))"

text \<open>The string of a name that has the type \<open>check_type\<close>.\<close>

fun gen_string :: "general_name \<Rightarrow> asn1_string option" where
  "gen_string (rfc822Name s) = Some s"
| "gen_string (dNSName s) = Some s"
| "gen_string (iPAddress s) = Some s"
| "gen_string _ = None"

fun alt_loop :: "(asn1_string \<Rightarrow> int \<times> bytes option option) \<Rightarrow> int \<Rightarrow> general_name list \<Rightarrow> int \<times> bytes option option" where
  "alt_loop check check_type [] = (0, None)"
| "alt_loop check check_type (gen # gens) =
     (if gen_type gen \<noteq> check_type then alt_loop check check_type gens
      else
        (case gen_string gen of
           None \<Rightarrow> alt_loop check check_type gens
         | Some cstr \<Rightarrow>
             (case check cstr of (rv, peer) \<Rightarrow>
                if rv \<noteq> 0 then (rv, peer) else alt_loop check check_type gens)))"

definition do_x509_check ::
  "allocator \<Rightarrow> x509 \<Rightarrow> bytes \<Rightarrow> u32 \<Rightarrow> int \<Rightarrow> bool \<Rightarrow> int \<times> bytes option option" where
  "do_x509_check al x chk flags0 check_type want =
     (let flags1 = flags0 AND NOT X509_CHECK_FLAG_DOT_SUBDOMAINS;
          flags = (if check_type = GEN_DNS \<and> length chk > 1 \<and> hd chk = c_dot
                   then flags1 OR X509_CHECK_FLAG_DOT_SUBDOMAINS else flags1);
          (cnid, alt_type, equal) =
            (if check_type = GEN_EMAIL then (NID_pkcs9_emailAddress, V_ASN1_IA5STRING, equal_email)
             else if check_type = GEN_DNS then
               (NID_commonName, V_ASN1_IA5STRING,
                if flags AND X509_CHECK_FLAG_NO_WILDCARDS \<noteq> 0 then equal_nocase else equal_wildcard)
             else (NID_undef, V_ASN1_OCTET_STRING, equal_case))
      in case x_alt_ext x of
           Some gens \<Rightarrow>
             alt_loop (\<lambda>cstr. do_check_string al cstr alt_type equal flags check_type chk want) check_type gens
         | None \<Rightarrow>
             if cnid = NID_undef \<or> flags AND X509_CHECK_FLAG_NEVER_CHECK_SUBJECT \<noteq> 0 then (0, None)
             else
               (case name_loop
                       (\<lambda>str. case do_check_string al str (- 1) equal flags check_type chk want of
                                (rv, peer) \<Rightarrow> if rv \<noteq> 0 then Some (rv, peer) else None)
                       (x_subject x) cnid (- 1) of
                  Some r \<Rightarrow> r
                | None \<Rightarrow> (0, None)))"

definition X509_check_host :: "allocator \<Rightarrow> x509 \<Rightarrow> bytes option \<Rightarrow> u32 \<Rightarrow> bool \<Rightarrow> int \<times> bytes option option" where
  "X509_check_host al x chk flags want =
     (case chk of
        None \<Rightarrow> (- 2, None)
      | Some chk \<Rightarrow> if OPENSSL_memchr chk 0 \<noteq> None then (- 2, None) else do_x509_check al x chk flags GEN_DNS want)"

definition X509_check_email :: "allocator \<Rightarrow> x509 \<Rightarrow> bytes option \<Rightarrow> u32 \<Rightarrow> int" where
  "X509_check_email al x chk flags =
     (case chk of
        None \<Rightarrow> - 2
      | Some chk \<Rightarrow> if OPENSSL_memchr chk 0 \<noteq> None then - 2 else fst (do_x509_check al x chk flags GEN_EMAIL False))"

definition X509_check_ip :: "allocator \<Rightarrow> x509 \<Rightarrow> bytes option \<Rightarrow> u32 \<Rightarrow> int" where
  "X509_check_ip al x chk flags =
     (case chk of None \<Rightarrow> - 2 | Some chk \<Rightarrow> fst (do_x509_check al x chk flags GEN_IPADD False))"

section \<open>Host names\<close>

lemma flags_kept:
  "(flags AND NOT X509_CHECK_FLAG_DOT_SUBDOMAINS) AND X509_CHECK_FLAG_NO_WILDCARDS = flags AND X509_CHECK_FLAG_NO_WILDCARDS"
  "(flags AND NOT X509_CHECK_FLAG_DOT_SUBDOMAINS) AND X509_CHECK_FLAG_NO_PARTIAL_WILDCARDS = flags AND X509_CHECK_FLAG_NO_PARTIAL_WILDCARDS"
  "(flags AND NOT X509_CHECK_FLAG_DOT_SUBDOMAINS) AND X509_CHECK_FLAG_MULTI_LABEL_WILDCARDS = flags AND X509_CHECK_FLAG_MULTI_LABEL_WILDCARDS"
  "(flags AND NOT X509_CHECK_FLAG_DOT_SUBDOMAINS) AND X509_CHECK_FLAG_NEVER_CHECK_SUBJECT = flags AND X509_CHECK_FLAG_NEVER_CHECK_SUBJECT"
  "(flags AND NOT X509_CHECK_FLAG_DOT_SUBDOMAINS) AND X509_CHECK_FLAG_DOT_SUBDOMAINS = 0"
  unfolding and.assoc X509_CHECK_FLAG_DOT_SUBDOMAINS_def X509_CHECK_FLAG_NO_WILDCARDS_def
    X509_CHECK_FLAG_NO_PARTIAL_WILDCARDS_def X509_CHECK_FLAG_MULTI_LABEL_WILDCARDS_def X509_CHECK_FLAG_NEVER_CHECK_SUBJECT_def
  by simp_all

text \<open>A name of a certificate matches a host: the same name, or a wildcard over it.\<close>

definition dns_match :: "u32 \<Rightarrow> bytes \<Rightarrow> bytes \<Rightarrow> bool" where
  "dns_match flags p h \<longleftrightarrow>
     same_name p h
     \<or> flags AND X509_CHECK_FLAG_NO_WILDCARDS = 0
       \<and> (\<exists>u v ls. labels p = (u @ c_star # v) # ls \<and> star_labels flags u v ls \<and> wild_match u v ls h)"

definition ia5_text :: "asn1_string \<Rightarrow> bool" where
  "ia5_text s \<longleftrightarrow> as_type s = V_ASN1_IA5STRING \<and> contents_of s \<noteq> []"

definition dns_names :: "general_name list \<Rightarrow> asn1_string list" where
  "dns_names gens = concat (map (\<lambda>g. case g of dNSName s \<Rightarrow> [s] | _ \<Rightarrow> []) gens)"

lemma contents_nonempty: "string_ok s \<Longrightarrow> contents_of s \<noteq> [] \<longleftrightarrow> as_data s \<noteq> None \<and> as_length s \<noteq> 0"
  by (auto simp: string_ok_def contents_of_def block_of_def split: option.splits)

lemma check_string_ia5:
  "string_ok a \<Longrightarrow>
     do_check_string al a V_ASN1_IA5STRING equal flags ty b want =
       (if ia5_text a \<and> equal flags (contents_of a) b
        then (1, if want then Some (OPENSSL_strndup al (contents_of a)) else None) else (0, None))"
  by (auto simp: do_check_string_def ia5_text_def contents_nonempty Let_def)
     (auto simp: V_ASN1_IA5STRING_def)

definition gen_ok :: "general_name \<Rightarrow> bool" where
  "gen_ok g \<longleftrightarrow> (case gen_string g of None \<Rightarrow> True | Some s \<Rightarrow> string_ok s)
     \<and> (\<forall>ty. g = other_name ty \<longrightarrow> ty \<notin> {GEN_EMAIL, GEN_DNS, GEN_DIRNAME, GEN_URI, GEN_IPADD})"

lemma alt_loop_dns:
  "\<forall>g\<in>set gens. gen_ok g \<Longrightarrow>
     alt_loop (\<lambda>s. do_check_string al s V_ASN1_IA5STRING equal flags GEN_DNS b want) GEN_DNS gens =
       (case find (\<lambda>s. ia5_text s \<and> equal flags (contents_of s) b) (dns_names gens) of
          Some s \<Rightarrow> (1, if want then Some (OPENSSL_strndup al (contents_of s)) else None)
        | None \<Rightarrow> (0, None))"
proof (induction gens)
  case (Cons g gens)
  then show ?case
    by (cases g) (auto simp: dns_names_def gen_defs check_string_ia5 gen_ok_def split: option.splits)
qed (simp add: dns_names_def)

text \<open>The function by which \<open>X509_check_host\<close> compares names.\<close>

definition host_equal :: "u32 \<Rightarrow> u32 \<Rightarrow> bytes \<Rightarrow> bytes \<Rightarrow> bool" where
  "host_equal flags = (if flags AND X509_CHECK_FLAG_NO_WILDCARDS \<noteq> 0 then equal_nocase else equal_wildcard)"

text \<open>
  A name of a certificate matches what is asked for: a host, or with a full stop at its start the names below a domain.
\<close>

definition host_match :: "u32 \<Rightarrow> bytes \<Rightarrow> bytes \<Rightarrow> bool" where
  "host_match flags p h =
     (if 1 < length h \<and> hd h = c_dot then sub_domain flags p h else dns_match flags p h)"

text \<open>The flags with which \<open>do_x509_check\<close> compares the names.\<close>

definition host_flags :: "u32 \<Rightarrow> bytes \<Rightarrow> u32" where
  "host_flags flags h =
     (if 1 < length h \<and> hd h = c_dot then (flags AND NOT X509_CHECK_FLAG_DOT_SUBDOMAINS) OR X509_CHECK_FLAG_DOT_SUBDOMAINS
      else flags AND NOT X509_CHECK_FLAG_DOT_SUBDOMAINS)"

lemma flags_dot:
  "((flags AND NOT X509_CHECK_FLAG_DOT_SUBDOMAINS) OR X509_CHECK_FLAG_DOT_SUBDOMAINS) AND X509_CHECK_FLAG_SINGLE_LABEL_SUBDOMAINS
     = flags AND X509_CHECK_FLAG_SINGLE_LABEL_SUBDOMAINS"
  "((flags AND NOT X509_CHECK_FLAG_DOT_SUBDOMAINS) OR X509_CHECK_FLAG_DOT_SUBDOMAINS) AND X509_CHECK_FLAG_DOT_SUBDOMAINS \<noteq> 0"
  unfolding bit.conj_disj_distrib2 and.assoc X509_CHECK_FLAG_DOT_SUBDOMAINS_def X509_CHECK_FLAG_SINGLE_LABEL_SUBDOMAINS_def
  by simp_all

lemma host_equal_match:
  assumes "flags AND X509_CHECK_FLAG_MULTI_LABEL_WILDCARDS = 0"
  shows "host_equal (host_flags flags h) (host_flags flags h) p h \<longleftrightarrow> host_match flags p h"
proof (cases "1 < length h \<and> hd h = c_dot")
  case True
  let ?f = "(flags AND NOT X509_CHECK_FLAG_DOT_SUBDOMAINS) OR X509_CHECK_FLAG_DOT_SUBDOMAINS"
  have "host_equal ?f ?f p h = equal_nocase ?f p h" using True by (simp add: host_equal_def equal_wildcard_def)
  also have "\<dots> = sub_domain flags p h"
    unfolding equal_nocase_sub_domain [OF flags_dot(2)] sub_domain_def flags_dot(1) ..
  finally show ?thesis using True by (simp add: host_match_def host_flags_def)
next
  case False
  let ?f = "flags AND NOT X509_CHECK_FLAG_DOT_SUBDOMAINS"
  have "?f AND X509_CHECK_FLAG_MULTI_LABEL_WILDCARDS = 0" "?f AND X509_CHECK_FLAG_DOT_SUBDOMAINS = 0"
    using assms by (simp_all only: flags_kept)
  moreover have "star_labels ?f = star_labels flags" by (intro ext) (simp only: star_labels_def flags_kept)
  ultimately have "host_equal ?f ?f p h = dns_match flags p h"
    using False by (simp add: host_equal_def dns_match_def flags_kept equal_nocase_iff equal_wildcard_iff)
  then show ?thesis unfolding host_match_def host_flags_def if_not_P [OF False] .
qed

lemma memchr_zero: "OPENSSL_memchr h 0 \<noteq> None \<longleftrightarrow> 0 \<in> set h"
proof -
  have "length (takeWhile (\<lambda>b. b \<noteq> 0) h) < length h \<longleftrightarrow> 0 \<in> set h"
    by (induction h) auto
  then show ?thesis by (simp add: OPENSSL_memchr_def Let_def)
qed

lemma X509_check_host_iff:
  assumes san: "x_alt_ext x = Some gens" "\<forall>g\<in>set gens. gen_ok g"
    and h: "0 \<notin> set h" and single: "flags AND X509_CHECK_FLAG_MULTI_LABEL_WILDCARDS = 0"
  shows "X509_check_host al x (Some h) flags want =
    (case find (\<lambda>s. ia5_text s \<and> host_match flags (contents_of s) h) (dns_names gens) of
       Some s \<Rightarrow> (1, if want then Some (OPENSSL_strndup al (contents_of s)) else None)
     | None \<Rightarrow> (0, None))"
proof -
  let ?f = "host_flags flags h"
  have "\<not> OPENSSL_memchr h 0 \<noteq> None" unfolding memchr_zero using h .
  then have "X509_check_host al x (Some h) flags want = do_x509_check al x h flags GEN_DNS want"
    by (simp add: X509_check_host_def)
  also have "\<dots> = alt_loop (\<lambda>s. do_check_string al s V_ASN1_IA5STRING (host_equal ?f) ?f GEN_DNS h want) GEN_DNS gens"
    by (auto simp: do_x509_check_def san(1) host_equal_def host_flags_def gen_defs Let_def)
  finally show ?thesis unfolding alt_loop_dns [OF san(2)] host_equal_match [OF single] .
qed

text \<open>
  C5. For a certificate with a subject alternative name extension of well-formed names, a host without NUL bytes and flags
  without multi-label wildcards, \<open>X509_check_host\<close> returns 1 exactly when one of the DNS names of the extension is a
  non-empty IA5String that matches, and 0 otherwise; no other name and no common name counts. A name matches a host if it
  is the host or a wildcard over it; it matches a host that starts with a full stop if it ends in it (with the flag for
  single labels, after one label). A name with a NUL byte matches nothing. The first name that matches is the one that is
  copied to \<open>peername\<close>.
\<close>

theorem X509_check_host_exact:
  assumes san: "x_alt_ext x = Some gens" "\<forall>g\<in>set gens. gen_ok g"
    and h: "0 \<notin> set h" and single: "flags AND X509_CHECK_FLAG_MULTI_LABEL_WILDCARDS = 0"
  shows "X509_check_host al x (Some h) flags want =
    (case find (\<lambda>s. ia5_text s \<and> host_match flags (contents_of s) h) (dns_names gens) of
       Some s \<Rightarrow> (1, if want then Some (OPENSSL_strndup al (contents_of s)) else None)
     | None \<Rightarrow> (0, None))"
  by (rule X509_check_host_iff [OF assms])

definition ia5 :: "bytes \<Rightarrow> asn1_string" where
  "ia5 t = \<lparr>as_length = int (length t), as_type = V_ASN1_IA5STRING, as_data = Some (t @ [0]), as_flags = 0\<rparr>"

lemma ia5_simps [simp]: "contents_of (ia5 t) = t" "as_type (ia5 t) = V_ASN1_IA5STRING"
  by (simp_all add: ia5_def contents_of_def block_of_def)

lemma ia5_ok: "length t < 100 \<Longrightarrow> string_ok (ia5 t)"
  by (simp add: string_ok_def ia5_def block_of_def INT_MAX_def)

text \<open>A certificate for \<open>*.a.b\<close>, and the host \<open>x.a.b\<close>.\<close>

definition example_leaf :: x509 where
  "example_leaf = \<lparr>x_subject = \<lparr>xn_entries = [], xn_modified = False, xn_canon_enc = []\<rparr>,
     x_alt_ext = Some [dNSName (ia5 [0x2A, 0x2E, 0x61, 0x2E, 0x62])],
     x_altname = Some [dNSName (ia5 [0x2A, 0x2E, 0x61, 0x2E, 0x62])], x_nc = None, x_ex_flags = 0\<rparr>"

definition example_host :: bytes where "example_host = [0x78, 0x2E, 0x61, 0x2E, 0x62]"

theorem X509_check_host_exact_witness:
  "X509_check_host (\<lambda>_. None) example_leaf (Some example_host) 0 True = (1, Some None)
   \<and> find (\<lambda>s. ia5_text s \<and> host_match 0 (contents_of s) example_host) [ia5 [0x2A, 0x2E, 0x61, 0x2E, 0x62]] \<noteq> None"
proof -
  let ?g = "dNSName (ia5 [0x2A, 0x2E, 0x61, 0x2E, 0x62])"
  have c: "X509_check_host (\<lambda>_. None) example_leaf (Some example_host) 0 True = (1, Some None)" by code_simp
  have "x_alt_ext example_leaf = Some [?g]" "\<forall>g\<in>set [?g]. gen_ok g" "0 \<notin> set example_host"
    by (simp_all add: example_leaf_def example_host_def gen_ok_def ia5_ok)
  from X509_check_host_exact [OF this, of 0 "\<lambda>_. None" True] c show ?thesis
    by (auto simp: dns_names_def simp del: find.simps split: option.splits)
qed

definition cn_object :: bytes where "cn_object = [0x55, 0x04, 0x03]"

definition utf8_text :: "bytes option \<times> int \<Rightarrow> bytes" where
  "utf8_text r = (case r of (out, astrlen) \<Rightarrow> take (nat astrlen) (case out of None \<Rightarrow> [] | Some d \<Rightarrow> d))"

lemma common_names: "name_loop f name NID_commonName (- 1) = first_some f (values_of cn_object (xn_entries name))"
  by (subst name_loop_values) (simp_all add: OBJ_nid2obj_def cn_object_def)

text \<open>Without alternative names, a host only matches a common name that looks like a DNS name.\<close>

lemma X509_check_host_common_name:
  assumes "x_alt_ext x = None" "0 < fst (X509_check_host al x (Some h) flags want)"
  shows "\<exists>s\<in>set (values_of cn_object (xn_entries (x_subject x))). \<exists>r.
    ASN1_STRING_to_UTF8 al (Some s) = Some r \<and> x509v3_looks_like_dns_name (utf8_text r)"
proof -
  obtain eq f where "0 < fst (case name_loop
                       (\<lambda>str. case do_check_string al str (- 1) eq f GEN_DNS h want of
                                (rv, peer) \<Rightarrow> if rv \<noteq> 0 then Some (rv, peer) else None)
                       (x_subject x) NID_commonName (- 1) of Some r \<Rightarrow> r | None \<Rightarrow> (0, None))"
    using assms by (auto simp: X509_check_host_def do_x509_check_def Let_def gen_defs split: if_splits)
  then obtain r where "0 < fst r" "first_some (\<lambda>str. case do_check_string al str (- 1) eq f GEN_DNS h want of
                                (rv, peer) \<Rightarrow> if rv \<noteq> 0 then Some (rv, peer) else None)
        (values_of cn_object (xn_entries (x_subject x))) = Some r"
    by (auto simp: common_names split: option.splits)
  then obtain s where s: "s \<in> set (values_of cn_object (xn_entries (x_subject x)))"
      "0 < fst (do_check_string al s (- 1) eq f GEN_DNS h want)"
    by (auto dest!: first_some_Some split: prod.splits if_splits)
  from s(2) have "\<exists>r. ASN1_STRING_to_UTF8 al (Some s) = Some r \<and> x509v3_looks_like_dns_name (utf8_text r)"
    by (auto simp: do_check_string_def utf8_text_def Let_def split: if_splits option.splits)
  with s(1) show ?thesis by blast
qed

section \<open>Addresses\<close>

definition ip_strings :: "general_name list \<Rightarrow> asn1_string list" where
  "ip_strings gens = concat (map (\<lambda>g. case g of iPAddress s \<Rightarrow> [s] | _ \<Rightarrow> []) gens)"

lemma memcmp_prefix: "length xs = length b \<Longrightarrow> OPENSSL_memcmp (xs @ ys) b = OPENSSL_memcmp xs b"
  by (induction xs b rule: list_induct2) auto

lemma check_string_ip:
  assumes ok: "string_ok a" and b: "b \<noteq> []" "int (length b) < 2147483648"
  shows "fst (do_check_string al a V_ASN1_OCTET_STRING equal flags ty b False) =
    (if as_type a = V_ASN1_OCTET_STRING \<and> contents_of a = b then 1 else 0)"
proof -
  have len: "to_int (int (length b)) = int (length b)" using b(2) by (simp add: to_int_id)
  have c: "contents_of a = b \<longleftrightarrow> as_length a = int (length b) \<and> OPENSSL_memcmp (block_of a) b = 0"
  proof (cases "as_length a = int (length b)")
    case True
    then have l: "length (contents_of a) = length b" using ok by simp
    have "contents_of a @ drop (nat (as_length a)) (block_of a) = block_of a" by (simp add: contents_of_def)
    then have "OPENSSL_memcmp (block_of a) b = OPENSSL_memcmp (contents_of a) b"
      using memcmp_prefix [OF l, of "drop (nat (as_length a)) (block_of a)"] by (simp only:)
    with True memcmp_sign [OF l] show ?thesis by simp
  next
    case False
    have "length (contents_of a) = nat (as_length a)" "0 \<le> as_length a" using ok by (simp_all add: string_ok_def)
    with False have "length (contents_of a) \<noteq> length b" by simp
    with False show ?thesis by auto
  qed
  have n: "contents_of a = b \<Longrightarrow> as_data a \<noteq> None \<and> as_length a \<noteq> 0" using contents_nonempty [OF ok] b(1) by simp
  have "0 < V_ASN1_OCTET_STRING" "V_ASN1_OCTET_STRING \<noteq> V_ASN1_IA5STRING"
    by (simp_all add: V_ASN1_OCTET_STRING_def V_ASN1_IA5STRING_def)
  then have "fst (do_check_string al a V_ASN1_OCTET_STRING equal flags ty b False) =
      (if as_data a \<noteq> None \<and> as_length a \<noteq> 0 \<and> as_type a = V_ASN1_OCTET_STRING
          \<and> (as_length a = int (length b) \<and> OPENSSL_memcmp (block_of a) b = 0) then 1 else 0)"
    unfolding do_check_string_def len Let_def by auto
  with n show ?thesis unfolding c [symmetric] by auto
qed

text \<open>An address matches when the certificate lists exactly these bytes.\<close>

lemma X509_check_ip_exact:
  assumes "x_alt_ext x = Some gens" "\<forall>g\<in>set gens. gen_ok g" "b \<noteq> []" "int (length b) < 2147483648"
  shows "X509_check_ip al x (Some b) flags =
    (if \<exists>s\<in>set (ip_strings gens). as_type s = V_ASN1_OCTET_STRING \<and> contents_of s = b then 1 else 0)"
proof -
  let ?f = "flags AND NOT X509_CHECK_FLAG_DOT_SUBDOMAINS"
  have "fst (alt_loop (\<lambda>s. do_check_string al s V_ASN1_OCTET_STRING equal_case ?f GEN_IPADD b False) GEN_IPADD gens) =
      (if \<exists>s\<in>set (ip_strings gens). as_type s = V_ASN1_OCTET_STRING \<and> contents_of s = b then 1 else 0)"
    using assms(2)
  proof (induction gens)
    case (Cons g gens)
    show ?case
    proof (cases "\<exists>s. g = iPAddress s")
      case True
      then obtain s where g: "g = iPAddress s" by blast
      with Cons.prems have "string_ok s" by (simp add: gen_ok_def)
      note s = check_string_ip [OF this assms(3,4), of al equal_case ?f GEN_IPADD]
      obtain rv p where r: "do_check_string al s V_ASN1_OCTET_STRING equal_case ?f GEN_IPADD b False = (rv, p)"
        by (cases "do_check_string al s V_ASN1_OCTET_STRING equal_case ?f GEN_IPADD b False")
      have ips: "ip_strings (g # gens) = s # ip_strings gens" by (simp add: ip_strings_def g)
      show ?thesis
      proof (cases "as_type s = V_ASN1_OCTET_STRING \<and> contents_of s = b")
        case True
        with s r have "rv = 1" by simp
        with r True show ?thesis unfolding ips by (simp add: g)
      next
        case False
        with s r have "rv = 0" by auto
        with r False Cons show ?thesis unfolding ips by (simp add: g)
      qed
    next
      case False
      with Cons show ?thesis by (cases g) (auto simp: ip_strings_def gen_defs gen_ok_def)
    qed
  qed (simp add: ip_strings_def)
  moreover have "GEN_IPADD \<noteq> GEN_EMAIL" "GEN_IPADD \<noteq> GEN_DNS" by (simp_all add: gen_defs)
  ultimately show ?thesis by (simp add: X509_check_ip_def do_x509_check_def assms(1))
qed

end
