(* ===== verification/X509Ip.thy ===== *)
theory X509Ip
  imports X509Check
begin

text \<open>
  IP addresses as text (crypto/x509v3/v3_utl.c), with the list parser of crypto/conf/conf.c that splits an IPv6
  address at its colons: \<open>x509v3_a2i_ipadd\<close>, \<open>X509_check_ip_asc\<close>, \<open>a2i_IPADDRESS\<close>, \<open>a2i_IPADDRESS_NC\<close>.

  A C string is the list of its bytes before the terminator; a pointer into it is the rest of the string.
  \<open>ovf\<close> is what \<open>sscanf\<close> stores for a number that is no \<open>int\<close>, which C leaves undefined.
\<close>

section \<open>The code: lists\<close>

definition isspace :: "u8 \<Rightarrow> bool" where
  "isspace c \<longleftrightarrow> c = 0x20 \<or> (0x09 \<le> c \<and> c \<le> 0x0D)"

definition isdigit :: "u8 \<Rightarrow> bool" where
  "isdigit c \<longleftrightarrow> 0x30 \<le> c \<and> c \<le> 0x39"

definition strchr :: "bytes \<Rightarrow> u8 \<Rightarrow> nat option" where
  "strchr s c = OPENSSL_memchr s c"

lemma strchr_less: "strchr s c = Some i \<Longrightarrow> i < length s"
  by (auto simp: strchr_def OPENSSL_memchr_def Let_def split: if_splits)

text \<open>
  \<open>CONF_parse_list\<close> from \<open>lstart\<close> on; the callback gets an element (\<open>None\<close> for \<open>NULL\<close>) as the rest of the list from it on,
  its length, and the caller's data.
\<close>

function CONF_parse_list ::
  "bytes \<Rightarrow> u8 \<Rightarrow> bool \<Rightarrow> (bytes option \<Rightarrow> nat \<Rightarrow> 's \<Rightarrow> int \<times> 's) \<Rightarrow> 's \<Rightarrow> int \<times> 's" where
  "CONF_parse_list lstart0 sep remove_whitespace list_cb arg0 =
     (let lstart = (if remove_whitespace then dropWhile isspace lstart0 else lstart0);
          p = strchr lstart sep;
          (ret, arg) =
            (if p = Some 0 \<or> lstart = [] then list_cb None 0 arg0
             else
               (let elem = (case p of None \<Rightarrow> lstart | Some i \<Rightarrow> take i lstart);
                    elem = (if remove_whitespace then rev (dropWhile isspace (rev elem)) else elem)
                in list_cb (Some lstart) (length elem) arg0))
      in if ret \<le> 0 then (ret, arg)
         else
           (case p of
              None \<Rightarrow> (1, arg)
            | Some i \<Rightarrow> CONF_parse_list (drop (i + 1) lstart) sep remove_whitespace list_cb arg))"
  by pat_completeness auto
termination
proof (relation "measure (\<lambda>(l, _). length l)")
  fix lstart0 sep rw cb arg0 lstart p x i and y :: "int \<times> 's" and ret arg
  assume l: "lstart = (if rw then dropWhile isspace lstart0 else lstart0)" and "p = strchr lstart sep" "p = Some i"
  then have "i < length lstart" by (simp add: strchr_less)
  moreover have "length lstart \<le> length lstart0" by (simp add: l length_dropWhile_le)
  ultimately show "((drop (i + 1) lstart, sep, rw, cb, arg), lstart0, sep, rw, cb, arg0) \<in> measure (\<lambda>(l, _). length l)"
    by simp
qed simp

declare CONF_parse_list.simps [simp del]

section \<open>The code: addresses\<close>

text \<open>The conversion \<open>%d\<close> of \<open>sscanf\<close>: the number and the rest of the string.\<close>

definition scan_d :: "(int \<Rightarrow> int) \<Rightarrow> bytes \<Rightarrow> (int \<times> bytes) option" where
  "scan_d ovf s =
     (let s = dropWhile isspace s;
          neg = (s \<noteq> [] \<and> hd s = 0x2D);
          s = (if s \<noteq> [] \<and> (hd s = 0x2B \<or> hd s = 0x2D) then tl s else s);
          ds = takeWhile isdigit s;
          v = foldl (\<lambda>v d. v * 10 + (uint d - 0x30)) 0 ds;
          v = (if neg then - v else v)
      in if ds = [] then None
         else Some (if - INT_MAX - 1 \<le> v \<and> v \<le> INT_MAX then v else ovf v, dropWhile isdigit s))"

text \<open>The character \<open>.\<close> of the format.\<close>

definition scan_dot :: "bytes \<Rightarrow> bytes option" where
  "scan_dot s = (if s \<noteq> [] \<and> hd s = 0x2E then Some (tl s) else None)"

fun scan_dotted :: "(int \<Rightarrow> int) \<Rightarrow> nat \<Rightarrow> bytes \<Rightarrow> int list option" where
  "scan_dotted ovf 0 s = Some []"
| "scan_dotted ovf (Suc n) s =
     (case scan_d ovf s of
        None \<Rightarrow> None
      | Some (a, s) \<Rightarrow>
          if n = 0 then Some [a]
          else (case scan_dot s of None \<Rightarrow> None | Some s \<Rightarrow> map_option ((#) a) (scan_dotted ovf n s)))"

definition ipv4_from_asc :: "(int \<Rightarrow> int) \<Rightarrow> bytes \<Rightarrow> bytes option" where
  "ipv4_from_asc ovf inp =
     (case scan_dotted ovf 4 inp of
        None \<Rightarrow> None
      | Some as \<Rightarrow> if list_ex (\<lambda>a. a < 0 \<or> a > 255) as then None else Some (map word_of_int as))"

fun hex_loop :: "bytes \<Rightarrow> u32 \<Rightarrow> u32 option" where
  "hex_loop [] num = Some num"
| "hex_loop (c # inp) num =
     (let num = push_bit 4 num in
      if c \<ge> 0x30 \<and> c \<le> 0x39 then hex_loop inp (num OR (ucast c - 0x30))
      else if c \<ge> 0x41 \<and> c \<le> 0x46 then hex_loop inp (num OR (ucast c - 0x41 + 10))
      else if c \<ge> 0x61 \<and> c \<le> 0x66 then hex_loop inp (num OR (ucast c - 0x61 + 10))
      else None)"

definition ipv6_hex :: "bytes \<Rightarrow> bytes option" where
  "ipv6_hex inp =
     (if length inp > 4 then None
      else map_option (\<lambda>num. [ucast (drop_bit 8 num), ucast (num AND 0xFF)]) (hex_loop inp 0))"

record ipv6_stat =
  v6_tmp :: bytes
  v6_total :: int
  v6_zero_pos :: int
  v6_zero_cnt :: int

definition ipv6_cb :: "(int \<Rightarrow> int) \<Rightarrow> bytes option \<Rightarrow> nat \<Rightarrow> ipv6_stat \<Rightarrow> int \<times> ipv6_stat" where
  "ipv6_cb ovf elem len s =
     (if v6_total s = 16 then (0, s)
      else if len = 0 then
        (if v6_zero_pos s = - 1 then (1, s\<lparr>v6_zero_pos := v6_total s, v6_zero_cnt := v6_zero_cnt s + 1\<rparr>)
         else if v6_zero_pos s \<noteq> v6_total s then (0, s)
         else (1, s\<lparr>v6_zero_cnt := v6_zero_cnt s + 1\<rparr>))
      else
        (let elem = (case elem of None \<Rightarrow> [] | Some e \<Rightarrow> e) in
         if len > 4 then
           (if v6_total s > 12 then (0, s)
            else if len < length elem then (0, s)
            else
              (case ipv4_from_asc ovf elem of
                 None \<Rightarrow> (0, s)
               | Some b \<Rightarrow>
                   (1, s\<lparr>v6_tmp := store_bytes (v6_tmp s) (nat (v6_total s)) b, v6_total := v6_total s + 4\<rparr>)))
         else
           (case ipv6_hex (take len elem) of
              None \<Rightarrow> (0, s)
            | Some b \<Rightarrow>
                (1, s\<lparr>v6_tmp := store_bytes (v6_tmp s) (nat (v6_total s)) b, v6_total := v6_total s + 2\<rparr>))))"

definition ipv6_from_asc :: "(int \<Rightarrow> int) \<Rightarrow> bytes \<Rightarrow> bytes \<Rightarrow> bytes option" where
  "ipv6_from_asc ovf stack inp =
     (case CONF_parse_list inp 0x3A False (ipv6_cb ovf)
             \<lparr>v6_tmp = stack, v6_total = 0, v6_zero_pos = - 1, v6_zero_cnt = 0\<rparr> of
        (ret, v6stat) \<Rightarrow>
          (let total = v6_total v6stat; zero_pos = v6_zero_pos v6stat; zero_cnt = v6_zero_cnt v6stat; tmp = v6_tmp v6stat in
           if ret = 0 then None
           else if zero_pos = - 1 \<and> total \<noteq> 16 then None
           else if zero_pos \<noteq> - 1 \<and>
             (if total = 16 then True
              else if zero_cnt > 3 then True
              else if zero_cnt = 3 then total > 0
              else if zero_cnt = 2 then zero_pos \<noteq> 0 \<and> zero_pos \<noteq> total
              else zero_pos = 0 \<or> zero_pos = total) then None
           else if zero_pos \<ge> 0 then
             Some (take (nat zero_pos) tmp @ replicate (nat (16 - total)) 0
                   @ (if total \<noteq> zero_pos then take (nat (total - zero_pos)) (drop (nat zero_pos) tmp) else []))
           else Some (take 16 tmp)))"

text \<open>\<open>stack\<close> is the array \<open>tmp\<close> before it is written.\<close>

definition x509v3_a2i_ipadd :: "(int \<Rightarrow> int) \<Rightarrow> bytes \<Rightarrow> bytes \<Rightarrow> bytes option" where
  "x509v3_a2i_ipadd ovf stack ipasc =
     (if strchr ipasc 0x3A \<noteq> None then ipv6_from_asc ovf stack ipasc else ipv4_from_asc ovf ipasc)"

definition X509_check_ip_asc ::
  "allocator \<Rightarrow> (int \<Rightarrow> int) \<Rightarrow> bytes \<Rightarrow> x509 \<Rightarrow> bytes option \<Rightarrow> u32 \<Rightarrow> int" where
  "X509_check_ip_asc al ovf stack x ipasc flags =
     (case ipasc of
        None \<Rightarrow> - 2
      | Some ipasc \<Rightarrow>
          (case x509v3_a2i_ipadd ovf stack ipasc of
             None \<Rightarrow> - 2
           | Some ipout \<Rightarrow> fst (do_x509_check al x ipout flags GEN_IPADD False)))"

definition octets_of :: "allocator \<Rightarrow> bytes \<Rightarrow> asn1_string option" where
  "octets_of al b =
     (case ASN1_STRING_type_new al V_ASN1_OCTET_STRING of
        None \<Rightarrow> None
      | Some ret \<Rightarrow> (case ASN1_STRING_set al ret (Some b) (int (length b)) of (True, ret) \<Rightarrow> Some ret | (False, _) \<Rightarrow> None))"

definition a2i_IPADDRESS :: "allocator \<Rightarrow> (int \<Rightarrow> int) \<Rightarrow> bytes \<Rightarrow> bytes \<Rightarrow> asn1_string option" where
  "a2i_IPADDRESS al ovf stack ipasc =
     (case x509v3_a2i_ipadd ovf stack ipasc of None \<Rightarrow> None | Some ipout \<Rightarrow> octets_of al ipout)"

definition a2i_IPADDRESS_NC :: "allocator \<Rightarrow> (int \<Rightarrow> int) \<Rightarrow> bytes \<Rightarrow> bytes \<Rightarrow> asn1_string option" where
  "a2i_IPADDRESS_NC al ovf stack ipasc =
     (case strchr ipasc 0x2F of
        None \<Rightarrow> None
      | Some p \<Rightarrow>
          if al (of_nat (length ipasc) + 1) = None then None
          else
            (case x509v3_a2i_ipadd ovf stack (take p ipasc) of
               None \<Rightarrow> None
             | Some ip1 \<Rightarrow>
                 (case x509v3_a2i_ipadd ovf stack (drop (p + 1) ipasc) of
                    None \<Rightarrow> None
                  | Some ip2 \<Rightarrow> if length ip1 \<noteq> length ip2 then None else octets_of al (ip1 @ ip2))))"

section \<open>A list as its elements\<close>

fun pieces :: "u8 \<Rightarrow> bytes \<Rightarrow> bytes list" where
  "pieces sep [] = [[]]"
| "pieces sep (c # s) = (if c = sep then [] # pieces sep s else (c # hd (pieces sep s)) # tl (pieces sep s))"

fun joined :: "u8 \<Rightarrow> bytes list \<Rightarrow> bytes" where
  "joined sep [] = []"
| "joined sep [e] = e"
| "joined sep (e # es) = e @ sep # joined sep es"

lemma pieces_nonempty [simp]: "pieces sep s \<noteq> []"
  by (induction s) auto

lemma pieces_none: "sep \<notin> set s \<Longrightarrow> pieces sep s = [s]"
  by (induction s) auto

lemma pieces_append: "sep \<notin> set e \<Longrightarrow> pieces sep (e @ sep # s) = e # pieces sep s"
  by (induction e) auto

lemma joined_Cons: "es \<noteq> [] \<Longrightarrow> joined sep (e # es) = e @ sep # joined sep es"
  by (cases es) auto

lemma joined_pieces [simp]: "joined sep (pieces sep s) = s"
proof (induction s)
  case (Cons c s)
  obtain e es where p: "pieces sep s = e # es" by (cases "pieces sep s") auto
  with Cons show ?case by (cases es) (auto simp: joined_Cons)
qed simp

lemma pieces_joined: "es \<noteq> [] \<Longrightarrow> \<forall>e\<in>set es. sep \<notin> set e \<Longrightarrow> pieces sep (joined sep es) = es"
proof (induction sep es rule: joined.induct)
  case (3 sep e f es)
  then show ?case by (simp add: pieces_append)
qed (auto simp: pieces_none)

lemma strchr_pieces:
  "strchr s sep = None \<Longrightarrow> pieces sep s = [s]"
  "strchr s sep = Some i \<Longrightarrow> pieces sep s = take i s # pieces sep (drop (i + 1) s)"
proof -
  show "strchr s sep = None \<Longrightarrow> pieces sep s = [s]"
    by (induction s) (auto simp: strchr_def OPENSSL_memchr_def Let_def split: if_splits)
  show "strchr s sep = Some i \<Longrightarrow> pieces sep s = take i s # pieces sep (drop (i + 1) s)"
    by (induction s arbitrary: i) (auto simp: strchr_def OPENSSL_memchr_def Let_def split: if_splits)
qed

fun pieces_loop :: "u8 \<Rightarrow> (bytes option \<Rightarrow> nat \<Rightarrow> 's \<Rightarrow> int \<times> 's) \<Rightarrow> bytes list \<Rightarrow> 's \<Rightarrow> int \<times> 's" where
  "pieces_loop sep cb [] arg = (1, arg)"
| "pieces_loop sep cb (e # es) arg =
     (case (if e = [] then cb None 0 arg else cb (Some (joined sep (e # es))) (length e) arg) of
        (ret, arg) \<Rightarrow> if ret \<le> 0 then (ret, arg) else pieces_loop sep cb es arg)"

lemma CONF_parse_list_pieces: "CONF_parse_list s sep False cb arg = pieces_loop sep cb (pieces sep s) arg"
proof (induction "length s" arbitrary: s arg rule: less_induct)
  case (less s)
  show ?case
  proof (cases "strchr s sep")
    case None
    then show ?thesis by (subst CONF_parse_list.simps) (simp add: strchr_pieces(1) split: prod.split)
  next
    case (Some i)
    let ?s = "drop (i + 1) s"
    have p: "pieces sep s = take i s # pieces sep ?s" using strchr_pieces(2) [OF Some] .
    have "joined sep (take i s # pieces sep ?s) = s" by (metis p joined_pieces)
    moreover have "take i s = [] \<longleftrightarrow> i = 0" "length (take i s) = i" "s \<noteq> []" using strchr_less [OF Some] by auto
    moreover have "CONF_parse_list ?s sep False cb a = pieces_loop sep cb (pieces sep ?s) a" for a
      using less [of ?s] strchr_less [OF Some] by simp
    ultimately show ?thesis
      by (subst CONF_parse_list.simps) (auto simp: Some p split: prod.split)
  qed
qed

text \<open>
  The interface to a callback that acts on an abstract state by \<open>step\<close>, one element at a time, told whether the
  element is the last, and that returns 0 to stop and 1 to go on.
\<close>

fun elems_run :: "(bool \<Rightarrow> bytes \<Rightarrow> 'a \<Rightarrow> 'a option) \<Rightarrow> bytes list \<Rightarrow> 'a \<Rightarrow> 'a option" where
  "elems_run step [] st = Some st"
| "elems_run step (e # es) st = (case step (es = []) e st of None \<Rightarrow> None | Some st \<Rightarrow> elems_run step es st)"

locale list_callback =
  fixes sep :: u8
    and cb :: "bytes option \<Rightarrow> nat \<Rightarrow> 's \<Rightarrow> int \<times> 's"
    and rel :: "'s \<Rightarrow> 'a \<Rightarrow> bool"
    and step :: "bool \<Rightarrow> bytes \<Rightarrow> 'a \<Rightarrow> 'a option"
  assumes cb_step: "rel s st \<Longrightarrow>
    (case cb (if e = [] then None else Some (joined sep (e # es))) (length e) s of (ret, s') \<Rightarrow>
      (case step (es = []) e st of None \<Rightarrow> ret = 0 | Some st' \<Rightarrow> ret = 1 \<and> rel s' st'))"
begin

lemma loop_run:
  assumes "rel s st"
  shows "case pieces_loop sep cb es s of (ret, s') \<Rightarrow>
    (case elems_run step es st of None \<Rightarrow> ret = 0 | Some st' \<Rightarrow> ret = 1 \<and> rel s' st')"
  using assms
proof (induction es arbitrary: s st)
  case (Cons e es)
  obtain ret s1 where r: "cb (if e = [] then None else Some (joined sep (e # es))) (length e) s = (ret, s1)"
    by (cases "cb (if e = [] then None else Some (joined sep (e # es))) (length e) s")
  have loop: "pieces_loop sep cb (e # es) s = (if ret \<le> 0 then (ret, s1) else pieces_loop sep cb es s1)"
    using r by (auto split: if_splits)
  from cb_step [OF Cons.prems, where e = e and es = es] have
    "case step (es = []) e st of None \<Rightarrow> ret = 0 | Some st' \<Rightarrow> ret = 1 \<and> rel s1 st'"
    unfolding r by simp
  moreover have "step (es = []) e st = Some st1 \<Longrightarrow> elems_run step (e # es) st = elems_run step es st1" for st1 by simp
  ultimately show ?case unfolding loop using Cons.IH [of s1]
    by (cases "step (es = []) e st") auto
qed simp

lemma parse_run:
  assumes "rel s st"
  shows "case CONF_parse_list list sep False cb s of (ret, s') \<Rightarrow>
    (case elems_run step (pieces sep list) st of None \<Rightarrow> ret = 0 | Some st' \<Rightarrow> ret = 1 \<and> rel s' st')"
  unfolding CONF_parse_list_pieces by (rule loop_run [OF assms])

end

section \<open>Groups and dotted addresses\<close>

text \<open>The value of a hexadecimal digit: its place in 0123456789ABCDEF, or in the same list in lower case.\<close>

definition hex_val :: "u8 \<Rightarrow> nat option" where
  "hex_val c = map_of (zip (map of_char (''0123456789ABCDEF'' @ ''abcdef'')) ([0..<16] @ [10..<16])) (unat c)"

definition hex_ranges :: "u8 \<Rightarrow> nat option" where
  "hex_ranges c =
     (if 0x30 \<le> c \<and> c \<le> 0x39 then Some (unat c - 0x30)
      else if 0x41 \<le> c \<and> c \<le> 0x46 then Some (unat c - 0x41 + 10)
      else if 0x61 \<le> c \<and> c \<le> 0x66 then Some (unat c - 0x61 + 10) else None)"

lemma map_of_zip_upt:
  "map_of (zip [a..<a + k] [b..<b + k]) n = (if a \<le> n \<and> n < a + k then Some (n - a + b) else None)" for a b k n :: nat
proof (induction k arbitrary: a b)
  case (Suc k)
  have "[a..<a + Suc k] = a # [Suc a..<Suc a + k]" "[b..<b + Suc k] = b # [Suc b..<Suc b + k]"
    by (simp_all add: upt_conv_Cons del: upt_Suc)
  with Suc.IH [of "Suc a" "Suc b"] show ?case by (auto simp del: upt_Suc)
qed simp

lemma hex_val_code: "hex_val c = hex_ranges c"
proof -
  have t: "zip (map of_char (''0123456789ABCDEF'' @ ''abcdef'')) ([0..<16] @ [10..<16])
      = zip [48..<48 + 10] [0..<0 + 10] @ zip [65..<65 + 6] [10..<10 + 6] @ zip [97..<97 + 6] [10..<10 + 6]"
    by code_simp
  show ?thesis
    unfolding hex_val_def t hex_ranges_def map_of_append map_add_def map_of_zip_upt word_le_nat_alt
    by auto
qed

lemmas hex_val_ranges = hex_val_code [unfolded hex_ranges_def]

lemma hex_val_less: "hex_val c = Some d \<Longrightarrow> d < 16"
  by (auto simp: hex_val_ranges word_le_nat_alt split: if_splits)

lemma shift_or:
  fixes n d :: u32
  assumes "unat d < 16" "unat n < 2 ^ 28"
  shows "unat (push_bit 4 n OR d) = 16 * unat n + unat d"
proof -
  have "take_bit 4 (unat d) = unat d" using assms(1) by (simp add: take_bit_nat_eq_self)
  then have d: "take_bit 4 d = d" by (simp add: unsigned_take_bit_eq word_unat_eq_iff)
  have "push_bit 4 n AND take_bit 4 d = 0" by (rule bit_word_eqI) (auto simp: bit_simps)
  then have "push_bit 4 n OR d = push_bit 4 n + d" unfolding d by (simp add: disjunctive_add_eq_or)
  moreover have "unat (push_bit 4 n) = 16 * unat n"
    using assms(2) by (simp add: push_bit_eq_mult unat_word_ariths)
  ultimately show ?thesis using assms by (simp add: unat_plus_if')
qed

lemma hex_loop_step:
  "hex_loop (c # g) num =
     (case hex_val c of None \<Rightarrow> None | Some d \<Rightarrow> hex_loop g (push_bit 4 num OR word_of_nat d))"
proof -
  have "ucast c - 0x30 = (word_of_nat (unat c - 0x30) :: u32)" if "0x30 \<le> c"
    using that by (simp add: word_le_nat_alt of_nat_diff)
  moreover have "ucast c - 0x41 + 10 = (word_of_nat (unat c - 0x41 + 10) :: u32)" if "0x41 \<le> c"
    using that by (simp add: word_le_nat_alt of_nat_diff)
  moreover have "ucast c - 0x61 + 10 = (word_of_nat (unat c - 0x61 + 10) :: u32)" if "0x61 \<le> c"
    using that by (simp add: word_le_nat_alt of_nat_diff)
  ultimately show ?thesis by (simp add: hex_val_ranges Let_def)
qed

lemma hex_loop_val:
  "unat num * 16 ^ length g < 2 ^ 28 \<Longrightarrow> length g \<le> 4 \<Longrightarrow> unat num < 16 ^ (4 - length g) \<Longrightarrow>
     hex_loop g num =
       (if \<exists>c\<in>set g. hex_val c = None then None
        else Some (word_of_nat (foldl (\<lambda>n c. 16 * n + the (hex_val c)) (unat num) g)))
     \<and> ((\<forall>c\<in>set g. hex_val c \<noteq> None) \<longrightarrow> foldl (\<lambda>n c. 16 * n + the (hex_val c)) (unat num) g < 2 ^ 16)"
proof (induction g arbitrary: num)
  case Nil
  then show ?case by simp
next
  case (Cons c g)
  show ?case
  proof (cases "hex_val c")
    case None
    then show ?thesis by (simp add: hex_loop_step del: hex_loop.simps)
  next
    case (Some d)
    let ?n = "push_bit 4 num OR word_of_nat d :: u32"
    have d: "d < 16" by (rule hex_val_less [OF Some])
    then have ud: "unat (word_of_nat d :: u32) = d" by (simp add: unat_of_nat)
    have "unat num < 2 ^ 28"
      using Cons.prems(1) by (metis le_less_trans mult.right_neutral mult_le_mono2 one_le_numeral one_le_power)
    then have n: "unat ?n = 16 * unat num + d" using shift_or [of "word_of_nat d" num] ud d by simp
    have "4 - length g = Suc (4 - length (c # g))" using Cons.prems(2) by simp
    then have small: "unat ?n < 16 ^ (4 - length g)" using Cons.prems(3) n d by simp
    then have "unat ?n * 16 ^ length g < 16 ^ (4 - length g) * 16 ^ length g" by simp
    also have "\<dots> = (16 :: nat) ^ 4" using Cons.prems(2) by (simp flip: power_add)
    finally have "unat ?n * 16 ^ length g < 2 ^ 28" by simp
    from Cons.IH [OF this _ small] Cons.prems(2) show ?thesis
      by (simp add: hex_loop_step Some n del: hex_loop.simps)
  qed
qed

text \<open>A group of hex digits is the 16-bit number that it denotes, the high byte first.\<close>

lemma ipv6_hex_exact:
  "ipv6_hex g =
     (if length g \<le> 4 \<and> (\<forall>c\<in>set g. hex_val c \<noteq> None)
      then (let n = foldl (\<lambda>n c. 16 * n + the (hex_val c)) 0 g in Some [word_of_nat (n div 256), word_of_nat (n mod 256)])
      else None)"
proof (cases "length g \<le> 4 \<and> (\<forall>c\<in>set g. hex_val c \<noteq> None)")
  case True
  let ?n = "foldl (\<lambda>n c. 16 * n + the (hex_val c)) 0 g"
  have l: "hex_loop g 0 = Some (word_of_nat ?n)" "?n < 2 ^ 16"
    using hex_loop_val [of 0 g] True by auto
  then have u: "unat (word_of_nat ?n :: u32) = ?n" by (simp add: unat_of_nat)
  have "unat (drop_bit 8 (word_of_nat ?n :: u32)) = ?n div 256"
    unfolding unat_drop_bit_eq u by (simp add: drop_bit_eq_div)
  then have "ucast (drop_bit 8 (word_of_nat ?n :: u32)) = (word_of_nat (?n div 256) :: u8)"
    by (metis of_nat_unat)
  moreover have "ucast ((word_of_nat ?n :: u32) AND 0xFF) = (word_of_nat (?n mod 256) :: u8)"
  proof -
    have "(word_of_nat ?n :: u32) AND 0xFF = take_bit 8 (word_of_nat ?n)"
      by (simp add: take_bit_eq_mask mask_eq_exp_minus_1)
    moreover have "unat (take_bit 8 (word_of_nat ?n :: u32)) = ?n mod 256"
      unfolding unsigned_take_bit_eq u by (simp add: take_bit_eq_mod)
    ultimately show ?thesis by (metis of_nat_unat)
  qed
  ultimately show ?thesis using True l(1) by (simp add: ipv6_hex_def Let_def)
next
  case False
  then show ?thesis using hex_loop_val [of 0 g] by (auto simp: ipv6_hex_def not_le)
qed

definition group_ok :: "bytes \<Rightarrow> bool" where
  "group_ok g \<longleftrightarrow> g \<noteq> [] \<and> length g \<le> 4 \<and> (\<forall>c\<in>set g. hex_val c \<noteq> None)"

definition group_bytes :: "bytes \<Rightarrow> bytes" where
  "group_bytes g = (let n = foldl (\<lambda>n c. 16 * n + the (hex_val c)) 0 g in [word_of_nat (n div 256), word_of_nat (n mod 256)])"

text \<open>
  A number as \<open>sscanf\<close> reads it: white space, a sign, decimal digits; and a dotted address, which anything but a digit may
  follow.
\<close>

definition white_space :: "u8 set" where
  "white_space = {0x20, 0x09, 0x0A, 0x0B, 0x0C, 0x0D}"

definition dec_digits :: "u8 set" where
  "dec_digits = {0x30, 0x31, 0x32, 0x33, 0x34, 0x35, 0x36, 0x37, 0x38, 0x39}"

definition number_text :: "(int \<Rightarrow> int) \<Rightarrow> bytes \<Rightarrow> int \<Rightarrow> bool" where
  "number_text ovf t v \<longleftrightarrow>
     (\<exists>ws sg ds. t = ws @ sg @ ds \<and> set ws \<subseteq> white_space \<and> sg \<in> {[], [0x2B], [0x2D]} \<and> ds \<noteq> [] \<and> set ds \<subseteq> dec_digits
        \<and> (let n = int (foldl (\<lambda>n c. 10 * n + the (hex_val c)) 0 ds); x = (if sg = [0x2D] then - n else n)
           in v = (if - (2 ^ 31) \<le> x \<and> x < 2 ^ 31 then x else ovf x)))"

definition dotted_text :: "(int \<Rightarrow> int) \<Rightarrow> bytes \<Rightarrow> bytes \<Rightarrow> bool" where
  "dotted_text ovf e b \<longleftrightarrow>
     (\<exists>ts vs rest. e = joined 0x2E ts @ rest \<and> (rest = [] \<or> hd rest \<notin> dec_digits) \<and> length ts = 4
        \<and> list_all2 (number_text ovf) ts vs \<and> list_all (\<lambda>v. 0 \<le> v \<and> v \<le> 255) vs \<and> b = map word_of_int vs)"

lemma dec_digits_code: "c \<in> dec_digits \<longleftrightarrow> isdigit c"
  unfolding dec_digits_def isdigit_def word_le_nat_alt by (simp add: word_unat_eq_iff) presburger

lemma white_space_code: "c \<in> white_space \<longleftrightarrow> isspace c"
  unfolding white_space_def isspace_def word_le_nat_alt by (simp add: word_unat_eq_iff) presburger

lemma dec_value:
  "set ds \<subseteq> dec_digits \<Longrightarrow>
     foldl (\<lambda>v d. v * 10 + (uint d - 0x30)) (int k) ds = int (foldl (\<lambda>n c. 10 * n + the (hex_val c)) k ds)"
proof (induction ds arbitrary: k)
  case (Cons d ds)
  then have "isdigit d" and ds: "set ds \<subseteq> dec_digits" by (simp_all add: dec_digits_code)
  then have d: "hex_val d = Some (unat d - 0x30)" "0x30 \<le> unat d"
    by (simp_all add: isdigit_def hex_val_ranges word_le_nat_alt)
  have "int k * 10 + (uint d - 0x30) = int (10 * k + (unat d - 0x30))"
    using d(2) by (simp only: uint_nat of_nat_add of_nat_mult of_nat_diff of_nat_numeral mult.commute)
  also have "unat d - 0x30 = the (hex_val d)" by (simp only: d(1) option.sel)
  finally show ?case unfolding foldl_Cons by (simp only: Cons.IH [OF ds])
qed simp

text \<open>The conversion reads the longest number there is.\<close>

lemma scan_d_text:
  "scan_d ovf s = Some (v, r) \<longleftrightarrow> (\<exists>t. s = t @ r \<and> number_text ovf t v \<and> (r = [] \<or> hd r \<notin> dec_digits))"
proof
  define s1 where "s1 = dropWhile isspace s"
  define neg where "neg \<longleftrightarrow> s1 \<noteq> [] \<and> hd s1 = 0x2D"
  define sg where "sg = (if s1 \<noteq> [] \<and> (hd s1 = 0x2B \<or> hd s1 = 0x2D) then [hd s1] else [])"
  define s2 where "s2 = (if s1 \<noteq> [] \<and> (hd s1 = 0x2B \<or> hd s1 = 0x2D) then tl s1 else s1)"
  have s12: "s1 = sg @ s2" by (simp add: sg_def s2_def)
  assume l: "scan_d ovf s = Some (v, r)"
  define ds where "ds = takeWhile isdigit s2"
  define x where "x = foldl (\<lambda>v d. v * 10 + (uint d - 0x30)) 0 ds"
  have ds: "ds \<noteq> []" "r = dropWhile isdigit s2"
    "v = (let y = if neg then - x else x in if - INT_MAX - 1 \<le> y \<and> y \<le> INT_MAX then y else ovf y)"
    using l unfolding scan_d_def Let_def s1_def [symmetric] neg_def [symmetric] s2_def [symmetric] ds_def [symmetric] x_def [symmetric]
    by (auto split: if_splits)
  have "s = takeWhile isspace s @ sg @ ds @ r" unfolding ds(2) ds_def by (simp add: s12 [symmetric] s1_def)
  moreover have "set (takeWhile isspace s) \<subseteq> white_space" and dig: "set ds \<subseteq> dec_digits"
    by (auto simp: white_space_code dec_digits_code ds_def dest: set_takeWhileD)
  moreover have "sg \<in> {[], [0x2B], [0x2D]}" "sg = [0x2D] \<longleftrightarrow> neg" by (auto simp: sg_def neg_def)
  moreover have "r = [] \<or> hd r \<notin> dec_digits" unfolding ds(2) dec_digits_code using hd_dropWhile [of isdigit s2] by blast
  moreover have "x = int (foldl (\<lambda>n c. 10 * n + the (hex_val c)) 0 ds)"
    unfolding x_def using dec_value [OF dig, of 0] by simp
  ultimately show "\<exists>t. s = t @ r \<and> number_text ovf t v \<and> (r = [] \<or> hd r \<notin> dec_digits)"
    using ds(1,3) unfolding number_text_def
    by (intro exI [of _ "takeWhile isspace s @ sg @ ds"] conjI exI [of _ "takeWhile isspace s"] exI [of _ sg] exI [of _ ds])
      (simp_all add: INT_MAX_def Let_def)
next
  assume "\<exists>t. s = t @ r \<and> number_text ovf t v \<and> (r = [] \<or> hd r \<notin> dec_digits)"
  then obtain t where st: "s = t @ r" "number_text ovf t v" and r: "r = [] \<or> hd r \<notin> dec_digits" by blast
  obtain ws sg ds where t0: "t = ws @ sg @ ds" and t1: "set ws \<subseteq> white_space" "sg \<in> {[], [0x2B], [0x2D]}" "ds \<noteq> []" "set ds \<subseteq> dec_digits"
    and v: "let n = int (foldl (\<lambda>n c. 10 * n + the (hex_val c)) 0 ds); x = (if sg = [0x2D] then - n else n)
           in v = (if - (2 ^ 31) \<le> x \<and> x < 2 ^ 31 then x else ovf x)"
    using st(2) unfolding number_text_def by (elim exE conjE)
  have t: "s = ws @ sg @ ds @ r" "set ws \<subseteq> white_space" "sg \<in> {[], [0x2B], [0x2D]}" "ds \<noteq> []" "set ds \<subseteq> dec_digits"
    using st(1) t0 t1 by simp_all
  obtain d ds' where d: "ds = d # ds'" "isdigit d" using t(4,5) by (cases ds) (auto simp: dec_digits_code)
  have ws: "\<forall>c\<in>set ws. isspace c" and digits: "\<forall>c\<in>set ds. isdigit c" using t(2,5) by (auto simp: white_space_code dec_digits_code)
  have nd: "\<not> isspace d" "d \<noteq> 0x2B" "d \<noteq> 0x2D" "\<not> isspace 0x2B" "\<not> isspace 0x2D"
    using d(2) by (auto simp: isspace_def isdigit_def word_le_nat_alt)
  have s1: "dropWhile isspace s = sg @ ds @ r"
    using ws t(3) nd d(1) by (auto simp: t(1) dropWhile_append2)
  have "takeWhile isdigit (ds @ r) = ds" "dropWhile isdigit (ds @ r) = r"
    using digits r by (cases r; simp add: takeWhile_append2 dropWhile_append2 dec_digits_code)+
  moreover have "foldl (\<lambda>v d. v * 10 + (uint d - 0x30)) 0 ds = int (foldl (\<lambda>n c. 10 * n + the (hex_val c)) 0 ds)"
    using dec_value [OF t(5), of 0] by simp
  moreover have "(sg @ ds @ r \<noteq> [] \<and> hd (sg @ ds @ r) = 0x2D) \<longleftrightarrow> sg = [0x2D]"
    "(if sg @ ds @ r \<noteq> [] \<and> (hd (sg @ ds @ r) = 0x2B \<or> hd (sg @ ds @ r) = 0x2D) then tl (sg @ ds @ r) else sg @ ds @ r) = ds @ r"
    using t(3) nd d(1) by auto
  ultimately have "scan_d ovf s = Some (let n = int (foldl (\<lambda>n c. 10 * n + the (hex_val c)) 0 ds); x = (if sg = [0x2D] then - n else n)
      in if - INT_MAX - 1 \<le> x \<and> x \<le> INT_MAX then x else ovf x, r)"
    using t(4) unfolding scan_d_def s1 Let_def by (simp only: if_False)
  then show "scan_d ovf s = Some (v, r)" using v by (simp add: INT_MAX_def Let_def)
qed

lemma scan_dotted_text:
  "0 < n \<Longrightarrow> scan_dotted ovf n s = Some vs \<longleftrightarrow>
     (\<exists>ts rest. s = joined 0x2E ts @ rest \<and> (rest = [] \<or> hd rest \<notin> dec_digits) \<and> length ts = n \<and> list_all2 (number_text ovf) ts vs)"
proof (induction n arbitrary: s vs)
  case (Suc n)
  have dot: "0x2E \<notin> dec_digits" by (simp add: dec_digits_def)
  show ?case
  proof (cases "n = 0")
    case True
    have "scan_dotted ovf (Suc n) s = Some vs \<longleftrightarrow> (\<exists>a r. scan_d ovf s = Some (a, r) \<and> vs = [a])"
      using True by (auto split: option.splits)
    also have "\<dots> \<longleftrightarrow> (\<exists>t r. s = t @ r \<and> (r = [] \<or> hd r \<notin> dec_digits) \<and> list_all2 (number_text ovf) [t] vs)"
      unfolding scan_d_text by (auto simp: list_all2_Cons1)
    also have "\<dots> \<longleftrightarrow> (\<exists>ts rest. s = joined 0x2E ts @ rest \<and> (rest = [] \<or> hd rest \<notin> dec_digits) \<and> length ts = Suc 0
        \<and> list_all2 (number_text ovf) ts vs)"
      unfolding length_Suc_conv length_0_conv by (metis joined.simps(2))
    finally show ?thesis using True by simp
  next
    case False
    then have n: "0 < n" by simp
    have j: "joined 0x2E (t # ts) = t @ 0x2E # joined 0x2E ts" if "length ts = n" for t ts
      using that False by (intro joined_Cons) auto
    have "scan_dotted ovf (Suc n) s = Some vs \<longleftrightarrow>
        (\<exists>a r ws. scan_d ovf s = Some (a, 0x2E # r) \<and> scan_dotted ovf n r = Some ws \<and> vs = a # ws)"
      using False by (auto simp: scan_dot_def neq_Nil_conv split: option.splits if_splits)
    also have "\<dots> \<longleftrightarrow> (\<exists>a r ws t ts rest. s = t @ 0x2E # r \<and> number_text ovf t a \<and> r = joined 0x2E ts @ rest
        \<and> (rest = [] \<or> hd rest \<notin> dec_digits) \<and> length ts = n \<and> list_all2 (number_text ovf) ts ws \<and> vs = a # ws)"
      unfolding scan_d_text Suc.IH [OF n] by (simp only: list.sel dot not_False_eq_True simp_thms) blast
    also have "\<dots> \<longleftrightarrow> (\<exists>t ts rest. s = (t @ 0x2E # joined 0x2E ts) @ rest \<and> (rest = [] \<or> hd rest \<notin> dec_digits) \<and> length ts = n
        \<and> list_all2 (number_text ovf) (t # ts) vs)"
      by (simp only: list_all2_Cons1 append_assoc append_Cons) blast
    also have "\<dots> \<longleftrightarrow> (\<exists>t ts rest. s = joined 0x2E (t # ts) @ rest \<and> (rest = [] \<or> hd rest \<notin> dec_digits) \<and> length ts = n
        \<and> list_all2 (number_text ovf) (t # ts) vs)"
      using j by metis
    also have "\<dots> \<longleftrightarrow> (\<exists>us rest. s = joined 0x2E us @ rest \<and> (rest = [] \<or> hd rest \<notin> dec_digits) \<and> length us = Suc n
        \<and> list_all2 (number_text ovf) us vs)"
      unfolding length_Suc_conv by metis
    finally show ?thesis .
  qed
qed simp

lemma ipv4_from_asc_iff: "ipv4_from_asc ovf e = Some b \<longleftrightarrow> dotted_text ovf e b"
proof -
  have "ipv4_from_asc ovf e = Some b \<longleftrightarrow> (\<exists>vs. scan_dotted ovf 4 e = Some vs \<and> list_all (\<lambda>v. 0 \<le> v \<and> v \<le> 255) vs \<and> b = map word_of_int vs)"
    by (auto simp: ipv4_from_asc_def list_ex_iff list_all_iff not_less not_le split: option.splits)
  then show ?thesis unfolding dotted_text_def using scan_dotted_text [of 4 ovf e] by auto
qed

lemma dotted_text_length: "dotted_text ovf e b \<Longrightarrow> 4 < length e"
proof -
  assume "dotted_text ovf e b"
  then obtain ts vs rest where e: "e = joined 0x2E ts @ rest" "length ts = 4" "list_all2 (number_text ovf) ts vs"
    unfolding dotted_text_def by blast
  have "number_text ovf t v \<Longrightarrow> t \<noteq> []" for t v by (auto simp: number_text_def)
  then have "\<forall>t\<in>set ts. t \<noteq> []" using e(3) by (fastforce simp: list_all2_conv_all_nth in_set_conv_nth)
  moreover obtain t1 t2 t3 t4 where "ts = [t1, t2, t3, t4]" using e(2) by (auto simp: length_Suc_conv numeral_eq_Suc)
  ultimately show ?thesis by (cases t1; cases t2) (auto simp: e(1))
qed

section \<open>The elements of an IPv6 address\<close>

definition elem_bytes :: "(int \<Rightarrow> int) \<Rightarrow> bool \<Rightarrow> bytes \<Rightarrow> bytes option" where
  "elem_bytes ovf fin e =
     (if e = [] then None
      else if length e > 4 then (if fin then ipv4_from_asc ovf e else None)
      else ipv6_hex e)"

text \<open>The bytes of a list of elements; \<open>fin\<close> tells that its last one ends the text.\<close>

fun elems_bytes :: "(int \<Rightarrow> int) \<Rightarrow> bool \<Rightarrow> bytes list \<Rightarrow> bytes option" where
  "elems_bytes ovf fin [] = Some []"
| "elems_bytes ovf fin (e # es) =
     (case elem_bytes ovf (fin \<and> es = []) e of
        None \<Rightarrow> None
      | Some a \<Rightarrow> map_option ((@) a) (elems_bytes ovf fin es))"

text \<open>
  The states of the parser: the bytes written, and position and number of the empty elements.
\<close>

fun v6_step :: "(int \<Rightarrow> int) \<Rightarrow> bool \<Rightarrow> bytes \<Rightarrow> bytes \<times> int \<times> int \<Rightarrow> (bytes \<times> int \<times> int) option" where
  "v6_step ovf fin e (w, z, c) =
     (if length w = 16 then None
      else if e = [] then
        (if z = - 1 then Some (w, int (length w), c + 1)
         else if z \<noteq> int (length w) then None else Some (w, z, c + 1))
      else if length e > 4 \<and> length w > 12 then None
      else map_option (\<lambda>a. (w @ a, z, c)) (elem_bytes ovf fin e))"

abbreviation v6_run :: "(int \<Rightarrow> int) \<Rightarrow> bytes list \<Rightarrow> bytes \<times> int \<times> int \<Rightarrow> (bytes \<times> int \<times> int) option" where
  "v6_run ovf \<equiv> elems_run (v6_step ovf)"

definition stat_of :: "ipv6_stat \<Rightarrow> bytes \<times> int \<times> int \<Rightarrow> bool" where
  "stat_of s st \<longleftrightarrow>
     (case st of (w, z, c) \<Rightarrow>
        v6_total s = int (length w) \<and> v6_zero_pos s = z \<and> v6_zero_cnt s = c
        \<and> length (v6_tmp s) = 16 \<and> take (length w) (v6_tmp s) = w \<and> even (length w) \<and> length w \<le> 16)"

lemma scan_dotted_length: "scan_dotted ovf n s = Some as \<Longrightarrow> length as = n"
  by (induction ovf n s arbitrary: as rule: scan_dotted.induct) (auto split: option.splits prod.splits if_splits)

lemma ipv4_length: "ipv4_from_asc ovf s = Some b \<Longrightarrow> length b = 4"
  by (auto simp: ipv4_from_asc_def dest: scan_dotted_length split: option.splits if_splits)

lemma hex_length: "ipv6_hex s = Some b \<Longrightarrow> length b = 2"
  by (auto simp: ipv6_hex_def split: if_splits)

lemma elem_bytes_length:
  "elem_bytes ovf fin e = Some a \<Longrightarrow> length a = (if length e > 4 then 4 else 2)"
  by (auto simp: elem_bytes_def dest: ipv4_length hex_length split: if_splits)

lemma joined_length: "length (joined sep (e # es)) = length e \<longleftrightarrow> es = []"
  by (cases es) auto

lemma joined_take: "take (length e) (joined sep (e # es)) = e"
  by (cases es) auto

lemma store_take: "length w + length b \<le> length t \<Longrightarrow> take (length w) t = w \<Longrightarrow>
    take (length w + length b) (store_bytes t (length w) b) = w @ b \<and> length (store_bytes t (length w) b) = length t"
  by (auto simp: store_bytes_def min_def)

lemma ipv6_cb_step:
  assumes s: "stat_of s st"
  shows "case ipv6_cb ovf (if e = [] then None else Some (joined 0x3A (e # es))) (length e) s of (ret, s') \<Rightarrow>
    (case v6_step ovf (es = []) e st of None \<Rightarrow> ret = 0 | Some st' \<Rightarrow> ret = 1 \<and> stat_of s' st')"
proof -
  obtain w z c where st: "st = (w, z, c)" by (cases st)
  from s have t: "v6_total s = int (length w)" "v6_zero_pos s = z" "v6_zero_cnt s = c"
    "length (v6_tmp s) = 16" "take (length w) (v6_tmp s) = w" "even (length w)" "length w \<le> 16"
    by (simp_all add: stat_of_def st)
  show ?thesis
  proof (cases "length w = 16 \<or> e = []")
    case True
    then show ?thesis using t by (auto simp: ipv6_cb_def st stat_of_def)
  next
    case False
    let ?j = "joined 0x3A (e # es)"
    have last: "\<not> length e < length ?j \<longleftrightarrow> es = []" by (cases es) auto
    have store: "stat_of (s\<lparr>v6_tmp := store_bytes (v6_tmp s) (length w) a, v6_total := int (length w) + int (length a)\<rparr>) (w @ a, z, c)"
      if "length w + length a \<le> 16" "even (length a)" for a
      using t that store_take [of w a "v6_tmp s"] by (simp add: stat_of_def)
    show ?thesis
    proof (cases "length e > 4")
      case long: True
      show ?thesis
      proof (cases "length w > 12 \<or> es \<noteq> []")
        case True
        then show ?thesis using t False long last
          by (auto simp: ipv6_cb_def st elem_bytes_def simp del: joined.simps)
      next
        case short: False
        then have j: "?j = e" by simp
        show ?thesis
        proof (cases "ipv4_from_asc ovf e")
          case None
          then show ?thesis using t False long short by (simp add: ipv6_cb_def st elem_bytes_def)
        next
          case (Some a)
          with ipv4_length have "length a = 4" by blast
          with store [of a] show ?thesis using t False long short Some by (simp add: ipv6_cb_def st elem_bytes_def)
        qed
      qed
    next
      case False
      note short = this \<open>\<not> (length w = 16 \<or> e = [])\<close>
      then have "length w \<noteq> 16" by simp
      with t(6,7) have "length w \<le> 14" by (auto elim!: evenE)
      show ?thesis
      proof (cases "ipv6_hex e")
        case None
        then show ?thesis using t short by (simp add: ipv6_cb_def st elem_bytes_def joined_take del: joined.simps)
      next
        case (Some a)
        with hex_length have "length a = 2" by blast
        with store [of a] \<open>length w \<le> 14\<close> show ?thesis
          using t short Some by (simp add: ipv6_cb_def st elem_bytes_def joined_take del: joined.simps)
      qed
    qed
  qed
qed

interpretation v6: list_callback "0x3A" "ipv6_cb ovf" stat_of "v6_step ovf" for ovf
  by unfold_locales (rule ipv6_cb_step)

lemma elems_bytes_even: "elems_bytes ovf fin es = Some a \<Longrightarrow> even (length a)"
  by (induction es arbitrary: a) (auto dest: elem_bytes_length split: option.splits if_splits)

lemma elems_bytes_pos: "elems_bytes ovf fin es = Some a \<Longrightarrow> es \<noteq> [] \<Longrightarrow> 2 \<le> length a"
  by (cases es) (auto dest!: elem_bytes_length split: option.splits if_splits)

lemma elems_bytes_empty: "elems_bytes ovf fin es = Some a \<Longrightarrow> a = [] \<longleftrightarrow> es = []"
  using elems_bytes_pos [of ovf fin es a] by (cases "es = []") auto

lemma elems_bytes_nonempty: "elems_bytes ovf fin es = Some a \<Longrightarrow> \<forall>e\<in>set es. e \<noteq> []"
  by (induction es arbitrary: a) (auto simp: elem_bytes_def split: option.splits)

lemma v6_run_elems:
  assumes "\<forall>e\<in>set es. e \<noteq> []" "even (length w)" "length w \<le> 16"
  shows "v6_run ovf (es @ rest) (w, z, c) =
    (case elems_bytes ovf (rest = []) es of
       None \<Rightarrow> None
     | Some a \<Rightarrow> if length w + length a \<le> 16 then v6_run ovf rest (w @ a, z, c) else None)"
  using assms
proof (induction es arbitrary: w)
  case (Cons e es)
  have e: "e \<noteq> []" using Cons.prems(1) by simp
  show ?case
  proof (cases "elem_bytes ovf (rest = [] \<and> es = []) e")
    case None
    then have "v6_step ovf (es @ rest = []) e (w, z, c) = None" using e by (auto simp: conj_commute)
    with None show ?thesis by simp
  next
    case (Some a)
    have la: "length a = (if length e > 4 then 4 else 2)" by (rule elem_bytes_length [OF Some])
    have len: "length w = 16 \<or> length w \<le> 14" using Cons.prems(2,3) by (auto elim!: evenE)
    have len': "length w > 12 \<longleftrightarrow> length w \<ge> 14" using Cons.prems(2) by (auto elim!: evenE)
    show ?thesis
    proof (cases "length w + length a \<le> 16")
      case True
      then have "v6_step ovf (es @ rest = []) e (w, z, c) = Some (w @ a, z, c)"
        using e Some la by (auto simp: conj_commute split: if_splits)
      moreover have "even (length (w @ a))" "length (w @ a) \<le> 16" using Cons.prems(2) la True by auto
      moreover note Cons.IH [OF _ this]
      ultimately show ?thesis using Some Cons.prems(1) by (simp split: option.split)
    next
      case False
      then have "v6_step ovf (es @ rest = []) e (w, z, c) = None"
        using e la len len' by (auto split: if_splits)
      with False Some show ?thesis by (auto split: option.split)
    qed
  qed
qed auto

lemma v6_run_empties:
  assumes "0 < k" "z = - 1 \<or> z = int (length w)"
  shows "v6_run ovf (replicate k [] @ rest) (w, z, c) =
    (if length w = 16 then None else v6_run ovf rest (w, int (length w), c + int k))"
  using assms
proof (induction k arbitrary: z c)
  case (Suc k)
  show ?case
  proof (cases "length w = 16")
    case False
    have "v6_run ovf (replicate (Suc k) [] @ rest) (w, z, c) = v6_run ovf (replicate k [] @ rest) (w, int (length w), c + 1)"
      using Suc.prems False by auto
    then show ?thesis using Suc.IH [of "int (length w)" "c + 1"] False by (cases k) (auto simp: algebra_simps)
  qed simp
qed simp

text \<open>
  The texts that are read, as the list \<open>es\<close> of their elements. An element is a group of one to four hex digits or, at the
  end, a dotted address. Either they are the 16 bytes, or there are fewer with one run of \<open>k\<close> empty elements where the
  zeros go. A run of one has elements before and after it, a run of two is at the start or the end (\<open>::\<close> there gives two
  empty elements), and a run of three is the whole text \<open>::\<close>; a run of two that is the whole text, a single colon, is
  also accepted.
\<close>

definition elem_text :: "(int \<Rightarrow> int) \<Rightarrow> bool \<Rightarrow> bytes \<Rightarrow> bytes \<Rightarrow> bool" where
  "elem_text ovf fin e a \<longleftrightarrow> group_ok e \<and> a = group_bytes e \<or> fin \<and> dotted_text ovf e a"

fun elems_text :: "(int \<Rightarrow> int) \<Rightarrow> bool \<Rightarrow> bytes list \<Rightarrow> bytes \<Rightarrow> bool" where
  "elems_text ovf fin [] a \<longleftrightarrow> a = []"
| "elems_text ovf fin (e # es) a \<longleftrightarrow> (\<exists>x y. a = x @ y \<and> elem_text ovf (fin \<and> es = []) e x \<and> elems_text ovf fin es y)"

definition ipv6_elems :: "(int \<Rightarrow> int) \<Rightarrow> bytes list \<Rightarrow> bytes \<Rightarrow> bool" where
  "ipv6_elems ovf es v \<longleftrightarrow>
     elems_text ovf True es v \<and> length v = 16
     \<or> (\<exists>pre k post a b. es = pre @ replicate k [] @ post \<and> elems_text ovf False pre a \<and> elems_text ovf True post b
          \<and> v = a @ replicate (16 - length a - length b) 0 @ b \<and> length a + length b < 16
          \<and> (k = 1 \<and> pre \<noteq> [] \<and> post \<noteq> [] \<or> k = 2 \<and> (pre = [] \<or> post = []) \<or> k = 3 \<and> pre = [] \<and> post = []))"

lemma elem_bytes_text: "elem_bytes ovf fin e = Some a \<longleftrightarrow> elem_text ovf fin e a"
proof (cases "length e > 4")
  case True
  then have "\<not> group_ok e" "e \<noteq> []" by (auto simp: group_ok_def)
  with True show ?thesis by (simp add: elem_bytes_def elem_text_def ipv4_from_asc_iff)
next
  case False
  then have "\<not> dotted_text ovf e a" using dotted_text_length by blast
  with False show ?thesis
    by (auto simp: elem_bytes_def elem_text_def ipv6_hex_exact group_ok_def group_bytes_def Let_def)
qed

lemma elems_bytes_text: "elems_bytes ovf fin es = Some a \<longleftrightarrow> elems_text ovf fin es a"
proof (induction es arbitrary: a)
  case (Cons e es)
  show ?case by (auto simp: elem_bytes_text [symmetric] Cons.IH [symmetric] split: option.splits)
qed auto

lemma ipv6_elems_code:
  "ipv6_elems ovf es v \<longleftrightarrow>
     elems_bytes ovf True es = Some v \<and> length v = 16
     \<or> (\<exists>pre k post a b. es = pre @ replicate k [] @ post
          \<and> elems_bytes ovf False pre = Some a \<and> elems_bytes ovf True post = Some b
          \<and> v = a @ replicate (16 - length a - length b) 0 @ b \<and> length a + length b < 16
          \<and> (k = 1 \<and> pre \<noteq> [] \<and> post \<noteq> [] \<or> k = 2 \<and> (pre = [] \<or> post = []) \<or> k = 3 \<and> pre = [] \<and> post = []))"
  unfolding ipv6_elems_def elems_bytes_text ..

lemma v6_run_shape:
  assumes "0 < k" and a: "elems_bytes ovf False pre = Some a" and b: "elems_bytes ovf True post = Some b"
    and "length a + length b < 16"
  shows "v6_run ovf (pre @ replicate k [] @ post) ([], - 1, 0) = Some (a @ b, int (length a), int k)"
proof -
  have "replicate k [] @ post \<noteq> []" using \<open>0 < k\<close> by simp
  then have "v6_run ovf (pre @ replicate k [] @ post) ([], - 1, 0) = v6_run ovf (replicate k [] @ post) (a, - 1, 0)"
    using v6_run_elems [OF elems_bytes_nonempty [OF a], of "[]" ovf "replicate k [] @ post"] a assms(1,4) by simp
  also have "\<dots> = v6_run ovf post (a, int (length a), int k)"
    using v6_run_empties [OF \<open>0 < k\<close>, of "- 1" a] assms(4) by simp
  also have "\<dots> = Some (a @ b, int (length a), int k)"
    using v6_run_elems [OF elems_bytes_nonempty [OF b], of a ovf "[]"] a b assms(4) elems_bytes_even [OF a] by simp
  finally show ?thesis .
qed

lemma span_list:
  obtains xs ys where "zs = xs @ ys" "\<forall>x\<in>set xs. P x" "ys = [] \<or> \<not> P (hd ys)"
  using that [of "takeWhile P zs" "dropWhile P zs"] hd_dropWhile [of P zs] by (auto dest: set_takeWhileD)

lemma v6_run_again: "b \<noteq> [] \<Longrightarrow> v6_run ovf ([] # es) (a @ b, int (length a), c) = None"
  by simp

lemma v6_run_cases:
  assumes "v6_run ovf es ([], - 1, 0) = Some st"
  obtains w where "elems_bytes ovf True es = Some w" "st = (w, - 1, 0)"
  | pre k post a b where "es = pre @ replicate k [] @ post" "0 < k" "elems_bytes ovf False pre = Some a"
      "elems_bytes ovf True post = Some b" "st = (a @ b, int (length a), int k)" "length a + length b \<le> 16"
proof -
  obtain pre r where es: "es = pre @ r" "\<forall>e\<in>set pre. e \<noteq> []" "r = [] \<or> hd r = []"
    using span_list [of es "\<lambda>e. e \<noteq> []"] by blast
  obtain a where a: "elems_bytes ovf (r = []) pre = Some a" "length a \<le> 16" "v6_run ovf r (a, - 1, 0) = Some st"
    using assms v6_run_elems [OF es(2), of "[]" ovf r "- 1" 0] unfolding es(1) by (auto split: option.splits if_splits)
  show ?thesis
  proof (cases "r = []")
    case True
    with es(1) a that(1) show ?thesis by auto
  next
    case False
    obtain zs s where r: "r = zs @ s" "\<forall>e\<in>set zs. e = []" "s = [] \<or> hd s \<noteq> []"
      using span_list [of r "\<lambda>e. e = []"] by blast
    then have zs: "zs = replicate (length zs) []" by (simp add: replicate_length_same)
    have k: "0 < length zs" using False es(3) r by (cases zs) auto
    have s: "v6_run ovf s (a, int (length a), int (length zs)) = Some st"
      using a(3) v6_run_empties [OF k, of "- 1" a ovf s 0] r(1) zs by (auto split: if_splits)
    obtain post t where p: "s = post @ t" "\<forall>e\<in>set post. e \<noteq> []" "t = [] \<or> hd t = []"
      using span_list [of s "\<lambda>e. e \<noteq> []"] by blast
    have "even (length a)" by (rule elems_bytes_even [OF a(1)])
    then obtain b where b: "elems_bytes ovf (t = []) post = Some b" "length a + length b \<le> 16"
        "v6_run ovf t (a @ b, int (length a), int (length zs)) = Some st"
      using s v6_run_elems [OF p(2) _ a(2), of ovf t "int (length a)" "int (length zs)"] unfolding p(1)
      by (auto split: option.splits if_splits)
    have t: "t = []"
    proof (rule ccontr)
      assume "t \<noteq> []"
      with p(3) obtain t' where t': "t = [] # t'" by (cases t) auto
      with p(1) r(3) have "post \<noteq> []" by (cases post) auto
      with elems_bytes_empty [OF b(1)] have "b \<noteq> []" by simp
      from v6_run_again [OF this] b(3) show False unfolding t' by simp
    qed
    with b(3) have st: "st = (a @ b, int (length a), int (length zs))" by simp
    have "es = pre @ replicate (length zs) [] @ post" using es(1) r(1) p(1) t zs by simp
    moreover have "elems_bytes ovf False pre = Some a" "elems_bytes ovf True post = Some b" using a(1) b(1) False t by simp_all
    ultimately show ?thesis using that(2) [OF _ k _ _ st b(2)] by blast
  qed
qed

definition v6_finish :: "bytes \<times> int \<times> int \<Rightarrow> bytes option" where
  "v6_finish st =
     (case st of (w, z, c) \<Rightarrow>
        if z = - 1 then (if length w = 16 then Some w else None)
        else if length w = 16 \<or> c > 3 \<or> (if c = 3 then w \<noteq> [] else if c = 2 then z \<noteq> 0 \<and> z \<noteq> int (length w)
                else z = 0 \<or> z = int (length w)) then None
        else Some (take (nat z) w @ replicate (16 - length w) 0 @ drop (nat z) w))"

lemma ipv6_from_asc_run:
  assumes "length stack = 16"
  shows "ipv6_from_asc ovf stack s =
    (case v6_run ovf (pieces 0x3A s) ([], - 1, 0) of None \<Rightarrow> None | Some st \<Rightarrow> v6_finish st)"
proof -
  let ?s0 = "\<lparr>v6_tmp = stack, v6_total = 0, v6_zero_pos = - 1, v6_zero_cnt = 0\<rparr>"
  have "stat_of ?s0 ([], - 1, 0)" using assms by (simp add: stat_of_def)
  from v6.parse_run [OF this, of ovf s]
  obtain ret s' where l: "CONF_parse_list s 0x3A False (ipv6_cb ovf) ?s0 = (ret, s')"
    and r: "case v6_run ovf (pieces 0x3A s) ([], - 1, 0) of None \<Rightarrow> ret = 0 | Some st' \<Rightarrow> ret = 1 \<and> stat_of s' st'"
    by (auto split: prod.splits)
  show ?thesis
  proof (cases "v6_run ovf (pieces 0x3A s) ([], - 1, 0)")
    case None
    with r show ?thesis by (simp add: ipv6_from_asc_def l Let_def)
  next
    case (Some st)
    obtain w z c where st: "st = (w, z, c)" by (cases st)
    have z: "z = - 1 \<or> 0 \<le> z \<and> z \<le> int (length w)" using Some unfolding st by (rule v6_run_cases) auto
    from r Some st have t: "ret = 1" "v6_total s' = int (length w)" "v6_zero_pos s' = z" "v6_zero_cnt s' = c"
      "length (v6_tmp s') = 16" "take (length w) (v6_tmp s') = w" "length w \<le> 16"
      by (simp_all add: stat_of_def)
    have e: "ipv6_from_asc ovf stack s =
        (if z = - 1 \<and> int (length w) \<noteq> 16 then None
         else if z \<noteq> - 1 \<and>
             (if int (length w) = 16 then True
              else if c > 3 then True
              else if c = 3 then int (length w) > 0
              else if c = 2 then z \<noteq> 0 \<and> z \<noteq> int (length w)
              else z = 0 \<or> z = int (length w)) then None
         else if z \<ge> 0 then
             Some (take (nat z) (v6_tmp s') @ replicate (nat (16 - int (length w))) 0
                   @ (if int (length w) \<noteq> z then take (nat (int (length w) - z)) (drop (nat z) (v6_tmp s')) else []))
         else Some (take 16 (v6_tmp s')))"
      unfolding ipv6_from_asc_def l Let_def prod.case t(1-4) by simp
    show ?thesis
    proof (cases "z = - 1")
      case True
      then show ?thesis unfolding e using Some t(5,6) by (auto simp: v6_finish_def st)
    next
      case False
      then have z': "0 \<le> z" "z \<le> int (length w)" using z by simp_all
      then have "take (nat z) (v6_tmp s') = take (nat z) w"
        using t(6) by (metis min.absorb1 nat_le_iff take_take)
      moreover have "(if int (length w) \<noteq> z then take (nat (int (length w) - z)) (drop (nat z) (v6_tmp s')) else []) = drop (nat z) w"
      proof -
        have "nat (int (length w) - z) + nat z = length w" using z' by simp
        with z' t(6) show ?thesis by (auto simp: take_drop)
      qed
      moreover have "nat (16 - int (length w)) = 16 - length w" "int (length w) = 16 \<longleftrightarrow> length w = 16"
        "int (length w) > 0 \<longleftrightarrow> w \<noteq> []" by auto
      ultimately show ?thesis unfolding e using False z' Some by (simp only: v6_finish_def st) simp
    qed
  qed
qed

lemma ipv6_from_asc_iff:
  assumes "length stack = 16"
  shows "ipv6_from_asc ovf stack s = Some v \<longleftrightarrow> ipv6_elems ovf (pieces 0x3A s) v"
proof
  assume l: "ipv6_from_asc ovf stack s = Some v"
  then obtain st where st: "v6_run ovf (pieces 0x3A s) ([], - 1, 0) = Some st" "v6_finish st = Some v"
    unfolding ipv6_from_asc_run [OF assms] by (auto split: option.splits)
  from st(1) show "ipv6_elems ovf (pieces 0x3A s) v"
  proof (cases rule: v6_run_cases)
    case (1 w)
    with st(2) show ?thesis by (auto simp: v6_finish_def ipv6_elems_code split: if_splits)
  next
    case (2 pre k post a b)
    note pre = elems_bytes_empty [OF 2(3)] and post = elems_bytes_empty [OF 2(4)]
    from st(2) 2(6) have f: "length a + length b < 16" "v = a @ replicate (16 - length a - length b) 0 @ b"
      "k \<le> 3" "if k = 3 then a = [] \<and> b = [] else if k = 2 then a = [] \<or> b = [] else a \<noteq> [] \<and> b \<noteq> []"
      by (auto simp: v6_finish_def 2(5) split: if_splits)
    from f(3) 2(2) consider "k = 1" | "k = 2" | "k = 3" by linarith
    then have "k = 1 \<and> pre \<noteq> [] \<and> post \<noteq> [] \<or> k = 2 \<and> (pre = [] \<or> post = []) \<or> k = 3 \<and> pre = [] \<and> post = []"
      by cases (use f(4) pre post in simp_all)
    with 2(1,3,4) f(1,2) show ?thesis unfolding ipv6_elems_code by blast
  qed
next
  assume "ipv6_elems ovf (pieces 0x3A s) v"
  then consider "elems_bytes ovf True (pieces 0x3A s) = Some v" "length v = 16"
    | pre k post a b where "pieces 0x3A s = pre @ replicate k [] @ post"
        "elems_bytes ovf False pre = Some a" "elems_bytes ovf True post = Some b"
        "v = a @ replicate (16 - length a - length b) 0 @ b" "length a + length b < 16"
        "k = 1 \<and> pre \<noteq> [] \<and> post \<noteq> [] \<or> k = 2 \<and> (pre = [] \<or> post = []) \<or> k = 3 \<and> pre = [] \<and> post = []"
    unfolding ipv6_elems_code by blast
  then show "ipv6_from_asc ovf stack s = Some v"
  proof cases
    case 1
    with v6_run_elems [OF elems_bytes_nonempty [OF 1(1)], of "[]" ovf "[]" "- 1" 0]
    show ?thesis by (simp add: ipv6_from_asc_run [OF assms] v6_finish_def)
  next
    case (2 pre k post a b)
    have "0 < k" using 2(6) by auto
    from v6_run_shape [OF this 2(2,3,5)] have r: "v6_run ovf (pieces 0x3A s) ([], - 1, 0) = Some (a @ b, int (length a), int k)"
      unfolding 2(1) .
    from elems_bytes_empty [OF 2(2)] elems_bytes_empty [OF 2(3)] 2(4-6) show ?thesis by (auto simp: ipv6_from_asc_run [OF assms] r v6_finish_def)
  qed
qed


section \<open>Addresses as they are usually written\<close>

lemma length_group_bytes [simp]: "length (concat (map group_bytes gs)) = 2 * length gs"
  by (induction gs) (auto simp: group_bytes_def Let_def)

lemma elems_bytes_groups: "\<forall>g\<in>set gs. group_ok g \<Longrightarrow> elems_bytes ovf fin gs = Some (concat (map group_bytes gs))"
  by (induction gs) (auto simp: group_ok_def elem_bytes_def ipv6_hex_exact group_bytes_def Let_def)

lemma group_no_colon: "group_ok g \<Longrightarrow> 0x3A \<notin> set g"
  by (force simp: group_ok_def hex_val_ranges)

lemma strchr_none: "strchr s c \<noteq> None \<longleftrightarrow> c \<in> set s"
  by (induction s) (auto simp: strchr_def OPENSSL_memchr_def Let_def)

lemma joined_colon: "2 \<le> length es \<Longrightarrow> sep \<in> set (joined sep es)"
  by (cases "(sep, es)" rule: joined.cases) auto

text \<open>
  The text of an address reads back: eight groups in any spelling, or the groups before and after \<open>::\<close>, which
  stands for the zeros between them.
\<close>

lemma ipv6_text_reads:
  assumes "length stack = 16"
  shows "\<forall>g\<in>set gs. group_ok g \<Longrightarrow> length gs = 8 \<Longrightarrow>
      x509v3_a2i_ipadd ovf stack (joined 0x3A gs) = Some (concat (map group_bytes gs))"
    and "\<forall>g\<in>set (pre @ post). group_ok g \<Longrightarrow> length pre + length post \<le> 7 \<Longrightarrow>
      x509v3_a2i_ipadd ovf stack
          (joined 0x3A (pre @ replicate (1 + (if pre = [] then 1 else 0) + (if post = [] then 1 else 0)) [] @ post)) =
        Some (concat (map group_bytes pre) @ replicate (16 - 2 * (length pre + length post)) 0 @ concat (map group_bytes post))"
proof -
  have ip: "x509v3_a2i_ipadd ovf stack (joined 0x3A es) = Some v"
    if "ipv6_elems ovf es v" "\<forall>e\<in>set es. 0x3A \<notin> set e" "2 \<le> length es" for es v
  proof -
    have "es \<noteq> []" using that(3) by auto
    then have "ipv6_from_asc ovf stack (joined 0x3A es) = Some v"
      using that ipv6_from_asc_iff [OF assms] by (simp add: pieces_joined)
    then show ?thesis using joined_colon [OF that(3)] by (simp add: x509v3_a2i_ipadd_def strchr_none [simplified])
  qed
  show "x509v3_a2i_ipadd ovf stack (joined 0x3A gs) = Some (concat (map group_bytes gs))"
    if "\<forall>g\<in>set gs. group_ok g" "length gs = 8"
    using that group_no_colon by (intro ip) (auto simp: ipv6_elems_code elems_bytes_groups)
  show "x509v3_a2i_ipadd ovf stack
          (joined 0x3A (pre @ replicate (1 + (if pre = [] then 1 else 0) + (if post = [] then 1 else 0)) [] @ post)) =
        Some (concat (map group_bytes pre) @ replicate (16 - 2 * (length pre + length post)) 0 @ concat (map group_bytes post))"
    (is "_ (joined _ (pre @ replicate ?k [] @ post)) = Some ?v")
    if ok: "\<forall>g\<in>set (pre @ post). group_ok g" and len: "length pre + length post \<le> 7"
  proof (rule ip)
    let ?a = "concat (map group_bytes pre)" and ?b = "concat (map group_bytes post)"
    have "elems_bytes ovf False pre = Some ?a" "elems_bytes ovf True post = Some ?b"
      using ok by (auto simp: elems_bytes_groups)
    moreover have "length ?a + length ?b < 16" "16 - length ?a - length ?b = 16 - 2 * (length pre + length post)"
      using len by simp_all
    moreover have "?k = 1 \<and> pre \<noteq> [] \<and> post \<noteq> [] \<or> ?k = 2 \<and> (pre = [] \<or> post = []) \<or> ?k = 3 \<and> pre = [] \<and> post = []" by auto
    ultimately show "ipv6_elems ovf (pre @ replicate ?k [] @ post) ?v" unfolding ipv6_elems_code by metis
    show "\<forall>e\<in>set (pre @ replicate ?k [] @ post). 0x3A \<notin> set e" using ok group_no_colon by auto
    show "2 \<le> length (pre @ replicate ?k [] @ post)" by (cases pre; cases post) auto
  qed
qed


text \<open>A single colon is read as the address \<open>::\<close>, and an IPv4 address can be followed by anything.\<close>

theorem lax_addresses_read:
  "x509v3_a2i_ipadd id (replicate 16 0xFF) [0x3A] = Some (replicate 16 0)"
  "x509v3_a2i_ipadd id (replicate 16 0xFF) [0x31, 0x2E, 0x32, 0x2E, 0x33, 0x2E, 0x34, 0x78] = Some [1, 2, 3, 4]"
  by code_simp+

end
