(* ===== verification/X509Ncons.thy ===== *)
theory X509Ncons
  imports X509Check
begin

text \<open>
  Name constraints (crypto/x509v3/v3_ncons.c) and the name checks of chain verification
  (crypto/x509/x509_vfy.c): the names of a certificate against the permitted and excluded subtrees
  of the certificates above it, and the leaf against the host, mailbox and address that the caller asks for.

  A \<open>CBS\<close> over a string is the list of the bytes left in it. \<open>i2d\<close> stands for \<open>i2d_X509_NAME\<close> on a modified name: the
  name with its canonical encoding up to date, or \<open>None\<close> where it fails. A certificate of the chain is its index.
\<close>

section \<open>The code: one name against one subtree\<close>

definition X509_V_OK :: int where "X509_V_OK = 0"
definition X509_V_ERR_UNSPECIFIED :: int where "X509_V_ERR_UNSPECIFIED = 1"
definition X509_V_ERR_OUT_OF_MEM :: int where "X509_V_ERR_OUT_OF_MEM = 17"
definition X509_V_ERR_PERMITTED_VIOLATION :: int where "X509_V_ERR_PERMITTED_VIOLATION = 47"
definition X509_V_ERR_EXCLUDED_VIOLATION :: int where "X509_V_ERR_EXCLUDED_VIOLATION = 48"
definition X509_V_ERR_SUBTREE_MINMAX :: int where "X509_V_ERR_SUBTREE_MINMAX = 49"
definition X509_V_ERR_UNSUPPORTED_CONSTRAINT_TYPE :: int where "X509_V_ERR_UNSUPPORTED_CONSTRAINT_TYPE = 51"
definition X509_V_ERR_UNSUPPORTED_NAME_SYNTAX :: int where "X509_V_ERR_UNSUPPORTED_NAME_SYNTAX = 53"
definition X509_V_ERR_HOSTNAME_MISMATCH :: int where "X509_V_ERR_HOSTNAME_MISMATCH = 62"
definition X509_V_ERR_EMAIL_MISMATCH :: int where "X509_V_ERR_EMAIL_MISMATCH = 63"
definition X509_V_ERR_IP_ADDRESS_MISMATCH :: int where "X509_V_ERR_IP_ADDRESS_MISMATCH = 64"
definition X509_V_ERR_INVALID_CALL :: int where "X509_V_ERR_INVALID_CALL = 65"
definition X509_V_ERR_NAME_CONSTRAINTS_WITHOUT_SANS :: int where "X509_V_ERR_NAME_CONSTRAINTS_WITHOUT_SANS = 67"

lemmas v_defs = X509_V_OK_def X509_V_ERR_UNSPECIFIED_def X509_V_ERR_OUT_OF_MEM_def X509_V_ERR_PERMITTED_VIOLATION_def
  X509_V_ERR_EXCLUDED_VIOLATION_def X509_V_ERR_SUBTREE_MINMAX_def X509_V_ERR_UNSUPPORTED_CONSTRAINT_TYPE_def
  X509_V_ERR_UNSUPPORTED_NAME_SYNTAX_def X509_V_ERR_NAME_CONSTRAINTS_WITHOUT_SANS_def

definition nc_dn :: "(x509_name \<Rightarrow> x509_name option) \<Rightarrow> x509_name \<Rightarrow> x509_name \<Rightarrow> int" where
  "nc_dn i2d nm base =
     (case (if xn_modified nm then i2d nm else Some nm) of
        None \<Rightarrow> X509_V_ERR_OUT_OF_MEM
      | Some nm \<Rightarrow>
          (case (if xn_modified base then i2d base else Some base) of
             None \<Rightarrow> X509_V_ERR_OUT_OF_MEM
           | Some base \<Rightarrow>
               if length (xn_canon_enc base) > length (xn_canon_enc nm) then X509_V_ERR_PERMITTED_VIOLATION
               else if OPENSSL_memcmp (xn_canon_enc base) (take (length (xn_canon_enc base)) (xn_canon_enc nm)) \<noteq> 0
               then X509_V_ERR_PERMITTED_VIOLATION
               else X509_V_OK))"

definition starts_with :: "bytes \<Rightarrow> u8 \<Rightarrow> bool" where
  "starts_with cbs c = (length cbs > 0 \<and> cbs ! 0 = c)"

definition nc_equal_case :: "bytes \<Rightarrow> bytes \<Rightarrow> bool" where
  "nc_equal_case a b =
     (if length a \<noteq> length b then False
      else list_all (\<lambda>(x, y). OPENSSL_tolower (uint x) = OPENSSL_tolower (uint y)) (zip a b))"

definition has_suffix_case :: "bytes \<Rightarrow> bytes \<Rightarrow> bool" where
  "has_suffix_case a b =
     (if length a < length b then False else nc_equal_case (drop (length a - length b) a) b)"

text \<open>\<open>CBS_get_until_first\<close>: the bytes before the first \<open>c\<close>, and what is left from it on.\<close>

definition get_until_first :: "bytes \<Rightarrow> u8 \<Rightarrow> (bytes \<times> bytes) option" where
  "get_until_first cbs c = map_option (\<lambda>i. (take i cbs, drop i cbs)) (OPENSSL_memchr cbs c)"

definition nc_dns :: "bytes \<Rightarrow> bytes \<Rightarrow> int" where
  "nc_dns dns base =
     (if length base = 0 then X509_V_OK
      else if starts_with base c_dot then
        (if has_suffix_case dns base then X509_V_OK else X509_V_ERR_PERMITTED_VIOLATION)
      else
        (let rest = drop (length dns - length base - 1) dns in
         if length dns > length base then
           (if \<not> (rest \<noteq> [] \<and> hd rest = c_dot) then X509_V_ERR_PERMITTED_VIOLATION
            else if \<not> nc_equal_case (tl rest) base then X509_V_ERR_PERMITTED_VIOLATION
            else X509_V_OK)
         else if \<not> nc_equal_case dns base then X509_V_ERR_PERMITTED_VIOLATION
         else X509_V_OK))"

definition nc_email :: "bytes \<Rightarrow> bytes \<Rightarrow> int" where
  "nc_email eml base =
     (case get_until_first eml c_at of
        None \<Rightarrow> X509_V_ERR_UNSUPPORTED_NAME_SYNTAX
      | Some (eml_local, eml) \<Rightarrow>
          (case get_until_first base c_at of
             None \<Rightarrow>
               if starts_with base c_dot then
                 (if has_suffix_case eml base then X509_V_OK else X509_V_ERR_PERMITTED_VIOLATION)
               else if \<not> nc_equal_case base (drop 1 eml) then X509_V_ERR_PERMITTED_VIOLATION
               else X509_V_OK
           | Some (base_local, base) \<Rightarrow>
               if length base_local > 0 \<and> base_local \<noteq> eml_local then X509_V_ERR_PERMITTED_VIOLATION
               else if \<not> nc_equal_case (drop 1 base) (drop 1 eml) then X509_V_ERR_PERMITTED_VIOLATION
               else X509_V_OK))"

text \<open>The host of a URI, after \<open>scheme://\<close>: up to a port, else up to a path, else all of it.\<close>

definition uri_host :: "bytes \<Rightarrow> bytes" where
  "uri_host uri =
     (case get_until_first uri 0x3A of
        Some (host, _) \<Rightarrow> host
      | None \<Rightarrow> (case get_until_first uri 0x2F of Some (host, _) \<Rightarrow> host | None \<Rightarrow> uri))"

definition nc_uri :: "bytes \<Rightarrow> bytes \<Rightarrow> int" where
  "nc_uri uri base =
     (case get_until_first uri 0x3A of
        None \<Rightarrow> X509_V_ERR_UNSUPPORTED_NAME_SYNTAX
      | Some (scheme, rest) \<Rightarrow>
          (case drop 1 rest of
             a # b # uri \<Rightarrow>
               (if a \<noteq> 0x2F \<or> b \<noteq> 0x2F then X509_V_ERR_UNSUPPORTED_NAME_SYNTAX
                else
                  (let host = uri_host uri in
                   if length host = 0 then X509_V_ERR_UNSUPPORTED_NAME_SYNTAX
                   else if starts_with base c_dot then
                     (if has_suffix_case host base then X509_V_OK else X509_V_ERR_PERMITTED_VIOLATION)
                   else if \<not> nc_equal_case base host then X509_V_ERR_PERMITTED_VIOLATION
                   else X509_V_OK))
           | _ \<Rightarrow> X509_V_ERR_UNSUPPORTED_NAME_SYNTAX))"

fun nc_match_single :: "(x509_name \<Rightarrow> x509_name option) \<Rightarrow> general_name \<Rightarrow> general_name \<Rightarrow> int" where
  "nc_match_single i2d (directoryName nm) (directoryName base) = nc_dn i2d nm base"
| "nc_match_single i2d (dNSName s) (dNSName base) = nc_dns (contents_of s) (contents_of base)"
| "nc_match_single i2d (rfc822Name s) (rfc822Name base) = nc_email (contents_of s) (contents_of base)"
| "nc_match_single i2d (uniformResourceIdentifier s) (uniformResourceIdentifier base) =
     nc_uri (contents_of s) (contents_of base)"
| "nc_match_single i2d _ _ = X509_V_ERR_UNSUPPORTED_CONSTRAINT_TYPE"

section \<open>The code: the names of a certificate\<close>

text \<open>The two loops of \<open>nc_match\<close>: \<open>Inl\<close> is an early return, \<open>Inr\<close> the value of \<open>match\<close> at the end.\<close>

fun permitted_loop :: "(x509_name \<Rightarrow> x509_name option) \<Rightarrow> general_name \<Rightarrow> general_subtree list \<Rightarrow> int \<Rightarrow> int + int" where
  "permitted_loop i2d gen [] found = Inr found"
| "permitted_loop i2d gen (sub # subs) found =
     (if gen_type gen \<noteq> gen_type (gs_base sub) then permitted_loop i2d gen subs found
      else if gs_minimum sub \<noteq> None \<or> gs_maximum sub \<noteq> None then Inl X509_V_ERR_SUBTREE_MINMAX
      else if found = 2 then permitted_loop i2d gen subs found
      else
        (let found = (if found = 0 then 1 else found); r = nc_match_single i2d gen (gs_base sub) in
         if r = X509_V_OK then permitted_loop i2d gen subs 2
         else if r \<noteq> X509_V_ERR_PERMITTED_VIOLATION then Inl r
         else permitted_loop i2d gen subs found))"

fun excluded_loop :: "(x509_name \<Rightarrow> x509_name option) \<Rightarrow> general_name \<Rightarrow> general_subtree list \<Rightarrow> int" where
  "excluded_loop i2d gen [] = X509_V_OK"
| "excluded_loop i2d gen (sub # subs) =
     (if gen_type gen \<noteq> gen_type (gs_base sub) then excluded_loop i2d gen subs
      else if gs_minimum sub \<noteq> None \<or> gs_maximum sub \<noteq> None then X509_V_ERR_SUBTREE_MINMAX
      else
        (let r = nc_match_single i2d gen (gs_base sub) in
         if r = X509_V_OK then X509_V_ERR_EXCLUDED_VIOLATION
         else if r \<noteq> X509_V_ERR_PERMITTED_VIOLATION then r
         else excluded_loop i2d gen subs))"

definition nc_match :: "(x509_name \<Rightarrow> x509_name option) \<Rightarrow> general_name \<Rightarrow> name_constraints \<Rightarrow> int" where
  "nc_match i2d gen nc =
     (case permitted_loop i2d gen (permittedSubtrees nc) 0 of
        Inl r \<Rightarrow> r
      | Inr found \<Rightarrow>
          if found = 1 then X509_V_ERR_PERMITTED_VIOLATION
          else excluded_loop i2d gen (excludedSubtrees nc))"

definition alt_names :: "x509 \<Rightarrow> general_name list" where
  "alt_names x = (case x_altname x of None \<Rightarrow> [] | Some gens \<Rightarrow> gens)"

text \<open>The guard against an expensive check, in \<open>size_t\<close>.\<close>

definition nc_too_many :: "nat \<Rightarrow> nat \<Rightarrow> nat \<Rightarrow> nat \<Rightarrow> bool" where
  "nc_too_many entries alts permitted excluded =
     (let name_count = of_nat entries + of_nat alts :: u64;
          constraint_count = of_nat permitted + of_nat excluded :: u64;
          check_count = constraint_count * name_count
      in name_count < of_nat entries \<or> constraint_count < of_nat permitted
         \<or> (constraint_count \<noteq> 0 \<and> check_count div constraint_count \<noteq> name_count)
         \<or> check_count > 2 ^ 20)"

fun names_loop :: "(general_name \<Rightarrow> int) \<Rightarrow> general_name list \<Rightarrow> int" where
  "names_loop check [] = X509_V_OK"
| "names_loop check (gen # gens) =
     (let r = check gen in if r \<noteq> X509_V_OK then r else names_loop check gens)"

definition NAME_CONSTRAINTS_check :: "(x509_name \<Rightarrow> x509_name option) \<Rightarrow> x509 \<Rightarrow> name_constraints \<Rightarrow> int" where
  "NAME_CONSTRAINTS_check i2d x nc =
     (let nm = x_subject x in
      if nc_too_many (length (xn_entries nm)) (length (alt_names x))
           (length (permittedSubtrees nc)) (length (excludedSubtrees nc)) then X509_V_ERR_UNSPECIFIED
      else
        (let subject_result =
           (if length (xn_entries nm) > 0 then
              (let r = nc_match i2d (directoryName nm) nc in
               if r \<noteq> X509_V_OK then Some r
               else
                 name_loop (\<lambda>str.
                   if as_type str \<noteq> V_ASN1_IA5STRING then Some X509_V_ERR_UNSUPPORTED_NAME_SYNTAX
                   else (let r = nc_match i2d (rfc822Name str) nc in if r \<noteq> X509_V_OK then Some r else None))
                   nm NID_pkcs9_emailAddress (- 1))
            else None)
         in case subject_result of
              Some r \<Rightarrow> r
            | None \<Rightarrow> names_loop (\<lambda>gen. nc_match i2d gen nc) (alt_names x)))"

section \<open>The code: the chain\<close>

definition EXFLAG_SI :: u64 where "EXFLAG_SI = 0x20"

definition reject_dns_name_in_common_name :: "allocator \<Rightarrow> x509 \<Rightarrow> int" where
  "reject_dns_name_in_common_name al x =
     (case name_loop (\<lambda>common_name.
        case ASN1_STRING_to_UTF8 al (Some common_name) of
          None \<Rightarrow> Some X509_V_ERR_OUT_OF_MEM
        | Some r \<Rightarrow>
            if x509v3_looks_like_dns_name (utf8_text r) then Some X509_V_ERR_NAME_CONSTRAINTS_WITHOUT_SANS else None)
        (x_subject x) NID_commonName (- 1) of
      Some r \<Rightarrow> r
    | None \<Rightarrow> X509_V_OK)"

text \<open>
  What the checks write to the \<open>X509_STORE_CTX\<close>. The user's callback \<open>cb\<close> stands for \<open>verify_cb(0, ctx)\<close>: its answer
  and the context that it leaves.
\<close>

record store_ctx =
  sc_error :: int
  sc_error_depth :: int
  sc_current_cert :: nat

type_synonym verify_cb = "store_ctx \<Rightarrow> bool \<times> store_ctx"

text \<open>The inner loop, over the indices \<open>js\<close> of the certificates above the one at \<open>i\<close>: whether it goes on, and \<open>has_name_constraints\<close>.\<close>

fun above_loop :: "(x509_name \<Rightarrow> x509_name option) \<Rightarrow> verify_cb \<Rightarrow> x509 list \<Rightarrow> nat \<Rightarrow> nat list \<Rightarrow> bool \<Rightarrow> store_ctx \<Rightarrow> bool \<times> bool \<times> store_ctx" where
  "above_loop i2d cb chain i [] has ctx = (True, has, ctx)"
| "above_loop i2d cb chain i (j # js) has ctx =
     (case x_nc (chain ! j) of
        None \<Rightarrow> above_loop i2d cb chain i js has ctx
      | Some nc \<Rightarrow>
          (let rv = NAME_CONSTRAINTS_check i2d (chain ! i) nc in
           if rv = X509_V_OK then above_loop i2d cb chain i js True ctx
           else if rv = X509_V_ERR_OUT_OF_MEM then (False, True, ctx\<lparr>sc_error := rv\<rparr>)
           else
             (case cb (ctx\<lparr>sc_error := rv, sc_error_depth := int i, sc_current_cert := i\<rparr>) of
                (ok, ctx) \<Rightarrow> if \<not> ok then (False, True, ctx) else above_loop i2d cb chain i js True ctx)))"

fun chain_loop :: "(x509_name \<Rightarrow> x509_name option) \<Rightarrow> verify_cb \<Rightarrow> x509 list \<Rightarrow> nat list \<Rightarrow> bool \<Rightarrow> store_ctx \<Rightarrow> bool \<times> bool \<times> store_ctx" where
  "chain_loop i2d cb chain [] has ctx = (True, has, ctx)"
| "chain_loop i2d cb chain (i # is) has ctx =
     (if i \<noteq> 0 \<and> x_ex_flags (chain ! i) AND EXFLAG_SI \<noteq> 0 then chain_loop i2d cb chain is has ctx
      else
        (case above_loop i2d cb chain i (rev [i + 1..<length chain]) has ctx of
           (go, has, ctx) \<Rightarrow> if \<not> go then (False, has, ctx) else chain_loop i2d cb chain is has ctx))"

text \<open>After the loops \<open>i\<close> is \<open>-1\<close>, which is what the last error depth is set to.\<close>

definition check_name_constraints ::
  "allocator \<Rightarrow> (x509_name \<Rightarrow> x509_name option) \<Rightarrow> verify_cb \<Rightarrow> x509 list \<Rightarrow> store_ctx \<Rightarrow> bool \<times> store_ctx" where
  "check_name_constraints al i2d cb chain ctx =
     (case chain_loop i2d cb chain (rev [0..<length chain]) False ctx of
        (go, has_name_constraints, ctx) \<Rightarrow>
          if \<not> go then (False, ctx)
          else if has_name_constraints \<and> x_altname (chain ! 0) = None then
            (let rv = reject_dns_name_in_common_name al (chain ! 0) in
             if rv = X509_V_OK then (True, ctx)
             else if rv = X509_V_ERR_OUT_OF_MEM then (False, ctx\<lparr>sc_error := rv\<rparr>)
             else
               (case cb (ctx\<lparr>sc_error := rv, sc_error_depth := - 1, sc_current_cert := 0\<rparr>) of
                  (ok, ctx) \<Rightarrow> (ok, ctx)))
          else (True, ctx))"

record verify_param =
  vp_hosts :: "bytes list option"
  vp_hostflags :: u32
  vp_peername :: "bytes option"
  vp_email :: "bytes option"
  vp_ip :: "bytes option"
  vp_poison :: bool

fun hosts_loop :: "allocator \<Rightarrow> x509 \<Rightarrow> u32 \<Rightarrow> bytes list \<Rightarrow> bytes option \<Rightarrow> bool \<times> bytes option" where
  "hosts_loop al x hostflags [] peername = (False, peername)"
| "hosts_loop al x hostflags (name # names) peername =
     (case X509_check_host al x (Some (take (strlen name) name)) hostflags True of
        (rv, peer) \<Rightarrow>
          (let peername = (case peer of None \<Rightarrow> peername | Some p \<Rightarrow> p) in
           if rv > 0 then (True, peername) else hosts_loop al x hostflags names peername))"

definition check_hosts :: "allocator \<Rightarrow> x509 \<Rightarrow> verify_param \<Rightarrow> bool \<times> verify_param" where
  "check_hosts al x param =
     (let hosts = (case vp_hosts param of None \<Rightarrow> [] | Some hs \<Rightarrow> hs) in
      case hosts_loop al x (vp_hostflags param) hosts None of
        (found, peername) \<Rightarrow> (found \<or> hosts = [], param\<lparr>vp_peername := peername\<rparr>))"

definition check_id_error :: "verify_cb \<Rightarrow> int \<Rightarrow> store_ctx \<Rightarrow> bool \<times> store_ctx" where
  "check_id_error cb errcode ctx = cb (ctx\<lparr>sc_error := errcode, sc_current_cert := 0, sc_error_depth := 0\<rparr>)"

text \<open>A step of \<open>check_id\<close>: when \<open>bad\<close> holds, the error is reported, and the callback may let it pass.\<close>

definition id_step :: "verify_cb \<Rightarrow> bool \<Rightarrow> int \<Rightarrow> store_ctx \<Rightarrow> bool \<times> store_ctx" where
  "id_step cb bad errcode ctx = (if bad then check_id_error cb errcode ctx else (True, ctx))"

definition check_id :: "allocator \<Rightarrow> verify_cb \<Rightarrow> x509 \<Rightarrow> verify_param \<Rightarrow> store_ctx \<Rightarrow> bool \<times> verify_param \<times> store_ctx" where
  "check_id al cb x vpm ctx =
     (case id_step cb (vp_poison vpm) X509_V_ERR_INVALID_CALL ctx of
        (False, ctx) \<Rightarrow> (False, vpm, ctx)
      | (True, ctx) \<Rightarrow>
          (case (if vp_hosts vpm \<noteq> None then check_hosts al x vpm else (True, vpm)) of
             (hosts_ok, vpm) \<Rightarrow>
               (case id_step cb (\<not> hosts_ok) X509_V_ERR_HOSTNAME_MISMATCH ctx of
                  (False, ctx) \<Rightarrow> (False, vpm, ctx)
                | (True, ctx) \<Rightarrow>
                    (case id_step cb (vp_email vpm \<noteq> None \<and> X509_check_email al x (vp_email vpm) 0 \<le> 0)
                            X509_V_ERR_EMAIL_MISMATCH ctx of
                       (False, ctx) \<Rightarrow> (False, vpm, ctx)
                     | (True, ctx) \<Rightarrow>
                         (case id_step cb (vp_ip vpm \<noteq> None \<and> X509_check_ip al x (vp_ip vpm) 0 \<le> 0)
                                 X509_V_ERR_IP_ADDRESS_MISMATCH ctx of
                            (ok, ctx) \<Rightarrow> (ok, vpm, ctx))))))"

section \<open>A name inside a subtree\<close>

lemma tolower_uint: "OPENSSL_tolower (uint c) = uint (lower c)" for c :: u8
proof (cases rule: lower_cases [of c])
  case 1
  then have "\<not> (0x41 \<le> uint c \<and> uint c \<le> 0x5A)" by (simp add: word_le_def)
  with 1 show ?thesis by (simp add: OPENSSL_tolower_def)
next
  case 2
  then have "uint (lower c) = uint c + 32" by (metis of_nat_add of_nat_numeral of_nat_unat)
  moreover have "0x41 \<le> uint c \<and> uint c \<le> 0x5A"
    using 2(2,3) by (metis (mono_tags) of_nat_le_iff of_nat_numeral of_nat_unat)
  ultimately show ?thesis by (simp add: OPENSSL_tolower_def)
qed

lemma nc_equal_case_iff: "nc_equal_case a b \<longleftrightarrow> map lower a = map lower b"
proof -
  have "length a = length b \<Longrightarrow>
      list_all (\<lambda>(x, y). OPENSSL_tolower (uint x) = OPENSSL_tolower (uint y)) (zip a b) \<longleftrightarrow> map lower a = map lower b"
    by (induction a b rule: list_induct2) (simp_all add: tolower_uint word_uint_eq_iff)
  then show ?thesis by (auto simp: nc_equal_case_def dest: map_eq_imp_length_eq)
qed

text \<open>
  A DNS name is inside the subtree of \<open>b\<close>: any name when \<open>b\<close> is empty, a name that ends in \<open>b\<close> when \<open>b\<close> starts
  with a full stop, and otherwise \<open>b\<close> itself and the names that add labels on its left.
\<close>

definition dns_within :: "bytes \<Rightarrow> bytes \<Rightarrow> bool" where
  "dns_within d b \<longleftrightarrow>
     b = []
     \<or> (if hd b = c_dot then \<exists>x y. d = x @ y \<and> map lower y = map lower b
        else map lower d = map lower b \<or> (\<exists>x y. d = x @ c_dot # y \<and> map lower y = map lower b))"

lemma has_suffix_case_iff: "has_suffix_case a b \<longleftrightarrow> (\<exists>x y. a = x @ y \<and> map lower y = map lower b)"
proof
  assume s: "has_suffix_case a b"
  let ?y = "drop (length a - length b) a"
  have "a = take (length a - length b) a @ ?y" by simp
  with s show "\<exists>x y. a = x @ y \<and> map lower y = map lower b"
    by (metis has_suffix_case_def nc_equal_case_iff)
next
  assume "\<exists>x y. a = x @ y \<and> map lower y = map lower b"
  then obtain x y where xy: "a = x @ y" "map lower y = map lower b" by blast
  then have "length y = length b" by (metis length_map)
  with xy show "has_suffix_case a b" by (simp add: has_suffix_case_def nc_equal_case_iff)
qed

lemma dot_suffix_iff:
  assumes "length d > length b"
  shows "(let rest = drop (length d - length b - 1) d in rest \<noteq> [] \<and> hd rest = c_dot \<and> nc_equal_case (tl rest) b)
    \<longleftrightarrow> (\<exists>x y. d = x @ c_dot # y \<and> map lower y = map lower b)"
proof -
  let ?r = "drop (length d - length b - 1) d"
  have d: "d = take (length d - length b - 1) d @ ?r" "length ?r = Suc (length b)" using assms by auto
  show ?thesis
  proof
    assume "let rest = ?r in rest \<noteq> [] \<and> hd rest = c_dot \<and> nc_equal_case (tl rest) b"
    then obtain y where y: "?r = c_dot # y" "nc_equal_case y b" unfolding Let_def by (cases ?r) auto
    have "d = take (length d - length b - 1) d @ c_dot # y" using d(1) unfolding y(1) .
    with y(2) nc_equal_case_iff show "\<exists>x y. d = x @ c_dot # y \<and> map lower y = map lower b" by blast
  next
    assume "\<exists>x y. d = x @ c_dot # y \<and> map lower y = map lower b"
    then obtain x y where xy: "d = x @ c_dot # y" "map lower y = map lower b" by blast
    then have "length y = length b" by (metis length_map)
    with xy show "let rest = ?r in rest \<noteq> [] \<and> hd rest = c_dot \<and> nc_equal_case (tl rest) b"
      by (simp add: Let_def nc_equal_case_iff)
  qed
qed

lemma nc_dns_within: "nc_dns d b = (if dns_within d b then X509_V_OK else X509_V_ERR_PERMITTED_VIOLATION)"
proof (cases "b = []")
  case True
  then show ?thesis by (simp add: nc_dns_def dns_within_def)
next
  case b: False
  then have st: "starts_with b c_dot \<longleftrightarrow> hd b = c_dot" by (simp add: starts_with_def hd_conv_nth)
  show ?thesis
  proof (cases "hd b = c_dot")
    case True
    with b st show ?thesis by (simp add: nc_dns_def dns_within_def has_suffix_case_iff)
  next
    case False
    show ?thesis
    proof (cases "length d > length b")
      case True
      have "nc_dns d b =
          (if (let rest = drop (length d - length b - 1) d in rest \<noteq> [] \<and> hd rest = c_dot \<and> nc_equal_case (tl rest) b)
           then X509_V_OK else X509_V_ERR_PERMITTED_VIOLATION)"
        using b False st True by (simp add: nc_dns_def Let_def)
      moreover have "map lower d \<noteq> map lower b" using True by (metis length_map less_irrefl)
      ultimately show ?thesis
        using b False by (simp only: dot_suffix_iff [OF True] dns_within_def if_False simp_thms)
    next
      case le: False
      have "\<not> (\<exists>x y. d = x @ c_dot # y \<and> map lower y = map lower b)"
      proof
        assume "\<exists>x y. d = x @ c_dot # y \<and> map lower y = map lower b"
        then obtain x y where xy: "d = x @ c_dot # y" "map lower y = map lower b" by blast
        from xy(2) have "length y = length b" by (metis length_map)
        with xy(1) le show False by simp
      qed
      with b False st le show ?thesis by (auto simp: nc_dns_def dns_within_def nc_equal_case_iff)
    qed
  qed
qed

text \<open>Subtrees do not see the case of a name, nor the wildcard at its start.\<close>

lemma map_lower_split:
  assumes "map lower p = map lower h" "p = x @ y"
  obtains x' y' where "h = x' @ y'" "map lower x = map lower x'" "map lower y = map lower y'"
proof -
  have "map lower (take (length x) h) = map lower x" "map lower (drop (length x) h) = map lower y"
    using assms by (simp_all flip: take_map drop_map assms(1))
  then show ?thesis using that [of "take (length x) h" "drop (length x) h"] by simp
qed

lemma dns_within_case: "map lower p = map lower h \<Longrightarrow> dns_within p b \<Longrightarrow> dns_within h b"
proof -
  assume m: "map lower p = map lower h" and w: "dns_within p b"
  have suf: "\<exists>x' y'. h = x' @ y' \<and> map lower y' = map lower y" if "p = x @ y" for x y
    using map_lower_split [OF m that] by metis
  have dot: "\<exists>x' y'. h = x' @ c_dot # y' \<and> map lower y' = map lower y" if p: "p = x @ c_dot # y" for x y
  proof -
    from map_lower_split [OF m p] obtain x' z where z: "h = x' @ z" "map lower (c_dot # y) = map lower z" by metis
    then obtain c y' where "z = c # y'" by (cases z) auto
    with z show ?thesis using lower_dot [of c] by (auto simp: lower_def split: if_splits)
  qed
  show ?thesis using w suf dot m unfolding dns_within_def by (metis (no_types, lifting))
qed

lemma star_not_lower: "map lower y = map lower b \<Longrightarrow> c_star \<notin> set b \<Longrightarrow> c_star \<notin> set y"
proof -
  assume "map lower y = map lower b" "c_star \<notin> set b"
  moreover have "c_star \<in> set xs \<longleftrightarrow> c_star \<in> set (map lower xs)" for xs
    by (induction xs) (simp_all add: eq_commute [of c_star])
  ultimately show ?thesis by metis
qed

lemma suffix_after_star:
  assumes "u @ c_star # s = x @ y" "c_star \<notin> set y"
  shows "\<exists>z. s = z @ y"
proof -
  from assms(1) consider t where "u = x @ t" "t @ c_star # s = y" | t where "x = u @ t" "c_star # s = t @ y"
    by (auto simp: append_eq_append_conv2)
  then show ?thesis
  proof cases
    case 1
    with assms(2) show ?thesis by auto
  next
    case 2
    with assms(2) show ?thesis by (cases t) auto
  qed
qed

lemma dns_within_wildcard:
  assumes l: "labels p = (u @ c_star # v) # ls" and w: "wild_match u v ls h"
    and b: "dns_within p b" "c_star \<notin> set b"
  shows "dns_within h b"
proof -
  obtain s where p: "p = u @ c_star # s" "labels s = v # ls"
    using labels_split_first [of p "u @ [c_star]" v ls] l by auto
  obtain u' w' v' hs where h: "labels h = ((u' @ w') @ v') # hs" "list_all2 same_name (v # ls) (v' # hs)"
    using w unfolding wild_match_def by auto
  obtain s' where s': "h = (u' @ w') @ s'" "labels s' = v' # hs" using labels_split_first [OF h(1)] by blast
  have "same_name s s'" using same_name_labels [THEN iffD2] h(2) p(2) s'(2) by metis
  then have m: "map lower s = map lower s'" by (simp add: same_name_def)
  have suf: "\<exists>x' y'. h = x' @ y' \<and> map lower y' = map lower y" if "p = x @ y" "c_star \<notin> set y" for x y
  proof -
    from that(1) p(1) have "u @ c_star # s = x @ y" by simp
    from suffix_after_star [OF this that(2)] obtain z where "s = z @ y" ..
    from map_lower_split [OF m this] obtain x' y' where "s' = x' @ y'" "map lower y = map lower y'" .
    with s'(1) have "h = (u' @ w' @ x') @ y' \<and> map lower y' = map lower y" by simp
    then show ?thesis by blast
  qed
  show ?thesis
  proof (cases "b = []")
    case False
    show ?thesis
    proof (cases "hd b = c_dot")
      case True
      then obtain x y where xy: "p = x @ y" "map lower y = map lower b"
        using b(1) False unfolding dns_within_def by auto
      from suf [OF xy(1) star_not_lower [OF xy(2) b(2)]] xy(2) True show ?thesis
        unfolding dns_within_def by auto
    next
      case hd: False
      have "map lower p \<noteq> map lower b" using star_not_lower [OF _ b(2), of p] unfolding p(1) by auto
      then obtain x y where xy: "p = x @ c_dot # y" "map lower y = map lower b"
        using b(1) False hd unfolding dns_within_def by auto
      then have "c_star \<notin> set (c_dot # y)" using star_not_lower b(2) by auto
      from suf [OF xy(1) this] obtain x' z where z: "h = x' @ z" "map lower z = map lower (c_dot # y)" by blast
      then obtain c y' where "z = c # y'" by (cases z) auto
      with z have "h = x' @ c_dot # y'" "map lower y' = map lower y" using lower_dot [of c] by (auto simp: lower_def split: if_splits)
      with xy(2) hd show ?thesis unfolding dns_within_def by auto
    qed
  qed (simp add: dns_within_def)
qed

section \<open>The names of a certificate against the subtrees\<close>

definition same_type :: "general_name \<Rightarrow> general_subtree \<Rightarrow> bool" where
  "same_type gen sub \<longleftrightarrow> gen_type gen = gen_type (gs_base sub)"

definition unbounded :: "general_subtree \<Rightarrow> bool" where
  "unbounded sub \<longleftrightarrow> gs_minimum sub = None \<and> gs_maximum sub = None"

text \<open>The comparisons with the subtrees of the same type only say yes or no.\<close>

definition decided :: "(x509_name \<Rightarrow> x509_name option) \<Rightarrow> general_name \<Rightarrow> general_subtree list \<Rightarrow> bool" where
  "decided i2d gen subs \<longleftrightarrow>
     (\<forall>sub\<in>set subs. same_type gen sub \<longrightarrow> nc_match_single i2d gen (gs_base sub) \<in> {X509_V_OK, X509_V_ERR_PERMITTED_VIOLATION})"

lemma ok_not_violation [simp]: "X509_V_OK \<noteq> X509_V_ERR_PERMITTED_VIOLATION"
  "X509_V_ERR_PERMITTED_VIOLATION \<noteq> X509_V_OK" "X509_V_ERR_SUBTREE_MINMAX \<noteq> X509_V_OK" "X509_V_ERR_EXCLUDED_VIOLATION \<noteq> X509_V_OK"
  by (simp_all add: v_defs)

lemma permitted_loop_step:
  "\<not> same_type gen sub \<Longrightarrow> permitted_loop i2d gen (sub # subs) found = permitted_loop i2d gen subs found"
  "same_type gen sub \<Longrightarrow> \<not> unbounded sub \<Longrightarrow> permitted_loop i2d gen (sub # subs) found = Inl X509_V_ERR_SUBTREE_MINMAX"
  "same_type gen sub \<Longrightarrow> unbounded sub \<Longrightarrow> nc_match_single i2d gen (gs_base sub) = X509_V_OK \<Longrightarrow>
     permitted_loop i2d gen (sub # subs) found = permitted_loop i2d gen subs 2"
  "same_type gen sub \<Longrightarrow> unbounded sub \<Longrightarrow> nc_match_single i2d gen (gs_base sub) = X509_V_ERR_PERMITTED_VIOLATION \<Longrightarrow>
     permitted_loop i2d gen (sub # subs) found = permitted_loop i2d gen subs (if found = 0 then 1 else found)"
  by (simp_all add: same_type_def unbounded_def)

lemma permitted_loop_decided:
  assumes "decided i2d gen subs" "found \<in> {0, 1, 2}"
  shows "permitted_loop i2d gen subs found =
    (if \<forall>sub\<in>set subs. same_type gen sub \<longrightarrow> unbounded sub
     then Inr (if found = 2 \<or> (\<exists>sub\<in>set subs. same_type gen sub \<and> nc_match_single i2d gen (gs_base sub) = X509_V_OK) then 2
               else if \<exists>sub\<in>set subs. same_type gen sub then 1 else found)
     else Inl X509_V_ERR_SUBTREE_MINMAX)"
  using assms
proof (induction subs arbitrary: found)
  case (Cons sub subs)
  then have d: "decided i2d gen subs" by (simp add: decided_def)
  consider "\<not> same_type gen sub" | "same_type gen sub" "\<not> unbounded sub"
    | "same_type gen sub" "unbounded sub" "nc_match_single i2d gen (gs_base sub) = X509_V_OK"
    | "same_type gen sub" "unbounded sub" "nc_match_single i2d gen (gs_base sub) = X509_V_ERR_PERMITTED_VIOLATION"
    using Cons.prems(1) by (auto simp: decided_def)
  then show ?case
  proof cases
    case 1
    with Cons.IH [OF d Cons.prems(2)] show ?thesis by (auto simp: permitted_loop_step(1) simp del: permitted_loop.simps)
  next
    case 2
    then show ?thesis by (simp add: permitted_loop_step(2) del: permitted_loop.simps)
  next
    case 3
    with Cons.IH [OF d, of 2] show ?thesis by (simp add: permitted_loop_step(3) del: permitted_loop.simps)
  next
    case 4
    have "(if found = 0 then 1 else found) \<in> {0, 1, 2}" using Cons.prems(2) by auto
    from 4 Cons.IH [OF d this] show ?thesis
      using Cons.prems(2) by (auto simp: permitted_loop_step(4) simp del: permitted_loop.simps)
  qed
qed simp

lemma excluded_loop_ok:
  "decided i2d gen subs \<Longrightarrow>
     excluded_loop i2d gen subs = X509_V_OK \<longleftrightarrow>
       (\<forall>sub\<in>set subs. same_type gen sub \<longrightarrow> unbounded sub \<and> nc_match_single i2d gen (gs_base sub) \<noteq> X509_V_OK)"
  by (induction subs) (auto simp: decided_def same_type_def unbounded_def Let_def)

lemma nc_match_ok_iff:
  assumes "decided i2d gen (permittedSubtrees nc)" "decided i2d gen (excludedSubtrees nc)"
  shows "nc_match i2d gen nc = X509_V_OK \<longleftrightarrow>
    (\<forall>sub\<in>set (permittedSubtrees nc @ excludedSubtrees nc). same_type gen sub \<longrightarrow> unbounded sub)
    \<and> ((\<exists>sub\<in>set (permittedSubtrees nc). same_type gen sub) \<longrightarrow>
       (\<exists>sub\<in>set (permittedSubtrees nc). same_type gen sub \<and> nc_match_single i2d gen (gs_base sub) = X509_V_OK))
    \<and> (\<forall>sub\<in>set (excludedSubtrees nc). same_type gen sub \<longrightarrow> nc_match_single i2d gen (gs_base sub) \<noteq> X509_V_OK)"
  unfolding nc_match_def permitted_loop_decided [OF assms(1), of 0, simplified] using excluded_loop_ok [OF assms(2)]
  by (auto split: if_splits)

text \<open>DNS names: the bases of the subtrees of that type.\<close>

definition dns_bases :: "general_subtree list \<Rightarrow> bytes set" where
  "dns_bases subs = {contents_of b | b sub. sub \<in> set subs \<and> gs_base sub = dNSName b}"

lemma same_type_dns: "gen_ok (gs_base sub) \<Longrightarrow> same_type (dNSName s) sub \<longleftrightarrow> (\<exists>b. gs_base sub = dNSName b)"
  by (cases "gs_base sub") (auto simp: same_type_def gen_defs gen_ok_def)

lemma nc_match_dns:
  assumes "\<forall>sub\<in>set (permittedSubtrees nc @ excludedSubtrees nc). gen_ok (gs_base sub)"
  shows "nc_match i2d (dNSName s) nc = X509_V_OK \<longleftrightarrow>
    (\<forall>sub\<in>set (permittedSubtrees nc @ excludedSubtrees nc). same_type (dNSName s) sub \<longrightarrow> unbounded sub)
    \<and> (dns_bases (permittedSubtrees nc) = {} \<or> (\<exists>b\<in>dns_bases (permittedSubtrees nc). dns_within (contents_of s) b))
    \<and> (\<forall>b\<in>dns_bases (excludedSubtrees nc). \<not> dns_within (contents_of s) b)"
proof -
  have d: "decided i2d (dNSName s) subs" if "\<forall>sub\<in>set subs. gen_ok (gs_base sub)" for subs
    using that by (auto simp: decided_def same_type_dns nc_dns_within split: if_splits)
  have single: "nc_match_single i2d (dNSName s) (dNSName b) = X509_V_OK \<longleftrightarrow> dns_within (contents_of s) (contents_of b)" for b
    by (simp add: nc_dns_within)
  have ex: "(\<exists>sub\<in>set subs. same_type (dNSName s) sub \<and> nc_match_single i2d (dNSName s) (gs_base sub) = X509_V_OK)
      \<longleftrightarrow> (\<exists>b\<in>dns_bases subs. dns_within (contents_of s) b)" (is ?A)
    "(\<exists>sub\<in>set subs. same_type (dNSName s) sub) \<longleftrightarrow> dns_bases subs \<noteq> {}" (is ?B)
    if ok: "\<forall>sub\<in>set subs. gen_ok (gs_base sub)" for subs
  proof -
    have t: "same_type (dNSName s) sub \<longleftrightarrow> (\<exists>b. gs_base sub = dNSName b)" if "sub \<in> set subs" for sub
      using ok that by (simp add: same_type_dns)
    show ?B unfolding dns_bases_def using t by auto
    have "(\<exists>sub\<in>set subs. same_type (dNSName s) sub \<and> nc_match_single i2d (dNSName s) (gs_base sub) = X509_V_OK)
        \<longleftrightarrow> (\<exists>sub\<in>set subs. \<exists>b. gs_base sub = dNSName b \<and> dns_within (contents_of s) (contents_of b))"
      using t single by metis
    also have "\<dots> \<longleftrightarrow> (\<exists>b\<in>dns_bases subs. dns_within (contents_of s) b)" unfolding dns_bases_def by auto
    finally show ?A .
  qed
  have p: "\<forall>sub\<in>set (permittedSubtrees nc). gen_ok (gs_base sub)" and e: "\<forall>sub\<in>set (excludedSubtrees nc). gen_ok (gs_base sub)"
    using assms by auto
  show ?thesis
    using nc_match_ok_iff [OF d [OF p] d [OF e]] ex [OF p] ex(1) [OF e] by blast
qed

lemma names_loop_ok: "names_loop check gens = X509_V_OK \<longleftrightarrow> (\<forall>gen\<in>set gens. check gen = X509_V_OK)"
  by (induction gens) (auto simp: Let_def)

lemma NAME_CONSTRAINTS_check_names:
  assumes "NAME_CONSTRAINTS_check i2d x nc = X509_V_OK" "gen \<in> set (alt_names x)"
  shows "nc_match i2d gen nc = X509_V_OK"
proof -
  let ?f = "\<lambda>str. if as_type str \<noteq> V_ASN1_IA5STRING then Some X509_V_ERR_UNSUPPORTED_NAME_SYNTAX
                   else (let r = nc_match i2d (rfc822Name str) nc in if r \<noteq> X509_V_OK then Some r else None)"
  have f: "?f s \<noteq> Some X509_V_OK" for s by (simp add: v_defs Let_def)
  have "name_loop ?f (x_subject x) NID_pkcs9_emailAddress (- 1) \<noteq> Some X509_V_OK"
  proof
    assume l: "name_loop ?f (x_subject x) NID_pkcs9_emailAddress (- 1) = Some X509_V_OK"
    obtain obj where "OBJ_nid2obj NID_pkcs9_emailAddress = Some obj" by (simp add: OBJ_nid2obj_def nid_defs)
    from first_some_Some [OF l [unfolded name_loop_values [OF this order_refl]]] f show False by blast
  qed
  then have "names_loop (\<lambda>gen. nc_match i2d gen nc) (alt_names x) = X509_V_OK"
    using assms(1) unfolding NAME_CONSTRAINTS_check_def
    by (auto simp: Let_def v_defs split: if_splits option.splits)
  with assms(2) show ?thesis by (simp add: names_loop_ok)
qed

section \<open>Chain verification\<close>

text \<open>With a callback that lets no error pass, the loops only go on when every check was passed.\<close>

definition refuses :: "verify_cb \<Rightarrow> bool" where
  "refuses cb \<longleftrightarrow> (\<forall>c. \<not> fst (cb c))"

lemma refusesD: "refuses cb \<Longrightarrow> cb c = (ok, c') \<Longrightarrow> \<not> ok"
  unfolding refuses_def by (metis fst_conv)

lemma above_loop_go:
  assumes "refuses cb" "above_loop i2d cb chain i js has ctx = (True, has', ctx')"
  shows "(\<forall>j\<in>set js. \<forall>nc. x_nc (chain ! j) = Some nc \<longrightarrow> NAME_CONSTRAINTS_check i2d (chain ! i) nc = X509_V_OK)
    \<and> (has' \<longleftrightarrow> has \<or> (\<exists>j\<in>set js. x_nc (chain ! j) \<noteq> None))"
  using assms
proof (induction js arbitrary: has ctx)
  case (Cons j js)
  show ?case
  proof (cases "x_nc (chain ! j)")
    case None
    with Cons show ?thesis by auto
  next
    case (Some nc)
    with Cons.prems have ok: "NAME_CONSTRAINTS_check i2d (chain ! i) nc = X509_V_OK"
      by (auto simp: Let_def dest: refusesD split: if_splits prod.splits)
    with Some Cons.prems have "above_loop i2d cb chain i js True ctx = (True, has', ctx')" by simp
    from Cons.IH [OF Cons.prems(1) this] Some ok show ?thesis by auto
  qed
qed simp

lemma chain_loop_go:
  assumes "refuses cb" "chain_loop i2d cb chain is has ctx = (True, has', ctx')"
    and i: "i \<in> set is" "i = 0 \<or> x_ex_flags (chain ! i) AND EXFLAG_SI = 0"
    and j: "i < j" "j < length chain" "x_nc (chain ! j) = Some nc"
  shows "NAME_CONSTRAINTS_check i2d (chain ! i) nc = X509_V_OK \<and> has'"
  using assms(2) i(1)
proof (induction "is" arbitrary: has ctx)
  case (Cons k ks)
  have mono: "chain_loop i2d cb chain ks True c = (True, h, c') \<Longrightarrow> h" for c h c' ks
  proof (induction ks arbitrary: c)
    case (Cons k ks)
    then show ?case
    proof (cases "k \<noteq> 0 \<and> x_ex_flags (chain ! k) AND EXFLAG_SI \<noteq> 0")
      case False
      then obtain h1 c1 where a: "above_loop i2d cb chain k (rev [k + 1..<length chain]) True c = (True, h1, c1)"
          "chain_loop i2d cb chain ks h1 c1 = (True, h, c')"
        using Cons.prems by (auto split: prod.splits if_splits)
      with above_loop_go [OF assms(1) a(1)] Cons.IH show ?thesis by auto
    qed auto
  qed simp
  show ?case
  proof (cases "k \<noteq> 0 \<and> x_ex_flags (chain ! k) AND EXFLAG_SI \<noteq> 0")
    case True
    with Cons i(2) show ?thesis by auto
  next
    case False
    then obtain h1 c1 where a: "above_loop i2d cb chain k (rev [k + 1..<length chain]) has ctx = (True, h1, c1)"
        "chain_loop i2d cb chain ks h1 c1 = (True, has', ctx')"
      using Cons.prems(1) by (auto split: prod.splits if_splits)
    show ?thesis
    proof (cases "k = i")
      case True
      then have "j \<in> set (rev [k + 1..<length chain])" using j by simp
      with above_loop_go [OF assms(1) a(1)] j(3) True have "NAME_CONSTRAINTS_check i2d (chain ! i) nc = X509_V_OK" h1
        by auto
      with a(2) mono show ?thesis by auto
    next
      case False
      with Cons.IH [OF a(2)] Cons.prems(2) show ?thesis by auto
    qed
  qed
qed simp

lemma reject_dns_name_ok:
  assumes "reject_dns_name_in_common_name al x = X509_V_OK" "s \<in> set (values_of cn_object (xn_entries (x_subject x)))"
  shows "\<exists>r. ASN1_STRING_to_UTF8 al (Some s) = Some r \<and> \<not> x509v3_looks_like_dns_name (utf8_text r)"
proof -
  let ?f = "\<lambda>s. case ASN1_STRING_to_UTF8 al (Some s) of
          None \<Rightarrow> Some X509_V_ERR_OUT_OF_MEM
        | Some r \<Rightarrow>
            if x509v3_looks_like_dns_name (utf8_text r) then Some X509_V_ERR_NAME_CONSTRAINTS_WITHOUT_SANS else None"
  have f: "?f s \<noteq> Some X509_V_OK" for s by (simp add: v_defs split: option.split)
  have "first_some ?f (values_of cn_object (xn_entries (x_subject x))) = None"
    using assms(1) first_some_Some [of ?f "values_of cn_object (xn_entries (x_subject x))" X509_V_OK] f
    unfolding reject_dns_name_in_common_name_def common_names by (auto split: option.splits)
  with assms(2) have "?f s = None" unfolding first_some_None by blast
  then show ?thesis by (auto split: option.splits if_splits)
qed

text \<open>What an accepted chain says of its leaf.\<close>

lemma check_name_constraints_leaf:
  assumes "refuses cb" "check_name_constraints al i2d cb chain ctx = (True, ctx')"
    and j: "0 < j" "j < length chain" "x_nc (chain ! j) = Some nc"
  shows "NAME_CONSTRAINTS_check i2d (chain ! 0) nc = X509_V_OK"
    "x_altname (chain ! 0) = None \<Longrightarrow> reject_dns_name_in_common_name al (chain ! 0) = X509_V_OK"
proof -
  obtain has ctx1 where c: "chain_loop i2d cb chain (rev [0..<length chain]) False ctx = (True, has, ctx1)"
    using assms(2) by (auto simp: check_name_constraints_def split: prod.splits if_splits)
  have "0 \<in> set (rev [0..<length chain])" using j by (cases chain) auto
  from chain_loop_go [OF assms(1) c this _ j]
  have ok: "NAME_CONSTRAINTS_check i2d (chain ! 0) nc = X509_V_OK" and has by auto
  show "NAME_CONSTRAINTS_check i2d (chain ! 0) nc = X509_V_OK" by (rule ok)
  assume "x_altname (chain ! 0) = None"
  with assms(2) c \<open>has\<close> show "reject_dns_name_in_common_name al (chain ! 0) = X509_V_OK"
    by (auto simp: check_name_constraints_def Let_def dest: refusesD [OF assms(1)] split: prod.splits if_splits)
qed

lemma hosts_loop_found:
  "hosts_loop al x flags names p = (True, p') \<Longrightarrow>
     \<exists>n\<in>set names. 0 < fst (X509_check_host al x (Some (take (strlen n) n)) flags True)"
proof (induction names arbitrary: p)
  case (Cons n names)
  then show ?case by (cases "0 < fst (X509_check_host al x (Some (take (strlen n) n)) flags True)")
      (auto simp: Let_def split: prod.splits)
qed simp

lemma check_id_host:
  assumes "refuses cb" "check_id al cb x vpm ctx = (True, r)" "vp_hosts vpm = Some hosts" "hosts \<noteq> []"
  shows "\<exists>n\<in>set hosts. 0 < fst (X509_check_host al x (Some (take (strlen n) n)) (vp_hostflags vpm) True)"
proof -
  have step: "id_step cb bad e c = (True, c') \<Longrightarrow> \<not> bad" for bad e c c'
    by (auto simp: id_step_def check_id_error_def dest: refusesD [OF assms(1)] split: if_splits)
  obtain c where "id_step cb (\<not> fst (check_hosts al x vpm)) X509_V_ERR_HOSTNAME_MISMATCH c = (True, c)"
    using assms(2,3) unfolding check_id_def id_step_def check_id_error_def
    by (auto dest: refusesD [OF assms(1)] split: prod.splits bool.splits if_splits)
  then have "fst (check_hosts al x vpm)" using step by blast
  with assms(3,4) show ?thesis
    by (auto simp: check_hosts_def Let_def dest: hosts_loop_found split: prod.splits)
qed

lemma zero_not_c_string: "0 \<notin> set (take (strlen n) n)"
proof -
  have "take (strlen n) n = takeWhile (\<lambda>b. b \<noteq> 0) n" by (simp add: strlen_def takeWhile_eq_take [symmetric])
  then show ?thesis by (auto dest: set_takeWhileD)
qed

text \<open>
  C4. Name constraints and host check together. A chain passes \<open>check_name_constraints\<close> and its leaf passes
  \<open>check_id\<close> for a non-empty list of hosts, with a callback that lets no error pass. No host starts with a full stop (such a host
  asks for the names below a domain, and may itself be outside the subtrees of the name that matches), and the flag for
  multi-label wildcards is not set; the cached alternative names of the leaf are those of its extension, the strings in
  them and in the subtrees are well formed, and no permitted DNS subtree has an asterisk. Then for every issuer with name
  constraints the leaf has alternative names, and one of the hosts is itself inside a permitted DNS subtree, if there is
  one, also when the leaf only names it by a wildcard; and it is in no excluded subtree, unless the leaf has wildcards.
\<close>

theorem verified_host_within:
  assumes cb: "refuses cb"
    and constraints: "check_name_constraints al i2d cb chain ctx = (True, ctx1)"
    and host: "check_id al cb (chain ! 0) vpm ctx2 = (True, r)" "vp_hosts vpm = Some hosts" "hosts \<noteq> []"
    and names: "\<forall>n\<in>set hosts. \<not> (1 < strlen n \<and> hd n = c_dot)"
      "vp_hostflags vpm AND X509_CHECK_FLAG_MULTI_LABEL_WILDCARDS = 0"
    and issuer: "0 < j" "j < length chain" "x_nc (chain ! j) = Some nc"
      "\<forall>sub\<in>set (permittedSubtrees nc @ excludedSubtrees nc). gen_ok (gs_base sub)"
      "\<forall>b\<in>dns_bases (permittedSubtrees nc). c_star \<notin> set b"
    and leaf: "x_altname (chain ! 0) = x_alt_ext (chain ! 0)" "\<forall>g\<in>set (alt_names (chain ! 0)). gen_ok g"
  shows "x_alt_ext (chain ! 0) \<noteq> None \<and> (\<exists>n\<in>set hosts.
    (dns_bases (permittedSubtrees nc) = {} \<or> (\<exists>b\<in>dns_bases (permittedSubtrees nc). dns_within (take (strlen n) n) b))
    \<and> ((\<forall>s\<in>set (dns_names (alt_names (chain ! 0))). c_star \<notin> set (contents_of s)) \<longrightarrow>
        (\<forall>b\<in>dns_bases (excludedSubtrees nc). \<not> dns_within (take (strlen n) n) b)))"
proof -
  let ?x = "chain ! 0"
  obtain n where n: "n \<in> set hosts" "0 < fst (X509_check_host al ?x (Some (take (strlen n) n)) (vp_hostflags vpm) True)"
    using check_id_host [OF cb host] by blast
  let ?h = "take (strlen n) n"
  have dot: "\<not> (1 < length ?h \<and> hd ?h = c_dot)" using names(1) n(1) by (cases n) (auto simp: strlen_def)
  obtain gens where gens: "x_alt_ext ?x = Some gens"
  proof (cases "x_alt_ext ?x")
    case None
    then have "reject_dns_name_in_common_name al ?x = X509_V_OK"
      using check_name_constraints_leaf(2) [OF cb constraints issuer(1-3)] leaf(1) by simp
    with X509_check_host_common_name [OF None n(2)] reject_dns_name_ok show ?thesis by fastforce
  qed
  with leaf have alt: "alt_names ?x = gens" "\<forall>g\<in>set gens. gen_ok g" by (simp_all add: alt_names_def)
  obtain s where s: "s \<in> set (dns_names gens)" "dns_match (vp_hostflags vpm) (contents_of s) ?h"
    using n(2) unfolding X509_check_host_iff [OF gens alt(2) zero_not_c_string names(2)] host_match_def if_not_P [OF dot]
    by (auto simp: find_Some_iff split: option.splits) (metis nth_mem)
  then have "dNSName s \<in> set gens" by (auto simp: dns_names_def split: general_name.splits)
  then have "nc_match i2d (dNSName s) nc = X509_V_OK"
    using NAME_CONSTRAINTS_check_names [OF check_name_constraints_leaf(1) [OF cb constraints issuer(1-3)]] alt(1) by simp
  note within = nc_match_dns [OF issuer(4), THEN iffD1, OF this]
  have permitted: "dns_within ?h b" if "b \<in> dns_bases (permittedSubtrees nc)" "dns_within (contents_of s) b" for b
    using s(2) that dns_within_case dns_within_wildcard issuer(5) unfolding dns_match_def same_name_def by blast
  have excluded: "\<not> dns_within ?h b"
    if b: "b \<in> dns_bases (excludedSubtrees nc)" and star: "c_star \<notin> set (contents_of s)" for b
  proof
    assume h: "dns_within ?h b"
    have "labels (contents_of s) \<noteq> (u @ c_star # v) # ls" for u v ls
      using labels_split_first [of "contents_of s" "u @ [c_star]" v ls] star by auto
    with s(2) have "map lower ?h = map lower (contents_of s)" by (auto simp: dns_match_def same_name_def)
    from dns_within_case [OF this h] within b show False by blast
  qed
  show ?thesis using within permitted excluded s(1) n(1) alt(1) gens by blast
qed

text \<open>The leaf for \<open>*.a.b\<close>, under an issuer that permits \<open>a.b\<close> and excludes the names \<open>ex\<close>; the host is \<open>x.a.b\<close>.\<close>

definition example_constraints :: "bytes list \<Rightarrow> name_constraints" where
  "example_constraints ex =
     \<lparr>permittedSubtrees = [\<lparr>gs_base = dNSName (ia5 [0x61, 0x2E, 0x62]), gs_minimum = None, gs_maximum = None\<rparr>],
      excludedSubtrees = map (\<lambda>t. \<lparr>gs_base = dNSName (ia5 t), gs_minimum = None, gs_maximum = None\<rparr>) ex\<rparr>"

definition example_chain :: "bytes list \<Rightarrow> x509 list" where
  "example_chain ex = [example_leaf, example_leaf\<lparr>x_nc := Some (example_constraints ex)\<rparr>]"

definition example_param :: verify_param where
  "example_param = \<lparr>vp_hosts = Some [example_host @ [0]], vp_hostflags = 0, vp_peername = None, vp_email = None, vp_ip = None, vp_poison = False\<rparr>"

definition example_ctx :: store_ctx where
  "example_ctx = \<lparr>sc_error = 0, sc_error_depth = 0, sc_current_cert = 0\<rparr>"

definition refuse_all :: verify_cb where "refuse_all c = (False, c)"

lemmas example_defs = example_leaf_def example_constraints_def example_chain_def example_host_def example_param_def example_ctx_def

lemma example_constraints_match:
  "NAME_CONSTRAINTS_check Some example_leaf (example_constraints []) = X509_V_OK"
  "NAME_CONSTRAINTS_check Some example_leaf (example_constraints [example_host]) = X509_V_OK"
  by code_simp+

lemma example_constraints_checked:
  assumes "ex = [] \<or> ex = [example_host]"
  shows "check_name_constraints al Some refuse_all (example_chain ex) example_ctx = (True, example_ctx)"
proof -
  have "NAME_CONSTRAINTS_check Some example_leaf (example_constraints ex) = X509_V_OK"
    using assms example_constraints_match by auto
  moreover have "rev [0..<length (example_chain ex)] = [1, 0]" "x_ex_flags (example_chain ex ! 1) AND EXFLAG_SI = 0"
    "x_altname (example_chain ex ! 0) \<noteq> None" "example_chain ex ! 0 = example_leaf"
    "x_nc (example_chain ex ! 1) = Some (example_constraints ex)" "length (example_chain ex) = 2"
    by (simp_all add: example_chain_def example_leaf_def upt_rec)
  ultimately show ?thesis by (auto simp: check_name_constraints_def upt_rec)
qed

lemma example_host_checked:
  "check_id (\<lambda>_. None) refuse_all example_leaf example_param example_ctx = (True, example_param, example_ctx)"
  by code_simp

theorem verified_host_within_witness:
  "\<exists>n\<in>{example_host @ [0]}. dns_within (take (strlen n) n) [0x61, 0x2E, 0x62]"
proof -
  have "refuses refuse_all" by (simp add: refuses_def refuse_all_def)
  moreover have "check_id (\<lambda>_. None) refuse_all (example_chain [] ! 0) example_param example_ctx = (True, example_param, example_ctx)"
    using example_host_checked by (simp add: example_chain_def)
  moreover have "vp_hosts example_param = Some [example_host @ [0]]" by (simp add: example_param_def)
  moreover have "\<forall>n\<in>set [example_host @ [0]]. \<not> (1 < strlen n \<and> hd n = c_dot)" by (simp add: example_host_def)
  moreover have "vp_hostflags example_param AND X509_CHECK_FLAG_MULTI_LABEL_WILDCARDS = 0" by (simp add: example_param_def)
  moreover have "x_nc (example_chain [] ! 1) = Some (example_constraints [])" "1 < length (example_chain [])"
    by (simp_all add: example_chain_def)
  moreover have ok: "string_ok (ia5 t)" if "length t < 10" for t using that by (simp add: string_ok_def ia5_def block_of_def INT_MAX_def)
  then have "\<forall>sub\<in>set (permittedSubtrees (example_constraints []) @ excludedSubtrees (example_constraints [])). gen_ok (gs_base sub)"
    "\<forall>g\<in>set (alt_names (example_chain [] ! 0)). gen_ok g"
    by (simp_all add: example_defs alt_names_def gen_ok_def)
  moreover have b: "dns_bases (permittedSubtrees (example_constraints [])) = {[0x61, 0x2E, 0x62]}"
    by (auto simp: dns_bases_def example_constraints_def)
  moreover have "x_altname (example_chain [] ! 0) = x_alt_ext (example_chain [] ! 0)" by (simp add: example_defs)
  ultimately have "\<exists>n\<in>set [example_host @ [0]].
    (dns_bases (permittedSubtrees (example_constraints [])) = {}
      \<or> (\<exists>b\<in>dns_bases (permittedSubtrees (example_constraints [])). dns_within (take (strlen n) n) b))"
    using verified_host_within [of refuse_all "\<lambda>_. None" Some "example_chain []" example_ctx example_ctx
        example_param example_ctx "(example_param, example_ctx)" "[example_host @ [0]]" 1 "example_constraints []"]
      example_constraints_checked [of "[]"] by auto
  with b show ?thesis by simp
qed

text \<open>A wildcard reaches excluded names: the leaf for \<open>*.a.b\<close> is accepted for \<open>x.a.b\<close>, which its issuer excludes.\<close>

theorem excluded_under_wildcard:
  "check_name_constraints (\<lambda>_. None) Some refuse_all (example_chain [example_host]) example_ctx = (True, example_ctx)
   \<and> check_id (\<lambda>_. None) refuse_all (example_chain [example_host] ! 0) example_param example_ctx = (True, example_param, example_ctx)
   \<and> (\<exists>b\<in>dns_bases (excludedSubtrees (example_constraints [example_host])). dns_within example_host b)"
proof (intro conjI)
  show "\<exists>b\<in>dns_bases (excludedSubtrees (example_constraints [example_host])). dns_within example_host b"
    by (auto simp: dns_bases_def example_constraints_def dns_within_def)
qed (use example_constraints_checked example_host_checked in \<open>auto simp: example_chain_def\<close>)

text \<open>
  A common name that looks like a DNS name under name constraints: the error is reported at the depth \<open>-1\<close>, which
  the loop variable has after the loops; the leaf has the depth 0.
\<close>

theorem common_name_error_depth:
  assumes "chain_loop i2d cb chain (rev [0..<length chain]) False ctx = (True, True, ctx1)"
    and "x_altname (chain ! 0) = None"
    and "reject_dns_name_in_common_name al (chain ! 0) = X509_V_ERR_NAME_CONSTRAINTS_WITHOUT_SANS"
  shows "check_name_constraints al i2d cb chain ctx =
    cb (ctx1\<lparr>sc_error := X509_V_ERR_NAME_CONSTRAINTS_WITHOUT_SANS, sc_error_depth := - 1, sc_current_cert := 0\<rparr>)"
  using assms by (simp add: check_name_constraints_def v_defs)

end
