(* ===== verification/Base64.thy ===== *)
theory Base64
  imports Asn1String
begin

text \<open>
  Base64 (crypto/base64/base64.c), on the constant-time helpers of crypto/internal.h: encoding and
  decoding of whole strings, and the streaming interface that PEM uses.

  Inputs are byte strings. An operation returns the bytes it stores from its output pointer on; a
  failed call of a decoder may have stored some too, which no caller reads, and they are left out.
\<close>

section \<open>Constant-time helpers\<close>

definition constant_time_msb_w :: "u64 \<Rightarrow> u64" where
  "constant_time_msb_w a = 0 - drop_bit 63 a"

definition constant_time_is_zero_w :: "u64 \<Rightarrow> u64" where
  "constant_time_is_zero_w a = constant_time_msb_w (NOT a AND (a - 1))"

definition constant_time_eq_w :: "u64 \<Rightarrow> u64 \<Rightarrow> u64" where
  "constant_time_eq_w a b = constant_time_is_zero_w (a XOR b)"

definition constant_time_eq_8 :: "u64 \<Rightarrow> u64 \<Rightarrow> u8" where
  "constant_time_eq_8 a b = ucast (constant_time_eq_w a b)"

definition constant_time_select_w :: "u64 \<Rightarrow> u64 \<Rightarrow> u64 \<Rightarrow> u64" where
  "constant_time_select_w m a b = (m AND a) OR (NOT m AND b)"

definition constant_time_select_8 :: "u8 \<Rightarrow> u8 \<Rightarrow> u8 \<Rightarrow> u8" where
  "constant_time_select_8 m a b = ucast (constant_time_select_w (ucast m) (ucast a) (ucast b))"

definition constant_time_lt_args_8 :: "u8 \<Rightarrow> u8 \<Rightarrow> u8" where
  "constant_time_lt_args_8 a b = ucast (constant_time_msb_w (ucast a - ucast b))"

definition constant_time_in_range_8 :: "u8 \<Rightarrow> u8 \<Rightarrow> u8 \<Rightarrow> u8" where
  "constant_time_in_range_8 a low high = constant_time_lt_args_8 (a - low) (high - low + 1)"

section \<open>Encoding\<close>

text \<open>The characters are written as their codes: \<open>+\<close> 0x2B, \<open>/\<close> 0x2F, \<open>0\<close> 0x30, \<open>=\<close> 0x3D, \<open>A\<close> 0x41, \<open>a\<close> 0x61.\<close>

definition conv_bin2ascii :: "u8 \<Rightarrow> u8" where
  "conv_bin2ascii a0 =
     (let a = a0 AND 0x3f;
          ret = constant_time_select_8 (constant_time_eq_8 (ucast a) 62) 0x2B 0x2F;
          ret = constant_time_select_8 (constant_time_lt_args_8 a 62) (a - 52 + 0x30) ret;
          ret = constant_time_select_8 (constant_time_lt_args_8 a 52) (a - 26 + 0x61) ret
      in constant_time_select_8 (constant_time_lt_args_8 a 26) (a + 0x41) ret)"

definition EVP_EncodedLength :: "u64 \<Rightarrow> u64 option" where
  "EVP_EncodedLength n =
     (if n + 2 < n then None
      else (let n1 = (n + 2) div 3 in
            if drop_bit 2 (push_bit 2 n1) \<noteq> n1 then None
            else (let n2 = push_bit 2 n1 in if n2 + 1 < n2 then None else Some (n2 + 1))))"

text \<open>The loop of \<open>EVP_EncodeBlock\<close>; then the terminating NUL is stored.\<close>

fun encode_loop :: "bytes \<Rightarrow> u64 \<Rightarrow> bytes \<times> u64" where
  "encode_loop [] ret = ([], ret)"
| "encode_loop [a] ret =
     (let l = push_bit 16 (ucast a) :: u32 in
      ([conv_bin2ascii (ucast (drop_bit 18 l)), conv_bin2ascii (ucast (drop_bit 12 l)), 0x3D, 0x3D], ret + 4))"
| "encode_loop [a, b] ret =
     (let l = push_bit 16 (ucast a) OR push_bit 8 (ucast b) :: u32 in
      ([conv_bin2ascii (ucast (drop_bit 18 l)), conv_bin2ascii (ucast (drop_bit 12 l)),
        conv_bin2ascii (ucast (drop_bit 6 l)), 0x3D], ret + 4))"
| "encode_loop (a # b # c # src) ret =
     (let l = push_bit 16 (ucast a) OR push_bit 8 (ucast b) OR ucast c :: u32;
          r = encode_loop src (ret + 4)
      in ([conv_bin2ascii (ucast (drop_bit 18 l)), conv_bin2ascii (ucast (drop_bit 12 l)),
           conv_bin2ascii (ucast (drop_bit 6 l)), conv_bin2ascii (ucast l)] @ fst r, snd r))"

definition EVP_EncodeBlock :: "bytes \<Rightarrow> bytes \<times> u64" where
  "EVP_EncodeBlock src = (case encode_loop src 0 of (out, ret) \<Rightarrow> (out @ [0], ret))"

record evp_encode_ctx =
  data_used :: nat
  data :: bytes
  eof_seen :: bool
  error_encountered :: bool

definition EVP_EncodeInit :: evp_encode_ctx where
  "EVP_EncodeInit = \<lparr>data_used = 0, data = replicate 48 0, eof_seen = False, error_encountered = False\<rparr>"

definition EVP_ENCODE_CTX_new :: "allocator \<Rightarrow> evp_encode_ctx option" where
  "EVP_ENCODE_CTX_new al = map_option (\<lambda>_. EVP_EncodeInit) (al 56)"

text \<open>
  A full line: the newline overwrites the NUL behind the text, and a NUL is stored behind the newline,
  which the next line overwrites.
\<close>

definition encode_line :: "bytes \<Rightarrow> bytes \<times> u64" where
  "encode_line d = (case EVP_EncodeBlock d of (out, encoded) \<Rightarrow> (take (unat encoded) out @ [0x0A], encoded))"

text \<open>
  The loop over full lines: \<open>out\<close> is what has been stored so far. \<open>False\<close> is the early return on an
  overflow of \<open>total\<close>.
\<close>

function encode_lines :: "bytes \<Rightarrow> bytes \<Rightarrow> u64 \<Rightarrow> bool \<times> bytes \<times> bytes \<times> u64" where
  "encode_lines src out tot =
     (if 48 \<le> length src then
        (case encode_line (take 48 src) of
           (l, encoded) \<Rightarrow>
             if tot + encoded + 1 < tot then (False, drop 48 src, out @ l, tot)
             else encode_lines (drop 48 src) (out @ l) (tot + (encoded + 1)))
      else (True, src, out, tot))"
  by pat_completeness auto
termination by (relation "measure (\<lambda>(src, out, tot). length src)") auto

declare encode_lines.simps [simp del]

text \<open>The result: the context, the bytes stored, and \<open>*out_len\<close>.\<close>

definition EVP_EncodeUpdate :: "evp_encode_ctx \<Rightarrow> bytes \<Rightarrow> evp_encode_ctx \<times> bytes \<times> int" where
  "EVP_EncodeUpdate ctx src =
     (if src = [] then (ctx, [], 0)
      else if 48 - data_used ctx > length src then
        (ctx\<lparr>data := store_bytes (data ctx) (data_used ctx) src, data_used := data_used ctx + length src\<rparr>, [], 0)
      else
        (let todo = 48 - data_used ctx;
             full = store_bytes (data ctx) (data_used ctx) (take todo src);
             first = (if data_used ctx \<noteq> 0
                      then (case encode_line full of
                              (l, encoded) \<Rightarrow> (ctx\<lparr>data := full, data_used := 0\<rparr>, drop todo src, l, encoded + 1))
                      else (ctx, src, [], 0))
         in case first of (ctx1, src1, out1, tot1) \<Rightarrow>
           (case encode_lines src1 out1 tot1 of (ok, rest, out, tot) \<Rightarrow>
              if \<not> ok then (ctx1, out @ [0], 0)
              else (ctx1\<lparr>data := store_bytes (data ctx1) 0 rest, data_used := length rest\<rparr>, out @ [0],
                    if uint tot > INT_MAX then 0 else uint tot))))"

definition EVP_EncodeFinal :: "evp_encode_ctx \<Rightarrow> evp_encode_ctx \<times> bytes \<times> int" where
  "EVP_EncodeFinal ctx =
     (if data_used ctx = 0 then (ctx, [], 0)
      else (case encode_line (take (data_used ctx) (data ctx)) of
              (l, encoded) \<Rightarrow> (ctx\<lparr>data_used := 0\<rparr>, l @ [0], uint (encoded + 1))))"

section \<open>Decoding\<close>

definition EVP_DecodedLength :: "u64 \<Rightarrow> u64 option" where
  "EVP_DecodedLength n = (if n mod 4 \<noteq> 0 then None else Some ((n div 4) * 3))"

definition EVP_DecodeInit :: evp_encode_ctx where
  "EVP_DecodeInit = \<lparr>data_used = 0, data = replicate 48 0, eof_seen = False, error_encountered = False\<rparr>"

definition base64_ascii_to_bin :: "u8 \<Rightarrow> u8" where
  "base64_ascii_to_bin a =
     (let is_upper = constant_time_in_range_8 a 0x41 0x5A;
          is_lower = constant_time_in_range_8 a 0x61 0x7A;
          is_digit = constant_time_in_range_8 a 0x30 0x39;
          is_plus = constant_time_eq_8 (ucast a) 0x2B;
          is_slash = constant_time_eq_8 (ucast a) 0x2F;
          is_equals = constant_time_eq_8 (ucast a) 0x3D;
          ret = (is_upper AND (a - 0x41)) OR (is_lower AND (a - 0x61 + 26)) OR (is_digit AND (a - 0x30 + 52))
                OR (is_plus AND 62) OR (is_slash AND 63);
          is_valid = is_upper OR is_lower OR is_digit OR is_plus OR is_slash OR is_equals
      in ret OR NOT is_valid)"

definition base64_decode_quad :: "u8 \<Rightarrow> u8 \<Rightarrow> u8 \<Rightarrow> u8 \<Rightarrow> bytes option" where
  "base64_decode_quad i0 i1 i2 i3 =
     (let a = base64_ascii_to_bin i0; b = base64_ascii_to_bin i1;
          c = base64_ascii_to_bin i2; d = base64_ascii_to_bin i3
      in if a = 0xff \<or> b = 0xff \<or> c = 0xff \<or> d = 0xff then None
         else
           (let v = push_bit 18 (ucast a) OR push_bit 12 (ucast b) OR push_bit 6 (ucast c) OR ucast d :: u32;
                padding_pattern = push_bit 3 (of_bool (i0 = 0x3D)) OR push_bit 2 (of_bool (i1 = 0x3D))
                  OR push_bit 1 (of_bool (i2 = 0x3D)) OR of_bool (i3 = 0x3D) :: u32
            in if padding_pattern = 0 then Some [ucast (drop_bit 16 v), ucast (drop_bit 8 v), ucast v]
               else if padding_pattern = 1 then Some [ucast (drop_bit 16 v), ucast (drop_bit 8 v)]
               else if padding_pattern = 3 then Some [ucast (drop_bit 16 v)]
               else None))"

text \<open>The loop of \<open>EVP_DecodeUpdate\<close>; \<open>False\<close> is the return of \<open>-1\<close>.\<close>

definition is_space :: "u8 \<Rightarrow> bool" where
  "is_space c \<longleftrightarrow> c = 0x20 \<or> c = 0x09 \<or> c = 0x0D \<or> c = 0x0A"

fun decode_loop :: "evp_encode_ctx \<Rightarrow> bytes \<Rightarrow> bytes \<Rightarrow> bool \<times> evp_encode_ctx \<times> bytes" where
  "decode_loop ctx out [] = (True, ctx, out)"
| "decode_loop ctx out (c # src) =
     (if is_space c then decode_loop ctx out src
      else if eof_seen ctx then (False, ctx\<lparr>error_encountered := True\<rparr>, out)
      else
        (let d = (data ctx)[data_used ctx := c];
             ctx1 = ctx\<lparr>data := d, data_used := data_used ctx + 1\<rparr>
         in if data_used ctx1 = 4 then
              (case base64_decode_quad (d ! 0) (d ! 1) (d ! 2) (d ! 3) of
                 None \<Rightarrow> (False, ctx1\<lparr>error_encountered := True\<rparr>, out)
               | Some bs \<Rightarrow>
                   decode_loop (ctx1\<lparr>data_used := 0, eof_seen := eof_seen ctx1 \<or> length bs < 3\<rparr>) (out @ bs) src)
            else decode_loop ctx1 out src))"

text \<open>The result: the return value, the context, and the bytes stored; \<open>*out_len\<close> is 0 on an error.\<close>

definition EVP_DecodeUpdate :: "evp_encode_ctx \<Rightarrow> bytes \<Rightarrow> int \<times> evp_encode_ctx \<times> bytes" where
  "EVP_DecodeUpdate ctx src =
     (if error_encountered ctx then (- 1, ctx, [])
      else (case decode_loop ctx [] src of
              (ok, ctx1, out) \<Rightarrow>
                if \<not> ok then (- 1, ctx1, [])
                else if int (length out) > INT_MAX then (- 1, ctx1\<lparr>error_encountered := True\<rparr>, [])
                else ((if eof_seen ctx1 then 0 else 1), ctx1, out)))"

definition EVP_DecodeFinal :: "evp_encode_ctx \<Rightarrow> int" where
  "EVP_DecodeFinal ctx = (if error_encountered ctx \<or> data_used ctx \<noteq> 0 then - 1 else 1)"

fun decode_quads :: "bytes \<Rightarrow> bytes option" where
  "decode_quads (a # b # c # d # src) =
     (case base64_decode_quad a b c d of
        None \<Rightarrow> None
      | Some bs \<Rightarrow> if length bs \<noteq> 3 \<and> src \<noteq> [] then None else map_option ((@) bs) (decode_quads src))"
| "decode_quads _ = Some []"

definition EVP_DecodeBase64 :: "u64 \<Rightarrow> bytes \<Rightarrow> bytes option" where
  "EVP_DecodeBase64 max_out src =
     (if of_nat (length src) mod 4 \<noteq> (0 :: u64) then None
      else (case EVP_DecodedLength (of_nat (length src)) of
              None \<Rightarrow> None
            | Some max_len \<Rightarrow> if max_out < max_len then None else decode_quads src))"

text \<open>\<open>EVP_DecodeBlock\<close>: \<open>None\<close> is the return of \<open>-1\<close>; else the length of the bytes is returned.\<close>

definition EVP_DecodeBlock :: "bytes \<Rightarrow> bytes option" where
  "EVP_DecodeBlock src0 =
     (let src1 = dropWhile (\<lambda>c. c = 0x20 \<or> c = 0x09) src0;
          src = rev (dropWhile is_space (rev src1))
      in case EVP_DecodedLength (of_nat (length src)) of
           None \<Rightarrow> None
         | Some dst_len \<Rightarrow>
             if uint dst_len > INT_MAX then None
             else map_option (\<lambda>out. out @ replicate ((3 - length out mod 3) mod 3) 0) (EVP_DecodeBase64 dst_len src))"

end
