(* ===== verification/Base64Props.thy ===== *)
theory Base64Props
  imports Base64
begin

text \<open>
  Base64 against RFC 4648: the constant-time helpers select as the branches they stand for would, the
  characters are those of the alphabet (\<open>b64_char\<close>), blocks and lines are \<open>b64\<close>, and the
  decoders undo it, for every way of cutting the input into pieces.
\<close>

section \<open>The helpers select\<close>

lemma msb_mask: "constant_time_msb_w a = (if 2 ^ 63 \<le> unat a then - 1 else 0)"
proof -
  have "unat (drop_bit 63 a) = unat a div 2 ^ 63" by (rule unat_drop_bit_div)
  moreover have "unat a < 2 ^ 64" using unsigned_less [of a, where 'a = nat] by simp
  then have "unat a div 2 ^ 63 = (if 2 ^ 63 \<le> unat a then 1 else 0)" by (auto simp: div_nat_eqI)
  ultimately have "drop_bit 63 a = (if 2 ^ 63 \<le> unat a then 1 else 0)"
    by (simp add: word_unat_eq_iff split: if_splits)
  then show ?thesis by (simp add: constant_time_msb_w_def)
qed

lemma msb_bit: "2 ^ 63 \<le> unat a \<longleftrightarrow> bit a 63" for a :: u64
proof -
  have "unat a < 2 ^ 64" using unsigned_less [of a, where 'a = nat] by simp
  then have "unat a div 2 ^ 63 mod 2 = (if 2 ^ 63 \<le> unat a then 1 else 0)" by (auto simp: div_nat_eqI)
  moreover have "bit a 63 \<longleftrightarrow> bit (unat a) 63" by (simp add: bit_simps)
  ultimately show ?thesis by (simp add: bit_iff_odd odd_iff_mod_2_eq_one)
qed

lemma ucast_minus_1: "(ucast (- 1 :: u64) :: u8) = - 1"
  by (rule bit_word_eqI) (simp add: bit_simps)

lemma unat_minus_1_u8: "unat (- 1 :: u8) = 255"
  by (simp add: unsigned_minus_1_eq_mask mask_eq_exp_minus_1)

lemma ct_eq: "constant_time_eq_8 a b = (if a = b then - 1 else 0)"
proof -
  have "\<not> bit (NOT x AND (x - 1)) 63" if "x \<noteq> 0" for x :: u64
  proof (cases "bit x 63")
    case True
    then show ?thesis by (simp add: bit_simps)
  next
    case False
    then have "unat x < 2 ^ 63" using msb_bit [of x] by simp
    moreover have "unat (x - 1) = unat x - 1" using that by (metis unat_minus_one)
    ultimately have "unat (x - 1) < 2 ^ 63" by simp
    then show ?thesis using msb_bit [of "x - 1"] by (simp add: bit_simps)
  qed
  moreover have "bit (NOT 0 AND (0 - 1 :: u64)) 63" by simp
  ultimately have z: "constant_time_is_zero_w x = (if x = 0 then - 1 else 0)" for x
    unfolding constant_time_is_zero_w_def msb_mask msb_bit by presburger
  have "a XOR b = 0 \<longleftrightarrow> a = b" by (metis xor_self_eq bit.xor_left_self xor.right_neutral)
  then show ?thesis by (simp add: constant_time_eq_8_def constant_time_eq_w_def z ucast_minus_1)
qed

lemma ct_lt: "constant_time_lt_args_8 a b = (if a < b then - 1 else 0)"
proof -
  have u: "unat (ucast x :: u64) = unat x" for x :: u8
    using u8_bound [of x] by (simp add: unsigned_ucast_eq take_bit_nat_eq_self)
  have "2 ^ 63 \<le> unat (ucast a - ucast b :: u64) \<longleftrightarrow> a < b"
  proof (cases "a < b")
    case True
    then have "unat (ucast a - ucast b :: u64) = 2 ^ 64 + unat a - unat b"
      by (simp add: unat_sub_if_size u word_less_nat_alt size_word_def)
    with u8_bound [of b] True show ?thesis by simp
  next
    case False
    then have "unat (ucast a - ucast b :: u64) = unat a - unat b"
      by (simp add: unat_sub_if_size u word_less_nat_alt word_le_nat_alt)
    with u8_bound [of a] False show ?thesis by simp
  qed
  then show ?thesis by (simp add: constant_time_lt_args_8_def msb_mask ucast_minus_1)
qed

lemma ct_select: "constant_time_select_8 (if P then - 1 else 0) a b = (if P then a else b)"
proof -
  have "ucast (ucast x :: u64) = x" for x :: u8
    by (rule bit_word_eqI) (auto simp: bit_simps)
  moreover have "(ucast (ucast (- 1 :: u8) AND ucast a OR NOT (ucast (- 1 :: u8)) AND ucast b :: u64) :: u8) = a"
    by (rule bit_word_eqI) (auto simp: bit_simps)
  ultimately show ?thesis by (simp add: constant_time_select_8_def constant_time_select_w_def)
qed

lemma ct_range:
  assumes "low \<le> high" "\<not> (low = 0 \<and> high = - 1)"
  shows "constant_time_in_range_8 a low high = (if low \<le> a \<and> a \<le> high then - 1 else 0)"
proof -
  have hl: "unat (high - low) = unat high - unat low" using assms(1) by (simp add: unat_sub)
  have "unat high - unat low \<noteq> 255"
  proof
    assume "unat high - unat low = 255"
    then have "unat high = 255" "unat low = 0" using u8_bound [of high] by simp_all
    with assms(2) show False by (simp add: word_unat_eq_iff unat_minus_1_u8)
  qed
  then have "unat high - unat low + 1 < 256" using u8_bound [of high] by simp
  then have w: "unat (high - low + 1) = unat high - unat low + 1"
    by (simp add: unat_word_ariths hl)
  have "a - low < high - low + 1 \<longleftrightarrow> low \<le> a \<and> a \<le> high"
  proof (cases "low \<le> a")
    case True
    then have "unat (a - low) = unat a - unat low" "unat low \<le> unat a" by (simp_all add: unat_sub word_le_nat_alt)
    with True w hl assms(1) show ?thesis unfolding word_less_nat_alt word_le_nat_alt by linarith
  next
    case False
    then have "unat (a - low) = 256 + unat a - unat low"
      by (simp add: unat_sub_if_size word_le_nat_alt size_word_def)
    with False w hl assms(1) u8_bound [of high] show ?thesis unfolding word_less_nat_alt word_le_nat_alt by linarith
  qed
  then show ?thesis by (simp add: constant_time_in_range_8_def ct_lt)
qed

section \<open>The alphabet\<close>

definition b64_char :: "nat \<Rightarrow> u8" where
  "b64_char i =
     (if i < 26 then of_nat (0x41 + i) else if i < 52 then of_nat (0x61 + (i - 26))
      else if i < 62 then of_nat (0x30 + (i - 52)) else if i = 62 then 0x2B else 0x2F)"

lemma unat_small: "n < 256 \<Longrightarrow> unat (of_nat n :: u8) = n"
  by (intro unat_of_nat_small) simp

lemma of_nat_shift: "k \<le> n \<Longrightarrow> (of_nat n - of_nat k + of_nat j :: u8) = of_nat (j + (n - k))"
  by (simp add: of_nat_diff)

lemma conv_bin2ascii_char: "conv_bin2ascii a = b64_char (unat a mod 64)"
proof -
  define n where "n = unat a mod 64"
  have n: "n < 64" by (simp add: n_def)
  have "a AND 0x3f = take_bit 6 a" by (simp add: take_bit_eq_mask mask_eq_exp_minus_1)
  then have "unat (a AND 0x3f) = n" by (simp add: n_def take_bit_eq_mod unat_mod)
  then have a: "a AND 0x3f = of_nat n" using n by (simp add: word_unat_eq_iff unat_small)
  have less: "(of_nat n :: u8) < of_nat k \<longleftrightarrow> n < k" if "k < 256" for k
    using n that by (simp add: word_less_nat_alt unat_small)
  have eq: "(ucast (of_nat n :: u8) :: u64) = 62 \<longleftrightarrow> n = 62"
    using n by (simp add: word_unat_eq_iff unsigned_ucast_eq take_bit_nat_eq_self unat_small)
  show ?thesis
    unfolding conv_bin2ascii_def a Let_def n_def [symmetric]
    using less [of 62] less [of 52] less [of 26] eq n of_nat_shift [of 26 n "0x61"] of_nat_shift [of 52 n "0x30"]
    by (simp add: ct_eq ct_lt ct_select b64_char_def)
qed

lemma base64_ascii_to_bin_eq:
  "base64_ascii_to_bin a =
     (if 0x41 \<le> a \<and> a \<le> 0x5A then a - 0x41 else if 0x61 \<le> a \<and> a \<le> 0x7A then a - 0x61 + 26
      else if 0x30 \<le> a \<and> a \<le> 0x39 then a - 0x30 + 52 else if a = 0x2B then 62 else if a = 0x2F then 63
      else if a = 0x3D then 0 else 0xff)"
proof -
  have e: "(ucast a :: u64) = 0x2B \<longleftrightarrow> a = 0x2B" "(ucast a :: u64) = 0x2F \<longleftrightarrow> a = 0x2F"
    "(ucast a :: u64) = 0x3D \<longleftrightarrow> a = 0x3D"
    using take_bit_nat_eq_self [of "unat a" 64] u8_bound [of a] by (simp_all add: word_unat_eq_iff unsigned_ucast_eq)
  define U L D where "U \<longleftrightarrow> 0x41 \<le> a \<and> a \<le> 0x5A" and "L \<longleftrightarrow> 0x61 \<le> a \<and> a \<le> 0x7A" and "D \<longleftrightarrow> 0x30 \<le> a \<and> a \<le> 0x39"
  have disj: "U \<Longrightarrow> \<not> L \<and> \<not> D \<and> a \<noteq> 0x2B \<and> a \<noteq> 0x2F \<and> a \<noteq> 0x3D" "L \<Longrightarrow> \<not> D \<and> a \<noteq> 0x2B \<and> a \<noteq> 0x2F \<and> a \<noteq> 0x3D"
    "D \<Longrightarrow> \<not> U \<and> \<not> L \<and> a \<noteq> 0x2B \<and> a \<noteq> 0x2F \<and> a \<noteq> 0x3D" "L \<Longrightarrow> \<not> U"
    by (auto simp: U_def L_def D_def word_le_nat_alt)
  have r: "constant_time_in_range_8 a 0x41 0x5A = (if U then - 1 else 0)"
    "constant_time_in_range_8 a 0x61 0x7A = (if L then - 1 else 0)"
    "constant_time_in_range_8 a 0x30 0x39 = (if D then - 1 else 0)"
    unfolding U_def L_def D_def by (rule ct_range; simp)+
  consider (u) U | (l) L | (d) D | (o) "\<not> U" "\<not> L" "\<not> D" by blast
  then have "base64_ascii_to_bin a = (if U then a - 0x41 else if L then a - 0x61 + 26 else if D then a - 0x30 + 52
      else if a = 0x2B then 62 else if a = 0x2F then 63 else if a = 0x3D then 0 else 0xff)"
  proof cases
    case u
    with disj(1) show ?thesis unfolding base64_ascii_to_bin_def r ct_eq e Let_def by simp
  next
    case l
    with disj(2,4) show ?thesis unfolding base64_ascii_to_bin_def r ct_eq e Let_def by simp
  next
    case d
    with disj(3) show ?thesis unfolding base64_ascii_to_bin_def r ct_eq e Let_def by simp
  next
    case o
    then show ?thesis unfolding base64_ascii_to_bin_def r ct_eq e Let_def by simp
  qed
  then show ?thesis unfolding U_def L_def D_def .
qed

lemma b64_char_val:
  "i < 26 \<Longrightarrow> unat (b64_char i) = 0x41 + i"
  "26 \<le> i \<Longrightarrow> i < 52 \<Longrightarrow> unat (b64_char i) = 0x61 + (i - 26)"
  "52 \<le> i \<Longrightarrow> i < 62 \<Longrightarrow> unat (b64_char i) = 0x30 + (i - 52)"
  "b64_char 62 = 0x2B" "b64_char 63 = 0x2F"
  using unat_small [of "0x41 + i"] unat_small [of "0x61 + (i - 26)"] unat_small [of "0x30 + (i - 52)"]
  by (simp_all only: b64_char_def) simp_all

lemma sextet_cases:
  fixes i :: nat
  assumes "i < 64"
  obtains "i < 26" | "26 \<le> i" "i < 52" | "52 \<le> i" "i < 62" | "i = 62" | "i = 63"
  using assms by linarith

lemma b64_char_plain: "i < 64 \<Longrightarrow> b64_char i \<noteq> 0x3D \<and> \<not> is_space (b64_char i)"
  by (erule sextet_cases; simp add: is_space_def word_unat_eq_iff b64_char_val; arith?)

lemma ascii_to_bin_val:
  "0x41 \<le> unat a \<Longrightarrow> unat a \<le> 0x5A \<Longrightarrow> base64_ascii_to_bin a = of_nat (unat a - 0x41)"
  "0x61 \<le> unat a \<Longrightarrow> unat a \<le> 0x7A \<Longrightarrow> base64_ascii_to_bin a = of_nat (unat a - 0x61 + 26)"
  "0x30 \<le> unat a \<Longrightarrow> unat a \<le> 0x39 \<Longrightarrow> base64_ascii_to_bin a = of_nat (unat a - 0x30 + 52)"
  by (simp_all add: base64_ascii_to_bin_eq word_le_nat_alt of_nat_diff)

lemma ascii_char: "i < 64 \<Longrightarrow> base64_ascii_to_bin (b64_char i) = of_nat i"
proof (erule sextet_cases)
  assume "i < 26"
  then show ?thesis using ascii_to_bin_val(1) [of "b64_char i"] by (simp add: b64_char_val)
next
  assume i: "26 \<le> i" "i < 52"
  then show ?thesis using ascii_to_bin_val(2) [of "b64_char i"] b64_char_val(2) [OF i] by (simp add: of_nat_diff)
next
  assume i: "52 \<le> i" "i < 62"
  then show ?thesis using ascii_to_bin_val(3) [of "b64_char i"] b64_char_val(3) [OF i] by (simp add: of_nat_diff)
qed (simp_all add: base64_ascii_to_bin_eq b64_char_val)

lemma ascii_equals: "base64_ascii_to_bin 0x3D = 0"
  by (simp add: base64_ascii_to_bin_eq)

section \<open>Base64 on numbers\<close>

text \<open>Three bytes are a number of 24 bits, and that is four sextets (RFC 4648).\<close>

definition sextets :: "nat \<Rightarrow> nat list" where
  "sextets v = [v div 2 ^ 18 mod 64, v div 2 ^ 12 mod 64, v div 2 ^ 6 mod 64, v mod 64]"

fun b64 :: "bytes \<Rightarrow> bytes" where
  "b64 [] = []"
| "b64 [a] = map b64_char (take 2 (sextets (unat a * 65536))) @ [0x3D, 0x3D]"
| "b64 [a, b] = map b64_char (take 3 (sextets (unat a * 65536 + unat b * 256))) @ [0x3D]"
| "b64 (a # b # c # xs) = map b64_char (sextets (unat a * 65536 + unat b * 256 + unat c)) @ b64 xs"

lemma unat_push_or:
  fixes x y :: "'a::len word"
  assumes "unat y < 2 ^ k" "unat x * 2 ^ k + unat y < 2 ^ LENGTH('a)"
  shows "unat (push_bit k x OR y) = unat x * 2 ^ k + unat y"
proof -
  have le: "bit y n \<Longrightarrow> n < k" for n
  proof (rule ccontr)
    assume "bit y n" "\<not> n < k"
    then have "2 ^ k \<le> (2 :: nat) ^ n" by simp
    then have "unat y < 2 ^ n" using assms(1) by linarith
    then have "\<not> bit (unat y) n" by (simp add: bit_iff_odd)
    with \<open>bit y n\<close> show False by (simp add: bit_simps)
  qed
  then have "push_bit k x OR y = push_bit k x + y"
    by (intro disjunctive_add_eq_or [symmetric]) (auto simp: bit_eq_iff bit_simps not_less dest: le)
  moreover have "push_bit k x = of_nat (unat x * 2 ^ k)" by (simp add: push_bit_eq_mult)
  then have "push_bit k x + y = of_nat (unat x * 2 ^ k + unat y)" by simp
  moreover have "unat (of_nat (unat x * 2 ^ k + unat y) :: 'a word) = unat x * 2 ^ k + unat y"
    by (rule unat_of_nat_small [OF assms(2)])
  ultimately show ?thesis by (simp only:)
qed

lemma ucast_u8_32: "unat (ucast (a :: u8) :: u32) = unat a"
  using u8_bound [of a] by (simp add: unsigned_ucast_eq take_bit_nat_eq_self)

lemma unat_push_8: "unat a * 2 ^ k < 2 ^ 32 \<Longrightarrow> unat (push_bit k (ucast (a :: u8)) :: u32) = unat a * 2 ^ k"
  using unat_push_or [of "0 :: u32" k "ucast a"] by (simp add: ucast_u8_32)

lemma word24:
  fixes a b c :: u8
  shows
  "unat (push_bit 16 (ucast a) :: u32) = unat a * 65536"
  "unat (push_bit 16 (ucast a) OR push_bit 8 (ucast b) :: u32) = unat a * 65536 + unat b * 256"
  "unat (push_bit 16 (ucast a) OR push_bit 8 (ucast b) OR ucast c :: u32) = unat a * 65536 + unat b * 256 + unat c"
proof -
  note bounds = u8_bound [of a] u8_bound [of b] u8_bound [of c]
  show "unat (push_bit 16 (ucast a) :: u32) = unat a * 65536" using unat_push_8 [of a 16] bounds by simp
  have b: "unat (push_bit 8 (ucast b) :: u32) = unat b * 256" using unat_push_8 [of b 8] bounds by simp
  show "unat (push_bit 16 (ucast a) OR push_bit 8 (ucast b) :: u32) = unat a * 65536 + unat b * 256"
    using unat_push_or [of "push_bit 8 (ucast b) :: u32" 16 "ucast a"] b bounds by (simp add: ucast_u8_32)
  have bc: "unat (push_bit 8 (ucast b) OR ucast c :: u32) = unat b * 256 + unat c"
    using unat_push_or [of "ucast c :: u32" 8 "ucast b"] bounds by (simp add: ucast_u8_32)
  show "unat (push_bit 16 (ucast a) OR push_bit 8 (ucast b) OR ucast c :: u32) = unat a * 65536 + unat b * 256 + unat c"
    using unat_push_or [of "push_bit 8 (ucast b) OR ucast c :: u32" 16 "ucast a"] bc bounds
    by (simp add: ucast_u8_32 or.assoc)
qed

lemma conv_shift: "conv_bin2ascii (ucast (drop_bit k (l :: u32))) = b64_char (unat l div 2 ^ k mod 64)"
proof -
  have "unat (ucast (drop_bit k l) :: u8) mod 64 = unat (drop_bit k l) mod 64"
    by (simp add: unsigned_ucast_eq take_bit_eq_mod mod_mod_cancel)
  then show ?thesis by (simp add: conv_bin2ascii_char unat_drop_bit_div)
qed

lemma conv_low: "conv_bin2ascii (ucast (l :: u32)) = b64_char (unat l mod 64)"
  using conv_shift [of 0 l] by simp

lemma encode_loop_eq: "encode_loop src ret = (b64 src, ret + of_nat (length (b64 src)))"
proof (induction src ret rule: encode_loop.induct)
  case (4 a b c src ret)
  show ?case
    by (simp only: encode_loop.simps b64.simps Let_def conv_shift,
        simp only: conv_low word24 sextets_def "4.IH" [OF refl], simp)
qed (simp_all only: encode_loop.simps b64.simps Let_def conv_shift word24 sextets_def, simp_all)

lemma b64_length: "length (b64 xs) = 4 * ((length xs + 2) div 3)"
proof (induction xs rule: b64.induct)
  case (4 a b c xs)
  have "(n + 3 + 2) div 3 = Suc ((n + 2) div 3)" for n :: nat by simp
  from this [of "length xs"] 4 show ?case by (simp add: sextets_def)
qed (simp_all add: sextets_def)

lemma EncodeBlock_eq: "EVP_EncodeBlock src = (b64 src @ [0], of_nat (length (b64 src)))"
  by (simp add: EVP_EncodeBlock_def encode_loop_eq)

section \<open>Decoding quads\<close>

definition quad_value :: "nat \<Rightarrow> nat \<Rightarrow> nat \<Rightarrow> nat \<Rightarrow> nat" where
  "quad_value p q r s = p * 2 ^ 18 + q * 2 ^ 12 + r * 2 ^ 6 + s"

lemma ucast_of_nat_u8: "n < 256 \<Longrightarrow> unat (ucast (of_nat n :: u8) :: u32) = n"
  by (simp add: ucast_u8_32 unat_small)

lemma quad_word:
  assumes "p < 64" "q < 64" "r < 64" "s < 64"
  shows "unat (push_bit 18 (ucast (of_nat p :: u8)) OR push_bit 12 (ucast (of_nat q :: u8))
      OR push_bit 6 (ucast (of_nat r :: u8)) OR ucast (of_nat s :: u8) :: u32) = quad_value p q r s"
proof -
  have u: "unat (ucast (of_nat i :: u8) :: u32) = i" if "i < 64" for i
    using that by (simp add: ucast_of_nat_u8)
  have rs: "unat (push_bit 6 (ucast (of_nat r :: u8)) OR ucast (of_nat s :: u8) :: u32) = r * 2 ^ 6 + s"
    using unat_push_or [of "ucast (of_nat s :: u8) :: u32" 6 "ucast (of_nat r :: u8)"] assms by (simp add: u)
  have qrs: "unat (push_bit 12 (ucast (of_nat q :: u8)) OR push_bit 6 (ucast (of_nat r :: u8))
      OR ucast (of_nat s :: u8) :: u32) = q * 2 ^ 12 + (r * 2 ^ 6 + s)"
    using unat_push_or [of "push_bit 6 (ucast (of_nat r :: u8)) OR ucast (of_nat s :: u8) :: u32" 12
        "ucast (of_nat q :: u8)"] rs assms by (simp add: u)
  show ?thesis
    using unat_push_or [of "push_bit 12 (ucast (of_nat q :: u8)) OR push_bit 6 (ucast (of_nat r :: u8))
        OR ucast (of_nat s :: u8) :: u32" 18 "ucast (of_nat p :: u8)"] qrs assms
    by (simp add: u quad_value_def)
qed

lemma ucast_shift_u8: "ucast (drop_bit k (v :: u32)) = (of_nat (unat v div 2 ^ k) :: u8)"
  by (simp add: word_unat_eq_iff unsigned_ucast_eq unat_drop_bit_div unsigned_of_nat)

lemma ucast_low_u8: "ucast (v :: u32) = (of_nat (unat v) :: u8)"
  using ucast_shift_u8 [of 0 v] by simp

lemma small_not_ff: "i < 64 \<Longrightarrow> (of_nat i :: u8) \<noteq> 0xff"
  by (simp add: word_unat_eq_iff unat_small)

lemma decode_quad_eq:
  assumes "base64_ascii_to_bin i0 = of_nat p" "base64_ascii_to_bin i1 = of_nat q"
    "base64_ascii_to_bin i2 = of_nat r" "base64_ascii_to_bin i3 = of_nat s"
    and less: "p < 64" "q < 64" "r < 64" "s < 64"
  shows "base64_decode_quad i0 i1 i2 i3 =
     (let v = quad_value p q r s; pattern = (i0 = 0x3D, i1 = 0x3D, i2 = 0x3D, i3 = 0x3D) in
      if pattern = (False, False, False, False) then Some [of_nat (v div 2 ^ 16), of_nat (v div 2 ^ 8), of_nat v]
      else if pattern = (False, False, False, True) then Some [of_nat (v div 2 ^ 16), of_nat (v div 2 ^ 8)]
      else if pattern = (False, False, True, True) then Some [of_nat (v div 2 ^ 16)]
      else None)"
proof -
  let ?v = "push_bit 18 (ucast (of_nat p :: u8)) OR push_bit 12 (ucast (of_nat q :: u8))
      OR push_bit 6 (ucast (of_nat r :: u8)) OR ucast (of_nat s :: u8) :: u32"
  have w: "unat ?v = quad_value p q r s" by (rule quad_word [OF less])
  define V where "V = ?v"
  have V: "ucast (drop_bit k V) = (of_nat (quad_value p q r s div 2 ^ k) :: u8)"
    "ucast V = (of_nat (quad_value p q r s) :: u8)" for k
    using w by (simp_all only: V_def [symmetric] ucast_shift_u8) (simp add: ucast_low_u8)
  show ?thesis
    unfolding base64_decode_quad_def assms(1-4) Let_def V_def [symmetric] V
    by (cases "i0 = 0x3D"; cases "i1 = 0x3D"; cases "i2 = 0x3D"; cases "i3 = 0x3D"; simp add: small_not_ff less)
qed

lemma decode_quad_chars:
  assumes "p < 64" "q < 64" "r < 64" "s < 64"
  shows "base64_decode_quad (b64_char p) (b64_char q) (b64_char r) (b64_char s) =
      (let v = quad_value p q r s in Some [of_nat (v div 2 ^ 16), of_nat (v div 2 ^ 8), of_nat v])"
    and "base64_decode_quad (b64_char p) (b64_char q) (b64_char r) 0x3D =
      (let v = quad_value p q r 0 in Some [of_nat (v div 2 ^ 16), of_nat (v div 2 ^ 8)])"
    and "base64_decode_quad (b64_char p) (b64_char q) 0x3D 0x3D =
      (let v = quad_value p q 0 0 in Some [of_nat (v div 2 ^ 16)])"
proof -
  have z: "base64_ascii_to_bin 0x3D = of_nat 0" by (simp add: ascii_equals)
  note c = ascii_char [OF assms(1)] ascii_char [OF assms(2)]
  note ne = b64_char_plain [OF assms(1)] b64_char_plain [OF assms(2)]
  show "base64_decode_quad (b64_char p) (b64_char q) (b64_char r) (b64_char s) =
      (let v = quad_value p q r s in Some [of_nat (v div 2 ^ 16), of_nat (v div 2 ^ 8), of_nat v])"
    using decode_quad_eq [OF c ascii_char [OF assms(3)] ascii_char [OF assms(4)] assms] ne
      b64_char_plain [OF assms(3)] b64_char_plain [OF assms(4)] by simp
  show "base64_decode_quad (b64_char p) (b64_char q) (b64_char r) 0x3D =
      (let v = quad_value p q r 0 in Some [of_nat (v div 2 ^ 16), of_nat (v div 2 ^ 8)])"
    using decode_quad_eq [OF c ascii_char [OF assms(3)] z assms(1-3)] ne b64_char_plain [OF assms(3)] by simp
  show "base64_decode_quad (b64_char p) (b64_char q) 0x3D 0x3D =
      (let v = quad_value p q 0 0 in Some [of_nat (v div 2 ^ 16)])"
    using decode_quad_eq [OF c z z assms(1,2)] ne by simp
qed

text \<open>Sextets put together again.\<close>

lemma radix64:
  "v = x * 64 + d \<Longrightarrow> x = y * 64 + c \<Longrightarrow> y = a * 64 + b \<Longrightarrow> a * 2 ^ 18 + b * 2 ^ 12 + c * 2 ^ 6 + d = v" for v :: nat
  by simp

lemma quad_value_sextets:
  assumes "v < 2 ^ 24"
  shows "quad_value (v div 2 ^ 18 mod 64) (v div 2 ^ 12 mod 64) (v div 2 ^ 6 mod 64) (v mod 64) = v"
proof -
  have "v div 262144 < 64" using assms by (simp add: less_mult_imp_div_less)
  then have "v div 262144 mod 64 = v div 262144" by simp
  moreover have e: "v div 64 div 64 = v div 2 ^ 12" "v div 2 ^ 12 div 64 = v div 2 ^ 18"
    by (simp_all flip: div_mult2_eq)
  have "v = v div 64 * 64 + v mod 64" "v div 64 = v div 2 ^ 12 * 64 + v div 64 mod 64"
    "v div 2 ^ 12 = v div 2 ^ 18 * 64 + v div 2 ^ 12 mod 64" unfolding e [symmetric] by simp_all
  from radix64 [OF this] show ?thesis using calculation unfolding quad_value_def by simp
qed

lemma sextets_less: "x \<in> set (sextets v) \<Longrightarrow> x < 64"
  by (auto simp: sextets_def)

lemma byte_sum:
  fixes a b c :: u8
  defines "v \<equiv> unat a * 65536 + unat b * 256 + unat c"
  shows "v < 2 ^ 24" "of_nat (v div 2 ^ 16) = a" "of_nat (v div 2 ^ 8) = b" "of_nat v = c"
proof -
  note bounds = u8_bound [of a] u8_bound [of b] u8_bound [of c]
  show "v < 2 ^ 24" using bounds by (simp add: v_def)
  have "v = (unat a * 256 + unat b) * 256 + unat c" by (simp add: v_def algebra_simps)
  then have v8: "v div 256 = unat a * 256 + unat b" using bounds(3) by simp
  have "v div 2 ^ 16 = v div 256 div 256" by (simp flip: div_mult2_eq)
  also have "\<dots> = unat a" using v8 bounds(2) by simp
  finally show "of_nat (v div 2 ^ 16) = a" by simp
  have c256: "(of_nat (n * 256) :: u8) = 0" for n unfolding word_of_nat_eq_0_iff by simp
  have "(of_nat (v div 2 ^ 8) :: u8) = of_nat (unat a * 256) + of_nat (unat b)" using v8 by simp
  then show "of_nat (v div 2 ^ 8) = b" using c256 [of "unat a"] by simp
  have "(of_nat v :: u8) = of_nat ((unat a * 256 + unat b) * 256) + of_nat (unat c)"
    by (simp only: \<open>v = (unat a * 256 + unat b) * 256 + unat c\<close> of_nat_add)
  then show "of_nat v = c" using c256 [of "unat a * 256 + unat b"] by simp
qed

text \<open>Decoding undoes one group of the encoding.\<close>

lemma decode_sextets:
  assumes "v < 2 ^ 24" "sextets v = [p, q, r, s]"
  shows "base64_decode_quad (b64_char p) (b64_char q) (b64_char r) (b64_char s)
      = Some [of_nat (v div 2 ^ 16), of_nat (v div 2 ^ 8), of_nat v]"
    and "s = 0 \<Longrightarrow> base64_decode_quad (b64_char p) (b64_char q) (b64_char r) 0x3D
      = Some [of_nat (v div 2 ^ 16), of_nat (v div 2 ^ 8)]"
    and "r = 0 \<Longrightarrow> s = 0 \<Longrightarrow> base64_decode_quad (b64_char p) (b64_char q) 0x3D 0x3D = Some [of_nat (v div 2 ^ 16)]"
proof -
  have less: "p < 64" "q < 64" "r < 64" "s < 64" using sextets_less [of _ v] assms(2) by simp_all
  have v: "quad_value p q r s = v" using quad_value_sextets [OF assms(1)] assms(2) by (simp add: sextets_def)
  note d = decode_quad_chars [OF less]
  show "base64_decode_quad (b64_char p) (b64_char q) (b64_char r) (b64_char s)
      = Some [of_nat (v div 2 ^ 16), of_nat (v div 2 ^ 8), of_nat v]" using d(1) v by (simp only: Let_def)
  show "base64_decode_quad (b64_char p) (b64_char q) (b64_char r) 0x3D
      = Some [of_nat (v div 2 ^ 16), of_nat (v div 2 ^ 8)]" if "s = 0" using d(2) v that by (simp only: Let_def)
  show "base64_decode_quad (b64_char p) (b64_char q) 0x3D 0x3D = Some [of_nat (v div 2 ^ 16)]" if "r = 0" "s = 0"
    using d(3) v that by (simp only: Let_def)
qed

lemma decode_group:
  fixes a b c :: u8
  shows "sextets (unat a * 65536 + unat b * 256 + unat c) = [p, q, r, s] \<Longrightarrow>
      base64_decode_quad (b64_char p) (b64_char q) (b64_char r) (b64_char s) = Some [a, b, c]"
    and "sextets (unat a * 65536 + unat b * 256) = [p, q, r, s] \<Longrightarrow>
      base64_decode_quad (b64_char p) (b64_char q) (b64_char r) 0x3D = Some [a, b]"
    and "sextets (unat a * 65536) = [p, q, r, s] \<Longrightarrow>
      base64_decode_quad (b64_char p) (b64_char q) 0x3D 0x3D = Some [a]"
proof -
  assume s: "sextets (unat a * 65536 + unat b * 256 + unat c) = [p, q, r, s]"
  from decode_sextets(1) [OF byte_sum(1) s] show "base64_decode_quad (b64_char p) (b64_char q) (b64_char r) (b64_char s)
      = Some [a, b, c]" by (simp only: byte_sum(2-4))
next
  let ?w = "unat a * 65536 + unat b * 256"
  assume s: "sextets ?w = [p, q, r, s]"
  have w: "?w = unat a * 65536 + unat b * 256 + unat (0 :: u8)" by simp
  have "s = ?w mod 64" using s by (simp only: sextets_def list.inject)
  moreover have "?w = (unat a * 1024 + unat b * 4) * 64" by simp
  ultimately have "s = 0" by (metis mod_mult_self2_is_0)
  from decode_sextets(2) [OF byte_sum(1) [of a b 0, folded w] s this]
  show "base64_decode_quad (b64_char p) (b64_char q) (b64_char r) 0x3D = Some [a, b]"
    by (simp only: byte_sum(2,3) [of a b 0, folded w])
next
  let ?u = "unat a * 65536"
  assume s: "sextets ?u = [p, q, r, s]"
  have u: "?u = unat a * 65536 + unat (0 :: u8) * 256 + unat (0 :: u8)" by simp
  have "s = ?u mod 64" "r = ?u div 2 ^ 6 mod 64" using s by (simp_all only: sextets_def list.inject)
  moreover have "?u = (unat a * 1024) * 64" "?u div 2 ^ 6 = (unat a * 16) * 64" by simp_all
  ultimately have "r = 0" "s = 0" by (metis mod_mult_self2_is_0)+
  from decode_sextets(3) [OF byte_sum(1) [of a 0 0, folded u] s this]
  show "base64_decode_quad (b64_char p) (b64_char q) 0x3D 0x3D = Some [a]"
    by (simp only: byte_sum(2) [of a 0 0, folded u])
qed

lemma sextetsE:
  obtains p q r s where "sextets v = [p, q, r, s]" "p < 64" "q < 64" "r < 64" "s < 64"
proof -
  have "sextets v = [v div 2 ^ 18 mod 64, v div 2 ^ 12 mod 64, v div 2 ^ 6 mod 64, v mod 64]" by (rule sextets_def)
  from that [OF this] show thesis by simp
qed

lemma decode_quads_b64: "decode_quads (b64 xs) = Some xs"
proof (induction xs rule: b64.induct)
  case (2 a)
  obtain p q r s where v: "sextets (unat a * 65536) = [p, q, r, s]" by (rule sextetsE)
  from decode_group(3) [OF v] show ?case by (simp add: v)
next
  case (3 a b)
  obtain p q r s where v: "sextets (unat a * 65536 + unat b * 256) = [p, q, r, s]" by (rule sextetsE)
  from decode_group(2) [OF v] show ?case by (simp add: v)
next
  case (4 a b c xs)
  obtain p q r s where v: "sextets (unat a * 65536 + unat b * 256 + unat c) = [p, q, r, s]" by (rule sextetsE)
  from decode_group(1) [OF v] "4.IH" show ?case by (simp add: v)
qed simp

section \<open>Streams\<close>

text \<open>The lines of 64 characters of a text, and what is left of it for the last, shorter line.\<close>

function full_lines :: "bytes \<Rightarrow> bytes" where
  "full_lines xs = (if 48 \<le> length xs then b64 (take 48 xs) @ [0x0A] @ full_lines (drop 48 xs) else [])"
  by pat_completeness auto
termination by (relation "measure length") auto

function last_line :: "bytes \<Rightarrow> bytes" where
  "last_line xs = (if 48 \<le> length xs then last_line (drop 48 xs) else xs)"
  by pat_completeness auto
termination by (relation "measure length") auto

declare full_lines.simps [simp del] last_line.simps [simp del]

definition b64_lines :: "bytes \<Rightarrow> bytes" where
  "b64_lines xs = full_lines xs @ (if last_line xs = [] then [] else b64 (last_line xs) @ [0x0A])"

lemma length_last_line: "length (last_line xs) < 48"
  by (induction xs rule: last_line.induct) (simp add: last_line.simps)

lemma full_lines_short: "length xs < 48 \<Longrightarrow> full_lines xs = [] \<and> last_line xs = xs"
  by (simp add: full_lines.simps last_line.simps)

lemma full_lines_long:
  assumes "48 \<le> length xs"
  shows "full_lines (xs @ ys) = b64 (take 48 xs) @ [0x0A] @ full_lines (drop 48 xs @ ys)"
    "last_line (xs @ ys) = last_line (drop 48 xs @ ys)"
  using assms full_lines.simps [of "xs @ ys"] last_line.simps [of "xs @ ys"] by simp_all

lemma lines_app:
  "full_lines (xs @ ys) = full_lines xs @ full_lines (last_line xs @ ys) \<and>
   last_line (xs @ ys) = last_line (last_line xs @ ys)"
proof (induction xs rule: full_lines.induct)
  case (1 xs)
  show ?case
  proof (cases "48 \<le> length xs")
    case True
    from "1.IH" [OF this] show ?thesis
      unfolding full_lines_long [OF True, of ys] full_lines_long [OF True, of "[]", unfolded append_Nil2] by simp
  next
    case False
    then show ?thesis using full_lines_short [of xs] by simp
  qed
qed

lemma full_lines_length: "length (full_lines xs) = 65 * (length xs div 48)"
proof (induction xs rule: full_lines.induct)
  case (1 xs)
  have "length xs div 48 = Suc ((length xs - 48) div 48)" if "48 \<le> length xs"
    using that by (simp add: div_if)
  with 1 show ?case by (simp add: full_lines.simps [of xs] b64_length)
qed

lemma encode_line_eq: "length d \<le> 48 \<Longrightarrow> encode_line d = (b64 d @ [0x0A], of_nat (length (b64 d)))"
proof -
  assume "length d \<le> 48"
  then have "(length d + 2) div 3 \<le> 50 div 3" by (intro div_le_mono) simp
  then have "length (b64 d) < 2 ^ 64" by (simp add: b64_length)
  then have "unat (of_nat (length (b64 d)) :: u64) = length (b64 d)" by simp
  then show ?thesis by (simp add: encode_line_def EncodeBlock_eq)
qed

lemma encode_lines_eq:
  "unat tot + length (full_lines src) < 2 ^ 64 \<Longrightarrow>
     encode_lines src out tot = (True, last_line src, out @ full_lines src, tot + of_nat (length (full_lines src)))"
proof (induction src out tot rule: encode_lines.induct)
  case (1 src out tot)
  show ?case
  proof (cases "48 \<le> length src")
    case False
    then show ?thesis by (simp add: encode_lines.simps full_lines_short)
  next
    case True
    let ?l = "full_lines (drop 48 src)"
    have b: "length (b64 (take 48 src)) = 64" using True by (simp add: b64_length)
    have l: "encode_line (take 48 src) = (b64 (take 48 src) @ [0x0A], 64)"
      using encode_line_eq [of "take 48 src"] b by simp
    have f: "full_lines src = b64 (take 48 src) @ [0x0A] @ ?l" "last_line src = last_line (drop 48 src)"
      using True by (simp_all add: full_lines.simps [of src] last_line.simps [of src])
    have s: "unat (tot + 65) = unat tot + 65"
      using "1.prems" f b by (simp add: unat_word_ariths)
    have no: "\<not> tot + 64 + 1 < tot" using s by (simp add: word_less_nat_alt add.assoc)
    have "unat (tot + 65) + length ?l < 2 ^ 64" using "1.prems" f b s by simp
    with "1.IH" [OF True l [symmetric] no]
    have "encode_lines (drop 48 src) (out @ b64 (take 48 src) @ [0x0A]) (tot + 65)
        = (True, last_line (drop 48 src), (out @ b64 (take 48 src) @ [0x0A]) @ ?l, tot + 65 + of_nat (length ?l))"
      by (simp add: add.assoc)
    with True l no f b show ?thesis
      by (simp add: encode_lines.simps [of src] add.assoc)
  qed
qed

text \<open>An encoding context holds the start of the next line.\<close>

definition enc_ok :: "evp_encode_ctx \<Rightarrow> bool" where
  "enc_ok ctx \<longleftrightarrow> length (data ctx) = 48 \<and> data_used ctx < 48"

definition pending :: "evp_encode_ctx \<Rightarrow> bytes" where
  "pending ctx = take (data_used ctx) (data ctx)"

lemma length_pending: "enc_ok ctx \<Longrightarrow> length (pending ctx) = data_used ctx"
  by (simp add: enc_ok_def pending_def)

lemma store_pending:
  assumes "enc_ok ctx" "length xs \<le> 48 - data_used ctx"
  shows "length (store_bytes (data ctx) (data_used ctx) xs) = 48"
    "take (data_used ctx + length xs) (store_bytes (data ctx) (data_used ctx) xs) = pending ctx @ xs"
proof -
  have "data_used ctx + length xs \<le> 48" using assms unfolding enc_ok_def by linarith
  then show "length (store_bytes (data ctx) (data_used ctx) xs) = 48"
    "take (data_used ctx + length xs) (store_bytes (data ctx) (data_used ctx) xs) = pending ctx @ xs"
    using assms(1) by (simp_all add: enc_ok_def store_bytes_def pending_def)
qed

lemma unat_add_nat: "unat w + n < 2 ^ 64 \<Longrightarrow> unat (w + of_nat n) = unat w + n" for w :: u64
proof -
  assume "unat w + n < 2 ^ 64"
  moreover have "w + of_nat n = of_nat (unat w + n)" by simp
  ultimately show ?thesis by (simp only: u64_nat)
qed

lemma uint_unat: "uint w = int (unat w)" for w :: u64
  by simp

lemma encode_rest:
  assumes "length (data ctx) = 48" and small: "unat tot + length (full_lines src) \<le> 2147483647"
    and out: "unat tot = length out"
  shows "(case encode_lines src out tot of (ok, rest, out, tot) \<Rightarrow>
        if \<not> ok then (ctx, out @ [0], 0)
        else (ctx\<lparr>data := store_bytes (data ctx) 0 rest, data_used := length rest\<rparr>, out @ [0],
              if uint tot > INT_MAX then 0 else uint tot))
      = (ctx\<lparr>data := store_bytes (data ctx) 0 (last_line src), data_used := length (last_line src)\<rparr>,
         (out @ full_lines src) @ [0], int (length (out @ full_lines src)))"
proof -
  let ?n = "length (full_lines src)"
  have n: "unat tot + ?n < 2 ^ 64" using small by simp
  have "uint (tot + of_nat ?n) = int (length (out @ full_lines src))"
    unfolding uint_unat unat_add_nat [OF n] by (simp add: out)
  moreover from this have "\<not> uint (tot + of_nat ?n) > INT_MAX" using small out by (simp add: INT_MAX_def)
  ultimately show ?thesis unfolding encode_lines_eq [OF n, of out] by simp
qed

lemma store_last_line:
  assumes "length (data ctx) = 48"
  shows "enc_ok (ctx\<lparr>data := store_bytes (data ctx) 0 (last_line src), data_used := length (last_line src)\<rparr>)"
    "pending (ctx\<lparr>data := store_bytes (data ctx) 0 (last_line src), data_used := length (last_line src)\<rparr>) = last_line src"
  using assms length_last_line [of src] by (simp_all add: enc_ok_def pending_def store_bytes_def)

lemma EncodeUpdate_eq:
  assumes ok: "enc_ok ctx" and small: "length (full_lines (pending ctx @ src)) \<le> 2147483647"
  shows "\<exists>ctx' out. EVP_EncodeUpdate ctx src = (ctx', out, int (length (full_lines (pending ctx @ src))))
    \<and> take (length (full_lines (pending ctx @ src))) out = full_lines (pending ctx @ src)
    \<and> enc_ok ctx' \<and> pending ctx' = last_line (pending ctx @ src)"
proof -
  let ?u = "data_used ctx" and ?t = "pending ctx @ src"
  have u: "?u < 48" "length (data ctx) = 48" using ok by (simp_all add: enc_ok_def)
  note p = length_pending [OF ok]
  consider (empty) "src = []" | (buffer) "src \<noteq> []" "48 - ?u > length src"
    | (fill) "src \<noteq> []" "\<not> 48 - ?u > length src" "?u \<noteq> 0" | (lines) "src \<noteq> []" "\<not> 48 - ?u > length src" "?u = 0"
    by blast
  then show ?thesis
  proof cases
    case empty
    then show ?thesis using full_lines_short [of "pending ctx"] p u ok by (simp add: EVP_EncodeUpdate_def)
  next
    case buffer
    let ?ctx = "ctx\<lparr>data := store_bytes (data ctx) ?u src, data_used := ?u + length src\<rparr>"
    have "enc_ok ?ctx" "pending ?ctx = ?t"
      using buffer store_pending [OF ok, of src] by (simp_all add: enc_ok_def pending_def)
    moreover have "full_lines ?t = []" "last_line ?t = ?t" using full_lines_short [of ?t] p buffer by simp_all
    ultimately show ?thesis using buffer by (simp add: EVP_EncodeUpdate_def)
  next
    case fill
    let ?todo = "48 - ?u"
    let ?full = "store_bytes (data ctx) ?u (take ?todo src)" and ?rest = "drop ?todo src"
    let ?ctx = "ctx\<lparr>data := ?full, data_used := 0\<rparr>"
    have l: "length (take ?todo src) = ?todo" using fill by simp
    have full: "length ?full = 48" "?full = pending ctx @ take ?todo src"
      using store_pending [OF ok, of "take ?todo src"] l u p by simp_all
    have "?t = ?full @ ?rest" by (simp add: full)
    then have t: "full_lines ?t = (b64 ?full @ [0x0A]) @ full_lines ?rest" "last_line ?t = last_line ?rest"
      using full_lines_long [of ?full ?rest] full(1) by simp_all
    have b: "length (b64 ?full) = 64" using full(1) by (simp add: b64_length)
    have e: "encode_line ?full = (b64 ?full @ [0x0A], 64)" using encode_line_eq [of ?full] full(1) b by simp
    have s: "unat (65 :: u64) + length (full_lines ?rest) \<le> 2147483647" "unat (65 :: u64) = length (b64 ?full @ [0x0A])"
      using small b by (simp_all add: t)
    from encode_rest [OF _ s, of ?ctx] full(1) fill e
    have "EVP_EncodeUpdate ctx src = (?ctx\<lparr>data := store_bytes (data ?ctx) 0 (last_line ?rest), data_used := length (last_line ?rest)\<rparr>,
        full_lines ?t @ [0], int (length (full_lines ?t)))"
      by (simp add: EVP_EncodeUpdate_def Let_def t)
    with store_last_line [of ?ctx ?rest] full(1) t show ?thesis by simp
  next
    case lines
    then have t: "?t = src" by (simp add: pending_def)
    have s: "unat (0 :: u64) + length (full_lines src) \<le> 2147483647" "unat (0 :: u64) = length ([] :: bytes)"
      using small by (simp_all add: t)
    from encode_rest [OF u(2) s] lines
    have "EVP_EncodeUpdate ctx src = (ctx\<lparr>data := store_bytes (data ctx) 0 (last_line src), data_used := length (last_line src)\<rparr>,
        full_lines src @ [0], int (length (full_lines src)))"
      by (simp add: EVP_EncodeUpdate_def Let_def)
    with store_last_line [OF u(2)] t show ?thesis by simp
  qed
qed

text \<open>A caller that feeds a text in pieces and keeps what \<open>*out_len\<close> says was written.\<close>

fun encode_all :: "evp_encode_ctx \<Rightarrow> bytes list \<Rightarrow> bytes" where
  "encode_all ctx [] = (case EVP_EncodeFinal ctx of (_, out, n) \<Rightarrow> take (nat n) out)"
| "encode_all ctx (c # cs) =
     (case EVP_EncodeUpdate ctx c of (ctx', out, n) \<Rightarrow> take (nat n) out @ encode_all ctx' cs)"

lemma encode_all_eq:
  "enc_ok ctx \<Longrightarrow> list_all (\<lambda>c. length c < 2 ^ 30) cs \<Longrightarrow> encode_all ctx cs = b64_lines (pending ctx @ concat cs)"
proof (induction cs arbitrary: ctx)
  case Nil
  have p: "length (pending ctx) < 48" using Nil(1) length_pending [OF Nil(1)] by (simp add: enc_ok_def)
  have b: "length (b64 (pending ctx)) < 2 ^ 60"
  proof -
    have "(length (pending ctx) + 2) div 3 \<le> 50 div 3" using p by (intro div_le_mono) simp
    then show ?thesis by (simp add: b64_length)
  qed
  have "EVP_EncodeFinal ctx = (if data_used ctx = 0 then (ctx, [], 0)
      else (ctx\<lparr>data_used := 0\<rparr>, (b64 (pending ctx) @ [0x0A]) @ [0], int (length (b64 (pending ctx)) + 1)))"
  proof -
    have n: "unat (1 :: u64) + length (b64 (pending ctx)) < 2 ^ 64" using b by simp
    have "uint (of_nat (length (b64 (pending ctx))) + 1 :: u64) = int (length (b64 (pending ctx)) + 1)"
      unfolding uint_unat using unat_add_nat [OF n] by (simp add: add.commute)
    then show ?thesis
      using encode_line_eq [of "pending ctx"] p by (simp add: EVP_EncodeFinal_def pending_def [symmetric])
  qed
  moreover have "data_used ctx = 0 \<longleftrightarrow> pending ctx = []" using length_pending [OF Nil(1)] by auto
  ultimately show ?case using full_lines_short [OF p] by (simp add: b64_lines_def nat_add_distrib)
next
  case (Cons c cs)
  have "length (pending ctx @ c) div 48 \<le> (2 ^ 30 + 47) div 48"
    using Cons.prems length_pending [OF Cons.prems(1)] by (intro div_le_mono) (simp add: enc_ok_def)
  then have "length (full_lines (pending ctx @ c)) \<le> 2147483647" by (simp add: full_lines_length)
  from EncodeUpdate_eq [OF Cons.prems(1) this] obtain ctx' out where
    e: "EVP_EncodeUpdate ctx c = (ctx', out, int (length (full_lines (pending ctx @ c))))"
      "take (length (full_lines (pending ctx @ c))) out = full_lines (pending ctx @ c)"
      "enc_ok ctx'" "pending ctx' = last_line (pending ctx @ c)" by blast
  have "encode_all ctx' cs = b64_lines (last_line (pending ctx @ c) @ concat cs)"
    using Cons.IH [OF e(3)] Cons.prems(2) e(4) by simp
  with e show ?case using lines_app [of "pending ctx @ c" "concat cs"] by (simp add: b64_lines_def)
qed

text \<open>The decoding loop does not care how its input is cut.\<close>

lemma decode_loop_out: "decode_loop ctx out src =
    (case decode_loop ctx [] src of (ok, ctx', o') \<Rightarrow> (ok, ctx', out @ o'))"
proof (induction src arbitrary: ctx out)
  case (Cons c src)
  let ?ctx = "ctx\<lparr>data := (data ctx)[data_used ctx := c], data_used := data_used ctx + 1\<rparr>"
  note IH = Cons.IH
  show ?case
  proof (cases "is_space c \<or> eof_seen ctx \<or> data_used ?ctx \<noteq> 4")
    case True
    then show ?thesis using IH [of ctx out] IH [of ?ctx out] by (auto simp: Let_def)
  next
    case False
    let ?d = "(data ctx)[data_used ctx := c]"
    show ?thesis
    proof (cases "base64_decode_quad (?d ! 0) (?d ! 1) (?d ! 2) (?d ! 3)")
      case None
      then show ?thesis using False by (simp add: Let_def)
    next
      case (Some bs)
      let ?c = "?ctx\<lparr>data_used := 0, eof_seen := eof_seen ?ctx \<or> length bs < 3\<rparr>"
      show ?thesis
        using False Some IH [of ?c "out @ bs"] IH [of ?c bs] by (simp add: Let_def split: prod.splits)
    qed
  qed
qed simp

lemma decode_loop_app: "decode_loop ctx out (xs @ ys) =
    (case decode_loop ctx out xs of (ok, ctx', out') \<Rightarrow>
       if ok then decode_loop ctx' out' ys else (False, ctx', out'))"
  by (induction ctx out xs rule: decode_loop.induct) (auto simp: Let_def split: option.splits)

lemma decode_loop_error: "decode_loop ctx out src = (True, ctx', out') \<Longrightarrow> error_encountered ctx' = error_encountered ctx"
  by (induction ctx out src rule: decode_loop.induct) (auto simp: Let_def split: option.splits if_splits)

text \<open>A caller that feeds an encoded text in pieces: \<open>None\<close> for an error in any of them.\<close>

fun decode_all :: "evp_encode_ctx \<Rightarrow> bytes list \<Rightarrow> bytes option" where
  "decode_all ctx [] = (if EVP_DecodeFinal ctx = 1 then Some [] else None)"
| "decode_all ctx (c # cs) =
     (case EVP_DecodeUpdate ctx c of (r, ctx', out) \<Rightarrow>
        if r < 0 then None else map_option ((@) out) (decode_all ctx' cs))"

lemma decode_all_loop:
  "decode_loop ctx [] (concat cs) = (True, ctx', out) \<Longrightarrow> \<not> error_encountered ctx \<Longrightarrow> data_used ctx' = 0 \<Longrightarrow>
     int (length out) \<le> INT_MAX \<Longrightarrow> decode_all ctx cs = Some out"
proof (induction cs arbitrary: ctx out)
  case Nil
  then show ?case by (simp add: EVP_DecodeFinal_def)
next
  case (Cons c cs)
  obtain ok ctx1 out1 where l: "decode_loop ctx [] c = (ok, ctx1, out1)" by (cases "decode_loop ctx [] c") auto
  have ok: ok and r: "decode_loop ctx1 out1 (concat cs) = (True, ctx', out)"
    using Cons.prems(1) l by (auto simp: decode_loop_app split: if_splits)
  obtain out2 where o: "decode_loop ctx1 [] (concat cs) = (True, ctx', out2)" "out = out1 @ out2"
    using r decode_loop_out [of ctx1 out1 "concat cs"] by (auto split: prod.splits)
  have e: "\<not> error_encountered ctx1" using decode_loop_error [of ctx "[]" c ctx1 out1] l ok Cons.prems(2) by simp
  have "decode_all ctx1 cs = Some out2"
    using Cons.IH [OF o(1) e Cons.prems(3)] Cons.prems(4) o(2) by simp
  moreover have "EVP_DecodeUpdate ctx c = ((if eof_seen ctx1 then 0 else 1), ctx1, out1)"
    using l ok Cons.prems(2,4) o(2) by (simp add: EVP_DecodeUpdate_def)
  ultimately show ?case using o(2) by simp
qed

definition dec_ready :: "evp_encode_ctx \<Rightarrow> bool" where
  "dec_ready ctx \<longleftrightarrow> data_used ctx = 0 \<and> length (data ctx) = 48"

lemma decode_loop_quad:
  assumes "dec_ready ctx" "\<not> eof_seen ctx" "\<not> is_space a" "\<not> is_space b" "\<not> is_space c" "\<not> is_space d"
    and "base64_decode_quad a b c d = Some bs"
  shows "\<exists>ctx'. decode_loop ctx out (a # b # c # d # src) = decode_loop ctx' (out @ bs) src \<and> dec_ready ctx'
    \<and> (eof_seen ctx' \<longleftrightarrow> length bs < 3)"
proof -
  obtain x0 x1 x2 x3 xs where data: "data ctx = x0 # x1 # x2 # x3 # xs"
  proof -
    have "4 \<le> length (data ctx)" using assms(1) by (simp add: dec_ready_def)
    then show thesis using that by (cases "data ctx"; cases "tl (data ctx)"; cases "tl (tl (data ctx))"; cases "tl (tl (tl (data ctx)))") auto
  qed
  show ?thesis
    using assms by (intro exI [of _ "ctx\<lparr>data := a # b # c # d # xs, data_used := 0, eof_seen := length bs < 3\<rparr>"])
      (simp add: dec_ready_def data Let_def)
qed

lemma not_space_equals: "\<not> is_space 0x3D"
  by (simp add: is_space_def)

lemma decode_loop_b64:
  "dec_ready ctx \<Longrightarrow> \<not> eof_seen ctx \<Longrightarrow> \<exists>ctx'. decode_loop ctx out (b64 xs @ src) = decode_loop ctx' (out @ xs) src
     \<and> dec_ready ctx' \<and> (eof_seen ctx' \<longleftrightarrow> length xs mod 3 \<noteq> 0)"
proof (induction xs arbitrary: ctx out rule: b64.induct)
  case 1
  then show ?case by auto
next
  case (2 a)
  obtain p q r s where v: "sextets (unat a * 65536) = [p, q, r, s]" "p < 64" "q < 64" by (rule sextetsE)
  from decode_loop_quad [OF "2.prems" _ _ not_space_equals not_space_equals decode_group(3) [OF v(1)], of out src]
  show ?case using b64_char_plain v by (simp add: v(1))
next
  case (3 a b)
  obtain p q r s where v: "sextets (unat a * 65536 + unat b * 256) = [p, q, r, s]" "p < 64" "q < 64" "r < 64"
    by (rule sextetsE)
  from decode_loop_quad [OF "3.prems" _ _ _ not_space_equals decode_group(2) [OF v(1)], of out src]
  show ?case using b64_char_plain v by (simp add: v(1))
next
  case (4 a b c xs)
  obtain p q r s where v: "sextets (unat a * 65536 + unat b * 256 + unat c) = [p, q, r, s]"
    "p < 64" "q < 64" "r < 64" "s < 64" by (rule sextetsE)
  from decode_loop_quad [OF "4.prems" _ _ _ _ decode_group(1) [OF v(1)], of out "b64 xs @ src"] b64_char_plain v
  obtain ctx1 where s: "decode_loop ctx out (b64 (a # b # c # xs) @ src) = decode_loop ctx1 (out @ [a, b, c]) (b64 xs @ src)"
    "dec_ready ctx1" "\<not> eof_seen ctx1" by (auto simp: v(1))
  obtain ctx' where "decode_loop ctx1 (out @ [a, b, c]) (b64 xs @ src) = decode_loop ctx' ((out @ [a, b, c]) @ xs) src"
    "dec_ready ctx'" "eof_seen ctx' \<longleftrightarrow> length xs mod 3 \<noteq> 0"
    using "4.IH" [OF s(2,3), of "out @ [a, b, c]"] by blast
  with s(1) show ?case by (intro exI [of _ ctx']) (simp add: mod_Suc_eq)
qed

lemma decode_loop_lines:
  "dec_ready ctx \<Longrightarrow> \<not> eof_seen ctx \<Longrightarrow>
     \<exists>ctx'. decode_loop ctx out (full_lines xs @ (if last_line xs = [] then [] else b64 (last_line xs) @ [0x0A]))
       = (True, ctx', out @ xs) \<and> data_used ctx' = 0"
proof (induction xs arbitrary: ctx out rule: full_lines.induct)
  case (1 xs)
  show ?case
  proof (cases "48 \<le> length xs")
    case False
    obtain ctx' where "decode_loop ctx out (b64 xs @ [0x0A]) = decode_loop ctx' (out @ xs) [0x0A]" "dec_ready ctx'"
      using decode_loop_b64 [OF "1.prems", of out xs "[0x0A]"] by blast
    moreover have "is_space 0x0A" by (simp add: is_space_def)
    ultimately show ?thesis
      using full_lines_short [of xs] False "1.prems" by (auto simp: dec_ready_def)
  next
    case True
    let ?tail = "full_lines (drop 48 xs) @
      (if last_line (drop 48 xs) = [] then [] else b64 (last_line (drop 48 xs)) @ [0x0A])"
    have l: "length (take 48 xs) mod 3 = 0" using True by simp
    from decode_loop_b64 [OF "1.prems", of out "take 48 xs" "0x0A # ?tail"] l obtain ctx1 where
      s: "decode_loop ctx out (b64 (take 48 xs) @ 0x0A # ?tail) = decode_loop ctx1 (out @ take 48 xs) (0x0A # ?tail)"
      "dec_ready ctx1" "\<not> eof_seen ctx1" by auto
    have sp: "is_space 0x0A" by (simp add: is_space_def)
    have f: "full_lines xs = b64 (take 48 xs) @ [0x0A] @ full_lines (drop 48 xs)" "last_line xs = last_line (drop 48 xs)"
      using full_lines_long [OF True, of "[]"] by simp_all
    from "1.IH" [OF True s(2,3), of "out @ take 48 xs"] obtain ctx' where
      "decode_loop ctx1 (out @ take 48 xs) ?tail = (True, ctx', out @ xs)" "data_used ctx' = 0" by auto
    moreover have "decode_loop ctx1 (out @ take 48 xs) (0x0A # ?tail) = decode_loop ctx1 (out @ take 48 xs) ?tail"
      using sp by simp
    ultimately show ?thesis using s(1) unfolding f by (metis append.assoc append_Cons append_Nil)
  qed
qed

section \<open>Properties\<close>

text \<open>
  C33. Streams of base64, cut anywhere: a text is fed to \<open>EVP_EncodeUpdate\<close> in pieces and the output is fed to
  \<open>EVP_DecodeUpdate\<close> in other pieces; every call succeeds and the decoded bytes are the text.
\<close>

theorem base64_stream_roundtrip:
  assumes "list_all (\<lambda>c. length c < 2 ^ 30) cs" "length (concat cs) < 2 ^ 31"
    and "concat ds = encode_all EVP_EncodeInit cs"
  shows "decode_all EVP_DecodeInit ds = Some (concat cs)"
proof -
  have "enc_ok EVP_EncodeInit" "pending EVP_EncodeInit = []" by (simp_all add: enc_ok_def pending_def EVP_EncodeInit_def)
  then have e: "concat ds = b64_lines (concat cs)" using encode_all_eq [of EVP_EncodeInit cs] assms by simp
  have "dec_ready EVP_DecodeInit" "\<not> eof_seen EVP_DecodeInit" by (simp_all add: dec_ready_def EVP_DecodeInit_def)
  from decode_loop_lines [OF this, of "[]" "concat cs"] obtain ctx' where
    "decode_loop EVP_DecodeInit [] (concat ds) = (True, ctx', concat cs)" "data_used ctx' = 0"
    by (auto simp: e b64_lines_def)
  from decode_all_loop [OF this(1) _ this(2)] assms(2) show ?thesis by (simp add: EVP_DecodeInit_def INT_MAX_def)
qed

lemma base64_stream_roundtrip_witness:
  "decode_all EVP_DecodeInit [[0x61, 0x47], [0x6B, 0x68, 0x0A]] = Some (concat [[0x68, 0x69], [0x21]])"
proof (rule base64_stream_roundtrip)
  have "enc_ok EVP_EncodeInit" "pending EVP_EncodeInit = []" by (simp_all add: enc_ok_def pending_def EVP_EncodeInit_def)
  then have "encode_all EVP_EncodeInit [[0x68, 0x69], [0x21]] = b64_lines [0x68, 0x69, 0x21]"
    using encode_all_eq [of EVP_EncodeInit "[[0x68, 0x69], [0x21]]"] by simp
  also have "\<dots> = [0x61, 0x47, 0x6B, 0x68, 0x0A]"
    by (simp add: b64_lines_def full_lines_short sextets_def b64_char_def)
  finally show "concat [[0x61, 0x47], [0x6B, 0x68, 0x0A]] = encode_all EVP_EncodeInit [[0x68, 0x69], [0x21]]" by simp
qed simp_all

text \<open>
  C34. Whole strings: \<open>EVP_EncodeBlock\<close> writes the base64 of RFC 4648 and a NUL and returns the length
  without it, \<open>EVP_EncodedLength\<close> announces exactly the bytes written, and \<open>EVP_DecodeBase64\<close> with room for
  three bytes per group gives the input back.
\<close>

theorem base64_block_roundtrip:
  assumes "length src < 2 ^ 60" "3 * ((length src + 2) div 3) \<le> unat max_out"
  shows "EVP_EncodeBlock src = (b64 src @ [0], of_nat (length (b64 src)))
    \<and> EVP_EncodedLength (of_nat (length src)) = Some (of_nat (length (b64 src @ [0])))
    \<and> EVP_DecodeBase64 max_out (b64 src) = Some src"
proof (intro conjI)
  define g where "g = (length src + 2) div 3"
  have g: "g \<le> 2 ^ 60" using assms(1) by (simp add: g_def)
  have n: "length (b64 src) = 4 * g" by (simp add: b64_length g_def)
  show "EVP_EncodeBlock src = (b64 src @ [0], of_nat (length (b64 src)))" by (rule EncodeBlock_eq)
  have two: "unat (of_nat (length src) + 2 :: u64) = length src + 2"
    using assms(1) u64_nat [of "length src + 2"] by (simp add: add.commute)
  have u: "unat (of_nat (length src) :: u64) = length src" using assms(1) by simp
  have d: "(of_nat (length src) + 2 :: u64) div 3 = of_nat g"
    using two g by (simp add: word_unat_eq_iff unat_div g_def)
  have p: "push_bit 2 (of_nat g :: u64) = of_nat (4 * g)" by (simp add: push_bit_eq_mult)
  have up: "unat (of_nat (4 * g) :: u64) = 4 * g" by (rule u64_nat) (use g in simp)
  have "drop_bit 2 (of_nat (4 * g) :: u64) = of_nat g"
    using up g by (simp add: word_unat_eq_iff unat_drop_bit_div)
  moreover have "\<not> (of_nat (4 * g) + 1 :: u64) < of_nat (4 * g)"
    using unat_add_nat [of "of_nat (4 * g)" 1] up g by (simp add: word_less_nat_alt)
  moreover have "\<not> (of_nat (length src) + 2 :: u64) < of_nat (length src)"
    using two u by (simp add: word_less_nat_alt)
  ultimately show "EVP_EncodedLength (of_nat (length src)) = Some (of_nat (length (b64 src @ [0])))"
    unfolding EVP_EncodedLength_def Let_def d p by (simp add: n)
  have m: "(of_nat (4 * g) :: u64) mod 4 = 0" "(of_nat (4 * g) :: u64) div 4 = of_nat g"
    using up g by (simp_all add: word_unat_eq_iff unat_mod unat_div)
  have "unat (of_nat g * 3 :: u64) = g * 3" using u64_nat [of "g * 3"] g by simp
  then have "\<not> max_out < of_nat g * 3" using assms(2) by (simp add: word_less_nat_alt g_def mult.commute)
  then show "EVP_DecodeBase64 max_out (b64 src) = Some src"
    using m by (simp only: EVP_DecodeBase64_def EVP_DecodedLength_def n decode_quads_b64) simp
qed

lemma base64_block_roundtrip_witness:
  "EVP_EncodeBlock [0x68, 0x69] = ([0x61, 0x47, 0x6B, 0x3D, 0], 4)
    \<and> EVP_EncodedLength 2 = Some 5 \<and> EVP_DecodeBase64 3 [0x61, 0x47, 0x6B, 0x3D] = Some [0x68, 0x69]"
proof -
  have b: "b64 [0x68, 0x69] = [0x61, 0x47, 0x6B, 0x3D]" by (simp add: sextets_def b64_char_def)
  from base64_block_roundtrip [of "[0x68, 0x69]" 3] show ?thesis by (simp add: b del: b64.simps)
qed

text \<open>
  The header says that \<open>EVP_DecodeBlock\<close> strips trailing minuses; it does not. And the bits that padding
  leaves over are ignored, so different texts decode to the same bytes.
\<close>

lemma decode_block_minus: "EVP_DecodeBlock [0x41, 0x41, 0x41, 0x41, 0x2D] = None"
  by (simp add: EVP_DecodeBlock_def is_space_def EVP_DecodedLength_def)

lemma decode_spare_bits: "decode_quads [0x41, 0x42, 0x3D, 0x3D] = decode_quads [0x41, 0x41, 0x3D, 0x3D]"
proof -
  have "(0x41 :: u8) = b64_char 0" "(0x42 :: u8) = b64_char 1" by (simp_all add: b64_char_def)
  then show ?thesis using decode_quad_chars(3) [of 0 0 0 0] decode_quad_chars(3) [of 0 1 0 0]
    by (simp add: quad_value_def Let_def)
qed

end
