(* ===== verification/Spec2Isabelle.thy ===== *)
theory Spec2Isabelle
  imports Prelude PbOstream PbIstream PbVarint32 PbCommon PbEncode PbWire
    PbDecode PbDecodeSafe PbDecodeStatic PbDecodeProps
    Cbs CbsDer CbsTyped Cbb CbbDer CbbTyped CbbOid CbbSetOf CbbFailure CbbUnicode CbsBer CbsBerTree
    Lhash Stack
    Asn1Julian Asn1String Asn1Object Asn1Integer Asn1Time Asn1Mbstr Asn1Strnid
    X509Host X509Check X509Ip X509Ncons
    Base64 Base64Props
begin

text \<open>
  The C code of the application is in the libraries that its iOS build compiles from source
  under \<open>src/ios/Pods\<close>. This development models those whose logic every Firestore request
  goes through: the protocol-buffer runtime \<open>nanopb\<close>, the byte-string layer of BoringSSL
  (crypto/bytestring), through which everything that the TLS stack parses or writes passes, and
  the primitive types of its ASN.1 library (crypto/asn1), which certificates are made of, the checks of
  the names in a certificate (crypto/x509v3, crypto/x509), with the base64 that PEM files are written in
  (crypto/base64) and the two containers that its libraries keep their objects in, hash tables
  (crypto/lhash) and stacks (crypto/stack).

  Theories, in the order of the code:

  \<^item> \<open>Prelude\<close>: machine integers, the flat memory, little-endian objects.
  \<^item> \<open>PbOstream\<close> (pb_encode.c): output streams, \<open>pb_write\<close>, the scalar encoders, and the
    interface \<open>pb_sink\<close> to output callbacks.
  \<^item> \<open>PbIstream\<close> (pb_decode.c): input streams, \<open>pb_read\<close>, the scalar decoders, skipping, and
    the interface \<open>pb_source\<close> to input callbacks.
  \<^item> \<open>PbVarint32\<close>: what the 32-bit varint decoder accepts and refuses.
  \<^item> \<open>PbCommon\<close> (pb_common.c): descriptors and the field iterator.
  \<^item> \<open>PbEncode\<close> (pb_encode.c): the message encoder.
  \<^item> \<open>PbWire\<close>: the wire format of a message as a function, and the refinement of the encoder to
    it, on sizing streams, buffers with room and buffers without.
  \<^item> \<open>PbDecode\<close> (pb_decode.c): the message decoder: defaults, release, static, pointer, callback and
    extension fields, and \<open>pb_decode\<close>.
  \<^item> \<open>PbDecodeSafe\<close>: the contract \<open>safe_dec\<close> of a decoding step: it returns, only consumes input, and
    writes only into a given region.
  \<^item> \<open>PbDecodeStatic\<close>: message types whose fields are all static (\<open>static_layout\<close>), and the contract
    for every part of the decoder on them, by induction on the nesting; the recursion needs two
    calls per level.
  \<^item> \<open>PbDecodeProps\<close>: what follows for \<open>pb_decode\<close>, and a concrete descriptor.
  \<^item> \<open>Cbs\<close> (cbs.c, mem.c): the parser \<open>CBS\<close>, its fixed-width and length-prefixed reads, the
    ASN.1 element parser and the typed readers.
  \<^item> \<open>CbsDer\<close>: DER as a function (\<open>der_element\<close>), and the element parser accepts exactly it.
  \<^item> \<open>CbsTyped\<close>: each typed reader accepts exactly the encodings of its results.
  \<^item> \<open>Cbb\<close> (cbb.c): the builder \<open>CBB\<close>: buffer, pending children, flush, writers.
  \<^item> \<open>CbbDer\<close>: the contract \<open>appends\<close> of builder steps, closed under sequencing and nesting.
  \<^item> \<open>CbbTyped\<close>: each writer appends the DER of its argument; the interface \<open>asn1_codec\<close> of a
    writer and the reader of the same type, and its round trips. A length prefix of more than three bytes
    stops the reader at an assertion, which is an outcome of the model.
  \<^item> \<open>CbbOid\<close> (cbs.c, cbb.c): object identifiers as dotted text, in both directions.
  \<^item> \<open>CbbSetOf\<close> (cbb.c, asn1_compat.c): the sorting of a SET OF, and \<open>CBB_finish_i2d\<close>. The C library's \<open>qsort\<close>
    is a parameter; \<open>sorts\<close> says what the C standard does (a sorted permutation, in whatever order of equal elements),
    for the interface \<open>comparison\<close> of a comparison function that is a total preorder.
  \<^item> \<open>CbbFailure\<close> (cbb.c): the calls on a builder as a datatype, and their sequences after a failure.
  \<^item> \<open>CbbUnicode\<close> (unicode.c): code points as UTF-8, Latin-1, UCS-2 and UTF-32, and the interface
    \<open>char_codec\<close> of a reader and a writer that belong together.
  \<^item> \<open>CbsBer\<close> (ber.c): BER to DER. The walk \<open>cbs_find_ber\<close> terminates by the length of its input; the
    conversion is a partial function, shown to return on every input.
  \<^item> \<open>CbsBerTree\<close>: BER values as trees; the conversion writes the DER encoding of the tree it reads,
    and DER input is returned in place.
  \<^item> \<open>Lhash\<close> (lhash/lhash.c): the chained hash table, the interface \<open>lhash_key\<close> of a hash and a comparison
    that belong together, and the refinement of a table to a map.
  \<^item> \<open>Stack\<close> (stack/stack.c): growing arrays with a sorted flag, the agreement of the binary and the
    linear search, and the refinement of a stack to a list. The list is specified by a relation, since \<open>qsort\<close> may leave
    equal elements in any order.
  \<^item> \<open>Asn1Julian\<close> (asn1/time_support.c): calendar arithmetic against the day count of the Gregorian
    calendar; one period of 400 years is evaluated, the rest follows.
  \<^item> \<open>Asn1String\<close> (asn1/asn1_lib.c, a_bitstr.c): \<open>ASN1_STRING\<close> objects, their order, bit strings.
  \<^item> \<open>Asn1Object\<close> (asn1/asn1_lib.c): element headers, read and written; the header that is written is the
    builder's (\<open>der_header\<close> of \<open>CbsDer\<close>).
  \<^item> \<open>Asn1Integer\<close> (asn1/a_int.c, a_enum.c): INTEGER and ENUMERATED objects against two's complement
    values (\<open>twos_val\<close>); the conversions from and to \<open>BIGNUM\<close> are left out.
  \<^item> \<open>Asn1Time\<close> (asn1/a_utctm.c, a_gentm.c, a_time.c): UTCTime and GeneralizedTime parsed, printed and
    compared; a read outside the heap block is the outcome \<open>None\<close>.
  \<^item> \<open>Asn1Mbstr\<close> (asn1/a_mbstr.c, a_strex.c): characters converted between encodings and the choice of
    the string type, over the four codecs of \<open>CbbUnicode\<close>.
  \<^item> \<open>Asn1Strnid\<close> (asn1/a_strnid.c): the limits of attribute strings: the built-in table, the registered
    entries in a hash table of \<open>Lhash\<close>, callers that interleave as a step relation, and strings within the limits.
  \<^item> \<open>X509Host\<close> (x509v3/v3_utl.c): names of a certificate compared with a host: case, prefixes, mailboxes and
    wildcards, and what a wildcard matches, stated on the labels of both; the names under a host that begins with
    a full stop (\<open>sub_domain\<close>).
  \<^item> \<open>X509Check\<close> (x509v3/v3_utl.c, x509/x509name.c): a certificate checked for a host, a mailbox or an address,
    over its alternative names or, without them, the common names of its subject.
  \<^item> \<open>X509Ip\<close> (x509v3/v3_utl.c, conf/conf.c): addresses as text, and the interface \<open>list_callback\<close> of the list parser
    to its callback; the texts that are IPv6 addresses are exactly those of \<open>ipv6_elems\<close>,
    whose groups and decimal numbers are defined apart from the code, by lists of digits.
  \<^item> \<open>X509Ncons\<close> (x509v3/v3_ncons.c, x509/x509_vfy.c): name constraints along a chain and the identity checks of its
    leaf, and what the two together say of the host that a leaf is accepted for.
  \<^item> \<open>Base64\<close> (base64/base64.c, the constant-time helpers of internal.h): blocks and streams of base64.
  \<^item> \<open>Base64Props\<close>: the helpers select, the characters are those of RFC 4648 (\<open>b64\<close>), and decoding undoes
    encoding however the stream is cut.

  What a specification calls a character (\<open>unicode_character\<close>), a PrintableString (\<open>printable_chars\<close>), a string
  type that BER may split (\<open>octet_string_tag\<close>), a digit (\<open>hex_val\<close>, \<open>dec_digits\<close>) or a text of base64 (\<open>b64\<close>) is
  defined apart from the code's own tests for it, and shown to agree with them. Each property names the range of
  inputs that it holds for, among them that the allocator (\<open>al_total\<close>) does not fail where the result needs memory.

  Bounds and fuel. The nested decoder and encoder of \<open>nanopb\<close> take fuel for the nesting of messages; two calls
  per level are enough (\<open>PbDecodeStatic\<close>). Every other loop is a function with a termination proof, or
  a partial function that is shown to return (\<open>CbsBer\<close>). The refinement of stacks is for fewer than \<open>2 ^ 60 - 4\<close>
  operations, that of hash tables for fewer than \<open>2 ^ 64\<close>: below these the counters cannot wrap around.

  Not modelled: the rest of BoringSSL (the bignum, cipher and curve code runs as assembly on the devices;
  the object, template and TLS layers and the rest of X.509 are tables of callbacks over many types or C++; a
  certificate is the record of what the name checks read, and the canonical encoding of a changed name is
  an argument of them), the conversions
  between INTEGER objects and \<open>BIGNUM\<close>, the printing of strings and names (a_strex.c), gRPC and its generated
  upb code, Firestore, abseil and LevelDB (C++ and Objective-C), the Dart application and the platform runners.
\<close>

end
